(* ===== verification/Bridge_Prelude.thy ===== *)
theory Bridge_Prelude
  imports Main "HOL-Library.Word" "HOL-Library.Multiset"
begin

text \<open>
  Shared vocabulary of the development: the machine integers and identifiers of the
  Rust sources as words of their width, one slice of a program's execution as a value that
  may be a panic, and the generic facts on lists, options and words that the components share.
\<close>

section \<open>Machine integers and identifiers\<close>

type_synonym u8 = "8 word"
type_synonym u32 = "32 word"
type_synonym u64 = "64 word"
type_synonym u128 = "128 word"
type_synonym u256 = "256 word"
type_synonym bytes = "8 word list"
type_synonym h160 = "160 word"
type_synonym h256 = "256 word"
type_synonym actor_id = "256 word"
type_synonym message_id = "256 word"
type_synonym slot = "64 word"

section \<open>Collections of facts\<close>

named_theorems exec_defs \<open>definitions of handlers, unfolded to run or invert them\<close>
named_theorems inv_intros \<open>preservation lemmas, one per operation that changes a state\<close>

section \<open>Execution slices\<close>

text \<open>
  A message handler runs until it returns, panics or waits for a reply. A panic reverts every
  change that the slice made to the program's memory. \<open>Ret\<close> carries the result of a slice that
  did not panic; \<open>commit\<close> is the memory that the runtime keeps after the slice.
\<close>

datatype 'a exec = Panic string | Ret 'a

primrec exec_bind :: "'a exec \<Rightarrow> ('a \<Rightarrow> 'b exec) \<Rightarrow> 'b exec" where
  "exec_bind (Panic m) f = Panic m"
| "exec_bind (Ret a) f = f a"

definition ensure :: "bool \<Rightarrow> string \<Rightarrow> unit exec" where
  "ensure b m = (if b then Ret () else Panic m)"

primrec commit :: "'s \<Rightarrow> ('r \<times> 's) exec \<Rightarrow> 's" where
  "commit s (Panic m) = s"
| "commit s (Ret p) = snd p"

definition panics :: "'a exec \<Rightarrow> bool" where
  "panics e = (case e of Panic _ \<Rightarrow> True | Ret _ \<Rightarrow> False)"

lemma panics_simps [simp]: "panics (Panic m)" "\<not> panics (Ret a)"
  by (simp_all add: panics_def)

lemma exec_bind_Ret_iff: "exec_bind e f = Ret b \<longleftrightarrow> (\<exists>a. e = Ret a \<and> f a = Ret b)"
  by (cases e) auto

lemma ensure_Ret_iff [simp]: "ensure b m = Ret u \<longleftrightarrow> b"
  by (auto simp: ensure_def)

lemma ensure_True [simp]: "ensure True m = Ret ()"
  by (simp add: ensure_def)

lemma ensure_False [simp]: "ensure False m = Panic m"
  by (simp add: ensure_def)

lemma commit_cases:
  obtains (panic) m where "e = Panic m" "commit s e = s"
  | (ret) r s' where "e = Ret (r, s')" "commit s e = s'"
  by (cases e) auto

section \<open>Results\<close>

text \<open>\<open>Result<T, E>\<close> is \<open>'e + 'a\<close>, with \<open>Inl\<close> for \<open>Err\<close> and \<open>Inr\<close> for \<open>Ok\<close>.\<close>

definition ok_or :: "'a option \<Rightarrow> 'e \<Rightarrow> 'e + 'a" where
  "ok_or x e = (case x of None \<Rightarrow> Inl e | Some a \<Rightarrow> Inr a)"

lemma ok_or_simps [simp]: "ok_or None e = Inl e" "ok_or (Some a) e = Inr a"
  by (simp_all add: ok_or_def)

lemma ok_or_Inr_iff: "ok_or x e = Inr a \<longleftrightarrow> x = Some a"
  by (cases x) auto

lemma ok_or_Inl_iff: "ok_or x e = Inl e' \<longleftrightarrow> x = None \<and> e' = e"
  by (cases x) auto

primrec result_or :: "'e + 'a \<Rightarrow> 'e + 'a \<Rightarrow> 'e + 'a" where
  "result_or (Inl e) r = r"
| "result_or (Inr a) r = Inr a"

primrec res_bind :: "'e + 'a \<Rightarrow> ('a \<Rightarrow> 'e + 'b) \<Rightarrow> 'e + 'b" where
  "res_bind (Inl e) f = Inl e"
| "res_bind (Inr a) f = f a"

lemma res_bind_Inr_iff: "res_bind x f = Inr b \<longleftrightarrow> (\<exists>a. x = Inr a \<and> f a = Inr b)"
  by (cases x) auto

section \<open>Lists\<close>

definition last_opt :: "'a list \<Rightarrow> 'a option" where
  "last_opt xs = (if xs = [] then None else Some (last xs))"

lemma last_opt_simps [simp]: "last_opt [] = None" "last_opt (xs @ [x]) = Some x"
  by (simp_all add: last_opt_def)

lemma last_opt_Some_iff: "last_opt xs = Some x \<longleftrightarrow> xs \<noteq> [] \<and> last xs = x"
  by (auto simp: last_opt_def)

definition nth_opt :: "'a list \<Rightarrow> nat \<Rightarrow> 'a option" where
  "nth_opt xs i = (if i < length xs then Some (xs ! i) else None)"

lemma nth_opt_Some_iff: "nth_opt xs i = Some x \<longleftrightarrow> i < length xs \<and> xs ! i = x"
  by (auto simp: nth_opt_def)

fun find_map :: "('a \<Rightarrow> 'b option) \<Rightarrow> 'a list \<Rightarrow> 'b option" where
  "find_map f [] = None"
| "find_map f (x # xs) = (case f x of None \<Rightarrow> find_map f xs | Some y \<Rightarrow> Some y)"

lemma find_map_SomeD:
  "find_map f xs = Some y \<Longrightarrow> \<exists>x \<in> set xs. f x = Some y"
  by (induction xs) (auto split: option.splits)

lemma find_map_None_iff: "find_map f xs = None \<longleftrightarrow> (\<forall>x \<in> set xs. f x = None)"
  by (induction xs) (auto split: option.splits)

lemma find_map_prefixE:
  assumes "find_map f xs = Some y"
  obtains us x vs where "xs = us @ x # vs" "f x = Some y" "\<forall>u \<in> set us. f u = None"
  using assms
proof (induction xs arbitrary: thesis)
  case Nil
  then show ?case by simp
next
  case (Cons a xs)
  show ?case
  proof (cases "f a")
    case None
    with Cons.prems(2) obtain us x vs
      where "xs = us @ x # vs" "f x = Some y" "\<forall>u \<in> set us. f u = None"
      using Cons.IH by auto
    with None show ?thesis by (intro Cons.prems(1) [of "a # us" x vs]) auto
  next
    case (Some b)
    with Cons.prems(2) show ?thesis by (intro Cons.prems(1) [of "[]" a xs]) auto
  qed
qed

section \<open>Byte encodings of words\<close>

primrec le_bytes :: "nat \<Rightarrow> 'a::len word \<Rightarrow> bytes" where
  "le_bytes 0 w = []"
| "le_bytes (Suc n) w = ucast w # le_bytes n (drop_bit 8 w)"

primrec of_le_bytes :: "bytes \<Rightarrow> 'a::len word" where
  "of_le_bytes [] = 0"
| "of_le_bytes (b # bs) = ucast b + 256 * of_le_bytes bs"

definition be_bytes :: "nat \<Rightarrow> 'a::len word \<Rightarrow> bytes" where
  "be_bytes n w = rev (le_bytes n w)"

definition of_be_bytes :: "bytes \<Rightarrow> 'a::len word" where
  "of_be_bytes bs = of_le_bytes (rev bs)"

lemma length_le_bytes [simp]: "length (le_bytes n w) = n"
  by (induction n arbitrary: w) auto

lemma length_be_bytes [simp]: "length (be_bytes n w) = n"
  by (simp add: be_bytes_def)

lemma unat_low_byte: "unat (ucast w :: u8) = unat w mod 256"
  by (simp only: unsigned_ucast_eq) (simp add: take_bit_nat_def)

lemma unat_drop_byte: "unat (drop_bit 8 w) = unat w div 256"
  by (simp add: unat_drop_bit_eq drop_bit_nat_def)

lemma word_split_byte: "ucast (ucast w :: u8) + 256 * drop_bit 8 w = (w :: 'a::len word)"
proof -
  have "(ucast (ucast w :: u8) :: 'a word) = of_nat (unat w mod 256)"
    by (simp only: unat_low_byte [symmetric] of_nat_unat)
  moreover have "drop_bit 8 w = of_nat (unat w div 256)"
    by (simp only: unat_drop_byte [symmetric] of_nat_unat ucast_id)
  ultimately have "ucast (ucast w :: u8) + 256 * drop_bit 8 w
      = (of_nat (unat w mod 256 + 256 * (unat w div 256)) :: 'a word)"
    by (simp only: of_nat_add of_nat_mult of_nat_numeral)
  also have "\<dots> = of_nat (unat w)" by (simp only: mod_mult_div_eq)
  finally show ?thesis by simp
qed

lemma of_le_bytes_le_bytes: "unat w < 2 ^ (8 * n) \<Longrightarrow> of_le_bytes (le_bytes n w) = w"
proof (induction n arbitrary: w)
  case 0
  then show ?case by (simp add: unat_eq_zero)
next
  case (Suc n)
  from Suc.prems have "unat w div 256 < 2 ^ (8 * n)" by (simp add: power_add less_mult_imp_div_less)
  then have "of_le_bytes (le_bytes n (drop_bit 8 w)) = drop_bit 8 w"
    by (intro Suc.IH) (simp add: unat_drop_byte)
  then show ?case by (simp add: word_split_byte)
qed

lemma of_be_bytes_be_bytes:
  "LENGTH('a) \<le> 8 * n \<Longrightarrow> of_be_bytes (be_bytes n w) = (w :: 'a::len word)"
proof -
  assume "LENGTH('a) \<le> 8 * n"
  then have "2 ^ LENGTH('a) \<le> (2 :: nat) ^ (8 * n)" by (rule power_increasing) simp
  then have "unat w < 2 ^ (8 * n)" using unsigned_less [of w, where ?'a = nat] by linarith
  then show ?thesis by (simp add: of_be_bytes_def be_bytes_def of_le_bytes_le_bytes)
qed

lemma be_bytes_inject:
  "LENGTH('a) \<le> 8 * n \<Longrightarrow> be_bytes n v = be_bytes n w \<longleftrightarrow> v = (w :: 'a::len word)"
  by (metis of_be_bytes_be_bytes)

end
