(* ===== verification/Rust_Slice.thy ===== *)
theory Rust_Slice
  imports Bridge_Prelude
begin

text \<open>
  The parts of Rust's standard library for ordered slices that the sources use:
  \<open>Ord::cmp\<close>, \<open>binary_search_by\<close> (the loop of the standard library of the toolchain
  that \<open>rust-toolchain.toml\<close> pins) and the contract of \<open>sort_unstable_by\<close>. The locale
  \<open>slice_search\<close> is the documented contract of a slice search; its clients are proved against
  the contract and \<open>binary_search_by\<close> is shown to satisfy it.
\<close>

section \<open>Orderings\<close>

datatype ordering = Less | Equal | Greater

definition cmp :: "'a::linorder \<Rightarrow> 'a \<Rightarrow> ordering" where
  "cmp a b = (if a < b then Less else if a = b then Equal else Greater)"

lemma cmp_simps [simp]:
  "cmp a b = Less \<longleftrightarrow> a < b" "cmp a b = Equal \<longleftrightarrow> a = b" "cmp a b = Greater \<longleftrightarrow> b < a"
  by (auto simp: cmp_def)

primrec rank :: "ordering \<Rightarrow> nat" where
  "rank Less = 0"
| "rank Equal = 1"
| "rank Greater = 2"

text \<open>A slice is ordered for a probe when the answers run Less, then Equal, then Greater.\<close>

definition probe_sorted :: "('a \<Rightarrow> ordering) \<Rightarrow> 'a list \<Rightarrow> bool" where
  "probe_sorted f xs = sorted_wrt (\<lambda>a b. rank (f a) \<le> rank (f b)) xs"

lemma rank_le_simps:
  "rank a = 0 \<longleftrightarrow> a = Less" "2 \<le> rank a \<longleftrightarrow> a = Greater"
  by (cases a; simp)+

lemma probe_sorted_nth:
  "probe_sorted f xs \<Longrightarrow> i \<le> j \<Longrightarrow> j < length xs \<Longrightarrow> rank (f (xs ! i)) \<le> rank (f (xs ! j))"
  by (cases "i = j") (auto simp: probe_sorted_def sorted_wrt_iff_nth_less)

lemma probe_sorted_Greater:
  "probe_sorted f xs \<Longrightarrow> f (xs ! i) = Greater \<Longrightarrow> i \<le> j \<Longrightarrow> j < length xs \<Longrightarrow> f (xs ! j) = Greater"
  using probe_sorted_nth [of f xs i j] by (simp add: rank_le_simps)

lemma probe_sorted_Less:
  "probe_sorted f xs \<Longrightarrow> f (xs ! j) = Less \<Longrightarrow> i \<le> j \<Longrightarrow> j < length xs \<Longrightarrow> f (xs ! i) = Less"
  using probe_sorted_nth [of f xs i j] by (simp add: rank_le_simps)

lemma probe_sorted_mono:
  assumes "sorted_wrt R xs" and "\<And>a b. R a b \<Longrightarrow> rank (f a) \<le> rank (f b)"
  shows "probe_sorted f xs"
  unfolding probe_sorted_def using assms by (blast intro: sorted_wrt_mono_rel)

section \<open>The binary search loop\<close>

function bs_loop :: "('a \<Rightarrow> ordering) \<Rightarrow> 'a list \<Rightarrow> nat \<Rightarrow> nat \<Rightarrow> nat" where
  "bs_loop f xs base sz =
     (if sz \<le> 1 then base
      else let half = sz div 2; mid = base + half in
        bs_loop f xs (if f (xs ! mid) = Greater then base else mid) (sz - half))"
  by pat_completeness auto
termination
  by (relation "measure (\<lambda>(f, xs, base, sz). sz)") auto

declare bs_loop.simps [simp del]

definition binary_search_by :: "('a \<Rightarrow> ordering) \<Rightarrow> 'a list \<Rightarrow> nat + nat" where
  "binary_search_by f xs =
     (if xs = [] then Inl 0
      else let base = bs_loop f xs 0 (length xs) in
        case f (xs ! base) of
          Equal \<Rightarrow> Inr base
        | Less \<Rightarrow> Inl (base + 1)
        | Greater \<Rightarrow> Inl base)"

lemma bs_loop_inv:
  assumes "probe_sorted f xs" and "base + sz \<le> length xs" and "0 < sz"
    and "base = 0 \<or> f (xs ! base) \<noteq> Greater"
    and "\<forall>j. base + sz \<le> j \<and> j < length xs \<longrightarrow> f (xs ! j) = Greater"
  shows "bs_loop f xs base sz < length xs
    \<and> (bs_loop f xs base sz = 0 \<or> f (xs ! bs_loop f xs base sz) \<noteq> Greater)
    \<and> (\<forall>j. bs_loop f xs base sz < j \<and> j < length xs \<longrightarrow> f (xs ! j) = Greater)"
  using assms
proof (induction f xs base sz rule: bs_loop.induct)
  case (1 f xs base sz)
  show ?case
  proof (cases "sz \<le> 1")
    case True
    with "1.prems" show ?thesis by (auto simp: bs_loop.simps [of f xs base sz])
  next
    case False
    define half where "half = sz div 2"
    define base' where "base' = (if f (xs ! (base + half)) = Greater then base else base + half)"
    have half: "0 < half" "half < sz" "half \<le> sz - half" using False by (auto simp: half_def)
    have mid: "base + half < length xs" using half "1.prems"(2) by simp
    have tail: "f (xs ! j) = Greater" if "base' + (sz - half) \<le> j" "j < length xs" for j
    proof (cases "f (xs ! (base + half)) = Greater")
      case True
      with that half have "base + half \<le> j" by (simp add: base'_def)
      with True "1.prems"(1) that(2) show ?thesis by (blast intro: probe_sorted_Greater)
    next
      case False
      with that half have "base + sz \<le> j" by (simp add: base'_def)
      with "1.prems"(5) that(2) show ?thesis by blast
    qed
    have le: "base' + (sz - half) \<le> length xs"
      using "1.prems"(2) half by (auto simp: base'_def)
    have head: "base' = 0 \<or> f (xs ! base') \<noteq> Greater"
      using "1.prems"(4) by (simp add: base'_def)
    have "bs_loop f xs base sz = bs_loop f xs base' (sz - half)"
      using False by (subst bs_loop.simps) (simp add: Let_def half_def base'_def)
    moreover have "bs_loop f xs base' (sz - half) < length xs
        \<and> (bs_loop f xs base' (sz - half) = 0 \<or> f (xs ! bs_loop f xs base' (sz - half)) \<noteq> Greater)
        \<and> (\<forall>j. bs_loop f xs base' (sz - half) < j \<and> j < length xs \<longrightarrow> f (xs ! j) = Greater)"
      by (rule "1.IH" [OF False half_def refl "1.prems"(1), folded base'_def])
        (use le half head tail in auto)
    ultimately show ?thesis by simp
  qed
qed

lemma bs_loop_top:
  assumes "probe_sorted f xs" and "xs \<noteq> []"
  shows "bs_loop f xs 0 (length xs) < length xs"
    "bs_loop f xs 0 (length xs) = 0 \<or> f (xs ! bs_loop f xs 0 (length xs)) \<noteq> Greater"
    "\<And>j. bs_loop f xs 0 (length xs) < j \<Longrightarrow> j < length xs \<Longrightarrow> f (xs ! j) = Greater"
proof -
  have "\<forall>j. 0 + length xs \<le> j \<and> j < length xs \<longrightarrow> f (xs ! j) = Greater" by auto
  from bs_loop_inv [OF assms(1) _ _ _ this] assms(2)
  show "bs_loop f xs 0 (length xs) < length xs"
    "bs_loop f xs 0 (length xs) = 0 \<or> f (xs ! bs_loop f xs 0 (length xs)) \<noteq> Greater"
    "\<And>j. bs_loop f xs 0 (length xs) < j \<Longrightarrow> j < length xs \<Longrightarrow> f (xs ! j) = Greater"
    by simp_all
qed

text \<open>
  The search returns the last of the matching elements, or the one position where an element
  that compares Equal could be inserted.
\<close>

lemma binary_search_by_Ok:
  assumes "probe_sorted f xs" and "binary_search_by f xs = Inr i"
  shows "i < length xs" "f (xs ! i) = Equal" "\<And>j. i < j \<Longrightarrow> j < length xs \<Longrightarrow> f (xs ! j) = Greater"
  using assms bs_loop_top [OF assms(1)]
  by (auto simp: binary_search_by_def Let_def split: if_splits ordering.splits)

lemma binary_search_by_Err:
  assumes "probe_sorted f xs" and "binary_search_by f xs = Inl i"
  shows "i \<le> length xs" "\<And>j. j < i \<Longrightarrow> f (xs ! j) = Less"
    "\<And>j. i \<le> j \<Longrightarrow> j < length xs \<Longrightarrow> f (xs ! j) = Greater"
proof -
  define b where "b = bs_loop f xs 0 (length xs)"
  have inv: "b < length xs" "b = 0 \<or> f (xs ! b) \<noteq> Greater"
    "\<And>j. b < j \<Longrightarrow> j < length xs \<Longrightarrow> f (xs ! j) = Greater" if "xs \<noteq> []"
    using that bs_loop_top [OF assms(1)] by (simp_all add: b_def)
  have cases: "xs = [] \<and> i = 0 \<or> xs \<noteq> [] \<and>
      (f (xs ! b) = Less \<and> i = Suc b \<or> f (xs ! b) = Greater \<and> i = b)"
    using assms(2) by (auto simp: binary_search_by_def b_def Let_def split: if_splits ordering.splits)
  show "i \<le> length xs" using cases inv by auto
  show "f (xs ! j) = Less" if "j < i" for j
    using cases inv that probe_sorted_Less [OF assms(1), of b j] by auto
  show "f (xs ! j) = Greater" if "i \<le> j" "j < length xs" for j
    using cases inv that probe_sorted_Greater [OF assms(1), of b j] by auto
qed

section \<open>The contract of a slice search\<close>

text \<open>
  What \<open>slice::binary_search_by\<close> documents: on a slice that is ordered for the probe, \<open>Ok i\<close> is
  the index of some match and \<open>Err i\<close> the insertion point. Which match is returned is left open.
\<close>

locale slice_search =
  fixes search :: "('a \<Rightarrow> ordering) \<Rightarrow> 'a list \<Rightarrow> nat + nat"
  assumes search_Ok: "probe_sorted f xs \<Longrightarrow> search f xs = Inr i \<Longrightarrow>
      i < length xs \<and> f (xs ! i) = Equal"
    and search_Err: "probe_sorted f xs \<Longrightarrow> search f xs = Inl i \<Longrightarrow>
      i \<le> length xs \<and> (\<forall>j < i. f (xs ! j) = Less) \<and>
      (\<forall>j. i \<le> j \<and> j < length xs \<longrightarrow> f (xs ! j) = Greater)"
begin

text \<open>An element is found exactly when one matches.\<close>

lemma search_Err_iff:
  assumes "probe_sorted f xs"
  shows "(\<exists>i. search f xs = Inl i) \<longleftrightarrow> (\<forall>x \<in> set xs. f x \<noteq> Equal)"
proof (cases "search f xs")
  case (Inl i)
  have "f (xs ! j) \<noteq> Equal" if "j < length xs" for j
    using search_Err [OF assms Inl] that by (cases "j < i") auto
  with Inl show ?thesis by (auto simp: in_set_conv_nth)
next
  case (Inr i)
  with search_Ok [OF assms Inr] show ?thesis by (auto intro: nth_mem)
qed

text \<open>
  With at most one match, the index returned, in \<open>Ok\<close> or in \<open>Err\<close>, is the number of elements that
  compare Less: the lower bound of the probe.
\<close>

lemma search_lower_bound:
  assumes sorted: "probe_sorted f xs"
    and unique: "\<And>i j. i < length xs \<Longrightarrow> j < length xs \<Longrightarrow> f (xs ! i) = Equal \<Longrightarrow>
      f (xs ! j) = Equal \<Longrightarrow> i = j"
    and res: "search f xs = Inr i \<or> search f xs = Inl i"
  shows "i \<le> length xs" "\<And>j. j < i \<Longrightarrow> f (xs ! j) = Less"
    "\<And>j. i \<le> j \<Longrightarrow> j < length xs \<Longrightarrow> f (xs ! j) \<noteq> Less"
proof -
  show "i \<le> length xs"
    using res search_Ok [OF sorted] search_Err [OF sorted] by fastforce
  show "f (xs ! j) = Less" if "j < i" for j
  proof (cases "search f xs = Inr i")
    case True
    with search_Ok [OF sorted] have i: "i < length xs" "f (xs ! i) = Equal" by auto
    with that unique [of j i] have "f (xs ! j) \<noteq> Equal" by auto
    moreover have "f (xs ! j) \<noteq> Greater"
      using probe_sorted_Greater [OF sorted, of j i] i that by auto
    ultimately show ?thesis by (cases "f (xs ! j)") auto
  next
    case False
    with res search_Err [OF sorted] that show ?thesis by blast
  qed
  show "f (xs ! j) \<noteq> Less" if "i \<le> j" "j < length xs" for j
  proof (cases "search f xs = Inr i")
    case True
    with search_Ok [OF sorted] have i: "i < length xs" "f (xs ! i) = Equal" by auto
    show ?thesis
      using probe_sorted_Less [OF sorted, of j i] i that by auto
  next
    case False
    with res search_Err [OF sorted] that show ?thesis by fastforce
  qed
qed

text \<open>
  Two uses of a search by key on a slice with strictly increasing keys: the first element at or
  after the key, and the last element at or before it.
\<close>

lemma probe_by_key:
  fixes key :: "'a \<Rightarrow> 'k::linorder"
  assumes "sorted_wrt (\<lambda>a b. key a < key b) xs"
  shows "probe_sorted (\<lambda>x. cmp (key x) k) xs"
    and "i < length xs \<Longrightarrow> j < length xs \<Longrightarrow> cmp (key (xs ! i)) k = Equal \<Longrightarrow>
      cmp (key (xs ! j)) k = Equal \<Longrightarrow> i = j"
proof -
  show "probe_sorted (\<lambda>x. cmp (key x) k) xs"
    by (rule probe_sorted_mono [OF assms]) (auto simp: cmp_def)
  show "i = j" if "i < length xs" "j < length xs" "cmp (key (xs ! i)) k = Equal"
      "cmp (key (xs ! j)) k = Equal"
    using assms that by (auto simp: sorted_wrt_iff_nth_less) (metis less_irrefl nat_neq_iff)
qed

lemma search_find_ge:
  fixes key :: "'a \<Rightarrow> 'k::linorder"
  assumes sorted: "sorted_wrt (\<lambda>a b. key a < key b) xs"
    and res: "search (\<lambda>x. cmp (key x) k) xs = Inr i \<or> search (\<lambda>x. cmp (key x) k) xs = Inl i"
  shows "nth_opt xs i = find (\<lambda>x. k \<le> key x) xs"
proof -
  note lb = search_lower_bound [OF probe_by_key(1) [OF sorted] probe_by_key(2) [OF sorted] res]
  show ?thesis
  proof (cases "i < length xs")
    case True
    then have "cmp (key (xs ! i)) k \<noteq> Less" by (intro lb(3)) auto
    then have "k \<le> key (xs ! i)" by (simp add: not_less)
    moreover have "\<forall>j < i. \<not> k \<le> key (xs ! j)" using lb(2) by (simp add: not_le)
    ultimately have "find (\<lambda>x. k \<le> key x) xs = Some (xs ! i)"
      using True by (auto simp: find_Some_iff)
    with True show ?thesis by (simp add: nth_opt_def)
  next
    case False
    with lb(1) have "i = length xs" by simp
    with lb(2) have "\<forall>x \<in> set xs. key x < k" by (auto simp: in_set_conv_nth)
    then have "find (\<lambda>x. k \<le> key x) xs = None" by (auto simp: find_None_iff)
    with False show ?thesis by (simp add: nth_opt_def)
  qed
qed

lemma search_find_le:
  fixes key :: "'a \<Rightarrow> 'k::linorder"
  assumes sorted: "sorted_wrt (\<lambda>a b. key a < key b) xs"
  shows "search (\<lambda>x. cmp (key x) k) xs = Inr i \<Longrightarrow> find (\<lambda>x. key x \<le> k) (rev xs) = Some (xs ! i)"
    and "search (\<lambda>x. cmp (key x) k) xs = Inl i \<Longrightarrow>
      find (\<lambda>x. key x \<le> k) (rev xs) = (if i = 0 then None else Some (xs ! (i - 1)))"
proof -
  have last_le: "find (\<lambda>x. key x \<le> k) (rev xs) = Some (xs ! m)"
    if "m < length xs" "key (xs ! m) \<le> k" "\<And>j. m < j \<Longrightarrow> j < length xs \<Longrightarrow> k < key (xs ! j)" for m
  proof -
    have "\<not> key (rev xs ! j) \<le> k" if "j < length xs - Suc m" for j
      using that \<open>m < length xs\<close> \<open>\<And>j. m < j \<Longrightarrow> j < length xs \<Longrightarrow> k < key (xs ! j)\<close> [of "length xs - Suc j"]
      by (simp add: rev_nth not_le)
    moreover have "rev xs ! (length xs - Suc m) = xs ! m" using that(1) by (simp add: rev_nth)
    ultimately show ?thesis using that(1,2)
      by (auto simp: find_Some_iff intro!: exI [of _ "length xs - Suc m"])
  qed
  note ps = probe_by_key(1) [OF sorted]
  show "find (\<lambda>x. key x \<le> k) (rev xs) = Some (xs ! i)"
    if "search (\<lambda>x. cmp (key x) k) xs = Inr i"
  proof (rule last_le)
    from search_Ok [OF ps that] show i: "i < length xs" and "key (xs ! i) \<le> k" by auto
    from search_Ok [OF ps that] have "key (xs ! i) = k" by simp
    then show "k < key (xs ! j)" if "i < j" "j < length xs" for j
      using sorted that by (auto simp: sorted_wrt_iff_nth_less)
  qed
  show "find (\<lambda>x. key x \<le> k) (rev xs) = (if i = 0 then None else Some (xs ! (i - 1)))"
    if "search (\<lambda>x. cmp (key x) k) xs = Inl i"
  proof (cases "i = 0")
    case True
    with search_Err [OF ps that] have "\<forall>x \<in> set xs. k < key x" by (auto simp: in_set_conv_nth)
    with True show ?thesis by (auto simp: find_None_iff)
  next
    case False
    have "find (\<lambda>x. key x \<le> k) (rev xs) = Some (xs ! (i - 1))"
      by (rule last_le) (use search_Err [OF ps that] False in \<open>auto simp: less_imp_le\<close>)
    with False show ?thesis by simp
  qed
qed

end

interpretation rust: slice_search "binary_search_by :: ('a \<Rightarrow> ordering) \<Rightarrow> 'a list \<Rightarrow> nat + nat"
proof
  fix f :: "'a \<Rightarrow> ordering" and xs i
  assume sorted: "probe_sorted f xs"
  show "i < length xs \<and> f (xs ! i) = Equal" if "binary_search_by f xs = Inr i"
    using binary_search_by_Ok [OF sorted that] by simp
  show "i \<le> length xs \<and> (\<forall>j < i. f (xs ! j) = Less) \<and>
      (\<forall>j. i \<le> j \<and> j < length xs \<longrightarrow> f (xs ! j) = Greater)" if "binary_search_by f xs = Inl i"
    using binary_search_by_Err [OF sorted that] by simp
qed

end
