(* ===== verification/Eth_Consensus.thy ===== *)
theory Eth_Consensus
  imports Rust_Slice
begin

text \<open>
  The consensus rules of \<open>ethereum-common\<close>: slots, epochs and sync committee periods
  (\<open>utils.rs\<close>), the supported networks and their fork schedule (\<open>network.rs\<close>), Merkle branches and
  their generalized indices (\<open>merkle.rs\<close>), and signing roots (\<open>signing_root.rs\<close>). SHA-256 and the
  SSZ tree hashes come from other crates and are parameters.
\<close>

section \<open>Slots, epochs and periods\<close>

definition SLOTS_PER_EPOCH :: u64 where "SLOTS_PER_EPOCH = 32"
definition EPOCHS_PER_SYNC_COMMITTEE :: u64 where "EPOCHS_PER_SYNC_COMMITTEE = 256"
definition SYNC_COMMITTEE_SIZE :: nat where "SYNC_COMMITTEE_SIZE = 512"
definition DOMAIN_SYNC_COMMITTEE :: bytes where "DOMAIN_SYNC_COMMITTEE = [0x07, 0x00, 0x00, 0x00]"

definition calculate_epoch :: "u64 \<Rightarrow> u64" where
  "calculate_epoch slot = slot div SLOTS_PER_EPOCH"

definition calculate_period :: "u64 \<Rightarrow> u64" where
  "calculate_period slot = calculate_epoch slot div EPOCHS_PER_SYNC_COMMITTEE"

definition calculate_slot :: "u64 \<Rightarrow> u64" where
  "calculate_slot period = period * SLOTS_PER_EPOCH * EPOCHS_PER_SYNC_COMMITTEE"

lemma unat_calculate_epoch: "unat (calculate_epoch s) = unat s div 32"
  by (simp add: calculate_epoch_def SLOTS_PER_EPOCH_def unat_div_distrib)

lemma unat_calculate_period: "unat (calculate_period s) = unat s div 8192"
  by (simp add: calculate_period_def EPOCHS_PER_SYNC_COMMITTEE_def unat_div_distrib
      unat_calculate_epoch flip: div_mult2_eq)

lemma unat_u64_less: "unat (x :: u64) < 2 ^ 64"
  using unsigned_less [of x, where ?'a = nat] by simp

lemma calculate_epoch_bound: "unat (calculate_epoch s) < 2 ^ 59"
  using unat_u64_less [of s] by (simp add: unat_calculate_epoch less_mult_imp_div_less)

lemma calculate_period_bound: "unat (calculate_period s) < 2 ^ 51"
  using unat_u64_less [of s] by (simp add: unat_calculate_period less_mult_imp_div_less)

lemma unat_period_Suc: "unat (calculate_period s + 1) = Suc (unat (calculate_period s))"
proof -
  have "Suc (unat (calculate_period s)) < 2 ^ 64" using calculate_period_bound [of s] by simp
  then show ?thesis by (simp add: unat_word_ariths)
qed

lemma unat_epoch_plus_small:
  "n < 2 ^ 59 \<Longrightarrow> unat (calculate_epoch s + of_nat n) = unat (calculate_epoch s) + n"
  using calculate_epoch_bound [of s] by (simp add: unat_word_ariths take_bit_nat_eq_self unsigned_of_nat)

lemma calculate_epoch_mono: "s \<le> t \<Longrightarrow> calculate_epoch s \<le> calculate_epoch t"
  by (simp add: word_le_nat_alt unat_calculate_epoch div_le_mono)

lemma calculate_period_mono: "s \<le> t \<Longrightarrow> calculate_period s \<le> calculate_period t"
  by (simp add: word_le_nat_alt unat_calculate_period div_le_mono)

text \<open>The first slot of a period lies in that period, for every period that fits.\<close>

lemma calculate_period_slot:
  assumes "unat p < 2 ^ 51"
  shows "calculate_period (calculate_slot p) = p"
proof -
  have "unat (calculate_slot p) = unat p * 8192"
  proof -
    have "unat p * 8192 < 2 ^ 64" using assms by simp
    then show ?thesis
      by (simp add: calculate_slot_def SLOTS_PER_EPOCH_def EPOCHS_PER_SYNC_COMMITTEE_def
          unat_word_ariths mod_mult_left_eq mult.assoc)
  qed
  then show ?thesis by (simp add: word_eq_iff_unsigned [where ?'a = nat] unat_calculate_period)
qed

section \<open>Networks\<close>

datatype network = Mainnet | Sepolia | Holesky | Hoodi

primrec genesis_validators_root :: "network \<Rightarrow> h256" where
  "genesis_validators_root Mainnet =
     0x4b363db94e286120d76eb905340fdd4e54bfe9f06bf33ff6cf5ad27f511bfe95"
| "genesis_validators_root Sepolia =
     0xd8ea171f3c94aea21ebc42a1ed61052acf3f9209c00e4efbaaddac09ed9b8078"
| "genesis_validators_root Holesky =
     0x9143aa7c615a7f7115e2b6aac319c03529df8242ae705fba9df39b79c59fa8b1"
| "genesis_validators_root Hoodi =
     0x212f13fc4df078b6cb7db228f1c8307566dcecf900867401a92023d7ba99cb5f"

primrec epoch_electra :: "network \<Rightarrow> u64" where
  "epoch_electra Holesky = 115968"
| "epoch_electra Sepolia = 222464"
| "epoch_electra Hoodi = 2048"
| "epoch_electra Mainnet = 364032"

definition fork_version :: "network \<Rightarrow> u64 \<Rightarrow> bytes" where
  "fork_version net slot =
     (let electra = epoch_electra net; epoch = calculate_epoch slot in
      case net of
        Mainnet \<Rightarrow> if epoch \<ge> electra then [0x05, 0x00, 0x00, 0x00] else [0x04, 0x00, 0x00, 0x00]
      | Sepolia \<Rightarrow> if epoch \<ge> electra then [0x90, 0x00, 0x00, 0x74] else [0x90, 0x00, 0x00, 0x73]
      | Holesky \<Rightarrow> if epoch \<ge> electra then [0x06, 0x01, 0x70, 0x00] else [0x05, 0x01, 0x70, 0x00]
      | Hoodi \<Rightarrow> if epoch \<ge> electra then [0x60, 0x00, 0x09, 0x10] else [0x50, 0x00, 0x09, 0x10])"

section \<open>Headers and committees\<close>

record header =
  slot_of :: u64
  proposer_index :: u64
  parent_root :: h256
  state_root :: h256
  body_root :: h256

type_synonym bls_pub_key = bytes

record sync_committee =
  pubkeys :: "bls_pub_key list"
  aggregate_pubkey :: bls_pub_key

record sync_aggregate =
  sync_committee_bits :: "bool list"
  sync_committee_signature_bytes :: bytes

section \<open>Sorting headers\<close>

text \<open>
  The contract of \<open>sort_unstable_by\<close> on the slots of a vector of headers: a permutation with
  ascending slots, the order of equal slots left open. With distinct slots the result is determined.
\<close>

locale header_sort =
  fixes sort_by_slot :: "header list \<Rightarrow> header list"
  assumes sort_perm: "mset (sort_by_slot hs) = mset hs"
    and sort_sorted: "sorted (map slot_of (sort_by_slot hs))"
begin

lemma sort_distinct_slots:
  assumes "mset hs = mset gs" and "sorted_wrt (\<lambda>a b. slot_of b < slot_of a) gs"
  shows "rev (sort_by_slot hs) = gs"
proof -
  have sorted: "sorted (map slot_of (rev gs))"
    using assms(2) by (simp add: sorted_map sorted_wrt_rev) (auto elim: sorted_wrt_mono_rel [rotated])
  have "distinct (map slot_of gs)"
    using assms(2) by (induction gs) auto
  then have "inj_on slot_of (set (sort_by_slot hs))"
    by (metis assms(1) distinct_map sort_perm set_mset_mset)
  then have "sort_key slot_of (sort_by_slot hs) = rev gs"
    using sorted by (intro sort_key_inj_key_eq) (simp_all add: sort_perm assms(1))
  moreover have "sort_key slot_of (sort_by_slot hs) = sort_by_slot hs"
    by (rule sort_key_id_if_sorted [OF sort_sorted])
  ultimately show ?thesis by simp
qed

end

interpretation key_sort: header_sort "sort_key slot_of"
  by unfold_locales simp_all

section \<open>Chains of headers\<close>

text \<open>
  \<open>header_chain root hs r\<close>: the headers \<open>hs\<close>, newest first, lead from the block root down to
  the root \<open>r\<close>, each the preimage of the parent root before it.
\<close>

fun header_chain :: "(header \<Rightarrow> h256) \<Rightarrow> h256 \<Rightarrow> header list \<Rightarrow> h256 \<Rightarrow> bool" where
  "header_chain hr root [] r \<longleftrightarrow> root = r"
| "header_chain hr root (h # hs) r \<longleftrightarrow> hr h = root \<and> header_chain hr (parent_root h) hs r"

inductive ancestor :: "(header \<Rightarrow> h256) \<Rightarrow> header \<Rightarrow> header \<Rightarrow> bool" for hr :: "header \<Rightarrow> h256" and h0 :: header
where
  ancestor_refl: "ancestor hr h0 h0"
| ancestor_step: "ancestor hr h0 h \<Longrightarrow> hr h' = parent_root h \<Longrightarrow> ancestor hr h0 h'"

lemma header_chain_snoc:
  "header_chain hr root (hs @ [h]) r \<longleftrightarrow> header_chain hr root hs (hr h) \<and> parent_root h = r"
  by (induction hs arbitrary: root) auto

text \<open>
  A set of headers is a beacon chain when it is closed under parents and slots decrease from a
  header to its parent.
\<close>

definition beacon_chain :: "(header \<Rightarrow> h256) \<Rightarrow> header set \<Rightarrow> bool" where
  "beacon_chain hr C \<longleftrightarrow>
     (\<forall>h \<in> C. \<forall>h'. hr h' = parent_root h \<longrightarrow> h' \<in> C \<and> slot_of h' < slot_of h)"

lemma beacon_chainD:
  "beacon_chain hr C \<Longrightarrow> h \<in> C \<Longrightarrow> hr h' = parent_root h \<Longrightarrow> h' \<in> C \<and> slot_of h' < slot_of h"
  by (simp add: beacon_chain_def)

section \<open>Merkle branches\<close>

text \<open>\<open>hash_pair sha a b\<close> is the digest of a context updated with two nodes of 32 bytes.\<close>

definition hash_pair :: "(bytes \<Rightarrow> h256) \<Rightarrow> h256 \<Rightarrow> h256 \<Rightarrow> h256" where
  "hash_pair sha a b = sha (be_bytes 32 a @ be_bytes 32 b)"

fun merkle_fold :: "(bytes \<Rightarrow> h256) \<Rightarrow> h256 \<Rightarrow> h256 list \<Rightarrow> nat \<Rightarrow> nat \<Rightarrow> nat \<Rightarrow> h256 option" where
  "merkle_fold sha val branch i depth index =
     (if i < depth
      then case branch of
          [] \<Rightarrow> None
        | next_node # rest \<Rightarrow>
            merkle_fold sha
              (if (index div 2 ^ i) mod 2 = 0 then hash_pair sha val next_node
               else hash_pair sha next_node val)
              rest (Suc i) depth index
      else Some val)"

declare merkle_fold.simps [simp del]

definition is_valid_merkle_branch ::
  "(bytes \<Rightarrow> h256) \<Rightarrow> h256 \<Rightarrow> h256 list \<Rightarrow> nat \<Rightarrow> nat \<Rightarrow> h256 \<Rightarrow> bool" where
  "is_valid_merkle_branch sha leaf branch depth index root =
     (case merkle_fold sha leaf branch 0 depth index of
        None \<Rightarrow> False
      | Some val \<Rightarrow> val = root)"

definition depth_index_current :: "network \<Rightarrow> u64 \<Rightarrow> nat \<times> nat" where
  "depth_index_current net slot =
     (if calculate_epoch slot \<ge> epoch_electra net then (6, 22) else (5, 22))"

definition depth_index_next :: "network \<Rightarrow> u64 \<Rightarrow> nat \<times> nat" where
  "depth_index_next net slot =
     (if calculate_epoch slot \<ge> epoch_electra net then (6, 23) else (5, 23))"

definition depth_index_finality :: "network \<Rightarrow> u64 \<Rightarrow> nat \<times> nat" where
  "depth_index_finality net slot =
     (if calculate_epoch slot \<ge> epoch_electra net then (7, 41) else (6, 41))"

text \<open>
  The depths and indices are \<open>u32\<close> in the code and the fold computes \<open>2u32.pow(i)\<close> for \<open>i < depth\<close>;
  with these depths no power overflows, so that natural numbers give the same values.
\<close>

lemma merkle_depths:
  "fst (depth_index_current net slot) \<le> 6" "fst (depth_index_next net slot) \<le> 6"
  "fst (depth_index_finality net slot) \<le> 7"
  "snd (depth_index_current net slot) < 2 ^ 32" "snd (depth_index_next net slot) < 2 ^ 32"
  "snd (depth_index_finality net slot) < 2 ^ 32"
  by (simp_all add: depth_index_current_def depth_index_next_def depth_index_finality_def)

lemma merkle_powers_fit:
  assumes "i < depth" and "depth \<in> {fst (depth_index_current net slot), fst (depth_index_next net slot),
    fst (depth_index_finality net slot)}"
  shows "unat ((2 :: u32) ^ i) = 2 ^ i"
proof -
  have "i < 7" using assms merkle_depths(1-3) [of net slot] by auto
  then have "i \<in> set [0..<7]" by simp
  then show ?thesis by (auto simp: upt_rec)
qed

section \<open>Signing roots\<close>

record signing_data =
  object_root :: h256
  signing_domain :: bytes

record fork_data =
  current_version :: bytes
  genesis_validator_root :: h256

text \<open>
  The tree hashes that the derive macros of the \<open>tree_hash\<close> crate generate, and SHA-256 of the
  \<open>ring\<close> crate.
\<close>

record hashes =
  sha256 :: "bytes \<Rightarrow> h256"
  header_root :: "header \<Rightarrow> h256"
  committee_root :: "sync_committee \<Rightarrow> h256"
  signing_data_root :: "signing_data \<Rightarrow> h256"
  fork_data_root :: "fork_data \<Rightarrow> h256"

definition compute :: "hashes \<Rightarrow> h256 \<Rightarrow> bytes \<Rightarrow> h256" where
  "compute H obj domain = signing_data_root H \<lparr>object_root = obj, signing_domain = domain\<rparr>"

definition compute_fork_data_root :: "hashes \<Rightarrow> bytes \<Rightarrow> h256 \<Rightarrow> h256" where
  "compute_fork_data_root H version gvr =
     fork_data_root H \<lparr>current_version = version, genesis_validator_root = gvr\<rparr>"

definition compute_domain :: "hashes \<Rightarrow> bytes \<Rightarrow> bytes \<Rightarrow> h256 \<Rightarrow> bytes" where
  "compute_domain H domain_type version gvr =
     domain_type @ take 28 (be_bytes 32 (compute_fork_data_root H version gvr))"

section \<open>Proofs against a state root\<close>

definition is_current_committee_proof_valid ::
  "hashes \<Rightarrow> network \<Rightarrow> header \<Rightarrow> sync_committee \<Rightarrow> h256 list \<Rightarrow> bool" where
  "is_current_committee_proof_valid H net attested committee branch =
     (let (depth, index) = depth_index_current net (slot_of attested) in
      is_valid_merkle_branch (sha256 H) (committee_root H committee) branch depth index
        (state_root attested))"

definition is_finality_proof_valid ::
  "hashes \<Rightarrow> network \<Rightarrow> header \<Rightarrow> header \<Rightarrow> h256 list \<Rightarrow> bool" where
  "is_finality_proof_valid H net attested finality branch =
     (let (depth, index) = depth_index_finality net (slot_of attested) in
      is_valid_merkle_branch (sha256 H) (header_root H finality) branch depth index
        (state_root attested))"

definition is_next_committee_proof_valid ::
  "hashes \<Rightarrow> network \<Rightarrow> header \<Rightarrow> sync_committee \<Rightarrow> h256 list \<Rightarrow> bool" where
  "is_next_committee_proof_valid H net attested committee branch =
     (let (depth, index) = depth_index_next net (slot_of attested) in
      is_valid_merkle_branch (sha256 H) (committee_root H committee) branch depth index
        (state_root attested))"

section \<open>Correctness of Merkle branches\<close>

text \<open>
  The specification: the node at height \<open>h\<close> and position \<open>k\<close> of the binary tree over the leaves,
  and the siblings on the path of a leaf, from the bottom up.
\<close>

primrec tree_node :: "(bytes \<Rightarrow> h256) \<Rightarrow> (nat \<Rightarrow> h256) \<Rightarrow> nat \<Rightarrow> nat \<Rightarrow> h256" where
  "tree_node sha leaves 0 k = leaves k"
| "tree_node sha leaves (Suc h) k =
     hash_pair sha (tree_node sha leaves h (2 * k)) (tree_node sha leaves h (2 * k + 1))"

definition sibling :: "nat \<Rightarrow> nat" where
  "sibling k = (if k mod 2 = 0 then k + 1 else k - 1)"

definition tree_branch :: "(bytes \<Rightarrow> h256) \<Rightarrow> (nat \<Rightarrow> h256) \<Rightarrow> nat \<Rightarrow> nat \<Rightarrow> h256 list" where
  "tree_branch sha leaves depth index =
     map (\<lambda>i. tree_node sha leaves i (sibling (index div 2 ^ i))) [0..<depth]"

lemma tree_node_step:
  "tree_node sha leaves (Suc h) (k div 2) =
     (if k mod 2 = 0 then hash_pair sha (tree_node sha leaves h k) (tree_node sha leaves h (sibling k))
      else hash_pair sha (tree_node sha leaves h (sibling k)) (tree_node sha leaves h k))"
proof (cases "k mod 2 = 0")
  case True
  then have "2 * (k div 2) = k" by presburger
  with True show ?thesis by (simp add: sibling_def)
next
  case False
  then have "2 * (k div 2) = k - 1" "k - 1 + 1 = k" by presburger+
  with False show ?thesis by (simp add: sibling_def)
qed

lemma merkle_fold_tree:
  assumes "i \<le> depth"
  shows "merkle_fold sha (tree_node sha leaves i (index div 2 ^ i))
      (map (\<lambda>j. tree_node sha leaves j (sibling (index div 2 ^ j))) [i..<depth] @ rest) i depth index
    = Some (tree_node sha leaves depth (index div 2 ^ depth))"
  using assms
proof (induction "depth - i" arbitrary: i)
  case 0
  then show ?case by (simp add: merkle_fold.simps)
next
  case (Suc n)
  then have lt: "i < depth" by simp
  have "tree_node sha leaves (Suc i) (index div 2 ^ Suc i)
      = (if (index div 2 ^ i) mod 2 = 0
         then hash_pair sha (tree_node sha leaves i (index div 2 ^ i))
           (tree_node sha leaves i (sibling (index div 2 ^ i)))
         else hash_pair sha (tree_node sha leaves i (sibling (index div 2 ^ i)))
           (tree_node sha leaves i (index div 2 ^ i)))"
    using tree_node_step [of sha leaves i "index div 2 ^ i"]
    by (simp only: power_Suc2 div_mult2_eq)
  moreover have "merkle_fold sha (tree_node sha leaves (Suc i) (index div 2 ^ Suc i))
      (map (\<lambda>j. tree_node sha leaves j (sibling (index div 2 ^ j))) [Suc i..<depth] @ rest)
      (Suc i) depth index = Some (tree_node sha leaves depth (index div 2 ^ depth))"
    using Suc lt by (intro Suc.hyps(1)) auto
  ultimately show ?case
    using lt by (subst merkle_fold.simps) (simp add: upt_conv_Cons del: tree_node.simps power_Suc)
qed

text \<open>
  What a branch hashes: the 64-byte inputs that the loop feeds to SHA-256, from the bottom up.
\<close>

fun merkle_inputs :: "(bytes \<Rightarrow> h256) \<Rightarrow> h256 \<Rightarrow> h256 list \<Rightarrow> nat \<Rightarrow> nat \<Rightarrow> nat \<Rightarrow> bytes list" where
  "merkle_inputs sha val branch i depth index =
     (if i < depth
      then case branch of
          [] \<Rightarrow> []
        | next_node # rest \<Rightarrow>
            let input = (if (index div 2 ^ i) mod 2 = 0 then be_bytes 32 val @ be_bytes 32 next_node
                         else be_bytes 32 next_node @ be_bytes 32 val)
            in input # merkle_inputs sha (sha input) rest (Suc i) depth index
      else [])"

declare merkle_inputs.simps [simp del]

lemma node_bytes_inject: "be_bytes 32 a = be_bytes 32 b \<longleftrightarrow> a = (b :: h256)"
  by (rule be_bytes_inject) simp

lemma merkle_fold_binding:
  assumes "merkle_fold sha v1 b1 i depth index = Some r"
    and "merkle_fold sha v2 b2 i depth index = Some r"
    and "inj_on sha (set (merkle_inputs sha v1 b1 i depth index)
      \<union> set (merkle_inputs sha v2 b2 i depth index))"
  shows "v1 = v2"
  using assms
proof (induction "depth - i" arbitrary: i v1 v2 b1 b2)
  case 0
  then show ?case by (simp add: merkle_fold.simps)
next
  case (Suc n)
  then have lt: "i < depth" by simp
  obtain n1 r1 where b1: "b1 = n1 # r1"
    using Suc.prems(1) lt by (subst (asm) merkle_fold.simps) (auto split: list.splits)
  obtain n2 r2 where b2: "b2 = n2 # r2"
    using Suc.prems(2) lt by (subst (asm) merkle_fold.simps) (auto split: list.splits)
  define inp where "inp v m = (if (index div 2 ^ i) mod 2 = 0
    then be_bytes 32 v @ be_bytes 32 m else be_bytes 32 m @ be_bytes 32 v)" for v m :: h256
  have in1: "merkle_inputs sha v1 b1 i depth index
      = inp v1 n1 # merkle_inputs sha (sha (inp v1 n1)) r1 (Suc i) depth index"
    and in2: "merkle_inputs sha v2 b2 i depth index
      = inp v2 n2 # merkle_inputs sha (sha (inp v2 n2)) r2 (Suc i) depth index"
    using lt b1 b2 by (simp_all add: merkle_inputs.simps [of sha _ _ i] inp_def Let_def)
  have f1: "merkle_fold sha (sha (inp v1 n1)) r1 (Suc i) depth index = Some r"
    and f2: "merkle_fold sha (sha (inp v2 n2)) r2 (Suc i) depth index = Some r"
    using Suc.prems(1,2) lt b1 b2
    by (simp_all add: merkle_fold.simps [of sha _ _ i] inp_def hash_pair_def if_distrib cong: if_cong)
  have "sha (inp v1 n1) = sha (inp v2 n2)"
    using Suc.hyps(2) Suc.prems(3) in1 in2 lt
    by (intro Suc.hyps(1) [OF _ f1 f2]) (auto elim: inj_on_subset)
  then have "inp v1 n1 = inp v2 n2"
    by (rule inj_onD [OF Suc.prems(3)]) (simp_all add: in1 in2)
  then show ?case
    by (simp add: inp_def node_bytes_inject split: if_splits)
qed

text \<open>
  Completeness of Merkle branches: the siblings on the path of any leaf, possibly
  followed by further nodes, verify against the root of the tree at that leaf's index.
\<close>

theorem merkle_branch_complete:
  assumes "index < 2 ^ depth"
  shows "is_valid_merkle_branch sha (leaves index) (tree_branch sha leaves depth index @ rest)
    depth index (tree_node sha leaves depth 0)"
  using merkle_fold_tree [of 0 depth sha leaves index rest] assms
  by (simp add: is_valid_merkle_branch_def tree_branch_def)

theorem merkle_branch_complete_witness:
  "(41 :: nat) < 2 ^ 6 \<and>
   is_valid_merkle_branch (\<lambda>bs. of_be_bytes bs) 41
     (tree_branch (\<lambda>bs. of_be_bytes bs) of_nat 6 41 @ []) 6 41
     (tree_node (\<lambda>bs. of_be_bytes bs) of_nat 6 0)"
  using merkle_branch_complete [of 41 6 "\<lambda>bs. of_be_bytes bs" of_nat "[]"] by simp

text \<open>
  Property C40. Binding of Merkle branches: at one depth, index and root, two branches that verify
  prove the same leaf, unless SHA-256 collides on two of the strings they hash.
\<close>

theorem merkle_branch_binding:
  assumes "is_valid_merkle_branch sha leaf1 branch1 depth index root"
    and "is_valid_merkle_branch sha leaf2 branch2 depth index root"
    and "inj_on sha (set (merkle_inputs sha leaf1 branch1 0 depth index)
      \<union> set (merkle_inputs sha leaf2 branch2 0 depth index))"
  shows "leaf1 = leaf2"
proof -
  from assms(1,2) have "merkle_fold sha leaf1 branch1 0 depth index = Some root"
    "merkle_fold sha leaf2 branch2 0 depth index = Some root"
    by (auto simp: is_valid_merkle_branch_def split: option.splits)
  then show ?thesis using assms(3) by (rule merkle_fold_binding)
qed

theorem merkle_branch_binding_witness:
  "is_valid_merkle_branch (\<lambda>bs. of_be_bytes (drop 32 bs)) 7 [9] 1 1 7 \<and>
   is_valid_merkle_branch (\<lambda>bs. of_be_bytes (drop 32 bs)) 7 [9, 5] 1 1 7 \<and> (7 :: h256) = 7"
proof -
  let ?sha = "\<lambda>bs. of_be_bytes (drop 32 bs) :: h256"
  have v: "is_valid_merkle_branch ?sha 7 (9 # rest) 1 1 7" for rest
    by (simp add: is_valid_merkle_branch_def merkle_fold.simps hash_pair_def of_be_bytes_be_bytes)
  have "inj_on ?sha (set (merkle_inputs ?sha 7 [9] 0 1 1) \<union> set (merkle_inputs ?sha 7 [9, 5] 0 1 1))"
    by (simp add: merkle_inputs.simps)
  from merkle_branch_binding [OF v v this] v show ?thesis by simp
qed

end
