(* ===== verification/Checkpoints.thy ===== *)
theory Checkpoints
  imports Eth_Consensus
begin

text \<open>
  The checkpoint store of \<open>checkpoint-light-client\<close> (\<open>state.rs\<close>): slots and block roots in a
  circular buffer of bounded size, looked up by slot. \<open>CircularBuffer\<close> comes from a crate of its
  own: its operations are the parameter \<open>ring\<close>, and the locale \<open>circular_buffer\<close> states what its
  documentation promises. An array-based ring discharges the laws at the size the program uses.
\<close>

type_synonym checkpoint = "slot \<times> h256"

datatype checkpoint_error = OutDated | NotPresent

record 'b ring =
  rb_boxed :: 'b
  rb_push_back :: "'b \<Rightarrow> checkpoint \<Rightarrow> 'b"
  rb_to_vec :: "'b \<Rightarrow> checkpoint list"
  rb_as_slices :: "'b \<Rightarrow> checkpoint list \<times> checkpoint list"
  rb_get :: "'b \<Rightarrow> nat \<Rightarrow> checkpoint option"
  rb_back :: "'b \<Rightarrow> checkpoint option"
  rb_iter :: "'b \<Rightarrow> checkpoint list"

definition STORED_CHECKPOINTS_COUNT :: nat where "STORED_CHECKPOINTS_COUNT = 150000"

section \<open>Operations\<close>

definition cp_new :: "'b ring \<Rightarrow> 'b" where
  "cp_new R = rb_boxed R"

definition cp_push :: "'b ring \<Rightarrow> 'b \<Rightarrow> slot \<Rightarrow> h256 \<Rightarrow> 'b" where
  "cp_push R b slot root = rb_push_back R b (slot, root)"

definition cp_checkpoints :: "'b ring \<Rightarrow> 'b \<Rightarrow> checkpoint list" where
  "cp_checkpoints R b = rb_to_vec R b"

definition cp_search :: "slot \<Rightarrow> checkpoint list \<Rightarrow> checkpoint_error + checkpoint" where
  "cp_search slot part =
     (case binary_search_by (\<lambda>c. cmp (fst c) slot) part of
        Inr index \<Rightarrow> Inr (part ! index)
      | Inl index_next \<Rightarrow>
          (case nth_opt part index_next of
             Some result \<Rightarrow> Inr result
           | None \<Rightarrow> Inl NotPresent))"

definition cp_checkpoint :: "'b ring \<Rightarrow> 'b \<Rightarrow> slot \<Rightarrow> checkpoint_error + checkpoint" where
  "cp_checkpoint R b slot =
     (let (left, right) = rb_as_slices R b
      in result_or (cp_search slot left) (cp_search slot right))"

definition cp_checkpoint_by_index :: "'b ring \<Rightarrow> 'b \<Rightarrow> nat \<Rightarrow> checkpoint option" where
  "cp_checkpoint_by_index R b index = rb_get R b index"

definition cp_last :: "'b ring \<Rightarrow> 'b \<Rightarrow> checkpoint option" where
  "cp_last R b = rb_back R b"

definition cp_iter :: "'b ring \<Rightarrow> 'b \<Rightarrow> checkpoint list" where
  "cp_iter R b = rb_iter R b"

section \<open>Lookup\<close>

abbreviation slots_increasing :: "checkpoint list \<Rightarrow> bool" where
  "slots_increasing \<equiv> sorted_wrt (\<lambda>a b. fst a < fst b)"

text \<open>The specification of a lookup: the first checkpoint at or after the slot.\<close>

definition first_at_or_after :: "slot \<Rightarrow> checkpoint list \<Rightarrow> checkpoint_error + checkpoint" where
  "first_at_or_after slot cs = ok_or (find (\<lambda>c. slot \<le> fst c) cs) NotPresent"

lemma cp_search_spec:
  assumes "slots_increasing cs"
  shows "cp_search slot cs = first_at_or_after slot cs"
proof (cases "binary_search_by (\<lambda>c. cmp (fst c) slot) cs")
  case (Inl i)
  then show ?thesis
    using rust.search_find_ge [OF assms, of slot i]
    by (simp add: cp_search_def first_at_or_after_def ok_or_def)
next
  case (Inr i)
  have "i < length cs"
    using rust.search_Ok [OF rust.probe_by_key(1) [OF assms] Inr] by simp
  then have "find (\<lambda>c. slot \<le> fst c) cs = Some (cs ! i)"
    using rust.search_find_ge [OF assms, of slot i] Inr by (simp add: nth_opt_def)
  with Inr show ?thesis by (simp add: cp_search_def first_at_or_after_def)
qed

lemma first_at_or_after_append:
  "first_at_or_after slot (xs @ ys)
     = result_or (first_at_or_after slot xs) (first_at_or_after slot ys)"
  by (induction xs) (auto simp: first_at_or_after_def)

section \<open>The circular buffer\<close>

locale circular_buffer =
  fixes R :: "'b ring" and N :: nat and invar :: "'b \<Rightarrow> bool"
  assumes N_pos: "0 < N"
    and invar_boxed: "invar (rb_boxed R)"
    and invar_push_back: "invar b \<Longrightarrow> invar (rb_push_back R b c)"
    and to_vec_boxed: "rb_to_vec R (rb_boxed R) = []"
    and to_vec_push_back: "invar b \<Longrightarrow> rb_to_vec R (rb_push_back R b c) =
      (if length (rb_to_vec R b) < N then rb_to_vec R b else tl (rb_to_vec R b)) @ [c]"
    and as_slices: "invar b \<Longrightarrow> rb_as_slices R b = (left, right) \<Longrightarrow> left @ right = rb_to_vec R b"
    and get: "invar b \<Longrightarrow> rb_get R b i = nth_opt (rb_to_vec R b) i"
    and back_last: "invar b \<Longrightarrow> rb_back R b = last_opt (rb_to_vec R b)"
    and iter: "invar b \<Longrightarrow> rb_iter R b = rb_to_vec R b"
begin

lemma checkpoint_spec:
  assumes "invar b" and "slots_increasing (rb_to_vec R b)"
  shows "cp_checkpoint R b slot = first_at_or_after slot (rb_to_vec R b)"
proof -
  obtain l r where lr: "rb_as_slices R b = (l, r)" by fastforce
  then have vec: "rb_to_vec R b = l @ r" using as_slices [OF assms(1)] by simp
  with assms(2) have "slots_increasing l" "slots_increasing r"
    by (auto simp: sorted_wrt_append)
  then show ?thesis
    by (simp add: cp_checkpoint_def lr vec cp_search_spec first_at_or_after_append)
qed

lemma push_increasing:
  assumes "invar b" and "slots_increasing (rb_to_vec R b)"
    and "\<And>s r. cp_last R b = Some (s, r) \<Longrightarrow> s < slot"
  shows "slots_increasing (rb_to_vec R (cp_push R b slot root))"
proof -
  let ?v = "rb_to_vec R b"
  have lt: "\<forall>c \<in> set ?v. fst c < slot"
  proof
    fix c assume c: "c \<in> set ?v"
    then have ne: "?v \<noteq> []" by auto
    then have "fst (last ?v) < slot"
      using assms(3) [of "fst (last ?v)" "snd (last ?v)"] back_last [OF assms(1)]
      by (simp add: cp_last_def last_opt_def)
    moreover have "c = last ?v \<or> fst c < fst (last ?v)"
      using assms(2) c ne sorted_wrt_append [of "\<lambda>a b. fst a < fst b" "butlast ?v" "[last ?v]"]
        in_set_butlastD [of c ?v]
      by (cases ?v rule: rev_cases) auto
    ultimately show "fst c < slot" by auto
  qed
  have "slots_increasing (tl ?v)" using assms(2) by (cases ?v) auto
  moreover have "set (tl ?v) \<subseteq> set ?v" by (cases ?v) auto
  ultimately show ?thesis
    using assms(2) lt
    by (auto simp: cp_push_def to_vec_push_back [OF assms(1)] sorted_wrt_append)
qed

lemma length_push: "invar b \<Longrightarrow> length (rb_to_vec R (cp_push R b slot root)) \<le> Suc (length (rb_to_vec R b))"
  by (simp add: cp_push_def to_vec_push_back)

lemma last_push: "invar b \<Longrightarrow> cp_last R (cp_push R b slot root) = Some (slot, root)"
  by (simp add: cp_last_def cp_push_def back_last invar_push_back to_vec_push_back)

lemma invar_push: "invar b \<Longrightarrow> invar (cp_push R b slot root)"
  by (simp add: cp_push_def invar_push_back)

lemma bounded_push:
  assumes "invar b" and "length (rb_to_vec R b) \<le> N"
  shows "length (rb_to_vec R (cp_push R b slot root)) \<le> N"
  using assms N_pos by (cases "rb_to_vec R b") (auto simp: cp_push_def to_vec_push_back)

end

section \<open>A ring over an array\<close>

record array_ring =
  ar_items :: "checkpoint option list"
  ar_start :: nat
  ar_size :: nat

definition ar_at :: "nat \<Rightarrow> array_ring \<Rightarrow> nat \<Rightarrow> checkpoint" where
  "ar_at N b i = the (ar_items b ! ((ar_start b + i) mod N))"

definition ar_to_vec :: "nat \<Rightarrow> array_ring \<Rightarrow> checkpoint list" where
  "ar_to_vec N b = map (ar_at N b) [0..<ar_size b]"

definition ar_push_back :: "nat \<Rightarrow> array_ring \<Rightarrow> checkpoint \<Rightarrow> array_ring" where
  "ar_push_back N b c =
     (if ar_size b < N
      then b\<lparr>ar_items := (ar_items b)[(ar_start b + ar_size b) mod N := Some c],
             ar_size := Suc (ar_size b)\<rparr>
      else b\<lparr>ar_items := (ar_items b)[ar_start b := Some c],
             ar_start := Suc (ar_start b) mod N\<rparr>)"

definition ar_as_slices :: "nat \<Rightarrow> array_ring \<Rightarrow> checkpoint list \<times> checkpoint list" where
  "ar_as_slices N b =
     (let n = min (ar_size b) (N - ar_start b) in
      (map (\<lambda>i. the (ar_items b ! (ar_start b + i))) [0..<n],
       map (\<lambda>i. the (ar_items b ! i)) [0..<ar_size b - n]))"

definition array_ring :: "nat \<Rightarrow> array_ring ring" where
  "array_ring N = \<lparr>
     rb_boxed = \<lparr>ar_items = replicate N None, ar_start = 0, ar_size = 0\<rparr>,
     rb_push_back = ar_push_back N,
     rb_to_vec = ar_to_vec N,
     rb_as_slices = ar_as_slices N,
     rb_get = (\<lambda>b i. if i < ar_size b then Some (ar_at N b i) else None),
     rb_back = (\<lambda>b. if ar_size b = 0 then None else Some (ar_at N b (ar_size b - 1))),
     rb_iter = ar_to_vec N\<rparr>"

definition ar_invar :: "nat \<Rightarrow> array_ring \<Rightarrow> bool" where
  "ar_invar N b \<longleftrightarrow> length (ar_items b) = N \<and> ar_start b < N \<and> ar_size b \<le> N"

lemma length_ar_to_vec [simp]: "length (ar_to_vec N b) = ar_size b"
  by (simp add: ar_to_vec_def)

lemma mod_add_inject:
  fixes i j n s :: nat
  assumes "i < n" "j < n" "(s + i) mod n = (s + j) mod n"
  shows "i = j"
  using assms
proof (induction i j rule: linorder_wlog)
  case (le i j)
  then have "n dvd (s + j) - (s + i)" by (subst mod_eq_dvd_iff_nat [symmetric]) auto
  then have "n dvd j - i" by simp
  with le show ?case by (auto dest: dvd_imp_le)
next
  case (sym i j)
  then show ?case by simp
qed

lemma ar_to_vec_push_back:
  assumes "0 < N" and "ar_invar N b"
  shows "ar_to_vec N (ar_push_back N b c)
    = (if ar_size b < N then ar_to_vec N b else tl (ar_to_vec N b)) @ [c]"
proof (cases "ar_size b < N")
  case True
  have "(ar_start b + ar_size b) mod N \<noteq> (ar_start b + i) mod N" if "i < ar_size b" for i
    using mod_add_inject [of i N "ar_size b" "ar_start b"] that True by auto
  with True assms show ?thesis
    by (auto simp: ar_to_vec_def ar_push_back_def ar_at_def ar_invar_def)
next
  case False
  with assms have full: "ar_size b = N" by (simp add: ar_invar_def)
  let ?b' = "ar_push_back N b c"
  have at: "ar_at N ?b' i = (if Suc i = N then c else ar_at N b (Suc i))" if "i < N" for i
  proof -
    have pos: "(ar_start ?b' + i) mod N = (ar_start b + Suc i) mod N"
      using False by (simp add: ar_push_back_def mod_add_left_eq flip: add_Suc_shift)
    show ?thesis
    proof (cases "Suc i = N")
      case True
      then have "(ar_start b + Suc i) mod N = ar_start b" using assms by (simp add: ar_invar_def)
      with True pos False assms show ?thesis
        by (simp add: ar_at_def ar_push_back_def ar_invar_def)
    next
      case neq: False
      then have "(ar_start b + Suc i) mod N \<noteq> ar_start b"
        using mod_add_inject [of "Suc i" N 0 "ar_start b"] that assms by (auto simp: ar_invar_def)
      with neq pos False assms show ?thesis
        by (simp add: ar_at_def ar_push_back_def ar_invar_def)
    qed
  qed
  have size: "ar_size ?b' = N" using False full by (simp add: ar_push_back_def)
  have "ar_to_vec N ?b' = tl (ar_to_vec N b) @ [c]"
    by (rule nth_equalityI) (use assms full size at in \<open>auto simp: ar_to_vec_def nth_append nth_tl\<close>)
  with False show ?thesis by simp
qed

lemma ar_as_slices_append:
  assumes "ar_invar N b" and "ar_as_slices N b = (l, r)"
  shows "l @ r = ar_to_vec N b"
proof (rule nth_equalityI)
  let ?n = "min (ar_size b) (N - ar_start b)"
  have l: "l = map (\<lambda>i. the (ar_items b ! (ar_start b + i))) [0..<?n]"
    and r: "r = map (\<lambda>i. the (ar_items b ! i)) [0..<ar_size b - ?n]"
    using assms(2) by (auto simp: ar_as_slices_def Let_def)
  show len: "length (l @ r) = length (ar_to_vec N b)" by (simp add: l r)
  show "(l @ r) ! i = ar_to_vec N b ! i" if "i < length (l @ r)" for i
  proof (cases "i < ?n")
    case True
    then have "(ar_start b + i) mod N = ar_start b + i" by (intro mod_less) auto
    with True show ?thesis
      by (simp add: l nth_append ar_to_vec_def ar_at_def)
  next
    case False
    with that len have i: "i < ar_size b" "N \<le> ar_start b + i" by auto
    then have "(ar_start b + i) mod N = i - ?n"
      using assms(1) False by (auto simp: ar_invar_def mod_if)
    moreover have "i - (N - ar_start b) < ar_size b - (N - ar_start b)" using i by linarith
    ultimately show ?thesis
      using False i by (simp add: l r nth_append ar_to_vec_def ar_at_def)
  qed
qed

lemma circular_buffer_array_ring: "0 < N \<Longrightarrow> circular_buffer (array_ring N) N (ar_invar N)"
proof
  assume N: "0 < N"
  show "0 < N" by (rule N)
  show "ar_invar N (rb_boxed (array_ring N))"
    using N by (simp add: array_ring_def ar_invar_def)
  show "rb_to_vec (array_ring N) (rb_boxed (array_ring N)) = []"
    by (simp add: array_ring_def ar_to_vec_def)
  fix b assume inv: "ar_invar N b"
  show "ar_invar N (rb_push_back (array_ring N) b c)" for c
    using N inv by (simp add: array_ring_def ar_invar_def ar_push_back_def)
  show "rb_to_vec (array_ring N) (rb_push_back (array_ring N) b c) =
      (if length (rb_to_vec (array_ring N) b) < N then rb_to_vec (array_ring N) b
       else tl (rb_to_vec (array_ring N) b)) @ [c]" for c
    using ar_to_vec_push_back [OF N inv] by (simp add: array_ring_def)
  show "l @ r = rb_to_vec (array_ring N) b" if "rb_as_slices (array_ring N) b = (l, r)" for l r
    using ar_as_slices_append [OF inv] that by (simp add: array_ring_def)
  show "rb_get (array_ring N) b i = nth_opt (rb_to_vec (array_ring N) b) i" for i
    by (simp add: array_ring_def nth_opt_def ar_to_vec_def)
  show "rb_back (array_ring N) b = last_opt (rb_to_vec (array_ring N) b)"
    by (simp add: array_ring_def last_opt_def ar_to_vec_def last_conv_nth)
  show "rb_iter (array_ring N) b = rb_to_vec (array_ring N) b"
    by (simp add: array_ring_def)
qed

interpretation stored: circular_buffer "array_ring STORED_CHECKPOINTS_COUNT"
    STORED_CHECKPOINTS_COUNT "ar_invar STORED_CHECKPOINTS_COUNT"
  by (rule circular_buffer_array_ring) (simp add: STORED_CHECKPOINTS_COUNT_def)

section \<open>Properties\<close>

text \<open>
  Property C34. Wherever the buffer is split into its two slices, a lookup in a store with
  increasing slots returns the first checkpoint at or after the requested slot, and
  \<open>NotPresent\<close> exactly when there is none.
\<close>

theorem checkpoint_lookup_correct:
  assumes "circular_buffer R N invar" and "invar b" and "slots_increasing (cp_checkpoints R b)"
  shows "cp_checkpoint R b slot = first_at_or_after slot (cp_checkpoints R b)"
  using circular_buffer.checkpoint_spec [OF assms(1,2)] assms(3)
  by (simp add: cp_checkpoints_def)

text \<open>A full ring of three that has wrapped around: the second slice holds the newest entry.\<close>

definition sample_ring :: array_ring where
  "sample_ring = \<lparr>ar_items = [Some (96, 4), Some (32, 2), Some (64, 3)], ar_start = 1, ar_size = 3\<rparr>"

lemma sample_ring_facts:
  "ar_invar 3 sample_ring" "cp_checkpoints (array_ring 3) sample_ring = [(32, 2), (64, 3), (96, 4)]"
  by code_simp+

theorem checkpoint_lookup_correct_witness:
  "cp_checkpoint (array_ring 3) sample_ring 65 = Inr (96, 4) \<and>
   cp_checkpoint (array_ring 3) sample_ring 97 = Inl NotPresent"
proof -
  have "circular_buffer (array_ring 3) 3 (ar_invar 3)" by (rule circular_buffer_array_ring) simp
  note spec = checkpoint_lookup_correct [OF this sample_ring_facts(1)]
  have "slots_increasing (cp_checkpoints (array_ring 3) sample_ring)"
    by (simp add: sample_ring_facts)
  from spec [OF this] show ?thesis by (simp add: sample_ring_facts first_at_or_after_def)
qed

end
