(* ===== verification/Light_Client.thy ===== *)
theory Light_Client
  imports Checkpoints
begin

text \<open>
  The program \<open>checkpoint-light-client\<close>: verification of a sync committee update
  (\<open>services/sync_update\<close>, \<open>crypto.rs\<close>, \<open>utils.rs\<close>), the two services that change the state
  (\<open>SyncUpdate\<close> and \<open>ReplayBack\<close>), the services that read it and the constructor. The BLS12-381
  built-in actor, the tree hashes, the SCALE decoder of \<open>SyncAggregate\<close>, the circular buffer and
  \<open>sort_unstable_by\<close> are parameters.

  A call reads the state, waits for the built-in actor and then writes the state that it finds at
  that time. The model has the two slices (\<open>sync_process_start\<close>, \<open>sync_process_finish\<close>) and the
  call with nothing in between (\<open>sync_process\<close>).
\<close>

section \<open>Messages and state\<close>

definition MAX_EPOCHS_GAP :: u64 where "MAX_EPOCHS_GAP = 3"

record replay_back_info =
  rbi_finalized_header :: slot
  rbi_last_header :: slot

datatype sync_error =
    InvalidTimestamp
  | InvalidPeriod
  | LowVoteCount
  | NotActual
  | InvalidSignature
  | InvalidFinalityProof
  | InvalidNextSyncCommitteeProof
  | InvalidPublicKeys
  | InvalidSyncAggregate
  | ReplayBackRequired "replay_back_info option" checkpoint

datatype replay_back_status = InProcess | Finished

datatype replay_back_error =
    AlreadyStarted
  | NotStarted
  | VerifyError sync_error
  | NoFinalityUpdate

record ('g1, 'g2) sync_update =
  signature_slot :: u64
  attested_header :: header
  su_finalized_header :: header
  sync_committee_signature :: 'g2
  next_aggregate_pubkey :: "bls_pub_key option"
  next_pub_keys :: "'g1 list option"
  next_branch :: "h256 list option"
  finality_branch :: "h256 list"

record 'g1 replay_back_state =
  rbs_finalized_header :: header
  rbs_sync_committee_next :: "'g1 list option"
  rbs_checkpoints :: "checkpoint list"
  rbs_last_header :: header

record ('g1, 'b) light_state =
  ls_network :: network
  ls_finalized_header :: header
  ls_committee_current :: "'g1 list"
  ls_committee_next :: "'g1 list"
  ls_checkpoints :: 'b
  ls_replay_back :: "'g1 replay_back_state option"

text \<open>
  The BLS12-381 built-in actor and the curve points. \<open>None\<close> stands for a request that could not be
  sent, an error reply or a reply that does not decode: the code panics there.
\<close>

record ('g1, 'g2, 'gt) bls =
  g1_compress :: "'g1 \<Rightarrow> bls_pub_key option"
  g1_is_zero :: "'g1 \<Rightarrow> bool"
  g1_generator_neg :: 'g1
  aggregate_g1 :: "'g1 list \<Rightarrow> 'g1 option"
  map_to_g2 :: "bytes \<Rightarrow> 'g2 option"
  multi_miller_loop :: "'g1 list \<Rightarrow> 'g2 list \<Rightarrow> 'gt option"
  final_exponentiation :: "'gt \<Rightarrow> 'gt option"
  gt_one :: 'gt

section \<open>Verification of an update\<close>

definition construct_sync_committee ::
  "('g1, 'g2, 'gt) bls \<Rightarrow> bls_pub_key \<Rightarrow> 'g1 list \<Rightarrow> sync_committee option" where
  "construct_sync_committee B aggregate keys =
     (case those (map (g1_compress B) keys) of
        None \<Rightarrow> None
      | Some pub_keys \<Rightarrow>
          if length pub_keys = SYNC_COMMITTEE_SIZE
          then Some \<lparr>pubkeys = pub_keys, aggregate_pubkey = aggregate\<rparr>
          else None)"

definition get_participating_keys :: "'g1 list \<Rightarrow> bool list \<Rightarrow> 'g1 list" where
  "get_participating_keys committee bitfield =
     List.map_filter (\<lambda>(bit, key). if bit then Some key else None) (zip bitfield committee)"

definition verify_sync_committee_signature ::
  "hashes \<Rightarrow> ('g1, 'g2, 'gt) bls \<Rightarrow> network \<Rightarrow> 'g1 list \<Rightarrow> header \<Rightarrow> 'g2 \<Rightarrow> u64 \<Rightarrow> bool exec" where
  "verify_sync_committee_signature H B net pub_keys attested signature sig_slot =
     (let domain = compute_domain H DOMAIN_SYNC_COMMITTEE (fork_version net sig_slot)
            (genesis_validators_root net);
          signing_root = compute H (header_root H attested) domain
      in case aggregate_g1 B pub_keys of
           None \<Rightarrow> Panic ''AggregateG1''
         | Some aggregated \<Rightarrow>
             if g1_is_zero B aggregated then Ret False
             else case map_to_g2 B (be_bytes 32 signing_root) of
                 None \<Rightarrow> Panic ''MapToG2Affine''
               | Some message \<Rightarrow>
                   (case multi_miller_loop B [g1_generator_neg B, aggregated] [signature, message] of
                      None \<Rightarrow> Panic ''MultiMillerLoop''
                    | Some miller_loop \<Rightarrow>
                        (case final_exponentiation B miller_loop of
                           None \<Rightarrow> Panic ''FinalExponentiation''
                         | Some e \<Rightarrow> Ret (gt_one B = e))))"

datatype 'g1 committee_update =
    CommitteeActual u64 header bls_pub_key "'g1 list" "h256 list"
  | CommitteeNotActual

definition committee_update_new ::
  "header \<Rightarrow> u64 \<Rightarrow> bls_pub_key option \<Rightarrow> 'g1 list option \<Rightarrow> h256 list option \<Rightarrow>
     'g1 committee_update" where
  "committee_update_new attested slot_finalized aggregate keys branch =
     (let period_finalized = calculate_period slot_finalized in
      case (calculate_period (slot_of attested) = period_finalized, aggregate, keys, branch) of
        (True, Some a, Some k, Some b) \<Rightarrow> CommitteeActual period_finalized attested a k b
      | _ \<Rightarrow> CommitteeNotActual)"

fun committee_update_verify ::
  "hashes \<Rightarrow> ('g1, 'g2, 'gt) bls \<Rightarrow> network \<Rightarrow> u64 \<Rightarrow> 'g1 committee_update \<Rightarrow>
     sync_error + 'g1 list option" where
  "committee_update_verify H B net store_period CommitteeNotActual = Inr None"
| "committee_update_verify H B net store_period
     (CommitteeActual period_finalized attested aggregate keys branch) =
     (case construct_sync_committee B aggregate keys of
        None \<Rightarrow> Inl InvalidPublicKeys
      | Some committee \<Rightarrow>
          if \<not> is_next_committee_proof_valid H net attested committee branch
          then Inl InvalidNextSyncCommitteeProof
          else if period_finalized = store_period + 1 then Inr (Some keys)
          else Inr None)"

definition verify ::
  "hashes \<Rightarrow> ('g1, 'g2, 'gt) bls \<Rightarrow> network \<Rightarrow> slot \<Rightarrow> 'g1 list \<Rightarrow> 'g1 list \<Rightarrow>
     ('g1, 'g2) sync_update \<Rightarrow> sync_aggregate \<Rightarrow>
     (sync_error + header option \<times> 'g1 list option) exec" where
  "verify H B net stored_slot stored_current stored_next upd agg =
     (let slot_finalized = slot_of (su_finalized_header upd) in
      if \<not> (signature_slot upd > slot_of (attested_header upd)
            \<and> slot_of (attested_header upd) \<ge> slot_finalized)
      then Ret (Inl InvalidTimestamp)
      else let store_period = calculate_period stored_slot;
               sig_period = calculate_period (signature_slot upd) in
      if sig_period \<noteq> store_period + 1 \<and> sig_period \<noteq> store_period
      then Ret (Inl InvalidPeriod)
      else let committee = (if sig_period = store_period + 1 then stored_next else stored_current);
               pub_keys = get_participating_keys committee (sync_committee_bits agg) in
      if length pub_keys * 3 < SYNC_COMMITTEE_SIZE * 2
      then Ret (Inl LowVoteCount)
      else exec_bind
        (verify_sync_committee_signature H B net pub_keys (attested_header upd)
           (sync_committee_signature upd) (signature_slot upd))
        (\<lambda>valid.
          if \<not> valid then Ret (Inl InvalidSignature)
          else if slot_finalized > stored_slot
            \<and> \<not> is_finality_proof_valid H net (attested_header upd) (su_finalized_header upd)
                (finality_branch upd)
          then Ret (Inl InvalidFinalityProof)
          else let finalized_update =
                 (if slot_finalized > stored_slot then Some (su_finalized_header upd) else None) in
          case committee_update_verify H B net store_period
              (committee_update_new (attested_header upd) slot_finalized
                 (next_aggregate_pubkey upd) (next_pub_keys upd) (next_branch upd)) of
            Inl e \<Rightarrow> Ret (Inl e)
          | Inr committee_update \<Rightarrow>
              if finalized_update = None \<and> committee_update = None
              then Ret (Inl NotActual)
              else Ret (Inr (finalized_update, committee_update))))"

section \<open>The service SyncUpdate\<close>

record 'g1 snapshot =
  sn_network :: network
  sn_slot :: slot
  sn_committee_current :: "'g1 list"
  sn_committee_next :: "'g1 list"

definition take_snapshot :: "('g1, 'b) light_state \<Rightarrow> 'g1 snapshot" where
  "take_snapshot st = \<lparr>
     sn_network = ls_network st,
     sn_slot = slot_of (ls_finalized_header st),
     sn_committee_current = ls_committee_current st,
     sn_committee_next = ls_committee_next st\<rparr>"

definition replay_back_info :: "'g1 replay_back_state \<Rightarrow> replay_back_info" where
  "replay_back_info rb = \<lparr>
     rbi_finalized_header = slot_of (rbs_finalized_header rb),
     rbi_last_header = slot_of (rbs_last_header rb)\<rparr>"

definition verify_snapshot ::
  "hashes \<Rightarrow> ('g1, 'g2, 'gt) bls \<Rightarrow> 'g1 snapshot \<Rightarrow> ('g1, 'g2) sync_update \<Rightarrow> sync_aggregate \<Rightarrow>
     (sync_error + header option \<times> 'g1 list option) exec" where
  "verify_snapshot H B sn upd agg =
     verify H B (sn_network sn) (sn_slot sn) (sn_committee_current sn) (sn_committee_next sn) upd agg"

definition sync_process_start ::
  "'b ring \<Rightarrow> (bytes \<Rightarrow> sync_aggregate option) \<Rightarrow> ('g1, 'b) light_state \<Rightarrow>
     ('g1, 'g2) sync_update \<Rightarrow> bytes \<Rightarrow> (sync_error + 'g1 snapshot \<times> sync_aggregate) exec" where
  "sync_process_start R decode st upd agg_encoded =
     (let sn = take_snapshot st in
      if calculate_epoch (sn_slot sn) + MAX_EPOCHS_GAP
           \<le> calculate_epoch (slot_of (su_finalized_header upd))
      then case cp_last R (ls_checkpoints st) of
          None \<Rightarrow> Panic ''The program should be initialized so there is a checkpoint''
        | Some c \<Rightarrow>
            Ret (Inl (ReplayBackRequired (map_option replay_back_info (ls_replay_back st)) c))
      else case decode agg_encoded of
          None \<Rightarrow> Ret (Inl InvalidSyncAggregate)
        | Some agg \<Rightarrow> Ret (Inr (sn, agg)))"

definition sync_process_finish ::
  "'b ring \<Rightarrow> hashes \<Rightarrow> header option \<times> 'g1 list option \<Rightarrow> ('g1, 'b) light_state \<Rightarrow>
     ('g1, 'b) light_state" where
  "sync_process_finish R H res st =
     (let st1 = (case fst res of
            None \<Rightarrow> st
          | Some fh \<Rightarrow>
              st\<lparr>ls_checkpoints := cp_push R (ls_checkpoints st) (slot_of fh) (header_root H fh),
                 ls_finalized_header := fh\<rparr>)
      in case snd res of
           None \<Rightarrow> st1
         | Some keys \<Rightarrow>
             st1\<lparr>ls_committee_current := ls_committee_next st1, ls_committee_next := keys\<rparr>)"

definition sync_process ::
  "'b ring \<Rightarrow> hashes \<Rightarrow> ('g1, 'g2, 'gt) bls \<Rightarrow> (bytes \<Rightarrow> sync_aggregate option) \<Rightarrow>
     ('g1, 'b) light_state \<Rightarrow> ('g1, 'g2) sync_update \<Rightarrow> bytes \<Rightarrow>
     ((sync_error + unit) \<times> ('g1, 'b) light_state) exec" where
  "sync_process R H B decode st upd agg_encoded =
     exec_bind (sync_process_start R decode st upd agg_encoded) (\<lambda>r.
       case r of
         Inl e \<Rightarrow> Ret (Inl e, st)
       | Inr (sn, agg) \<Rightarrow>
           exec_bind (verify_snapshot H B sn upd agg) (\<lambda>v.
             case v of
               Inl e \<Rightarrow> Ret (Inl e, st)
             | Inr res \<Rightarrow> Ret (Inr (), sync_process_finish R H res st)))"

section \<open>The service ReplayBack\<close>

text \<open>Headers are popped from the end of the sorted vector; the loop reads them in that order.\<close>

fun check_headers ::
  "hashes \<Rightarrow> checkpoint \<Rightarrow> 'g1 replay_back_state \<Rightarrow> header list \<Rightarrow> 'g1 replay_back_state exec" where
  "check_headers H last_cp rb [] = Ret rb"
| "check_headers H last_cp rb (header # headers) =
     (let hash = header_root H header; slot = slot_of header in
      if hash \<noteq> parent_root (rbs_last_header rb) then Ret rb
      else if slot = fst last_cp \<and> hash = snd last_cp then Ret rb
      else let rb1 = rb\<lparr>rbs_last_header := header\<rparr> in
        case last_opt (rbs_checkpoints rb1) of
          None \<Rightarrow> Panic ''At least contains finalized header; qed''
        | Some (slot_next, _) \<Rightarrow>
            check_headers H last_cp
              (if slot mod SLOTS_PER_EPOCH = 0 \<or> slot + SLOTS_PER_EPOCH < slot_next
               then rb1\<lparr>rbs_checkpoints := rbs_checkpoints rb1 @ [(slot, hash)]\<rparr>
               else rb1)
              headers)"

definition move_checkpoints :: "'b ring \<Rightarrow> checkpoint list \<Rightarrow> 'b \<Rightarrow> 'b" where
  "move_checkpoints R cs b = foldl (\<lambda>acc c. cp_push R acc (fst c) (snd c)) b (rev cs)"

definition process_headers ::
  "'b ring \<Rightarrow> hashes \<Rightarrow> (header list \<Rightarrow> header list) \<Rightarrow> ('g1, 'b) light_state \<Rightarrow> header list \<Rightarrow>
     (bool \<times> ('g1, 'b) light_state) exec" where
  "process_headers R H sort_by_slot st headers =
     (case ls_replay_back st of
        None \<Rightarrow> Panic ''Checked by the caller''
      | Some rb \<Rightarrow>
          (case cp_last R (ls_checkpoints st) of
             None \<Rightarrow> Panic ''The program initialized so not empty; qed''
           | Some last_cp \<Rightarrow>
               exec_bind (check_headers H last_cp rb (rev (sort_by_slot headers))) (\<lambda>rb'.
                 if parent_root (rbs_last_header rb') \<noteq> snd last_cp
                 then Ret (False, st\<lparr>ls_replay_back := Some rb'\<rparr>)
                 else
                   let st1 = st\<lparr>ls_checkpoints :=
                               move_checkpoints R (rbs_checkpoints rb') (ls_checkpoints st)\<rparr>;
                       st2 = (case rbs_sync_committee_next rb' of
                                None \<Rightarrow> st1
                              | Some keys \<Rightarrow>
                                  st1\<lparr>ls_committee_current := ls_committee_next st1,
                                      ls_committee_next := keys\<rparr>)
                   in Ret (True, st2\<lparr>ls_finalized_header := rbs_finalized_header rb',
                                     ls_replay_back := None\<rparr>))))"

definition replay_status :: "bool \<Rightarrow> replay_back_status" where
  "replay_status finished = (if finished then Finished else InProcess)"

definition replay_start_begin ::
  "(bytes \<Rightarrow> sync_aggregate option) \<Rightarrow> ('g1, 'b) light_state \<Rightarrow> bytes \<Rightarrow>
     replay_back_error + 'g1 snapshot \<times> sync_aggregate" where
  "replay_start_begin decode st agg_encoded =
     (if ls_replay_back st \<noteq> None then Inl AlreadyStarted
      else case decode agg_encoded of
          None \<Rightarrow> Inl (VerifyError InvalidSyncAggregate)
        | Some agg \<Rightarrow> Inr (take_snapshot st, agg))"

definition replay_start_finish ::
  "'b ring \<Rightarrow> hashes \<Rightarrow> (header list \<Rightarrow> header list) \<Rightarrow> header option \<times> 'g1 list option \<Rightarrow>
     header list \<Rightarrow> ('g1, 'b) light_state \<Rightarrow>
     ((replay_back_error + replay_back_status) \<times> ('g1, 'b) light_state) exec" where
  "replay_start_finish R H sort_by_slot res headers st =
     (case fst res of
        None \<Rightarrow> Ret (Inl NoFinalityUpdate, st)
      | Some fh \<Rightarrow>
          exec_bind (process_headers R H sort_by_slot
              (st\<lparr>ls_replay_back := Some \<lparr>
                   rbs_finalized_header = fh,
                   rbs_sync_committee_next = snd res,
                   rbs_checkpoints = [(slot_of fh, header_root H fh)],
                   rbs_last_header = fh\<rparr>\<rparr>) headers)
            (\<lambda>(finished, st'). Ret (Inr (replay_status finished), st')))"

definition replay_start ::
  "'b ring \<Rightarrow> hashes \<Rightarrow> ('g1, 'g2, 'gt) bls \<Rightarrow> (bytes \<Rightarrow> sync_aggregate option) \<Rightarrow>
     (header list \<Rightarrow> header list) \<Rightarrow> ('g1, 'b) light_state \<Rightarrow> ('g1, 'g2) sync_update \<Rightarrow> bytes \<Rightarrow>
     header list \<Rightarrow> ((replay_back_error + replay_back_status) \<times> ('g1, 'b) light_state) exec" where
  "replay_start R H B decode sort_by_slot st upd agg_encoded headers =
     (case replay_start_begin decode st agg_encoded of
        Inl e \<Rightarrow> Ret (Inl e, st)
      | Inr (sn, agg) \<Rightarrow>
          exec_bind (verify_snapshot H B sn upd agg) (\<lambda>v.
            case v of
              Inl e \<Rightarrow> Ret (Inl (VerifyError e), st)
            | Inr res \<Rightarrow> replay_start_finish R H sort_by_slot res headers st))"

definition replay_process ::
  "'b ring \<Rightarrow> hashes \<Rightarrow> (header list \<Rightarrow> header list) \<Rightarrow> ('g1, 'b) light_state \<Rightarrow> header list \<Rightarrow>
     ((replay_back_error + replay_back_status) \<times> ('g1, 'b) light_state) exec" where
  "replay_process R H sort_by_slot st headers =
     (if ls_replay_back st = None then Ret (Inl NotStarted, st)
      else exec_bind (process_headers R H sort_by_slot st headers)
        (\<lambda>(finished, st'). Ret (Inr (replay_status finished), st')))"

section \<open>The read services\<close>

definition checkpoint_for_get :: "'b ring \<Rightarrow> ('g1, 'b) light_state \<Rightarrow> slot \<Rightarrow>
    checkpoint_error + checkpoint" where
  "checkpoint_for_get R st slot = cp_checkpoint R (ls_checkpoints st) slot"

datatype lc_order = LcDirect | LcReverse

record state_data =
  sd_checkpoints :: "checkpoint list"
  sd_replay_back :: "replay_back_info option"

definition state_get :: "'b ring \<Rightarrow> ('g1, 'b) light_state \<Rightarrow> lc_order \<Rightarrow> u32 \<Rightarrow> u32 \<Rightarrow> state_data" where
  "state_get R st order index_start cnt =
     (let collect = (\<lambda>xs. take (unat cnt) (drop (unat index_start) xs)) in
      \<lparr>sd_checkpoints = (case order of
           LcDirect \<Rightarrow> collect (cp_iter R (ls_checkpoints st))
         | LcReverse \<Rightarrow> collect (rev (cp_iter R (ls_checkpoints st)))),
       sd_replay_back = map_option replay_back_info (ls_replay_back st)\<rparr>)"

section \<open>The constructor\<close>

record ('g1, 'g2) lc_init =
  in_network :: network
  in_current_pub_keys :: "'g1 list"
  in_current_aggregate_pubkey :: bls_pub_key
  in_current_branch :: "h256 list"
  in_update :: "('g1, 'g2) sync_update"
  in_sync_aggregate_encoded :: bytes

definition lc_init_program ::
  "'b ring \<Rightarrow> hashes \<Rightarrow> ('g1, 'g2, 'gt) bls \<Rightarrow> (bytes \<Rightarrow> sync_aggregate option) \<Rightarrow>
     ('g1, 'g2) lc_init \<Rightarrow> ('g1, 'b) light_state exec" where
  "lc_init_program R H B decode ini =
     (case decode (in_sync_aggregate_encoded ini) of
        None \<Rightarrow> Panic ''Correctly scale-encoded SyncAggregate''
      | Some agg \<Rightarrow>
      (case construct_sync_committee B (in_current_aggregate_pubkey ini) (in_current_pub_keys ini) of
        None \<Rightarrow> Panic ''Wrong public committee keys''
      | Some committee \<Rightarrow>
          if \<not> is_current_committee_proof_valid H (in_network ini)
               (su_finalized_header (in_update ini)) committee (in_current_branch ini)
          then Panic ''Current sync committee proof is not valid''
          else let period = calculate_period (slot_of (su_finalized_header (in_update ini))) - 1 in
          exec_bind (verify H B (in_network ini) (calculate_slot period) (in_current_pub_keys ini)
              (in_current_pub_keys ini) (in_update ini) agg) (\<lambda>v.
            case v of
              Inl e \<Rightarrow> Panic ''Failed to verify sync committee update''
            | Inr (Some fh, Some next) \<Rightarrow>
                Ret \<lparr>ls_network = in_network ini,
                     ls_finalized_header = fh,
                     ls_committee_current = in_current_pub_keys ini,
                     ls_committee_next = next,
                     ls_checkpoints = cp_push R (cp_new R) (slot_of fh) (header_root H fh),
                     ls_replay_back = None\<rparr>
            | Inr _ \<Rightarrow> Panic ''Incorrect initial sync committee update'')))"

end
