(* ===== verification/Light_Client_Proofs.thy ===== *)
theory Light_Client_Proofs
  imports Light_Client
begin

text \<open>
  What the light client guarantees: an accepted update carries a supermajority signature of the
  right committee and valid Merkle proofs; a call that is not interleaved with another keeps the
  checkpoints ordered and the last of them the finalized header; a replay adds only ancestors of a
  finalized header, and one call with all the headers completes it; and, as the code is, which
  interleavings and which updates break the ordering or the committee schedule.
\<close>

section \<open>Inversion of the verification\<close>

lemma verify_signature_True:
  assumes "verify_sync_committee_signature H B net keys attested sig sig_slot = Ret True"
  obtains aggregated message ml where
    "aggregate_g1 B keys = Some aggregated" "\<not> g1_is_zero B aggregated"
    "map_to_g2 B (be_bytes 32 (compute H (header_root H attested)
      (compute_domain H DOMAIN_SYNC_COMMITTEE (fork_version net sig_slot)
        (genesis_validators_root net)))) = Some message"
    "multi_miller_loop B [g1_generator_neg B, aggregated] [sig, message] = Some ml"
    "final_exponentiation B ml = Some (gt_one B)"
  using assms
  by (auto simp: verify_sync_committee_signature_def Let_def split: option.splits if_splits)

lemma committee_update_verify_Some:
  assumes "committee_update_verify H B net store_period
      (committee_update_new attested slot_finalized agg keys branch) = Inr (Some new_keys)"
  obtains a b committee where "agg = Some a" "keys = Some new_keys" "branch = Some b"
    "construct_sync_committee B a new_keys = Some committee"
    "is_next_committee_proof_valid H net attested committee b"
    "calculate_period (slot_of attested) = calculate_period slot_finalized"
    "calculate_period slot_finalized = store_period + 1"
  using assms
  by (auto simp: committee_update_new_def Let_def split: bool.splits option.splits if_splits)

text \<open>The conditions under which an update is accepted, and what is then returned.\<close>

definition accepted_by ::
  "hashes \<Rightarrow> ('g1, 'g2, 'gt) bls \<Rightarrow> network \<Rightarrow> slot \<Rightarrow> 'g1 list \<Rightarrow>
     ('g1, 'g2) sync_update \<Rightarrow> sync_aggregate \<Rightarrow> bool" where
  "accepted_by H B net stored_slot committee upd agg \<longleftrightarrow>
     slot_of (su_finalized_header upd) \<le> slot_of (attested_header upd)
     \<and> slot_of (attested_header upd) < signature_slot upd
     \<and> 2 * SYNC_COMMITTEE_SIZE
         \<le> 3 * length (get_participating_keys committee (sync_committee_bits agg))
     \<and> verify_sync_committee_signature H B net
         (get_participating_keys committee (sync_committee_bits agg)) (attested_header upd)
         (sync_committee_signature upd) (signature_slot upd) = Ret True"

lemma verify_Ok:
  assumes "verify H B net stored_slot current nxt upd agg = Ret (Inr (fu, cu))"
  shows "calculate_period (signature_slot upd) = calculate_period stored_slot + 1
        \<and> accepted_by H B net stored_slot nxt upd agg
      \<or> calculate_period (signature_slot upd) = calculate_period stored_slot
        \<and> accepted_by H B net stored_slot current upd agg"
    and "fu = (if stored_slot < slot_of (su_finalized_header upd)
           then Some (su_finalized_header upd) else None)"
    and "fu \<noteq> None \<Longrightarrow> is_finality_proof_valid H net (attested_header upd)
           (su_finalized_header upd) (finality_branch upd)"
    and "committee_update_verify H B net (calculate_period stored_slot)
           (committee_update_new (attested_header upd) (slot_of (su_finalized_header upd))
             (next_aggregate_pubkey upd) (next_pub_keys upd) (next_branch upd)) = Inr cu"
    and "fu \<noteq> None \<or> cu \<noteq> None"
  using assms
  by (auto simp: verify_def Let_def accepted_by_def exec_bind_Ret_iff not_less
      split: if_splits sum.splits)

lemma verify_period_bound:
  assumes "verify H B net stored_slot current nxt upd agg = Ret (Inr (fu, cu))"
  shows "calculate_period (slot_of (su_finalized_header upd)) \<le> calculate_period stored_slot + 1"
proof -
  from verify_Ok(1) [OF assms] have "slot_of (su_finalized_header upd) \<le> signature_slot upd"
    by (auto simp: accepted_by_def)
  then have "calculate_period (slot_of (su_finalized_header upd)) \<le> calculate_period (signature_slot upd)"
    by (rule calculate_period_mono)
  moreover have "calculate_period stored_slot \<le> calculate_period stored_slot + 1"
    by (simp add: word_le_nat_alt unat_period_Suc)
  ultimately show ?thesis using verify_Ok(1) [OF assms] by auto
qed

lemma period_less_Suc: "calculate_period s < calculate_period s + 1"
  by (simp add: word_less_nat_alt unat_period_Suc)

lemma verify_committee_finalizes:
  assumes "verify H B net stored_slot current nxt upd agg = Ret (Inr (fu, Some keys))"
  shows "fu = Some (su_finalized_header upd)"
    and "calculate_period (slot_of (su_finalized_header upd)) = calculate_period stored_slot + 1"
proof -
  from verify_Ok(4) [OF assms]
  show p: "calculate_period (slot_of (su_finalized_header upd)) = calculate_period stored_slot + 1"
    by (rule committee_update_verify_Some)
  have "stored_slot < slot_of (su_finalized_header upd)"
  proof (rule ccontr)
    assume "\<not> stored_slot < slot_of (su_finalized_header upd)"
    then have "calculate_period (slot_of (su_finalized_header upd)) \<le> calculate_period stored_slot"
      by (intro calculate_period_mono) simp
    with p period_less_Suc [of stored_slot] show False by simp
  qed
  with verify_Ok(2) [OF assms] show "fu = Some (su_finalized_header upd)" by simp
qed

lemma verify_finalizes:
  assumes "verify H B net stored_slot current nxt upd agg = Ret (Inr (fu, cu))"
  shows "fu = Some (su_finalized_header upd)" "stored_slot < slot_of (su_finalized_header upd)"
proof -
  show fu: "fu = Some (su_finalized_header upd)"
  proof (cases cu)
    case None
    with verify_Ok(2,5) [OF assms] show ?thesis by (auto split: if_splits)
  next
    case (Some keys)
    with assms verify_committee_finalizes(1) show ?thesis by blast
  qed
  with verify_Ok(2) [OF assms] show "stored_slot < slot_of (su_finalized_header upd)"
    by (simp split: if_splits)
qed

section \<open>The invariant of the state\<close>

definition light_inv :: "'b ring \<Rightarrow> hashes \<Rightarrow> ('b \<Rightarrow> bool) \<Rightarrow> ('g1, 'b) light_state \<Rightarrow> bool" where
  "light_inv R H invar st \<longleftrightarrow>
     invar (ls_checkpoints st)
     \<and> slots_increasing (cp_checkpoints R (ls_checkpoints st))
     \<and> cp_last R (ls_checkpoints st)
         = Some (slot_of (ls_finalized_header st), header_root H (ls_finalized_header st))"

text \<open>
  A replay under way: its checkpoints run down from the finalized header to the last header that
  was linked, which lies on the chain.
\<close>

definition replay_inv :: "hashes \<Rightarrow> header set \<Rightarrow> 'g1 replay_back_state \<Rightarrow> bool" where
  "replay_inv H C rb \<longleftrightarrow>
     rbs_checkpoints rb \<noteq> []
     \<and> hd (rbs_checkpoints rb)
         = (slot_of (rbs_finalized_header rb), header_root H (rbs_finalized_header rb))
     \<and> sorted_wrt (\<lambda>a b. fst b < fst a) (rbs_checkpoints rb)
     \<and> (\<forall>c \<in> set (rbs_checkpoints rb). slot_of (rbs_last_header rb) \<le> fst c
          \<and> (\<exists>h. ancestor (header_root H) (rbs_finalized_header rb) h
               \<and> c = (slot_of h, header_root H h)))
     \<and> ancestor (header_root H) (rbs_finalized_header rb) (rbs_last_header rb)
     \<and> rbs_last_header rb \<in> C"

definition lc_inv ::
  "'b ring \<Rightarrow> hashes \<Rightarrow> ('b \<Rightarrow> bool) \<Rightarrow> header set \<Rightarrow> ('g1, 'b) light_state \<Rightarrow> bool" where
  "lc_inv R H invar C st \<longleftrightarrow>
     light_inv R H invar st \<and> (\<forall>rb. ls_replay_back st = Some rb \<longrightarrow> replay_inv H C rb)"

lemma replay_inv_start:
  "fh \<in> C \<Longrightarrow> replay_inv H C \<lparr>rbs_finalized_header = fh, rbs_sync_committee_next = cu,
     rbs_checkpoints = [(slot_of fh, header_root H fh)], rbs_last_header = fh\<rparr>"
  using ancestor_refl [of "header_root H" fh] by (auto simp: replay_inv_def)

lemma check_headers_inv:
  assumes "beacon_chain (header_root H) C" and "replay_inv H C rb"
  shows "\<exists>rb'. check_headers H last_cp rb headers = Ret rb' \<and> replay_inv H C rb'
    \<and> rbs_finalized_header rb' = rbs_finalized_header rb
    \<and> rbs_sync_committee_next rb' = rbs_sync_committee_next rb"
  using assms(2)
proof (induction headers arbitrary: rb)
  case Nil
  then show ?case by simp
next
  case (Cons header headers)
  let ?hash = "header_root H header"
  show ?case
  proof (cases "?hash \<noteq> parent_root (rbs_last_header rb) \<or>
      slot_of header = fst last_cp \<and> ?hash = snd last_cp")
    case True
    with Cons.prems show ?thesis by (auto simp: Let_def)
  next
    case False
    then have link: "?hash = parent_root (rbs_last_header rb)" by simp
    let ?rb1 = "rb\<lparr>rbs_last_header := header\<rparr>"
    let ?rb2 = "?rb1\<lparr>rbs_checkpoints := rbs_checkpoints rb @ [(slot_of header, ?hash)]\<rparr>"
    from Cons.prems have inC: "rbs_last_header rb \<in> C" and ne: "rbs_checkpoints rb \<noteq> []"
      and anc: "ancestor (header_root H) (rbs_finalized_header rb) (rbs_last_header rb)"
      by (auto simp: replay_inv_def)
    from beacon_chainD [OF assms(1) inC link]
    have down: "header \<in> C" "slot_of header < slot_of (rbs_last_header rb)" by auto
    have anc': "ancestor (header_root H) (rbs_finalized_header rb) header"
      using anc link by (rule ancestor_step)
    have keep: "replay_inv H C ?rb1"
      using Cons.prems down anc' by (auto simp: replay_inv_def)
    have push: "replay_inv H C ?rb2"
      using Cons.prems down anc' ne by (auto simp: replay_inv_def sorted_wrt_append)
    obtain c where "last_opt (rbs_checkpoints rb) = Some c" using ne by (simp add: last_opt_def)
    with False show ?thesis
      using Cons.IH [OF keep] Cons.IH [OF push] by (cases c) (auto simp: Let_def)
  qed
qed

context circular_buffer
begin

lemma push_light:
  assumes "invar b" and "slots_increasing (cp_checkpoints R b)"
    and "\<And>s r. cp_last R b = Some (s, r) \<Longrightarrow> s < slot"
  shows "invar (cp_push R b slot root)" "slots_increasing (cp_checkpoints R (cp_push R b slot root))"
    "cp_last R (cp_push R b slot root) = Some (slot, root)"
  using push_increasing [OF assms(1) _ assms(3)] assms invar_push last_push
  by (auto simp: cp_checkpoints_def)

lemma move_checkpoints_light:
  assumes "invar b" and "slots_increasing (cp_checkpoints R b)"
    and "cs \<noteq> []" and "sorted_wrt (\<lambda>a b. fst b < fst a) cs"
    and "\<And>s r c. cp_last R b = Some (s, r) \<Longrightarrow> c \<in> set cs \<Longrightarrow> s < fst c"
  shows "invar (move_checkpoints R cs b) \<and> slots_increasing (cp_checkpoints R (move_checkpoints R cs b))
    \<and> cp_last R (move_checkpoints R cs b) = Some (hd cs)"
  using assms
proof (induction cs arbitrary: b rule: rev_induct)
  case Nil
  then show ?case by simp
next
  case (snoc c cs)
  let ?b = "cp_push R b (fst c) (snd c)"
  have "s < fst c" if "cp_last R b = Some (s, r)" for s r
    using snoc.prems(5) [OF that] by simp
  note pushed = push_light [OF snoc.prems(1,2) this]
  have step: "move_checkpoints R (cs @ [c]) b = move_checkpoints R cs ?b"
    by (simp add: move_checkpoints_def)
  show ?case
  proof (cases "cs = []")
    case True
    with pushed show ?thesis by (simp add: move_checkpoints_def)
  next
    case False
    have "invar (move_checkpoints R cs ?b)
        \<and> slots_increasing (cp_checkpoints R (move_checkpoints R cs ?b))
        \<and> cp_last R (move_checkpoints R cs ?b) = Some (hd cs)"
      by (rule snoc.IH [OF pushed(1,2) False])
        (use snoc.prems(4) pushed(3) in \<open>auto simp: sorted_wrt_append\<close>)
    with False step show ?thesis by simp
  qed
qed

lemma sync_finish_light:
  assumes "light_inv R H invar st"
    and "\<And>h. fst res = Some h \<Longrightarrow> slot_of (ls_finalized_header st) < slot_of h"
  shows "light_inv R H invar (sync_process_finish R H res st)"
proof (cases "fst res")
  case None
  with assms(1) show ?thesis
    by (auto simp: light_inv_def sync_process_finish_def split: option.splits)
next
  case (Some h)
  from assms have inv: "invar (ls_checkpoints st)"
      "slots_increasing (cp_checkpoints R (ls_checkpoints st))"
      "\<And>s r. cp_last R (ls_checkpoints st) = Some (s, r) \<Longrightarrow> s < slot_of h"
    using Some by (auto simp: light_inv_def)
  note pushed = push_light [OF inv(1,2), of "slot_of h" "header_root H h", OF inv(3)]
  show ?thesis
    by (cases "snd res") (simp_all add: light_inv_def sync_process_finish_def Let_def Some pushed)
qed

lemma process_headers_inv:
  assumes chain: "beacon_chain (header_root H) C"
    and inv: "light_inv R H invar st" and rb: "ls_replay_back st = Some rb" "replay_inv H C rb"
    and run: "process_headers R H sort_by_slot st headers = Ret (fin, st')"
  shows "lc_inv R H invar C st'"
proof -
  let ?last = "(slot_of (ls_finalized_header st), header_root H (ls_finalized_header st))"
  from inv have cp: "cp_last R (ls_checkpoints st) = Some ?last" by (simp add: light_inv_def)
  obtain rb' where rb': "check_headers H ?last rb (rev (sort_by_slot headers)) = Ret rb'"
    "replay_inv H C rb'" using check_headers_inv [OF chain rb(2)] by blast
  note run' = run [unfolded process_headers_def, simplified rb(1) cp rb'(1) option.case exec_bind.simps]
  show ?thesis
  proof (cases "parent_root (rbs_last_header rb') = header_root H (ls_finalized_header st)")
    case False
    with run' inv rb'(2) show ?thesis by (auto simp: lc_inv_def light_inv_def)
  next
    case True
    have below: "slot_of (ls_finalized_header st) < slot_of (rbs_last_header rb')"
      using beacon_chainD [OF chain _ True [symmetric]] rb'(2) by (simp add: replay_inv_def)
    have "invar (move_checkpoints R (rbs_checkpoints rb') (ls_checkpoints st))
        \<and> slots_increasing (cp_checkpoints R (move_checkpoints R (rbs_checkpoints rb') (ls_checkpoints st)))
        \<and> cp_last R (move_checkpoints R (rbs_checkpoints rb') (ls_checkpoints st))
            = Some (hd (rbs_checkpoints rb'))"
      by (rule move_checkpoints_light)
        (use inv rb'(2) below cp in \<open>auto simp: light_inv_def replay_inv_def\<close>)
    with run' True rb'(2) show ?thesis
      by (auto simp: lc_inv_def light_inv_def replay_inv_def Let_def split: option.splits)
  qed
qed

end

section \<open>Runs of the program\<close>

text \<open>
  The states that the constructor and the calls reach when calls do not overlap. The headers that
  a supermajority of the committee signs as finalized are taken from the chain \<open>C\<close>.
\<close>

inductive lc_reachable ::
  "'b ring \<Rightarrow> hashes \<Rightarrow> ('g1, 'g2, 'gt) bls \<Rightarrow> (bytes \<Rightarrow> sync_aggregate option) \<Rightarrow>
     (header list \<Rightarrow> header list) \<Rightarrow> header set \<Rightarrow> ('g1, 'b) light_state \<Rightarrow> bool"
  for R H B decode sort_by_slot C where
  lc_start: "lc_init_program R H B decode ini = Ret st \<Longrightarrow> su_finalized_header (in_update ini) \<in> C \<Longrightarrow>
    lc_reachable R H B decode sort_by_slot C st"
| lc_sync: "lc_reachable R H B decode sort_by_slot C st \<Longrightarrow> su_finalized_header upd \<in> C \<Longrightarrow>
    sync_process R H B decode st upd agg = Ret (r, st') \<Longrightarrow>
    lc_reachable R H B decode sort_by_slot C st'"
| lc_replay_start: "lc_reachable R H B decode sort_by_slot C st \<Longrightarrow> su_finalized_header upd \<in> C \<Longrightarrow>
    replay_start R H B decode sort_by_slot st upd agg headers = Ret (r2, st') \<Longrightarrow>
    lc_reachable R H B decode sort_by_slot C st'"
| lc_replay_process: "lc_reachable R H B decode sort_by_slot C st \<Longrightarrow>
    replay_process R H sort_by_slot st headers = Ret (r2, st') \<Longrightarrow>
    lc_reachable R H B decode sort_by_slot C st'"

lemma lc_init_cases:
  assumes "lc_init_program R H B decode ini = Ret st"
  obtains fh keys agg where
    "verify H B (in_network ini)
       (calculate_slot (calculate_period (slot_of (su_finalized_header (in_update ini))) - 1))
       (in_current_pub_keys ini) (in_current_pub_keys ini) (in_update ini) agg
     = Ret (Inr (Some fh, Some keys))"
    "st = \<lparr>ls_network = in_network ini, ls_finalized_header = fh,
       ls_committee_current = in_current_pub_keys ini, ls_committee_next = keys,
       ls_checkpoints = cp_push R (cp_new R) (slot_of fh) (header_root H fh),
       ls_replay_back = None\<rparr>"
proof -
  from assms obtain agg v where v: "verify H B (in_network ini)
       (calculate_slot (calculate_period (slot_of (su_finalized_header (in_update ini))) - 1))
       (in_current_pub_keys ini) (in_current_pub_keys ini) (in_update ini) agg = Ret v"
    and st: "(case v of Inl e \<Rightarrow> Panic ''Failed to verify sync committee update''
      | Inr (Some fh, Some next) \<Rightarrow>
          Ret \<lparr>ls_network = in_network ini, ls_finalized_header = fh,
            ls_committee_current = in_current_pub_keys ini, ls_committee_next = next,
            ls_checkpoints = cp_push R (cp_new R) (slot_of fh) (header_root H fh),
            ls_replay_back = None\<rparr>
      | Inr _ \<Rightarrow> Panic ''Incorrect initial sync committee update'') = Ret st"
    by (auto simp: lc_init_program_def Let_def exec_bind_Ret_iff split: option.splits if_splits)
  then show thesis using that by (auto split: sum.splits option.splits prod.splits)
qed

lemma sync_process_cases:
  assumes "sync_process R H B decode st upd agg_encoded = Ret (r, st')"
  obtains (refused) e where "r = Inl e" "st' = st"
  | (accepted) agg res where "r = Inr ()" "st' = sync_process_finish R H res st"
      "decode agg_encoded = Some agg"
      "verify_snapshot H B (take_snapshot st) upd agg = Ret (Inr res)"
      "\<not> calculate_epoch (slot_of (ls_finalized_header st)) + MAX_EPOCHS_GAP
         \<le> calculate_epoch (slot_of (su_finalized_header upd))"
proof -
  from assms obtain x where start: "sync_process_start R decode st upd agg_encoded = Ret x"
    by (auto simp: sync_process_def exec_bind_Ret_iff)
  show thesis
  proof (cases x)
    case (Inl e)
    with assms start show thesis by (intro refused) (auto simp: sync_process_def)
  next
    case (Inr p)
    with start obtain agg where p: "p = (take_snapshot st, agg)" "decode agg_encoded = Some agg"
      and gap: "\<not> calculate_epoch (slot_of (ls_finalized_header st)) + MAX_EPOCHS_GAP
         \<le> calculate_epoch (slot_of (su_finalized_header upd))"
      by (auto simp: sync_process_start_def Let_def take_snapshot_def split: if_splits option.splits)
    from assms start Inr p obtain v where v: "verify_snapshot H B (take_snapshot st) upd agg = Ret v"
      and rest: "(case v of Inl e \<Rightarrow> Ret (Inl e, st)
        | Inr res \<Rightarrow> Ret (Inr (), sync_process_finish R H res st)) = Ret (r, st')"
      by (auto simp: sync_process_def exec_bind_Ret_iff)
    show thesis
      by (cases v) (use rest v p gap in \<open>auto intro: refused accepted\<close>)
  qed
qed

lemma replay_start_cases:
  assumes "replay_start R H B decode sort_by_slot st upd agg_encoded headers = Ret (r, st')"
  obtains (refused) e where "r = Inl e" "st' = st"
  | (accepted) agg fh cu fin where "r = Inr (replay_status fin)" "ls_replay_back st = None"
      "verify_snapshot H B (take_snapshot st) upd agg = Ret (Inr (Some fh, cu))"
      "process_headers R H sort_by_slot
         (st\<lparr>ls_replay_back := Some \<lparr>rbs_finalized_header = fh, rbs_sync_committee_next = cu,
            rbs_checkpoints = [(slot_of fh, header_root H fh)], rbs_last_header = fh\<rparr>\<rparr>)
         headers = Ret (fin, st')"
proof (cases "replay_start_begin decode st agg_encoded")
  case (Inl e)
  with assms show thesis by (intro refused) (auto simp: replay_start_def)
next
  case (Inr p)
  then obtain agg where p: "p = (take_snapshot st, agg)" and none: "ls_replay_back st = None"
    by (auto simp: replay_start_begin_def split: if_splits option.splits)
  from assms Inr p obtain v where v: "verify_snapshot H B (take_snapshot st) upd agg = Ret v"
    and rest: "(case v of Inl e \<Rightarrow> Ret (Inl (VerifyError e), st)
      | Inr res \<Rightarrow> replay_start_finish R H sort_by_slot res headers st) = Ret (r, st')"
    by (auto simp: replay_start_def exec_bind_Ret_iff)
  show thesis
  proof (cases v)
    case (Inl e)
    with rest show thesis by (intro refused) auto
  next
    case v': (Inr res)
    obtain fu cu where res: "res = (fu, cu)" by (cases res)
    show thesis
    proof (cases fu)
      case None
      with rest v' res show thesis by (intro refused) (auto simp: replay_start_finish_def)
    next
      case (Some fh)
      with rest v' res none v show thesis
        by (auto simp: replay_start_finish_def exec_bind_Ret_iff intro: accepted)
    qed
  qed
qed

lemma verify_snapshot_newer:
  assumes "verify_snapshot H B (take_snapshot st) upd agg = Ret (Inr res)" and "fst res = Some h"
  shows "h = su_finalized_header upd" "slot_of (ls_finalized_header st) < slot_of h"
proof -
  obtain cu where "res = (Some h, cu)" using assms(2) by (cases res) auto
  with assms(1) have "verify H B (ls_network st) (slot_of (ls_finalized_header st))
      (ls_committee_current st) (ls_committee_next st) upd agg = Ret (Inr (Some h, cu))"
    by (simp add: verify_snapshot_def take_snapshot_def)
  from verify_Ok(2) [OF this]
  show "h = su_finalized_header upd" "slot_of (ls_finalized_header st) < slot_of h"
    by (auto split: if_splits)
qed

context circular_buffer
begin

lemma init_light: "lc_init_program R H B decode ini = Ret st \<Longrightarrow> lc_inv R H invar C st"
proof (erule lc_init_cases)
  have "cp_last R (cp_new R) = None"
    by (simp add: cp_last_def cp_new_def back_last invar_boxed to_vec_boxed)
  note pushed = push_light [of "cp_new R", unfolded this]
  fix fh keys agg
  assume "st = \<lparr>ls_network = in_network ini, ls_finalized_header = fh,
       ls_committee_current = in_current_pub_keys ini, ls_committee_next = keys,
       ls_checkpoints = cp_push R (cp_new R) (slot_of fh) (header_root H fh),
       ls_replay_back = None\<rparr>"
  then show "lc_inv R H invar C st"
    using pushed [of "slot_of fh" "header_root H fh"]
    by (simp add: lc_inv_def light_inv_def cp_new_def invar_boxed cp_checkpoints_def to_vec_boxed)
qed

lemma reachable_inv:
  assumes "lc_reachable R H B decode sort_by_slot C st" and "beacon_chain (header_root H) C"
  shows "lc_inv R H invar C st"
  using assms(1)
proof induction
  case (lc_start ini st)
  then show ?case by (blast intro: init_light)
next
  case (lc_sync st upd agg r st')
  from lc_sync.hyps(3) show ?case
  proof (cases rule: sync_process_cases)
    case refused
    with lc_sync.IH show ?thesis by simp
  next
    case (accepted agg' res)
    have "ls_replay_back (sync_process_finish R H res st) = ls_replay_back st"
      by (auto simp: sync_process_finish_def Let_def split: option.splits)
    moreover have "light_inv R H invar (sync_process_finish R H res st)"
      using lc_sync.IH verify_snapshot_newer [OF accepted(4)]
      by (intro sync_finish_light) (auto simp: lc_inv_def)
    ultimately show ?thesis using lc_sync.IH accepted(2) by (simp add: lc_inv_def)
  qed
next
  case (lc_replay_start st upd agg headers r2 st')
  from lc_replay_start.hyps(3) show ?case
  proof (cases rule: replay_start_cases)
    case refused
    with lc_replay_start.IH show ?thesis by simp
  next
    case (accepted agg' fh cu fin)
    have "fh \<in> C" using verify_snapshot_newer [OF accepted(3)] lc_replay_start.hyps(2) by simp
    then show ?thesis
      using lc_replay_start.IH
      by (intro process_headers_inv [OF assms(2) _ _ _ accepted(4)])
        (auto simp: lc_inv_def light_inv_def replay_inv_start)
  qed
next
  case (lc_replay_process st headers r2 st')
  show ?case
  proof (cases "ls_replay_back st")
    case None
    with lc_replay_process show ?thesis by (simp add: replay_process_def)
  next
    case (Some rb)
    with lc_replay_process.hyps obtain fin
      where "process_headers R H sort_by_slot st headers = Ret (fin, st')"
      by (auto simp: replay_process_def exec_bind_Ret_iff)
    with Some lc_replay_process.IH show ?thesis
      by (intro process_headers_inv [OF assms(2)]) (auto simp: lc_inv_def)
  qed
qed

end

section \<open>A small world\<close>

text \<open>
  Concrete parameters for the witnesses: three linked headers, a hash that names a block by its
  slot, and a group in which the signature of a set of keys is the sum of the keys.
\<close>

definition sample_header :: "u64 \<Rightarrow> h256 \<Rightarrow> header" where
  "sample_header slot parent =
     \<lparr>slot_of = slot, proposer_index = 0, parent_root = parent, state_root = 0, body_root = 0\<rparr>"

definition sample_chain :: "header list" where
  "sample_chain = [sample_header 8192 1, sample_header 8292 8192, sample_header 8392 8292,
     sample_header 16384 8392]"

definition sample_hashes :: hashes where
  "sample_hashes = \<lparr>
     sha256 = (\<lambda>bs. 0),
     header_root = (\<lambda>h. if h \<in> set sample_chain then ucast (slot_of h) else 0),
     committee_root = (\<lambda>c. 0),
     signing_data_root = (\<lambda>d. 0),
     fork_data_root = (\<lambda>d. 0)\<rparr>"

definition sample_bls :: "(nat, nat, nat) bls" where
  "sample_bls = \<lparr>
     g1_compress = (\<lambda>k. Some [of_nat k]),
     g1_is_zero = (\<lambda>k. k = 0),
     g1_generator_neg = 0,
     aggregate_g1 = (\<lambda>ks. Some (sum_list ks)),
     map_to_g2 = (\<lambda>m. Some 1),
     multi_miller_loop = (\<lambda>ps qs. Some (if nth_opt qs 0 = nth_opt ps 1 then 1 else 0)),
     final_exponentiation = Some,
     gt_one = 1\<rparr>"

definition sample_aggregate :: sync_aggregate where
  "sample_aggregate =
     \<lparr>sync_committee_bits = replicate 512 True, sync_committee_signature_bytes = []\<rparr>"

definition sample_decode :: "bytes \<Rightarrow> sync_aggregate option" where
  "sample_decode bs = (if bs = [] then Some sample_aggregate else None)"

definition sample_update :: "header \<Rightarrow> u64 \<Rightarrow> nat list option \<Rightarrow> (nat, nat) sync_update" where
  "sample_update fh sig_slot keys = \<lparr>
     signature_slot = sig_slot,
     attested_header = sample_header (sig_slot - 1) 0,
     su_finalized_header = fh,
     sync_committee_signature = 512,
     next_aggregate_pubkey = map_option (\<lambda>_. []) keys,
     next_pub_keys = keys,
     next_branch = map_option (\<lambda>_. replicate 6 0) keys,
     finality_branch = replicate 7 0\<rparr>"

definition sample_keys :: "nat list" where "sample_keys = replicate 512 1"

definition sample_state :: "(nat, array_ring) light_state" where
  "sample_state = \<lparr>
     ls_network = Mainnet,
     ls_finalized_header = sample_header 8192 1,
     ls_committee_current = sample_keys,
     ls_committee_next = sample_keys,
     ls_checkpoints = cp_push (array_ring 3) (cp_new (array_ring 3)) 8192 8192,
     ls_replay_back = None\<rparr>"

definition sample_init :: "(nat, nat) lc_init" where
  "sample_init = \<lparr>
     in_network = Mainnet,
     in_current_pub_keys = sample_keys,
     in_current_aggregate_pubkey = [],
     in_current_branch = replicate 5 0,
     in_update = sample_update (sample_header 8192 1) 8300 (Some sample_keys),
     in_sync_aggregate_encoded = []\<rparr>"

lemma sample_participants: "get_participating_keys sample_keys (sync_committee_bits sample_aggregate) = sample_keys"
  by (simp add: get_participating_keys_def sample_keys_def sample_aggregate_def zip_replicate
      map_filter_def)

lemma those_replicate_Some: "those (replicate n (Some x)) = Some (replicate n x)"
  by (induction n) auto

lemma sample_committee:
  "construct_sync_committee sample_bls a sample_keys
     = Some \<lparr>pubkeys = replicate 512 [1], aggregate_pubkey = a\<rparr>"
  by (simp add: construct_sync_committee_def sample_bls_def those_replicate_Some sample_keys_def
      SYNC_COMMITTEE_SIZE_def)

lemma sample_signature:
  "verify_sync_committee_signature sample_hashes sample_bls net sample_keys h 512 s = Ret True"
  by (simp add: verify_sync_committee_signature_def sample_bls_def sample_keys_def sum_list_replicate
      nth_opt_def Let_def)

lemma sample_chain_ok: "beacon_chain (header_root sample_hashes) (set sample_chain)"
  unfolding beacon_chain_def
  by (auto simp: sample_hashes_def sample_chain_def sample_header_def split: if_splits)

lemma merkle_fold_const:
  "depth \<le> i + length branch \<Longrightarrow>
   merkle_fold (\<lambda>_. c) v branch i depth index = Some (if i < depth then c else v)"
proof (induction branch arbitrary: i v)
  case Nil
  then show ?case by (simp add: merkle_fold.simps)
next
  case (Cons a branch)
  then show ?case by (subst merkle_fold.simps) (simp add: hash_pair_def)
qed

lemma sample_proofs:
  "is_finality_proof_valid sample_hashes net (sample_header s p) h (replicate 7 0)"
  "is_next_committee_proof_valid sample_hashes net (sample_header s p) sc (replicate 6 0)"
  by (simp_all add: is_finality_proof_valid_def depth_index_finality_def is_next_committee_proof_valid_def
      depth_index_next_def is_valid_merkle_branch_def sample_hashes_def sample_header_def merkle_fold_const)

lemma sample_committee_update:
  assumes "keys \<in> {None, Some sample_keys}"
  shows "committee_update_verify sample_hashes sample_bls net p
      (committee_update_new (sample_header a q) sf (map_option (\<lambda>_. []) keys) keys
        (map_option (\<lambda>_. replicate 6 0) keys))
    = Inr (if calculate_period a = calculate_period sf \<and> calculate_period sf = p + 1
        then keys else None)"
proof -
  have slot: "slot_of (sample_header a q) = a" by (simp add: sample_header_def)
  show ?thesis
    using assms
    by (cases "calculate_period a = calculate_period sf")
      (auto simp: committee_update_new_def slot sample_committee sample_proofs)
qed

lemma sample_verify:
  assumes "stored_slot < slot_of fh" "slot_of fh < s - 1" "s - 1 < s"
    "calculate_period s = calculate_period stored_slot
       \<or> calculate_period s = calculate_period stored_slot + 1"
    "keys \<in> {None, Some sample_keys}"
    "(if calculate_period s = calculate_period stored_slot + 1 then nxt else current) = sample_keys"
  shows "verify sample_hashes sample_bls net stored_slot current nxt
      (sample_update fh s keys) sample_aggregate
    = Ret (Inr (Some fh, if calculate_period (s - 1) = calculate_period (slot_of fh)
        \<and> calculate_period (slot_of fh) = calculate_period stored_slot + 1 then keys else None))"
proof -
  have "slot_of fh \<le> s - 1" using assms(2) by simp
  moreover have "slot_of (sample_header (s - 1) 0) = s - 1" by (simp add: sample_header_def)
  moreover have "\<not> length sample_keys * 3 < SYNC_COMMITTEE_SIZE * 2"
    by (simp add: sample_keys_def SYNC_COMMITTEE_SIZE_def)
  ultimately show ?thesis
    using assms
    by (auto simp: verify_def Let_def sample_update_def sample_participants sample_signature
        sample_proofs sample_committee_update)
qed

section \<open>Properties\<close>

text \<open>
  Property C1. An update is accepted only when at least two thirds of the committee that is in
  charge at the signature slot take part and the built-in actor accepts their aggregated signature
  over the attested header; a header is then finalized only with a finality proof against the
  attested state root and only if it is newer, and a committee is then stored only if it is proved
  to be the next one, in the period after that of the stored header.
\<close>

theorem verify_sound:
  assumes "verify H B net stored_slot current nxt upd agg = Ret (Inr (fu, cu))"
  defines "committee \<equiv> (if calculate_period (signature_slot upd) = calculate_period stored_slot + 1
    then nxt else current)"
  shows "calculate_period (signature_slot upd)
        \<in> {calculate_period stored_slot, calculate_period stored_slot + 1}
    \<and> 2 * SYNC_COMMITTEE_SIZE \<le> 3 * length (get_participating_keys committee (sync_committee_bits agg))
    \<and> verify_sync_committee_signature H B net
        (get_participating_keys committee (sync_committee_bits agg)) (attested_header upd)
        (sync_committee_signature upd) (signature_slot upd) = Ret True
    \<and> (\<forall>h. fu = Some h \<longrightarrow> h = su_finalized_header upd \<and> stored_slot < slot_of h
        \<and> slot_of h < signature_slot upd
        \<and> is_finality_proof_valid H net (attested_header upd) h (finality_branch upd))
    \<and> (\<forall>keys. cu = Some keys \<longrightarrow> fu \<noteq> None
        \<and> calculate_period (slot_of (attested_header upd)) = calculate_period stored_slot + 1
        \<and> (\<exists>a b sc. construct_sync_committee B a keys = Some sc
             \<and> next_branch upd = Some b
             \<and> is_next_committee_proof_valid H net (attested_header upd) sc b))"
proof (intro conjI allI impI)
  note ok = verify_Ok [OF assms(1)]
  have neq: "calculate_period stored_slot \<noteq> calculate_period stored_slot + 1" by simp
  have acc: "accepted_by H B net stored_slot committee upd agg"
    using ok(1) neq by (auto simp: committee_def)
  show "calculate_period (signature_slot upd)
      \<in> {calculate_period stored_slot, calculate_period stored_slot + 1}" using ok(1) by auto
  show "2 * SYNC_COMMITTEE_SIZE \<le> 3 * length (get_participating_keys committee (sync_committee_bits agg))"
    "verify_sync_committee_signature H B net
        (get_participating_keys committee (sync_committee_bits agg)) (attested_header upd)
        (sync_committee_signature upd) (signature_slot upd) = Ret True"
    using acc by (simp_all add: accepted_by_def)
  show "h = su_finalized_header upd" "stored_slot < slot_of h" "slot_of h < signature_slot upd"
    "is_finality_proof_valid H net (attested_header upd) h (finality_branch upd)" if "fu = Some h" for h
    using ok(2,3) acc that by (auto simp: accepted_by_def split: if_splits)
  fix keys assume cu: "cu = Some keys"
  show "fu \<noteq> None" using verify_committee_finalizes(1) assms(1) cu by blast
  from committee_update_verify_Some [OF ok(4) [unfolded cu]]
  show "calculate_period (slot_of (attested_header upd)) = calculate_period stored_slot + 1"
    "\<exists>a b sc. construct_sync_committee B a keys = Some sc \<and> next_branch upd = Some b
      \<and> is_next_committee_proof_valid H net (attested_header upd) sc b"
    by metis+
qed

theorem verify_sound_witness:
  "verify sample_hashes sample_bls Mainnet 8192 sample_keys sample_keys
     (sample_update (sample_header 16384 8392) 16500 (Some sample_keys)) sample_aggregate
     = Ret (Inr (Some (sample_header 16384 8392), Some sample_keys))
   \<and> 2 * SYNC_COMMITTEE_SIZE
       \<le> 3 * length (get_participating_keys sample_keys (sync_committee_bits sample_aggregate))"
proof -
  have run: "verify sample_hashes sample_bls Mainnet 8192 sample_keys sample_keys
     (sample_update (sample_header 16384 8392) 16500 (Some sample_keys)) sample_aggregate
     = Ret (Inr (Some (sample_header 16384 8392), Some sample_keys))"
    by (subst sample_verify) (simp_all add: sample_header_def calculate_period_def calculate_epoch_def
        SLOTS_PER_EPOCH_def EPOCHS_PER_SYNC_COMMITTEE_def)
  from verify_sound [OF run] run show ?thesis by simp
qed

lemma sample_periods [simp]:
  "calculate_period 8192 = 1" "calculate_period 8292 = 1" "calculate_period 8299 = 1"
  "calculate_period 8300 = 1" "calculate_period 8392 = 1" "calculate_period 8499 = 1"
  "calculate_period 8500 = 1" "calculate_period 16384 = 2" "calculate_period 16499 = 2"
  "calculate_period 16500 = 2" "calculate_period 0 = 0" "calculate_slot 0 = 0"
  by (simp_all add: calculate_period_def calculate_epoch_def calculate_slot_def
      SLOTS_PER_EPOCH_def EPOCHS_PER_SYNC_COMMITTEE_def)

lemma sample_slots [simp]: "slot_of (sample_header s p) = s" "parent_root (sample_header s p) = p"
  by (simp_all add: sample_header_def)

lemma sample_roots [simp]:
  "header_root sample_hashes (sample_header 8192 1) = 8192"
  "header_root sample_hashes (sample_header 8292 8192) = 8292"
  "header_root sample_hashes (sample_header 8392 8292) = 8392"
  "header_root sample_hashes (sample_header 16384 8392) = 16384"
  by (simp_all add: sample_hashes_def sample_chain_def sample_header_def)

lemma sample_current_proof:
  "is_current_committee_proof_valid sample_hashes Mainnet (sample_header 8192 p) sc (replicate 5 0)"
  by (simp add: is_current_committee_proof_valid_def depth_index_current_def sample_header_def
      is_valid_merkle_branch_def sample_hashes_def merkle_fold_const calculate_epoch_def SLOTS_PER_EPOCH_def)

lemma sample_init_state:
  "lc_init_program (array_ring 3) sample_hashes sample_bls sample_decode sample_init = Ret sample_state"
proof -
  have "verify sample_hashes sample_bls Mainnet 0 sample_keys sample_keys
      (sample_update (sample_header 8192 1) 8300 (Some sample_keys)) sample_aggregate
    = Ret (Inr (Some (sample_header 8192 1), Some sample_keys))"
    by (subst sample_verify) simp_all
  moreover have "su_finalized_header (sample_update h s k) = h" for h s k
    by (simp add: sample_update_def)
  ultimately show ?thesis
    by (simp add: lc_init_program_def sample_init_def sample_decode_def sample_committee
        sample_current_proof sample_state_def)
qed

lemma sample_reachable:
  "lc_reachable (array_ring 3) sample_hashes sample_bls sample_decode (sort_key slot_of)
     (set sample_chain) sample_state"
  by (rule lc_start [OF sample_init_state])
    (simp add: sample_init_def sample_update_def sample_chain_def)

text \<open>
  Property C2. When calls do not overlap, every reachable state has checkpoints with increasing
  slots whose last one is the finalized header, so that a request for a checkpoint is answered with
  the first one at or after the slot, across finality updates and multi-call replays alike.
\<close>

theorem reachable_checkpoints_ordered:
  assumes "circular_buffer R N invar" and "beacon_chain (header_root H) C"
    and "lc_reachable R H B decode sort_by_slot C st"
  shows "slots_increasing (cp_checkpoints R (ls_checkpoints st))
    \<and> cp_last R (ls_checkpoints st)
        = Some (slot_of (ls_finalized_header st), header_root H (ls_finalized_header st))
    \<and> checkpoint_for_get R st slot = first_at_or_after slot (cp_checkpoints R (ls_checkpoints st))"
proof -
  from circular_buffer.reachable_inv [OF assms(1,3,2)] have "light_inv R H invar st"
    by (simp add: lc_inv_def)
  then show ?thesis
    using circular_buffer.checkpoint_spec [OF assms(1), of "ls_checkpoints st" slot]
    by (simp add: light_inv_def checkpoint_for_get_def cp_checkpoints_def)
qed

theorem reachable_checkpoints_ordered_witness:
  "lc_reachable (array_ring 3) sample_hashes sample_bls sample_decode (sort_key slot_of)
     (set sample_chain) sample_state
   \<and> checkpoint_for_get (array_ring 3) sample_state 8000 = Inr (8192, 8192)"
proof -
  have "circular_buffer (array_ring 3) 3 (ar_invar 3)" by (rule circular_buffer_array_ring) simp
  from reachable_checkpoints_ordered [OF this sample_chain_ok sample_reachable, of 8000]
  have "checkpoint_for_get (array_ring 3) sample_state 8000
    = first_at_or_after 8000 (cp_checkpoints (array_ring 3) (ls_checkpoints sample_state))" by simp
  moreover have "cp_checkpoints (array_ring 3) (ls_checkpoints sample_state) = [(8192, 8192)]"
    by code_simp
  ultimately show ?thesis using sample_reachable by (simp add: first_at_or_after_def)
qed

text \<open>
  Property C30. A replay that finishes has linked the new finalized header to the last stored
  checkpoint: every checkpoint it adds is an ancestor of that header, and one of the ancestors has
  the stored checkpoint as its parent.
\<close>

theorem replay_links_to_checkpoint:
  assumes "beacon_chain (header_root H) C" and "lc_inv R H invar C st"
    and "replay_process R H sort_by_slot st headers = Ret (Inr Finished, st')"
  shows "\<exists>rb cs. ls_replay_back st = Some rb
    \<and> ls_finalized_header st' = rbs_finalized_header rb \<and> ls_replay_back st' = None
    \<and> ls_checkpoints st' = move_checkpoints R cs (ls_checkpoints st)
    \<and> hd cs = (slot_of (rbs_finalized_header rb), header_root H (rbs_finalized_header rb))
    \<and> (\<forall>c \<in> set cs. \<exists>h. ancestor (header_root H) (rbs_finalized_header rb) h
         \<and> c = (slot_of h, header_root H h))
    \<and> (\<exists>h. ancestor (header_root H) (rbs_finalized_header rb) h
         \<and> parent_root h = header_root H (ls_finalized_header st))"
proof -
  from assms(3) obtain rb where rb: "ls_replay_back st = Some rb"
    by (cases "ls_replay_back st") (auto simp: replay_process_def)
  with assms(2) have inv: "replay_inv H C rb" by (simp add: lc_inv_def)
  from assms(3) rb have run: "process_headers R H sort_by_slot st headers = Ret (True, st')"
    by (auto simp: replay_process_def exec_bind_Ret_iff replay_status_def split: if_splits)
  let ?last = "(slot_of (ls_finalized_header st), header_root H (ls_finalized_header st))"
  from assms(2) have cp: "cp_last R (ls_checkpoints st) = Some ?last"
    by (simp add: lc_inv_def light_inv_def)
  obtain rb' where rb': "check_headers H ?last rb (rev (sort_by_slot headers)) = Ret rb'"
      "replay_inv H C rb'" "rbs_finalized_header rb' = rbs_finalized_header rb"
    using check_headers_inv [OF assms(1) inv] by blast
  note run' = run [unfolded process_headers_def, simplified rb cp rb'(1) option.case exec_bind.simps]
  then have "parent_root (rbs_last_header rb') = header_root H (ls_finalized_header st)"
    and "ls_checkpoints st' = move_checkpoints R (rbs_checkpoints rb') (ls_checkpoints st)"
    and "ls_finalized_header st' = rbs_finalized_header rb'" "ls_replay_back st' = None"
    by (auto simp: Let_def split: if_splits option.splits)
  with rb rb'(2,3) show ?thesis
    by (intro exI [of _ rb] exI [of _ "rbs_checkpoints rb'"]) (auto simp: replay_inv_def)
qed

definition sample_replay :: "nat replay_back_state" where
  "sample_replay = \<lparr>
     rbs_finalized_header = sample_header 8392 8292,
     rbs_sync_committee_next = None,
     rbs_checkpoints = [(slot_of (sample_header 8392 8292), header_root sample_hashes (sample_header 8392 8292))],
     rbs_last_header = sample_header 8392 8292\<rparr>"

lemma sample_light_inv: "light_inv (array_ring 3) sample_hashes (ar_invar 3) sample_state"
proof -
  have "circular_buffer (array_ring 3) 3 (ar_invar 3)"
    by (rule circular_buffer_array_ring) simp
  from circular_buffer.init_light [OF this sample_init_state] show ?thesis by (simp add: lc_inv_def)
qed

lemma sample_replay_inv:
  "lc_inv (array_ring 3) sample_hashes (ar_invar 3) (set sample_chain)
     (sample_state\<lparr>ls_replay_back := Some sample_replay\<rparr>)"
  using sample_light_inv
  by (auto simp: lc_inv_def light_inv_def sample_replay_def sample_chain_def
      intro!: replay_inv_start simp del: sample_slots sample_roots)

lemma sample_last: "cp_last (array_ring 3) (ls_checkpoints sample_state) = Some (8192, 8192)"
  using sample_light_inv by (simp add: light_inv_def sample_state_def)

lemma sample_replay_run:
  "\<exists>st'. replay_process (array_ring 3) sample_hashes (sort_key slot_of)
     (sample_state\<lparr>ls_replay_back := Some sample_replay\<rparr>) [sample_header 8292 8192]
     = Ret (Inr Finished, st')"
  by (simp add: replay_process_def process_headers_def sample_last sample_replay_def Let_def
      replay_status_def SLOTS_PER_EPOCH_def last_opt_def)

theorem replay_links_to_checkpoint_witness:
  "\<exists>h. ancestor (header_root sample_hashes) (sample_header 8392 8292) h
     \<and> parent_root h = header_root sample_hashes (sample_header 8192 1)"
proof -
  from sample_replay_run obtain st' where
    "replay_process (array_ring 3) sample_hashes (sort_key slot_of)
       (sample_state\<lparr>ls_replay_back := Some sample_replay\<rparr>) [sample_header 8292 8192]
       = Ret (Inr Finished, st')" by blast
  from replay_links_to_checkpoint [OF sample_chain_ok sample_replay_inv this]
  show ?thesis by (auto simp: sample_replay_def sample_state_def)
qed

text \<open>The headers that a replay hands over to the store when it has read a whole chain.\<close>

lemma check_headers_chain:
  assumes "header_chain (header_root H) (parent_root (rbs_last_header rb)) gs (snd last_cp)"
    and "\<forall>h \<in> set gs. header_root H h \<noteq> snd last_cp" and "rbs_checkpoints rb \<noteq> []"
  shows "\<exists>rb'. check_headers H last_cp rb gs = Ret rb'
    \<and> parent_root (rbs_last_header rb') = snd last_cp
    \<and> rbs_finalized_header rb' = rbs_finalized_header rb
    \<and> set (rbs_checkpoints rb) \<subseteq> set (rbs_checkpoints rb')
    \<and> (\<forall>h \<in> set gs. slot_of h mod SLOTS_PER_EPOCH = 0 \<longrightarrow>
         (slot_of h, header_root H h) \<in> set (rbs_checkpoints rb'))"
  using assms
proof (induction gs arbitrary: rb)
  case Nil
  then show ?case by simp
next
  case (Cons g gs)
  define pushed where "pushed \<longleftrightarrow> slot_of g mod SLOTS_PER_EPOCH = 0
    \<or> slot_of g + SLOTS_PER_EPOCH < fst (last (rbs_checkpoints rb))"
  define rb1 where "rb1 = (if pushed
    then rb\<lparr>rbs_last_header := g, rbs_checkpoints := rbs_checkpoints rb @ [(slot_of g, header_root H g)]\<rparr>
    else rb\<lparr>rbs_last_header := g\<rparr>)"
  have step: "check_headers H last_cp rb (g # gs) = check_headers H last_cp rb1 gs"
    using Cons.prems by (simp add: Let_def rb1_def pushed_def last_opt_def split: prod.splits)
  have rb1: "rbs_last_header rb1 = g" "rbs_checkpoints rb1 \<noteq> []"
    "rbs_finalized_header rb1 = rbs_finalized_header rb"
    "set (rbs_checkpoints rb) \<subseteq> set (rbs_checkpoints rb1)"
    "slot_of g mod SLOTS_PER_EPOCH = 0 \<longrightarrow> (slot_of g, header_root H g) \<in> set (rbs_checkpoints rb1)"
    using Cons.prems(3) by (auto simp: rb1_def pushed_def)
  obtain rb' where "check_headers H last_cp rb1 gs = Ret rb'"
    "parent_root (rbs_last_header rb') = snd last_cp"
    "rbs_finalized_header rb' = rbs_finalized_header rb1"
    "set (rbs_checkpoints rb1) \<subseteq> set (rbs_checkpoints rb')"
    "\<forall>h \<in> set gs. slot_of h mod SLOTS_PER_EPOCH = 0 \<longrightarrow>
       (slot_of h, header_root H h) \<in> set (rbs_checkpoints rb')"
    using Cons.IH [of rb1] Cons.prems rb1(1,2) by auto
  with step rb1 show ?case by auto
qed

text \<open>
  Property C31. A replay completes in one call: when the headers between the last checkpoint and
  the new finalized header are all given, in any order, the call answers \<open>Finished\<close>, makes the
  header the finalized one, and stores every header at an epoch boundary as a checkpoint.
\<close>

theorem replay_complete:
  assumes "header_sort sort_by_slot" and "ls_replay_back st = None"
    and "cp_last R (ls_checkpoints st) = Some last_cp" and "decode agg_encoded = Some agg"
    and "verify_snapshot H B (take_snapshot st) upd agg = Ret (Inr (Some fh, cu))"
    and "header_chain (header_root H) (parent_root fh) gs (snd last_cp)"
    and "\<forall>h \<in> set gs. header_root H h \<noteq> snd last_cp"
    and "sorted_wrt (\<lambda>a b. slot_of b < slot_of a) gs" and "mset headers = mset gs"
  shows "\<exists>cs st'. replay_start R H B decode sort_by_slot st upd agg_encoded headers
        = Ret (Inr Finished, st')
    \<and> ls_finalized_header st' = fh \<and> ls_replay_back st' = None
    \<and> ls_checkpoints st' = move_checkpoints R cs (ls_checkpoints st)
    \<and> (\<forall>h \<in> set (fh # gs). h = fh \<or> slot_of h mod SLOTS_PER_EPOCH = 0 \<longrightarrow>
         (slot_of h, header_root H h) \<in> set cs)"
proof -
  define rb where "rb = \<lparr>rbs_finalized_header = fh, rbs_sync_committee_next = cu,
    rbs_checkpoints = [(slot_of fh, header_root H fh)], rbs_last_header = fh\<rparr>"
  have sorted: "rev (sort_by_slot headers) = gs"
    using header_sort.sort_distinct_slots [OF assms(1,9,8)] .
  obtain rb' where rb': "check_headers H last_cp rb gs = Ret rb'"
      "parent_root (rbs_last_header rb') = snd last_cp" "rbs_finalized_header rb' = fh"
      "set (rbs_checkpoints rb) \<subseteq> set (rbs_checkpoints rb')"
      "\<forall>h \<in> set gs. slot_of h mod SLOTS_PER_EPOCH = 0 \<longrightarrow>
         (slot_of h, header_root H h) \<in> set (rbs_checkpoints rb')"
    using check_headers_chain [of H rb gs last_cp] assms(6,7) by (auto simp: rb_def)
  obtain st' where run: "process_headers R H sort_by_slot (st\<lparr>ls_replay_back := Some rb\<rparr>) headers
      = Ret (True, st')" "ls_finalized_header st' = fh" "ls_replay_back st' = None"
      "ls_checkpoints st' = move_checkpoints R (rbs_checkpoints rb') (ls_checkpoints st)"
    using assms(3) rb'(1-3) by (auto simp: process_headers_def sorted Let_def split: option.splits)
  have "replay_start R H B decode sort_by_slot st upd agg_encoded headers = Ret (Inr Finished, st')"
    using assms(2,4,5) run(1)
    by (simp add: replay_start_def replay_start_begin_def replay_start_finish_def replay_status_def rb_def)
  with run rb'(4,5) show ?thesis
    by (intro exI [of _ "rbs_checkpoints rb'"] exI [of _ st']) (auto simp: rb_def)
qed

theorem replay_complete_witness:
  "\<exists>st'. replay_start (array_ring 3) sample_hashes sample_bls sample_decode (sort_key slot_of)
     sample_state (sample_update (sample_header 8392 8292) 8500 None) [] [sample_header 8292 8192]
     = Ret (Inr Finished, st') \<and> ls_finalized_header st' = sample_header 8392 8292"
proof -
  have run: "verify_snapshot sample_hashes sample_bls (take_snapshot sample_state)
      (sample_update (sample_header 8392 8292) 8500 None) sample_aggregate
    = Ret (Inr (Some (sample_header 8392 8292), None))"
    by (simp add: verify_snapshot_def take_snapshot_def sample_state_def sample_verify)
  have "\<exists>cs st'. replay_start (array_ring 3) sample_hashes sample_bls sample_decode (sort_key slot_of)
        sample_state (sample_update (sample_header 8392 8292) 8500 None) [] [sample_header 8292 8192]
        = Ret (Inr Finished, st')
      \<and> ls_finalized_header st' = sample_header 8392 8292 \<and> ls_replay_back st' = None
      \<and> ls_checkpoints st' = move_checkpoints (array_ring 3) cs (ls_checkpoints sample_state)
      \<and> (\<forall>h \<in> set (sample_header 8392 8292 # [sample_header 8292 8192]).
           h = sample_header 8392 8292 \<or> slot_of h mod SLOTS_PER_EPOCH = 0 \<longrightarrow>
           (slot_of h, header_root sample_hashes h) \<in> set cs)"
    by (rule replay_complete [OF key_sort.header_sort_axioms _ sample_last _ run])
      (simp_all add: sample_state_def sample_decode_def)
  then show ?thesis by blast
qed

lemma sync_process_finalizes:
  assumes "sync_process R H B decode st upd enc = Ret (Inr (), st')"
  shows "slot_of (ls_finalized_header st) < slot_of (su_finalized_header upd)"
  using assms
proof (cases rule: sync_process_cases)
  case (accepted agg res)
  then show ?thesis
    using verify_finalizes(2)
    by (cases res) (auto simp: verify_snapshot_def take_snapshot_def)
qed simp

lemma sync_finish_fields:
  assumes "fst res = Some h"
  shows "ls_checkpoints (sync_process_finish R H res st)
      = rb_push_back R (ls_checkpoints st) (slot_of h, header_root H h)"
    "ls_finalized_header (sync_process_finish R H res st) = h"
  using assms
  by (auto simp: sync_process_finish_def cp_push_def Let_def split: option.splits)

text \<open>
  Property C33. Overlapping calls: two updates are both accepted by \<open>process\<close> against the same
  state (its checks before the verification and the verification itself), and the one with the newer
  header is written first. The older one is still written after it: the finalized header goes back
  and the slots of the checkpoints are no longer increasing. Run one after the other, the older
  update is refused.
\<close>

theorem overlapping_updates_reorder:
  assumes "circular_buffer R N invar" and "2 \<le> N" and "invar (ls_checkpoints st)"
    and "sync_process_start R decode st upd1 enc1 = Ret (Inr (sn1, agg1))"
    and "verify_snapshot H B sn1 upd1 agg1 = Ret (Inr res1)"
    and "sync_process_start R decode st upd2 enc2 = Ret (Inr (sn2, agg2))"
    and "verify_snapshot H B sn2 upd2 agg2 = Ret (Inr res2)"
    and "slot_of (su_finalized_header upd1) < slot_of (su_finalized_header upd2)"
  defines "st2 \<equiv> sync_process_finish R H res2 st"
  defines "st1 \<equiv> sync_process_finish R H res1 st2"
  shows "ls_finalized_header st2 = su_finalized_header upd2
    \<and> ls_finalized_header st1 = su_finalized_header upd1
    \<and> \<not> slots_increasing (cp_checkpoints R (ls_checkpoints st1))
    \<and> (\<forall>st'. sync_process R H B decode st2 upd1 enc1 \<noteq> Ret (Inr (), st'))"
proof -
  define cp1 where "cp1 = (slot_of (su_finalized_header upd1), header_root H (su_finalized_header upd1))"
  define cp2 where "cp2 = (slot_of (su_finalized_header upd2), header_root H (su_finalized_header upd2))"
  have res: "fst res1 = Some (su_finalized_header upd1)" "fst res2 = Some (su_finalized_header upd2)"
    using assms(5,7) by (cases res1; cases res2; simp add: verify_snapshot_def verify_finalizes(1))+
  note vec = circular_buffer.to_vec_push_back [OF assms(1)]
  note st2 = sync_finish_fields [OF res(2), of R H st, folded st2_def cp2_def]
  note st1 = sync_finish_fields [OF res(1), of R H st2, folded st1_def cp1_def]
  have inv2: "invar (ls_checkpoints st2)"
    unfolding st2 by (rule circular_buffer.invar_push_back [OF assms(1,3)])
  obtain ys where ys: "rb_to_vec R (ls_checkpoints st2) = ys @ [cp2]"
    using vec [OF assms(3), of cp2] by (simp add: st2)
  have "\<exists>zs. cp_checkpoints R (ls_checkpoints st1) = zs @ [cp2, cp1]"
    using vec [OF inv2, of cp1] ys assms(2)
    by (cases ys) (auto simp: cp_checkpoints_def st1 not_less_eq_eq)
  then have "\<not> slots_increasing (cp_checkpoints R (ls_checkpoints st1))"
    using assms(8) by (auto simp: sorted_wrt_append cp1_def cp2_def)
  moreover have "sync_process R H B decode st2 upd1 enc1 \<noteq> Ret (Inr (), st')" for st'
    using sync_process_finalizes [of R H B decode st2 upd1 enc1 st'] assms(8) by (auto simp: st2)
  ultimately show ?thesis by (simp add: st1 st2)
qed

text \<open>
  Two updates of the next epoch, for slots 8200 and 8224, on the initial state: both pass the checks
  of \<open>process\<close>.
\<close>

lemma sample_process_accepts:
  assumes "slot_of fh = 8200 \<or> slot_of fh = 8224"
  shows "sync_process_start (array_ring 3) sample_decode sample_state (sample_update fh 8300 None) []
      = Ret (Inr (take_snapshot sample_state, sample_aggregate))"
    "verify_snapshot sample_hashes sample_bls (take_snapshot sample_state)
      (sample_update fh 8300 None) sample_aggregate = Ret (Inr (Some fh, None))"
proof -
  show "sync_process_start (array_ring 3) sample_decode sample_state (sample_update fh 8300 None) []
      = Ret (Inr (take_snapshot sample_state, sample_aggregate))"
    using assms
    by (auto simp: sync_process_start_def take_snapshot_def sample_state_def sample_update_def
        sample_decode_def calculate_epoch_def SLOTS_PER_EPOCH_def MAX_EPOCHS_GAP_def)
  show "verify_snapshot sample_hashes sample_bls (take_snapshot sample_state)
      (sample_update fh 8300 None) sample_aggregate = Ret (Inr (Some fh, None))"
    using assms
    by (auto simp: verify_snapshot_def take_snapshot_def sample_state_def sample_verify)
qed

theorem overlapping_updates_reorder_witness:
  "\<exists>res1 res2.
     verify_snapshot sample_hashes sample_bls (take_snapshot sample_state)
       (sample_update (sample_header 8200 8192) 8300 None) sample_aggregate = Ret (Inr res1)
   \<and> verify_snapshot sample_hashes sample_bls (take_snapshot sample_state)
       (sample_update (sample_header 8224 8200) 8300 None) sample_aggregate = Ret (Inr res2)
   \<and> \<not> slots_increasing (cp_checkpoints (array_ring 3) (ls_checkpoints
     (sync_process_finish (array_ring 3) sample_hashes res1
       (sync_process_finish (array_ring 3) sample_hashes res2 sample_state))))"
proof -
  note runs = sample_process_accepts [of "sample_header 8200 8192"]
    sample_process_accepts [of "sample_header 8224 8200"]
  have "circular_buffer (array_ring 3) 3 (ar_invar 3)" by (rule circular_buffer_array_ring) simp
  moreover have "ar_invar 3 (ls_checkpoints sample_state)"
    using sample_light_inv by (simp add: light_inv_def)
  moreover have "slot_of (su_finalized_header (sample_update (sample_header 8200 8192) 8300 None))
      < slot_of (su_finalized_header (sample_update (sample_header 8224 8200) 8300 None))"
    by (simp add: sample_update_def)
  ultimately show ?thesis
    using overlapping_updates_reorder [of "array_ring 3" 3 "ar_invar 3" sample_state sample_decode
        "sample_update (sample_header 8200 8192) 8300 None" "[]" "take_snapshot sample_state"
        sample_aggregate sample_hashes sample_bls "(Some (sample_header 8200 8192), None)"
        "sample_update (sample_header 8224 8200) 8300 None" "[]" "take_snapshot sample_state"
        sample_aggregate "(Some (sample_header 8224 8200), None)"] runs
    by simp
qed

text \<open>The committees that the state should hold: those of the finalized period and of the next.\<close>

definition committees_synced :: "(u64 \<Rightarrow> 'g1 list) \<Rightarrow> ('g1, 'b) light_state \<Rightarrow> bool" where
  "committees_synced Cm st \<longleftrightarrow>
     (let p = calculate_period (slot_of (ls_finalized_header st)) in
      ls_committee_current st = Cm p \<and> ls_committee_next st = Cm (p + 1))"

definition carries_committee :: "('g1, 'g2) sync_update \<Rightarrow> bool" where
  "carries_committee upd \<longleftrightarrow>
     calculate_period (slot_of (attested_header upd)) = calculate_period (slot_of (su_finalized_header upd))
     \<and> next_aggregate_pubkey upd \<noteq> None \<and> next_pub_keys upd \<noteq> None \<and> next_branch upd \<noteq> None"

lemma committee_update_result:
  assumes "committee_update_verify H B net p (committee_update_new (attested_header upd)
      (slot_of (su_finalized_header upd)) (next_aggregate_pubkey upd) (next_pub_keys upd)
      (next_branch upd)) = Inr cu"
  shows "cu = (if carries_committee upd
      \<and> calculate_period (slot_of (su_finalized_header upd)) = p + 1 then next_pub_keys upd else None)"
  using assms
  by (auto simp: committee_update_new_def carries_committee_def Let_def
      split: bool.splits option.splits if_splits)

text \<open>
  Property C32. An accepted update leaves the committees in step with the finalized period exactly
  when it stays in the period or carries the next committee. An update without the next committee
  that finalizes the first header of a new period is accepted, and the state then holds committees
  that are one period behind.
\<close>

theorem committees_follow_periods:
  assumes "sync_process R H B decode st upd agg_encoded = Ret (Inr (), st')"
    and "committees_synced Cm st"
    and "Cm (calculate_period (slot_of (ls_finalized_header st)))
      \<noteq> Cm (calculate_period (slot_of (ls_finalized_header st)) + 1)"
    and "\<And>keys. next_pub_keys upd = Some keys \<Longrightarrow>
      keys = Cm (calculate_period (slot_of (attested_header upd)) + 1)"
  shows "committees_synced Cm st' \<longleftrightarrow>
    calculate_period (slot_of (su_finalized_header upd))
      = calculate_period (slot_of (ls_finalized_header st))
    \<or> carries_committee upd"
proof -
  let ?s = "slot_of (ls_finalized_header st)" and ?f = "slot_of (su_finalized_header upd)"
  from assms(1) obtain agg fu cu where fin: "st' = sync_process_finish R H (fu, cu) st"
      "verify_snapshot H B (take_snapshot st) upd agg = Ret (Inr (fu, cu))"
    by (rule sync_process_cases) auto
  then have v: "verify H B (ls_network st) ?s (ls_committee_current st) (ls_committee_next st) upd agg
      = Ret (Inr (fu, cu))" by (simp add: verify_snapshot_def take_snapshot_def)
  note cu = committee_update_result [OF verify_Ok(4) [OF v]]
  have fu: "fu = Some (su_finalized_header upd)" "?s < ?f"
    by (rule verify_finalizes [OF v])+
  have f: "ls_finalized_header st' = su_finalized_header upd"
    using fin(1) fu by (auto simp: sync_process_finish_def Let_def split: option.splits)
  have period: "calculate_period ?f = calculate_period ?s
      \<or> calculate_period ?f = calculate_period ?s + 1"
    using calculate_period_mono [OF less_imp_le [OF fu(2)]] verify_period_bound [OF v]
    by (simp add: word_le_nat_alt word_eq_iff_unsigned [where ?'a = nat] unat_period_Suc) linarith
  show ?thesis
  proof (cases "calculate_period ?f = calculate_period ?s")
    case True
    then have "cu = None" using cu by simp
    with fin(1) fu(1) True assms(2) f show ?thesis
      by (simp add: committees_synced_def sync_process_finish_def Let_def)
  next
    case False
    with period have next_period: "calculate_period ?f = calculate_period ?s + 1" by simp
    show ?thesis
    proof (cases "carries_committee upd")
      case True
      then obtain keys where keys: "next_pub_keys upd = Some keys"
        and att: "calculate_period (slot_of (attested_header upd)) = calculate_period ?f"
        by (auto simp: carries_committee_def)
      with cu True next_period have "cu = Some (Cm (calculate_period ?f + 1))"
        using assms(4) by simp
      with fin(1) fu(1) True assms(2) next_period show ?thesis
        by (simp add: committees_synced_def sync_process_finish_def Let_def)
    next
      case no: False
      then have "cu = None" using cu by simp
      with fin(1) fu(1) no assms(2,3) next_period False show ?thesis
        by (auto simp: committees_synced_def sync_process_finish_def Let_def)
    qed
  qed
qed

definition sample_boundary_state :: "(nat, array_ring) light_state" where
  "sample_boundary_state = sample_state\<lparr>
     ls_finalized_header := sample_header 16352 0, ls_committee_current := []\<rparr>"

theorem committees_follow_periods_witness:
  "\<exists>st'. sync_process (array_ring 3) sample_hashes sample_bls sample_decode sample_boundary_state
       (sample_update (sample_header 16384 8392) 16500 None) [] = Ret (Inr (), st')
     \<and> \<not> committees_synced (\<lambda>p. if p = 1 then [] else sample_keys) st'"
proof -
  let ?upd = "sample_update (sample_header 16384 8392) 16500 None"
  have [simp]: "calculate_period 16352 = 1"
    by (simp add: calculate_period_def calculate_epoch_def SLOTS_PER_EPOCH_def
        EPOCHS_PER_SYNC_COMMITTEE_def)
  have upd: "su_finalized_header ?upd = sample_header 16384 8392" "next_pub_keys ?upd = None"
    by (simp_all add: sample_update_def)
  have "verify_snapshot sample_hashes sample_bls (take_snapshot sample_boundary_state) ?upd sample_aggregate
      = Ret (Inr (Some (sample_header 16384 8392), None))"
    by (simp add: verify_snapshot_def take_snapshot_def sample_boundary_state_def sample_state_def
        sample_verify)
  then obtain st' where run: "sync_process (array_ring 3) sample_hashes sample_bls sample_decode
      sample_boundary_state ?upd [] = Ret (Inr (), st')"
    by (simp add: sync_process_def sync_process_start_def upd Let_def sample_decode_def
        take_snapshot_def sample_boundary_state_def calculate_epoch_def SLOTS_PER_EPOCH_def
        MAX_EPOCHS_GAP_def)
  have "committees_synced (\<lambda>p. if p = 1 then [] else sample_keys) sample_boundary_state"
    by (simp add: committees_synced_def sample_boundary_state_def sample_state_def)
  from committees_follow_periods [OF run this] show ?thesis
    using run upd by (simp add: sample_boundary_state_def carries_committee_def sample_keys_def)
qed

end
