(* ===== verification/Token_Map.thy ===== *)
theory Token_Map
  imports Bridge_Prelude
begin

text \<open>
  The mapping between VFT and ERC20 tokens of \<open>vft-manager\<close> (\<open>services/token_mapping.rs\<close>) and the
  errors of its services (\<open>services/error.rs\<close>). The two hash maps should be inverse to each other;
  \<open>tm_inv\<close> says so, insertion and removal keep it, and \<open>update_vfts\<close> keeps it exactly when no two
  tokens are renamed to one. The order in which a hash map is iterated is a parameter.
\<close>

datatype vft_error =
    SendFailure | ReplyFailure | ReplyTimeout | ReplyHook
  | MessageNotFound | InvalidMessageStatus | MessageFailed
  | BurnTokensDecode | TransferFromDecode | MintTokensDecode | BuiltinDecode
  | NoCorrespondingEthAddress | NoCorrespondingVaraAddress
  | NotHistoricalProxy | NotSupportedEvent | TransactionTooOld | AlreadyProcessed | Paused

datatype token_supply = SupplyEthereum | SupplyGear

record token_map =
  vara_to_eth :: "actor_id \<rightharpoonup> h160 \<times> token_supply"
  eth_to_vara :: "h160 \<rightharpoonup> actor_id"

section \<open>Operations\<close>

definition tm_default :: token_map where
  "tm_default = \<lparr>vara_to_eth = Map.empty, eth_to_vara = Map.empty\<rparr>"

definition tm_insert :: "token_map \<Rightarrow> actor_id \<Rightarrow> h160 \<Rightarrow> token_supply \<Rightarrow> token_map exec" where
  "tm_insert tm vara_token_id eth_token_id supply =
     (let tm1 = tm\<lparr>vara_to_eth := (vara_to_eth tm)(vara_token_id \<mapsto> (eth_token_id, supply))\<rparr> in
      if vara_to_eth tm vara_token_id \<noteq> None then Panic ''Mapping already present''
      else let tm2 = tm1\<lparr>eth_to_vara := (eth_to_vara tm1)(eth_token_id \<mapsto> vara_token_id)\<rparr> in
      if eth_to_vara tm1 eth_token_id \<noteq> None then Panic ''Mapping already present''
      else Ret tm2)"

definition tm_remove :: "token_map \<Rightarrow> actor_id \<Rightarrow> ((h160 \<times> token_supply) \<times> token_map) exec" where
  "tm_remove tm vara_token_id =
     (case vara_to_eth tm vara_token_id of
        None \<Rightarrow> Panic ''Mapping not found''
      | Some (eth_token_id, supply_type) \<Rightarrow>
          let tm1 = tm\<lparr>vara_to_eth := (vara_to_eth tm)(vara_token_id := None)\<rparr> in
          (case eth_to_vara tm1 eth_token_id of
             None \<Rightarrow> Panic ''Mapping not found''
           | Some _ \<Rightarrow>
               Ret ((eth_token_id, supply_type),
                    tm1\<lparr>eth_to_vara := (eth_to_vara tm1)(eth_token_id := None)\<rparr>)))"

definition get_eth_token_id :: "token_map \<Rightarrow> actor_id \<Rightarrow> vft_error + h160" where
  "get_eth_token_id tm vara_token_id =
     ok_or (map_option fst (vara_to_eth tm vara_token_id)) NoCorrespondingEthAddress"

definition get_vara_token_id :: "token_map \<Rightarrow> h160 \<Rightarrow> vft_error + actor_id" where
  "get_vara_token_id tm eth_token_id = ok_or (eth_to_vara tm eth_token_id) NoCorrespondingVaraAddress"

definition get_supply_type :: "token_map \<Rightarrow> actor_id \<Rightarrow> vft_error + token_supply" where
  "get_supply_type tm vara_token_id =
     ok_or (map_option snd (vara_to_eth tm vara_token_id)) NoCorrespondingVaraAddress"

type_synonym hash_iter = "(actor_id \<rightharpoonup> h160 \<times> token_supply) \<Rightarrow> (actor_id \<times> h160 \<times> token_supply) list"

definition tm_read_state :: "hash_iter \<Rightarrow> token_map \<Rightarrow> (actor_id \<times> h160 \<times> token_supply) list" where
  "tm_read_state into_iter tm = into_iter (vara_to_eth tm)"

definition swap_maps ::
  "token_map \<Rightarrow> (actor_id \<rightharpoonup> h160 \<times> token_supply) \<Rightarrow> (h160 \<rightharpoonup> actor_id) \<Rightarrow> token_map" where
  "swap_maps tm v2e e2v = tm\<lparr>vara_to_eth := v2e, eth_to_vara := e2v\<rparr>"

text \<open>The reply to \<open>balance_of\<close>: a balance, an error reply of an inactive actor, another error.\<close>

datatype balance_reply = Balance u256 | InactiveActor | OtherFailure

text \<open>
  One entry of the loop: the address that the entry gets. A panic in a slice of the loop undoes
  nothing, since only local variables were written.
\<close>

definition vft_renamed ::
  "(actor_id \<Rightarrow> balance_reply) \<Rightarrow> (actor_id \<times> actor_id) list \<Rightarrow> actor_id \<Rightarrow> actor_id exec" where
  "vft_renamed balance_of vft_map vft =
     (case find_map (\<lambda>(vft_old, vft_new). if vft_old = vft then Some vft_new else None) vft_map of
        None \<Rightarrow> Ret vft
      | Some vft_new \<Rightarrow>
          (case balance_of vft of
             Balance _ \<Rightarrow> Ret vft
           | OtherFailure \<Rightarrow> Panic ''Vft failed''
           | InactiveActor \<Rightarrow> Ret vft_new))"

fun update_vfts_loop ::
  "(actor_id \<Rightarrow> balance_reply) \<Rightarrow> (actor_id \<times> actor_id) list \<Rightarrow>
     (actor_id \<times> h160 \<times> token_supply) list \<Rightarrow> token_map \<Rightarrow> token_map exec" where
  "update_vfts_loop balance_of vft_map [] new_maps = Ret new_maps"
| "update_vfts_loop balance_of vft_map ((vft, erc20, supply) # entries) new_maps =
     exec_bind (vft_renamed balance_of vft_map vft) (\<lambda>vft_new.
       update_vfts_loop balance_of vft_map entries
         (new_maps\<lparr>vara_to_eth := (vara_to_eth new_maps)(vft_new \<mapsto> (erc20, supply)),
                   eth_to_vara := (eth_to_vara new_maps)(erc20 \<mapsto> vft_new)\<rparr>))"

text \<open>The slice after the last wait, on the map as it is then.\<close>

definition update_vfts_finish :: "u64 \<Rightarrow> token_map \<Rightarrow> u64 \<Rightarrow> token_map \<Rightarrow> token_map exec" where
  "update_vfts_finish gas_available tm gas_required new_maps =
     (if eth_to_vara new_maps = eth_to_vara tm then Ret tm
      else if gas_available < gas_required then Panic ''Please attach more gas''
      else Ret (swap_maps tm (vara_to_eth new_maps) (eth_to_vara new_maps)))"

text \<open>
  The call when no other message changes the map while it waits for the replies. What happens
  otherwise is in \<open>update_vfts_forgets\<close> below.
\<close>

definition tm_update_vfts ::
  "hash_iter \<Rightarrow> (actor_id \<Rightarrow> balance_reply) \<Rightarrow> u64 \<Rightarrow> token_map \<Rightarrow> u64 \<Rightarrow>
     (actor_id \<times> actor_id) list \<Rightarrow> token_map exec" where
  "tm_update_vfts iter balance_of gas_available tm gas_required vft_map =
     exec_bind (update_vfts_loop balance_of vft_map (iter (vara_to_eth tm)) tm_default)
       (update_vfts_finish gas_available tm gas_required)"

section \<open>Iteration of a hash map\<close>

locale hash_map_iter =
  fixes iter :: hash_iter
  assumes iter_distinct: "finite (dom m) \<Longrightarrow> distinct (map fst (iter m))"
    and iter_map_of: "finite (dom m) \<Longrightarrow> map_of (iter m) = m"

definition sorted_iter :: hash_iter where
  "sorted_iter m = map (\<lambda>k. (k, the (m k))) (sorted_list_of_set (dom m))"

interpretation sorted_order: hash_map_iter sorted_iter
proof
  fix m :: "actor_id \<rightharpoonup> h160 \<times> token_supply"
  assume fin: "finite (dom m)"
  have keys: "map fst (sorted_iter m) = sorted_list_of_set (dom m)"
    by (simp add: sorted_iter_def o_def)
  then show "distinct (map fst (sorted_iter m))" by simp
  show "map_of (sorted_iter m) = m"
  proof
    fix k
    show "map_of (sorted_iter m) k = m k"
      using fin by (cases "k \<in> dom m") (auto simp: sorted_iter_def map_of_map_keys domIff)
  qed
qed

section \<open>The invariant\<close>

definition tm_inv :: "token_map \<Rightarrow> bool" where
  "tm_inv tm \<longleftrightarrow>
     finite (dom (vara_to_eth tm))
     \<and> (\<forall>v e s. vara_to_eth tm v = Some (e, s) \<longrightarrow> eth_to_vara tm e = Some v)
     \<and> (\<forall>e v. eth_to_vara tm e = Some v \<longrightarrow> (\<exists>s. vara_to_eth tm v = Some (e, s)))"

lemma tm_inv_default [inv_intros]: "tm_inv tm_default"
  by (simp add: tm_inv_def tm_default_def)

lemma tm_invI:
  assumes "finite (dom (vara_to_eth tm))"
    and "\<And>v e s. vara_to_eth tm v = Some (e, s) \<Longrightarrow> eth_to_vara tm e = Some v"
    and "\<And>e v. eth_to_vara tm e = Some v \<Longrightarrow> \<exists>s. vara_to_eth tm v = Some (e, s)"
  shows "tm_inv tm"
  using assms by (simp add: tm_inv_def)

lemma tm_inv_eth: "tm_inv tm \<Longrightarrow> vara_to_eth tm v = Some (e, s) \<Longrightarrow> eth_to_vara tm e = Some v"
  unfolding tm_inv_def by blast

lemma tm_inv_vara: "tm_inv tm \<Longrightarrow> eth_to_vara tm e = Some v \<Longrightarrow> \<exists>s. vara_to_eth tm v = Some (e, s)"
  unfolding tm_inv_def by blast

lemma tm_inv_finite: "tm_inv tm \<Longrightarrow> finite (dom (vara_to_eth tm))"
  unfolding tm_inv_def by blast

lemma tm_insert_Ret_iff:
  "tm_insert tm v e s = Ret tm' \<longleftrightarrow>
     vara_to_eth tm v = None \<and> eth_to_vara tm e = None
     \<and> tm' = tm\<lparr>vara_to_eth := (vara_to_eth tm)(v \<mapsto> (e, s)), eth_to_vara := (eth_to_vara tm)(e \<mapsto> v)\<rparr>"
  by (cases "vara_to_eth tm v"; cases "eth_to_vara tm e") (auto simp: tm_insert_def)

lemma tm_inv_insert [inv_intros]:
  assumes inv: "tm_inv tm" and ins: "tm_insert tm v e s = Ret tm'"
  shows "tm_inv tm'"
proof (rule tm_invI)
  from ins have new: "vara_to_eth tm v = None" "eth_to_vara tm e = None"
      "vara_to_eth tm' = (vara_to_eth tm)(v \<mapsto> (e, s))" "eth_to_vara tm' = (eth_to_vara tm)(e \<mapsto> v)"
    by (simp_all add: tm_insert_Ret_iff)
  show "finite (dom (vara_to_eth tm'))" using tm_inv_finite [OF inv] by (simp add: new)
  show "eth_to_vara tm' e' = Some v'" if "vara_to_eth tm' v' = Some (e', s')" for v' e' s'
    using that tm_inv_eth [OF inv, of v' e' s'] new(2) by (auto simp: new(3,4) split: if_splits)
  show "\<exists>s'. vara_to_eth tm' v' = Some (e', s')" if "eth_to_vara tm' e' = Some v'" for e' v'
    using that tm_inv_vara [OF inv, of e' v'] new(1) by (auto simp: new(3,4) split: if_splits)
qed

lemma tm_remove_Ret_iff:
  assumes "tm_inv tm"
  shows "tm_remove tm v = Ret ((e, s), tm') \<longleftrightarrow>
     vara_to_eth tm v = Some (e, s)
     \<and> tm' = tm\<lparr>vara_to_eth := (vara_to_eth tm)(v := None), eth_to_vara := (eth_to_vara tm)(e := None)\<rparr>"
proof (cases "vara_to_eth tm v")
  case None
  then show ?thesis by (simp add: tm_remove_def)
next
  case (Some p)
  obtain e' s' where p: "p = (e', s')" by (cases p)
  from tm_inv_eth [OF assms] Some p have "eth_to_vara tm e' = Some v" by simp
  with Some p show ?thesis by (auto simp: tm_remove_def)
qed

lemma tm_inv_remove [inv_intros]:
  assumes inv: "tm_inv tm" and rem: "tm_remove tm v = Ret (r, tm')"
  shows "tm_inv tm'"
proof (rule tm_invI)
  obtain e s where r: "r = (e, s)" by (cases r)
  from rem have old: "vara_to_eth tm v = Some (e, s)"
      "vara_to_eth tm' = (vara_to_eth tm)(v := None)" "eth_to_vara tm' = (eth_to_vara tm)(e := None)"
    by (simp_all add: r tm_remove_Ret_iff [OF inv])
  show "finite (dom (vara_to_eth tm'))" using tm_inv_finite [OF inv] by (simp add: old)
  show "eth_to_vara tm' e' = Some v'" if "vara_to_eth tm' v' = Some (e', s')" for v' e' s'
    using that tm_inv_eth [OF inv, of v' e' s'] tm_inv_eth [OF inv old(1)]
    by (auto simp: old(2,3) split: if_splits)
  show "\<exists>s'. vara_to_eth tm' v' = Some (e', s')" if "eth_to_vara tm' e' = Some v'" for e' v'
    using that tm_inv_vara [OF inv, of e' v'] old(1) by (auto simp: old(2,3) split: if_splits)
qed

section \<open>What the services rely on\<close>

locale token_registry =
  fixes invar :: "'m \<Rightarrow> bool"
    and eth_of :: "'m \<Rightarrow> actor_id \<Rightarrow> vft_error + h160"
    and vara_of :: "'m \<Rightarrow> h160 \<Rightarrow> vft_error + actor_id"
    and supply_of :: "'m \<Rightarrow> actor_id \<Rightarrow> vft_error + token_supply"
  assumes inverse: "invar m \<Longrightarrow> vara_of m e = Inr v \<longleftrightarrow> eth_of m v = Inr e"
    and supply_iff: "(\<exists>s. supply_of m v = Inr s) \<longleftrightarrow> (\<exists>e. eth_of m v = Inr e)"
begin

lemma eth_unique: "invar m \<Longrightarrow> eth_of m v = Inr e \<Longrightarrow> eth_of m v' = Inr e \<Longrightarrow> v = v'"
  using inverse [of m e v] inverse [of m e v'] by simp

lemma supply_known: "invar m \<Longrightarrow> vara_of m e = Inr v \<Longrightarrow> \<exists>s. supply_of m v = Inr s"
  using inverse supply_iff by blast

end

interpretation tokens: token_registry tm_inv get_eth_token_id get_vara_token_id get_supply_type
proof
  show "get_vara_token_id m e = Inr v \<longleftrightarrow> get_eth_token_id m v = Inr e" if "tm_inv m" for m e v
    using tm_inv_eth [OF that, of v e] tm_inv_vara [OF that, of e v]
    by (auto simp: get_vara_token_id_def get_eth_token_id_def ok_or_Inr_iff)
  show "(\<exists>s. get_supply_type m v = Inr s) \<longleftrightarrow> (\<exists>e. get_eth_token_id m v = Inr e)" for m v
    by (auto simp: get_supply_type_def get_eth_token_id_def ok_or_Inr_iff)
qed

section \<open>Renaming of VFT programs\<close>

definition new_address ::
  "(actor_id \<Rightarrow> balance_reply) \<Rightarrow> (actor_id \<times> actor_id) list \<Rightarrow> actor_id \<Rightarrow> actor_id" where
  "new_address balance_of vft_map vft =
     (case vft_renamed balance_of vft_map vft of Ret w \<Rightarrow> w | Panic _ \<Rightarrow> vft)"

lemma update_vfts_loop_Ret:
  assumes "update_vfts_loop bal vft_map entries tm = Ret tm'"
  shows "vara_to_eth tm'
      = vara_to_eth tm ++ map_of (rev (map (\<lambda>(v, e, s). (new_address bal vft_map v, e, s)) entries))"
    "eth_to_vara tm'
      = eth_to_vara tm ++ map_of (rev (map (\<lambda>(v, e, s). (e, new_address bal vft_map v)) entries))"
  using assms
  by (induction bal vft_map entries tm rule: update_vfts_loop.induct)
    (auto simp: exec_bind_Ret_iff new_address_def map_add_upd_left fun_eq_iff map_add_def
      split: option.splits)

lemma distinct_keys_map_of_rev:
  "distinct (map fst xs) \<Longrightarrow> map_of (rev xs) = map_of xs"
  by (rule map_of_eqI) (auto simp: map_of_eq_Some_iff rev_map [symmetric])

context hash_map_iter
begin

lemma iter_set:
  assumes "finite (dom m)"
  shows "(v, x) \<in> set (iter m) \<longleftrightarrow> m v = Some x"
  using map_of_eq_Some_iff [OF iter_distinct [OF assms], of v x] iter_map_of [OF assms] by simp

lemma renamed_maps:
  assumes inv: "tm_inv tm"
    and run: "update_vfts_loop bal vft_map (iter (vara_to_eth tm)) tm_default = Ret new"
  shows "eth_to_vara new e = map_option (new_address bal vft_map) (eth_to_vara tm e)"
    and "inj_on (new_address bal vft_map) (dom (vara_to_eth tm)) \<Longrightarrow>
      vara_to_eth tm v = Some x \<Longrightarrow> vara_to_eth new (new_address bal vft_map v) = Some x"
    and "vara_to_eth new w = Some x \<Longrightarrow> \<exists>v. vara_to_eth tm v = Some x \<and> w = new_address bal vft_map v"
proof -
  let ?ren = "new_address bal vft_map"
  let ?E = "iter (vara_to_eth tm)"
  have fin: "finite (dom (vara_to_eth tm))" by (rule tm_inv_finite [OF inv])
  note set = iter_set [OF fin] and keys = iter_distinct [OF fin]
  note maps = update_vfts_loop_Ret [OF run]
  let ?e2v = "map (\<lambda>(v, e, s). (e, ?ren v)) ?E" and ?v2e = "map (\<lambda>(v, e, s). (?ren v, e, s)) ?E"
  have inj_eth: "inj_on (\<lambda>p. fst (snd p)) (set ?E)"
  proof (rule inj_onI)
    fix p q
    assume pq: "p \<in> set ?E" "q \<in> set ?E" "fst (snd p) = fst (snd q)"
    obtain v1 e s1 v2 s2 where p: "p = (v1, e, s1)" "q = (v2, e, s2)"
      using pq(3) by (cases p; cases q) auto
    with pq have v: "vara_to_eth tm v1 = Some (e, s1)" "vara_to_eth tm v2 = Some (e, s2)"
      by (simp_all add: set)
    from tm_inv_eth [OF inv v(1)] tm_inv_eth [OF inv v(2)] have "v1 = v2" by simp
    with v p show "p = q" by simp
  qed
  have "distinct ?E" using keys distinct_map by blast
  then have dist: "distinct (map fst ?e2v)"
    using inj_eth by (simp add: distinct_map o_def case_prod_beta)
  have e2v: "eth_to_vara new = map_of ?e2v"
    using maps(2) distinct_keys_map_of_rev [OF dist] by (simp add: tm_default_def rev_map)
  show "eth_to_vara new e = map_option ?ren (eth_to_vara tm e)"
  proof (cases "eth_to_vara tm e")
    case None
    then have "e \<notin> fst ` set ?e2v" using inv set tm_inv_eth [OF inv] by fastforce
    with e2v None show ?thesis by (simp add: map_of_eq_None_iff)
  next
    case (Some v)
    then obtain s where "(v, e, s) \<in> set ?E" using tm_inv_vara [OF inv] set by metis
    then have "(e, ?ren v) \<in> set ?e2v" by force
    with e2v Some dist show ?thesis by simp
  qed
  show "vara_to_eth new (?ren v) = Some x"
    if inj: "inj_on ?ren (dom (vara_to_eth tm))" and v: "vara_to_eth tm v = Some x"
  proof -
    have "fst ` set ?E = dom (vara_to_eth tm)" using set by force
    then have "distinct (map ?ren (map fst ?E))" using keys inj by (simp only: distinct_map set_map)
    then have "distinct (map fst ?v2e)" by (simp add: o_def case_prod_beta)
    moreover have "(?ren v, x) \<in> set ?v2e" using v set by (cases x) force
    ultimately show ?thesis
      using maps(1) distinct_keys_map_of_rev [of ?v2e] by (simp add: tm_default_def rev_map)
  qed
  show "\<exists>v. vara_to_eth tm v = Some x \<and> w = ?ren v" if "vara_to_eth new w = Some x"
  proof -
    from that maps(1) have "map_of (rev ?v2e) w = Some x" by (simp add: tm_default_def)
    then have "(w, x) \<in> set ?v2e" by (auto dest: map_of_SomeD)
    then show ?thesis using set by auto
  qed
qed

end

section \<open>Properties\<close>

text \<open>
  Property C14. Adding a token pair succeeds exactly when neither token is mapped. It keeps the two
  maps inverse to each other, makes the pair visible in both directions, leaves every other pair
  as it was, and removing the token afterwards gives back the map as it was before.
\<close>

theorem token_map_insert_remove:
  assumes "tm_inv tm"
  shows "(case tm_insert tm v e s of
      Panic _ \<Rightarrow> (\<exists>e'. get_eth_token_id tm v = Inr e') \<or> (\<exists>v'. get_vara_token_id tm e = Inr v')
    | Ret tm' \<Rightarrow> tm_inv tm'
        \<and> get_eth_token_id tm' v = Inr e \<and> get_vara_token_id tm' e = Inr v
        \<and> get_supply_type tm' v = Inr s
        \<and> (\<forall>v'. v' \<noteq> v \<longrightarrow> get_eth_token_id tm' v' = get_eth_token_id tm v')
        \<and> (\<forall>e'. e' \<noteq> e \<longrightarrow> get_vara_token_id tm' e' = get_vara_token_id tm e')
        \<and> tm_remove tm' v = Ret ((e, s), tm))"
proof (cases "tm_insert tm v e s")
  case (Panic m)
  then show ?thesis
    by (auto simp: tm_insert_def Let_def get_eth_token_id_def get_vara_token_id_def ok_or_Inr_iff
        split: if_splits)
next
  case (Ret tm')
  note inv' = tm_inv_insert [OF assms Ret]
  from Ret have new: "vara_to_eth tm v = None" "eth_to_vara tm e = None"
    "tm' = tm\<lparr>vara_to_eth := (vara_to_eth tm)(v \<mapsto> (e, s)), eth_to_vara := (eth_to_vara tm)(e \<mapsto> v)\<rparr>"
    by (simp_all add: tm_insert_Ret_iff)
  have "tm_remove tm' v = Ret ((e, s), tm)"
    unfolding tm_remove_Ret_iff [OF inv'] using new by (simp add: fun_upd_idem)
  with Ret inv' new show ?thesis
    by (simp add: get_eth_token_id_def get_vara_token_id_def get_supply_type_def)
qed

theorem token_map_insert_remove_witness:
  "\<exists>tm'. tm_insert tm_default 5 7 SupplyGear = Ret tm'
     \<and> get_vara_token_id tm' 7 = Inr 5 \<and> tm_remove tm' 5 = Ret ((7, SupplyGear), tm_default)"
proof -
  obtain tm' where "tm_insert tm_default 5 7 SupplyGear = Ret tm'"
    by (simp add: tm_insert_def tm_default_def)
  with token_map_insert_remove [OF tm_inv_default, of 5 7 SupplyGear] show ?thesis by simp
qed

text \<open>
  Interleaving: a pair that is mapped while \<open>update_vfts\<close> waits is not in the maps that the loop has
  built from the old ones, so that it is forgotten when they are swapped in.
\<close>

theorem update_vfts_forgets:
  assumes "hash_map_iter iter" and inv: "tm_inv tm"
    and loop: "update_vfts_loop bal vft_map (iter (vara_to_eth tm)) tm_default = Ret new_maps"
    and mapped: "tm_insert tm vara erc20 supply = Ret tm_now"
    and finish: "update_vfts_finish gas tm_now gas_required new_maps = Ret tm'"
  shows "eth_to_vara tm_now erc20 = Some vara \<and> eth_to_vara tm' erc20 = None"
proof -
  have now: "eth_to_vara tm erc20 = None" "eth_to_vara tm_now erc20 = Some vara"
    using mapped by (auto simp: tm_insert_def Let_def split: if_splits)
  with hash_map_iter.renamed_maps(1) [OF assms(1) inv loop, of erc20]
  have new: "eth_to_vara new_maps erc20 = None" by simp
  with now(2) have "eth_to_vara new_maps \<noteq> eth_to_vara tm_now" by auto
  with finish have "eth_to_vara tm' = eth_to_vara new_maps"
    by (auto simp: update_vfts_finish_def swap_maps_def split: if_splits)
  with new now show ?thesis by simp
qed

text \<open>
  After the addresses of VFT programs are replaced, every ERC20 token leads to the new
  address of its VFT token, and the two maps are still inverse to each other exactly when no two
  VFT tokens got the same address. Nothing prevents the latter: the map then loses a pair.
\<close>

theorem update_vfts_bijective_iff:
  assumes "hash_map_iter iter" and inv: "tm_inv tm"
    and run: "tm_update_vfts iter bal gas tm gas_required vft_map = Ret tm'"
  shows "eth_to_vara tm' = map_option (new_address bal vft_map) \<circ> eth_to_vara tm
    \<and> (tm_inv tm' \<longleftrightarrow> inj_on (new_address bal vft_map) (dom (vara_to_eth tm)))"
proof -
  let ?ren = "new_address bal vft_map"
  from run obtain new where loop: "update_vfts_loop bal vft_map (iter (vara_to_eth tm)) tm_default = Ret new"
    and cases: "tm' = tm \<and> eth_to_vara new = eth_to_vara tm
      \<or> vara_to_eth tm' = vara_to_eth new \<and> eth_to_vara tm' = eth_to_vara new"
    by (auto simp: tm_update_vfts_def update_vfts_finish_def exec_bind_Ret_iff swap_maps_def split: if_splits)
  note renamed = hash_map_iter.renamed_maps [OF assms(1) inv loop]
  have e2v: "eth_to_vara tm' = map_option ?ren \<circ> eth_to_vara tm"
    using cases renamed(1) by auto
  moreover have "tm_inv tm' \<longleftrightarrow> inj_on ?ren (dom (vara_to_eth tm))"
  proof
    assume inv': "tm_inv tm'"
    show "inj_on ?ren (dom (vara_to_eth tm))"
    proof (rule inj_onI)
      fix v1 v2 assume dom: "v1 \<in> dom (vara_to_eth tm)" "v2 \<in> dom (vara_to_eth tm)"
        and same: "?ren v1 = ?ren v2"
      from dom obtain e1 s1 e2 s2
        where v: "vara_to_eth tm v1 = Some (e1, s1)" "vara_to_eth tm v2 = Some (e2, s2)" by fastforce
      note e = tm_inv_eth [OF inv v(1)] tm_inv_eth [OF inv v(2)]
      have "eth_to_vara tm' e1 = Some (?ren v1)" "eth_to_vara tm' e2 = Some (?ren v1)"
        using e same by (simp_all add: e2v)
      from tm_inv_vara [OF inv' this(1)] tm_inv_vara [OF inv' this(2)] have "e1 = e2" by auto
      with e show "v1 = v2" by simp
    qed
  next
    assume inj: "inj_on ?ren (dom (vara_to_eth tm))"
    show "tm_inv tm'"
    proof (cases "tm' = tm")
      case True
      with inv show ?thesis by simp
    next
      case False
      with cases have maps: "vara_to_eth tm' = vara_to_eth new" "eth_to_vara tm' = eth_to_vara new"
        by auto
      show ?thesis
      proof (rule tm_invI)
        have "dom (vara_to_eth tm') \<subseteq> ?ren ` dom (vara_to_eth tm)"
          using renamed(3) by (fastforce simp: maps)
        then show "finite (dom (vara_to_eth tm'))"
          using tm_inv_finite [OF inv] finite_surj by blast
        show "eth_to_vara tm' e = Some w" if "vara_to_eth tm' w = Some (e, s)" for w e s
          using renamed(3) [of w "(e, s)"] that tm_inv_eth [OF inv] by (auto simp: maps renamed(1))
        show "\<exists>s. vara_to_eth tm' w = Some (e, s)" if "eth_to_vara tm' e = Some w" for e w
          using that renamed(2) [OF inj] tm_inv_vara [OF inv, of e]
          by (auto simp: maps renamed(1))
      qed
    qed
  qed
ultimately show ?thesis ..
qed

definition sample_tokens :: token_map where
  "sample_tokens = \<lparr>
     vara_to_eth = [1 \<mapsto> (10, SupplyEthereum), 2 \<mapsto> (20, SupplyGear)],
     eth_to_vara = [10 \<mapsto> 1, 20 \<mapsto> 2]\<rparr>"

lemma sample_tokens_inv: "tm_inv sample_tokens"
  by (rule tm_invI) (auto simp: sample_tokens_def split: if_splits)

theorem update_vfts_bijective_iff_witness:
  "\<exists>tm'. tm_update_vfts sorted_iter (\<lambda>_. InactiveActor) 100 sample_tokens 50 [(1, 3), (2, 3)] = Ret tm'
     \<and> eth_to_vara tm' 10 = Some 3 \<and> eth_to_vara tm' 20 = Some 3 \<and> \<not> tm_inv tm'"
proof -
  have ren: "vft_renamed (\<lambda>_. InactiveActor) [(1, 3), (2, 3)] v = Ret (if v \<in> {1, 2} then 3 else v)" for v
    by (simp add: vft_renamed_def)
  have new: "new_address (\<lambda>_. InactiveActor) [(1, 3), (2, 3)] v = (if v \<in> {1, 2} then 3 else v)" for v
    by (simp add: new_address_def ren)
  have iter: "sorted_iter (vara_to_eth sample_tokens) = [(1, 10, SupplyEthereum), (2, 20, SupplyGear)]"
    by (simp add: sorted_iter_def sample_tokens_def word_le_nat_alt)
  have "\<exists>tm'. tm_update_vfts sorted_iter (\<lambda>_. InactiveActor) 100 sample_tokens 50
      [(1, 3), (2, 3)] = Ret tm'"
    by (simp add: tm_update_vfts_def update_vfts_finish_def iter ren swap_maps_def)
  then obtain tm' where run: "tm_update_vfts sorted_iter (\<lambda>_. InactiveActor) 100 sample_tokens 50
      [(1, 3), (2, 3)] = Ret tm'" by blast
  from update_vfts_bijective_iff [OF sorted_order.hash_map_iter_axioms sample_tokens_inv this]
  have "eth_to_vara tm' = map_option (new_address (\<lambda>_. InactiveActor) [(1, 3), (2, 3)]) \<circ> eth_to_vara sample_tokens"
    "tm_inv tm' \<longleftrightarrow> inj_on (new_address (\<lambda>_. InactiveActor) [(1, 3), (2, 3)]) (dom (vara_to_eth sample_tokens))"
    by blast+
  with run show ?thesis by (auto simp: new sample_tokens_def inj_on_def split: if_splits)
qed

end
