(* ===== verification/Msg_Tracker.thy ===== *)
theory Msg_Tracker
  imports Token_Map
begin

text \<open>
  The message tracker of \<open>vft-manager\<close> (\<open>services/request_bridging/msg_tracker.rs\<close>): the status of
  every bridging request that is under way, by the id of the message that made it.
\<close>

record tx_details =
  td_vara_token_id :: actor_id
  td_sender :: actor_id
  td_amount :: u256
  td_receiver :: h160
  td_token_supply :: token_supply

datatype message_status =
    SendingMessageToDepositTokens
  | TokenDepositCompleted bool
  | SendingMessageToBridgeBuiltin
  | BridgeResponseReceived "u256 option"
  | SendingMessageToReturnTokens
  | TokensReturnComplete bool

record message_info =
  mi_status :: message_status
  mi_details :: tx_details

type_synonym message_tracker = "message_id \<rightharpoonup> message_info"

definition tracker_init :: message_tracker where
  "tracker_init = Map.empty"

definition insert_message_info ::
  "message_tracker \<Rightarrow> message_id \<Rightarrow> message_status \<Rightarrow> tx_details \<Rightarrow> message_tracker" where
  "insert_message_info t msg_id status details =
     t(msg_id \<mapsto> \<lparr>mi_status = status, mi_details = details\<rparr>)"

definition update_message_status ::
  "message_tracker \<Rightarrow> message_id \<Rightarrow> message_status \<Rightarrow> message_tracker" where
  "update_message_status t msg_id status =
     (case t msg_id of None \<Rightarrow> t | Some info \<Rightarrow> t(msg_id \<mapsto> info\<lparr>mi_status := status\<rparr>))"

definition get_message_info :: "message_tracker \<Rightarrow> message_id \<Rightarrow> message_info option" where
  "get_message_info t msg_id = t msg_id"

definition remove_message_info ::
  "message_tracker \<Rightarrow> message_id \<Rightarrow> message_info option \<times> message_tracker" where
  "remove_message_info t msg_id = (t msg_id, t(msg_id := None))"

text \<open>The status of a message, the view that the proofs on the protocol use.\<close>

definition status_of :: "message_tracker \<Rightarrow> message_id \<Rightarrow> message_status option" where
  "status_of t msg_id = map_option mi_status (t msg_id)"

lemma status_of_insert [simp]:
  "status_of (insert_message_info t m s d) m' = (if m' = m then Some s else status_of t m')"
  by (simp add: status_of_def insert_message_info_def)

lemma status_of_update [simp]:
  "status_of (update_message_status t m s) m'
     = (if m' = m \<and> status_of t m \<noteq> None then Some s else status_of t m')"
  by (simp add: status_of_def update_message_status_def split: option.splits)

lemma status_of_remove [simp]:
  "status_of (snd (remove_message_info t m)) m' = (if m' = m then None else status_of t m')"
  by (simp add: status_of_def remove_message_info_def)

lemma status_of_None_iff: "status_of t m = None \<longleftrightarrow> t m = None"
  by (simp add: status_of_def)

lemma status_of_Some: "t m = Some info \<Longrightarrow> status_of t m = Some (mi_status info)"
  by (simp add: status_of_def)

end
