(* ===== verification/Vft_Manager.thy ===== *)
theory Vft_Manager
  imports Msg_Tracker "HOL-Library.Product_Lexorder"
begin

text \<open>
  The service of \<open>vft-manager\<close> (\<open>services/mod.rs\<close>): its state, configuration and globals, the
  operations of its administrators, pausing, the upgrade to a new program, the queries and the
  constructor. The four globals of the program (\<open>STATE\<close>, \<open>CONFIG\<close>, the message tracker and the set
  of processed transactions) are the fields of \<open>vft_program\<close>.
\<close>

record vft_state =
  st_gear_bridge_builtin :: actor_id
  st_admin :: actor_id
  st_pause_admin :: actor_id
  st_erc20_manager_address :: h160
  st_token_map :: token_map
  st_historical_proxy_address :: actor_id
  st_is_paused :: bool
  st_vft_manager_new :: "actor_id option"

record vft_config =
  gas_for_token_ops :: u64
  gas_for_reply_deposit :: u64
  gas_to_send_request_to_builtin :: u64
  gas_for_swap_token_maps :: u64
  reply_timeout :: u32
  fee_bridge :: u128
  fee_incoming :: u128

record vft_init_config =
  ic_erc20_manager_address :: h160
  ic_gear_bridge_builtin :: actor_id
  ic_historical_proxy_address :: actor_id
  ic_config :: vft_config

type_synonym tx_key = "u64 \<times> u64"

record vft_program =
  vp_state :: vft_state
  vp_config :: vft_config
  vp_tracker :: message_tracker
  vp_transactions :: "tx_key set"

datatype vft_event =
    TokenMappingAdded actor_id h160 token_supply
  | TokenMappingRemoved actor_id h160 token_supply
  | BridgingRequested u256 actor_id u256 actor_id h160
  | PausedEvent
  | UnpausedEvent

text \<open>An operation returns its result, the events it emitted and the program's new memory.\<close>

type_synonym 'a vft_call = "(('a \<times> vft_event list) \<times> vft_program) exec"

section \<open>Administration\<close>

definition ensure_admin :: "vft_program \<Rightarrow> actor_id \<Rightarrow> unit exec" where
  "ensure_admin p sender = ensure (st_admin (vp_state p) = sender) ''Not admin''"

definition set_state :: "vft_program \<Rightarrow> vft_state \<Rightarrow> unit vft_call" where
  "set_state p s = Ret (((), []), p\<lparr>vp_state := s\<rparr>)"

definition update_erc20_manager_address :: "vft_program \<Rightarrow> actor_id \<Rightarrow> h160 \<Rightarrow> unit vft_call" where
  "update_erc20_manager_address p sender new =
     exec_bind (ensure_admin p sender) (\<lambda>_.
       set_state p ((vp_state p)\<lparr>st_erc20_manager_address := new\<rparr>))"

definition update_historical_proxy_address :: "vft_program \<Rightarrow> actor_id \<Rightarrow> actor_id \<Rightarrow> unit vft_call" where
  "update_historical_proxy_address p sender new =
     exec_bind (ensure_admin p sender) (\<lambda>_.
       set_state p ((vp_state p)\<lparr>st_historical_proxy_address := new\<rparr>))"

definition map_vara_to_eth_address ::
  "vft_program \<Rightarrow> actor_id \<Rightarrow> actor_id \<Rightarrow> h160 \<Rightarrow> token_supply \<Rightarrow> unit vft_call" where
  "map_vara_to_eth_address p sender vara_token_id eth_token_id supply_type =
     exec_bind (ensure_admin p sender) (\<lambda>_.
       exec_bind (tm_insert (st_token_map (vp_state p)) vara_token_id eth_token_id supply_type) (\<lambda>tm.
         Ret (((), [TokenMappingAdded vara_token_id eth_token_id supply_type]),
              p\<lparr>vp_state := (vp_state p)\<lparr>st_token_map := tm\<rparr>\<rparr>)))"

definition remove_vara_to_eth_address :: "vft_program \<Rightarrow> actor_id \<Rightarrow> actor_id \<Rightarrow> unit vft_call" where
  "remove_vara_to_eth_address p sender vara_token_id =
     exec_bind (ensure_admin p sender) (\<lambda>_.
       exec_bind (tm_remove (st_token_map (vp_state p)) vara_token_id) (\<lambda>((eth, supply), tm).
         Ret (((), [TokenMappingRemoved vara_token_id eth supply]),
              p\<lparr>vp_state := (vp_state p)\<lparr>st_token_map := tm\<rparr>\<rparr>)))"

definition update_config :: "vft_program \<Rightarrow> actor_id \<Rightarrow> vft_config \<Rightarrow> unit vft_call" where
  "update_config p sender config =
     exec_bind (ensure_admin p sender) (\<lambda>_. Ret (((), []), p\<lparr>vp_config := config\<rparr>))"

definition set_admin :: "vft_program \<Rightarrow> actor_id \<Rightarrow> actor_id \<Rightarrow> unit vft_call" where
  "set_admin p sender new_admin =
     exec_bind (ensure_admin p sender) (\<lambda>_. set_state p ((vp_state p)\<lparr>st_admin := new_admin\<rparr>))"

definition set_pause_admin :: "vft_program \<Rightarrow> actor_id \<Rightarrow> actor_id \<Rightarrow> unit vft_call" where
  "set_pause_admin p sender new_pause_admin =
     exec_bind (ensure_admin p sender) (\<lambda>_.
       set_state p ((vp_state p)\<lparr>st_pause_admin := new_pause_admin\<rparr>))"

section \<open>Pausing\<close>

definition pause :: "vft_program \<Rightarrow> actor_id \<Rightarrow> unit vft_call" where
  "pause p sender =
     (let state = vp_state p in
      if sender \<noteq> st_admin state \<and> sender \<noteq> st_pause_admin state then Panic ''Access rejected''
      else if st_is_paused state then Panic ''Already paused''
      else Ret (((), [PausedEvent]), p\<lparr>vp_state := state\<lparr>st_is_paused := True\<rparr>\<rparr>))"

definition unpause :: "vft_program \<Rightarrow> actor_id \<Rightarrow> unit vft_call" where
  "unpause p sender =
     (let state = vp_state p in
      if sender \<noteq> st_admin state \<and> sender \<noteq> st_pause_admin state then Panic ''Access rejected''
      else if \<not> st_is_paused state then Panic ''Already unpaused''
      else if st_vft_manager_new state \<noteq> None then Panic ''Upgrading''
      else Ret (((), [UnpausedEvent]), p\<lparr>vp_state := state\<lparr>st_is_paused := False\<rparr>\<rparr>))"

definition ensure_running :: "vft_program \<Rightarrow> vft_error + unit" where
  "ensure_running p = (if st_is_paused (vp_state p) then Inl Paused else Inr ())"

section \<open>Upgrade\<close>

text \<open>
  The upgrade sets the new address, then moves the balance of each token of the map, waiting for
  two replies per token, and exits with the new program as the inheritor of its value. A panic
  after the first wait does not undo \<open>vft_manager_new\<close>: the call can be repeated.
\<close>

definition upgrade_begin ::
  "hash_iter \<Rightarrow> vft_program \<Rightarrow> actor_id \<Rightarrow> actor_id \<Rightarrow>
     ((actor_id \<times> h160 \<times> token_supply) list \<times> vft_program) exec" where
  "upgrade_begin iter p sender vft_manager_new =
     exec_bind (ensure_admin p sender) (\<lambda>_.
       if \<not> st_is_paused (vp_state p) then Panic ''Not paused''
       else if (case st_vft_manager_new (vp_state p) of
                  Some address \<Rightarrow> address \<noteq> vft_manager_new | None \<Rightarrow> False)
       then Panic ''Upgrade called with vft_manager_new''
       else Ret (tm_read_state iter (st_token_map (vp_state p)),
                 p\<lparr>vp_state := (vp_state p)\<lparr>st_vft_manager_new := Some vft_manager_new\<rparr>\<rparr>))"

text \<open>
  The balances of the VFT programs are the state of the rest of the loop: \<open>bal vft who\<close>. A reply is
  the balance or a failure; a transfer that the VFT program accepts moves the amount.
\<close>

datatype upgrade_result = Exited actor_id | UpgradeFailed string

type_synonym vft_balances = "actor_id \<Rightarrow> actor_id \<Rightarrow> nat"

definition vft_transfer :: "vft_balances \<Rightarrow> actor_id \<Rightarrow> actor_id \<Rightarrow> actor_id \<Rightarrow> nat \<Rightarrow> vft_balances" where
  "vft_transfer bal vft src dst amount =
     (let debited = (bal vft)(src := bal vft src - amount)
      in bal(vft := debited(dst := debited dst + amount)))"

fun upgrade_loop ::
  "(actor_id \<Rightarrow> bool) \<Rightarrow> (actor_id \<Rightarrow> bool option) \<Rightarrow> actor_id \<Rightarrow> actor_id \<Rightarrow>
     (actor_id \<times> h160 \<times> token_supply) list \<Rightarrow> vft_balances \<Rightarrow> upgrade_result \<times> vft_balances" where
  "upgrade_loop answers accepts self vft_manager_new [] bal = (Exited vft_manager_new, bal)"
| "upgrade_loop answers accepts self vft_manager_new ((vft, _, _) # mappings) bal =
     (if \<not> answers vft then (UpgradeFailed ''Unable to get the balance of VftManager'', bal)
      else let balance = bal vft self in
        if balance > 0
        then (case accepts vft of
                None \<Rightarrow> (UpgradeFailed ''Unable to request a transfer to the new VftManager'', bal)
              | Some False \<Rightarrow> (UpgradeFailed ''Unable to transfer tokens to the new VftManager'', bal)
              | Some True \<Rightarrow> upgrade_loop answers accepts self vft_manager_new mappings
                  (vft_transfer bal vft self vft_manager_new balance))
        else upgrade_loop answers accepts self vft_manager_new mappings bal)"

definition update_vfts ::
  "hash_iter \<Rightarrow> (actor_id \<Rightarrow> balance_reply) \<Rightarrow> u64 \<Rightarrow> vft_program \<Rightarrow> actor_id \<Rightarrow>
     (actor_id \<times> actor_id) list \<Rightarrow> unit vft_call" where
  "update_vfts iter balance_of gas_available p sender vft_map =
     exec_bind (ensure_admin p sender) (\<lambda>_.
       exec_bind (tm_update_vfts iter balance_of gas_available (st_token_map (vp_state p))
           (gas_for_swap_token_maps (vp_config p)) vft_map) (\<lambda>tm.
         set_state p ((vp_state p)\<lparr>st_token_map := tm\<rparr>)))"

section \<open>Queries\<close>

definition request_briding_msg_tracker_state ::
  "(message_tracker \<Rightarrow> (message_id \<times> message_info) list) \<Rightarrow> vft_program \<Rightarrow> u32 \<Rightarrow> u32 \<Rightarrow>
     (message_id \<times> message_info) list" where
  "request_briding_msg_tracker_state iter p start cnt =
     take (unat cnt) (drop (unat start) (iter (vp_tracker p)))"

definition vara_to_eth_addresses ::
  "hash_iter \<Rightarrow> vft_program \<Rightarrow> (actor_id \<times> h160 \<times> token_supply) list" where
  "vara_to_eth_addresses iter p = tm_read_state iter (st_token_map (vp_state p))"

definition erc20_manager_address :: "vft_program \<Rightarrow> h160" where
  "erc20_manager_address p = st_erc20_manager_address (vp_state p)"

definition gear_bridge_builtin :: "vft_program \<Rightarrow> actor_id" where
  "gear_bridge_builtin p = st_gear_bridge_builtin (vp_state p)"

definition vft_admin :: "vft_program \<Rightarrow> actor_id" where
  "vft_admin p = st_admin (vp_state p)"

definition vft_pause_admin :: "vft_program \<Rightarrow> actor_id" where
  "vft_pause_admin p = st_pause_admin (vp_state p)"

definition vft_is_paused :: "vft_program \<Rightarrow> bool" where
  "vft_is_paused p = st_is_paused (vp_state p)"

definition get_config :: "vft_program \<Rightarrow> vft_config" where
  "get_config p = vp_config p"

definition historical_proxy_address :: "vft_program \<Rightarrow> actor_id" where
  "historical_proxy_address p = st_historical_proxy_address (vp_state p)"

datatype vft_order = VftDirect | VftReverse

text \<open>The iterator of \<open>BTreeSet\<close> yields the keys in ascending lexicographic order.\<close>

definition transactions_query :: "vft_program \<Rightarrow> vft_order \<Rightarrow> u32 \<Rightarrow> u32 \<Rightarrow> tx_key list" where
  "transactions_query p order start cnt =
     (let collect = (\<lambda>xs. take (unat cnt) (drop (unat start) xs));
          keys = sorted_list_of_set (vp_transactions p)
      in case order of
           VftDirect \<Rightarrow> collect keys
         | VftReverse \<Rightarrow> collect (rev keys))"

section \<open>Construction\<close>

definition vft_seed :: "vft_init_config \<Rightarrow> actor_id \<Rightarrow> vft_program" where
  "vft_seed config sender = \<lparr>
     vp_state = \<lparr>
       st_gear_bridge_builtin = ic_gear_bridge_builtin config,
       st_admin = sender,
       st_pause_admin = sender,
       st_erc20_manager_address = ic_erc20_manager_address config,
       st_token_map = tm_default,
       st_historical_proxy_address = ic_historical_proxy_address config,
       st_is_paused = False,
       st_vft_manager_new = None\<rparr>,
     vp_config = ic_config config,
     vp_tracker = tracker_init,
     vp_transactions = {}\<rparr>"

lemmas vft_admin_defs =
  update_erc20_manager_address_def update_historical_proxy_address_def map_vara_to_eth_address_def
  remove_vara_to_eth_address_def update_config_def set_admin_def set_pause_admin_def
  pause_def unpause_def set_state_def ensure_admin_def

section \<open>Access control and pausing\<close>

text \<open>The calls that change the state or the configuration, as one type.\<close>

datatype admin_op =
    UpdateErc20Manager h160
  | UpdateHistoricalProxy actor_id
  | MapToken actor_id h160 token_supply
  | RemoveToken actor_id
  | UpdateConfig vft_config
  | SetAdmin actor_id
  | SetPauseAdmin actor_id
  | Pause
  | Unpause
  | Upgrade actor_id
  | UpdateVfts "(actor_id \<times> actor_id) list"

fun run_admin ::
  "hash_iter \<Rightarrow> (actor_id \<Rightarrow> balance_reply) \<Rightarrow> u64 \<Rightarrow> admin_op \<Rightarrow> actor_id \<Rightarrow> vft_program \<Rightarrow>
     vft_program exec" where
  "run_admin iter bal gas (UpdateErc20Manager a) sender p =
     exec_bind (update_erc20_manager_address p sender a) (\<lambda>(_, p'). Ret p')"
| "run_admin iter bal gas (UpdateHistoricalProxy a) sender p =
     exec_bind (update_historical_proxy_address p sender a) (\<lambda>(_, p'). Ret p')"
| "run_admin iter bal gas (MapToken v e s) sender p =
     exec_bind (map_vara_to_eth_address p sender v e s) (\<lambda>(_, p'). Ret p')"
| "run_admin iter bal gas (RemoveToken v) sender p =
     exec_bind (remove_vara_to_eth_address p sender v) (\<lambda>(_, p'). Ret p')"
| "run_admin iter bal gas (UpdateConfig c) sender p =
     exec_bind (update_config p sender c) (\<lambda>(_, p'). Ret p')"
| "run_admin iter bal gas (SetAdmin a) sender p = exec_bind (set_admin p sender a) (\<lambda>(_, p'). Ret p')"
| "run_admin iter bal gas (SetPauseAdmin a) sender p =
     exec_bind (set_pause_admin p sender a) (\<lambda>(_, p'). Ret p')"
| "run_admin iter bal gas Pause sender p = exec_bind (pause p sender) (\<lambda>(_, p'). Ret p')"
| "run_admin iter bal gas Unpause sender p = exec_bind (unpause p sender) (\<lambda>(_, p'). Ret p')"
| "run_admin iter bal gas (Upgrade a) sender p =
     exec_bind (upgrade_begin iter p sender a) (\<lambda>(_, p'). Ret p')"
| "run_admin iter bal gas (UpdateVfts m) sender p =
     exec_bind (update_vfts iter bal gas p sender m) (\<lambda>(_, p'). Ret p')"

lemma update_vfts_Ret:
  "update_vfts iter bal gas p sender m = Ret (r, p') \<Longrightarrow>
   sender = st_admin (vp_state p) \<and> (\<exists>tm. p' = p\<lparr>vp_state := (vp_state p)\<lparr>st_token_map := tm\<rparr>\<rparr>)"
  by (auto simp: update_vfts_def ensure_admin_def set_state_def exec_bind_Ret_iff)

lemma upgrade_begin_Ret:
  "upgrade_begin iter p sender a = Ret (r, p') \<Longrightarrow>
   sender = st_admin (vp_state p) \<and> st_is_paused (vp_state p)
   \<and> p' = p\<lparr>vp_state := (vp_state p)\<lparr>st_vft_manager_new := Some a\<rparr>\<rparr>"
  by (auto simp: upgrade_begin_def ensure_admin_def exec_bind_Ret_iff split: if_splits)

text \<open>
  Property C35. Access control of the administration: an operation takes effect only for the admin,
  the pause admin can change nothing but the pause flag, and no operation of an administrator
  touches the tracker of bridging requests or the set of processed transactions.
\<close>

theorem admin_operations_guarded:
  assumes "run_admin iter bal gas op sender p = Ret p'"
  shows "sender \<in> {st_admin (vp_state p), st_pause_admin (vp_state p)}
    \<and> (sender \<noteq> st_admin (vp_state p) \<longrightarrow>
        p' = p\<lparr>vp_state := (vp_state p)\<lparr>st_is_paused := \<not> st_is_paused (vp_state p)\<rparr>\<rparr>)
    \<and> vp_tracker p' = vp_tracker p \<and> vp_transactions p' = vp_transactions p"
  using assms
  by (cases op) (auto simp: exec_bind_Ret_iff vft_admin_defs Let_def dest!: update_vfts_Ret
      upgrade_begin_Ret split: if_splits)

definition sample_config :: vft_config where
  "sample_config = \<lparr>gas_for_token_ops = 100, gas_for_reply_deposit = 10,
     gas_to_send_request_to_builtin = 100, gas_for_swap_token_maps = 50, reply_timeout = 5,
     fee_bridge = 1, fee_incoming = 2\<rparr>"

definition sample_program :: vft_program where
  "sample_program = vft_seed \<lparr>ic_erc20_manager_address = 200, ic_gear_bridge_builtin = 300,
     ic_historical_proxy_address = 400, ic_config = sample_config\<rparr> 1"

theorem admin_operations_guarded_witness:
  "\<exists>p'. run_admin sorted_iter (\<lambda>_. InactiveActor) 100 (MapToken 5 7 SupplyGear) 1 sample_program = Ret p'
     \<and> vp_transactions p' = vp_transactions sample_program"
proof -
  have "\<exists>p'. run_admin sorted_iter (\<lambda>_. InactiveActor) 100 (MapToken 5 7 SupplyGear) 1 sample_program = Ret p'"
    by (simp add: vft_admin_defs sample_program_def vft_seed_def tm_insert_def tm_default_def)
  then obtain p' where "run_admin sorted_iter (\<lambda>_. InactiveActor) 100 (MapToken 5 7 SupplyGear) 1
      sample_program = Ret p'" by blast
  with admin_operations_guarded [OF this] show ?thesis by blast
qed

text \<open>
  The runs of the administration after the constructor. Bridging requests and receipts leave the
  fields that the invariant reads as they are.
\<close>

inductive admin_reachable :: "hash_iter \<Rightarrow> vft_program \<Rightarrow> bool" for iter where
  admin_seed: "admin_reachable iter (vft_seed config sender)"
| admin_step: "admin_reachable iter p \<Longrightarrow> run_admin iter bal gas op sender p = Ret p' \<Longrightarrow>
    admin_reachable iter p'"
| admin_other: "admin_reachable iter p \<Longrightarrow> vp_state p' = vp_state p \<Longrightarrow> vp_config p' = vp_config p \<Longrightarrow>
    admin_reachable iter p'"

text \<open>
  Once an upgrade has been started the program stays paused: every bridging request
  and every receipt is then answered with \<open>Paused\<close>, whatever the administrators do.
\<close>

theorem upgrading_stays_paused:
  assumes "admin_reachable iter p" and "st_vft_manager_new (vp_state p) \<noteq> None"
  shows "ensure_running p = Inl Paused
    \<and> (\<forall>sender. \<exists>m. unpause p sender = Panic m)"
proof -
  have "st_vft_manager_new (vp_state p) \<noteq> None \<longrightarrow> st_is_paused (vp_state p)"
    using assms(1)
  proof induction
    case (admin_step p bal gas op sender p')
    then show ?case
      by (cases op) (auto simp: exec_bind_Ret_iff vft_admin_defs Let_def dest!: update_vfts_Ret
          upgrade_begin_Ret split: if_splits)
  qed (auto simp: vft_seed_def)
  with assms(2) show ?thesis by (auto simp: ensure_running_def unpause_def Let_def)
qed

definition sample_upgrading :: vft_program where
  "sample_upgrading = sample_program\<lparr>vp_state := (vp_state sample_program)
     \<lparr>st_is_paused := True, st_vft_manager_new := Some 9\<rparr>\<rparr>"

lemma sample_upgrading_reachable: "admin_reachable sorted_iter sample_upgrading"
proof -
  have "run_admin sorted_iter (\<lambda>_. InactiveActor) 100 Pause 1 sample_program
      = Ret (sample_program\<lparr>vp_state := (vp_state sample_program)\<lparr>st_is_paused := True\<rparr>\<rparr>)"
    by (simp add: vft_admin_defs sample_program_def vft_seed_def)
  moreover have "run_admin sorted_iter (\<lambda>_. InactiveActor) 100 (Upgrade 9) 1
      (sample_program\<lparr>vp_state := (vp_state sample_program)\<lparr>st_is_paused := True\<rparr>\<rparr>) = Ret sample_upgrading"
    by (simp add: upgrade_begin_def ensure_admin_def sample_program_def vft_seed_def sample_upgrading_def)
  moreover have "admin_reachable sorted_iter sample_program"
    unfolding sample_program_def by (rule admin_seed)
  ultimately show ?thesis by (blast intro: admin_step)
qed

theorem upgrading_stays_paused_witness:
  "ensure_running sample_upgrading = Inl Paused"
  using upgrading_stays_paused [OF sample_upgrading_reachable]
  by (simp add: sample_upgrading_def)

section \<open>The balances after an upgrade\<close>

lemma vft_transfer_all:
  assumes "self \<noteq> new"
  shows "vft_transfer bal vft self new (bal vft self)
    = bal(vft := (bal vft)(self := 0, new := bal vft self + bal vft new))"
  using assms by (auto simp: vft_transfer_def Let_def fun_eq_iff)

lemma upgrade_loop_balances:
  assumes "self \<noteq> new" and "upgrade_loop answers accepts self new mappings bal = (r, bal')"
  shows "(\<forall>vft. bal' vft self + bal' vft new = bal vft self + bal vft new)
    \<and> (\<forall>vft who. who \<noteq> self \<and> who \<noteq> new \<longrightarrow> bal' vft who = bal vft who)
    \<and> (\<forall>vft. bal vft self = 0 \<longrightarrow> bal' vft self = 0)
    \<and> (r = Exited new \<longrightarrow> (\<forall>vft \<in> fst ` set mappings. bal' vft self = 0))"
  using assms(2)
proof (induction mappings arbitrary: bal)
  case Nil
  then show ?case by simp
next
  case (Cons m mappings)
  obtain vft e s where m: "m = (vft, e, s)" by (cases m)
  let ?b = "bal(vft := (bal vft)(self := 0, new := bal vft self + bal vft new))"
  consider (stop) "bal' = bal" "r \<noteq> Exited new"
    | (moved) "upgrade_loop answers accepts self new mappings ?b = (r, bal')"
    | (zero) "bal vft self = 0" "upgrade_loop answers accepts self new mappings bal = (r, bal')"
    using Cons.prems
    by (auto simp: m vft_transfer_all [OF assms(1)] Let_def split: if_splits option.splits bool.splits)
  then show ?case
  proof cases
    case stop
    then show ?thesis by simp
  next
    case moved
    from Cons.IH [OF moved] show ?thesis using assms(1) by (simp add: m)
  next
    case zero
    from Cons.IH [OF zero(2)] zero(1) show ?thesis by (simp add: m)
  qed
qed

text \<open>
  An upgrade that was interrupted and is repeated until the program exits has moved,
  for every token of the map, the whole balance of the old program to the new one, once; the
  balances of everyone else are as before.
\<close>

theorem upgrade_moves_balances:
  assumes "self \<noteq> new"
    and "upgrade_loop answers1 accepts1 self new mappings bal = (r, bal1)"
    and "upgrade_loop answers2 accepts2 self new mappings bal1 = (Exited new, bal2)"
  shows "(\<forall>vft \<in> fst ` set mappings. bal2 vft self = 0 \<and> bal2 vft new = bal vft new + bal vft self)
    \<and> (\<forall>vft who. who \<noteq> self \<and> who \<noteq> new \<longrightarrow> bal2 vft who = bal vft who)"
proof -
  note run1 = upgrade_loop_balances [OF assms(1,2)] and run2 = upgrade_loop_balances [OF assms(1,3)]
  have "bal2 vft self = 0 \<and> bal2 vft new = bal vft new + bal vft self"
    if "vft \<in> fst ` set mappings" for vft
  proof
    show empty: "bal2 vft self = 0" using run2 that by auto
    have "bal2 vft self + bal2 vft new = bal vft self + bal vft new"
      using run1 run2 by simp
    with empty show "bal2 vft new = bal vft new + bal vft self" by simp
  qed
  with run1 run2 show ?thesis by simp
qed

theorem upgrade_moves_balances_witness:
  "\<exists>bal1 bal2.
     upgrade_loop (\<lambda>_. True) (\<lambda>v. Some (v = 1)) 8 9 [(1, 10, SupplyGear), (2, 20, SupplyGear)]
       (\<lambda>v w. if w = 8 then 50 else 0) = (UpgradeFailed ''Unable to transfer tokens to the new VftManager'', bal1)
   \<and> upgrade_loop (\<lambda>_. True) (\<lambda>v. Some True) 8 9 [(1, 10, SupplyGear), (2, 20, SupplyGear)] bal1
       = (Exited 9, bal2)
   \<and> bal2 1 9 = 50 \<and> bal2 2 9 = 50 \<and> bal2 1 8 = 0"
proof -
  let ?m = "[(1, 10, SupplyGear), (2, 20, SupplyGear)] :: (actor_id \<times> h160 \<times> token_supply) list"
  let ?bal = "\<lambda>(v :: actor_id) (w :: actor_id). if w = 8 then 50 else 0 :: nat"
  obtain bal1 where one: "upgrade_loop (\<lambda>_. True) (\<lambda>v. Some (v = 1)) 8 9 ?m ?bal
      = (UpgradeFailed ''Unable to transfer tokens to the new VftManager'', bal1)"
    by (simp add: vft_transfer_def)
  have "\<exists>bal2. upgrade_loop (\<lambda>_. True) (\<lambda>v. Some True) 8 9 ?m bal1 = (Exited 9, bal2)"
    by (simp add: Let_def)
  then obtain bal2 where two: "upgrade_loop (\<lambda>_. True) (\<lambda>v. Some True) 8 9 ?m bal1 = (Exited 9, bal2)"
    by blast
  have "(8 :: actor_id) \<noteq> 9" by simp
  from upgrade_moves_balances [OF this one two] one two show ?thesis by auto
qed

end
