(* ===== verification/Request_Bridging.thy ===== *)
theory Request_Bridging
  imports Vft_Manager
begin

text \<open>
  Bridging from Gear to Ethereum (\<open>services/request_bridging\<close>): tokens are burned or locked, a message
  is sent to the bridge built-in actor, and the tokens are returned if that fails. A call of
  \<open>request_bridging\<close> waits for up to three replies; the model has the slices between the waits, the
  hooks that run when a reply arrives, and the recovery call \<open>handle_interrupted_transfer\<close>. The
  decoders of replies are generated from other programs and are parameters.
\<close>

section \<open>Messages\<close>

datatype program_call =
    CallBurn actor_id u256
  | CallTransferFrom actor_id actor_id u256
  | CallMint actor_id u256
  | CallSendEthMessage h160 bytes

record outgoing =
  out_dest :: actor_id
  out_call :: program_call
  out_gas :: "u64 option"
  out_value :: u128
  out_reply_deposit :: u64
  out_timeout :: u32

text \<open>
  Sending takes three steps: the system call that sends the message (\<open>send_status\<close> says whether it
  succeeds), then \<open>up_to\<close>, which refuses a timeout of zero, then \<open>handle_reply\<close>, which refuses a reply
  deposit of zero. When one of the last two fails the message has already been sent, and neither its
  reply hook nor its caller will see the reply.
\<close>

datatype send_status = SendOk | SendErr

datatype send_outcome = NotSent vft_error | SentUnawaited vft_error | Awaiting

definition send_for_reply :: "vft_config \<Rightarrow> send_status \<Rightarrow> send_outcome" where
  "send_for_reply config send =
     (case send of
        SendErr \<Rightarrow> NotSent SendFailure
      | SendOk \<Rightarrow>
          if reply_timeout config = 0 then SentUnawaited ReplyTimeout
          else if gas_for_reply_deposit config = 0 then SentUnawaited ReplyHook
          else Awaiting)"

text \<open>
  How the first slice of a call ends: with an error before anything is sent, with an error although
  a message is on its way, or waiting for the reply of the message.
\<close>

datatype 'a begun = Refused vft_error | Orphaned vft_error 'a | Begun 'a

fun begun_message :: "'a begun \<Rightarrow> 'a option" where
  "begun_message (Refused e) = None"
| "begun_message (Orphaned e x) = Some x"
| "begun_message (Begun x) = Some x"

fun begin_bind :: "vft_error + 'a \<Rightarrow> ('a \<Rightarrow> 'b begun) \<Rightarrow> 'b begun" where
  "begin_bind (Inl e) f = Refused e"
| "begin_bind (Inr x) f = f x"

definition begin_sending :: "vft_config \<Rightarrow> send_status \<Rightarrow> 'a \<Rightarrow> 'a begun" where
  "begin_sending config send x =
     (case send_for_reply config send of
        NotSent e \<Rightarrow> Refused e
      | SentUnawaited e \<Rightarrow> Orphaned e x
      | Awaiting \<Rightarrow> Begun x)"

text \<open>The configurations under which a message that was sent is also awaited.\<close>

definition config_live :: "vft_config \<Rightarrow> bool" where
  "config_live config \<longleftrightarrow> reply_timeout config \<noteq> 0 \<and> gas_for_reply_deposit config \<noteq> 0"

lemma send_for_reply_Awaiting_iff:
  "send_for_reply config send = Awaiting \<longleftrightarrow> send = SendOk \<and> config_live config"
  by (auto simp: send_for_reply_def config_live_def split: send_status.splits)

lemma send_for_reply_Unawaited:
  "send_for_reply config send = SentUnawaited e \<Longrightarrow> send = SendOk \<and> \<not> config_live config"
  by (auto simp: send_for_reply_def config_live_def split: send_status.splits if_splits)

lemma begin_bind_iff:
  "begin_bind r f = Begun y \<longleftrightarrow> (\<exists>x. r = Inr x \<and> f x = Begun y)"
  "begin_bind r f = Orphaned e y \<longleftrightarrow> (\<exists>x. r = Inr x \<and> f x = Orphaned e y)"
  "begun_message (begin_bind r f) = Some y \<longleftrightarrow> (\<exists>x. r = Inr x \<and> begun_message (f x) = Some y)"
  by (cases r; auto)+

lemma begin_sending_iff:
  "begin_sending config send x = Begun y \<longleftrightarrow> y = x \<and> send = SendOk \<and> config_live config"
  "begin_sending config send x = Orphaned e y \<longleftrightarrow> y = x \<and> send_for_reply config send = SentUnawaited e"
  "begun_message (begin_sending config send x) = Some y \<longleftrightarrow> y = x \<and> send = SendOk"
  by (auto simp: begin_sending_def send_for_reply_def config_live_def split: send_status.splits if_splits)

record payload =
  pl_receiver :: h160
  pl_token_id :: h160
  pl_amount :: u256

definition pack :: "payload \<Rightarrow> bytes" where
  "pack pl = be_bytes 20 (pl_receiver pl) @ be_bytes 20 (pl_token_id pl) @ be_bytes 32 (pl_amount pl)"

record call_ctx =
  cx_msg_id :: message_id
  cx_sender :: actor_id
  cx_value :: u128
  cx_program_id :: actor_id

section \<open>Token operations\<close>

definition send_message_with_gas_for_reply :: "vft_config \<Rightarrow> actor_id \<Rightarrow> program_call \<Rightarrow> outgoing" where
  "send_message_with_gas_for_reply config destination message = \<lparr>
     out_dest = destination, out_call = message, out_gas = Some (gas_for_token_ops config), out_value = 0,
     out_reply_deposit = gas_for_reply_deposit config, out_timeout = reply_timeout config\<rparr>"

definition rb_burn :: "vft_config \<Rightarrow> actor_id \<Rightarrow> actor_id \<Rightarrow> u256 \<Rightarrow> outgoing" where
  "rb_burn config vara_token_id sender amount =
     send_message_with_gas_for_reply config vara_token_id (CallBurn sender amount)"

definition rb_lock :: "vft_config \<Rightarrow> actor_id \<Rightarrow> actor_id \<Rightarrow> actor_id \<Rightarrow> u256 \<Rightarrow> outgoing" where
  "rb_lock config program_id vara_token_id sender amount =
     send_message_with_gas_for_reply config vara_token_id (CallTransferFrom sender program_id amount)"

definition rb_mint :: "vft_config \<Rightarrow> actor_id \<Rightarrow> actor_id \<Rightarrow> u256 \<Rightarrow> outgoing" where
  "rb_mint config token_id receiver amount =
     send_message_with_gas_for_reply config token_id (CallMint receiver amount)"

definition rb_unlock :: "vft_config \<Rightarrow> actor_id \<Rightarrow> actor_id \<Rightarrow> actor_id \<Rightarrow> u256 \<Rightarrow> outgoing" where
  "rb_unlock config program_id vara_token_id receiver amount =
     send_message_with_gas_for_reply config vara_token_id (CallTransferFrom program_id receiver amount)"

definition fetch_deposit_result :: "message_tracker \<Rightarrow> message_id \<Rightarrow> vft_error + unit" where
  "fetch_deposit_result t msg_id =
     (case t msg_id of
        None \<Rightarrow> Inl MessageNotFound
      | Some info \<Rightarrow>
          (case mi_status info of
             TokenDepositCompleted True \<Rightarrow> Inr ()
           | TokenDepositCompleted False \<Rightarrow> Inl MessageFailed
           | _ \<Rightarrow> Inl InvalidMessageStatus))"

definition fetch_withdraw_result :: "message_tracker \<Rightarrow> message_id \<Rightarrow> vft_error + unit" where
  "fetch_withdraw_result t msg_id =
     (case t msg_id of
        None \<Rightarrow> Inl MessageNotFound
      | Some info \<Rightarrow>
          (case mi_status info of
             TokensReturnComplete True \<Rightarrow> Inr ()
           | TokensReturnComplete False \<Rightarrow> Inl MessageFailed
           | _ \<Rightarrow> Inl InvalidMessageStatus))"

text \<open>The decoders that the clients of the VFT programs and of the built-in actor generate.\<close>

record reply_codec =
  burn_reply :: "bytes \<Rightarrow> unit option"
  mint_reply :: "bytes \<Rightarrow> unit option"
  transfer_from_reply :: "bytes \<Rightarrow> bool option"
  bridge_response :: "bytes \<Rightarrow> u256 option"

definition decode_burn_reply :: "reply_codec \<Rightarrow> bytes \<Rightarrow> vft_error + bool" where
  "decode_burn_reply C bytes = ok_or (map_option (\<lambda>_. True) (burn_reply C bytes)) BurnTokensDecode"

definition decode_lock_reply :: "reply_codec \<Rightarrow> bytes \<Rightarrow> vft_error + bool" where
  "decode_lock_reply C bytes = ok_or (transfer_from_reply C bytes) TransferFromDecode"

definition decode_mint_reply :: "reply_codec \<Rightarrow> bytes \<Rightarrow> vft_error + bool" where
  "decode_mint_reply C bytes = ok_or (map_option (\<lambda>_. True) (mint_reply C bytes)) MintTokensDecode"

definition decode_unlock_reply :: "reply_codec \<Rightarrow> bytes \<Rightarrow> vft_error + bool" where
  "decode_unlock_reply C bytes = ok_or (transfer_from_reply C bytes) TransferFromDecode"

definition unwrap_or_false :: "vft_error + bool \<Rightarrow> bool" where
  "unwrap_or_false r = (case r of Inl _ \<Rightarrow> False | Inr b \<Rightarrow> b)"

definition deposit_reply :: "reply_codec \<Rightarrow> token_supply \<Rightarrow> bytes \<Rightarrow> bool" where
  "deposit_reply C supply bytes = unwrap_or_false (case supply of
     SupplyEthereum \<Rightarrow> decode_burn_reply C bytes | SupplyGear \<Rightarrow> decode_lock_reply C bytes)"

definition return_reply :: "reply_codec \<Rightarrow> token_supply \<Rightarrow> bytes \<Rightarrow> bool" where
  "return_reply C supply bytes = unwrap_or_false (case supply of
     SupplyEthereum \<Rightarrow> decode_mint_reply C bytes | SupplyGear \<Rightarrow> decode_unlock_reply C bytes)"

definition token_reply_hook ::
  "reply_codec \<Rightarrow> message_id \<Rightarrow> bytes \<Rightarrow> message_tracker \<Rightarrow> message_tracker exec" where
  "token_reply_hook C msg_id reply_bytes t =
     (case get_message_info t msg_id of
        None \<Rightarrow> Panic ''Unexpected: msg info does not exist''
      | Some info \<Rightarrow>
          Ret (case mi_status info of
             SendingMessageToDepositTokens \<Rightarrow>
               update_message_status t msg_id (TokenDepositCompleted
                 (deposit_reply C (td_token_supply (mi_details info)) reply_bytes))
           | SendingMessageToReturnTokens \<Rightarrow>
               update_message_status t msg_id (TokensReturnComplete
                 (return_reply C (td_token_supply (mi_details info)) reply_bytes))
           | _ \<Rightarrow> t))"

section \<open>The bridge built-in actor\<close>

definition decode_bridge_reply :: "reply_codec \<Rightarrow> bytes \<Rightarrow> vft_error + u256 option" where
  "decode_bridge_reply C bytes =
     (case bridge_response C bytes of None \<Rightarrow> Inl BuiltinDecode | Some nonce \<Rightarrow> Inr (Some nonce))"

definition bridge_reply_hook ::
  "reply_codec \<Rightarrow> message_id \<Rightarrow> bytes \<Rightarrow> message_tracker \<Rightarrow> message_tracker exec" where
  "bridge_reply_hook C msg_id reply_bytes t =
     (case get_message_info t msg_id of
        None \<Rightarrow> Panic ''Unexpected: msg info does not exist''
      | Some info \<Rightarrow>
          if mi_status info = SendingMessageToBridgeBuiltin
          then let reply = (case decode_bridge_reply C reply_bytes of Inl _ \<Rightarrow> None | Inr r \<Rightarrow> r)
               in Ret (update_message_status t msg_id (BridgeResponseReceived reply))
          else Ret t)"

definition bridge_message :: "vft_program \<Rightarrow> payload \<Rightarrow> outgoing" where
  "bridge_message p pl = \<lparr>
     out_dest = st_gear_bridge_builtin (vp_state p),
     out_call = CallSendEthMessage (st_erc20_manager_address (vp_state p)) (pack pl),
     out_gas = Some (gas_to_send_request_to_builtin (vp_config p)),
     out_value = fee_bridge (vp_config p),
     out_reply_deposit = gas_for_reply_deposit (vp_config p),
     out_timeout = reply_timeout (vp_config p)\<rparr>"

text \<open>What the call to the built-in actor returns once its reply, or its failure, is there.\<close>

definition bridge_result ::
  "bool \<Rightarrow> message_tracker \<Rightarrow> message_id \<Rightarrow> (vft_error + u256) \<times> message_tracker" where
  "bridge_result reply_ok t msg_id =
     (if \<not> reply_ok then (Inl ReplyFailure, t)
      else case get_message_info t msg_id of
          None \<Rightarrow> (Inl MessageNotFound, t)
        | Some info \<Rightarrow>
            (case mi_status info of
               BridgeResponseReceived (Some nonce) \<Rightarrow> (Inr nonce, snd (remove_message_info t msg_id))
             | BridgeResponseReceived None \<Rightarrow> (Inl MessageFailed, t)
             | _ \<Rightarrow> (Inl InvalidMessageStatus, t)))"

section \<open>The request\<close>

text \<open>The local variables of \<open>request_bridging\<close> that live across the waits.\<close>

record rb_frame =
  fr_msg_id :: message_id
  fr_program_id :: actor_id
  fr_sender :: actor_id
  fr_vara_token_id :: actor_id
  fr_amount :: u256
  fr_receiver :: h160
  fr_eth_token_id :: h160
  fr_supply_type :: token_supply

definition deposit_message :: "vft_config \<Rightarrow> rb_frame \<Rightarrow> outgoing" where
  "deposit_message config fr =
     (case fr_supply_type fr of
        SupplyEthereum \<Rightarrow> rb_burn config (fr_vara_token_id fr) (fr_sender fr) (fr_amount fr)
      | SupplyGear \<Rightarrow>
          rb_lock config (fr_program_id fr) (fr_vara_token_id fr) (fr_sender fr) (fr_amount fr))"

definition return_message ::
  "vft_config \<Rightarrow> actor_id \<Rightarrow> token_supply \<Rightarrow> actor_id \<Rightarrow> actor_id \<Rightarrow> u256 \<Rightarrow> outgoing" where
  "return_message config program_id supply vara_token_id sender amount =
     (case supply of
        SupplyEthereum \<Rightarrow> rb_mint config vara_token_id sender amount
      | SupplyGear \<Rightarrow> rb_unlock config program_id vara_token_id sender amount)"

definition rb_begin ::
  "call_ctx \<Rightarrow> send_status \<Rightarrow> vft_program \<Rightarrow> actor_id \<Rightarrow> u256 \<Rightarrow> h160 \<Rightarrow>
     ((vft_error + rb_frame \<times> outgoing) \<times> vft_program) exec" where
  "rb_begin cx send p vara_token_id amount receiver =
     (case ensure_running p of
        Inl e \<Rightarrow> Ret (Inl e, p)
      | Inr _ \<Rightarrow>
          if cx_value cx \<noteq> fee_incoming (vp_config p) then Panic ''Please attach exactly the fee''
          else case get_eth_token_id (st_token_map (vp_state p)) vara_token_id of
              Inl e \<Rightarrow> Ret (Inl e, p)
            | Inr eth_token_id \<Rightarrow>
                (case get_supply_type (st_token_map (vp_state p)) vara_token_id of
                   Inl e \<Rightarrow> Ret (Inl e, p)
                 | Inr supply_type \<Rightarrow>
                     let fr = \<lparr>fr_msg_id = cx_msg_id cx, fr_program_id = cx_program_id cx,
                           fr_sender = cx_sender cx, fr_vara_token_id = vara_token_id,
                           fr_amount = amount, fr_receiver = receiver,
                           fr_eth_token_id = eth_token_id, fr_supply_type = supply_type\<rparr>;
                         p1 = p\<lparr>vp_tracker := insert_message_info (vp_tracker p) (cx_msg_id cx)
                           SendingMessageToDepositTokens
                           \<lparr>td_vara_token_id = vara_token_id, td_sender = cx_sender cx,
                            td_amount = amount, td_receiver = receiver,
                            td_token_supply = supply_type\<rparr>\<rparr>
                     in case send_for_reply (vp_config p) send of
                          Awaiting \<Rightarrow> Ret (Inr (fr, deposit_message (vp_config p) fr), p1)
                        | _ \<Rightarrow> Panic ''Failed to burn or lock tokens''))"

datatype rb_next =
    WaitBridge outgoing
  | WaitReturn vft_error outgoing
  | Completed u256 h160 vft_event

definition rb_refund ::
  "vft_error \<Rightarrow> send_status \<Rightarrow> rb_frame \<Rightarrow> vft_program \<Rightarrow> (rb_next \<times> vft_program) exec" where
  "rb_refund e send fr p =
     (let p1 = p\<lparr>vp_tracker :=
            update_message_status (vp_tracker p) (fr_msg_id fr) SendingMessageToReturnTokens\<rparr>
      in case send_for_reply (vp_config p) send of
           Awaiting \<Rightarrow> Ret (WaitReturn e (return_message (vp_config p) (fr_program_id fr)
             (fr_supply_type fr) (fr_vara_token_id fr) (fr_sender fr) (fr_amount fr)), p1)
         | _ \<Rightarrow> Panic ''Failed to mint or unlock tokens'')"

text \<open>
  When the message to the built-in actor is sent but cannot be awaited, the refund of the same slice
  cannot be awaited either (\<open>refund_of_unawaited_panics\<close>): the slice panics, and what it has sent is
  dropped with it.
\<close>

definition rb_after_deposit ::
  "bool \<Rightarrow> send_status \<Rightarrow> send_status \<Rightarrow> rb_frame \<Rightarrow> vft_program \<Rightarrow> (rb_next \<times> vft_program) exec" where
  "rb_after_deposit reply_ok send_bridge send_return fr p =
     (if \<not> reply_ok then Panic ''Failed to burn or lock tokens: ReplyFailure''
      else case fetch_deposit_result (vp_tracker p) (fr_msg_id fr) of
          Inl _ \<Rightarrow> Panic ''Failed to burn or lock tokens''
        | Inr _ \<Rightarrow>
            let p1 = p\<lparr>vp_tracker :=
                  update_message_status (vp_tracker p) (fr_msg_id fr) SendingMessageToBridgeBuiltin\<rparr>
            in case send_for_reply (vp_config p1) send_bridge of
                 Awaiting \<Rightarrow> Ret (WaitBridge (bridge_message p1 \<lparr>pl_receiver = fr_receiver fr,
                   pl_token_id = fr_eth_token_id fr, pl_amount = fr_amount fr\<rparr>), p1)
               | NotSent e \<Rightarrow> rb_refund e send_return fr p1
               | SentUnawaited e \<Rightarrow> rb_refund e send_return fr p1)"

lemma refund_of_unawaited_panics:
  assumes "send_for_reply (vp_config p) send_bridge = SentUnawaited e"
  shows "\<exists>msg. rb_refund e send_return fr p = Panic msg"
  using send_for_reply_Unawaited [OF assms] send_for_reply_Awaiting_iff [of "vp_config p" send_return]
  by (auto simp: rb_refund_def Let_def split: send_outcome.splits)

definition rb_after_bridge ::
  "bool \<Rightarrow> send_status \<Rightarrow> rb_frame \<Rightarrow> vft_program \<Rightarrow> (rb_next \<times> vft_program) exec" where
  "rb_after_bridge reply_ok send_return fr p =
     (let (result, t1) = bridge_result reply_ok (vp_tracker p) (fr_msg_id fr);
          p1 = p\<lparr>vp_tracker := t1\<rparr>
      in case result of
           Inr nonce \<Rightarrow> Ret (Completed nonce (fr_eth_token_id fr)
             (BridgingRequested nonce (fr_vara_token_id fr) (fr_amount fr) (fr_sender fr)
               (fr_receiver fr)), p1)
         | Inl e \<Rightarrow> rb_refund e send_return fr p1)"

text \<open>After the tokens are returned the call ends with the error of the bridge.\<close>

definition rb_after_return :: "bool \<Rightarrow> vft_error \<Rightarrow> rb_frame \<Rightarrow> vft_program \<Rightarrow> vft_error exec" where
  "rb_after_return reply_ok e fr p =
     (if \<not> reply_ok then Panic ''Failed to mint or unlock tokens: ReplyFailure''
      else case fetch_withdraw_result (vp_tracker p) (fr_msg_id fr) of
          Inl _ \<Rightarrow> Panic ''Failed to mint or unlock tokens''
        | Inr _ \<Rightarrow> Ret e)"

definition critical_hook :: "message_id \<Rightarrow> message_tracker \<Rightarrow> message_tracker exec" where
  "critical_hook msg_id t =
     (case get_message_info t msg_id of
        None \<Rightarrow> Panic ''Unexpected: msg info does not exist''
      | Some info \<Rightarrow>
          Ret (if mi_status info = SendingMessageToBridgeBuiltin
               then update_message_status t msg_id SendingMessageToReturnTokens else t))"

section \<open>Recovery\<close>

definition ih_begin ::
  "actor_id \<Rightarrow> send_status \<Rightarrow> vft_program \<Rightarrow> message_id \<Rightarrow>
     (outgoing begun \<times> vft_program) exec" where
  "ih_begin program_id send p msg_id =
     (case ensure_running p of
        Inl e \<Rightarrow> Ret (Refused e, p)
      | Inr _ \<Rightarrow>
          (case get_message_info (vp_tracker p) msg_id of
             None \<Rightarrow> Panic ''Unexpected: msg status does not exist''
           | Some info \<Rightarrow>
               let resend = (\<lambda>p1. Ret (begin_sending (vp_config p) send
                     (return_message (vp_config p) program_id
                       (td_token_supply (mi_details info)) (td_vara_token_id (mi_details info))
                       (td_sender (mi_details info)) (td_amount (mi_details info))), p1));
                   marked = p\<lparr>vp_tracker :=
                     update_message_status (vp_tracker p) msg_id SendingMessageToReturnTokens\<rparr>
               in case mi_status info of
                    TokenDepositCompleted True \<Rightarrow> resend marked
                  | BridgeResponseReceived None \<Rightarrow> resend marked
                  | TokensReturnComplete False \<Rightarrow> resend marked
                  | SendingMessageToReturnTokens \<Rightarrow> resend p
                  | _ \<Rightarrow> Panic ''Unexpected status or transaction completed.''))"

definition ih_after :: "bool \<Rightarrow> message_id \<Rightarrow> vft_program \<Rightarrow> vft_error + unit" where
  "ih_after reply_ok msg_id p =
     (if \<not> reply_ok then Inl ReplyFailure else fetch_withdraw_result (vp_tracker p) msg_id)"

section \<open>The payload for Ethereum\<close>

text \<open>The layout that the receiving contract reads: two addresses and an amount, big endian.\<close>

definition unpack :: "bytes \<Rightarrow> payload option" where
  "unpack bs = (if length bs = 72
     then Some \<lparr>pl_receiver = of_be_bytes (take 20 bs), pl_token_id = of_be_bytes (take 20 (drop 20 bs)),
       pl_amount = of_be_bytes (drop 40 bs)\<rparr>
     else None)"

text \<open>
  The packed payload has 72 bytes and reads back as the payload; in particular two
  different bridging requests are never packed to the same bytes.
\<close>

theorem payload_roundtrip:
  "length (pack pl) = 72 \<and> unpack (pack pl) = Some pl \<and> (pack pl = pack pl' \<longleftrightarrow> pl = pl')"
proof -
  have len: "length (pack q) = 72" for q by (simp add: pack_def)
  have rt: "unpack (pack q) = Some q" for q
    unfolding unpack_def len by (simp add: pack_def of_be_bytes_be_bytes)
  then have "pack pl = pack pl' \<longleftrightarrow> pl = pl'" by (metis option.inject)
  with len rt show ?thesis by simp
qed

end
