(* ===== verification/Bridging_Protocol.thy ===== *)
theory Bridging_Protocol
  imports Request_Bridging
begin

text \<open>
  The bridging request as a protocol between \<open>vft-manager\<close>, the VFT program and the bridge built-in
  actor. A world holds the program, the messages it has sent and what has really happened to the
  tokens of each request; a step is one slice of the program, the execution of a message at its
  destination, the arrival of a reply, a timeout, or the end of a waiting call for lack of gas.
\<close>

section \<open>Worlds\<close>

datatype msg_kind = KDeposit | KBridge | KReturn

text \<open>
  A message is sent, then executed at its destination with a reply (whose flag says that it is not
  an error reply), then the reply is delivered to the hook. A message that was sent before its
  caller failed to set the timeout or the hook (\<open>SentUnawaited\<close>) has no hook and no caller.
\<close>

datatype stage = FSent | FDone bytes bool | FReplied bool

fun is_replied :: "stage \<Rightarrow> bool" where
  "is_replied (FReplied ok) = True"
| "is_replied _ = False"

datatype cont =
    CDeposit rb_frame
  | CBridge rb_frame
  | CReturn rb_frame vft_error
  | CHelper message_id

record flight =
  fl_msg :: message_id
  fl_kind :: msg_kind
  fl_out :: outgoing
  fl_stage :: stage
  fl_hook :: bool
  fl_cont :: "cont option"

record bridge_world =
  bw_prog :: vft_program
  bw_flights :: "nat \<rightharpoonup> flight"
  bw_details :: "message_id \<rightharpoonup> tx_details"
  bw_deposited :: "message_id set"
  bw_bridged :: "message_id set"
  bw_refunds :: "message_id \<Rightarrow> nat"
  bw_returning :: "message_id set"
  bw_ok :: "message_id set"
  bw_hooked :: "message_id set"

definition frame_details :: "rb_frame \<Rightarrow> tx_details" where
  "frame_details fr = \<lparr>td_vara_token_id = fr_vara_token_id fr, td_sender = fr_sender fr,
     td_amount = fr_amount fr, td_receiver = fr_receiver fr, td_token_supply = fr_supply_type fr\<rparr>"

definition bw_supply :: "bridge_world \<Rightarrow> message_id \<Rightarrow> token_supply" where
  "bw_supply W m = td_token_supply (the (bw_details W m))"

definition bw_status :: "bridge_world \<Rightarrow> message_id \<Rightarrow> message_status option" where
  "bw_status W m = status_of (vp_tracker (bw_prog W)) m"

definition set_tracker :: "bridge_world \<Rightarrow> message_tracker \<Rightarrow> bridge_world" where
  "set_tracker W t = W\<lparr>bw_prog := (bw_prog W)\<lparr>vp_tracker := t\<rparr>\<rparr>"

text \<open>What a slice of the request leads to: a further message with its continuation, or the end.\<close>

definition proceed :: "nat \<Rightarrow> rb_frame \<Rightarrow> rb_next \<Rightarrow> bridge_world \<Rightarrow> bridge_world" where
  "proceed j fr nx W =
     (let m = fr_msg_id fr in
      case nx of
        WaitBridge out \<Rightarrow> W\<lparr>bw_flights := (bw_flights W)(j \<mapsto>
          \<lparr>fl_msg = m, fl_kind = KBridge, fl_out = out, fl_stage = FSent, fl_hook = True,
           fl_cont = Some (CBridge fr)\<rparr>)\<rparr>
      | WaitReturn e out \<Rightarrow> W\<lparr>
          bw_flights := (bw_flights W)(j \<mapsto>
            \<lparr>fl_msg = m, fl_kind = KReturn, fl_out = out, fl_stage = FSent, fl_hook = True,
             fl_cont = Some (CReturn fr e)\<rparr>),
          bw_returning := insert m (bw_returning W),
          bw_hooked := insert m (bw_hooked W)\<rparr>
      | Completed nonce eth event \<Rightarrow> W\<lparr>bw_ok := insert m (bw_ok W)\<rparr>)"

fun resume :: "nat \<Rightarrow> send_status \<Rightarrow> send_status \<Rightarrow> bool \<Rightarrow> cont \<Rightarrow> bridge_world \<Rightarrow> bridge_world" where
  "resume j send_bridge send_return reply_ok (CDeposit fr) W =
     (case rb_after_deposit reply_ok send_bridge send_return fr (bw_prog W) of
        Panic _ \<Rightarrow> W
      | Ret (nx, p) \<Rightarrow> proceed j fr nx (W\<lparr>bw_prog := p\<rparr>))"
| "resume j send_bridge send_return reply_ok (CBridge fr) W =
     (case rb_after_bridge reply_ok send_return fr (bw_prog W) of
        Panic _ \<Rightarrow> W
      | Ret (nx, p) \<Rightarrow> proceed j fr nx (W\<lparr>bw_prog := p\<rparr>))"
| "resume j send_bridge send_return reply_ok (CReturn fr e) W = W"
| "resume j send_bridge send_return reply_ok (CHelper m) W = W"

definition run_hook :: "reply_codec \<Rightarrow> flight \<Rightarrow> bytes \<Rightarrow> message_tracker \<Rightarrow> message_tracker" where
  "run_hook C f bytes t =
     (case (if \<not> fl_hook f then Ret t
            else if fl_kind f = KBridge then bridge_reply_hook C (fl_msg f) bytes t
            else token_reply_hook C (fl_msg f) bytes t) of
        Panic _ \<Rightarrow> t | Ret t' \<Rightarrow> t')"

text \<open>The effect at the destination: a reply reports success exactly when the tokens moved.\<close>

definition execute :: "reply_codec \<Rightarrow> flight \<Rightarrow> bytes \<Rightarrow> bridge_world \<Rightarrow> bridge_world" where
  "execute C f bytes W =
     (let m = fl_msg f in
      case fl_kind f of
        KDeposit \<Rightarrow> if deposit_reply C (bw_supply W m) bytes
          then W\<lparr>bw_deposited := insert m (bw_deposited W)\<rparr> else W
      | KBridge \<Rightarrow> if bridge_response C bytes \<noteq> None
          then W\<lparr>bw_bridged := insert m (bw_bridged W)\<rparr> else W
      | KReturn \<Rightarrow> if return_reply C (bw_supply W m) bytes
          then W\<lparr>bw_refunds := (bw_refunds W)(m := Suc (bw_refunds W m))\<rparr> else W)"

definition reply_success :: "reply_codec \<Rightarrow> bridge_world \<Rightarrow> flight \<Rightarrow> bytes \<Rightarrow> bool" where
  "reply_success C W f bytes =
     (case fl_kind f of
        KDeposit \<Rightarrow> deposit_reply C (bw_supply W (fl_msg f)) bytes
      | KBridge \<Rightarrow> bridge_response C bytes \<noteq> None
      | KReturn \<Rightarrow> return_reply C (bw_supply W (fl_msg f)) bytes)"

section \<open>Steps\<close>

text \<open>
  \<open>late\<close> says whether the wait for the built-in actor may time out before its reply is delivered.
\<close>

inductive bw_step :: "reply_codec \<Rightarrow> bool \<Rightarrow> bridge_world \<Rightarrow> bridge_world \<Rightarrow> bool" for C late where
  bw_request: "rb_begin cx send (bw_prog W) token amount receiver = Ret (Inr (fr, out), p) \<Longrightarrow>
    bw_details W (cx_msg_id cx) = None \<Longrightarrow> bw_flights W i = None \<Longrightarrow>
    bw_step C late W (W\<lparr>bw_prog := p,
      bw_flights := (bw_flights W)(i \<mapsto> \<lparr>fl_msg = cx_msg_id cx, fl_kind = KDeposit, fl_out = out,
        fl_stage = FSent, fl_hook = True, fl_cont = Some (CDeposit fr)\<rparr>),
      bw_details := (bw_details W)(cx_msg_id cx \<mapsto> frame_details fr)\<rparr>)"
| bw_execute: "bw_flights W i = Some f \<Longrightarrow> fl_stage f = FSent \<Longrightarrow>
    (reply_success C W f bytes \<longrightarrow> ok) \<Longrightarrow>
    bw_step C late W ((execute C f bytes W)\<lparr>
      bw_flights := (bw_flights W)(i \<mapsto> f\<lparr>fl_stage := FDone bytes ok\<rparr>)\<rparr>)"
| bw_reply: "bw_flights W i = Some f \<Longrightarrow> fl_stage f = FDone bytes ok \<Longrightarrow>
    bw_step C late W ((set_tracker W (run_hook C f bytes (vp_tracker (bw_prog W))))\<lparr>
      bw_flights := (bw_flights W)(i \<mapsto> f\<lparr>fl_stage := FReplied ok\<rparr>)\<rparr>)"
| bw_wake: "bw_flights W i = Some f \<Longrightarrow> fl_stage f = FReplied ok \<Longrightarrow> fl_cont f = Some c \<Longrightarrow>
    bw_flights W j = None \<Longrightarrow>
    bw_step C late W (resume j send_bridge send_return ok c (W\<lparr>bw_flights := (bw_flights W)(i := None)\<rparr>))"
| bw_timeout: "bw_flights W i = Some f \<Longrightarrow> \<not> is_replied (fl_stage f) \<Longrightarrow> fl_cont f = Some c \<Longrightarrow>
    late \<or> fl_kind f \<noteq> KBridge \<Longrightarrow> bw_flights W j = None \<Longrightarrow>
    bw_step C late W (resume j send_bridge send_return False c
      (W\<lparr>bw_flights := (bw_flights W)(i \<mapsto> f\<lparr>fl_cont := None\<rparr>)\<rparr>))"
| bw_out_of_gas: "bw_flights W i = Some f \<Longrightarrow>
    bw_step C late W (W\<lparr>bw_flights := (bw_flights W)(i \<mapsto> f\<lparr>fl_cont := None\<rparr>)\<rparr>)"
| bw_recover: "ih_begin program_id send (bw_prog W) m = Ret (Begun out, p) \<Longrightarrow> bw_flights W i = None \<Longrightarrow>
    bw_step C late W (W\<lparr>bw_prog := p,
      bw_flights := (bw_flights W)(i \<mapsto> \<lparr>fl_msg = m, fl_kind = KReturn, fl_out = out,
        fl_stage = FSent, fl_hook = True, fl_cont = Some (CHelper m)\<rparr>),
      bw_returning := insert m (bw_returning W)\<rparr>)"
| bw_recover_orphan: "ih_begin program_id send (bw_prog W) m = Ret (Orphaned e out, p) \<Longrightarrow>
    bw_flights W i = None \<Longrightarrow>
    bw_step C late W (W\<lparr>bw_prog := p,
      bw_flights := (bw_flights W)(i \<mapsto> \<lparr>fl_msg = m, fl_kind = KReturn, fl_out = out,
        fl_stage = FSent, fl_hook = False, fl_cont = None\<rparr>),
      bw_returning := insert m (bw_returning W)\<rparr>)"
| bw_recover_unsent: "ih_begin program_id send (bw_prog W) m = Ret (Refused e, p) \<Longrightarrow>
    bw_step C late W (W\<lparr>bw_prog := p\<rparr>)"
| bw_critical: "m \<in> bw_hooked W \<Longrightarrow> critical_hook m (vp_tracker (bw_prog W)) = Ret t \<Longrightarrow>
    bw_step C late W (set_tracker W t)"
| bw_other: "vp_tracker p = vp_tracker (bw_prog W) \<Longrightarrow> bw_step C late W (W\<lparr>bw_prog := p\<rparr>)"

definition bw_init :: "vft_program \<Rightarrow> bridge_world" where
  "bw_init p = \<lparr>bw_prog = p, bw_flights = Map.empty, bw_details = Map.empty, bw_deposited = {},
     bw_bridged = {}, bw_refunds = (\<lambda>_. 0), bw_returning = {}, bw_ok = {}, bw_hooked = {}\<rparr>"

inductive bw_reachable :: "reply_codec \<Rightarrow> bool \<Rightarrow> bridge_world \<Rightarrow> bool" for C late where
  bw_start: "vp_tracker p = tracker_init \<Longrightarrow> bw_reachable C late (bw_init p)"
| bw_next: "bw_reachable C late W \<Longrightarrow> bw_step C late W W' \<Longrightarrow> bw_reachable C late W'"

section \<open>The slices on worlds\<close>

definition bw_tracked :: "bridge_world \<Rightarrow> message_id \<Rightarrow> tx_details option" where
  "bw_tracked W m = map_option mi_details (vp_tracker (bw_prog W) m)"

definition bw_mark :: "bridge_world \<Rightarrow> message_id \<Rightarrow> message_status \<Rightarrow> bridge_world" where
  "bw_mark W m s = set_tracker W (update_message_status (vp_tracker (bw_prog W)) m s)"

definition bw_forget :: "bridge_world \<Rightarrow> message_id \<Rightarrow> bridge_world" where
  "bw_forget W m = set_tracker W (snd (remove_message_info (vp_tracker (bw_prog W)) m))"

lemma bw_mark_simps [simp]:
  "bw_status (bw_mark W m s) m' = (if m' = m \<and> bw_status W m \<noteq> None then Some s else bw_status W m')"
  "bw_tracked (bw_mark W m s) m' = bw_tracked W m'"
  "bw_flights (bw_mark W m s) = bw_flights W" "bw_details (bw_mark W m s) = bw_details W"
  "bw_deposited (bw_mark W m s) = bw_deposited W" "bw_bridged (bw_mark W m s) = bw_bridged W"
  "bw_refunds (bw_mark W m s) = bw_refunds W" "bw_returning (bw_mark W m s) = bw_returning W"
  "bw_ok (bw_mark W m s) = bw_ok W" "bw_hooked (bw_mark W m s) = bw_hooked W"
  by (auto simp: bw_mark_def set_tracker_def bw_status_def bw_tracked_def update_message_status_def
      status_of_def split: option.splits)

lemma bw_forget_simps [simp]:
  "bw_status (bw_forget W m) m' = (if m' = m then None else bw_status W m')"
  "bw_tracked (bw_forget W m) m' = (if m' = m then None else bw_tracked W m')"
  "bw_flights (bw_forget W m) = bw_flights W" "bw_details (bw_forget W m) = bw_details W"
  "bw_deposited (bw_forget W m) = bw_deposited W" "bw_bridged (bw_forget W m) = bw_bridged W"
  "bw_refunds (bw_forget W m) = bw_refunds W" "bw_returning (bw_forget W m) = bw_returning W"
  "bw_ok (bw_forget W m) = bw_ok W" "bw_hooked (bw_forget W m) = bw_hooked W"
  by (auto simp: bw_forget_def set_tracker_def bw_status_def bw_tracked_def remove_message_info_def
      status_of_def)

lemma bw_update_simps [simp]:
  "bw_status (W\<lparr>bw_flights := F\<rparr>) m = bw_status W m" "bw_tracked (W\<lparr>bw_flights := F\<rparr>) m = bw_tracked W m"
  "bw_status (W\<lparr>bw_details := D\<rparr>) m = bw_status W m" "bw_tracked (W\<lparr>bw_details := D\<rparr>) m = bw_tracked W m"
  "bw_status (W\<lparr>bw_deposited := M\<rparr>) m = bw_status W m" "bw_tracked (W\<lparr>bw_deposited := M\<rparr>) m = bw_tracked W m"
  "bw_status (W\<lparr>bw_bridged := M\<rparr>) m = bw_status W m" "bw_tracked (W\<lparr>bw_bridged := M\<rparr>) m = bw_tracked W m"
  "bw_status (W\<lparr>bw_refunds := N\<rparr>) m = bw_status W m" "bw_tracked (W\<lparr>bw_refunds := N\<rparr>) m = bw_tracked W m"
  "bw_status (W\<lparr>bw_returning := M\<rparr>) m = bw_status W m" "bw_tracked (W\<lparr>bw_returning := M\<rparr>) m = bw_tracked W m"
  "bw_status (W\<lparr>bw_ok := M\<rparr>) m = bw_status W m" "bw_tracked (W\<lparr>bw_ok := M\<rparr>) m = bw_tracked W m"
  "bw_status (W\<lparr>bw_hooked := M\<rparr>) m = bw_status W m" "bw_tracked (W\<lparr>bw_hooked := M\<rparr>) m = bw_tracked W m"
  by (simp_all add: bw_status_def bw_tracked_def)

lemma fetch_deposit_Inr_iff:
  "fetch_deposit_result t m = Inr u \<longleftrightarrow> status_of t m = Some (TokenDepositCompleted True)"
  by (auto simp: fetch_deposit_result_def status_of_def split: option.splits message_status.splits bool.splits)

lemma rb_begin_Ret:
  assumes "rb_begin cx send p token amount receiver = Ret (Inr (fr, out), p')"
  shows "fr_msg_id fr = cx_msg_id cx"
    "p' = p\<lparr>vp_tracker := insert_message_info (vp_tracker p) (cx_msg_id cx)
       SendingMessageToDepositTokens (frame_details fr)\<rparr>"
    "out = deposit_message (vp_config p) fr"
  using assms
  by (auto simp: rb_begin_def frame_details_def Let_def split: sum.splits if_splits send_outcome.splits)

lemma resume_deposit_cases:
  obtains (dead) "resume j sb sr ok (CDeposit fr) W = W"
  | (bridge) out where "ok" "bw_status W (fr_msg_id fr) = Some (TokenDepositCompleted True)"
      "resume j sb sr ok (CDeposit fr) W
         = proceed j fr (WaitBridge out) (bw_mark W (fr_msg_id fr) SendingMessageToBridgeBuiltin)"
  | (return) e out where "ok" "bw_status W (fr_msg_id fr) = Some (TokenDepositCompleted True)"
      "resume j sb sr ok (CDeposit fr) W
         = proceed j fr (WaitReturn e out) (bw_mark W (fr_msg_id fr) SendingMessageToReturnTokens)"
proof (cases "rb_after_deposit ok sb sr fr (bw_prog W)")
  case (Panic m)
  then show ?thesis by (intro dead) simp
next
  case (Ret r)
  have twice: "update_message_status (update_message_status t m s) m s' = update_message_status t m s'"
    for t m s s' by (auto simp: update_message_status_def fun_eq_iff split: option.splits)
  from Ret have ok: "ok" "bw_status W (fr_msg_id fr) = Some (TokenDepositCompleted True)"
    by (auto simp: rb_after_deposit_def bw_status_def fetch_deposit_Inr_iff split: if_splits sum.splits)
  let ?config = "vp_config (bw_prog W)"
  show ?thesis
  proof (cases "send_for_reply ?config sb")
    case Awaiting
    with Ret ok(1) show ?thesis
      by (intro bridge [OF ok]) (auto simp: rb_after_deposit_def bw_mark_def set_tracker_def Let_def
          split: sum.splits)
  next
    case (NotSent e)
    with Ret ok(1) show ?thesis
      by (intro return [OF ok]) (auto simp: rb_after_deposit_def rb_refund_def bw_mark_def
          set_tracker_def Let_def twice split: sum.splits send_outcome.splits)
  next
    case (SentUnawaited e)
    then have "send_for_reply ?config sr \<noteq> Awaiting"
      by (auto simp: send_for_reply_Awaiting_iff dest: send_for_reply_Unawaited)
    with Ret ok(1) SentUnawaited show ?thesis
      by (auto simp: rb_after_deposit_def rb_refund_def Let_def split: sum.splits send_outcome.splits)
  qed
qed

lemma resume_bridge_cases:
  obtains (dead) "resume j sb sr ok (CBridge fr) W = W"
  | (done_) nonce eth event where "ok" "bw_status W (fr_msg_id fr) = Some (BridgeResponseReceived (Some nonce))"
      "resume j sb sr ok (CBridge fr) W = proceed j fr (Completed nonce eth event) (bw_forget W (fr_msg_id fr))"
  | (return) e out where
      "\<not> (ok \<and> (\<exists>nonce. bw_status W (fr_msg_id fr) = Some (BridgeResponseReceived (Some nonce))))"
      "resume j sb sr ok (CBridge fr) W
         = proceed j fr (WaitReturn e out) (bw_mark W (fr_msg_id fr) SendingMessageToReturnTokens)"
proof -
  let ?t = "vp_tracker (bw_prog W)" and ?m = "fr_msg_id fr"
  show ?thesis
  proof (cases "ok \<and> (\<exists>nonce. bw_status W ?m = Some (BridgeResponseReceived (Some nonce)))")
    case True
    then obtain nonce where st: "ok" "bw_status W ?m = Some (BridgeResponseReceived (Some nonce))" by blast
    then have "bridge_result ok ?t ?m = (Inr nonce, snd (remove_message_info ?t ?m))"
      by (auto simp: bridge_result_def get_message_info_def bw_status_def status_of_def)
    then show ?thesis
      by (intro done_ [OF st]) (simp add: rb_after_bridge_def bw_forget_def set_tracker_def)
  next
    case False
    then have "\<exists>e. bridge_result ok ?t ?m = (Inl e, ?t)"
      by (auto simp: bridge_result_def get_message_info_def bw_status_def status_of_def
          split: option.splits message_status.splits)
    then obtain e where res: "bridge_result ok ?t ?m = (Inl e, ?t)" by blast
    show ?thesis
    proof (cases "send_for_reply (vp_config (bw_prog W)) sr = Awaiting")
      case True
      with res show ?thesis
        by (intro return [OF False]) (simp add: rb_after_bridge_def rb_refund_def bw_mark_def set_tracker_def)
    next
      case False
      with res show ?thesis
        by (intro dead) (simp add: rb_after_bridge_def rb_refund_def Let_def split: send_outcome.splits)
    qed
  qed
qed

lemma ih_begin_cases:
  assumes "ih_begin program_id send (bw_prog W) m = Ret (r, p)"
  obtains (refused) "p = bw_prog W" "begun_message r = None"
  | (resend) "bw_status W m \<in> {Some (TokenDepositCompleted True), Some (BridgeResponseReceived None),
        Some (TokensReturnComplete False), Some SendingMessageToReturnTokens}"
      "W\<lparr>bw_prog := p\<rparr> = bw_mark W m SendingMessageToReturnTokens"
proof -
  have id: "update_message_status t m' s = t" if "status_of t m' = Some s" for t m' s
    using that by (auto simp: update_message_status_def status_of_def fun_eq_iff)
  show ?thesis
    using assms
    by (auto simp: ih_begin_def get_message_info_def bw_status_def status_of_def bw_mark_def
        set_tracker_def Let_def id split: sum.splits option.splits message_status.splits
        bool.splits intro: refused resend)
qed

lemma run_hook_mark:
  "set_tracker W (run_hook C f bytes (vp_tracker (bw_prog W))) =
     (if \<not> fl_hook f then W
      else if fl_kind f = KBridge
      then if bw_status W (fl_msg f) = Some SendingMessageToBridgeBuiltin
        then bw_mark W (fl_msg f) (BridgeResponseReceived (bridge_response C bytes)) else W
      else if bw_status W (fl_msg f) = Some SendingMessageToDepositTokens
        then bw_mark W (fl_msg f) (TokenDepositCompleted
          (deposit_reply C (td_token_supply (the (bw_tracked W (fl_msg f)))) bytes))
      else if bw_status W (fl_msg f) = Some SendingMessageToReturnTokens
        then bw_mark W (fl_msg f) (TokensReturnComplete
          (return_reply C (td_token_supply (the (bw_tracked W (fl_msg f)))) bytes))
      else W)"
proof -
  have same: "set_tracker W (vp_tracker (bw_prog W)) = W" by (simp add: set_tracker_def)
  have dec: "(case decode_bridge_reply C bytes of Inl _ \<Rightarrow> None | Inr r \<Rightarrow> r) = bridge_response C bytes"
    by (simp add: decode_bridge_reply_def split: option.splits)
  show ?thesis
    by (cases "vp_tracker (bw_prog W) (fl_msg f)")
      (auto simp: run_hook_def bridge_reply_hook_def token_reply_hook_def get_message_info_def
        bw_status_def status_of_def bw_tracked_def bw_mark_def same dec Let_def
        split: message_status.splits)
qed

section \<open>The invariant\<close>

text \<open>What a world says about one message.\<close>

record mview =
  mv_status :: "message_status option"
  mv_tracked :: "tx_details option"
  mv_details :: "tx_details option"
  mv_dep :: bool
  mv_bri :: bool
  mv_ret :: bool
  mv_hk :: bool
  mv_ok :: bool
  mv_refunds :: nat

definition view :: "bridge_world \<Rightarrow> message_id \<Rightarrow> mview" where
  "view W m = \<lparr>mv_status = bw_status W m, mv_tracked = bw_tracked W m, mv_details = bw_details W m,
     mv_dep = (m \<in> bw_deposited W), mv_bri = (m \<in> bw_bridged W), mv_ret = (m \<in> bw_returning W),
     mv_hk = (m \<in> bw_hooked W), mv_ok = (m \<in> bw_ok W), mv_refunds = bw_refunds W m\<rparr>"

definition early :: "message_status option \<Rightarrow> bool" where
  "early st \<longleftrightarrow> st = Some SendingMessageToDepositTokens \<or> (\<exists>b. st = Some (TokenDepositCompleted b))"

definition retphase :: "message_status option \<Rightarrow> bool" where
  "retphase st \<longleftrightarrow> st = Some SendingMessageToReturnTokens \<or> (\<exists>b. st = Some (TokensReturnComplete b))"

lemma phases [simp]:
  "early (Some SendingMessageToDepositTokens)" "early (Some (TokenDepositCompleted b))"
  "\<not> early None" "\<not> early (Some SendingMessageToBridgeBuiltin)"
  "\<not> early (Some (BridgeResponseReceived r))" "\<not> early (Some SendingMessageToReturnTokens)"
  "\<not> early (Some (TokensReturnComplete b))"
  "retphase (Some SendingMessageToReturnTokens)" "retphase (Some (TokensReturnComplete b))"
  "\<not> retphase None" "\<not> retphase (Some SendingMessageToDepositTokens)"
  "\<not> retphase (Some (TokenDepositCompleted b))" "\<not> retphase (Some SendingMessageToBridgeBuiltin)"
  "\<not> retphase (Some (BridgeResponseReceived r))"
  by (auto simp: early_def retphase_def)

definition msg_ok :: "bool \<Rightarrow> mview \<Rightarrow> bool" where
  "msg_ok late v \<longleftrightarrow>
     (mv_details v = None \<longrightarrow> mv_status v = None \<and> \<not> mv_dep v \<and> \<not> mv_bri v \<and> \<not> mv_ret v \<and> \<not> mv_ok v)
     \<and> (mv_status v \<noteq> None \<longrightarrow> mv_tracked v = mv_details v)
     \<and> (mv_details v \<noteq> None \<and> \<not> mv_ok v \<longrightarrow> mv_status v \<noteq> None)
     \<and> (early (mv_status v) \<longrightarrow> \<not> mv_bri v \<and> \<not> mv_ret v)
     \<and> (mv_status v \<notin> {None, Some SendingMessageToDepositTokens, Some (TokenDepositCompleted False)} \<longrightarrow> mv_dep v)
     \<and> (mv_ret v \<longrightarrow> retphase (mv_status v))
     \<and> (mv_hk v \<longrightarrow> mv_ret v)
     \<and> (0 < mv_refunds v \<longrightarrow> mv_ret v)
     \<and> (mv_ok v \<longrightarrow> mv_status v = None \<and> mv_bri v)
     \<and> (mv_bri v \<longrightarrow> mv_dep v)
     \<and> (\<forall>n. mv_status v = Some (BridgeResponseReceived (Some n)) \<longrightarrow> mv_bri v)
     \<and> (mv_status v = Some (TokensReturnComplete True) \<longrightarrow> 0 < mv_refunds v)
     \<and> (\<not> late \<and> mv_bri v \<longrightarrow>
          \<not> retphase (mv_status v) \<and> mv_status v \<noteq> Some (BridgeResponseReceived None))"

lemma msg_ok_deposit_reply:
  "msg_ok late v \<Longrightarrow> mv_status v = Some SendingMessageToDepositTokens \<Longrightarrow> (b \<Longrightarrow> mv_dep v) \<Longrightarrow>
   msg_ok late (v\<lparr>mv_status := Some (TokenDepositCompleted b)\<rparr>)"
  by (cases b) (auto simp: msg_ok_def)

lemma msg_ok_bridge_reply:
  "msg_ok late v \<Longrightarrow> mv_status v = Some SendingMessageToBridgeBuiltin \<Longrightarrow>
   (r \<noteq> None \<Longrightarrow> mv_bri v) \<Longrightarrow> (\<not> late \<Longrightarrow> mv_bri v \<Longrightarrow> r \<noteq> None) \<Longrightarrow>
   msg_ok late (v\<lparr>mv_status := Some (BridgeResponseReceived r)\<rparr>)"
  by (cases r) (auto simp: msg_ok_def)

lemma msg_ok_return_reply:
  "msg_ok late v \<Longrightarrow> mv_status v = Some SendingMessageToReturnTokens \<Longrightarrow> (b \<Longrightarrow> 0 < mv_refunds v) \<Longrightarrow>
   msg_ok late (v\<lparr>mv_status := Some (TokensReturnComplete b)\<rparr>)"
  by (cases b) (auto simp: msg_ok_def)

lemma msg_ok_to_bridge:
  "msg_ok late v \<Longrightarrow> mv_status v = Some (TokenDepositCompleted True) \<Longrightarrow>
   msg_ok late (v\<lparr>mv_status := Some SendingMessageToBridgeBuiltin\<rparr>)"
  by (auto simp: msg_ok_def)

lemma msg_ok_to_return:
  assumes "msg_ok late v" and "mv_status v \<noteq> None" and "mv_dep v" and "\<not> late \<Longrightarrow> \<not> mv_bri v"
  shows "msg_ok late (v\<lparr>mv_status := Some SendingMessageToReturnTokens\<rparr>)"
    "msg_ok late (v\<lparr>mv_status := Some SendingMessageToReturnTokens, mv_ret := True\<rparr>)"
    "msg_ok late (v\<lparr>mv_status := Some SendingMessageToReturnTokens, mv_ret := True, mv_hk := True\<rparr>)"
  using assms by (auto simp: msg_ok_def)

lemma msg_ok_completed:
  "msg_ok late v \<Longrightarrow> mv_status v = Some (BridgeResponseReceived (Some n)) \<Longrightarrow>
   msg_ok late (v\<lparr>mv_status := None, mv_tracked := None, mv_ok := True\<rparr>)"
  by (auto simp: msg_ok_def)

definition main_cont :: "flight \<Rightarrow> bool" where
  "main_cont f \<longleftrightarrow> (case fl_cont f of None \<Rightarrow> False | Some (CHelper _) \<Rightarrow> False | Some _ \<Rightarrow> True)"

definition cont_ok :: "flight \<Rightarrow> bool" where
  "cont_ok f \<longleftrightarrow> (\<not> fl_hook f \<longrightarrow> fl_kind f = KReturn) \<and>
     (case fl_cont f of
        None \<Rightarrow> True
      | Some (CDeposit fr) \<Rightarrow> fl_kind f = KDeposit \<and> fr_msg_id fr = fl_msg f
      | Some (CBridge fr) \<Rightarrow> fl_kind f = KBridge \<and> fr_msg_id fr = fl_msg f
      | Some (CReturn fr _) \<Rightarrow> fl_kind f = KReturn \<and> fr_msg_id fr = fl_msg f
      | Some (CHelper m) \<Rightarrow> fl_kind f = KReturn \<and> m = fl_msg f)"

lemma cont_stage [simp]:
  "cont_ok (f\<lparr>fl_stage := s\<rparr>) = cont_ok f" "main_cont (f\<lparr>fl_stage := s\<rparr>) = main_cont f"
  "cont_ok (f\<lparr>fl_cont := None\<rparr>) \<longleftrightarrow> (\<not> fl_hook f \<longrightarrow> fl_kind f = KReturn)"
  "\<not> main_cont (f\<lparr>fl_cont := None\<rparr>)"
  by (simp_all add: cont_ok_def main_cont_def split: option.splits cont.splits)

definition flight_ok :: "reply_codec \<Rightarrow> bool \<Rightarrow> mview \<Rightarrow> flight \<Rightarrow> bool" where
  "flight_ok C late v f \<longleftrightarrow>
     mv_details v \<noteq> None \<and> cont_ok f \<and> (main_cont f \<longrightarrow> \<not> mv_ok v)
     \<and> (case fl_kind f of
          KDeposit \<Rightarrow>
            (\<not> is_replied (fl_stage f) \<longrightarrow> mv_status v = Some SendingMessageToDepositTokens)
            \<and> (\<forall>b ok. fl_stage f = FDone b ok \<and> deposit_reply C (td_token_supply (the (mv_details v))) b
                 \<longrightarrow> mv_dep v)
        | KBridge \<Rightarrow> mv_dep v \<and> \<not> early (mv_status v)
            \<and> (\<forall>b ok. fl_stage f = FDone b ok \<and> bridge_response C b \<noteq> None \<longrightarrow> mv_bri v)
            \<and> (\<not> late \<longrightarrow>
                (fl_stage f = FSent \<longrightarrow> mv_status v = Some SendingMessageToBridgeBuiltin \<and> \<not> mv_bri v)
                \<and> (\<forall>b ok. fl_stage f = FDone b ok \<longrightarrow>
                     mv_status v = Some SendingMessageToBridgeBuiltin
                     \<and> (mv_bri v \<longrightarrow> bridge_response C b \<noteq> None))
                \<and> (mv_bri v \<longrightarrow> (\<forall>b. fl_stage f \<noteq> FDone b False))
                \<and> (mv_bri v \<and> \<not> mv_ok v \<longrightarrow> fl_stage f \<noteq> FReplied False
                     \<and> (fl_stage f = FReplied True \<longrightarrow>
                          (\<exists>n. mv_status v = Some (BridgeResponseReceived (Some n))))))
        | KReturn \<Rightarrow> mv_ret v
            \<and> (\<forall>b ok. fl_stage f = FDone b ok \<and> return_reply C (td_token_supply (the (mv_details v))) b
                 \<longrightarrow> 0 < mv_refunds v))"

lemma flight_ok_grow:
  "flight_ok C late v g \<Longrightarrow> flight_ok C late (v\<lparr>mv_dep := True\<rparr>) g"
  "flight_ok C late v g \<Longrightarrow> flight_ok C late (v\<lparr>mv_refunds := Suc n\<rparr>) g"
  "flight_ok C late v g \<Longrightarrow> flight_ok C late (v\<lparr>mv_hk := True\<rparr>) g"
  "flight_ok C late v g \<Longrightarrow> flight_ok C late (v\<lparr>mv_ret := True\<rparr>) g"
  "flight_ok C late v g \<Longrightarrow> fl_kind g \<noteq> KBridge \<Longrightarrow> flight_ok C late (v\<lparr>mv_bri := True\<rparr>) g"
  by (cases "fl_kind g"; simp add: flight_ok_def)+

lemma flight_ok_drop: "flight_ok C late v f \<Longrightarrow> flight_ok C late v (f\<lparr>fl_cont := None\<rparr>)"
  by (cases "fl_kind f"; simp add: flight_ok_def) (auto simp: cont_ok_def)

lemma flight_ok_status:
  assumes "flight_ok C late v g" and "mv_status v = Some s0"
    and "fl_kind g = KDeposit \<Longrightarrow> s0 \<noteq> SendingMessageToDepositTokens"
    and "fl_kind g = KBridge \<Longrightarrow> \<not> early (Some s0) \<Longrightarrow> \<not> early (Some s1) \<and>
      (late \<or> s0 \<noteq> SendingMessageToBridgeBuiltin \<and> (\<forall>n. s0 \<noteq> BridgeResponseReceived (Some n)))"
  shows "flight_ok C late (v\<lparr>mv_status := Some s1\<rparr>) g"
proof (cases "fl_kind g")
  case KDeposit
  with assms show ?thesis by (auto simp: flight_ok_def)
next
  case KBridge
  with assms(1,2) have "\<not> early (Some s0)" by (simp add: flight_ok_def)
  with assms KBridge show ?thesis by (cases late) (auto simp: flight_ok_def)
next
  case KReturn
  with assms(1) show ?thesis by (simp add: flight_ok_def)
qed

lemma flight_ok_replied:
  assumes "flight_ok C late v f" and "fl_stage f = FDone b ok" and "fl_kind f \<noteq> KBridge"
  shows "flight_ok C late (v\<lparr>mv_status := s\<rparr>) (f\<lparr>fl_stage := FReplied ok\<rparr>)"
  using assms by (cases "fl_kind f") (simp_all add: flight_ok_def)

definition conflict :: "flight \<Rightarrow> flight \<Rightarrow> bool" where
  "conflict f g \<longleftrightarrow> fl_msg f = fl_msg g
     \<and> (main_cont f \<and> main_cont g \<or> fl_kind f = fl_kind g \<and> fl_kind f \<noteq> KReturn)"

definition pair_ok :: "(nat \<rightharpoonup> flight) \<Rightarrow> bool" where
  "pair_ok F \<longleftrightarrow> (\<forall>i j f g. F i = Some f \<longrightarrow> F j = Some g \<longrightarrow> conflict f g \<longrightarrow> i = j)"

definition bw_inv :: "reply_codec \<Rightarrow> bool \<Rightarrow> bridge_world \<Rightarrow> bool" where
  "bw_inv C late W \<longleftrightarrow>
     (\<forall>m. msg_ok late (view W m))
     \<and> (\<forall>i f. bw_flights W i = Some f \<longrightarrow> flight_ok C late (view W (fl_msg f)) f)
     \<and> pair_ok (bw_flights W)"

lemma bw_invD:
  assumes "bw_inv C late W"
  shows "msg_ok late (view W m)" "bw_flights W i = Some f \<Longrightarrow> flight_ok C late (view W (fl_msg f)) f"
    "pair_ok (bw_flights W)"
  using assms by (auto simp: bw_inv_def)

lemma pair_okD: "pair_ok F \<Longrightarrow> F i = Some f \<Longrightarrow> F j = Some g \<Longrightarrow> conflict f g \<Longrightarrow> i = j"
  unfolding pair_ok_def by blast

lemma pair_ok_update:
  assumes "pair_ok F" and "F i = Some f" and "fl_msg f' = fl_msg f" and "fl_kind f' = fl_kind f"
    and "main_cont f' \<Longrightarrow> main_cont f"
  shows "pair_ok (F(i \<mapsto> f'))"
  unfolding pair_ok_def
proof (intro allI impI)
  fix a b g h
  assume ab: "(F(i \<mapsto> f')) a = Some g" "(F(i \<mapsto> f')) b = Some h" "conflict g h"
  show "a = b"
    by (rule pair_okD [OF assms(1), of a "if a = i then f else g" b "if b = i then f else h"])
      (use ab assms(2-5) in \<open>auto simp: conflict_def split: if_splits\<close>)
qed

lemma pair_ok_delete: "pair_ok F \<Longrightarrow> pair_ok (F(i := None))"
  by (auto simp: pair_ok_def split: if_splits)

lemma pair_ok_new:
  assumes "pair_ok F" and "\<And>i g. F i = Some g \<Longrightarrow> i \<noteq> j \<Longrightarrow> \<not> conflict f g"
  shows "pair_ok (F(j \<mapsto> f))"
proof -
  have sym: "conflict g f = conflict f g" for g by (auto simp: conflict_def)
  show ?thesis
    using assms(2) pair_okD [OF assms(1)] unfolding pair_ok_def
    by (auto simp: sym split: if_splits)
qed

text \<open>A step that concerns one message.\<close>

lemma bw_inv_local:
  assumes inv: "bw_inv C late W"
    and other: "\<And>m'. m' \<noteq> m \<Longrightarrow> view W' m' = view W m'"
    and flights: "\<And>i f. bw_flights W' i = Some f \<Longrightarrow> fl_msg f \<noteq> m \<Longrightarrow> bw_flights W i = Some f"
    and msg: "msg_ok late (view W' m)"
    and fl: "\<And>i f. bw_flights W' i = Some f \<Longrightarrow> fl_msg f = m \<Longrightarrow> flight_ok C late (view W' m) f"
    and pair: "pair_ok (bw_flights W')"
  shows "bw_inv C late W'"
  unfolding bw_inv_def
proof (intro conjI allI impI)
  show "msg_ok late (view W' m')" for m'
    by (cases "m' = m") (use msg other bw_invD(1) [OF inv] in auto)
  show "flight_ok C late (view W' (fl_msg f)) f" if "bw_flights W' i = Some f" for i f
  proof (cases "fl_msg f = m")
    case True
    with fl that show ?thesis by simp
  next
    case False
    with bw_invD(2) [OF inv flights [OF that]] other show ?thesis by simp
  qed
  show "pair_ok (bw_flights W')" by (rule pair)
qed

lemma view_flights [simp]: "view (W\<lparr>bw_flights := F\<rparr>) m = view W m"
  by (simp add: view_def)

lemma view_mark [simp]:
  "view (bw_mark W m s) m' = (if m' = m \<and> bw_status W m \<noteq> None
     then (view W m')\<lparr>mv_status := Some s\<rparr> else view W m')"
  by (simp add: view_def)

lemma view_forget [simp]:
  "view (bw_forget W m) m' = (if m' = m then (view W m')\<lparr>mv_status := None, mv_tracked := None\<rparr>
     else view W m')"
  by (simp add: view_def)

lemma view_sets [simp]:
  "view (W\<lparr>bw_deposited := insert m (bw_deposited W)\<rparr>) m' =
     (if m' = m then (view W m')\<lparr>mv_dep := True\<rparr> else view W m')"
  "view (W\<lparr>bw_bridged := insert m (bw_bridged W)\<rparr>) m' =
     (if m' = m then (view W m')\<lparr>mv_bri := True\<rparr> else view W m')"
  "view (W\<lparr>bw_returning := insert m (bw_returning W)\<rparr>) m' =
     (if m' = m then (view W m')\<lparr>mv_ret := True\<rparr> else view W m')"
  "view (W\<lparr>bw_hooked := insert m (bw_hooked W)\<rparr>) m' =
     (if m' = m then (view W m')\<lparr>mv_hk := True\<rparr> else view W m')"
  "view (W\<lparr>bw_ok := insert m (bw_ok W)\<rparr>) m' =
     (if m' = m then (view W m')\<lparr>mv_ok := True\<rparr> else view W m')"
  "view (W\<lparr>bw_refunds := (bw_refunds W)(m := Suc (bw_refunds W m))\<rparr>) m' =
     (if m' = m then (view W m')\<lparr>mv_refunds := Suc (bw_refunds W m)\<rparr> else view W m')"
  by (simp_all add: view_def)

lemma view_proj [simp]: "mv_status (view W m) = bw_status W m" "mv_refunds (view W m) = bw_refunds W m"
  by (simp_all add: view_def)

section \<open>Preservation\<close>

lemma step_out_of_gas:
  assumes inv: "bw_inv C late W" and f: "bw_flights W i = Some f"
  shows "bw_inv C late (W\<lparr>bw_flights := (bw_flights W)(i \<mapsto> f\<lparr>fl_cont := None\<rparr>)\<rparr>)"
proof (rule bw_inv_local [OF inv, of "fl_msg f"])
  show "pair_ok (bw_flights (W\<lparr>bw_flights := (bw_flights W)(i \<mapsto> f\<lparr>fl_cont := None\<rparr>)\<rparr>))"
    using pair_ok_update [OF bw_invD(3) [OF inv] f, of "f\<lparr>fl_cont := None\<rparr>"] by (simp add: main_cont_def)
  show "flight_ok C late (view (W\<lparr>bw_flights := (bw_flights W)(i \<mapsto> f\<lparr>fl_cont := None\<rparr>)\<rparr>) (fl_msg f)) g"
    if "bw_flights (W\<lparr>bw_flights := (bw_flights W)(i \<mapsto> f\<lparr>fl_cont := None\<rparr>)\<rparr>) k = Some g"
      "fl_msg g = fl_msg f" for k g
    using that flight_ok_drop [OF bw_invD(2) [OF inv f]] bw_invD(2) [OF inv, of k g]
    by (auto split: if_splits)
qed (use bw_invD(1) [OF inv] in \<open>auto split: if_splits\<close>)

lemma step_request:
  assumes inv: "bw_inv C late W"
    and run: "rb_begin cx send (bw_prog W) token amount receiver = Ret (Inr (fr, out), p)"
    and fresh: "bw_details W (cx_msg_id cx) = None"
  shows "bw_inv C late (W\<lparr>bw_prog := p,
      bw_flights := (bw_flights W)(i \<mapsto> \<lparr>fl_msg = cx_msg_id cx, fl_kind = KDeposit, fl_out = out,
        fl_stage = FSent, fl_hook = True, fl_cont = Some (CDeposit fr)\<rparr>),
      bw_details := (bw_details W)(cx_msg_id cx \<mapsto> frame_details fr)\<rparr>)" (is "bw_inv C late ?W")
proof (rule bw_inv_local [OF inv, of "cx_msg_id cx"])
  let ?m = "cx_msg_id cx"
  note rb = rb_begin_Ret [OF run]
  have noflight: "fl_msg g \<noteq> ?m" if "bw_flights W k = Some g" for k g
    using bw_invD(2) [OF inv that] fresh by (auto simp: flight_ok_def view_def)
  have st: "bw_status ?W m' = (if m' = ?m then Some SendingMessageToDepositTokens else bw_status W m')"
    "bw_tracked ?W m' = (if m' = ?m then Some (frame_details fr) else bw_tracked W m')" for m'
    by (simp_all add: bw_status_def bw_tracked_def rb(2) insert_message_info_def status_of_def)
  have old: "msg_ok late (view W ?m)" by (rule bw_invD(1) [OF inv])
  show "view ?W m' = view W m'" if "m' \<noteq> ?m" for m'
    using that st [of m'] by (simp add: view_def)
  show "bw_flights W k = Some g" if "bw_flights ?W k = Some g" "fl_msg g \<noteq> ?m" for k g
    using that by (auto split: if_splits)
  show "msg_ok late (view ?W ?m)"
    using old fresh st [of ?m] by (auto simp: msg_ok_def view_def)
  show "flight_ok C late (view ?W ?m) g" if "bw_flights ?W k = Some g" "fl_msg g = ?m" for k g
    using that noflight st [of ?m] old fresh rb(1)
    by (auto simp: flight_ok_def view_def cont_ok_def msg_ok_def split: if_splits)
  show "pair_ok (bw_flights ?W)"
    using noflight by (simp, intro pair_ok_new [OF bw_invD(3) [OF inv]]) (metis conflict_def flight.select_convs(1))
qed

lemma step_execute:
  assumes inv: "bw_inv C late W" and f: "bw_flights W i = Some f" "fl_stage f = FSent"
    and ok: "reply_success C W f bytes \<longrightarrow> ok"
  shows "bw_inv C late ((execute C f bytes W)\<lparr>
      bw_flights := (bw_flights W)(i \<mapsto> f\<lparr>fl_stage := FDone bytes ok\<rparr>)\<rparr>)" (is "bw_inv C late ?W")
proof (rule bw_inv_local [OF inv, of "fl_msg f"])
  let ?m = "fl_msg f"
  note old = bw_invD(1) [OF inv, of ?m] bw_invD(2) [OF inv f(1)]
  have sup: "bw_supply W ?m = td_token_supply (the (mv_details (view W ?m)))"
    by (simp add: bw_supply_def view_def)
  show "view ?W m' = view W m'" if "m' \<noteq> ?m" for m'
    using that by (simp add: execute_def Let_def split: msg_kind.splits)
  show "bw_flights W k = Some g" if "bw_flights ?W k = Some g" "fl_msg g \<noteq> ?m" for k g
    using that by (auto split: if_splits)
  show "msg_ok late (view ?W ?m)"
    using old f(2) by (auto simp: execute_def Let_def msg_ok_def flight_ok_def split: msg_kind.splits)
  show "flight_ok C late (view ?W ?m) g" if g: "bw_flights ?W k = Some g" "fl_msg g = ?m" for k g
  proof (cases "k = i")
    case True
    with g have g: "g = f\<lparr>fl_stage := FDone bytes ok\<rparr>" by simp
    show ?thesis
      by (cases "fl_kind f") (use g old(2) f(2) ok sup in
        \<open>simp_all add: execute_def flight_ok_def reply_success_def Let_def\<close>)
  next
    case False
    with g have gk: "bw_flights W k = Some g" by simp
    have "\<not> (fl_kind f = KBridge \<and> fl_kind g = KBridge)"
      using pair_okD [OF bw_invD(3) [OF inv] f(1) gk] False g(2) by (auto simp: conflict_def)
    moreover have "flight_ok C late (view W ?m) g" using bw_invD(2) [OF inv gk] g(2) by simp
    ultimately show ?thesis
      by (cases "fl_kind f") (simp_all add: execute_def Let_def flight_ok_grow)
  qed
  show "pair_ok (bw_flights ?W)"
    using pair_ok_update [OF bw_invD(3) [OF inv] f(1), of "f\<lparr>fl_stage := FDone bytes ok\<rparr>"]
    by (simp add: main_cont_def)
qed

lemma step_reply:
  assumes inv: "bw_inv C late W" and f: "bw_flights W i = Some f" "fl_stage f = FDone bytes ok"
  shows "bw_inv C late ((set_tracker W (run_hook C f bytes (vp_tracker (bw_prog W))))\<lparr>
      bw_flights := (bw_flights W)(i \<mapsto> f\<lparr>fl_stage := FReplied ok\<rparr>)\<rparr>)" (is "bw_inv C late (?U\<lparr>bw_flights := ?F\<rparr>)")
proof (rule bw_inv_local [OF inv, of "fl_msg f"])
  let ?m = "fl_msg f" and ?v = "view W (fl_msg f)"
  note old = bw_invD(1) [OF inv, of ?m] bw_invD(2) [OF inv f(1)]
  have trk: "bw_status W ?m \<noteq> None \<Longrightarrow> bw_tracked W ?m = mv_details ?v"
    using old(1) by (simp add: msg_ok_def view_def)
  have dep: "fl_kind f = KDeposit \<Longrightarrow> bw_status W ?m = Some SendingMessageToDepositTokens"
    using old(2) f(2) by (simp add: flight_ok_def)
  have ret: "bw_status W ?m = Some SendingMessageToDepositTokens \<Longrightarrow> fl_kind f \<noteq> KReturn"
    using old by (auto simp: flight_ok_def msg_ok_def)
  show "view (?U\<lparr>bw_flights := ?F\<rparr>) m' = view W m'" if "m' \<noteq> ?m" for m'
    using that by (simp add: run_hook_mark)
  show "bw_flights W k = Some g" if "bw_flights (?U\<lparr>bw_flights := ?F\<rparr>) k = Some g" "fl_msg g \<noteq> ?m" for k g
    using that by (auto split: if_splits)
  show "msg_ok late (view (?U\<lparr>bw_flights := ?F\<rparr>) ?m)"
  proof (cases "fl_kind f")
    case KDeposit
    with old f(2) trk dep show ?thesis
      by (auto simp: run_hook_mark flight_ok_def intro!: msg_ok_deposit_reply)
  next
    case KBridge
    with old f(2) show ?thesis
      by (auto simp: run_hook_mark flight_ok_def intro!: msg_ok_bridge_reply)
  next
    case KReturn
    with old f(2) trk ret show ?thesis
      by (auto simp: run_hook_mark flight_ok_def intro!: msg_ok_return_reply)
  qed
  show "flight_ok C late (view (?U\<lparr>bw_flights := ?F\<rparr>) ?m) g"
    if g: "bw_flights (?U\<lparr>bw_flights := ?F\<rparr>) k = Some g" "fl_msg g = ?m" for k g
  proof (cases "k = i")
    case True
    with g have g: "g = f\<lparr>fl_stage := FReplied ok\<rparr>" by simp
    show ?thesis
    proof (cases "fl_kind f = KBridge")
      case True
      moreover from True old(2) have "fl_hook f" by (auto simp: flight_ok_def cont_ok_def)
      ultimately show ?thesis
        using old(2) f(2) g by (cases late) (auto simp: run_hook_mark flight_ok_def)
    next
      case False
      have same: "?v\<lparr>mv_status := bw_status W ?m\<rparr> = ?v" by (simp add: view_def)
      have "flight_ok C late ?v (f\<lparr>fl_stage := FReplied ok\<rparr>)"
        using flight_ok_replied [OF old(2) f(2) False, of "bw_status W ?m"] unfolding same .
      with flight_ok_replied [OF old(2) f(2) False] False g show ?thesis
        by (simp add: run_hook_mark)
    qed
  next
    case False
    with g have gk: "bw_flights W k = Some g" by simp
    have "\<not> conflict f g"
      using pair_okD [OF bw_invD(3) [OF inv] f(1) gk] False by auto
    then have diff: "fl_kind g = fl_kind f \<Longrightarrow> fl_kind f = KReturn" using g(2) by (auto simp: conflict_def)
    have "flight_ok C late ?v g" using bw_invD(2) [OF inv gk] g(2) by simp
    note status = flight_ok_status [OF this]
    show ?thesis
    proof (cases "fl_kind f")
      case KDeposit
      then have "fl_kind g \<noteq> KDeposit" using diff by auto
      with KDeposit dep status [of SendingMessageToDepositTokens] \<open>flight_ok C late ?v g\<close> show ?thesis by (simp add: run_hook_mark)
    next
      case KBridge
      then have "fl_kind g \<noteq> KBridge" using diff by auto
      with KBridge status [of SendingMessageToBridgeBuiltin] \<open>flight_ok C late ?v g\<close> show ?thesis
        by (simp add: run_hook_mark)
    next
      case KReturn
      then have "bw_status W ?m \<noteq> Some SendingMessageToDepositTokens" using ret by auto
      with KReturn status [of SendingMessageToReturnTokens] \<open>flight_ok C late ?v g\<close> show ?thesis
        by (simp add: run_hook_mark)
    qed
  qed
  show "pair_ok (bw_flights (?U\<lparr>bw_flights := ?F\<rparr>))"
    using pair_ok_update [OF bw_invD(3) [OF inv] f(1), of "f\<lparr>fl_stage := FReplied ok\<rparr>"] by simp
qed

lemma step_recover:
  assumes inv: "bw_inv C late W" and run: "ih_begin program_id send (bw_prog W) m = Ret (r, p)"
    and sent: "begun_message r = Some out" and free: "bw_flights W i = None"
    and cont: "hook \<and> c = Some (CHelper m) \<or> \<not> hook \<and> c = None"
  shows "bw_inv C late (W\<lparr>bw_prog := p,
      bw_flights := (bw_flights W)(i \<mapsto> \<lparr>fl_msg = m, fl_kind = KReturn, fl_out = out,
        fl_stage = FSent, fl_hook = hook, fl_cont = c\<rparr>),
      bw_returning := insert m (bw_returning W)\<rparr>)" (is "bw_inv C late ?W")
proof -
  let ?f = "\<lparr>fl_msg = m, fl_kind = KReturn, fl_out = out, fl_stage = FSent, fl_hook = hook, fl_cont = c\<rparr>"
  obtain s0 where s0: "bw_status W m = Some s0" "s0 \<in> {TokenDepositCompleted True,
      BridgeResponseReceived None, TokensReturnComplete False, SendingMessageToReturnTokens}"
    and p: "W\<lparr>bw_prog := p\<rparr> = bw_mark W m SendingMessageToReturnTokens"
    using run by (rule ih_begin_cases) (use sent in auto)
  have "?W = (W\<lparr>bw_prog := p\<rparr>)\<lparr>bw_flights := (bw_flights W)(i \<mapsto> ?f),
      bw_returning := insert m (bw_returning W)\<rparr>" by simp
  then have W: "?W = (bw_mark W m SendingMessageToReturnTokens)\<lparr>bw_flights := (bw_flights W)(i \<mapsto> ?f),
      bw_returning := insert m (bw_returning W)\<rparr>" unfolding p .
  have fields: "bw_flights ?W = (bw_flights W)(i \<mapsto> ?f)"
    "view ?W m' = (if m' = m then (view W m)\<lparr>mv_status := Some SendingMessageToReturnTokens, mv_ret := True\<rparr>
       else view W m')" for m'
    unfolding W using s0 by (simp_all add: view_def)
  note old = bw_invD(1) [OF inv, of m]
  from old s0 have dep: "mv_dep (view W m)" "\<not> late \<Longrightarrow> \<not> mv_bri (view W m)" "mv_details (view W m) \<noteq> None"
    by (auto simp: msg_ok_def)
  show ?thesis
  proof (rule bw_inv_local [OF inv, of m])
    show "view ?W m' = view W m'" if "m' \<noteq> m" for m' using that by (simp only: fields if_False)
    show "bw_flights W k = Some g" if "bw_flights ?W k = Some g" "fl_msg g \<noteq> m" for k g
      using that unfolding fields by (auto split: if_splits)
    show "msg_ok late (view ?W m)"
      unfolding fields using msg_ok_to_return(2) [OF old] s0 dep by simp
    show "flight_ok C late (view ?W m) g" if "bw_flights ?W k = Some g" "fl_msg g = m" for k g
    proof (cases "k = i")
      case True
      with that have "g = ?f" unfolding fields by simp
      with dep(3) cont show ?thesis unfolding fields by (auto simp: flight_ok_def cont_ok_def main_cont_def)
    next
      case False
      with that have "bw_flights W k = Some g" unfolding fields by simp
      with bw_invD(2) [OF inv this] that(2) have "flight_ok C late (view W m) g" by simp
      from flight_ok_status [OF this, of s0 SendingMessageToReturnTokens] s0
      show ?thesis unfolding fields by (auto intro: flight_ok_grow)
    qed
    show "pair_ok (bw_flights ?W)"
      unfolding fields
      by (rule pair_ok_new [OF bw_invD(3) [OF inv]]) (use cont in \<open>auto simp: conflict_def main_cont_def\<close>)
  qed
qed

lemma step_mark_return:
  assumes inv: "bw_inv C late W"
    and s0: "bw_status W m = Some s0" "s0 \<in> {TokenDepositCompleted True,
      BridgeResponseReceived None, TokensReturnComplete False, SendingMessageToReturnTokens}"
  shows "bw_inv C late (bw_mark W m SendingMessageToReturnTokens)"
proof (rule bw_inv_local [OF inv, of m])
  note old = bw_invD(1) [OF inv, of m]
  from old s0 have dep: "mv_dep (view W m)" "\<not> late \<Longrightarrow> \<not> mv_bri (view W m)"
    by (auto simp: msg_ok_def)
  show "msg_ok late (view (bw_mark W m SendingMessageToReturnTokens) m)"
    using msg_ok_to_return(1) [OF old] s0 dep by simp
  show "flight_ok C late (view (bw_mark W m SendingMessageToReturnTokens) m) g"
    if "bw_flights (bw_mark W m SendingMessageToReturnTokens) k = Some g" "fl_msg g = m" for k g
  proof -
    from that bw_invD(2) [OF inv, of k g] have "flight_ok C late (view W m) g" by simp
    from flight_ok_status [OF this, of s0 SendingMessageToReturnTokens] s0 show ?thesis by auto
  qed
qed (use bw_invD(3) [OF inv] in auto)

text \<open>
  A waiting call is continued. Its message is removed, or stays without its caller; in the world
  that is left no message of the request has a caller of the request any more.
\<close>

definition no_main :: "bridge_world \<Rightarrow> message_id \<Rightarrow> bool" where
  "no_main W m \<longleftrightarrow> (\<forall>i f. bw_flights W i = Some f \<longrightarrow> fl_msg f = m \<longrightarrow> \<not> main_cont f)"

lemma bw_inv_remove:
  assumes "bw_inv C late W"
  shows "bw_inv C late (W\<lparr>bw_flights := (bw_flights W)(i := None)\<rparr>)"
  using assms pair_ok_delete [of "bw_flights W" i] by (auto simp: bw_inv_def split: if_splits)

lemma no_main_remove:
  assumes inv: "bw_inv C late W" and f: "bw_flights W i = Some f" "main_cont f"
    and F: "F = (bw_flights W)(i := None) \<or> F = (bw_flights W)(i \<mapsto> f\<lparr>fl_cont := None\<rparr>)"
  shows "no_main (W\<lparr>bw_flights := F\<rparr>) (fl_msg f)"
  unfolding no_main_def
proof (intro allI impI notI)
  fix k g assume g: "bw_flights (W\<lparr>bw_flights := F\<rparr>) k = Some g" "fl_msg g = fl_msg f" "main_cont g"
  have "k \<noteq> i" using g F by (auto split: if_splits)
  with g F have "bw_flights W k = Some g" by (auto split: if_splits)
  with pair_okD [OF bw_invD(3) [OF inv] f(1), of k g] f(2) g \<open>k \<noteq> i\<close> show False
    by (auto simp: conflict_def)
qed

lemma proceed_bridge_inv:
  assumes inv: "bw_inv C late W" and none: "no_main W (fr_msg_id fr)" and free: "bw_flights W j = None"
    and st: "bw_status W (fr_msg_id fr) = Some (TokenDepositCompleted True)"
  shows "bw_inv C late (proceed j fr (WaitBridge out) (bw_mark W (fr_msg_id fr) SendingMessageToBridgeBuiltin))"
    (is "bw_inv C late ?W")
proof (rule bw_inv_local [OF inv, of "fr_msg_id fr"])
  let ?m = "fr_msg_id fr"
  let ?f = "\<lparr>fl_msg = ?m, fl_kind = KBridge, fl_out = out, fl_stage = FSent, fl_hook = True,
           fl_cont = Some (CBridge fr)\<rparr>"
  have fields: "bw_flights ?W = (bw_flights W)(j \<mapsto> ?f)"
    "view ?W m' = (if m' = ?m then (view W ?m)\<lparr>mv_status := Some SendingMessageToBridgeBuiltin\<rparr> else view W m')"
    for m' using st by (simp_all add: proceed_def Let_def)
  note old = bw_invD(1) [OF inv, of ?m]
  from old st have facts: "mv_dep (view W ?m)" "\<not> mv_bri (view W ?m)" "\<not> mv_ok (view W ?m)"
      "mv_details (view W ?m) \<noteq> None" by (auto simp: msg_ok_def)
  have nobridge: "fl_kind g \<noteq> KBridge" if "bw_flights W k = Some g" "fl_msg g = ?m" for k g
    using bw_invD(2) [OF inv that(1)] that(2) st by (auto simp: flight_ok_def)
  show "view ?W m' = view W m'" if "m' \<noteq> ?m" for m' using that by (simp only: fields if_False)
  show "bw_flights W k = Some g" if "bw_flights ?W k = Some g" "fl_msg g \<noteq> ?m" for k g
    using that unfolding fields by (auto split: if_splits)
  show "msg_ok late (view ?W ?m)" unfolding fields using msg_ok_to_bridge [OF old] st by simp
  show "flight_ok C late (view ?W ?m) g" if g: "bw_flights ?W k = Some g" "fl_msg g = ?m" for k g
  proof (cases "k = j")
    case True
    with g have "g = ?f" unfolding fields by simp
    with facts show ?thesis unfolding fields by (simp add: flight_ok_def cont_ok_def)
  next
    case False
    with g have gk: "bw_flights W k = Some g" unfolding fields by simp
    with bw_invD(2) [OF inv gk] g(2) have "flight_ok C late (view W ?m) g" by simp
    from flight_ok_status [OF this, of "TokenDepositCompleted True"] st
    show ?thesis unfolding fields by simp
  qed
  show "pair_ok (bw_flights ?W)"
    unfolding fields
  proof (rule pair_ok_new [OF bw_invD(3) [OF inv]])
    fix k g assume g: "bw_flights W k = Some g"
    show "\<not> conflict ?f g"
      using none nobridge [OF g] g by (auto simp: conflict_def no_main_def dest: sym)
  qed
qed

lemma proceed_return_inv:
  assumes inv: "bw_inv C late W" and none: "no_main W (fr_msg_id fr)" and free: "bw_flights W j = None"
    and st: "bw_status W (fr_msg_id fr) = Some s0" "s0 \<noteq> SendingMessageToDepositTokens"
    and facts: "mv_dep (view W (fr_msg_id fr))" "\<not> late \<Longrightarrow> \<not> mv_bri (view W (fr_msg_id fr))"
    and nobridge: "\<And>k g. \<not> late \<Longrightarrow> bw_flights W k = Some g \<Longrightarrow> fl_msg g = fr_msg_id fr \<Longrightarrow>
      fl_kind g \<noteq> KBridge"
  shows "bw_inv C late (proceed j fr (WaitReturn e out) (bw_mark W (fr_msg_id fr) SendingMessageToReturnTokens))"
    (is "bw_inv C late ?W")
proof (rule bw_inv_local [OF inv, of "fr_msg_id fr"])
  let ?m = "fr_msg_id fr"
  let ?f = "\<lparr>fl_msg = ?m, fl_kind = KReturn, fl_out = out, fl_stage = FSent, fl_hook = True, fl_cont = Some (CReturn fr e)\<rparr>"
  have fields: "bw_flights ?W = (bw_flights W)(j \<mapsto> ?f)"
    "view ?W m' = (if m' = ?m then (view W ?m)\<lparr>mv_status := Some SendingMessageToReturnTokens,
       mv_ret := True, mv_hk := True\<rparr> else view W m')"
    for m' using st by (simp_all add: proceed_def view_def Let_def)
  note old = bw_invD(1) [OF inv, of ?m]
  from old st have alive: "\<not> mv_ok (view W ?m)" "mv_details (view W ?m) \<noteq> None" by (auto simp: msg_ok_def)
  show "view ?W m' = view W m'" if "m' \<noteq> ?m" for m' using that by (simp only: fields if_False)
  show "bw_flights W k = Some g" if "bw_flights ?W k = Some g" "fl_msg g \<noteq> ?m" for k g
    using that unfolding fields by (auto split: if_splits)
  show "msg_ok late (view ?W ?m)" unfolding fields using msg_ok_to_return(3) [OF old] st facts by simp
  show "flight_ok C late (view ?W ?m) g" if g: "bw_flights ?W k = Some g" "fl_msg g = ?m" for k g
  proof (cases "k = j")
    case True
    with g have "g = ?f" unfolding fields by simp
    with alive show ?thesis unfolding fields by (simp add: flight_ok_def cont_ok_def)
  next
    case False
    with g have gk: "bw_flights W k = Some g" unfolding fields by simp
    with bw_invD(2) [OF inv gk] g(2) have "flight_ok C late (view W ?m) g" by simp
    then have "flight_ok C late ((view W ?m)\<lparr>mv_status := Some SendingMessageToReturnTokens\<rparr>) g"
      by (rule flight_ok_status [of _ _ _ _ s0]) (use st nobridge [OF _ gk g(2)] in auto)
    then show ?thesis unfolding fields by (simp add: flight_ok_grow)
  qed
  show "pair_ok (bw_flights ?W)"
    unfolding fields
  proof (rule pair_ok_new [OF bw_invD(3) [OF inv]])
    fix k g assume "bw_flights W k = Some g"
    with none show "\<not> conflict ?f g" by (auto simp: conflict_def no_main_def)
  qed
qed

lemma proceed_completed_inv:
  assumes inv: "bw_inv C late W" and none: "no_main W (fr_msg_id fr)"
    and st: "bw_status W (fr_msg_id fr) = Some (BridgeResponseReceived (Some nonce))"
  shows "bw_inv C late (proceed j fr (Completed nonce eth event) (bw_forget W (fr_msg_id fr)))"
    (is "bw_inv C late ?W")
proof (rule bw_inv_local [OF inv, of "fr_msg_id fr"])
  let ?m = "fr_msg_id fr"
  have fields: "bw_flights ?W = bw_flights W"
    "view ?W m' = (if m' = ?m then (view W ?m)\<lparr>mv_status := None, mv_tracked := None, mv_ok := True\<rparr>
       else view W m')" for m' by (simp_all add: proceed_def view_def Let_def)
  note old = bw_invD(1) [OF inv, of ?m]
  show "view ?W m' = view W m'" if "m' \<noteq> ?m" for m' using that by (simp only: fields if_False)
  show "bw_flights W k = Some g" if "bw_flights ?W k = Some g" "fl_msg g \<noteq> ?m" for k g
    using that unfolding fields by simp
  show "msg_ok late (view ?W ?m)" unfolding fields using msg_ok_completed [OF old] st by simp
  show "flight_ok C late (view ?W ?m) g" if g: "bw_flights ?W k = Some g" "fl_msg g = ?m" for k g
  proof -
    from g have gk: "bw_flights W k = Some g" unfolding fields by simp
    have "\<not> main_cont g" using none gk g(2) by (auto simp: no_main_def)
    moreover have "flight_ok C late (view W ?m) g" using bw_invD(2) [OF inv gk] g(2) by simp
    ultimately show ?thesis
      unfolding fields using st by (cases "fl_kind g") (auto simp: flight_ok_def)
  qed
  show "pair_ok (bw_flights ?W)" unfolding fields by (rule bw_invD(3) [OF inv])
qed

lemma resume_inv:
  assumes inv: "bw_inv C late W" and f: "bw_flights W i = Some f" "fl_cont f = Some c"
    and free: "bw_flights W j = None"
    and F: "F = (bw_flights W)(i := None) \<and> fl_stage f = FReplied ok
      \<or> F = (bw_flights W)(i \<mapsto> f\<lparr>fl_cont := None\<rparr>) \<and> \<not> ok \<and> (late \<or> fl_kind f \<noteq> KBridge)"
  shows "bw_inv C late (resume j sb sr ok c (W\<lparr>bw_flights := F\<rparr>))"
proof -
  let ?W = "W\<lparr>bw_flights := F\<rparr>"
  have inv1: "bw_inv C late ?W"
    using F bw_inv_remove [OF inv] step_out_of_gas [OF inv f(1)] by auto
  have free1: "bw_flights ?W j = None" using free F f(1) by (auto split: if_splits)
  note old = bw_invD(2) [OF inv f(1)]
  show ?thesis
  proof (cases c)
    case (CDeposit fr)
    with old f(2) have m: "fr_msg_id fr = fl_msg f" and main: "main_cont f"
      by (auto simp: flight_ok_def cont_ok_def main_cont_def)
    have none: "no_main ?W (fr_msg_id fr)" unfolding m using no_main_remove [OF inv f(1) main] F by blast
    have early: "bw_status ?W (fr_msg_id fr) = Some (TokenDepositCompleted True) \<Longrightarrow>
        mv_dep (view ?W (fr_msg_id fr)) \<and> \<not> mv_bri (view ?W (fr_msg_id fr))
        \<and> (bw_flights ?W k = Some g \<longrightarrow> fl_msg g = fr_msg_id fr \<longrightarrow> fl_kind g \<noteq> KBridge)" for k g
      using bw_invD(1) [OF inv1, of "fr_msg_id fr"] bw_invD(2) [OF inv1, of k g]
      by (auto simp: msg_ok_def flight_ok_def)
    show ?thesis
    proof (cases rule: resume_deposit_cases [of j sb sr ok fr ?W])
      case dead
      with inv1 CDeposit show ?thesis by simp
    next
      case (bridge out)
      with proceed_bridge_inv [OF inv1 none free1] CDeposit show ?thesis by simp
    next
      case (return e out)
      with proceed_return_inv [OF inv1 none free1, of "TokenDepositCompleted True"] early CDeposit
      show ?thesis by simp
    qed
  next
    case (CBridge fr)
    with old f(2) have m: "fr_msg_id fr = fl_msg f" and main: "main_cont f" and kind: "fl_kind f = KBridge"
      by (auto simp: flight_ok_def cont_ok_def main_cont_def)
    have none: "no_main ?W (fr_msg_id fr)" unfolding m using no_main_remove [OF inv f(1) main] F by blast
    have alive: "mv_dep (view W (fl_msg f))" "\<not> early (bw_status W (fl_msg f))" "\<not> mv_ok (view W (fl_msg f))"
      "mv_details (view W (fl_msg f)) \<noteq> None"
      using old kind main by (auto simp: flight_ok_def)
    have "bw_status W (fl_msg f) \<noteq> None"
      using bw_invD(1) [OF inv, of "fl_msg f"] alive(3,4) unfolding msg_ok_def view_proj by blast
    then obtain s0 where s0: "bw_status W (fl_msg f) = Some s0" by blast
    with alive(2) have s0': "s0 \<noteq> SendingMessageToDepositTokens" by auto
    have nobridge: "fl_kind g \<noteq> KBridge" if "\<not> late" "bw_flights ?W k = Some g" "fl_msg g = fl_msg f" for k g
    proof
      assume "fl_kind g = KBridge"
      moreover have "k \<noteq> i" "bw_flights W k = Some g" using that F kind by (auto split: if_splits)
      ultimately show False
        using pair_okD [OF bw_invD(3) [OF inv] f(1), of k g] that(3) kind by (auto simp: conflict_def)
    qed
    show ?thesis
    proof (cases rule: resume_bridge_cases [of j sb sr ok fr ?W])
      case dead
      with inv1 CBridge show ?thesis by simp
    next
      case (done_ nonce eth event)
      with proceed_completed_inv [OF inv1 none] CBridge show ?thesis by simp
    next
      case (return e out)
      have "\<not> mv_bri (view W (fl_msg f))" if "\<not> late"
        using F return(1) old kind alive(3) that m by (cases ok) (auto simp: flight_ok_def)
      with proceed_return_inv [OF inv1 none free1, of s0] s0 s0' alive nobridge return(2) CBridge m
      show ?thesis by simp
    qed
  next
    case (CReturn fr e)
    with inv1 show ?thesis by simp
  next
    case (CHelper m)
    with inv1 show ?thesis by simp
  qed
qed

theorem reachable_bw_inv:
  assumes "bw_reachable C late W"
  shows "bw_inv C late W"
  using assms
proof induction
  case (bw_start p)
  then show ?case
    by (auto simp: bw_inv_def bw_init_def msg_ok_def view_def bw_status_def bw_tracked_def
        status_of_def tracker_init_def pair_ok_def)
next
  case (bw_next W W')
  from bw_next.hyps(2) bw_next.IH show ?case
  proof (induction rule: bw_step.induct)
    case (bw_request cx send W token amount receiver fr out p i)
    then show ?case by (intro step_request)
  next
    case (bw_execute W i f bytes ok)
    then show ?case by (intro step_execute)
  next
    case (bw_reply W i f bytes ok)
    then show ?case by (intro step_reply)
  next
    case (bw_wake W i f ok c j sb sr)
    then show ?case by (intro resume_inv [of C late W i f]) auto
  next
    case (bw_timeout W i f c j sb sr)
    then show ?case by (intro resume_inv [of C late W i f]) auto
  next
    case (bw_out_of_gas W i f)
    then show ?case by (intro step_out_of_gas)
  next
    case (bw_recover program_id send W m out p i)
    then show ?case by (intro step_recover [where r = "Begun out"]) simp_all
  next
    case (bw_recover_orphan program_id send W m e out p i)
    then show ?case by (intro step_recover [where r = "Orphaned e out"]) simp_all
  next
    case (bw_recover_unsent program_id send W m e p)
    from bw_recover_unsent.hyps show ?case
    proof (cases rule: ih_begin_cases)
      case refused
      with bw_recover_unsent.prems show ?thesis by simp
    next
      case resend
      then obtain s0 where "bw_status W m = Some s0" "s0 \<in> {TokenDepositCompleted True,
          BridgeResponseReceived None, TokensReturnComplete False, SendingMessageToReturnTokens}" by auto
      from step_mark_return [OF bw_recover_unsent.prems this] resend(2) show ?thesis by simp
    qed
  next
    case (bw_critical m W t)
    from bw_critical.prems bw_critical.hyps(1) have "retphase (bw_status W m)"
      using bw_invD(1) [of C late W m] by (auto simp: msg_ok_def view_def)
    then have "set_tracker W t = W"
      using bw_critical.hyps(2)
      by (auto simp: critical_hook_def get_message_info_def bw_status_def status_of_def set_tracker_def
          retphase_def split: option.splits)
    with bw_critical.prems show ?case by simp
  next
    case (bw_other p W)
    then have "view (W\<lparr>bw_prog := p\<rparr>) m = view W m" for m
      by (simp add: view_def bw_status_def bw_tracked_def)
    with bw_other.prems show ?case by (simp add: bw_inv_def)
  qed
qed

section \<open>Properties\<close>

text \<open>
  Property C7. Tokens are returned only after they were taken: in every run, with timeouts, calls
  that run out of gas and any number of recovery calls, a message that returns tokens exists only
  for a request whose deposit was really executed, and a request that is recorded as returned has
  really been refunded.
\<close>

theorem refund_only_after_deposit:
  assumes "bw_reachable C late W"
  shows "(\<forall>i f. bw_flights W i = Some f \<and> fl_kind f = KReturn \<longrightarrow> fl_msg f \<in> bw_deposited W)
    \<and> (\<forall>m. 0 < bw_refunds W m \<longrightarrow> m \<in> bw_deposited W)
    \<and> (\<forall>m. bw_status W m = Some (TokensReturnComplete True) \<longrightarrow> 0 < bw_refunds W m)"
proof -
  note inv = reachable_bw_inv [OF assms]
  have dep: "m \<in> bw_deposited W" if "m \<in> bw_returning W" for m
  proof -
    from bw_invD(1) [OF inv, of m] that have "retphase (bw_status W m)"
      by (auto simp: msg_ok_def view_def)
    with bw_invD(1) [OF inv, of m] show ?thesis by (auto simp: msg_ok_def view_def retphase_def)
  qed
  show ?thesis
  proof (intro conjI allI impI)
    fix i f assume "bw_flights W i = Some f \<and> fl_kind f = KReturn"
    with bw_invD(2) [OF inv, of i f] dep show "fl_msg f \<in> bw_deposited W"
      by (auto simp: flight_ok_def view_def)
  next
    fix m assume "0 < bw_refunds W m"
    with bw_invD(1) [OF inv, of m] dep show "m \<in> bw_deposited W" by (auto simp: msg_ok_def view_def)
  next
    fix m assume "bw_status W m = Some (TokensReturnComplete True)"
    with bw_invD(1) [OF inv, of m] show "0 < bw_refunds W m" by (auto simp: msg_ok_def view_def)
  qed
qed

text \<open>
  Property C6. A request that has returned a nonce to its sender was deposited and queued by the
  bridge, is not tracked any more, has not been refunded, and no message that would refund it exists.
\<close>

theorem completed_request_never_refunded:
  assumes "bw_reachable C late W" and "m \<in> bw_ok W"
  shows "m \<in> bw_deposited W \<and> m \<in> bw_bridged W \<and> bw_status W m = None \<and> bw_refunds W m = 0
    \<and> (\<forall>i f. bw_flights W i = Some f \<and> fl_msg f = m \<longrightarrow> fl_kind f \<noteq> KReturn)"
proof -
  note inv = reachable_bw_inv [OF assms(1)]
  from bw_invD(1) [OF inv, of m] assms(2)
  have m: "m \<in> bw_deposited W" "m \<in> bw_bridged W" "bw_status W m = None" "bw_refunds W m = 0"
      "m \<notin> bw_returning W" by (auto simp: msg_ok_def view_def)
  have "fl_kind f \<noteq> KReturn" if "bw_flights W i = Some f" "fl_msg f = m" for i f
    using bw_invD(2) [OF inv that(1)] that(2) m(5) by (auto simp: flight_ok_def view_def)
  with m show ?thesis by blast
qed

text \<open>
  Property C8. If the wait for the bridge never times out before its reply is delivered, then no
  request is both queued for Ethereum and refunded on Gear.
\<close>

theorem bridged_not_refunded_without_timeout:
  assumes "bw_reachable C False W" and "m \<in> bw_bridged W"
  shows "bw_refunds W m = 0
    \<and> (\<forall>i f. bw_flights W i = Some f \<and> fl_msg f = m \<longrightarrow> fl_kind f \<noteq> KReturn)"
proof -
  note inv = reachable_bw_inv [OF assms(1)]
  from bw_invD(1) [OF inv, of m] assms(2)
  have m: "bw_refunds W m = 0" "m \<notin> bw_returning W" by (auto simp: msg_ok_def view_def)
  have "fl_kind f \<noteq> KReturn" if "bw_flights W i = Some f" "fl_msg f = m" for i f
    using bw_invD(2) [OF inv that(1)] that(2) m(2) by (auto simp: flight_ok_def view_def)
  with m show ?thesis by blast
qed

end
