(* ===== verification/Bridging_Traces.thy ===== *)
theory Bridging_Traces
  imports Bridging_Protocol
begin

text \<open>
  Concrete runs of the bridging protocol on a program with one token pair: a run that completes, a
  run in which two recovery calls both send the tokens back, and a run in which the wait for the
  bridge times out although the bridge queues the message later.
\<close>

definition tr_program :: vft_program where
  "tr_program = sample_program\<lparr>vp_state := (vp_state sample_program)\<lparr>st_token_map :=
     \<lparr>vara_to_eth = [5 \<mapsto> (7, SupplyGear)], eth_to_vara = [7 \<mapsto> 5]\<rparr>\<rparr>\<rparr>"

definition tr_codec :: reply_codec where
  "tr_codec = \<lparr>burn_reply = (\<lambda>bs. if bs = [1] then Some () else None),
     mint_reply = (\<lambda>bs. if bs = [1] then Some () else None),
     transfer_from_reply = (\<lambda>bs. if bs = [1] then Some True else None),
     bridge_response = (\<lambda>bs. if bs = [1] then Some 42 else None)\<rparr>"

definition tr_ctx :: call_ctx where
  "tr_ctx = \<lparr>cx_msg_id = 77, cx_sender = 11, cx_value = 2, cx_program_id = 99\<rparr>"

definition tr_frame :: rb_frame where
  "tr_frame = \<lparr>fr_msg_id = 77, fr_program_id = 99, fr_sender = 11, fr_vara_token_id = 5,
     fr_amount = 1000, fr_receiver = 33, fr_eth_token_id = 7, fr_supply_type = SupplyGear\<rparr>"

text \<open>The worlds of the runs, by the tracked status, the messages and what has happened.\<close>

definition tr_world ::
  "message_status option \<Rightarrow> (nat \<rightharpoonup> flight) \<Rightarrow> message_id set \<Rightarrow> message_id set \<Rightarrow> nat \<Rightarrow>
     message_id set \<Rightarrow> message_id set \<Rightarrow> message_id set \<Rightarrow> bridge_world" where
  "tr_world s F dep bri refunds ret ok hk = \<lparr>
     bw_prog = tr_program\<lparr>vp_tracker :=
       (case s of None \<Rightarrow> Map.empty
        | Some st \<Rightarrow> [77 \<mapsto> \<lparr>mi_status = st, mi_details = frame_details tr_frame\<rparr>])\<rparr>,
     bw_flights = F, bw_details = [77 \<mapsto> frame_details tr_frame],
     bw_deposited = dep, bw_bridged = bri, bw_refunds = (\<lambda>_. 0)(77 := refunds), bw_returning = ret,
     bw_ok = ok, bw_hooked = hk\<rparr>"

definition tr_flight :: "msg_kind \<Rightarrow> outgoing \<Rightarrow> stage \<Rightarrow> cont option \<Rightarrow> flight" where
  "tr_flight k out st c =
     \<lparr>fl_msg = 77, fl_kind = k, fl_out = out, fl_stage = st, fl_hook = True, fl_cont = c\<rparr>"

definition tr_deposit :: outgoing where "tr_deposit = deposit_message sample_config tr_frame"
definition tr_return :: outgoing where
  "tr_return = return_message sample_config 99 SupplyGear 5 11 1000"
definition tr_bridge :: outgoing where
  "tr_bridge = bridge_message tr_program \<lparr>pl_receiver = 33, pl_token_id = 7, pl_amount = 1000\<rparr>"

lemma tr_program_simps [simp]:
  "st_token_map (vp_state tr_program) = \<lparr>vara_to_eth = [5 \<mapsto> (7, SupplyGear)], eth_to_vara = [7 \<mapsto> 5]\<rparr>"
  "st_is_paused (vp_state tr_program) = False" "vp_config tr_program = sample_config"
  "vp_tracker tr_program = tracker_init" "fee_incoming sample_config = 2"
  by (simp_all add: tr_program_def sample_program_def vft_seed_def sample_config_def)

lemma tr_sending [simp]:
  "send_for_reply sample_config SendOk = Awaiting" "begin_sending sample_config SendOk x = Begun x"
  by (simp_all add: begin_sending_def send_for_reply_def sample_config_def)

lemma tr_flight_simps [simp]:
  "fl_msg (tr_flight k out st c) = 77" "fl_kind (tr_flight k out st c) = k"
  "fl_stage (tr_flight k out st c) = st" "fl_cont (tr_flight k out st c) = c"
  "fl_hook (tr_flight k out st c)"
  "(tr_flight k out st c)\<lparr>fl_stage := st'\<rparr> = tr_flight k out st' c"
  "(tr_flight k out st c)\<lparr>fl_cont := c'\<rparr> = tr_flight k out st c'"
  by (simp_all add: tr_flight_def)

lemma tr_frame_simps [simp]: "fr_msg_id tr_frame = 77"
  by (simp add: tr_frame_def)

lemma tr_status [simp]: "bw_status (tr_world s F dep bri refunds ret ok hk) 77 = s"
  by (cases s) (simp_all add: tr_world_def bw_status_def status_of_def)

lemma tr_supply [simp]: "bw_supply (tr_world s F dep bri refunds ret ok hk) 77 = SupplyGear"
  by (simp add: tr_world_def bw_supply_def frame_details_def tr_frame_def)

lemma tr_mark:
  "bw_mark (tr_world (Some s) F dep bri refunds ret ok hk) 77 s'
     = tr_world (Some s') F dep bri refunds ret ok hk"
  by (simp add: tr_world_def bw_mark_def set_tracker_def update_message_status_def)

lemma tr_tracked [simp]:
  "bw_tracked (tr_world (Some s) F dep bri refunds ret ok hk) 77 = Some (frame_details tr_frame)"
  by (simp add: tr_world_def bw_tracked_def)

lemma tr_fields [simp]:
  "bw_flights (tr_world s F dep bri refunds ret ok hk) = F"
  "bw_deposited (tr_world s F dep bri refunds ret ok hk) = dep"
  "bw_bridged (tr_world s F dep bri refunds ret ok hk) = bri"
  "bw_refunds (tr_world s F dep bri refunds ret ok hk) 77 = refunds"
  "bw_returning (tr_world s F dep bri refunds ret ok hk) = ret"
  "bw_ok (tr_world s F dep bri refunds ret ok hk) = ok"
  "bw_hooked (tr_world s F dep bri refunds ret ok hk) = hk"
  by (simp_all add: tr_world_def)

lemma tr_codec_simps [simp]:
  "deposit_reply tr_codec SupplyGear bs \<longleftrightarrow> bs = [1]" "return_reply tr_codec SupplyGear bs \<longleftrightarrow> bs = [1]"
  "bridge_response tr_codec bs = (if bs = [1] then Some 42 else None)"
  by (auto simp: deposit_reply_def return_reply_def unwrap_or_false_def decode_lock_reply_def
      decode_unlock_reply_def tr_codec_def)

section \<open>Single steps\<close>

abbreviation "tr_step late \<equiv> bw_step tr_codec late"

lemma tr_request:
  "tr_step late (bw_init tr_program)
     (tr_world (Some SendingMessageToDepositTokens)
       [0 \<mapsto> tr_flight KDeposit tr_deposit FSent (Some (CDeposit tr_frame))] {} {} 0 {} {} {})"
proof -
  have "rb_begin tr_ctx SendOk tr_program 5 1000 33
      = Ret (Inr (tr_frame, tr_deposit), tr_program\<lparr>vp_tracker := insert_message_info tracker_init 77
          SendingMessageToDepositTokens (frame_details tr_frame)\<rparr>)"
    by (simp add: rb_begin_def tr_ctx_def ensure_running_def get_eth_token_id_def get_supply_type_def
        tr_frame_def tr_deposit_def frame_details_def Let_def)
  from bw_request [of tr_ctx SendOk "bw_init tr_program" 5 1000 33 tr_frame tr_deposit _ 0 tr_codec late,
      simplified bw_init_def bridge_world.simps, OF this]
  show ?thesis
    by (simp add: bw_init_def tr_ctx_def tr_world_def tr_flight_def insert_message_info_def
        tracker_init_def fun_upd_def)
qed

lemma tr_execute:
  assumes "bw_reachable tr_codec late (tr_world s F dep bri n ret ok hk)"
    and "F i \<noteq> None" "fl_msg (the (F i)) = 77" "fl_stage (the (F i)) = FSent"
  defines "k \<equiv> fl_kind (the (F i))"
  shows "bw_reachable tr_codec late
    (tr_world s (F(i \<mapsto> (the (F i))\<lparr>fl_stage := FDone [1] True\<rparr>))
      (if k = KDeposit then insert 77 dep else dep) (if k = KBridge then insert 77 bri else bri)
      (if k = KReturn then Suc n else n) ret ok hk)"
proof -
  obtain f where f: "F i = Some f" "fl_msg f = 77" "fl_stage f = FSent" using assms(2-4) by auto
  let ?W = "tr_world s F dep bri n ret ok hk"
  have "tr_step late ?W ((execute tr_codec f [1] ?W)\<lparr>
      bw_flights := (bw_flights ?W)(i \<mapsto> f\<lparr>fl_stage := FDone [1] True\<rparr>)\<rparr>)"
    by (rule bw_execute) (use f in simp_all)
  moreover have "(execute tr_codec f [1] ?W)\<lparr>bw_flights := (bw_flights ?W)(i \<mapsto> f\<lparr>fl_stage := FDone [1] True\<rparr>)\<rparr>
    = tr_world s (F(i \<mapsto> f\<lparr>fl_stage := FDone [1] True\<rparr>)) (if k = KDeposit then insert 77 dep else dep)
        (if k = KBridge then insert 77 bri else bri) (if k = KReturn then Suc n else n) ret ok hk"
    using f by (cases "fl_kind f") (simp_all add: k_def execute_def, simp_all add: tr_world_def)
  ultimately show ?thesis using bw_next [OF assms(1)] f(1) by simp
qed

definition tr_hooked :: "msg_kind \<Rightarrow> message_status \<Rightarrow> message_status" where
  "tr_hooked k s =
     (if k = KBridge \<and> s = SendingMessageToBridgeBuiltin then BridgeResponseReceived (Some 42)
      else if k \<noteq> KBridge \<and> s = SendingMessageToDepositTokens then TokenDepositCompleted True
      else if k \<noteq> KBridge \<and> s = SendingMessageToReturnTokens then TokensReturnComplete True
      else s)"

lemma tr_reply:
  assumes "bw_reachable tr_codec late (tr_world (Some s) F dep bri n ret ok hk)"
    and "F i \<noteq> None" "fl_msg (the (F i)) = 77" "fl_stage (the (F i)) = FDone [1] True" "fl_hook (the (F i))"
  shows "bw_reachable tr_codec late
    (tr_world (Some (tr_hooked (fl_kind (the (F i))) s)) (F(i \<mapsto> (the (F i))\<lparr>fl_stage := FReplied True\<rparr>))
      dep bri n ret ok hk)"
proof -
  obtain f where f: "F i = Some f" "fl_msg f = 77" "fl_stage f = FDone [1] True" "fl_hook f"
    using assms(2-5) by auto
  let ?W = "tr_world (Some s) F dep bri n ret ok hk"
  have sup: "td_token_supply (frame_details tr_frame) = SupplyGear"
    by (simp add: frame_details_def tr_frame_def)
  have "tr_step late ?W ((set_tracker ?W (run_hook tr_codec f [1] (vp_tracker (bw_prog ?W))))\<lparr>
      bw_flights := (bw_flights ?W)(i \<mapsto> f\<lparr>fl_stage := FReplied True\<rparr>)\<rparr>)"
    by (rule bw_reply [of ?W i f "[1]" True]) (use f in simp_all)
  moreover have "set_tracker ?W (run_hook tr_codec f [1] (vp_tracker (bw_prog ?W)))
      = tr_world (Some (tr_hooked (fl_kind f) s)) F dep bri n ret ok hk"
    unfolding run_hook_mark using f(2,4) by (simp add: tr_hooked_def tr_mark sup)
  moreover have "(tr_world s' F dep bri n ret ok hk)\<lparr>bw_flights := G\<rparr> = tr_world s' G dep bri n ret ok hk"
    for s' G by (simp add: tr_world_def)
  ultimately show ?thesis using bw_next [OF assms(1)] f(1) by simp
qed

lemma tr_out_of_gas:
  assumes "bw_reachable tr_codec late (tr_world s F dep bri n ret ok hk)" and "F i \<noteq> None"
  shows "bw_reachable tr_codec late (tr_world s (F(i \<mapsto> (the (F i))\<lparr>fl_cont := None\<rparr>)) dep bri n ret ok hk)"
proof -
  obtain f where f: "F i = Some f" using assms(2) by auto
  then have "bw_reachable tr_codec late ((tr_world s F dep bri n ret ok hk)\<lparr>bw_flights :=
      (bw_flights (tr_world s F dep bri n ret ok hk))(i \<mapsto> f\<lparr>fl_cont := None\<rparr>)\<rparr>)"
    by (intro bw_next [OF assms(1)] bw_out_of_gas) simp
  with f show ?thesis by (simp add: tr_world_def)
qed

lemma tr_recover:
  assumes "s \<in> {TokenDepositCompleted True, SendingMessageToReturnTokens}" and "F i = None"
  shows "tr_step late (tr_world (Some s) F dep bri n ret ok hk)
    (tr_world (Some SendingMessageToReturnTokens)
      (F(i \<mapsto> tr_flight KReturn tr_return FSent (Some (CHelper 77)))) dep bri n (insert 77 ret) ok hk)"
proof -
  let ?W = "tr_world (Some s) F dep bri n ret ok hk"
  have "ih_begin 99 SendOk (bw_prog ?W) 77 = Ret (Begun tr_return,
      bw_prog (tr_world (Some SendingMessageToReturnTokens) F dep bri n ret ok hk))"
    using assms(1)
    by (auto simp: ih_begin_def tr_world_def ensure_running_def get_message_info_def tr_return_def
        frame_details_def tr_frame_def update_message_status_def Let_def)
  from bw_recover [OF this, of i tr_codec late] assms(2) show ?thesis
    by (simp add: tr_world_def tr_flight_def)
qed

lemma tr_deposit_done:
  assumes "F i = Some (tr_flight KDeposit tr_deposit (FReplied True) (Some (CDeposit tr_frame)))" and "F j = None"
  shows "tr_step late (tr_world (Some (TokenDepositCompleted True)) F dep bri n ret ok hk)
    (tr_world (Some SendingMessageToBridgeBuiltin)
      (F(i := None, j \<mapsto> tr_flight KBridge tr_bridge FSent (Some (CBridge tr_frame)))) dep bri n ret ok hk)"
proof -
  let ?W = "tr_world (Some (TokenDepositCompleted True)) F dep bri n ret ok hk"
  let ?U = "?W\<lparr>bw_flights := (bw_flights ?W)(i := None)\<rparr>"
  have "tr_step late ?W (resume j SendOk SendOk True (CDeposit tr_frame) ?U)"
    by (rule bw_wake [of ?W i "tr_flight KDeposit tr_deposit (FReplied True) (Some (CDeposit tr_frame))"])
      (use assms in simp_all)
  moreover have "resume j SendOk SendOk True (CDeposit tr_frame) ?U
      = tr_world (Some SendingMessageToBridgeBuiltin)
          (F(i := None, j \<mapsto> tr_flight KBridge tr_bridge FSent (Some (CBridge tr_frame)))) dep bri n ret ok hk"
    by (simp add: rb_after_deposit_def fetch_deposit_result_def update_message_status_def tr_world_def
        proceed_def tr_flight_def tr_bridge_def bridge_message_def tr_frame_def)
  ultimately show ?thesis by simp
qed

lemma tr_bridge_done:
  assumes "F i = Some (tr_flight KBridge tr_bridge (FReplied True) (Some (CBridge tr_frame)))"
    and "F j = None"
  shows "tr_step late (tr_world (Some (BridgeResponseReceived (Some 42))) F dep bri n ret ok hk)
    (tr_world None (F(i := None)) dep bri n ret (insert 77 ok) hk)"
proof -
  let ?W = "tr_world (Some (BridgeResponseReceived (Some 42))) F dep bri n ret ok hk"
  let ?U = "?W\<lparr>bw_flights := (bw_flights ?W)(i := None)\<rparr>"
  have "tr_step late ?W (resume j SendOk SendOk True (CBridge tr_frame) ?U)"
    by (rule bw_wake [of ?W i "tr_flight KBridge tr_bridge (FReplied True) (Some (CBridge tr_frame))"])
      (use assms in simp_all)
  moreover have "resume j SendOk SendOk True (CBridge tr_frame) ?U
      = tr_world None (F(i := None)) dep bri n ret (insert 77 ok) hk"
    by (simp add: rb_after_bridge_def bridge_result_def get_message_info_def remove_message_info_def
        tr_world_def proceed_def)
  ultimately show ?thesis by simp
qed

lemma tr_bridge_timeout:
  assumes "F i = Some (tr_flight KBridge tr_bridge FSent (Some (CBridge tr_frame)))" and "F j = None"
  shows "tr_step True (tr_world (Some SendingMessageToBridgeBuiltin) F dep bri n ret ok hk)
    (tr_world (Some SendingMessageToReturnTokens)
      (F(i \<mapsto> tr_flight KBridge tr_bridge FSent None,
         j \<mapsto> tr_flight KReturn tr_return FSent (Some (CReturn tr_frame ReplyFailure))))
      dep bri n (insert 77 ret) ok (insert 77 hk))"
proof -
  let ?W = "tr_world (Some SendingMessageToBridgeBuiltin) F dep bri n ret ok hk"
  let ?f = "tr_flight KBridge tr_bridge FSent (Some (CBridge tr_frame))"
  let ?U = "?W\<lparr>bw_flights := (bw_flights ?W)(i \<mapsto> ?f\<lparr>fl_cont := None\<rparr>)\<rparr>"
  have "tr_step True ?W (resume j SendOk SendOk False (CBridge tr_frame) ?U)"
    by (rule bw_timeout [of ?W i ?f]) (use assms in simp_all)
  moreover have "resume j SendOk SendOk False (CBridge tr_frame) ?U
      = tr_world (Some SendingMessageToReturnTokens)
          (F(i \<mapsto> tr_flight KBridge tr_bridge FSent None,
             j \<mapsto> tr_flight KReturn tr_return FSent (Some (CReturn tr_frame ReplyFailure))))
          dep bri n (insert 77 ret) ok (insert 77 hk)"
    by (simp add: rb_after_bridge_def bridge_result_def rb_refund_def update_message_status_def
        tr_world_def proceed_def tr_flight_def tr_return_def tr_frame_def)
  ultimately show ?thesis by simp
qed

section \<open>Runs\<close>

lemma tr_start: "bw_reachable tr_codec late (bw_init tr_program)"
  by (rule bw_start) simp

lemma tr_deposited:
  "bw_reachable tr_codec late (tr_world (Some (TokenDepositCompleted True))
     [0 \<mapsto> tr_flight KDeposit tr_deposit (FReplied True) (Some (CDeposit tr_frame))] {77} {} 0 {} {} {})"
proof -
  have 1: "bw_reachable tr_codec late (tr_world (Some SendingMessageToDepositTokens)
      [0 \<mapsto> tr_flight KDeposit tr_deposit FSent (Some (CDeposit tr_frame))] {} {} 0 {} {} {})"
    by (rule bw_next [OF tr_start tr_request])
  have 2: "bw_reachable tr_codec late (tr_world (Some SendingMessageToDepositTokens)
      [0 \<mapsto> tr_flight KDeposit tr_deposit (FDone [1] True) (Some (CDeposit tr_frame))] {77} {} 0 {} {} {})"
    using tr_execute [OF 1, where i = 0] by simp
  show ?thesis using tr_reply [OF 2, where i = 0] by (simp add: tr_hooked_def)
qed

lemma tr_bridging:
  "bw_reachable tr_codec late (tr_world (Some SendingMessageToBridgeBuiltin)
     [1 \<mapsto> tr_flight KBridge tr_bridge FSent (Some (CBridge tr_frame))] {77} {} 0 {} {} {})"
  using bw_next [OF tr_deposited tr_deposit_done [where i = 0 and j = 1]] by simp

lemma tr_completed:
  "bw_reachable tr_codec late (tr_world None Map.empty {77} {77} 0 {} {77} {})"
proof -
  have 1: "bw_reachable tr_codec late (tr_world (Some SendingMessageToBridgeBuiltin)
      [1 \<mapsto> tr_flight KBridge tr_bridge (FDone [1] True) (Some (CBridge tr_frame))] {77} {77} 0 {} {} {})"
    using tr_execute [OF tr_bridging, where i = 1] by simp
  have 2: "bw_reachable tr_codec late (tr_world (Some (BridgeResponseReceived (Some 42)))
      [1 \<mapsto> tr_flight KBridge tr_bridge (FReplied True) (Some (CBridge tr_frame))] {77} {77} 0 {} {} {})"
    using tr_reply [OF 1, where i = 1] by (simp add: tr_hooked_def)
  show ?thesis using bw_next [OF 2 tr_bridge_done [where i = 1 and j = 0]] by simp
qed

theorem refund_only_after_deposit_witness:
  "\<exists>W. bw_reachable tr_codec True W \<and> 0 < bw_refunds W 77 \<and> 77 \<in> bw_deposited W"
proof -
  have 1: "bw_reachable tr_codec True (tr_world (Some SendingMessageToReturnTokens)
      [0 \<mapsto> tr_flight KDeposit tr_deposit (FReplied True) (Some (CDeposit tr_frame)),
       1 \<mapsto> tr_flight KReturn tr_return FSent (Some (CHelper 77))] {77} {} 0 {77} {} {})"
    using bw_next [OF tr_deposited tr_recover [of _ _ 1]] by simp
  have 2: "bw_reachable tr_codec True (tr_world (Some SendingMessageToReturnTokens)
      [0 \<mapsto> tr_flight KDeposit tr_deposit (FReplied True) (Some (CDeposit tr_frame)),
       1 \<mapsto> tr_flight KReturn tr_return (FDone [1] True) (Some (CHelper 77))] {77} {} 1 {77} {} {})"
    using tr_execute [OF 1, where i = 1] by simp
  from refund_only_after_deposit [OF this] this show ?thesis by (metis tr_fields(4) less_numeral_extra(1))
qed

theorem completed_request_never_refunded_witness:
  "\<exists>W. bw_reachable tr_codec True W \<and> 77 \<in> bw_ok W \<and> 77 \<in> bw_bridged W \<and> bw_refunds W 77 = 0"
proof -
  have ok: "77 \<in> bw_ok (tr_world None Map.empty {77} {77} 0 {} {77} {})" by simp
  from completed_request_never_refunded [OF tr_completed [of True] ok] tr_completed [of True] ok
  show ?thesis by blast
qed

theorem bridged_not_refunded_without_timeout_witness:
  "\<exists>W. bw_reachable tr_codec False W \<and> 77 \<in> bw_bridged W \<and> bw_refunds W 77 = 0"
proof -
  have bri: "77 \<in> bw_bridged (tr_world None Map.empty {77} {77} 0 {} {77} {})" by simp
  from bridged_not_refunded_without_timeout [OF tr_completed bri] tr_completed [of False] bri
  show ?thesis by blast
qed

text \<open>
  Property C36. Two refunds of one deposit: after a deposit whose call ran out of gas, two recovery
  calls in a row both send the tokens back, since the recovery accepts a request whose return
  message is still under way, and both messages are executed.
\<close>

theorem double_refund_reachable:
  "\<exists>W. bw_reachable tr_codec False W \<and> 77 \<in> bw_deposited W \<and> bw_refunds W 77 = 2"
proof -
  let ?d = "tr_flight KDeposit tr_deposit (FReplied True) None"
  let ?r = "\<lambda>st. tr_flight KReturn tr_return st (Some (CHelper 77))"
  have 1: "bw_reachable tr_codec False (tr_world (Some (TokenDepositCompleted True)) [0 \<mapsto> ?d] {77} {} 0 {} {} {})"
    using tr_out_of_gas [OF tr_deposited, where i = 0] by simp
  have 2: "bw_reachable tr_codec False (tr_world (Some SendingMessageToReturnTokens)
      [0 \<mapsto> ?d, 1 \<mapsto> ?r FSent] {77} {} 0 {77} {} {})"
    using bw_next [OF 1 tr_recover [of _ _ 1]] by simp
  have 3: "bw_reachable tr_codec False (tr_world (Some SendingMessageToReturnTokens)
      [0 \<mapsto> ?d, 1 \<mapsto> ?r FSent, 2 \<mapsto> ?r FSent] {77} {} 0 {77} {} {})"
    using bw_next [OF 2 tr_recover [of _ _ 2]] by simp
  have 4: "bw_reachable tr_codec False (tr_world (Some SendingMessageToReturnTokens)
      ([0 \<mapsto> ?d, 1 \<mapsto> ?r FSent, 2 \<mapsto> ?r FSent](1 \<mapsto> ?r (FDone [1] True))) {77} {} 1 {77} {} {})"
    using tr_execute [OF 3, where i = 1] by simp
  have "bw_reachable tr_codec False (tr_world (Some SendingMessageToReturnTokens)
      ([0 \<mapsto> ?d, 1 \<mapsto> ?r FSent, 2 \<mapsto> ?r FSent](1 \<mapsto> ?r (FDone [1] True), 2 \<mapsto> ?r (FDone [1] True)))
      {77} {} 2 {77} {} {})"
    using tr_execute [OF 4, where i = 2] by (simp add: numeral_2_eq_2)
  then show ?thesis by - (rule exI, rule conjI, assumption, simp)
qed

text \<open>
  Property C37. Refunded and bridged: when the wait for the bridge times out, the tokens are sent
  back although the message may still be executed by the bridge afterwards.
\<close>

theorem timeout_refund_and_bridge_reachable:
  "\<exists>W. bw_reachable tr_codec True W \<and> 77 \<in> bw_bridged W \<and> bw_refunds W 77 = 1"
proof -
  let ?b = "\<lambda>st. tr_flight KBridge tr_bridge st None"
  let ?r = "\<lambda>st. tr_flight KReturn tr_return st (Some (CReturn tr_frame ReplyFailure))"
  have 1: "bw_reachable tr_codec True (tr_world (Some SendingMessageToReturnTokens)
      [1 \<mapsto> ?b FSent, 2 \<mapsto> ?r FSent] {77} {} 0 {77} {} {77})"
    using bw_next [OF tr_bridging tr_bridge_timeout [where i = 1 and j = 2]] by simp
  have 2: "bw_reachable tr_codec True (tr_world (Some SendingMessageToReturnTokens)
      [1 \<mapsto> ?b FSent, 2 \<mapsto> ?r (FDone [1] True)] {77} {} 1 {77} {} {77})"
    using tr_execute [OF 1, where i = 2] by simp
  have "bw_reachable tr_codec True (tr_world (Some SendingMessageToReturnTokens)
      ([1 \<mapsto> ?b FSent, 2 \<mapsto> ?r (FDone [1] True)](1 \<mapsto> ?b (FDone [1] True))) {77} {77} 1 {77} {} {77})"
    using tr_execute [OF 2, where i = 1] by simp
  then show ?thesis by - (rule exI, rule conjI, assumption, simp)
qed

end
