(* ===== verification/Submit_Receipt.thy ===== *)
theory Submit_Receipt
  imports Request_Bridging
begin

text \<open>
  Bridging from Ethereum to Gear (\<open>services/submit_receipt\<close>): a receipt that the historical proxy has
  checked is decoded, looked up among the processed transactions, and paid by a message to the VFT
  program; the transaction is recorded when the reply arrives. The decoders of receipts and of the
  event are third-party code and are parameters.
\<close>

definition TX_HISTORY_DEPTH :: nat where "TX_HISTORY_DEPTH = 50000000"
definition SIZE_FILL_TRANSACTIONS_STEP :: nat where "SIZE_FILL_TRANSACTIONS_STEP = 50000"

record eth_log =
  log_address :: h160
  log_topics :: "h256 list"
  log_data :: bytes

record receipt_envelope =
  rc_is_success :: bool
  rc_logs :: "eth_log list"

record bridging_event =
  ev_to :: actor_id
  ev_token :: h160
  ev_amount :: u256

record receipt_env =
  decode_receipt :: "bytes \<Rightarrow> receipt_envelope option"
  decode_log_data :: "eth_log \<Rightarrow> bridging_event option"

section \<open>Processed transactions\<close>

definition tx_check :: "nat \<Rightarrow> 'k::linorder set \<Rightarrow> 'k \<Rightarrow> vft_error + unit" where
  "tx_check depth txs key =
     (if key \<in> txs then Inl AlreadyProcessed
      else if card txs \<ge> depth \<and> (if txs = {} then False else key < Min txs)
      then Inl TransactionTooOld
      else Inr ())"

definition tx_record :: "nat \<Rightarrow> 'k::linorder set \<Rightarrow> 'k \<Rightarrow> 'k set" where
  "tx_record depth txs key =
     insert key (if depth \<le> card txs then (if txs = {} then txs else txs - {Min txs}) else txs)"

definition fill_transactions :: "vft_program \<Rightarrow> (bool \<times> vft_program) exec" where
  "fill_transactions p =
     (let txs = vp_transactions p in
      if TX_HISTORY_DEPTH \<le> card txs then Ret (False, p)
      else if txs = {} then Panic ''called `Option::unwrap()` on a `None` value''
      else let cnt = min (TX_HISTORY_DEPTH - card txs) SIZE_FILL_TRANSACTIONS_STEP;
               last = fst (Max txs)
           in Ret (True, p\<lparr>vp_transactions :=
                foldl (\<lambda>ts i. insert (last + 1, of_nat i) ts) txs [0..<cnt]\<rparr>))"

section \<open>The handler\<close>

definition sr_find_event ::
  "receipt_env \<Rightarrow> vft_program \<Rightarrow> eth_log list \<Rightarrow> (actor_id \<times> bridging_event) option" where
  "sr_find_event E p logs =
     find_map (\<lambda>log.
       case decode_log_data E log of
         None \<Rightarrow> None
       | Some event \<Rightarrow>
           (case get_vara_token_id (st_token_map (vp_state p)) (ev_token event) of
              Inl _ \<Rightarrow> None
            | Inr vara_token_id \<Rightarrow>
                if erc20_manager_address p = log_address log then Some (vara_token_id, event)
                else None)) logs"

text \<open>The two messages have no gas limit of their own.\<close>

definition sr_send :: "vft_config \<Rightarrow> actor_id \<Rightarrow> program_call \<Rightarrow> outgoing" where
  "sr_send config token_id call = \<lparr>
     out_dest = token_id, out_call = call, out_gas = None, out_value = 0,
     out_reply_deposit = gas_for_reply_deposit config, out_timeout = reply_timeout config\<rparr>"

definition sr_mint :: "vft_config \<Rightarrow> actor_id \<Rightarrow> actor_id \<Rightarrow> u256 \<Rightarrow> outgoing" where
  "sr_mint config token_id receiver amount = sr_send config token_id (CallMint receiver amount)"

definition sr_unlock :: "vft_config \<Rightarrow> actor_id \<Rightarrow> actor_id \<Rightarrow> actor_id \<Rightarrow> u256 \<Rightarrow> outgoing" where
  "sr_unlock config program_id token_id receiver amount =
     sr_send config token_id (CallTransferFrom program_id receiver amount)"

definition submit_receipt_begin ::
  "receipt_env \<Rightarrow> actor_id \<Rightarrow> actor_id \<Rightarrow> send_status \<Rightarrow> vft_program \<Rightarrow> u64 \<Rightarrow> u64 \<Rightarrow> bytes \<Rightarrow>
     ((tx_key \<times> token_supply) \<times> outgoing) begun" where
  "submit_receipt_begin E program_id sender send p slot transaction_index receipt_rlp =
     begin_bind (ensure_running p) (\<lambda>_.
     if sender \<noteq> st_historical_proxy_address (vp_state p) then Refused NotHistoricalProxy
     else begin_bind (ok_or (decode_receipt E receipt_rlp) NotSupportedEvent) (\<lambda>receipt.
     if \<not> rc_is_success receipt then Refused NotSupportedEvent
     else begin_bind (ok_or (sr_find_event E p (rc_logs receipt)) NotSupportedEvent)
       (\<lambda>(vara_token_id, event).
     let key = (slot, transaction_index) in
     begin_bind (tx_check TX_HISTORY_DEPTH (vp_transactions p) key) (\<lambda>_.
     let amount = ev_amount event; receiver = ev_to event in
     begin_bind (get_supply_type (st_token_map (vp_state p)) vara_token_id) (\<lambda>supply.
     begin_sending (vp_config p) send ((key, supply), case supply of
         SupplyEthereum \<Rightarrow> sr_mint (vp_config p) vara_token_id receiver amount
       | SupplyGear \<Rightarrow> sr_unlock (vp_config p) program_id vara_token_id receiver amount))))))"

definition sr_reply_ok :: "reply_codec \<Rightarrow> token_supply \<Rightarrow> bytes \<Rightarrow> unit exec" where
  "sr_reply_ok C supply bytes =
     (case supply of
        SupplyEthereum \<Rightarrow>
          (case mint_reply C bytes of
             None \<Rightarrow> Panic ''May fail only if there is no VFT-program at the specified address; qed''
           | Some _ \<Rightarrow> Ret ())
      | SupplyGear \<Rightarrow>
          (case transfer_from_reply C bytes of
             None \<Rightarrow> Panic ''May fail only if there is no VFT-program at the specified address; qed''
           | Some reply \<Rightarrow> ensure reply ''Request to transfer tokens failed''))"

definition sr_handle_reply ::
  "reply_codec \<Rightarrow> tx_key \<times> token_supply \<Rightarrow> bytes \<Rightarrow> vft_program \<Rightarrow> (unit \<times> vft_program) exec" where
  "sr_handle_reply C fr reply_bytes p =
     exec_bind (sr_reply_ok C (snd fr) reply_bytes) (\<lambda>_.
       Ret ((), p\<lparr>vp_transactions := tx_record TX_HISTORY_DEPTH (vp_transactions p) (fst fr)\<rparr>))"

definition submit_receipt_after :: "bool \<Rightarrow> vft_error + unit" where
  "submit_receipt_after reply_ok = (if reply_ok then Inr () else Inl ReplyFailure)"

section \<open>Worlds\<close>

datatype sr_stage = SSent | SDone bytes

record sr_flight =
  sf_frame :: "tx_key \<times> token_supply"
  sf_out :: outgoing
  sf_hook :: bool
  sf_stage :: sr_stage

record sr_world =
  sw_prog :: vft_program
  sw_flights :: "nat \<rightharpoonup> sr_flight"
  sw_paid :: "tx_key \<Rightarrow> nat"

definition sr_success :: "reply_codec \<Rightarrow> token_supply \<Rightarrow> bytes \<Rightarrow> bool" where
  "sr_success C supply bytes \<longleftrightarrow> sr_reply_ok C supply bytes = Ret ()"

text \<open>
  \<open>serial\<close> says whether a receipt is submitted only when no payment is under way. \<open>live\<close> says whether
  the configuration lets the program see every reply: the timeout and the reply deposit are not zero
  when a receipt is submitted, and the deposit pays for the reply hook. Otherwise a payment may be
  sent that is not awaited, and a reply may come without the hook being run. As before a reply
  reports success exactly when the tokens were paid.
\<close>

inductive sr_step :: "receipt_env \<Rightarrow> reply_codec \<Rightarrow> bool \<Rightarrow> bool \<Rightarrow> sr_world \<Rightarrow> sr_world \<Rightarrow> bool"
  for E C serial live where
  sr_submit: "submit_receipt_begin E program_id sender send (sw_prog W) slot ix rlp = Begun (fr, out) \<Longrightarrow>
    sw_flights W i = None \<Longrightarrow> (serial \<longrightarrow> sw_flights W = Map.empty) \<Longrightarrow>
    (live \<longrightarrow> config_live (vp_config (sw_prog W))) \<Longrightarrow>
    sr_step E C serial live W (W\<lparr>sw_flights := (sw_flights W)(i \<mapsto>
      \<lparr>sf_frame = fr, sf_out = out, sf_hook = True, sf_stage = SSent\<rparr>)\<rparr>)"
| sr_orphan: "submit_receipt_begin E program_id sender send (sw_prog W) slot ix rlp = Orphaned e (fr, out) \<Longrightarrow>
    sw_flights W i = None \<Longrightarrow> (serial \<longrightarrow> sw_flights W = Map.empty) \<Longrightarrow>
    (live \<longrightarrow> config_live (vp_config (sw_prog W))) \<Longrightarrow>
    sr_step E C serial live W (W\<lparr>sw_flights := (sw_flights W)(i \<mapsto>
      \<lparr>sf_frame = fr, sf_out = out, sf_hook = False, sf_stage = SSent\<rparr>)\<rparr>)"
| sr_execute: "sw_flights W i = Some f \<Longrightarrow> sf_stage f = SSent \<Longrightarrow>
    sr_step E C serial live W (W\<lparr>
      sw_flights := (sw_flights W)(i \<mapsto> f\<lparr>sf_stage := SDone bytes\<rparr>),
      sw_paid := (if sr_success C (snd (sf_frame f)) bytes
        then (sw_paid W)(fst (sf_frame f) := Suc (sw_paid W (fst (sf_frame f)))) else sw_paid W)\<rparr>)"
| sr_reply: "sw_flights W i = Some f \<Longrightarrow> sf_stage f = SDone bytes \<Longrightarrow> sf_hook f \<Longrightarrow>
    sr_step E C serial live W (W\<lparr>
      sw_flights := (sw_flights W)(i := None),
      sw_prog := commit (sw_prog W) (sr_handle_reply C (sf_frame f) bytes (sw_prog W))\<rparr>)"
| sr_unhooked: "sw_flights W i = Some f \<Longrightarrow> sf_stage f = SDone bytes \<Longrightarrow> \<not> sf_hook f \<or> \<not> live \<Longrightarrow>
    sr_step E C serial live W (W\<lparr>sw_flights := (sw_flights W)(i := None)\<rparr>)"
| sr_other: "vp_transactions p = vp_transactions (sw_prog W) \<Longrightarrow>
    sr_step E C serial live W (W\<lparr>sw_prog := p\<rparr>)"

inductive sr_reachable :: "receipt_env \<Rightarrow> reply_codec \<Rightarrow> bool \<Rightarrow> bool \<Rightarrow> sr_world \<Rightarrow> bool"
  for E C serial live where
  sr_start: "vp_transactions p = {} \<Longrightarrow>
    sr_reachable E C serial live \<lparr>sw_prog = p, sw_flights = Map.empty, sw_paid = (\<lambda>_. 0)\<rparr>"
| sr_next: "sr_reachable E C serial live W \<Longrightarrow> sr_step E C serial live W W' \<Longrightarrow>
    sr_reachable E C serial live W'"

section \<open>The history of processed transactions\<close>

text \<open>
  The stored keys are the processed ones, except that when the store is full the processed keys
  that were dropped are older than every stored one.
\<close>

definition history_ok :: "nat \<Rightarrow> 'k::linorder set \<Rightarrow> 'k set \<Rightarrow> bool" where
  "history_ok depth T S \<longleftrightarrow> finite T \<and> T \<subseteq> S \<and> card T \<le> depth
     \<and> (T \<noteq> S \<longrightarrow> card T = depth \<and> (\<forall>e \<in> S - T. \<forall>t \<in> T. e < t))"

lemma tx_check_Inr_iff:
  "tx_check depth T k = Inr u \<longleftrightarrow> k \<notin> T \<and> (depth \<le> card T \<and> T \<noteq> {} \<longrightarrow> Min T \<le> k)"
  by (cases "T = {}") (simp_all add: tx_check_def linorder_not_le linorder_not_less)

lemma history_check:
  assumes "history_ok depth T S" and "0 < depth" and "tx_check depth T k = Inr u"
  shows "k \<notin> S"
proof
  assume "k \<in> S"
  with assms(3) have ST: "T \<noteq> S" "k \<in> S - T" by (auto simp: tx_check_Inr_iff)
  with assms(1) have full: "card T = depth" "\<forall>t \<in> T. k < t" by (auto simp: history_ok_def)
  then have "T \<noteq> {}" using assms(2) by auto
  moreover have "finite T" using assms(1) by (simp add: history_ok_def)
  ultimately have "k < Min T" using full(2) by simp
  moreover have "Min T \<le> k" using assms(3) full(1) \<open>T \<noteq> {}\<close> by (simp only: tx_check_Inr_iff) simp
  ultimately show False by simp
qed

lemma history_record:
  assumes hist: "history_ok depth T S" and pos: "0 < depth" and check: "tx_check depth T k = Inr u"
  shows "history_ok depth (tx_record depth T k) (insert k S)"
proof (cases "depth \<le> card T")
  case False
  with hist have "T = S" by (auto simp: history_ok_def)
  with hist False check show ?thesis
    by (auto simp: history_ok_def tx_record_def tx_check_Inr_iff)
next
  case True
  with hist have full: "finite T" "card T = depth" "T \<subseteq> S" "\<forall>e \<in> S - T. \<forall>t \<in> T. e < t"
    by (auto simp: history_ok_def)
  with pos have ne: "T \<noteq> {}" by auto
  with full have minT: "Min T \<in> T" "\<forall>t \<in> T - {Min T}. Min T < t" by (auto simp: less_le)
  have "Min T \<le> k" and k': "k \<notin> T" using check True ne by (simp_all only: tx_check_Inr_iff simp_thms)
  moreover have "Min T \<noteq> k" using k' minT(1) by blast
  ultimately have k: "Min T < k" "k \<notin> T" by simp_all
  have rec: "tx_record depth T k = insert k (T - {Min T})" using True ne by (simp add: tx_record_def)
  have "card (insert k (T - {Min T})) = depth"
    using full(1,2) k(2) minT(1) pos by (simp add: card_Diff_singleton)
  moreover have "e < t" if e: "e \<in> insert k S - insert k (T - {Min T})" and t: "t \<in> insert k (T - {Min T})"
    for e t
  proof -
    have "e \<le> Min T" using e minT(1) full(4) by (auto simp: less_imp_le)
    also have "Min T < t" using t k(1) minT(2) by auto
    finally show ?thesis .
  qed
  ultimately show ?thesis using full(1,3) by (auto simp: history_ok_def rec)
qed

section \<open>Invariants of the worlds\<close>

definition sr_pending :: "reply_codec \<Rightarrow> sr_world \<Rightarrow> tx_key set" where
  "sr_pending C W = {fst (sf_frame f) |i f b. sw_flights W i = Some f \<and> sf_stage f = SDone b
     \<and> sr_success C (snd (sf_frame f)) b}"

definition sr_settled :: "reply_codec \<Rightarrow> sr_world \<Rightarrow> tx_key set" where
  "sr_settled C W = {k. 0 < sw_paid W k} - sr_pending C W"

definition sr_inv :: "reply_codec \<Rightarrow> sr_world \<Rightarrow> bool" where
  "sr_inv C W \<longleftrightarrow>
     (\<forall>i j. sw_flights W i \<noteq> None \<longrightarrow> sw_flights W j \<noteq> None \<longrightarrow> i = j)
     \<and> (\<forall>i f. sw_flights W i = Some f \<longrightarrow> sf_hook f)
     \<and> (\<forall>k. sw_paid W k \<le> 1)
     \<and> history_ok TX_HISTORY_DEPTH (vp_transactions (sw_prog W)) (sr_settled C W)
     \<and> (\<forall>i f. sw_flights W i = Some f \<longrightarrow>
          tx_check TX_HISTORY_DEPTH (vp_transactions (sw_prog W)) (fst (sf_frame f)) = Inr ())
     \<and> (\<forall>k \<in> sr_pending C W. 0 < sw_paid W k)"

lemma sr_invD:
  assumes "sr_inv C W"
  shows "sw_flights W i = Some f \<Longrightarrow> sw_flights W = [i \<mapsto> f]" "sw_paid W k \<le> 1"
    "history_ok TX_HISTORY_DEPTH (vp_transactions (sw_prog W)) (sr_settled C W)"
    "sw_flights W i = Some f \<Longrightarrow>
       tx_check TX_HISTORY_DEPTH (vp_transactions (sw_prog W)) (fst (sf_frame f)) = Inr ()"
    "k \<in> sr_pending C W \<Longrightarrow> 0 < sw_paid W k"
    "sw_flights W i = Some f \<Longrightarrow> sf_hook f"
proof -
  show "sw_flights W = [i \<mapsto> f]" if "sw_flights W i = Some f"
  proof
    fix j
    have "sw_flights W j = None" if "j \<noteq> i"
      using assms \<open>sw_flights W i = Some f\<close> that unfolding sr_inv_def by (metis option.distinct(1))
    with that show "sw_flights W j = [i \<mapsto> f] j" by (cases "j = i") simp_all
  qed
qed (use assms in \<open>unfold sr_inv_def, blast+\<close>)

lemma depth_pos: "0 < TX_HISTORY_DEPTH"
  by (simp add: TX_HISTORY_DEPTH_def)

lemmas submit_begin_simps =
  submit_receipt_begin_def begin_bind_iff begin_sending_iff ok_or_Inr_iff Let_def

lemma submit_begin_check:
  "begun_message (submit_receipt_begin E program_id sender send p slot ix rlp) = Some (fr, out) \<Longrightarrow>
   fst fr = (slot, ix) \<and> tx_check TX_HISTORY_DEPTH (vp_transactions p) (slot, ix) = Inr ()"
  by (auto simp: submit_begin_simps split: if_splits prod.splits)

lemma submit_orphaned:
  "submit_receipt_begin E program_id sender send p slot ix rlp = Orphaned e x \<Longrightarrow>
   \<not> config_live (vp_config p)"
  by (auto simp: submit_begin_simps split: if_splits prod.splits dest: send_for_reply_Unawaited)

lemma sr_inv_step:
  assumes "sr_step E C True True W W'" and "sr_inv C W"
  shows "sr_inv C W'"
  using assms
proof induction
  case (sr_submit program_id sender send W slot ix rlp fr out i)
  then have empty: "sw_flights W = Map.empty" by simp
  have "begun_message (submit_receipt_begin E program_id sender send (sw_prog W) slot ix rlp)
      = Some (fr, out)" by (simp add: sr_submit.hyps(1))
  from submit_begin_check [OF this] sr_submit.prems empty show ?case
    by (auto simp: sr_inv_def sr_settled_def sr_pending_def)
next
  case (sr_orphan program_id sender send W slot ix rlp e fr out i)
  with submit_orphaned [OF sr_orphan.hyps(1)] show ?case by simp
next
  case (sr_execute W i f bytes)
  let ?k = "fst (sf_frame f)"
  note inv = sr_invD [OF sr_execute.prems]
  note single = inv(1) [OF sr_execute.hyps(1)]
  have pend: "sr_pending C W = {}" using single sr_execute.hyps by (auto simp: sr_pending_def split: if_splits)
  have "?k \<notin> sr_settled C W"
    by (rule history_check [OF inv(3) depth_pos inv(4) [OF sr_execute.hyps(1)]])
  then have zero: "sw_paid W ?k = 0" using pend by (simp add: sr_settled_def)
  let ?W = "W\<lparr>sw_flights := (sw_flights W)(i \<mapsto> f\<lparr>sf_stage := SDone bytes\<rparr>),
      sw_paid := (if sr_success C (snd (sf_frame f)) bytes
        then (sw_paid W)(?k := Suc (sw_paid W ?k)) else sw_paid W)\<rparr>"
  have pend': "sr_pending C ?W = (if sr_success C (snd (sf_frame f)) bytes then {?k} else {})"
    using single by (auto simp: sr_pending_def split: if_splits)
  then have "sr_settled C ?W = sr_settled C W" using pend zero by (auto simp: sr_settled_def)
  moreover have "sw_flights ?W = [i \<mapsto> f\<lparr>sf_stage := SDone bytes\<rparr>]" using single by simp
  ultimately show ?case
    using inv(2,3) inv(4,6) [OF sr_execute.hyps(1)] pend' zero
    by (auto simp: sr_inv_def split: if_splits)
next
  case (sr_reply W i f bytes)
  let ?k = "fst (sf_frame f)"
  note inv = sr_invD [OF sr_reply.prems]
  note single = inv(1) [OF sr_reply.hyps(1)] and check = inv(4) [OF sr_reply.hyps(1)] and hist = inv(3)
  have pend: "sr_pending C W = (if sr_success C (snd (sf_frame f)) bytes then {?k} else {})"
    using single sr_reply.hyps by (auto simp: sr_pending_def split: if_splits)
  let ?p = "commit (sw_prog W) (sr_handle_reply C (sf_frame f) bytes (sw_prog W))"
  let ?W = "W\<lparr>sw_flights := (sw_flights W)(i := None), sw_prog := ?p\<rparr>"
  have pend': "sr_pending C ?W = {}" using single by (auto simp: sr_pending_def)
  have "history_ok TX_HISTORY_DEPTH (vp_transactions ?p) (sr_settled C ?W)"
  proof (cases "sr_success C (snd (sf_frame f)) bytes")
    case True
    then have p: "vp_transactions ?p = tx_record TX_HISTORY_DEPTH (vp_transactions (sw_prog W)) ?k"
      by (simp add: sr_handle_reply_def sr_success_def)
    have "sr_settled C ?W = insert ?k (sr_settled C W)"
      using True pend pend' inv(5) by (auto simp: sr_settled_def)
    with p history_record [OF hist depth_pos check] show ?thesis by simp
  next
    case False
    then have "?p = sw_prog W"
      by (cases "sr_reply_ok C (snd (sf_frame f)) bytes") (auto simp: sr_handle_reply_def sr_success_def)
    moreover have "sr_settled C ?W = sr_settled C W" using False pend pend' by (simp add: sr_settled_def)
    ultimately show ?thesis using hist by simp
  qed
  moreover have "sw_flights ?W = Map.empty" using single by simp
  ultimately show ?case using inv(2) pend' by (simp add: sr_inv_def)
next
  case (sr_unhooked W i f bytes)
  with sr_invD(6) [OF sr_unhooked.prems] show ?case by simp
next
  case (sr_other p W)
  then show ?case by (simp add: sr_inv_def sr_settled_def sr_pending_def)
qed

lemma sr_reachable_inv: "sr_reachable E C True True W \<Longrightarrow> sr_inv C W"
proof (induction rule: sr_reachable.induct)
  case (sr_start p)
  then show ?case
    by (simp add: sr_inv_def history_ok_def sr_settled_def sr_pending_def)
next
  case (sr_next W W')
  then show ?case by (blast intro: sr_inv_step)
qed

section \<open>Properties\<close>

text \<open>What the handler has checked when it sends a payment.\<close>

lemma submit_receipt_begin_payment:
  assumes "begun_message (submit_receipt_begin E program_id sender send p slot ix rlp)
    = Some ((key, supply), out)"
  shows "\<not> st_is_paused (vp_state p) \<and> sender = st_historical_proxy_address (vp_state p)
    \<and> key = (slot, ix) \<and> key \<notin> vp_transactions p
    \<and> (\<exists>receipt log event vara. decode_receipt E rlp = Some receipt \<and> rc_is_success receipt
        \<and> log \<in> set (rc_logs receipt) \<and> log_address log = st_erc20_manager_address (vp_state p)
        \<and> decode_log_data E log = Some event
        \<and> eth_to_vara (st_token_map (vp_state p)) (ev_token event) = Some vara
        \<and> get_supply_type (st_token_map (vp_state p)) vara = Inr supply
        \<and> out_dest out = vara
        \<and> out_call out = (case supply of
             SupplyEthereum \<Rightarrow> CallMint (ev_to event) (ev_amount event)
           | SupplyGear \<Rightarrow> CallTransferFrom program_id (ev_to event) (ev_amount event)))"
proof -
  from assms obtain receipt vara event where
    run: "ensure_running p = Inr ()" "sender = st_historical_proxy_address (vp_state p)"
    and rc: "decode_receipt E rlp = Some receipt" "rc_is_success receipt"
    and ev: "sr_find_event E p (rc_logs receipt) = Some (vara, event)"
    and tx: "key = (slot, ix)" "tx_check TX_HISTORY_DEPTH (vp_transactions p) key = Inr ()"
    and sup: "get_supply_type (st_token_map (vp_state p)) vara = Inr supply"
    and out: "out = (case supply of
        SupplyEthereum \<Rightarrow> sr_mint (vp_config p) vara (ev_to event) (ev_amount event)
      | SupplyGear \<Rightarrow> sr_unlock (vp_config p) program_id vara (ev_to event) (ev_amount event))"
    by (auto simp: submit_begin_simps split: if_splits prod.splits)
  from find_map_SomeD [OF ev [unfolded sr_find_event_def]] obtain log where
    log_in: "log \<in> set (rc_logs receipt)" and found: "(case decode_log_data E log of None \<Rightarrow> None
       | Some event \<Rightarrow> (case get_vara_token_id (st_token_map (vp_state p)) (ev_token event) of
            Inl _ \<Rightarrow> None
          | Inr v \<Rightarrow> if erc20_manager_address p = log_address log then Some (v, event) else None))
      = Some (vara, event)" by blast
  from found obtain ev' where ev': "decode_log_data E log = Some ev'"
    by (cases "decode_log_data E log") auto
  with found have log: "log \<in> set (rc_logs receipt)" "decode_log_data E log = Some event"
      "eth_to_vara (st_token_map (vp_state p)) (ev_token event) = Some vara"
      "log_address log = st_erc20_manager_address (vp_state p)"
    using log_in
    by (cases "eth_to_vara (st_token_map (vp_state p)) (ev_token ev')";
        auto simp: get_vara_token_id_def erc20_manager_address_def split: if_splits)+
  have "\<not> st_is_paused (vp_state p)" using run(1) by (auto simp: ensure_running_def split: if_splits)
  moreover have "key \<notin> vp_transactions p" using tx(2) by (simp add: tx_check_Inr_iff)
  moreover have "out_dest out = vara" "out_call out = (case supply of
             SupplyEthereum \<Rightarrow> CallMint (ev_to event) (ev_amount event)
           | SupplyGear \<Rightarrow> CallTransferFrom program_id (ev_to event) (ev_amount event))"
    using out by (auto simp: sr_mint_def sr_unlock_def sr_send_def split: token_supply.splits)
  ultimately show ?thesis using run(2) rc tx(1) sup log by blast
qed

text \<open>
  Property C9. A payment is sent, awaited or not, only by a running program, for a receipt that the historical proxy
  has submitted, of a successful transaction that was not processed before, and it pays exactly
  what a \<open>BridgingRequested\<close> event of the ERC20 manager says: the amount, to the receiver, in the VFT
  token that the event's ERC20 token is mapped to, minted or unlocked according to its supply.
\<close>

theorem receipt_pays_logged_event:
  assumes "begun_message (submit_receipt_begin E program_id sender send p slot ix rlp)
    = Some ((key, supply), out)"
  shows "\<not> st_is_paused (vp_state p) \<and> sender = st_historical_proxy_address (vp_state p)
    \<and> key = (slot, ix) \<and> key \<notin> vp_transactions p
    \<and> (\<exists>receipt log event vara. decode_receipt E rlp = Some receipt \<and> rc_is_success receipt
        \<and> log \<in> set (rc_logs receipt) \<and> log_address log = st_erc20_manager_address (vp_state p)
        \<and> decode_log_data E log = Some event
        \<and> eth_to_vara (st_token_map (vp_state p)) (ev_token event) = Some vara
        \<and> get_supply_type (st_token_map (vp_state p)) vara = Inr supply
        \<and> out_dest out = vara
        \<and> out_call out = (case supply of
             SupplyEthereum \<Rightarrow> CallMint (ev_to event) (ev_amount event)
           | SupplyGear \<Rightarrow> CallTransferFrom program_id (ev_to event) (ev_amount event)))"
  using assms by (rule submit_receipt_begin_payment)

definition sr_sample_program :: vft_program where
  "sr_sample_program = sample_program\<lparr>vp_state := (vp_state sample_program)\<lparr>st_token_map :=
     \<lparr>vara_to_eth = [5 \<mapsto> (7, SupplyGear)], eth_to_vara = [7 \<mapsto> 5]\<rparr>\<rparr>\<rparr>"

definition sr_sample_env :: receipt_env where
  "sr_sample_env = \<lparr>
     decode_receipt = (\<lambda>bs. Some \<lparr>rc_is_success = True,
       rc_logs = [\<lparr>log_address = 200, log_topics = [], log_data = bs\<rparr>]\<rparr>),
     decode_log_data = (\<lambda>log. Some \<lparr>ev_to = 44, ev_token = 7, ev_amount = 1000\<rparr>)\<rparr>"

definition sr_sample_codec :: reply_codec where
  "sr_sample_codec = \<lparr>burn_reply = (\<lambda>_. Some ()), mint_reply = (\<lambda>_. Some ()),
     transfer_from_reply = (\<lambda>_. Some True), bridge_response = (\<lambda>_. None)\<rparr>"

definition sr_sample_out :: outgoing where
  "sr_sample_out = sr_unlock sample_config 99 5 44 1000"

definition sr_unawaited_program :: vft_program where
  "sr_unawaited_program = sr_sample_program\<lparr>vp_config := sample_config\<lparr>reply_timeout := 0\<rparr>\<rparr>"

definition sr_unawaited_out :: outgoing where
  "sr_unawaited_out = sr_unlock (sample_config\<lparr>reply_timeout := 0\<rparr>) 99 5 44 1000"

lemmas sr_sample_simps = submit_receipt_begin_def ensure_running_def sr_unawaited_program_def
  sr_sample_program_def sample_program_def vft_seed_def sr_sample_env_def sr_find_event_def
  get_vara_token_id_def get_supply_type_def erc20_manager_address_def tx_check_def sr_sample_out_def
  sr_unawaited_out_def begin_sending_def send_for_reply_def

lemma sr_sample_begin:
  "submit_receipt_begin sr_sample_env 99 400 SendOk sr_sample_program 8192 3 []
     = Begun (((8192, 3), SupplyGear), sr_sample_out)"
  "submit_receipt_begin sr_sample_env 99 400 SendOk sr_unawaited_program 8192 3 []
     = Orphaned ReplyTimeout (((8192, 3), SupplyGear), sr_unawaited_out)"
  by (simp_all add: sr_sample_simps) (simp_all add: sample_config_def)

theorem receipt_pays_logged_event_witness:
  "begun_message (submit_receipt_begin sr_sample_env 99 400 SendOk sr_sample_program 8192 3 [])
     = Some (((8192, 3), SupplyGear), sr_sample_out)
   \<and> out_call sr_sample_out = CallTransferFrom 99 44 1000"
proof -
  have run: "begun_message (submit_receipt_begin sr_sample_env 99 400 SendOk sr_sample_program 8192 3 [])
     = Some (((8192, 3), SupplyGear), sr_sample_out)" by (simp add: sr_sample_begin(1))
  from receipt_pays_logged_event [OF run] run show ?thesis by (auto simp: sr_sample_env_def)
qed

text \<open>
  Property C4. When receipts are submitted one after another, with a configuration under which the
  program sees every reply (a timeout and a reply deposit that are not zero, and a deposit that pays
  for the reply hook), every Ethereum transaction is paid at most once, even when the bounded history
  drops the oldest keys: what it drops is refused as too old from then on.
\<close>

theorem receipts_paid_once:
  assumes "sr_reachable E C True True W"
  shows "sw_paid W key \<le> 1"
  using sr_invD(2) [OF sr_reachable_inv [OF assms]] .

definition sr_sample_flight :: "sr_stage \<Rightarrow> sr_flight" where
  "sr_sample_flight st =
     \<lparr>sf_frame = ((8192, 3), SupplyGear), sf_out = sr_sample_out, sf_hook = True, sf_stage = st\<rparr>"

definition sr_orphan_flight :: "sr_stage \<Rightarrow> sr_flight" where
  "sr_orphan_flight st =
     \<lparr>sf_frame = ((8192, 3), SupplyGear), sf_out = sr_unawaited_out, sf_hook = False, sf_stage = st\<rparr>"

definition sr_sample_world :: "vft_program \<Rightarrow> (nat \<rightharpoonup> sr_flight) \<Rightarrow> nat \<Rightarrow> sr_world" where
  "sr_sample_world p F n = \<lparr>sw_prog = p, sw_flights = F, sw_paid = (\<lambda>_. 0)((8192, 3) := n)\<rparr>"

abbreviation "sr_sample_reachable \<equiv> sr_reachable sr_sample_env sr_sample_codec"

lemma sr_sample_start:
  "sr_sample_reachable serial live (sr_sample_world sr_sample_program Map.empty 0)"
  "sr_sample_reachable serial live (sr_sample_world sr_unawaited_program Map.empty 0)"
  using sr_start [of sr_sample_program sr_sample_env sr_sample_codec serial live]
    sr_start [of sr_unawaited_program sr_sample_env sr_sample_codec serial live]
  by (simp_all add: sr_sample_world_def sr_sample_program_def sr_unawaited_program_def
      sample_program_def vft_seed_def fun_upd_idem)

lemma sr_sample_submit:
  assumes "sr_sample_reachable serial live (sr_sample_world sr_sample_program F n)"
    and "F i = None" and "serial \<longrightarrow> F = Map.empty"
  shows "sr_sample_reachable serial live
    (sr_sample_world sr_sample_program (F(i \<mapsto> sr_sample_flight SSent)) n)"
proof -
  have live: "config_live (vp_config sr_sample_program)"
    by (simp add: sr_sample_program_def sample_program_def sample_config_def config_live_def vft_seed_def)
  let ?W = "sr_sample_world sr_sample_program F n"
  have "sr_step sr_sample_env sr_sample_codec serial live ?W
      (?W\<lparr>sw_flights := (sw_flights ?W)(i \<mapsto> sr_sample_flight SSent)\<rparr>)"
    unfolding sr_sample_flight_def
    by (rule sr_submit [where sender = 400 and program_id = 99 and rlp = "[]" and send = SendOk])
      (use sr_sample_begin(1) assms live in \<open>simp_all add: sr_sample_world_def\<close>)
  from sr_next [OF assms(1) this] show ?thesis by (simp add: sr_sample_world_def)
qed

lemma sr_orphan_submit:
  assumes "sr_sample_reachable serial False (sr_sample_world sr_unawaited_program Map.empty n)"
  shows "sr_sample_reachable serial False
    (sr_sample_world sr_unawaited_program [i \<mapsto> sr_orphan_flight SSent] n)"
proof -
  let ?W = "sr_sample_world sr_unawaited_program Map.empty n"
  have "sr_step sr_sample_env sr_sample_codec serial False ?W
      (?W\<lparr>sw_flights := (sw_flights ?W)(i \<mapsto> sr_orphan_flight SSent)\<rparr>)"
    unfolding sr_orphan_flight_def
    by (rule sr_orphan [where sender = 400 and program_id = 99 and rlp = "[]" and send = SendOk])
      (use sr_sample_begin(2) in \<open>simp_all add: sr_sample_world_def\<close>)
  from sr_next [OF assms(1) this] show ?thesis by (simp add: sr_sample_world_def)
qed

lemma sr_sample_execute:
  assumes "sr_sample_reachable serial live (sr_sample_world p F n)"
    and "F i = Some f" and "sf_stage f = SSent" and "sf_frame f = ((8192, 3), SupplyGear)"
  shows "sr_sample_reachable serial live
    (sr_sample_world p (F(i \<mapsto> f\<lparr>sf_stage := SDone []\<rparr>)) (Suc n))"
proof -
  have "sr_success sr_sample_codec SupplyGear []"
    by (simp add: sr_success_def sr_reply_ok_def sr_sample_codec_def)
  with sr_next [OF assms(1) sr_execute [of _ i f _ _ _ _ "[]"]] assms(2-4)
  show ?thesis by (simp add: sr_sample_world_def)
qed

lemma sr_sample_once:
  "sr_sample_reachable serial live
     (sr_sample_world sr_sample_program [0 \<mapsto> sr_sample_flight (SDone [])] 1)"
proof -
  have "sr_sample_reachable serial live (sr_sample_world sr_sample_program [0 \<mapsto> sr_sample_flight SSent] 0)"
    using sr_sample_submit [OF sr_sample_start(1), where i = 0] by simp
  from sr_sample_execute [OF this, of 0 "sr_sample_flight SSent"] show ?thesis
    by (simp add: sr_sample_flight_def)
qed

theorem receipts_paid_once_witness:
  "sr_sample_reachable True True
     (sr_sample_world sr_sample_program [0 \<mapsto> sr_sample_flight (SDone [])] 1)
   \<and> sw_paid (sr_sample_world sr_sample_program [0 \<mapsto> sr_sample_flight (SDone [])] 1) (8192, 3) \<le> 1"
  using receipts_paid_once [OF sr_sample_once] sr_sample_once by blast

text \<open>
  Property C38. Receipts that overlap are paid twice: the transaction is recorded only when the reply
  of the VFT program arrives, so that the same receipt, submitted again before that, passes the
  check and is paid again.
\<close>

theorem overlapping_receipts_paid_twice:
  "\<exists>W. sr_reachable sr_sample_env sr_sample_codec False True W \<and> sw_paid W (8192, 3) = 2"
proof -
  let ?f = "sr_sample_flight"
  have 2: "sr_sample_reachable False True
      (sr_sample_world sr_sample_program [0 \<mapsto> ?f (SDone []), 1 \<mapsto> ?f SSent] 1)"
    using sr_sample_submit [OF sr_sample_once [of False True], where i = 1] by simp
  have "sr_sample_reachable False True
      (sr_sample_world sr_sample_program ([0 \<mapsto> ?f (SDone []), 1 \<mapsto> ?f SSent]
        (1 \<mapsto> (?f SSent)\<lparr>sf_stage := SDone []\<rparr>)) 2)"
    using sr_sample_execute [OF 2, of 1 "?f SSent"] by (simp add: sr_sample_flight_def numeral_2_eq_2)
  then show ?thesis by - (rule exI, rule conjI, assumption, simp add: sr_sample_world_def)
qed

text \<open>
  A payment that is sent but not awaited is never recorded. With a timeout of zero in the
  configuration every submission of the receipt answers \<open>ReplyTimeout\<close>, and every one of them pays,
  also when they come one after another.
\<close>

lemma unawaited_receipts_paid_again:
  assumes "sr_sample_reachable True False (sr_sample_world sr_unawaited_program Map.empty n)"
  shows "sr_sample_reachable True False (sr_sample_world sr_unawaited_program Map.empty (Suc n))"
proof -
  let ?f = "(sr_orphan_flight SSent)\<lparr>sf_stage := SDone []\<rparr>"
  have 1: "sr_sample_reachable True False (sr_sample_world sr_unawaited_program [0 \<mapsto> ?f] (Suc n))"
    using sr_sample_execute [OF sr_orphan_submit [OF assms, of 0], of 0 "sr_orphan_flight SSent"]
    by (simp add: sr_orphan_flight_def)
  have "sr_step sr_sample_env sr_sample_codec True False
      (sr_sample_world sr_unawaited_program [0 \<mapsto> ?f] (Suc n))
      ((sr_sample_world sr_unawaited_program [0 \<mapsto> ?f] (Suc n))\<lparr>sw_flights :=
        (sw_flights (sr_sample_world sr_unawaited_program [0 \<mapsto> ?f] (Suc n)))(0 := None)\<rparr>)"
    by (rule sr_unhooked [where f = ?f and bytes = "[]"])
      (simp_all add: sr_sample_world_def sr_orphan_flight_def)
  from sr_next [OF 1 this] show ?thesis by (simp add: sr_sample_world_def)
qed

theorem unawaited_receipts_paid_any_number:
  "\<exists>W. sr_reachable sr_sample_env sr_sample_codec True False W \<and> sw_paid W (8192, 3) = n"
proof -
  have "sr_sample_reachable True False (sr_sample_world sr_unawaited_program Map.empty n)"
    by (induction n) (simp_all add: sr_sample_start unawaited_receipts_paid_again)
  then show ?thesis by - (rule exI, rule conjI, assumption, simp add: sr_sample_world_def)
qed

end
