(* ===== verification/Ssz_Types.thy ===== *)
theory Ssz_Types
  imports Eth_Consensus
begin

text \<open>
  The SSZ base types of \<open>ethereum-common/src/base_types\<close>: bit vectors and bit lists with their
  byte encodings, bounded lists, fixed arrays and byte lists, and their tree hash roots
  (\<open>utils.rs\<close>). The streaming Merkle hasher and the roots of the primitive types belong to the
  crate \<open>tree_hash\<close> and are parameters; the locale \<open>merkle_hasher\<close> is the part of its contract
  that the sources rely on.
\<close>

section \<open>Bits and bytes\<close>

definition BITS_PER_BYTE :: nat where "BITS_PER_BYTE = 8"

definition div_ceil :: "nat \<Rightarrow> nat \<Rightarrow> nat" where
  "div_ceil a b = (a + b - 1) div b"

definition bytes_for_bit_len :: "nat \<Rightarrow> nat" where
  "bytes_for_bit_len bit_len = max 1 (div_ceil bit_len BITS_PER_BYTE)"

definition bitlist_byte_length :: "nat \<Rightarrow> nat" where
  "bitlist_byte_length bound = (bound + BITS_PER_BYTE - 1 + 1) div BITS_PER_BYTE"

function chunks :: "nat \<Rightarrow> 'a list \<Rightarrow> 'a list list" where
  "chunks n xs = (if n = 0 \<or> xs = [] then [] else take n xs # chunks n (drop n xs))"
  by pat_completeness auto
termination
  by (relation "measure (\<lambda>(n, xs). length xs)") auto

declare chunks.simps [simp del]

text \<open>
  The bits of one element, in the order \<open>Lsb0\<close>: \<open>load\<close> reads at most eight of them as a byte and
  \<open>store_le\<close> writes the low bits of a byte into a slot of the given width.
\<close>

definition load_bits :: "bool list \<Rightarrow> u8" where
  "load_bits bits = horner_sum of_bool 2 bits"

definition store_le :: "nat \<Rightarrow> u8 \<Rightarrow> bool list" where
  "store_le width byte = map (bit byte) [0..<width]"

datatype bits_error =
    InvalidByte u8
  | AdditionalInput nat nat
  | ExpectedFurtherInput nat nat
  | Bounded nat nat

section \<open>Bit vectors\<close>

definition bitvector_default :: "nat \<Rightarrow> bool list exec" where
  "bitvector_default N = (if 0 < N then Ret (replicate N False) else Panic ''assertion failed: N > 0'')"

definition bits_get :: "bool list \<Rightarrow> nat \<Rightarrow> bool option" where
  "bits_get v i = nth_opt v i"

definition bits_set :: "bool list \<Rightarrow> nat \<Rightarrow> bool \<Rightarrow> bool option \<times> bool list" where
  "bits_set v i b = (if i < length v then (Some (v ! i), v[i := b]) else (None, v))"

definition bitvector_as_bytes :: "bool list \<Rightarrow> bytes" where
  "bitvector_as_bytes v = map load_bits (chunks BITS_PER_BYTE v)"

definition store_chunks :: "bool list \<Rightarrow> bytes \<Rightarrow> bool list" where
  "store_chunks v bytes =
     concat (map (\<lambda>(slot, byte). store_le (length slot) byte) (zip (chunks BITS_PER_BYTE v) bytes))"

definition bitvector_from_bytes :: "nat \<Rightarrow> bytes \<Rightarrow> (bits_error + bool list) exec" where
  "bitvector_from_bytes N bytes =
     (let expected_length = bytes_for_bit_len N in
      if length bytes < expected_length
      then Ret (Inl (ExpectedFurtherInput (length bytes) expected_length))
      else if expected_length < length bytes
      then Ret (Inl (AdditionalInput (length bytes) expected_length))
      else exec_bind (bitvector_default N) (\<lambda>blank.
        let result = store_chunks blank bytes; remainder_count = N mod BITS_PER_BYTE in
        if remainder_count \<noteq> 0 \<and> drop_bit remainder_count (last bytes) \<noteq> 0
        then Ret (Inl (InvalidByte (last bytes)))
        else Ret (Inr result)))"

section \<open>Bit lists\<close>

fun trailing_zeros :: "bool list \<Rightarrow> nat" where
  "trailing_zeros bits = length (takeWhile Not (rev bits))"

definition bitlist_try_from :: "nat \<Rightarrow> bytes \<Rightarrow> bits_error + bool list" where
  "bitlist_try_from N encoding =
     (if encoding = [] then Inl (ExpectedFurtherInput 0 1)
      else let last_byte = last encoding; prefix = butlast encoding;
               max_len = bitlist_byte_length N in
        if max_len < length encoding then Inl (AdditionalInput (length encoding) max_len)
        else if last_byte = 0 then Inl (InvalidByte last_byte)
        else let result = concat (map (store_le BITS_PER_BYTE) prefix);
                 last_bits = store_le BITS_PER_BYTE last_byte;
                 bit_length = BITS_PER_BYTE - trailing_zeros last_bits;
                 additional_members = bit_length - 1;
                 total_members = length result + additional_members
             in if N < total_members then Inl (Bounded N total_members)
                else Inr (result @ take additional_members last_bits))"

definition bitlist_from_bools :: "nat \<Rightarrow> bool list \<Rightarrow> bits_error + bool list" where
  "bitlist_from_bools N value =
     (if N < length value then Inl (Bounded N (length value)) else Inr value)"

section \<open>Round trips of the byte encodings\<close>

lemma chunks_Nil [simp]: "chunks n [] = []"
  by (simp add: chunks.simps)

lemma chunks_step: "0 < n \<Longrightarrow> xs \<noteq> [] \<Longrightarrow> chunks n xs = take n xs # chunks n (drop n xs)"
  by (simp add: chunks.simps [of n xs])

lemma chunks_induct [consumes 1, case_names Nil step]:
  assumes "0 < n" and "P []" and "\<And>xs. xs \<noteq> [] \<Longrightarrow> P (drop n xs) \<Longrightarrow> P xs"
  shows "P xs"
  using assms(1)
proof (induction xs rule: length_induct)
  case (1 xs)
  then show ?case using assms by (cases "xs = []") auto
qed

lemma byte_chunks_induct [case_names Nil step]:
  "P [] \<Longrightarrow> (\<And>xs. xs \<noteq> [] \<Longrightarrow> P (drop 8 xs) \<Longrightarrow> P xs) \<Longrightarrow> P xs"
  by (rule chunks_induct [of 8]) auto

lemma concat_chunks:
  assumes n: "0 < n"
  shows "concat (chunks n xs) = xs"
  using n
proof (induction xs rule: chunks_induct)
  case (step xs)
  with n show ?case by (simp add: chunks_step [of n xs])
qed simp

lemma div_ceil_step:
  assumes "0 < n" and "0 < k"
  shows "div_ceil k n = Suc (div_ceil (k - n) n)"
proof (cases "n \<le> k")
  case True
  then have "k + n - 1 = (k - n + n - 1) + n" using assms by simp
  then have "(k + n - 1) div n = Suc ((k - n + n - 1) div n)"
    using assms(1) by (metis Suc_eq_plus1 div_add_self2 less_numeral_extra(3))
  then show ?thesis by (simp only: div_ceil_def)
next
  case False
  then have "(k + n - 1) div n = 1" using assms(2) by (intro div_nat_eqI) auto
  with False show ?thesis using assms(1) by (simp add: div_ceil_def)
qed

lemma length_chunks:
  assumes n: "0 < n"
  shows "length (chunks n xs) = div_ceil (length xs) n"
  using n
proof (induction xs rule: chunks_induct)
  case (step xs)
  with n show ?case by (simp add: chunks_step [of n xs] div_ceil_step [of n "length xs"])
qed (use n in \<open>simp add: div_ceil_def\<close>)

lemma bit_load_bits: "length bits \<le> 8 \<Longrightarrow> bit (load_bits bits) i \<longleftrightarrow> i < length bits \<and> bits ! i"
  by (auto simp: load_bits_def bit_horner_sum_bit_word_iff)

lemma store_le_load [simp]: "length bits \<le> 8 \<Longrightarrow> store_le (length bits) (load_bits bits) = bits"
  by (rule nth_equalityI) (simp_all add: store_le_def bit_load_bits)

lemma length_store_le [simp]: "length (store_le n b) = n"
  by (simp add: store_le_def)

lemma load_store_le: "n \<le> 8 \<Longrightarrow> drop_bit n b = 0 \<or> n = 8 \<Longrightarrow> load_bits (store_le n b) = b"
proof (rule bit_eqI)
  fix i
  assume le: "n \<le> 8" and high: "drop_bit n b = 0 \<or> n = 8"
  have "\<not> bit b i" if "n \<le> i" "i < 8"
    using high that bit_drop_bit_eq [of n b] by (auto simp: fun_eq_iff) (metis le_add_diff_inverse bit_0_eq bot_fun_def bot_bool_def comp_apply)
  then show "bit (load_bits (store_le n b)) i \<longleftrightarrow> bit b i" if "possible_bit TYPE(u8) i"
    using le that by (cases "i < n") (auto simp: bit_load_bits store_le_def)
qed

text \<open>
  Storing bytes into a blank vector, slot by slot; the last slot may be narrower than a byte.
\<close>

lemma store_chunks_load:
  assumes "length blank = length v"
  shows "store_chunks blank (bitvector_as_bytes v) = v"
  using assms
proof (induction v arbitrary: blank rule: byte_chunks_induct)
  case (step v)
  then have ne: "blank \<noteq> []" by auto
  from step have "store_chunks (drop 8 blank) (bitvector_as_bytes (drop 8 v)) = drop 8 v" by simp
  then show ?case
    using step.hyps step.prems ne append_take_drop_id [of 8 v]
    store_le_load [of "take 8 v"]
    by (simp add: store_chunks_def bitvector_as_bytes_def BITS_PER_BYTE_def chunks_step [of 8 v]
        chunks_step [of 8 blank])
qed (simp_all add: store_chunks_def bitvector_as_bytes_def)

lemma load_store_chunks:
  assumes "length bytes = div_ceil N 8" and "N mod 8 \<noteq> 0 \<Longrightarrow> drop_bit (N mod 8) (last bytes) = 0"
    and "length blank = N"
  shows "bitvector_as_bytes (store_chunks blank bytes) = bytes"
  using assms
proof (induction blank arbitrary: N bytes rule: byte_chunks_induct)
  case Nil
  then show ?case by (simp add: store_chunks_def bitvector_as_bytes_def div_ceil_def)
next
  case (step blank)
  from step.hyps step.prems(3) have N: "0 < N" by auto
  with step.prems(1) obtain b bs where bytes: "bytes = b # bs" "length bs = div_ceil (N - 8) 8"
    by (cases bytes) (auto simp: div_ceil_step [of 8 N])
  have split: "store_chunks blank bytes = store_le (length (take 8 blank)) b @ store_chunks (drop 8 blank) bs"
    using step.hyps by (simp add: store_chunks_def bytes BITS_PER_BYTE_def chunks_step [of 8 blank])
  show ?case
  proof (cases "N \<le> 8")
    case True
    then have "bs = []" using bytes(2) by (simp add: div_ceil_def)
    moreover have "load_bits (store_le N b) = b"
      using step.prems(2) True N \<open>bs = []\<close> bytes by (intro load_store_le) (auto simp: le_less)
    moreover have "store_le N b \<noteq> []" using N by (simp add: store_le_def)
    ultimately show ?thesis
      using True split step.prems(3) bytes
      by (simp add: bitvector_as_bytes_def BITS_PER_BYTE_def chunks_step store_chunks_def)
  next
    case False
    have ne: "bs \<noteq> []" using bytes(2) False by (auto simp: div_ceil_def)
    have "bitvector_as_bytes (store_chunks (drop 8 blank) bs) = bs"
      using step.IH [of bs "N - 8"] bytes step.prems False ne
      by (auto simp: mod_if [of N])
    moreover have "bitvector_as_bytes (store_le 8 b @ w) = b # bitvector_as_bytes w" for w
      by (simp add: bitvector_as_bytes_def BITS_PER_BYTE_def chunks_step [of 8 "store_le 8 b @ w"]
          load_store_le length_greater_0_conv [symmetric] del: length_greater_0_conv)
    ultimately show ?thesis using False split step.prems(3) bytes(1) by (simp add: min_def)
  qed
qed

text \<open>
  The encoding of a bit list appends a marker bit; the decoder finds it as the highest bit of the
  last byte.
\<close>

lemma bitvector_as_bytes_Cons:
  "bitvector_as_bytes (store_le 8 b @ w) = b # bitvector_as_bytes w"
  by (simp add: bitvector_as_bytes_def BITS_PER_BYTE_def chunks_step [of 8 "store_le 8 b @ w"]
      load_store_le length_greater_0_conv [symmetric] del: length_greater_0_conv)

lemma bitvector_as_bytes_append:
  "bitvector_as_bytes (concat (map (store_le 8) prefix) @ w) = prefix @ bitvector_as_bytes w"
  by (induction prefix) (simp_all add: bitvector_as_bytes_Cons)

lemma bitvector_as_bytes_short:
  "bits \<noteq> [] \<Longrightarrow> length bits \<le> 8 \<Longrightarrow> bitvector_as_bytes bits = [load_bits bits]"
  by (simp add: bitvector_as_bytes_def BITS_PER_BYTE_def chunks_step [of 8 bits])

lemma store_le_load_pad:
  "length bits \<le> 8 \<Longrightarrow> store_le 8 (load_bits bits) = bits @ replicate (8 - length bits) False"
  by (rule nth_equalityI) (auto simp: store_le_def bit_load_bits nth_append)

lemma load_bits_pad: "length bits + k \<le> 8 \<Longrightarrow> load_bits (bits @ replicate k False) = load_bits bits"
  by (rule bit_eqI) (auto simp: bit_load_bits nth_append)

lemma trailing_zeros_marker: "trailing_zeros (bits @ True # replicate k False) = k"
  by (simp add: takeWhile_append)

lemma marker_split:
  assumes "b \<noteq> (0 :: u8)"
  obtains bits k where "store_le 8 b = bits @ True # replicate k False" "length bits + k = 7"
proof -
  have "\<exists>i < 8. bit b i"
  proof (rule ccontr)
    assume "\<not> (\<exists>i < 8. bit b i)"
    then have "b = 0" by (intro bit_word_eqI) auto
    with assms show False by simp
  qed
  then have "True \<in> set (rev (store_le 8 b))" by (auto simp: store_le_def image_iff)
  then obtain us vs where split: "rev (store_le 8 b) = us @ True # vs" "True \<notin> set us"
    by (meson split_list_first)
  then have "us = replicate (length us) False"
    by (metis (full_types) replicate_length_same)
  then have eq: "store_le 8 b = rev vs @ True # replicate (length us) False"
    using arg_cong [OF split(1), of rev] by (metis append.assoc append_Cons append_Nil rev.simps(2) rev_append rev_rev_ident rev_replicate)
  then have "length (rev vs) + length us = 7"
    using length_store_le [of 8 b] by simp
  with eq show thesis by (rule that)
qed

lemma length_concat_bytes [simp]: "length (concat (map (store_le n) bs)) = n * length bs"
  by (induction bs) simp_all

lemma bitlist_byte_length_eq: "bitlist_byte_length N = Suc (N div 8)"
  by (simp add: bitlist_byte_length_def BITS_PER_BYTE_def)

lemma bitlist_try_from_snoc:
  assumes "length bits + k = 7"
  shows "bitlist_try_from N (prefix @ [load_bits (bits @ [True])])
    = (if N div 8 < length prefix then Inl (AdditionalInput (Suc (length prefix)) (Suc (N div 8)))
       else if N < 8 * length prefix + length bits
       then Inl (Bounded N (8 * length prefix + length bits))
       else Inr (concat (map (store_le 8) prefix) @ bits))"
proof -
  have last: "store_le 8 (load_bits (bits @ [True])) = bits @ True # replicate k False"
    using assms store_le_load_pad [of "bits @ [True]"] by simp
  have "bit (load_bits (bits @ [True])) (length bits)"
    using assms by (simp add: bit_load_bits)
  then have "load_bits (bits @ [True]) \<noteq> 0" by (metis bit_0_eq bot_apply bot_bool_def)
  moreover have "trailing_zeros (bits @ True # replicate k False) = k"
    by (rule trailing_zeros_marker)
  moreover have "8 - k - Suc 0 = length bits" using assms by simp
  ultimately show ?thesis
    by (simp add: bitlist_try_from_def Let_def BITS_PER_BYTE_def bitlist_byte_length_eq last
        del: trailing_zeros.simps)
qed

lemma bitvector_from_bytes_eq:
  assumes "0 < N"
  shows "bitvector_from_bytes N bytes = Ret (
    if length bytes < div_ceil N 8 then Inl (ExpectedFurtherInput (length bytes) (div_ceil N 8))
    else if div_ceil N 8 < length bytes then Inl (AdditionalInput (length bytes) (div_ceil N 8))
    else if N mod 8 \<noteq> 0 \<and> drop_bit (N mod 8) (last bytes) \<noteq> 0 then Inl (InvalidByte (last bytes))
    else Inr (store_chunks (replicate N False) bytes))"
proof -
  have "1 \<le> div_ceil N 8" using assms by (simp add: div_ceil_def)
  then have "bytes_for_bit_len N = div_ceil N 8"
    by (simp add: bytes_for_bit_len_def BITS_PER_BYTE_def max_def)
  then show ?thesis
    using assms by (simp add: bitvector_from_bytes_def Let_def bitvector_default_def BITS_PER_BYTE_def)
qed

lemma length_store_chunks:
  "length bytes = div_ceil (length blank) 8 \<Longrightarrow> length (store_chunks blank bytes) = length blank"
proof (induction blank arbitrary: bytes rule: byte_chunks_induct)
  case Nil
  then show ?case by (simp add: store_chunks_def)
next
  case (step blank)
  then obtain b bs where bytes: "bytes = b # bs" "length bs = div_ceil (length blank - 8) 8"
    by (cases bytes) (auto simp: div_ceil_step [of 8 "length blank"])
  have "store_chunks blank bytes = store_le (length (take 8 blank)) b @ store_chunks (drop 8 blank) bs"
    using step.hyps by (simp add: store_chunks_def bytes BITS_PER_BYTE_def chunks_step [of 8 blank])
  then show ?case using step.IH [of bs] bytes by simp
qed

lemma as_bytes_last_ok:
  assumes "v \<noteq> []" and "length v mod 8 \<noteq> 0"
  shows "drop_bit (length v mod 8) (last (bitvector_as_bytes v)) = 0"
  using assms
proof (induction v rule: byte_chunks_induct)
  case (step v)
  show ?case
  proof (cases "length v \<le> 8")
    case True
    with step.prems step.hyps have "length v mod 8 = length v"
      by (cases "length v = 8") auto
    with True step.hyps show ?thesis
      by (simp add: bitvector_as_bytes_short) (rule bit_eqI, simp add: bit_load_bits bit_drop_bit_eq)
  next
    case False
    then have "bitvector_as_bytes v = load_bits (take 8 v) # bitvector_as_bytes (drop 8 v)"
      using step.hyps by (simp add: bitvector_as_bytes_def BITS_PER_BYTE_def chunks_step [of 8 v])
    moreover have "bitvector_as_bytes (drop 8 v) \<noteq> []"
      using False by (simp add: bitvector_as_bytes_def BITS_PER_BYTE_def chunks_step [of 8 "drop 8 v"])
    moreover have "(length v - 8) mod 8 = length v mod 8"
      using False by (simp add: mod_if [of "length v"])
    ultimately show ?thesis using step.IH step.prems False by simp
  qed
qed simp

text \<open>A byte string decodes to a bit vector exactly when it is the encoding of
  that vector: decoding inverts encoding, no other byte string is accepted, and the decoder does
  not panic for a positive length.\<close>

theorem bitvector_roundtrip:
  assumes "0 < N"
  shows "(bitvector_from_bytes N bytes = Ret (Inr v)
      \<longleftrightarrow> length v = N \<and> bytes = bitvector_as_bytes v)
    \<and> \<not> panics (bitvector_from_bytes N bytes)"
proof -
  have "length v = N \<and> bytes = bitvector_as_bytes v"
    if run: "bitvector_from_bytes N bytes = Ret (Inr v)"
  proof -
    have ok: "length bytes = div_ceil N 8" "N mod 8 \<noteq> 0 \<Longrightarrow> drop_bit (N mod 8) (last bytes) = 0"
      and v: "v = store_chunks (replicate N False) bytes"
      using run assms by (auto simp: bitvector_from_bytes_eq split: if_splits)
    show ?thesis
      using load_store_chunks [OF ok, of "replicate N False"]
        length_store_chunks [of bytes "replicate N False"] ok(1) by (simp add: v)
  qed
  moreover have "bitvector_from_bytes N (bitvector_as_bytes v) = Ret (Inr v)" if "length v = N"
  proof -
    have "length (bitvector_as_bytes v) = div_ceil N 8"
      using that by (simp add: bitvector_as_bytes_def BITS_PER_BYTE_def length_chunks)
    moreover have "N mod 8 \<noteq> 0 \<longrightarrow> drop_bit (N mod 8) (last (bitvector_as_bytes v)) = 0"
      using as_bytes_last_ok [of v] assms that by auto
    moreover have "store_chunks (replicate N False) (bitvector_as_bytes v) = v"
      using that by (intro store_chunks_load) simp
    ultimately show ?thesis by (auto simp: bitvector_from_bytes_eq [OF assms])
  qed
  ultimately show ?thesis by (auto simp: bitvector_from_bytes_eq [OF assms])
qed

theorem bitvector_roundtrip_witness:
  "bitvector_from_bytes 10 [5, 2] = Ret (Inr [True, False, True, False, False, False, False, False, False, True])"
proof -
  have "bitvector_as_bytes [True, False, True, False, False, False, False, False, False, True] = [5, 2]"
    by (simp add: bitvector_as_bytes_def chunks.simps BITS_PER_BYTE_def load_bits_def)
  then show ?thesis
    using bitvector_roundtrip [of 10 "[5, 2]" "[True, False, True, False, False, False, False, False, False, True]"]
    by simp
qed

lemma concat_store_as_bytes:
  "length v mod 8 = 0 \<Longrightarrow> concat (map (store_le 8) (bitvector_as_bytes v)) = v"
proof (induction v rule: byte_chunks_induct)
  case (step v)
  then have len: "8 \<le> length v" by (cases "length v < 8") auto
  then have "(length v - 8) mod 8 = 0" using step.prems by (simp add: mod_if [of "length v"])
  moreover have "store_le 8 (load_bits (take 8 v)) = take 8 v"
    using store_le_load [of "take 8 v"] len by (simp add: min_absorb2)
  ultimately show ?case
    using step by (simp add: bitvector_as_bytes_def BITS_PER_BYTE_def chunks_step [of 8 v])
qed (simp add: bitvector_as_bytes_def)

text \<open>A byte string decodes to a bit list exactly when it is the list followed by its
  marker bit, packed into bytes, and the list is within its bound.\<close>

theorem bitlist_roundtrip:
  "bitlist_try_from N bytes = Inr v
     \<longleftrightarrow> length v \<le> N \<and> bytes = bitvector_as_bytes (v @ [True])"
proof
  assume run: "bitlist_try_from N bytes = Inr v"
  then have "bytes \<noteq> []" "last bytes \<noteq> 0"
    by (auto simp: bitlist_try_from_def Let_def split: if_splits)
  then obtain bits k where bits: "store_le 8 (last bytes) = bits @ True # replicate k False"
      "length bits + k = 7" by (metis marker_split)
  have "last bytes = load_bits (store_le 8 (last bytes))" by (simp add: load_store_le)
  also have "\<dots> = load_bits (bits @ [True])"
    using bits load_bits_pad [of "bits @ [True]" k] by simp
  finally have bytes: "bytes = butlast bytes @ [load_bits (bits @ [True])]"
    using \<open>bytes \<noteq> []\<close> by (metis append_butlast_last_id)
  have v: "v = concat (map (store_le 8) (butlast bytes)) @ bits" "length v \<le> N"
    using run by (subst (asm) bytes, auto simp: bitlist_try_from_snoc [OF bits(2)] split: if_splits)+
  then show "length v \<le> N \<and> bytes = bitvector_as_bytes (v @ [True])"
    using bits(2) bytes bitvector_as_bytes_append [of "butlast bytes" "bits @ [True]"]
    by (simp add: bitvector_as_bytes_short)
next
  assume v: "length v \<le> N \<and> bytes = bitvector_as_bytes (v @ [True])"
  define q where "q = length v div 8"
  define prefix where "prefix = bitvector_as_bytes (take (8 * q) v)"
  define bits where "bits = drop (8 * q) v"
  have short: "length bits + (7 - length v mod 8) = 7"
    by (simp add: bits_def q_def minus_mult_div_eq_mod)
  have full: "concat (map (store_le 8) prefix) = take (8 * q) v"
    unfolding prefix_def by (rule concat_store_as_bytes) (simp add: q_def min_absorb2)
  have v_split: "v = concat (map (store_le 8) prefix) @ bits" by (simp add: full bits_def)
  have q: "length prefix = q"
    using arg_cong [OF full, of length] by (simp add: q_def)
  have "bitvector_as_bytes (v @ [True]) = prefix @ bitvector_as_bytes (bits @ [True])"
    using bitvector_as_bytes_append [of prefix "bits @ [True]"] by (simp add: v_split)
  then have "bytes = prefix @ [load_bits (bits @ [True])]"
    using v short by (simp add: bitvector_as_bytes_short)
  moreover have "8 * length prefix + length bits = length v"
    using arg_cong [OF v_split, of length] by simp
  moreover have "q \<le> N div 8" using v by (simp add: q_def div_le_mono)
  ultimately show "bitlist_try_from N bytes = Inr v"
    using v v_split by (simp add: bitlist_try_from_snoc [OF short] q)
qed

section \<open>Tree hash roots of collections\<close>

text \<open>
  \<open>'a tree_hash\<close> is the trait \<open>TreeHash\<close> of an element type; \<open>'h merkle_api\<close> the streaming
  hasher, whose \<open>write\<close> and \<open>finish\<close> may fail.
\<close>

record 'a tree_hash =
  th_basic :: bool
  th_packing_factor :: nat
  th_packed_encoding :: "'a \<Rightarrow> bytes"
  th_root :: "'a \<Rightarrow> h256 exec"

record 'h merkle_api =
  mh_with_leaves :: "nat \<Rightarrow> 'h"
  mh_write :: "'h \<Rightarrow> bytes \<Rightarrow> 'h option"
  mh_finish :: "'h \<Rightarrow> h256 option"
  mh_mix_in_length :: "h256 \<Rightarrow> nat \<Rightarrow> h256"

definition expect :: "'a option \<Rightarrow> string \<Rightarrow> 'a exec" where
  "expect x m = (case x of None \<Rightarrow> Panic m | Some a \<Rightarrow> Ret a)"

fun write_items :: "'h merkle_api \<Rightarrow> ('a \<Rightarrow> bytes exec) \<Rightarrow> string \<Rightarrow> 'h \<Rightarrow> 'a list \<Rightarrow> 'h exec" where
  "write_items H enc msg h [] = Ret h"
| "write_items H enc msg h (x # xs) =
     exec_bind (enc x) (\<lambda>bs. exec_bind (expect (mh_write H h bs) msg) (\<lambda>h'. write_items H enc msg h' xs))"

definition vec_tree_hash_root ::
  "'h merkle_api \<Rightarrow> 'a tree_hash \<Rightarrow> nat \<Rightarrow> 'a list \<Rightarrow> h256 exec" where
  "vec_tree_hash_root H T N vec =
     (if th_basic T then
        exec_bind (write_items H (\<lambda>x. Ret (th_packed_encoding T x))
            ''ssz_types variable vec should not contain more elements than max''
            (mh_with_leaves H (div_ceil N (th_packing_factor T))) vec) (\<lambda>hasher.
          expect (mh_finish H hasher) ''ssz_types variable vec should not have a remaining buffer'')
      else
        exec_bind (write_items H (\<lambda>x. exec_bind (th_root T x) (\<lambda>r. Ret (be_bytes 32 r)))
            ''ssz_types vec should not contain more elements than max''
            (mh_with_leaves H N) vec) (\<lambda>hasher.
          expect (mh_finish H hasher) ''ssz_types vec should not have a remaining buffer''))"

definition bitfield_bytes_tree_hash_root :: "'h merkle_api \<Rightarrow> nat \<Rightarrow> bytes \<Rightarrow> h256 exec" where
  "bitfield_bytes_tree_hash_root H N bytes =
     (let byte_size = (N + 7) div 8; leaf_count = div_ceil byte_size 32 in
      exec_bind (expect (mh_write H (mh_with_leaves H leaf_count) bytes)
          ''bitfield should not exceed tree hash leaf limit'') (\<lambda>hasher.
        expect (mh_finish H hasher) ''bitfield tree hash buffer should not exceed leaf limit''))"

definition bitvector_tree_hash_root :: "'h merkle_api \<Rightarrow> nat \<Rightarrow> bool list \<Rightarrow> h256 exec" where
  "bitvector_tree_hash_root H N v = bitfield_bytes_tree_hash_root H N (bitvector_as_bytes v)"

text \<open>
  The root of a bit list is taken over \<open>as_raw_slice\<close>, the bytes that \<open>BitVec\<close> stores. The bits of the
  last byte past the length are left to that crate, so that the slice is kept beside the bits.
\<close>

record bit_list =
  bl_bits :: "bool list"
  bl_raw_slice :: bytes

definition bit_list_ok :: "bit_list \<Rightarrow> bool" where
  "bit_list_ok v \<longleftrightarrow> length (bl_raw_slice v) = div_ceil (length (bl_bits v)) BITS_PER_BYTE"

definition bitlist_tree_hash_root :: "'h merkle_api \<Rightarrow> nat \<Rightarrow> bit_list \<Rightarrow> h256 exec" where
  "bitlist_tree_hash_root H N v =
     exec_bind (bitfield_bytes_tree_hash_root H N (bl_raw_slice v))
       (\<lambda>root. Ret (mh_mix_in_length H root (length (bl_bits v))))"

section \<open>Bounded lists and fixed arrays\<close>

text \<open>A \<open>List<T, N>\<close> is its vector; the bound \<open>N\<close> is an argument of the operations.\<close>

datatype list_error = UnableToConstruct nat nat | DecodeFailed | DecodedTooLong

definition list_try_from :: "nat \<Rightarrow> 'a list \<Rightarrow> list_error + 'a list" where
  "list_try_from N data = (if N < length data then Inl (UnableToConstruct N (length data)) else Inr data)"

definition list_default :: "nat \<Rightarrow> 'a list exec" where
  "list_default N = (case list_try_from N [] of
       Inl _ \<Rightarrow> Panic ''any List can be constructed from an empty Vec''
     | Inr data \<Rightarrow> Ret data)"

definition list_push :: "nat \<Rightarrow> 'a list \<Rightarrow> 'a \<Rightarrow> unit option \<times> 'a list" where
  "list_push N data element =
     (if length data < N then (Some (), data @ [element]) else (None, data))"

definition list_pop :: "'a list \<Rightarrow> 'a option \<times> 'a list" where
  "list_pop data = (if data = [] then (None, data) else (Some (last data), butlast data))"

definition list_clear :: "'a list \<Rightarrow> 'a list" where
  "list_clear data = []"

definition list_index :: "'a list \<Rightarrow> nat \<Rightarrow> 'a exec" where
  "list_index data i = expect (nth_opt data i) ''index out of bounds''"

definition list_index_mut :: "'a list \<Rightarrow> nat \<Rightarrow> 'a \<Rightarrow> 'a list exec" where
  "list_index_mut data i x =
     (if i < length data then Ret (data[i := x]) else Panic ''index out of bounds'')"

text \<open>The SCALE codec of vectors is a parameter; a decoder returns the rest of the input.\<close>

definition list_decode ::
  "nat \<Rightarrow> (bytes \<Rightarrow> ('a list \<times> bytes) option) \<Rightarrow> bytes \<Rightarrow> list_error + 'a list \<times> bytes" where
  "list_decode N decode_vec input =
     (case decode_vec input of
        None \<Rightarrow> Inl DecodeFailed
      | Some (data, rest) \<Rightarrow> if N < length data then Inl DecodedTooLong else Inr (data, rest))"

definition list_encode :: "('a list \<Rightarrow> bytes) \<Rightarrow> 'a list \<Rightarrow> bytes" where
  "list_encode encode_vec data = encode_vec data"

definition list_tree_hash_root :: "'h merkle_api \<Rightarrow> 'a tree_hash \<Rightarrow> nat \<Rightarrow> 'a list \<Rightarrow> h256 exec" where
  "list_tree_hash_root H T N data =
     exec_bind (vec_tree_hash_root H T N data) (\<lambda>root. Ret (mh_mix_in_length H root (length data)))"

definition fixed_array_try_from :: "nat \<Rightarrow> 'a list \<Rightarrow> 'a list option" where
  "fixed_array_try_from N data = (if length data = N then Some data else None)"

definition fixed_array_tree_hash_root :: "'h merkle_api \<Rightarrow> 'a tree_hash \<Rightarrow> nat \<Rightarrow> 'a list \<Rightarrow> h256 exec" where
  "fixed_array_tree_hash_root H T N data = vec_tree_hash_root H T N data"

definition byte_list_try_from :: "nat \<Rightarrow> bytes \<Rightarrow> list_error + bytes" where
  "byte_list_try_from N data = list_try_from N data"

definition byte_list_tree_hash_root :: "'h merkle_api \<Rightarrow> u8 tree_hash \<Rightarrow> nat \<Rightarrow> bytes \<Rightarrow> h256 exec" where
  "byte_list_tree_hash_root H T N data = list_tree_hash_root H T N data"

definition bytes_fixed_tree_hash_root :: "'h merkle_api \<Rightarrow> u8 tree_hash \<Rightarrow> nat \<Rightarrow> bytes \<Rightarrow> h256 exec" where
  "bytes_fixed_tree_hash_root H T N data = fixed_array_tree_hash_root H T N data"

section \<open>Roots of bounded collections are defined\<close>

text \<open>
  What the sources rely on. A hasher takes 32 bytes for each of its leaves, at least as many as asked
  for; a write that stays within them succeeds and is added to what was written; finishing succeeds
  when the bytes written, the last ones padded to a leaf, fit into the leaves. Nothing is promised of
  a hasher that was given more bytes.
\<close>

locale merkle_hasher =
  fixes H :: "'h merkle_api" and leaves :: "'h \<Rightarrow> nat" and written :: "'h \<Rightarrow> nat"
  assumes new_leaves: "n \<le> leaves (mh_with_leaves H n)" and new_written: "written (mh_with_leaves H n) = 0"
    and write_ok: "written h + length bs \<le> 32 * leaves h \<Longrightarrow>
      \<exists>h'. mh_write H h bs = Some h' \<and> written h' = written h + length bs \<and> leaves h' = leaves h"
    and finish_ok: "written h \<le> 32 * leaves h \<Longrightarrow> \<exists>r. mh_finish H h = Some r"
begin

lemma finish_expect: "written h \<le> 32 * leaves h \<Longrightarrow> \<exists>r. expect (mh_finish H h) m = Ret r"
  using finish_ok [of h] by (auto simp: expect_def)

lemma write_items_defined:
  assumes "\<forall>x \<in> set xs. \<exists>bs. enc x = Ret bs \<and> length bs \<le> k" and "written h + k * length xs \<le> 32 * leaves h"
  shows "\<exists>h'. write_items H enc msg h xs = Ret h' \<and> written h' \<le> 32 * leaves h'"
  using assms
proof (induction xs arbitrary: h)
  case (Cons x xs)
  then obtain bs where bs: "enc x = Ret bs" "length bs \<le> k" by auto
  with Cons.prems(2) have "written h + length bs \<le> 32 * leaves h" by simp
  then obtain h' where h': "mh_write H h bs = Some h'" "written h' = written h + length bs" "leaves h' = leaves h"
    using write_ok by blast
  have "written h' + k * length xs \<le> 32 * leaves h'" using Cons.prems(2) bs(2) h'(2,3) by simp
  with Cons.IH Cons.prems(1) obtain h'' where "write_items H enc msg h' xs = Ret h''" "written h'' \<le> 32 * leaves h''" by fastforce
  with bs h' show ?case by (auto simp: expect_def)
qed simp

lemma written_items_root:
  assumes "\<forall>x \<in> set xs. \<exists>bs. enc x = Ret bs \<and> length bs \<le> k" and "k * length xs \<le> 32 * n"
  shows "\<exists>r. exec_bind (write_items H enc msg (mh_with_leaves H n) xs) (\<lambda>hasher. expect (mh_finish H hasher) msg') = Ret r"
proof -
  have "k * length xs \<le> 32 * leaves (mh_with_leaves H n)" using assms(2) new_leaves [of n] by linarith
  with write_items_defined [OF assms(1), of "mh_with_leaves H n" msg] obtain h where
    "write_items H enc msg (mh_with_leaves H n) xs = Ret h" "written h \<le> 32 * leaves h" by (auto simp: new_written)
  with finish_expect [of h msg'] show ?thesis by auto
qed

lemma vec_root_defined:
  assumes "th_basic T \<Longrightarrow> 0 < th_packing_factor T"
    and "\<And>x. th_basic T \<Longrightarrow> length (th_packed_encoding T x) * th_packing_factor T \<le> 32"
    and "\<And>x. \<not> th_basic T \<Longrightarrow> x \<in> set xs \<Longrightarrow> \<exists>r. th_root T x = Ret r"
    and "length xs \<le> N"
  shows "\<exists>r. vec_tree_hash_root H T N xs = Ret r"
proof (cases "th_basic T")
  case True
  define pf where "pf = th_packing_factor T"
  have pf: "0 < pf" using assms(1) True by (simp add: pf_def)
  have "N \<le> div_ceil N pf * pf"
    using div_mult_mod_eq [of "N + pf - 1" pf] mod_less_divisor [OF pf, of "N + pf - 1"] pf
    unfolding div_ceil_def by linarith
  then have "(32 div pf) * length xs \<le> (32 div pf) * (div_ceil N pf * pf)"
    using assms(4) by (intro mult_le_mono2) simp
  also have "\<dots> \<le> 32 * div_ceil N pf" by (simp add: mult.assoc [symmetric] mult.commute)
  finally have fits: "(32 div pf) * length xs \<le> 32 * div_ceil N pf" .
  show ?thesis unfolding vec_tree_hash_root_def if_P [OF True] pf_def [symmetric]
    by (rule written_items_root [OF _ fits]) (use assms(2) [OF True] pf in \<open>auto simp: pf_def less_eq_div_iff_mult_less_eq\<close>)
next
  case False
  have fits: "32 * length xs \<le> 32 * N" using assms(4) by simp
  show ?thesis unfolding vec_tree_hash_root_def if_not_P [OF False]
    by (rule written_items_root [OF _ fits]) (use assms(3) [OF False] in \<open>fastforce simp: exec_bind_Ret_iff\<close>)
qed

lemma bitfield_root_defined:
  assumes "length bytes \<le> (N + 7) div 8"
  shows "\<exists>r. bitfield_bytes_tree_hash_root H N bytes = Ret r"
proof -
  let ?n = "div_ceil ((N + 7) div 8) 32"
  have "(N + 7) div 8 \<le> 32 * ?n" unfolding div_ceil_def by linarith
  with assms new_leaves [of ?n] have "written (mh_with_leaves H ?n) + length bytes \<le> 32 * leaves (mh_with_leaves H ?n)"
    unfolding new_written by linarith
  then obtain h where "mh_write H (mh_with_leaves H ?n) bytes = Some h" "written h \<le> 32 * leaves h" using write_ok by metis
  then show ?thesis
    using finish_expect [of h] by (simp add: bitfield_bytes_tree_hash_root_def Let_def expect_def [of "Some h"])
qed

end

text \<open>
  The hasher of the SSZ specification with the limits of the crate: the bytes written are cut into
  leaves of 32 bytes and hashed as a full binary tree. A write fails when it completes a leaf past the
  limit, and finishing fails when the padded rest is a leaf past the limit. \<open>mix_in_length\<close> hashes the
  root with the length as a little-endian number.
\<close>

record byte_buffer =
  bb_leaves :: nat
  bb_data :: bytes

definition leaf_at :: "bytes \<Rightarrow> nat \<Rightarrow> h256" where
  "leaf_at data i = of_be_bytes (take 32 (drop (32 * i) data @ replicate 32 0))"

fun tree_depth :: "nat \<Rightarrow> nat" where
  "tree_depth n = (if n \<le> 1 then 0 else Suc (tree_depth ((n + 1) div 2)))"

declare tree_depth.simps [simp del]

definition buffer_hasher :: "(bytes \<Rightarrow> h256) \<Rightarrow> byte_buffer merkle_api" where
  "buffer_hasher sha = \<lparr>
     mh_with_leaves = (\<lambda>n. \<lparr>bb_leaves = n, bb_data = []\<rparr>),
     mh_write = (\<lambda>h bs.
       if (length (bb_data h) + length bs) div 32 \<le> bb_leaves h
       then Some (h\<lparr>bb_data := bb_data h @ bs\<rparr>) else None),
     mh_finish = (\<lambda>h. if div_ceil (length (bb_data h)) 32 \<le> bb_leaves h
       then Some (tree_node sha (leaf_at (bb_data h)) (tree_depth (bb_leaves h)) 0) else None),
     mh_mix_in_length = (\<lambda>root n. sha (be_bytes 32 root @ le_bytes 32 (of_nat n :: u256)))\<rparr>"

interpretation buffer: merkle_hasher "buffer_hasher sha" bb_leaves "\<lambda>h. length (bb_data h)"
  by unfold_locales (auto simp: buffer_hasher_def div_ceil_def)

text \<open>Property C39. The tree hash root of a list, a fixed array, a bit vector or a bit list within its
  bound is defined: the bytes given to the hasher fit into the leaves asked for, so that neither a write
  nor \<open>finish\<close>, which fails when the padded rest exceeds the leaves, panics, for every element type whose
  own roots are defined.\<close>

theorem bounded_roots_defined:
  assumes "merkle_hasher H leaves written" and "length xs \<le> N" and "length bits \<le> M" and "length (bl_bits v) \<le> M" and "bit_list_ok v"
    and "th_basic T \<Longrightarrow> 0 < th_packing_factor T"
    and "\<And>x. th_basic T \<Longrightarrow> length (th_packed_encoding T x) * th_packing_factor T \<le> 32"
    and "\<And>x. \<not> th_basic T \<Longrightarrow> x \<in> set xs \<Longrightarrow> \<not> panics (th_root T x)"
  shows "\<not> panics (list_tree_hash_root H T N xs) \<and> \<not> panics (fixed_array_tree_hash_root H T N xs)
    \<and> \<not> panics (bitvector_tree_hash_root H M bits) \<and> \<not> panics (bitlist_tree_hash_root H M v)"
proof -
  have "\<exists>r. th_root T x = Ret r" if "\<not> th_basic T" "x \<in> set xs" for x
    using assms(8) [OF that] by (cases "th_root T x") auto
  with merkle_hasher.vec_root_defined [OF assms(1,6,7)] assms(2)
  obtain r where r: "vec_tree_hash_root H T N xs = Ret r" by metis
  have "length (bitvector_as_bytes bits) = (length bits + 7) div 8" "length (bl_raw_slice v) = (length (bl_bits v) + 7) div 8"
    using assms(5) by (simp_all add: bit_list_ok_def bitvector_as_bytes_def BITS_PER_BYTE_def length_chunks div_ceil_def)
  then have "length (bitvector_as_bytes bits) \<le> (M + 7) div 8" "length (bl_raw_slice v) \<le> (M + 7) div 8"
    using assms(3,4) by (simp_all add: div_le_mono)
  with merkle_hasher.bitfield_root_defined [OF assms(1)] obtain q q' where
    "bitfield_bytes_tree_hash_root H M (bitvector_as_bytes bits) = Ret q" "bitfield_bytes_tree_hash_root H M (bl_raw_slice v) = Ret q'" by blast
  with r show ?thesis
    by (simp add: list_tree_hash_root_def fixed_array_tree_hash_root_def bitvector_tree_hash_root_def
        bitlist_tree_hash_root_def)
qed

definition u8_tree_hash :: "u8 tree_hash" where
  "u8_tree_hash = \<lparr>th_basic = True, th_packing_factor = 32, th_packed_encoding = (\<lambda>b. [b]),
     th_root = (\<lambda>b. Ret (ucast b))\<rparr>"

theorem bounded_roots_defined_witness:
  "\<not> panics (list_tree_hash_root (buffer_hasher (\<lambda>bs. of_be_bytes bs)) u8_tree_hash 3 [1, 2, 3])
   \<and> mh_finish (buffer_hasher (\<lambda>bs. of_be_bytes bs)) \<lparr>bb_leaves = 1, bb_data = replicate 33 0\<rparr> = None"
  using bounded_roots_defined [OF buffer.merkle_hasher_axioms, of "[1, 2, 3]" 3 "[True]" 1 "\<lparr>bl_bits = [True], bl_raw_slice = [1]\<rparr>" u8_tree_hash
      "\<lambda>bs. of_be_bytes bs"]
  by (simp add: u8_tree_hash_def bit_list_ok_def div_ceil_def BITS_PER_BYTE_def buffer_hasher_def)

end
