(* ===== verification/Beacon_Types.thy ===== *)
theory Beacon_Types
  imports Ssz_Types
begin

text \<open>
  The containers of \<open>ethereum-common/src/beacon/common.rs\<close> and \<open>block_header.rs\<close> with the tree hash
  roots that \<open>derive(TreeHash)\<close> gives them. The derived root of a container is a function of the roots
  of its fields, in their order; that function, the roots of the primitive types and the hasher
  come from the crate \<open>tree_hash\<close> and are the parameters \<open>ssz_env\<close>.
\<close>

record 'h ssz_env =
  env_hasher :: "'h merkle_api"
  env_container :: "h256 list \<Rightarrow> h256"
  env_u8 :: "u8 tree_hash"
  env_u64 :: "u64 tree_hash"
  env_u256_root :: "u256 \<Rightarrow> h256"
  env_h256_root :: "h256 \<Rightarrow> h256"

fun exec_seq :: "'a exec list \<Rightarrow> 'a list exec" where
  "exec_seq [] = Ret []"
| "exec_seq (e # es) = exec_bind e (\<lambda>a. exec_bind (exec_seq es) (\<lambda>as. Ret (a # as)))"

definition container_root :: "'h ssz_env \<Rightarrow> h256 exec list \<Rightarrow> h256 exec" where
  "container_root E roots = exec_bind (exec_seq roots) (\<lambda>rs. Ret (env_container E rs))"

definition container_hash :: "('a \<Rightarrow> h256 exec) \<Rightarrow> 'a tree_hash" where
  "container_hash root = \<lparr>th_basic = False, th_packing_factor = 1, th_packed_encoding = (\<lambda>_. []),
     th_root = root\<rparr>"

definition u64_root :: "'h ssz_env \<Rightarrow> u64 \<Rightarrow> h256 exec" where
  "u64_root E n = th_root (env_u64 E) n"

definition bytes_root :: "'h ssz_env \<Rightarrow> nat \<Rightarrow> bytes \<Rightarrow> h256 exec" where
  "bytes_root E n bs = bytes_fixed_tree_hash_root (env_hasher E) (env_u8 E) n bs"

section \<open>Containers\<close>

definition beacon_header_root :: "'h ssz_env \<Rightarrow> header \<Rightarrow> h256 exec" where
  "beacon_header_root E v = container_root E [
     u64_root E (slot_of v),
     u64_root E (proposer_index v),
     Ret (env_h256_root E (parent_root v)),
     Ret (env_h256_root E (state_root v)),
     Ret (env_h256_root E (body_root v))]"

definition sync_aggregate_root :: "'h ssz_env \<Rightarrow> sync_aggregate \<Rightarrow> h256 exec" where
  "sync_aggregate_root E v = container_root E [
     bitvector_tree_hash_root (env_hasher E) 512 (sync_committee_bits v),
     bytes_root E 96 (sync_committee_signature_bytes v)]"

definition sync_committee_root :: "'h ssz_env \<Rightarrow> sync_committee \<Rightarrow> h256 exec" where
  "sync_committee_root E v = container_root E [
     fixed_array_tree_hash_root (env_hasher E) (container_hash (bytes_root E 48)) SYNC_COMMITTEE_SIZE (pubkeys v),
     bytes_root E 48 (aggregate_pubkey v)]"

record withdrawal =
  wd_index :: u64
  wd_validator_index :: u64
  wd_address :: bytes
  wd_amount :: u64

definition withdrawal_root :: "'h ssz_env \<Rightarrow> withdrawal \<Rightarrow> h256 exec" where
  "withdrawal_root E v = container_root E [
     u64_root E (wd_index v),
     u64_root E (wd_validator_index v),
     bytes_root E 20 (wd_address v),
     u64_root E (wd_amount v)]"

record eth1_data =
  ed_deposit_root :: bytes
  ed_deposit_count :: u64
  ed_block_hash :: bytes

definition eth1_data_root :: "'h ssz_env \<Rightarrow> eth1_data \<Rightarrow> h256 exec" where
  "eth1_data_root E v = container_root E [
     bytes_root E 32 (ed_deposit_root v),
     u64_root E (ed_deposit_count v),
     bytes_root E 32 (ed_block_hash v)]"

record signed_header =
  sh_message :: header
  sh_signature :: bytes

definition signed_header_root :: "'h ssz_env \<Rightarrow> signed_header \<Rightarrow> h256 exec" where
  "signed_header_root E v = container_root E [
     beacon_header_root E (sh_message v),
     bytes_root E 96 (sh_signature v)]"

record proposer_slashing =
  ps_signed_header_1 :: signed_header
  ps_signed_header_2 :: signed_header

definition proposer_slashing_root :: "'h ssz_env \<Rightarrow> proposer_slashing \<Rightarrow> h256 exec" where
  "proposer_slashing_root E v = container_root E [
     signed_header_root E (ps_signed_header_1 v),
     signed_header_root E (ps_signed_header_2 v)]"

record ssz_checkpoint =
  sc_epoch :: u64
  sc_root :: bytes

definition ssz_checkpoint_root :: "'h ssz_env \<Rightarrow> ssz_checkpoint \<Rightarrow> h256 exec" where
  "ssz_checkpoint_root E v = container_root E [
     u64_root E (sc_epoch v),
     bytes_root E 32 (sc_root v)]"

record attestation_data =
  ad_slot :: u64
  ad_index :: u64
  ad_beacon_block_root :: bytes
  ad_source :: ssz_checkpoint
  ad_target :: ssz_checkpoint

definition attestation_data_root :: "'h ssz_env \<Rightarrow> attestation_data \<Rightarrow> h256 exec" where
  "attestation_data_root E v = container_root E [
     u64_root E (ad_slot v),
     u64_root E (ad_index v),
     bytes_root E 32 (ad_beacon_block_root v),
     ssz_checkpoint_root E (ad_source v),
     ssz_checkpoint_root E (ad_target v)]"

record indexed_attestation =
  ia_attesting_indices :: "u64 list"
  ia_data :: attestation_data
  ia_signature :: bytes

definition indexed_attestation_root :: "'h ssz_env \<Rightarrow> indexed_attestation \<Rightarrow> h256 exec" where
  "indexed_attestation_root E v = container_root E [
     list_tree_hash_root (env_hasher E) (env_u64 E) 2048 (ia_attesting_indices v),
     attestation_data_root E (ia_data v),
     bytes_root E 96 (ia_signature v)]"

record attestation =
  at_aggregation_bits :: bit_list
  at_data :: attestation_data
  at_signature :: bytes

definition attestation_root :: "'h ssz_env \<Rightarrow> attestation \<Rightarrow> h256 exec" where
  "attestation_root E v = container_root E [
     bitlist_tree_hash_root (env_hasher E) 2048 (at_aggregation_bits v),
     attestation_data_root E (at_data v),
     bytes_root E 96 (at_signature v)]"

record attester_slashing =
  as_attestation_1 :: indexed_attestation
  as_attestation_2 :: indexed_attestation

definition attester_slashing_root :: "'h ssz_env \<Rightarrow> attester_slashing \<Rightarrow> h256 exec" where
  "attester_slashing_root E v = container_root E [
     indexed_attestation_root E (as_attestation_1 v),
     indexed_attestation_root E (as_attestation_2 v)]"

record deposit_data =
  dd_pubkey :: bytes
  dd_withdrawal_credentials :: bytes
  dd_amount :: u64
  dd_signature :: bytes

definition deposit_data_root :: "'h ssz_env \<Rightarrow> deposit_data \<Rightarrow> h256 exec" where
  "deposit_data_root E v = container_root E [
     bytes_root E 48 (dd_pubkey v),
     bytes_root E 32 (dd_withdrawal_credentials v),
     u64_root E (dd_amount v),
     bytes_root E 96 (dd_signature v)]"

record deposit =
  dp_proof :: "bytes list"
  dp_data :: deposit_data

definition deposit_root :: "'h ssz_env \<Rightarrow> deposit \<Rightarrow> h256 exec" where
  "deposit_root E v = container_root E [
     fixed_array_tree_hash_root (env_hasher E) (container_hash (bytes_root E 32)) 33 (dp_proof v),
     deposit_data_root E (dp_data v)]"

record voluntary_exit =
  ve_epoch :: u64
  ve_validator_index :: u64

definition voluntary_exit_root :: "'h ssz_env \<Rightarrow> voluntary_exit \<Rightarrow> h256 exec" where
  "voluntary_exit_root E v = container_root E [
     u64_root E (ve_epoch v),
     u64_root E (ve_validator_index v)]"

record signed_voluntary_exit =
  se_message :: voluntary_exit
  se_signature :: bytes

definition signed_voluntary_exit_root :: "'h ssz_env \<Rightarrow> signed_voluntary_exit \<Rightarrow> h256 exec" where
  "signed_voluntary_exit_root E v = container_root E [
     voluntary_exit_root E (se_message v),
     bytes_root E 96 (se_signature v)]"

record bls_to_execution_change =
  bc_validator_index :: u64
  bc_from_bls_pubkey :: bytes
  bc_to_execution_address :: bytes

definition bls_to_execution_change_root :: "'h ssz_env \<Rightarrow> bls_to_execution_change \<Rightarrow> h256 exec" where
  "bls_to_execution_change_root E v = container_root E [
     u64_root E (bc_validator_index v),
     bytes_root E 48 (bc_from_bls_pubkey v),
     bytes_root E 20 (bc_to_execution_address v)]"

record signed_bls_to_execution_change =
  sb_message :: bls_to_execution_change
  sb_signature :: bytes

definition signed_bls_to_execution_change_root :: "'h ssz_env \<Rightarrow> signed_bls_to_execution_change \<Rightarrow> h256 exec" where
  "signed_bls_to_execution_change_root E v = container_root E [
     bls_to_execution_change_root E (sb_message v),
     bytes_root E 96 (sb_signature v)]"

record deposit_request =
  dr_pubkey :: bytes
  dr_withdrawal_credentials :: bytes
  dr_amount :: u64
  dr_signature :: bytes
  dr_index :: u64

definition deposit_request_root :: "'h ssz_env \<Rightarrow> deposit_request \<Rightarrow> h256 exec" where
  "deposit_request_root E v = container_root E [
     bytes_root E 48 (dr_pubkey v),
     bytes_root E 32 (dr_withdrawal_credentials v),
     u64_root E (dr_amount v),
     bytes_root E 96 (dr_signature v),
     u64_root E (dr_index v)]"

record withdrawal_request =
  wr_source_address :: bytes
  wr_validator_pubkey :: bytes
  wr_amount :: u64

definition withdrawal_request_root :: "'h ssz_env \<Rightarrow> withdrawal_request \<Rightarrow> h256 exec" where
  "withdrawal_request_root E v = container_root E [
     bytes_root E 20 (wr_source_address v),
     bytes_root E 48 (wr_validator_pubkey v),
     u64_root E (wr_amount v)]"

record consolidation_request =
  cr_source_address :: bytes
  cr_source_pubkey :: bytes
  cr_target_pubkey :: bytes

definition consolidation_request_root :: "'h ssz_env \<Rightarrow> consolidation_request \<Rightarrow> h256 exec" where
  "consolidation_request_root E v = container_root E [
     bytes_root E 20 (cr_source_address v),
     bytes_root E 48 (cr_source_pubkey v),
     bytes_root E 48 (cr_target_pubkey v)]"

record execution_requests =
  er_deposits :: "deposit_request list"
  er_withdrawals :: "withdrawal_request list"
  er_consolidations :: "consolidation_request list"

definition execution_requests_root :: "'h ssz_env \<Rightarrow> execution_requests \<Rightarrow> h256 exec" where
  "execution_requests_root E v = container_root E [
     list_tree_hash_root (env_hasher E) (container_hash (deposit_request_root E)) 8192 (er_deposits v),
     list_tree_hash_root (env_hasher E) (container_hash (withdrawal_request_root E)) 16 (er_withdrawals v),
     list_tree_hash_root (env_hasher E) (container_hash (consolidation_request_root E)) 2 (er_consolidations v)]"

record electra_indexed_attestation =
  xi_attesting_indices :: "u64 list"
  xi_data :: attestation_data
  xi_signature :: bytes

definition electra_indexed_attestation_root :: "'h ssz_env \<Rightarrow> electra_indexed_attestation \<Rightarrow> h256 exec" where
  "electra_indexed_attestation_root E v = container_root E [
     list_tree_hash_root (env_hasher E) (env_u64 E) (2048 * 64) (xi_attesting_indices v),
     attestation_data_root E (xi_data v),
     bytes_root E 96 (xi_signature v)]"

record electra_attestation =
  xa_aggregation_bits :: bit_list
  xa_data :: attestation_data
  xa_signature :: bytes
  xa_committee_bits :: "bool list"

definition electra_attestation_root :: "'h ssz_env \<Rightarrow> electra_attestation \<Rightarrow> h256 exec" where
  "electra_attestation_root E v = container_root E [
     bitlist_tree_hash_root (env_hasher E) (2048 * 64) (xa_aggregation_bits v),
     attestation_data_root E (xa_data v),
     bytes_root E 96 (xa_signature v),
     bitvector_tree_hash_root (env_hasher E) 64 (xa_committee_bits v)]"

record electra_attester_slashing =
  xs_attestation_1 :: electra_indexed_attestation
  xs_attestation_2 :: electra_indexed_attestation

definition electra_attester_slashing_root :: "'h ssz_env \<Rightarrow> electra_attester_slashing \<Rightarrow> h256 exec" where
  "electra_attester_slashing_root E v = container_root E [
     electra_indexed_attestation_root E (xs_attestation_1 v),
     electra_indexed_attestation_root E (xs_attestation_2 v)]"

end
