(* ===== verification/Beacon_Blocks.thy ===== *)
theory Beacon_Blocks
  imports Beacon_Types
begin

text \<open>
  Beacon blocks, full and lightened (\<open>beacon/block.rs\<close>, \<open>block_body.rs\<close>, \<open>execution_payload.rs\<close>,
  \<open>light.rs\<close>), before and since the Electra upgrade. A light block replaces parts of a block by their
  tree hash roots; it is what the programs on Gear receive. Its root, the root of the full block
  and the root of the block's header agree.
\<close>

section \<open>Payloads and bodies\<close>

record execution_payload =
  ep_parent_hash :: bytes
  ep_fee_recipient :: bytes
  ep_state_root :: bytes
  ep_receipts_root :: bytes
  ep_logs_bloom :: bytes
  ep_prev_randao :: bytes
  ep_block_number :: u64
  ep_gas_limit :: u64
  ep_gas_used :: u64
  ep_timestamp :: u64
  ep_extra_data :: bytes
  ep_base_fee_per_gas :: u256
  ep_block_hash :: bytes
  ep_transactions :: "bytes list"
  ep_withdrawals :: "withdrawal list"
  ep_blob_gas_used :: u64
  ep_excess_blob_gas :: u64

definition execution_payload_root :: "'h ssz_env \<Rightarrow> execution_payload \<Rightarrow> h256 exec" where
  "execution_payload_root E v = container_root E [
     bytes_root E 32 (ep_parent_hash v),
     bytes_root E 20 (ep_fee_recipient v),
     bytes_root E 32 (ep_state_root v),
     bytes_root E 32 (ep_receipts_root v),
     bytes_root E 256 (ep_logs_bloom v),
     bytes_root E 32 (ep_prev_randao v),
     u64_root E (ep_block_number v),
     u64_root E (ep_gas_limit v),
     u64_root E (ep_gas_used v),
     u64_root E (ep_timestamp v),
     byte_list_tree_hash_root (env_hasher E) (env_u8 E) 32 (ep_extra_data v),
     Ret (env_u256_root E (ep_base_fee_per_gas v)),
     bytes_root E 32 (ep_block_hash v),
     list_tree_hash_root (env_hasher E) (container_hash (byte_list_tree_hash_root (env_hasher E) (env_u8 E) 1073741824)) 1048576 (ep_transactions v),
     list_tree_hash_root (env_hasher E) (container_hash (withdrawal_root E)) 16 (ep_withdrawals v),
     u64_root E (ep_blob_gas_used v),
     u64_root E (ep_excess_blob_gas v)]"

record light_execution_payload =
  lp_parent_hash :: bytes
  lp_fee_recipient :: bytes
  lp_state_root :: bytes
  lp_receipts_root :: bytes
  lp_logs_bloom :: h256
  lp_prev_randao :: bytes
  lp_block_number :: u64
  lp_gas_limit :: u64
  lp_gas_used :: u64
  lp_timestamp :: u64
  lp_extra_data :: bytes
  lp_base_fee_per_gas :: u256
  lp_block_hash :: bytes
  lp_transactions :: h256
  lp_withdrawals :: h256
  lp_blob_gas_used :: u64
  lp_excess_blob_gas :: u64

definition light_execution_payload_root :: "'h ssz_env \<Rightarrow> light_execution_payload \<Rightarrow> h256 exec" where
  "light_execution_payload_root E v = container_root E [
     bytes_root E 32 (lp_parent_hash v),
     bytes_root E 20 (lp_fee_recipient v),
     bytes_root E 32 (lp_state_root v),
     bytes_root E 32 (lp_receipts_root v),
     Ret (env_h256_root E (lp_logs_bloom v)),
     bytes_root E 32 (lp_prev_randao v),
     u64_root E (lp_block_number v),
     u64_root E (lp_gas_limit v),
     u64_root E (lp_gas_used v),
     u64_root E (lp_timestamp v),
     byte_list_tree_hash_root (env_hasher E) (env_u8 E) 32 (lp_extra_data v),
     Ret (env_u256_root E (lp_base_fee_per_gas v)),
     bytes_root E 32 (lp_block_hash v),
     Ret (env_h256_root E (lp_transactions v)),
     Ret (env_h256_root E (lp_withdrawals v)),
     u64_root E (lp_blob_gas_used v),
     u64_root E (lp_excess_blob_gas v)]"

record block_body =
  bb_randao_reveal :: bytes
  bb_eth1_data :: eth1_data
  bb_graffiti :: bytes
  bb_proposer_slashings :: "proposer_slashing list"
  bb_attester_slashings :: "attester_slashing list"
  bb_attestations :: "attestation list"
  bb_deposits :: "deposit list"
  bb_voluntary_exits :: "signed_voluntary_exit list"
  bb_sync_aggregate :: sync_aggregate
  bb_execution_payload :: execution_payload
  bb_bls_to_execution_changes :: "signed_bls_to_execution_change list"
  bb_blob_kzg_commitments :: "bytes list"

definition block_body_root :: "'h ssz_env \<Rightarrow> block_body \<Rightarrow> h256 exec" where
  "block_body_root E v = container_root E [
     bytes_root E 96 (bb_randao_reveal v),
     eth1_data_root E (bb_eth1_data v),
     bytes_root E 32 (bb_graffiti v),
     list_tree_hash_root (env_hasher E) (container_hash (proposer_slashing_root E)) 16 (bb_proposer_slashings v),
     list_tree_hash_root (env_hasher E) (container_hash (attester_slashing_root E)) 2 (bb_attester_slashings v),
     list_tree_hash_root (env_hasher E) (container_hash (attestation_root E)) 128 (bb_attestations v),
     list_tree_hash_root (env_hasher E) (container_hash (deposit_root E)) 16 (bb_deposits v),
     list_tree_hash_root (env_hasher E) (container_hash (signed_voluntary_exit_root E)) 16 (bb_voluntary_exits v),
     sync_aggregate_root E (bb_sync_aggregate v),
     execution_payload_root E (bb_execution_payload v),
     list_tree_hash_root (env_hasher E) (container_hash (signed_bls_to_execution_change_root E)) 16 (bb_bls_to_execution_changes v),
     list_tree_hash_root (env_hasher E) (container_hash (bytes_root E 48)) 4096 (bb_blob_kzg_commitments v)]"

record electra_block_body =
  xb_randao_reveal :: bytes
  xb_eth1_data :: eth1_data
  xb_graffiti :: bytes
  xb_proposer_slashings :: "proposer_slashing list"
  xb_attester_slashings :: "electra_attester_slashing list"
  xb_attestations :: "electra_attestation list"
  xb_deposits :: "deposit list"
  xb_voluntary_exits :: "signed_voluntary_exit list"
  xb_sync_aggregate :: sync_aggregate
  xb_execution_payload :: execution_payload
  xb_bls_to_execution_changes :: "signed_bls_to_execution_change list"
  xb_blob_kzg_commitments :: "bytes list"
  xb_execution_requests :: execution_requests

definition electra_block_body_root :: "'h ssz_env \<Rightarrow> electra_block_body \<Rightarrow> h256 exec" where
  "electra_block_body_root E v = container_root E [
     bytes_root E 96 (xb_randao_reveal v),
     eth1_data_root E (xb_eth1_data v),
     bytes_root E 32 (xb_graffiti v),
     list_tree_hash_root (env_hasher E) (container_hash (proposer_slashing_root E)) 16 (xb_proposer_slashings v),
     list_tree_hash_root (env_hasher E) (container_hash (electra_attester_slashing_root E)) 1 (xb_attester_slashings v),
     list_tree_hash_root (env_hasher E) (container_hash (electra_attestation_root E)) 8 (xb_attestations v),
     list_tree_hash_root (env_hasher E) (container_hash (deposit_root E)) 16 (xb_deposits v),
     list_tree_hash_root (env_hasher E) (container_hash (signed_voluntary_exit_root E)) 16 (xb_voluntary_exits v),
     sync_aggregate_root E (xb_sync_aggregate v),
     execution_payload_root E (xb_execution_payload v),
     list_tree_hash_root (env_hasher E) (container_hash (signed_bls_to_execution_change_root E)) 16 (xb_bls_to_execution_changes v),
     list_tree_hash_root (env_hasher E) (container_hash (bytes_root E 48)) 4096 (xb_blob_kzg_commitments v),
     execution_requests_root E (xb_execution_requests v)]"

record light_block_body =
  lb_randao_reveal :: h256
  lb_eth1_data :: h256
  lb_graffiti :: bytes
  lb_proposer_slashings :: h256
  lb_attester_slashings :: h256
  lb_attestations :: h256
  lb_deposits :: h256
  lb_voluntary_exits :: h256
  lb_sync_aggregate :: h256
  lb_execution_payload :: light_execution_payload
  lb_bls_to_execution_changes :: h256
  lb_blob_kzg_commitments :: h256

definition light_block_body_root :: "'h ssz_env \<Rightarrow> light_block_body \<Rightarrow> h256 exec" where
  "light_block_body_root E v = container_root E [
     Ret (env_h256_root E (lb_randao_reveal v)),
     Ret (env_h256_root E (lb_eth1_data v)),
     bytes_root E 32 (lb_graffiti v),
     Ret (env_h256_root E (lb_proposer_slashings v)),
     Ret (env_h256_root E (lb_attester_slashings v)),
     Ret (env_h256_root E (lb_attestations v)),
     Ret (env_h256_root E (lb_deposits v)),
     Ret (env_h256_root E (lb_voluntary_exits v)),
     Ret (env_h256_root E (lb_sync_aggregate v)),
     light_execution_payload_root E (lb_execution_payload v),
     Ret (env_h256_root E (lb_bls_to_execution_changes v)),
     Ret (env_h256_root E (lb_blob_kzg_commitments v))]"

record electra_light_block_body =
  xl_randao_reveal :: h256
  xl_eth1_data :: h256
  xl_graffiti :: bytes
  xl_proposer_slashings :: h256
  xl_attester_slashings :: h256
  xl_attestations :: h256
  xl_deposits :: h256
  xl_voluntary_exits :: h256
  xl_sync_aggregate :: h256
  xl_execution_payload :: light_execution_payload
  xl_bls_to_execution_changes :: h256
  xl_blob_kzg_commitments :: h256
  xl_execution_requests :: h256

definition electra_light_block_body_root :: "'h ssz_env \<Rightarrow> electra_light_block_body \<Rightarrow> h256 exec" where
  "electra_light_block_body_root E v = container_root E [
     Ret (env_h256_root E (xl_randao_reveal v)),
     Ret (env_h256_root E (xl_eth1_data v)),
     bytes_root E 32 (xl_graffiti v),
     Ret (env_h256_root E (xl_proposer_slashings v)),
     Ret (env_h256_root E (xl_attester_slashings v)),
     Ret (env_h256_root E (xl_attestations v)),
     Ret (env_h256_root E (xl_deposits v)),
     Ret (env_h256_root E (xl_voluntary_exits v)),
     Ret (env_h256_root E (xl_sync_aggregate v)),
     light_execution_payload_root E (xl_execution_payload v),
     Ret (env_h256_root E (xl_bls_to_execution_changes v)),
     Ret (env_h256_root E (xl_blob_kzg_commitments v)),
     Ret (env_h256_root E (xl_execution_requests v))]"

section \<open>Lightening\<close>

definition light_execution_payload_of :: "'h ssz_env \<Rightarrow> execution_payload \<Rightarrow> light_execution_payload exec" where
  "light_execution_payload_of E value =
     exec_bind (bytes_root E 256 (ep_logs_bloom value)) (\<lambda>logs_bloom.
     exec_bind (list_tree_hash_root (env_hasher E) (container_hash (byte_list_tree_hash_root (env_hasher E) (env_u8 E) 1073741824)) 1048576 (ep_transactions value)) (\<lambda>transactions.
     exec_bind (list_tree_hash_root (env_hasher E) (container_hash (withdrawal_root E)) 16 (ep_withdrawals value)) (\<lambda>withdrawals.
     Ret \<lparr>
       lp_parent_hash = ep_parent_hash value,
       lp_fee_recipient = ep_fee_recipient value,
       lp_state_root = ep_state_root value,
       lp_receipts_root = ep_receipts_root value,
       lp_logs_bloom = logs_bloom,
       lp_prev_randao = ep_prev_randao value,
       lp_block_number = ep_block_number value,
       lp_gas_limit = ep_gas_limit value,
       lp_gas_used = ep_gas_used value,
       lp_timestamp = ep_timestamp value,
       lp_extra_data = ep_extra_data value,
       lp_base_fee_per_gas = ep_base_fee_per_gas value,
       lp_block_hash = ep_block_hash value,
       lp_transactions = transactions,
       lp_withdrawals = withdrawals,
       lp_blob_gas_used = ep_blob_gas_used value,
       lp_excess_blob_gas = ep_excess_blob_gas value\<rparr>)))"

definition light_block_body_of :: "'h ssz_env \<Rightarrow> block_body \<Rightarrow> light_block_body exec" where
  "light_block_body_of E value =
     exec_bind (bytes_root E 96 (bb_randao_reveal value)) (\<lambda>randao_reveal.
     exec_bind (eth1_data_root E (bb_eth1_data value)) (\<lambda>eth1_data.
     exec_bind (list_tree_hash_root (env_hasher E) (container_hash (proposer_slashing_root E)) 16 (bb_proposer_slashings value)) (\<lambda>proposer_slashings.
     exec_bind (list_tree_hash_root (env_hasher E) (container_hash (attester_slashing_root E)) 2 (bb_attester_slashings value)) (\<lambda>attester_slashings.
     exec_bind (list_tree_hash_root (env_hasher E) (container_hash (attestation_root E)) 128 (bb_attestations value)) (\<lambda>attestations.
     exec_bind (list_tree_hash_root (env_hasher E) (container_hash (deposit_root E)) 16 (bb_deposits value)) (\<lambda>deposits.
     exec_bind (list_tree_hash_root (env_hasher E) (container_hash (signed_voluntary_exit_root E)) 16 (bb_voluntary_exits value)) (\<lambda>voluntary_exits.
     exec_bind (sync_aggregate_root E (bb_sync_aggregate value)) (\<lambda>sync_aggregate.
     exec_bind (light_execution_payload_of E (bb_execution_payload value)) (\<lambda>execution_payload.
     exec_bind (list_tree_hash_root (env_hasher E) (container_hash (signed_bls_to_execution_change_root E)) 16 (bb_bls_to_execution_changes value)) (\<lambda>bls_to_execution_changes.
     exec_bind (list_tree_hash_root (env_hasher E) (container_hash (bytes_root E 48)) 4096 (bb_blob_kzg_commitments value)) (\<lambda>blob_kzg_commitments.
     Ret \<lparr>
       lb_randao_reveal = randao_reveal,
       lb_eth1_data = eth1_data,
       lb_graffiti = bb_graffiti value,
       lb_proposer_slashings = proposer_slashings,
       lb_attester_slashings = attester_slashings,
       lb_attestations = attestations,
       lb_deposits = deposits,
       lb_voluntary_exits = voluntary_exits,
       lb_sync_aggregate = sync_aggregate,
       lb_execution_payload = execution_payload,
       lb_bls_to_execution_changes = bls_to_execution_changes,
       lb_blob_kzg_commitments = blob_kzg_commitments\<rparr>)))))))))))"

definition electra_light_block_body_of :: "'h ssz_env \<Rightarrow> electra_block_body \<Rightarrow> electra_light_block_body exec" where
  "electra_light_block_body_of E value =
     exec_bind (bytes_root E 96 (xb_randao_reveal value)) (\<lambda>randao_reveal.
     exec_bind (eth1_data_root E (xb_eth1_data value)) (\<lambda>eth1_data.
     exec_bind (list_tree_hash_root (env_hasher E) (container_hash (proposer_slashing_root E)) 16 (xb_proposer_slashings value)) (\<lambda>proposer_slashings.
     exec_bind (list_tree_hash_root (env_hasher E) (container_hash (electra_attester_slashing_root E)) 1 (xb_attester_slashings value)) (\<lambda>attester_slashings.
     exec_bind (list_tree_hash_root (env_hasher E) (container_hash (electra_attestation_root E)) 8 (xb_attestations value)) (\<lambda>attestations.
     exec_bind (list_tree_hash_root (env_hasher E) (container_hash (deposit_root E)) 16 (xb_deposits value)) (\<lambda>deposits.
     exec_bind (list_tree_hash_root (env_hasher E) (container_hash (signed_voluntary_exit_root E)) 16 (xb_voluntary_exits value)) (\<lambda>voluntary_exits.
     exec_bind (sync_aggregate_root E (xb_sync_aggregate value)) (\<lambda>sync_aggregate.
     exec_bind (light_execution_payload_of E (xb_execution_payload value)) (\<lambda>execution_payload.
     exec_bind (list_tree_hash_root (env_hasher E) (container_hash (signed_bls_to_execution_change_root E)) 16 (xb_bls_to_execution_changes value)) (\<lambda>bls_to_execution_changes.
     exec_bind (list_tree_hash_root (env_hasher E) (container_hash (bytes_root E 48)) 4096 (xb_blob_kzg_commitments value)) (\<lambda>blob_kzg_commitments.
     exec_bind (execution_requests_root E (xb_execution_requests value)) (\<lambda>execution_requests.
     Ret \<lparr>
       xl_randao_reveal = randao_reveal,
       xl_eth1_data = eth1_data,
       xl_graffiti = xb_graffiti value,
       xl_proposer_slashings = proposer_slashings,
       xl_attester_slashings = attester_slashings,
       xl_attestations = attestations,
       xl_deposits = deposits,
       xl_voluntary_exits = voluntary_exits,
       xl_sync_aggregate = sync_aggregate,
       xl_execution_payload = execution_payload,
       xl_bls_to_execution_changes = bls_to_execution_changes,
       xl_blob_kzg_commitments = blob_kzg_commitments,
       xl_execution_requests = execution_requests\<rparr>))))))))))))"

section \<open>Blocks\<close>

text \<open>The generic block, over the type of its body.\<close>

record 'b block =
  bk_slot :: u64
  bk_proposer_index :: u64
  bk_parent_root :: h256
  bk_state_root :: h256
  bk_body :: 'b

definition block_root :: "'h ssz_env \<Rightarrow> ('b \<Rightarrow> h256 exec) \<Rightarrow> 'b block \<Rightarrow> h256 exec" where
  "block_root E root_of_body v = container_root E [
     u64_root E (bk_slot v),
     u64_root E (bk_proposer_index v),
     Ret (env_h256_root E (bk_parent_root v)),
     Ret (env_h256_root E (bk_state_root v)),
     root_of_body (bk_body v)]"

definition light_block_of :: "('b \<Rightarrow> 'l exec) \<Rightarrow> 'b block \<Rightarrow> 'l block exec" where
  "light_block_of light_body value =
     exec_bind (light_body (bk_body value)) (\<lambda>body.
     Ret \<lparr>bk_slot = bk_slot value, bk_proposer_index = bk_proposer_index value,
         bk_parent_root = bk_parent_root value, bk_state_root = bk_state_root value,
         bk_body = body\<rparr>)"

definition header_of_block :: "'h ssz_env \<Rightarrow> block_body block \<Rightarrow> header exec" where
  "header_of_block E value =
     exec_bind (block_body_root E (bk_body value)) (\<lambda>root.
     Ret \<lparr>slot_of = bk_slot value, proposer_index = bk_proposer_index value,
         parent_root = bk_parent_root value, state_root = bk_state_root value,
         body_root = root\<rparr>)"

section \<open>The three roots of a block\<close>

text \<open>
  The root of an \<open>H256\<close> is the value itself (\<open>own_root\<close>): a field replaced by its root contributes
  what the field did.
\<close>

definition own_root :: "'h ssz_env \<Rightarrow> bool" where
  "own_root E \<longleftrightarrow> env_h256_root E = (\<lambda>r. r)"

lemma light_payload_root:
  assumes "own_root E" and "light_execution_payload_of E v = Ret l"
  shows "light_execution_payload_root E l = execution_payload_root E v"
  using assms
  by (auto simp: own_root_def light_execution_payload_of_def exec_bind_Ret_iff
      light_execution_payload_root_def execution_payload_root_def)

lemma light_body_root:
  assumes "own_root E" and "light_block_body_of E v = Ret l"
  shows "light_block_body_root E l = block_body_root E v"
  using assms light_payload_root [OF assms(1)]
  by (auto simp: own_root_def light_block_body_of_def exec_bind_Ret_iff light_block_body_root_def
      block_body_root_def)

lemma electra_light_body_root:
  assumes "own_root E" and "electra_light_block_body_of E v = Ret l"
  shows "electra_light_block_body_root E l = electra_block_body_root E v"
  using assms light_payload_root [OF assms(1)]
  by (auto simp: own_root_def electra_light_block_body_of_def exec_bind_Ret_iff
      electra_light_block_body_root_def electra_block_body_root_def)

lemma light_block_root:
  assumes "light_block_of light_body v = Ret l"
    and "\<And>b. light_body (bk_body v) = Ret b \<Longrightarrow> light_root b = full_root (bk_body v)"
  shows "block_root E light_root l = block_root E full_root v"
  using assms by (auto simp: light_block_of_def exec_bind_Ret_iff block_root_def)

text \<open>Property C12. Lightening a block keeps its identity: the light block that a block is
  converted to has the tree hash root of the full block, before and since Electra, the slot of the
  block, and the receipts root and the block number of its payload; and the header of the block
  has that root too.\<close>

theorem light_block_same_root:
  assumes "own_root E"
    and "light_block_of (light_block_body_of E) b = Ret l" and "header_of_block E b = Ret h"
    and "light_block_of (electra_light_block_body_of E) b' = Ret l'"
  shows "block_root E (light_block_body_root E) l = block_root E (block_body_root E) b
    \<and> beacon_header_root E h = block_root E (block_body_root E) b
    \<and> block_root E (electra_light_block_body_root E) l' = block_root E (electra_block_body_root E) b'
    \<and> bk_slot l = bk_slot b \<and> slot_of h = bk_slot b \<and> bk_slot l' = bk_slot b'
    \<and> lp_receipts_root (lb_execution_payload (bk_body l)) = ep_receipts_root (bb_execution_payload (bk_body b))
    \<and> lp_block_number (lb_execution_payload (bk_body l)) = ep_block_number (bb_execution_payload (bk_body b))
    \<and> lp_receipts_root (xl_execution_payload (bk_body l')) = ep_receipts_root (xb_execution_payload (bk_body b'))
    \<and> lp_block_number (xl_execution_payload (bk_body l')) = ep_block_number (xb_execution_payload (bk_body b'))"
proof -
  have "block_root E (light_block_body_root E) l = block_root E (block_body_root E) b"
    by (rule light_block_root [OF assms(2)]) (rule light_body_root [OF assms(1)])
  moreover have "block_root E (electra_light_block_body_root E) l' = block_root E (electra_block_body_root E) b'"
    by (rule light_block_root [OF assms(4)]) (rule electra_light_body_root [OF assms(1)])
  moreover have "beacon_header_root E h = block_root E (block_body_root E) b"
    using assms(1,3) by (auto simp: header_of_block_def exec_bind_Ret_iff beacon_header_root_def
        block_root_def own_root_def)
  ultimately show ?thesis
    using assms(2,3,4) by (auto simp: light_block_of_def exec_bind_Ret_iff header_of_block_def
        light_block_body_of_def electra_light_block_body_of_def light_execution_payload_of_def)
qed

text \<open>A small environment, with a hasher that adds up what it reads, and blocks without contents.\<close>

definition sample_env :: "h256 ssz_env" where
  "sample_env = \<lparr>
     env_hasher = \<lparr>mh_with_leaves = (\<lambda>n. 0), mh_write = (\<lambda>h bs. Some (h + of_be_bytes bs)),
       mh_finish = (\<lambda>h. Some h), mh_mix_in_length = (\<lambda>r n. r + of_nat n)\<rparr>,
     env_container = sum_list, env_u8 = u8_tree_hash,
     env_u64 = \<lparr>th_basic = True, th_packing_factor = 4, th_packed_encoding = le_bytes 8,
       th_root = (\<lambda>n. Ret (ucast n))\<rparr>,
     env_u256_root = (\<lambda>n. n), env_h256_root = (\<lambda>r. r)\<rparr>"

definition sample_payload :: execution_payload where
  "sample_payload =
     \<lparr>ep_parent_hash = [], ep_fee_recipient = [], ep_state_root = [], ep_receipts_root =
     [1], ep_logs_bloom = [], ep_prev_randao = [], ep_block_number = 7, ep_gas_limit = 0,
     ep_gas_used = 0, ep_timestamp = 0, ep_extra_data = [], ep_base_fee_per_gas = 0,
     ep_block_hash = [], ep_transactions = [], ep_withdrawals = [], ep_blob_gas_used = 0,
     ep_excess_blob_gas = 0\<rparr>"

definition sample_body :: block_body where
  "sample_body =
     \<lparr>bb_randao_reveal = [], bb_eth1_data = \<lparr>ed_deposit_root = [],
     ed_deposit_count = 0, ed_block_hash = []\<rparr>, bb_graffiti = [], bb_proposer_slashings =
     [], bb_attester_slashings = [], bb_attestations = [], bb_deposits = [], bb_voluntary_exits
     = [], bb_sync_aggregate = \<lparr>sync_committee_bits = [], sync_committee_signature_bytes
     = []\<rparr>, bb_execution_payload = sample_payload, bb_bls_to_execution_changes = [],
     bb_blob_kzg_commitments = []\<rparr>"

definition sample_electra_body :: electra_block_body where
  "sample_electra_body =
     \<lparr>xb_randao_reveal = [], xb_eth1_data = \<lparr>ed_deposit_root = [],
     ed_deposit_count = 0, ed_block_hash = []\<rparr>, xb_graffiti = [], xb_proposer_slashings =
     [], xb_attester_slashings = [], xb_attestations = [], xb_deposits = [], xb_voluntary_exits
     = [], xb_sync_aggregate = \<lparr>sync_committee_bits = [], sync_committee_signature_bytes
     = []\<rparr>, xb_execution_payload = sample_payload, xb_bls_to_execution_changes = [],
     xb_blob_kzg_commitments = [], xb_execution_requests = \<lparr>er_deposits = [],
     er_withdrawals = [], er_consolidations = []\<rparr>\<rparr>"

definition sample_block :: "'b \<Rightarrow> 'b block" where
  "sample_block body = \<lparr>bk_slot = 9, bk_proposer_index = 3, bk_parent_root = 5, bk_state_root = 6,
     bk_body = body\<rparr>"

lemmas sample_evals = sample_env_def sample_payload_def sample_body_def sample_electra_body_def
  sample_block_def light_block_of_def header_of_block_def light_block_body_of_def
  electra_light_block_body_of_def light_execution_payload_of_def block_body_root_def
  execution_payload_root_def eth1_data_root_def sync_aggregate_root_def execution_requests_root_def
  container_root_def container_hash_def u64_root_def bytes_root_def bytes_fixed_tree_hash_root_def
  byte_list_tree_hash_root_def list_tree_hash_root_def fixed_array_tree_hash_root_def
  bitvector_tree_hash_root_def bitfield_bytes_tree_hash_root_def bitvector_as_bytes_def
  vec_tree_hash_root_def u8_tree_hash_def expect_def

lemma sample_light:
  "\<exists>l. light_block_of (light_block_body_of sample_env) (sample_block sample_body) = Ret l"
  "\<exists>h. header_of_block sample_env (sample_block sample_body) = Ret h"
  "\<exists>l. light_block_of (electra_light_block_body_of sample_env) (sample_block sample_electra_body) = Ret l"
  by (simp_all add: sample_evals Let_def)

theorem light_block_same_root_witness:
  "\<exists>l. light_block_of (light_block_body_of sample_env) (sample_block sample_body) = Ret l
     \<and> block_root sample_env (light_block_body_root sample_env) l
       = block_root sample_env (block_body_root sample_env) (sample_block sample_body)
     \<and> lp_block_number (lb_execution_payload (bk_body l)) = 7"
proof -
  obtain l h l' where "light_block_of (light_block_body_of sample_env) (sample_block sample_body) = Ret l"
    "header_of_block sample_env (sample_block sample_body) = Ret h"
    "light_block_of (electra_light_block_body_of sample_env) (sample_block sample_electra_body) = Ret l'"
    using sample_light by blast
  moreover have "own_root sample_env" by (simp add: own_root_def sample_env_def)
  ultimately show ?thesis
    using light_block_same_root [of sample_env "sample_block sample_body" l h "sample_block sample_electra_body" l']
    by (simp add: sample_block_def sample_body_def sample_payload_def)
qed

end
