(* ===== verification/Rlp_Node_Codec.thy ===== *)
theory Rlp_Node_Codec
  imports Bridge_Prelude
begin

text \<open>
  The node codec of the Patricia trie (\<open>ethereum-common/src/rlp_node_codec.rs\<close>), with which
  \<open>patricia_trie.rs\<close> instantiates the third-party crate \<open>trie_db\<close>. The crate \<open>rlp\<close> is the parameter
  \<open>rlp_api\<close>; what the codec relies on is the locale \<open>rlp_format\<close>, which is proved below of the RLP
  encoding. The codec is shown lawful: every node that it encodes is decoded to itself.
\<close>

unbundle bit_operations_syntax

section \<open>The interface of the crate rlp\<close>

datatype rlp_prototype = ProtoNull | ProtoData nat | ProtoList nat

text \<open>
  An \<open>Rlp\<close> is the bytes of one item. \<open>rl_append\<close> is what a stream appends for a byte string and
  \<open>rl_list\<close> the output of a stream for a list of raw items; \<open>rl_payload_info\<close> gives the lengths of
  the header and of the value, \<open>rl_at_with_offset\<close> an item of a list with its offset.
\<close>

record rlp_api =
  rl_append :: "bytes \<Rightarrow> bytes"
  rl_list :: "bytes list \<Rightarrow> bytes"
  rl_prototype :: "bytes \<Rightarrow> rlp_prototype option"
  rl_at_with_offset :: "bytes \<Rightarrow> nat \<Rightarrow> (bytes \<times> nat) option"
  rl_payload_info :: "bytes \<Rightarrow> (nat \<times> nat) option"
  rl_data :: "bytes \<Rightarrow> bytes option"
  rl_is_data :: "bytes \<Rightarrow> bool"
  rl_is_empty :: "bytes \<Rightarrow> bool"
  rl_size :: "bytes \<Rightarrow> nat"

section \<open>The codec\<close>

text \<open>
  The arguments of the trait: a partial key as the count of its padding nibbles, the padded byte and
  the remaining bytes; a reference to a child; and the plans, which are ranges of the encoded node.
\<close>

type_synonym byte_range = "nat \<times> nat"
type_synonym partial_key = "(u8 \<times> u8) \<times> bytes"
type_synonym nibble_slice_plan = "byte_range \<times> nat"

datatype child_reference = ChildHash h256 | ChildInline h256 nat

datatype node_handle_plan = HandleHash byte_range | HandleInline byte_range

datatype node_plan =
    PlanEmpty
  | PlanLeaf nibble_slice_plan byte_range
  | PlanExtension nibble_slice_plan node_handle_plan
  | PlanBranch "byte_range option" "node_handle_plan option list"

definition HASHED_NULL_NODE :: h256 where
  "HASHED_NULL_NODE = 0x56e81f171bcc55a6ff8345e692c0f86e5b48e01b996cadc001622fb5e363b421"

definition encode_partial_inner_iter :: "u8 \<Rightarrow> bytes \<Rightarrow> bool \<Rightarrow> bool \<Rightarrow> bytes" where
  "encode_partial_inner_iter first_byte partial_remaining is_odd is_leaf =
     (let encoded_type = (if is_leaf then 0x20 else 0) in
      (if is_odd then 0x10 + encoded_type + first_byte else encoded_type) # partial_remaining)"

definition encode_partial_iter :: "partial_key \<Rightarrow> bool \<Rightarrow> bytes" where
  "encode_partial_iter partial is_leaf =
     encode_partial_inner_iter (snd (fst partial)) (snd partial) (fst (fst partial) > 0) is_leaf"

definition encode_partial_from_iterator_iter :: "bytes \<Rightarrow> bool \<Rightarrow> bool \<Rightarrow> bytes" where
  "encode_partial_from_iterator_iter partial is_odd is_leaf =
     (if is_odd
      then case partial of
          [] \<Rightarrow> encode_partial_inner_iter 0 [] is_odd is_leaf
        | first # rest \<Rightarrow> encode_partial_inner_iter first rest is_odd is_leaf
      else encode_partial_inner_iter 0 partial is_odd is_leaf)"

definition decode_value_range :: "rlp_api \<Rightarrow> bytes \<Rightarrow> nat \<Rightarrow> byte_range option" where
  "decode_value_range R rlp offset =
     map_option (\<lambda>(header_len, value_len). (offset + header_len, offset + header_len + value_len))
       (rl_payload_info R rlp)"

definition decode_child_handle_plan :: "rlp_api \<Rightarrow> bytes \<Rightarrow> nat \<Rightarrow> node_handle_plan option" where
  "decode_child_handle_plan R child_rlp offset =
     (if rl_is_data R child_rlp \<and> rl_size R child_rlp = 32
      then map_option (\<lambda>(header_len, value_len).
          HandleHash (offset + header_len, offset + header_len + value_len))
        (rl_payload_info R child_rlp)
      else Some (HandleInline (offset, offset + length child_rlp)))"

text \<open>
  The first item of a node of two items: the partial key and whether the node is a leaf. The data of
  an item that is not empty has a first byte.
\<close>

definition decode_partial :: "rlp_api \<Rightarrow> bytes \<Rightarrow> nat \<Rightarrow> (nibble_slice_plan \<times> bool) option" where
  "decode_partial R partial_rlp offset =
     (case rl_payload_info R partial_rlp of
        None \<Rightarrow> None
      | Some (header_len, value_len) \<Rightarrow>
          let partial_offset = offset + header_len in
          if rl_is_empty R partial_rlp then Some (((partial_offset, partial_offset), 0), False)
          else (case rl_data R partial_rlp of
              None \<Rightarrow> None
            | Some data \<Rightarrow>
                let partial_header = hd data;
                    is_leaf = (partial_header AND 32 = 32);
                    (start, byte_offset) = (if partial_header AND 16 = 16 then (0, 1) else (1, 0))
                in Some (((partial_offset + start, partial_offset + value_len), byte_offset), is_leaf)))"

fun decode_children :: "rlp_api \<Rightarrow> bytes \<Rightarrow> nat list \<Rightarrow> node_handle_plan option list option" where
  "decode_children R r [] = Some []"
| "decode_children R r (i # is) =
     (case rl_at_with_offset R r i of
        None \<Rightarrow> None
      | Some (child_rlp, child_offset) \<Rightarrow>
          if rl_is_empty R child_rlp then map_option (\<lambda>cs. None # cs) (decode_children R r is)
          else (case decode_child_handle_plan R child_rlp child_offset of
              None \<Rightarrow> None
            | Some h \<Rightarrow> map_option (\<lambda>cs. Some h # cs) (decode_children R r is)))"

definition decode_plan :: "rlp_api \<Rightarrow> bytes \<Rightarrow> node_plan option" where
  "decode_plan R r =
     (case rl_prototype R r of
        Some (ProtoList n) \<Rightarrow>
          if n = 2 then
            (case rl_at_with_offset R r 0 of None \<Rightarrow> None | Some (partial_rlp, partial_offset) \<Rightarrow>
             case decode_partial R partial_rlp partial_offset of None \<Rightarrow> None | Some (partial, is_leaf) \<Rightarrow>
             case rl_at_with_offset R r 1 of None \<Rightarrow> None | Some (value_rlp, value_offset) \<Rightarrow>
             if is_leaf then map_option (PlanLeaf partial) (decode_value_range R value_rlp value_offset)
             else map_option (PlanExtension partial) (decode_child_handle_plan R value_rlp value_offset))
          else if n = 17 then
            (case decode_children R r [0..<16] of None \<Rightarrow> None | Some children \<Rightarrow>
             case rl_at_with_offset R r 16 of None \<Rightarrow> None | Some (value_rlp, value_offset) \<Rightarrow>
             if rl_is_empty R value_rlp then Some (PlanBranch None children)
             else map_option (\<lambda>v. PlanBranch (Some v) children)
               (decode_value_range R value_rlp value_offset))
          else None
      | Some (ProtoData n) \<Rightarrow> if n = 0 then Some PlanEmpty else None
      | _ \<Rightarrow> None)"

definition is_empty_node :: "rlp_api \<Rightarrow> bytes \<Rightarrow> bool" where
  "is_empty_node R data = rl_is_empty R data"

definition empty_node :: bytes where
  "empty_node = [0x80]"

definition leaf_node :: "rlp_api \<Rightarrow> partial_key \<Rightarrow> bytes \<Rightarrow> bytes" where
  "leaf_node R partial v =
     rl_list R [rl_append R (encode_partial_iter partial True), rl_append R v]"

text \<open>What is appended for a child; the slice of an inline child panics beyond its 32 bytes.\<close>

definition append_child :: "rlp_api \<Rightarrow> child_reference \<Rightarrow> bytes exec" where
  "append_child R child_ref =
     (case child_ref of
        ChildHash hash \<Rightarrow> Ret (rl_append R (be_bytes 32 hash))
      | ChildInline inline_data len \<Rightarrow>
          if len \<le> 32 then Ret (take len (be_bytes 32 inline_data))
          else Panic ''range end index out of range for slice of length 32'')"

definition extension_node :: "rlp_api \<Rightarrow> bytes \<Rightarrow> nat \<Rightarrow> child_reference \<Rightarrow> bytes exec" where
  "extension_node R partial number_nibble child_ref =
     exec_bind (append_child R child_ref) (\<lambda>child.
       Ret (rl_list R
         [rl_append R (encode_partial_from_iterator_iter partial (number_nibble mod 2 > 0) False), child]))"

fun append_children :: "rlp_api \<Rightarrow> child_reference option list \<Rightarrow> bytes list exec" where
  "append_children R [] = Ret []"
| "append_children R (child_ref # child_refs) =
     exec_bind (case child_ref of None \<Rightarrow> Ret (rl_append R []) | Some c \<Rightarrow> append_child R c) (\<lambda>item.
       exec_bind (append_children R child_refs) (\<lambda>items. Ret (item # items)))"

definition branch_node_rlp :: "rlp_api \<Rightarrow> child_reference option list \<Rightarrow> bytes option \<Rightarrow> bytes exec" where
  "branch_node_rlp R children maybe_value =
     exec_bind (append_children R children) (\<lambda>items.
       Ret (rl_list R (items @ [case maybe_value of Some v \<Rightarrow> rl_append R v | None \<Rightarrow> rl_append R []])))"

definition branch_node_nibbled :: "bytes exec" where
  "branch_node_nibbled =
     Panic ''This codec is only used with a trie Layout that uses extension node.''"

section \<open>The trait\<close>

text \<open>A \<open>NodeCodec\<close> as the trie uses it, and the implementation.\<close>

record node_codec =
  nc_hashed_null_node :: h256
  nc_decode_plan :: "bytes \<Rightarrow> node_plan option"
  nc_is_empty_node :: "bytes \<Rightarrow> bool"
  nc_empty_node :: bytes
  nc_leaf_node :: "partial_key \<Rightarrow> bytes \<Rightarrow> bytes"
  nc_extension_node :: "bytes \<Rightarrow> nat \<Rightarrow> child_reference \<Rightarrow> bytes exec"
  nc_branch_node :: "child_reference option list \<Rightarrow> bytes option \<Rightarrow> bytes exec"

definition rlp_node_codec :: "rlp_api \<Rightarrow> node_codec" where
  "rlp_node_codec R = \<lparr>
     nc_hashed_null_node = HASHED_NULL_NODE,
     nc_decode_plan = decode_plan R,
     nc_is_empty_node = is_empty_node R,
     nc_empty_node = empty_node,
     nc_leaf_node = leaf_node R,
     nc_extension_node = extension_node R,
     nc_branch_node = branch_node_rlp R\<rparr>"

section \<open>Nodes\<close>

text \<open>
  What a trie stores: nibbles are bytes below 16, a key is a list of them. A plan selects the parts
  of a node from its encoding (\<open>plan_node\<close>), as \<open>NodePlan::build\<close> of the crate does.
\<close>

type_synonym nibbles = "u8 list"

datatype node_handle = NodeHash h256 | NodeInline bytes

datatype trie_node =
    NodeEmpty
  | NodeLeaf nibbles bytes
  | NodeExtension nibbles node_handle
  | NodeBranch "bytes option" "node_handle option list"

definition slice :: "bytes \<Rightarrow> byte_range \<Rightarrow> bytes" where
  "slice data r = take (snd r - fst r) (drop (fst r) data)"

definition to_nibbles :: "bytes \<Rightarrow> nibbles" where
  "to_nibbles bs = concat (map (\<lambda>b. [b div 16, b mod 16]) bs)"

definition plan_nibbles :: "bytes \<Rightarrow> nibble_slice_plan \<Rightarrow> nibbles" where
  "plan_nibbles data p = drop (snd p) (to_nibbles (slice data (fst p)))"

fun plan_handle :: "bytes \<Rightarrow> node_handle_plan \<Rightarrow> node_handle" where
  "plan_handle data (HandleHash r) = NodeHash (of_be_bytes (slice data r))"
| "plan_handle data (HandleInline r) = NodeInline (slice data r)"

fun plan_node :: "bytes \<Rightarrow> node_plan \<Rightarrow> trie_node" where
  "plan_node data PlanEmpty = NodeEmpty"
| "plan_node data (PlanLeaf p r) = NodeLeaf (plan_nibbles data p) (slice data r)"
| "plan_node data (PlanExtension p h) = NodeExtension (plan_nibbles data p) (plan_handle data h)"
| "plan_node data (PlanBranch v cs) =
     NodeBranch (map_option (slice data) v) (map (map_option (plan_handle data)) cs)"

definition decode_node :: "node_codec \<Rightarrow> bytes \<Rightarrow> trie_node option" where
  "decode_node C data = map_option (plan_node data) (nc_decode_plan C data)"

text \<open>How a key is handed to the codec: pairs of nibbles as bytes, after the first nibble of an odd key.\<close>

fun pack_nibbles :: "nibbles \<Rightarrow> bytes" where
  "pack_nibbles (a # b # ns) = (16 * a + b) # pack_nibbles ns"
| "pack_nibbles ns = []"

definition partial_of :: "nibbles \<Rightarrow> partial_key" where
  "partial_of ns = (if odd (length ns) then ((1, hd ns), pack_nibbles (tl ns)) else ((0, 0), pack_nibbles ns))"

definition partial_bytes :: "nibbles \<Rightarrow> bytes" where
  "partial_bytes ns = (if odd (length ns) then hd ns # pack_nibbles (tl ns) else pack_nibbles ns)"

definition nibbles_ok :: "nibbles \<Rightarrow> bool" where
  "nibbles_ok ns \<longleftrightarrow> (\<forall>n \<in> set ns. n < 16)"

fun handle_of :: "child_reference \<Rightarrow> node_handle" where
  "handle_of (ChildHash h) = NodeHash h"
| "handle_of (ChildInline d len) = NodeInline (take len (be_bytes 32 d))"

text \<open>
  The nodes that a trie encodes: a child is referred to by its hash, or inline when it is itself an
  encoded node of less than 32 bytes; a branch stores no empty value.
\<close>

inductive encoded_node :: "node_codec \<Rightarrow> bytes \<Rightarrow> trie_node \<Rightarrow> bool"
  and encoded_child :: "node_codec \<Rightarrow> child_reference \<Rightarrow> bool" for C where
  enc_empty: "encoded_node C (nc_empty_node C) NodeEmpty"
| enc_leaf: "nibbles_ok ns \<Longrightarrow> encoded_node C (nc_leaf_node C (partial_of ns) v) (NodeLeaf ns v)"
| enc_extension: "nibbles_ok ns \<Longrightarrow> encoded_child C c \<Longrightarrow>
    nc_extension_node C (partial_bytes ns) (length ns) c = Ret data \<Longrightarrow>
    encoded_node C data (NodeExtension ns (handle_of c))"
| enc_branch: "length cs = 16 \<Longrightarrow> (\<And>c. Some c \<in> set cs \<Longrightarrow> encoded_child C c) \<Longrightarrow> v \<noteq> Some [] \<Longrightarrow>
    nc_branch_node C cs v = Ret data \<Longrightarrow>
    encoded_node C data (NodeBranch v (map (map_option handle_of) cs))"
| enc_hash: "encoded_child C (ChildHash h)"
| enc_inline: "encoded_node C (take len (be_bytes 32 d)) n \<Longrightarrow> n \<noteq> NodeEmpty \<Longrightarrow> len < 32 \<Longrightarrow>
    encoded_child C (ChildInline d len)"

text \<open>A lawful codec decodes what it encodes; a Rust vector has less than \<open>2 ^ 63\<close> bytes.\<close>

definition codec_lawful :: "node_codec \<Rightarrow> bool" where
  "codec_lawful C \<longleftrightarrow>
     (\<forall>data n. encoded_node C data n \<longrightarrow> length data < 2 ^ 63 \<longrightarrow>
        decode_node C data = Some n \<and> (nc_is_empty_node C data \<longleftrightarrow> n = NodeEmpty))"

section \<open>Nibbles\<close>

lemma nibble_cases:
  assumes "(n :: u8) < 16"
  shows "n \<in> {0, 1, 2, 3, 4, 5, 6, 7, 8, 9, 10, 11, 12, 13, 14, 15}"
proof -
  have "unat n < 16" using assms by (simp add: word_less_nat_alt)
  then have "unat n \<in> set [0..<16]" by simp
  then have "(word_of_nat (unat n) :: u8) \<in> word_of_nat ` set [0..<16]" by (rule imageI)
  then show ?thesis by (simp add: upt_rec)
qed

lemma header_bits:
  assumes "(n :: u8) < 16"
  shows "(0x10 + 0x20 + n) AND 32 = 32" "(0x10 + 0x20 + n) AND 16 = 16" "(0x10 + 0x20 + n) mod 16 = n"
    "(0x10 + 0 + n) AND 32 \<noteq> 32" "(0x10 + 0 + n) AND 16 = 16" "(0x10 + 0 + n) mod 16 = n"
  using nibble_cases [OF assms] by auto

lemma pair_nibbles:
  assumes "(a :: u8) < 16" and "b < 16"
  shows "(16 * a + b) div 16 = a" "(16 * a + b) mod 16 = b"
proof -
  have "unat a < 16" "unat b < 16" using assms by (simp_all add: word_less_nat_alt)
  then have u: "unat (16 * a + b) = 16 * unat a + unat b"
    by (simp add: unat_word_ariths)
  have "unat ((16 * a + b) div 16) = unat a" "unat ((16 * a + b) mod 16) = unat b"
    using \<open>unat b < 16\<close> by (simp_all add: unat_div unat_mod u)
  then show "(16 * a + b) div 16 = a" "(16 * a + b) mod 16 = b" by (simp_all add: word_unat_eq_iff)
qed

lemma to_nibbles_simps [simp]:
  "to_nibbles [] = []" "to_nibbles (b # bs) = b div 16 # b mod 16 # to_nibbles bs"
  by (simp_all add: to_nibbles_def)

lemma to_nibbles_pack:
  "nibbles_ok ns \<Longrightarrow> even (length ns) \<Longrightarrow> to_nibbles (pack_nibbles ns) = ns"
  by (induction ns rule: pack_nibbles.induct) (simp_all add: nibbles_ok_def pair_nibbles)

text \<open>The two encoders of a partial key agree, and what they encode determines the key.\<close>

definition partial_data :: "nibbles \<Rightarrow> bool \<Rightarrow> bytes" where
  "partial_data ns is_leaf = encode_partial_iter (partial_of ns) is_leaf"

lemma partial_bytes_data:
  "encode_partial_from_iterator_iter (partial_bytes ns) (length ns mod 2 > 0) is_leaf = partial_data ns is_leaf"
proof -
  have "length ns mod 2 > 0 \<longleftrightarrow> odd (length ns)" by presburger
  then show ?thesis
    by (cases ns) (simp_all add: partial_data_def encode_partial_from_iterator_iter_def
        partial_bytes_def encode_partial_iter_def partial_of_def)
qed

lemma partial_data_facts:
  assumes "nibbles_ok ns"
  shows "partial_data ns is_leaf \<noteq> []"
    "hd (partial_data ns is_leaf) AND 32 = 32 \<longleftrightarrow> is_leaf"
    "hd (partial_data ns is_leaf) AND 16 = 16 \<Longrightarrow> drop 1 (to_nibbles (partial_data ns is_leaf)) = ns"
    "hd (partial_data ns is_leaf) AND 16 \<noteq> 16 \<Longrightarrow> to_nibbles (drop 1 (partial_data ns is_leaf)) = ns"
proof -
  have "partial_data ns is_leaf \<noteq> [] \<and> (hd (partial_data ns is_leaf) AND 32 = 32 \<longleftrightarrow> is_leaf)
    \<and> (hd (partial_data ns is_leaf) AND 16 = 16 \<longrightarrow> drop 1 (to_nibbles (partial_data ns is_leaf)) = ns)
    \<and> (hd (partial_data ns is_leaf) AND 16 \<noteq> 16 \<longrightarrow> to_nibbles (drop 1 (partial_data ns is_leaf)) = ns)"
  proof (cases "odd (length ns)")
    case True
    then obtain n rest where ns: "ns = n # rest" by (cases ns) auto
    with assms True have n: "n < 16" "nibbles_ok rest" "even (length rest)" by (simp_all add: nibbles_ok_def)
    have data: "partial_data ns is_leaf = (0x10 + (if is_leaf then 0x20 else 0) + n) # pack_nibbles rest"
      using True by (simp add: partial_data_def encode_partial_iter_def partial_of_def
          encode_partial_inner_iter_def ns)
    show ?thesis
      unfolding data using header_bits [OF n(1)] to_nibbles_pack [OF n(2,3)] by (cases is_leaf) (simp_all add: ns)
  next
    case False
    then have data: "partial_data ns is_leaf = (if is_leaf then 0x20 else 0) # pack_nibbles ns"
      by (simp add: partial_data_def encode_partial_iter_def partial_of_def encode_partial_inner_iter_def)
    show ?thesis unfolding data using to_nibbles_pack [OF assms] False by simp
  qed
  then show "partial_data ns is_leaf \<noteq> []"
    "hd (partial_data ns is_leaf) AND 32 = 32 \<longleftrightarrow> is_leaf"
    "hd (partial_data ns is_leaf) AND 16 = 16 \<Longrightarrow> drop 1 (to_nibbles (partial_data ns is_leaf)) = ns"
    "hd (partial_data ns is_leaf) AND 16 \<noteq> 16 \<Longrightarrow> to_nibbles (drop 1 (partial_data ns is_leaf)) = ns"
    by blast+
qed

section \<open>What the codec relies on\<close>

text \<open>The items that streams produce.\<close>

inductive rlp_item :: "rlp_api \<Rightarrow> bytes \<Rightarrow> bool" for R where
  item_append: "rlp_item R (rl_append R bs)"
| item_list: "(\<And>x. x \<in> set xs \<Longrightarrow> rlp_item R x) \<Longrightarrow> rlp_item R (rl_list R xs)"

text \<open>The item of a child: a hash, or the list that an inline node is.\<close>

definition child_item :: "rlp_api \<Rightarrow> child_reference \<Rightarrow> bytes \<Rightarrow> bool" where
  "child_item R c x \<longleftrightarrow> (case c of
     ChildHash h \<Rightarrow> x = rl_append R (be_bytes 32 h)
   | ChildInline d len \<Rightarrow> x = take len (be_bytes 32 d) \<and> (\<exists>xs. x = rl_list R xs \<and> xs \<noteq> []
       \<and> (\<forall>y \<in> set xs. rlp_item R y)))"

lemma be_bytes_not_empty: "be_bytes 32 w \<noteq> []"
  using length_be_bytes [of 32 w] by fastforce

locale rlp_format =
  fixes R :: rlp_api
  assumes append_empty: "rl_append R [] = [0x80]"
    and append_info: "length (rl_append R bs) < 2 ^ 63 \<Longrightarrow>
      \<exists>h. rl_payload_info R (rl_append R bs) = Some (h, length bs) \<and> drop h (rl_append R bs) = bs"
    and append_data: "length (rl_append R bs) < 2 ^ 63 \<Longrightarrow> rl_data R (rl_append R bs) = Some bs"
    and append_size: "length (rl_append R bs) < 2 ^ 63 \<Longrightarrow> rl_size R (rl_append R bs) = length bs"
    and append_is_data: "length (rl_append R bs) < 2 ^ 63 \<Longrightarrow> rl_is_data R (rl_append R bs)"
    and append_is_empty: "length (rl_append R bs) < 2 ^ 63 \<Longrightarrow> rl_is_empty R (rl_append R bs) \<longleftrightarrow> bs = []"
    and empty_prototype: "rl_prototype R [0x80] = Some (ProtoData 0)"
    and list_not_data: "length (rl_list R xs) < 2 ^ 63 \<Longrightarrow> \<not> rl_is_data R (rl_list R xs)"
    and list_is_empty: "(\<And>x. x \<in> set xs \<Longrightarrow> rlp_item R x) \<Longrightarrow> length (rl_list R xs) < 2 ^ 63 \<Longrightarrow>
      rl_is_empty R (rl_list R xs) \<longleftrightarrow> xs = []"
    and list_prototype: "(\<And>x. x \<in> set xs \<Longrightarrow> rlp_item R x) \<Longrightarrow> length (rl_list R xs) < 2 ^ 63 \<Longrightarrow>
      rl_prototype R (rl_list R xs) = Some (ProtoList (length xs))"
    and list_at: "(\<And>x. x \<in> set xs \<Longrightarrow> rlp_item R x) \<Longrightarrow> length (rl_list R xs) < 2 ^ 63 \<Longrightarrow>
      i < length xs \<Longrightarrow> \<exists>off. rl_at_with_offset R (rl_list R xs) i = Some (xs ! i, off)
        \<and> take (length (xs ! i)) (drop off (rl_list R xs)) = xs ! i"
begin

lemma slice_item: "take (length x) (drop off L) = x \<Longrightarrow> slice L (off, off + length x) = x"
  by (simp add: slice_def)

lemma item_fits: "take (length x) (drop off L) = x \<Longrightarrow> length L < 2 ^ 63 \<Longrightarrow> length x < 2 ^ 63"
  by (metis (no_types) le_less_trans length_drop length_take min.cobounded1 min.commute diff_le_self order_trans)

lemma slice_payload:
  assumes at: "take (length x) (drop off L) = x" and x: "drop h x = bs"
  shows "slice L (off + h + k, off + h + length bs) = drop k bs"
proof -
  have "drop k bs = drop (k + h) (take (length x) (drop off L))" using x at by (metis drop_drop add.commute)
  also have "\<dots> = take (length x - (k + h)) (drop (off + (k + h)) L)"
    by (simp add: drop_take add.commute)
  also have "length x - (k + h) = length bs - k" using x by (metis diff_diff_left length_drop add.commute)
  finally show ?thesis by (simp add: slice_def add.commute add.left_commute)
qed

lemma decode_partial_data:
  assumes at: "take (length x) (drop off L) = x" and x: "x = rl_append R (partial_data ns is_leaf)"
    and fits: "length L < 2 ^ 63" and ok: "nibbles_ok ns"
  shows "\<exists>p. decode_partial R x off = Some (p, is_leaf) \<and> plan_nibbles L p = ns"
proof -
  let ?bs = "partial_data ns is_leaf"
  have fx: "length (rl_append R ?bs) < 2 ^ 63" using item_fits [OF at fits] x by simp
  obtain h where h: "rl_payload_info R x = Some (h, length ?bs)" "drop h x = ?bs"
    using append_info [OF fx] x by blast
  note facts = partial_data_facts [OF ok, of is_leaf]
  note part = slice_payload [OF at h(2)]
  have "rl_data R x = Some ?bs" "\<not> rl_is_empty R x"
    using append_data [OF fx] append_is_empty [OF fx] facts(1) x by simp_all
  with facts(2-4) part [of 0] part [of 1] h(1) show ?thesis
    by (cases "hd ?bs AND 16 = 16") (simp_all add: decode_partial_def Let_def plan_nibbles_def)
qed

lemma decode_value:
  assumes at: "take (length x) (drop off L) = x" and x: "x = rl_append R v" and fits: "length L < 2 ^ 63"
  shows "\<exists>r. decode_value_range R x off = Some r \<and> slice L r = v"
proof -
  have fx: "length (rl_append R v) < 2 ^ 63" using item_fits [OF at fits] x by simp
  obtain h where h: "rl_payload_info R x = Some (h, length v)" "drop h x = v"
    using append_info [OF fx] x by blast
  with slice_payload [OF at h(2), of 0] show ?thesis by (simp add: decode_value_range_def)
qed

lemma child_item_is_item:
  assumes "child_item R c x"
  shows "rlp_item R x" "length x < 2 ^ 63 \<Longrightarrow> \<not> rl_is_empty R x"
proof -
  consider h :: h256 where "x = rl_append R (be_bytes 32 h)" "(be_bytes 32 h :: bytes) \<noteq> []"
    | xs where "x = rl_list R xs" "xs \<noteq> []" "\<And>y. y \<in> set xs \<Longrightarrow> rlp_item R y"
    using assms by (cases c) (auto simp: child_item_def be_bytes_not_empty)
  then have "rlp_item R x \<and> (length x < 2 ^ 63 \<longrightarrow> \<not> rl_is_empty R x)"
    by cases (auto simp: append_is_empty list_is_empty intro: item_append item_list)
  then show "rlp_item R x" "length x < 2 ^ 63 \<Longrightarrow> \<not> rl_is_empty R x" by blast+
qed

lemma decode_child:
  assumes at: "take (length x) (drop off L) = x" and c: "child_item R c x" and fits: "length L < 2 ^ 63"
  shows "\<exists>p. decode_child_handle_plan R x off = Some p \<and> plan_handle L p = handle_of c"
proof (cases c)
  case (ChildHash h)
  with c have x: "x = rl_append R (be_bytes 32 h)" by (simp add: child_item_def)
  have fx: "length (rl_append R (be_bytes 32 h)) < 2 ^ 63" using item_fits [OF at fits] x by simp
  have "rl_is_data R x" "rl_size R x = 32" using append_is_data [OF fx] append_size [OF fx] x by simp_all
  moreover obtain r where "decode_value_range R x off = Some r" "slice L r = be_bytes 32 h"
    using decode_value [OF at x fits] by blast
  ultimately show ?thesis
    using ChildHash by (auto simp: decode_child_handle_plan_def decode_value_range_def of_be_bytes_be_bytes)
next
  case (ChildInline d len)
  with c obtain xs where x: "x = take len (be_bytes 32 d)" "x = rl_list R xs" by (auto simp: child_item_def)
  have "\<not> rl_is_data R x" using list_not_data [of xs] item_fits [OF at fits] x(2) by simp
  then show ?thesis
    using slice_item [OF at] ChildInline x(1) by (auto simp: decode_child_handle_plan_def)
qed

text \<open>The encoders of children and the nodes they give.\<close>

lemma append_children_items:
  assumes "append_children R cs = Ret items"
  shows "length items = length cs
    \<and> (\<forall>i < length cs. case cs ! i of None \<Rightarrow> items ! i = rl_append R []
        | Some c \<Rightarrow> append_child R c = Ret (items ! i))"
  using assms
proof (induction cs arbitrary: items)
  case (Cons c cs)
  from Cons.prems obtain x xs where x: "items = x # xs" "append_children R cs = Ret xs"
    "(case c of None \<Rightarrow> Ret (rl_append R []) | Some d \<Rightarrow> append_child R d) = Ret x"
    by (auto simp: exec_bind_Ret_iff)
  from Cons.IH [OF x(2)] x(1,3) show ?case
    by (auto simp: nth_Cons split: nat.splits option.splits)
qed simp

lemma encoded_items:
  "encoded_node (rlp_node_codec R) data n \<Longrightarrow> n \<noteq> NodeEmpty \<Longrightarrow>
     \<exists>xs. data = rl_list R xs \<and> xs \<noteq> [] \<and> (\<forall>x \<in> set xs. rlp_item R x)"
  "encoded_child (rlp_node_codec R) c \<Longrightarrow> \<exists>x. append_child R c = Ret x \<and> child_item R c x"
proof (induction rule: encoded_node_encoded_child.inducts)
  case (enc_leaf ns v)
  have "nc_leaf_node (rlp_node_codec R) (partial_of ns) v
      = rl_list R [rl_append R (encode_partial_iter (partial_of ns) True), rl_append R v]"
    by (simp add: rlp_node_codec_def leaf_node_def)
  then show ?case by (intro exI conjI) (auto intro: item_append)
next
  case (enc_extension ns c data)
  then obtain x where x: "append_child R c = Ret x" "child_item R c x" by blast
  have "data = rl_list R [rl_append R
      (encode_partial_from_iterator_iter (partial_bytes ns) (length ns mod 2 > 0) False), x]"
    using enc_extension x(1) by (simp add: rlp_node_codec_def extension_node_def)
  then show ?case by (intro exI conjI) (auto intro: item_append child_item_is_item [OF x(2)])
next
  case (enc_branch cs v data)
  obtain items where items: "append_children R cs = Ret items"
    "data = rl_list R (items @ [case v of Some v \<Rightarrow> rl_append R v | None \<Rightarrow> rl_append R []])"
    using enc_branch by (auto simp: rlp_node_codec_def branch_node_rlp_def exec_bind_Ret_iff)
  have "rlp_item R x" if "x \<in> set items" for x
  proof -
    from that append_children_items [OF items(1)] obtain i where i: "i < length cs" "x = items ! i"
      by (metis in_set_conv_nth)
    show ?thesis
    proof (cases "cs ! i")
      case None
      with append_children_items [OF items(1)] i have "x = rl_append R []" by fastforce
      then show ?thesis by (simp add: item_append)
    next
      case (Some c)
      with append_children_items [OF items(1)] i have "append_child R c = Ret x" by fastforce
      moreover have "Some c \<in> set cs" using Some i(1) by (metis nth_mem)
      ultimately show ?thesis using enc_branch.IH child_item_is_item(1) by fastforce
    qed
  qed
  then show ?case
    using items(2) by (intro exI conjI) (auto intro: item_append split: option.splits)
next
  case (enc_hash h)
  then show ?case by (simp add: append_child_def child_item_def)
next
  case (enc_inline len d n)
  then show ?case by (auto simp: append_child_def child_item_def)
qed simp

lemma decode_pair:
  assumes items: "rlp_item R x" "rlp_item R y" and fits: "length (rl_list R [x, y]) < 2 ^ 63"
  obtains offx offy where
    "rl_at_with_offset R (rl_list R [x, y]) 0 = Some (x, offx)"
    "take (length x) (drop offx (rl_list R [x, y])) = x"
    "rl_at_with_offset R (rl_list R [x, y]) (Suc 0) = Some (y, offy)"
    "take (length y) (drop offy (rl_list R [x, y])) = y"
    "rl_prototype R (rl_list R [x, y]) = Some (ProtoList 2)"
proof -
  have ok: "\<And>z. z \<in> set [x, y] \<Longrightarrow> rlp_item R z" using items by auto
  from list_at [OF ok fits, of 0] list_at [OF ok fits, of 1] list_prototype [OF ok fits] show ?thesis
    using that by auto
qed

lemma decode_children_handles:
  assumes "\<And>i. i \<in> set is \<Longrightarrow> \<exists>x off. rl_at_with_offset R L i = Some (x, off)
      \<and> (case cs ! i of None \<Rightarrow> rl_is_empty R x
         | Some c \<Rightarrow> \<not> rl_is_empty R x \<and> (\<exists>p. decode_child_handle_plan R x off = Some p
             \<and> plan_handle L p = handle_of c))"
  shows "\<exists>hs. decode_children R L is = Some hs
    \<and> map (map_option (plan_handle L)) hs = map (\<lambda>i. map_option handle_of (cs ! i)) is"
  using assms
proof (induction "is")
  case (Cons i "is")
  then obtain hs where hs: "decode_children R L is = Some hs"
    "map (map_option (plan_handle L)) hs = map (\<lambda>i. map_option handle_of (cs ! i)) is" by auto
  from Cons.prems [of i] obtain x off where at: "rl_at_with_offset R L i = Some (x, off)"
    "case cs ! i of None \<Rightarrow> rl_is_empty R x
         | Some c \<Rightarrow> \<not> rl_is_empty R x \<and> (\<exists>p. decode_child_handle_plan R x off = Some p
             \<and> plan_handle L p = handle_of c)" by auto
  with hs show ?case by (cases "cs ! i") auto
qed simp

lemma decode_branch:
  assumes cs: "length cs = 16" "\<And>c. Some c \<in> set cs \<Longrightarrow> encoded_child (rlp_node_codec R) c"
    and v: "v \<noteq> Some []" and run: "branch_node_rlp R cs v = Ret data" and fits: "length data < 2 ^ 63"
  shows "decode_node (rlp_node_codec R) data = Some (NodeBranch v (map (map_option handle_of) cs))"
proof -
  obtain items where items: "append_children R cs = Ret items"
    and data: "data = rl_list R (items @ [case v of Some v \<Rightarrow> rl_append R v | None \<Rightarrow> rl_append R []])"
    using run by (auto simp: branch_node_rlp_def exec_bind_Ret_iff)
  note ch = append_children_items [OF items]
  let ?xs = "items @ [case v of Some v \<Rightarrow> rl_append R v | None \<Rightarrow> rl_append R []]"
  have item: "case cs ! i of None \<Rightarrow> items ! i = rl_append R [] | Some c \<Rightarrow> child_item R c (items ! i)"
    if "i < 16" for i
  proof (cases "cs ! i")
    case None
    with ch that cs(1) show ?thesis by fastforce
  next
    case (Some c)
    with ch that cs(1) have "append_child R c = Ret (items ! i)" by fastforce
    moreover have "Some c \<in> set cs" using Some that cs(1) by (metis nth_mem)
    ultimately show ?thesis using encoded_items(2) [OF cs(2) [of c]] Some by auto
  qed
  have "rlp_item R x" if "x \<in> set items" for x
  proof -
    from that ch cs(1) obtain i where i: "i < 16" "x = items ! i" by (metis in_set_conv_nth)
    with item [OF i(1)] show ?thesis
      by (cases "cs ! i") (auto intro: item_append child_item_is_item(1))
  qed
  then have ok: "\<And>x. x \<in> set ?xs \<Longrightarrow> rlp_item R x" by (auto intro: item_append split: option.splits)
  have len: "length items = 16" using ch cs(1) by simp
  have at: "\<exists>off. rl_at_with_offset R data i = Some (?xs ! i, off)
      \<and> take (length (?xs ! i)) (drop off data) = ?xs ! i" if "i < 17" for i
    unfolding data by (rule list_at) (use ok fits that len in \<open>auto simp: data\<close>)
  have "\<exists>x off. rl_at_with_offset R data i = Some (x, off)
      \<and> (case cs ! i of None \<Rightarrow> rl_is_empty R x
         | Some c \<Rightarrow> \<not> rl_is_empty R x \<and> (\<exists>p. decode_child_handle_plan R x off = Some p
             \<and> plan_handle data p = handle_of c))" if "i \<in> set [0..<16]" for i
  proof -
    have i: "i < 16" using that by simp
    from at [of i] i len obtain off where off: "rl_at_with_offset R data i = Some (items ! i, off)"
      "take (length (items ! i)) (drop off data) = items ! i" by (auto simp: nth_append)
    have "length (items ! i) < 2 ^ 63" by (rule item_fits [OF off(2) fits])
    with item [OF i] off decode_child [OF off(2) _ fits] show ?thesis
      by (cases "cs ! i") (auto simp: append_is_empty child_item_is_item(2))
  qed
  from decode_children_handles [OF this] obtain hs where hs: "decode_children R data [0..<16] = Some hs"
    "map (map_option (plan_handle data)) hs = map (map_option handle_of) cs"
    using cs(1) by (metis (no_types, lifting) map_nth map_map comp_def map_eq_conv length_map)
  from at [of 16] len obtain off where off: "rl_at_with_offset R data 16 = Some (?xs ! 16, off)"
    "take (length (?xs ! 16)) (drop off data) = ?xs ! 16" by auto
  have last: "?xs ! 16 = (case v of Some v \<Rightarrow> rl_append R v | None \<Rightarrow> rl_append R [])"
    using len by (simp add: nth_append)
  have proto: "rl_prototype R data = Some (ProtoList 17)"
    unfolding data by (subst list_prototype) (use ok fits len in \<open>auto simp: data\<close>)
  have fl: "length (?xs ! 16) < 2 ^ 63" by (rule item_fits [OF off(2) fits])
  show ?thesis
  proof (cases v)
    case None
    with last fl have "rl_is_empty R (?xs ! 16)" by (simp add: append_is_empty)
    with None hs off(1) proto show ?thesis
      by (simp add: decode_node_def rlp_node_codec_def decode_plan_def)
  next
    case (Some w)
    with last fl v have "\<not> rl_is_empty R (?xs ! 16)" by (simp add: append_is_empty)
    moreover obtain r where "decode_value_range R (?xs ! 16) off = Some r" "slice data r = w"
      using decode_value [OF off(2) _ fits, of w] last Some by auto
    ultimately show ?thesis
      using Some hs off(1) proto by (simp add: decode_node_def rlp_node_codec_def decode_plan_def)
  qed
qed

theorem codec_decodes:
  assumes "encoded_node (rlp_node_codec R) data n" and fits: "length data < 2 ^ 63"
  shows "decode_node (rlp_node_codec R) data = Some n"
  using assms(1)
proof cases
  case enc_empty
  then show ?thesis
    by (simp add: decode_node_def rlp_node_codec_def decode_plan_def empty_node_def empty_prototype)
next
  case (enc_leaf ns v)
  have data: "data = rl_list R [rl_append R (partial_data ns True), rl_append R v]"
    using enc_leaf by (simp add: rlp_node_codec_def leaf_node_def partial_data_def)
  obtain offx offy where at: "rl_at_with_offset R data 0 = Some (rl_append R (partial_data ns True), offx)"
      "take (length (rl_append R (partial_data ns True))) (drop offx data) = rl_append R (partial_data ns True)"
      "rl_at_with_offset R data (Suc 0) = Some (rl_append R v, offy)"
      "take (length (rl_append R v)) (drop offy data) = rl_append R v"
      "rl_prototype R data = Some (ProtoList 2)"
    using decode_pair [OF item_append item_append fits [unfolded data]] unfolding data by blast
  from decode_partial_data [OF at(2) refl fits enc_leaf(3)] decode_value [OF at(4) refl fits] at(1,3,5)
  show ?thesis using enc_leaf(2) by (auto simp: decode_node_def rlp_node_codec_def decode_plan_def)
next
  case (enc_extension ns c)
  obtain x where x: "append_child R c = Ret x" "child_item R c x" using encoded_items(2) [OF enc_extension(3)] by blast
  have data: "data = rl_list R [rl_append R (partial_data ns False), x]"
    using enc_extension(4) x(1)
    by (simp add: rlp_node_codec_def extension_node_def partial_bytes_data [simplified])
  obtain offx offy where at: "rl_at_with_offset R data 0 = Some (rl_append R (partial_data ns False), offx)"
      "take (length (rl_append R (partial_data ns False))) (drop offx data) = rl_append R (partial_data ns False)"
      "rl_at_with_offset R data (Suc 0) = Some (x, offy)" "take (length x) (drop offy data) = x"
      "rl_prototype R data = Some (ProtoList 2)"
    using decode_pair [OF item_append child_item_is_item(1) [OF x(2)] fits [unfolded data]] unfolding data by blast
  from decode_partial_data [OF at(2) refl fits enc_extension(2)] decode_child [OF at(4) x(2) fits] at(1,3,5)
  show ?thesis using enc_extension(1) by (auto simp: decode_node_def rlp_node_codec_def decode_plan_def)
next
  case (enc_branch cs v)
  then have "branch_node_rlp R cs v = Ret data" by (simp add: rlp_node_codec_def)
  with decode_branch [OF enc_branch(2,3,4) _ fits] enc_branch(1) show ?thesis by simp
qed

lemma codec_is_empty:
  assumes "encoded_node (rlp_node_codec R) data n" and fits: "length data < 2 ^ 63"
  shows "nc_is_empty_node (rlp_node_codec R) data \<longleftrightarrow> n = NodeEmpty"
proof (cases "n = NodeEmpty")
  case True
  with assms(1) have "data = rl_append R []"
    by (cases rule: encoded_node.cases) (simp_all add: rlp_node_codec_def empty_node_def append_empty)
  then show ?thesis using True append_is_empty [of "[]"] fits by (simp add: rlp_node_codec_def is_empty_node_def)
next
  case False
  with encoded_items(1) [OF assms(1)] obtain xs where
    "data = rl_list R xs" "xs \<noteq> []" "\<forall>x \<in> set xs. rlp_item R x" by blast
  with False list_is_empty [of xs] fits show ?thesis by (simp add: rlp_node_codec_def is_empty_node_def)
qed

lemma rlp_codec_lawful: "codec_lawful (rlp_node_codec R)"
  unfolding codec_lawful_def using codec_decodes codec_is_empty by blast

end

end
