(* ===== verification/Rlp_Encoding.thy ===== *)
theory Rlp_Encoding
  imports Rlp_Node_Codec
begin

text \<open>
  The recursive length prefix encoding, as the interface \<open>rlp_api\<close> that the node codec uses: a header
  with the length of the payload, in one byte for up to 55 bytes and with the big-endian bytes of the
  length otherwise; a single byte below 128 is its own encoding. The interpretation at the end shows
  that the laws of \<open>rlp_format\<close> hold of this encoding.
\<close>

section \<open>Lengths as bytes\<close>

fun nat_be :: "nat \<Rightarrow> bytes" where
  "nat_be n = (if n = 0 then [] else nat_be (n div 256) @ [word_of_nat (n mod 256)])"

declare nat_be.simps [simp del]

definition be_nat :: "bytes \<Rightarrow> nat" where
  "be_nat bs = foldl (\<lambda>a b. 256 * a + unat b) 0 bs"

lemma be_nat_nat_be: "be_nat (nat_be n) = n"
proof (induction n rule: nat_be.induct)
  case (1 n)
  show ?case
  proof (cases "n = 0")
    case True
    then show ?thesis by (simp add: nat_be.simps be_nat_def)
  next
    case False
    have "unat (word_of_nat (n mod 256) :: u8) = n mod 256" by (simp add: unat_of_nat)
    with False "1.IH" show ?thesis by (subst nat_be.simps) (simp add: be_nat_def)
  qed
qed

lemma length_nat_be: "n < 256 ^ k \<Longrightarrow> length (nat_be n) \<le> k"
proof (induction k arbitrary: n)
  case 0
  then show ?case by (simp add: nat_be.simps)
next
  case (Suc k)
  then have "n div 256 < 256 ^ k" by (simp add: less_mult_imp_div_less mult.commute)
  from Suc.IH [OF this] show ?case by (subst nat_be.simps) simp
qed

section \<open>Encoding\<close>

definition byte_of :: "nat \<Rightarrow> u8" where
  "byte_of n = word_of_nat n"

definition rlp_header :: "nat \<Rightarrow> nat \<Rightarrow> bytes" where
  "rlp_header base n =
     (if n \<le> 55 then [byte_of (base + n)] else byte_of (base + 55 + length (nat_be n)) # nat_be n)"

definition rlp_append :: "bytes \<Rightarrow> bytes" where
  "rlp_append bs = (if length bs = 1 \<and> hd bs < 0x80 then bs else rlp_header 0x80 (length bs) @ bs)"

definition rlp_list :: "bytes list \<Rightarrow> bytes" where
  "rlp_list xs = rlp_header 0xc0 (length (concat xs)) @ concat xs"

section \<open>Decoding\<close>

definition rlp_payload_info :: "bytes \<Rightarrow> (nat \<times> nat) option" where
  "rlp_payload_info bs =
     (case bs of [] \<Rightarrow> None | b # rest \<Rightarrow>
      let n = unat b;
          long = (\<lambda>k. if k \<le> length rest then Some (1 + k, be_nat (take k rest)) else None);
          info = (if n < 0x80 then Some (0, 1)
            else if n \<le> 0xb7 then Some (1, n - 0x80)
            else if n \<le> 0xbf then long (n - 0xb7)
            else if n \<le> 0xf7 then Some (1, n - 0xc0)
            else long (n - 0xf7))
      in case info of None \<Rightarrow> None
         | Some (h, v) \<Rightarrow> if h + v \<le> length bs then Some (h, v) else None)"

definition rlp_is_data :: "bytes \<Rightarrow> bool" where
  "rlp_is_data bs \<longleftrightarrow> bs \<noteq> [] \<and> hd bs < 0xc0"

definition rlp_is_empty :: "bytes \<Rightarrow> bool" where
  "rlp_is_empty bs \<longleftrightarrow> bs \<noteq> [] \<and> (hd bs = 0x80 \<or> hd bs = 0xc0)"

definition rlp_size :: "bytes \<Rightarrow> nat" where
  "rlp_size bs = (if rlp_is_data bs then case rlp_payload_info bs of None \<Rightarrow> 0 | Some (h, v) \<Rightarrow> v else 0)"

definition rlp_data :: "bytes \<Rightarrow> bytes option" where
  "rlp_data bs =
     (if rlp_is_data bs then map_option (\<lambda>(h, v). take v (drop h bs)) (rlp_payload_info bs) else None)"

text \<open>The items of a payload, one after another, with their offsets.\<close>

fun rlp_items :: "nat \<Rightarrow> nat \<Rightarrow> bytes \<Rightarrow> (bytes \<times> nat) list" where
  "rlp_items 0 off bs = []"
| "rlp_items (Suc fuel) off bs =
     (case rlp_payload_info bs of
        None \<Rightarrow> []
      | Some (h, v) \<Rightarrow> (take (h + v) bs, off) # rlp_items fuel (off + (h + v)) (drop (h + v) bs))"

definition rlp_list_items :: "bytes \<Rightarrow> (bytes \<times> nat) list" where
  "rlp_list_items bs =
     (if bs = [] \<or> rlp_is_data bs then []
      else case rlp_payload_info bs of
          None \<Rightarrow> [] | Some (h, v) \<Rightarrow> rlp_items (Suc v) h (take v (drop h bs)))"

definition rlp_prototype :: "bytes \<Rightarrow> rlp_prototype option" where
  "rlp_prototype bs =
     (if bs = [] then Some ProtoNull
      else if rlp_is_data bs then Some (ProtoData (rlp_size bs))
      else Some (ProtoList (length (rlp_list_items bs))))"

definition rlp_spec :: rlp_api where
  "rlp_spec = \<lparr>rl_append = rlp_append, rl_list = rlp_list, rl_prototype = rlp_prototype,
     rl_at_with_offset = (\<lambda>bs i. nth_opt (rlp_list_items bs) i),
     rl_payload_info = rlp_payload_info, rl_data = rlp_data, rl_is_data = rlp_is_data,
     rl_is_empty = rlp_is_empty, rl_size = rlp_size\<rparr>"

section \<open>The laws\<close>

lemma unat_byte: "n < 256 \<Longrightarrow> unat (byte_of n) = n"
  by (simp add: byte_of_def unat_of_nat)

lemma length_bytes_bound: "n < 2 ^ 63 \<Longrightarrow> length (nat_be n) \<le> 8"
  by (rule length_nat_be) simp

lemma nat_be_pos: "55 < n \<Longrightarrow> 0 < length (nat_be n)"
  by (subst nat_be.simps) simp

text \<open>The header of a string or list of \<open>n\<close> bytes is read back, whatever follows the payload.\<close>

lemma header_info:
  assumes "n < 2 ^ 63" and "base \<in> {0x80, 0xc0}" and "length body = n"
  shows "rlp_payload_info (rlp_header base n @ body @ rest) = Some (length (rlp_header base n), n)"
proof (cases "n \<le> 55")
  case True
  consider "base = 0x80" | "base = 0xc0" using assms(2) by auto
  then show ?thesis
    by cases (use True assms(3) in \<open>simp_all add: rlp_header_def rlp_payload_info_def Let_def unat_byte\<close>)
next
  case False
  let ?k = "length (nat_be n)"
  have k: "0 < ?k" "?k \<le> 8" using nat_be_pos [of n] length_bytes_bound [OF assms(1)] False by simp_all
  consider "base = 0x80" | "base = 0xc0" using assms(2) by auto
  then show ?thesis
    by cases (use False k assms(3) in
      \<open>simp_all add: rlp_header_def rlp_payload_info_def Let_def unat_byte be_nat_nat_be\<close>)
qed

lemma header_first:
  assumes "n < 2 ^ 63"
  shows "hd (rlp_header 0x80 n) < 0xc0" "\<not> hd (rlp_header 0xc0 n) < 0xc0"
    "hd (rlp_header 0x80 n) \<noteq> 0xc0" "hd (rlp_header 0xc0 n) \<noteq> 0x80"
    "hd (rlp_header 0x80 n) = 0x80 \<longleftrightarrow> n = 0" "hd (rlp_header 0xc0 n) = 0xc0 \<longleftrightarrow> n = 0"
proof -
  have k: "length (nat_be n) \<le> 8" using length_bytes_bound [OF assms] .
  have hd: "unat (hd (rlp_header base n)) = (if n \<le> 55 then base + n else base + 55 + length (nat_be n))"
    if "base \<in> {0x80, 0xc0}" for base
    using that k by (auto simp: rlp_header_def unat_byte)
  have pos: "\<not> n \<le> 55 \<Longrightarrow> 0 < length (nat_be n)" using nat_be_pos [of n] by simp
  show "hd (rlp_header 0x80 n) < 0xc0" "\<not> hd (rlp_header 0xc0 n) < 0xc0"
    "hd (rlp_header 0x80 n) \<noteq> 0xc0" "hd (rlp_header 0xc0 n) \<noteq> 0x80"
    "hd (rlp_header 0x80 n) = 0x80 \<longleftrightarrow> n = 0" "hd (rlp_header 0xc0 n) = 0xc0 \<longleftrightarrow> n = 0"
    using hd [of "0x80"] hd [of "0xc0"] k pos
    by (auto simp: word_less_nat_alt word_unat_eq_iff split: if_splits)
qed

lemma header_not_empty [simp]: "rlp_header base n \<noteq> []"
  by (simp add: rlp_header_def)

lemma append_payload:
  assumes "length (rlp_append bs) < 2 ^ 63"
  shows "\<exists>h. rlp_payload_info (rlp_append bs @ rest) = Some (h, length bs)
    \<and> h + length bs = length (rlp_append bs) \<and> drop h (rlp_append bs) = bs"
proof (cases "length bs = 1 \<and> hd bs < 0x80")
  case True
  then obtain b where "bs = [b]" "b < 0x80" by (cases bs) auto
  then show ?thesis by (simp add: rlp_append_def rlp_payload_info_def word_less_nat_alt Let_def)
next
  case False
  then have "length bs < 2 ^ 63" using assms by (simp add: rlp_append_def split: if_splits)
  from header_info [OF this, where base = "0x80" and body = bs and rest = rest] False show ?thesis by (auto simp: rlp_append_def)
qed

lemma list_payload:
  assumes "length (rlp_list xs) < 2 ^ 63"
  shows "\<exists>h. rlp_payload_info (rlp_list xs @ rest) = Some (h, length (concat xs))
    \<and> h + length (concat xs) = length (rlp_list xs) \<and> drop h (rlp_list xs) = concat xs"
proof -
  have "length (concat xs) < 2 ^ 63" using assms by (simp add: rlp_list_def)
  from header_info [OF this, where base = "0xc0" and body = "concat xs" and rest = rest] show ?thesis by (auto simp: rlp_list_def)
qed

lemma append_first:
  assumes "length (rlp_append bs) < 2 ^ 63"
  shows "rlp_is_data (rlp_append bs)" "rlp_is_empty (rlp_append bs) \<longleftrightarrow> bs = []"
proof -
  have len: "length bs < 2 ^ 63" using assms by (auto simp: rlp_append_def split: if_splits)
  show "rlp_is_data (rlp_append bs)" "rlp_is_empty (rlp_append bs) \<longleftrightarrow> bs = []"
    using header_first(1,3,5) [OF len]
    by (auto simp: rlp_append_def rlp_is_data_def rlp_is_empty_def word_less_nat_alt)
qed

lemma list_first:
  assumes "length (rlp_list xs) < 2 ^ 63"
  shows "\<not> rlp_is_data (rlp_list xs)" "rlp_is_empty (rlp_list xs) \<longleftrightarrow> concat xs = []" "rlp_list xs \<noteq> []"
proof -
  have len: "length (concat xs) < 2 ^ 63" using assms by (simp add: rlp_list_def)
  show "\<not> rlp_is_data (rlp_list xs)" "rlp_is_empty (rlp_list xs) \<longleftrightarrow> concat xs = []" "rlp_list xs \<noteq> []"
    using header_first(2,4,6) [OF len] by (simp_all add: rlp_list_def rlp_is_data_def rlp_is_empty_def)
qed

text \<open>Every item has a payload of its own length, so that a payload of items splits into them.\<close>

lemma item_payload:
  assumes "rlp_item rlp_spec x" and "length x < 2 ^ 63"
  shows "\<exists>h v. rlp_payload_info (x @ rest) = Some (h, v) \<and> h + v = length x"
  using assms(1)
proof cases
  case (item_append bs)
  then show ?thesis using append_payload [of bs rest] assms(2) by (auto simp: rlp_spec_def)
next
  case (item_list xs)
  then show ?thesis using list_payload [of xs rest] assms(2) by (auto simp: rlp_spec_def)
qed

lemma item_not_empty: "rlp_item rlp_spec x \<Longrightarrow> x \<noteq> []"
  by (erule rlp_item.cases) (auto simp: rlp_spec_def rlp_append_def rlp_list_def split: if_splits)

lemma length_concat_items: "(\<And>x. x \<in> set xs \<Longrightarrow> x \<noteq> []) \<Longrightarrow> length xs \<le> length (concat xs)"
proof (induction xs)
  case (Cons x xs)
  then have "1 \<le> length x" "length xs \<le> length (concat xs)" by (auto simp: Suc_le_eq)
  then have "1 + length xs \<le> length x + length (concat xs)" by (rule add_mono)
  then show ?case by simp
qed simp

lemma rlp_items_concat:
  assumes "\<And>x. x \<in> set xs \<Longrightarrow> rlp_item rlp_spec x" and "length (concat xs) < 2 ^ 63" and "length xs < fuel"
  shows "length (rlp_items fuel off (concat xs)) = length xs
    \<and> (\<forall>i < length xs. rlp_items fuel off (concat xs) ! i = (xs ! i, off + length (concat (take i xs))))"
  using assms
proof (induction xs arbitrary: fuel off)
  case Nil
  then show ?case by (cases fuel) (simp_all add: rlp_payload_info_def)
next
  case (Cons x xs)
  then obtain f where f: "fuel = Suc f" "length xs < f" by (cases fuel) auto
  obtain h v where hv: "rlp_payload_info (x @ concat xs) = Some (h, v)" "h + v = length x"
    using item_payload [of x "concat xs"] Cons.prems(1,2) by auto
  then have items: "rlp_items fuel off (concat (x # xs)) = (x, off) # rlp_items f (off + length x) (concat xs)"
    by (simp add: f(1))
  have IH: "length (rlp_items f (off + length x) (concat xs)) = length xs
    \<and> (\<forall>i < length xs. rlp_items f (off + length x) (concat xs) ! i
         = (xs ! i, off + length x + length (concat (take i xs))))"
    by (rule Cons.IH) (use Cons.prems f(2) in auto)
  show ?case unfolding items using IH by (auto simp: nth_Cons split: nat.splits)
qed

lemma rlp_list_items_list:
  assumes "\<And>x. x \<in> set xs \<Longrightarrow> rlp_item rlp_spec x" and "length (rlp_list xs) < 2 ^ 63"
  shows "length (rlp_list_items (rlp_list xs)) = length xs
    \<and> (\<forall>i < length xs. \<exists>off. rlp_list_items (rlp_list xs) ! i = (xs ! i, off)
         \<and> take (length (xs ! i)) (drop off (rlp_list xs)) = xs ! i)"
proof -
  obtain h where h: "rlp_payload_info (rlp_list xs) = Some (h, length (concat xs))"
    "drop h (rlp_list xs) = concat xs" using list_payload [OF assms(2), of "[]"] by auto
  have len: "length (concat xs) < 2 ^ 63" using assms(2) by (simp add: rlp_list_def)
  have "\<not> rlp_is_data (rlp_list xs)" "rlp_list xs \<noteq> []"
    using header_first(2) [OF len] by (simp_all add: rlp_is_data_def rlp_list_def)
  then have items: "rlp_list_items (rlp_list xs) = rlp_items (Suc (length (concat xs))) h (concat xs)"
    by (simp add: rlp_list_items_def h(1) del: rlp_items.simps) (simp only: h(2) take_all order_refl)
  have "length xs \<le> length (concat xs)" by (rule length_concat_items) (use assms(1) item_not_empty in blast)
  then have split: "length (rlp_list_items (rlp_list xs)) = length xs
    \<and> (\<forall>i < length xs. rlp_list_items (rlp_list xs) ! i = (xs ! i, h + length (concat (take i xs))))"
    unfolding items by (intro rlp_items_concat assms(1) len) auto
  have "take (length (xs ! i)) (drop (h + length (concat (take i xs))) (rlp_list xs)) = xs ! i"
    if "i < length xs" for i
  proof -
    have "concat xs = concat (take i xs) @ xs ! i @ concat (drop (Suc i) xs)"
      using that by (metis concat.simps(2) concat_append id_take_nth_drop)
    moreover have "drop (h + length (concat (take i xs))) (rlp_list xs)
        = drop (length (concat (take i xs))) (concat xs)"
      using h(2) by (metis add.commute drop_drop)
    ultimately show ?thesis by simp
  qed
  with split show ?thesis by auto
qed

interpretation rlp: rlp_format rlp_spec
proof (unfold_locales, goal_cases)
  case 1
  show ?case by (simp add: rlp_spec_def rlp_append_def rlp_header_def byte_of_def)
next
  case (2 bs)
  then show ?case using append_payload [of bs "[]"] by (auto simp: rlp_spec_def)
next
  case (3 bs)
  then show ?case using append_payload [of bs "[]"] append_first [of bs] by (auto simp: rlp_spec_def rlp_data_def)
next
  case (4 bs)
  then show ?case using append_payload [of bs "[]"] append_first [of bs] by (auto simp: rlp_spec_def rlp_size_def)
next
  case (5 bs)
  then show ?case using append_first [of bs] by (simp add: rlp_spec_def)
next
  case (6 bs)
  then show ?case using append_first [of bs] by (simp add: rlp_spec_def)
next
  case 7
  show ?case by (simp add: rlp_spec_def rlp_prototype_def rlp_is_data_def rlp_size_def rlp_payload_info_def Let_def)
next
  case (8 xs)
  then show ?case using list_first [of xs] by (simp add: rlp_spec_def)
next
  case (9 xs)
  have "concat xs = [] \<longleftrightarrow> xs = []" using 9(1) item_not_empty by fastforce
  with 9 show ?case using list_first [of xs] by (simp add: rlp_spec_def)
next
  case (10 xs)
  then show ?case
    using rlp_list_items_list [of xs] list_first [of xs] by (simp add: rlp_spec_def rlp_prototype_def)
next
  case (11 xs i)
  then show ?case
    using rlp_list_items_list [of xs] by (auto simp: rlp_spec_def nth_opt_def)
qed

end
