(* ===== verification/Eth_Events.thy ===== *)
theory Eth_Events
  imports Beacon_Blocks Light_Client Rlp_Encoding
begin

text \<open>
  The programs \<open>eth-events-deneb\<close> and \<open>eth-events-electra\<close> (\<open>gear-programs/eth-events-common\<close>): a
  receipt is accepted when the receipt trie of a block contains it and the block is linked by
  headers to a checkpoint of the light client. Also the construction of the trie proof
  (\<open>ethereum-common/src/utils.rs\<close>). The receipt codec and the generic trie of the crate \<open>trie_db\<close> are
  third-party code and are the parameters \<open>receipt_codec\<close> and \<open>trie_api\<close>; the node codec with which the
  trie is instantiated is that of the theory \<open>Rlp_Node_Codec\<close>.
\<close>

section \<open>Receipts and tries\<close>

record 'r receipt_codec =
  rx_decode :: "bytes \<Rightarrow> 'r option"
  rx_is_success :: "'r \<Rightarrow> bool"
  rx_encode_2718 :: "'r \<Rightarrow> bytes"
  rx_rlp_u64 :: "u64 \<Rightarrow> bytes"

text \<open>
  \<open>'d\<close> is the node database, \<open>'t\<close> an open trie and \<open>'m\<close> a trie under construction. A lookup
  may fail (\<open>None\<close>) or answer that the key is absent (\<open>Some None\<close>); \<open>ta_record\<close> gives the nodes that
  a recorded lookup reads.
\<close>

record ('d, 't, 'm) trie_api =
  ta_new_db :: 'd
  ta_insert_node :: "'d \<Rightarrow> bytes \<Rightarrow> 'd"
  ta_open :: "'d \<Rightarrow> h256 \<Rightarrow> 't option"
  ta_get :: "'t \<Rightarrow> bytes \<Rightarrow> bytes option option"
  ta_record :: "'t \<Rightarrow> bytes \<Rightarrow> bytes list"
  ta_mut_new :: "'d \<Rightarrow> 'm"
  ta_mut_insert :: "'m \<Rightarrow> bytes \<Rightarrow> bytes \<Rightarrow> 'm option"
  ta_mut_root :: "'m \<Rightarrow> h256 \<times> 'd"

text \<open>
  The crate \<open>trie_db\<close> is generic in the node codec, that is a function from codecs to tries; the
  \<open>Layout\<close> of \<open>patricia_trie.rs\<close> applies it to the RLP node codec.
\<close>

definition patricia_trie ::
  "(node_codec \<Rightarrow> ('d, 't, 'm) trie_api) \<Rightarrow> rlp_api \<Rightarrow> ('d, 't, 'm) trie_api" where
  "patricia_trie T R = T (rlp_node_codec R)"

definition rlp_encode_transaction_index :: "'r receipt_codec \<Rightarrow> u64 \<Rightarrow> bytes" where
  "rlp_encode_transaction_index X index = rx_rlp_u64 X index"

definition rlp_encode_index_and_receipt :: "'r receipt_codec \<Rightarrow> u64 \<Rightarrow> 'r \<Rightarrow> bytes \<times> bytes" where
  "rlp_encode_index_and_receipt X index receipt =
     (rlp_encode_transaction_index X index, rx_encode_2718 X receipt)"

definition rlp_encode_receipts_and_nibble_tuples ::
  "'r receipt_codec \<Rightarrow> (u64 \<times> 'r) list \<Rightarrow> (bytes \<times> bytes) list" where
  "rlp_encode_receipts_and_nibble_tuples X receipts =
     map (\<lambda>(transaction_index, receipt). rlp_encode_index_and_receipt X transaction_index receipt) receipts"

datatype merkle_proof_error = ReceiptNotFound | InsertionFailed | RootIsNotValid

record 'r merkle_proof =
  mp_proof :: "bytes list"
  mp_receipt :: 'r

fun trie_insert_all :: "('d, 't, 'm) trie_api \<Rightarrow> 'm \<Rightarrow> (bytes \<times> bytes) list \<Rightarrow> 'm option" where
  "trie_insert_all A m [] = Some m"
| "trie_insert_all A m ((key, v) # kvs) =
     (case ta_mut_insert A m key v of None \<Rightarrow> None | Some m' \<Rightarrow> trie_insert_all A m' kvs)"

definition generate_merkle_proof ::
  "'r receipt_codec \<Rightarrow> ('d, 't, 'm) trie_api \<Rightarrow> u64 \<Rightarrow> (u64 \<times> 'r) list \<Rightarrow>
     merkle_proof_error + 'r merkle_proof" where
  "generate_merkle_proof X A tx_index receipts =
     (let key_value_tuples = rlp_encode_receipts_and_nibble_tuples X receipts in
      res_bind (ok_or (trie_insert_all A (ta_mut_new A (ta_new_db A)) key_value_tuples) InsertionFailed) (\<lambda>m.
      let (root, memory_db) = ta_mut_root A m in
      res_bind (ok_or (find (\<lambda>(index, _). index = tx_index) receipts) ReceiptNotFound)
        (\<lambda>(tx_index, receipt).
      res_bind (ok_or (ta_open A memory_db root) RootIsNotValid) (\<lambda>trie.
      let (key, _) = rlp_encode_index_and_receipt X tx_index receipt in
      Inr \<lparr>mp_proof = ta_record A trie key, mp_receipt = receipt\<rparr>))))"

section \<open>The check\<close>

datatype ee_error =
    DecodeReceiptEnvelopeFailure
  | FailedEthTransaction
  | EeSendFailure
  | EeReplyFailure
  | HandleResultDecodeFailure
  | MissingCheckpoint
  | InvalidBlockProof
  | TrieDbFailure
  | InvalidReceiptProof

record ee_state =
  ee_checkpoint_light_client_address :: actor_id

record checked_proofs =
  ck_receipt_rlp :: bytes
  ck_transaction_index :: u64
  ck_block_number :: u64
  ck_slot :: u64

record proofs =
  pf_checkpoint_light_client_address :: actor_id
  pf_slot :: u64
  pf_block_root :: h256
  pf_receipts_root :: h256
  pf_block_number :: u64
  pf_headers :: "header list"
  pf_proof :: "bytes list"
  pf_transaction_index :: u64
  pf_receipt_rlp :: bytes

definition decode_and_check_receipt :: "'r receipt_codec \<Rightarrow> bytes \<Rightarrow> ee_error + 'r" where
  "decode_and_check_receipt X receipt_rlp =
     res_bind (ok_or (rx_decode X receipt_rlp) DecodeReceiptEnvelopeFailure) (\<lambda>receipt.
     if \<not> rx_is_success X receipt then Inl FailedEthTransaction else Inr receipt)"

text \<open>
  The answer of the light client to the query for a slot: \<open>Inl ()\<close> when the call fails, otherwise
  the result of its service.
\<close>

type_synonym checkpoint_reply = "unit + (checkpoint_error + checkpoint)"

definition request_checkpoint :: "checkpoint_reply \<Rightarrow> ee_error + h256" where
  "request_checkpoint reply =
     (case reply of
        Inl _ \<Rightarrow> Inl EeSendFailure
      | Inr (Inr (_, hash)) \<Rightarrow> Inr hash
      | Inr (Inl _) \<Rightarrow> Inl MissingCheckpoint)"

fun fold_headers :: "(header \<Rightarrow> h256) \<Rightarrow> h256 \<Rightarrow> header list \<Rightarrow> h256 option" where
  "fold_headers hr block_root_parent [] = Some block_root_parent"
| "fold_headers hr block_root_parent (header # headers) =
     (if hr header = block_root_parent
      then fold_headers hr (parent_root header) headers else None)"

definition trie_lookup :: "('d, 't, 'm) trie_api \<Rightarrow> bytes list \<Rightarrow> h256 \<Rightarrow> bytes \<Rightarrow> ee_error + bytes option option" where
  "trie_lookup A proof receipts_root key =
     (let memory_db = foldl (ta_insert_node A) (ta_new_db A) proof in
      res_bind (ok_or (ta_open A memory_db receipts_root) TrieDbFailure) (\<lambda>trie. Inr (ta_get A trie key)))"

definition proofs_check ::
  "'r receipt_codec \<Rightarrow> ('d, 't, 'm) trie_api \<Rightarrow> (header \<Rightarrow> h256) \<Rightarrow> (header list \<Rightarrow> header list) \<Rightarrow>
     (actor_id \<Rightarrow> slot \<Rightarrow> checkpoint_reply) \<Rightarrow> proofs \<Rightarrow> ee_error + checked_proofs" where
  "proofs_check X A hr sort_by_slot ask p =
     res_bind (decode_and_check_receipt X (pf_receipt_rlp p)) (\<lambda>receipt.
     res_bind (request_checkpoint (ask (pf_checkpoint_light_client_address p) (pf_slot p))) (\<lambda>checkpoint.
     case fold_headers hr checkpoint (rev (sort_by_slot (pf_headers p))) of
       None \<Rightarrow> Inl InvalidBlockProof
     | Some block_root_parent \<Rightarrow>
         if pf_block_root p \<noteq> block_root_parent then Inl InvalidBlockProof
         else
           let (key_db, value_db) = rlp_encode_index_and_receipt X (pf_transaction_index p) receipt in
           res_bind (trie_lookup A (pf_proof p) (pf_receipts_root p) key_db) (\<lambda>found.
           if found = Some (Some value_db)
           then Inr \<lparr>ck_receipt_rlp = pf_receipt_rlp p,
                     ck_transaction_index = pf_transaction_index p,
                     ck_block_number = pf_block_number p, ck_slot = pf_slot p\<rparr>
           else Inl InvalidReceiptProof)))"

section \<open>The service\<close>

text \<open>
  The message carries a light block; \<open>block_view\<close> is what the service reads of it, so that the two
  instances, for blocks before and since Electra, share the definitions.
\<close>

record 'b block_inclusion_proof =
  bi_block :: "'b block"
  bi_headers :: "header list"

record 'b eth_to_vara_event =
  em_proof_block :: "'b block_inclusion_proof"
  em_proof :: "bytes list"
  em_transaction_index :: u64
  em_receipt_rlp :: bytes

record 'b body_view =
  bv_root :: "'b \<Rightarrow> h256 exec"
  bv_payload :: "'b \<Rightarrow> light_execution_payload"

definition deneb_view :: "'h ssz_env \<Rightarrow> light_block_body body_view" where
  "deneb_view E = \<lparr>bv_root = light_block_body_root E, bv_payload = lb_execution_payload\<rparr>"

definition electra_view :: "'h ssz_env \<Rightarrow> electra_light_block_body body_view" where
  "electra_view E = \<lparr>bv_root = electra_light_block_body_root E, bv_payload = xl_execution_payload\<rparr>"

definition ee_new :: "actor_id \<Rightarrow> ee_state" where
  "ee_new address = \<lparr>ee_checkpoint_light_client_address = address\<rparr>"

definition event_proofs ::
  "'h ssz_env \<Rightarrow> 'b body_view \<Rightarrow> ee_state \<Rightarrow> 'b eth_to_vara_event \<Rightarrow> proofs exec" where
  "event_proofs E V st message =
     (let block = bi_block (em_proof_block message); payload = bv_payload V (bk_body block) in
      exec_bind (block_root E (bv_root V) block) (\<lambda>root.
      Ret \<lparr>pf_checkpoint_light_client_address = ee_checkpoint_light_client_address st,
           pf_slot = bk_slot block,
           pf_block_root = root,
           pf_receipts_root = of_be_bytes (lp_receipts_root payload),
           pf_block_number = lp_block_number payload,
           pf_headers = bi_headers (em_proof_block message),
           pf_proof = em_proof message,
           pf_transaction_index = em_transaction_index message,
           pf_receipt_rlp = em_receipt_rlp message\<rparr>))"

definition check_proofs ::
  "'r receipt_codec \<Rightarrow> ('d, 't, 'm) trie_api \<Rightarrow> 'h ssz_env \<Rightarrow> 'b body_view \<Rightarrow> (header \<Rightarrow> h256) \<Rightarrow>
     (header list \<Rightarrow> header list) \<Rightarrow> (actor_id \<Rightarrow> slot \<Rightarrow> checkpoint_reply) \<Rightarrow> ee_state \<Rightarrow>
     'b eth_to_vara_event \<Rightarrow> (ee_error + checked_proofs) exec" where
  "check_proofs X A E V hr sort_by_slot ask st message =
     exec_bind (event_proofs E V st message) (\<lambda>p.
     Ret (proofs_check X A hr sort_by_slot ask p))"

section \<open>What an accepted proof shows\<close>

lemma fold_headers_chain: "fold_headers hr root hs = Some r \<longleftrightarrow> header_chain hr root hs r"
  by (induction hs arbitrary: root) auto

lemma request_checkpoint_Inr_iff: "request_checkpoint reply = Inr root \<longleftrightarrow> (\<exists>s. reply = Inr (Inr (s, root)))"
  by (auto simp: request_checkpoint_def split: sum.splits)

lemma decode_and_check_Inr_iff:
  "decode_and_check_receipt X rlp = Inr r \<longleftrightarrow> rx_decode X rlp = Some r \<and> rx_is_success X r"
  by (auto simp: decode_and_check_receipt_def res_bind_Inr_iff ok_or_Inr_iff)

lemma proofs_check_Inr_iff:
  "proofs_check X A hr sort_by_slot ask p = Inr c \<longleftrightarrow>
     (\<exists>r s root. rx_decode X (pf_receipt_rlp p) = Some r \<and> rx_is_success X r
       \<and> ask (pf_checkpoint_light_client_address p) (pf_slot p) = Inr (Inr (s, root))
       \<and> header_chain hr root (rev (sort_by_slot (pf_headers p))) (pf_block_root p)
       \<and> trie_lookup A (pf_proof p) (pf_receipts_root p) (rx_rlp_u64 X (pf_transaction_index p))
           = Inr (Some (Some (rx_encode_2718 X r)))
       \<and> c = \<lparr>ck_receipt_rlp = pf_receipt_rlp p, ck_transaction_index = pf_transaction_index p,
              ck_block_number = pf_block_number p, ck_slot = pf_slot p\<rparr>)"
proof (rule iffI)
  assume "proofs_check X A hr sort_by_slot ask p = Inr c"
  then show "\<exists>r s root. rx_decode X (pf_receipt_rlp p) = Some r \<and> rx_is_success X r
       \<and> ask (pf_checkpoint_light_client_address p) (pf_slot p) = Inr (Inr (s, root))
       \<and> header_chain hr root (rev (sort_by_slot (pf_headers p))) (pf_block_root p)
       \<and> trie_lookup A (pf_proof p) (pf_receipts_root p) (rx_rlp_u64 X (pf_transaction_index p))
           = Inr (Some (Some (rx_encode_2718 X r)))
       \<and> c = \<lparr>ck_receipt_rlp = pf_receipt_rlp p, ck_transaction_index = pf_transaction_index p,
              ck_block_number = pf_block_number p, ck_slot = pf_slot p\<rparr>"
    by (auto simp: proofs_check_def res_bind_Inr_iff decode_and_check_Inr_iff request_checkpoint_Inr_iff
        rlp_encode_index_and_receipt_def rlp_encode_transaction_index_def
        split: option.splits if_splits simp flip: fold_headers_chain)
qed (auto simp: proofs_check_def decode_and_check_receipt_def request_checkpoint_def
    rlp_encode_index_and_receipt_def rlp_encode_transaction_index_def simp flip: fold_headers_chain)

lemma proofs_accepted:
  assumes "header_sort sort_by_slot"
    and "check_proofs X A E V hr sort_by_slot ask st message = Ret (Inr c)"
  shows "\<exists>r s root hs block_hash.
    rx_decode X (em_receipt_rlp message) = Some r \<and> rx_is_success X r
    \<and> ask (ee_checkpoint_light_client_address st) (bk_slot (bi_block (em_proof_block message)))
        = Inr (Inr (s, root))
    \<and> mset hs = mset (bi_headers (em_proof_block message))
    \<and> block_root E (bv_root V) (bi_block (em_proof_block message)) = Ret block_hash
    \<and> header_chain hr root hs block_hash
    \<and> trie_lookup A (em_proof message)
        (of_be_bytes (lp_receipts_root (bv_payload V (bk_body (bi_block (em_proof_block message))))))
        (rx_rlp_u64 X (em_transaction_index message)) = Inr (Some (Some (rx_encode_2718 X r)))
    \<and> ck_receipt_rlp c = em_receipt_rlp message
    \<and> ck_transaction_index c = em_transaction_index message
    \<and> ck_slot c = bk_slot (bi_block (em_proof_block message))"
proof -
  let ?b = "bi_block (em_proof_block message)" and ?hs = "bi_headers (em_proof_block message)"
  from assms(2) obtain root where root: "block_root E (bv_root V) ?b = Ret root"
    by (auto simp: check_proofs_def event_proofs_def Let_def exec_bind_Ret_iff)
  have "mset (rev (sort_by_slot ?hs)) = mset ?hs"
    by (simp add: header_sort.sort_perm [OF assms(1)])
  with assms(2) root show ?thesis
    by (auto simp: check_proofs_def event_proofs_def Let_def proofs_check_Inr_iff
        intro!: exI [of _ "rev (sort_by_slot ?hs)"])
qed

text \<open>Property C10. A receipt is accepted only with its whole chain of evidence: it decodes to a
  successful receipt; the light client answered with a checkpoint for the slot of the block; the
  supplied headers, in some order, lead from the root of that checkpoint down to the root of
  the block; and the trie of the block's receipts root holds the receipt at the transaction
  index. What is returned is the data of the message.\<close>

theorem check_proofs_sound:
  assumes "header_sort sort_by_slot"
    and "check_proofs X A E V hr sort_by_slot ask st message = Ret (Inr c)"
  shows "\<exists>r s root hs block_hash.
    rx_decode X (em_receipt_rlp message) = Some r \<and> rx_is_success X r
    \<and> ask (ee_checkpoint_light_client_address st) (bk_slot (bi_block (em_proof_block message)))
        = Inr (Inr (s, root))
    \<and> mset hs = mset (bi_headers (em_proof_block message))
    \<and> block_root E (bv_root V) (bi_block (em_proof_block message)) = Ret block_hash
    \<and> header_chain hr root hs block_hash
    \<and> trie_lookup A (em_proof message)
        (of_be_bytes (lp_receipts_root (bv_payload V (bk_body (bi_block (em_proof_block message))))))
        (rx_rlp_u64 X (em_transaction_index message)) = Inr (Some (Some (rx_encode_2718 X r)))
    \<and> ck_receipt_rlp c = em_receipt_rlp message
    \<and> ck_transaction_index c = em_transaction_index message
    \<and> ck_slot c = bk_slot (bi_block (em_proof_block message))"
  using assms by (rule proofs_accepted)

section \<open>Generated proofs are accepted\<close>

text \<open>
  What \<open>trie_db\<close> documents: a trie built by insertions of values that are not empty (an empty value
  would remove the key) answers with the last value inserted for a key, and the nodes recorded
  during a lookup are enough to repeat it from the root alone. It does so for a codec that decodes
  what it encodes and whose constant for the empty node is the hash of the empty node.
\<close>

definition trie_laws :: "('d, 't, 'm) trie_api \<Rightarrow> bool" where
  "trie_laws A \<longleftrightarrow>
     (\<forall>kvs m root db t k. trie_insert_all A (ta_mut_new A (ta_new_db A)) kvs = Some m \<longrightarrow>
        [] \<notin> snd ` set kvs \<longrightarrow>
        ta_mut_root A m = (root, db) \<longrightarrow> ta_open A db root = Some t \<longrightarrow>
        ta_get A t k = Some (map_of (rev kvs) k))
   \<and> (\<forall>db root t k v. ta_open A db root = Some t \<longrightarrow> ta_get A t k = Some (Some v) \<longrightarrow>
        trie_lookup A (ta_record A t k) root k = Inr (Some (Some v)))"

definition trie_db_laws :: "(bytes \<Rightarrow> h256) \<Rightarrow> (node_codec \<Rightarrow> ('d, 't, 'm) trie_api) \<Rightarrow> bool" where
  "trie_db_laws keccak T \<longleftrightarrow>
     (\<forall>C. codec_lawful C \<longrightarrow> nc_hashed_null_node C = keccak (nc_empty_node C) \<longrightarrow> trie_laws (T C))"

lemma patricia_trie_laws:
  assumes "rlp_format R" and "trie_db_laws keccak T" and "keccak [0x80] = HASHED_NULL_NODE"
  shows "trie_laws (patricia_trie T R)"
proof -
  have "nc_hashed_null_node (rlp_node_codec R) = keccak (nc_empty_node (rlp_node_codec R))"
    by (simp add: rlp_node_codec_def empty_node_def assms(3))
  with assms(2) rlp_format.rlp_codec_lawful [OF assms(1)] show ?thesis
    by (simp add: trie_db_laws_def patricia_trie_def)
qed

definition receipts_root_of :: "'r receipt_codec \<Rightarrow> ('d, 't, 'm) trie_api \<Rightarrow> (u64 \<times> 'r) list \<Rightarrow> h256 option" where
  "receipts_root_of X A receipts =
     map_option (\<lambda>m. fst (ta_mut_root A m))
       (trie_insert_all A (ta_mut_new A (ta_new_db A)) (rlp_encode_receipts_and_nibble_tuples X receipts))"

lemma map_of_receipts:
  assumes "distinct (map fst receipts)" and "inj (rx_rlp_u64 X)" and "(i, r) \<in> set receipts"
  shows "map_of (rev (rlp_encode_receipts_and_nibble_tuples X receipts)) (rx_rlp_u64 X i)
    = Some (rx_encode_2718 X r)"
proof -
  have fst_eq: "map fst (rlp_encode_receipts_and_nibble_tuples X receipts) = map (rx_rlp_u64 X) (map fst receipts)"
    by (simp add: rlp_encode_receipts_and_nibble_tuples_def rlp_encode_index_and_receipt_def
        rlp_encode_transaction_index_def case_prod_beta comp_def)
  have "distinct (map fst (rlp_encode_receipts_and_nibble_tuples X receipts))"
    unfolding fst_eq using assms(1,2) by (metis distinct_map inj_on_subset subset_UNIV)
  moreover have "(rx_rlp_u64 X i, rx_encode_2718 X r) \<in> set (rlp_encode_receipts_and_nibble_tuples X receipts)"
    using assms(3) by (force simp: rlp_encode_receipts_and_nibble_tuples_def rlp_encode_index_and_receipt_def
        rlp_encode_transaction_index_def)
  ultimately show ?thesis by (intro map_of_is_SomeI) (simp_all add: rev_map [symmetric])
qed

lemma generated_proof_verifies:
  assumes laws: "trie_laws A" and inj: "inj (rx_rlp_u64 X)" and dist: "distinct (map fst receipts)"
    and full: "\<And>i r. (i, r) \<in> set receipts \<Longrightarrow> rx_encode_2718 X r \<noteq> []"
    and gen: "generate_merkle_proof X A i receipts = Inr mp"
    and root: "receipts_root_of X A receipts = Some root"
  shows "(i, mp_receipt mp) \<in> set receipts
    \<and> trie_lookup A (mp_proof mp) root (rx_rlp_u64 X i) = Inr (Some (Some (rx_encode_2718 X (mp_receipt mp))))"
proof -
  from root obtain m where
    m: "trie_insert_all A (ta_mut_new A (ta_new_db A)) (rlp_encode_receipts_and_nibble_tuples X receipts) = Some m"
      "fst (ta_mut_root A m) = root" by (auto simp: receipts_root_of_def)
  then obtain db where t0: "ta_mut_root A m = (root, db)" by (metis prod.collapse)
  from gen obtain j r t where found: "find (\<lambda>(index, _). index = i) receipts = Some (j, r)"
    and t: "ta_open A db root = Some t"
    and mp: "mp = \<lparr>mp_proof = ta_record A t (rx_rlp_u64 X j), mp_receipt = r\<rparr>"
    by (auto simp: generate_merkle_proof_def Let_def res_bind_Inr_iff ok_or_Inr_iff m t0
        rlp_encode_index_and_receipt_def rlp_encode_transaction_index_def)
  from found have ir: "(i, r) \<in> set receipts" "j = i" by (auto simp: find_Some_iff dest: nth_mem)
  have "[] \<notin> snd ` set (rlp_encode_receipts_and_nibble_tuples X receipts)"
    using full by (force simp: rlp_encode_receipts_and_nibble_tuples_def rlp_encode_index_and_receipt_def)
  then have "ta_get A t (rx_rlp_u64 X i) = Some (Some (rx_encode_2718 X r))"
    using laws m t0 t map_of_receipts [OF dist inj ir(1)] unfolding trie_laws_def by metis
  with laws t have "trie_lookup A (ta_record A t (rx_rlp_u64 X i)) root (rx_rlp_u64 X i)
      = Inr (Some (Some (rx_encode_2718 X r)))"
    unfolding trie_laws_def by blast
  with ir mp show ?thesis by simp
qed

text \<open>Property C11. A proof made for a successful receipt of a block is accepted: with the trie of
  \<open>trie_db\<close> over the RLP node codec, the trie proof of \<open>generate_merkle_proof\<close>, with the headers
  between the checkpoint and the block in any order, passes the check, provided slots decrease
  along the headers and receipts are not encoded as empty strings.\<close>

theorem generated_proof_accepted:
  assumes "header_sort sort_by_slot" and "rlp_format R" and "trie_db_laws keccak T"
    and "keccak [0x80] = HASHED_NULL_NODE" and "inj (rx_rlp_u64 X)"
    and "distinct (map fst receipts)" and "\<forall>(i, r) \<in> set receipts. rx_encode_2718 X r \<noteq> []"
    and "generate_merkle_proof X (patricia_trie T R) i receipts = Inr mp"
    and "receipts_root_of X (patricia_trie T R) receipts = Some (pf_receipts_root p)"
    and "pf_transaction_index p = i" and "pf_proof p = mp_proof mp"
    and "rx_decode X (pf_receipt_rlp p) = Some (mp_receipt mp)" and "rx_is_success X (mp_receipt mp)"
    and "ask (pf_checkpoint_light_client_address p) (pf_slot p) = Inr (Inr (s, root))"
    and "header_chain hr root hs (pf_block_root p)" and "mset (pf_headers p) = mset hs"
    and "sorted_wrt (\<lambda>a b. slot_of b < slot_of a) hs"
  shows "proofs_check X (patricia_trie T R) hr sort_by_slot ask p = Inr \<lparr>ck_receipt_rlp = pf_receipt_rlp p,
    ck_transaction_index = i, ck_block_number = pf_block_number p, ck_slot = pf_slot p\<rparr>"
proof -
  have "rev (sort_by_slot (pf_headers p)) = hs"
    by (rule header_sort.sort_distinct_slots [OF assms(1,16,17)])
  moreover have "trie_lookup (patricia_trie T R) (mp_proof mp) (pf_receipts_root p) (rx_rlp_u64 X i)
      = Inr (Some (Some (rx_encode_2718 X (mp_receipt mp))))"
    using generated_proof_verifies [OF patricia_trie_laws [OF assms(2-4)] assms(5,6) _ assms(8,9)] assms(7)
    by auto
  ultimately show ?thesis
    using assms by (auto simp: proofs_check_Inr_iff)
qed

section \<open>A concrete world\<close>

text \<open>
  A trie of one node: its node is the whole table, encoded with a marker before each byte and
  an end mark after each string.
\<close>

fun enc_string :: "bytes \<Rightarrow> bytes" where
  "enc_string [] = [0]"
| "enc_string (b # bs) = 1 # b # enc_string bs"

fun dec_string :: "bytes \<Rightarrow> (bytes \<times> bytes) option" where
  "dec_string (t # bs) =
     (if t = 0 then Some ([], bs)
      else case bs of [] \<Rightarrow> None | b # bs' \<Rightarrow> map_option (\<lambda>(s, rest). (b # s, rest)) (dec_string bs'))"
| "dec_string [] = None"

definition enc_table :: "(bytes \<times> bytes) list \<Rightarrow> bytes" where
  "enc_table kvs = concat (map (\<lambda>(k, v). enc_string k @ enc_string v) kvs)"

fun dec_table :: "nat \<Rightarrow> bytes \<Rightarrow> (bytes \<times> bytes) list option" where
  "dec_table n [] = Some []"
| "dec_table 0 bs = None"
| "dec_table (Suc n) bs =
     (case dec_string bs of None \<Rightarrow> None | Some (k, bs1) \<Rightarrow>
      (case dec_string bs1 of None \<Rightarrow> None | Some (v, bs2) \<Rightarrow>
         map_option (\<lambda>kvs. (k, v) # kvs) (dec_table n bs2)))"

lemma dec_string_enc [simp]: "dec_string (enc_string s @ rest) = Some (s, rest)"
  by (induction s) simp_all

lemma enc_string_not_Nil [simp]: "enc_string s \<noteq> []"
  by (cases s) simp_all

lemma length_enc_string: "1 \<le> length (enc_string s)"
  by (cases s) simp_all

lemma enc_table_Cons: "enc_table ((k, v) # kvs) = enc_string k @ (enc_string v @ enc_table kvs)"
  by (simp add: enc_table_def)

lemma length_enc_table: "length kvs \<le> length (enc_table kvs)"
proof (induction kvs)
  case (Cons kv kvs)
  obtain k v where kv: "kv = (k, v)" by fastforce
  have "length (enc_table (kv # kvs)) = length (enc_string k) + (length (enc_string v) + length (enc_table kvs))"
    by (simp add: enc_table_Cons kv)
  with Cons.IH length_enc_string [of k] show ?case by simp
qed simp

lemma dec_table_enc: "length kvs \<le> n \<Longrightarrow> dec_table n (enc_table kvs) = Some kvs"
proof (induction kvs arbitrary: n)
  case (Cons kv kvs)
  obtain k v where kv: "kv = (k, v)" by fastforce
  from Cons.prems obtain m where m: "n = Suc m" "length kvs \<le> m" by (cases n) auto
  obtain b bs where b: "enc_string k @ (enc_string v @ enc_table kvs) = b # bs"
    by (metis append_is_Nil_conv enc_string_not_Nil neq_Nil_conv)
  have "dec_string (b # bs) = Some (k, enc_string v @ enc_table kvs)"
    using dec_string_enc [of k "enc_string v @ enc_table kvs"] by (simp only: b)
  then show ?case using Cons.IH [OF m(2)] by (simp add: kv enc_table_Cons b m)
qed (simp add: enc_table_def)

lemma dec_table_enc' [simp]: "dec_table (length (enc_table t)) (enc_table t) = Some t"
  by (simp add: dec_table_enc length_enc_table)

definition table_trie :: "(bytes \<Rightarrow> h256) \<Rightarrow>
    (bytes list, (bytes \<times> bytes) list, (bytes \<times> bytes) list) trie_api" where
  "table_trie keccak = \<lparr>
     ta_new_db = [], ta_insert_node = (\<lambda>db n. n # db),
     ta_open = (\<lambda>db root. case find (\<lambda>n. keccak n = root) db of
        None \<Rightarrow> None | Some n \<Rightarrow> dec_table (length n) n),
     ta_get = (\<lambda>t k. Some (map_of t k)), ta_record = (\<lambda>t k. [enc_table t]),
     ta_mut_new = (\<lambda>_. []), ta_mut_insert = (\<lambda>m k v. Some ((k, v) # m)),
     ta_mut_root = (\<lambda>m. (keccak (enc_table m), [enc_table m]))\<rparr>"

lemma table_insert_all: "trie_insert_all (table_trie keccak) m kvs = Some (rev kvs @ m)"
  by (induction kvs arbitrary: m) (auto simp: table_trie_def)

text \<open>
  With a hash that is constant, the recorded node is found under every root: the laws do not
  depend on the hash.
\<close>

lemma table_trie_laws: "trie_laws (table_trie (\<lambda>_. 1))"
proof -
  have lookup: "trie_lookup (table_trie (\<lambda>_. 1)) [enc_table t] 1 k = Inr (Some (map_of t k))" for t k
    by (simp add: trie_lookup_def table_trie_def)
  have root: "root = 1" if "ta_open (table_trie (\<lambda>_. 1)) db root = Some t" for db root t
    using that by (auto simp: table_trie_def find_Some_iff split: option.splits)
  show ?thesis
    unfolding trie_laws_def table_insert_all
  proof (intro conjI allI impI, goal_cases)
    case (1 kvs m root db t k)
    then show ?case by (auto simp: table_trie_def)
  next
    case (2 db root t k v)
    have "root = 1" by (rule root [OF 2(1)])
    moreover have "map_of t k = Some v" using 2(2) by (simp add: table_trie_def)
    moreover have "ta_record (table_trie (\<lambda>_. 1)) t k = [enc_table t]" by (simp add: table_trie_def)
    ultimately show ?case using lookup [of t k] by simp
  qed
qed

definition sample_codec :: "bytes receipt_codec" where
  "sample_codec = \<lparr>rx_decode = Some, rx_is_success = (\<lambda>r. r \<noteq> []), rx_encode_2718 = (\<lambda>r. r),
     rx_rlp_u64 = be_bytes 8\<rparr>"

lemma inj_sample_index: "inj (rx_rlp_u64 sample_codec)"
  by (simp add: sample_codec_def inj_def be_bytes_inject)

abbreviation "sample_tries \<equiv> table_trie (\<lambda>_. 1)"

definition sample_proof :: proofs where
  "sample_proof = \<lparr>pf_checkpoint_light_client_address = 77, pf_slot = 40, pf_block_root = 5,
     pf_receipts_root = 1, pf_block_number = 7,
     pf_headers = [\<lparr>slot_of = 41, proposer_index = 0, parent_root = 5, state_root = 0, body_root = 0\<rparr>,
        \<lparr>slot_of = 42, proposer_index = 0, parent_root = 41, state_root = 0, body_root = 0\<rparr>],
     pf_proof = [enc_table [(be_bytes 8 (3 :: u64), [8]), (be_bytes 8 (2 :: u64), [9])]], pf_transaction_index = 3,
     pf_receipt_rlp = [8]\<rparr>"

lemma sample_trie_db_laws: "trie_db_laws keccak (\<lambda>_. table_trie (\<lambda>_. 1))"
  by (simp add: trie_db_laws_def table_trie_laws)

theorem generated_proof_accepted_witness:
  "proofs_check sample_codec (patricia_trie (\<lambda>_. sample_tries) rlp_spec) (ucast \<circ> slot_of) (sort_key slot_of)
     (\<lambda>_ _. Inr (Inr (64, 42))) sample_proof
   = Inr \<lparr>ck_receipt_rlp = [8], ck_transaction_index = 3, ck_block_number = 7, ck_slot = 40\<rparr>"
proof -
  let ?rs = "[(2, [9]), (3, [8])]"
  have gen: "generate_merkle_proof sample_codec (patricia_trie (\<lambda>_. sample_tries) rlp_spec) 3 ?rs
      = Inr \<lparr>mp_proof = pf_proof sample_proof, mp_receipt = [8]\<rparr>"
    by (simp add: generate_merkle_proof_def rlp_encode_receipts_and_nibble_tuples_def
        rlp_encode_index_and_receipt_def rlp_encode_transaction_index_def table_insert_all
        sample_codec_def sample_proof_def patricia_trie_def Let_def)
      (simp add: table_trie_def)
  have root: "receipts_root_of sample_codec (patricia_trie (\<lambda>_. sample_tries) rlp_spec) ?rs = Some 1"
    by (simp add: receipts_root_of_def patricia_trie_def table_insert_all) (simp add: table_trie_def)
  show ?thesis
    using generated_proof_accepted [OF key_sort.header_sort_axioms rlp.rlp_format_axioms
        sample_trie_db_laws [of "\<lambda>_. HASHED_NULL_NODE"] refl inj_sample_index _ _ gen,
        of sample_proof "\<lambda>_ _. Inr (Inr (64, 42))" 64 42 "ucast \<circ> slot_of" "rev (pf_headers sample_proof)"] root
    by (simp add: sample_proof_def sample_codec_def)
qed

definition sample_light_block :: "light_block_body block" where
  "sample_light_block = sample_block
     \<lparr>lb_randao_reveal = 0, lb_eth1_data = 0, lb_graffiti = [], lb_proposer_slashings =
     0, lb_attester_slashings = 0, lb_attestations = 0, lb_deposits = 0, lb_voluntary_exits = 0,
     lb_sync_aggregate = 0, lb_execution_payload = \<lparr>lp_parent_hash = [], lp_fee_recipient
     = [], lp_state_root = [], lp_receipts_root = [1], lp_logs_bloom = 0, lp_prev_randao = [],
     lp_block_number = 7, lp_gas_limit = 0, lp_gas_used = 0, lp_timestamp = 0, lp_extra_data =
     [], lp_base_fee_per_gas = 0, lp_block_hash = [], lp_transactions = 0, lp_withdrawals = 0,
     lp_blob_gas_used = 0, lp_excess_blob_gas = 0\<rparr>, lb_bls_to_execution_changes = 0,
     lb_blob_kzg_commitments = 0\<rparr>"

definition sample_message :: "light_block_body eth_to_vara_event" where
  "sample_message = \<lparr>em_proof_block = \<lparr>bi_block = sample_light_block, bi_headers = []\<rparr>,
     em_proof = pf_proof sample_proof, em_transaction_index = 3, em_receipt_rlp = [8]\<rparr>"

lemma sample_light_block_root:
  "block_root sample_env (light_block_body_root sample_env) sample_light_block = Ret 31"
  by (simp add: sample_light_block_def sample_evals block_root_def light_block_body_root_def
      light_execution_payload_root_def Let_def of_be_bytes_def)

lemma sample_check:
  "check_proofs sample_codec sample_tries sample_env (deneb_view sample_env) (ucast \<circ> slot_of)
     (sort_key slot_of) (\<lambda>_ _. Inr (Inr (9, 31))) (ee_new 77) sample_message
   = Ret (Inr \<lparr>ck_receipt_rlp = [8], ck_transaction_index = 3, ck_block_number = 7, ck_slot = 9\<rparr>)"
proof -
  have lookup: "trie_lookup sample_tries (pf_proof sample_proof) 1 (be_bytes 8 (3 :: u64)) = Inr (Some (Some [8]))"
    by (simp add: trie_lookup_def table_trie_def sample_proof_def)
  show ?thesis
    by (simp add: check_proofs_def event_proofs_def sample_message_def deneb_view_def
        sample_light_block_root ee_new_def proofs_check_def decode_and_check_receipt_def
        request_checkpoint_def rlp_encode_index_and_receipt_def rlp_encode_transaction_index_def
        sample_codec_def)
      (simp add: lookup sample_light_block_def sample_block_def of_be_bytes_def
        rlp_encode_index_and_receipt_def rlp_encode_transaction_index_def)
qed

theorem check_proofs_sound_witness:
  "\<exists>s root hs. (9, 31) = (s, root) \<and> header_chain (ucast \<circ> slot_of) root hs 31 \<and> mset hs = {#}"
  using check_proofs_sound [OF key_sort.header_sort_axioms sample_check]
  by (simp add: sample_message_def deneb_view_def sample_light_block_root)

end
