(* ===== verification/Historical_Proxy.thy ===== *)
theory Historical_Proxy
  imports Eth_Events Rust_Slice
begin

text \<open>
  The historical proxy (\<open>gear-programs/historical-proxy\<close>): a list of event programs, each valid from
  an Ethereum slot on, and the redirection of a proof to the program of its slot and, when
  the program accepts it, of the checked receipt to a client. The handler \<open>redirect\<close> waits twice; its
  three slices are \<open>redirect_begin\<close>, \<open>redirect_after_check\<close> and \<open>redirect_after_client\<close>.
\<close>

section \<open>Endpoints\<close>

datatype proxy_error =
    NoEndpointForSlot u64
  | SendFailure string
  | ReplyFailure string
  | DecodeFailure string
  | EthereumEventClient ee_error

type_synonym endpoint_list = "(slot \<times> actor_id) list"

record proxy_state =
  px_admin :: actor_id
  px_endpoints :: endpoint_list

definition el_new :: endpoint_list where
  "el_new = []"

definition el_push :: "endpoint_list \<Rightarrow> slot \<Rightarrow> actor_id \<Rightarrow> endpoint_list exec" where
  "el_push el slot actor_id =
     (if el = [] \<or> fst (el ! (length el - 1)) < slot then Ret (el @ [(slot, actor_id)])
      else Panic ''new endpoint should have slot >= current'')"

definition el_endpoints :: "endpoint_list \<Rightarrow> (slot \<times> actor_id) list" where
  "el_endpoints el = el"

definition el_endpoint_for :: "endpoint_list \<Rightarrow> slot \<Rightarrow> proxy_error + actor_id" where
  "el_endpoint_for el slot =
     (case binary_search_by (\<lambda>e. cmp (fst e) slot) el of
        Inr i \<Rightarrow> Inr (snd (el ! i))
      | Inl nxt \<Rightarrow>
          if nxt \<noteq> 0 then
            (case nth_opt el (nxt - 1) of
               Some result \<Rightarrow> Inr (snd result)
             | None \<Rightarrow> Inl (NoEndpointForSlot slot))
          else Inl (NoEndpointForSlot slot))"

section \<open>The service\<close>

definition proxy_new :: "actor_id \<Rightarrow> proxy_state" where
  "proxy_new source = \<lparr>px_admin = source, px_endpoints = el_new\<rparr>"

definition update_admin :: "actor_id \<Rightarrow> actor_id \<Rightarrow> proxy_state \<Rightarrow> (unit \<times> proxy_state) exec" where
  "update_admin source admin_new st =
     (if source \<noteq> px_admin st then Panic ''Not an admin'' else Ret ((), st\<lparr>px_admin := admin_new\<rparr>))"

definition endpoint_for :: "proxy_state \<Rightarrow> slot \<Rightarrow> proxy_error + actor_id" where
  "endpoint_for st slot = el_endpoint_for (px_endpoints st) slot"

definition add_endpoint :: "actor_id \<Rightarrow> slot \<Rightarrow> actor_id \<Rightarrow> proxy_state \<Rightarrow> (unit \<times> proxy_state) exec" where
  "add_endpoint source slot endpoint st =
     (if source \<noteq> px_admin st then Panic ''Not an admin''
      else exec_bind (el_push (px_endpoints st) slot endpoint)
        (\<lambda>el. Ret ((), st\<lparr>px_endpoints := el\<rparr>)))"

definition proxy_endpoints :: "proxy_state \<Rightarrow> (slot \<times> actor_id) list" where
  "proxy_endpoints st = el_endpoints (px_endpoints st)"

section \<open>Redirection\<close>

text \<open>
  \<open>pc_check_route\<close> and \<open>pc_decode_reply\<close> belong to the generated client of the event programs and
  \<open>pc_encode_params\<close> is the SCALE codec. A message that cannot be sent, or a reply that does not
  arrive, is a text.
\<close>

record proxy_codec =
  pc_check_route :: bytes
  pc_decode_reply :: "bytes \<Rightarrow> (ee_error + checked_proofs) option"
  pc_encode_params :: "u64 \<times> u64 \<times> bytes \<Rightarrow> bytes"

record proxy_message =
  pm_dest :: actor_id
  pm_payload :: bytes

record proxy_event =
  pe_slot :: u64
  pe_block_number :: u64
  pe_transaction_index :: u32

definition redirect_begin ::
  "proxy_codec \<Rightarrow> proxy_state \<Rightarrow> string option \<Rightarrow> slot \<Rightarrow> bytes \<Rightarrow> proxy_error + proxy_message" where
  "redirect_begin P st send_error slot proofs =
     res_bind (el_endpoint_for (px_endpoints st) slot) (\<lambda>endpoint.
     case send_error of
       Some e \<Rightarrow> Inl (SendFailure (''failed to send message: '' @ e))
     | None \<Rightarrow> Inr \<lparr>pm_dest = endpoint, pm_payload = pc_check_route P @ proofs\<rparr>)"

definition redirect_after_check ::
  "proxy_codec \<Rightarrow> string + bytes \<Rightarrow> string option \<Rightarrow> actor_id \<Rightarrow> bytes \<Rightarrow>
     proxy_error + checked_proofs \<times> proxy_message" where
  "redirect_after_check P reply send_error client client_route =
     (case reply of
        Inl e \<Rightarrow> Inl (ReplyFailure (''failed to receive reply: '' @ e))
      | Inr payload \<Rightarrow>
          (case pc_decode_reply P payload of
             None \<Rightarrow> Inl (DecodeFailure ''failed to decode reply'')
           | Some (Inl e) \<Rightarrow> Inl (EthereumEventClient e)
           | Some (Inr checked) \<Rightarrow>
               let params = (ck_slot checked, ck_transaction_index checked, ck_receipt_rlp checked) in
               (case send_error of
                  Some e \<Rightarrow> Inl (SendFailure (''failed to send message to client: '' @ e))
                | None \<Rightarrow> Inr (checked, \<lparr>pm_dest = client,
                    pm_payload = client_route @ pc_encode_params P params\<rparr>))))"

definition redirect_after_client ::
  "checked_proofs \<Rightarrow> string + bytes \<Rightarrow> proxy_error + (bytes \<times> bytes) \<times> proxy_event" where
  "redirect_after_client checked reply =
     (case reply of
        Inl e \<Rightarrow> Inl (ReplyFailure (''failed to receive reply from client: '' @ e))
      | Inr payload \<Rightarrow> Inr ((ck_receipt_rlp checked, payload),
          \<lparr>pe_slot = ck_slot checked, pe_block_number = ck_block_number checked,
           pe_transaction_index = ucast (ck_transaction_index checked)\<rparr>))"

section \<open>The list stays ordered\<close>

definition endpoints_ordered :: "endpoint_list \<Rightarrow> bool" where
  "endpoints_ordered el \<longleftrightarrow> sorted_wrt (\<lambda>a b. fst a < fst b) el"

lemma el_push_Ret_iff:
  "el_push el slot a = Ret el' \<longleftrightarrow> (el = [] \<or> fst (last el) < slot) \<and> el' = el @ [(slot, a)]"
  by (cases "el = []") (auto simp: el_push_def last_conv_nth split: if_splits)

lemma el_push_ordered:
  assumes "endpoints_ordered el" and "el_push el slot a = Ret el'"
  shows "endpoints_ordered el'"
proof (cases el rule: rev_cases)
  case Nil
  with assms show ?thesis by (simp add: el_push_Ret_iff endpoints_ordered_def)
next
  case (snoc es e)
  with assms show ?thesis
    by (force simp: el_push_Ret_iff endpoints_ordered_def sorted_wrt_append)
qed

text \<open>The calls that change the state; a call that panics leaves it as it was.\<close>

datatype proxy_call = UpdateAdmin actor_id | AddEndpoint slot actor_id

primrec proxy_run_call :: "proxy_state \<Rightarrow> actor_id \<Rightarrow> proxy_call \<Rightarrow> proxy_state" where
  "proxy_run_call st source (UpdateAdmin a) = commit st (update_admin source a st)"
| "proxy_run_call st source (AddEndpoint s a) = commit st (add_endpoint source s a st)"

definition proxy_run :: "proxy_state \<Rightarrow> (actor_id \<times> proxy_call) list \<Rightarrow> proxy_state" where
  "proxy_run st calls = foldl (\<lambda>s (source, call). proxy_run_call s source call) st calls"

lemma add_endpoint_Ret_iff:
  "add_endpoint source slot a st = Ret (u, st') \<longleftrightarrow>
     source = px_admin st \<and> (\<exists>el. el_push (px_endpoints st) slot a = Ret el \<and> st' = st\<lparr>px_endpoints := el\<rparr>)"
  by (auto simp: add_endpoint_def exec_bind_Ret_iff)

lemma proxy_call_ordered:
  assumes "endpoints_ordered (px_endpoints st)"
  shows "endpoints_ordered (px_endpoints (proxy_run_call st source call))"
proof (cases call)
  case (UpdateAdmin a)
  with assms show ?thesis by (simp add: update_admin_def)
next
  case (AddEndpoint s a)
  show ?thesis
  proof (cases "add_endpoint source s a st")
    case (Ret r)
    obtain st' where r: "r = ((), st')" by (cases r) simp
    then obtain el where "el_push (px_endpoints st) s a = Ret el" "st' = st\<lparr>px_endpoints := el\<rparr>"
      using Ret by (auto simp: add_endpoint_Ret_iff)
    with assms Ret r AddEndpoint show ?thesis by (simp add: el_push_ordered)
  qed (use assms AddEndpoint in simp)
qed

lemma proxy_run_ordered:
  "endpoints_ordered (px_endpoints st) \<Longrightarrow> endpoints_ordered (px_endpoints (proxy_run st calls))"
  by (induction calls arbitrary: st) (auto simp: proxy_run_def proxy_call_ordered split: prod.splits)

lemma el_endpoint_for_spec:
  assumes "endpoints_ordered el"
  shows "el_endpoint_for el slot = (case find (\<lambda>e. fst e \<le> slot) (rev el) of
     None \<Rightarrow> Inl (NoEndpointForSlot slot) | Some e \<Rightarrow> Inr (snd e))"
proof (cases "binary_search_by (\<lambda>e. cmp (fst e) slot) el")
  case (Inr i)
  with rust.search_find_le(1) [OF assms [unfolded endpoints_ordered_def] Inr] show ?thesis
    by (simp add: el_endpoint_for_def)
next
  case (Inl i)
  note found = rust.search_find_le(2) [OF assms [unfolded endpoints_ordered_def] Inl]
  have "probe_sorted (\<lambda>e. cmp (fst e) slot) el"
    using assms unfolding endpoints_ordered_def by (rule rust.probe_by_key(1))
  then have "i \<le> length el" using rust.search_Err Inl by blast
  with Inl found show ?thesis by (cases "i = 0") (auto simp: el_endpoint_for_def nth_opt_def)
qed

text \<open>Property C13. After every sequence of calls, by whomever, the endpoints are in strictly
  ascending order of their slots, and the endpoint for a slot is the one that became active last at
  or before it; an error is returned exactly when none was active yet.\<close>

theorem endpoint_is_last_active:
  "endpoints_ordered (proxy_endpoints (proxy_run (proxy_new admin) calls))
   \<and> endpoint_for (proxy_run (proxy_new admin) calls) slot
      = (case find (\<lambda>e. fst e \<le> slot) (rev (proxy_endpoints (proxy_run (proxy_new admin) calls))) of
           None \<Rightarrow> Inl (NoEndpointForSlot slot) | Some e \<Rightarrow> Inr (snd e))"
proof -
  have "endpoints_ordered (px_endpoints (proxy_run (proxy_new admin) calls))"
    by (rule proxy_run_ordered) (simp add: proxy_new_def el_new_def endpoints_ordered_def)
  then show ?thesis
    by (simp add: endpoint_for_def proxy_endpoints_def el_endpoints_def el_endpoint_for_spec)
qed

text \<open>Adding an endpoint needs the admin and a slot above all others; it serves the
  slots from its own on, and the endpoint of every earlier slot stays what it was.\<close>

theorem new_endpoint_keeps_history:
  assumes "endpoints_ordered (px_endpoints st)" and "add_endpoint source slot a st = Ret ((), st')"
  shows "source = px_admin st
    \<and> endpoint_for st' s = (if slot \<le> s then Inr a else endpoint_for st s)"
proof -
  from assms(2) obtain el where el: "source = px_admin st" "el_push (px_endpoints st) slot a = Ret el"
      "st' = st\<lparr>px_endpoints := el\<rparr>" by (auto simp: add_endpoint_Ret_iff)
  then have "el = px_endpoints st @ [(slot, a)]" by (simp add: el_push_Ret_iff)
  with el assms(1) el_push_ordered [OF assms(1) el(2)] show ?thesis
    by (simp add: endpoint_for_def el_endpoint_for_spec)
qed

theorem new_endpoint_keeps_history_witness:
  "endpoint_for \<lparr>px_admin = 1, px_endpoints = [(10, 5), (20, 6)]\<rparr> 15
     = endpoint_for \<lparr>px_admin = 1, px_endpoints = [(10, 5)]\<rparr> 15"
  using new_endpoint_keeps_history [of "\<lparr>px_admin = 1, px_endpoints = [(10, 5)]\<rparr>" 1 20 6
      "\<lparr>px_admin = 1, px_endpoints = [(10, 5), (20, 6)]\<rparr>" 15]
  by (simp add: endpoints_ordered_def add_endpoint_def el_push_def)

end
