(* ===== verification/Bridge_Flow.thy ===== *)
theory Bridge_Flow
  imports Historical_Proxy Light_Client_Proofs Submit_Receipt
begin

text \<open>
  The path of a receipt from Ethereum to Gear across four programs: the historical proxy asks an
  event program, which asks the light client for a checkpoint, and hands the checked receipt to the
  VFT manager, which pays. The checkpoints that the light client stores lie on the chain that
  the sync committee finalizes; so a payment rests on a receipt of a block linked to that chain.
\<close>

section \<open>Stored checkpoints lie on the chain\<close>

definition stored_on_chain :: "hashes \<Rightarrow> header set \<Rightarrow> checkpoint list \<Rightarrow> bool" where
  "stored_on_chain H C cs \<longleftrightarrow> (\<forall>c \<in> set cs. \<exists>h \<in> C. c = (slot_of h, header_root H h))"

lemma ancestor_in_chain:
  assumes "ancestor hr h0 h" and "beacon_chain hr C" and "h0 \<in> C"
  shows "h \<in> C"
  using assms(1)
proof induction
  case ancestor_refl
  then show ?case by (rule assms(3))
next
  case (ancestor_step h h')
  then show ?case using beacon_chainD [OF assms(2)] by blast
qed

lemma replay_checkpoints_on_chain:
  assumes "beacon_chain (header_root H) C" and "replay_inv H C rb" and "rbs_finalized_header rb \<in> C"
  shows "stored_on_chain H C (rbs_checkpoints rb)"
  using assms ancestor_in_chain by (fastforce simp: replay_inv_def stored_on_chain_def)

text \<open>The replay under way, if any, runs towards a header of the chain.\<close>

definition on_chain_inv :: "'b ring \<Rightarrow> hashes \<Rightarrow> header set \<Rightarrow> ('g1, 'b) light_state \<Rightarrow> bool" where
  "on_chain_inv R H C st \<longleftrightarrow> stored_on_chain H C (cp_checkpoints R (ls_checkpoints st))
     \<and> (\<forall>rb. ls_replay_back st = Some rb \<longrightarrow> rbs_finalized_header rb \<in> C)"

context circular_buffer
begin

lemma push_on_chain:
  assumes "invar b" and "stored_on_chain H C (cp_checkpoints R b)" and "h \<in> C"
  shows "stored_on_chain H C (cp_checkpoints R (cp_push R b (slot_of h) (header_root H h)))"
  using assms list.set_sel(2) [of "rb_to_vec R b"]
  by (fastforce simp: stored_on_chain_def cp_checkpoints_def cp_push_def to_vec_push_back split: if_splits)

lemma move_on_chain:
  assumes "invar b" and "stored_on_chain H C (cp_checkpoints R b)" and "stored_on_chain H C cs"
  shows "stored_on_chain H C (cp_checkpoints R (move_checkpoints R cs b))"
  using assms
proof (induction cs arbitrary: b rule: rev_induct)
  case Nil
  then show ?case by (simp add: move_checkpoints_def)
next
  case (snoc c cs)
  from snoc.prems(3) obtain h where h: "h \<in> C" "c = (slot_of h, header_root H h)"
    by (auto simp: stored_on_chain_def)
  have cs: "stored_on_chain H C cs" using snoc.prems(3) by (simp add: stored_on_chain_def)
  have "stored_on_chain H C (cp_checkpoints R
      (move_checkpoints R cs (cp_push R b (slot_of h) (header_root H h))))"
    by (rule snoc.IH [OF invar_push [OF snoc.prems(1)] push_on_chain [OF snoc.prems(1,2) h(1)] cs])
  with h show ?case by (simp add: move_checkpoints_def)
qed

lemma process_headers_on_chain:
  assumes chain: "beacon_chain (header_root H) C" and inv: "light_inv R H invar st"
    and rb: "ls_replay_back st = Some rb" "replay_inv H C rb" "rbs_finalized_header rb \<in> C"
    and stored: "stored_on_chain H C (cp_checkpoints R (ls_checkpoints st))"
    and run: "process_headers R H sort_by_slot st headers = Ret (fin, st')"
  shows "stored_on_chain H C (cp_checkpoints R (ls_checkpoints st'))
    \<and> (\<forall>rb'. ls_replay_back st' = Some rb' \<longrightarrow> rbs_finalized_header rb' \<in> C)"
proof -
  let ?last = "(slot_of (ls_finalized_header st), header_root H (ls_finalized_header st))"
  from inv have cp: "cp_last R (ls_checkpoints st) = Some ?last" "invar (ls_checkpoints st)"
    by (simp_all add: light_inv_def)
  obtain rb' where rb': "check_headers H ?last rb (rev (sort_by_slot headers)) = Ret rb'"
    "replay_inv H C rb'" "rbs_finalized_header rb' = rbs_finalized_header rb"
    using check_headers_inv [OF chain rb(2)] by blast
  have moved: "stored_on_chain H C
      (cp_checkpoints R (move_checkpoints R (rbs_checkpoints rb') (ls_checkpoints st)))"
    by (rule move_on_chain [OF cp(2) stored replay_checkpoints_on_chain [OF chain rb'(2)]])
      (use rb rb' in simp)
  note run' = run [unfolded process_headers_def, simplified rb(1) cp(1) rb'(1) option.case exec_bind.simps]
  show ?thesis
    using run' moved stored rb rb'(3) by (auto simp: Let_def split: if_splits option.splits)
qed

lemma sync_finish_on_chain:
  assumes "light_inv R H invar st" and "on_chain_inv R H C st" and "\<And>h. fst res = Some h \<Longrightarrow> h \<in> C"
  shows "on_chain_inv R H C (sync_process_finish R H res st)"
proof (cases "fst res")
  case None
  with assms(2) show ?thesis
    by (auto simp: on_chain_inv_def sync_process_finish_def Let_def split: option.splits)
next
  case (Some h)
  have "stored_on_chain H C (cp_checkpoints R (cp_push R (ls_checkpoints st) (slot_of h) (header_root H h)))"
    using assms(1,2) assms(3) [OF Some] by (intro push_on_chain) (auto simp: light_inv_def on_chain_inv_def)
  with assms(2) Some show ?thesis
    by (auto simp: on_chain_inv_def sync_process_finish_def Let_def split: option.splits)
qed

lemma reachable_on_chain:
  assumes "lc_reachable R H B decode sort_by_slot C st" and chain: "beacon_chain (header_root H) C"
  shows "on_chain_inv R H C st"
  using assms(1)
proof induction
  case (lc_start ini st)
  from lc_start(1) show ?case
  proof (cases rule: lc_init_cases)
    case (1 fh keys agg)
    then have "fh = su_finalized_header (in_update ini)" using verify_finalizes(1) by blast
    moreover have "stored_on_chain H C (cp_checkpoints R (cp_push R (cp_new R) (slot_of fh) (header_root H fh)))"
      if "fh \<in> C"
      by (rule push_on_chain [OF _ _ that])
        (simp_all add: cp_new_def invar_boxed cp_checkpoints_def to_vec_boxed stored_on_chain_def)
    ultimately show ?thesis using 1 lc_start(2) by (simp add: on_chain_inv_def)
  qed
next
  case (lc_sync st upd agg r st')
  from lc_sync(3) show ?case
  proof (cases rule: sync_process_cases)
    case refused
    with lc_sync show ?thesis by simp
  next
    case (accepted agg' res)
    have "light_inv R H invar st" using reachable_inv [OF lc_sync(1) chain] by (simp add: lc_inv_def)
    moreover have "h \<in> C" if "fst res = Some h" for h
      using verify_snapshot_newer(1) [OF accepted(4) that] lc_sync(2) by simp
    ultimately show ?thesis using accepted lc_sync by (simp add: sync_finish_on_chain)
  qed
next
  case (lc_replay_start st upd agg headers r2 st')
  from lc_replay_start(3) show ?case
  proof (cases rule: replay_start_cases)
    case refused
    with lc_replay_start show ?thesis by simp
  next
    case (accepted agg' fh cu fin)
    have fh: "fh \<in> C" using verify_snapshot_newer(1) [OF accepted(3)] lc_replay_start(2) by simp
    have inv: "light_inv R H invar st" using reachable_inv [OF lc_replay_start(1) chain] by (simp add: lc_inv_def)
    show ?thesis
      using process_headers_on_chain [OF chain _ _ replay_inv_start [OF fh] _ _ accepted(4)]
        inv lc_replay_start.IH fh
      by (simp add: on_chain_inv_def light_inv_def)
  qed
next
  case (lc_replay_process st headers r2 st')
  have inv: "lc_inv R H invar C st" using reachable_inv [OF lc_replay_process(1) chain] .
  show ?case
  proof (cases "ls_replay_back st")
    case None
    with lc_replay_process show ?thesis by (auto simp: replay_process_def)
  next
    case (Some rb)
    then obtain fin where "process_headers R H sort_by_slot st headers = Ret (fin, st')"
      using lc_replay_process(2) by (auto simp: replay_process_def exec_bind_Ret_iff)
    with process_headers_on_chain [OF chain _ Some] inv Some lc_replay_process.IH show ?thesis
      by (auto simp: on_chain_inv_def lc_inv_def)
  qed
qed

end

section \<open>From a receipt to a payment\<close>

lemma first_at_or_after_Inr:
  assumes "first_at_or_after slot cs = Inr (s, r)"
  shows "(s, r) \<in> set cs \<and> slot \<le> s"
proof -
  have "find P xs = Some x \<Longrightarrow> x \<in> set xs \<and> P x" for P xs and x :: checkpoint
    by (induction xs) (auto split: if_splits)
  with assms show ?thesis by (fastforce simp: first_at_or_after_def ok_or_Inr_iff)
qed

lemma redirect_after_check_Inr:
  assumes "redirect_after_check P (Inr reply) send_error client route = Inr (checked, out)"
  shows "pc_decode_reply P reply = Some (Inr checked) \<and> pm_dest out = client
    \<and> pm_payload out = route @ pc_encode_params P
        (ck_slot checked, ck_transaction_index checked, ck_receipt_rlp checked)"
  using assms by (auto simp: redirect_after_check_def Let_def split: option.splits sum.splits)

text \<open>
  What the generated dispatcher of the VFT manager does with a message for \<open>submit_receipt\<close>: it
  expects the fixed route of the method and decodes the parameters that follow it, reading from the
  front; bytes that remain are ignored. It is a parameter of the theorems, with this law.
\<close>

definition decodes_submit ::
  "bytes \<Rightarrow> (u64 \<times> u64 \<times> bytes \<Rightarrow> bytes) \<Rightarrow> (bytes \<Rightarrow> (u64 \<times> u64 \<times> bytes) option) \<Rightarrow> bool" where
  "decodes_submit route encode request \<longleftrightarrow>
     (\<forall>params rest. request (route @ encode params @ rest) = Some params)"

lemma decodes_submit_exact: "decodes_submit route encode request \<Longrightarrow> request (route @ encode params) = Some params"
  unfolding decodes_submit_def by (metis append_Nil2)

text \<open>Property C3. A payment for a redirected receipt rests on a finalized block. When the event
  program that the proxy asked uses a light client in a reachable state, the proxy was called with
  the manager's own route of \<open>submit_receipt\<close> as the client route, and the VFT manager pays on the
  parameters that it decodes from the message of the proxy, then the receipt is in the receipt trie of a
  block, at the paid transaction index; headers link a header of the finalized chain, at
  or after the block's slot, to that block; and the payment is what an event of the ERC20
  manager in that receipt says, recorded under the block's slot and the index.\<close>

theorem payment_rests_on_finalized_block:
  assumes "circular_buffer R N invar" and "beacon_chain (header_root H) C" and "header_sort sort_by_slot"
    and "lc_reachable R H B decode sort_by_slot C lc"
    and "check_proofs X A SE V (header_root H) sort_by_slot (\<lambda>_ s. Inr (checkpoint_for_get R lc s)) st message
      = Ret answer"
    and "pc_decode_reply P reply = Some answer"
    and "redirect_after_check P (Inr reply) None client route = Inr (checked, out)"
    and "decodes_submit route (pc_encode_params P) request" and "request (pm_payload out) = Some (slot, ix, rlp)"
    and "rx_decode X = decode_receipt E"
    and "begun_message (submit_receipt_begin E program_id proxy send p slot ix rlp)
      = Some ((key, supply), payment)"
  shows "\<exists>h hs block_hash receipt log event. h \<in> C
    \<and> bk_slot (bi_block (em_proof_block message)) \<le> slot_of h
    \<and> header_chain (header_root H) (header_root H h) hs block_hash
    \<and> block_root SE (bv_root V) (bi_block (em_proof_block message)) = Ret block_hash
    \<and> trie_lookup A (em_proof message)
        (of_be_bytes (lp_receipts_root (bv_payload V (bk_body (bi_block (em_proof_block message))))))
        (rx_rlp_u64 X ix) = Inr (Some (Some (rx_encode_2718 X receipt)))
    \<and> rx_is_success X receipt \<and> log \<in> set (rc_logs receipt)
    \<and> log_address log = st_erc20_manager_address (vp_state p) \<and> decode_log_data E log = Some event
    \<and> key = (bk_slot (bi_block (em_proof_block message)), ix) \<and> key \<notin> vp_transactions p
    \<and> out_call payment = (case supply of
         SupplyEthereum \<Rightarrow> CallMint (ev_to event) (ev_amount event)
       | SupplyGear \<Rightarrow> CallTransferFrom program_id (ev_to event) (ev_amount event))"
proof -
  let ?b = "bi_block (em_proof_block message)"
  from redirect_after_check_Inr [OF assms(7)] assms(6,9) decodes_submit_exact [OF assms(8)]
  have answer: "answer = Inr checked"
    and params: "slot = ck_slot checked" "ix = ck_transaction_index checked" "rlp = ck_receipt_rlp checked"
    by auto
  from proofs_accepted [OF assms(3) assms(5) [unfolded answer]]
  obtain r s root hs block_hash where sound:
    "rx_decode X (em_receipt_rlp message) = Some r" "rx_is_success X r"
    "checkpoint_for_get R lc (bk_slot ?b) = Inr (s, root)"
    "block_root SE (bv_root V) ?b = Ret block_hash" "header_chain (header_root H) root hs block_hash"
    "trie_lookup A (em_proof message) (of_be_bytes (lp_receipts_root (bv_payload V (bk_body ?b))))
      (rx_rlp_u64 X (em_transaction_index message)) = Inr (Some (Some (rx_encode_2718 X r)))"
    "rlp = em_receipt_rlp message" "ix = em_transaction_index message" "slot = bk_slot ?b"
    unfolding params by auto
  have inv: "light_inv R H invar lc"
    using circular_buffer.reachable_inv [OF assms(1,4,2)] by (simp add: lc_inv_def)
  have "checkpoint_for_get R lc (bk_slot ?b)
      = first_at_or_after (bk_slot ?b) (cp_checkpoints R (ls_checkpoints lc))"
    using circular_buffer.checkpoint_spec [OF assms(1), of "ls_checkpoints lc"] inv
    by (simp add: light_inv_def checkpoint_for_get_def cp_checkpoints_def)
  with sound(3) have "(s, root) \<in> set (cp_checkpoints R (ls_checkpoints lc)) \<and> bk_slot ?b \<le> s"
    by (metis first_at_or_after_Inr)
  moreover have "stored_on_chain H C (cp_checkpoints R (ls_checkpoints lc))"
    using circular_buffer.reachable_on_chain [OF assms(1,4,2)] by (simp add: on_chain_inv_def)
  ultimately obtain h where h: "h \<in> C" "bk_slot ?b \<le> slot_of h" "root = header_root H h"
    by (auto simp: stored_on_chain_def)
  from submit_receipt_begin_payment [OF assms(11)] sound(1,7) assms(10)
  obtain log event where "log \<in> set (rc_logs r)" "log_address log = st_erc20_manager_address (vp_state p)"
    "decode_log_data E log = Some event" "key = (slot, ix)" "key \<notin> vp_transactions p"
    "out_call payment = (case supply of SupplyEthereum \<Rightarrow> CallMint (ev_to event) (ev_amount event)
       | SupplyGear \<Rightarrow> CallTransferFrom program_id (ev_to event) (ev_amount event))" by auto
  with h sound show ?thesis
    by - (rule exI [of _ h], rule exI [of _ hs], rule exI [of _ block_hash], rule exI [of _ r],
      rule exI [of _ log], rule exI [of _ event], simp)
qed

text \<open>A concrete run: the light client of the sample chain, a block whose root is its checkpoint.\<close>

definition flow_codec :: "receipt_envelope receipt_codec" where
  "flow_codec = \<lparr>rx_decode = decode_receipt sr_sample_env, rx_is_success = rc_is_success,
     rx_encode_2718 = (\<lambda>r. concat (map log_data (rc_logs r))), rx_rlp_u64 = be_bytes 8\<rparr>"

definition flow_block :: "light_block_body block" where
  "flow_block = sample_light_block\<lparr>bk_state_root := 8167\<rparr>"

definition flow_message :: "light_block_body eth_to_vara_event" where
  "flow_message = \<lparr>em_proof_block = \<lparr>bi_block = flow_block, bi_headers = []\<rparr>,
     em_proof = [enc_table [(be_bytes 8 (3 :: u64), [8])]], em_transaction_index = 3, em_receipt_rlp = [8]\<rparr>"

definition flow_checked :: checked_proofs where
  "flow_checked = \<lparr>ck_receipt_rlp = [8], ck_transaction_index = 3, ck_block_number = 7, ck_slot = 9\<rparr>"

text \<open>The parameters as two numbers and a list of marked bytes, after the route \<open>[1]\<close>.\<close>

fun flow_encode_bytes :: "bytes \<Rightarrow> bytes" where
  "flow_encode_bytes [] = [0]"
| "flow_encode_bytes (b # bs) = 1 # b # flow_encode_bytes bs"

fun flow_decode_bytes :: "bytes \<Rightarrow> bytes option" where
  "flow_decode_bytes (t # b # bs) =
     (if t = 0 then Some [] else map_option (\<lambda>r. b # r) (flow_decode_bytes bs))"
| "flow_decode_bytes [t] = (if t = 0 then Some [] else None)"
| "flow_decode_bytes [] = None"

definition flow_proxy_codec :: proxy_codec where
  "flow_proxy_codec = \<lparr>pc_check_route = [], pc_decode_reply = (\<lambda>_. Some (Inr flow_checked)),
     pc_encode_params = (\<lambda>(s, i, r). be_bytes 8 s @ be_bytes 8 i @ flow_encode_bytes r)\<rparr>"

definition flow_request :: "bytes \<Rightarrow> (u64 \<times> u64 \<times> bytes) option" where
  "flow_request bs =
     (if take 1 bs = [1]
      then map_option (\<lambda>r. (of_be_bytes (take 8 (drop 1 bs)), of_be_bytes (take 8 (drop 9 bs)), r))
        (flow_decode_bytes (drop 17 bs))
      else None)"

lemma flow_decode_encode [simp]: "flow_decode_bytes (flow_encode_bytes r @ rest) = Some r"
proof (induction r)
  case Nil
  then show ?case by (cases rest) simp_all
qed simp

lemma flow_decodes: "decodes_submit [1] (pc_encode_params flow_proxy_codec) flow_request"
  by (auto simp: decodes_submit_def flow_proxy_codec_def flow_request_def of_be_bytes_be_bytes)

lemma flow_block_facts:
  "block_root sample_env (light_block_body_root sample_env) flow_block = Ret 8192"
  "bk_slot flow_block = 9"
  "lp_block_number (lb_execution_payload (bk_body flow_block)) = 7"
  "lp_receipts_root (lb_execution_payload (bk_body flow_block)) = [1]"
  by (simp_all add: flow_block_def sample_light_block_def sample_evals block_root_def
      light_block_body_root_def light_execution_payload_root_def Let_def of_be_bytes_def)

lemma flow_checkpoint: "checkpoint_for_get (array_ring 3) sample_state 9 = Inr (8192, 8192)"
  by code_simp

lemma flow_check:
  "check_proofs flow_codec sample_tries sample_env (deneb_view sample_env) (header_root sample_hashes)
     (sort_key slot_of) (\<lambda>_ s. Inr (checkpoint_for_get (array_ring 3) sample_state s)) (ee_new 77) flow_message
   = Ret (Inr flow_checked)"
proof -
  have "trie_lookup sample_tries [enc_table [(be_bytes 8 (3 :: u64), [8])]] 1 (be_bytes 8 (3 :: u64))
      = Inr (Some (Some [8]))"
    by (simp add: trie_lookup_def table_trie_def)
  then show ?thesis
    by (simp add: check_proofs_def event_proofs_def flow_message_def deneb_view_def flow_block_facts
        ee_new_def proofs_check_Inr_iff flow_codec_def flow_checked_def sr_sample_env_def
        flow_checkpoint of_be_bytes_def)
qed

lemma flow_payment:
  "submit_receipt_begin sr_sample_env 99 400 SendOk sr_sample_program 9 3 [8]
     = Begun (((9, 3), SupplyGear), sr_sample_out)"
  by (simp add: sr_sample_simps) (simp add: sample_config_def)

theorem payment_rests_on_finalized_block_witness:
  "\<exists>h hs receipt log event. h \<in> set sample_chain \<and> 9 \<le> slot_of h
     \<and> header_chain (header_root sample_hashes) (header_root sample_hashes h) hs 8192
     \<and> rc_is_success (receipt :: receipt_envelope) \<and> log \<in> set (rc_logs receipt) \<and> log_address log = 200
     \<and> decode_log_data sr_sample_env log = Some event
     \<and> out_call sr_sample_out = CallTransferFrom 99 (ev_to event) (ev_amount event)"
proof -
  have cb: "circular_buffer (array_ring 3) 3 (ar_invar 3)" by (rule circular_buffer_array_ring) simp
  let ?out = "\<lparr>pm_dest = 400, pm_payload = [1] @ pc_encode_params flow_proxy_codec (9, 3, [8])\<rparr>"
  have redirect: "redirect_after_check flow_proxy_codec (Inr []) None 400 [1] = Inr (flow_checked, ?out)"
    by (simp add: redirect_after_check_def flow_proxy_codec_def flow_checked_def)
  have req: "flow_request (pm_payload ?out) = Some (9, 3, [8])"
    using decodes_submit_exact [OF flow_decodes] by simp
  have dec: "pc_decode_reply flow_proxy_codec [] = Some (Inr flow_checked)" by (simp add: flow_proxy_codec_def)
  have rx: "rx_decode flow_codec = decode_receipt sr_sample_env" by (simp add: flow_codec_def)
  have pay: "begun_message (submit_receipt_begin sr_sample_env 99 400 SendOk sr_sample_program 9 3 [8])
      = Some (((9, 3), SupplyGear), sr_sample_out)" by (simp add: flow_payment)
  have addr: "st_erc20_manager_address (vp_state sr_sample_program) = 200"
    by (simp add: sr_sample_program_def sample_program_def vft_seed_def)
  from payment_rests_on_finalized_block [OF cb sample_chain_ok key_sort.header_sort_axioms sample_reachable
      flow_check dec redirect flow_decodes req rx pay]
  show ?thesis
    unfolding addr
    by (auto simp: flow_message_def deneb_view_def flow_block_facts flow_codec_def)
qed

text \<open>
  The client route is chosen by the caller of the proxy, and nothing ties it to the manager's route.
  A caller with any proof that the event program accepts may append parameters of his own to the
  manager's route: the manager decodes those, takes them as checked by the proxy, and pays what the
  forged receipt says.
\<close>

lemma forged_route_request:
  assumes "decodes_submit route (pc_encode_params P) request"
    and "pc_decode_reply P reply = Some (Inr checked)"
  shows "\<exists>out. redirect_after_check P (Inr reply) None client (route @ pc_encode_params P forged)
      = Inr (checked, out) \<and> pm_dest out = client \<and> request (pm_payload out) = Some forged"
  using assms by (cases forged) (auto simp: redirect_after_check_def Let_def decodes_submit_def)

theorem forged_route_pays:
  assumes "decodes_submit route (pc_encode_params P) request"
    and "pc_decode_reply P reply = Some (Inr checked)"
    and "decode_receipt E rlp = Some receipt" and "rc_is_success receipt"
    and "sr_find_event E p (rc_logs receipt) = Some (token, event)"
    and "get_supply_type (st_token_map (vp_state p)) token = Inr SupplyEthereum"
    and "tx_check TX_HISTORY_DEPTH (vp_transactions p) (slot, ix) = Inr ()"
    and "\<not> st_is_paused (vp_state p)" and "config_live (vp_config p)"
  shows "\<exists>out payment.
     redirect_after_check P (Inr reply) None client (route @ pc_encode_params P (slot, ix, rlp))
       = Inr (checked, out)
     \<and> request (pm_payload out) = Some (slot, ix, rlp)
     \<and> submit_receipt_begin E program_id (st_historical_proxy_address (vp_state p)) SendOk p slot ix rlp
       = Begun (((slot, ix), SupplyEthereum), payment)
     \<and> out_dest payment = token \<and> out_call payment = CallMint (ev_to event) (ev_amount event)"
proof -
  obtain out where "redirect_after_check P (Inr reply) None client (route @ pc_encode_params P (slot, ix, rlp))
      = Inr (checked, out)" "request (pm_payload out) = Some (slot, ix, rlp)"
    using forged_route_request [OF assms(1,2)] by blast
  moreover have "submit_receipt_begin E program_id (st_historical_proxy_address (vp_state p)) SendOk p slot ix rlp
      = Begun (((slot, ix), SupplyEthereum), sr_mint (vp_config p) token (ev_to event) (ev_amount event))"
    using assms by (simp add: submit_begin_simps ensure_running_def)
  ultimately show ?thesis by (auto simp: sr_mint_def sr_send_def)
qed

end
