(* ===== verification/Accumulator.thy ===== *)
theory Accumulator
  imports Rust_Slice "HOL-Library.Product_Lexorder"
begin

text \<open>
  The accumulator of the Gear-to-Ethereum relayer (\<open>relayer/src/message_relayer/common/ethereum/accumulator\<close>):
  messages wait until a merkle root that covers them is relayed. Messages are kept in ascending
  order of authority set and block, roots in descending order; both are searched by bisection.
\<close>

section \<open>Data\<close>

type_synonym authority_set_id = u64
type_synonym gear_block_number = u32

record gear_message =
  gm_nonce_le :: bytes
  gm_source :: h256
  gm_destination :: h160
  gm_payload :: bytes

record message_in_block =
  mi_message :: gear_message
  mi_block :: gear_block_number
  mi_block_hash :: h256
  mi_authority_set_id :: authority_set_id

record relayed_merkle_root =
  rm_block :: gear_block_number
  rm_block_hash :: h256
  rm_authority_set_id :: authority_set_id
  rm_merkle_root :: h256

definition messages_compare ::
  "authority_set_id \<Rightarrow> gear_block_number \<Rightarrow> authority_set_id \<Rightarrow> gear_block_number \<Rightarrow> ordering" where
  "messages_compare set_id block set_id_new block_new =
     (if set_id = set_id_new then cmp block block_new else cmp set_id set_id_new)"

definition roots_compare ::
  "authority_set_id \<Rightarrow> gear_block_number \<Rightarrow> authority_set_id \<Rightarrow> gear_block_number \<Rightarrow> ordering" where
  "roots_compare set_id block set_id_new block_new =
     (if set_id_new = set_id then cmp block_new block else cmp set_id_new set_id)"

text \<open>A vector with the capacity it was created with.\<close>

record 'a vec =
  vec_capacity :: nat
  vec_items :: "'a list"

definition vec_new :: "nat \<Rightarrow> 'a vec" where
  "vec_new capacity = \<lparr>vec_capacity = capacity, vec_items = []\<rparr>"

definition vec_insert :: "nat \<Rightarrow> 'a \<Rightarrow> 'a list \<Rightarrow> 'a list exec" where
  "vec_insert i x xs =
     (if i \<le> length xs then Ret (take i xs @ x # drop i xs)
      else Panic ''insertion index should be <= len'')"

definition vec_drain :: "nat \<Rightarrow> nat \<Rightarrow> 'a list \<Rightarrow> ('a list \<times> 'a list) exec" where
  "vec_drain i j xs =
     (if i \<le> j \<and> j \<le> length xs then Ret (drop i (take j xs), take i xs @ drop j xs)
      else Panic ''range out of bounds'')"

section \<open>Messages\<close>

definition messages_add ::
  "message_in_block vec \<Rightarrow> message_in_block \<Rightarrow> (unit option \<times> message_in_block vec) exec" where
  "messages_add v message_new =
     (if vec_capacity v \<le> length (vec_items v) then Ret (None, v)
      else
        let i = (case binary_search_by (\<lambda>message. messages_compare (mi_authority_set_id message)
               (mi_block message) (mi_authority_set_id message_new) (mi_block message_new)) (vec_items v) of
             Inr i \<Rightarrow> i | Inl i \<Rightarrow> i)
        in exec_bind (vec_insert i message_new (vec_items v)) (\<lambda>items.
             Ret (Some (), v\<lparr>vec_items := items\<rparr>)))"

definition messages_drain ::
  "message_in_block vec \<Rightarrow> relayed_merkle_root \<Rightarrow> (message_in_block list \<times> message_in_block vec) exec" where
  "messages_drain v merkle_root =
     (let index_end = (case binary_search_by (\<lambda>message. messages_compare (mi_authority_set_id message)
            (mi_block message) (rm_authority_set_id merkle_root) (rm_block merkle_root)) (vec_items v) of
          Inr i \<Rightarrow> i + 1 | Inl i \<Rightarrow> i);
          index_start = (case binary_search_by (\<lambda>message. messages_compare (mi_authority_set_id message)
            (mi_block message) (rm_authority_set_id merkle_root) 0) (vec_items v) of
          Inr i \<Rightarrow> i | Inl i \<Rightarrow> i)
      in exec_bind (vec_drain index_start index_end (vec_items v)) (\<lambda>(drained, rest).
           Ret (drained, v\<lparr>vec_items := rest\<rparr>)))"

section \<open>Merkle roots\<close>

definition roots_find ::
  "relayed_merkle_root vec \<Rightarrow> authority_set_id \<Rightarrow> gear_block_number \<Rightarrow> relayed_merkle_root option" where
  "roots_find v set_id block =
     (case binary_search_by (\<lambda>root. roots_compare (rm_authority_set_id root) (rm_block root) set_id block)
        (vec_items v) of
        Inr i \<Rightarrow> nth_opt (vec_items v) i
      | Inl i \<Rightarrow>
          if i = 0 then None
          else case nth_opt (vec_items v) (i - 1) of
            None \<Rightarrow> None
          | Some result \<Rightarrow> if rm_authority_set_id result \<noteq> set_id then None else Some result)"

definition roots_get :: "relayed_merkle_root vec \<Rightarrow> nat \<Rightarrow> relayed_merkle_root option" where
  "roots_get v i = nth_opt (vec_items v) i"

definition roots_add ::
  "relayed_merkle_root vec \<Rightarrow> relayed_merkle_root \<Rightarrow>
     ((nat + relayed_merkle_root option) \<times> relayed_merkle_root vec) exec" where
  "roots_add v root_new =
     (case binary_search_by (\<lambda>root. roots_compare (rm_authority_set_id root) (rm_block root)
         (rm_authority_set_id root_new) (rm_block root_new)) (vec_items v) of
        Inr i \<Rightarrow> Ret (Inl i, v)
      | Inl i \<Rightarrow>
          let (result, items) =
            (if length (vec_items v) < vec_capacity v then (None, vec_items v)
             else (last_opt (vec_items v), butlast (vec_items v)))
          in exec_bind (vec_insert i root_new items) (\<lambda>items'.
               Ret (Inr result, v\<lparr>vec_items := items'\<rparr>)))"

section \<open>The loop\<close>

record accumulator =
  ac_messages :: "message_in_block vec"
  ac_merkle_roots :: "relayed_merkle_root vec"

definition accumulator_new :: accumulator where
  "accumulator_new = \<lparr>ac_messages = vec_new 10000, ac_merkle_roots = vec_new 100\<rparr>"

datatype acc_input = MessageIn message_in_block | RootIn relayed_merkle_root

text \<open>
  One turn of the loop: the pairs sent on, the messages that are given up (rejected because the
  store is full, or removed with the oldest root), whether sending failed, and the state. \<open>alive\<close> tells
  whether the receiver of the channel still exists; when it does not, sending fails and what was
  taken out to be sent is lost.
\<close>

record acc_output =
  ao_sent :: "(message_in_block \<times> relayed_merkle_root) list"
  ao_dropped :: "message_in_block list"
  ao_failed :: bool

definition send_all ::
  "bool \<Rightarrow> message_in_block list \<Rightarrow> relayed_merkle_root \<Rightarrow> message_in_block list \<Rightarrow> acc_output" where
  "send_all alive ms root dropped =
     (if alive then \<lparr>ao_sent = map (\<lambda>m. (m, root)) ms, ao_dropped = dropped, ao_failed = False\<rparr>
      else \<lparr>ao_sent = [], ao_dropped = dropped @ ms, ao_failed = ms \<noteq> []\<rparr>)"

fun acc_step :: "bool \<Rightarrow> accumulator \<Rightarrow> acc_input \<Rightarrow> (acc_output \<times> accumulator) exec" where
  "acc_step alive a (MessageIn message) =
     (case roots_find (ac_merkle_roots a) (mi_authority_set_id message) (mi_block message) of
        Some merkle_root \<Rightarrow> Ret (send_all alive [message] merkle_root [], a)
      | None \<Rightarrow>
          exec_bind (messages_add (ac_messages a) message) (\<lambda>(added, ms).
          Ret (\<lparr>ao_sent = [], ao_dropped = (if added = None then [message] else []), ao_failed = False\<rparr>,
               a\<lparr>ac_messages := ms\<rparr>)))"
| "acc_step alive a (RootIn merkle_root) =
     exec_bind (roots_add (ac_merkle_roots a) merkle_root) (\<lambda>(res, roots).
     case res of
       Inl i \<Rightarrow> Ret (\<lparr>ao_sent = [], ao_dropped = [], ao_failed = False\<rparr>, a)
     | Inr None \<Rightarrow>
         exec_bind (messages_drain (ac_messages a) merkle_root) (\<lambda>(drained, ms).
         Ret (send_all alive drained merkle_root [],
              \<lparr>ac_messages = ms, ac_merkle_roots = roots\<rparr>))
     | Inr (Some merkle_root_old) \<Rightarrow>
         exec_bind (messages_drain (ac_messages a) merkle_root_old) (\<lambda>(stuck, ms).
         exec_bind (messages_drain ms merkle_root) (\<lambda>(drained, ms').
         Ret (send_all alive drained merkle_root stuck,
              \<lparr>ac_messages = ms', ac_merkle_roots = roots\<rparr>))))"

section \<open>Bisection on a sorted vector\<close>

text \<open>The order of messages and roots is the lexicographic order of authority set and block.\<close>

definition msg_key :: "message_in_block \<Rightarrow> authority_set_id \<times> gear_block_number" where
  "msg_key m = (mi_authority_set_id m, mi_block m)"

definition root_key :: "relayed_merkle_root \<Rightarrow> authority_set_id \<times> gear_block_number" where
  "root_key r = (rm_authority_set_id r, rm_block r)"

lemma messages_compare_key: "messages_compare a b a' b' = cmp (a, b) (a', b')"
  by (auto simp: messages_compare_def cmp_def less_prod_def)

lemma roots_compare_key: "roots_compare a b a' b' = cmp (a', b') (a, b)"
  by (auto simp: roots_compare_def cmp_def less_prod_def)

definition keys_sorted :: "('a \<Rightarrow> 'k::linorder) \<Rightarrow> 'a list \<Rightarrow> bool" where
  "keys_sorted key xs \<longleftrightarrow> sorted_wrt (\<lambda>a b. key a \<le> key b) xs"

lemma keys_sorted_append:
  "keys_sorted key (xs @ ys) \<longleftrightarrow>
     keys_sorted key xs \<and> keys_sorted key ys \<and> (\<forall>x \<in> set xs. \<forall>y \<in> set ys. key x \<le> key y)"
  by (simp add: keys_sorted_def sorted_wrt_append)

lemma keys_sorted_probe: "keys_sorted key xs \<Longrightarrow> probe_sorted (\<lambda>x. cmp (key x) k) xs"
  unfolding keys_sorted_def by (erule probe_sorted_mono) (auto simp: cmp_def)

text \<open>Cutting a sorted vector at the end, or at the beginning, of the keys up to \<open>k\<close>.\<close>

lemma cut_filter:
  assumes "\<And>j. j < i \<Longrightarrow> P (xs ! j)" and "\<And>j. i \<le> j \<Longrightarrow> j < length xs \<Longrightarrow> \<not> P (xs ! j)" and "i \<le> length xs"
  shows "take i xs = filter P xs \<and> drop i xs = filter (\<lambda>x. \<not> P x) xs"
proof -
  have t: "\<forall>x \<in> set (take i xs). P x" using assms(1,3) by (auto simp: in_set_conv_nth)
  have d: "\<forall>x \<in> set (drop i xs). \<not> P x" using assms(2,3) by (auto simp: in_set_conv_nth)
  have "filter P (take i xs @ drop i xs) = take i xs"
    using t d by (simp only: filter_append filter_True filter_False append_Nil2)
  moreover have "filter (\<lambda>x. \<not> P x) (take i xs @ drop i xs) = drop i xs"
    using t d by (simp only: filter_append) (simp add: filter_True filter_False)
  ultimately show ?thesis by simp
qed

lemma search_upper:
  fixes key :: "'a \<Rightarrow> 'k::linorder" and k :: 'k
  assumes sorted: "keys_sorted key xs"
  defines "i \<equiv> (case binary_search_by (\<lambda>x. cmp (key x) k) xs of Inr i \<Rightarrow> i + 1 | Inl i \<Rightarrow> i)"
  shows "i \<le> length xs" "take i xs = filter (\<lambda>x. key x \<le> k) xs" "drop i xs = filter (\<lambda>x. \<not> key x \<le> k) xs"
proof -
  note ps = keys_sorted_probe [OF sorted, of k]
  have b: "i \<le> length xs \<and> (\<forall>j < i. key (xs ! j) \<le> k) \<and> (\<forall>j. i \<le> j \<and> j < length xs \<longrightarrow> \<not> key (xs ! j) \<le> k)"
  proof (cases "binary_search_by (\<lambda>x. cmp (key x) k) xs")
    case (Inl n)
    with binary_search_by_Err [OF ps Inl] show ?thesis by (auto simp: i_def less_imp_le not_le)
  next
    case (Inr n)
    have "key (xs ! j) \<le> k" if "j \<le> n" for j
      using binary_search_by_Ok(1,2) [OF ps Inr] that sorted
      by (cases "j = n") (auto simp: keys_sorted_def sorted_wrt_iff_nth_less)
    with Inr binary_search_by_Ok [OF ps Inr] show ?thesis by (auto simp: i_def not_le)
  qed
  then show "i \<le> length xs" by simp
  from b cut_filter [of i "\<lambda>x. key x \<le> k" xs]
  show "take i xs = filter (\<lambda>x. key x \<le> k) xs" "drop i xs = filter (\<lambda>x. \<not> key x \<le> k) xs" by auto
qed

lemma search_lower:
  fixes key :: "'a \<Rightarrow> 'k::linorder" and k :: 'k
  assumes sorted: "keys_sorted key xs" and new: "\<And>x. x \<in> set xs \<Longrightarrow> key x \<noteq> k"
  defines "i \<equiv> (case binary_search_by (\<lambda>x. cmp (key x) k) xs of Inr i \<Rightarrow> i | Inl i \<Rightarrow> i)"
  shows "i \<le> length xs" "take i xs = filter (\<lambda>x. key x < k) xs" "drop i xs = filter (\<lambda>x. \<not> key x < k) xs"
proof -
  note ps = keys_sorted_probe [OF sorted, of k]
  obtain n where n: "binary_search_by (\<lambda>x. cmp (key x) k) xs = Inl n"
    using rust.search_Err_iff [OF ps] new by (metis cmp_simps(2))
  with binary_search_by_Err [OF ps n]
  have b: "i \<le> length xs \<and> (\<forall>j < i. key (xs ! j) < k) \<and> (\<forall>j. i \<le> j \<and> j < length xs \<longrightarrow> \<not> key (xs ! j) < k)"
    by (auto simp: i_def dest: less_not_sym)
  then show "i \<le> length xs" by simp
  from b cut_filter [of i "\<lambda>x. key x < k" xs]
  show "take i xs = filter (\<lambda>x. key x < k) xs" "drop i xs = filter (\<lambda>x. \<not> key x < k) xs" by auto
qed

section \<open>The operations on messages\<close>

definition covers :: "relayed_merkle_root \<Rightarrow> message_in_block \<Rightarrow> bool" where
  "covers r m \<longleftrightarrow> rm_authority_set_id r = mi_authority_set_id m \<and> mi_block m \<le> rm_block r"

lemma messages_add_spec:
  assumes "keys_sorted msg_key (vec_items v)" and "length (vec_items v) < vec_capacity v"
  shows "\<exists>xs ys. vec_items v = xs @ ys \<and> messages_add v m = Ret (Some (), v\<lparr>vec_items := xs @ m # ys\<rparr>)
    \<and> keys_sorted msg_key (xs @ m # ys)"
proof -
  define i where "i = (case binary_search_by (\<lambda>x. cmp (msg_key x) (msg_key m)) (vec_items v) of Inr i \<Rightarrow> i | Inl i \<Rightarrow> i)"
  note ps = keys_sorted_probe [OF assms(1), of "msg_key m"]
  have b: "i \<le> length (vec_items v) \<and> (\<forall>j < i. msg_key (vec_items v ! j) \<le> msg_key m)
      \<and> (\<forall>j. i \<le> j \<and> j < length (vec_items v) \<longrightarrow> msg_key m \<le> msg_key (vec_items v ! j))"
  proof (cases "binary_search_by (\<lambda>x. cmp (msg_key x) (msg_key m)) (vec_items v)")
    case (Inl n)
    with binary_search_by_Err [OF ps Inl] show ?thesis by (auto simp: i_def less_imp_le)
  next
    case (Inr n)
    note ok = binary_search_by_Ok [OF ps Inr]
    have "msg_key (vec_items v ! j) \<le> msg_key m" if "j < n" for j
      using ok(1,2) that assms(1) by (force simp: keys_sorted_def sorted_wrt_iff_nth_less)
    moreover have "msg_key m \<le> msg_key (vec_items v ! j)" if "n \<le> j" "j < length (vec_items v)" for j
      using ok that by (cases "j = n") (auto simp: less_imp_le)
    ultimately show ?thesis using ok(1) Inr by (auto simp: i_def)
  qed
  let ?xs = "take i (vec_items v)" and ?ys = "drop i (vec_items v)"
  have "keys_sorted msg_key (?xs @ ?ys)" using assms(1) by simp
  moreover have "\<forall>x \<in> set ?xs. msg_key x \<le> msg_key m" using b by (auto simp: in_set_conv_nth)
  moreover have "\<forall>y \<in> set ?ys. msg_key m \<le> msg_key y" using b by (auto simp: in_set_conv_nth)
  ultimately have "keys_sorted msg_key (?xs @ m # ?ys)"
    unfolding keys_sorted_append by (auto simp: keys_sorted_def)
  moreover have "messages_add v m = Ret (Some (), v\<lparr>vec_items := ?xs @ m # ?ys\<rparr>)"
    using assms(2) b
    by (simp add: messages_add_def messages_compare_key msg_key_def [symmetric] i_def [symmetric] vec_insert_def Let_def)
  ultimately show ?thesis by (intro exI [of _ ?xs] exI [of _ ?ys]) simp
qed

lemma cut_between:
  assumes i: "i \<le> length xs" "take i xs = filter (\<lambda>x. \<not> A x) xs" "drop i xs = filter A xs"
    and j: "j \<le> length xs" "take j xs = filter B xs" "drop j xs = filter (\<lambda>x. \<not> B x) xs"
    and low: "\<And>x. \<not> A x \<Longrightarrow> B x"
  shows "i \<le> j" "drop i (take j xs) = filter (\<lambda>x. A x \<and> B x) xs"
    "take i xs @ drop j xs = filter (\<lambda>x. \<not> (A x \<and> B x)) xs"
proof -
  have "length (filter (\<lambda>x. \<not> A x) xs) \<le> length (filter B xs)"
    using low by (induction xs) auto
  then show "i \<le> j" using i(1,2) j(1,2) by (metis length_take min_absorb2)
  have ti: "\<forall>x \<in> set (take i xs). \<not> A x" unfolding i(2) by simp
  have xs: "filter P xs = filter P (take i xs) @ filter P (drop i xs)" for P
    by (metis append_take_drop_id filter_append)
  have fB: "filter B xs = take i xs @ filter B (filter A xs)"
    using xs [of B] ti low by (simp add: i(3) filter_True)
  show "drop i (take j xs) = filter (\<lambda>x. A x \<and> B x) xs"
    unfolding j(2) fB using i(1) by (simp add: conj_commute)
  have "filter (\<lambda>x. \<not> B x) xs = filter (\<lambda>x. \<not> B x) (filter A xs)"
    using xs [of "\<lambda>x. \<not> B x"] ti low by (simp add: i(3) filter_False)
  moreover have "filter (\<lambda>x. \<not> (A x \<and> B x)) (filter A xs) = filter (\<lambda>x. \<not> B x) (filter A xs)"
    by (rule filter_cong) auto
  ultimately show "take i xs @ drop j xs = filter (\<lambda>x. \<not> (A x \<and> B x)) xs"
    unfolding j(3) using xs [of "\<lambda>x. \<not> (A x \<and> B x)"] ti by (simp only: i(3)) (simp add: filter_True)
qed

lemma messages_drain_spec:
  assumes sorted: "keys_sorted msg_key (vec_items v)" and pos: "\<And>m. m \<in> set (vec_items v) \<Longrightarrow> mi_block m \<noteq> 0"
  shows "messages_drain v r = Ret (filter (covers r) (vec_items v),
    v\<lparr>vec_items := filter (\<lambda>m. \<not> covers r m) (vec_items v)\<rparr>)"
proof -
  let ?xs = "vec_items v" and ?lo = "(rm_authority_set_id r, 0 :: gear_block_number)"
  have "msg_key x \<noteq> ?lo" if "x \<in> set ?xs" for x using pos [OF that] by (auto simp: msg_key_def)
  note low = search_lower [OF sorted this] and up = search_upper [OF sorted, of "root_key r"]
  have cov: "covers r = (\<lambda>m. \<not> msg_key m < ?lo \<and> msg_key m \<le> root_key r)"
    by (auto simp: fun_eq_iff covers_def msg_key_def root_key_def less_prod_def less_eq_prod_def)
  have "msg_key m \<le> root_key r" if "\<not> \<not> msg_key m < ?lo" for m
    using that by (auto simp: msg_key_def root_key_def less_prod_def less_eq_prod_def)
  note cut = cut_between [of _ ?xs "\<lambda>m. \<not> msg_key m < ?lo" _ "\<lambda>m. msg_key m \<le> root_key r",
      unfolded not_not, OF low up this, simplified not_not]
  show ?thesis
    using cut up(1)
    by (simp add: messages_drain_def messages_compare_key msg_key_def [symmetric] root_key_def [symmetric]
        vec_drain_def Let_def cov)
qed

section \<open>The operations on roots\<close>

definition roots_desc :: "relayed_merkle_root list \<Rightarrow> bool" where
  "roots_desc rs \<longleftrightarrow> sorted_wrt (\<lambda>a b. root_key b < root_key a) rs"

lemma roots_desc_probe: "roots_desc rs \<Longrightarrow> probe_sorted (\<lambda>r. cmp k (root_key r)) rs"
  unfolding roots_desc_def by (erule probe_sorted_mono) (auto simp: cmp_def)

lemma roots_desc_nth: "roots_desc rs \<Longrightarrow> i < j \<Longrightarrow> j < length rs \<Longrightarrow> root_key (rs ! j) < root_key (rs ! i)"
  by (simp add: roots_desc_def sorted_wrt_iff_nth_less)

lemma roots_find_spec:
  assumes "roots_desc (vec_items v)"
  shows "case roots_find v a b of
     Some r \<Rightarrow> r \<in> set (vec_items v) \<and> rm_authority_set_id r = a \<and> b \<le> rm_block r
   | None \<Rightarrow> \<forall>r \<in> set (vec_items v). \<not> (rm_authority_set_id r = a \<and> b \<le> rm_block r)"
proof -
  let ?rs = "vec_items v"
  note ps = roots_desc_probe [OF assms, of "(a, b)"]
  show ?thesis
  proof (cases "binary_search_by (\<lambda>r. cmp (a, b) (root_key r)) ?rs")
    case (Inr i)
    with binary_search_by_Ok [OF ps Inr] show ?thesis
      by (auto simp: roots_find_def roots_compare_key root_key_def [symmetric] nth_opt_def)
        (auto simp: root_key_def)
  next
    case (Inl i)
    note err = binary_search_by_Err [OF ps Inl]
    have find: "roots_find v a b = (if i = 0 then None
        else if rm_authority_set_id (?rs ! (i - 1)) \<noteq> a then None else Some (?rs ! (i - 1)))"
      using Inl err(1) by (auto simp: roots_find_def roots_compare_key root_key_def [symmetric] nth_opt_def)
    have above: "j < i" if "j < length ?rs" "(a, b) \<le> root_key (?rs ! j)" for j
      using err(3) [of j] that by (cases "j < i") (auto dest: leD)
    show ?thesis
    proof (cases "i = 0")
      case True
      have "\<not> (rm_authority_set_id r = a \<and> b \<le> rm_block r)" if "r \<in> set ?rs" for r
      proof
        assume "rm_authority_set_id r = a \<and> b \<le> rm_block r"
        then have "(a, b) \<le> root_key r" by (simp add: root_key_def)
        with that above True show False by (auto simp: in_set_conv_nth)
      qed
      with find True show ?thesis by simp
    next
      case False
      let ?r = "?rs ! (i - 1)"
      have r: "?r \<in> set ?rs" "(a, b) < root_key ?r" using False err(1,2) by auto
      show ?thesis
      proof (cases "rm_authority_set_id ?r = a")
        case True
        with r find False show ?thesis by (auto simp: root_key_def less_prod_def less_imp_le)
      next
        case other: False
        have "\<not> (rm_authority_set_id q = a \<and> b \<le> rm_block q)" if "q \<in> set ?rs" for q
        proof
          assume q: "rm_authority_set_id q = a \<and> b \<le> rm_block q"
          from that obtain j where j: "j < length ?rs" "q = ?rs ! j" by (auto simp: in_set_conv_nth)
          with q above have "j < i" by (auto simp: root_key_def)
          then consider "j = i - 1" | "j < i - 1" by linarith
          then have "root_key ?r \<le> root_key q"
            using roots_desc_nth [OF assms, of j "i - 1"] j err(1) False by cases (auto simp: less_imp_le)
          with r(2) q other show False by (auto simp: root_key_def less_prod_def less_eq_prod_def)
        qed
        with find False other show ?thesis by simp
      qed
    qed
  qed
qed

text \<open>
  Adding a root keeps the order. When the store is full its oldest root is popped before the new
  one is inserted at the position found before, which lies behind the end if the new root is older
  than all.
\<close>

lemma roots_desc_insert:
  assumes "roots_desc (xs @ ys)" and "\<forall>x \<in> set xs. root_key r < root_key x" and "\<forall>y \<in> set ys. root_key y < root_key r"
  shows "roots_desc (xs @ r # ys)"
  using assms by (auto simp: roots_desc_def sorted_wrt_append)

lemma roots_add_spec:
  assumes desc: "roots_desc (vec_items v)" and run: "roots_add v r = Ret (res, v')"
  obtains (present) i where "res = Inl i" "v' = v"
  | (room) xs ys where "res = Inr None" "vec_items v = xs @ ys" "v' = v\<lparr>vec_items := xs @ r # ys\<rparr>"
      "roots_desc (xs @ r # ys)"
  | (full) xs ys old where "res = Inr (Some old)" "vec_items v = xs @ ys @ [old]"
      "v' = v\<lparr>vec_items := xs @ r # ys\<rparr>" "roots_desc (xs @ r # ys)"
proof (cases "binary_search_by (\<lambda>q. cmp (root_key r) (root_key q)) (vec_items v)")
  case (Inr i)
  with run show thesis
    by (intro present) (auto simp: roots_add_def roots_compare_key root_key_def [symmetric])
next
  case (Inl i)
  let ?rs = "vec_items v"
  note err = binary_search_by_Err [OF roots_desc_probe [OF desc] Inl]
  have hi: "\<forall>x \<in> set (take i zs). root_key r < root_key x" if "zs = ?rs \<or> zs = butlast ?rs" for zs
    using that err(1,2) by (auto simp: in_set_conv_nth nth_butlast)
  have lo: "\<forall>x \<in> set (drop i zs). root_key x < root_key r" if "zs = ?rs \<or> zs = butlast ?rs" for zs
    using that err(1,3) by (auto simp: in_set_conv_nth nth_butlast)
  have run': "(let (result, items) = (if length ?rs < vec_capacity v then (None, ?rs)
        else (last_opt ?rs, butlast ?rs))
      in exec_bind (vec_insert i r items) (\<lambda>items'. Ret (Inr result, v\<lparr>vec_items := items'\<rparr>))) = Ret (res, v')"
    using run Inl by (simp add: roots_add_def roots_compare_key root_key_def [symmetric])
  show thesis
  proof (cases "length ?rs < vec_capacity v \<or> ?rs = []")
    case True
    then have "res = Inr None" "v' = v\<lparr>vec_items := take i ?rs @ r # drop i ?rs\<rparr>"
      using run' err(1) by (auto simp: vec_insert_def last_opt_def split: if_splits)
    moreover have "roots_desc (take i ?rs @ r # drop i ?rs)"
      using desc hi [of ?rs] lo [of ?rs] by (intro roots_desc_insert) simp_all
    ultimately show thesis by (intro room) simp_all
  next
    case False
    then obtain zs old where zs: "?rs = zs @ [old]" by (metis rev_exhaust)
    have "res = Inr (Some old)" "v' = v\<lparr>vec_items := take i zs @ r # drop i zs\<rparr>"
      using run' False by (auto simp: zs vec_insert_def exec_bind_Ret_iff split: if_splits)
    moreover have "roots_desc (take i zs @ r # drop i zs)"
      using desc hi [of zs] lo [of zs]
      by (intro roots_desc_insert) (auto simp: zs roots_desc_def sorted_wrt_append)
    ultimately show thesis using zs by (intro full [of old "take i zs" "drop i zs"]) auto
  qed
qed

section \<open>Runs\<close>

text \<open>
  The messages and the roots are in order, and no message waits although a root that covers it
  is stored.
\<close>

definition acc_inv :: "accumulator \<Rightarrow> bool" where
  "acc_inv a \<longleftrightarrow> keys_sorted msg_key (vec_items (ac_messages a)) \<and> roots_desc (vec_items (ac_merkle_roots a))
     \<and> (\<forall>m \<in> set (vec_items (ac_messages a)). mi_block m \<noteq> 0
          \<and> (\<forall>r \<in> set (vec_items (ac_merkle_roots a)). \<not> covers r m))"

fun acc_run :: "accumulator \<Rightarrow> acc_input list \<Rightarrow> (acc_output list \<times> accumulator) exec" where
  "acc_run a [] = Ret ([], a)"
| "acc_run a (x # xs) =
     exec_bind (acc_step True a x) (\<lambda>(out, a').
     exec_bind (acc_run a' xs) (\<lambda>(outs, a''). Ret (out # outs, a'')))"

fun messages_of :: "acc_input \<Rightarrow> message_in_block list" where
  "messages_of (MessageIn m) = [m]"
| "messages_of (RootIn r) = []"

abbreviation waiting :: "accumulator \<Rightarrow> message_in_block list" where
  "waiting a \<equiv> vec_items (ac_messages a)"

abbreviation stored :: "accumulator \<Rightarrow> relayed_merkle_root list" where
  "stored a \<equiv> vec_items (ac_merkle_roots a)"

definition step_ok :: "accumulator \<Rightarrow> acc_input \<Rightarrow> acc_output \<Rightarrow> accumulator \<Rightarrow> bool" where
  "step_ok a x out a' \<longleftrightarrow> acc_inv a' \<and> vec_capacity (ac_messages a') = vec_capacity (ac_messages a)
     \<and> (\<forall>(m, r) \<in> set (ao_sent out). covers r m \<and> (r \<in> set (stored a) \<or> x = RootIn r))
     \<and> set (stored a') \<subseteq> set (stored a) \<union> {r. x = RootIn r}
     \<and> mset (waiting a) + mset (messages_of x) = mset (waiting a') + mset (map fst (ao_sent out)) + mset (ao_dropped out)
     \<and> (ao_dropped out \<noteq> [] \<longrightarrow> vec_capacity (ac_messages a) \<le> length (waiting a))"

lemma step_ok_message:
  assumes "acc_inv a" and "mi_block m \<noteq> 0" and "acc_step True a (MessageIn m) = Ret (out, a')"
  shows "step_ok a (MessageIn m) out a'"
proof -
  have inv: "keys_sorted msg_key (waiting a)" "roots_desc (stored a)" using assms(1) by (simp_all add: acc_inv_def)
  note find = roots_find_spec [OF inv(2), of "mi_authority_set_id m" "mi_block m"]
  show ?thesis
  proof (cases "roots_find (ac_merkle_roots a) (mi_authority_set_id m) (mi_block m)")
    case (Some r)
    with assms find show ?thesis by (auto simp: step_ok_def send_all_def covers_def)
  next
    case None
    then have unc: "\<forall>r \<in> set (stored a). \<not> covers r m" using find by (auto simp: covers_def)
    show ?thesis
    proof (cases "length (waiting a) < vec_capacity (ac_messages a)")
      case True
      from messages_add_spec [OF inv(1) True, of m] obtain xs ys where
        w: "waiting a = xs @ ys" and add: "messages_add (ac_messages a) m = Ret (Some (), (ac_messages a)\<lparr>vec_items := xs @ m # ys\<rparr>)"
        and sorted: "keys_sorted msg_key (xs @ m # ys)" by blast
      with assms None have out: "out = \<lparr>ao_sent = [], ao_dropped = [], ao_failed = False\<rparr>"
          "a' = a\<lparr>ac_messages := (ac_messages a)\<lparr>vec_items := xs @ m # ys\<rparr>\<rparr>" by auto
      have "acc_inv a'" using assms(1,2) sorted unc w by (auto simp: acc_inv_def out)
      then show ?thesis by (simp add: step_ok_def out w)
    next
      case False
      with assms None have "out = \<lparr>ao_sent = [], ao_dropped = [m], ao_failed = False\<rparr>" "a' = a"
        by (auto simp: messages_add_def)
      with assms(1) False show ?thesis by (simp add: step_ok_def)
    qed
  qed
qed

lemma acc_inv_roots:
  assumes "acc_inv a" and "roots_desc rs" and "set rs \<subseteq> insert r (set (stored a))"
    and ms: "ms = filter (\<lambda>m. \<not> covers r m) (waiting a)"
  shows "acc_inv \<lparr>ac_messages = (ac_messages a)\<lparr>vec_items := ms\<rparr>, ac_merkle_roots = (ac_merkle_roots a)\<lparr>vec_items := rs\<rparr>\<rparr>"
  using assms by (auto simp: acc_inv_def keys_sorted_def sorted_wrt_filter)

lemma mset_partition: "mset xs = mset (filter (\<lambda>x. \<not> P x) xs) + mset (filter P xs)"
  by (induction xs) auto

lemma step_ok_root:
  assumes inv: "acc_inv a" and run: "acc_step True a (RootIn r) = Ret (out, a')"
  shows "step_ok a (RootIn r) out a'"
proof -
  have sorted: "keys_sorted msg_key (waiting a)" and desc: "roots_desc (stored a)"
    and pos: "\<And>m. m \<in> set (waiting a) \<Longrightarrow> mi_block m \<noteq> 0"
    using inv by (auto simp: acc_inv_def)
  note drain = messages_drain_spec [OF sorted pos]
  let ?keep = "filter (\<lambda>m. \<not> covers r m) (waiting a)" and ?hit = "filter (covers r) (waiting a)"
  have part: "mset (waiting a) = mset ?keep + mset ?hit" by (rule mset_partition)
  from run obtain res roots where add: "roots_add (ac_merkle_roots a) r = Ret (res, roots)"
    by (auto simp: exec_bind_Ret_iff)
  from desc add show ?thesis
  proof (cases rule: roots_add_spec)
    case (present i)
    with run add inv show ?thesis by (auto simp: step_ok_def)
  next
    case (room xs ys)
    then have out: "out = send_all True ?hit r []"
        "a' = \<lparr>ac_messages = (ac_messages a)\<lparr>vec_items := ?keep\<rparr>, ac_merkle_roots = (ac_merkle_roots a)\<lparr>vec_items := xs @ r # ys\<rparr>\<rparr>"
      using run add drain by auto
    have "acc_inv a'" unfolding out(2) by (rule acc_inv_roots [OF inv room(4)]) (auto simp: room(2))
    then show ?thesis using part by (auto simp: step_ok_def out room(2) send_all_def comp_def)
  next
    case (full xs ys old)
    have "old \<in> set (stored a)" by (simp add: full(2))
    then have none: "filter (covers old) (waiting a) = []" and all: "filter (\<lambda>m. \<not> covers old m) (waiting a) = waiting a"
      using inv by (auto simp: acc_inv_def filter_empty_conv filter_id_conv)
    then have out: "out = send_all True ?hit r []"
        "a' = \<lparr>ac_messages = (ac_messages a)\<lparr>vec_items := ?keep\<rparr>, ac_merkle_roots = (ac_merkle_roots a)\<lparr>vec_items := xs @ r # ys\<rparr>\<rparr>"
      using run add drain full(1,3) by (auto simp: exec_bind_Ret_iff)
    have "acc_inv a'" unfolding out(2) by (rule acc_inv_roots [OF inv full(4)]) (auto simp: full(2))
    then show ?thesis using part by (auto simp: step_ok_def out full(2) send_all_def comp_def)
  qed
qed

lemma conserve_step:
  fixes w :: "'a multiset"
  assumes "w + m = w1 + s + d" and "w1 + ms = w' + s1 + d1"
  shows "w + (m + ms) = w' + (s + s1) + (d + d1)"
proof -
  have "w + (m + ms) = (w1 + ms) + s + d" by (simp only: add.assoc [symmetric] assms(1)) (simp add: ac_simps)
  then show ?thesis by (simp only: assms(2)) (simp add: ac_simps)
qed

lemma acc_run_ok:
  assumes "acc_inv a" and "acc_run a xs = Ret (outs, a')" and "\<forall>m. MessageIn m \<in> set xs \<longrightarrow> mi_block m \<noteq> 0"
  shows "acc_inv a'
    \<and> (\<forall>out \<in> set outs. \<forall>(m, r) \<in> set (ao_sent out). covers r m \<and> (r \<in> set (stored a) \<or> RootIn r \<in> set xs))
    \<and> mset (waiting a) + mset (concat (map messages_of xs))
        = mset (waiting a') + mset (map fst (concat (map ao_sent outs))) + mset (concat (map ao_dropped outs))
    \<and> (length (waiting a) + length xs \<le> vec_capacity (ac_messages a) \<longrightarrow> concat (map ao_dropped outs) = [])"
  using assms
proof (induction xs arbitrary: a outs)
  case (Cons x xs)
  from Cons.prems(2) obtain out a1 outs1 where step: "acc_step True a x = Ret (out, a1)"
    and rest: "acc_run a1 xs = Ret (outs1, a')" and outs: "outs = out # outs1"
    by (auto simp: exec_bind_Ret_iff)
  have ok: "step_ok a x out a1"
    using step_ok_message [OF Cons.prems(1)] step_ok_root [OF Cons.prems(1)] step Cons.prems(3)
    by (cases x) auto
  then have "acc_inv a1" by (simp add: step_ok_def)
  note ih = Cons.IH [OF this rest]
  have eq: "mset (waiting a) + mset (messages_of x) = mset (waiting a1) + mset (map fst (ao_sent out)) + mset (ao_dropped out)"
    and cap: "vec_capacity (ac_messages a1) = vec_capacity (ac_messages a)"
    and drop: "ao_dropped out \<noteq> [] \<Longrightarrow> vec_capacity (ac_messages a) \<le> length (waiting a)"
    using ok by (simp_all add: step_ok_def)
  have len: "length (waiting a1) \<le> length (waiting a) + 1"
    using arg_cong [OF eq, of size] by (cases x) auto
  have "\<forall>o' \<in> set outs. \<forall>(m, r) \<in> set (ao_sent o'). covers r m \<and> (r \<in> set (stored a) \<or> RootIn r \<in> set (x # xs))"
    using ih Cons.prems(3) ok by (fastforce simp: outs step_ok_def)
  moreover have "mset (waiting a) + mset (concat (map messages_of (x # xs)))
      = mset (waiting a') + mset (map fst (concat (map ao_sent outs))) + mset (concat (map ao_dropped outs))"
    using conserve_step [OF eq] ih Cons.prems(3) by (simp add: outs)
  moreover have "length (waiting a) + length (x # xs) \<le> vec_capacity (ac_messages a)
      \<longrightarrow> concat (map ao_dropped outs) = []"
    using ih Cons.prems(3) len cap drop by (cases "ao_dropped out = []") (auto simp: outs)
  moreover have "acc_inv a'" using ih Cons.prems(3) by simp
  ultimately show ?case by blast
qed simp

text \<open>Property C25. Over every run that does not panic, a message is sent on only together with a
  relayed root of its own authority set whose block is not before the message's; every message
  received is sent once, still waiting or given up; none is given up while fewer than 10000
  messages came in; and no message waits although a stored root covers it.\<close>

theorem accumulator_pairs_messages_with_roots:
  assumes "acc_run accumulator_new ins = Ret (outs, a)" and "\<forall>m. MessageIn m \<in> set ins \<longrightarrow> mi_block m \<noteq> 0"
  shows "(\<forall>out \<in> set outs. \<forall>(m, r) \<in> set (ao_sent out). covers r m \<and> RootIn r \<in> set ins)
    \<and> mset (concat (map messages_of ins))
        = mset (waiting a) + mset (map fst (concat (map ao_sent outs))) + mset (concat (map ao_dropped outs))
    \<and> (length ins \<le> 10000 \<longrightarrow> concat (map ao_dropped outs) = [])
    \<and> (\<forall>m \<in> set (waiting a). \<forall>r \<in> set (stored a). \<not> covers r m)"
proof -
  have "acc_inv accumulator_new"
    by (simp add: acc_inv_def accumulator_new_def vec_new_def keys_sorted_def roots_desc_def)
  from acc_run_ok [OF this assms] show ?thesis
    by (fastforce simp: accumulator_new_def vec_new_def acc_inv_def)
qed

definition sample_msg :: "u32 \<Rightarrow> message_in_block" where
  "sample_msg block = \<lparr>mi_message = \<lparr>gm_nonce_le = [], gm_source = 0, gm_destination = 0, gm_payload = []\<rparr>,
     mi_block = block, mi_block_hash = 0, mi_authority_set_id = 5\<rparr>"

definition sample_root :: "u32 \<Rightarrow> relayed_merkle_root" where
  "sample_root block = \<lparr>rm_block = block, rm_block_hash = 0, rm_authority_set_id = 5, rm_merkle_root = 0\<rparr>"

lemma sample_acc_run:
  "\<exists>a. acc_run accumulator_new [MessageIn (sample_msg 7), RootIn (sample_root 9), MessageIn (sample_msg 8)]
     = Ret ([\<lparr>ao_sent = [], ao_dropped = [], ao_failed = False\<rparr>,
        \<lparr>ao_sent = [(sample_msg 7, sample_root 9)], ao_dropped = [], ao_failed = False\<rparr>,
        \<lparr>ao_sent = [(sample_msg 8, sample_root 9)], ao_dropped = [], ao_failed = False\<rparr>], a)"
  by (simp add: accumulator_new_def vec_new_def roots_find_def roots_add_def messages_add_def messages_drain_def
      binary_search_by_def bs_loop.simps vec_insert_def vec_drain_def sample_msg_def sample_root_def
      messages_compare_def roots_compare_def cmp_def send_all_def nth_opt_def Let_def)

theorem accumulator_pairs_messages_with_roots_witness:
  "\<exists>outs a. acc_run accumulator_new [MessageIn (sample_msg 7), RootIn (sample_root 9), MessageIn (sample_msg 8)]
     = Ret (outs, a) \<and> concat (map ao_dropped outs) = [] \<and> covers (sample_root 9) (sample_msg 7)"
proof -
  from sample_acc_run obtain a outs where run:
    "acc_run accumulator_new [MessageIn (sample_msg 7), RootIn (sample_root 9), MessageIn (sample_msg 8)] = Ret (outs, a)"
    and sent: "(sample_msg 7, sample_root 9) \<in> set (concat (map ao_sent outs))" by fastforce
  from accumulator_pairs_messages_with_roots [OF run] run sent show ?thesis
    by (fastforce simp: sample_msg_def)
qed

text \<open>A root that arrives late stops the accumulator: when the store of roots is full and
  the new root is older than all of them, the oldest root is popped first and the insertion at
  the position found before panics.\<close>

theorem late_root_panics:
  assumes "roots_desc (vec_items v)" and "vec_items v \<noteq> []" and "vec_capacity v \<le> length (vec_items v)"
    and "\<forall>q \<in> set (vec_items v). root_key r < root_key q"
  shows "panics (roots_add v r)"
proof (cases "binary_search_by (\<lambda>q. cmp (root_key r) (root_key q)) (vec_items v)")
  case (Inr i)
  from binary_search_by_Ok(1,2) [OF roots_desc_probe [OF assms(1)] Inr] assms(4) show ?thesis
    by (metis cmp_simps(2) less_irrefl nth_mem)
next
  case (Inl i)
  note err = binary_search_by_Err [OF roots_desc_probe [OF assms(1)] Inl]
  have "i = length (vec_items v)"
    using err(1) err(3) [of i] assms(4) by (metis cmp_simps(3) le_neq_implies_less less_asym nth_mem order_refl)
  moreover have "\<not> length (vec_items v) \<le> length (vec_items v) - 1" using assms(2) by (cases "vec_items v") auto
  ultimately show ?thesis
    using Inl assms(2,3)
    by (simp add: roots_add_def roots_compare_key root_key_def [symmetric] vec_insert_def panics_def)
qed

theorem late_root_panics_witness:
  "panics (roots_add \<lparr>vec_capacity = 2, vec_items = [sample_root 9, sample_root 8]\<rparr> (sample_root 7))"
  by (rule late_root_panics) (simp_all add: roots_desc_def sample_root_def root_key_def)

end
