(* ===== verification/Bridging_Payment.thy ===== *)
theory Bridging_Payment
  imports Accumulator
begin

text \<open>
  Paying for the delivery of a message: the program that takes the fee
  (\<open>gear-programs/bridging-payment/app\<close>) and the filter of the relayer that lets a message pass once its
  payment is seen (\<open>relayer/src/message_relayer/common/paid_messages_filter.rs\<close>).
\<close>

section \<open>The program\<close>

record payment_state =
  bp_admin_address :: actor_id
  bp_fee :: u128

datatype payment_event = BridgingPaid u256

text \<open>The static \<open>STATE\<close> is set by \<open>seed\<close>; a program without it panics.\<close>

definition bp_seed :: "payment_state \<Rightarrow> payment_state option" where
  "bp_seed initial_state = Some initial_state"

definition bp_state :: "payment_state option \<Rightarrow> payment_state exec" where
  "bp_state st = (case st of None \<Rightarrow> Panic ''BridgingPayment::seed() should be called'' | Some s \<Rightarrow> Ret s)"

definition bp_ensure_admin :: "actor_id \<Rightarrow> payment_state option \<Rightarrow> unit exec" where
  "bp_ensure_admin source st =
     exec_bind (bp_state st) (\<lambda>s. ensure (bp_admin_address s = source) ''Not an admin'')"

definition bp_set_fee :: "actor_id \<Rightarrow> u128 \<Rightarrow> payment_state option \<Rightarrow> (unit \<times> payment_state option) exec" where
  "bp_set_fee source fee st =
     exec_bind (bp_ensure_admin source st) (\<lambda>_.
     exec_bind (bp_state st) (\<lambda>s. Ret ((), Some (s\<lparr>bp_fee := fee\<rparr>))))"

text \<open>The result is the transfer that is sent: the receiver and the whole available value.\<close>

definition bp_reclaim_fee ::
  "actor_id \<Rightarrow> u128 \<Rightarrow> payment_state option \<Rightarrow> ((actor_id \<times> u128) \<times> payment_state option) exec" where
  "bp_reclaim_fee source value_available st =
     exec_bind (bp_ensure_admin source st) (\<lambda>_.
     exec_bind (bp_state st) (\<lambda>s. Ret ((bp_admin_address s, value_available), st)))"

definition bp_set_admin :: "actor_id \<Rightarrow> actor_id \<Rightarrow> payment_state option \<Rightarrow> (unit \<times> payment_state option) exec" where
  "bp_set_admin source new_admin st =
     exec_bind (bp_ensure_admin source st) (\<lambda>_.
     exec_bind (bp_state st) (\<lambda>s. Ret ((), Some (s\<lparr>bp_admin_address := new_admin\<rparr>))))"

definition bp_pay_fees :: "u128 \<Rightarrow> u256 \<Rightarrow> payment_state option \<Rightarrow> (payment_event \<times> payment_state option) exec" where
  "bp_pay_fees attached_value nonce st =
     exec_bind (bp_state st) (\<lambda>s.
     exec_bind (ensure (attached_value = bp_fee s) ''Please attach exactly the fee'') (\<lambda>_.
     Ret (BridgingPaid nonce, st)))"

definition bp_get_state :: "payment_state option \<Rightarrow> payment_state exec" where
  "bp_get_state st = bp_state st"

lemmas bp_defs = bp_state_def bp_ensure_admin_def bp_set_fee_def bp_reclaim_fee_def bp_set_admin_def bp_pay_fees_def

lemma bp_paid_exact:
  "bp_pay_fees value nonce st = Ret (ev, st') \<longleftrightarrow>
     (\<exists>s. st = Some s \<and> value = bp_fee s) \<and> ev = BridgingPaid nonce \<and> st' = st"
  by (cases st) (auto simp: bp_defs exec_bind_Ret_iff)

lemma bp_only_admin:
  "bp_set_fee source fee st = Ret (u, st') \<Longrightarrow> \<exists>s. st = Some s \<and> bp_admin_address s = source"
  "bp_set_admin source a st = Ret (u, st') \<Longrightarrow> \<exists>s. st = Some s \<and> bp_admin_address s = source"
  "bp_reclaim_fee source v st = Ret (t, st') \<Longrightarrow> \<exists>s. st = Some s \<and> bp_admin_address s = source \<and> t = (source, v) \<and> st' = st"
  by (cases st; auto simp: bp_defs exec_bind_Ret_iff)+

section \<open>The filter\<close>

type_synonym nonce = bytes

record paid_messages_filter =
  pf_pending_messages :: "nonce \<Rightarrow> message_in_block option"
  pf_pending_nonces :: "nonce list"

definition filter_new :: paid_messages_filter where
  "filter_new = \<lparr>pf_pending_messages = Map.empty, pf_pending_nonces = []\<rparr>"

datatype filter_input = FilterMessage message_in_block | FilterPaid nonce

text \<open>
  The loop over the pending nonces, from the last to the first. When the receiver of the channel is
  gone, sending fails: the message has been taken out already and the nonce stays.
\<close>

fun release_loop ::
  "bool \<Rightarrow> nat \<Rightarrow> paid_messages_filter \<Rightarrow> message_in_block list \<Rightarrow> (string + unit) \<times> message_in_block list \<times> paid_messages_filter" where
  "release_loop alive 0 f sent = (Inr (), sent, f)"
| "release_loop alive (Suc i) f sent =
     (case pf_pending_messages f (pf_pending_nonces f ! i) of
        None \<Rightarrow> release_loop alive i f sent
      | Some message \<Rightarrow>
          let f' = f\<lparr>pf_pending_messages := (pf_pending_messages f)(pf_pending_nonces f ! i := None)\<rparr>
          in if alive then
               release_loop alive i (f'\<lparr>pf_pending_nonces := take i (pf_pending_nonces f) @ drop (Suc i) (pf_pending_nonces f)\<rparr>)
                 (sent @ [message])
             else (Inl ''channel closed'', sent, f'))"

definition filter_accept :: "paid_messages_filter \<Rightarrow> filter_input \<Rightarrow> paid_messages_filter exec" where
  "filter_accept f inp = (case inp of
     FilterMessage message \<Rightarrow>
       (let nonce = gm_nonce_le (mi_message message)
        in if pf_pending_messages f nonce \<noteq> None then Panic ''Received 2 messages with the same nonce''
           else Ret (f\<lparr>pf_pending_messages := (pf_pending_messages f)(nonce \<mapsto> message)\<rparr>))
   | FilterPaid nonce \<Rightarrow> Ret (f\<lparr>pf_pending_nonces := pf_pending_nonces f @ [nonce]\<rparr>))"

definition filter_step ::
  "bool \<Rightarrow> paid_messages_filter \<Rightarrow> filter_input \<Rightarrow> ((string + unit) \<times> message_in_block list \<times> paid_messages_filter) exec" where
  "filter_step alive f inp =
     exec_bind (filter_accept f inp) (\<lambda>f'. Ret (release_loop alive (length (pf_pending_nonces f')) f' []))"

text \<open>
  A message waits under its own nonce, and after a turn no waiting message has a paid nonce.
\<close>

definition keyed :: "paid_messages_filter \<Rightarrow> bool" where
  "keyed f \<longleftrightarrow> (\<forall>k m. pf_pending_messages f k = Some m \<longrightarrow> gm_nonce_le (mi_message m) = k)"

definition unpaid_from :: "nat \<Rightarrow> paid_messages_filter \<Rightarrow> bool" where
  "unpaid_from i f \<longleftrightarrow> (\<forall>k \<in> set (drop i (pf_pending_nonces f)). pf_pending_messages f k = None)"

lemma release_loop_spec:
  assumes "release_loop True i f sent = (r, sent', f')" and "keyed f" and "unpaid_from i f" and "i \<le> length (pf_pending_nonces f)"
  shows "r = Inr () \<and> keyed f' \<and> unpaid_from 0 f'
    \<and> (\<exists>new. sent' = sent @ new
      \<and> mset (pf_pending_nonces f) = mset (pf_pending_nonces f') + mset (map (\<lambda>m. gm_nonce_le (mi_message m)) new)
      \<and> (\<forall>m \<in> set new. pf_pending_messages f (gm_nonce_le (mi_message m)) = Some m)
      \<and> (\<forall>k. pf_pending_messages f' k = (if k \<in> (\<lambda>m. gm_nonce_le (mi_message m)) ` set new then None else pf_pending_messages f k)))"
  using assms
proof (induction i arbitrary: f sent)
  case 0
  then show ?case by (auto intro!: exI [of _ "[]"])
next
  case (Suc i)
  let ?n = "pf_pending_nonces f ! i"
  have nonces: "pf_pending_nonces f = take i (pf_pending_nonces f) @ ?n # drop (Suc i) (pf_pending_nonces f)"
    using Suc.prems(4) by (simp add: id_take_nth_drop)
  have drop: "drop i (pf_pending_nonces f) = ?n # drop (Suc i) (pf_pending_nonces f)"
    using Suc.prems(4) by (simp add: Cons_nth_drop_Suc)
  show ?case
  proof (cases "pf_pending_messages f ?n")
    case None
    with Suc.prems drop have "unpaid_from i f" by (auto simp: unpaid_from_def)
    with Suc.IH [of f sent] Suc.prems None show ?thesis by simp
  next
    case (Some m)
    have key: "gm_nonce_le (mi_message m) = ?n" using Suc.prems(2) Some by (simp add: keyed_def)
    let ?f = "f\<lparr>pf_pending_messages := (pf_pending_messages f)(?n := None),
      pf_pending_nonces := take i (pf_pending_nonces f) @ drop (Suc i) (pf_pending_nonces f)\<rparr>"
    have "release_loop True i ?f (sent @ [m]) = (r, sent', f')" using Suc.prems(1) Some by (simp add: Let_def)
    note ih_run = Suc.IH [OF this]
    have "keyed ?f" using Suc.prems(2) by (auto simp: keyed_def)
    note ih_keyed = ih_run [OF this]
    have "unpaid_from i ?f" using Suc.prems(3,4) by (auto simp: unpaid_from_def)
    note ih_unpaid = ih_keyed [OF this]
    have "i \<le> length (pf_pending_nonces ?f)" using Suc.prems(4) by simp
    from ih_unpaid [OF this] obtain new where ih: "r = Inr ()" "keyed f'" "unpaid_from 0 f'" "sent' = (sent @ [m]) @ new"
      "mset (pf_pending_nonces ?f) = mset (pf_pending_nonces f') + mset (map (\<lambda>m. gm_nonce_le (mi_message m)) new)"
      "\<forall>m' \<in> set new. pf_pending_messages ?f (gm_nonce_le (mi_message m')) = Some m'"
      "\<forall>k. pf_pending_messages f' k = (if k \<in> (\<lambda>m. gm_nonce_le (mi_message m)) ` set new then None else pf_pending_messages ?f k)"
      by blast
    have "mset (pf_pending_nonces f) = add_mset ?n (mset (pf_pending_nonces ?f))"
      by (subst nonces) simp
    with ih key Some show ?thesis
      by (intro conjI exI [of _ "m # new"]) (auto split: if_splits)
  qed
qed

lemma filter_step_releases_paid:
  assumes "filter_step True f inp = Ret (r, sent, f')" and "keyed f" and "unpaid_from 0 f"
  shows "r = Inr () \<and> keyed f' \<and> unpaid_from 0 f'
    \<and> (\<forall>m \<in> set sent. gm_nonce_le (mi_message m) \<in> set (pf_pending_nonces f) \<or> inp = FilterPaid (gm_nonce_le (mi_message m)))"
proof -
  from assms(1) obtain f1 where f1: "filter_accept f inp = Ret f1"
    "release_loop True (length (pf_pending_nonces f1)) f1 [] = (r, sent, f')"
    by (auto simp: filter_step_def exec_bind_Ret_iff)
  have "keyed f1" using f1(1) assms(2)
    by (cases inp) (auto simp: filter_accept_def keyed_def Let_def split: if_splits)
  then obtain new where spec: "r = Inr ()" "keyed f'" "unpaid_from 0 f'" "sent = new"
    "mset (pf_pending_nonces f1) = mset (pf_pending_nonces f') + mset (map (\<lambda>m. gm_nonce_le (mi_message m)) new)"
    using release_loop_spec [OF f1(2)] by (auto simp: unpaid_from_def)
  have "gm_nonce_le (mi_message m) \<in> set (pf_pending_nonces f1)" if "m \<in> set sent" for m
    using that spec(4) arg_cong [OF spec(5), of set_mset] by auto
  moreover have "set (pf_pending_nonces f1) \<subseteq> set (pf_pending_nonces f) \<union> {n. inp = FilterPaid n}"
    using f1(1) by (cases inp) (auto simp: filter_accept_def Let_def split: if_splits)
  ultimately show ?thesis using spec by auto
qed

end
