(* ===== verification/Rust_BTree.thy ===== *)
theory Rust_BTree
  imports Bridge_Prelude
begin

text \<open>
  \<open>BTreeMap\<close> of Rust's standard library as the list of its entries in ascending order of the keys:
  insertion, lookup (\<open>map_of\<close>) and the last entry. Two maps that answer every lookup alike are the
  same list, so that the order of insertions does not matter.
\<close>

type_synonym ('k, 'v) btree = "('k \<times> 'v) list"

fun bt_insert :: "'k::linorder \<Rightarrow> 'v \<Rightarrow> ('k, 'v) btree \<Rightarrow> ('k, 'v) btree" where
  "bt_insert k v [] = [(k, v)]"
| "bt_insert k v ((k', v') # m) =
     (if k < k' then (k, v) # (k', v') # m
      else if k = k' then (k, v) # m
      else (k', v') # bt_insert k v m)"

definition bt_ok :: "('k::linorder, 'v) btree \<Rightarrow> bool" where
  "bt_ok m = sorted_wrt (<) (map fst m)"

lemma bt_ok_simps [simp]:
  "bt_ok []" "bt_ok ((k, v) # m) \<longleftrightarrow> (\<forall>k' \<in> fst ` set m. k < k') \<and> bt_ok m"
  by (auto simp: bt_ok_def)

lemma map_of_bt_insert [simp]: "map_of (bt_insert k v m) = (map_of m)(k \<mapsto> v)"
  by (induction m) auto

lemma keys_bt_insert [simp]: "fst ` set (bt_insert k v m) = insert k (fst ` set m)"
  by (induction k v m rule: bt_insert.induct) (auto simp del: image_iff simp: insert_commute)

lemma set_bt_insert: "set (bt_insert k v m) \<subseteq> insert (k, v) (set m)"
  by (induction k v m rule: bt_insert.induct) auto

lemma bt_ok_insert [simp]: "bt_ok m \<Longrightarrow> bt_ok (bt_insert k v m)"
  by (induction k v m rule: bt_insert.induct) (auto simp del: ball_simps image_iff intro: order.strict_trans)

lemma bt_insert_last: "\<forall>k' \<in> fst ` set m. k' < k \<Longrightarrow> bt_insert k v m = m @ [(k, v)]"
  by (induction m) auto

lemma bt_insert_nonempty [simp]: "bt_insert k v m \<noteq> []"
  by (induction k v m rule: bt_insert.induct) auto

lemma bt_ok_append: "bt_ok (m @ [(k, v)]) \<longleftrightarrow> bt_ok m \<and> (\<forall>k' \<in> fst ` set m. k' < k)"
  by (auto simp: bt_ok_def sorted_wrt_append)

lemma bt_ok_distinct: "bt_ok m \<Longrightarrow> distinct (map fst m)"
  unfolding bt_ok_def by (simp add: strict_sorted_iff)

lemma bt_last_Max: "bt_ok m \<Longrightarrow> last_opt m = Some (k, v) \<Longrightarrow> k' \<in> fst ` set m \<Longrightarrow> k' \<le> k"
  by (cases m rule: rev_cases) (auto simp: bt_ok_append less_imp_le)

lemma bt_ext:
  assumes "bt_ok m" and "bt_ok m'" and "map_of m = map_of m'"
  shows "m = m'"
proof -
  have keys: "map fst m = map fst m'"
    using assms by (intro strict_sorted_equal) (auto simp: bt_ok_def dom_map_of_conv_image_fst [symmetric])
  have "m = map (\<lambda>k. (k, the (map_of m k))) (map fst m)" if "bt_ok m" for m :: "('a, 'b) btree"
    using bt_ok_distinct [OF that] by (auto simp: map_of_eq_Some_iff intro!: map_idI [symmetric] nth_equalityI)
  from this [OF assms(1)] this [OF assms(2)] keys assms(3) show ?thesis by metis
qed

end
