(* ===== verification/Proof_Storage.thy ===== *)
theory Proof_Storage
  imports Rust_BTree
begin

text \<open>
  The storage of proofs of authority set changes (\<open>relayer/src/proof_storage\<close>): the operations of the
  trait \<open>ProofStorage\<close>, an abstract log of proofs with consecutive authority set ids as their
  specification, the locale \<open>proof_storage\<close> that says when an implementation simulates the log, and
  the implementation in memory.
\<close>

section \<open>The trait\<close>

record proof_with_circuit_data =
  pw_proof :: bytes
  pw_circuit_data :: bytes

datatype proof_storage_error =
    AlreadyInitialized
  | NotInitialized
  | NotFound u64
  | AuthoritySetIdMismatch
  | InnerError string

text \<open>
  The methods as functions on the state of the storage. The methods on \<open>&self\<close> return the state
  too, since one implementation keeps a cache behind a \<open>RefCell\<close>.
\<close>

record 's storage_ops =
  so_init :: "'s \<Rightarrow> proof_with_circuit_data \<Rightarrow> u64 \<Rightarrow> ((proof_storage_error + unit) \<times> 's) exec"
  so_get_circuit_data :: "'s \<Rightarrow> ((proof_storage_error + bytes) \<times> 's) exec"
  so_get_latest_authority_set_id :: "'s \<Rightarrow> u64 option"
  so_get_proof_for_authority_set_id ::
    "'s \<Rightarrow> u64 \<Rightarrow> ((proof_storage_error + proof_with_circuit_data) \<times> 's) exec"
  so_update :: "'s \<Rightarrow> bytes \<Rightarrow> u64 \<Rightarrow> ((proof_storage_error + unit) \<times> 's) exec"

section \<open>In memory\<close>

record in_memory =
  im_proofs :: "(u64, bytes) btree"
  im_circuit_data :: "bytes option"

definition im_default :: in_memory where
  "im_default = \<lparr>im_proofs = [], im_circuit_data = None\<rparr>"

definition im_init ::
  "in_memory \<Rightarrow> proof_with_circuit_data \<Rightarrow> u64 \<Rightarrow> ((proof_storage_error + unit) \<times> in_memory) exec" where
  "im_init s pw genesis_validator_set_id =
     (if im_proofs s \<noteq> [] then Ret (Inl AlreadyInitialized, s)
      else Ret (Inr (), s\<lparr>im_circuit_data := Some (pw_circuit_data pw),
             im_proofs := bt_insert (genesis_validator_set_id + 1) (pw_proof pw) (im_proofs s)\<rparr>))"

definition im_get_circuit_data :: "in_memory \<Rightarrow> proof_storage_error + bytes" where
  "im_get_circuit_data s = ok_or (im_circuit_data s) NotInitialized"

definition im_get_latest_authority_set_id :: "in_memory \<Rightarrow> u64 option" where
  "im_get_latest_authority_set_id s = map_option fst (last_opt (im_proofs s))"

definition im_get_proof_for_authority_set_id ::
  "in_memory \<Rightarrow> u64 \<Rightarrow> proof_storage_error + proof_with_circuit_data" where
  "im_get_proof_for_authority_set_id s authority_set_id =
     res_bind (im_get_circuit_data s) (\<lambda>circuit_data.
     res_bind (ok_or (map_of (im_proofs s) authority_set_id) (NotFound authority_set_id)) (\<lambda>proof.
     Inr \<lparr>pw_proof = proof, pw_circuit_data = circuit_data\<rparr>))"

definition im_update :: "in_memory \<Rightarrow> bytes \<Rightarrow> u64 \<Rightarrow> ((proof_storage_error + unit) \<times> in_memory) exec" where
  "im_update s proof new_authority_set_id =
     (case last_opt (im_proofs s) of
        None \<Rightarrow> Panic ''Proof storage not initialized''
      | Some (authority_set_id, _) \<Rightarrow>
          if new_authority_set_id \<noteq> authority_set_id + 1 then Ret (Inl AuthoritySetIdMismatch, s)
          else if map_of (im_proofs s) (authority_set_id + 1) \<noteq> None
          then Panic ''Proof for validator set id already present''
          else Ret (Inr (), s\<lparr>im_proofs := bt_insert (authority_set_id + 1) proof (im_proofs s)\<rparr>))"

definition im_ops :: "in_memory storage_ops" where
  "im_ops = \<lparr>so_init = im_init, so_get_circuit_data = \<lambda>s. Ret (im_get_circuit_data s, s),
     so_get_latest_authority_set_id = im_get_latest_authority_set_id,
     so_get_proof_for_authority_set_id = \<lambda>s id. Ret (im_get_proof_for_authority_set_id s id, s),
     so_update = im_update\<rparr>"

section \<open>Specification: a log of proofs\<close>

text \<open>
  The log holds the proofs of the consecutive sets \<open>pl_first\<close>, \<open>pl_first + 1\<close>, ...; \<open>None\<close> is a storage
  that is not initialized.
\<close>

record proof_log =
  pl_circuit_data :: bytes
  pl_first :: u64
  pl_proofs :: "bytes list"

definition log_ok :: "proof_log \<Rightarrow> bool" where
  "log_ok l \<longleftrightarrow> pl_proofs l \<noteq> [] \<and> unat (pl_first l) + length (pl_proofs l) \<le> 2 ^ 64"

definition log_last :: "proof_log \<Rightarrow> u64" where
  "log_last l = pl_first l + of_nat (length (pl_proofs l) - 1)"

definition log_new :: "proof_with_circuit_data \<Rightarrow> u64 \<Rightarrow> proof_log" where
  "log_new pw genesis = \<lparr>pl_circuit_data = pw_circuit_data pw, pl_first = genesis + 1, pl_proofs = [pw_proof pw]\<rparr>"

definition log_append :: "bytes \<Rightarrow> proof_log \<Rightarrow> proof_log" where
  "log_append p l = l\<lparr>pl_proofs := pl_proofs l @ [p]\<rparr>"

definition log_lookup :: "proof_log \<Rightarrow> u64 \<Rightarrow> bytes option" where
  "log_lookup l set_id =
     (if pl_first l \<le> set_id then nth_opt (pl_proofs l) (unat set_id - unat (pl_first l)) else None)"

definition log_get :: "proof_log \<Rightarrow> u64 \<Rightarrow> proof_storage_error + proof_with_circuit_data" where
  "log_get l set_id = (case log_lookup l set_id of
     None \<Rightarrow> Inl (NotFound set_id)
   | Some p \<Rightarrow> Inr \<lparr>pw_proof = p, pw_circuit_data = pl_circuit_data l\<rparr>)"

text \<open>Calls of a storage with their answers, on a concrete storage and on the log.\<close>

datatype storage_call =
    Init proof_with_circuit_data u64
  | GetCircuitData
  | GetLatest
  | GetProof u64
  | Update bytes u64

datatype storage_answer =
    Done "proof_storage_error + unit"
  | CircuitDataIs "proof_storage_error + bytes"
  | LatestIs "u64 option"
  | ProofIs "proof_storage_error + proof_with_circuit_data"

definition reply :: "('a \<Rightarrow> storage_answer) \<Rightarrow> ('a \<times> 's) exec \<Rightarrow> (storage_answer \<times> 's) exec" where
  "reply f e = exec_bind e (\<lambda>(a, s). Ret (f a, s))"

lemma reply_simps [simp]: "reply f (Ret (a, s)) = Ret (f a, s)" "reply f (Panic m) = Panic m"
  by (simp_all add: reply_def)

primrec storage_step :: "'s storage_ops \<Rightarrow> 's \<Rightarrow> storage_call \<Rightarrow> (storage_answer \<times> 's) exec" where
  "storage_step ops s (Init pw genesis) = reply Done (so_init ops s pw genesis)"
| "storage_step ops s GetCircuitData = reply CircuitDataIs (so_get_circuit_data ops s)"
| "storage_step ops s GetLatest = Ret (LatestIs (so_get_latest_authority_set_id ops s), s)"
| "storage_step ops s (GetProof set_id) = reply ProofIs (so_get_proof_for_authority_set_id ops s set_id)"
| "storage_step ops s (Update p set_id) = reply Done (so_update ops s p set_id)"

fun log_step :: "proof_log option \<Rightarrow> storage_call \<Rightarrow> (storage_answer \<times> proof_log option) exec" where
  "log_step None (Init pw genesis) = Ret (Done (Inr ()), Some (log_new pw genesis))"
| "log_step None GetCircuitData = Ret (CircuitDataIs (Inl NotInitialized), None)"
| "log_step None GetLatest = Ret (LatestIs None, None)"
| "log_step None (GetProof set_id) = Ret (ProofIs (Inl NotInitialized), None)"
| "log_step None (Update p set_id) = Panic ''Proof storage not initialized''"
| "log_step (Some l) (Init pw genesis) = Ret (Done (Inl AlreadyInitialized), Some l)"
| "log_step (Some l) GetCircuitData = Ret (CircuitDataIs (Inr (pl_circuit_data l)), Some l)"
| "log_step (Some l) GetLatest = Ret (LatestIs (Some (log_last l)), Some l)"
| "log_step (Some l) (GetProof set_id) = Ret (ProofIs (log_get l set_id), Some l)"
| "log_step (Some l) (Update p set_id) =
     (if set_id = log_last l + 1 then Ret (Done (Inr ()), Some (log_append p l))
      else Ret (Done (Inl AuthoritySetIdMismatch), Some l))"

fun run_calls :: "('s \<Rightarrow> 'c \<Rightarrow> (storage_answer \<times> 's) exec) \<Rightarrow> 's \<Rightarrow> 'c list
    \<Rightarrow> (storage_answer list \<times> 's) exec" where
  "run_calls step s [] = Ret ([], s)"
| "run_calls step s (c # cs) =
     exec_bind (step s c) (\<lambda>(a, s'). exec_bind (run_calls step s' cs) (\<lambda>(as, s''). Ret (a # as, s'')))"

text \<open>A call fits when it does not ask to store a proof under the id 0, which follows the largest id.\<close>

definition call_fits :: "storage_call \<Rightarrow> bool" where
  "call_fits c = (case c of Update p set_id \<Rightarrow> set_id \<noteq> 0 | _ \<Rightarrow> True)"

text \<open>Two executions agree when both panic with one message or both return related values.\<close>

definition exec_rel :: "('a \<Rightarrow> 'b \<Rightarrow> bool) \<Rightarrow> 'a exec \<Rightarrow> 'b exec \<Rightarrow> bool" where
  "exec_rel r e e' = (case (e, e') of
     (Panic m, Panic m') \<Rightarrow> m = m'
   | (Ret a, Ret b) \<Rightarrow> r a b
   | _ \<Rightarrow> False)"

lemma exec_rel_simps [simp]:
  "exec_rel r (Ret a) (Ret b) \<longleftrightarrow> r a b" "exec_rel r (Panic m) (Panic m') \<longleftrightarrow> m = m'"
  "\<not> exec_rel r (Ret a) (Panic m)" "\<not> exec_rel r (Panic m) (Ret b)"
  by (simp_all add: exec_rel_def)

lemma exec_rel_cases:
  assumes "exec_rel r e e'"
  obtains (panic) m where "e = Panic m" "e' = Panic m" | (ret) a b where "e = Ret a" "e' = Ret b" "r a b"
  using assms by (cases e; cases e') auto

lemma exec_rel_mono: "exec_rel r e e' \<Longrightarrow> (\<And>a b. r a b \<Longrightarrow> r' a b) \<Longrightarrow> exec_rel r' e e'"
  by (erule exec_rel_cases) auto

definition same_answer :: "('s \<Rightarrow> 't \<Rightarrow> bool) \<Rightarrow> 'a \<times> 's \<Rightarrow> 'a \<times> 't \<Rightarrow> bool" where
  "same_answer rel p q \<longleftrightarrow> fst p = fst q \<and> rel (snd p) (snd q)"

lemma same_answer_simps [simp]: "same_answer rel (a, s) (b, t) \<longleftrightarrow> a = b \<and> rel s t"
  by (simp add: same_answer_def)

lemma run_calls_simulate:
  assumes "rel s a" and "\<And>s a c. rel s a \<Longrightarrow> c \<in> set cs \<Longrightarrow> exec_rel (same_answer rel) (step s c) (step' a c)"
  shows "exec_rel (same_answer rel) (run_calls step s cs) (run_calls step' a cs)"
  using assms
proof (induction cs arbitrary: s a)
  case (Cons c cs)
  from Cons.prems(2) [OF Cons.prems(1), of c]
  have "exec_rel (same_answer rel) (step s c) (step' a c)" by simp
  then show ?case
  proof (cases rule: exec_rel_cases)
    case (panic m)
    then show ?thesis by simp
  next
    case (ret p q)
    then obtain ans s' a' where eqs: "p = (ans, s')" "q = (ans, a')" and "rel s' a'"
      by (cases p; cases q) auto
    from Cons.IH [OF \<open>rel s' a'\<close>] Cons.prems(2)
    have "exec_rel (same_answer rel) (run_calls step s' cs) (run_calls step' a' cs)" by simp
    then show ?thesis using ret eqs by (cases rule: exec_rel_cases) (auto simp: same_answer_def split: prod.splits)
  qed
qed simp

text \<open>The interface: an implementation simulates the log.\<close>

locale proof_storage =
  fixes ops :: "'s storage_ops" and rel :: "'s \<Rightarrow> proof_log option \<Rightarrow> bool"
  assumes step: "rel s a \<Longrightarrow> call_fits c \<Longrightarrow> exec_rel (same_answer rel) (storage_step ops s c) (log_step a c)"
    and rel_ok: "rel s (Some l) \<Longrightarrow> log_ok l"
begin

lemma run_refines:
  "rel s a \<Longrightarrow> \<forall>c \<in> set cs. call_fits c \<Longrightarrow>
     exec_rel (same_answer rel) (run_calls (storage_step ops) s cs) (run_calls log_step a cs)"
  by (rule run_calls_simulate) (use step in auto)

lemma get_proof:
  assumes "rel s (Some l)"
  obtains s' where "so_get_proof_for_authority_set_id ops s set_id = Ret (log_get l set_id, s')" "rel s' (Some l)"
  using step [OF assms, of "GetProof set_id"]
  by (cases "so_get_proof_for_authority_set_id ops s set_id") (auto simp: call_fits_def)

lemma get_latest: "rel s a \<Longrightarrow> so_get_latest_authority_set_id ops s = map_option log_last a"
  using step [of s a GetLatest] by (cases a) (auto simp: call_fits_def)

lemma init_log:
  assumes "rel s None"
  obtains s' where "so_init ops s pw genesis = Ret (Inr (), s')" "rel s' (Some (log_new pw genesis))"
  using step [OF assms, of "Init pw genesis"] by (cases "so_init ops s pw genesis") (auto simp: call_fits_def)

lemma update_log:
  assumes "rel s (Some l)" and "log_last l + 1 \<noteq> 0"
  obtains s' where "so_update ops s p (log_last l + 1) = Ret (Inr (), s')" "rel s' (Some (log_append p l))"
  using step [OF assms(1), of "Update p (log_last l + 1)"] assms(2)
  by (cases "so_update ops s p (log_last l + 1)") (auto simp: call_fits_def)

end

section \<open>Consecutive keys\<close>

fun numbered :: "u64 \<Rightarrow> 'a list \<Rightarrow> (u64, 'a) btree" where
  "numbered first [] = []"
| "numbered first (p # ps) = (first, p) # numbered (first + 1) ps"

lemma numbered_snoc: "numbered first (ps @ [p]) = numbered first ps @ [(first + of_nat (length ps), p)]"
  by (induction ps arbitrary: first) (auto simp: ac_simps)

lemma numbered_empty [simp]: "numbered first ps = [] \<longleftrightarrow> ps = []"
  by (cases ps) auto

lemma unat_offset: "unat (first :: u64) + n < 2 ^ 64 \<Longrightarrow> unat (first + of_nat n) = unat first + n"
  by (simp add: unat_word_ariths take_bit_nat_eq_self unat_of_nat)

lemma in_numbered:
  assumes "unat first + length ps \<le> 2 ^ 64"
  shows "(k, p) \<in> set (numbered first ps) \<longleftrightarrow>
    first \<le> k \<and> unat k - unat first < length ps \<and> p = ps ! (unat k - unat first)"
  using assms
proof (induction ps rule: rev_induct)
  case (snoc q ps)
  let ?k = "first + of_nat (length ps)"
  have off: "unat ?k = unat first + length ps" using snoc.prems by (intro unat_offset) simp
  have "(k, p) \<in> set (numbered first (ps @ [q])) \<longleftrightarrow> (k, p) \<in> set (numbered first ps) \<or> (k, p) = (?k, q)"
    by (simp add: numbered_snoc) blast
  also have "\<dots> \<longleftrightarrow> first \<le> k \<and> unat k - unat first < length ps + 1 \<and> p = (ps @ [q]) ! (unat k - unat first)"
  proof (cases "k = ?k")
    case True
    with snoc off show ?thesis by (simp add: word_le_nat_alt)
  next
    case False
    then have "\<not> (first \<le> k \<and> unat k - unat first = length ps)"
      using off by (metis le_add_diff_inverse word_le_nat_alt word_unat_eq_iff)
    with snoc False show ?thesis by (auto simp: nth_append less_Suc_eq)
  qed
  finally show ?case by simp
qed simp

lemma numbered_ok: "unat first + length ps \<le> 2 ^ 64 \<Longrightarrow> bt_ok (numbered first ps)"
proof (induction ps rule: rev_induct)
  case (snoc p ps)
  then have "\<forall>k \<in> fst ` set (numbered first ps). k < first + of_nat (length ps)"
    by (auto simp: in_numbered word_less_nat_alt unat_offset word_le_nat_alt)
  with snoc show ?case by (simp add: numbered_snoc bt_ok_append)
qed simp

lemma map_of_numbered:
  assumes "unat first + length ps \<le> 2 ^ 64"
  shows "map_of (numbered first ps) k = (if first \<le> k then nth_opt ps (unat k - unat first) else None)"
  using in_numbered [OF assms, of k] bt_ok_distinct [OF numbered_ok [OF assms]]
  by (cases "map_of (numbered first ps) k")
    (auto simp: nth_opt_def map_of_eq_None_iff image_iff dest!: map_of_SomeD)

lemma numbered_insert:
  assumes "unat first + length ps < 2 ^ 64"
  shows "bt_insert (first + of_nat (length ps)) p (numbered first ps) = numbered first (ps @ [p])"
    and "map_of (numbered first ps) (first + of_nat (length ps)) = None"
proof -
  have "bt_ok (numbered first (ps @ [p]))" using assms by (intro numbered_ok) simp
  then have "\<forall>k \<in> fst ` set (numbered first ps). k < first + of_nat (length ps)"
    unfolding numbered_snoc bt_ok_append by simp
  then show "bt_insert (first + of_nat (length ps)) p (numbered first ps) = numbered first (ps @ [p])"
    and "map_of (numbered first ps) (first + of_nat (length ps)) = None"
    by (auto simp: bt_insert_last numbered_snoc map_of_eq_None_iff)
qed

section \<open>The storage in memory simulates the log\<close>

definition im_rel :: "in_memory \<Rightarrow> proof_log option \<Rightarrow> bool" where
  "im_rel s a = (case a of
     None \<Rightarrow> s = im_default
   | Some l \<Rightarrow> log_ok l \<and>
       s = \<lparr>im_proofs = numbered (pl_first l) (pl_proofs l), im_circuit_data = Some (pl_circuit_data l)\<rparr>)"

lemma log_last_entry:
  "log_ok l \<Longrightarrow> last_opt (numbered (pl_first l) (pl_proofs l)) = Some (log_last l, last (pl_proofs l))"
  by (cases "pl_proofs l" rule: rev_cases) (auto simp: log_ok_def numbered_snoc log_last_def)

lemma log_lookup_numbered: "log_ok l \<Longrightarrow> map_of (numbered (pl_first l) (pl_proofs l)) k = log_lookup l k"
  by (simp add: map_of_numbered log_lookup_def log_ok_def)

lemma log_ok_new: "log_ok (log_new pw genesis)"
  using unsigned_less [of "genesis + 1", where ?'a = nat] by (simp add: log_ok_def log_new_def Suc_le_eq)

lemma log_append_ok:
  assumes "log_ok l" and "log_last l + 1 \<noteq> 0"
  shows "log_ok (log_append p l)"
    and "bt_insert (log_last l + 1) p (numbered (pl_first l) (pl_proofs l))
      = numbered (pl_first l) (pl_proofs l @ [p])"
    and "map_of (numbered (pl_first l) (pl_proofs l)) (log_last l + 1) = None"
proof -
  let ?n = "length (pl_proofs l)"
  have n: "0 < ?n" "unat (pl_first l) + ?n \<le> 2 ^ 64" using assms(1) by (auto simp: log_ok_def)
  then have last: "unat (log_last l) = unat (pl_first l) + ?n - 1"
    unfolding log_last_def by (subst unat_offset) linarith+
  have next_nz: "unat (log_last l + 1) = Suc (unat (log_last l))"
    using assms(2) by (metis add.commute unatSuc)
  then have fits: "unat (pl_first l) + ?n < 2 ^ 64"
    using last n unsigned_less [of "log_last l + 1", where ?'a = nat] by simp
  then show "log_ok (log_append p l)" by (simp add: log_ok_def log_append_def)
  have id: "log_last l + 1 = pl_first l + of_nat ?n"
    using next_nz last n(1) fits by (simp add: word_unat_eq_iff unat_offset)
  show "bt_insert (log_last l + 1) p (numbered (pl_first l) (pl_proofs l))
      = numbered (pl_first l) (pl_proofs l @ [p])"
    and "map_of (numbered (pl_first l) (pl_proofs l)) (log_last l + 1) = None"
    unfolding id by (rule numbered_insert [OF fits])+
qed

lemma im_update_log:
  assumes "im_rel s (Some l)" and "set_id \<noteq> 0"
  shows "im_update s p set_id =
    (if set_id = log_last l + 1
     then Ret (Inr (), s\<lparr>im_proofs := numbered (pl_first l) (pl_proofs l @ [p])\<rparr>)
     else Ret (Inl AuthoritySetIdMismatch, s))"
  using assms by (auto simp: im_rel_def im_update_def log_last_entry log_append_ok)

interpretation im: proof_storage im_ops im_rel
proof
  fix s a c
  assume rel: "im_rel s a" and fits: "call_fits c"
  show "exec_rel (same_answer im_rel) (storage_step im_ops s c) (log_step a c)"
  proof (cases a)
    case None
    with rel show ?thesis
      by (cases c) (auto simp: im_rel_def im_default_def im_ops_def im_init_def im_get_circuit_data_def
          im_get_latest_authority_set_id_def im_get_proof_for_authority_set_id_def im_update_def
          log_ok_new, simp_all add: log_new_def)
  next
    case (Some l)
    with rel have ok: "log_ok l" and s: "s = \<lparr>im_proofs = numbered (pl_first l) (pl_proofs l), im_circuit_data = Some (pl_circuit_data l)\<rparr>"
      by (auto simp: im_rel_def)
    show ?thesis
    proof (cases c)
      case (Update p set_id)
      with fits have "set_id \<noteq> 0" by (simp add: call_fits_def)
      with im_update_log [of s l] rel Some show ?thesis
        by (auto simp: Update im_ops_def s im_rel_def log_append_ok) (simp_all add: log_append_def)
    qed (use Some rel ok in \<open>auto simp: s im_ops_def im_init_def im_get_circuit_data_def log_last_entry
        im_get_latest_authority_set_id_def im_get_proof_for_authority_set_id_def log_get_def
        log_lookup_numbered ok_or_def log_ok_def split: option.splits\<close>)
  qed
qed (simp add: im_rel_def)

end
