(* ===== verification/Proof_Program.thy ===== *)
theory Proof_Program
  imports Proof_Storage
begin

text \<open>
  The proof storage on the Gear network: the program that keeps the latest proof and the block of
  every proof (\<open>gear-programs/proof-storage/src/wasm.rs\<close>), and the client in the relayer
  (\<open>relayer/src/proof_storage/gear.rs\<close>) that finds an older proof by reading the state of the program at
  the block in which it was stored.
\<close>

section \<open>The program\<close>

record stored_proof =
  sp_circuit_data :: bytes
  sp_proof :: bytes
  sp_authority_set_id :: u64

record program_state =
  st_latest_proof :: stored_proof
  st_proof_blocks :: "(u64, u32) btree"

datatype program_error = AuthoritySetIdNotSequential | ManyProofsSubmittedInSameBlock

record handle_message =
  hm_proof :: bytes
  hm_authority_set_id :: u64

record proof_program =
  pp_admin_address :: actor_id
  pp_state :: "program_state option"

definition program_init :: "actor_id \<Rightarrow> stored_proof \<Rightarrow> u32 \<Rightarrow> proof_program" where
  "program_init source genesis_proof block =
     \<lparr>pp_admin_address = source,
      pp_state = Some \<lparr>st_latest_proof = genesis_proof,
        st_proof_blocks = bt_insert (sp_authority_set_id genesis_proof) block []\<rparr>\<rparr>"

definition program_handle ::
  "proof_program \<Rightarrow> actor_id \<Rightarrow> handle_message \<Rightarrow> u32 \<Rightarrow> ((program_error + unit) \<times> proof_program) exec" where
  "program_handle p source m block =
     (if source \<noteq> pp_admin_address p then Panic ''Access forbidden''
      else case pp_state p of
        None \<Rightarrow> Panic ''called Option::unwrap() on a None value''
      | Some st \<Rightarrow>
          if hm_authority_set_id m \<noteq> sp_authority_set_id (st_latest_proof st) + 1
          then Ret (Inl AuthoritySetIdNotSequential, p)
          else if (case last_opt (st_proof_blocks st) of Some (_, lst_block) \<Rightarrow> lst_block = block | None \<Rightarrow> False)
          then Ret (Inl ManyProofsSubmittedInSameBlock, p)
          else if map_of (st_proof_blocks st) (hm_authority_set_id m) \<noteq> None
          then Panic ''Due to the check that new authority set id == previous + 1''
          else Ret (Inr (), p\<lparr>pp_state := Some
            \<lparr>st_latest_proof = (st_latest_proof st)\<lparr>sp_proof := hm_proof m, sp_authority_set_id := hm_authority_set_id m\<rparr>,
             st_proof_blocks = bt_insert (hm_authority_set_id m) block (st_proof_blocks st)\<rparr>\<rparr>))"

definition program_read_state :: "proof_program \<Rightarrow> program_state exec" where
  "program_read_state p = (case pp_state p of None \<Rightarrow> Panic ''State is not set'' | Some st \<Rightarrow> Ret st)"

section \<open>The client\<close>

text \<open>
  The client keeps a cache; what it sends goes into a channel. The network is a parameter: the free
  balance of the fee payer, the outcome of each attempt to upload the program, the state of a
  program at a block (or at the latest one) and the hash of a block.
\<close>

record gear_storage =
  gs_program :: "actor_id option"
  gs_circuit_data :: "bytes option"
  gs_proofs :: "(u64, bytes) btree"
  gs_channel :: "(handle_message \<times> actor_id) list"

record gear_network =
  gn_free_balance :: "string + u128"
  gn_upload_program :: "stored_proof \<Rightarrow> nat \<Rightarrow> string + actor_id option"
  gn_read_state_at :: "actor_id \<Rightarrow> h256 option \<Rightarrow> string + program_state"
  gn_get_block_hash :: "u32 \<Rightarrow> string + h256"

definition inner_error :: "string + 'a \<Rightarrow> proof_storage_error + 'a" where
  "inner_error r = (case r of Inl e \<Rightarrow> Inl (InnerError e) | Inr a \<Rightarrow> Inr a)"

definition read_program_state ::
  "gear_network \<Rightarrow> gear_storage \<Rightarrow> h256 option \<Rightarrow> proof_storage_error + program_state" where
  "read_program_state net s at_block =
     (case gs_program s of
        None \<Rightarrow> Inl NotInitialized
      | Some program \<Rightarrow> inner_error (gn_read_state_at net program at_block))"

text \<open>The loop over the attempts to upload; the last argument counts the attempts left.\<close>

fun upload_loop :: "gear_network \<Rightarrow> stored_proof \<Rightarrow> gear_storage \<Rightarrow> nat \<Rightarrow> nat \<Rightarrow> gear_storage" where
  "upload_loop net payload s attempt 0 = s"
| "upload_loop net payload s attempt (Suc left) =
     (case gn_upload_program net payload attempt of
        Inr (Some program) \<Rightarrow> s\<lparr>gs_program := Some program\<rparr>
      | _ \<Rightarrow> upload_loop net payload s (Suc attempt) left)"

definition UPLOAD_PROGRAM_RETRIES :: nat where
  "UPLOAD_PROGRAM_RETRIES = 16"

definition gs_init ::
  "gear_network \<Rightarrow> gear_storage \<Rightarrow> proof_with_circuit_data \<Rightarrow> u64 \<Rightarrow> ((proof_storage_error + unit) \<times> gear_storage) exec" where
  "gs_init net s pw genesis_validator_set_id =
     (if gs_program s \<noteq> None then Ret (Inr (), s)
      else Ret (Inr (), upload_loop net \<lparr>sp_circuit_data = pw_circuit_data pw, sp_proof = pw_proof pw,
             sp_authority_set_id = genesis_validator_set_id + 1\<rparr> s 0 UPLOAD_PROGRAM_RETRIES))"

definition gs_get_circuit_data ::
  "gear_network \<Rightarrow> gear_storage \<Rightarrow> (proof_storage_error + bytes) \<times> gear_storage" where
  "gs_get_circuit_data net s =
     (case gs_circuit_data s of
        Some circuit_data \<Rightarrow> (Inr circuit_data, s)
      | None \<Rightarrow> (case read_program_state net s None of
          Inl e \<Rightarrow> (Inl e, s)
        | Inr state \<Rightarrow>
            let circuit_data = sp_circuit_data (st_latest_proof state)
            in (Inr circuit_data, s\<lparr>gs_circuit_data := Some circuit_data\<rparr>)))"

definition gs_get_latest_authority_set_id :: "gear_network \<Rightarrow> gear_storage \<Rightarrow> u64 option" where
  "gs_get_latest_authority_set_id net s =
     (let stored_latest = (case read_program_state net s None of
            Inl _ \<Rightarrow> None | Inr state \<Rightarrow> Some (sp_authority_set_id (st_latest_proof state)));
          cached = map_option fst (last_opt (gs_proofs s))
      in case (stored_latest, cached) of
           (Some stored, Some cached) \<Rightarrow> Some (max stored cached)
         | (Some stored, None) \<Rightarrow> Some stored
         | (None, Some cached) \<Rightarrow> Some cached
         | (None, None) \<Rightarrow> None)"

definition gs_get_proof_for_authority_set_id ::
  "gear_network \<Rightarrow> gear_storage \<Rightarrow> u64 \<Rightarrow>
     ((proof_storage_error + proof_with_circuit_data) \<times> gear_storage) exec" where
  "gs_get_proof_for_authority_set_id net s authority_set_id =
     (case gs_get_circuit_data net s of
        (Inl e, s') \<Rightarrow> Ret (Inl e, s')
      | (Inr circuit_data, s') \<Rightarrow>
         (case map_of (gs_proofs s') authority_set_id of
            Some proof \<Rightarrow> Ret (Inr \<lparr>pw_proof = proof, pw_circuit_data = circuit_data\<rparr>, s')
          | None \<Rightarrow>
             (case read_program_state net s' None of
                Inl e \<Rightarrow> Ret (Inl e, s')
              | Inr state \<Rightarrow>
                 (case map_of (st_proof_blocks state) authority_set_id of
                    None \<Rightarrow> Ret (Inl (NotFound authority_set_id), s')
                  | Some block \<Rightarrow>
                     (case gn_get_block_hash net block of
                        Inl e \<Rightarrow> Ret (Inl (InnerError e), s')
                      | Inr block_hash \<Rightarrow>
                         (case read_program_state net s' (Some block_hash) of
                            Inl e \<Rightarrow> Ret (Inl e, s')
                          | Inr old_state \<Rightarrow>
                              exec_bind (ensure (sp_authority_set_id (st_latest_proof old_state) = authority_set_id)
                                ''assertion failed'') (\<lambda>_.
                              let proof = sp_proof (st_latest_proof old_state)
                              in Ret (Inr \<lparr>pw_proof = proof, pw_circuit_data = circuit_data\<rparr>,
                                   s'\<lparr>gs_proofs := bt_insert authority_set_id proof (gs_proofs s')\<rparr>))))))))"

definition gs_update ::
  "gear_network \<Rightarrow> gear_storage \<Rightarrow> bytes \<Rightarrow> u64 \<Rightarrow> ((proof_storage_error + unit) \<times> gear_storage) exec" where
  "gs_update net s proof new_authority_set_id =
     (case gn_free_balance net of
        Inl e \<Rightarrow> Ret (Inl (InnerError e), s)
      | Inr _ \<Rightarrow>
          let s' = s\<lparr>gs_proofs := bt_insert new_authority_set_id proof (gs_proofs s)\<rparr>
          in case gs_program s' of
               None \<Rightarrow> Ret (Inl NotInitialized, s')
             | Some program \<Rightarrow>
                 Ret (Inr (), s'\<lparr>gs_channel := gs_channel s' @
                   [(\<lparr>hm_proof = proof, hm_authority_set_id = new_authority_set_id\<rparr>, program)]\<rparr>))"

section \<open>Sending the updates\<close>

text \<open>
  The task behind the channel: every message is submitted, then watched until its dispatch shows in
  a finalized block. The network is a parameter again: the outcome of a submission (the message id
  and the number of the block), the latest finalized block and the dispatch statuses of the blocks
  finalized since the last turn.
\<close>

datatype dispatch_status = DispatchSuccess | DispatchFailed | DispatchNotExecuted

type_synonym update_state_message = "handle_message \<times> actor_id"

datatype message_state =
    Pending update_state_message
  | Submitted update_state_message message_id u32
  | Failed update_state_message string

record sender_network =
  sn_submit_message :: "update_state_message \<Rightarrow> string + (message_id \<times> h256)"
  sn_block_number_at :: "h256 \<Rightarrow> string + u32"
  sn_latest_finalized :: "string + u32"
  sn_statuses_at :: "u32 \<Rightarrow> string + (message_id \<times> dispatch_status) list"

definition MESSAGE_RESEND_TIMEOUT :: u32 where
  "MESSAGE_RESEND_TIMEOUT = 100"

definition submit_pass_one :: "sender_network \<Rightarrow> message_state \<Rightarrow> string + message_state" where
  "submit_pass_one net state = (case state of
     Pending message \<Rightarrow>
       (case sn_submit_message net message of
          Inr (msg_id, block) \<Rightarrow>
            (case sn_block_number_at net block of
               Inl e \<Rightarrow> Inl e
             | Inr block \<Rightarrow> Inr (Submitted message msg_id block))
        | Inl err \<Rightarrow> Inr (Failed message err))
   | Failed message error \<Rightarrow> Inr (Pending message)
   | Submitted message msg_id at_block \<Rightarrow> Inr state)"

fun submit_pass :: "sender_network \<Rightarrow> message_state list \<Rightarrow> string + message_state list" where
  "submit_pass net [] = Inr []"
| "submit_pass net (state # states) =
     res_bind (submit_pass_one net state) (\<lambda>state'.
     res_bind (submit_pass net states) (\<lambda>states'. Inr (state' # states')))"

text \<open>The statuses of the blocks \<open>from + 1 ..= to\<close>; a later status of a message id replaces an earlier one.\<close>

fun collect_statuses :: "sender_network \<Rightarrow> u32 list \<Rightarrow> (message_id \<Rightarrow> dispatch_status option) \<Rightarrow>
    string + (message_id \<Rightarrow> dispatch_status option)" where
  "collect_statuses net [] events = Inr events"
| "collect_statuses net (block # blocks) events =
     res_bind (sn_statuses_at net block) (\<lambda>statuses.
     collect_statuses net blocks (foldl (\<lambda>ev (k, st). ev(k \<mapsto> st)) events statuses))"

definition block_range :: "u32 \<Rightarrow> u32 \<Rightarrow> u32 list" where
  "block_range low high = map of_nat [unat low ..< Suc (unat high)]"

definition resolve_one :: "(message_id \<Rightarrow> dispatch_status option) \<Rightarrow> u32 \<Rightarrow> message_state \<Rightarrow> message_state option" where
  "resolve_one events latest_finalized state = (case state of
     Submitted message msg_id at_block \<Rightarrow>
       (case events msg_id of
          Some DispatchSuccess \<Rightarrow> None
        | Some DispatchFailed \<Rightarrow> Some (Pending message)
        | Some DispatchNotExecuted \<Rightarrow> None
        | None \<Rightarrow>
            if at_block + MESSAGE_RESEND_TIMEOUT > latest_finalized then Some (Pending message)
            else Some (Submitted message msg_id at_block))
   | _ \<Rightarrow> Some state)"

definition sender_turn ::
  "sender_network \<Rightarrow> u32 \<Rightarrow> update_state_message list \<Rightarrow> message_state list \<Rightarrow> string + (u32 \<times> message_state list)" where
  "sender_turn net latest_processed received states =
     res_bind (submit_pass net (states @ map Pending received)) (\<lambda>states.
     res_bind (sn_latest_finalized net) (\<lambda>latest_finalized.
     res_bind (collect_statuses net (block_range (latest_processed + 1) latest_finalized) (\<lambda>_. None)) (\<lambda>events.
     Inr (latest_finalized, List.map_filter (resolve_one events latest_finalized) states))))"

text \<open>
  A message whose dispatch is not seen yet is sent again as long as its timeout has not passed, and
  is only watched once it has.
\<close>

lemma unseen_message_resent:
  assumes "events msg_id = None" and "unat at_block + 100 < 2 ^ 32"
  shows "resolve_one events latest_finalized (Submitted message msg_id at_block) = Some (Pending message)
    \<longleftrightarrow> unat latest_finalized < unat at_block + 100"
  using assms by (simp add: resolve_one_def MESSAGE_RESEND_TIMEOUT_def word_less_nat_alt unat_word_ariths)

section \<open>The history of the program\<close>

text \<open>
  The messages that the program receives, each with its block and sender; a panic reverts. The
  state at a block is the one after the messages up to the end of that block.
\<close>

type_synonym program_message = "u32 \<times> actor_id \<times> handle_message"

definition deliver :: "proof_program \<Rightarrow> program_message \<Rightarrow> proof_program" where
  "deliver p d = (case d of (block, source, m) \<Rightarrow> commit p (program_handle p source m block))"

definition program_after :: "proof_program \<Rightarrow> program_message list \<Rightarrow> proof_program" where
  "program_after p ds = foldl deliver p ds"

definition program_at :: "proof_program \<Rightarrow> program_message list \<Rightarrow> u32 \<Rightarrow> proof_program" where
  "program_at p ds block = program_after p (takeWhile (\<lambda>d. fst d \<le> block) ds)"

text \<open>The proofs that the program accepted, as a log that starts with the genesis proof.\<close>

fun accepted :: "proof_program \<Rightarrow> program_message list \<Rightarrow> bytes list" where
  "accepted p [] = []"
| "accepted p ((block, source, m) # ds) =
     (case program_handle p source m block of
        Ret (Inr _, p') \<Rightarrow> hm_proof m # accepted p' ds
      | e \<Rightarrow> accepted (commit p e) ds)"

definition program_log :: "stored_proof \<Rightarrow> proof_program \<Rightarrow> program_message list \<Rightarrow> proof_log" where
  "program_log genesis p ds =
     \<lparr>pl_circuit_data = sp_circuit_data genesis, pl_first = sp_authority_set_id genesis,
      pl_proofs = sp_proof genesis # accepted p ds\<rparr>"

text \<open>
  The history records the log when every stored set id is the latest one at its block, with the
  proof of the log.
\<close>

definition entry :: "proof_log \<Rightarrow> nat \<Rightarrow> stored_proof" where
  "entry l i = \<lparr>sp_circuit_data = pl_circuit_data l, sp_proof = pl_proofs l ! i,
     sp_authority_set_id = pl_first l + of_nat i\<rparr>"

definition history_ok :: "proof_program \<Rightarrow> program_message list \<Rightarrow> u32 \<Rightarrow> proof_log \<Rightarrow> u32 list \<Rightarrow> bool" where
  "history_ok p ds block l blocks \<longleftrightarrow>
     pp_state (program_after p ds) = Some \<lparr>st_latest_proof = entry l (length blocks - 1), st_proof_blocks = numbered (pl_first l) blocks\<rparr>
     \<and> length blocks = length (pl_proofs l) \<and> blocks \<noteq> [] \<and> last blocks \<le> block
     \<and> (\<forall>i < length blocks. blocks ! i \<le> last blocks
         \<and> (\<exists>old. pp_state (program_at p ds (blocks ! i)) = Some old \<and> st_latest_proof old = entry l i))"

lemma takeWhile_snoc: "takeWhile P (xs @ [x]) = (if (\<forall>y \<in> set xs. P y) \<and> P x then xs @ [x] else takeWhile P xs)"
  by (simp add: takeWhile_append takeWhile_eq_all_conv [THEN iffD2])

lemma program_after_snoc [simp]: "program_after p (ds @ [d]) = deliver (program_after p ds) d"
  by (simp add: program_after_def)

lemma program_at_snoc_old:
  "b < fst d \<Longrightarrow> program_at p (ds @ [d]) b = program_at p ds b"
  by (auto simp: program_at_def takeWhile_snoc)

lemma program_at_end: "\<forall>d \<in> set ds. fst d \<le> b \<Longrightarrow> program_at p ds b = program_after p ds"
  by (simp add: program_at_def takeWhile_eq_all_conv [THEN iffD2])

lemma accepted_snoc: "accepted p (ds @ [d]) = accepted p ds @ accepted (program_after p ds) [d]"
  by (induction p ds rule: accepted.induct)
    (auto simp: program_after_def deliver_def split: exec.splits sum.splits prod.splits)

lemma program_handle_cases:
  assumes "pp_state p = Some st"
  obtains (rejected) "deliver p (block, source, m) = p" "accepted p [(block, source, m)] = []"
  | (stored) "hm_authority_set_id m = sp_authority_set_id (st_latest_proof st) + 1"
      "\<forall>k b. last_opt (st_proof_blocks st) = Some (k, b) \<longrightarrow> b \<noteq> block"
      "accepted p [(block, source, m)] = [hm_proof m]"
      "pp_state (deliver p (block, source, m)) = Some
        \<lparr>st_latest_proof = (st_latest_proof st)\<lparr>sp_proof := hm_proof m, sp_authority_set_id := hm_authority_set_id m\<rparr>,
         st_proof_blocks = bt_insert (hm_authority_set_id m) block (st_proof_blocks st)\<rparr>"
proof (cases "source = pp_admin_address p \<and> hm_authority_set_id m = sp_authority_set_id (st_latest_proof st) + 1
    \<and> \<not> (case last_opt (st_proof_blocks st) of Some (_, lst_block) \<Rightarrow> lst_block = block | None \<Rightarrow> False)
    \<and> map_of (st_proof_blocks st) (hm_authority_set_id m) = None")
  case True
  with assms show ?thesis by (intro stored) (auto simp: deliver_def program_handle_def)
next
  case False
  with assms show ?thesis by (intro rejected) (auto simp: deliver_def program_handle_def)
qed

lemma history_step:
  assumes hist: "history_ok p ds block l blocks" and old: "\<forall>d \<in> set ds. fst d \<le> block" and le: "block \<le> b"
    and fits: "unat (pl_first l) + length (pl_proofs l) < 2 ^ 64"
  shows "\<exists>blocks'. history_ok p (ds @ [(b, source, m)]) b
    (l\<lparr>pl_proofs := pl_proofs l @ accepted (program_after p ds) [(b, source, m)]\<rparr>) blocks'"
proof -
  let ?st = "\<lparr>st_latest_proof = entry l (length blocks - 1), st_proof_blocks = numbered (pl_first l) blocks\<rparr>"
  let ?d = "(b, source, m)"
  from hist have st: "pp_state (program_after p ds) = Some ?st" and len: "length blocks = length (pl_proofs l)"
    and ne: "blocks \<noteq> []" and last: "last blocks \<le> block"
    and at: "\<forall>i < length blocks. blocks ! i \<le> last blocks
      \<and> (\<exists>old. pp_state (program_at p ds (blocks ! i)) = Some old \<and> st_latest_proof old = entry l i)"
    by (auto simp: history_ok_def)
  from st show ?thesis
  proof (cases rule: program_handle_cases [where block = b and source = source and m = m])
    case rejected
    have "program_at p (ds @ [?d]) c = program_at p ds c" for c
    proof (cases "b \<le> c")
      case True
      then have "\<forall>d \<in> set (ds @ [?d]). fst d \<le> c" using old le by fastforce
      then show ?thesis using rejected(1) by (simp add: program_at_end)
    qed (simp add: program_at_snoc_old)
    with rejected hist le show ?thesis by (intro exI [of _ blocks]) (auto simp: history_ok_def)
  next
    case stored
    have lb: "last_opt (numbered (pl_first l) blocks) = Some (pl_first l + of_nat (length blocks - 1), last blocks)"
      using ne by (cases blocks rule: rev_cases) (auto simp: numbered_snoc)
    with stored(2) last le have lt: "last blocks < b" by (auto simp: order_less_le)
    have id: "hm_authority_set_id m = pl_first l + of_nat (length blocks)"
      using stored(1) ne by (simp add: entry_def) (cases blocks; simp)
    let ?l = "l\<lparr>pl_proofs := pl_proofs l @ [hm_proof m]\<rparr>" and ?blocks = "blocks @ [b]"
    have new: "pp_state (program_after p (ds @ [?d])) = Some
        \<lparr>st_latest_proof = entry ?l (length blocks), st_proof_blocks = numbered (pl_first l) ?blocks\<rparr>"
      using stored(4) fits numbered_insert(1) [of "pl_first l" blocks b]
      by (simp add: id entry_def nth_append len [symmetric])
    have "?blocks ! i \<le> b \<and> (\<exists>old. pp_state (program_at p (ds @ [?d]) (?blocks ! i)) = Some old \<and> st_latest_proof old = entry ?l i)"
      if "i < length ?blocks" for i
    proof (cases "i < length blocks")
      case True
      then have "blocks ! i < b" using at lt by fastforce
      with True at len show ?thesis by (auto simp: nth_append program_at_snoc_old entry_def)
    next
      case False
      with that have i: "i = length blocks" by simp
      have "\<forall>d \<in> set (ds @ [?d]). fst d \<le> b" using old le by fastforce
      with new show ?thesis by (simp add: i program_at_end)
    qed
    with new len stored(3) show ?thesis by (intro exI [of _ ?blocks]) (simp add: history_ok_def)
  qed
qed

lemma accepted_length: "length (accepted p ds) \<le> length ds"
  by (induction ds arbitrary: p) (auto simp: le_SucI split: exec.splits sum.splits)

lemma history_holds:
  assumes "sorted_wrt (\<le>) (block # map fst ds)" and "unat (sp_authority_set_id genesis) + length ds < 2 ^ 64"
    and "p = program_init admin genesis block"
  shows "\<exists>blocks. history_ok p ds (last (block # map fst ds)) (program_log genesis p ds) blocks"
  using assms(1,2)
proof (induction ds rule: rev_induct)
  case Nil
  show ?case
    by (rule exI [of _ "[block]"])
      (simp add: history_ok_def program_log_def entry_def assms(3) program_init_def program_after_def program_at_def)
next
  case (snoc d ds)
  obtain b source m where d: "d = (b, source, m)" by (cases d)
  let ?block = "last (block # map fst ds)"
  from snoc.prems have sorted: "sorted_wrt (\<le>) (block # map fst ds)" and b: "\<forall>c \<in> set (block # map fst ds). c \<le> b"
    by (auto simp: sorted_wrt_append d)
  from snoc.IH [OF sorted] snoc.prems(2) obtain blocks where
    hist: "history_ok p ds ?block (program_log genesis p ds) blocks" by auto
  have old: "\<forall>d \<in> set ds. fst d \<le> ?block"
    using sorted by (cases ds rule: rev_cases) (auto simp: sorted_wrt_append)
  have "?block \<le> b" using b last_in_set [of "block # map fst ds"] by blast
  moreover have "unat (pl_first (program_log genesis p ds)) + length (pl_proofs (program_log genesis p ds)) < 2 ^ 64"
    using snoc.prems(2) accepted_length [of p ds] by (simp add: program_log_def)
  ultimately obtain blocks' where "history_ok p (ds @ [d]) b
      ((program_log genesis p ds)\<lparr>pl_proofs := pl_proofs (program_log genesis p ds) @ accepted (program_after p ds) [d]\<rparr>) blocks'"
    using history_step [OF hist old] unfolding d by blast
  moreover have "(program_log genesis p ds)\<lparr>pl_proofs := pl_proofs (program_log genesis p ds) @ accepted (program_after p ds) [d]\<rparr>
      = program_log genesis p (ds @ [d])" by (simp add: program_log_def accepted_snoc)
  ultimately show ?case by (auto simp: d)
qed

section \<open>The client finds every accepted proof\<close>

text \<open>
  The network serves the history of the program: the latest state, the hash of every block and the
  state at the end of every block since the program was uploaded.
\<close>

definition serves_history ::
  "gear_network \<Rightarrow> actor_id \<Rightarrow> proof_program \<Rightarrow> program_message list \<Rightarrow> u32 \<Rightarrow> bool" where
  "serves_history net program p ds block \<longleftrightarrow>
     gn_read_state_at net program None = Inr (the (pp_state (program_after p ds)))
     \<and> (\<forall>b. block \<le> b \<longrightarrow> (\<exists>h. gn_get_block_hash net b = Inr h
         \<and> gn_read_state_at net program (Some h) = Inr (the (pp_state (program_at p ds b)))))"

text \<open>What the client caches comes from the log.\<close>

definition cache_ok :: "gear_storage \<Rightarrow> proof_log \<Rightarrow> bool" where
  "cache_ok s l \<longleftrightarrow> (\<forall>c. gs_circuit_data s = Some c \<longrightarrow> c = pl_circuit_data l)
     \<and> (\<forall>k proof. map_of (gs_proofs s) k = Some proof \<longrightarrow> log_lookup l k = Some proof)"

lemma history_lookup:
  assumes "history_ok p ds block l blocks" and "log_ok l"
  shows "map_of (numbered (pl_first l) blocks) k = None \<Longrightarrow> log_lookup l k = None"
    and "map_of (numbered (pl_first l) blocks) k = Some b \<Longrightarrow>
      \<exists>old. pp_state (program_at p ds b) = Some old \<and> sp_authority_set_id (st_latest_proof old) = k
        \<and> log_lookup l k = Some (sp_proof (st_latest_proof old))"
proof -
  from assms have len: "length blocks = length (pl_proofs l)" "unat (pl_first l) + length blocks \<le> 2 ^ 64"
    by (auto simp: history_ok_def log_ok_def)
  note look = map_of_numbered [OF len(2), of k]
  show "map_of (numbered (pl_first l) blocks) k = None \<Longrightarrow> log_lookup l k = None"
    by (simp add: look log_lookup_def nth_opt_def len(1) split: if_splits)
  assume "map_of (numbered (pl_first l) blocks) k = Some b"
  then have k: "pl_first l \<le> k" "unat k - unat (pl_first l) < length blocks" "b = blocks ! (unat k - unat (pl_first l))"
    by (auto simp: look nth_opt_def split: if_splits)
  have "unat (pl_first l) + (unat k - unat (pl_first l)) < 2 ^ 64" using k(2) len(2) by linarith
  then have "pl_first l + of_nat (unat k - unat (pl_first l)) = k"
    using k(1) by (simp add: word_unat_eq_iff unat_offset word_le_nat_alt del: of_nat_diff)
  then show "\<exists>old. pp_state (program_at p ds b) = Some old \<and> sp_authority_set_id (st_latest_proof old) = k
        \<and> log_lookup l k = Some (sp_proof (st_latest_proof old))"
    using assms(1) k len(1) by (auto simp: history_ok_def entry_def log_lookup_def nth_opt_def)
qed

lemma stored_blocks:
  assumes "p = program_init admin genesis block"
  shows "\<exists>st. pp_state (program_after p ds) = Some st \<and> snd ` set (st_proof_blocks st) \<subseteq> set (block # map fst ds)"
proof (induction ds rule: rev_induct)
  case Nil
  show ?case by (simp add: assms program_init_def program_after_def)
next
  case (snoc d ds)
  then obtain st where st: "pp_state (program_after p ds) = Some st"
    and sub: "snd ` set (st_proof_blocks st) \<subseteq> set (block # map fst ds)" by blast
  obtain b source m where d: "d = (b, source, m)" by (cases d)
  from st show ?case
  proof (cases rule: program_handle_cases [where block = b and source = source and m = m])
    case rejected
    with st sub show ?thesis by (auto simp: d)
  next
    case stored
    have "snd ` set (bt_insert (hm_authority_set_id m) b (st_proof_blocks st)) \<subseteq> insert b (snd ` set (st_proof_blocks st))"
      using set_bt_insert [of "hm_authority_set_id m" b "st_proof_blocks st"] by force
    also have "\<dots> \<subseteq> set (block # map fst (ds @ [d]))" using sub by (auto simp: d)
    finally show ?thesis using stored(4) by (simp add: d)
  qed
qed

lemma client_finds_proof:
  assumes "sorted_wrt (\<le>) (block # map fst ds)" and "unat (sp_authority_set_id genesis) + length ds < 2 ^ 64"
    and p: "p = program_init admin genesis block"
    and net: "serves_history net program p ds block" "gs_program s = Some program"
    and cache: "cache_ok s (program_log genesis p ds)"
  shows "\<exists>s'. gs_get_proof_for_authority_set_id net s k = Ret (log_get (program_log genesis p ds) k, s')
    \<and> cache_ok s' (program_log genesis p ds) \<and> gs_program s' = Some program"
proof -
  let ?l = "program_log genesis p ds"
  have ok: "log_ok ?l" using assms(2) accepted_length [of p ds] by (simp add: log_ok_def program_log_def)
  from history_holds [OF assms(1,2) p] obtain blocks where
    hist: "history_ok p ds (last (block # map fst ds)) ?l blocks" by blast
  let ?st = "\<lparr>st_latest_proof = entry ?l (length blocks - 1), st_proof_blocks = numbered (pl_first ?l) blocks\<rparr>"
  have st: "pp_state (program_after p ds) = Some ?st" using hist by (simp add: history_ok_def)
  have read: "read_program_state net s' None = Inr ?st" if "gs_program s' = Some program" for s'
    using net(1) that st by (simp add: read_program_state_def serves_history_def inner_error_def)
  define s1 where "s1 = s\<lparr>gs_circuit_data := Some (pl_circuit_data ?l)\<rparr>"
  have "gs_get_circuit_data net s = (Inr (pl_circuit_data ?l), s1)"
    using cache read [OF net(2)] by (cases "gs_circuit_data s") (auto simp: gs_get_circuit_data_def s1_def cache_ok_def entry_def Let_def)
  moreover have s1: "cache_ok s1 ?l" "gs_program s1 = Some program" "gs_proofs s1 = gs_proofs s"
    using cache net(2) by (auto simp: s1_def cache_ok_def)
  ultimately have circuit: "gs_get_circuit_data net s = (Inr (pl_circuit_data ?l), s1)" by simp
  show ?thesis
  proof (cases "map_of (gs_proofs s1) k")
    case (Some q)
    then have "log_lookup ?l k = Some q" using s1(1) by (simp add: cache_ok_def)
    with Some circuit s1 show ?thesis by (simp add: gs_get_proof_for_authority_set_id_def log_get_def)
  next
    case None
    show ?thesis
    proof (cases "map_of (numbered (pl_first ?l) blocks) k")
      case fresh: None
      with history_lookup(1) [OF hist ok] have "log_lookup ?l k = None" by blast
      with None fresh circuit s1 read show ?thesis by (simp add: gs_get_proof_for_authority_set_id_def log_get_def)
    next
      case (Some b)
      from history_lookup(2) [OF hist ok Some] obtain old where
        old: "pp_state (program_at p ds b) = Some old" "sp_authority_set_id (st_latest_proof old) = k"
          "log_lookup ?l k = Some (sp_proof (st_latest_proof old))" by blast
      have "b \<in> set (block # map fst ds)"
        using stored_blocks [OF p, of ds] map_of_SomeD [OF Some] st by force
      then have "block \<le> b" using assms(1) by auto
      then obtain h where "gn_get_block_hash net b = Inr h" "read_program_state net s1 (Some h) = Inr old"
        using net(1) old(1) s1(2) by (auto simp: serves_history_def read_program_state_def inner_error_def)
      with None Some circuit s1 read old show ?thesis
        by (simp add: gs_get_proof_for_authority_set_id_def log_get_def Let_def) (auto simp: cache_ok_def)
    qed
  qed
qed

text \<open>Property C16. Whatever messages the storage program receives, from whoever and in which blocks, the
  client finds the proof of every accepted authority set by reading the state at the block that the
  program recorded: the assertion on the set id of the old state holds, and the answer is the log of
  the proofs that the program accepted.\<close>

theorem accepted_proofs_are_found:
  assumes "sorted_wrt (\<le>) (block # map fst ds)" and "unat (sp_authority_set_id genesis) + length ds < 2 ^ 64"
    and "serves_history net program (program_init admin genesis block) ds block"
    and "gs_program s = Some program" and "cache_ok s (program_log genesis (program_init admin genesis block) ds)"
  shows "\<exists>s'. gs_get_proof_for_authority_set_id net s k
      = Ret (log_get (program_log genesis (program_init admin genesis block) ds) k, s')"
  using client_finds_proof [OF assms(1,2) refl assms(3-5)] by blast

definition sample_genesis :: stored_proof where
  "sample_genesis = \<lparr>sp_circuit_data = [7], sp_proof = [1], sp_authority_set_id = 5\<rparr>"

definition sample_deliveries :: "program_message list" where
  "sample_deliveries = [(20, 0, \<lparr>hm_proof = [2], hm_authority_set_id = 6\<rparr>), (20, 0, \<lparr>hm_proof = [9], hm_authority_set_id = 7\<rparr>),
     (21, 0, \<lparr>hm_proof = [3], hm_authority_set_id = 7\<rparr>), (30, 1, \<lparr>hm_proof = [8], hm_authority_set_id = 8\<rparr>)]"

definition sample_network :: gear_network where
  "sample_network = \<lparr>gn_free_balance = Inr 0, gn_upload_program = \<lambda>_ _. Inr None,
     gn_read_state_at = \<lambda>_ at_block. case at_block of
       None \<Rightarrow> Inr (the (pp_state (program_after (program_init 0 sample_genesis 10) sample_deliveries)))
     | Some h \<Rightarrow> Inr (the (pp_state (program_at (program_init 0 sample_genesis 10) sample_deliveries (ucast h)))),
     gn_get_block_hash = \<lambda>b. Inr (ucast b)\<rparr>"

lemma ucast_back: "(ucast (ucast (b :: u32) :: h256) :: u32) = b"
  by (simp add: word_unat_eq_iff unsigned_ucast_eq take_bit_word_eq_self)

theorem accepted_proofs_are_found_witness:
  "\<exists>s'. gs_get_proof_for_authority_set_id sample_network
       \<lparr>gs_program = Some 3, gs_circuit_data = None, gs_proofs = [], gs_channel = []\<rparr> 6
     = Ret (Inr \<lparr>pw_proof = [2], pw_circuit_data = [7]\<rparr>, s')"
proof -
  let ?s = "\<lparr>gs_program = Some 3, gs_circuit_data = None, gs_proofs = [], gs_channel = []\<rparr>"
  let ?l = "program_log sample_genesis (program_init 0 sample_genesis 10) sample_deliveries"
  have "accepted (program_init 0 sample_genesis 10) sample_deliveries = [[2], [3]]"
    by (simp add: sample_deliveries_def program_handle_def program_init_def sample_genesis_def last_opt_def)
  then have log: "log_get ?l 6 = Inr \<lparr>pw_proof = [2], pw_circuit_data = [7]\<rparr>"
    by (simp add: log_get_def log_lookup_def program_log_def sample_genesis_def nth_opt_def)
  have "serves_history sample_network 3 (program_init 0 sample_genesis 10) sample_deliveries 10"
    by (simp add: serves_history_def sample_network_def ucast_back)
  from accepted_proofs_are_found [OF _ _ this, of ?s 6] log show ?thesis
    by (simp add: sample_deliveries_def sample_genesis_def cache_ok_def)
qed

end
