(* ===== verification/Proof_Files.thy ===== *)
theory Proof_Files
  imports Proof_Storage "HOL-Library.AList"
begin

text \<open>
  The proof storage on disk (\<open>relayer/src/proof_storage/file_system.rs\<close>): one file for the circuit data
  and one per proof, whose name holds the authority set id in decimal. A storage opened on the
  directory finds what the previous one stored.
\<close>

section \<open>Decimal numbers\<close>

definition digit :: "nat \<Rightarrow> char" where
  "digit d = char_of (48 + d)"

fun decimal :: "nat \<Rightarrow> string" where
  "decimal n = (if n < 10 then [digit n] else decimal (n div 10) @ [digit (n mod 10)])"

declare decimal.simps [simp del]

definition digit_value :: "char \<Rightarrow> nat option" where
  "digit_value c = (if 48 \<le> (of_char c :: nat) \<and> (of_char c :: nat) \<le> 57 then Some (of_char c - 48) else None)"

fun parse_digits :: "nat \<Rightarrow> string \<Rightarrow> nat option" where
  "parse_digits acc [] = Some acc"
| "parse_digits acc (c # cs) =
     (case digit_value c of None \<Rightarrow> None | Some d \<Rightarrow> parse_digits (10 * acc + d) cs)"

text \<open>\<open>u64::from_str\<close>: an optional plus sign, then at least one digit, and no overflow.\<close>

definition parse_u64 :: "string \<Rightarrow> u64 option" where
  "parse_u64 str =
     (let digits = (case str of [] \<Rightarrow> [] | c # cs \<Rightarrow> if c = CHR ''+'' then cs else str)
      in if digits = [] then None
         else case parse_digits 0 digits of
           None \<Rightarrow> None
         | Some n \<Rightarrow> if n < 2 ^ 64 then Some (of_nat n) else None)"

lemma digit_value_digit [simp]: "d < 10 \<Longrightarrow> digit_value (digit d) = Some d"
  by (simp add: digit_value_def digit_def of_char_of)

lemma parse_digits_append:
  "parse_digits acc (xs @ ys) = (case parse_digits acc xs of None \<Rightarrow> None | Some n \<Rightarrow> parse_digits n ys)"
  by (induction acc xs rule: parse_digits.induct) (auto split: option.splits)

lemma parse_decimal: "parse_digits 0 (decimal n) = Some n"
proof (induction n rule: decimal.induct)
  case (1 n)
  then show ?case by (subst decimal.simps) (auto simp: parse_digits_append)
qed

lemma decimal_digits: "c \<in> set (decimal n) \<Longrightarrow> \<exists>d < 10. c = digit d"
proof (induction n rule: decimal.induct)
  case (1 n)
  have "\<exists>d < 10. digit (n mod 10) = digit d" by (rule exI [of _ "n mod 10"]) simp
  with 1 show ?case by (subst (asm) (2) decimal.simps) (auto split: if_splits)
qed

lemma digit_not_plus: "d < 10 \<Longrightarrow> digit d \<noteq> CHR ''+''"
proof
  assume "d < 10" and "digit d = CHR ''+''"
  then have "digit_value (CHR ''+'') = Some d" using digit_value_digit [of d] by simp
  then show False by (simp add: digit_value_def)
qed

lemma decimal_nonempty: "decimal n \<noteq> []"
  by (subst decimal.simps) simp

lemma parse_u64_decimal: "parse_u64 (decimal (unat k)) = Some k"
proof -
  obtain c cs where dec: "decimal (unat k) = c # cs" using decimal_nonempty by (cases "decimal (unat k)") auto
  then have "c \<noteq> CHR ''+''" using decimal_digits [of c "unat k"] digit_not_plus by auto
  then show ?thesis
    using parse_decimal [of "unat k"] unsigned_less [of k, where ?'a = nat]
    by (simp add: parse_u64_def dec)
qed


section \<open>Files\<close>

text \<open>
  The directory is the list of its files; \<open>fs_writable\<close> tells which files the operating system lets the
  relayer write. File names are ASCII.
\<close>

type_synonym directory = "(string \<times> bytes) list"

record fs_storage =
  fs_cache :: in_memory
  fs_files :: directory
  fs_writable :: "string \<Rightarrow> bool"

definition circuit_file :: string where
  "circuit_file = ''circuit_data.bin''"

definition proof_file :: "u64 \<Rightarrow> string" where
  "proof_file set_id = ''proof_'' @ decimal (unat set_id) @ ''.bin''"

fun save_proofs :: "(string \<Rightarrow> bool) \<Rightarrow> (u64, bytes) btree \<Rightarrow> directory \<Rightarrow> (proof_storage_error + unit) \<times> directory" where
  "save_proofs w [] files = (Inr (), files)"
| "save_proofs w ((set_id, proof) # ps) files =
     (if w (proof_file set_id) then save_proofs w ps (AList.update (proof_file set_id) proof files)
      else (Inl NotInitialized, files))"

definition save_state :: "fs_storage \<Rightarrow> (proof_storage_error + unit) \<times> fs_storage" where
  "save_state s =
     (case im_circuit_data (fs_cache s) of
        None \<Rightarrow> (Inl NotInitialized, s)
      | Some circuit_data \<Rightarrow>
          if fs_writable s circuit_file then
            let (r, files) = save_proofs (fs_writable s) (im_proofs (fs_cache s))
                  (AList.update circuit_file circuit_data (fs_files s))
            in (r, s\<lparr>fs_files := files\<rparr>)
          else (Inl NotInitialized, s))"

text \<open>
  \<open>found_set_id\<close> is the closure over the directory entries: slicing a name shorter than the prefix
  panics, and so does a number that does not parse.
\<close>

definition found_set_id :: "string \<Rightarrow> u64 option exec" where
  "found_set_id file_name =
     (if length file_name < 6 then Panic ''byte index out of bounds''
      else if take 6 file_name = ''proof_'' \<and> drop (length file_name - 4) file_name = ''.bin'' then
        (case parse_u64 (drop 6 (take (length file_name - 4) file_name)) of
           None \<Rightarrow> Panic ''Invalid file name''
         | Some set_id \<Rightarrow> Ret (Some set_id))
      else Ret None)"

fun load_proofs :: "directory \<Rightarrow> string list \<Rightarrow> (u64, bytes) btree \<Rightarrow>
    ((proof_storage_error + unit) \<times> (u64, bytes) btree) exec" where
  "load_proofs files [] proofs = Ret (Inr (), proofs)"
| "load_proofs files (file_name # names) proofs =
     exec_bind (found_set_id file_name) (\<lambda>found. case found of
       None \<Rightarrow> load_proofs files names proofs
     | Some set_id \<Rightarrow>
         (case map_of files (proof_file set_id) of
            None \<Rightarrow> Ret (Inl NotInitialized, proofs)
          | Some proof \<Rightarrow> load_proofs files names (bt_insert set_id proof proofs)))"

definition load_state :: "fs_storage \<Rightarrow> ((proof_storage_error + unit) \<times> fs_storage) exec" where
  "load_state s =
     (case map_of (fs_files s) circuit_file of
        None \<Rightarrow> Ret (Inl NotInitialized, s)
      | Some circuit_data \<Rightarrow>
          exec_bind (load_proofs (fs_files s) (map fst (fs_files s)) (im_proofs (fs_cache s))) (\<lambda>(r, proofs).
          Ret (r, s\<lparr>fs_cache := \<lparr>im_proofs = proofs, im_circuit_data = Some circuit_data\<rparr>\<rparr>)))"

definition fs_new :: "directory \<Rightarrow> (string \<Rightarrow> bool) \<Rightarrow> fs_storage exec" where
  "fs_new files writable =
     exec_bind (load_state \<lparr>fs_cache = im_default, fs_files = files, fs_writable = writable\<rparr>)
       (\<lambda>(r, s). Ret s)"

definition fs_init ::
  "fs_storage \<Rightarrow> proof_with_circuit_data \<Rightarrow> u64 \<Rightarrow> ((proof_storage_error + unit) \<times> fs_storage) exec" where
  "fs_init s pw genesis =
     exec_bind (im_init (fs_cache s) pw genesis) (\<lambda>(r, cache).
     case r of Inl e \<Rightarrow> Ret (Inl e, s\<lparr>fs_cache := cache\<rparr>) | Inr _ \<Rightarrow> Ret (save_state (s\<lparr>fs_cache := cache\<rparr>)))"

definition fs_update :: "fs_storage \<Rightarrow> bytes \<Rightarrow> u64 \<Rightarrow> ((proof_storage_error + unit) \<times> fs_storage) exec" where
  "fs_update s proof new_authority_set_id =
     exec_bind (im_update (fs_cache s) proof new_authority_set_id) (\<lambda>(r, cache).
     case r of Inl e \<Rightarrow> Ret (Inl e, s\<lparr>fs_cache := cache\<rparr>) | Inr _ \<Rightarrow> Ret (save_state (s\<lparr>fs_cache := cache\<rparr>)))"

definition fs_ops :: "fs_storage storage_ops" where
  "fs_ops = \<lparr>so_init = fs_init, so_get_circuit_data = \<lambda>s. Ret (im_get_circuit_data (fs_cache s), s),
     so_get_latest_authority_set_id = \<lambda>s. im_get_latest_authority_set_id (fs_cache s),
     so_get_proof_for_authority_set_id = \<lambda>s id. Ret (im_get_proof_for_authority_set_id (fs_cache s) id, s),
     so_update = fs_update\<rparr>"

section \<open>The storage on disk simulates the log\<close>

lemma decimal_inject: "decimal m = decimal n \<Longrightarrow> m = n"
  by (metis parse_decimal option.inject)

lemma proof_file_inject [simp]: "proof_file k = proof_file k' \<longleftrightarrow> k = k'"
  by (auto simp: proof_file_def word_unat_eq_iff dest: decimal_inject)

lemma proof_file_not_circuit [simp]: "proof_file k \<noteq> circuit_file" "circuit_file \<noteq> proof_file k"
  by (simp_all add: proof_file_def circuit_file_def)

lemma found_set_id_proof_file [simp]: "found_set_id (proof_file k) = Ret (Some k)"
  by (simp add: found_set_id_def proof_file_def parse_u64_decimal)

lemma found_set_id_circuit_file [simp]: "found_set_id circuit_file = Ret None"
  by (simp add: found_set_id_def circuit_file_def)

text \<open>The files that hold a log.\<close>

definition log_file :: "proof_log \<Rightarrow> string \<Rightarrow> bytes option" where
  "log_file l = (map_of (map (\<lambda>(k, p). (proof_file k, p)) (numbered (pl_first l) (pl_proofs l))))
     (circuit_file \<mapsto> pl_circuit_data l)"

definition fs_rel :: "fs_storage \<Rightarrow> proof_log option \<Rightarrow> bool" where
  "fs_rel s a \<longleftrightarrow> im_rel (fs_cache s) a \<and> fs_writable s = (\<lambda>_. True) \<and>
     map_of (fs_files s) = (case a of None \<Rightarrow> Map.empty | Some l \<Rightarrow> log_file l)"

lemma map_of_proof_files:
  "map_of (map (\<lambda>(k, p). (proof_file k, p)) m) (proof_file k) = map_of m k"
  by (induction m) auto

lemma save_proofs_all:
  "save_proofs (\<lambda>_. True) m files = (r, files') \<Longrightarrow> distinct (map fst m) \<Longrightarrow>
     r = Inr () \<and> map_of files' = map_of files ++ map_of (map (\<lambda>(k, p). (proof_file k, p)) m)"
proof (induction m arbitrary: files)
  case (Cons e m)
  obtain k p where e: "e = (k, p)" by (cases e)
  have "map_of (map (\<lambda>(k, p). (proof_file k, p)) m) (proof_file k) = None"
    using Cons.prems(2) by (simp add: map_of_proof_files e map_of_eq_None_iff)
  with Cons.IH [of "AList.update (proof_file k) p files"] Cons.prems show ?case
    by (auto simp: e update_conv' map_add_def fun_eq_iff split: option.splits)
qed auto

lemma save_state_log:
  assumes "im_rel (fs_cache s) (Some l)" and "fs_writable s = (\<lambda>_. True)"
    and "map_of (fs_files s) = Map.empty \<or> (\<exists>l'. map_of (fs_files s) = log_file l'
      \<and> (\<forall>k. log_lookup l' k \<noteq> None \<longrightarrow> log_lookup l k \<noteq> None) \<and> log_ok l')"
  shows "\<exists>s'. save_state s = (Inr (), s') \<and> fs_rel s' (Some l)"
proof -
  let ?m = "numbered (pl_first l) (pl_proofs l)"
  from assms(1) have ok: "log_ok l" and cache: "fs_cache s = \<lparr>im_proofs = ?m, im_circuit_data = Some (pl_circuit_data l)\<rparr>"
    by (auto simp: im_rel_def)
  obtain r files where sp: "save_proofs (\<lambda>_. True) ?m (AList.update circuit_file (pl_circuit_data l) (fs_files s)) = (r, files)"
    by fastforce
  have files: "r = Inr ()" "map_of files = (map_of (fs_files s))(circuit_file \<mapsto> pl_circuit_data l)
      ++ map_of (map (\<lambda>(k, p). (proof_file k, p)) ?m)"
    using save_proofs_all [OF sp] bt_ok_distinct [OF numbered_ok] ok by (auto simp: log_ok_def update_conv')
  have old: "map_of (fs_files s) f = None \<or> f = circuit_file \<or> log_file l f \<noteq> None" for f
    using assms(3)
  proof (elim disjE exE conjE)
    fix l' assume l': "map_of (fs_files s) = log_file l'"
      "\<forall>k. log_lookup l' k \<noteq> None \<longrightarrow> log_lookup l k \<noteq> None" "log_ok l'"
    show ?thesis
    proof (cases "\<exists>k. f = proof_file k")
      case True
      with l' ok show ?thesis by (auto simp: log_file_def map_of_proof_files log_lookup_numbered)
    next
      case False
      then show ?thesis by (auto simp: l'(1) log_file_def map_of_eq_None_iff)
    qed
  qed simp
  have "map_of files = log_file l"
  proof
    fix f
    have "map_of (map (\<lambda>(k, p). (proof_file k, p)) ?m) circuit_file = None" by (auto simp: map_of_eq_None_iff)
    with old [of f] show "map_of files f = log_file l f"
      by (auto simp: files(2) log_file_def map_add_def split: option.splits if_splits)
  qed
  with files(1) sp assms(1,2) show ?thesis by (simp add: save_state_def cache fs_rel_def)
qed

lemma fs_step_simps:
  "so_init fs_ops = fs_init" "so_update fs_ops = fs_update"
  by (simp_all add: fs_ops_def)

lemma lookup_append: "log_lookup l k \<noteq> None \<Longrightarrow> log_lookup (log_append p l) k \<noteq> None"
  by (auto simp: log_lookup_def log_append_def nth_opt_def split: if_splits)

lemma fs_rel_query:
  assumes "fs_rel s a"
  shows "exec_rel (same_answer fs_rel) (storage_step fs_ops s GetCircuitData) (log_step a GetCircuitData)"
    and "exec_rel (same_answer fs_rel) (storage_step fs_ops s GetLatest) (log_step a GetLatest)"
    and "exec_rel (same_answer fs_rel) (storage_step fs_ops s (GetProof k)) (log_step a (GetProof k))"
proof -
  have im: "im_rel (fs_cache s) a" using assms by (simp add: fs_rel_def)
  note q = im.step [OF im, of GetCircuitData] im.step [OF im, of GetLatest] im.step [OF im, of "GetProof k"]
  show "exec_rel (same_answer fs_rel) (storage_step fs_ops s GetCircuitData) (log_step a GetCircuitData)"
    using q(1) assms by (cases a) (simp_all add: call_fits_def fs_ops_def im_ops_def)
  show "exec_rel (same_answer fs_rel) (storage_step fs_ops s GetLatest) (log_step a GetLatest)"
    using q(2) assms by (cases a) (simp_all add: call_fits_def fs_ops_def im_ops_def)
  show "exec_rel (same_answer fs_rel) (storage_step fs_ops s (GetProof k)) (log_step a (GetProof k))"
    using q(3) assms by (cases a) (simp_all add: call_fits_def fs_ops_def im_ops_def)
qed

interpretation fs: proof_storage fs_ops fs_rel
proof
  fix s a c
  assume rel: "fs_rel s a" and fits: "call_fits c"
  then have im: "im_rel (fs_cache s) a" and w: "fs_writable s = (\<lambda>_. True)" by (auto simp: fs_rel_def)
  show "exec_rel (same_answer fs_rel) (storage_step fs_ops s c) (log_step a c)"
  proof (cases c)
    case (Init pw g)
    show ?thesis
    proof (cases a)
      case None
      from im.init_log [OF im [unfolded None], of pw g] obtain cache where
        "im_init (fs_cache s) pw g = Ret (Inr (), cache)" "im_rel cache (Some (log_new pw g))"
        by (auto simp: im_ops_def)
      with save_state_log [of "s\<lparr>fs_cache := cache\<rparr>" "log_new pw g"] rel w show ?thesis
        by (auto simp: Init None fs_step_simps(1) fs_init_def fs_rel_def)
    next
      case (Some l)
      with im have "im_init (fs_cache s) pw g = Ret (Inl AlreadyInitialized, fs_cache s)"
        by (auto simp: im_init_def im_rel_def log_ok_def)
      with rel Some show ?thesis by (simp add: Init fs_step_simps(1) fs_init_def)
    qed
  next
    case (Update p k)
    show ?thesis
    proof (cases a)
      case None
      with im show ?thesis
        by (simp add: Update fs_step_simps(2) fs_update_def im_update_def im_rel_def im_default_def)
    next
      case (Some l)
      show ?thesis
      proof (cases "k = log_last l + 1")
        case True
        with fits have nz: "log_last l + 1 \<noteq> 0" by (simp add: Update call_fits_def)
        from im.update_log [OF im [unfolded Some] this, of p] obtain cache where
          upd: "im_update (fs_cache s) p k = Ret (Inr (), cache)" "im_rel cache (Some (log_append p l))"
          by (auto simp: im_ops_def True)
        have "log_ok l" using im by (simp add: Some im_rel_def)
        with save_state_log [of "s\<lparr>fs_cache := cache\<rparr>", OF _ _ disjI2] upd rel w lookup_append [of l _ p] show ?thesis
          by (fastforce simp: Update Some True fs_step_simps(2) fs_update_def fs_rel_def)
      next
        case False
        with im_update_log [OF im [unfolded Some], of k p] fits rel show ?thesis
          by (auto simp: Update Some fs_step_simps(2) fs_update_def call_fits_def)
      qed
    qed
  qed (simp_all only: fs_rel_query [OF rel])
qed (simp add: fs_rel_def im_rel_def)

section \<open>Reopening\<close>

lemma log_file_cases:
  assumes "log_ok l" and "log_file l f \<noteq> None"
  shows "f = circuit_file \<or> (\<exists>k p. f = proof_file k \<and> log_lookup l k = Some p)"
proof (cases "f = circuit_file")
  case False
  with assms(2) obtain p where p: "map_of (map (\<lambda>(k, p). (proof_file k, p)) (numbered (pl_first l) (pl_proofs l))) f = Some p"
    by (auto simp: log_file_def)
  then obtain k where "f = proof_file k" by (auto dest!: map_of_SomeD)
  with p show ?thesis using assms(1) by (simp add: map_of_proof_files log_lookup_numbered)
qed simp

lemma load_proofs_log:
  assumes "map_of files = log_file l" and "set names \<subseteq> dom (log_file l)" and "bt_ok m" and "log_ok l"
  shows "\<exists>m'. load_proofs files names m = Ret (Inr (), m') \<and> bt_ok m'
    \<and> (\<forall>k. map_of m' k = (if proof_file k \<in> set names then log_lookup l k else map_of m k))"
  using assms(2,3)
proof (induction names arbitrary: m)
  case (Cons f names)
  have "f = circuit_file \<or> (\<exists>k p. f = proof_file k \<and> log_lookup l k = Some p)"
    using Cons.prems(1) by (intro log_file_cases assms(4)) auto
  then show ?case
  proof (elim disjE exE conjE)
    assume "f = circuit_file"
    with Cons show ?thesis by auto
  next
    fix k p assume f: "f = proof_file k" and p: "log_lookup l k = Some p"
    have "map_of files (proof_file k) = Some p"
      using p assms(4) by (simp add: assms(1) log_file_def map_of_proof_files log_lookup_numbered)
    moreover from Cons.IH [of "bt_insert k p m"] Cons.prems obtain m' where
      "load_proofs files names (bt_insert k p m) = Ret (Inr (), m')" "bt_ok m'"
      "\<forall>k'. map_of m' k' = (if proof_file k' \<in> set names then log_lookup l k' else map_of (bt_insert k p m) k')"
      by auto
    ultimately show ?thesis using p by (auto simp: f)
  qed
qed simp

lemma reopened:
  assumes "fs_rel s (Some l)" and "map_of files = map_of (fs_files s)" and "fs_writable s = w"
  shows "fs_new files w = Ret (s\<lparr>fs_files := files\<rparr>)"
proof -
  from assms have ok: "log_ok l" and files: "map_of files = log_file l"
    and cache: "fs_cache s = \<lparr>im_proofs = numbered (pl_first l) (pl_proofs l), im_circuit_data = Some (pl_circuit_data l)\<rparr>"
    by (auto simp: fs_rel_def im_rel_def)
  have "set (map fst files) = dom (log_file l)" by (simp add: files [symmetric] dom_map_of_conv_image_fst)
  then obtain m where m: "load_proofs files (map fst files) [] = Ret (Inr (), m)" "bt_ok m"
    "\<forall>k. map_of m k = (if proof_file k \<in> set (map fst files) then log_lookup l k else None)"
    using load_proofs_log [OF files, of "map fst files" "[]"] ok by auto
  have "map_of m k = log_lookup l k" for k
    using m(3) \<open>set (map fst files) = dom (log_file l)\<close> ok
    by (cases "log_lookup l k") (auto simp: log_file_def map_of_proof_files log_lookup_numbered dom_def)
  then have "m = numbered (pl_first l) (pl_proofs l)"
    using m(2) ok by (intro bt_ext) (auto simp: log_lookup_numbered log_ok_def numbered_ok)
  with m(1) show ?thesis
    using files cache assms(3)
    by (simp add: fs_new_def load_state_def im_default_def log_file_def)
qed

text \<open>A storage on an empty directory that takes every file.\<close>

definition fs_empty :: fs_storage where
  "fs_empty = \<lparr>fs_cache = im_default, fs_files = [], fs_writable = \<lambda>_. True\<rparr>"

lemma fs_rel_empty: "fs_rel fs_empty None"
  by (simp add: fs_rel_def fs_empty_def im_rel_def)

lemma reopened_any:
  assumes "fs_rel s a" and "map_of files = map_of (fs_files s)"
  shows "fs_new files (\<lambda>_. True) = Ret (s\<lparr>fs_files := files\<rparr>)"
proof (cases a)
  case None
  with assms have "files = []" "s = fs_empty" by (auto simp: fs_rel_def im_rel_def fs_empty_def)
  then show ?thesis by (simp add: fs_new_def load_state_def fs_empty_def)
next
  case (Some l)
  with assms show ?thesis by (intro reopened) (auto simp: fs_rel_def)
qed

lemma stray_file_panics:
  assumes "map_of files circuit_file \<noteq> None" and "files = (name, content) # rest" and "length name < 6"
  shows "panics (fs_new files w)"
  using assms by (auto simp: fs_new_def load_state_def found_set_id_def)

section \<open>Any disk\<close>

text \<open>
  A call on a disk that lets the relayer write the files \<open>w\<close>, which may differ from call to call, and the
  log with such a disk: a call that changes the log also writes the circuit data and every proof, and
  reports \<open>NotInitialized\<close> when a file cannot be written. The log keeps the change then.
\<close>

definition disk_step :: "fs_storage \<Rightarrow> (string \<Rightarrow> bool) \<times> storage_call \<Rightarrow> (storage_answer \<times> fs_storage) exec" where
  "disk_step s wc = storage_step fs_ops (s\<lparr>fs_writable := fst wc\<rparr>) (snd wc)"

definition disk_takes :: "(string \<Rightarrow> bool) \<Rightarrow> proof_log \<Rightarrow> bool" where
  "disk_takes w l \<longleftrightarrow> w circuit_file \<and> list_all (\<lambda>k. w (proof_file k)) (map fst (numbered (pl_first l) (pl_proofs l)))"

definition disk_log_step :: "proof_log option \<Rightarrow> (string \<Rightarrow> bool) \<times> storage_call \<Rightarrow> (storage_answer \<times> proof_log option) exec" where
  "disk_log_step a wc =
     (case log_step a (snd wc) of
        Ret (Done (Inr _), Some l) \<Rightarrow> Ret (Done (if disk_takes (fst wc) l then Inr () else Inl NotInitialized), Some l)
      | e \<Rightarrow> e)"

lemma save_proofs_result:
  "fst (save_proofs w m files) = (if list_all (\<lambda>k. w (proof_file k)) (map fst m) then Inr () else Inl NotInitialized)"
  by (induction w m files rule: save_proofs.induct) auto

lemma save_state_result:
  assumes "im_rel (fs_cache s) (Some l)"
  shows "fst (save_state s) = (if disk_takes (fs_writable s) l then Inr () else Inl NotInitialized)"
    and "fs_cache (snd (save_state s)) = fs_cache s"
proof -
  let ?m = "numbered (pl_first l) (pl_proofs l)"
  have cache: "fs_cache s = \<lparr>im_proofs = ?m, im_circuit_data = Some (pl_circuit_data l)\<rparr>" using assms by (simp add: im_rel_def)
  obtain r files where sp: "save_proofs (fs_writable s) ?m (AList.update circuit_file (pl_circuit_data l) (fs_files s)) = (r, files)"
    by fastforce
  have r: "r = (if list_all (\<lambda>k. fs_writable s (proof_file k)) (map fst ?m) then Inr () else Inl NotInitialized)"
    using save_proofs_result [of "fs_writable s" ?m] by (metis sp fst_conv)
  show "fst (save_state s) = (if disk_takes (fs_writable s) l then Inr () else Inl NotInitialized)" "fs_cache (snd (save_state s)) = fs_cache s"
    by (simp_all add: save_state_def cache sp r disk_takes_def)
qed

lemma disk_step_log:
  assumes im: "im_rel (fs_cache s) a" and fits: "call_fits c"
  shows "exec_rel (same_answer (\<lambda>s a. im_rel (fs_cache s) a)) (disk_step s (w, c)) (disk_log_step a (w, c))"
proof (cases c)
  case (Init pw g)
  show ?thesis
  proof (cases a)
    case None
    from im.init_log [OF im [unfolded None], of pw g] obtain cache where
      cache: "im_init (fs_cache s) pw g = Ret (Inr (), cache)" "im_rel cache (Some (log_new pw g))" by (auto simp: im_ops_def)
    with save_state_result [of "s\<lparr>fs_writable := w, fs_cache := cache\<rparr>" "log_new pw g"] show ?thesis
      by (cases "save_state (s\<lparr>fs_writable := w, fs_cache := cache\<rparr>)")
        (auto simp: disk_step_def disk_log_step_def Init None fs_step_simps(1) fs_init_def)
  next
    case (Some l)
    with im have "im_init (fs_cache s) pw g = Ret (Inl AlreadyInitialized, fs_cache s)"
      by (auto simp: im_init_def im_rel_def log_ok_def)
    with im Some show ?thesis by (simp add: Init disk_step_def disk_log_step_def fs_step_simps(1) fs_init_def)
  qed
next
  case (Update p k)
  show ?thesis
  proof (cases a)
    case None
    with im show ?thesis
      by (simp add: Update disk_step_def disk_log_step_def fs_step_simps(2) fs_update_def im_update_def im_rel_def im_default_def)
  next
    case (Some l)
    show ?thesis
    proof (cases "k = log_last l + 1")
      case True
      with fits have nz: "log_last l + 1 \<noteq> 0" by (simp add: Update call_fits_def)
      from im.update_log [OF im [unfolded Some] this, of p] obtain cache where
        upd: "im_update (fs_cache s) p k = Ret (Inr (), cache)" "im_rel cache (Some (log_append p l))"
        by (auto simp: im_ops_def True)
      with save_state_result [of "s\<lparr>fs_writable := w, fs_cache := cache\<rparr>" "log_append p l"] show ?thesis
        by (cases "save_state (s\<lparr>fs_writable := w, fs_cache := cache\<rparr>)")
          (auto simp: disk_step_def disk_log_step_def Update Some True fs_step_simps(2) fs_update_def)
    next
      case False
      with im_update_log [OF im [unfolded Some], of k p] fits im show ?thesis
        by (auto simp: disk_step_def disk_log_step_def Update Some fs_step_simps(2) fs_update_def call_fits_def)
    qed
  qed
next
  case GetCircuitData
  with im.step [OF im, of GetCircuitData] im show ?thesis
    by (cases a) (simp_all add: disk_step_def disk_log_step_def call_fits_def fs_ops_def im_ops_def)
next
  case GetLatest
  with im.step [OF im, of GetLatest] im show ?thesis
    by (cases a) (simp_all add: disk_step_def disk_log_step_def call_fits_def fs_ops_def im_ops_def)
next
  case (GetProof k)
  with im.step [OF im, of "GetProof k"] im show ?thesis
    by (cases a) (simp_all add: disk_step_def disk_log_step_def call_fits_def fs_ops_def im_ops_def)
qed

text \<open>Property C15. No call storing a proof under the set id 0, the storage in memory answers every
  sequence of calls as the log of proofs with consecutive set ids does, errors and panics included. The
  storage on disk does so on every disk, on which any file may be refused at any call, except that a
  call that changes the log reports \<open>NotInitialized\<close> exactly when the circuit data or one of the proofs
  cannot be written; later calls are answered from the changed log all the same.\<close>

theorem storages_refine_log:
  assumes "\<forall>wc \<in> set wcs. call_fits (snd wc)"
  shows "exec_rel (\<lambda>p q. fst p = fst q) (run_calls (storage_step im_ops) im_default (map snd wcs)) (run_calls log_step None (map snd wcs))
    \<and> exec_rel (\<lambda>p q. fst p = fst q) (run_calls disk_step fs_empty wcs) (run_calls disk_log_step None wcs)"
proof
  have im: "im_rel im_default None" by (simp add: im_rel_def)
  from im.run_refines [OF this, of "map snd wcs"] assms
  show "exec_rel (\<lambda>p q. fst p = fst q) (run_calls (storage_step im_ops) im_default (map snd wcs)) (run_calls log_step None (map snd wcs))"
    by (auto elim!: exec_rel_mono simp: same_answer_def)
  have "exec_rel (same_answer (\<lambda>s a. im_rel (fs_cache s) a)) (run_calls disk_step fs_empty wcs) (run_calls disk_log_step None wcs)"
    by (rule run_calls_simulate) (use im assms disk_step_log in \<open>auto simp: fs_empty_def\<close>)
  then show "exec_rel (\<lambda>p q. fst p = fst q) (run_calls disk_step fs_empty wcs) (run_calls disk_log_step None wcs)"
    by (rule exec_rel_mono) (simp add: same_answer_def)
qed

text \<open>The calls of the sample run; the disk refuses the file of the first proof while the second one is stored.\<close>

definition sample_calls :: "storage_call list" where
  "sample_calls = [Init \<lparr>pw_proof = [1], pw_circuit_data = [2]\<rparr> 8, Update [3] 10, Update [4] 10, GetProof 9, GetLatest]"

definition sample_disks :: "((string \<Rightarrow> bool) \<times> storage_call) list" where
  "sample_disks = zip [\<lambda>_. True, \<lambda>f. f \<noteq> proof_file 9, \<lambda>_. True, \<lambda>_. True, \<lambda>_. False] sample_calls"

lemma sample_calls_fit: "\<forall>c \<in> set sample_calls. call_fits c"
  by (simp add: sample_calls_def call_fits_def)

lemma sample_log_run:
  "run_calls log_step None sample_calls =
     Ret ([Done (Inr ()), Done (Inr ()), Done (Inl AuthoritySetIdMismatch),
           ProofIs (Inr \<lparr>pw_proof = [1], pw_circuit_data = [2]\<rparr>), LatestIs (Some 10)],
          Some \<lparr>pl_circuit_data = [2], pl_first = 9, pl_proofs = [[1], [3]]\<rparr>)"
  by (simp add: sample_calls_def log_new_def log_append_def log_last_def log_get_def log_lookup_def nth_opt_def)

lemma sample_disk_run:
  "run_calls disk_log_step None sample_disks =
     Ret ([Done (Inr ()), Done (Inl NotInitialized), Done (Inl AuthoritySetIdMismatch),
           ProofIs (Inr \<lparr>pw_proof = [1], pw_circuit_data = [2]\<rparr>), LatestIs (Some 10)],
          Some \<lparr>pl_circuit_data = [2], pl_first = 9, pl_proofs = [[1], [3]]\<rparr>)"
  by (simp add: sample_disks_def sample_calls_def disk_log_step_def disk_takes_def
      log_new_def log_append_def log_last_def log_get_def log_lookup_def nth_opt_def)

theorem storages_refine_log_witness:
  "\<exists>s. run_calls disk_step fs_empty sample_disks =
     Ret ([Done (Inr ()), Done (Inl NotInitialized), Done (Inl AuthoritySetIdMismatch),
           ProofIs (Inr \<lparr>pw_proof = [1], pw_circuit_data = [2]\<rparr>), LatestIs (Some 10)], s)"
proof -
  have "\<forall>wc \<in> set sample_disks. call_fits (snd wc)" by (simp add: sample_disks_def sample_calls_def call_fits_def)
  from storages_refine_log [OF this, unfolded sample_disk_run] show ?thesis
    by (cases "run_calls disk_step fs_empty sample_disks") auto
qed

text \<open>A storage opened on the directory that an earlier one left behind, on a disk that took every
  file, holds what the earlier one held, whatever the order in which the files are listed.\<close>

theorem reopened_storage_keeps_proofs:
  assumes "\<forall>c \<in> set cs. call_fits c" and "run_calls (storage_step fs_ops) fs_empty cs = Ret (answers, s)"
    and "map_of files = map_of (fs_files s)"
  shows "fs_new files (\<lambda>_. True) = Ret (s\<lparr>fs_files := files\<rparr>)"
proof -
  from fs.run_refines [OF fs_rel_empty assms(1)] assms(2) obtain a where "fs_rel s a"
    by (cases rule: exec_rel_cases) (auto simp: same_answer_def)
  then show ?thesis using assms(3) by (rule reopened_any)
qed

theorem reopened_storage_keeps_proofs_witness:
  "\<exists>answers s. run_calls (storage_step fs_ops) fs_empty sample_calls = Ret (answers, s)
     \<and> fs_new (fs_files s) (\<lambda>_. True) = Ret s"
proof -
  from fs.run_refines [OF fs_rel_empty sample_calls_fit, unfolded sample_log_run] obtain answers s
    where run: "run_calls (storage_step fs_ops) fs_empty sample_calls = Ret (answers, s)"
    by (cases "run_calls (storage_step fs_ops) fs_empty sample_calls") auto
  with reopened_storage_keeps_proofs [OF sample_calls_fit run refl] show ?thesis by auto
qed

end
