(* ===== verification/Gear_Search.thy ===== *)
theory Gear_Search
  imports Bridge_Prelude
begin

text \<open>
  The searches of the RPC client for the Gear network (\<open>gear-rpc-client/src/lib.rs\<close>): the authority
  set that signed a block, a block of a given authority set, and the first block of an era. What
  the node answers is a record of functions; the searches are loops that may not end, and the
  theorems say when they do: a set that the chain has is found, the first block of an era is found
  unless the search already stands on it, and a set that is still to come makes the search loop.
\<close>

section \<open>The node and the calls of the client\<close>

datatype rpc_error = RpcCall string | NoSuchHash h256 | NoSuchNumber u32 | NotInStorage | DecodeFailed string
  | MessageNotFound h256 h256

text \<open>One state of a node: the answers to the remote calls, an error of the transport included. The keys
  queued for a session are pairs of an account and the 32 bytes of its GRANDPA key.\<close>

record gear_node =
  nd_finalized_head :: "rpc_error + h256"
  nd_block_number :: "h256 \<Rightarrow> rpc_error + u32 option"
  nd_block_hash :: "u32 \<Rightarrow> rpc_error + h256 option"
  nd_parent_hash :: "h256 \<Rightarrow> rpc_error + h256"
  nd_current_set_id :: "h256 \<Rightarrow> rpc_error + u64 option"
  nd_queued_keys :: "h256 \<Rightarrow> rpc_error + (h256 \<times> bytes) list option"
  nd_queue_merkle_root :: "h256 \<Rightarrow> rpc_error + h256 option"

definition approx_session_duration :: u32 where
  "approx_session_duration = 1000"

definition block_hash_to_number :: "gear_node \<Rightarrow> h256 \<Rightarrow> rpc_error + u32" where
  "block_hash_to_number node block = res_bind (nd_block_number node block) (\<lambda>n. ok_or n (NoSuchHash block))"

definition block_number_to_hash :: "gear_node \<Rightarrow> u32 \<Rightarrow> rpc_error + h256" where
  "block_number_to_hash node block = res_bind (nd_block_hash node block) (\<lambda>h. ok_or h (NoSuchNumber block))"

definition latest_finalized_block :: "gear_node \<Rightarrow> rpc_error + h256" where
  "latest_finalized_block node = nd_finalized_head node"

definition fetch_from_storage :: "(rpc_error + 'a option) \<Rightarrow> rpc_error + 'a" where
  "fetch_from_storage answer = res_bind answer (\<lambda>data. ok_or data NotInStorage)"

definition authority_set_id_at :: "gear_node \<Rightarrow> h256 \<Rightarrow> rpc_error + u64" where
  "authority_set_id_at node block = fetch_from_storage (nd_current_set_id node block)"

definition fetch_queue_merkle_root :: "gear_node \<Rightarrow> h256 \<Rightarrow> rpc_error + h256" where
  "fetch_queue_merkle_root node block = fetch_from_storage (nd_queue_merkle_root node block)"

definition previous_block :: "gear_node \<Rightarrow> h256 \<Rightarrow> rpc_error + h256" where
  "previous_block node block = nd_parent_hash node block"

definition signed_by_authority_set_id :: "gear_node \<Rightarrow> h256 \<Rightarrow> rpc_error + u64" where
  "signed_by_authority_set_id node block =
     res_bind (authority_set_id_at node block) (\<lambda>stored_set_id.
     res_bind (previous_block node block) (\<lambda>previous.
     res_bind (authority_set_id_at node previous) (\<lambda>previous_block_stored_set_id.
       Inr (if previous_block_stored_set_id \<noteq> stored_set_id then previous_block_stored_set_id
            else stored_set_id))))"

definition saturating_sub :: "u32 \<Rightarrow> u32 \<Rightarrow> u32" where
  "saturating_sub a b = (if b \<le> a then a - b else 0)"

section \<open>The search for a block of an authority set\<close>

datatype search_state = SearchBack u32 u32 | BinarySearch u32 u32

text \<open>One turn of the loop: the block found, or the next state.\<close>

definition search_turn :: "gear_node \<Rightarrow> u64 \<Rightarrow> search_state \<Rightarrow> rpc_error + (h256 + search_state)" where
  "search_turn node set_id state = (case state of
     SearchBack latest_bn step \<Rightarrow>
       let next_bn = saturating_sub latest_bn step in
       res_bind (block_number_to_hash node next_bn) (\<lambda>next_block.
       res_bind (authority_set_id_at node next_block) (\<lambda>next_vs.
         Inr (if next_vs = set_id then Inl next_block
              else if set_id < next_vs then Inr (SearchBack next_bn (step * 2))
              else Inr (BinarySearch next_bn latest_bn))))
   | BinarySearch lower_bn higher_bn \<Rightarrow>
       let mid_bn = (lower_bn + higher_bn) div 2 in
       res_bind (block_number_to_hash node mid_bn) (\<lambda>mid_block.
       res_bind (authority_set_id_at node mid_block) (\<lambda>mid_vs.
         Inr (if mid_vs = set_id then Inl mid_block
              else if set_id < mid_vs then Inr (BinarySearch lower_bn mid_bn)
              else Inr (BinarySearch mid_bn higher_bn)))))"

partial_function (option) search_loop ::
  "gear_node \<Rightarrow> u64 \<Rightarrow> search_state \<Rightarrow> (rpc_error + h256) option" where
  "search_loop node set_id state = (case search_turn node set_id state of
     Inl e \<Rightarrow> Some (Inl e)
   | Inr r \<Rightarrow> (case r of Inl block \<Rightarrow> Some (Inr block) | Inr state' \<Rightarrow> search_loop node set_id state'))"

definition search_for_authority_set_block :: "gear_node \<Rightarrow> u64 \<Rightarrow> (rpc_error + h256) option" where
  "search_for_authority_set_block node set_id =
     (case latest_finalized_block node of Inl e \<Rightarrow> Some (Inl e) | Inr latest_block \<Rightarrow>
     (case authority_set_id_at node latest_block of Inl e \<Rightarrow> Some (Inl e) | Inr latest_vs_id \<Rightarrow>
      if latest_vs_id = set_id then Some (Inr latest_block)
      else (case block_hash_to_number node latest_block of Inl e \<Rightarrow> Some (Inl e) | Inr latest_bn \<Rightarrow>
        search_loop node set_id (SearchBack latest_bn approx_session_duration))))"

section \<open>The first block of an era\<close>

partial_function (option) back_loop :: "gear_node \<Rightarrow> u64 \<Rightarrow> u32 \<Rightarrow> (rpc_error + u32) option" where
  "back_loop node set_id prev_set_block =
     (case block_number_to_hash node prev_set_block of Inl e \<Rightarrow> Some (Inl e) | Inr prev_set_block_hash \<Rightarrow>
     (case authority_set_id_at node prev_set_block_hash of Inl e \<Rightarrow> Some (Inl e) | Inr prev_set_id \<Rightarrow>
      if prev_set_id < set_id then Some (Inr prev_set_block)
      else back_loop node set_id (saturating_sub prev_set_block approx_session_duration)))"

definition era_turn :: "gear_node \<Rightarrow> u64 \<Rightarrow> u32 \<times> u32 \<Rightarrow> rpc_error + (h256 + u32 \<times> u32)" where
  "era_turn node set_id = (\<lambda>(current_set_block, prev_set_block).
     let mid_block = (current_set_block + prev_set_block) div 2 in
     res_bind (block_number_to_hash node mid_block) (\<lambda>mid_block_hash.
     res_bind (authority_set_id_at node mid_block_hash) (\<lambda>mid_set_id.
       if mid_set_id = set_id then
         res_bind (previous_block node mid_block_hash) (\<lambda>mid_prev.
         res_bind (authority_set_id_at node mid_prev) (\<lambda>mid_prev_set_id.
           Inr (if mid_prev_set_id + 1 = set_id then Inl mid_block_hash
                else Inr (mid_block, prev_set_block))))
       else Inr (Inr (current_set_block, mid_block)))))"

partial_function (option) era_loop :: "gear_node \<Rightarrow> u64 \<Rightarrow> u32 \<times> u32 \<Rightarrow> (rpc_error + h256) option" where
  "era_loop node set_id blocks = (case era_turn node set_id blocks of
     Inl e \<Rightarrow> Some (Inl e)
   | Inr r \<Rightarrow> (case r of Inl block \<Rightarrow> Some (Inr block) | Inr blocks' \<Rightarrow> era_loop node set_id blocks'))"

definition find_era_first_block :: "gear_node \<Rightarrow> u64 \<Rightarrow> (rpc_error + h256) option" where
  "find_era_first_block node set_id =
     (case search_for_authority_set_block node set_id of None \<Rightarrow> None | Some found \<Rightarrow>
     (case found of Inl e \<Rightarrow> Some (Inl e) | Inr block \<Rightarrow>
     (case block_hash_to_number node block of Inl e \<Rightarrow> Some (Inl e) | Inr current_set_block \<Rightarrow>
     (case back_loop node set_id (saturating_sub current_set_block approx_session_duration) of
        None \<Rightarrow> None
      | Some scan \<Rightarrow> (case scan of Inl e \<Rightarrow> Some (Inl e) | Inr prev_set_block \<Rightarrow>
          era_loop node set_id (current_set_block, prev_set_block))))))"

section \<open>The authority set\<close>

definition fetch_authority_set_in_block :: "gear_node \<Rightarrow> h256 \<Rightarrow> rpc_error + bytes list" where
  "fetch_authority_set_in_block node block =
     res_bind (fetch_from_storage (nd_queued_keys node block)) (\<lambda>session_keys. Inr (map snd session_keys))"

definition fetch_authority_set :: "gear_node \<Rightarrow> u64 \<Rightarrow> (rpc_error + bytes list) option" where
  "fetch_authority_set node set_id =
     (case search_for_authority_set_block node set_id of None \<Rightarrow> None | Some found \<Rightarrow>
        Some (res_bind found (fetch_authority_set_in_block node)))"

record authority_set_state =
  as_authority_set_id :: u64
  as_authority_set_hash :: h256

text \<open>Blake2b with 32 bytes of output is an argument, and so is the block, which may be left out.\<close>

definition get_authority_set_state ::
  "(bytes \<Rightarrow> h256) \<Rightarrow> gear_node \<Rightarrow> h256 option \<Rightarrow> (rpc_error + authority_set_state) option" where
  "get_authority_set_state blake2b node block =
     (case (case block of Some b \<Rightarrow> Inr b | None \<Rightarrow> latest_finalized_block node) of
        Inl e \<Rightarrow> Some (Inl e)
      | Inr b \<Rightarrow> (case fetch_from_storage (nd_current_set_id node b) of
          Inl e \<Rightarrow> Some (Inl e)
        | Inr set_id \<Rightarrow> (case fetch_authority_set node set_id of
            None \<Rightarrow> None
          | Some authority_set \<Rightarrow> Some (res_bind authority_set (\<lambda>keys.
              Inr \<lparr>as_authority_set_id = set_id,
                   as_authority_set_hash = blake2b (concat keys)\<rparr>)))))"

section \<open>A node that follows a chain\<close>

text \<open>
  The node serves the blocks \<open>0\<close> to \<open>head\<close> of one chain: \<open>hash n\<close> is the hash of block \<open>n\<close> and \<open>sets n\<close> the
  authority set stored in its state, which never decreases.
\<close>

definition serves :: "gear_node \<Rightarrow> (u32 \<Rightarrow> h256) \<Rightarrow> (u32 \<Rightarrow> u64) \<Rightarrow> u32 \<Rightarrow> bool" where
  "serves node hash sets head \<longleftrightarrow>
     nd_finalized_head node = Inr (hash head)
   \<and> (\<forall>n \<le> head. nd_block_hash node n = Inr (Some (hash n))
        \<and> nd_block_number node (hash n) = Inr (Some n)
        \<and> nd_current_set_id node (hash n) = Inr (Some (sets n)))
   \<and> (\<forall>n < head. nd_parent_hash node (hash (n + 1)) = Inr (hash n))
   \<and> (\<forall>m n. m \<le> n \<longrightarrow> n \<le> head \<longrightarrow> sets m \<le> sets n)"

lemma serves_simps:
  assumes "serves node hash sets head"
  shows "latest_finalized_block node = Inr (hash head)"
    and "n \<le> head \<Longrightarrow> block_number_to_hash node n = Inr (hash n)"
    and "n \<le> head \<Longrightarrow> block_hash_to_number node (hash n) = Inr n"
    and "n \<le> head \<Longrightarrow> authority_set_id_at node (hash n) = Inr (sets n)"
    and "n < head \<Longrightarrow> previous_block node (hash (n + 1)) = Inr (hash n)"
  using assms
  by (simp_all add: serves_def latest_finalized_block_def block_number_to_hash_def block_hash_to_number_def
      authority_set_id_at_def fetch_from_storage_def previous_block_def)

lemma serves_mono: "serves node hash sets head \<Longrightarrow> m \<le> n \<Longrightarrow> n \<le> head \<Longrightarrow> sets m \<le> sets n"
  by (simp add: serves_def)

section \<open>The search finds a set that the chain has\<close>

lemma mid_bounds:
  fixes a b :: u32
  assumes "unat a < 2 ^ 31" and "unat b < 2 ^ 31" and "a + 1 < b" and "a < b"
  shows "a < (a + b) div 2" "(a + b) div 2 < b"
proof -
  have "unat (a + b) = unat a + unat b" using assms by (simp add: unat_word_ariths)
  then have mid: "unat ((a + b) div 2) = (unat a + unat b) div 2" by (simp add: unat_div)
  have "unat (a + 1) = unat a + 1" using assms(1) by (simp add: unat_word_ariths)
  then have "unat a + 1 < unat b" using assms(3) by (simp add: word_less_nat_alt)
  then show "a < (a + b) div 2" "(a + b) div 2 < b" unfolding word_less_nat_alt mid by auto
qed

lemma between_gap:
  fixes a b n :: u32
  assumes "a < n" and "n < b"
  shows "a + 1 < b" "a < b"
  using order.strict_trans1 [OF inc_le [OF assms(1)] assms(2)] order.strict_trans [OF assms] by simp_all

lemma binary_search_finds:
  assumes "serves node hash sets head" and "unat head < 2 ^ 31"
    and "lo < n" and "n < hi" and "hi \<le> head" and "sets n = set_id"
    and "sets lo < set_id" and "set_id < sets hi"
  shows "\<exists>m \<le> head. search_loop node set_id (BinarySearch lo hi) = Some (Inr (hash m)) \<and> sets m = set_id"
  using assms(3-)
proof (induction "unat hi - unat lo" arbitrary: lo hi rule: less_induct)
  case less
  note order = between_gap [OF less.prems(1,2)]
  let ?mid = "(lo + hi) div 2"
  have small: "unat lo < 2 ^ 31" "unat hi < 2 ^ 31"
    using less.prems(3) order(2) assms(2) by (simp_all add: word_le_nat_alt word_less_nat_alt)
  note mid = mid_bounds [OF small order]
  have le: "?mid \<le> head" using mid(2) less.prems(3) by simp
  have turn: "search_turn node set_id (BinarySearch lo hi)
      = Inr (if sets ?mid = set_id then Inl (hash ?mid)
             else if set_id < sets ?mid then Inr (BinarySearch lo ?mid) else Inr (BinarySearch ?mid hi))"
    using le assms(1) by (simp add: search_turn_def serves_simps Let_def)
  have shrinks: "unat ?mid - unat lo < unat hi - unat lo" "unat hi - unat ?mid < unat hi - unat lo"
    using mid by (simp_all add: word_less_nat_alt)
  consider "sets ?mid = set_id" | "set_id < sets ?mid" | "sets ?mid < set_id" by force
  then show ?case
  proof cases
    case 1
    with turn le show ?thesis by (subst search_loop.simps) auto
  next
    case 2
    then have "n < ?mid" using serves_mono [OF assms(1), of ?mid n] less.prems(2,3,4) by force
    with 2 have "\<exists>m \<le> head. search_loop node set_id (BinarySearch lo ?mid) = Some (Inr (hash m)) \<and> sets m = set_id"
      by (intro less.hyps shrinks less.prems le)
    with 2 turn show ?thesis by (subst search_loop.simps) auto
  next
    case 3
    then have "?mid < n" using serves_mono [OF assms(1), of n ?mid] le less.prems(4) by force
    with 3 have "\<exists>m \<le> head. search_loop node set_id (BinarySearch ?mid hi) = Some (Inr (hash m)) \<and> sets m = set_id"
      by (intro less.hyps shrinks less.prems)
    with 3 turn show ?thesis by (subst search_loop.simps) auto
  qed
qed

lemma saturating_sub_le: "saturating_sub a b \<le> a"
  by (simp add: saturating_sub_def word_sub_le)

lemma unat_saturating_sub: "unat (saturating_sub a b) = unat a - unat b"
  by (auto simp: saturating_sub_def unat_sub word_le_nat_alt)

lemma search_back_finds:
  assumes "serves node hash sets head" and "unat head < 2 ^ 31"
    and "n < latest" and "latest \<le> head" and "sets n = set_id" and "set_id < sets latest" and "0 < step"
  shows "\<exists>m \<le> head. search_loop node set_id (SearchBack latest step) = Some (Inr (hash m)) \<and> sets m = set_id"
  using assms(3-)
proof (induction "unat latest" arbitrary: latest step rule: less_induct)
  case less
  let ?next = "saturating_sub latest step"
  have le: "?next \<le> head" using saturating_sub_le [of latest step] less.prems(2) by simp
  have turn: "search_turn node set_id (SearchBack latest step)
      = Inr (if sets ?next = set_id then Inl (hash ?next)
             else if set_id < sets ?next then Inr (SearchBack ?next (step * 2)) else Inr (BinarySearch ?next latest))"
    using le assms(1) by (simp add: search_turn_def serves_simps Let_def)
  consider "sets ?next = set_id" | "set_id < sets ?next" | "sets ?next < set_id" by force
  then show ?case
  proof cases
    case 1
    with turn le show ?thesis by (subst search_loop.simps) auto
  next
    case 2
    then have "n < ?next" using serves_mono [OF assms(1), of ?next n] less.prems by force
    then have "0 < unat ?next" by (simp add: word_less_nat_alt)
    then have bound: "unat step < unat latest" by (simp add: unat_saturating_sub)
    then have "unat step < 2 ^ 31" using less.prems(2) assms(2) by (simp add: word_le_nat_alt)
    then have "unat (step * 2) = 2 * unat step" by (simp add: unat_word_ariths)
    then have "0 < step * 2" using less.prems(5) by (simp add: word_less_nat_alt)
    moreover have "unat ?next < unat latest" using bound less.prems(5)
      by (simp add: unat_saturating_sub word_less_nat_alt)
    ultimately have "\<exists>m \<le> head. search_loop node set_id (SearchBack ?next (step * 2)) = Some (Inr (hash m)) \<and> sets m = set_id"
      using 2 \<open>n < ?next\<close> by (intro less.hyps less.prems le)
    with 2 turn show ?thesis by (subst search_loop.simps) auto
  next
    case 3
    then have "?next < n" using serves_mono [OF assms(1), of n ?next] le less.prems(3) by force
    then have "\<exists>m \<le> head. search_loop node set_id (BinarySearch ?next latest) = Some (Inr (hash m)) \<and> sets m = set_id"
      using 3 less.prems by (intro binary_search_finds [OF assms(1,2)])
    with 3 turn show ?thesis by (subst search_loop.simps) auto
  qed
qed

lemma search_finds:
  assumes "serves node hash sets head" and "unat head < 2 ^ 31" and "n \<le> head" and "sets n = set_id"
  shows "\<exists>m \<le> head. search_for_authority_set_block node set_id = Some (Inr (hash m)) \<and> sets m = set_id"
proof (cases "sets head = set_id")
  case True
  with assms(1) show ?thesis by (auto simp: search_for_authority_set_block_def serves_simps)
next
  case False
  have "sets n \<le> sets head" using serves_mono [OF assms(1,3)] by simp
  with False assms(4) have "set_id < sets head" by simp
  moreover from False assms(3,4) have "n < head" by (metis order.not_eq_order_implies_strict)
  ultimately have "\<exists>m \<le> head. search_loop node set_id (SearchBack head approx_session_duration) = Some (Inr (hash m)) \<and> sets m = set_id"
    using assms(4) by (intro search_back_finds [OF assms(1,2)]) (simp_all add: approx_session_duration_def)
  with False assms(1) show ?thesis by (simp add: search_for_authority_set_block_def serves_simps)
qed

section \<open>A set that is still to come\<close>

fun within :: "u32 \<Rightarrow> search_state \<Rightarrow> bool" where
  "within head (SearchBack latest step) \<longleftrightarrow> latest \<le> head"
| "within head (BinarySearch lo hi) \<longleftrightarrow> lo \<le> head \<and> hi \<le> head"

lemma mid_le:
  fixes a b c :: u32
  assumes "a \<le> c" and "b \<le> c" and "unat c < 2 ^ 31"
  shows "(a + b) div 2 \<le> c"
proof -
  have "unat (a + b) = unat a + unat b" using assms by (simp add: unat_word_ariths word_le_nat_alt)
  with assms show ?thesis by (simp add: word_le_nat_alt unat_div)
qed

lemma search_turn_future:
  assumes "serves node hash sets head" and "unat head < 2 ^ 31" and "sets head < set_id" and "within head state"
  shows "\<exists>state'. search_turn node set_id state = Inr (Inr state') \<and> within head state'"
proof -
  have less: "n \<le> head \<Longrightarrow> sets n < set_id" for n
    using serves_mono [OF assms(1), of n head] assms(3) by (simp add: order.strict_trans1)
  show ?thesis
  proof (cases state)
    case (SearchBack latest step)
    then have "saturating_sub latest step \<le> head" using saturating_sub_le [of latest step] assms(4) by simp
    with less [OF this] SearchBack assms(1,4) show ?thesis by (auto simp: search_turn_def serves_simps Let_def)
  next
    case (BinarySearch lo hi)
    then have "(lo + hi) div 2 \<le> head" using assms(4) by (intro mid_le [OF _ _ assms(2)]) simp_all
    with less [OF this] BinarySearch assms(1,4) show ?thesis by (auto simp: search_turn_def serves_simps Let_def)
  qed
qed

lemma search_loop_future:
  assumes "serves node hash sets head" and "unat head < 2 ^ 31" and "sets head < set_id"
    and "search_loop node set_id state = Some r"
  shows "\<not> within head state"
proof -
  have "node = node \<and> set_id = set_id \<longrightarrow> \<not> within head state"
  proof (rule search_loop.raw_induct [where P = "\<lambda>nd k st y. nd = node \<and> k = set_id \<longrightarrow> \<not> within head st",
        OF _ assms(4)], goal_cases)
    case (1 loop nd k st y)
    show ?case
    proof (intro impI notI)
      assume same: "nd = node \<and> k = set_id" and "within head st"
      from search_turn_future [OF assms(1-3) this(2)] obtain st' where
        "search_turn node set_id st = Inr (Inr st')" "within head st'" by blast
      with same 1(1) [of node set_id st' y] 1(2) show False by simp
    qed
  qed
  then show ?thesis by simp
qed

lemma search_future_loops:
  assumes "serves node hash sets head" and "unat head < 2 ^ 31" and "sets head < set_id"
  shows "search_for_authority_set_block node set_id = None"
proof -
  have "search_loop node set_id (SearchBack head approx_session_duration) = None"
    using search_loop_future [OF assms, of "SearchBack head approx_session_duration"]
    by (cases "search_loop node set_id (SearchBack head approx_session_duration)") auto
  with assms(1,3) show ?thesis by (auto simp: search_for_authority_set_block_def serves_simps)
qed

section \<open>The first block of an era\<close>

lemma back_loop_ends:
  assumes "serves node hash sets head" and "sets 0 < set_id" and "start \<le> head"
  shows "\<exists>p \<le> head. back_loop node set_id start = Some (Inr p) \<and> sets p < set_id"
  using assms(3)
proof (induction "unat start" arbitrary: start rule: less_induct)
  case less
  show ?case
  proof (cases "sets start < set_id")
    case True
    with less.prems assms(1) show ?thesis by (subst back_loop.simps) (auto simp: serves_simps)
  next
    case False
    let ?prev = "saturating_sub start approx_session_duration"
    from False assms(2) have "0 < unat start" by (cases "start = 0") (auto simp: unat_gt_0)
    then have "unat ?prev < unat start"
      by (simp add: unat_saturating_sub approx_session_duration_def)
    moreover have "?prev \<le> head" using saturating_sub_le [of start] less.prems by (rule order_trans)
    ultimately have "\<exists>p \<le> head. back_loop node set_id ?prev = Some (Inr p) \<and> sets p < set_id"
      by (rule less.hyps)
    with False less.prems assms(1) show ?thesis by (subst back_loop.simps) (auto simp: serves_simps)
  qed
qed

definition era_starts :: "(u32 \<Rightarrow> u64) \<Rightarrow> u32 \<Rightarrow> u64 \<Rightarrow> u32 \<Rightarrow> bool" where
  "era_starts sets head set_id f \<longleftrightarrow> 0 < f \<and> f \<le> head \<and> sets f = set_id \<and> sets (f - 1) + 1 = set_id"

lemma pred_word: "0 < f \<Longrightarrow> n < f \<longleftrightarrow> n \<le> f - (1 :: u32)"
  by (cases "f = 0") (auto simp: word_le_nat_alt word_less_nat_alt unat_minus_one)

lemma era_starts_less:
  assumes "serves node hash sets head" and "era_starts sets head set_id f" and "n \<le> head"
  shows "sets n < set_id \<longleftrightarrow> n < f"
proof -
  from assms(2) have f: "0 < f" "f \<le> head" "sets f = set_id" "sets (f - 1) + 1 = set_id"
    by (simp_all add: era_starts_def)
  have "f - 1 \<le> f" using f(1) by (metis order.refl pred_word order.strict_implies_order)
  then have "sets (f - 1) \<le> set_id" using serves_mono [OF assms(1)] f by blast
  with f(4) have before: "sets (f - 1) < set_id" by (metis order.not_eq_order_implies_strict word_not_simps(1) add_cancel_left_right one_neq_zero)
  show ?thesis
  proof
    assume "n < f"
    then have "n \<le> f - 1" using pred_word [OF f(1)] by blast
    then have "sets n \<le> sets (f - 1)" using serves_mono [OF assms(1)] \<open>f - 1 \<le> f\<close> f(2) by (meson order_trans)
    with before show "sets n < set_id" by simp
  next
    assume "sets n < set_id"
    then show "n < f" using serves_mono [OF assms(1), of f n] assms(3) f(3) by force
  qed
qed

lemma era_turn_at:
  assumes "serves node hash sets head" and "era_starts sets head set_id f"
    and "mid = (cur + prev) div 2" and "mid \<le> cur" and "cur \<le> head" and "sets cur = set_id"
  shows "era_turn node set_id (cur, prev)
    = Inr (if mid < f then Inr (cur, mid) else if mid = f then Inl (hash f) else Inr (mid, prev))"
proof -
  have le: "mid \<le> head" using assms(4,5) by simp
  have f: "0 < f" "sets f = set_id" "sets (f - 1) + 1 = set_id" using assms(2) by (simp_all add: era_starts_def)
  have sets_mid: "sets mid = set_id" if "f \<le> mid"
    using that serves_mono [OF assms(1)] assms(4-6) le f(2) by (metis order.antisym)
  show ?thesis
  proof (cases "mid < f")
    case True
    then have "sets mid \<noteq> set_id" using era_starts_less [OF assms(1,2) le] by force
    with True le assms(1,3) show ?thesis by (simp add: era_turn_def serves_simps Let_def)
  next
    case False
    then have at: "f \<le> mid" by simp
    with f(1) have pos: "0 < mid" by (rule order.strict_trans2)
    then have "mid - 1 < mid" by (metis order.refl pred_word)
    then have lt: "mid - 1 < head" using le by (rule order.strict_trans2)
    have prev: "previous_block node (hash mid) = Inr (hash (mid - 1))"
      using serves_simps(5) [OF assms(1) lt] by simp
    have "sets (mid - 1) + 1 = set_id \<longleftrightarrow> mid = f"
    proof
      assume eq: "sets (mid - 1) + 1 = set_id"
      show "mid = f"
      proof (rule ccontr)
        assume "mid \<noteq> f"
        with at have "f \<le> mid - 1" using pred_word [OF pos] by (metis order.not_eq_order_implies_strict)
        then have "sets (mid - 1) = set_id"
          using serves_mono [OF assms(1), of f "mid - 1"] serves_mono [OF assms(1), of "mid - 1" mid]
            sets_mid [OF at] f(2) lt le \<open>mid - 1 < mid\<close> by (metis order.antisym order.strict_implies_order)
        with eq show False by simp
      qed
    qed (use f(3) in simp)
    with False le lt prev sets_mid [OF at] assms(1,3) show ?thesis
      by (auto simp: era_turn_def serves_simps Let_def)
  qed
qed

lemma era_loop_finds:
  assumes "serves node hash sets head" and "unat head < 2 ^ 31" and "era_starts sets head set_id f"
    and "prev < f" and "f < cur" and "cur \<le> head" and "sets cur = set_id"
  shows "era_loop node set_id (cur, prev) = Some (Inr (hash f))"
  using assms(4-)
proof (induction "unat cur - unat prev" arbitrary: cur prev rule: less_induct)
  case less
  note order = between_gap [OF less.prems(1,2)]
  define mid where "mid = (cur + prev) div 2"
  have small: "unat prev < 2 ^ 31" "unat cur < 2 ^ 31"
    using less.prems(3) order(2) assms(2) by (simp_all add: word_le_nat_alt word_less_nat_alt)
  have mid: "prev < mid" "mid < cur"
    using mid_bounds [OF small order] by (simp_all add: mid_def add.commute)
  note turn = era_turn_at [OF assms(1,3) mid_def _ less.prems(3,4)]
  have shrinks: "unat cur - unat mid < unat cur - unat prev" "unat mid - unat prev < unat cur - unat prev"
    using mid by (simp_all add: word_less_nat_alt)
  consider "mid < f" | "mid = f" | "f < mid" by force
  then show ?case
  proof cases
    case 1
    with less.prems have "era_loop node set_id (cur, mid) = Some (Inr (hash f))" by (intro less.hyps shrinks)
    with 1 turn mid(2) show ?thesis by (subst era_loop.simps) simp
  next
    case 2
    with turn mid(2) show ?thesis by (subst era_loop.simps) simp
  next
    case 3
    have "mid \<le> head" using mid(2) less.prems(3) by simp
    then have "sets mid = set_id"
      using 3 serves_mono [OF assms(1), of f mid] serves_mono [OF assms(1), of mid cur] mid(2) less.prems(3,4) assms(3)
      by (simp add: era_starts_def order.strict_implies_order order.antisym)
    with 3 less.prems \<open>mid \<le> head\<close> have "era_loop node set_id (mid, prev) = Some (Inr (hash f))"
      by (intro less.hyps shrinks)
    with 3 turn mid(2) show ?thesis by (subst era_loop.simps) auto
  qed
qed

lemma era_loop_stuck:
  assumes "serves node hash sets head" and "unat head < 2 ^ 31" and "era_starts sets head set_id f"
  shows "era_loop node set_id (f, prev) = Some r \<Longrightarrow> \<not> prev < f"
proof -
  assume returns: "era_loop node set_id (f, prev) = Some r"
  have f: "f \<le> head" "sets f = set_id" using assms(3) by (simp_all add: era_starts_def)
  have "node = node \<and> set_id = set_id \<longrightarrow> \<not> (fst (f, prev) = f \<and> snd (f, prev) < f)"
  proof (rule era_loop.raw_induct [where P = "\<lambda>nd k b y. nd = node \<and> k = set_id \<longrightarrow> \<not> (fst b = f \<and> snd b < f)",
        OF _ returns], goal_cases)
    case (1 loop nd k b y)
    show ?case
    proof (intro impI notI)
      assume same: "nd = node \<and> k = set_id" and b: "fst b = f \<and> snd b < f"
      define mid where "mid = (f + snd b) div 2"
      have "unat (f + snd b) = unat f + unat (snd b)"
        using assms(2) f(1) b by (simp add: unat_word_ariths word_le_nat_alt word_less_nat_alt)
      then have "unat mid = (unat f + unat (snd b)) div 2" by (simp add: mid_def unat_div)
      moreover have "unat (snd b) < unat f" using b by (simp add: word_less_nat_alt)
      ultimately have "mid < f" unfolding word_less_nat_alt by linarith
      then have "era_turn node set_id (f, snd b) = Inr (Inr (f, mid))"
        using era_turn_at [OF assms(1,3) mid_def _ f] by simp
      with same b 1(1) [of node set_id "(f, mid)" y] 1(2) \<open>mid < f\<close> show False by (cases b) simp
    qed
  qed
  then show "\<not> prev < f" by simp
qed

lemma serves_hash_inj:
  "serves node hash sets head \<Longrightarrow> m \<le> head \<Longrightarrow> n \<le> head \<Longrightarrow> hash m = hash n \<Longrightarrow> m = n"
  by (metis serves_simps(3) sum.inject(2))

lemma find_era_first:
  assumes "serves node hash sets head" and "unat head < 2 ^ 31" and "era_starts sets head set_id f"
  shows "find_era_first_block node set_id =
    (if search_for_authority_set_block node set_id = Some (Inr (hash f)) then None else Some (Inr (hash f)))"
proof -
  have f: "0 < f" "f \<le> head" "sets f = set_id" using assms(3) by (simp_all add: era_starts_def)
  from search_finds [OF assms(1,2) f(2,3)] obtain m where m: "m \<le> head" "sets m = set_id"
    "search_for_authority_set_block node set_id = Some (Inr (hash m))" by blast
  have "f \<le> m" using era_starts_less [OF assms(1,3) m(1)] m(2) by force
  have "sets 0 < set_id" using era_starts_less [OF assms(1,3), of 0] f(1) by simp
  moreover have "saturating_sub m approx_session_duration \<le> head"
    using saturating_sub_le m(1) by (rule order_trans)
  ultimately obtain p where p: "p \<le> head" "sets p < set_id"
    "back_loop node set_id (saturating_sub m approx_session_duration) = Some (Inr p)"
    using back_loop_ends [OF assms(1)] by blast
  have "p < f" using era_starts_less [OF assms(1,3) p(1)] p(2) by simp
  have unfolded: "find_era_first_block node set_id = era_loop node set_id (m, p)"
    using m p(3) assms(1) by (simp add: find_era_first_block_def serves_simps)
  show ?thesis
  proof (cases "m = f")
    case True
    then have "era_loop node set_id (m, p) = None"
      using era_loop_stuck [OF assms] \<open>p < f\<close> by (cases "era_loop node set_id (m, p)") auto
    with True m(3) unfolded show ?thesis by simp
  next
    case False
    with \<open>f \<le> m\<close> have "era_loop node set_id (m, p) = Some (Inr (hash f))"
      using era_loop_finds [OF assms \<open>p < f\<close> _ m(1,2)] by (simp add: order.not_eq_order_implies_strict)
    moreover have "hash m \<noteq> hash f" using serves_hash_inj [OF assms(1) m(1) f(2)] False by blast
    ultimately show ?thesis using m(3) unfolded by simp
  qed
qed

section \<open>The properties\<close>

text \<open>Property C26. On a node that follows a chain with fewer than two billion blocks the search for an
  authority set ends with a block of that set, whenever the chain has one; for a set that is still to
  come it never returns.\<close>

theorem authority_set_search:
  assumes "serves node hash sets head" and "unat head < 2 ^ 31"
  shows "((\<exists>n \<le> head. sets n = set_id) \<longrightarrow>
      (\<exists>m \<le> head. search_for_authority_set_block node set_id = Some (Inr (hash m)) \<and> sets m = set_id))
    \<and> (sets head < set_id \<longrightarrow> search_for_authority_set_block node set_id = None)"
  using search_finds [OF assms] search_future_loops [OF assms] by blast

text \<open>Property C27. Where an era starts at block \<open>f\<close>, looking up the first block of the era returns \<open>f\<close>, except
  that it never returns when the search for a block of the set already hit \<open>f\<close>: the binary search
  tests the blocks below the one it starts from, and never that block itself.\<close>

theorem era_first_block_search:
  assumes "serves node hash sets head" and "unat head < 2 ^ 31" and "era_starts sets head set_id f"
  shows "find_era_first_block node set_id =
      (if search_for_authority_set_block node set_id = Some (Inr (hash f)) then None else Some (Inr (hash f)))
    \<and> (f = head \<longrightarrow> find_era_first_block node set_id = None)"
  using find_era_first [OF assms] assms
  by (auto simp: search_for_authority_set_block_def serves_simps era_starts_def)

text \<open>A chain of three thousand blocks, a new set every thousand.\<close>

definition sample_sets :: "u32 \<Rightarrow> u64" where
  "sample_sets n = (if n < 1000 then 4 else if n < 2000 then 5 else 6)"

definition sample_node :: gear_node where
  "sample_node = \<lparr>nd_finalized_head = Inr 2999, nd_block_number = \<lambda>h. Inr (Some (ucast h)),
     nd_block_hash = \<lambda>n. Inr (Some (ucast n)), nd_parent_hash = \<lambda>h. Inr (h - 1),
     nd_current_set_id = \<lambda>h. Inr (Some (sample_sets (ucast h))), nd_queued_keys = \<lambda>_. Inr None,
     nd_queue_merkle_root = \<lambda>_. Inr None\<rparr>"

lemma ucast_pred: "n < 2999 \<Longrightarrow> ucast ((n :: u32) + 1) - 1 = (ucast n :: h256)"
proof -
  assume "n < 2999"
  then have "unat n < 2999" by (simp add: word_less_nat_alt)
  then have "unat (n + 1) = unat n + 1" by (simp add: unat_word_ariths)
  then have "(ucast (n + 1) :: h256) = ucast n + 1" by (metis of_nat_1 of_nat_add of_nat_unat)
  then show ?thesis by simp
qed

lemma sample_serves: "serves sample_node ucast sample_sets 2999"
proof -
  have again: "ucast (ucast n :: h256) = (n :: u32)" for n by (rule bit_word_eqI) (simp add: bit_simps)
  have mono: "m \<le> n \<Longrightarrow> sample_sets m \<le> sample_sets n" for m n
    by (auto simp: sample_sets_def)
  show ?thesis by (simp add: serves_def sample_node_def again ucast_pred mono)
qed

theorem authority_set_search_witness:
  "(\<exists>m \<le> 2999. search_for_authority_set_block sample_node 5 = Some (Inr (ucast (m :: u32))) \<and> sample_sets m = 5)
   \<and> search_for_authority_set_block sample_node 7 = None"
proof -
  have "\<exists>n \<le> (2999 :: u32). sample_sets n = 5" by (rule exI [of _ 1500]) (simp add: sample_sets_def)
  with authority_set_search [OF sample_serves, of 5] authority_set_search [OF sample_serves, of 7]
  show ?thesis by (simp add: sample_sets_def)
qed

theorem era_first_block_search_witness:
  "find_era_first_block sample_node 5 =
    (if search_for_authority_set_block sample_node 5 = Some (Inr 1000) then None else Some (Inr 1000))"
  using era_first_block_search [OF sample_serves, of 5 1000]
  by (simp add: era_starts_def sample_sets_def)

end
