(* ===== verification/Authority_Sync.thy ===== *)
theory Authority_Sync
  imports Proof_Files Gear_Search
begin

text \<open>
  Synchronisation of the proofs with the authority sets of the Gear network
  (\<open>relayer/src/common.rs\<close> and the loop over it in \<open>relayer/src/relay_merkle_roots.rs\<close>). The prover and the
  RPC client are parameters: the proof of the first change, the step from one proof to the next and
  the set ids that the network reports, one per turn of the loop.
\<close>

section \<open>The code\<close>

datatype anyhow = StorageFailed proof_storage_error | ProverFailed string | RpcFailed string | GearRpcFailed rpc_error

text \<open>The loop over \<open>latest_proven..latest_authority_set_id\<close>; the last argument counts the turns left.\<close>

fun sync_sets :: "'s storage_ops \<Rightarrow> (proof_with_circuit_data \<Rightarrow> u64 \<Rightarrow> anyhow + proof_with_circuit_data) \<Rightarrow>
    's \<Rightarrow> proof_with_circuit_data \<Rightarrow> u64 \<Rightarrow> nat \<Rightarrow> ((anyhow + unit) \<times> 's) exec" where
  "sync_sets ops prove_change s proof set_id 0 = Ret (Inr (), s)"
| "sync_sets ops prove_change s proof set_id (Suc n) =
     (case prove_change proof set_id of
        Inl e \<Rightarrow> Ret (Inl e, s)
      | Inr proof' \<Rightarrow>
          exec_bind (so_update ops s (pw_proof proof') (set_id + 1)) (\<lambda>(r, s').
          case r of
            Inl e \<Rightarrow> Ret (Inl (StorageFailed e), s')
          | Inr _ \<Rightarrow> sync_sets ops prove_change s' proof' (set_id + 1) n))"

definition sync_authority_set_id ::
  "'s storage_ops \<Rightarrow> (anyhow + proof_with_circuit_data) \<Rightarrow>
   (proof_with_circuit_data \<Rightarrow> u64 \<Rightarrow> anyhow + proof_with_circuit_data) \<Rightarrow> u64 \<Rightarrow> 's \<Rightarrow> u64 \<Rightarrow> u64 option \<Rightarrow>
   ((anyhow + nat) \<times> 's) exec" where
  "sync_authority_set_id ops prove_genesis prove_change genesis s latest latest_proven_authority_set_id =
     (case latest_proven_authority_set_id of
        None \<Rightarrow>
          if latest \<le> genesis then Ret (Inr 0, s)
          else (case prove_genesis of
             Inl e \<Rightarrow> Ret (Inl e, s)
           | Inr proof \<Rightarrow>
               exec_bind (so_init ops s proof genesis) (\<lambda>(r, s').
               case r of Inl e \<Rightarrow> Panic ''called Result::unwrap() on an Err value'' | Inr _ \<Rightarrow> Ret (Inr 1, s')))
      | Some latest_proven \<Rightarrow>
          if latest_proven < genesis + 1 then Panic ''Invalid state of proof storage detected''
          else if latest_proven < latest then
            exec_bind (so_get_proof_for_authority_set_id ops s latest_proven) (\<lambda>(r, s').
            case r of
              Inl e \<Rightarrow> Ret (Inl (StorageFailed e), s')
            | Inr proof \<Rightarrow>
                exec_bind (sync_sets ops prove_change s' proof latest_proven (unat latest - unat latest_proven))
                  (\<lambda>(r, s''). case r of
                    Inl e \<Rightarrow> Ret (Inl e, s'')
                  | Inr _ \<Rightarrow> Ret (Inr (unat (latest - latest_proven)), s'')))
          else if latest_proven = latest then Ret (Inr 0, s)
          else Panic ''Invalid state of proof storage detected'')"

text \<open>One turn: \<open>observed\<close> is the authority set id of the latest finalized block.\<close>

definition sync_authority_set ::
  "'s storage_ops \<Rightarrow> (anyhow + proof_with_circuit_data) \<Rightarrow>
   (proof_with_circuit_data \<Rightarrow> u64 \<Rightarrow> anyhow + proof_with_circuit_data) \<Rightarrow> u64 \<Rightarrow> anyhow + u64 \<Rightarrow> 's \<Rightarrow>
   ((anyhow + nat) \<times> 's) exec" where
  "sync_authority_set ops prove_genesis prove_change genesis observed s =
     (case observed of
        Inl e \<Rightarrow> Panic ''should not fail''
      | Inr latest \<Rightarrow> sync_authority_set_id ops prove_genesis prove_change genesis s latest
          (so_get_latest_authority_set_id ops s))"

partial_function (option) sync_authority_set_completely ::
  "'s storage_ops \<Rightarrow> (anyhow + proof_with_circuit_data) \<Rightarrow>
   (proof_with_circuit_data \<Rightarrow> u64 \<Rightarrow> anyhow + proof_with_circuit_data) \<Rightarrow> u64 \<Rightarrow> (nat \<Rightarrow> anyhow + u64) \<Rightarrow>
   nat \<Rightarrow> 's \<Rightarrow> ((anyhow + unit) \<times> 's) exec option" where
  "sync_authority_set_completely ops prove_genesis prove_change genesis observed turn s =
     (case sync_authority_set ops prove_genesis prove_change genesis (observed turn) s of
        Panic m \<Rightarrow> Some (Panic m)
      | Ret res \<Rightarrow> (case fst res of
          Inl e \<Rightarrow> Some (Ret (Inl e, snd res))
        | Inr sync_steps \<Rightarrow>
            if sync_steps = 0 then Some (Ret (Inr (), snd res))
            else sync_authority_set_completely ops prove_genesis prove_change genesis observed (Suc turn) (snd res)))"

section \<open>The chain of proofs\<close>

text \<open>
  The proofs that the prover makes in turn from a first one, up to the first failure.
\<close>

fun prove_chain :: "(proof_with_circuit_data \<Rightarrow> u64 \<Rightarrow> anyhow + proof_with_circuit_data) \<Rightarrow>
    proof_with_circuit_data \<Rightarrow> u64 \<Rightarrow> nat \<Rightarrow> bytes list \<times> anyhow option" where
  "prove_chain prove_change proof set_id 0 = ([], None)"
| "prove_chain prove_change proof set_id (Suc n) =
     (case prove_change proof set_id of
        Inl e \<Rightarrow> ([], Some e)
      | Inr proof' \<Rightarrow> (case prove_chain prove_change proof' (set_id + 1) n of
          (ps, e) \<Rightarrow> (pw_proof proof' # ps, e)))"

definition log_extend :: "bytes list \<Rightarrow> proof_log \<Rightarrow> proof_log" where
  "log_extend ps l = l\<lparr>pl_proofs := pl_proofs l @ ps\<rparr>"

lemma log_extend_simps [simp]:
  "log_extend [] l = l" "log_extend ps (log_append p l) = log_extend (p # ps) l"
  by (simp_all add: log_extend_def log_append_def)

lemma log_last_append: "log_ok l \<Longrightarrow> log_last (log_append p l) = log_last l + 1"
  by (cases "pl_proofs l" rule: rev_cases) (auto simp: log_last_def log_append_def log_ok_def)

lemma log_last_extend: "log_ok l \<Longrightarrow> log_last (log_extend ps l) = log_last l + of_nat (length ps)"
  by (cases "pl_proofs l" rule: rev_cases) (auto simp: log_last_def log_extend_def log_ok_def)

lemma log_get_last:
  assumes "log_ok l"
  shows "log_get l (log_last l) = Inr \<lparr>pw_proof = last (pl_proofs l), pw_circuit_data = pl_circuit_data l\<rparr>"
proof -
  have "map_of (numbered (pl_first l) (pl_proofs l)) (log_last l) = Some (last (pl_proofs l))"
  proof (rule map_of_is_SomeI)
    show "distinct (map fst (numbered (pl_first l) (pl_proofs l)))"
      using assms by (intro bt_ok_distinct numbered_ok) (simp add: log_ok_def)
    show "(log_last l, last (pl_proofs l)) \<in> set (numbered (pl_first l) (pl_proofs l))"
      using log_last_entry [OF assms] last_in_set [of "numbered (pl_first l) (pl_proofs l)"]
      by (auto simp: last_opt_Some_iff)
  qed
  then show ?thesis using assms by (simp add: log_get_def log_lookup_numbered)
qed

lemma prove_chain_length: "length (fst (prove_chain pc pw set_id n)) \<le> n"
  by (induction pc pw set_id n rule: prove_chain.induct) (auto split: sum.splits prod.splits)

definition always_proves :: "(proof_with_circuit_data \<Rightarrow> u64 \<Rightarrow> anyhow + proof_with_circuit_data) \<Rightarrow> bool" where
  "always_proves pc \<longleftrightarrow> (\<forall>p k. \<exists>p'. pc p k = Inr p')"

lemma prove_chain_complete:
  "always_proves pc \<Longrightarrow> \<exists>ps. prove_chain pc pw set_id n = (ps, None) \<and> length ps = n"
proof (induction n arbitrary: pw set_id)
  case (Suc n)
  obtain p' where p': "pc pw set_id = Inr p'" using Suc.prems by (auto simp: always_proves_def)
  from Suc.IH [OF Suc.prems, of p' "set_id + 1"] show ?case by (auto simp: p')
qed simp

section \<open>Synchronisation over any storage that simulates the log\<close>

text \<open>
  What is proven before turn \<open>t\<close> when the network reports \<open>seen 0\<close>, \<open>seen 1\<close>, ... and the storage held the
  last set \<open>k\<close> at first: the first proof is that of the set after the genesis set, every other turn
  proves up to the set it sees. The loop settles at a turn that sees what is proven already.
\<close>

fun proven_before :: "u64 \<Rightarrow> (nat \<Rightarrow> u64) \<Rightarrow> u64 option \<Rightarrow> nat \<Rightarrow> u64 option" where
  "proven_before genesis seen k 0 = k"
| "proven_before genesis seen k (Suc t) =
     (case proven_before genesis seen k t of
        None \<Rightarrow> if seen t \<le> genesis then None else Some (genesis + 1)
      | Some _ \<Rightarrow> Some (seen t))"

definition settled_at :: "u64 \<Rightarrow> (nat \<Rightarrow> u64) \<Rightarrow> u64 option \<Rightarrow> nat \<Rightarrow> bool" where
  "settled_at genesis seen k t \<longleftrightarrow>
     (case proven_before genesis seen k t of None \<Rightarrow> seen t \<le> genesis | Some p \<Rightarrow> p = seen t)"

text \<open>Every turn that does not end the loop moves the last proven set forward.\<close>

definition distance :: "proof_log option \<Rightarrow> nat" where
  "distance a = (case a of None \<Rightarrow> 2 ^ 64 + 1 | Some l \<Rightarrow> 2 ^ 64 - unat (log_last l))"

context proof_storage
begin

lemma sync_sets_log:
  assumes "rel s (Some l)" and "unat (log_last l) + n < 2 ^ 64"
  shows "\<exists>s'. sync_sets ops pc s pw (log_last l) n
      = Ret ((case snd (prove_chain pc pw (log_last l) n) of None \<Rightarrow> Inr () | Some e \<Rightarrow> Inl e), s')
    \<and> rel s' (Some (log_extend (fst (prove_chain pc pw (log_last l) n)) l))"
  using assms
proof (induction n arbitrary: s l pw)
  case (Suc n)
  show ?case
  proof (cases "pc pw (log_last l)")
    case (Inl e)
    with Suc.prems show ?thesis by auto
  next
    case (Inr p')
    have next_id: "unat (log_last l + 1) = unat (log_last l) + 1"
      using unat_offset [of "log_last l" 1] Suc.prems(2) by simp
    then have "log_last l + 1 \<noteq> 0" by auto
    from update_log [OF Suc.prems(1) this, of "pw_proof p'"] obtain s' where
      upd: "so_update ops s (pw_proof p') (log_last l + 1) = Ret (Inr (), s')"
        "rel s' (Some (log_append (pw_proof p') l))" by auto
    have last: "log_last (log_append (pw_proof p') l) = log_last l + 1"
      using rel_ok [OF Suc.prems(1)] by (rule log_last_append)
    from Suc.IH [OF upd(2), of p'] Suc.prems(2) show ?thesis
      by (auto simp: last next_id Inr upd(1) split: prod.splits)
  qed
qed simp

lemma sync_from_log:
  assumes "rel s (Some l)" and "genesis + 1 \<le> log_last l" and "log_last l \<le> latest"
    and pc: "always_proves pc"
  shows "\<exists>s' ps. sync_authority_set_id ops pg pc genesis s latest (Some (log_last l))
      = Ret (Inr (unat latest - unat (log_last l)), s')
    \<and> rel s' (Some (log_extend ps l)) \<and> log_last (log_extend ps l) = latest"
proof (cases "log_last l = latest")
  case True
  with assms show ?thesis by (auto simp: sync_authority_set_id_def intro!: exI [of _ "[]"])
next
  case False
  with assms(3) have less: "log_last l < latest" by simp
  have ok: "log_ok l" using rel_ok [OF assms(1)] .
  from get_proof [OF assms(1), of "log_last l"] obtain s' where
    get: "so_get_proof_for_authority_set_id ops s (log_last l) =
      Ret (Inr \<lparr>pw_proof = last (pl_proofs l), pw_circuit_data = pl_circuit_data l\<rparr>, s')" "rel s' (Some l)"
    by (auto simp: log_get_last [OF ok])
  let ?n = "unat latest - unat (log_last l)"
  have "unat (log_last l) \<le> unat latest" using assms(3) by (simp add: word_le_nat_alt)
  then have bound: "unat (log_last l) + ?n < 2 ^ 64" using unsigned_less [of latest, where ?'a = nat] by simp
  obtain ps where chain: "prove_chain pc \<lparr>pw_proof = last (pl_proofs l), pw_circuit_data = pl_circuit_data l\<rparr> (log_last l) ?n
      = (ps, None)" "length ps = ?n"
    using prove_chain_complete [OF pc] by blast
  from sync_sets_log [OF get(2) bound, of pc "\<lparr>pw_proof = last (pl_proofs l), pw_circuit_data = pl_circuit_data l\<rparr>"]
  obtain s'' where
    sets: "sync_sets ops pc s' \<lparr>pw_proof = last (pl_proofs l), pw_circuit_data = pl_circuit_data l\<rparr> (log_last l) ?n = Ret (Inr (), s'')"
      "rel s'' (Some (log_extend ps l))"
    by (auto simp: chain)
  have "log_last (log_extend ps l) = latest"
    using \<open>unat (log_last l) \<le> unat latest\<close> bound
    by (simp add: log_last_extend [OF ok] chain(2) word_unat_eq_iff unat_offset del: of_nat_diff)
  moreover have "unat (latest - log_last l) = ?n" using assms(3) by (rule unat_sub)
  ultimately show ?thesis using assms(2) less get sets by (auto simp: sync_authority_set_id_def not_less)
qed

lemma sync_uninitialized:
  assumes "rel s None" and "pg = Inr pw" and "genesis < latest"
  shows "\<exists>s'. sync_authority_set_id ops pg pc genesis s latest None = Ret (Inr 1, s')
    \<and> rel s' (Some (log_new pw genesis))"
proof -
  from init_log [OF assms(1), of pw genesis] obtain s' where
    "so_init ops s pw genesis = Ret (Inr (), s')" "rel s' (Some (log_new pw genesis))" by blast
  with assms(2,3) show ?thesis by (simp add: sync_authority_set_id_def)
qed

lemma sync_completely_ends:
  assumes "rel s a" and "proven_before genesis seen k turn = map_option log_last a"
    and "case a of None \<Rightarrow> True | Some l \<Rightarrow> genesis + 1 \<le> log_last l \<and> log_last l \<le> seen turn"
    and "\<And>t. seen t \<le> seen (Suc t)" and "pg = Inr pw" and "always_proves pc"
  shows "\<exists>t a' s'. turn \<le> t \<and> (\<forall>u. turn \<le> u \<longrightarrow> u < t \<longrightarrow> \<not> settled_at genesis seen k u) \<and> settled_at genesis seen k t
    \<and> sync_authority_set_completely ops pg pc genesis (\<lambda>t. Inr (seen t)) turn s = Some (Ret (Inr (), s'))
    \<and> rel s' a' \<and> map_option log_last a' = proven_before genesis seen k t"
  using assms(1-3)
proof (induction "distance a" arbitrary: a s turn rule: less_induct)
  case less
  let ?loop = "sync_authority_set_completely ops pg pc genesis (\<lambda>t. Inr (seen t))"
  let ?ends = "\<lambda>turn s. \<exists>t a' s'. turn \<le> t \<and> (\<forall>u. turn \<le> u \<longrightarrow> u < t \<longrightarrow> \<not> settled_at genesis seen k u) \<and> settled_at genesis seen k t
    \<and> ?loop turn s = Some (Ret (Inr (), s')) \<and> rel s' a' \<and> map_option log_last a' = proven_before genesis seen k t"
  have done_now: "?ends turn s" if "settled_at genesis seen k turn" "?loop turn s = Some (Ret (Inr (), s'))" "rel s' a'"
      "map_option log_last a' = proven_before genesis seen k turn" for s' a'
    using that by (intro exI [of _ turn] exI [of _ a'] exI [of _ s']) auto
  have later: "?ends turn s" if "\<not> settled_at genesis seen k turn" "?loop turn s = ?loop (Suc turn) s'" "?ends (Suc turn) s'" for s'
  proof -
    from that(3) obtain t a'' s'' where t: "Suc turn \<le> t" "\<forall>u. Suc turn \<le> u \<longrightarrow> u < t \<longrightarrow> \<not> settled_at genesis seen k u"
      and rest: "settled_at genesis seen k t" "?loop (Suc turn) s' = Some (Ret (Inr (), s''))" "rel s'' a''"
        "map_option log_last a'' = proven_before genesis seen k t" by blast
    have "\<not> settled_at genesis seen k u" if "turn \<le> u" "u < t" for u
      using t(2) \<open>\<not> settled_at genesis seen k turn\<close> that by (cases "u = turn") auto
    with t(1) rest that(2) show ?thesis by (intro exI [of _ t] exI [of _ a''] exI [of _ s'']) auto
  qed
  show ?case
  proof (cases a)
    case None
    with less.prems(2) have before: "proven_before genesis seen k turn = None" by simp
    show ?thesis
    proof (cases "seen turn \<le> genesis")
      case True
      then have "?loop turn s = Some (Ret (Inr (), s))"
        using get_latest [OF less.prems(1)] None
        by (subst sync_authority_set_completely.simps) (simp add: sync_authority_set_def sync_authority_set_id_def)
      with True before less.prems(1,2) show ?thesis by (intro done_now [of s a]) (simp_all add: settled_at_def)
    next
      case False
      then have gt: "genesis < seen turn" by simp
      from sync_uninitialized [OF less.prems(1) [unfolded None] assms(5) gt] obtain s' where
        s': "sync_authority_set_id ops pg pc genesis s (seen turn) None = Ret (Inr 1, s')"
          "rel s' (Some (log_new pw genesis))" by blast
      have last: "log_last (log_new pw genesis) = genesis + 1" by (simp add: log_last_def log_new_def)
      have "genesis + 1 \<le> seen (Suc turn)" using inc_le [OF gt] assms(4) [of turn] by simp
      then have "?ends (Suc turn) s'"
        by (intro less.hyps [OF _ s'(2)]) (use False before in \<open>auto simp: distance_def None last\<close>)
      moreover have "?loop turn s = ?loop (Suc turn) s'"
        using s'(1) get_latest [OF less.prems(1)]
        by (subst sync_authority_set_completely.simps) (simp add: sync_authority_set_def None)
      ultimately show ?thesis using False before by (intro later) (simp_all add: settled_at_def)
    qed
  next
    case (Some l)
    with less.prems have l: "genesis + 1 \<le> log_last l" "log_last l \<le> seen turn"
      and before: "proven_before genesis seen k turn = Some (log_last l)" by auto
    from sync_from_log [OF less.prems(1) [unfolded Some] l assms(6), of pg] obtain s' ps where
      s': "sync_authority_set_id ops pg pc genesis s (seen turn) (Some (log_last l))
          = Ret (Inr (unat (seen turn) - unat (log_last l)), s')"
        "rel s' (Some (log_extend ps l))" "log_last (log_extend ps l) = seen turn" by blast
    have step: "sync_authority_set ops pg pc genesis (Inr (seen turn)) s = Ret (Inr (unat (seen turn) - unat (log_last l)), s')"
      using s'(1) get_latest [OF less.prems(1)] by (simp add: sync_authority_set_def Some)
    show ?thesis
    proof (cases "seen turn = log_last l")
      case True
      have "?loop turn s = Some (Ret (Inr (), s'))" using step True by (subst sync_authority_set_completely.simps) simp
      with s'(2,3) before True show ?thesis by (intro done_now [of s' "Some (log_extend ps l)"]) (simp_all add: settled_at_def)
    next
      case False
      with l(2) have lt: "unat (log_last l) < unat (seen turn)" by (simp add: word_less_nat_alt [symmetric])
      have "?ends (Suc turn) s'"
        using lt l assms(4) [of turn] unsigned_less [of "seen turn", where ?'a = nat]
        by (intro less.hyps [OF _ s'(2)]) (auto simp: distance_def Some s'(3) before)
      moreover have "?loop turn s = ?loop (Suc turn) s'"
        using step lt by (subst sync_authority_set_completely.simps) simp
      ultimately show ?thesis using False before by (intro later) (simp_all add: settled_at_def)
    qed
  qed
qed

end

section \<open>The loop ends\<close>

text \<open>Property C18. On a proof storage on a disk that takes every file, as earlier calls left it behind,
  with a prover and an RPC client that succeed, the loop that follows the authority sets of the network
  ends, however often the network moves on meanwhile. It ends at the first turn that sees the set that
  is proven already, no earlier and no later, and leaves that set proven last (or nothing, while the
  network is still at the genesis set).\<close>

theorem authority_sync_terminates:
  assumes "\<forall>t. seen t \<le> seen (Suc t)" and "always_proves prove_change"
    and "\<forall>c \<in> set cs. call_fits c" and "run_calls (storage_step fs_ops) fs_empty cs = Ret (answers, s)"
    and "\<forall>k. im_get_latest_authority_set_id (fs_cache s) = Some k \<longrightarrow> genesis + 1 \<le> k \<and> k \<le> seen 0"
  shows "\<exists>t s'. sync_authority_set_completely fs_ops (Inr pw) prove_change genesis (\<lambda>t. Inr (seen t)) 0 s
      = Some (Ret (Inr (), s'))
    \<and> settled_at genesis seen (im_get_latest_authority_set_id (fs_cache s)) t
    \<and> (\<forall>u < t. \<not> settled_at genesis seen (im_get_latest_authority_set_id (fs_cache s)) u)
    \<and> im_get_latest_authority_set_id (fs_cache s') = (if proven_before genesis seen (im_get_latest_authority_set_id (fs_cache s)) t = None
        then None else Some (seen t))"
proof -
  have latest: "fs_rel s a \<Longrightarrow> im_get_latest_authority_set_id (fs_cache s) = map_option log_last a" for s a
    using fs.get_latest [of s a] by (simp add: fs_ops_def)
  from fs.run_refines [OF fs_rel_empty assms(3)] assms(4) obtain a where a: "fs_rel s a"
    by (cases rule: exec_rel_cases) (auto simp: same_answer_def)
  let ?k = "im_get_latest_authority_set_id (fs_cache s)"
  have start: "proven_before genesis seen ?k 0 = map_option log_last a"
    "case a of None \<Rightarrow> True | Some l \<Rightarrow> genesis + 1 \<le> log_last l \<and> log_last l \<le> seen 0"
    using assms(5) latest [OF a] by (cases a; simp)+
  from fs.sync_completely_ends [OF a start _ refl assms(2), of pw] assms(1) obtain t a' s' where
    ends: "sync_authority_set_completely fs_ops (Inr pw) prove_change genesis (\<lambda>t. Inr (seen t)) 0 s = Some (Ret (Inr (), s'))"
      "settled_at genesis seen ?k t" "\<forall>u < t. \<not> settled_at genesis seen ?k u"
      "fs_rel s' a'" "map_option log_last a' = proven_before genesis seen ?k t" by auto
  have "im_get_latest_authority_set_id (fs_cache s') = (if proven_before genesis seen ?k t = None then None else Some (seen t))"
    using ends(2,5) latest [OF ends(4)] by (auto simp: settled_at_def split: option.splits)
  with ends(1-3) show ?thesis by blast
qed

text \<open>The network moves from the set 6 to the set 9 after the first turn; the loop ends at the third turn.\<close>

theorem authority_sync_terminates_witness:
  "\<exists>s'. sync_authority_set_completely fs_ops (Inr \<lparr>pw_proof = [1], pw_circuit_data = [2]\<rparr>)
      (\<lambda>p k. Inr p) 4 (\<lambda>t. Inr (if t = 0 then 6 else 9)) 0 fs_empty = Some (Ret (Inr (), s'))
    \<and> im_get_latest_authority_set_id (fs_cache s') = Some 9"
proof -
  let ?seen = "\<lambda>t :: nat. if t = 0 then 6 else 9 :: u64"
  have none: "im_get_latest_authority_set_id (fs_cache fs_empty) = None"
    by (simp add: fs_empty_def im_default_def im_get_latest_authority_set_id_def)
  have not_settled: "\<not> settled_at 4 ?seen None 0" "\<not> settled_at 4 ?seen None 1" and settled: "settled_at 4 ?seen None (Suc (Suc 0))"
    by (simp_all add: settled_at_def)
  have mono: "\<forall>t. ?seen t \<le> ?seen (Suc t)" by simp
  from authority_sync_terminates [OF mono, of "\<lambda>p k. Inr p" "[]" "[]" fs_empty 4 "\<lparr>pw_proof = [1], pw_circuit_data = [2]\<rparr>"]
  obtain t s' where run: "sync_authority_set_completely fs_ops (Inr \<lparr>pw_proof = [1], pw_circuit_data = [2]\<rparr>)
      (\<lambda>p k. Inr p) 4 (\<lambda>t. Inr (?seen t)) 0 fs_empty = Some (Ret (Inr (), s'))"
    and t: "settled_at 4 ?seen None t" "\<forall>u < t. \<not> settled_at 4 ?seen None u"
    and last: "im_get_latest_authority_set_id (fs_cache s') = (if proven_before 4 ?seen None t = None then None else Some (?seen t))"
    by (auto simp: always_proves_def none)
  have "t \<noteq> 0" using t(1) not_settled(1) by metis
  moreover have "t \<noteq> 1" using t(1) not_settled(2) by metis
  moreover have "\<not> Suc (Suc 0) < t" using t(2) settled by blast
  ultimately have "t = Suc (Suc 0)" by linarith
  with last run show ?thesis by auto
qed

end
