(* ===== verification/Merkle_Relayer.thy ===== *)
theory Merkle_Relayer
  imports Authority_Sync
begin

text \<open>
  The relayer of merkle roots (\<open>relayer/src/relay_merkle_roots.rs\<close>): it seals every era by submitting the
  merkle root of the first block of the next era to Ethereum, follows the submitted transactions
  until they are final, and submits the root of the latest finalized block. The Gear node, the Ethereum
  client and the prover are one record of answers, constant during a turn of the main loop; the calls
  to the Gear node go through the client of \<open>Gear_Search\<close>, whose searches may not return, and so may
  the prover.
\<close>

section \<open>Data\<close>

type_synonym tx_hash = h256

record final_proof =
  fp_proof :: bytes
  fp_block_number :: u32
  fp_merkle_root :: h256

datatype tx_status = TxFinalized | TxPending | TxFailed

record relay_env =
  re_node :: gear_node
  re_prove_final :: "proof_with_circuit_data \<Rightarrow> h256 \<Rightarrow> (anyhow + final_proof) option"
  re_read_finalized_merkle_root :: "u32 \<Rightarrow> anyhow + h256 option"
  re_provide_merkle_root :: "final_proof \<Rightarrow> anyhow + tx_hash"
  re_get_tx_status :: "tx_hash \<Rightarrow> anyhow + tx_status"
  re_get_approx_balance :: "anyhow + nat"

record sealed_not_finalized_era =
  se_era :: u64
  se_merkle_root_block :: u32
  se_tx_hash :: tx_hash
  se_proof :: final_proof

record eras =
  er_last_sealed :: u64
  er_sealed_not_finalized :: "sealed_not_finalized_era list"

record submitted_merkle_root =
  sm_tx_hash :: tx_hash
  sm_proof :: final_proof
  sm_finalized :: bool

record 's merkle_root_relayer =
  mr_proof_storage :: 's
  mr_eras :: eras
  mr_latest_submitted_merkle_root :: "submitted_merkle_root option"

text \<open>The operator \<open>?\<close>: an error returns at once, with the state reached so far.\<close>

definition propagate :: "'e + 'a \<Rightarrow> 's \<Rightarrow> ('a \<Rightarrow> (('e + 'b) \<times> 's) exec) \<Rightarrow> (('e + 'b) \<times> 's) exec" where
  "propagate r s f = (case r of Inl e \<Rightarrow> Ret (Inl e, s) | Inr a \<Rightarrow> f a)"

lemma propagate_simps [simp]: "propagate (Inl e) s f = Ret (Inl e, s)" "propagate (Inr a) s f = f a"
  by (simp_all add: propagate_def)


text \<open>The conversion of the errors of the Gear client by \<open>?\<close>, and a call that may not return.\<close>

definition gear :: "rpc_error + 'a \<Rightarrow> anyhow + 'a" where
  "gear r = (case r of Inl e \<Rightarrow> Inl (GearRpcFailed e) | Inr a \<Rightarrow> Inr a)"

lemma gear_simps [simp]: "gear (Inl e) = Inl (GearRpcFailed e)" "gear (Inr a) = Inr a"
  by (simp_all add: gear_def)

lemma gear_Inr_iff [simp]: "gear r = Inr a \<longleftrightarrow> r = Inr a"
  by (cases r) auto

definition await :: "'a option \<Rightarrow> ('a \<Rightarrow> 'b option) \<Rightarrow> 'b option" where
  "await call f = (case call of None \<Rightarrow> None | Some a \<Rightarrow> f a)"

lemma await_simps [simp]: "await None f = None" "await (Some a) f = f a"
  by (simp_all add: await_def)



definition attempt :: "'e + 'a \<Rightarrow> 's \<Rightarrow> ('a \<Rightarrow> (('e + 'b) \<times> 's) exec option) \<Rightarrow> (('e + 'b) \<times> 's) exec option" where
  "attempt r s f = (case r of Inl e \<Rightarrow> Some (Ret (Inl e, s)) | Inr a \<Rightarrow> f a)"

lemma attempt_simps [simp]: "attempt (Inl e) s f = Some (Ret (Inl e, s))" "attempt (Inr a) s f = f a"
  by (simp_all add: attempt_def)



section \<open>Eras\<close>

definition eras_new :: "relay_env \<Rightarrow> u64 option \<Rightarrow> anyhow + eras" where
  "eras_new env last_sealed =
     res_bind (case last_sealed of
         Some l \<Rightarrow> Inr l
       | None \<Rightarrow>
           res_bind (gear (latest_finalized_block (re_node env))) (\<lambda>latest.
           res_bind (gear (authority_set_id_at (re_node env) latest)) (\<lambda>set_id. Inr (max set_id 2 - 1))))
       (\<lambda>last_sealed. Inr \<lparr>er_last_sealed = last_sealed, er_sealed_not_finalized = []\<rparr>)"

definition seal_era ::
  "'s storage_ops \<Rightarrow> relay_env \<Rightarrow> u64 \<Rightarrow> eras \<times> 's \<Rightarrow> ((anyhow + unit) \<times> eras \<times> 's) exec option" where
  "seal_era ops env authority_set_id es =
     await (find_era_first_block (re_node env) (authority_set_id + 1)) (\<lambda>found.
     attempt (gear found) es (\<lambda>block.
     attempt (gear (block_hash_to_number (re_node env) block)) es (\<lambda>block_number.
     attempt (gear (fetch_queue_merkle_root (re_node env) block)) es (\<lambda>queue_merkle_root.
     if queue_merkle_root = 0 then Some (Ret (Inr (), es))
     else attempt (re_read_finalized_merkle_root env block_number) es (\<lambda>root.
     if root \<noteq> None then Some (Ret (Inr (), es))
     else (case so_get_proof_for_authority_set_id ops (snd es) authority_set_id of
         Panic m \<Rightarrow> Some (Panic m)
       | Ret (Inl e, storage) \<Rightarrow> Some (Ret (Inl (StorageFailed e), (fst es, storage)))
       | Ret (Inr inner_proof, storage) \<Rightarrow>
           await (re_prove_final env inner_proof block) (\<lambda>proved.
           let es' = (fst es, storage) in
           Some (propagate proved es' (\<lambda>proof.
             exec_bind (ensure (fp_block_number proof = block_number) ''prove_final changed the block number'') (\<lambda>_.
             propagate (re_provide_merkle_root env proof) es' (\<lambda>tx_hash.
             Ret (Inr (), ((fst es)\<lparr>er_sealed_not_finalized := er_sealed_not_finalized (fst es) @
               [\<lparr>se_era = authority_set_id, se_merkle_root_block = block_number, se_tx_hash = tx_hash,
                 se_proof = proof\<rparr>]\<rparr>, storage)))))))))))))"

partial_function (option) seal_loop ::
  "'s storage_ops \<Rightarrow> relay_env \<Rightarrow> u64 \<Rightarrow> eras \<times> 's \<Rightarrow> ((anyhow + unit) \<times> eras \<times> 's) exec option" where
  "seal_loop ops env current_era es =
     (if er_last_sealed (fst es) + 2 \<le> current_era then
        (case seal_era ops env (er_last_sealed (fst es) + 1) es of
           None \<Rightarrow> None
         | Some step \<Rightarrow> (case step of
             Panic m \<Rightarrow> Some (Panic m)
           | Ret res \<Rightarrow> (case fst res of
               Inl e \<Rightarrow> Some (Ret (Inl e, snd res))
             | Inr _ \<Rightarrow>
                 seal_loop ops env current_era
                   ((fst (snd res))\<lparr>er_last_sealed := er_last_sealed (fst (snd res)) + 1\<rparr>, snd (snd res)))))
      else Some (Ret (Inr (), es)))"

definition try_seal :: "'s storage_ops \<Rightarrow> relay_env \<Rightarrow> eras \<times> 's \<Rightarrow> ((anyhow + unit) \<times> eras \<times> 's) exec option" where
  "try_seal ops env es =
     (case res_bind (gear (latest_finalized_block (re_node env))) (\<lambda>head. gear (signed_by_authority_set_id (re_node env) head)) of
        Inl e \<Rightarrow> Some (Ret (Inl e, es))
      | Inr current_era \<Rightarrow> seal_loop ops env current_era es)"

definition era_try_finalize ::
  "relay_env \<Rightarrow> sealed_not_finalized_era \<Rightarrow> anyhow + (bool \<times> sealed_not_finalized_era)" where
  "era_try_finalize env era =
     res_bind (re_get_tx_status env (se_tx_hash era)) (\<lambda>tx_status.
     case tx_status of
       TxFinalized \<Rightarrow> Inr (True, era)
     | TxPending \<Rightarrow> Inr (False, era)
     | TxFailed \<Rightarrow>
         res_bind (re_read_finalized_merkle_root env (se_merkle_root_block era)) (\<lambda>root.
         if root \<noteq> None then Inr (True, era)
         else res_bind (re_provide_merkle_root env (se_proof era)) (\<lambda>tx_hash.
           Inr (False, era\<lparr>se_tx_hash := tx_hash\<rparr>))))"

text \<open>The loop over the indices from the last to the first; the argument is the number of indices left.\<close>

fun finalize_loop ::
  "relay_env \<Rightarrow> nat \<Rightarrow> sealed_not_finalized_era list \<Rightarrow> (anyhow + unit) \<times> sealed_not_finalized_era list" where
  "finalize_loop env 0 sealed = (Inr (), sealed)"
| "finalize_loop env (Suc i) sealed =
     (case era_try_finalize env (sealed ! i) of
        Inl e \<Rightarrow> (Inl e, sealed)
      | Inr (True, _) \<Rightarrow> finalize_loop env i (take i sealed @ drop (Suc i) sealed)
      | Inr (False, era) \<Rightarrow> finalize_loop env i (sealed[i := era]))"

definition try_finalize :: "relay_env \<Rightarrow> eras \<Rightarrow> (anyhow + unit) \<times> eras" where
  "try_finalize env eras =
     (let (r, sealed) = finalize_loop env (length (er_sealed_not_finalized eras)) (er_sealed_not_finalized eras)
      in (r, eras\<lparr>er_sealed_not_finalized := sealed\<rparr>))"

definition eras_process ::
  "'s storage_ops \<Rightarrow> relay_env \<Rightarrow> eras \<times> 's \<Rightarrow> ((anyhow + unit) \<times> eras \<times> 's) exec option" where
  "eras_process ops env es =
     (case try_seal ops env es of
        None \<Rightarrow> None
      | Some (Panic m) \<Rightarrow> Some (Panic m)
      | Some (Ret (Inl e, es')) \<Rightarrow> Some (Ret (Inl e, es'))
      | Some (Ret (Inr _, (eras, storage))) \<Rightarrow>
          let (r, eras') = try_finalize env eras in Some (Ret (r, (eras', storage))))"

section \<open>The latest root\<close>

definition submit_merkle_root ::
  "'s storage_ops \<Rightarrow> relay_env \<Rightarrow> 's merkle_root_relayer \<Rightarrow> ((anyhow + unit) \<times> 's merkle_root_relayer) exec option" where
  "submit_merkle_root ops env this =
     attempt (gear (latest_finalized_block (re_node env))) this (\<lambda>finalized_head.
     attempt (gear (block_hash_to_number (re_node env) finalized_head)) this (\<lambda>finalized_block_number.
     attempt (gear (fetch_queue_merkle_root (re_node env) finalized_head)) this (\<lambda>merkle_root.
     if merkle_root = 0 then Some (Ret (Inr (), this))
     else if (case mr_latest_submitted_merkle_root this of
         Some submitted \<Rightarrow> fp_merkle_root (sm_proof submitted) = merkle_root | None \<Rightarrow> False)
     then Some (Ret (Inr (), this))
     else attempt (gear (signed_by_authority_set_id (re_node env) finalized_head)) this (\<lambda>authority_set_id.
     (case so_get_proof_for_authority_set_id ops (mr_proof_storage this) authority_set_id of
         Panic m \<Rightarrow> Some (Panic m)
       | Ret (Inl e, storage) \<Rightarrow> Some (Ret (Inl (StorageFailed e), this\<lparr>mr_proof_storage := storage\<rparr>))
       | Ret (Inr inner_proof, storage) \<Rightarrow>
           await (re_prove_final env inner_proof finalized_head) (\<lambda>proved.
           let this' = this\<lparr>mr_proof_storage := storage\<rparr> in
           Some (propagate proved this' (\<lambda>proof.
             propagate (re_provide_merkle_root env proof) this' (\<lambda>tx_hash.
             Ret (Inr (), this'\<lparr>mr_latest_submitted_merkle_root :=
               Some \<lparr>sm_tx_hash = tx_hash, sm_proof = proof, sm_finalized = False\<rparr>\<rparr>))))))))))"

definition try_finalize_submitted_merkle_root ::
  "relay_env \<Rightarrow> 's merkle_root_relayer \<Rightarrow> (anyhow + unit) \<times> 's merkle_root_relayer" where
  "try_finalize_submitted_merkle_root env this =
     (case mr_latest_submitted_merkle_root this of
        None \<Rightarrow> (Inr (), this)
      | Some submitted \<Rightarrow>
          if sm_finalized submitted then (Inr (), this)
          else (case re_get_tx_status env (sm_tx_hash submitted) of
              Inl e \<Rightarrow> (Inl e, this)
            | Inr TxFinalized \<Rightarrow>
                (Inr (), this\<lparr>mr_latest_submitted_merkle_root := Some (submitted\<lparr>sm_finalized := True\<rparr>)\<rparr>)
            | Inr TxPending \<Rightarrow> (Inr (), this)
            | Inr TxFailed \<Rightarrow>
                (case re_read_finalized_merkle_root env (fp_block_number (sm_proof submitted)) of
                   Inl e \<Rightarrow> (Inl e, this)
                 | Inr (Some _) \<Rightarrow>
                     (Inr (), this\<lparr>mr_latest_submitted_merkle_root := Some (submitted\<lparr>sm_finalized := True\<rparr>)\<rparr>)
                 | Inr None \<Rightarrow>
                     (case re_provide_merkle_root env (sm_proof submitted) of
                        Inl e \<Rightarrow> (Inl e, this)
                      | Inr tx_hash \<Rightarrow>
                          (Inr (), this\<lparr>mr_latest_submitted_merkle_root := Some (submitted\<lparr>sm_tx_hash := tx_hash\<rparr>)\<rparr>)))))"

section \<open>The main loop\<close>

definition main_loop ::
  "'s storage_ops \<Rightarrow> relay_env \<Rightarrow> (anyhow + proof_with_circuit_data) \<Rightarrow>
   (proof_with_circuit_data \<Rightarrow> u64 \<Rightarrow> anyhow + proof_with_circuit_data) \<Rightarrow> u64 \<Rightarrow> (nat \<Rightarrow> anyhow + u64) \<Rightarrow>
   's merkle_root_relayer \<Rightarrow> ((anyhow + unit) \<times> 's merkle_root_relayer) exec option" where
  "main_loop ops env prove_genesis prove_change genesis observed this =
     (case re_get_approx_balance env of
        Inl e \<Rightarrow> Some (Ret (Inl e, this))
      | Inr balance \<Rightarrow>
     (case sync_authority_set_completely ops prove_genesis prove_change genesis observed 0 (mr_proof_storage this) of
        None \<Rightarrow> None
      | Some (Panic m) \<Rightarrow> Some (Panic m)
      | Some (Ret (Inl e, storage)) \<Rightarrow> Some (Ret (Inl e, this\<lparr>mr_proof_storage := storage\<rparr>))
      | Some (Ret (Inr _, storage)) \<Rightarrow>
     (case eras_process ops env (mr_eras this, storage) of
        None \<Rightarrow> None
      | Some (Panic m) \<Rightarrow> Some (Panic m)
      | Some (Ret (Inl e, (eras, storage'))) \<Rightarrow> Some (Ret (Inl e, this\<lparr>mr_proof_storage := storage', mr_eras := eras\<rparr>))
      | Some (Ret (Inr _, (eras, storage'))) \<Rightarrow>
     (case submit_merkle_root ops env (this\<lparr>mr_proof_storage := storage', mr_eras := eras\<rparr>) of
        None \<Rightarrow> None
      | Some (Panic m) \<Rightarrow> Some (Panic m)
      | Some (Ret (Inl e, this')) \<Rightarrow> Some (Ret (Inl e, this'))
      | Some (Ret (Inr _, this')) \<Rightarrow> Some (Ret (try_finalize_submitted_merkle_root env this'))))))"

text \<open>
  The outer loop: \<open>attempts\<close> counts the turns. A turn is the result of the main loop, whether its
  error is a recoverable transport error, and whether the two reconnections succeed.
\<close>

definition MAX_RETRIES :: u32 where
  "MAX_RETRIES = 5"

record relay_turn =
  rt_result :: "anyhow + unit"
  rt_recoverable :: bool
  rt_gear_reconnects :: bool
  rt_eth_reconnects :: bool

datatype run_outcome = Running u32 | MaxAttemptsReached anyhow | GearReconnectFailed | EthReconnectFailed

fun relayer_run :: "u32 \<Rightarrow> relay_turn list \<Rightarrow> run_outcome" where
  "relayer_run attempts [] = Running attempts"
| "relayer_run attempts (turn # turns) =
     (let attempts = attempts + 1 in
      case rt_result turn of
        Inr _ \<Rightarrow> relayer_run attempts turns
      | Inl err \<Rightarrow>
          if attempts \<ge> MAX_RETRIES then MaxAttemptsReached err
          else if \<not> rt_gear_reconnects turn then GearReconnectFailed
          else if rt_recoverable turn \<and> \<not> rt_eth_reconnects turn then EthReconnectFailed
          else relayer_run attempts turns)"

datatype transport_error_kind = MissingBatchResponse | BackendGone | PubsubUnavailable | HttpError | Custom | OtherKind

datatype eth_rpc_error = Transport transport_error_kind | OtherRpc

datatype subxt_error = SubscriptionDropped | DisconnectedWillReconnect | OtherSubxt

datatype relay_error =
    ErrorInHTTPTransport eth_rpc_error
  | ProviderRpcError eth_rpc_error
  | GclientSubxt bool subxt_error
  | OtherRelayError

definition is_rpc_transport_error_recoverable :: "eth_rpc_error \<Rightarrow> bool" where
  "is_rpc_transport_error_recoverable err = (case err of
     Transport MissingBatchResponse \<Rightarrow> True
   | Transport BackendGone \<Rightarrow> True
   | Transport PubsubUnavailable \<Rightarrow> False
   | Transport HttpError \<Rightarrow> False
   | Transport Custom \<Rightarrow> False
   | _ \<Rightarrow> False)"

text \<open>The flag of \<open>GclientSubxt\<close> is the answer of \<open>is_disconnected_will_reconnect\<close>.\<close>

definition is_transport_error_recoverable :: "relay_error \<Rightarrow> bool" where
  "is_transport_error_recoverable err = (case err of
     ErrorInHTTPTransport e \<Rightarrow> is_rpc_transport_error_recoverable e
   | ProviderRpcError e \<Rightarrow> is_rpc_transport_error_recoverable e
   | GclientSubxt will_reconnect e \<Rightarrow>
       will_reconnect \<or> (case e of SubscriptionDropped \<Rightarrow> True | DisconnectedWillReconnect \<Rightarrow> True | _ \<Rightarrow> False)
   | OtherRelayError \<Rightarrow> False)"

text \<open>
  A turn that succeeds does not reset the count: once four turns have passed, the first error
  ends the relayer.
\<close>

lemma run_successes:
  "\<forall>t \<in> set turns. rt_result t = Inr () \<Longrightarrow> relayer_run attempts (turns @ rest) = relayer_run (attempts + of_nat (length turns)) rest"
  by (induction turns arbitrary: attempts) (auto simp: Let_def ac_simps)

lemma first_error_after_successes_exits:
  assumes "\<forall>t \<in> set turns. rt_result t = Inr ()" and "4 \<le> length turns" and "length turns < 2 ^ 32 - 1"
    and "rt_result turn = Inl err"
  shows "relayer_run 0 (turns @ turn # rest) = MaxAttemptsReached err"
proof -
  have "unat (of_nat (length turns) + 1 :: u32) = Suc (length turns)"
    using assms(3) by (simp add: unat_word_ariths unat_of_nat)
  then have "MAX_RETRIES \<le> of_nat (length turns) + 1"
    using assms(2) by (simp add: MAX_RETRIES_def word_le_nat_alt)
  with assms(1,4) show ?thesis by (simp add: run_successes Let_def)
qed

section \<open>No era is lost\<close>

























end
