(* ===== verification/Prover_Interface.thy ===== *)
theory Prover_Interface
  imports Merkle_Relayer
begin

text \<open>
  The conversions around the prover (\<open>relayer/src/prover_interface.rs\<close>): what the RPC client returns is
  rearranged for the circuits, and the two public inputs of the final proof are unpacked into the
  merkle root and the block number.
\<close>

unbundle bit_operations_syntax

section \<open>Public inputs of the final proof\<close>

text \<open>\<open>BigUint::to_bytes_be\<close>: big endian without leading zeros, and one zero byte for zero.\<close>

fun to_bytes_be :: "nat \<Rightarrow> bytes" where
  "to_bytes_be n = (if n < 256 then [of_nat n] else to_bytes_be (n div 256) @ [of_nat (n mod 256)])"

declare to_bytes_be.simps [simp del]

definition pad_pi :: "nat \<Rightarrow> bytes exec" where
  "pad_pi pi =
     (let bs = to_bytes_be pi
      in exec_bind (ensure (length bs \<le> 24) ''assertion failed: pi.len() <= TARGET_LEN'') (\<lambda>_.
         Ret (replicate (24 - length bs) 0 @ bs)))"

text \<open>\<open>hex_decode\<close> stands for the crate \<open>hex\<close>.\<close>

definition from_proof_and_public_inputs ::
  "(string \<Rightarrow> bytes option) \<Rightarrow> string \<Rightarrow> nat \<times> nat \<Rightarrow> final_proof exec" where
  "from_proof_and_public_inputs hex_decode proof public_inputs =
     exec_bind (pad_pi (fst public_inputs)) (\<lambda>pi_0.
     exec_bind (pad_pi (snd public_inputs)) (\<lambda>pi_1.
     let root_bytes = pi_0 @ take 8 pi_1;
         block_number = take 4 (drop 8 pi_1)
     in exec_bind (ensure (2 \<le> length proof) ''byte index 2 is out of bounds'') (\<lambda>_.
        exec_bind (ensure (take 2 proof = ''0x'') ''assertion failed'') (\<lambda>_.
        case hex_decode (drop 2 proof) of
          None \<Rightarrow> Panic ''Got invalid proof string from gnark prover''
        | Some bs \<Rightarrow> Ret \<lparr>fp_proof = bs, fp_block_number = of_be_bytes block_number,
             fp_merkle_root = of_be_bytes root_bytes\<rparr>))))"

section \<open>Inputs of the circuits\<close>

record pre_commit =
  pc_public_key :: bytes
  pc_signature :: bytes

record block_finality_proof =
  bf_validator_set :: "bytes list"
  bf_pre_commits :: "pre_commit list"
  bf_message :: bytes

record branch_node =
  bn_data :: bytes
  bn_child :: u8

record storage_inclusion_proof =
  si_address :: bytes
  si_block_header :: bytes
  si_branch_nodes_data :: "branch_node list"
  si_leaf_node_data :: bytes
  si_stored_data :: bytes

record storage_inclusion =
  sx_block_header_data :: bytes
  sx_branch_node_data :: "branch_node list"
  sx_leaf_node_data :: bytes
  sx_address_nibbles :: bytes

definition GRANDPA_VOTE_LENGTH :: nat where
  "GRANDPA_VOTE_LENGTH = 53"

definition parse_rpc_inclusion_proof :: "storage_inclusion_proof \<Rightarrow> storage_inclusion" where
  "parse_rpc_inclusion_proof proof =
     \<lparr>sx_block_header_data = si_block_header proof,
      sx_branch_node_data = map (\<lambda>d. \<lparr>bn_data = bn_data d, bn_child = bn_child d\<rparr>) (rev (si_branch_nodes_data proof)),
      sx_leaf_node_data = si_leaf_node_data proof,
      sx_address_nibbles = concat (map (\<lambda>byte. [drop_bit 4 (byte AND 0xF0), byte AND 0x0F]) (si_address proof))\<rparr>"

definition parse_rpc_block_finality_proof :: "block_finality_proof \<Rightarrow> block_finality_proof exec" where
  "parse_rpc_block_finality_proof proof =
     exec_bind (ensure (length (bf_message proof) = GRANDPA_VOTE_LENGTH) ''Unexpected GRANDPA message length'') (\<lambda>_.
     Ret \<lparr>bf_validator_set = bf_validator_set proof,
          bf_pre_commits = map (\<lambda>pc. \<lparr>pc_public_key = pc_public_key pc, pc_signature = pc_signature pc\<rparr>) (bf_pre_commits proof),
          bf_message = bf_message proof\<rparr>)"

section \<open>The layout of the public inputs\<close>

definition be_nat :: "bytes \<Rightarrow> nat" where
  "be_nat bs = foldl (\<lambda>acc b. 256 * acc + unat b) 0 bs"

lemma be_nat_snoc [simp]: "be_nat [] = 0" "be_nat (bs @ [b]) = 256 * be_nat bs + unat b"
  by (simp_all add: be_nat_def)

lemma be_nat_zero: "be_nat bs = 0 \<Longrightarrow> bs = replicate (length bs) 0"
proof (rule replicate_eqI [OF refl])
  show "be_nat bs = 0 \<Longrightarrow> b \<in> set bs \<Longrightarrow> b = 0" for b
    by (induction bs rule: rev_induct) (auto simp: unat_eq_zero)
qed

lemma to_bytes_be_strips: "bs \<noteq> [] \<Longrightarrow> \<exists>k. replicate k 0 @ to_bytes_be (be_nat bs) = bs"
proof (induction bs rule: rev_induct)
  case (snoc b bs)
  have b: "unat b < 256" using unsigned_less [of b, where ?'a = nat] by simp
  show ?case
  proof (cases "be_nat bs = 0")
    case True
    then have "to_bytes_be (be_nat (bs @ [b])) = [b]" using b by (subst to_bytes_be.simps) simp
    with be_nat_zero [OF True] show ?thesis by (metis)
  next
    case False
    then have "bs \<noteq> []" by auto
    with snoc.IH obtain k where "replicate k 0 @ to_bytes_be (be_nat bs) = bs" by blast
    moreover have "to_bytes_be (be_nat (bs @ [b])) = to_bytes_be (be_nat bs) @ [b]"
      using False b by (subst to_bytes_be.simps) (simp add: mult.commute [of 256])
    ultimately show ?thesis by (metis append_assoc)
  qed
qed simp

lemma pad_pi_be_nat:
  assumes "length bs = 24"
  shows "pad_pi (be_nat bs) = Ret bs"
proof -
  obtain k where k: "replicate k 0 @ to_bytes_be (be_nat bs) = bs"
    using to_bytes_be_strips [of bs] assms by fastforce
  then have "k + length (to_bytes_be (be_nat bs)) = 24" using assms by (metis length_append length_replicate)
  with k show ?thesis by (simp add: pad_pi_def Let_def) (metis add_diff_cancel_right')
qed

text \<open>
  The public inputs hold the root in the first 32 bytes and the block number in the next four;
  unpacking returns them.
\<close>

lemma final_proof_unpacks:
  fixes root :: h256 and block :: u32
  assumes "hex_decode hex = Some bs" and "length pad = 12"
  shows "from_proof_and_public_inputs hex_decode (''0x'' @ hex)
      (be_nat (take 24 (be_bytes 32 root)), be_nat (drop 24 (be_bytes 32 root) @ be_bytes 4 block @ pad))
    = Ret \<lparr>fp_proof = bs, fp_block_number = block, fp_merkle_root = root\<rparr>"
  using assms by (simp add: from_proof_and_public_inputs_def pad_pi_be_nat Let_def of_be_bytes_be_bytes)

text \<open>The nibbles of an address are its hexadecimal digits: below 16, and enough to rebuild the bytes.\<close>

lemma nibble_bounds:
  fixes byte :: u8
  shows "unat (drop_bit 4 (byte AND 0xF0)) < 16" "unat (byte AND 0x0F) < 16"
    "byte = push_bit 4 (drop_bit 4 (byte AND 0xF0)) OR (byte AND 0x0F)"
proof -
  have "unat (byte AND 0x0F) \<le> unat (0x0F :: u8)" by (rule word_and_le1 [unfolded word_le_nat_alt])
  then show "unat (byte AND 0x0F) < 16" by simp
  have "unat (byte AND 0xF0) < 256" using unsigned_less [of "byte AND 0xF0", where ?'a = nat] by simp
  then have "unat (byte AND 0xF0) div 2 ^ 4 < 16" by (intro less_mult_imp_div_less) simp
  then show "unat (drop_bit 4 (byte AND 0xF0)) < 16" by (simp only: unat_drop_bit_eq drop_bit_nat_def)
  show "byte = push_bit 4 (drop_bit 4 (byte AND 0xF0)) OR (byte AND 0x0F)"
  proof (rule bit_word_eqI)
    fix n assume "n < LENGTH(8)"
    then have "n = 0 \<or> n = 1 \<or> n = 2 \<or> n = 3 \<or> n = 4 \<or> n = 5 \<or> n = 6 \<or> n = 7" by auto
    then show "bit byte n \<longleftrightarrow> bit (push_bit 4 (drop_bit 4 (byte AND 0xF0)) OR (byte AND 0x0F)) n"
      by (elim disjE) (simp_all add: bit_simps)
  qed
qed

end
