(* ===== verification/Gear_Proofs.thy ===== *)
theory Gear_Proofs
  imports Prover_Interface Gear_Search Accumulator
begin

text \<open>
  The data that the RPC client collects for the prover (\<open>gear-rpc-client/src/lib.rs\<close>): finality proofs of
  blocks, inclusion proofs of storage entries, the proof of a message in the queue and the events of
  a block; and the drivers of the prover that call it (\<open>relayer/src/prover_interface.rs\<close>). Decoders of
  external crates, hashes, signature checks and the prover are arguments.
\<close>

section \<open>Answers that may be missing\<close>

text \<open>\<open>None\<close> when a call does not return, a panic, an error or a value.\<close>

type_synonym 'a answer = "(rpc_error + 'a) exec option"

definition ans_bind :: "'a answer \<Rightarrow> ('a \<Rightarrow> 'b answer) \<Rightarrow> 'b answer" where
  "ans_bind x f = (case x of None \<Rightarrow> None | Some e \<Rightarrow> (case e of Panic m \<Rightarrow> Some (Panic m)
     | Ret r \<Rightarrow> (case r of Inl err \<Rightarrow> Some (Ret (Inl err)) | Inr a \<Rightarrow> f a)))"

abbreviation of_result :: "(rpc_error + 'a) \<Rightarrow> 'a answer" where
  "of_result r \<equiv> Some (Ret r)"

abbreviation of_search :: "(rpc_error + 'a) option \<Rightarrow> 'a answer" where
  "of_search \<equiv> map_option Ret"

definition claim :: "bool \<Rightarrow> string \<Rightarrow> unit answer" where
  "claim b m = (if b then Some (Ret (Inr ())) else Some (Panic m))"

abbreviation answered :: "'a \<Rightarrow> 'a answer" where
  "answered a \<equiv> Some (Ret (Inr a))"

lemma ans_bind_done_iff:
  "ans_bind x f = answered b \<longleftrightarrow> (\<exists>a. x = answered a \<and> f a = answered b)"
  by (auto simp: ans_bind_def split: option.splits exec.splits sum.splits)

lemma claim_done_iff [simp]: "claim b m = answered u \<longleftrightarrow> b"
  by (simp add: claim_def)

lemma ans_bind_simps [simp]:
  "ans_bind (answered a) f = f a" "ans_bind (of_result (Inl e)) f = of_result (Inl e)" "ans_bind None f = None"
  "ans_bind (Some (Panic m)) f = Some (Panic m)"
  by (simp_all add: ans_bind_def)

lemma map_option_Ret_iff [simp]: "map_option Ret x = Some (Ret r) \<longleftrightarrow> x = Some r"
  by auto

section \<open>Finality proofs\<close>

record signed_precommit =
  sp_target_hash :: h256
  sp_target_number :: u32
  sp_signature :: bytes
  sp_id :: bytes

record justification =
  ju_round :: u64
  ju_target_hash :: h256
  ju_target_number :: u32
  ju_precommits :: "signed_precommit list"

text \<open>What the client uses of \<open>hex\<close>, of the SCALE decoders and of \<open>sp_consensus_grandpa\<close>, and the answer
  of the node to \<open>grandpa_proveFinality\<close>.\<close>

record grandpa =
  gr_prove_finality :: "u32 \<Rightarrow> rpc_error + string option"
  gr_hex_decode :: "string \<Rightarrow> rpc_error + bytes"
  gr_decode_finality :: "bytes \<Rightarrow> rpc_error + (h256 \<times> bytes)"
  gr_decode_justification :: "bytes \<Rightarrow> rpc_error + justification"
  gr_localized_payload :: "u64 \<Rightarrow> u64 \<Rightarrow> h256 \<Rightarrow> u32 \<Rightarrow> bytes"
  gr_verify :: "bytes \<Rightarrow> bytes \<Rightarrow> bytes \<Rightarrow> bool"

definition VOTE_LENGTH_IN_BITS :: nat where
  "VOTE_LENGTH_IN_BITS = 424"

text \<open>\<open>\&s[2..]\<close> of a string.\<close>

definition strip_0x :: "string \<Rightarrow> string answer" where
  "strip_0x s = (if 2 \<le> length s then answered (drop 2 s) else Some (Panic ''byte index 2 is out of bounds''))"

definition precommits_target :: "h256 \<Rightarrow> u32 \<Rightarrow> justification \<Rightarrow> bool" where
  "precommits_target block number j \<longleftrightarrow>
     list_all (\<lambda>pc. sp_target_hash pc = block \<and> sp_target_number pc = number) (ju_precommits j)"

definition justification_item :: "grandpa \<Rightarrow> rpc_error + string \<Rightarrow> justification answer" where
  "justification_item gr res =
     ans_bind (of_result res) (\<lambda>hex_string.
     ans_bind (strip_0x hex_string) (\<lambda>hex.
     ans_bind (of_result (gr_hex_decode gr hex)) (\<lambda>bs.
     ans_bind (of_result (gr_decode_justification gr bs)) (\<lambda>j.
     ans_bind (claim (precommits_target (ju_target_hash j) (ju_target_number j) j) ''assertion failed'') (\<lambda>_.
       answered j)))))"

definition produce_finality_proof ::
  "grandpa \<Rightarrow> gear_node \<Rightarrow> justification \<Rightarrow> (h256 \<times> block_finality_proof) answer" where
  "produce_finality_proof gr node j =
     (let block_number = ju_target_number j; block_hash = ju_target_hash j in
      ans_bind (of_result (signed_by_authority_set_id node block_hash)) (\<lambda>required_authority_set_id.
      let signed_data = gr_localized_payload gr (ju_round j) required_authority_set_id block_hash block_number in
      ans_bind (claim (length signed_data * 8 = VOTE_LENGTH_IN_BITS) ''assertion failed'') (\<lambda>_.
      ans_bind (claim (list_all (\<lambda>pc. gr_verify gr (sp_signature pc) signed_data (sp_id pc)) (ju_precommits j))
        ''assertion failed'') (\<lambda>_.
      ans_bind (of_search (fetch_authority_set node required_authority_set_id)) (\<lambda>validator_set.
        answered (block_hash,
          \<lparr>bf_validator_set = validator_set,
           bf_pre_commits = map (\<lambda>pc. \<lparr>pc_public_key = sp_id pc, pc_signature = sp_signature pc\<rparr>) (ju_precommits j),
           bf_message = signed_data\<rparr>))))))"

definition fetch_finality_proof ::
  "grandpa \<Rightarrow> gear_node \<Rightarrow> h256 \<Rightarrow> (h256 \<times> block_finality_proof) answer" where
  "fetch_finality_proof gr node after_block =
     ans_bind (of_result (block_hash_to_number node after_block)) (\<lambda>after_block_number.
     ans_bind (of_result (gr_prove_finality gr after_block_number)) (\<lambda>finality.
     ans_bind (strip_0x (case finality of None \<Rightarrow> [] | Some s \<Rightarrow> s)) (\<lambda>hex.
     ans_bind (of_result (gr_hex_decode gr hex)) (\<lambda>bs.
     ans_bind (of_result (gr_decode_finality gr bs)) (\<lambda>(block, encoded).
     ans_bind (of_result (block_hash_to_number node block)) (\<lambda>fetched_block_number.
     ans_bind (claim (after_block_number \<le> fetched_block_number) ''assertion failed'') (\<lambda>_.
     ans_bind (of_result (gr_decode_justification gr encoded)) (\<lambda>j.
     ans_bind (claim (precommits_target block fetched_block_number j) ''assertion failed'') (\<lambda>_.
       produce_finality_proof gr node j)))))))))"

definition fetch_finality_proof_for_session ::
  "grandpa \<Rightarrow> gear_node \<Rightarrow> u64 \<Rightarrow> (h256 \<times> block_finality_proof) answer" where
  "fetch_finality_proof_for_session gr node set_id =
     ans_bind (of_search (search_for_authority_set_block node set_id)) (fetch_finality_proof gr node)"

section \<open>Inclusion proofs of storage entries\<close>

datatype trie_value = InlineValue bytes | NodeValue bytes
datatype node_handle = HashHandle bytes | InlineHandle bytes
datatype child_reference = HashChild bytes | InlineChild bytes nat
datatype trie_node = EmptyNode | LeafNode bytes trie_value | ExtensionNode bytes node_handle
  | BranchNode "node_handle option list" "trie_value option"
  | NibbledBranch bytes "node_handle option list" "trie_value option"

record block_header =
  bh_number :: u32
  bh_state_root :: bytes
  bh_encoded :: bytes

text \<open>What the client uses of \<open>trie_db\<close>, \<open>sp_trie\<close> and Blake2, and the answers of the node.\<close>

record trie_source =
  tr_decode :: "bytes \<Rightarrow> trie_node option"
  tr_leaf_node :: "bytes \<Rightarrow> trie_value \<Rightarrow> bytes"
  tr_branch_node :: "bytes \<Rightarrow> child_reference option list \<Rightarrow> trie_value option \<Rightarrow> bytes"
  tr_child :: "node_handle \<Rightarrow> child_reference option"
  tr_generate_proof :: "bytes list \<Rightarrow> bytes \<Rightarrow> bytes \<Rightarrow> bytes list option"
  tr_blake2 :: "bytes \<Rightarrow> bytes"
  tr_compact_len :: "u32 \<Rightarrow> nat"
  tr_header :: "h256 \<Rightarrow> rpc_error + block_header"
  tr_read_proof :: "h256 \<Rightarrow> bytes \<Rightarrow> rpc_error + bytes list"
  tr_storage :: "h256 \<Rightarrow> bytes \<Rightarrow> rpc_error + bytes option"

record storage_trie_inclusion_proof =
  ti_branch_nodes_data :: "branch_node list"
  ti_leaf_node_data :: bytes
  ti_leaf_data :: bytes

text \<open>The leaf of the proof comes with its value cut out; the stored data or its hash goes back in.\<close>

definition rebuild_leaf :: "trie_source \<Rightarrow> bytes \<Rightarrow> bytes \<Rightarrow> bytes exec" where
  "rebuild_leaf tr leaf storage_data =
     (case tr_decode tr leaf of
        None \<Rightarrow> Panic ''Failed to decode last node in trie proof''
      | Some (LeafNode nibbles v) \<Rightarrow>
          exec_bind (ensure (v = InlineValue []) ''assertion failed'') (\<lambda>_.
            if length storage_data = 32 then Ret (tr_leaf_node tr nibbles (InlineValue storage_data))
            else if 32 < length storage_data then Ret (tr_leaf_node tr nibbles (NodeValue (tr_blake2 tr storage_data)))
            else Panic ''Unsupported leaf data length'')
      | Some _ \<Rightarrow> Panic ''The last node in proof is expected to be leaf'')"

text \<open>The children of a branch, from child \<open>i\<close> on: the child cut out of the proof gets the hash of the node
  below, and its number is the target.\<close>

fun rebuild_children :: "trie_source \<Rightarrow> bytes \<Rightarrow> nat \<Rightarrow> u8 option \<Rightarrow> node_handle option list
    \<Rightarrow> (u8 option \<times> child_reference option list) exec" where
  "rebuild_children tr current_hash i target [] = Ret (target, [])"
| "rebuild_children tr current_hash i target (child # children) =
     exec_bind (if child = Some (InlineHandle [])
        then exec_bind (ensure (target = None) ''assertion failed'') (\<lambda>_.
          Ret (Some (of_nat i), Some (HashHandle current_hash)))
        else Ret (target, child)) (\<lambda>(target, child).
     exec_bind (case child of None \<Rightarrow> Ret None | Some handle \<Rightarrow>
         (case tr_child tr handle of None \<Rightarrow> Panic ''Failed to convert NodeHandle to ChildReference''
          | Some c \<Rightarrow> Ret (Some c))) (\<lambda>c.
     exec_bind (rebuild_children tr current_hash (Suc i) target children) (\<lambda>(target, cs).
       Ret (target, c # cs))))"

definition rebuild_branch :: "trie_source \<Rightarrow> bytes \<Rightarrow> bytes \<Rightarrow> branch_node exec" where
  "rebuild_branch tr current_hash node_data =
     (case tr_decode tr node_data of
        None \<Rightarrow> Panic ''Correctly encoded node''
      | Some (NibbledBranch nibbles children v) \<Rightarrow>
          exec_bind (rebuild_children tr current_hash 0 None children) (\<lambda>(target, cs).
          case target of
            None \<Rightarrow> Panic ''At least one child should be NodeHandle::Inline([])''
          | Some t \<Rightarrow> Ret \<lparr>bn_data = tr_branch_node tr nibbles cs v, bn_child = t\<rparr>)
      | Some _ \<Rightarrow> Panic ''All remaining nodes are expected to be nibbled branches'')"

fun rebuild_branches :: "trie_source \<Rightarrow> bytes \<Rightarrow> bytes list \<Rightarrow> (bytes \<times> branch_node list) exec" where
  "rebuild_branches tr current_hash [] = Ret (current_hash, [])"
| "rebuild_branches tr current_hash (node_data # nodes) =
     exec_bind (rebuild_branch tr current_hash node_data) (\<lambda>b.
     exec_bind (rebuild_branches tr (tr_blake2 tr (bn_data b)) nodes) (\<lambda>(h, bs).
       Ret (h, b # bs)))"

definition of_exec :: "'a exec \<Rightarrow> 'a answer" where
  "of_exec e = (case e of Panic m \<Rightarrow> Some (Panic m) | Ret a \<Rightarrow> answered a)"

definition fetch_storage_inclusion_proof ::
  "trie_source \<Rightarrow> h256 \<Rightarrow> bytes \<Rightarrow> storage_trie_inclusion_proof answer" where
  "fetch_storage_inclusion_proof tr block address =
     ans_bind (of_result (tr_header tr block)) (\<lambda>header.
     ans_bind (of_result (tr_read_proof tr block address)) (\<lambda>storage_proof.
     ans_bind (of_result (res_bind (tr_storage tr block address) (\<lambda>data. ok_or data NotInStorage))) (\<lambda>storage_data.
     ans_bind (case tr_generate_proof tr storage_proof (bh_state_root header) address of
         None \<Rightarrow> Some (Panic ''Failed to generate trie proof'') | Some nodes \<Rightarrow> answered nodes) (\<lambda>trie_proof.
     ans_bind (claim (trie_proof \<noteq> []) ''At least one node in trie proof'') (\<lambda>_.
     ans_bind (of_exec (rebuild_leaf tr (last trie_proof) storage_data)) (\<lambda>encoded_leaf.
     ans_bind (of_exec (rebuild_branches tr (tr_blake2 tr encoded_leaf) (rev (butlast trie_proof)))) (\<lambda>(current_hash, branch_nodes).
     ans_bind (claim (bh_state_root header = current_hash) ''assertion failed'') (\<lambda>_.
       answered \<lparr>ti_branch_nodes_data = branch_nodes, ti_leaf_node_data = encoded_leaf, ti_leaf_data = storage_data\<rparr>))))))))"

definition fetch_block_inclusion_proof ::
  "trie_source \<Rightarrow> h256 \<Rightarrow> bytes \<Rightarrow> storage_inclusion_proof answer" where
  "fetch_block_inclusion_proof tr block address =
     ans_bind (fetch_storage_inclusion_proof tr block address) (\<lambda>proof.
     ans_bind (of_result (tr_header tr block)) (\<lambda>header.
     ans_bind (claim (ti_branch_nodes_data proof \<noteq> []) ''At least one node in storage inclusion proof'') (\<lambda>_.
     let root_node = last (ti_branch_nodes_data proof);
         n = 32 + tr_compact_len tr (bh_number header)
     in ans_bind (claim (n + 32 \<le> length (bh_encoded header)) ''range end index out of range'') (\<lambda>_.
        ans_bind (claim (take 32 (drop n (bh_encoded header)) = tr_blake2 tr (bn_data root_node)) ''assertion failed'') (\<lambda>_.
        answered \<lparr>si_address = address, si_block_header = bh_encoded header,
              si_branch_nodes_data = ti_branch_nodes_data proof, si_leaf_node_data = ti_leaf_node_data proof,
              si_stored_data = ti_leaf_data proof\<rparr>)))))"

text \<open>The two storage addresses, as the bytes that their hexadecimal strings denote.\<close>

definition MERKLE_ROOT_STORAGE_ADDRESS :: bytes where
  "MERKLE_ROOT_STORAGE_ADDRESS =
     [0xfd, 0x6e, 0x02, 0x7f, 0x7a, 0x1b, 0xd8, 0xba, 0xa6, 0x40, 0x6c, 0xea, 0x4d, 0x80, 0xd9, 0x32,
      0xdf, 0x50, 0x93, 0x10, 0xbc, 0x65, 0x5b, 0xbf, 0x75, 0xa5, 0xb5, 0x63, 0xfc, 0x3c, 0x8e, 0xee]"

definition NEXT_VALIDATOR_SET_ADDRESS :: bytes where
  "NEXT_VALIDATOR_SET_ADDRESS =
     [0xfd, 0x6e, 0x02, 0x7f, 0x7a, 0x1b, 0xd8, 0xba, 0xa6, 0x40, 0x6c, 0xea, 0x4d, 0x80, 0xd9, 0x32,
      0x71, 0x20, 0xfd, 0x2a, 0xdd, 0x6d, 0x12, 0x49, 0xbf, 0x1b, 0x6b, 0xfc, 0x3b, 0xdf, 0x51, 0x0f]"

definition fetch_sent_message_inclusion_proof :: "trie_source \<Rightarrow> h256 \<Rightarrow> storage_inclusion_proof answer" where
  "fetch_sent_message_inclusion_proof tr block = fetch_block_inclusion_proof tr block MERKLE_ROOT_STORAGE_ADDRESS"

definition fetch_next_session_keys_inclusion_proof :: "trie_source \<Rightarrow> h256 \<Rightarrow> storage_inclusion_proof answer" where
  "fetch_next_session_keys_inclusion_proof tr block = fetch_block_inclusion_proof tr block NEXT_VALIDATOR_SET_ADDRESS"

section \<open>Messages and events\<close>

record message_merkle_proof =
  mp_root :: h256
  mp_proof :: "h256 list"
  mp_num_leaves :: u64
  mp_leaf_index :: u64

definition fetch_message_inclusion_merkle_proof ::
  "(h256 \<Rightarrow> h256 \<Rightarrow> rpc_error + message_merkle_proof option) \<Rightarrow> h256 \<Rightarrow> h256 \<Rightarrow> rpc_error + message_merkle_proof" where
  "fetch_message_inclusion_merkle_proof request block message_hash =
     res_bind (request message_hash block) (\<lambda>proof.
     res_bind (ok_or proof (MessageNotFound message_hash block)) (\<lambda>p.
       Inr \<lparr>mp_root = mp_root p, mp_proof = mp_proof p, mp_num_leaves = mp_num_leaves p,
            mp_leaf_index = mp_leaf_index p\<rparr>))"

datatype runtime_event =
    MessageQueued (mq_nonce: u256) (mq_source: h256) (mq_destination: h160) (mq_payload: bytes)
  | UserMessageSent (um_source: h256) (um_destination: h256) (um_payload: bytes)
  | OtherEvent

definition message_queued_events :: "(h256 \<Rightarrow> rpc_error + runtime_event list) \<Rightarrow> h256 \<Rightarrow> rpc_error + gear_message list" where
  "message_queued_events get_events block =
     res_bind (get_events block) (\<lambda>events.
       Inr (List.map_filter (\<lambda>event. case event of
          MessageQueued nonce source destination payload \<Rightarrow>
            Some \<lparr>gm_nonce_le = le_bytes 32 nonce, gm_source = source, gm_destination = destination,
                  gm_payload = payload\<rparr>
        | _ \<Rightarrow> None) events))"

definition user_message_sent_events ::
  "(h256 \<Rightarrow> rpc_error + runtime_event list) \<Rightarrow> h256 \<Rightarrow> h256 \<Rightarrow> h256 \<Rightarrow> rpc_error + bytes list" where
  "user_message_sent_events get_events from_program to_user block =
     res_bind (get_events block) (\<lambda>events.
       Inr (List.map_filter (\<lambda>event. case event of
          UserMessageSent source destination payload \<Rightarrow>
            if source \<noteq> from_program then None
            else if destination \<noteq> to_user then None
            else Some payload
        | _ \<Rightarrow> None) events))"

section \<open>The drivers of the prover\<close>

record genesis_config =
  gc_authority_set_id :: u64
  gc_authority_set_hash :: bytes

record prove_result =
  pr_proof :: string
  pr_public_inputs :: "string list"

text \<open>The circuits and the wrapper around them; each may panic. The last component is \<open>BigUint::from_str\<close>,
  the one before it the crate \<open>hex\<close>.\<close>

record 'x provers =
  pv_genesis :: "block_finality_proof \<Rightarrow> genesis_config \<Rightarrow> storage_inclusion \<Rightarrow> bytes \<Rightarrow> proof_with_circuit_data exec"
  pv_change :: "proof_with_circuit_data \<Rightarrow> block_finality_proof \<Rightarrow> storage_inclusion \<Rightarrow> bytes \<Rightarrow> proof_with_circuit_data exec"
  pv_message_sent :: "proof_with_circuit_data \<Rightarrow> block_finality_proof \<Rightarrow> genesis_config \<Rightarrow> storage_inclusion \<Rightarrow> bytes \<Rightarrow> 'x exec"
  pv_gnark :: "'x \<Rightarrow> prove_result exec"
  pv_hex_decode :: "string \<Rightarrow> bytes option"
  pv_parse_biguint :: "string \<Rightarrow> nat option"

definition prove_genesis ::
  "'x provers \<Rightarrow> grandpa \<Rightarrow> gear_node \<Rightarrow> trie_source \<Rightarrow> genesis_config \<Rightarrow> proof_with_circuit_data answer" where
  "prove_genesis pv gr node tr config =
     ans_bind (fetch_finality_proof_for_session gr node (gc_authority_set_id config)) (\<lambda>(block, finality).
     ans_bind (fetch_next_session_keys_inclusion_proof tr block) (\<lambda>inclusion.
     ans_bind (of_exec (exec_bind (parse_rpc_block_finality_proof finality) (\<lambda>finality.
       pv_genesis pv finality config (parse_rpc_inclusion_proof inclusion) (si_stored_data inclusion)))) (\<lambda>proof.
       answered proof)))"

definition prove_validator_set_change ::
  "'x provers \<Rightarrow> grandpa \<Rightarrow> gear_node \<Rightarrow> trie_source \<Rightarrow> proof_with_circuit_data \<Rightarrow> u64 \<Rightarrow> proof_with_circuit_data answer" where
  "prove_validator_set_change pv gr node tr previous_proof previous_authority_set_id =
     ans_bind (fetch_finality_proof_for_session gr node previous_authority_set_id) (\<lambda>(block, finality).
     ans_bind (fetch_next_session_keys_inclusion_proof tr block) (\<lambda>inclusion.
     ans_bind (of_exec (exec_bind (parse_rpc_block_finality_proof finality) (\<lambda>finality.
       pv_change pv previous_proof finality (parse_rpc_inclusion_proof inclusion) (si_stored_data inclusion)))) (\<lambda>proof.
       answered proof)))"

definition parse_public_inputs :: "'x provers \<Rightarrow> string list \<Rightarrow> (nat \<times> nat) exec" where
  "parse_public_inputs pv inputs = (case inputs of
     [a, b] \<Rightarrow> (case (pv_parse_biguint pv a, pv_parse_biguint pv b) of
        (Some x, Some y) \<Rightarrow> Ret (x, y)
      | _ \<Rightarrow> Panic ''Got wrong public input format from ganrk'')
   | _ \<Rightarrow> Panic ''Got wrong public input count from gnark prover'')"

definition prove_final_with_block_finality ::
  "'x provers \<Rightarrow> trie_source \<Rightarrow> proof_with_circuit_data \<Rightarrow> genesis_config \<Rightarrow> h256 \<times> block_finality_proof
    \<Rightarrow> final_proof answer" where
  "prove_final_with_block_finality pv tr previous_proof config = (\<lambda>(block, finality).
     ans_bind (fetch_sent_message_inclusion_proof tr block) (\<lambda>inclusion.
     of_exec (exec_bind (parse_rpc_block_finality_proof finality) (\<lambda>finality.
       exec_bind (pv_message_sent pv previous_proof finality config (parse_rpc_inclusion_proof inclusion)
         (si_stored_data inclusion)) (\<lambda>proof.
       exec_bind (pv_gnark pv proof) (\<lambda>result.
       exec_bind (parse_public_inputs pv (pr_public_inputs result)) (\<lambda>public_inputs.
         from_proof_and_public_inputs (pv_hex_decode pv) (pr_proof result) public_inputs)))))))"

definition prove_final ::
  "'x provers \<Rightarrow> grandpa \<Rightarrow> gear_node \<Rightarrow> trie_source \<Rightarrow> proof_with_circuit_data \<Rightarrow> genesis_config \<Rightarrow> h256
    \<Rightarrow> final_proof answer" where
  "prove_final pv gr node tr previous_proof config at_block =
     ans_bind (fetch_finality_proof gr node at_block) (prove_final_with_block_finality pv tr previous_proof config)"

section \<open>What a finality proof holds\<close>

text \<open>All precommits sign the message with the key that the proof names for them, and the message is the
  vote for the block in a round of the set that signed it.\<close>

definition finality_ok :: "grandpa \<Rightarrow> gear_node \<Rightarrow> h256 \<Rightarrow> block_finality_proof \<Rightarrow> bool" where
  "finality_ok gr node block proof \<longleftrightarrow>
     length (bf_message proof) = GRANDPA_VOTE_LENGTH
   \<and> (\<forall>pc \<in> set (bf_pre_commits proof). gr_verify gr (pc_signature pc) (bf_message proof) (pc_public_key pc))
   \<and> (\<exists>rnd number set_id. signed_by_authority_set_id node block = Inr set_id
        \<and> bf_message proof = gr_localized_payload gr rnd set_id block number
        \<and> fetch_authority_set node set_id = Some (Inr (bf_validator_set proof)))"

lemma produce_finality_proof_ok:
  assumes "produce_finality_proof gr node j = answered (block, proof)"
  shows "finality_ok gr node block proof" and "block = ju_target_hash j"
  using assms
  by (fastforce simp: produce_finality_proof_def Let_def ans_bind_done_iff finality_ok_def VOTE_LENGTH_IN_BITS_def
      GRANDPA_VOTE_LENGTH_def list_all_iff)+

lemma fetch_finality_proof_ok:
  assumes "fetch_finality_proof gr node after_block = answered (block, proof)"
  shows "finality_ok gr node block proof"
  using assms by (auto simp: fetch_finality_proof_def ans_bind_done_iff produce_finality_proof_ok)

lemma finality_parses:
  "finality_ok gr node block proof \<Longrightarrow> parse_rpc_block_finality_proof proof
    = Ret \<lparr>bf_validator_set = bf_validator_set proof, bf_pre_commits = bf_pre_commits proof, bf_message = bf_message proof\<rparr>"
  by (simp add: finality_ok_def parse_rpc_block_finality_proof_def map_idI)

lemma signed_by_on_chain:
  assumes "serves node hash sets head" and "n < head"
  shows "signed_by_authority_set_id node (hash (n + 1)) = Inr (sets n)"
proof -
  have "n + 1 \<le> head" using assms(2) by (rule inc_le)
  with assms show ?thesis by (simp add: signed_by_authority_set_id_def serves_simps)
qed

section \<open>What an inclusion proof holds\<close>

text \<open>A list of branches from the leaf to the root links a hash to a root: every branch is an encoded node
  whose child at the recorded number refers to the hash of the node below.\<close>

fun linked :: "trie_source \<Rightarrow> bytes \<Rightarrow> branch_node list \<Rightarrow> bytes \<Rightarrow> bool" where
  "linked tr h [] root \<longleftrightarrow> h = root"
| "linked tr h (b # bs) root \<longleftrightarrow>
     (\<exists>nibbles cs v. bn_data b = tr_branch_node tr nibbles cs v \<and> unat (bn_child b) < length cs
        \<and> cs ! unat (bn_child b) = tr_child tr (HashHandle h) \<and> tr_child tr (HashHandle h) \<noteq> None)
   \<and> linked tr (tr_blake2 tr (bn_data b)) bs root"

definition leaf_holds :: "trie_source \<Rightarrow> bytes \<Rightarrow> bytes \<Rightarrow> bool" where
  "leaf_holds tr leaf data \<longleftrightarrow> (\<exists>nibbles. leaf = tr_leaf_node tr nibbles
     (if length data = 32 then InlineValue data else NodeValue (tr_blake2 tr data)))"

definition sixteen_children :: "trie_source \<Rightarrow> bool" where
  "sixteen_children tr \<longleftrightarrow> (\<forall>d nibbles cs v. tr_decode tr d = Some (NibbledBranch nibbles cs v) \<longrightarrow> length cs = 16)"

lemma rebuild_children_length:
  "rebuild_children tr h i target children = Ret (t, cs) \<Longrightarrow> length cs = length children"
  by (induction children arbitrary: i target t cs) (auto simp: exec_bind_Ret_iff split: if_splits)

lemma rebuild_children_target:
  assumes "rebuild_children tr h i target children = Ret (Some t, cs)"
  shows "target = Some t \<or> (\<exists>k < length children. t = of_nat (i + k) \<and> cs ! k = tr_child tr (HashHandle h)
    \<and> tr_child tr (HashHandle h) \<noteq> None)"
  using assms
proof (induction children arbitrary: i target cs)
  case (Cons child children)
  from Cons.prems obtain target' child' c cs' where split:
    "(if child = Some (InlineHandle []) then exec_bind (ensure (target = None) ''assertion failed'') (\<lambda>_.
        Ret (Some (of_nat i), Some (HashHandle h))) else Ret (target, child)) = Ret (target', child')"
    "(case child' of None \<Rightarrow> Ret None | Some handle \<Rightarrow> (case tr_child tr handle of
        None \<Rightarrow> Panic ''Failed to convert NodeHandle to ChildReference'' | Some c \<Rightarrow> Ret (Some c))) = Ret c"
    "rebuild_children tr h (Suc i) target' children = Ret (Some t, cs')" "cs = c # cs'"
    by (auto simp: exec_bind_Ret_iff)
  from Cons.IH [OF split(3)] consider "target' = Some t"
    | k where "k < length children" "t = of_nat (Suc i + k)" "cs' ! k = tr_child tr (HashHandle h)" "tr_child tr (HashHandle h) \<noteq> None"
    by blast
  then show ?case
  proof cases
    case 1
    show ?thesis
    proof (cases "child = Some (InlineHandle [])")
      case True
      with split(1) have "target' = Some (of_nat i)" "child' = Some (HashHandle h)" by (auto simp: exec_bind_Ret_iff)
      moreover from this(2) split(2) have "c = tr_child tr (HashHandle h) \<and> tr_child tr (HashHandle h) \<noteq> None"
        by (cases "tr_child tr (HashHandle h)") auto
      ultimately show ?thesis using 1 split(4) by auto
    next
      case False
      with split(1) 1 show ?thesis by simp
    qed
  next
    case 2
    then have "Suc k < length (child # children)" "t = of_nat (i + Suc k)" "cs ! Suc k = tr_child tr (HashHandle h)"
      using split(4) by simp_all
    with 2(4) show ?thesis by blast
  qed
qed simp

lemma rebuild_branch_linked:
  assumes "rebuild_branch tr h d = Ret b" and "sixteen_children tr"
  shows "linked tr h [b] (tr_blake2 tr (bn_data b))"
proof -
  from assms(1) obtain nibbles children v t cs where d: "tr_decode tr d = Some (NibbledBranch nibbles children v)"
    "rebuild_children tr h 0 None children = Ret (Some t, cs)"
    "b = \<lparr>bn_data = tr_branch_node tr nibbles cs v, bn_child = t\<rparr>"
    by (auto simp: rebuild_branch_def exec_bind_Ret_iff split: option.splits trie_node.splits)
  have "length children = 16" using assms(2) d(1) by (auto simp: sixteen_children_def)
  moreover from rebuild_children_target [OF d(2)] obtain k where k: "k < length children" "t = of_nat k"
    "cs ! k = tr_child tr (HashHandle h)" "tr_child tr (HashHandle h) \<noteq> None" by auto
  ultimately have "unat t = k" by (simp add: unat_of_nat)
  with k rebuild_children_length [OF d(2)]
  have "unat t < length cs \<and> cs ! unat t = tr_child tr (HashHandle h) \<and> tr_child tr (HashHandle h) \<noteq> None" by simp
  with d(3) show ?thesis by (auto simp del: not_None_eq intro!: exI [of _ nibbles] exI [of _ cs])
qed

lemma rebuild_branches_linked:
  "rebuild_branches tr h nodes = Ret (root, bs) \<Longrightarrow> sixteen_children tr \<Longrightarrow> linked tr h bs root"
proof (induction nodes arbitrary: h bs)
  case (Cons d nodes)
  from Cons.prems(1) obtain b bs' where "rebuild_branch tr h d = Ret b" "bs = b # bs'"
    "rebuild_branches tr (tr_blake2 tr (bn_data b)) nodes = Ret (root, bs')"
    by (auto simp: exec_bind_Ret_iff)
  with Cons.IH Cons.prems(2) rebuild_branch_linked [of tr h d b] show ?case by simp
qed simp

lemma rebuild_leaf_holds: "rebuild_leaf tr leaf data = Ret encoded \<Longrightarrow> leaf_holds tr encoded data"
  by (auto simp: rebuild_leaf_def leaf_holds_def exec_bind_Ret_iff split: option.splits trie_node.splits if_splits)

lemma of_exec_answered_iff [simp]: "of_exec e = answered a \<longleftrightarrow> e = Ret a"
  by (cases e) (auto simp: of_exec_def)

lemma linked_last: "linked tr h bs root \<Longrightarrow> bs \<noteq> [] \<Longrightarrow> tr_blake2 tr (bn_data (last bs)) = root"
  by (induction tr h bs root rule: linked.induct) (auto split: if_splits)

definition inclusion_ok :: "trie_source \<Rightarrow> block_header \<Rightarrow> storage_inclusion_proof \<Rightarrow> bool" where
  "inclusion_ok tr header p \<longleftrightarrow>
     leaf_holds tr (si_leaf_node_data p) (si_stored_data p)
   \<and> linked tr (tr_blake2 tr (si_leaf_node_data p)) (si_branch_nodes_data p) (bh_state_root header)
   \<and> si_block_header p = bh_encoded header
   \<and> take 32 (drop (32 + tr_compact_len tr (bh_number header)) (si_block_header p)) = bh_state_root header"

lemma block_inclusion_ok:
  assumes "fetch_block_inclusion_proof tr block address = answered p" and "sixteen_children tr"
  shows "\<exists>header. tr_header tr block = Inr header \<and> tr_storage tr block address = Inr (Some (si_stored_data p))
    \<and> inclusion_ok tr header p"
proof -
  from assms(1) obtain t header where t: "fetch_storage_inclusion_proof tr block address = answered t"
    "tr_header tr block = Inr header" "ti_branch_nodes_data t \<noteq> []"
    "take 32 (drop (32 + tr_compact_len tr (bh_number header)) (bh_encoded header)) = tr_blake2 tr (bn_data (last (ti_branch_nodes_data t)))"
    "p = \<lparr>si_address = address, si_block_header = bh_encoded header, si_branch_nodes_data = ti_branch_nodes_data t,
          si_leaf_node_data = ti_leaf_node_data t, si_stored_data = ti_leaf_data t\<rparr>"
    by (auto simp: fetch_block_inclusion_proof_def ans_bind_done_iff Let_def)
  from t(1,2) obtain leaf bs data nodes where u: "tr_storage tr block address = Inr (Some data)"
    "rebuild_leaf tr (last nodes) data = Ret leaf"
    "rebuild_branches tr (tr_blake2 tr leaf) (rev (butlast nodes)) = Ret (bh_state_root header, bs)"
    "t = \<lparr>ti_branch_nodes_data = bs, ti_leaf_node_data = leaf, ti_leaf_data = data\<rparr>"
    by (auto simp: fetch_storage_inclusion_proof_def ans_bind_done_iff res_bind_Inr_iff ok_or_Inr_iff split: option.splits)
  note link = rebuild_branches_linked [OF u(3) assms(2)]
  with linked_last [OF link] rebuild_leaf_holds [OF u(2)] t u show ?thesis
    by (auto simp: inclusion_ok_def)
qed

section \<open>The properties\<close>

lemma fetch_authority_set_on_chain:
  assumes "serves node hash sets head" and "unat head < 2 ^ 31" and "n \<le> head"
    and "fetch_authority_set node (sets n) = Some (Inr keys)"
  shows "\<exists>m \<le> head. sets m = sets n \<and> fetch_authority_set_in_block node (hash m) = Inr keys"
  using search_finds [OF assms(1-3) refl] assms(4) by (auto simp: fetch_authority_set_def)

text \<open>Property C28. On a node that follows a chain a finality proof for block \<open>n + 1\<close> carries the vote for that
  block in the authority set of block \<open>n\<close>, every precommit in it is a valid signature of this vote, the
  validator set is the one that a block of this authority set queues, and the conversion for the
  prover, which panics on a message of another length, accepts it.\<close>

theorem finality_proof_sound:
  assumes "serves node hash sets head" and "unat head < 2 ^ 31" and "n < head"
    and "fetch_finality_proof gr node after_block = answered (hash (n + 1), proof)"
  shows "(\<exists>rnd number. bf_message proof = gr_localized_payload gr rnd (sets n) (hash (n + 1)) number)
    \<and> (\<forall>pc \<in> set (bf_pre_commits proof). gr_verify gr (pc_signature pc) (bf_message proof) (pc_public_key pc))
    \<and> (\<exists>m \<le> head. sets m = sets n \<and> fetch_authority_set_in_block node (hash m) = Inr (bf_validator_set proof))
    \<and> (\<exists>finality. parse_rpc_block_finality_proof proof = Ret finality)"
proof -
  note ok = fetch_finality_proof_ok [OF assms(4)]
  have "n \<le> head" using assms(3) by simp
  from ok signed_by_on_chain [OF assms(1,3)] have
    "\<exists>rnd number. bf_message proof = gr_localized_payload gr rnd (sets n) (hash (n + 1)) number"
    "fetch_authority_set node (sets n) = Some (Inr (bf_validator_set proof))"
    by (auto simp: finality_ok_def)
  moreover note fetch_authority_set_on_chain [OF assms(1,2) \<open>n \<le> head\<close> this(2)]
  moreover note finality_parses [OF ok]
  ultimately show ?thesis using ok by (auto simp: finality_ok_def)
qed

text \<open>Property C29. A final proof is made only from a finality proof and an inclusion proof that hold: the
  prover gets a block with votes that all verify, and the value stored at the address of the queue's
  merkle root, in a leaf that the branches link to the state root in the header of that block.\<close>

theorem final_proof_inputs_hold:
  assumes "prove_final pv gr node tr previous_proof config at_block = answered fp" and "sixteen_children tr"
  shows "\<exists>block finality header inclusion exported result public_inputs.
      finality_ok gr node block finality
    \<and> tr_header tr block = Inr header
    \<and> tr_storage tr block MERKLE_ROOT_STORAGE_ADDRESS = Inr (Some (si_stored_data inclusion))
    \<and> inclusion_ok tr header inclusion
    \<and> pv_message_sent pv previous_proof finality config (parse_rpc_inclusion_proof inclusion) (si_stored_data inclusion)
        = Ret exported
    \<and> pv_gnark pv exported = Ret result
    \<and> parse_public_inputs pv (pr_public_inputs result) = Ret public_inputs
    \<and> from_proof_and_public_inputs (pv_hex_decode pv) (pr_proof result) public_inputs = Ret fp"
proof -
  from assms(1) obtain block finality inclusion where
    found: "fetch_finality_proof gr node at_block = answered (block, finality)"
      "fetch_block_inclusion_proof tr block MERKLE_ROOT_STORAGE_ADDRESS = answered inclusion" and
    made: "exec_bind (parse_rpc_block_finality_proof finality) (\<lambda>finality.
       exec_bind (pv_message_sent pv previous_proof finality config (parse_rpc_inclusion_proof inclusion)
         (si_stored_data inclusion)) (\<lambda>proof.
       exec_bind (pv_gnark pv proof) (\<lambda>result.
       exec_bind (parse_public_inputs pv (pr_public_inputs result)) (\<lambda>public_inputs.
         from_proof_and_public_inputs (pv_hex_decode pv) (pr_proof result) public_inputs)))) = Ret fp"
    by (auto simp: prove_final_def prove_final_with_block_finality_def fetch_sent_message_inclusion_proof_def ans_bind_done_iff)
  note ok = fetch_finality_proof_ok [OF found(1)]
  have "parse_rpc_block_finality_proof finality = Ret finality" using finality_parses [OF ok] by simp
  with made obtain exported result public_inputs where
    "pv_message_sent pv previous_proof finality config (parse_rpc_inclusion_proof inclusion) (si_stored_data inclusion)
        = Ret exported" "pv_gnark pv exported = Ret result"
    "parse_public_inputs pv (pr_public_inputs result) = Ret public_inputs"
    "from_proof_and_public_inputs (pv_hex_decode pv) (pr_proof result) public_inputs = Ret fp"
    by (auto simp: exec_bind_Ret_iff)
  with ok block_inclusion_ok [OF found(2) assms(2)] show ?thesis by blast
qed

text \<open>A chain with one authority set and a codec of one leaf below one branch.\<close>

definition one_set_node :: gear_node where
  "one_set_node = sample_node\<lparr>nd_current_set_id := \<lambda>_. Inr (Some 4), nd_queued_keys := \<lambda>_. Inr (Some [(1, [9])])\<rparr>"

definition sample_grandpa :: grandpa where
  "sample_grandpa = \<lparr>gr_prove_finality = \<lambda>_. Inr (Some ''0x''), gr_hex_decode = \<lambda>_. Inr [],
     gr_decode_finality = \<lambda>_. Inr (2000, []),
     gr_decode_justification = \<lambda>_. Inr \<lparr>ju_round = 3, ju_target_hash = 2000, ju_target_number = 2000,
       ju_precommits = [\<lparr>sp_target_hash = 2000, sp_target_number = 2000, sp_signature = [5], sp_id = [9]\<rparr>]\<rparr>,
     gr_localized_payload = \<lambda>rnd k h n. replicate 53 7, gr_verify = \<lambda>s d k. s = [5] \<and> k = [9]\<rparr>"

definition sample_trie :: trie_source where
  "sample_trie = \<lparr>tr_decode = \<lambda>d. if d = [0] then Some (LeafNode [] (InlineValue []))
       else Some (NibbledBranch [] (Some (InlineHandle []) # replicate 15 None) None),
     tr_leaf_node = \<lambda>nibbles v. [2], tr_branch_node = \<lambda>nibbles cs v. [3],
     tr_child = \<lambda>h. Some (HashChild []), tr_generate_proof = \<lambda>db root key. Some [[1], [0]],
     tr_blake2 = \<lambda>d. replicate 32 8, tr_compact_len = \<lambda>n. 2,
     tr_header = \<lambda>b. Inr \<lparr>bh_number = 2000, bh_state_root = replicate 32 8, bh_encoded = replicate 66 8\<rparr>,
     tr_read_proof = \<lambda>b a. Inr [], tr_storage = \<lambda>b a. Inr (Some (replicate 32 1))\<rparr>"

definition sample_provers :: "unit provers" where
  "sample_provers = \<lparr>pv_genesis = \<lambda>_ _ _ _. Panic [], pv_change = \<lambda>_ _ _ _. Panic [], pv_message_sent = \<lambda>_ _ _ _ _. Ret (),
     pv_gnark = \<lambda>_. Ret \<lparr>pr_proof = ''0x'', pr_public_inputs = [''1'', ''2'']\<rparr>,
     pv_hex_decode = \<lambda>_. Some [], pv_parse_biguint = \<lambda>_. Some 0\<rparr>"

definition sample_finality :: block_finality_proof where
  "sample_finality = \<lparr>bf_validator_set = [[9]], bf_pre_commits = [\<lparr>pc_public_key = [9], pc_signature = [5]\<rparr>],
     bf_message = replicate 53 7\<rparr>"

lemma one_set_serves: "serves one_set_node ucast (\<lambda>_. 4) 2999"
  using sample_serves by (simp add: serves_def one_set_node_def sample_node_def)

lemma sample_fetch: "fetch_finality_proof sample_grandpa one_set_node 1500 = answered (2000, sample_finality)"
proof -
  note at = serves_simps [OF one_set_serves]
  have "signed_by_authority_set_id one_set_node 2000 = Inr 4"
    using signed_by_on_chain [OF one_set_serves, of 1999] by simp
  moreover have "fetch_authority_set one_set_node 4 = Some (Inr [[9]])"
    using at(1) at(4) [of 2999]
    by (simp add: fetch_authority_set_def search_for_authority_set_block_def fetch_authority_set_in_block_def
        fetch_from_storage_def one_set_node_def)
  moreover have "block_hash_to_number one_set_node 1500 = Inr 1500" "block_hash_to_number one_set_node 2000 = Inr 2000"
    using at(3) [of 1500] at(3) [of 2000] by simp_all
  ultimately show ?thesis
    by (simp add: fetch_finality_proof_def produce_finality_proof_def sample_grandpa_def strip_0x_def claim_def
        precommits_target_def VOTE_LENGTH_IN_BITS_def sample_finality_def Let_def)
qed

theorem finality_proof_sound_witness:
  "fetch_finality_proof sample_grandpa one_set_node 1500 = answered (2000, sample_finality)
   \<and> list_all (\<lambda>pc. gr_verify sample_grandpa (pc_signature pc) (bf_message sample_finality) (pc_public_key pc))
        (bf_pre_commits sample_finality)"
  using finality_proof_sound [OF one_set_serves, of 1999 sample_grandpa 1500 sample_finality] sample_fetch
  by (simp add: list_all_iff)

lemma rebuild_no_children:
  "rebuild_children tr h i target (replicate n None) = Ret (target, replicate n None)"
  by (induction n arbitrary: i) simp_all

definition sample_inclusion :: storage_inclusion_proof where
  "sample_inclusion = \<lparr>si_address = MERKLE_ROOT_STORAGE_ADDRESS, si_block_header = replicate 66 8,
     si_branch_nodes_data = [\<lparr>bn_data = [3], bn_child = 0\<rparr>], si_leaf_node_data = [2], si_stored_data = replicate 32 1\<rparr>"

lemma sample_storage: "fetch_block_inclusion_proof sample_trie block MERKLE_ROOT_STORAGE_ADDRESS = answered sample_inclusion"
proof -
  have "rebuild_leaf sample_trie [0] (replicate 32 1) = Ret [2]"
    by (simp add: rebuild_leaf_def sample_trie_def)
  moreover have "rebuild_branch sample_trie h [1] = Ret \<lparr>bn_data = [3], bn_child = 0\<rparr>" for h
    by (simp add: rebuild_branch_def sample_trie_def rebuild_no_children)
  ultimately have "fetch_storage_inclusion_proof sample_trie block MERKLE_ROOT_STORAGE_ADDRESS
    = answered \<lparr>ti_branch_nodes_data = [\<lparr>bn_data = [3], bn_child = 0\<rparr>], ti_leaf_node_data = [2], ti_leaf_data = replicate 32 1\<rparr>"
    unfolding fetch_storage_inclusion_proof_def
    by (simp add: sample_trie_def claim_def of_exec_def)
  then show ?thesis
    by (simp add: fetch_block_inclusion_proof_def sample_trie_def claim_def sample_inclusion_def)
qed

theorem final_proof_inputs_hold_witness:
  "\<exists>fp block finality. prove_final sample_provers sample_grandpa one_set_node sample_trie
      \<lparr>pw_proof = [], pw_circuit_data = []\<rparr> \<lparr>gc_authority_set_id = 1, gc_authority_set_hash = []\<rparr> 1500 = answered fp
    \<and> finality_ok sample_grandpa one_set_node block finality"
proof -
  have "\<exists>fp. prove_final sample_provers sample_grandpa one_set_node sample_trie
      \<lparr>pw_proof = [], pw_circuit_data = []\<rparr> \<lparr>gc_authority_set_id = 1, gc_authority_set_hash = []\<rparr> 1500 = answered fp"
    by (simp add: prove_final_def sample_fetch prove_final_with_block_finality_def fetch_sent_message_inclusion_proof_def
        sample_storage of_exec_def sample_finality_def parse_rpc_block_finality_proof_def GRANDPA_VOTE_LENGTH_def
        sample_provers_def parse_public_inputs_def from_proof_and_public_inputs_def pad_pi_def to_bytes_be.simps [of 0] Let_def)
  then obtain fp where fp: "prove_final sample_provers sample_grandpa one_set_node sample_trie
      \<lparr>pw_proof = [], pw_circuit_data = []\<rparr> \<lparr>gc_authority_set_id = 1, gc_authority_set_hash = []\<rparr> 1500 = answered fp" ..
  moreover have "sixteen_children sample_trie"
    by (auto simp: sixteen_children_def sample_trie_def split: if_splits)
  ultimately show ?thesis using final_proof_inputs_hold [OF fp] by blast
qed

end
