(* ===== verification/U32_Gates.thy ===== *)
theory U32_Gates
  imports Complex_Main
begin

text \<open>
  The gates for 32 bit arithmetic (\<open>circuits/plonky2_u32/src/gates\<close>): the constraints of the range check,
  multiplication and subtraction gates in their three forms (over the extension field, packed, and
  built as a circuit), the generators of the wires, and proofs that the constraints admit the
  right values and nothing else. The sources are generic in the field; here it is a type of class
  \<open>field\<close> in which the numbers below the order of the Goldilocks field are distinct.
\<close>

section \<open>Shared parts\<close>

declare upt_rec_numeral [simp del]

definition goldilocks_order :: nat where
  "goldilocks_order = 2 ^ 64 - 2 ^ 32 + 1"

definition order_ok :: "'a::field itself \<Rightarrow> bool" where
  "order_ok t \<longleftrightarrow> inj_on (of_nat :: nat \<Rightarrow> 'a) {..<goldilocks_order}"

lemma of_nat_eqD:
  "order_ok TYPE('a::field) \<Longrightarrow> (of_nat m :: 'a) = of_nat n \<Longrightarrow> m < goldilocks_order \<Longrightarrow> n < goldilocks_order \<Longrightarrow> m = n"
  unfolding order_ok_def by (rule inj_onD [of of_nat]) auto

definition limb_bits :: nat where
  "limb_bits = 2"

text \<open>The product over all values of a limb, as an iterator's product and as a loop of builder calls.\<close>

definition limb_product :: "'a::field \<Rightarrow> 'a" where
  "limb_product this_limb = prod_list (map (\<lambda>x. this_limb - of_nat x) [0..<2 ^ limb_bits])"

definition limb_product_circuit :: "'a::field \<Rightarrow> 'a" where
  "limb_product_circuit this_limb = foldl (\<lambda>product x. product * (this_limb - of_nat x)) 1 [0..<2 ^ limb_bits]"

text \<open>\<open>acc' = acc (x - i) = acc x + (-i) acc\<close>, in one arithmetic call per value.\<close>

definition limb_product_arithmetic :: "'a::field \<Rightarrow> 'a" where
  "limb_product_arithmetic aux_limb =
     foldl (\<lambda>acc i. 1 * acc * aux_limb + (- of_nat i) * acc) 1 [0..<2 ^ limb_bits]"

lemma limb_list: "[0..<2 ^ limb_bits] = [0, 1, 2, 3]"
  by (simp add: limb_bits_def upt_rec)

lemma limb_products_agree:
  "limb_product_circuit l = limb_product l" "limb_product_arithmetic l = limb_product l"
  by (simp_all add: limb_product_circuit_def limb_product_arithmetic_def limb_product_def limb_list algebra_simps)

lemma limb_product_zero: "limb_product l = 0 \<longleftrightarrow> (\<exists>d < 4. l = of_nat d)"
proof
  assume "limb_product l = 0"
  then have "l = of_nat 0 \<or> l = of_nat 1 \<or> l = of_nat 2 \<or> l = of_nat 3"
    by (auto simp: limb_product_def limb_list)
  then show "\<exists>d < 4. l = of_nat d"
    by (elim disjE) (rule exI, rule conjI [rotated], assumption, simp)+
next
  assume "\<exists>d < 4. l = of_nat d"
  then obtain d where "d < 4" "l = of_nat d" by blast
  then have "d = 0 \<or> d = 1 \<or> d = 2 \<or> d = 3" by auto
  with \<open>l = of_nat d\<close> show "limb_product l = 0" by (auto simp: limb_product_def limb_list)
qed

text \<open>\<open>plonky2::util::reducing::reduce_with_powers\<close>: Horner's rule from the last limb.\<close>

definition reduce_with_powers :: "'a::field list \<Rightarrow> 'a \<Rightarrow> 'a" where
  "reduce_with_powers limbs base = foldr (\<lambda>limb acc. acc * base + limb) limbs 0"

text \<open>The limbs that a generator writes: the digits of a number, least significant first.\<close>

fun limbs_of :: "nat \<Rightarrow> nat \<Rightarrow> nat \<Rightarrow> nat list" where
  "limbs_of base 0 acc = []"
| "limbs_of base (Suc n) acc = acc mod base # limbs_of base n (acc div base)"

fun of_limbs :: "nat \<Rightarrow> nat list \<Rightarrow> nat" where
  "of_limbs base [] = 0"
| "of_limbs base (d # ds) = d + base * of_limbs base ds"

lemma length_limbs_of [simp]: "length (limbs_of base n acc) = n"
  by (induction base n acc rule: limbs_of.induct) auto

lemma of_limbs_limbs_of: "acc < base ^ n \<Longrightarrow> of_limbs base (limbs_of base n acc) = acc"
  by (induction base n acc rule: limbs_of.induct) (auto simp: less_mult_imp_div_less mult.commute)

lemma limbs_of_less: "0 < base \<Longrightarrow> d \<in> set (limbs_of base n acc) \<Longrightarrow> d < base"
  by (induction base n acc rule: limbs_of.induct) auto

lemma of_limbs_less: "\<forall>d \<in> set ds. d < base \<Longrightarrow> of_limbs base ds < base ^ length ds"
proof (induction ds)
  case (Cons d ds)
  then have "d + base * of_limbs base ds < base + base * of_limbs base ds" by simp
  also have "\<dots> = base * Suc (of_limbs base ds)" by simp
  also have "\<dots> \<le> base * base ^ length ds" using Cons by (intro mult_left_mono) (auto simp: Suc_le_eq)
  finally show ?case by simp
qed simp

lemma reduce_of_nat:
  "reduce_with_powers (map of_nat ds) (of_nat base) = (of_nat (of_limbs base ds) :: 'a::field)"
  by (induction ds) (simp_all add: reduce_with_powers_def algebra_simps)

text \<open>Limbs whose products vanish are the digits of a number below the power.\<close>

lemma limbs_checked:
  assumes "\<forall>l \<in> set ls. limb_product l = (0 :: 'a::field)"
  obtains ds where "ls = map of_nat ds" "\<forall>d \<in> set ds. d < 4" "reduce_with_powers ls (of_nat 4) = of_nat (of_limbs 4 ds)"
    "of_limbs 4 ds < 4 ^ length ls"
proof -
  from assms have "\<exists>ds. ls = map of_nat ds \<and> (\<forall>d \<in> set ds. d < 4)"
  proof (induction ls)
    case (Cons l ls)
    then obtain ds d where "ls = map of_nat ds" "\<forall>d \<in> set ds. d < 4" "l = of_nat d" "d < 4"
      by (auto simp: limb_product_zero)
    then show ?case by (intro exI [of _ "d # ds"]) simp
  qed simp
  then obtain ds where ds: "ls = map of_nat ds" "\<forall>d \<in> set ds. d < 4" by blast
  have "of_limbs 4 ds < 4 ^ length ls" using of_limbs_less [OF ds(2)] ds(1) by simp
  moreover have "reduce_with_powers ls (of_nat 4) = of_nat (of_limbs 4 ds)" unfolding ds(1) by (rule reduce_of_nat)
  ultimately show ?thesis using that ds by blast
qed

section \<open>The range check gate\<close>

definition rc_wire_input_limb :: "nat \<Rightarrow> nat" where
  "rc_wire_input_limb i = i"

definition rc_aux_limbs :: nat where
  "rc_aux_limbs = (32 + limb_bits - 1) div limb_bits"

definition rc_wire_aux_limb :: "nat \<Rightarrow> nat \<Rightarrow> nat \<Rightarrow> nat" where
  "rc_wire_aux_limb num_input_limbs i j = num_input_limbs + rc_aux_limbs * i + j"

definition rc_eval_one :: "nat \<Rightarrow> (nat \<Rightarrow> 'a::field) \<Rightarrow> nat \<Rightarrow> 'a list" where
  "rc_eval_one n w i =
     (let aux_limbs = map (\<lambda>j. w (rc_wire_aux_limb n i j)) [0..<rc_aux_limbs];
          computed_sum = reduce_with_powers aux_limbs (of_nat (2 ^ limb_bits))
      in (computed_sum - w (rc_wire_input_limb i)) # map limb_product aux_limbs)"

definition rc_eval :: "nat \<Rightarrow> (nat \<Rightarrow> 'a::field) \<Rightarrow> 'a list" where
  "rc_eval n w = concat (map (rc_eval_one n w) [0..<n])"

definition rc_eval_circuit :: "nat \<Rightarrow> (nat \<Rightarrow> 'a::field) \<Rightarrow> 'a list" where
  "rc_eval_circuit n w = concat (map (\<lambda>i.
     let aux_limbs = map (\<lambda>j. w (rc_wire_aux_limb n i j)) [0..<rc_aux_limbs];
         computed_sum = reduce_with_powers aux_limbs (of_nat (2 ^ limb_bits))
     in (computed_sum - w (rc_wire_input_limb i)) # map limb_product_arithmetic aux_limbs) [0..<n])"

text \<open>The generator; \<open>canon\<close> is \<open>to_canonical_u64\<close>, and the cast to \<open>u32\<close> keeps the low half.\<close>

definition rc_generate :: "('a::field \<Rightarrow> nat) \<Rightarrow> nat \<Rightarrow> (nat \<Rightarrow> 'a) \<Rightarrow> nat \<Rightarrow> (nat \<times> 'a) list" where
  "rc_generate canon n w i =
     (let sum_value = canon (w (rc_wire_input_limb i)) mod 2 ^ 32
      in zip (map (\<lambda>j. rc_wire_aux_limb n i j) [0..<rc_aux_limbs])
           (map of_nat (limbs_of (2 ^ limb_bits) rc_aux_limbs sum_value)))"

lemma rc_aux_limbs [simp]: "rc_aux_limbs = 16"
  by (simp add: rc_aux_limbs_def limb_bits_def)

lemma rc_eval_circuit_eq: "rc_eval_circuit n w = rc_eval n w"
  by (simp add: rc_eval_circuit_def rc_eval_def rc_eval_one_def Let_def limb_products_agree cong: map_cong)

lemma rc_sound:
  assumes "\<forall>c \<in> set (rc_eval n w). c = 0" and "i < n"
  shows "\<exists>x < 2 ^ 32. w (rc_wire_input_limb i) = of_nat x"
proof -
  let ?ls = "map (\<lambda>j. w (rc_wire_aux_limb n i j)) [0..<rc_aux_limbs]"
  have zero: "\<forall>c \<in> set (rc_eval_one n w i). c = 0" using assms by (auto simp: rc_eval_def)
  then have "\<forall>l \<in> set ?ls. limb_product l = 0" by (auto simp: rc_eval_one_def Let_def)
  then obtain ds where "reduce_with_powers ?ls (of_nat 4) = of_nat (of_limbs 4 ds)" "of_limbs 4 ds < 4 ^ length ?ls"
    by (rule limbs_checked)
  moreover have "w (rc_wire_input_limb i) = reduce_with_powers ?ls (of_nat 4)"
    using zero by (simp add: rc_eval_one_def Let_def limb_bits_def)
  ultimately show ?thesis by auto
qed

section \<open>The arithmetic gate\<close>

definition routed_wires_per_op :: nat where
  "routed_wires_per_op = 6"

definition ar_num_limbs :: nat where
  "ar_num_limbs = 64 div limb_bits"

definition wire_ith_multiplicand_0 :: "nat \<Rightarrow> nat" where
  "wire_ith_multiplicand_0 i = routed_wires_per_op * i"

definition wire_ith_multiplicand_1 :: "nat \<Rightarrow> nat" where
  "wire_ith_multiplicand_1 i = routed_wires_per_op * i + 1"

definition wire_ith_addend :: "nat \<Rightarrow> nat" where
  "wire_ith_addend i = routed_wires_per_op * i + 2"

definition wire_ith_output_low_half :: "nat \<Rightarrow> nat" where
  "wire_ith_output_low_half i = routed_wires_per_op * i + 3"

definition wire_ith_output_high_half :: "nat \<Rightarrow> nat" where
  "wire_ith_output_high_half i = routed_wires_per_op * i + 4"

definition wire_ith_inverse :: "nat \<Rightarrow> nat" where
  "wire_ith_inverse i = routed_wires_per_op * i + 5"

definition ar_wire_limb :: "nat \<Rightarrow> nat \<Rightarrow> nat \<Rightarrow> nat" where
  "ar_wire_limb num_ops i j = routed_wires_per_op * num_ops + ar_num_limbs * i + j"

text \<open>
  The loop over the limbs, from the last to the first, with the products it pushes and the two
  halves it combines; \<open>product\<close> and \<open>combine\<close> are what the three evaluations do differently.
\<close>

definition limb_loop ::
  "('a::field \<Rightarrow> 'a) \<Rightarrow> ('a \<Rightarrow> 'a \<Rightarrow> 'a) \<Rightarrow> (nat \<Rightarrow> 'a) \<Rightarrow> nat \<Rightarrow> nat \<Rightarrow> 'a list \<times> 'a \<times> 'a" where
  "limb_loop product combine limb num_limbs midpoint =
     foldl (\<lambda>(products, combined_low, combined_high) j.
       let this_limb = limb j
       in (products @ [product this_limb],
           (if j < midpoint then combine combined_low this_limb else combined_low),
           (if j < midpoint then combined_high else combine combined_high this_limb)))
       ([], 0, 0) (rev [0..<num_limbs])"

definition arithmetic_eval_one ::
  "('a::field \<Rightarrow> 'a) \<Rightarrow> ('a \<Rightarrow> 'a \<Rightarrow> 'a) \<Rightarrow> nat \<Rightarrow> (nat \<Rightarrow> 'a) \<Rightarrow> nat \<Rightarrow> 'a list" where
  "arithmetic_eval_one product combine num_ops w i =
     (let multiplicand_0 = w (wire_ith_multiplicand_0 i);
          multiplicand_1 = w (wire_ith_multiplicand_1 i);
          addend = w (wire_ith_addend i);
          computed_output = multiplicand_0 * multiplicand_1 + addend;
          output_low = w (wire_ith_output_low_half i);
          output_high = w (wire_ith_output_high_half i);
          inverse_wire = w (wire_ith_inverse i);
          diff = of_nat (2 ^ 32 - 1) - output_high;
          hi_not_max = inverse_wire * diff - 1;
          hi_not_max_or_lo_zero = hi_not_max * output_low;
          combined_output = output_high * of_nat (2 ^ 32) + output_low;
          (products, combined_low_limbs, combined_high_limbs) =
            limb_loop product combine (\<lambda>j. w (ar_wire_limb num_ops i j)) ar_num_limbs (ar_num_limbs div 2)
      in [hi_not_max_or_lo_zero, combined_output - computed_output] @ products @
         [combined_low_limbs - output_low, combined_high_limbs - output_high])"

definition arithmetic_eval :: "nat \<Rightarrow> (nat \<Rightarrow> 'a::field) \<Rightarrow> 'a list" where
  "arithmetic_eval num_ops w = concat (map (arithmetic_eval_one limb_product
     (\<lambda>acc limb. of_nat (2 ^ limb_bits) * acc + limb) num_ops w) [0..<num_ops])"

definition arithmetic_eval_circuit :: "nat \<Rightarrow> (nat \<Rightarrow> 'a::field) \<Rightarrow> 'a list" where
  "arithmetic_eval_circuit num_ops w = concat (map (arithmetic_eval_one limb_product_circuit
     (\<lambda>acc limb. of_nat (2 ^ limb_bits) * acc + limb) num_ops w) [0..<num_ops])"

definition arithmetic_eval_packed :: "nat \<Rightarrow> (nat \<Rightarrow> 'a::field) \<Rightarrow> 'a list" where
  "arithmetic_eval_packed num_ops w = concat (map (arithmetic_eval_one limb_product
     (\<lambda>acc limb. acc * of_nat (2 ^ limb_bits) + limb) num_ops w) [0..<num_ops])"

text \<open>The wires that the generator sets for operation \<open>i\<close>.\<close>

definition arithmetic_generate :: "('a::field \<Rightarrow> nat) \<Rightarrow> nat \<Rightarrow> (nat \<Rightarrow> 'a) \<Rightarrow> nat \<Rightarrow> (nat \<times> 'a) list" where
  "arithmetic_generate canon num_ops w i =
     (let output = w (wire_ith_multiplicand_0 i) * w (wire_ith_multiplicand_1 i) + w (wire_ith_addend i);
          output_u64 = canon output;
          output_high_u64 = output_u64 div 2 ^ 32;
          output_low_u64 = output_u64 mod 2 ^ 32;
          diff = (2 ^ 32 - 1) - output_high_u64
      in [(wire_ith_output_high_half i, of_nat output_high_u64), (wire_ith_output_low_half i, of_nat output_low_u64),
          (wire_ith_inverse i, if diff = 0 then 0 else inverse (of_nat diff))] @
         zip (map (ar_wire_limb num_ops i) [0..<ar_num_limbs])
           (map of_nat (limbs_of (2 ^ limb_bits) ar_num_limbs output_u64)))"

lemma arithmetic_evals_agree:
  "arithmetic_eval_circuit num_ops w = arithmetic_eval num_ops w"
  "arithmetic_eval_packed num_ops w = arithmetic_eval num_ops w"
  unfolding arithmetic_eval_circuit_def arithmetic_eval_packed_def arithmetic_eval_def
  by (simp_all only: limb_products_agree(1) [abs_def] mult.commute)

lemma foldl_high:
  "\<forall>j \<in> set js. \<not> j < m \<Longrightarrow>
    foldl (\<lambda>(ps, lo, hi) j. let l = limb j in (ps @ [product l], (if j < m then c lo l else lo), (if j < m then hi else c hi l))) (ps, lo, hi) js
    = (ps @ map (\<lambda>j. product (limb j)) js, lo, foldl (\<lambda>acc j. c acc (limb j)) hi js)"
  by (induction js arbitrary: ps hi) (auto simp: Let_def)

lemma foldl_low:
  "\<forall>j \<in> set js. j < m \<Longrightarrow>
    foldl (\<lambda>(ps, lo, hi) j. let l = limb j in (ps @ [product l], (if j < m then c lo l else lo), (if j < m then hi else c hi l))) (ps, lo, hi) js
    = (ps @ map (\<lambda>j. product (limb j)) js, foldl (\<lambda>acc j. c acc (limb j)) lo js, hi)"
  by (induction js arbitrary: ps lo) (auto simp: Let_def)

lemma foldl_reduce:
  "foldl (\<lambda>acc j. b * acc + limb j) 0 (rev js) = reduce_with_powers (map limb js) (b :: 'a::field)"
  by (induction js) (simp_all add: reduce_with_powers_def mult.commute)

lemma limb_loop_eq:
  assumes "m \<le> n"
  shows "limb_loop limb_product (\<lambda>acc limb. b * acc + limb) limb n m =
    (map (\<lambda>j. limb_product (limb j)) (rev [0..<n]), reduce_with_powers (map limb [0..<m]) b,
     reduce_with_powers (map limb [m..<n]) b)"
proof -
  have split: "rev [0..<n] = rev [m..<n] @ rev [0..<m]"
    using upt_add_eq_append [of 0 m "n - m"] assms by (metis add.commute le_add_diff_inverse2 rev_append zero_le)
  show ?thesis
    unfolding limb_loop_def split foldl_append
    by (subst foldl_high) (simp_all add: foldl_low foldl_reduce)
qed

lemma ar_num_limbs [simp]: "ar_num_limbs = 32"
  by (simp add: ar_num_limbs_def limb_bits_def)

text \<open>The constraints of one operation, with the loop over the limbs resolved.\<close>

abbreviation arithmetic_one :: "nat \<Rightarrow> (nat \<Rightarrow> 'a::field) \<Rightarrow> nat \<Rightarrow> 'a list" where
  "arithmetic_one \<equiv> arithmetic_eval_one limb_product (\<lambda>acc limb. of_nat (2 ^ limb_bits) * acc + limb)"

lemma arithmetic_one_zero_iff:
  "(\<forall>c \<in> set (arithmetic_one n w i). c = 0) \<longleftrightarrow>
     (w (wire_ith_inverse i) * (of_nat (2 ^ 32 - 1) - w (wire_ith_output_high_half i)) - 1) * w (wire_ith_output_low_half i) = 0
     \<and> w (wire_ith_output_high_half i) * of_nat (2 ^ 32) + w (wire_ith_output_low_half i)
       = w (wire_ith_multiplicand_0 i) * w (wire_ith_multiplicand_1 i) + w (wire_ith_addend i)
     \<and> (\<forall>j < 32. limb_product (w (ar_wire_limb n i j)) = 0)
     \<and> reduce_with_powers (map (\<lambda>j. w (ar_wire_limb n i j)) [0..<16]) (of_nat 4) = w (wire_ith_output_low_half i)
     \<and> reduce_with_powers (map (\<lambda>j. w (ar_wire_limb n i j)) [16..<32]) (of_nat 4) = w (wire_ith_output_high_half i)"
  by (simp add: arithmetic_eval_one_def limb_loop_eq Let_def limb_bits_def atLeast0LessThan)
    (auto simp: lessThan_def)

lemma div_mod_unique_32:
  assumes "(x :: nat) = h * 2 ^ 32 + l" and "l < 2 ^ 32"
  shows "l = x mod 2 ^ 32 \<and> h = x div 2 ^ 32"
  using assms by simp

lemma mul_add_bound:
  assumes "(a :: nat) < 2 ^ 32" and "b < 2 ^ 32" and "c < 2 ^ 32"
  shows "a * b + c < goldilocks_order"
proof -
  have "a * b \<le> (2 ^ 32 - 1) * (2 ^ 32 - 1)" using assms by (intro mult_le_mono) auto
  then show ?thesis using assms(3) by (simp add: goldilocks_order_def)
qed

lemma arithmetic_one_sound:
  fixes w :: "nat \<Rightarrow> 'a::field"
  assumes order: "order_ok TYPE('a)" and zero: "\<forall>c \<in> set (arithmetic_one n w i). c = 0"
    and ins: "w (wire_ith_multiplicand_0 i) = of_nat a" "w (wire_ith_multiplicand_1 i) = of_nat b" "w (wire_ith_addend i) = of_nat c"
    and small: "a < 2 ^ 32" "b < 2 ^ 32" "c < 2 ^ 32"
  shows "w (wire_ith_output_low_half i) = of_nat ((a * b + c) mod 2 ^ 32)
    \<and> w (wire_ith_output_high_half i) = of_nat ((a * b + c) div 2 ^ 32)"
proof -
  note cs = zero [unfolded arithmetic_one_zero_iff]
  have "\<forall>l \<in> set (map (\<lambda>j. w (ar_wire_limb n i j)) [0..<16]). limb_product l = 0" using cs by auto
  then obtain ds where "reduce_with_powers (map (\<lambda>j. w (ar_wire_limb n i j)) [0..<16]) (of_nat 4) = of_nat (of_limbs 4 ds)"
    "of_limbs 4 ds < 4 ^ length (map (\<lambda>j. w (ar_wire_limb n i j)) [0..<16])" by (rule limbs_checked)
  then have "w (wire_ith_output_low_half i) = of_nat (of_limbs 4 ds) \<and> of_limbs 4 ds < 2 ^ 32" using cs by simp
  then obtain l where l: "w (wire_ith_output_low_half i) = of_nat l" "l < 2 ^ 32" by blast
  have "\<forall>l \<in> set (map (\<lambda>j. w (ar_wire_limb n i j)) [16..<32]). limb_product l = 0" using cs by auto
  then obtain ds where "reduce_with_powers (map (\<lambda>j. w (ar_wire_limb n i j)) [16..<32]) (of_nat 4) = of_nat (of_limbs 4 ds)"
    "of_limbs 4 ds < 4 ^ length (map (\<lambda>j. w (ar_wire_limb n i j)) [16..<32])" by (rule limbs_checked)
  then have "w (wire_ith_output_high_half i) = of_nat (of_limbs 4 ds) \<and> of_limbs 4 ds < 2 ^ 32" using cs by simp
  then obtain h where h: "w (wire_ith_output_high_half i) = of_nat h" "h < 2 ^ 32" by blast
  have canonical: "h * 2 ^ 32 + l < goldilocks_order"
  proof (cases "h = 2 ^ 32 - 1")
    case True
    then have "of_nat l = (of_nat 0 :: 'a)" using cs l(1) h(1) by simp
    then have "l = 0" using of_nat_eqD [OF order] l(2) by (auto simp: goldilocks_order_def)
    with True show ?thesis by (simp add: goldilocks_order_def)
  next
    case False
    with h(2) have "h + 2 \<le> 2 ^ 32" by simp
    then have "h * 2 ^ 32 + 2 * 2 ^ 32 \<le> 2 ^ 32 * 2 ^ 32" by (metis add_mult_distrib mult_le_mono1)
    with l(2) show ?thesis by (simp add: goldilocks_order_def)
  qed
  have "of_nat (h * 2 ^ 32 + l) = (of_nat (a * b + c) :: 'a)" using cs l(1) h(1) ins by simp
  then have "a * b + c = h * 2 ^ 32 + l"
    using of_nat_eqD [OF order _ canonical mul_add_bound [OF small]] by simp
  from div_mod_unique_32 [OF this l(2)] l(1) h(1) show ?thesis by simp
qed

text \<open>The digits that a generator writes, cut in two.\<close>

lemma take_limbs_of: "m \<le> n \<Longrightarrow> take m (limbs_of b n x) = limbs_of b m x"
proof (induction m arbitrary: n x)
  case (Suc m)
  then show ?case by (cases n) auto
qed simp

lemma drop_limbs_of: "m \<le> n \<Longrightarrow> drop m (limbs_of b n x) = limbs_of b (n - m) (x div b ^ m)"
proof (induction m arbitrary: n x)
  case (Suc m)
  then show ?case by (cases n) (auto simp: div_mult2_eq)
qed simp

lemma of_limbs_mod: "0 < b \<Longrightarrow> of_limbs b (limbs_of b n x) = x mod b ^ n"
  by (induction n arbitrary: x) (auto simp: mod_mult2_eq)

lemma arithmetic_one_complete:
  fixes w :: "nat \<Rightarrow> 'a::field"
  assumes order: "order_ok TYPE('a)" and canon: "\<forall>m < goldilocks_order. canon (of_nat m :: 'a) = m"
    and gen: "\<forall>(k, v) \<in> set (arithmetic_generate canon n w i). w k = v"
    and ins: "w (wire_ith_multiplicand_0 i) = of_nat a" "w (wire_ith_multiplicand_1 i) = of_nat b" "w (wire_ith_addend i) = of_nat c"
    and small: "a < 2 ^ 32" "b < 2 ^ 32" "c < 2 ^ 32"
  shows "\<forall>c \<in> set (arithmetic_one n w i). c = 0"
proof -
  let ?o = "a * b + c" let ?ds = "limbs_of 4 32 ?o"
  have bound: "?o < goldilocks_order" using mul_add_bound [OF small] .
  have out: "canon (of_nat a * of_nat b + of_nat c :: 'a) = ?o" using canon bound by (metis of_nat_add of_nat_mult)
  have high: "w (wire_ith_output_high_half i) = of_nat (?o div 2 ^ 32)"
    and low: "w (wire_ith_output_low_half i) = of_nat (?o mod 2 ^ 32)"
    and inv: "w (wire_ith_inverse i) = (if 2 ^ 32 - 1 - ?o div 2 ^ 32 = 0 then 0 else inverse (of_nat (2 ^ 32 - 1 - ?o div 2 ^ 32)))"
    using gen unfolding arithmetic_generate_def Let_def ins out by simp_all
  have limb: "w (ar_wire_limb n i j) = of_nat (?ds ! j)" if "j < 32" for j
  proof -
    have "(ar_wire_limb n i j, of_nat (?ds ! j)) \<in> set (zip (map (ar_wire_limb n i) [0..<32]) (map (of_nat :: nat \<Rightarrow> 'a) ?ds))"
      using that unfolding in_set_zip by (intro exI [of _ j]) simp
    then show ?thesis using gen unfolding arithmetic_generate_def Let_def ins out limb_bits_def by auto
  qed
  have le: "?o div 2 ^ 32 \<le> 2 ^ 32 - 1" using bound by (simp add: goldilocks_order_def)
  let ?d = "2 ^ 32 - 1 - ?o div 2 ^ 32 :: nat"
  have diff: "of_nat (2 ^ 32 - 1) - of_nat (?o div 2 ^ 32) = (of_nat ?d :: 'a)" using le by (simp only: of_nat_diff)
  have "(w (wire_ith_inverse i) * (of_nat (2 ^ 32 - 1) - w (wire_ith_output_high_half i)) - 1) * w (wire_ith_output_low_half i) = 0"
  proof (cases "?d = 0")
    case True
    then have "?o div 2 ^ 32 = 2 ^ 32 - 1" using le by linarith
    then have "?o mod 2 ^ 32 = 0" using bound mod_mult_div_eq [of ?o "2 ^ 32"] by (simp add: goldilocks_order_def)
    then show ?thesis by (simp only: low of_nat_0 mult_zero_right)
  next
    case False
    have "?d < goldilocks_order" by (simp add: goldilocks_order_def)
    then have "(of_nat ?d :: 'a) \<noteq> 0" using of_nat_eqD [OF order, of ?d 0] False by (auto simp: goldilocks_order_def)
    then show ?thesis unfolding high diff inv using False by simp
  qed
  moreover have "of_nat (?o div 2 ^ 32) * of_nat (2 ^ 32) + of_nat (?o mod 2 ^ 32) = (of_nat a * of_nat b + of_nat c :: 'a)"
    by (metis div_mult_mod_eq of_nat_add of_nat_mult)
  moreover have "limb_product (w (ar_wire_limb n i j)) = 0" if "j < 32" for j
    using limbs_of_less [of 4 "?ds ! j" 32 ?o] that by (auto simp: limb limb_product_zero)
  moreover have "map (\<lambda>j. w (ar_wire_limb n i j)) [0..<16] = map of_nat (take 16 ?ds)"
    "map (\<lambda>j. w (ar_wire_limb n i j)) [16..<32] = map of_nat (drop 16 ?ds)"
    by (auto intro!: nth_equalityI simp: limb)
  moreover have "?o div 2 ^ 32 mod 2 ^ 32 = ?o div 2 ^ 32" using le by simp
  ultimately show ?thesis unfolding arithmetic_one_zero_iff high low ins
    by (simp only: reduce_of_nat take_limbs_of drop_limbs_of) (simp add: of_limbs_mod)
qed

section \<open>The subtraction gate\<close>

definition sb_num_limbs :: nat where
  "sb_num_limbs = 32 div limb_bits"

definition wire_ith_input_x :: "nat \<Rightarrow> nat" where
  "wire_ith_input_x i = 5 * i"

definition wire_ith_input_y :: "nat \<Rightarrow> nat" where
  "wire_ith_input_y i = 5 * i + 1"

definition wire_ith_input_borrow :: "nat \<Rightarrow> nat" where
  "wire_ith_input_borrow i = 5 * i + 2"

definition wire_ith_output_result :: "nat \<Rightarrow> nat" where
  "wire_ith_output_result i = 5 * i + 3"

definition wire_ith_output_borrow :: "nat \<Rightarrow> nat" where
  "wire_ith_output_borrow i = 5 * i + 4"

definition sb_wire_limb :: "nat \<Rightarrow> nat \<Rightarrow> nat \<Rightarrow> nat" where
  "sb_wire_limb num_ops i j = 5 * num_ops + sb_num_limbs * i + j"

definition subtraction_eval_one ::
  "('a::field \<Rightarrow> 'a) \<Rightarrow> ('a \<Rightarrow> 'a \<Rightarrow> 'a) \<Rightarrow> nat \<Rightarrow> (nat \<Rightarrow> 'a) \<Rightarrow> nat \<Rightarrow> 'a list" where
  "subtraction_eval_one product combine num_ops w i =
     (let result_initial = w (wire_ith_input_x i) - w (wire_ith_input_y i) - w (wire_ith_input_borrow i);
          base = of_nat (2 ^ 32);
          output_result = w (wire_ith_output_result i);
          output_borrow = w (wire_ith_output_borrow i);
          (products, combined_limbs, _) =
            limb_loop product combine (\<lambda>j. w (sb_wire_limb num_ops i j)) sb_num_limbs sb_num_limbs
      in [output_result - (result_initial + base * output_borrow)] @ products @
         [combined_limbs - output_result, output_borrow * (1 - output_borrow)])"

definition subtraction_eval :: "nat \<Rightarrow> (nat \<Rightarrow> 'a::field) \<Rightarrow> 'a list" where
  "subtraction_eval num_ops w = concat (map (subtraction_eval_one limb_product
     (\<lambda>acc limb. of_nat (2 ^ limb_bits) * acc + limb) num_ops w) [0..<num_ops])"

definition subtraction_eval_circuit :: "nat \<Rightarrow> (nat \<Rightarrow> 'a::field) \<Rightarrow> 'a list" where
  "subtraction_eval_circuit num_ops w = concat (map (subtraction_eval_one limb_product_circuit
     (\<lambda>acc limb. of_nat (2 ^ limb_bits) * acc + limb) num_ops w) [0..<num_ops])"

definition subtraction_eval_packed :: "nat \<Rightarrow> (nat \<Rightarrow> 'a::field) \<Rightarrow> 'a list" where
  "subtraction_eval_packed num_ops w = concat (map (subtraction_eval_one limb_product
     (\<lambda>acc limb. acc * of_nat (2 ^ limb_bits) + limb) num_ops w) [0..<num_ops])"

definition subtraction_generate :: "('a::field \<Rightarrow> nat) \<Rightarrow> nat \<Rightarrow> (nat \<Rightarrow> 'a) \<Rightarrow> nat \<Rightarrow> (nat \<times> 'a) list" where
  "subtraction_generate canon num_ops w i =
     (let result_initial = w (wire_ith_input_x i) - w (wire_ith_input_y i) - w (wire_ith_input_borrow i);
          output_borrow = (if canon result_initial > 2 ^ 32 then 1 else 0);
          output_result = result_initial + of_nat (2 ^ 32) * output_borrow
      in [(wire_ith_output_result i, output_result), (wire_ith_output_borrow i, output_borrow)] @
         zip (map (sb_wire_limb num_ops i) [0..<sb_num_limbs])
           (map of_nat (limbs_of (2 ^ limb_bits) sb_num_limbs (canon output_result))))"

lemma sb_num_limbs [simp]: "sb_num_limbs = 16"
  by (simp add: sb_num_limbs_def limb_bits_def)

lemma subtraction_evals_agree:
  "subtraction_eval_circuit num_ops w = subtraction_eval num_ops w"
  "subtraction_eval_packed num_ops w = subtraction_eval num_ops w"
  unfolding subtraction_eval_circuit_def subtraction_eval_packed_def subtraction_eval_def
  by (simp_all only: limb_products_agree(1) [abs_def] mult.commute)

abbreviation subtraction_one :: "nat \<Rightarrow> (nat \<Rightarrow> 'a::field) \<Rightarrow> nat \<Rightarrow> 'a list" where
  "subtraction_one \<equiv> subtraction_eval_one limb_product (\<lambda>acc limb. of_nat (2 ^ limb_bits) * acc + limb)"

lemma subtraction_one_zero_iff:
  "(\<forall>c \<in> set (subtraction_one n w i). c = 0) \<longleftrightarrow>
     w (wire_ith_output_result i) = w (wire_ith_input_x i) - w (wire_ith_input_y i) - w (wire_ith_input_borrow i)
       + of_nat (2 ^ 32) * w (wire_ith_output_borrow i)
     \<and> (\<forall>j < 16. limb_product (w (sb_wire_limb n i j)) = 0)
     \<and> reduce_with_powers (map (\<lambda>j. w (sb_wire_limb n i j)) [0..<16]) (of_nat 4) = w (wire_ith_output_result i)
     \<and> (w (wire_ith_output_borrow i) = 0 \<or> w (wire_ith_output_borrow i) = 1)"
  by (simp add: subtraction_eval_one_def limb_loop_eq Let_def limb_bits_def atLeast0LessThan) (auto simp: lessThan_def)

lemma subtraction_one_sound:
  fixes w :: "nat \<Rightarrow> 'a::field"
  assumes order: "order_ok TYPE('a)" and zero: "\<forall>c \<in> set (subtraction_one n w i). c = 0"
    and ins: "w (wire_ith_input_x i) = of_nat x" "w (wire_ith_input_y i) = of_nat y" "w (wire_ith_input_borrow i) = of_nat b"
    and small: "x < 2 ^ 32" "y < 2 ^ 32" "b \<le> 1"
  shows "w (wire_ith_output_result i) = of_nat ((2 ^ 32 + x - y - b) mod 2 ^ 32)
    \<and> w (wire_ith_output_borrow i) = (if x < y + b then 1 else 0)"
proof -
  note cs = zero [unfolded subtraction_one_zero_iff]
  have "\<forall>l \<in> set (map (\<lambda>j. w (sb_wire_limb n i j)) [0..<16]). limb_product l = 0" using cs by auto
  then obtain ds where "reduce_with_powers (map (\<lambda>j. w (sb_wire_limb n i j)) [0..<16]) (of_nat 4) = of_nat (of_limbs 4 ds)"
    "of_limbs 4 ds < 4 ^ length (map (\<lambda>j. w (sb_wire_limb n i j)) [0..<16])" by (rule limbs_checked)
  then have "w (wire_ith_output_result i) = of_nat (of_limbs 4 ds) \<and> of_limbs 4 ds < 2 ^ 32" using cs by simp
  then obtain r where r: "w (wire_ith_output_result i) = of_nat r" "r < 2 ^ 32" by blast
  obtain ob where ob: "w (wire_ith_output_borrow i) = of_nat ob" "ob \<le> 1"
    using cs by (metis of_nat_0 of_nat_1 order_refl zero_le)
  have "of_nat (r + y + b) = (of_nat (x + 2 ^ 32 * ob) :: 'a)"
    using cs r(1) ob(1) ins by (simp add: algebra_simps)
  then have eq: "r + y + b = x + 2 ^ 32 * ob"
    using of_nat_eqD [OF order, of "r + y + b" "x + 2 ^ 32 * ob"] r(2) ob(2) small by (auto simp: goldilocks_order_def)
  have "ob = (if x < y + b then 1 else 0) \<and> r = (2 ^ 32 + x - y - b) mod 2 ^ 32"
  proof (cases "ob = 0")
    case True
    with eq have "x = r + y + b" by simp
    with True r(2) show ?thesis by simp
  next
    case False
    with ob(2) have "ob = 1" by simp
    with eq have "r + y + b = 2 ^ 32 + x" by simp
    with r(2) have "2 ^ 32 + x - y - b = r" "x < y + b" by linarith+
    with \<open>ob = 1\<close> r(2) show ?thesis by simp
  qed
  with r(1) ob(1) show ?thesis by auto
qed

lemma subtraction_one_complete:
  fixes w :: "nat \<Rightarrow> 'a::field"
  assumes canon: "\<forall>m < goldilocks_order. canon (of_nat m :: 'a) = m"
    and neg: "\<forall>m. 0 < m \<and> m < goldilocks_order \<longrightarrow> canon (- of_nat m :: 'a) = goldilocks_order - m"
    and gen: "\<forall>(k, v) \<in> set (subtraction_generate canon n w i). w k = v"
    and ins: "w (wire_ith_input_x i) = of_nat x" "w (wire_ith_input_y i) = of_nat y" "w (wire_ith_input_borrow i) = of_nat b"
    and small: "x < 2 ^ 32" "y < 2 ^ 32" "b \<le> 1"
  shows "\<forall>c \<in> set (subtraction_one n w i). c = 0"
proof -
  let ?ri = "of_nat x - of_nat y - of_nat b :: 'a"
  have "\<exists>r ob. r < 2 ^ 32 \<and> (ob = 0 \<or> ob = 1) \<and> (if canon ?ri > 2 ^ 32 then 1 else 0) = ob \<and> ?ri + of_nat (2 ^ 32) * ob = of_nat r"
  proof (cases "x < y + b")
    case True
    let ?k = "y + b - x"
    have k: "0 < ?k" "?k \<le> 2 ^ 32" using True small by auto
    have ri: "?ri = - of_nat ?k" using True by (simp add: of_nat_diff)
    have "?k < goldilocks_order" using k(2) by (simp add: goldilocks_order_def)
    then have "canon ?ri = goldilocks_order - ?k" using neg k(1) unfolding ri by blast
    then have "canon ?ri > 2 ^ 32" using k by (simp add: goldilocks_order_def)
    moreover have "?ri + of_nat (2 ^ 32) = of_nat (2 ^ 32 - ?k)" unfolding ri of_nat_diff [OF k(2)] by simp
    moreover have "2 ^ 32 - ?k < 2 ^ 32" using k by simp
    ultimately show ?thesis by (intro exI [of _ "2 ^ 32 - ?k"] exI [of _ "1 :: 'a"]) simp
  next
    case False
    then have ri: "?ri = of_nat (x - y - b)" by (simp add: of_nat_diff)
    have "x - y - b < goldilocks_order" using small by (simp add: goldilocks_order_def)
    then have "canon ?ri = x - y - b" unfolding ri using canon by blast
    then have "\<not> canon ?ri > 2 ^ 32" using small by simp
    moreover have "x - y - b < 2 ^ 32" using small by simp
    ultimately show ?thesis unfolding ri by (intro exI [of _ "x - y - b"] exI [of _ "0 :: 'a"]) simp
  qed
  then obtain r ob where r: "r < 2 ^ 32" "ob = 0 \<or> ob = 1" "(if canon ?ri > 2 ^ 32 then 1 else 0) = ob"
    "?ri + of_nat (2 ^ 32) * ob = of_nat r" by blast
  have "r < goldilocks_order" using r(1) by (simp add: goldilocks_order_def)
  then have canon_r: "canon (of_nat r :: 'a) = r" using canon by blast
  let ?ds = "limbs_of 4 16 r"
  have out: "w (wire_ith_output_result i) = of_nat r" "w (wire_ith_output_borrow i) = ob"
    using gen unfolding subtraction_generate_def Let_def ins r(3,4) by simp_all
  have limb: "w (sb_wire_limb n i j) = of_nat (?ds ! j)" if "j < 16" for j
  proof -
    have "(sb_wire_limb n i j, of_nat (?ds ! j)) \<in> set (zip (map (sb_wire_limb n i) [0..<16]) (map (of_nat :: nat \<Rightarrow> 'a) ?ds))"
      using that unfolding in_set_zip by (intro exI [of _ j]) simp
    then show ?thesis using gen unfolding subtraction_generate_def Let_def ins r(3,4) canon_r limb_bits_def by auto
  qed
  have "limb_product (w (sb_wire_limb n i j)) = 0" if "j < 16" for j
    using limbs_of_less [of 4 "?ds ! j" 16 r] that by (auto simp: limb limb_product_zero)
  moreover have "map (\<lambda>j. w (sb_wire_limb n i j)) [0..<16] = map of_nat ?ds"
    by (auto intro!: nth_equalityI simp: limb)
  moreover have "of_limbs 4 ?ds = r" using r(1) by (intro of_limbs_limbs_of) simp
  ultimately show ?thesis unfolding subtraction_one_zero_iff out ins
    using r(2,4) by (simp only: reduce_of_nat) simp
qed

section \<open>The gates compute exactly\<close>

lemma order_ok_char_0: "order_ok TYPE('a::field_char_0)"
  unfolding order_ok_def by (rule inj_on_subset [OF inj_of_nat]) simp

text \<open>Property C19. On inputs of 32 bits the multiply-add gate pins its outputs to the two halves of
  \<open>a * b + c\<close>: when all constraints vanish the outputs are these, with the wires that the generator
  sets all constraints vanish, and the three evaluations of the constraints agree.\<close>

theorem arithmetic_gate_exact:
  fixes w :: "nat \<Rightarrow> 'a::field"
  assumes "order_ok TYPE('a)" and "\<forall>m < goldilocks_order. canon (of_nat m :: 'a) = m"
    and "\<forall>i < n. w (wire_ith_multiplicand_0 i) = of_nat (a i) \<and> w (wire_ith_multiplicand_1 i) = of_nat (b i)
      \<and> w (wire_ith_addend i) = of_nat (c i) \<and> a i < 2 ^ 32 \<and> b i < 2 ^ 32 \<and> c i < 2 ^ 32"
  shows "((\<forall>z \<in> set (arithmetic_eval n w). z = 0) \<longrightarrow>
      (\<forall>i < n. w (wire_ith_output_low_half i) = of_nat ((a i * b i + c i) mod 2 ^ 32)
        \<and> w (wire_ith_output_high_half i) = of_nat ((a i * b i + c i) div 2 ^ 32)))
    \<and> ((\<forall>i < n. \<forall>(k, v) \<in> set (arithmetic_generate canon n w i). w k = v) \<longrightarrow> (\<forall>z \<in> set (arithmetic_eval n w). z = 0))
    \<and> arithmetic_eval_circuit n w = arithmetic_eval n w \<and> arithmetic_eval_packed n w = arithmetic_eval n w"
proof (intro conjI impI)
  assume "\<forall>z \<in> set (arithmetic_eval n w). z = 0"
  then have "\<forall>z \<in> set (arithmetic_one n w i). z = 0" if "i < n" for i
    using that by (auto simp: arithmetic_eval_def)
  then show "\<forall>i < n. w (wire_ith_output_low_half i) = of_nat ((a i * b i + c i) mod 2 ^ 32)
      \<and> w (wire_ith_output_high_half i) = of_nat ((a i * b i + c i) div 2 ^ 32)"
    using arithmetic_one_sound [OF assms(1)] assms(3) by blast
next
  assume gen: "\<forall>i < n. \<forall>(k, v) \<in> set (arithmetic_generate canon n w i). w k = v"
  have "\<forall>z \<in> set (arithmetic_one n w i). z = 0" if "i < n" for i
  proof (rule arithmetic_one_complete [OF assms(1,2)])
    show "\<forall>(k, v) \<in> set (arithmetic_generate canon n w i). w k = v"
      by (rule gen [THEN spec, THEN mp, OF that])
  qed (use assms(3) that in auto)
  then show "\<forall>z \<in> set (arithmetic_eval n w). z = 0" by (auto simp: arithmetic_eval_def)
qed (rule arithmetic_evals_agree)+

text \<open>On inputs of 32 bits and a borrow of one bit the subtraction gate pins its outputs to
  the difference modulo \<open>2 ^ 32\<close> and to the borrow: when all constraints vanish the outputs are these,
  with the wires that the generator sets all constraints vanish, and the three evaluations agree.\<close>

theorem subtraction_gate_exact:
  fixes w :: "nat \<Rightarrow> 'a::field"
  assumes "order_ok TYPE('a)" and "\<forall>m < goldilocks_order. canon (of_nat m :: 'a) = m"
    and "\<forall>m. 0 < m \<and> m < goldilocks_order \<longrightarrow> canon (- of_nat m :: 'a) = goldilocks_order - m"
    and "\<forall>i < n. w (wire_ith_input_x i) = of_nat (x i) \<and> w (wire_ith_input_y i) = of_nat (y i)
      \<and> w (wire_ith_input_borrow i) = of_nat (b i) \<and> x i < 2 ^ 32 \<and> y i < 2 ^ 32 \<and> b i \<le> 1"
  shows "((\<forall>z \<in> set (subtraction_eval n w). z = 0) \<longrightarrow>
      (\<forall>i < n. w (wire_ith_output_result i) = of_nat ((2 ^ 32 + x i - y i - b i) mod 2 ^ 32)
        \<and> w (wire_ith_output_borrow i) = (if x i < y i + b i then 1 else 0)))
    \<and> ((\<forall>i < n. \<forall>(k, v) \<in> set (subtraction_generate canon n w i). w k = v) \<longrightarrow> (\<forall>z \<in> set (subtraction_eval n w). z = 0))
    \<and> subtraction_eval_circuit n w = subtraction_eval n w \<and> subtraction_eval_packed n w = subtraction_eval n w"
proof (intro conjI impI)
  assume "\<forall>z \<in> set (subtraction_eval n w). z = 0"
  then have "\<forall>z \<in> set (subtraction_one n w i). z = 0" if "i < n" for i
    using that by (auto simp: subtraction_eval_def)
  then show "\<forall>i < n. w (wire_ith_output_result i) = of_nat ((2 ^ 32 + x i - y i - b i) mod 2 ^ 32)
      \<and> w (wire_ith_output_borrow i) = (if x i < y i + b i then 1 else 0)"
    using subtraction_one_sound [OF assms(1)] assms(4) by blast
next
  assume gen: "\<forall>i < n. \<forall>(k, v) \<in> set (subtraction_generate canon n w i). w k = v"
  have "\<forall>z \<in> set (subtraction_one n w i). z = 0" if "i < n" for i
  proof (rule subtraction_one_complete [OF assms(2,3)])
    show "\<forall>(k, v) \<in> set (subtraction_generate canon n w i). w k = v"
      by (rule gen [THEN spec, THEN mp, OF that])
  qed (use assms(4) that in auto)
  then show "\<forall>z \<in> set (subtraction_eval n w). z = 0" by (auto simp: subtraction_eval_def)
qed (rule subtraction_evals_agree)+

text \<open>A row with one operation on small numbers, over the rationals.\<close>

definition sample_canon :: "rat \<Rightarrow> nat" where
  "sample_canon q = (if 0 \<le> q then nat \<lfloor>q\<rfloor> else goldilocks_order - nat \<lfloor>- q\<rfloor>)"

lemma sample_canon_simps:
  "sample_canon (of_nat m) = m" "0 < m \<Longrightarrow> sample_canon (- of_nat m) = goldilocks_order - m"
  by (auto simp: sample_canon_def)

lemma limbs_of_0: "limbs_of base n 0 = replicate n 0"
  by (induction n) auto

definition sample_row :: "rat list \<Rightarrow> nat \<Rightarrow> rat" where
  "sample_row values k = (if k < length values then values ! k else 0)"

lemma zip_wires:
  assumes "(k, v) \<in> set (zip (map f [0..<n]) (map g ds))" and "length ds = n"
  obtains j where "j < n" "k = f j" "v = g (ds ! j)"
  using assms by (auto simp: in_set_zip)

theorem arithmetic_gate_exact_witness:
  "\<exists>w :: nat \<Rightarrow> rat. w (wire_ith_multiplicand_0 0) = 3 \<and> w (wire_ith_multiplicand_1 0) = 5 \<and> w (wire_ith_addend 0) = 7
     \<and> (\<forall>z \<in> set (arithmetic_eval 1 w). z = 0) \<and> w (wire_ith_output_low_half 0) = 22"
proof -
  let ?w = "sample_row [3, 5, 7, 22, 0, inverse (of_nat (2 ^ 32 - 1)), 2, 1, 1]"
  have ins: "\<forall>i < 1. ?w (wire_ith_multiplicand_0 i) = of_nat 3 \<and> ?w (wire_ith_multiplicand_1 i) = of_nat 5
      \<and> ?w (wire_ith_addend i) = of_nat 7 \<and> (3 :: nat) < 2 ^ 32 \<and> (5 :: nat) < 2 ^ 32 \<and> (7 :: nat) < 2 ^ 32"
    by (simp add: sample_row_def wire_ith_multiplicand_0_def wire_ith_multiplicand_1_def wire_ith_addend_def routed_wires_per_op_def)
  have out: "sample_canon (3 * 5 + 7) = 22" using sample_canon_simps(1) [of 22] by simp
  have digits: "limbs_of 4 32 22 = [2, 1, 1] @ replicate 29 0"
  proof -
    have "(32 :: nat) = Suc (Suc (Suc 29))" by simp
    then show ?thesis by (simp only: limbs_of.simps) (simp add: limbs_of_0)
  qed
  have limb: "?w (6 + j) = of_nat ((limbs_of 4 32 22) ! j)" if "j < 32" for j
  proof (cases "j < 3")
    case True
    then have "j = 0 \<or> j = 1 \<or> j = 2" by auto
    then show ?thesis unfolding digits by (auto simp: sample_row_def)
  next
    case False
    with that show ?thesis unfolding digits by (simp add: sample_row_def nth_append)
  qed
  have gen: "\<forall>i < 1. \<forall>(k, v) \<in> set (arithmetic_generate sample_canon 1 ?w i). ?w k = v"
  proof (intro allI impI ballI)
    fix i e assume "i < (1 :: nat)" and e: "e \<in> set (arithmetic_generate sample_canon 1 ?w i)"
    obtain k v where kv_def: "e = (k, v)" by (cases e)
    with e have kv: "(k, v) \<in> set (arithmetic_generate sample_canon 1 ?w i)" by simp
    from \<open>i < 1\<close> have "i = 0" by simp
    have in0: "?w 0 = 3" "?w 1 = 5" "?w 2 = 7" by (simp_all add: sample_row_def)
    from kv have "(k, v) = (4, 0) \<or> (k, v) = (3, 22) \<or> (k, v) = (5, inverse (of_nat (2 ^ 32 - 1)))
        \<or> (k, v) \<in> set (zip (map (\<lambda>j. 6 + j) [0..<32]) (map of_nat (limbs_of 4 32 22)))"
      unfolding \<open>i = 0\<close> arithmetic_generate_def Let_def wire_ith_multiplicand_0_def wire_ith_multiplicand_1_def
        wire_ith_addend_def routed_wires_per_op_def ar_wire_limb_def wire_ith_output_low_half_def
        wire_ith_output_high_half_def wire_ith_inverse_def limb_bits_def ar_num_limbs
      by (simp only: mult_0_right add_0_left in0 out) (auto simp: digits)
    then have "?w k = v"
    proof (elim disjE)
      assume "(k, v) \<in> set (zip (map (\<lambda>j. 6 + j) [0..<32]) (map of_nat (limbs_of 4 32 22)))"
      then obtain j where "j < 32" "k = 6 + j" "v = of_nat (limbs_of 4 32 22 ! j)" by (rule zip_wires) simp
      then show ?thesis by (simp only: limb)
    qed (simp_all add: sample_row_def)
    then show "case e of (k, v) \<Rightarrow> ?w k = v" by (simp add: kv_def)
  qed
  have "\<forall>m < goldilocks_order. sample_canon (of_nat m) = m" by (simp add: sample_canon_simps)
  note gate = arithmetic_gate_exact [OF order_ok_char_0 this ins]
  note zero = gate [THEN conjunct2, THEN conjunct1, THEN mp, OF gen]
  have "?w (wire_ith_output_low_half 0) = 22"
    using gate [THEN conjunct1, THEN mp, OF zero] by (simp only: less_one) simp
  moreover have "?w (wire_ith_multiplicand_0 0) = 3" "?w (wire_ith_multiplicand_1 0) = 5" "?w (wire_ith_addend 0) = 7"
    using ins by simp_all
  ultimately show ?thesis using zero by blast
qed

theorem subtraction_gate_exact_witness:
  "\<exists>w :: nat \<Rightarrow> rat. w (wire_ith_input_x 0) = 0 \<and> w (wire_ith_input_y 0) = 2 ^ 32 - 1 \<and> w (wire_ith_input_borrow 0) = 0
     \<and> (\<forall>z \<in> set (subtraction_eval 1 w). z = 0) \<and> w (wire_ith_output_result 0) = 1 \<and> w (wire_ith_output_borrow 0) = 1"
proof -
  let ?w = "sample_row [0, 2 ^ 32 - 1, 0, 1, 1, 1]"
  have ins: "\<forall>i < 1. ?w (wire_ith_input_x i) = of_nat 0 \<and> ?w (wire_ith_input_y i) = of_nat (2 ^ 32 - 1)
      \<and> ?w (wire_ith_input_borrow i) = of_nat 0 \<and> (0 :: nat) < 2 ^ 32 \<and> (2 ^ 32 - 1 :: nat) < 2 ^ 32 \<and> (0 :: nat) \<le> 1"
    by (simp add: sample_row_def wire_ith_input_x_def wire_ith_input_y_def wire_ith_input_borrow_def)
  have out: "2 ^ 32 < sample_canon (- 4294967295)" "sample_canon 1 = 1"
    using sample_canon_simps(2) [of 4294967295] sample_canon_simps(1) [of 1] by (simp_all add: goldilocks_order_def)
  have digits: "limbs_of 4 16 1 = 1 # replicate 15 0"
  proof -
    have "(16 :: nat) = Suc 15" by simp
    then show ?thesis by (simp only: limbs_of.simps) (simp add: limbs_of_0)
  qed
  have limb: "?w (5 + j) = of_nat ((limbs_of 4 16 1) ! j)" if "j < 16" for j
    unfolding digits using that by (cases j) (simp_all add: sample_row_def)
  have gen: "\<forall>i < 1. \<forall>(k, v) \<in> set (subtraction_generate sample_canon 1 ?w i). ?w k = v"
  proof (intro allI impI ballI)
    fix i e assume "i < (1 :: nat)" and e: "e \<in> set (subtraction_generate sample_canon 1 ?w i)"
    obtain k v where kv_def: "e = (k, v)" by (cases e)
    with e have kv: "(k, v) \<in> set (subtraction_generate sample_canon 1 ?w i)" by simp
    from \<open>i < 1\<close> have "i = 0" by simp
    have in0: "?w 0 = 0" "?w 1 = 2 ^ 32 - 1" "?w 2 = 0" by (simp_all add: sample_row_def)
    from kv have "(k, v) = (3, 1) \<or> (k, v) = (4, 1)
        \<or> (k, v) \<in> set (zip (map (\<lambda>j. 5 + j) [0..<16]) (map of_nat (limbs_of 4 16 1)))"
      unfolding \<open>i = 0\<close> subtraction_generate_def Let_def wire_ith_input_x_def wire_ith_input_y_def
        wire_ith_input_borrow_def sb_wire_limb_def wire_ith_output_result_def wire_ith_output_borrow_def limb_bits_def sb_num_limbs
      using out by (simp only: mult_0_right add_0_left in0) (auto simp: digits)
    then have "?w k = v"
    proof (elim disjE)
      assume "(k, v) \<in> set (zip (map (\<lambda>j. 5 + j) [0..<16]) (map of_nat (limbs_of 4 16 1)))"
      then obtain j where "j < 16" "k = 5 + j" "v = of_nat (limbs_of 4 16 1 ! j)" by (rule zip_wires) simp
      then show ?thesis by (simp only: limb)
    qed (simp_all add: sample_row_def)
    then show "case e of (k, v) \<Rightarrow> ?w k = v" by (simp add: kv_def)
  qed
  have "\<forall>m < goldilocks_order. sample_canon (of_nat m) = m"
    "\<forall>m. 0 < m \<and> m < goldilocks_order \<longrightarrow> sample_canon (- of_nat m) = goldilocks_order - m"
    by (simp_all add: sample_canon_simps)
  note gate = subtraction_gate_exact [OF order_ok_char_0 this ins]
  note zero = gate [THEN conjunct2, THEN conjunct1, THEN mp, OF gen]
  have "?w (wire_ith_output_result 0) = 1" "?w (wire_ith_output_borrow 0) = 1"
    using gate [THEN conjunct1, THEN mp, OF zero] by (simp_all only: less_one) simp_all
  moreover have "?w (wire_ith_input_x 0) = 0" "?w (wire_ith_input_y 0) = 2 ^ 32 - 1" "?w (wire_ith_input_borrow 0) = 0"
    using ins by simp_all
  ultimately show ?thesis using zero by blast
qed

end
