(* ===== verification/U32_Compare.thy ===== *)
theory U32_Compare
  imports U32_Gates
begin

text \<open>
  The comparison gate and the gate that adds many numbers (\<open>circuits/plonky2_u32/src/gates\<close>,
  \<open>comparison.rs\<close> and \<open>add_many_u32.rs\<close>). The comparison gate splits its inputs into chunks and decides by the
  most significant chunk in which they differ; its constraints hold for a boolean exactly when that
  boolean is the answer. The addition gate pins the sum and the carry.
\<close>

section \<open>The comparison gate\<close>

record comparison_gate =
  cg_num_bits :: nat
  cg_num_chunks :: nat

definition ceil_div_usize :: "nat \<Rightarrow> nat \<Rightarrow> nat" where
  "ceil_div_usize a b = (a + b - 1) div b"

definition chunk_bits :: "comparison_gate \<Rightarrow> nat" where
  "chunk_bits g = ceil_div_usize (cg_num_bits g) (cg_num_chunks g)"

definition wire_first_input :: nat where
  "wire_first_input = 0"

definition wire_second_input :: nat where
  "wire_second_input = 1"

definition wire_result_bool :: nat where
  "wire_result_bool = 2"

definition wire_most_significant_diff :: nat where
  "wire_most_significant_diff = 3"

definition wire_first_chunk_val :: "comparison_gate \<Rightarrow> nat \<Rightarrow> nat" where
  "wire_first_chunk_val g chunk = 4 + chunk"

definition wire_second_chunk_val :: "comparison_gate \<Rightarrow> nat \<Rightarrow> nat" where
  "wire_second_chunk_val g chunk = 4 + cg_num_chunks g + chunk"

definition wire_equality_dummy :: "comparison_gate \<Rightarrow> nat \<Rightarrow> nat" where
  "wire_equality_dummy g chunk = 4 + 2 * cg_num_chunks g + chunk"

definition wire_chunks_equal :: "comparison_gate \<Rightarrow> nat \<Rightarrow> nat" where
  "wire_chunks_equal g chunk = 4 + 3 * cg_num_chunks g + chunk"

definition wire_intermediate_value :: "comparison_gate \<Rightarrow> nat \<Rightarrow> nat" where
  "wire_intermediate_value g chunk = 4 + 4 * cg_num_chunks g + chunk"

definition wire_most_significant_diff_bit :: "comparison_gate \<Rightarrow> nat \<Rightarrow> nat" where
  "wire_most_significant_diff_bit g bit_index = 4 + 5 * cg_num_chunks g + bit_index"

text \<open>The product over all values of a chunk, as an iterator's product and as a loop of builder calls.\<close>

definition chunk_product :: "nat \<Rightarrow> 'a::field \<Rightarrow> 'a" where
  "chunk_product chunk_size c = prod_list (map (\<lambda>x. c - of_nat x) [0..<chunk_size])"

definition chunk_product_circuit :: "nat \<Rightarrow> 'a::field \<Rightarrow> 'a" where
  "chunk_product_circuit chunk_size c = foldl (\<lambda>product x. product * (c - of_nat x)) 1 [0..<chunk_size]"

text \<open>The loop over the chunks: the constraints pushed and the most significant difference so far.\<close>

definition chunk_loop ::
  "(nat \<Rightarrow> 'a::field \<Rightarrow> 'a) \<Rightarrow> comparison_gate \<Rightarrow> (nat \<Rightarrow> 'a) \<Rightarrow> 'a list \<times> 'a" where
  "chunk_loop product g w = foldl (\<lambda>(constraints, most_significant_diff_so_far) i.
     let first_chunk = w (wire_first_chunk_val g i);
         second_chunk = w (wire_second_chunk_val g i);
         difference = second_chunk - first_chunk;
         equality_dummy = w (wire_equality_dummy g i);
         chunks_equal = w (wire_chunks_equal g i);
         intermediate_value = w (wire_intermediate_value g i)
     in (constraints @ [product (2 ^ chunk_bits g) first_chunk, product (2 ^ chunk_bits g) second_chunk,
           difference * equality_dummy - (1 - chunks_equal), chunks_equal * difference,
           intermediate_value - chunks_equal * most_significant_diff_so_far],
         intermediate_value + (1 - chunks_equal) * difference)) ([], 0) [0..<cg_num_chunks g]"

definition comparison_eval_with ::
  "(nat \<Rightarrow> 'a::field \<Rightarrow> 'a) \<Rightarrow> ('a \<Rightarrow> 'a \<Rightarrow> 'a) \<Rightarrow> comparison_gate \<Rightarrow> (nat \<Rightarrow> 'a) \<Rightarrow> 'a list" where
  "comparison_eval_with product add_two_n g w =
     (let first_chunks = map (\<lambda>i. w (wire_first_chunk_val g i)) [0..<cg_num_chunks g];
          second_chunks = map (\<lambda>i. w (wire_second_chunk_val g i)) [0..<cg_num_chunks g];
          first_chunks_combined = reduce_with_powers first_chunks (of_nat (2 ^ chunk_bits g));
          second_chunks_combined = reduce_with_powers second_chunks (of_nat (2 ^ chunk_bits g));
          (constraints, most_significant_diff_so_far) = chunk_loop product g w;
          most_significant_diff = w wire_most_significant_diff;
          bits = map (\<lambda>i. w (wire_most_significant_diff_bit g i)) [0..<chunk_bits g + 1];
          bits_combined = reduce_with_powers bits 2
      in [first_chunks_combined - w wire_first_input, second_chunks_combined - w wire_second_input] @ constraints @
         [most_significant_diff - most_significant_diff_so_far] @ map (\<lambda>b. b * (1 - b)) bits @
         [add_two_n (of_nat (2 ^ chunk_bits g)) most_significant_diff - bits_combined,
          w wire_result_bool - bits ! chunk_bits g])"

definition comparison_eval :: "comparison_gate \<Rightarrow> (nat \<Rightarrow> 'a::field) \<Rightarrow> 'a list" where
  "comparison_eval = comparison_eval_with chunk_product (\<lambda>two_n msd. two_n + msd)"

definition comparison_eval_circuit :: "comparison_gate \<Rightarrow> (nat \<Rightarrow> 'a::field) \<Rightarrow> 'a list" where
  "comparison_eval_circuit = comparison_eval_with chunk_product_circuit (\<lambda>two_n msd. two_n + msd)"

definition comparison_eval_packed :: "comparison_gate \<Rightarrow> (nat \<Rightarrow> 'a::field) \<Rightarrow> 'a list" where
  "comparison_eval_packed = comparison_eval_with chunk_product (\<lambda>two_n msd. msd + two_n)"

definition comparison_num_wires :: "comparison_gate \<Rightarrow> nat" where
  "comparison_num_wires g = 4 + 5 * cg_num_chunks g + (chunk_bits g + 1)"

definition comparison_num_constraints :: "comparison_gate \<Rightarrow> nat" where
  "comparison_num_constraints g = 6 + 5 * cg_num_chunks g + chunk_bits g"

text \<open>The loop of the generator that finds the most significant difference.\<close>

definition generate_diffs :: "'a::field list \<Rightarrow> 'a list \<Rightarrow> 'a \<times> 'a list" where
  "generate_diffs first_chunks second_chunks =
     foldl (\<lambda>(so_far, intermediate_values) (f, s).
       if f \<noteq> s then (s - f, intermediate_values @ [0]) else (so_far, intermediate_values @ [so_far]))
     (0, []) (zip first_chunks second_chunks)"

definition comparison_generate :: "('a::field \<Rightarrow> nat) \<Rightarrow> comparison_gate \<Rightarrow> (nat \<Rightarrow> 'a) \<Rightarrow> (nat \<times> 'a) list" where
  "comparison_generate canon g w =
     (let n = cg_num_chunks g;
          first_input_u64 = canon (w wire_first_input);
          second_input_u64 = canon (w wire_second_input);
          result = of_nat (of_bool (first_input_u64 \<le> second_input_u64));
          chunk_size = 2 ^ chunk_bits g;
          first_input_chunks = map of_nat (limbs_of chunk_size n first_input_u64);
          second_input_chunks = map of_nat (limbs_of chunk_size n second_input_u64);
          chunks_equal = map (\<lambda>i. of_bool (first_input_chunks ! i = second_input_chunks ! i)) [0..<n];
          equality_dummies = map (\<lambda>(f, s). if f = s then 1 else 1 / (s - f)) (zip first_input_chunks second_input_chunks);
          (most_significant_diff, intermediate_values) = generate_diffs first_input_chunks second_input_chunks;
          two_n_plus_msd = canon (of_nat (2 ^ chunk_bits g) + most_significant_diff);
          msd_bits = map of_nat (limbs_of 2 (chunk_bits g + 1) two_n_plus_msd)
      in [(wire_result_bool, result), (wire_most_significant_diff, most_significant_diff)] @
         concat (map (\<lambda>i. [(wire_first_chunk_val g i, first_input_chunks ! i),
            (wire_second_chunk_val g i, second_input_chunks ! i), (wire_equality_dummy g i, equality_dummies ! i),
            (wire_chunks_equal g i, chunks_equal ! i), (wire_intermediate_value g i, intermediate_values ! i)]) [0..<n]) @
         map (\<lambda>i. (wire_most_significant_diff_bit g i, msd_bits ! i)) [0..<chunk_bits g + 1])"

section \<open>The three evaluations agree\<close>

lemma foldl_prod: "foldl (\<lambda>p x. p * f x) (a :: 'a::comm_monoid_mult) xs = a * prod_list (map f xs)"
  by (induction xs arbitrary: a) (simp_all add: mult.assoc)

lemma chunk_product_circuit_eq: "chunk_product_circuit = chunk_product"
  by (simp add: fun_eq_iff chunk_product_circuit_def chunk_product_def foldl_prod)

lemma comparison_evals_agree:
  "comparison_eval_circuit g w = comparison_eval g w" "comparison_eval_packed g w = comparison_eval g w"
  by (simp_all add: comparison_eval_circuit_def comparison_eval_packed_def comparison_eval_def
      chunk_product_circuit_eq comparison_eval_with_def add.commute)

section \<open>The constraints as equations\<close>

lemma chunk_product_zero: "chunk_product n c = 0 \<longleftrightarrow> (\<exists>d < n. c = of_nat d)"
  by (auto simp: chunk_product_def prod_list_zero_iff)

text \<open>The most significant difference before chunk \<open>i\<close>.\<close>

fun msd_before :: "comparison_gate \<Rightarrow> (nat \<Rightarrow> 'a::field) \<Rightarrow> nat \<Rightarrow> 'a" where
  "msd_before g w 0 = 0"
| "msd_before g w (Suc i) = w (wire_intermediate_value g i)
     + (1 - w (wire_chunks_equal g i)) * (w (wire_second_chunk_val g i) - w (wire_first_chunk_val g i))"

definition chunk_constraints :: "comparison_gate \<Rightarrow> (nat \<Rightarrow> 'a::field) \<Rightarrow> nat \<Rightarrow> 'a list" where
  "chunk_constraints g w i =
     (let difference = w (wire_second_chunk_val g i) - w (wire_first_chunk_val g i) in
      [chunk_product (2 ^ chunk_bits g) (w (wire_first_chunk_val g i)), chunk_product (2 ^ chunk_bits g) (w (wire_second_chunk_val g i)),
       difference * w (wire_equality_dummy g i) - (1 - w (wire_chunks_equal g i)), w (wire_chunks_equal g i) * difference,
       w (wire_intermediate_value g i) - w (wire_chunks_equal g i) * msd_before g w i])"

lemma chunk_loop_eq:
  "chunk_loop chunk_product g w
    = (concat (map (chunk_constraints g w) [0..<cg_num_chunks g]), msd_before g w (cg_num_chunks g))"
proof -
  have "foldl (\<lambda>(constraints, msd) i.
     let first_chunk = w (wire_first_chunk_val g i); second_chunk = w (wire_second_chunk_val g i);
         difference = second_chunk - first_chunk; equality_dummy = w (wire_equality_dummy g i);
         chunks_equal = w (wire_chunks_equal g i); intermediate_value = w (wire_intermediate_value g i)
     in (constraints @ [chunk_product (2 ^ chunk_bits g) first_chunk, chunk_product (2 ^ chunk_bits g) second_chunk,
           difference * equality_dummy - (1 - chunks_equal), chunks_equal * difference, intermediate_value - chunks_equal * msd],
         intermediate_value + (1 - chunks_equal) * difference)) ([], 0) [0..<n]
    = (concat (map (chunk_constraints g w) [0..<n]), msd_before g w n)" for n
    by (induction n) (simp_all add: chunk_constraints_def Let_def)
  then show ?thesis by (simp add: chunk_loop_def)
qed

definition chunk_ok :: "comparison_gate \<Rightarrow> (nat \<Rightarrow> 'a::field) \<Rightarrow> nat \<Rightarrow> bool" where
  "chunk_ok g w i \<longleftrightarrow>
     (\<exists>f < 2 ^ chunk_bits g. w (wire_first_chunk_val g i) = of_nat f)
   \<and> (\<exists>s < 2 ^ chunk_bits g. w (wire_second_chunk_val g i) = of_nat s)
   \<and> (w (wire_second_chunk_val g i) - w (wire_first_chunk_val g i)) * w (wire_equality_dummy g i) = 1 - w (wire_chunks_equal g i)
   \<and> w (wire_chunks_equal g i) * (w (wire_second_chunk_val g i) - w (wire_first_chunk_val g i)) = 0
   \<and> w (wire_intermediate_value g i) = w (wire_chunks_equal g i) * msd_before g w i"

lemma comparison_zero_iff:
  "(\<forall>c \<in> set (comparison_eval g w). c = 0) \<longleftrightarrow>
     reduce_with_powers (map (\<lambda>i. w (wire_first_chunk_val g i)) [0..<cg_num_chunks g]) (of_nat (2 ^ chunk_bits g)) = w wire_first_input
   \<and> reduce_with_powers (map (\<lambda>i. w (wire_second_chunk_val g i)) [0..<cg_num_chunks g]) (of_nat (2 ^ chunk_bits g)) = w wire_second_input
   \<and> (\<forall>i < cg_num_chunks g. chunk_ok g w i)
   \<and> w wire_most_significant_diff = msd_before g w (cg_num_chunks g)
   \<and> (\<forall>i \<le> chunk_bits g. w (wire_most_significant_diff_bit g i) = 0 \<or> w (wire_most_significant_diff_bit g i) = 1)
   \<and> of_nat (2 ^ chunk_bits g) + w wire_most_significant_diff
      = reduce_with_powers (map (\<lambda>i. w (wire_most_significant_diff_bit g i)) [0..<chunk_bits g + 1]) 2
   \<and> w wire_result_bool = w (wire_most_significant_diff_bit g (chunk_bits g))"
proof -
  let ?bit = "\<lambda>i. w (wire_most_significant_diff_bit g i)"
  define A where "A = reduce_with_powers (map (\<lambda>i. w (wire_first_chunk_val g i)) [0..<cg_num_chunks g]) (of_nat (2 ^ chunk_bits g))"
  define B where "B = reduce_with_powers (map (\<lambda>i. w (wire_second_chunk_val g i)) [0..<cg_num_chunks g]) (of_nat (2 ^ chunk_bits g))"
  define C where "C = reduce_with_powers (map ?bit [0..<chunk_bits g + 1]) 2"
  have eval: "comparison_eval g w = [A - w wire_first_input, B - w wire_second_input] @
      concat (map (chunk_constraints g w) [0..<cg_num_chunks g]) @
      [w wire_most_significant_diff - msd_before g w (cg_num_chunks g)] @ map (\<lambda>i. ?bit i * (1 - ?bit i)) [0..<chunk_bits g + 1] @
      [of_nat (2 ^ chunk_bits g) + w wire_most_significant_diff - C, w wire_result_bool - ?bit (chunk_bits g)]"
    unfolding A_def B_def C_def comparison_eval_def comparison_eval_with_def chunk_loop_eq Let_def prod.case
    by (simp only: map_map comp_def) (simp add: nth_append)
  have chunks: "(\<forall>c \<in> set (concat (map (chunk_constraints g w) [0..<cg_num_chunks g])). c = 0)
      \<longleftrightarrow> (\<forall>i < cg_num_chunks g. chunk_ok g w i)"
  proof -
    have "(\<forall>c \<in> set (chunk_constraints g w i). c = 0) \<longleftrightarrow> chunk_ok g w i" for i
      by (simp add: chunk_constraints_def chunk_ok_def chunk_product_zero Let_def)
    then show ?thesis by auto
  qed
  have bits: "(\<forall>c \<in> set (map (\<lambda>i. ?bit i * (1 - ?bit i)) [0..<chunk_bits g + 1]). c = 0)
      \<longleftrightarrow> (\<forall>i \<le> chunk_bits g. ?bit i = 0 \<or> ?bit i = 1)"
    by (auto simp: le_less)
  show ?thesis
    unfolding A_def [symmetric] B_def [symmetric] C_def [symmetric] eval set_append ball_Un chunks bits by auto
qed

section \<open>The most significant difference of two digit strings\<close>

fun msd :: "(nat \<Rightarrow> nat) \<Rightarrow> (nat \<Rightarrow> nat) \<Rightarrow> nat \<Rightarrow> int" where
  "msd f s 0 = 0"
| "msd f s (Suc i) = (if f i = s i then msd f s i else int (s i) - int (f i))"

lemma msd_bound:
  "\<forall>i < n. f i < B \<and> s i < B \<Longrightarrow> 0 < B \<Longrightarrow> - int B < msd f s n \<and> msd f s n < int B"
proof (induction n)
  case (Suc n)
  then have "f n < B" "s n < B" by simp_all
  then have "int (f n) < int B" "int (s n) < int B" by simp_all
  with Suc show ?case by (simp del: of_nat_less_iff)
qed simp

lemma of_limbs_snoc: "of_limbs B (ds @ [d]) = of_limbs B ds + d * B ^ length ds"
  by (induction ds) (simp_all add: algebra_simps)

lemma of_limbs_digits_less: "\<forall>i < n. f i < B \<Longrightarrow> of_limbs B (map f [0..<n]) < B ^ n"
  using of_limbs_less [of "map f [0..<n]" B] by simp

lemma digit_dominates:
  assumes "d < e" and "x < B ^ n"
  shows "x + d * B ^ n < y + e * (B :: nat) ^ n"
proof -
  have "x + d * B ^ n < (d + 1) * B ^ n" using assms(2) by simp
  also have "\<dots> \<le> e * B ^ n" using assms(1) by (intro mult_right_mono) simp_all
  finally show ?thesis by simp
qed

lemma msd_decides:
  assumes "\<forall>i < n. f i < B \<and> s i < B"
  shows "0 \<le> msd f s n \<longleftrightarrow> of_limbs B (map f [0..<n]) \<le> of_limbs B (map s [0..<n])"
  using assms
proof (induction n)
  case (Suc n)
  then have less: "of_limbs B (map f [0..<n]) < B ^ n" "of_limbs B (map s [0..<n]) < B ^ n"
    by (simp_all add: of_limbs_digits_less)
  consider "f n = s n" | "f n < s n" | "s n < f n" by linarith
  then show ?case
  proof cases
    case 1
    with Suc show ?thesis by (simp add: of_limbs_snoc)
  next
    case 2
    with digit_dominates [OF 2 less(1)] show ?thesis by (simp add: of_limbs_snoc less_imp_le)
  next
    case 3
    with digit_dominates [OF 3 less(2), of "of_limbs B (map f [0..<n])"] show ?thesis by (simp add: of_limbs_snoc not_le)
  qed
qed simp

lemma of_nat_neq:
  "order_ok TYPE('a::field) \<Longrightarrow> m < goldilocks_order \<Longrightarrow> n < goldilocks_order \<Longrightarrow> (of_nat m :: 'a) = of_nat n \<longleftrightarrow> m = n"
  using of_nat_eqD by blast

section \<open>The comparison gate is exact\<close>

definition gate_fits :: "comparison_gate \<Rightarrow> bool" where
  "gate_fits g \<longleftrightarrow> 2 ^ (chunk_bits g + 1) \<le> goldilocks_order \<and> 2 ^ (chunk_bits g * cg_num_chunks g) \<le> goldilocks_order"

lemma chunk_ok_msd:
  fixes w :: "nat \<Rightarrow> 'a::field"
  assumes "order_ok TYPE('a)" and "2 ^ chunk_bits g \<le> goldilocks_order"
    and "\<forall>i < n. chunk_ok g w i \<and> f i < 2 ^ chunk_bits g \<and> s i < 2 ^ chunk_bits g
      \<and> w (wire_first_chunk_val g i) = of_nat (f i) \<and> w (wire_second_chunk_val g i) = of_nat (s i)"
  shows "msd_before g w n = of_int (msd f s n)"
  using assms(3)
proof (induction n)
  case (Suc n)
  then have ok: "chunk_ok g w n" and v: "w (wire_first_chunk_val g n) = of_nat (f n)" "w (wire_second_chunk_val g n) = of_nat (s n)"
    and small: "f n < goldilocks_order" "s n < goldilocks_order" using assms(2) by auto
  note IH = Suc.IH [OF Suc.prems [THEN spec, THEN mp, OF less_SucI, THEN impI, THEN allI]]
  have eq: "of_nat (f n) = (of_nat (s n) :: 'a) \<longleftrightarrow> f n = s n" by (rule of_nat_neq [OF assms(1) small])
  show ?case
  proof (cases "f n = s n")
    case True
    then have "w (wire_chunks_equal g n) = 1" using ok by (simp add: chunk_ok_def v)
    with True ok IH show ?thesis by (simp add: chunk_ok_def v)
  next
    case False
    then have "w (wire_chunks_equal g n) = 0" using ok eq by (simp add: chunk_ok_def v)
    with False ok show ?thesis by (simp add: chunk_ok_def v)
  qed
qed simp

lemma bits_checked:
  assumes "\<forall>i \<le> n. v i = 0 \<or> v i = (1 :: 'a::field)"
  obtains b where "\<forall>i \<le> n. v i = of_nat (b i) \<and> b i < 2"
    "reduce_with_powers (map v [0..<n + 1]) 2 = of_nat (of_limbs 2 (map b [0..<n + 1]))"
proof
  let ?b = "\<lambda>i. if v i = 0 then 0 else 1 :: nat"
  show b: "\<forall>i \<le> n. v i = of_nat (?b i) \<and> ?b i < 2" using assms by auto
  then have "map v [0..<n + 1] = map of_nat (map ?b [0..<n + 1])" by auto
  then show "reduce_with_powers (map v [0..<n + 1]) 2 = of_nat (of_limbs 2 (map ?b [0..<n + 1]))"
    using reduce_of_nat [of "map ?b [0..<n + 1]" 2, where ?'a = 'a] by (simp only: of_nat_numeral)
qed

lemma top_bit:
  assumes "\<forall>i \<le> n. b i < (2 :: nat)"
  shows "b n = of_bool (2 ^ n \<le> of_limbs 2 (map b [0..<n + 1]))"
proof -
  have "of_limbs 2 (map b [0..<n]) < 2 ^ n" using assms by (intro of_limbs_digits_less) simp
  moreover have "b n = 0 \<or> b n = 1" using assms by (simp add: less_2_cases_iff)
  ultimately show ?thesis by (auto simp: of_limbs_snoc)
qed

lemma comparison_sound:
  fixes w :: "nat \<Rightarrow> 'a::field"
  assumes order: "order_ok TYPE('a)" and fits: "gate_fits g" and zero: "\<forall>c \<in> set (comparison_eval g w). c = 0"
  shows "\<exists>a b. a < 2 ^ (chunk_bits g * cg_num_chunks g) \<and> b < 2 ^ (chunk_bits g * cg_num_chunks g)
    \<and> w wire_first_input = of_nat a \<and> w wire_second_input = of_nat b \<and> w wire_result_bool = of_bool (a \<le> b)"
proof -
  note cs = zero [unfolded comparison_zero_iff]
  let ?B = "2 ^ chunk_bits g :: nat" let ?n = "cg_num_chunks g"
  have B: "?B * 2 \<le> goldilocks_order" using fits by (simp add: gate_fits_def)
  then have B1: "?B \<le> goldilocks_order" by simp
  have "\<forall>i. \<exists>f. i < ?n \<longrightarrow> f < ?B \<and> w (wire_first_chunk_val g i) = of_nat f" using cs by (auto simp: chunk_ok_def)
  then obtain f where f: "\<forall>i < ?n. f i < ?B \<and> w (wire_first_chunk_val g i) = of_nat (f i)" by metis
  have "\<forall>i. \<exists>s. i < ?n \<longrightarrow> s < ?B \<and> w (wire_second_chunk_val g i) = of_nat s" using cs by (auto simp: chunk_ok_def)
  then obtain s where s: "\<forall>i < ?n. s i < ?B \<and> w (wire_second_chunk_val g i) = of_nat (s i)" by metis
  have fs: "\<forall>i < ?n. f i < ?B \<and> s i < ?B" using f s by blast
  let ?a = "of_limbs ?B (map f [0..<?n])" let ?b = "of_limbs ?B (map s [0..<?n])"
  have "map (\<lambda>i. w (wire_first_chunk_val g i)) [0..<?n] = map of_nat (map f [0..<?n])"
    "map (\<lambda>i. w (wire_second_chunk_val g i)) [0..<?n] = map of_nat (map s [0..<?n])" using f s by auto
  then have inputs: "w wire_first_input = of_nat ?a" "w wire_second_input = of_nat ?b"
    using cs reduce_of_nat [where ?'a = 'a] by metis+
  have small: "?a < 2 ^ (chunk_bits g * ?n)" "?b < 2 ^ (chunk_bits g * ?n)"
    using of_limbs_digits_less [of ?n f ?B] of_limbs_digits_less [of ?n s ?B] fs by (simp_all add: power_mult)
  have diff: "w wire_most_significant_diff = of_int (msd f s ?n)"
    using cs f s chunk_ok_msd [OF order B1, of ?n w f s] by simp
  obtain b where b: "\<forall>i \<le> chunk_bits g. w (wire_most_significant_diff_bit g i) = of_nat (b i) \<and> b i < 2"
    "reduce_with_powers (map (\<lambda>i. w (wire_most_significant_diff_bit g i)) [0..<chunk_bits g + 1]) 2
      = of_nat (of_limbs 2 (map b [0..<chunk_bits g + 1]))"
    using cs by (elim conjE bits_checked)
  let ?N = "of_limbs 2 (map b [0..<chunk_bits g + 1])"
  have bound: "- int ?B < msd f s ?n" "msd f s ?n < int ?B" using msd_bound [OF fs] by simp_all
  then have pos: "0 \<le> int ?B + msd f s ?n" by simp
  have "(of_nat ?B + of_int (msd f s ?n) :: 'a) = of_int (int ?B + msd f s ?n)" by simp
  also have "\<dots> = of_nat (nat (int ?B + msd f s ?n))" using pos by (metis of_int_of_nat_eq nat_0_le)
  finally have "of_nat ?N = (of_nat (nat (int ?B + msd f s ?n)) :: 'a)" using cs diff b(2) by metis
  moreover have "?N < goldilocks_order"
    using of_limbs_digits_less [of "chunk_bits g + 1" b 2] b(1) B by (simp add: less_Suc_eq_le)
  moreover have "nat (int ?B + msd f s ?n) < ?B * 2" using bound(2) by (subst nat_less_iff [OF pos]) simp
  then have "nat (int ?B + msd f s ?n) < goldilocks_order" using B by (rule order.strict_trans2)
  ultimately have N: "int ?N = int ?B + msd f s ?n" using of_nat_eqD [OF order] pos by (metis nat_0_le)
  have "b (chunk_bits g) = of_bool (?B \<le> ?N)" using top_bit [of "chunk_bits g" b] b(1) by simp
  moreover have "?B \<le> ?N \<longleftrightarrow> ?a \<le> ?b" using N msd_decides [OF fs] by linarith
  moreover have "w wire_result_bool = of_nat (b (chunk_bits g))" using cs b(1) by simp
  ultimately have "w wire_result_bool = of_bool (?a \<le> ?b)" by simp
  with inputs small show ?thesis by blast
qed

lemma generate_diffs_eq:
  fixes f s :: "nat \<Rightarrow> nat"
  assumes "order_ok TYPE('a::field)" and "\<forall>i < n. f i < goldilocks_order \<and> s i < goldilocks_order"
  shows "generate_diffs (map (\<lambda>i. of_nat (f i)) [0..<n]) (map (\<lambda>i. of_nat (s i)) [0..<n])
    = (of_int (msd f s n), map (\<lambda>i. if f i = s i then of_int (msd f s i) else (0 :: 'a)) [0..<n])"
proof -
  have "foldl (\<lambda>(so_far, values) (a, b). if a \<noteq> b then (b - a, values @ [0]) else (so_far, values @ [so_far]))
      (0, []) (map (\<lambda>i. (of_nat (f i), of_nat (s i))) [0..<n])
    = (of_int (msd f s n), map (\<lambda>i. if f i = s i then of_int (msd f s i) else (0 :: 'a)) [0..<n])"
    using assms(2)
  proof (induction n)
    case (Suc n)
    then have "of_nat (f n) = (of_nat (s n) :: 'a) \<longleftrightarrow> f n = s n" by (simp add: of_nat_neq [OF assms(1)])
    with Suc show ?case by simp
  qed simp
  then show ?thesis by (simp add: generate_diffs_def zip_map1 zip_map2 map_zip_map zip_same_conv_map comp_def)
qed

lemma limbs_as_map: "limbs_of base n x = map (\<lambda>i. limbs_of base n x ! i) [0..<n]"
  by (simp add: list_eq_iff_nth_eq)

lemma comparison_complete:
  fixes w :: "nat \<Rightarrow> 'a::field"
  assumes order: "order_ok TYPE('a)" and fits: "gate_fits g" and canon: "\<forall>m < goldilocks_order. canon (of_nat m :: 'a) = m"
    and gen: "\<forall>(k, v) \<in> set (comparison_generate canon g w). w k = v"
    and ins: "w wire_first_input = of_nat a" "w wire_second_input = of_nat b"
    and small: "a < 2 ^ (chunk_bits g * cg_num_chunks g)" "b < 2 ^ (chunk_bits g * cg_num_chunks g)"
  shows "\<forall>c \<in> set (comparison_eval g w). c = 0"
proof -
  let ?B = "2 ^ chunk_bits g :: nat" let ?n = "cg_num_chunks g"
  define f where "f = (\<lambda>i. limbs_of ?B ?n a ! i)"
  define s where "s = (\<lambda>i. limbs_of ?B ?n b ! i)"
  have B: "?B * 2 \<le> goldilocks_order" using fits by (simp add: gate_fits_def)
  have canon_in: "canon (w wire_first_input) = a" "canon (w wire_second_input) = b"
    using canon small fits unfolding ins gate_fits_def by (meson order.strict_trans2)+
  have fs: "\<forall>i < ?n. f i < ?B \<and> s i < ?B"
    unfolding f_def s_def using limbs_of_less [of ?B] by (metis length_limbs_of nth_mem zero_less_numeral zero_less_power)
  then have fs': "\<forall>i < ?n. f i < goldilocks_order \<and> s i < goldilocks_order" using B by fastforce
  have lists: "map of_nat (limbs_of ?B ?n a) = map (\<lambda>i. of_nat (f i) :: 'a) [0..<?n]"
    "map of_nat (limbs_of ?B ?n b) = map (\<lambda>i. of_nat (s i) :: 'a) [0..<?n]"
    unfolding f_def s_def by (subst limbs_as_map, simp)+
  have eq: "i < ?n \<Longrightarrow> of_nat (f i) = (of_nat (s i) :: 'a) \<longleftrightarrow> f i = s i" for i
    using fs' of_nat_neq [OF order] by blast
  define N where "N = nat (int ?B + msd f s ?n)"
  have bound: "- int ?B < msd f s ?n" "msd f s ?n < int ?B" using msd_bound [OF fs] by simp_all
  then have N: "int N = int ?B + msd f s ?n" "N < ?B * 2" by (simp_all add: N_def nat_less_iff)
  have sum: "of_nat ?B + of_int (msd f s ?n) = (of_nat N :: 'a)" using N(1) by (metis of_int_add of_int_of_nat_eq)
  have canon_sum: "canon (of_nat ?B + of_int (msd f s ?n)) = N"
    unfolding sum using canon N(2) B by (meson order.strict_trans2)
  note out = gen [unfolded comparison_generate_def Let_def canon_in lists generate_diffs_eq [OF order fs'] prod.case canon_sum]
  have w0: "w wire_result_bool = of_bool (a \<le> b)" "w wire_most_significant_diff = of_int (msd f s ?n)"
    using out by simp_all
  have w1: "w (wire_first_chunk_val g i) = of_nat (f i) \<and> w (wire_second_chunk_val g i) = of_nat (s i)
      \<and> w (wire_equality_dummy g i) = (if f i = s i then 1 else 1 / (of_nat (s i) - of_nat (f i)))
      \<and> w (wire_chunks_equal g i) = of_bool (f i = s i)
      \<and> w (wire_intermediate_value g i) = (if f i = s i then of_int (msd f s i) else 0)" if "i < ?n" for i
    using out that eq [OF that] by (auto simp: ball_Un)
  have w2: "w (wire_most_significant_diff_bit g i) = of_nat (limbs_of 2 (chunk_bits g + 1) N ! i)" if "i \<le> chunk_bits g" for i
    using out that by (auto simp: ball_Un less_Suc_eq_le simp del: upt_Suc limbs_of.simps)
  have before: "msd_before g w i = of_int (msd f s i)" if "i \<le> ?n" for i
    using that w1 by (cases i) auto
  have ok: "chunk_ok g w i" if "i < ?n" for i
  proof -
    have "\<exists>x < ?B. w (wire_first_chunk_val g i) = of_nat x" "\<exists>x < ?B. w (wire_second_chunk_val g i) = of_nat x"
      using w1 [OF that] fs that by blast+
    moreover have "(w (wire_second_chunk_val g i) - w (wire_first_chunk_val g i)) * w (wire_equality_dummy g i) = 1 - w (wire_chunks_equal g i)
        \<and> w (wire_chunks_equal g i) * (w (wire_second_chunk_val g i) - w (wire_first_chunk_val g i)) = 0
        \<and> w (wire_intermediate_value g i) = w (wire_chunks_equal g i) * msd_before g w i"
      using w1 [OF that] before [of i] eq [OF that] that by (cases "f i = s i") simp_all
    ultimately show ?thesis by (simp add: chunk_ok_def)
  qed
  have inputs: "map (\<lambda>i. w (wire_first_chunk_val g i)) [0..<?n] = map of_nat (limbs_of ?B ?n a)"
    "map (\<lambda>i. w (wire_second_chunk_val g i)) [0..<?n] = map of_nat (limbs_of ?B ?n b)"
    using w1 by (simp_all add: lists)
  have vals: "of_limbs ?B (limbs_of ?B ?n a) = a" "of_limbs ?B (limbs_of ?B ?n b) = b"
    using small by (simp_all add: of_limbs_limbs_of power_mult)
  let ?d = "\<lambda>i. limbs_of 2 (chunk_bits g + 1) N ! i"
  have bits: "map (\<lambda>i. w (wire_most_significant_diff_bit g i)) [0..<chunk_bits g + 1] = map of_nat (limbs_of 2 (chunk_bits g + 1) N)"
    by (rule nth_equalityI) (simp_all add: w2 less_Suc_eq_le del: upt_Suc limbs_of.simps)
  have digit: "\<forall>i \<le> chunk_bits g. ?d i < 2"
  proof (intro allI impI)
    fix i assume "i \<le> chunk_bits g"
    then have "?d i \<in> set (limbs_of 2 (chunk_bits g + 1) N)" by (intro nth_mem) (simp del: limbs_of.simps)
    then show "?d i < 2" by (rule limbs_of_less [rotated]) simp
  qed
  have total: "of_limbs 2 (limbs_of 2 (chunk_bits g + 1) N) = N" using N(2) by (intro of_limbs_limbs_of) simp
  have "?d (chunk_bits g) = of_bool (?B \<le> N)"
    using top_bit [OF digit] total by (simp only: limbs_as_map [symmetric])
  moreover have "?B \<le> N \<longleftrightarrow> a \<le> b"
    using N(1) msd_decides [OF fs] vals unfolding f_def s_def limbs_as_map [symmetric] by linarith
  ultimately have result: "w wire_result_bool = w (wire_most_significant_diff_bit g (chunk_bits g))"
    using w0(1) w2 [of "chunk_bits g"] by simp
  show ?thesis unfolding comparison_zero_iff inputs bits
  proof (intro conjI)
    show "\<forall>i \<le> chunk_bits g. w (wire_most_significant_diff_bit g i) = 0 \<or> w (wire_most_significant_diff_bit g i) = 1"
      using w2 digit by (auto simp: less_2_cases_iff)
    show "of_nat ?B + w wire_most_significant_diff = reduce_with_powers (map of_nat (limbs_of 2 (chunk_bits g + 1) N)) 2"
      using reduce_of_nat [of "limbs_of 2 (chunk_bits g + 1) N" 2, where ?'a = 'a] by (simp only: w0(2) sum total of_nat_numeral)
  qed (use ok before result w0 vals in \<open>simp_all only: reduce_of_nat ins\<close>, simp_all)
qed

lemma comparison_constraint_count: "length (comparison_eval g w) = comparison_num_constraints g"
proof -
  have "length (concat (map (chunk_constraints g w) [0..<n])) = 5 * n" for n
    by (induction n) (simp_all add: chunk_constraints_def Let_def)
  then show ?thesis
    by (simp add: comparison_eval_def comparison_eval_with_def chunk_loop_eq comparison_num_constraints_def Let_def)
qed

section \<open>The gate that adds many numbers\<close>

record add_many_gate =
  am_num_addends :: nat
  am_num_ops :: nat

definition LOG2_MAX_NUM_ADDENDS :: nat where
  "LOG2_MAX_NUM_ADDENDS = 4"

definition MAX_NUM_ADDENDS :: nat where
  "MAX_NUM_ADDENDS = 16"

definition wire_ith_op_jth_addend :: "add_many_gate \<Rightarrow> nat \<Rightarrow> nat \<Rightarrow> nat" where
  "wire_ith_op_jth_addend g i j = (am_num_addends g + 3) * i + j"

definition wire_ith_carry :: "add_many_gate \<Rightarrow> nat \<Rightarrow> nat" where
  "wire_ith_carry g i = (am_num_addends g + 3) * i + am_num_addends g"

definition am_wire_output_result :: "add_many_gate \<Rightarrow> nat \<Rightarrow> nat" where
  "am_wire_output_result g i = (am_num_addends g + 3) * i + am_num_addends g + 1"

definition am_wire_output_carry :: "add_many_gate \<Rightarrow> nat \<Rightarrow> nat" where
  "am_wire_output_carry g i = (am_num_addends g + 3) * i + am_num_addends g + 2"

definition num_result_limbs :: nat where
  "num_result_limbs = ceil_div_usize 32 limb_bits"

definition num_carry_limbs :: nat where
  "num_carry_limbs = ceil_div_usize LOG2_MAX_NUM_ADDENDS limb_bits"

definition am_num_limbs :: nat where
  "am_num_limbs = num_result_limbs + num_carry_limbs"

definition am_wire_limb :: "add_many_gate \<Rightarrow> nat \<Rightarrow> nat \<Rightarrow> nat" where
  "am_wire_limb g i j = (am_num_addends g + 3) * am_num_ops g + am_num_limbs * i + j"

definition am_new_from_config :: "nat \<Rightarrow> nat \<Rightarrow> nat \<Rightarrow> add_many_gate" where
  "am_new_from_config num_wires num_routed_wires num_addends =
     (let wires_per_op = num_addends + 3 + am_num_limbs; routed_wires_per_op = num_addends + 3
      in \<lparr>am_num_addends = num_addends, am_num_ops = min (num_wires div wires_per_op) (num_routed_wires div routed_wires_per_op)\<rparr>)"

definition am_addends :: "add_many_gate \<Rightarrow> (nat \<Rightarrow> 'a::field) \<Rightarrow> nat \<Rightarrow> 'a list" where
  "am_addends g w i = map (\<lambda>j. w (wire_ith_op_jth_addend g i j)) [0..<am_num_addends g]"

definition am_eval_one :: "('a::field \<Rightarrow> 'a) \<Rightarrow> ('a list \<Rightarrow> 'a \<Rightarrow> 'a) \<Rightarrow> add_many_gate \<Rightarrow> (nat \<Rightarrow> 'a) \<Rightarrow> nat \<Rightarrow> 'a list" where
  "am_eval_one product add_up g w i =
     (let carry = w (wire_ith_carry g i);
          computed_output = add_up (am_addends g w i) carry;
          output_result = w (am_wire_output_result g i);
          output_carry = w (am_wire_output_carry g i);
          combined_output = output_carry * of_nat (2 ^ 32) + output_result;
          (products, combined_result_limbs, combined_carry_limbs) =
            limb_loop product (\<lambda>acc limb. of_nat (2 ^ limb_bits) * acc + limb) (\<lambda>j. w (am_wire_limb g i j))
              am_num_limbs num_result_limbs
      in [combined_output - computed_output] @ products @
         [combined_result_limbs - output_result, combined_carry_limbs - output_carry])"

definition am_eval :: "add_many_gate \<Rightarrow> (nat \<Rightarrow> 'a::field) \<Rightarrow> 'a list" where
  "am_eval g w = concat (map (am_eval_one limb_product
     (\<lambda>addends carry. foldl (\<lambda>x y. x + y) 0 addends + carry) g w) [0..<am_num_ops g])"

definition am_eval_base_one :: "add_many_gate \<Rightarrow> (nat \<Rightarrow> 'a::field) \<Rightarrow> 'a list" where
  "am_eval_base_one g w = concat (map (am_eval_one limb_product
     (\<lambda>addends carry. foldl (\<lambda>x y. x + y) 0 addends + carry) g w) [0..<am_num_ops g])"

definition am_eval_circuit :: "add_many_gate \<Rightarrow> (nat \<Rightarrow> 'a::field) \<Rightarrow> 'a list" where
  "am_eval_circuit g w = concat (map (am_eval_one limb_product_circuit
     (\<lambda>addends carry. foldl (\<lambda>computed_output addend. computed_output + addend) carry addends) g w) [0..<am_num_ops g])"

definition am_generate :: "('a::field \<Rightarrow> nat) \<Rightarrow> add_many_gate \<Rightarrow> (nat \<Rightarrow> 'a) \<Rightarrow> nat \<Rightarrow> (nat \<times> 'a) list" where
  "am_generate canon g w i =
     (let output = foldl (\<lambda>x y. x + y) 0 (am_addends g w i) + w (wire_ith_carry g i);
          output_u64 = canon output;
          output_carry_u64 = output_u64 div 2 ^ 32;
          output_result_u64 = output_u64 mod 2 ^ 32
      in [(am_wire_output_carry g i, of_nat output_carry_u64), (am_wire_output_result g i, of_nat output_result_u64)] @
         zip (map (am_wire_limb g i) [0..<am_num_limbs])
           (map of_nat (limbs_of (2 ^ limb_bits) num_result_limbs output_result_u64 @
              limbs_of (2 ^ limb_bits) num_carry_limbs output_carry_u64)))"

lemma am_limbs [simp]: "num_result_limbs = 16" "num_carry_limbs = 2" "am_num_limbs = 18"
  by (simp_all add: num_result_limbs_def num_carry_limbs_def am_num_limbs_def ceil_div_usize_def limb_bits_def LOG2_MAX_NUM_ADDENDS_def)

lemma foldl_sum: "foldl (\<lambda>x y. x + y) (a :: 'a::comm_monoid_add) xs = a + sum_list xs"
  by (induction xs arbitrary: a) (simp_all add: add.assoc)

lemma am_evals_agree: "am_eval_circuit g w = am_eval g w" "am_eval_base_one g w = am_eval g w"
  by (simp_all add: am_eval_circuit_def am_eval_def am_eval_base_one_def am_eval_one_def foldl_sum limb_products_agree(1) [abs_def] add.commute)

abbreviation am_one :: "add_many_gate \<Rightarrow> (nat \<Rightarrow> 'a::field) \<Rightarrow> nat \<Rightarrow> 'a list" where
  "am_one \<equiv> am_eval_one limb_product (\<lambda>addends carry. foldl (\<lambda>x y. x + y) 0 addends + carry)"

lemma am_one_zero_iff:
  "(\<forall>c \<in> set (am_one g w i). c = 0) \<longleftrightarrow>
     w (am_wire_output_carry g i) * of_nat (2 ^ 32) + w (am_wire_output_result g i)
       = sum_list (am_addends g w i) + w (wire_ith_carry g i)
     \<and> (\<forall>j < 18. limb_product (w (am_wire_limb g i j)) = 0)
     \<and> reduce_with_powers (map (\<lambda>j. w (am_wire_limb g i j)) [0..<16]) (of_nat 4) = w (am_wire_output_result g i)
     \<and> reduce_with_powers (map (\<lambda>j. w (am_wire_limb g i j)) [16..<18]) (of_nat 4) = w (am_wire_output_carry g i)"
  by (simp add: am_eval_one_def limb_loop_eq Let_def limb_bits_def foldl_sum atLeast0LessThan) (auto simp: lessThan_def)

lemma am_one_sound:
  fixes w :: "nat \<Rightarrow> 'a::field"
  assumes order: "order_ok TYPE('a)" and zero: "\<forall>c \<in> set (am_one g w i). c = 0"
    and ins: "am_addends g w i = map of_nat xs" "w (wire_ith_carry g i) = of_nat c"
    and small: "sum_list xs + c < goldilocks_order"
  shows "w (am_wire_output_result g i) = of_nat ((sum_list xs + c) mod 2 ^ 32)
    \<and> w (am_wire_output_carry g i) = of_nat ((sum_list xs + c) div 2 ^ 32)"
proof -
  note cs = zero [unfolded am_one_zero_iff]
  have "\<forall>l \<in> set (map (\<lambda>j. w (am_wire_limb g i j)) [0..<16]). limb_product l = 0" using cs by auto
  then obtain ds where "reduce_with_powers (map (\<lambda>j. w (am_wire_limb g i j)) [0..<16]) (of_nat 4) = of_nat (of_limbs 4 ds)"
    "of_limbs 4 ds < 4 ^ length (map (\<lambda>j. w (am_wire_limb g i j)) [0..<16])" by (rule limbs_checked)
  then have "w (am_wire_output_result g i) = of_nat (of_limbs 4 ds) \<and> of_limbs 4 ds < 2 ^ 32" using cs by simp
  then obtain l where l: "w (am_wire_output_result g i) = of_nat l" "l < 2 ^ 32" by blast
  have "\<forall>l \<in> set (map (\<lambda>j. w (am_wire_limb g i j)) [16..<18]). limb_product l = 0" using cs by auto
  then obtain es where "reduce_with_powers (map (\<lambda>j. w (am_wire_limb g i j)) [16..<18]) (of_nat 4) = of_nat (of_limbs 4 es)"
    "of_limbs 4 es < 4 ^ length (map (\<lambda>j. w (am_wire_limb g i j)) [16..<18])" by (rule limbs_checked)
  then have "w (am_wire_output_carry g i) = of_nat (of_limbs 4 es) \<and> of_limbs 4 es < 16" using cs by simp
  then obtain h where h: "w (am_wire_output_carry g i) = of_nat h" "h < 16" by blast
  have "sum_list (map of_nat xs) = (of_nat (sum_list xs) :: 'a)" by (induction xs) simp_all
  then have "(of_nat (h * 2 ^ 32 + l) :: 'a) = of_nat (sum_list xs + c)"
    using cs unfolding ins l(1) h(1) by (simp only: of_nat_add of_nat_mult)
  moreover have "h * 2 ^ 32 + l < goldilocks_order" using l(2) h(2) by (simp add: goldilocks_order_def)
  ultimately have "sum_list xs + c = h * 2 ^ 32 + l" using of_nat_eqD [OF order] small by metis
  then have "l = (sum_list xs + c) mod 2 ^ 32 \<and> h = (sum_list xs + c) div 2 ^ 32"
    using l(2) by (rule div_mod_unique_32)
  with l(1) h(1) show ?thesis by simp
qed

lemma am_one_complete:
  fixes w :: "nat \<Rightarrow> 'a::field"
  assumes canon: "\<forall>m < goldilocks_order. canon (of_nat m :: 'a) = m"
    and gen: "\<forall>(k, v) \<in> set (am_generate canon g w i). w k = v"
    and ins: "am_addends g w i = map of_nat xs" "w (wire_ith_carry g i) = of_nat c"
    and small: "sum_list xs + c < 2 ^ 36"
  shows "\<forall>c \<in> set (am_one g w i). c = 0"
proof -
  let ?x = "sum_list xs + c"
  let ?ds = "limbs_of 4 16 (?x mod 2 ^ 32) @ limbs_of 4 2 (?x div 2 ^ 32)"
  have sum: "sum_list (map of_nat xs) + of_nat c = (of_nat ?x :: 'a)" by (induction xs) (simp_all add: add.assoc)
  have "?x < goldilocks_order" using small by (simp add: goldilocks_order_def)
  then have canon_x: "canon (of_nat ?x :: 'a) = ?x" using canon by blast
  note out = gen [unfolded am_generate_def Let_def foldl_sum add_0_left ins sum canon_x am_limbs limb_bits_def]
  have outs: "w (am_wire_output_carry g i) = of_nat (?x div 2 ^ 32)" "w (am_wire_output_result g i) = of_nat (?x mod 2 ^ 32)"
    using out by simp_all
  have limb: "w (am_wire_limb g i j) = of_nat (?ds ! j)" if "j < 18" for j
  proof -
    have "(am_wire_limb g i j, of_nat (?ds ! j)) \<in> set (zip (map (am_wire_limb g i) [0..<18]) (map (of_nat :: nat \<Rightarrow> 'a) ?ds))"
      using that unfolding in_set_zip by (intro exI [of _ j]) (simp add: nth_append)
    then show ?thesis using out by auto
  qed
  have "d < 4" if "d \<in> set ?ds" for d using that limbs_of_less [of 4 d] by auto
  then have "\<exists>d < 4. w (am_wire_limb g i j) = of_nat d" if "j < 18" for j
    using limb [OF that] that nth_mem [of j ?ds] by auto
  then have "limb_product (w (am_wire_limb g i j)) = 0" if "j < 18" for j using that limb_product_zero by blast
  moreover have "map (\<lambda>j. w (am_wire_limb g i j)) [0..<16] = map of_nat (limbs_of 4 16 (?x mod 2 ^ 32))"
    by (rule nth_equalityI) (simp_all add: limb nth_append)
  moreover have "map (\<lambda>j. w (am_wire_limb g i j)) [16..<18] = map of_nat (limbs_of 4 2 (?x div 2 ^ 32))"
    by (rule nth_equalityI) (simp_all add: limb nth_append)
  moreover have "of_limbs 4 (limbs_of 4 16 (?x mod 2 ^ 32)) = ?x mod 2 ^ 32" by (rule of_limbs_limbs_of) simp
  moreover have "of_limbs 4 (limbs_of 4 2 (?x div 2 ^ 32)) = ?x div 2 ^ 32"
    using small by (intro of_limbs_limbs_of) (simp add: div_less_iff_less_mult)
  moreover have "of_nat (?x div 2 ^ 32) * of_nat (2 ^ 32) + of_nat (?x mod 2 ^ 32) = (of_nat ?x :: 'a)"
    by (simp only: of_nat_mult [symmetric] of_nat_add [symmetric] div_mult_mod_eq)
  ultimately show ?thesis unfolding am_one_zero_iff outs ins sum by (simp only: reduce_of_nat) simp
qed

section \<open>The properties\<close>

text \<open>Property C20. On inputs that fit its chunks the comparison gate pins its result to whether the first input
  is at most the second: when all constraints vanish the result is this bit, with the wires that the
  generator sets all constraints vanish, and the three evaluations of the constraints agree.\<close>

theorem comparison_gate_exact:
  fixes w :: "nat \<Rightarrow> 'a::field"
  assumes "order_ok TYPE('a)" and "\<forall>m < goldilocks_order. canon (of_nat m :: 'a) = m" and "gate_fits g"
    and "w wire_first_input = of_nat a" and "w wire_second_input = of_nat b"
    and "a < 2 ^ (chunk_bits g * cg_num_chunks g)" and "b < 2 ^ (chunk_bits g * cg_num_chunks g)"
  shows "((\<forall>z \<in> set (comparison_eval g w). z = 0) \<longrightarrow> w wire_result_bool = of_bool (a \<le> b))
    \<and> ((\<forall>(k, v) \<in> set (comparison_generate canon g w). w k = v) \<longrightarrow> (\<forall>z \<in> set (comparison_eval g w). z = 0))
    \<and> comparison_eval_circuit g w = comparison_eval g w \<and> comparison_eval_packed g w = comparison_eval g w"
proof (intro conjI impI)
  assume "\<forall>z \<in> set (comparison_eval g w). z = 0"
  from comparison_sound [OF assms(1,3) this] obtain a' b' where
    found: "a' < 2 ^ (chunk_bits g * cg_num_chunks g)" "b' < 2 ^ (chunk_bits g * cg_num_chunks g)"
      "w wire_first_input = of_nat a'" "w wire_second_input = of_nat b'" "w wire_result_bool = of_bool (a' \<le> b')" by blast
  have "2 ^ (chunk_bits g * cg_num_chunks g) \<le> goldilocks_order" using assms(3) by (simp add: gate_fits_def)
  then have "a' = a" "b' = b"
    using of_nat_eqD [OF assms(1)] found assms(4-7) by (metis order.strict_trans2)+
  with found(5) show "w wire_result_bool = of_bool (a \<le> b)" by simp
qed (rule comparison_complete [OF assms(1,3,2) _ assms(4-7)] comparison_evals_agree; assumption?)+

text \<open>A row of the gate for four bits in two chunks that compares 3 with 9.\<close>

definition sample_gate :: comparison_gate where
  "sample_gate = \<lparr>cg_num_bits = 4, cg_num_chunks = 2\<rparr>"

definition sample_comparison :: "nat \<Rightarrow> rat" where
  "sample_comparison = sample_row [3, 9, 1, 2, 3, 0, 1, 2, - (1 / 2), 1 / 2, 0, 0, 0, 0, 0, 1, 1]"

lemma limbs_of_2: "limbs_of base 2 x = [x mod base, x div base mod base]"
  by (simp add: numeral_2_eq_2)

lemma limbs_of_3: "limbs_of base 3 x = [x mod base, x div base mod base, x div base div base mod base]"
  by (simp add: numeral_3_eq_3)

theorem comparison_gate_exact_witness:
  "list_all (\<lambda>z. z = 0) (comparison_eval sample_gate sample_comparison) \<and> sample_comparison wire_result_bool = 1"
proof -
  let ?g = sample_gate let ?w = sample_comparison
  have bits: "chunk_bits ?g = 2" "cg_num_chunks ?g = 2" by (simp_all add: sample_gate_def chunk_bits_def ceil_div_usize_def)
  have canon: "\<forall>m < goldilocks_order. sample_canon (of_nat m) = m" by (simp add: sample_canon_simps)
  have nums: "sample_canon 3 = 3" "sample_canon 9 = 9" "sample_canon 6 = 6"
    using sample_canon_simps(1) [of 3] sample_canon_simps(1) [of 9] sample_canon_simps(1) [of 6] by simp_all
  have "gate_fits ?g" by (simp add: gate_fits_def bits goldilocks_order_def)
  moreover have "?w wire_first_input = of_nat 3" "?w wire_second_input = of_nat 9"
    by (simp_all add: sample_comparison_def sample_row_def wire_first_input_def wire_second_input_def)
  moreover have "(3 :: nat) < 2 ^ (chunk_bits ?g * cg_num_chunks ?g)" "(9 :: nat) < 2 ^ (chunk_bits ?g * cg_num_chunks ?g)"
    by (simp_all add: bits)
  ultimately have exact: "((\<forall>z \<in> set (comparison_eval ?g ?w). z = 0) \<longrightarrow> ?w wire_result_bool = of_bool (3 \<le> (9 :: nat)))
    \<and> ((\<forall>(k, v) \<in> set (comparison_generate sample_canon ?g ?w). ?w k = v) \<longrightarrow> (\<forall>z \<in> set (comparison_eval ?g ?w). z = 0))"
    using comparison_gate_exact [OF order_ok_char_0 canon, of ?g ?w 3 9] by simp
  have upt: "[0..<2] = [0, 1]" "[0..<3] = [0, 1, 2]" by (simp_all add: upt_rec)
  have limbs: "limbs_of 4 2 3 = [3, 0]" "limbs_of 4 2 9 = [1, 2]" "limbs_of 2 3 6 = [0, 1, 1]" by (simp_all add: limbs_of_2 limbs_of_3)
  have ins: "?w 0 = 3" "?w 1 = 9" by (simp_all add: sample_comparison_def sample_row_def)
  have diffs: "generate_diffs [of_nat 3, of_nat 0] [of_nat 1, of_nat 2] = (2 :: rat, [0, 0])"
    by (simp add: generate_diffs_def)
  have "comparison_generate sample_canon ?g ?w = [(2, 1), (3, 2), (4, 3), (6, 1), (8, - (1 / 2)), (10, 0), (12, 0),
      (5, 0), (7, 2), (9, 1 / 2), (11, 0), (13, 0), (14, 0), (15, 1), (16, 1)]"
    unfolding comparison_generate_def bits wire_first_input_def wire_second_input_def ins nums Let_def
      wire_result_bool_def wire_most_significant_diff_def wire_first_chunk_val_def wire_second_chunk_val_def
      wire_equality_dummy_def wire_chunks_equal_def wire_intermediate_value_def wire_most_significant_diff_bit_def
    by (simp add: limbs upt diffs [simplified] nums)
  then have "\<forall>(k, v) \<in> set (comparison_generate sample_canon ?g ?w). ?w k = v"
    by (simp add: sample_comparison_def sample_row_def)
  with exact show ?thesis by (simp add: list_all_iff)
qed

lemma sum_list_bound: "\<forall>x \<in> set xs. x \<le> (m :: nat) \<Longrightarrow> sum_list xs \<le> length xs * m"
  by (induction xs) auto

text \<open>The gate that adds many 32 bit numbers pins its outputs to the sum modulo \<open>2 ^ 32\<close> and the carry:
  for up to sixteen addends and a carry of 32 bits the constraints admit no other outputs; when the
  carry in is below sixteen, the wires that the generator sets satisfy them; the evaluations agree.\<close>

theorem add_many_gate_exact:
  fixes w :: "nat \<Rightarrow> 'a::field"
  assumes "order_ok TYPE('a)" and "\<forall>m < goldilocks_order. canon (of_nat m :: 'a) = m"
    and "am_num_addends g \<le> MAX_NUM_ADDENDS"
    and "\<forall>i < am_num_ops g. am_addends g w i = map of_nat (xs i) \<and> (\<forall>x \<in> set (xs i). x < 2 ^ 32)
      \<and> w (wire_ith_carry g i) = of_nat (c i) \<and> c i < 2 ^ 32"
  shows "((\<forall>z \<in> set (am_eval g w). z = 0) \<longrightarrow>
      (\<forall>i < am_num_ops g. w (am_wire_output_result g i) = of_nat ((sum_list (xs i) + c i) mod 2 ^ 32)
        \<and> w (am_wire_output_carry g i) = of_nat ((sum_list (xs i) + c i) div 2 ^ 32)))
    \<and> ((\<forall>i < am_num_ops g. c i < 16 \<and> (\<forall>(k, v) \<in> set (am_generate canon g w i). w k = v)) \<longrightarrow> (\<forall>z \<in> set (am_eval g w). z = 0))
    \<and> am_eval_circuit g w = am_eval g w \<and> am_eval_base_one g w = am_eval g w"
proof -
  have sum_bound: "sum_list (xs i) \<le> 16 * (2 ^ 32 - 1)" if "i < am_num_ops g" for i
  proof -
    have "length (xs i) = am_num_addends g" using assms(4) that by (metis am_addends_def length_map length_upt minus_nat.diff_0)
    then have len: "length (xs i) \<le> 16" using assms(3) by (simp add: MAX_NUM_ADDENDS_def)
    have "\<forall>x \<in> set (xs i). x \<le> 2 ^ 32 - 1" using assms(4) that by fastforce
    then have "sum_list (xs i) \<le> length (xs i) * (2 ^ 32 - 1)" by (rule sum_list_bound)
    also have "\<dots> \<le> 16 * (2 ^ 32 - 1)" using len by (intro mult_right_mono) simp_all
    finally show ?thesis .
  qed
  show ?thesis
  proof (intro conjI impI allI)
    fix i assume zero: "\<forall>z \<in> set (am_eval g w). z = 0" and i: "i < am_num_ops g"
    have "\<forall>z \<in> set (am_one g w i). z = 0" using zero i by (auto simp: am_eval_def)
    moreover have "sum_list (xs i) + c i < goldilocks_order"
      using sum_bound [OF i] assms(4) i by (fastforce simp: goldilocks_order_def)
    ultimately have "w (am_wire_output_result g i) = of_nat ((sum_list (xs i) + c i) mod 2 ^ 32)
        \<and> w (am_wire_output_carry g i) = of_nat ((sum_list (xs i) + c i) div 2 ^ 32)"
      using assms(4) i by (intro am_one_sound [OF assms(1)]) simp_all
    then show "w (am_wire_output_result g i) = of_nat ((sum_list (xs i) + c i) mod 2 ^ 32)"
      "w (am_wire_output_carry g i) = of_nat ((sum_list (xs i) + c i) div 2 ^ 32)" by simp_all
  next
    assume gen: "\<forall>i < am_num_ops g. c i < 16 \<and> (\<forall>(k, v) \<in> set (am_generate canon g w i). w k = v)"
    have "\<forall>z \<in> set (am_one g w i). z = 0" if "i < am_num_ops g" for i
    proof (rule am_one_complete [OF assms(2)])
      show "\<forall>(k, v) \<in> set (am_generate canon g w i). w k = v" by (rule gen [THEN spec, THEN mp, OF that, THEN conjunct2])
      show "sum_list (xs i) + c i < 2 ^ 36"
        using sum_bound [OF that] gen [THEN spec, THEN mp, OF that, THEN conjunct1] by simp
    qed (use assms(4) that in simp_all)
    then show "\<forall>z \<in> set (am_eval g w). z = 0" by (auto simp: am_eval_def)
  qed (rule am_evals_agree)+
qed

text \<open>A row that adds 1, 2 and 3.\<close>

definition sample_adder :: add_many_gate where
  "sample_adder = \<lparr>am_num_addends = 3, am_num_ops = 1\<rparr>"

definition sample_sum :: "nat \<Rightarrow> rat" where
  "sample_sum = sample_row [1, 2, 3, 0, 6, 0, 2, 1]"

theorem add_many_gate_exact_witness:
  "(\<forall>z \<in> set (am_eval sample_adder sample_sum). z = 0) \<and> sample_sum (am_wire_output_result sample_adder 0) = 6"
proof -
  let ?g = sample_adder let ?w = sample_sum
  have gate: "am_num_addends ?g = 3" "am_num_ops ?g = 1" by (simp_all add: sample_adder_def)
  have upt: "[0..<3] = [0, 1, 2]" by (simp add: upt_rec)
  have row: "?w 0 = 1" "?w 1 = 2" "?w 2 = 3" "?w 3 = 0" "?w 4 = 6" "?w 5 = 0" "?w 6 = 2" "?w 7 = 1" "8 \<le> k \<Longrightarrow> ?w k = 0" for k
    by (simp_all add: sample_sum_def sample_row_def)
  have addends: "am_addends ?g ?w 0 = map of_nat [1, 2, 3]"
    by (simp add: am_addends_def wire_ith_op_jth_addend_def gate upt row row(2) [simplified])
  have carry: "?w (wire_ith_carry ?g 0) = of_nat 0" by (simp add: wire_ith_carry_def gate row)
  have canon: "\<forall>m < goldilocks_order. sample_canon (of_nat m) = m" by (simp add: sample_canon_simps)
  have six: "sample_canon 6 = 6" using sample_canon_simps(1) [of 6] by simp
  have digits: "limbs_of 4 16 6 @ limbs_of 4 2 0 = [2, 1] @ replicate 16 0"
  proof -
    have "(16 :: nat) = Suc (Suc 14)" by simp
    then have "limbs_of 4 16 6 = [2, 1] @ replicate 14 0" by (simp only: limbs_of.simps) (simp add: limbs_of_0)
    then show ?thesis by (simp add: limbs_of_0 replicate_add [symmetric])
  qed
  have limb: "?w (6 + j) = of_nat (([2, 1] @ replicate 16 0) ! j)" if "j < 18" for j
  proof (cases "j < 2")
    case True
    then have "j = 0 \<or> j = 1" by auto
    then show ?thesis by (auto simp: row)
  next
    case False
    with that show ?thesis by (simp add: row nth_append)
  qed
  have "\<forall>(k, v) \<in> set (am_generate sample_canon ?g ?w 0). ?w k = v"
  proof (intro ballI, clarify)
    fix k v assume "(k, v) \<in> set (am_generate sample_canon ?g ?w 0)"
    then consider "k = 5" "v = 0" | "k = 4" "v = 6"
      | "(k, v) \<in> set (zip (map (\<lambda>j. 6 + j) [0..<18]) (map of_nat ([2, 1] @ replicate 16 0)))"
      unfolding am_generate_def addends carry Let_def am_limbs limb_bits_def am_wire_limb_def am_wire_output_carry_def
        am_wire_output_result_def gate using six digits by auto
    then show "?w k = v"
    proof cases
      case 3
      then obtain j where "j < 18" "k = 6 + j" "v = of_nat (([2, 1] @ replicate 16 0) ! j)"
        by (rule zip_wires) simp
      then show ?thesis by (simp only: limb)
    qed (simp_all add: row)
  qed
  then have generated: "\<forall>i < am_num_ops ?g. (0 :: nat) < 16 \<and> (\<forall>(k, v) \<in> set (am_generate sample_canon ?g ?w i). ?w k = v)"
    by (simp add: gate)
  note exact = add_many_gate_exact [OF order_ok_char_0 canon, of ?g ?w "\<lambda>_. [1, 2, 3]" "\<lambda>_. 0"]
  have ins: "\<forall>i < am_num_ops ?g. am_addends ?g ?w i = map of_nat [1, 2, 3] \<and> (\<forall>x \<in> set [1, 2, 3]. x < (2 :: nat) ^ 32)
      \<and> ?w (wire_ith_carry ?g i) = of_nat 0 \<and> (0 :: nat) < 2 ^ 32" using addends carry by (simp add: gate)
  have bound: "am_num_addends ?g \<le> MAX_NUM_ADDENDS" by (simp add: gate MAX_NUM_ADDENDS_def)
  note zero = exact [OF bound ins, THEN conjunct2, THEN conjunct1, THEN mp, OF generated]
  have "?w (am_wire_output_result ?g 0) = of_nat ((sum_list [1, 2, 3] + 0) mod 2 ^ 32)"
    using exact [OF bound ins, THEN conjunct1, THEN mp, OF zero] by (simp add: gate)
  with zero show ?thesis by simp
qed

end
