(* ===== verification/U32_Gadgets.thy ===== *)
theory U32_Gadgets
  imports U32_Compare
begin

text \<open>
  Circuits for 32 bit numbers (\<open>circuits/plonky2_u32/src/gadgets\<close>). A circuit is read as a computation on the
  values of its targets: virtual targets and the wires of gates take the values that the prover
  chooses (the advice), the arithmetic of the builder is arithmetic of the field, and every
  \<open>connect\<close>, assertion and gate adds a condition. A gadget is sound if its outputs are right for every
  advice that meets all conditions.
\<close>

section \<open>Circuits as computations with advice\<close>

type_synonym 'a advice = "nat \<Rightarrow> 'a"
type_synonym ('a, 'r) circuit = "'a advice \<Rightarrow> nat \<Rightarrow> 'r \<times> bool \<times> nat"

text \<open>A target holds its value and whether the builder knows it as a constant.\<close>

datatype 'a target = Constant (tval: 'a) | Wire (tval: 'a)

definition circuit_return :: "'r \<Rightarrow> ('a, 'r) circuit" where
  "circuit_return r adv pos = (r, True, pos)"

definition circuit_bind :: "('a, 'r) circuit \<Rightarrow> ('r \<Rightarrow> ('a, 's) circuit) \<Rightarrow> ('a, 's) circuit" where
  "circuit_bind m f adv pos =
     (case m adv pos of (r, holds, pos') \<Rightarrow> case f r adv pos' of (s, holds', pos'') \<Rightarrow> (s, holds \<and> holds', pos''))"

definition require :: "bool \<Rightarrow> ('a, unit) circuit" where
  "require b adv pos = ((), b, pos)"

definition add_virtual_targets :: "nat \<Rightarrow> ('a, 'a target list) circuit" where
  "add_virtual_targets n adv pos = (map (\<lambda>i. Wire (adv (pos + i))) [0..<n], True, pos + n)"

definition gate_row :: "nat \<Rightarrow> ('a, nat \<Rightarrow> 'a) circuit" where
  "gate_row n adv pos = ((\<lambda>k. adv (pos + k)), True, pos + n)"

text \<open>The circuit with result \<open>r\<close> is satisfied by the advice.\<close>

definition sat :: "('a, 'r) circuit \<Rightarrow> 'a advice \<Rightarrow> nat \<Rightarrow> 'r \<Rightarrow> nat \<Rightarrow> bool" where
  "sat m adv pos r pos' \<longleftrightarrow> m adv pos = (r, True, pos')"

lemma sat_return [simp]: "sat (circuit_return r) adv pos s pos' \<longleftrightarrow> s = r \<and> pos' = pos"
  by (auto simp: sat_def circuit_return_def)

lemma sat_bind [simp]:
  "sat (circuit_bind m f) adv pos s pos' \<longleftrightarrow> (\<exists>r p. sat m adv pos r p \<and> sat (f r) adv p s pos')"
  by (auto simp: sat_def circuit_bind_def split: prod.splits)

lemma sat_require [simp]: "sat (require b) adv pos u pos' \<longleftrightarrow> b \<and> pos' = pos"
  by (auto simp: sat_def require_def)

lemma sat_gate_row [simp]: "sat (gate_row n) adv pos w pos' \<longleftrightarrow> w = (\<lambda>k. adv (pos + k)) \<and> pos' = pos + n"
  by (auto simp: sat_def gate_row_def)

lemma sat_virtual_length: "sat (add_virtual_targets n) adv pos ts pos' \<Longrightarrow> length ts = n"
  by (auto simp: sat_def add_virtual_targets_def)

fun circuit_fold :: "('s \<Rightarrow> 'x \<Rightarrow> ('a, 's) circuit) \<Rightarrow> 's \<Rightarrow> 'x list \<Rightarrow> ('a, 's) circuit" where
  "circuit_fold f s [] = circuit_return s"
| "circuit_fold f s (x # xs) = circuit_bind (f s x) (\<lambda>s'. circuit_fold f s' xs)"

text \<open>
  What the builder's configuration and the external crate decide: \<open>to_canonical_u64\<close>, the operations
  per row and the wires of a row, and the free slot that \<open>find_slot\<close> returns. Every call has a row
  of its own here; rows that several calls share only repeat wires.
\<close>

record 'a config =
  cf_canon :: "'a \<Rightarrow> nat"
  cf_num_wires :: nat
  cf_num_routed_wires :: nat
  cf_num_ops :: nat
  cf_slot :: "nat \<Rightarrow> nat"

definition canon_ok :: "('a::field) config \<Rightarrow> bool" where
  "canon_ok cfg \<longleftrightarrow> (\<forall>m < goldilocks_order. cf_canon cfg (of_nat m) = m)"

definition find_slot :: "'a config \<Rightarrow> ('a, (nat \<Rightarrow> 'a) \<times> nat) circuit" where
  "find_slot cfg adv pos = (((\<lambda>k. adv (pos + k)), cf_slot cfg pos), True, pos + cf_num_wires cfg)"

section \<open>Arithmetic on 32 bit targets\<close>

definition add_virtual_u32_targets :: "nat \<Rightarrow> ('a, 'a target list) circuit" where
  "add_virtual_u32_targets n = add_virtual_targets n"

definition add_virtual_u32_target :: "('a, 'a target) circuit" where
  "add_virtual_u32_target = circuit_bind (add_virtual_targets 1) (\<lambda>ts. circuit_return (hd ts))"

definition constant_u32 :: "nat \<Rightarrow> 'a::field target" where
  "constant_u32 c = Constant (of_nat c)"

definition zero_u32 :: "'a::field target" where
  "zero_u32 = Constant 0"

definition one_u32 :: "'a::field target" where
  "one_u32 = Constant 1"

definition connect :: "'a target \<Rightarrow> 'a target \<Rightarrow> ('a, unit) circuit" where
  "connect x y = require (tval x = tval y)"

definition connect_u32 :: "'a target \<Rightarrow> 'a target \<Rightarrow> ('a, unit) circuit" where
  "connect_u32 x y = connect x y"

definition assert_zero_u32 :: "'a::field target \<Rightarrow> ('a, unit) circuit" where
  "assert_zero_u32 x = require (tval x = 0)"

fun target_as_constant :: "'a target \<Rightarrow> 'a option" where
  "target_as_constant (Constant c) = Some c"
| "target_as_constant (Wire c) = None"

definition arithmetic_u32_special_cases ::
  "('a::field) config \<Rightarrow> 'a target \<Rightarrow> 'a target \<Rightarrow> 'a target \<Rightarrow> ('a target \<times> 'a target) option" where
  "arithmetic_u32_special_cases cfg x y z =
     (let first_term_const = (case (target_as_constant x, target_as_constant y) of
            (Some xx, Some yy) \<Rightarrow> Some (xx * yy) | _ \<Rightarrow> None)
      in case (first_term_const, target_as_constant z) of
           (Some a, Some b) \<Rightarrow>
             (let sum = cf_canon cfg (a + b); low = sum mod 2 ^ 32; high = sum div 2 ^ 32 mod 2 ^ 32
              in Some (constant_u32 low, constant_u32 high))
         | _ \<Rightarrow> None)"

definition mul_add_u32 :: "('a::field) config \<Rightarrow> 'a target \<Rightarrow> 'a target \<Rightarrow> 'a target \<Rightarrow> ('a, 'a target \<times> 'a target) circuit" where
  "mul_add_u32 cfg x y z = (case arithmetic_u32_special_cases cfg x y z of
     Some result \<Rightarrow> circuit_return result
   | None \<Rightarrow>
       circuit_bind (find_slot cfg) (\<lambda>(w, copy).
       circuit_bind (require (\<forall>c \<in> set (arithmetic_one (cf_num_ops cfg) w copy). c = 0)) (\<lambda>_.
       circuit_bind (connect (Wire (w (wire_ith_multiplicand_0 copy))) x) (\<lambda>_.
       circuit_bind (connect (Wire (w (wire_ith_multiplicand_1 copy))) y) (\<lambda>_.
       circuit_bind (connect (Wire (w (wire_ith_addend copy))) z) (\<lambda>_.
         circuit_return (Wire (w (wire_ith_output_low_half copy)), Wire (w (wire_ith_output_high_half copy)))))))))"

definition add_u32 :: "('a::field) config \<Rightarrow> 'a target \<Rightarrow> 'a target \<Rightarrow> ('a, 'a target \<times> 'a target) circuit" where
  "add_u32 cfg a b = mul_add_u32 cfg a one_u32 b"

text \<open>The call of the gate for many addends, with \<open>carry\<close> in.\<close>

definition add_many_call :: "('a::field) config \<Rightarrow> 'a target list \<Rightarrow> 'a target \<Rightarrow> ('a, 'a target \<times> 'a target) circuit" where
  "add_many_call cfg to_add carry =
     (let gate = am_new_from_config (cf_num_wires cfg) (cf_num_routed_wires cfg) (length to_add)
      in circuit_bind (find_slot cfg) (\<lambda>(w, copy).
         circuit_bind (require (\<forall>c \<in> set (am_one gate w copy). c = 0)) (\<lambda>_.
         circuit_bind (circuit_fold (\<lambda>_ j. connect (Wire (w (wire_ith_op_jth_addend gate copy j))) (to_add ! j)) () [0..<length to_add]) (\<lambda>_.
         circuit_bind (connect (Wire (w (wire_ith_carry gate copy))) carry) (\<lambda>_.
           circuit_return (Wire (w (am_wire_output_result gate copy)), Wire (w (am_wire_output_carry gate copy))))))))"

definition add_many_u32 :: "('a::field) config \<Rightarrow> 'a target list \<Rightarrow> ('a, 'a target \<times> 'a target) circuit" where
  "add_many_u32 cfg to_add =
     (if length to_add = 0 then circuit_return (zero_u32, zero_u32)
      else if length to_add = 1 then circuit_return (to_add ! 0, zero_u32)
      else if length to_add = 2 then add_u32 cfg (to_add ! 0) (to_add ! 1)
      else add_many_call cfg to_add zero_u32)"

definition add_u32s_with_carry :: "('a::field) config \<Rightarrow> 'a target list \<Rightarrow> 'a target \<Rightarrow> ('a, 'a target \<times> 'a target) circuit" where
  "add_u32s_with_carry cfg to_add carry =
     (if length to_add = 1 then add_u32 cfg (to_add ! 0) carry
      else add_many_call cfg to_add carry)"

definition mul_u32 :: "('a::field) config \<Rightarrow> 'a target \<Rightarrow> 'a target \<Rightarrow> ('a, 'a target \<times> 'a target) circuit" where
  "mul_u32 cfg a b = mul_add_u32 cfg a b zero_u32"

definition sub_u32 :: "('a::field) config \<Rightarrow> 'a target \<Rightarrow> 'a target \<Rightarrow> 'a target \<Rightarrow> ('a, 'a target \<times> 'a target) circuit" where
  "sub_u32 cfg x y borrow =
     circuit_bind (find_slot cfg) (\<lambda>(w, copy).
     circuit_bind (require (\<forall>c \<in> set (subtraction_one (cf_num_ops cfg) w copy). c = 0)) (\<lambda>_.
     circuit_bind (connect (Wire (w (wire_ith_input_x copy))) x) (\<lambda>_.
     circuit_bind (connect (Wire (w (wire_ith_input_y copy))) y) (\<lambda>_.
     circuit_bind (connect (Wire (w (wire_ith_input_borrow copy))) borrow) (\<lambda>_.
       circuit_return (Wire (w (wire_ith_output_result copy)), Wire (w (wire_ith_output_borrow copy))))))))"

section \<open>Range checks and comparison of lists\<close>

definition range_check_u32_circuit :: "('a::field) config \<Rightarrow> 'a target list \<Rightarrow> ('a, unit) circuit" where
  "range_check_u32_circuit cfg vals =
     (let num_input_limbs = length vals in
      circuit_bind (gate_row (num_input_limbs + rc_aux_limbs * num_input_limbs)) (\<lambda>w.
      circuit_bind (require (\<forall>c \<in> set (rc_eval num_input_limbs w). c = 0)) (\<lambda>_.
      circuit_fold (\<lambda>_ i. connect (Wire (w (rc_wire_input_limb i))) (vals ! i)) () [0..<num_input_limbs])))"

definition compare_call :: "comparison_gate \<Rightarrow> 'a::field target \<Rightarrow> 'a target \<Rightarrow> ('a, 'a target) circuit" where
  "compare_call gate a b =
     circuit_bind (gate_row (comparison_num_wires gate)) (\<lambda>w.
     circuit_bind (require (\<forall>c \<in> set (comparison_eval gate w). c = 0)) (\<lambda>_.
     circuit_bind (connect (Wire (w wire_first_input)) a) (\<lambda>_.
     circuit_bind (connect (Wire (w wire_second_input)) b) (\<lambda>_.
       circuit_return (Wire (w wire_result_bool))))))"

definition list_le_circuit :: "'a::field target list \<Rightarrow> 'a target list \<Rightarrow> nat \<Rightarrow> ('a, 'a target) circuit" where
  "list_le_circuit a b num_bits =
     circuit_bind (require (length a = length b)) (\<lambda>_.
     let num_chunks = ceil_div_usize num_bits 2;
         gate = \<lparr>cg_num_bits = num_bits, cg_num_chunks = num_chunks\<rparr>
     in circuit_fold (\<lambda>result i.
          circuit_bind (compare_call gate (a ! i) (b ! i)) (\<lambda>a_le_b_result.
          circuit_bind (compare_call gate (b ! i) (a ! i)) (\<lambda>b_le_a_result.
          let these_limbs_equal = tval a_le_b_result * tval b_le_a_result;
              these_limbs_less_than = 1 - tval b_le_a_result
          in circuit_return (Wire (these_limbs_equal * tval result + these_limbs_less_than)))))
        (Constant 1) [0..<length a])"

definition list_le_u32_circuit :: "'a::field target list \<Rightarrow> 'a target list \<Rightarrow> ('a, 'a target) circuit" where
  "list_le_u32_circuit a b = list_le_circuit a b 32"

text \<open>The generator that splits a target into two halves.\<close>

definition split_to_u32_generate :: "('a \<Rightarrow> nat) \<Rightarrow> 'a::field \<Rightarrow> 'a \<times> 'a" where
  "split_to_u32_generate canon x = (of_nat (canon x mod 2 ^ 32), of_nat (canon x div 2 ^ 32 mod 2 ^ 32))"

section \<open>Rules for loops\<close>

lemma circuit_fold_invariant:
  assumes "sat (circuit_fold f s [i..<n]) adv pos r pos'" and "i \<le> n" and "I i s"
    and "\<And>j s p s' p'. i \<le> j \<Longrightarrow> j < n \<Longrightarrow> I j s \<Longrightarrow> sat (f s j) adv p s' p' \<Longrightarrow> I (Suc j) s'"
  shows "I n r"
  using assms
proof (induction "n - i" arbitrary: i s pos)
  case 0
  then show ?case by simp
next
  case (Suc k)
  then have "i < n" by simp
  then have "[i..<n] = i # [Suc i..<n]" by (rule upt_conv_Cons)
  with Suc.prems(1) obtain s' p where step: "sat (f s i) adv pos s' p" "sat (circuit_fold f s' [Suc i..<n]) adv p r pos'" by auto
  show ?case
  proof (rule Suc.hyps(1) [OF _ step(2)])
    show "I (Suc i) s'" using Suc.prems(3,4) \<open>i < n\<close> step(1) by blast
    show "k = n - Suc i" "Suc i \<le> n" using Suc.hyps(2) \<open>i < n\<close> by simp_all
  qed (use Suc.prems(4) in simp)
qed

lemma sat_connects:
  "sat (circuit_fold (\<lambda>_ j. connect (f j) (g j)) () js) adv pos u pos' \<longleftrightarrow> (\<forall>j \<in> set js. tval (f j) = tval (g j)) \<and> pos' = pos"
  by (induction js arbitrary: pos) (auto simp: connect_def)

section \<open>The gadgets are sound\<close>

definition u32_is :: "'a::field target \<Rightarrow> nat \<Rightarrow> bool" where
  "u32_is t n \<longleftrightarrow> tval t = of_nat n \<and> n < 2 ^ 32"

lemma u32_is_consts [simp]: "u32_is zero_u32 0" "u32_is one_u32 1" "n < 2 ^ 32 \<Longrightarrow> u32_is (constant_u32 n) n"
  by (simp_all add: u32_is_def zero_u32_def one_u32_def constant_u32_def)

lemma u32_is_unique: "order_ok TYPE('a::field) \<Longrightarrow> u32_is (t :: 'a target) m \<Longrightarrow> u32_is t n \<Longrightarrow> m = n"
  unfolding u32_is_def by (rule of_nat_eqD) (auto simp: goldilocks_order_def)

lemma sat_find_slot [simp]:
  "sat (find_slot cfg) adv pos r pos' \<longleftrightarrow> r = ((\<lambda>k. adv (pos + k)), cf_slot cfg pos) \<and> pos' = pos + cf_num_wires cfg"
  by (auto simp: sat_def find_slot_def)

lemma sat_connect [simp]: "sat (connect x y) adv pos u pos' \<longleftrightarrow> tval x = tval y \<and> pos' = pos"
  by (simp add: connect_def)

lemma target_as_constant_Some: "target_as_constant t = Some c \<longleftrightarrow> t = Constant c"
  by (cases t) auto

lemma half_bounds:
  assumes "(a :: nat) < 2 ^ 32" and "b < 2 ^ 32" and "c < 2 ^ 32"
  shows "(a * b + c) mod 2 ^ 32 < 2 ^ 32" "(a * b + c) div 2 ^ 32 < 2 ^ 32"
  using mul_add_bound [OF assms] by (simp_all add: goldilocks_order_def)

lemma mul_add_u32_sound:
  fixes x y z :: "'a::field target"
  assumes "order_ok TYPE('a)" and "canon_ok cfg" and "u32_is x a" and "u32_is y b" and "u32_is z c"
    and "sat (mul_add_u32 cfg x y z) adv pos (lo, hi) pos'"
  shows "u32_is lo ((a * b + c) mod 2 ^ 32)" "u32_is hi ((a * b + c) div 2 ^ 32)"
proof -
  have ins: "tval x = of_nat a" "tval y = of_nat b" "tval z = of_nat c" and small: "a < 2 ^ 32" "b < 2 ^ 32" "c < 2 ^ 32"
    using assms(3-5) by (simp_all add: u32_is_def)
  note bounds = half_bounds [OF small]
  have "tval lo = of_nat ((a * b + c) mod 2 ^ 32) \<and> tval hi = of_nat ((a * b + c) div 2 ^ 32)"
  proof (cases "arithmetic_u32_special_cases cfg x y z")
    case None
    with assms(6) obtain w i where w: "\<forall>c \<in> set (arithmetic_one (cf_num_ops cfg) w i). c = 0"
      "w (wire_ith_multiplicand_0 i) = of_nat a" "w (wire_ith_multiplicand_1 i) = of_nat b" "w (wire_ith_addend i) = of_nat c"
      "lo = Wire (w (wire_ith_output_low_half i))" "hi = Wire (w (wire_ith_output_high_half i))"
      by (auto simp: mul_add_u32_def ins)
    from arithmetic_one_sound [OF assms(1) w(1-4) small] show ?thesis by (simp add: w(5,6))
  next
    case (Some r)
    with assms(6) have r: "r = (lo, hi)" by (simp add: mul_add_u32_def)
    have "cf_canon cfg (of_nat (a * b + c)) = a * b + c"
      using assms(2) mul_add_bound [OF small] unfolding canon_ok_def by blast
    with Some ins have "lo = constant_u32 ((a * b + c) mod 2 ^ 32)"
      "hi = constant_u32 ((a * b + c) div 2 ^ 32 mod 2 ^ 32)"
      unfolding r by (auto simp: arithmetic_u32_special_cases_def target_as_constant_Some Let_def split: option.splits)
    then show ?thesis using bounds(2) by (simp add: constant_u32_def)
  qed
  with bounds show "u32_is lo ((a * b + c) mod 2 ^ 32)" "u32_is hi ((a * b + c) div 2 ^ 32)" by (simp_all add: u32_is_def)
qed

lemma add_u32_sound:
  fixes a b :: "'a::field target"
  assumes "order_ok TYPE('a)" and "canon_ok cfg" and "u32_is a m" and "u32_is b n"
    and "sat (add_u32 cfg a b) adv pos (lo, hi) pos'"
  shows "u32_is lo ((m + n) mod 2 ^ 32)" "u32_is hi ((m + n) div 2 ^ 32)"
  using mul_add_u32_sound [OF assms(1,2,3) u32_is_consts(2) assms(4) assms(5) [unfolded add_u32_def]] by simp_all

lemma mul_u32_sound:
  fixes a b :: "'a::field target"
  assumes "order_ok TYPE('a)" and "canon_ok cfg" and "u32_is a m" and "u32_is b n"
    and "sat (mul_u32 cfg a b) adv pos (lo, hi) pos'"
  shows "u32_is lo ((m * n) mod 2 ^ 32)" "u32_is hi ((m * n) div 2 ^ 32)"
  using mul_add_u32_sound [OF assms(1,2,3,4) u32_is_consts(1) assms(5) [unfolded mul_u32_def]] by simp_all

definition u32s_are :: "'a::field target list \<Rightarrow> nat list \<Rightarrow> bool" where
  "u32s_are ts ds \<longleftrightarrow> list_all2 u32_is ts ds"

lemma u32s_are_length: "u32s_are ts ds \<Longrightarrow> length ts = length ds"
  by (simp add: u32s_are_def list_all2_lengthD)

lemma u32s_are_nth: "u32s_are ts ds \<Longrightarrow> i < length ts \<Longrightarrow> u32_is (ts ! i) (ds ! i)"
  by (simp add: u32s_are_def list_all2_nthD)

lemma add_many_call_sound:
  fixes ts :: "'a::field target list"
  assumes "order_ok TYPE('a)" and "u32s_are ts ds" and "u32_is carry c" and "sum_list ds + c < goldilocks_order"
    and "sat (add_many_call cfg ts carry) adv pos (lo, hi) pos'"
  shows "u32_is lo ((sum_list ds + c) mod 2 ^ 32)" "u32_is hi ((sum_list ds + c) div 2 ^ 32)"
proof -
  define gate where "gate = am_new_from_config (cf_num_wires cfg) (cf_num_routed_wires cfg) (length ts)"
  have gate: "am_num_addends gate = length ts" by (simp add: gate_def am_new_from_config_def Let_def)
  from assms(5) obtain w i where w: "\<forall>c \<in> set (am_one gate w i). c = 0"
    "\<forall>j < length ts. w (wire_ith_op_jth_addend gate i j) = tval (ts ! j)" "w (wire_ith_carry gate i) = tval carry"
    "lo = Wire (w (am_wire_output_result gate i))" "hi = Wire (w (am_wire_output_carry gate i))"
    by (auto simp: add_many_call_def gate_def Let_def sat_connects)
  have "am_addends gate w i = map of_nat ds"
    using w(2) u32s_are_nth [OF assms(2)] u32s_are_length [OF assms(2)]
    by (auto simp: am_addends_def gate u32_is_def intro!: nth_equalityI)
  moreover have "w (wire_ith_carry gate i) = of_nat c" using w(3) assms(3) by (simp add: u32_is_def)
  ultimately have "w (am_wire_output_result gate i) = of_nat ((sum_list ds + c) mod 2 ^ 32)
      \<and> w (am_wire_output_carry gate i) = of_nat ((sum_list ds + c) div 2 ^ 32)"
    by (intro am_one_sound [OF assms(1) w(1)] assms(4))
  moreover have "(sum_list ds + c) div 2 ^ 32 < 2 ^ 32" using assms(4) by (simp add: goldilocks_order_def)
  ultimately show "u32_is lo ((sum_list ds + c) mod 2 ^ 32)" "u32_is hi ((sum_list ds + c) div 2 ^ 32)"
    by (simp_all add: u32_is_def w(4,5))
qed

lemma add_u32s_with_carry_sound:
  fixes ts :: "'a::field target list"
  assumes "order_ok TYPE('a)" and "canon_ok cfg" and "u32s_are ts ds" and "u32_is carry c"
    and "sum_list ds + c < goldilocks_order" and "sat (add_u32s_with_carry cfg ts carry) adv pos (lo, hi) pos'"
  shows "u32_is lo ((sum_list ds + c) mod 2 ^ 32)" "u32_is hi ((sum_list ds + c) div 2 ^ 32)"
proof -
  have "u32_is lo ((sum_list ds + c) mod 2 ^ 32) \<and> u32_is hi ((sum_list ds + c) div 2 ^ 32)"
  proof (cases "length ts = 1")
    case True
    then have "length ds = 1" using u32s_are_length [OF assms(3)] by simp
    then obtain d where d: "ds = [d]" by (auto simp: length_Suc_conv)
    have "u32_is (ts ! 0) d" using u32s_are_nth [OF assms(3), of 0] True d by simp
    with add_u32_sound [OF assms(1,2) this assms(4)] assms(6) True show ?thesis by (simp add: add_u32s_with_carry_def d)
  next
    case False
    with add_many_call_sound [OF assms(1,3,4,5)] assms(6) show ?thesis by (simp add: add_u32s_with_carry_def)
  qed
  then show "u32_is lo ((sum_list ds + c) mod 2 ^ 32)" "u32_is hi ((sum_list ds + c) div 2 ^ 32)" by simp_all
qed

lemma sub_u32_sound:
  fixes x y :: "'a::field target"
  assumes "order_ok TYPE('a)" and "u32_is x a" and "u32_is y b" and "u32_is borrow c" and "c \<le> 1"
    and "sat (sub_u32 cfg x y borrow) adv pos (r, br) pos'"
  shows "u32_is r ((2 ^ 32 + a - b - c) mod 2 ^ 32)" "u32_is br (of_bool (a < b + c))"
proof -
  from assms(6) obtain w i where w: "\<forall>c \<in> set (subtraction_one (cf_num_ops cfg) w i). c = 0"
    "w (wire_ith_input_x i) = tval x" "w (wire_ith_input_y i) = tval y" "w (wire_ith_input_borrow i) = tval borrow"
    "r = Wire (w (wire_ith_output_result i))" "br = Wire (w (wire_ith_output_borrow i))"
    by (auto simp: sub_u32_def)
  have small: "a < 2 ^ 32" "b < 2 ^ 32" using assms(2,3) by (simp_all add: u32_is_def)
  show "u32_is r ((2 ^ 32 + a - b - c) mod 2 ^ 32)" "u32_is br (of_bool (a < b + c))"
    using subtraction_one_sound [OF assms(1) w(1), of a b c] w assms(2-5) small by (auto simp: u32_is_def)
qed

lemma range_check_sound:
  fixes ts :: "'a::field target list"
  assumes "sat (range_check_u32_circuit cfg ts) adv pos u pos'"
  shows "\<exists>ds. u32s_are ts ds"
proof -
  from assms obtain w where w: "\<forall>c \<in> set (rc_eval (length ts) w). c = 0" "\<forall>i < length ts. w (rc_wire_input_limb i) = tval (ts ! i)"
    by (auto simp: range_check_u32_circuit_def Let_def sat_connects)
  have "\<forall>i. \<exists>d. i < length ts \<longrightarrow> u32_is (ts ! i) d"
    using rc_sound [OF w(1)] w(2) by (fastforce simp: u32_is_def)
  then obtain d where "\<forall>i < length ts. u32_is (ts ! i) (d i)" by metis
  then have "u32s_are ts (map d [0..<length ts])" by (simp add: u32s_are_def list_all2_conv_all_nth)
  then show ?thesis ..
qed

definition u32_gate :: comparison_gate where
  "u32_gate = \<lparr>cg_num_bits = 32, cg_num_chunks = 16\<rparr>"

lemma u32_gate_facts: "chunk_bits u32_gate = 2" "cg_num_chunks u32_gate = 16" "gate_fits u32_gate"
  by (simp_all add: u32_gate_def chunk_bits_def ceil_div_usize_def gate_fits_def goldilocks_order_def)

lemma compare_call_sound:
  fixes a b :: "'a::field target"
  assumes "order_ok TYPE('a)" and "u32_is a m" and "u32_is b n" and "sat (compare_call u32_gate a b) adv pos r pos'"
  shows "tval r = of_bool (m \<le> n)"
proof -
  from assms(4) obtain w where w: "\<forall>c \<in> set (comparison_eval u32_gate w). c = 0"
    "w wire_first_input = tval a" "w wire_second_input = tval b" "r = Wire (w wire_result_bool)"
    by (auto simp: compare_call_def)
  from comparison_sound [OF assms(1) u32_gate_facts(3) w(1)] obtain m' n' where
    r: "m' < 2 ^ 32" "n' < 2 ^ 32" "tval a = of_nat m'" "tval b = of_nat n'" "w wire_result_bool = of_bool (m' \<le> n')"
    unfolding w(2,3) u32_gate_facts(1,2) by auto
  then have "m' = m" "n' = n" using u32_is_unique [OF assms(1)] assms(2,3) by (metis u32_is_def)+
  with r(5) w(4) show ?thesis by simp
qed

lemma list_le_u32_sound:
  fixes as bs :: "'a::field target list"
  assumes "order_ok TYPE('a)" and "u32s_are as ms" and "u32s_are bs ns" and "sat (list_le_u32_circuit as bs) adv pos r pos'"
  shows "tval r = of_bool (of_limbs (2 ^ 32) ms \<le> of_limbs (2 ^ 32) ns)" and "length as = length bs"
proof -
  have gate: "\<lparr>cg_num_bits = 32, cg_num_chunks = ceil_div_usize 32 2\<rparr> = u32_gate"
    by (simp add: u32_gate_def ceil_div_usize_def)
  let ?step = "\<lambda>result i. circuit_bind (compare_call u32_gate (as ! i) (bs ! i)) (\<lambda>a_le_b_result.
          circuit_bind (compare_call u32_gate (bs ! i) (as ! i)) (\<lambda>b_le_a_result.
          circuit_return (Wire (tval a_le_b_result * tval b_le_a_result * tval result + (1 - tval b_le_a_result)))))"
  from assms(4) obtain p where fold: "sat (circuit_fold ?step (Constant 1) [0..<length as]) adv p r pos'" and len: "length as = length bs"
    unfolding list_le_u32_circuit_def list_le_circuit_def Let_def gate by auto
  have mlen: "length ms = length as" "length ns = length as"
    using u32s_are_length [OF assms(2)] u32s_are_length [OF assms(3)] len by simp_all
  let ?I = "\<lambda>i result. tval result = (of_bool (of_limbs (2 ^ 32) (take i ms) \<le> of_limbs (2 ^ 32) (take i ns)) :: 'a)"
  have "?I (length as) r"
  proof (rule circuit_fold_invariant [where I = ?I, OF fold])
    fix i s q s' q' assume i: "i < length as" and I: "?I i s" and step: "sat (?step s i) adv q s' q'"
    let ?m = "ms ! i" let ?n = "ns ! i"
    have u: "u32_is (as ! i) ?m" "u32_is (bs ! i) ?n" using i len u32s_are_nth assms(2,3) by metis+
    from step obtain r1 r2 p1 p2 p3 where "sat (compare_call u32_gate (as ! i) (bs ! i)) adv p1 r1 p2"
      "sat (compare_call u32_gate (bs ! i) (as ! i)) adv p2 r2 p3"
      and s': "s' = Wire (tval r1 * tval r2 * tval s + (1 - tval r2))" by auto
    then have cmp: "tval r1 = of_bool (?m \<le> ?n)" "tval r2 = of_bool (?n \<le> ?m)"
      using compare_call_sound [OF assms(1)] u by blast+
    have take: "take (Suc i) ms = take i ms @ [?m]" "take (Suc i) ns = take i ns @ [?n]"
      using i mlen by (simp_all add: take_Suc_conv_app_nth)
    have digits: "\<forall>d \<in> set (take i ms). d < 2 ^ 32" "\<forall>d \<in> set (take i ns). d < 2 ^ 32"
      using assms(2,3) by (auto simp: u32s_are_def list_all2_conv_all_nth u32_is_def in_set_conv_nth)
    then have less: "of_limbs (2 ^ 32) (take i ms) < (2 ^ 32) ^ i" "of_limbs (2 ^ 32) (take i ns) < (2 ^ 32) ^ i"
      using of_limbs_less [of "take i ms" "2 ^ 32"] of_limbs_less [of "take i ns" "2 ^ 32"] i mlen by simp_all
    have lens: "length (take i ms) = i" "length (take i ns) = i" using i mlen by simp_all
    consider "?m = ?n" | "?m < ?n" | "?n < ?m" by linarith
    then show "?I (Suc i) s'"
    proof cases
      case 1
      with I cmp s' show ?thesis unfolding take of_limbs_snoc lens by simp
    next
      case 2
      with digit_dominates [OF 2 less(1), of "of_limbs (2 ^ 32) (take i ns)"] cmp s' show ?thesis
        unfolding take of_limbs_snoc lens by simp
    next
      case 3
      with digit_dominates [OF 3 less(2), of "of_limbs (2 ^ 32) (take i ms)"] cmp s' show ?thesis
        unfolding take of_limbs_snoc lens by simp
    qed
  qed simp_all
  then show "tval r = of_bool (of_limbs (2 ^ 32) ms \<le> of_limbs (2 ^ 32) ns)" using mlen by simp
  show "length as = length bs" by (rule len)
qed

end
