(* ===== verification/Big_Uint.thy ===== *)
theory Big_Uint
  imports U32_Gadgets
begin

text \<open>
  Circuits for big unsigned integers as lists of 32 bit limbs, least significant first
  (\<open>circuits/plonky2_ecdsa/src/gadgets/biguint.rs\<close>): addition, subtraction, multiplication, comparison and
  division with remainder. Every gadget is sound: whatever values the prover chooses, if the
  conditions hold the limbs of the result are 32 bit numbers and denote the right integer.
\<close>

section \<open>The gadgets\<close>

type_synonym 'a biguint_target = "'a target list"

text \<open>\<open>BigUint::to_u32_digits\<close>: the digits without leading zeros, none for zero.\<close>

fun to_u32_digits :: "nat \<Rightarrow> nat list" where
  "to_u32_digits n = (if n = 0 then [] else n mod 2 ^ 32 # to_u32_digits (n div 2 ^ 32))"

declare to_u32_digits.simps [simp del]

definition constant_biguint :: "nat \<Rightarrow> 'a::field biguint_target" where
  "constant_biguint v = map constant_u32 (to_u32_digits v)"

definition zero_biguint :: "'a::field biguint_target" where
  "zero_biguint = constant_biguint 0"

definition connect_biguint :: "'a::field biguint_target \<Rightarrow> 'a biguint_target \<Rightarrow> ('a, unit) circuit" where
  "connect_biguint lhs rhs =
     (let min_limbs = min (length lhs) (length rhs) in
      circuit_bind (circuit_fold (\<lambda>_ i. connect_u32 (lhs ! i) (rhs ! i)) () [0..<min_limbs]) (\<lambda>_.
      circuit_bind (circuit_fold (\<lambda>_ i. assert_zero_u32 (lhs ! i)) () [min_limbs..<length lhs]) (\<lambda>_.
      circuit_fold (\<lambda>_ i. assert_zero_u32 (rhs ! i)) () [min_limbs..<length rhs])))"

definition pad_biguints :: "'a::field biguint_target \<Rightarrow> 'a biguint_target \<Rightarrow> 'a biguint_target \<times> 'a biguint_target" where
  "pad_biguints a b =
     (if length b < length a then (a, b @ replicate (length a - length b) zero_u32)
      else (a @ replicate (length b - length a) zero_u32, b))"

definition cmp_biguint :: "'a::field biguint_target \<Rightarrow> 'a biguint_target \<Rightarrow> ('a, 'a target) circuit" where
  "cmp_biguint a b = (let (a, b) = pad_biguints a b in list_le_u32_circuit a b)"

definition add_virtual_biguint_target :: "nat \<Rightarrow> ('a, 'a biguint_target) circuit" where
  "add_virtual_biguint_target num_limbs = add_virtual_u32_targets num_limbs"

definition add_biguint :: "('a::field) config \<Rightarrow> 'a biguint_target \<Rightarrow> 'a biguint_target \<Rightarrow> ('a, 'a biguint_target) circuit" where
  "add_biguint cfg a b =
     (let num_limbs = max (length a) (length b) in
      circuit_bind (circuit_fold (\<lambda>(combined_limbs, carry) i.
        let a_limb = (if i < length a then a ! i else zero_u32);
            b_limb = (if i < length b then b ! i else zero_u32)
        in circuit_bind (add_many_u32 cfg [carry, a_limb, b_limb]) (\<lambda>(new_limb, new_carry).
           circuit_return (combined_limbs @ [new_limb], new_carry))) ([], zero_u32) [0..<num_limbs]) (\<lambda>(combined_limbs, carry).
      circuit_return (combined_limbs @ [carry])))"

definition sub_biguint :: "('a::field) config \<Rightarrow> 'a biguint_target \<Rightarrow> 'a biguint_target \<Rightarrow> ('a, 'a biguint_target) circuit" where
  "sub_biguint cfg a b =
     (let (a, b) = pad_biguints a b in
      circuit_bind (circuit_fold (\<lambda>(result_limbs, borrow) i.
        circuit_bind (sub_u32 cfg (a ! i) (b ! i) borrow) (\<lambda>(result, new_borrow).
        circuit_return (result_limbs @ [result], new_borrow))) ([], zero_u32) [0..<length a]) (\<lambda>(result_limbs, borrow).
      circuit_return result_limbs))"

text \<open>The products and carries that go to each limb; the pairs of indices in the order of the two loops.\<close>

definition mul_table :: "('a::field) config \<Rightarrow> 'a biguint_target \<Rightarrow> 'a biguint_target \<Rightarrow> ('a, 'a target list list) circuit" where
  "mul_table cfg a b =
     circuit_fold (\<lambda>to_add (i, j).
       circuit_bind (mul_u32 cfg (a ! i) (b ! j)) (\<lambda>(product, carry).
       let to_add = to_add[i + j := to_add ! (i + j) @ [product]]
       in circuit_return (to_add[i + j + 1 := to_add ! (i + j + 1) @ [carry]])))
     (replicate (length a + length b) []) (List.product [0..<length a] [0..<length b])"

definition mul_biguint :: "('a::field) config \<Rightarrow> 'a biguint_target \<Rightarrow> 'a biguint_target \<Rightarrow> ('a, 'a biguint_target) circuit" where
  "mul_biguint cfg a b =
     circuit_bind (mul_table cfg a b) (\<lambda>to_add.
     circuit_bind (circuit_fold (\<lambda>(combined_limbs, carry) k.
       circuit_bind (add_u32s_with_carry cfg (to_add ! k) carry) (\<lambda>(new_result, new_carry).
       circuit_return (combined_limbs @ [new_result], new_carry))) ([], zero_u32) [0..<length to_add]) (\<lambda>(combined_limbs, carry).
     circuit_return (combined_limbs @ [carry])))"

definition mul_biguint_by_bool :: "'a::field biguint_target \<Rightarrow> 'a target \<Rightarrow> 'a biguint_target" where
  "mul_biguint_by_bool a b = map (\<lambda>l. Wire (tval l * tval b)) a"

definition mul_add_biguint :: "('a::field) config \<Rightarrow> 'a biguint_target \<Rightarrow> 'a biguint_target \<Rightarrow> 'a biguint_target
    \<Rightarrow> ('a, 'a biguint_target) circuit" where
  "mul_add_biguint cfg x y z = circuit_bind (mul_biguint cfg x y) (\<lambda>prod. add_biguint cfg prod z)"

definition div_rem_biguint :: "('a::field) config \<Rightarrow> 'a biguint_target \<Rightarrow> 'a biguint_target
    \<Rightarrow> ('a, 'a biguint_target \<times> 'a biguint_target) circuit" where
  "div_rem_biguint cfg a b =
     (let a_len = length a; b_len = length b;
          div_num_limbs = (if a_len + 1 < b_len then 0 else a_len + 1 - b_len)
      in circuit_bind (add_virtual_biguint_target div_num_limbs) (\<lambda>quotient.
         circuit_bind (add_virtual_biguint_target b_len) (\<lambda>remainder.
         circuit_bind (range_check_u32_circuit cfg quotient) (\<lambda>_.
         circuit_bind (range_check_u32_circuit cfg remainder) (\<lambda>_.
         circuit_bind (mul_biguint cfg quotient b) (\<lambda>div_b.
         circuit_bind (add_biguint cfg div_b remainder) (\<lambda>div_b_plus_rem.
         circuit_bind (connect_biguint a div_b_plus_rem) (\<lambda>_.
         circuit_bind (cmp_biguint b remainder) (\<lambda>cmp_rem_b.
         circuit_bind (require (tval cmp_rem_b = 0)) (\<lambda>_.
           circuit_return (quotient, remainder)))))))))))"

definition div_biguint :: "('a::field) config \<Rightarrow> 'a biguint_target \<Rightarrow> 'a biguint_target \<Rightarrow> ('a, 'a biguint_target) circuit" where
  "div_biguint cfg a b = circuit_bind (div_rem_biguint cfg a b) (\<lambda>(quotient, _). circuit_return quotient)"

definition rem_biguint :: "('a::field) config \<Rightarrow> 'a biguint_target \<Rightarrow> 'a biguint_target \<Rightarrow> ('a, 'a biguint_target) circuit" where
  "rem_biguint cfg a b = circuit_bind (div_rem_biguint cfg a b) (\<lambda>(_, remainder). circuit_return remainder)"

section \<open>Witness values\<close>

definition get_biguint_target :: "('a \<Rightarrow> nat) \<Rightarrow> 'a biguint_target \<Rightarrow> nat" where
  "get_biguint_target canon t = foldl (\<lambda>acc limb. acc * 2 ^ 32 + canon (tval limb)) 0 (rev t)"

text \<open>The limbs that are written for a value, or a panic if it does not fit.\<close>

definition set_biguint_target :: "nat \<Rightarrow> nat \<Rightarrow> nat list option" where
  "set_biguint_target num_limbs v =
     (let limbs = to_u32_digits v
      in if length limbs \<le> num_limbs then Some (limbs @ replicate (num_limbs - length limbs) 0) else None)"

definition div_rem_generate :: "('a \<Rightarrow> nat) \<Rightarrow> 'a biguint_target \<Rightarrow> 'a biguint_target \<Rightarrow> nat \<times> nat" where
  "div_rem_generate canon a b =
     (let x = get_biguint_target canon a; y = get_biguint_target canon b in (x div y, x mod y))"

section \<open>Digits\<close>

abbreviation base32 :: nat where
  "base32 \<equiv> 2 ^ 32"

lemma of_limbs_append: "of_limbs B (xs @ ys) = of_limbs B xs + B ^ length xs * of_limbs B ys"
  by (induction xs) (simp_all add: algebra_simps)

lemma of_limbs_zeros [simp]: "of_limbs B (replicate n 0) = 0"
  by (induction n) simp_all

lemma of_limbs_update:
  "k < length xs \<Longrightarrow> of_limbs B (xs[k := xs ! k + v]) = of_limbs B xs + v * B ^ k"
proof (induction xs arbitrary: k)
  case (Cons x xs)
  then show ?case by (cases k) (simp_all add: algebra_simps)
qed simp

lemma to_u32_digits_value: "of_limbs base32 (to_u32_digits n) = n"
proof (induction n rule: to_u32_digits.induct)
  case (1 n)
  then show ?case by (subst to_u32_digits.simps) (simp add: mult.commute [of base32])
qed

lemma to_u32_digits_less: "d \<in> set (to_u32_digits n) \<Longrightarrow> d < base32"
proof (induction n rule: to_u32_digits.induct)
  case (1 n)
  then show ?case using to_u32_digits.simps [of n] by (auto split: if_splits)
qed

text \<open>The limbs are 32 bit numbers and denote \<open>n\<close>.\<close>

definition big_is :: "'a::field biguint_target \<Rightarrow> nat \<Rightarrow> bool" where
  "big_is t n \<longleftrightarrow> (\<exists>ds. u32s_are t ds \<and> n = of_limbs base32 ds)"

lemma u32s_are_less: "u32s_are t ds \<Longrightarrow> \<forall>d \<in> set ds. d < base32"
  by (auto simp: u32s_are_def list_all2_conv_all_nth u32_is_def in_set_conv_nth)

lemma big_is_less: "big_is t n \<Longrightarrow> n < base32 ^ length t"
  using of_limbs_less [OF u32s_are_less] u32s_are_length unfolding big_is_def by metis

lemma big_is_constant [simp]: "big_is (constant_biguint n) n"
proof -
  have "u32s_are (constant_biguint n) (to_u32_digits n)"
    using to_u32_digits_less [of _ n] by (auto simp: u32s_are_def constant_biguint_def list_all2_map1 list_all2_same)
  then show ?thesis unfolding big_is_def using to_u32_digits_value by metis
qed

lemma u32s_are_zeros: "u32s_are t ds \<Longrightarrow> u32s_are (t @ replicate k zero_u32) (ds @ replicate k 0)"
  unfolding u32s_are_def by (intro list_all2_appendI) (simp_all add: list_all2_conv_all_nth)

lemma pad_sound:
  assumes "u32s_are a ds" and "u32s_are b es" and "pad_biguints a b = (a', b')"
  shows "\<exists>ds' es'. u32s_are a' ds' \<and> u32s_are b' es' \<and> of_limbs base32 ds' = of_limbs base32 ds
    \<and> of_limbs base32 es' = of_limbs base32 es \<and> length a' = length b' \<and> length a' = max (length a) (length b)"
proof (cases "length b < length a")
  case True
  with assms have "a' = a" "b' = b @ replicate (length a - length b) zero_u32" by (auto simp: pad_biguints_def)
  with True u32s_are_zeros [OF assms(2)] assms(1) show ?thesis by (auto simp: of_limbs_append intro!: exI)
next
  case False
  with assms have "b' = b" "a' = a @ replicate (length b - length a) zero_u32" by (auto simp: pad_biguints_def)
  with False u32s_are_zeros [OF assms(1)] assms(2) show ?thesis by (auto simp: of_limbs_append intro!: exI)
qed

section \<open>Comparison and equality\<close>

lemma cmp_biguint_sound:
  fixes a b :: "'a::field biguint_target"
  assumes "order_ok TYPE('a)" and "big_is a m" and "big_is b n" and "sat (cmp_biguint a b) adv pos r pos'"
  shows "tval r = of_bool (m \<le> n)"
proof -
  obtain a' b' where pad: "pad_biguints a b = (a', b')" by (cases "pad_biguints a b")
  from assms(2,3) obtain ds es where ds: "u32s_are a ds" "m = of_limbs base32 ds" "u32s_are b es" "n = of_limbs base32 es"
    by (auto simp: big_is_def)
  from pad_sound [OF ds(1,3) pad] obtain ds' es' where "u32s_are a' ds'" "u32s_are b' es'"
    "of_limbs base32 ds' = m" "of_limbs base32 es' = n" using ds by metis
  with list_le_u32_sound(1) [OF assms(1), of a' ds' b' es'] assms(4) show ?thesis
    by (simp add: cmp_biguint_def pad)
qed

lemma sat_zeros:
  "sat (circuit_fold (\<lambda>_ j. assert_zero_u32 (f j)) () js) adv pos u pos' \<longleftrightarrow> (\<forall>j \<in> set js. tval (f j) = 0) \<and> pos' = pos"
  by (induction js arbitrary: pos) (auto simp: assert_zero_u32_def)

lemma u32_is_zero: "order_ok TYPE('a::field) \<Longrightarrow> u32_is (t :: 'a target) d \<Longrightarrow> tval t = 0 \<Longrightarrow> d = 0"
  using u32_is_unique [of t d 0] by (simp add: u32_is_def)

lemma zero_tail: "\<forall>i. k \<le> i \<and> i < length ds \<longrightarrow> ds ! i = 0 \<Longrightarrow> k \<le> length ds \<Longrightarrow> of_limbs B ds = of_limbs B (take k ds)"
proof -
  assume "\<forall>i. k \<le> i \<and> i < length ds \<longrightarrow> ds ! i = 0" "k \<le> length ds"
  then have "drop k ds = replicate (length ds - k) 0" by (intro nth_equalityI) simp_all
  then show ?thesis by (metis append_take_drop_id of_limbs_append of_limbs_zeros mult_0_right add_0_right)
qed

lemma connect_biguint_sound:
  fixes a b :: "'a::field biguint_target"
  assumes "order_ok TYPE('a)" and "big_is a m" and "big_is b n" and "sat (connect_biguint a b) adv pos u pos'"
  shows "m = n"
proof -
  from assms(2,3) obtain ds es where ds: "u32s_are a ds" "m = of_limbs base32 ds" "u32s_are b es" "n = of_limbs base32 es"
    by (auto simp: big_is_def)
  let ?k = "min (length a) (length b)"
  have len: "length ds = length a" "length es = length b" using u32s_are_length ds by metis+
  from assms(4) have same: "\<forall>i < ?k. tval (a ! i) = tval (b ! i)"
    and za: "\<forall>i. ?k \<le> i \<and> i < length a \<longrightarrow> tval (a ! i) = 0" and zb: "\<forall>i. ?k \<le> i \<and> i < length b \<longrightarrow> tval (b ! i) = 0"
    by (auto simp: connect_biguint_def Let_def connect_u32_def sat_connects sat_zeros)
  have "take ?k ds = take ?k es"
  proof (intro nth_equalityI)
    fix i assume "i < length (take ?k ds)"
    then have i: "i < ?k" "i < length a" "i < length b" using len by simp_all
    from u32s_are_nth [OF ds(1) i(2)] u32s_are_nth [OF ds(3) i(3)] same i(1)
    have "u32_is (a ! i) (ds ! i)" "u32_is (a ! i) (es ! i)" by (simp_all add: u32_is_def)
    then have "ds ! i = es ! i" by (rule u32_is_unique [OF assms(1)])
    with i(1) show "take ?k ds ! i = take ?k es ! i" by simp
  qed (use len in simp)
  moreover have "\<forall>i. ?k \<le> i \<and> i < length ds \<longrightarrow> ds ! i = 0" "\<forall>i. ?k \<le> i \<and> i < length es \<longrightarrow> es ! i = 0"
    using za zb u32s_are_nth [OF ds(1)] u32s_are_nth [OF ds(3)] u32_is_zero [OF assms(1)] unfolding len by blast+
  then have "of_limbs base32 ds = of_limbs base32 (take ?k ds)" "of_limbs base32 es = of_limbs base32 (take ?k es)"
    using len by (simp_all add: zero_tail)
  ultimately show ?thesis using ds by simp
qed

section \<open>Addition\<close>

lemma carry_step:
  assumes "of_limbs B ds + c * B ^ length ds = t"
  shows "of_limbs B (ds @ [(x + c) mod B]) + (x + c) div B * B ^ Suc (length ds) = t + x * B ^ length ds"
proof -
  define q where "q = (x + c) div B"
  define r where "r = (x + c) mod B"
  have "x + c = r + B * q" by (simp add: q_def r_def)
  then have "t + x * B ^ length ds = of_limbs B ds + (r + B * q) * B ^ length ds"
    using assms(1) by (metis add.assoc add.commute distrib_right)
  then show ?thesis unfolding q_def [symmetric] r_def [symmetric] by (simp add: of_limbs_snoc algebra_simps)
qed

text \<open>The state of a loop that combines limbs with a carry, after \<open>k\<close> limbs with total \<open>t\<close>.\<close>

definition carry_state :: "nat \<Rightarrow> nat \<Rightarrow> 'a::field target list \<times> 'a target \<Rightarrow> bool" where
  "carry_state k t s \<longleftrightarrow> (\<exists>ds c. u32s_are (fst s) ds \<and> length ds = k \<and> u32_is (snd s) c
     \<and> of_limbs base32 ds + c * base32 ^ k = t)"

lemma carry_state_start: "carry_state 0 0 ([], zero_u32)"
  by (auto simp: carry_state_def u32s_are_def)

lemma carry_state_end: "carry_state k t (ls, c) \<Longrightarrow> big_is (ls @ [c]) t \<and> length (ls @ [c]) = k + 1"
  unfolding carry_state_def big_is_def u32s_are_def
  by (auto simp: of_limbs_snoc list_all2_lengthD intro!: exI list_all2_appendI)

lemma carry_state_step:
  assumes "carry_state k t (ls, carry)"
    and "\<And>c. u32_is carry c \<Longrightarrow> u32_is lo ((x + c) mod base32) \<and> u32_is hi ((x + c) div base32)"
  shows "carry_state (Suc k) (t + x * base32 ^ k) (ls @ [lo], hi)"
proof -
  from assms(1) obtain ds c where s: "u32s_are ls ds" "length ds = k" "u32_is carry c" "of_limbs base32 ds + c * base32 ^ k = t"
    by (auto simp: carry_state_def)
  from assms(2) [OF s(3)] s(1) have "u32s_are (ls @ [lo]) (ds @ [(x + c) mod base32])" "u32_is hi ((x + c) div base32)"
    by (simp_all add: u32s_are_def list_all2_appendI)
  moreover have "of_limbs base32 (ds @ [(x + c) mod base32]) + (x + c) div base32 * base32 ^ Suc k = t + x * base32 ^ k"
    using carry_step [of base32 ds c t x] s(2,4) by simp
  ultimately show ?thesis using s(2) unfolding carry_state_def by (intro exI conjI) simp_all
qed

definition digit :: "nat list \<Rightarrow> nat \<Rightarrow> nat" where
  "digit ds i = (if i < length ds then ds ! i else 0)"

lemma of_limbs_take_digit: "of_limbs B (take (Suc i) ds) = of_limbs B (take i ds) + digit ds i * B ^ i"
  by (cases "i < length ds") (simp_all add: take_Suc_conv_app_nth of_limbs_snoc digit_def)

lemma add_biguint_sound:
  fixes a b :: "'a::field biguint_target"
  assumes "order_ok TYPE('a)" and "big_is a m" and "big_is b n" and "sat (add_biguint cfg a b) adv pos r pos'"
  shows "big_is r (m + n)" and "length r = max (length a) (length b) + 1"
proof -
  from assms(2,3) obtain ds es where ds: "u32s_are a ds" "m = of_limbs base32 ds" "u32s_are b es" "n = of_limbs base32 es"
    by (auto simp: big_is_def)
  have len: "length ds = length a" "length es = length b" using u32s_are_length ds by metis+
  let ?n = "max (length a) (length b)"
  let ?I = "\<lambda>k s. carry_state k (of_limbs base32 (take k ds) + of_limbs base32 (take k es)) s"
  from assms(4) obtain s p where fold: "sat (circuit_fold (\<lambda>(ls, carry) i.
        let a_limb = (if i < length a then a ! i else zero_u32); b_limb = (if i < length b then b ! i else zero_u32)
        in circuit_bind (add_many_u32 cfg [carry, a_limb, b_limb]) (\<lambda>(new_limb, new_carry).
           circuit_return (ls @ [new_limb], new_carry))) ([], zero_u32) [0..<?n]) adv pos s p" and r: "r = fst s @ [snd s]"
    by (auto simp: add_biguint_def Let_def)
  have "?I ?n s"
  proof (rule circuit_fold_invariant [where I = ?I, OF fold], goal_cases)
    case (3 i st q st' q')
    obtain ls carry where st: "st = (ls, carry)" by (cases st)
    let ?a = "if i < length a then a ! i else zero_u32" let ?b = "if i < length b then b ! i else zero_u32"
    from 3(4) obtain lo hi q'' where call: "sat (add_many_call cfg [carry, ?a, ?b] zero_u32) adv q (lo, hi) q''" "st' = (ls @ [lo], hi)"
      unfolding st by (auto simp: Let_def add_many_u32_def)
    have u: "u32_is ?a (digit ds i)" "u32_is ?b (digit es i)"
      using u32s_are_nth [OF ds(1)] u32s_are_nth [OF ds(3)] len by (auto simp: digit_def)
    have "u32_is lo ((digit ds i + digit es i + c) mod base32) \<and> u32_is hi ((digit ds i + digit es i + c) div base32)"
      if c: "u32_is carry c" for c
    proof -
      have list: "u32s_are [carry, ?a, ?b] [c, digit ds i, digit es i]" using u c by (simp add: u32s_are_def)
      have "sum_list [c, digit ds i, digit es i] + 0 < goldilocks_order"
        using u c by (simp add: u32_is_def goldilocks_order_def)
      from add_many_call_sound [OF assms(1) list u32_is_consts(1) this call(1)] show ?thesis by (simp add: ac_simps)
    qed
    from carry_state_step [OF 3(3) [unfolded st] this] show ?case
      by (simp add: call(2) of_limbs_take_digit algebra_simps)
  qed (simp_all add: carry_state_start)
  then have state: "carry_state ?n (m + n) (fst s, snd s)" using ds len by simp
  from carry_state_end [OF this] show "big_is r (m + n)" "length r = ?n + 1" unfolding r by simp_all
qed

section \<open>Subtraction\<close>

lemma borrow_digit:
  assumes "(a :: nat) < base32" and "b < base32" and "c \<le> 1"
  shows "(2 ^ 32 + a - b - c) mod 2 ^ 32 + b + c = a + of_bool (a < b + c) * base32"
proof (cases "a < b + c")
  case True
  then have "2 ^ 32 + a - b - c < 2 ^ 32" "b + c \<le> 2 ^ 32 + a" using assms by linarith+
  with True show ?thesis by simp
next
  case False
  define x where "x = a - b - c"
  with False have "2 ^ 32 + a - b - c = 2 ^ 32 + x" "x < 2 ^ 32" "a = x + b + c" using assms by linarith+
  with False show ?thesis by simp
qed

definition borrow_state :: "nat \<Rightarrow> nat \<Rightarrow> nat \<Rightarrow> 'a::field target list \<times> 'a target \<Rightarrow> bool" where
  "borrow_state k x y s \<longleftrightarrow> (\<exists>rs c. u32s_are (fst s) rs \<and> length rs = k \<and> u32_is (snd s) c \<and> c \<le> 1
     \<and> of_limbs base32 rs + y = x + c * base32 ^ k)"

lemma borrow_state_step:
  assumes "borrow_state k x y (ls, borrow)" and "a < base32" and "b < base32"
    and "\<And>c. u32_is borrow c \<Longrightarrow> c \<le> 1 \<Longrightarrow> u32_is r ((2 ^ 32 + a - b - c) mod 2 ^ 32) \<and> u32_is br (of_bool (a < b + c))"
  shows "borrow_state (Suc k) (x + a * base32 ^ k) (y + b * base32 ^ k) (ls @ [r], br)"
proof -
  from assms(1) obtain rs c where s: "u32s_are ls rs" "length rs = k" "u32_is borrow c" "c \<le> 1" "of_limbs base32 rs + y = x + c * base32 ^ k"
    by (auto simp: borrow_state_def)
  define d where "d = (2 ^ 32 + a - b - c) mod 2 ^ 32"
  define o' where "o' = (of_bool (a < b + c) :: nat)"
  have digit: "d + b + c = a + o' * base32" unfolding d_def o'_def by (rule borrow_digit [OF assms(2,3) s(4)])
  have "of_limbs base32 (rs @ [d]) + (y + b * base32 ^ k) = (of_limbs base32 rs + y) + (d + b) * base32 ^ k"
    using s(2) by (simp add: of_limbs_snoc algebra_simps)
  also have "\<dots> = x + (d + b + c) * base32 ^ k" unfolding s(5) by (simp add: algebra_simps)
  also have "\<dots> = (x + a * base32 ^ k) + o' * base32 ^ Suc k" unfolding digit by (simp add: algebra_simps)
  finally have total: "of_limbs base32 (rs @ [d]) + (y + b * base32 ^ k) = (x + a * base32 ^ k) + o' * base32 ^ Suc k" .
  have "u32_is r d" "u32_is br o'" using assms(4) [OF s(3,4)] by (simp_all only: d_def o'_def)
  moreover from this(1) s(1) have "u32s_are (ls @ [r]) (rs @ [d])" by (simp add: u32s_are_def list_all2_appendI)
  moreover have "o' \<le> 1" by (simp add: o'_def)
  ultimately show ?thesis using s(2) total unfolding borrow_state_def
    by (intro exI [of _ "rs @ [d]"] exI [of _ o']) simp
qed

lemma sub_biguint_sound:
  fixes a b :: "'a::field biguint_target"
  assumes "order_ok TYPE('a)" and "big_is a m" and "big_is b n" and "sat (sub_biguint cfg a b) adv pos r pos'"
  shows "\<exists>x c. big_is r x \<and> c \<le> 1 \<and> x + n = m + c * base32 ^ max (length a) (length b)"
    and "length r = max (length a) (length b)"
proof -
  obtain a' b' where pad: "pad_biguints a b = (a', b')" by (cases "pad_biguints a b")
  from assms(2,3) obtain ds0 es0 where ds0: "u32s_are a ds0" "m = of_limbs base32 ds0" "u32s_are b es0" "n = of_limbs base32 es0"
    by (auto simp: big_is_def)
  from pad_sound [OF ds0(1,3) pad] obtain ds es where ds: "u32s_are a' ds" "u32s_are b' es"
    "of_limbs base32 ds = m" "of_limbs base32 es = n" "length a' = length b'" "length a' = max (length a) (length b)" using ds0 by metis
  have len: "length ds = length a'" "length es = length a'" using u32s_are_length ds by metis+
  from assms(4) obtain s p where fold: "sat (circuit_fold (\<lambda>(ls, borrow) i. circuit_bind (sub_u32 cfg (a' ! i) (b' ! i) borrow) (\<lambda>(res, br).
        circuit_return (ls @ [res], br))) ([], zero_u32) [0..<length a']) adv pos s p" and r: "r = fst s"
    by (auto simp: sub_biguint_def pad)
  let ?I = "\<lambda>k s. borrow_state k (of_limbs base32 (take k ds)) (of_limbs base32 (take k es)) s"
  have "?I (length a') s"
  proof (rule circuit_fold_invariant [where I = ?I, OF fold], goal_cases)
    case (3 i st q st' q')
    obtain ls borrow where st: "st = (ls, borrow)" by (cases st)
    from 3(4) obtain res br q'' where call: "sat (sub_u32 cfg (a' ! i) (b' ! i) borrow) adv q (res, br) q''" "st' = (ls @ [res], br)"
      unfolding st by auto
    have u: "u32_is (a' ! i) (ds ! i)" "u32_is (b' ! i) (es ! i)"
      using u32s_are_nth [OF ds(1)] u32s_are_nth [OF ds(2)] 3(2) ds(5) by simp_all
    then have small: "ds ! i < base32" "es ! i < base32" by (simp_all add: u32_is_def)
    have "u32_is res ((2 ^ 32 + ds ! i - es ! i - c) mod 2 ^ 32) \<and> u32_is br (of_bool (ds ! i < es ! i + c))"
      if "u32_is borrow c" "c \<le> 1" for c using sub_u32_sound [OF assms(1) u that call(1)] by simp
    from borrow_state_step [OF 3(3) [unfolded st] small this] show ?case
      using 3(2) len by (simp add: call(2) of_limbs_take_digit digit_def)
  qed (auto simp: borrow_state_def u32s_are_def)
  then have state: "borrow_state (length a') m n s" using ds len by simp
  then show "\<exists>x c. big_is r x \<and> c \<le> 1 \<and> x + n = m + c * base32 ^ max (length a) (length b)"
    unfolding borrow_state_def big_is_def r ds(6) by blast
  show "length r = max (length a) (length b)"
    using state u32s_are_length ds(6) unfolding borrow_state_def r by metis
qed

section \<open>Multiplication\<close>

lemma circuit_fold_list_invariant:
  assumes "sat (circuit_fold f s xs) adv pos r pos'" and "I [] s"
    and "\<And>ys x zs s p s' p'. xs = ys @ x # zs \<Longrightarrow> I ys s \<Longrightarrow> sat (f s x) adv p s' p' \<Longrightarrow> I (ys @ [x]) s'"
  shows "I xs r"
proof -
  have "sat (circuit_fold f s zs) adv pos r pos' \<Longrightarrow> xs = ys @ zs \<Longrightarrow> I ys s \<Longrightarrow> I xs r" for ys zs s pos
  proof (induction zs arbitrary: ys s pos)
    case (Cons z zs)
    from Cons.prems(1) obtain s' p where step: "sat (f s z) adv pos s' p" "sat (circuit_fold f s' zs) adv p r pos'" by auto
    from assms(3) [OF Cons.prems(2,3) step(1)] have "I (ys @ [z]) s'" .
    then show ?case using Cons.IH [OF step(2), of "ys @ [z]"] Cons.prems(2) by simp
  qed simp
  then show ?thesis using assms(1,2) by (metis append_Nil)
qed

definition partial_product :: "nat list \<Rightarrow> nat list \<Rightarrow> (nat \<times> nat) list \<Rightarrow> nat" where
  "partial_product ds es ps = sum_list (map (\<lambda>(i, j). ds ! i * es ! j * base32 ^ (i + j)) ps)"

lemma of_limbs_sum: "of_limbs B ds = sum_list (map (\<lambda>i. ds ! i * B ^ i) [0..<length ds])"
proof (induction ds rule: rev_induct)
  case (snoc d ds)
  have "map (\<lambda>i. (ds @ [d]) ! i * B ^ i) [0..<length ds] = map (\<lambda>i. ds ! i * B ^ i) [0..<length ds]"
    by (simp add: nth_append)
  then have "sum_list (map (\<lambda>i. (ds @ [d]) ! i * B ^ i) [0..<length ds]) = of_limbs B ds" using snoc by (simp only:)
  then show ?case by (simp add: of_limbs_snoc)
qed simp

lemma sum_list_product:
  "sum_list (map (\<lambda>(i, j). f i * g j) (List.product xs ys)) = sum_list (map f xs) * (sum_list (map g ys) :: nat)"
proof (induction xs)
  case (Cons x xs)
  have "sum_list (map ((\<lambda>(i, j). f i * g j) \<circ> Pair x) ys) = f x * sum_list (map g ys)"
    by (simp add: comp_def sum_list_const_mult)
  with Cons show ?case by (simp add: algebra_simps)
qed simp

lemma partial_product_all:
  "partial_product ds es (List.product [0..<length ds] [0..<length es]) = of_limbs base32 ds * of_limbs base32 es"
proof -
  have "(\<lambda>(i, j). ds ! i * es ! j * base32 ^ (i + j)) = (\<lambda>(i, j). (ds ! i * base32 ^ i) * (es ! j * base32 ^ j))"
    by (simp add: fun_eq_iff power_add algebra_simps)
  then show ?thesis unfolding partial_product_def of_limbs_sum [of base32 ds] of_limbs_sum [of base32 es]
    by (simp only: sum_list_product)
qed

definition table_is :: "nat \<Rightarrow> nat \<Rightarrow> nat \<Rightarrow> 'a::field target list list \<Rightarrow> bool" where
  "table_is n count t tss \<longleftrightarrow> (\<exists>dss. list_all2 u32s_are tss dss \<and> length dss = n \<and> (\<forall>k < n. length (dss ! k) \<le> 2 * count)
     \<and> of_limbs base32 (map sum_list dss) = t)"

lemma push_digit:
  assumes "list_all2 u32s_are tss dss" and "k < length dss" and "u32_is x d"
  shows "list_all2 u32s_are (tss[k := tss ! k @ [x]]) (dss[k := dss ! k @ [d]])"
    and "of_limbs base32 (map sum_list (dss[k := dss ! k @ [d]])) = of_limbs base32 (map sum_list dss) + d * base32 ^ k"
proof -
  have "u32s_are (tss ! k @ [x]) (dss ! k @ [d])"
    using assms by (simp add: u32s_are_def list_all2_appendI list_all2_conv_all_nth [where P = u32s_are])
  then show "list_all2 u32s_are (tss[k := tss ! k @ [x]]) (dss[k := dss ! k @ [d]])"
    using assms(1) by (simp add: list_all2_update_cong)
  have "map sum_list (dss[k := dss ! k @ [d]]) = (map sum_list dss)[k := map sum_list dss ! k + d]"
    using assms(2) by (simp add: map_update)
  then show "of_limbs base32 (map sum_list (dss[k := dss ! k @ [d]])) = of_limbs base32 (map sum_list dss) + d * base32 ^ k"
    using of_limbs_update [of k "map sum_list dss" base32 d] assms(2) by simp
qed

lemma two_digits: "t + r * B ^ k + q * B ^ (k + 1) = t + (r + B * q) * (B :: nat) ^ k"
  by (simp add: algebra_simps)

lemma mul_table_sound:
  fixes a b :: "'a::field biguint_target"
  assumes "order_ok TYPE('a)" and "canon_ok cfg" and "u32s_are a ds" and "u32s_are b es"
    and "sat (mul_table cfg a b) adv pos tss pos'"
  shows "table_is (length a + length b) (length a * length b) (of_limbs base32 ds * of_limbs base32 es) tss"
proof -
  let ?n = "length a + length b"
  have len: "length ds = length a" "length es = length b" using u32s_are_length assms by metis+
  let ?ps = "List.product [0..<length a] [0..<length b]"
  let ?I = "\<lambda>ps tss. table_is ?n (length ps) (partial_product ds es ps) tss"
  have "?I ?ps tss"
  proof (rule circuit_fold_list_invariant [where I = ?I, OF assms(5) [unfolded mul_table_def]], goal_cases)
    case 1
    have "list_all2 u32s_are (replicate ?n []) (replicate ?n [])" by (simp add: list_all2_conv_all_nth u32s_are_def)
    then show ?case unfolding table_is_def partial_product_def
      by (intro exI [of _ "replicate ?n []"]) simp
  next
    case (2 ys x zs st q st' q')
    obtain i j where x: "x = (i, j)" by (cases x)
    have "x \<in> set ?ps" unfolding 2(1) by simp
    then have ij: "i < length a" "j < length b" by (simp_all add: x)
    let ?x = "ds ! i" let ?y = "es ! j"
    from 2(3) obtain lo hi q'' where call: "sat (mul_u32 cfg (a ! i) (b ! j)) adv q (lo, hi) q''" and
      st': "st' = (st[i + j := st ! (i + j) @ [lo]])[i + j + 1 := st[i + j := st ! (i + j) @ [lo]] ! (i + j + 1) @ [hi]]"
      unfolding x by (auto simp: Let_def)
    note parts = mul_u32_sound [OF assms(1,2) u32s_are_nth [OF assms(3) ij(1)] u32s_are_nth [OF assms(4) ij(2)] call]
    from 2(2) obtain dss where dss: "list_all2 u32s_are st dss" "length dss = ?n" "\<forall>k < ?n. length (dss ! k) \<le> 2 * length ys"
      "of_limbs base32 (map sum_list dss) = partial_product ds es ys" by (auto simp: table_is_def)
    let ?p = "?x * ?y"
    let ?dss1 = "dss[i + j := dss ! (i + j) @ [?p mod base32]]"
    let ?dss2 = "?dss1[i + j + 1 := ?dss1 ! (i + j + 1) @ [?p div base32]]"
    have k: "i + j < length dss" "i + j + 1 < length ?dss1" using ij dss(2) by simp_all
    note first = push_digit [OF dss(1) k(1) parts(1)]
    note second = push_digit [OF first(1) k(2) parts(2)]
    have "of_limbs base32 (map sum_list ?dss2)
      = partial_product ds es ys + (?p mod base32 + base32 * (?p div base32)) * base32 ^ (i + j)"
      unfolding second(2) first(2) dss(4) by (rule two_digits)
    then have "of_limbs base32 (map sum_list ?dss2) = partial_product ds es (ys @ [x])"
      by (simp add: partial_product_def x)
    moreover have "\<forall>k < ?n. length (?dss2 ! k) \<le> 2 * length (ys @ [x])"
    proof (intro allI impI)
      fix k assume "k < ?n"
      then have "length (dss ! k) \<le> 2 * length ys" "k < length dss" using dss(2,3) by simp_all
      then show "length (?dss2 ! k) \<le> 2 * length (ys @ [x])"
        by (cases "k = i + j"; cases "k = i + j + 1") simp_all
    qed
    ultimately show ?case using second(1) dss(2) unfolding table_is_def st'
      by (intro exI [of _ ?dss2]) simp
  qed
  then show ?thesis using partial_product_all [of ds es] len by simp
qed

lemma mul_biguint_sound:
  fixes a b :: "'a::field biguint_target"
  assumes "order_ok TYPE('a)" and "canon_ok cfg" and "big_is a m" and "big_is b n" and "length a * length b \<le> 2 ^ 30"
    and "sat (mul_biguint cfg a b) adv pos r pos'"
  shows "big_is r (m * n)" and "length r = length a + length b + 1"
proof -
  from assms(3,4) obtain ds es where ds: "u32s_are a ds" "m = of_limbs base32 ds" "u32s_are b es" "n = of_limbs base32 es"
    by (auto simp: big_is_def)
  from assms(6) obtain tss p s q where table: "sat (mul_table cfg a b) adv pos tss p" and
    fold: "sat (circuit_fold (\<lambda>(ls, carry) k. circuit_bind (add_u32s_with_carry cfg (tss ! k) carry) (\<lambda>(lo, hi).
      circuit_return (ls @ [lo], hi))) ([], zero_u32) [0..<length tss]) adv p s q" and r: "r = fst s @ [snd s]"
    by (auto simp: mul_biguint_def)
  from mul_table_sound [OF assms(1,2) ds(1,3) table] ds(2,4) obtain dss where dss: "list_all2 u32s_are tss dss"
    "length dss = length a + length b" "\<forall>k < length dss. length (dss ! k) \<le> 2 * (length a * length b)"
    "of_limbs base32 (map sum_list dss) = m * n" by (auto simp: table_is_def)
  have len: "length tss = length dss" using dss(1) by (rule list_all2_lengthD)
  let ?I = "\<lambda>k s. carry_state k (of_limbs base32 (take k (map sum_list dss))) s"
  have "?I (length tss) s"
  proof (rule circuit_fold_invariant [where I = ?I, OF fold], goal_cases)
    case (3 i st p st' p')
    obtain ls carry where st: "st = (ls, carry)" by (cases st)
    from 3(4) obtain lo hi p'' where call: "sat (add_u32s_with_carry cfg (tss ! i) carry) adv p (lo, hi) p''" "st' = (ls @ [lo], hi)"
      unfolding st by auto
    have i: "i < length dss" using 3(2) len by simp
    then have u: "u32s_are (tss ! i) (dss ! i)" using dss(1) 3(2) by (simp add: list_all2_nthD)
    have "\<forall>d \<in> set (dss ! i). d \<le> base32 - 1" using u32s_are_less [OF u] by fastforce
    then have "sum_list (dss ! i) \<le> length (dss ! i) * (base32 - 1)" by (rule sum_list_bound)
    also have "\<dots> \<le> 2 ^ 31 * (base32 - 1)" using dss(3) i assms(5) by (intro mult_right_mono) fastforce+
    finally have bound: "sum_list (dss ! i) \<le> 2 ^ 31 * (base32 - 1)" .
    have "u32_is lo ((sum_list (dss ! i) + c) mod base32) \<and> u32_is hi ((sum_list (dss ! i) + c) div base32)"
      if "u32_is carry c" for c
    proof -
      have "sum_list (dss ! i) + c < goldilocks_order"
        using bound that by (simp add: u32_is_def goldilocks_order_def)
      from add_u32s_with_carry_sound [OF assms(1,2) u that this call(1)] show ?thesis by simp
    qed
    from carry_state_step [OF 3(3) [unfolded st] this] show ?case
      using i by (simp add: call(2) of_limbs_take_digit digit_def)
  qed (simp_all add: carry_state_start)
  then have state: "carry_state (length tss) (m * n) (fst s, snd s)" using dss(4) len by simp
  from carry_state_end [OF this] show "big_is r (m * n)" "length r = length a + length b + 1"
    unfolding r by (simp_all add: len dss(2))
qed

section \<open>Selection and division\<close>

lemma mul_by_bool_sound:
  assumes "big_is a m" and "tval b = of_bool c"
  shows "big_is (mul_biguint_by_bool a b) (of_bool c * m)" "length (mul_biguint_by_bool a b) = length a"
proof -
  from assms(1) obtain ds where ds: "u32s_are a ds" "m = of_limbs base32 ds" by (auto simp: big_is_def)
  have "u32s_are (mul_biguint_by_bool a b) (map (\<lambda>d. of_bool c * d) ds)"
    using ds(1) assms(2) by (auto simp: u32s_are_def mul_biguint_by_bool_def list_all2_map1 list_all2_map2 u32_is_def
      elim!: list_all2_mono)
  moreover have "of_limbs base32 (map (\<lambda>d. of_bool c * d) ds) = of_bool c * m"
    unfolding ds(2) by (induction ds) (simp_all add: algebra_simps)
  ultimately show "big_is (mul_biguint_by_bool a b) (of_bool c * m)" unfolding big_is_def by metis
qed (simp add: mul_biguint_by_bool_def)

lemma range_checked_big: "sat (range_check_u32_circuit cfg t) adv pos u pos' \<Longrightarrow> \<exists>n. big_is t n"
  using range_check_sound unfolding big_is_def by blast

lemma div_rem_biguint_sound:
  fixes a b :: "'a::field biguint_target"
  assumes "order_ok TYPE('a)" and "canon_ok cfg" and "big_is a m" and "big_is b n"
    and "(length a + 1) * length b \<le> 2 ^ 30" and "sat (div_rem_biguint cfg a b) adv pos (q, r) pos'"
  shows "big_is q (m div n)" "big_is r (m mod n)" "0 < n" "length r = length b"
proof -
  let ?k = "if length a + 1 < length b then 0 else length a + 1 - length b"
  from assms(6) obtain qb sum c p1 p2 p3 p4 p5 p6 p7 p8 where parts:
    "sat (add_virtual_targets ?k) adv pos q p1" "sat (add_virtual_targets (length b)) adv p1 r p2"
    "sat (range_check_u32_circuit cfg q) adv p2 () p3" "sat (range_check_u32_circuit cfg r) adv p3 () p4"
    "sat (mul_biguint cfg q b) adv p4 qb p5" "sat (add_biguint cfg qb r) adv p5 sum p6"
    "sat (connect_biguint a sum) adv p6 () p7" "sat (cmp_biguint b r) adv p7 c p8" "tval c = 0"
    by (fastforce simp: div_rem_biguint_def add_virtual_biguint_target_def add_virtual_u32_targets_def Let_def)
  have lens: "length q = ?k" "length r = length b" using sat_virtual_length parts by metis+
  then have "length q \<le> length a + 1" by simp
  then have "length q * length b \<le> (length a + 1) * length b" by (rule mult_le_mono1)
  then have fits: "length q * length b \<le> 2 ^ 30" using assms(5) by (rule order_trans)
  obtain x y where xy: "big_is q x" "big_is r y" using range_checked_big parts(3,4) by metis
  have "big_is sum (x * n + y)"
    using mul_biguint_sound [OF assms(1,2) xy(1) assms(4) fits parts(5)] add_biguint_sound [OF assms(1) _ xy(2) parts(6)] by blast
  then have eq: "m = x * n + y" using connect_biguint_sound [OF assms(1,3) _ parts(7)] by blast
  have "y < n" using cmp_biguint_sound [OF assms(1,4) xy(2) parts(8)] parts(9) by (cases "n \<le> y") simp_all
  then have "x = m div n" "y = m mod n" "0 < n" using eq by simp_all
  with xy lens show "big_is q (m div n)" "big_is r (m mod n)" "0 < n" "length r = length b" by simp_all
qed

lemma rem_biguint_sound:
  fixes a b :: "'a::field biguint_target"
  assumes "order_ok TYPE('a)" and "canon_ok cfg" and "big_is a m" and "big_is b n"
    and "(length a + 1) * length b \<le> 2 ^ 30" and "sat (rem_biguint cfg a b) adv pos r pos'"
  shows "big_is r (m mod n)" "0 < n" "length r = length b"
  using div_rem_biguint_sound [OF assms(1-5)] assms(6) by (auto simp: rem_biguint_def)

section \<open>Values written by generators\<close>

lemma get_biguint_target_value:
  assumes "big_is t n" and "\<forall>m < goldilocks_order. canon (of_nat m :: 'a::field) = m"
  shows "get_biguint_target canon (t :: 'a target list) = n"
proof -
  have "u32s_are t ds \<Longrightarrow> get_biguint_target canon t = of_limbs base32 ds" for ds
  proof (induction t arbitrary: ds)
    case (Cons l t)
    then obtain d es where ds: "ds = d # es" "u32_is l d" "u32s_are t es" by (auto simp: u32s_are_def list_all2_Cons1)
    then have "canon (tval l) = d" using assms(2) by (auto simp: u32_is_def goldilocks_order_def)
    with Cons.IH [OF ds(3)] ds(1) show ?case by (simp add: get_biguint_target_def)
  qed (simp add: get_biguint_target_def u32s_are_def)
  then show ?thesis using assms(1) by (auto simp: big_is_def)
qed

lemma to_u32_digits_length: "n < base32 ^ k \<Longrightarrow> length (to_u32_digits n) \<le> k"
proof (induction n arbitrary: k rule: to_u32_digits.induct)
  case (1 n)
  show ?case
  proof (cases "n = 0")
    case False
    with "1.prems" obtain k' where k: "k = Suc k'" by (cases k) auto
    with "1.prems" have "n div base32 < base32 ^ k'" by (simp add: less_mult_imp_div_less mult.commute)
    from "1.IH" [OF False this] False show ?thesis by (subst to_u32_digits.simps) (simp add: k)
  qed (simp add: to_u32_digits.simps)
qed

lemma set_biguint_target_value:
  "n < base32 ^ k \<Longrightarrow> \<exists>ds. set_biguint_target k n = Some ds \<and> length ds = k \<and> of_limbs base32 ds = n \<and> (\<forall>d \<in> set ds. d < base32)"
  using to_u32_digits_length [of n k] to_u32_digits_less [of _ n]
  to_u32_digits_value [of n]
  by (auto simp: set_biguint_target_def Let_def of_limbs_append)

end
