(* ===== verification/Nonnative.thy ===== *)
theory Nonnative
  imports Big_Uint
begin

text \<open>
  Circuits for arithmetic modulo the order of another field (\<open>circuits/plonky2_ed25519/src/gadgets/nonnative.rs\<close>)
  and the generators of their witnesses. A non-native number is a big integer; the gadgets fix it
  only up to multiples of the order. Each gadget is sound in this sense. Where the generators
  leave a value that is not reduced, or panic, this is stated as well.
\<close>

section \<open>The gadgets\<close>

text \<open>The parameters of the field: its order and the constant \<open>BITS\<close>.\<close>

record ff =
  ff_order :: nat
  ff_bits :: nat

type_synonym 'a nonnative_target = "'a biguint_target"

definition num_nonnative_limbs :: "ff \<Rightarrow> nat" where
  "num_nonnative_limbs FF = ceil_div_usize (ff_bits FF) 32"

definition biguint_to_nonnative :: "'a biguint_target \<Rightarrow> 'a nonnative_target" where
  "biguint_to_nonnative x = x"

definition nonnative_to_canonical_biguint :: "'a nonnative_target \<Rightarrow> 'a biguint_target" where
  "nonnative_to_canonical_biguint x = x"

definition constant_nonnative :: "nat \<Rightarrow> 'a::field nonnative_target" where
  "constant_nonnative x = biguint_to_nonnative (constant_biguint x)"

definition zero_nonnative :: "'a::field nonnative_target" where
  "zero_nonnative = constant_nonnative 0"

definition connect_nonnative :: "'a::field nonnative_target \<Rightarrow> 'a nonnative_target \<Rightarrow> ('a, unit) circuit" where
  "connect_nonnative lhs rhs = connect_biguint lhs rhs"

definition add_virtual_nonnative_target :: "ff \<Rightarrow> ('a, 'a nonnative_target) circuit" where
  "add_virtual_nonnative_target FF = add_virtual_biguint_target (num_nonnative_limbs FF)"

definition add_virtual_nonnative_target_sized :: "nat \<Rightarrow> ('a, 'a nonnative_target) circuit" where
  "add_virtual_nonnative_target_sized num_limbs = add_virtual_biguint_target num_limbs"

definition assert_bool :: "'a::field target \<Rightarrow> ('a, unit) circuit" where
  "assert_bool b = require (tval b = 0 \<or> tval b = 1)"

definition add_virtual_bool_target_unsafe :: "('a, 'a target) circuit" where
  "add_virtual_bool_target_unsafe = circuit_bind (add_virtual_targets 1) (\<lambda>ts. circuit_return (hd ts))"

definition not_target :: "'a::field target \<Rightarrow> 'a target" where
  "not_target b = Wire (1 - tval b)"

definition add_nonnative :: "('a::field) config \<Rightarrow> ff \<Rightarrow> 'a nonnative_target \<Rightarrow> 'a nonnative_target
    \<Rightarrow> ('a, 'a nonnative_target) circuit" where
  "add_nonnative cfg FF a b =
     circuit_bind (add_virtual_nonnative_target FF) (\<lambda>sum.
     circuit_bind add_virtual_bool_target_unsafe (\<lambda>overflow.
     circuit_bind (range_check_u32_circuit cfg sum) (\<lambda>_.
     circuit_bind (assert_bool overflow) (\<lambda>_.
     circuit_bind (add_biguint cfg a b) (\<lambda>sum_expected.
     let modulus = constant_biguint (ff_order FF);
         mod_times_overflow = mul_biguint_by_bool modulus overflow
     in circuit_bind (add_biguint cfg sum mod_times_overflow) (\<lambda>sum_actual.
        circuit_bind (connect_biguint sum_expected sum_actual) (\<lambda>_.
        circuit_bind (cmp_biguint sum modulus) (\<lambda>cmp.
        circuit_bind (require (tval cmp = 1)) (\<lambda>_.
          circuit_return sum)))))))))"

definition mul_nonnative_by_bool :: "'a::field nonnative_target \<Rightarrow> 'a target \<Rightarrow> 'a nonnative_target" where
  "mul_nonnative_by_bool a b = mul_biguint_by_bool a b"

definition if_nonnative :: "('a::field) config \<Rightarrow> ff \<Rightarrow> 'a target \<Rightarrow> 'a nonnative_target \<Rightarrow> 'a nonnative_target
    \<Rightarrow> ('a, 'a nonnative_target) circuit" where
  "if_nonnative cfg FF b x y =
     (let not_b = not_target b;
          maybe_x = mul_nonnative_by_bool x b;
          maybe_y = mul_nonnative_by_bool y not_b
      in add_nonnative cfg FF maybe_x maybe_y)"

definition add_many_nonnative :: "('a::field) config \<Rightarrow> ff \<Rightarrow> 'a nonnative_target list \<Rightarrow> ('a, 'a nonnative_target) circuit" where
  "add_many_nonnative cfg FF to_add =
     (if length to_add = 1 then circuit_return (to_add ! 0)
      else
        circuit_bind (add_virtual_nonnative_target FF) (\<lambda>sum.
        circuit_bind add_virtual_u32_target (\<lambda>overflow.
        circuit_bind (range_check_u32_circuit cfg sum) (\<lambda>_.
        circuit_bind (range_check_u32_circuit cfg [overflow]) (\<lambda>_.
        circuit_bind (circuit_fold (\<lambda>a b. add_biguint cfg a b) zero_biguint to_add) (\<lambda>sum_expected.
        let modulus = constant_biguint (ff_order FF); overflow_biguint = [overflow]
        in circuit_bind (mul_biguint cfg modulus overflow_biguint) (\<lambda>mod_times_overflow.
           circuit_bind (add_biguint cfg sum mod_times_overflow) (\<lambda>sum_actual.
           circuit_bind (connect_biguint sum_expected sum_actual) (\<lambda>_.
           circuit_bind (cmp_biguint sum modulus) (\<lambda>cmp.
           circuit_bind (require (tval cmp = 1)) (\<lambda>_.
             circuit_return sum)))))))))))"

definition sub_nonnative :: "('a::field) config \<Rightarrow> ff \<Rightarrow> 'a nonnative_target \<Rightarrow> 'a nonnative_target
    \<Rightarrow> ('a, 'a nonnative_target) circuit" where
  "sub_nonnative cfg FF a b =
     circuit_bind (add_virtual_nonnative_target FF) (\<lambda>diff.
     circuit_bind add_virtual_bool_target_unsafe (\<lambda>overflow.
     circuit_bind (range_check_u32_circuit cfg diff) (\<lambda>_.
     circuit_bind (assert_bool overflow) (\<lambda>_.
     circuit_bind (add_biguint cfg diff b) (\<lambda>diff_plus_b.
     let modulus = constant_biguint (ff_order FF);
         mod_times_overflow = mul_biguint_by_bool modulus overflow
     in circuit_bind (sub_biguint cfg diff_plus_b mod_times_overflow) (\<lambda>diff_plus_b_reduced.
        circuit_bind (connect_biguint a diff_plus_b_reduced) (\<lambda>_.
          circuit_return diff)))))))"

text \<open>The number of limbs of the overflow is a subtraction of \<open>usize\<close>; the builder stops where it is negative.\<close>

definition mul_nonnative :: "('a::field) config \<Rightarrow> ff \<Rightarrow> 'a nonnative_target \<Rightarrow> 'a nonnative_target
    \<Rightarrow> ('a, 'a nonnative_target) circuit" where
  "mul_nonnative cfg FF a b =
     (let modulus = constant_biguint (ff_order FF) :: 'a biguint_target in
      circuit_bind (add_virtual_nonnative_target FF) (\<lambda>prod.
      circuit_bind (require (length modulus \<le> length a + length b)) (\<lambda>_.
      circuit_bind (add_virtual_biguint_target (length a + length b - length modulus)) (\<lambda>overflow.
      circuit_bind (range_check_u32_circuit cfg prod) (\<lambda>_.
      circuit_bind (range_check_u32_circuit cfg overflow) (\<lambda>_.
      circuit_bind (mul_biguint cfg a b) (\<lambda>prod_expected.
      circuit_bind (mul_biguint cfg modulus overflow) (\<lambda>mod_times_overflow.
      circuit_bind (add_biguint cfg prod mod_times_overflow) (\<lambda>prod_actual.
      circuit_bind (connect_biguint prod_expected prod_actual) (\<lambda>_.
        circuit_return prod))))))))))"

definition mul_many_nonnative :: "('a::field) config \<Rightarrow> ff \<Rightarrow> 'a nonnative_target list \<Rightarrow> ('a, 'a nonnative_target) circuit" where
  "mul_many_nonnative cfg FF to_mul =
     (if length to_mul = 1 then circuit_return (to_mul ! 0)
      else
        circuit_bind (require (2 \<le> length to_mul)) (\<lambda>_.
        circuit_bind (mul_nonnative cfg FF (to_mul ! 0) (to_mul ! 1)) (\<lambda>accumulator.
        circuit_fold (\<lambda>accumulator t. mul_nonnative cfg FF accumulator t) accumulator (drop 2 to_mul))))"

definition neg_nonnative :: "('a::field) config \<Rightarrow> ff \<Rightarrow> 'a nonnative_target \<Rightarrow> ('a, 'a nonnative_target) circuit" where
  "neg_nonnative cfg FF x =
     (let zero_target = constant_biguint 0; zero_ff = biguint_to_nonnative zero_target
      in sub_nonnative cfg FF zero_ff x)"

definition inv_nonnative :: "('a::field) config \<Rightarrow> ff \<Rightarrow> 'a nonnative_target \<Rightarrow> ('a, 'a nonnative_target) circuit" where
  "inv_nonnative cfg FF x =
     (let num_limbs = length x in
      circuit_bind (add_virtual_biguint_target num_limbs) (\<lambda>inv_biguint.
      circuit_bind (add_virtual_biguint_target num_limbs) (\<lambda>quotient.
      circuit_bind (range_check_u32_circuit cfg inv_biguint) (\<lambda>_.
      circuit_bind (range_check_u32_circuit cfg quotient) (\<lambda>_.
      circuit_bind (mul_biguint cfg x inv_biguint) (\<lambda>product.
      let modulus = constant_biguint (ff_order FF) in
      circuit_bind (mul_biguint cfg modulus quotient) (\<lambda>mod_times_div.
      let one = constant_biguint 1 in
      circuit_bind (add_biguint cfg mod_times_div one) (\<lambda>expected_product.
      circuit_bind (connect_biguint product expected_product) (\<lambda>_.
        circuit_return inv_biguint)))))))))"

definition reduce :: "('a::field) config \<Rightarrow> ff \<Rightarrow> 'a biguint_target \<Rightarrow> ('a, 'a nonnative_target) circuit" where
  "reduce cfg FF x =
     (let order_target = constant_biguint (ff_order FF) in rem_biguint cfg x order_target)"

definition reduce_nonnative :: "('a::field) config \<Rightarrow> ff \<Rightarrow> 'a nonnative_target \<Rightarrow> ('a, 'a nonnative_target) circuit" where
  "reduce_nonnative cfg FF x = (let x_biguint = nonnative_to_canonical_biguint x in reduce cfg FF x_biguint)"

definition bool_to_nonnative :: "'a target \<Rightarrow> 'a nonnative_target" where
  "bool_to_nonnative b = [b]"

text \<open>\<open>split_le_base::<2>\<close> of the builder: bits that add up to the target.\<close>

definition split_le_base_2 :: "'a::field target \<Rightarrow> nat \<Rightarrow> ('a, 'a target list) circuit" where
  "split_le_base_2 x num_limbs =
     circuit_bind (add_virtual_targets num_limbs) (\<lambda>bits.
     circuit_bind (require (list_all (\<lambda>b. tval b = 0 \<or> tval b = 1) bits)) (\<lambda>_.
     circuit_bind (require (reduce_with_powers (map tval bits) 2 = tval x)) (\<lambda>_.
       circuit_return bits)))"

definition split_nonnative_to_bits :: "'a::field nonnative_target \<Rightarrow> ('a, 'a target list) circuit" where
  "split_nonnative_to_bits x =
     circuit_fold (\<lambda>result limb. circuit_bind (split_le_base_2 limb 32) (\<lambda>bits. circuit_return (result @ bits))) [] x"

definition nonnative_conditional_neg :: "('a::field) config \<Rightarrow> ff \<Rightarrow> 'a nonnative_target \<Rightarrow> 'a target
    \<Rightarrow> ('a, 'a nonnative_target) circuit" where
  "nonnative_conditional_neg cfg FF x b =
     (let not_b = not_target b in
      circuit_bind (neg_nonnative cfg FF x) (\<lambda>neg.
      let x_if_true = mul_nonnative_by_bool neg b;
          x_if_false = mul_nonnative_by_bool x not_b
      in add_nonnative cfg FF x_if_true x_if_false))"

section \<open>The generators\<close>

text \<open>
  What the generators compute from the values of their inputs: the number for the result and the
  overflow. The inputs are first brought into the field, that is, reduced modulo the order.
\<close>

definition addition_generate :: "ff \<Rightarrow> nat \<Rightarrow> nat \<Rightarrow> nat \<times> bool" where
  "addition_generate FF a b =
     (let sum_biguint = a mod ff_order FF + b mod ff_order FF; modulus = ff_order FF
      in if modulus < sum_biguint then (sum_biguint - modulus, True) else (sum_biguint, False))"

text \<open>\<open>to_u64_digits()[0]\<close> panics on zero, which has no digits.\<close>

definition multiple_adds_generate :: "ff \<Rightarrow> nat list \<Rightarrow> (nat \<times> nat) option" where
  "multiple_adds_generate FF summands =
     (let sum_biguint = foldl (\<lambda>a b. a + b) 0 (map (\<lambda>s. s mod ff_order FF) summands);
          overflow_biguint = sum_biguint div ff_order FF; sum_reduced = sum_biguint mod ff_order FF
      in if overflow_biguint = 0 then None else Some (sum_reduced, overflow_biguint mod 2 ^ 64 mod 2 ^ 32))"

definition subtraction_generate_nonnative :: "ff \<Rightarrow> nat \<Rightarrow> nat \<Rightarrow> nat \<times> bool" where
  "subtraction_generate_nonnative FF a b =
     (let a_biguint = a mod ff_order FF; b_biguint = b mod ff_order FF; modulus = ff_order FF
      in if b_biguint \<le> a_biguint then (a_biguint - b_biguint, False) else (modulus + a_biguint - b_biguint, True))"

definition multiplication_generate :: "ff \<Rightarrow> nat \<Rightarrow> nat \<Rightarrow> nat \<times> nat" where
  "multiplication_generate FF a b =
     (let prod_biguint = (a mod ff_order FF) * (b mod ff_order FF)
      in (prod_biguint mod ff_order FF, prod_biguint div ff_order FF))"

text \<open>\<open>inverse\<close> is the inverse of the field, which panics on zero.\<close>

definition inverse_generate :: "(nat \<Rightarrow> nat option) \<Rightarrow> ff \<Rightarrow> nat \<Rightarrow> (nat \<times> nat) option" where
  "inverse_generate field_inverse FF x =
     (case field_inverse (x mod ff_order FF) of None \<Rightarrow> None | Some i \<Rightarrow>
        Some (i, ((x mod ff_order FF) * i) div ff_order FF))"

section \<open>Numbers modulo the order\<close>

definition ff_ok :: "ff \<Rightarrow> bool" where
  "ff_ok FF \<longleftrightarrow> 0 < ff_order FF \<and> ff_order FF < base32 ^ num_nonnative_limbs FF \<and> 0 < num_nonnative_limbs FF
     \<and> num_nonnative_limbs FF \<le> 2 ^ 10"

definition same_mod :: "ff \<Rightarrow> int \<Rightarrow> int \<Rightarrow> bool" where
  "same_mod FF x y \<longleftrightarrow> x mod int (ff_order FF) = y mod int (ff_order FF)"

lemma same_mod_refl [simp]: "same_mod FF x x"
  by (simp add: same_mod_def)

lemma same_mod_sym: "same_mod FF x y \<Longrightarrow> same_mod FF y x"
  by (simp add: same_mod_def)

lemma same_mod_trans: "same_mod FF x y \<Longrightarrow> same_mod FF y z \<Longrightarrow> same_mod FF x z"
  by (simp add: same_mod_def)

lemma same_mod_ring:
  assumes "same_mod FF x x'" and "same_mod FF y y'"
  shows "same_mod FF (x + y) (x' + y')" "same_mod FF (x - y) (x' - y')" "same_mod FF (x * y) (x' * y')"
  using assms unfolding same_mod_def by (metis mod_add_cong, metis mod_diff_cong, metis mod_mult_cong)

lemma same_mod_multiple: "x = y + int k * int (ff_order FF) \<Longrightarrow> same_mod FF x y"
  by (simp add: same_mod_def)

definition nn_is :: "ff \<Rightarrow> 'a::field nonnative_target \<Rightarrow> int \<Rightarrow> bool" where
  "nn_is FF t v \<longleftrightarrow> (\<exists>n. big_is t n \<and> length t \<le> num_nonnative_limbs FF \<and> same_mod FF (int n) v)"

lemma nn_is_same: "nn_is FF t v \<Longrightarrow> same_mod FF v w \<Longrightarrow> nn_is FF t w"
  unfolding nn_is_def using same_mod_trans by blast

lemma constant_length: "v < base32 ^ k \<Longrightarrow> length (constant_biguint v) \<le> k"
  by (simp add: constant_biguint_def to_u32_digits_length)

lemma nn_is_constant: "ff_ok FF \<Longrightarrow> x < ff_order FF \<Longrightarrow> nn_is FF (constant_nonnative x) (int x)"
  unfolding nn_is_def constant_nonnative_def biguint_to_nonnative_def ff_ok_def
  by (intro exI [of _ x]) (auto intro!: constant_length intro: order.strict_trans)

lemma sat_virtual_nonnative: "sat (add_virtual_nonnative_target FF) adv pos t pos' \<Longrightarrow> length t = num_nonnative_limbs FF"
  by (simp add: add_virtual_nonnative_target_def add_virtual_biguint_target_def add_virtual_u32_targets_def sat_virtual_length)

lemma assert_bool_sound: "sat (assert_bool b) adv pos u pos' \<Longrightarrow> \<exists>c. tval b = of_bool c"
  by (auto simp: assert_bool_def intro: exI [of _ True] exI [of _ False])

section \<open>The gadgets are sound\<close>

lemma add_nonnative_value:
  fixes a b :: "'a::field nonnative_target"
  assumes "order_ok TYPE('a)" and "big_is a m" and "big_is b n" and "sat (add_nonnative cfg FF a b) adv pos r pos'"
  shows "\<exists>s c. big_is r s \<and> s + of_bool c * ff_order FF = m + n \<and> s \<le> ff_order FF" and "length r = num_nonnative_limbs FF"
proof -
  let ?M = "constant_biguint (ff_order FF) :: 'a biguint_target"
  from assms(4) obtain ov e act cmp p0 p1 p2 p3 p4 p5 p6 p7 p8 where parts:
    "sat (add_virtual_nonnative_target FF) adv p0 r p1" "sat (range_check_u32_circuit cfg r) adv p2 () p3"
    "sat (assert_bool ov) adv p3 () p4" "sat (add_biguint cfg a b) adv p4 e p5"
    "sat (add_biguint cfg r (mul_biguint_by_bool ?M ov)) adv p5 act p6" "sat (connect_biguint e act) adv p6 () p7"
    "sat (cmp_biguint r ?M) adv p7 cmp p8" "tval cmp = 1"
    by (simp add: add_nonnative_def Let_def) (elim exE conjE, hypsubst, rule that, assumption+)
  obtain s where s: "big_is r s" using range_checked_big [OF parts(2)] ..
  obtain c where c: "tval ov = of_bool c" using assert_bool_sound [OF parts(3)] ..
  have "big_is e (m + n)" by (rule add_biguint_sound(1) [OF assms(1-3) parts(4)])
  moreover have "big_is act (s + of_bool c * ff_order FF)"
    by (rule add_biguint_sound(1) [OF assms(1) s mul_by_bool_sound(1) [OF big_is_constant c] parts(5)])
  ultimately have "m + n = s + of_bool c * ff_order FF" using connect_biguint_sound [OF assms(1) _ _ parts(6)] by blast
  moreover have "s \<le> ff_order FF"
    using cmp_biguint_sound [OF assms(1) s big_is_constant parts(7)] parts(8) by (cases "s \<le> ff_order FF") simp_all
  ultimately show "\<exists>s c. big_is r s \<and> s + of_bool c * ff_order FF = m + n \<and> s \<le> ff_order FF" using s by metis
  show "length r = num_nonnative_limbs FF" by (rule sat_virtual_nonnative [OF parts(1)])
qed

lemma add_nonnative_sound:
  fixes a b :: "'a::field nonnative_target"
  assumes "order_ok TYPE('a)" and "nn_is FF a v" and "nn_is FF b w" and "sat (add_nonnative cfg FF a b) adv pos r pos'"
  shows "nn_is FF r (v + w)"
proof -
  from assms(2,3) obtain m n where mn: "big_is a m" "big_is b n" "same_mod FF (int m) v" "same_mod FF (int n) w"
    by (auto simp: nn_is_def)
  from add_nonnative_value [OF assms(1) mn(1,2) assms(4)] obtain s c where
    s: "big_is r s" "s + of_bool c * ff_order FF = m + n" "length r = num_nonnative_limbs FF" by blast
  have "int m + int n = int s + int (of_bool c) * int (ff_order FF)"
    using s(2) by (metis of_nat_add of_nat_mult)
  then have "same_mod FF (int s) (int m + int n)" by (rule same_mod_sym [OF same_mod_multiple])
  then have "same_mod FF (int s) (v + w)" using same_mod_ring(1) [OF mn(3,4)] by (rule same_mod_trans)
  with s show ?thesis by (auto simp: nn_is_def)
qed

lemma by_bool_sound:
  assumes "nn_is FF a v" and "tval b = of_bool c"
  shows "nn_is FF (mul_nonnative_by_bool a b) (of_bool c * v)"
proof -
  from assms(1) obtain n where n: "big_is a n" "length a \<le> num_nonnative_limbs FF" "same_mod FF (int n) v" by (auto simp: nn_is_def)
  have "same_mod FF (int (of_bool c * n)) (of_bool c * v)" using same_mod_ring(3) [OF same_mod_refl n(3)] by simp
  with mul_by_bool_sound [OF n(1) assms(2)] n(2) show ?thesis unfolding nn_is_def mul_nonnative_by_bool_def
    by (intro exI [of _ "of_bool c * n"]) simp
qed

lemma not_target_bool: "tval b = of_bool c \<Longrightarrow> tval (not_target b) = of_bool (\<not> c)"
  by (simp add: not_target_def)

lemma if_nonnative_sound:
  fixes x y :: "'a::field nonnative_target"
  assumes "order_ok TYPE('a)" and "nn_is FF x v" and "nn_is FF y w" and "tval b = of_bool c"
    and "sat (if_nonnative cfg FF b x y) adv pos r pos'"
  shows "nn_is FF r (if c then v else w)"
proof -
  from add_nonnative_sound [OF assms(1) by_bool_sound [OF assms(2,4)] by_bool_sound [OF assms(3) not_target_bool [OF assms(4)]]]
    assms(5) have "nn_is FF r (of_bool c * v + of_bool (\<not> c) * w)" by (simp add: if_nonnative_def)
  then show ?thesis by (cases c) simp_all
qed

lemma sub_nonnative_sound:
  fixes a b :: "'a::field nonnative_target"
  assumes "order_ok TYPE('a)" and "ff_ok FF" and "nn_is FF a v" and "nn_is FF b w"
    and "sat (sub_nonnative cfg FF a b) adv pos r pos'"
  shows "nn_is FF r (v - w)"
proof -
  let ?p = "ff_order FF" let ?M = "constant_biguint ?p :: 'a biguint_target" let ?l = "num_nonnative_limbs FF"
  from assms(3,4) obtain m n where mn: "big_is a m" "big_is b n" "same_mod FF (int m) v" "same_mod FF (int n) w" "length a \<le> ?l" "length b \<le> ?l"
    by (auto simp: nn_is_def)
  from assms(5) obtain ov e red p0 p1 p2 p3 p4 p5 p6 p7 where parts:
    "sat (add_virtual_nonnative_target FF) adv p0 r p1" "sat (range_check_u32_circuit cfg r) adv p2 () p3"
    "sat (assert_bool ov) adv p3 () p4" "sat (add_biguint cfg r b) adv p4 e p5"
    "sat (sub_biguint cfg e (mul_biguint_by_bool ?M ov)) adv p5 red p6" "sat (connect_biguint a red) adv p6 () p7"
    by (simp add: sub_nonnative_def Let_def) (elim exE conjE, hypsubst, rule that, assumption+)
  obtain d where d: "big_is r d" using range_checked_big [OF parts(2)] ..
  obtain c where c: "tval ov = of_bool c" using assert_bool_sound [OF parts(3)] ..
  have len_r: "length r = ?l" by (rule sat_virtual_nonnative [OF parts(1)])
  note e = add_biguint_sound [OF assms(1) d mn(2) parts(4)]
  have Mov: "big_is (mul_biguint_by_bool ?M ov) (of_bool c * ?p)" "length (mul_biguint_by_bool ?M ov) = length ?M"
    using mul_by_bool_sound [OF big_is_constant c] by blast+
  have len_e: "length e = ?l + 1" using e(2) len_r mn(6) by simp
  have len_M: "length (mul_biguint_by_bool ?M ov) \<le> ?l" using Mov(2) constant_length assms(2) by (auto simp: ff_ok_def)
  let ?k = "max (length e) (length (mul_biguint_by_bool ?M ov))"
  have k: "?k = ?l + 1" using len_e len_M by simp
  from sub_biguint_sound(1) [OF assms(1) e(1) Mov(1) parts(5)] obtain x bw where
    x: "big_is red x" "bw \<le> 1" "x + of_bool c * ?p = d + n + bw * base32 ^ ?k" by blast
  have "m = x" by (rule connect_biguint_sound [OF assms(1) mn(1) x(1) parts(6)])
  have "m < base32 ^ ?l" using big_is_less [OF mn(1)] power_increasing [OF mn(5), of base32] by (simp del: power_increasing_iff)
  moreover have "of_bool c * ?p < base32 ^ ?l" using assms(2) by (cases c) (simp_all add: ff_ok_def)
  ultimately have "x + of_bool c * ?p < 2 * base32 ^ ?l" using \<open>m = x\<close> by linarith
  also have "\<dots> \<le> base32 ^ ?k" unfolding k by simp
  finally have "bw = 0" using x(2,3) by (cases bw) auto
  then have "m + of_bool c * ?p = d + n" using x(3) \<open>m = x\<close> by simp
  then have "int d = (int m - int n) + int (of_bool c) * int ?p" by (metis of_nat_add of_nat_mult add_diff_cancel_right' diff_add_eq)
  then have "same_mod FF (int d) (int m - int n)" by (rule same_mod_multiple)
  then have "same_mod FF (int d) (v - w)" using same_mod_ring(2) [OF mn(3,4)] by (rule same_mod_trans)
  with d len_r show ?thesis by (auto simp: nn_is_def)
qed

lemma modulus_length: "ff_ok FF \<Longrightarrow> length (constant_biguint (ff_order FF) :: 'a::field biguint_target) \<le> num_nonnative_limbs FF"
  using constant_length by (auto simp: ff_ok_def)

lemma limbs_product:
  "ff_ok FF \<Longrightarrow> i \<le> num_nonnative_limbs FF \<Longrightarrow> j \<le> 2 * num_nonnative_limbs FF \<Longrightarrow> i * j \<le> 2 ^ 30"
  using mult_le_mono [of i "2 ^ 10" j "2 * 2 ^ 10"] by (simp add: ff_ok_def)

lemma neg_nonnative_sound:
  fixes x :: "'a::field nonnative_target"
  assumes "order_ok TYPE('a)" and "ff_ok FF" and "nn_is FF x v" and "sat (neg_nonnative cfg FF x) adv pos r pos'"
  shows "nn_is FF r (- v)"
proof -
  have "nn_is FF (constant_biguint 0 :: 'a nonnative_target) 0"
    using nn_is_constant [of FF 0] assms(2) by (simp add: ff_ok_def constant_nonnative_def biguint_to_nonnative_def)
  from sub_nonnative_sound [OF assms(1,2) this assms(3)] assms(4) show ?thesis
    by (simp add: neg_nonnative_def biguint_to_nonnative_def)
qed

lemma conditional_neg_sound:
  fixes x :: "'a::field nonnative_target"
  assumes "order_ok TYPE('a)" and "ff_ok FF" and "nn_is FF x v" and "tval b = of_bool c"
    and "sat (nonnative_conditional_neg cfg FF x b) adv pos r pos'"
  shows "nn_is FF r (if c then - v else v)"
proof -
  from assms(5) obtain neg p where neg: "sat (neg_nonnative cfg FF x) adv pos neg p" and
    add: "sat (add_nonnative cfg FF (mul_nonnative_by_bool neg b) (mul_nonnative_by_bool x (not_target b))) adv p r pos'"
    by (auto simp: nonnative_conditional_neg_def Let_def)
  note neg_is = neg_nonnative_sound [OF assms(1-3) neg]
  from add_nonnative_sound [OF assms(1) by_bool_sound [OF neg_is assms(4)]
      by_bool_sound [OF assms(3) not_target_bool [OF assms(4)]] add] show ?thesis by (cases c) simp_all
qed

text \<open>The sum of many: the expected value is the sum of the integers.\<close>

lemma sum_fold_sound:
  fixes ts :: "'a::field biguint_target list"
  assumes "order_ok TYPE('a)" and "list_all2 big_is ts ns" and "big_is s n"
    and "sat (circuit_fold (\<lambda>a b. add_biguint cfg a b) s ts) adv pos r pos'"
  shows "big_is r (n + sum_list ns)"
  using assms(2-4)
proof (induction ts ns arbitrary: s n pos rule: list_all2_induct)
  case Nil
  then show ?case by simp
next
  case (Cons t ts m ns)
  from Cons.prems(2) obtain s' p where "sat (add_biguint cfg s t) adv pos s' p"
    "sat (circuit_fold (\<lambda>a b. add_biguint cfg a b) s' ts) adv p r pos'" by auto
  with Cons.IH add_biguint_sound(1) [OF assms(1) Cons.prems(1) Cons.hyps(1)] show ?case by (metis add.assoc sum_list.Cons)
qed

lemma add_many_nonnative_sound:
  fixes ts :: "'a::field nonnative_target list"
  assumes "order_ok TYPE('a)" and "canon_ok cfg" and "ff_ok FF" and "list_all2 (nn_is FF) ts vs"
    and "sat (add_many_nonnative cfg FF ts) adv pos r pos'"
  shows "nn_is FF r (sum_list vs)"
proof (cases "length ts = 1")
  case True
  with assms(4,5) show ?thesis by (auto simp: add_many_nonnative_def length_Suc_conv list_all2_Cons1)
next
  case False
  let ?M = "constant_biguint (ff_order FF) :: 'a biguint_target"
  from assms(5) False obtain ov e mo act p0 p1 p2 p3 p4 p5 p6 p7 where parts:
    "sat (add_virtual_nonnative_target FF) adv p0 r p1" "sat (range_check_u32_circuit cfg r) adv p2 () p3"
    "sat (range_check_u32_circuit cfg [ov]) adv p3 () p4"
    "sat (circuit_fold (\<lambda>a b. add_biguint cfg a b) zero_biguint ts) adv p4 e p5"
    "sat (mul_biguint cfg ?M [ov]) adv p5 mo p6" "sat (add_biguint cfg r mo) adv p6 act p7"
    "\<exists>p8. sat (connect_biguint e act) adv p7 () p8"
    by (simp add: add_many_nonnative_def Let_def) (elim exE conjE, hypsubst, rule that, assumption+, blast)
  obtain s where s: "big_is r s" using range_checked_big [OF parts(2)] ..
  obtain k where k: "big_is [ov] k" using range_checked_big [OF parts(3)] ..
  from assms(4) obtain ns where ns: "list_all2 big_is ts ns" "list_all2 (\<lambda>n v. same_mod FF (int n) v) ns vs"
    by (auto simp: nn_is_def list_all2_conv_all_nth Skolem_list_nth) (metis list_all2_conv_all_nth)
  have "big_is e (sum_list ns)" using sum_fold_sound [OF assms(1) ns(1) _ parts(4), of 0] by (simp add: zero_biguint_def)
  moreover have "big_is mo (ff_order FF * k)"
    using mul_biguint_sound(1) [OF assms(1,2) big_is_constant k _ parts(5)] limbs_product [OF assms(3) modulus_length [OF assms(3)], of 1]
    assms(3) by (simp add: ff_ok_def)
  note add_biguint_sound(1) [OF assms(1) s this parts(6)]
  ultimately have "int (sum_list ns) = int s + int k * int (ff_order FF)"
    using parts(7) connect_biguint_sound [OF assms(1)] by (metis mult.commute of_nat_add of_nat_mult)
  then have "same_mod FF (int s) (int (sum_list ns))" by (rule same_mod_sym [OF same_mod_multiple])
  moreover have "same_mod FF (int (sum_list ns)) (sum_list vs)" using ns(2)
    by (induction rule: list_all2_induct) (auto intro: same_mod_ring(1))
  ultimately show ?thesis using s sat_virtual_nonnative [OF parts(1)] same_mod_trans by (auto simp: nn_is_def)
qed

lemma mul_nonnative_sound:
  fixes a b :: "'a::field nonnative_target"
  assumes "order_ok TYPE('a)" and "canon_ok cfg" and "ff_ok FF" and "nn_is FF a v" and "nn_is FF b w"
    and "sat (mul_nonnative cfg FF a b) adv pos r pos'"
  shows "nn_is FF r (v * w)"
proof -
  let ?M = "constant_biguint (ff_order FF) :: 'a biguint_target" let ?l = "num_nonnative_limbs FF"
  from assms(4,5) obtain m n where mn: "big_is a m" "big_is b n" "same_mod FF (int m) v" "same_mod FF (int n) w" "length a \<le> ?l" "length b \<le> ?l"
    by (auto simp: nn_is_def)
  from assms(6) obtain ov e mo act p0 p1 p2 p3 p4 p5 p6 p7 where parts:
    "sat (add_virtual_nonnative_target FF) adv p0 r p1" "length ov = length a + length b - length ?M"
    "sat (range_check_u32_circuit cfg r) adv p2 () p3" "sat (range_check_u32_circuit cfg ov) adv p3 () p4"
    "sat (mul_biguint cfg a b) adv p4 e p5"
    "sat (mul_biguint cfg ?M ov) adv p5 mo p6" "sat (add_biguint cfg r mo) adv p6 act p7"
    "sat (connect_biguint e act) adv p7 () pos'"
    by (simp add: mul_nonnative_def Let_def add_virtual_biguint_target_def add_virtual_u32_targets_def)
      (elim exE conjE, hypsubst, rule that, assumption, erule sat_virtual_length, assumption+)
  obtain s where s: "big_is r s" using range_checked_big [OF parts(3)] ..
  obtain k where k: "big_is ov k" using range_checked_big [OF parts(4)] ..
  have "length ov \<le> 2 * ?l" using parts(2) mn(5,6) by simp
  then have "big_is mo (ff_order FF * k)"
    using mul_biguint_sound(1) [OF assms(1,2) big_is_constant k _ parts(6)] limbs_product [OF assms(3) modulus_length [OF assms(3)]] by blast
  from add_biguint_sound(1) [OF assms(1) s this parts(7)] have "big_is act (s + ff_order FF * k)" .
  moreover have "big_is e (m * n)"
    using mul_biguint_sound(1) [OF assms(1,2) mn(1,2) _ parts(5)] limbs_product [OF assms(3) mn(5)] mn(6) by simp
  ultimately have "int (m * n) = int s + int k * int (ff_order FF)"
    using parts(8) connect_biguint_sound [OF assms(1)] by (metis mult.commute of_nat_add of_nat_mult)
  then have "same_mod FF (int s) (int m * int n)" using same_mod_sym [OF same_mod_multiple] by simp
  then have "same_mod FF (int s) (v * w)" using same_mod_ring(3) [OF mn(3,4)] by (rule same_mod_trans)
  with s sat_virtual_nonnative [OF parts(1)] show ?thesis by (auto simp: nn_is_def)
qed

lemma mul_fold_sound:
  fixes ts :: "'a::field nonnative_target list"
  assumes "order_ok TYPE('a)" and "canon_ok cfg" and "ff_ok FF" and "list_all2 (nn_is FF) ts vs" and "nn_is FF x v"
    and "sat (circuit_fold (\<lambda>accumulator t. mul_nonnative cfg FF accumulator t) x ts) adv pos r pos'"
  shows "nn_is FF r (v * prod_list vs)"
  using assms(4-6)
proof (induction ts vs arbitrary: x v pos rule: list_all2_induct)
  case Nil
  then show ?case by simp
next
  case (Cons t ts w ws)
  from Cons.prems(2) obtain y p where "sat (mul_nonnative cfg FF x t) adv pos y p"
    "sat (circuit_fold (\<lambda>accumulator t. mul_nonnative cfg FF accumulator t) y ts) adv p r pos'" by auto
  with Cons.IH mul_nonnative_sound [OF assms(1-3) Cons.prems(1) Cons.hyps(1)] show ?case
    by (metis mult.assoc prod_list.Cons)
qed

lemma mul_many_nonnative_sound:
  fixes ts :: "'a::field nonnative_target list"
  assumes "order_ok TYPE('a)" and "canon_ok cfg" and "ff_ok FF" and "list_all2 (nn_is FF) ts vs"
    and "sat (mul_many_nonnative cfg FF ts) adv pos r pos'"
  shows "nn_is FF r (prod_list vs)"
proof (cases ts)
  case Nil
  with assms(5) show ?thesis by (simp add: mul_many_nonnative_def)
next
  case (Cons t ts1)
  show ?thesis
  proof (cases ts1)
    case Nil
    with assms(4,5) Cons show ?thesis by (auto simp: mul_many_nonnative_def list_all2_Cons1)
  next
    case (Cons u ts2)
    note ts = \<open>ts = t # ts1\<close> Cons
    from assms(4) ts obtain v w vs2 where vs: "vs = v # w # vs2" "nn_is FF t v" "nn_is FF u w" "list_all2 (nn_is FF) ts2 vs2"
      by (auto simp: list_all2_Cons1)
    from assms(5) ts obtain x p where "sat (mul_nonnative cfg FF t u) adv pos x p"
      "sat (circuit_fold (\<lambda>accumulator t. mul_nonnative cfg FF accumulator t) x ts2) adv p r pos'"
      by (auto simp: mul_many_nonnative_def)
    with mul_fold_sound [OF assms(1-3) vs(4) mul_nonnative_sound [OF assms(1-3) vs(2,3)]] vs(1) show ?thesis
      by (metis mult.assoc prod_list.Cons)
  qed
qed

lemma inv_nonnative_sound:
  fixes x :: "'a::field nonnative_target"
  assumes "order_ok TYPE('a)" and "canon_ok cfg" and "ff_ok FF" and "nn_is FF x v"
    and "sat (inv_nonnative cfg FF x) adv pos r pos'"
  shows "\<exists>u. nn_is FF r u \<and> same_mod FF (v * u) 1"
proof -
  let ?M = "constant_biguint (ff_order FF) :: 'a biguint_target" let ?l = "num_nonnative_limbs FF"
  from assms(4) obtain m where m: "big_is x m" "same_mod FF (int m) v" "length x \<le> ?l" by (auto simp: nn_is_def)
  from assms(5) obtain q e mo act p3 p4 p5 p6 p7 where parts:
    "length r = length x" "length q = length x"
    "\<exists>p2. sat (range_check_u32_circuit cfg r) adv p2 () p3" "sat (range_check_u32_circuit cfg q) adv p3 () p4"
    "sat (mul_biguint cfg x r) adv p4 e p5"
    "sat (mul_biguint cfg ?M q) adv p5 mo p6" "sat (add_biguint cfg mo (constant_biguint 1)) adv p6 act p7"
    "sat (connect_biguint e act) adv p7 () pos'"
    by (simp add: inv_nonnative_def Let_def add_virtual_biguint_target_def add_virtual_u32_targets_def del: One_nat_def)
      (elim exE conjE, hypsubst, rule that, erule sat_virtual_length, erule sat_virtual_length, erule exI, assumption+)
  obtain u where u: "big_is r u" using parts(3) range_checked_big by blast
  obtain k where k: "big_is q k" using range_checked_big [OF parts(4)] ..
  have "big_is mo (ff_order FF * k)"
    using mul_biguint_sound(1) [OF assms(1,2) big_is_constant k _ parts(6)]
      limbs_product [OF assms(3) modulus_length [OF assms(3)], of "length q"] parts(2) m(3) by auto
  from add_biguint_sound(1) [OF assms(1) this big_is_constant parts(7)] have "big_is act (ff_order FF * k + 1)" .
  moreover have "big_is e (m * u)"
    using mul_biguint_sound(1) [OF assms(1,2) m(1) u _ parts(5)] limbs_product [OF assms(3) m(3)] parts(1) m(3) by simp
  ultimately have "m * u = ff_order FF * k + 1" using parts(8) connect_biguint_sound [OF assms(1)] by blast
  then have "int m * int u = 1 + int k * int (ff_order FF)" by (metis add.commute mult.commute of_nat_1 of_nat_add of_nat_mult)
  then have "same_mod FF (int m * int u) 1" by (rule same_mod_multiple)
  moreover have "same_mod FF (v * int u) (int m * int u)" using same_mod_ring(3) [OF same_mod_sym [OF m(2)] same_mod_refl] .
  ultimately have "same_mod FF (v * int u) 1" using same_mod_trans by blast
  moreover have "nn_is FF r (int u)" using u parts(1) m(3) by (auto simp: nn_is_def)
  ultimately show ?thesis by blast
qed

lemma reduce_sound:
  fixes x :: "'a::field biguint_target"
  assumes "order_ok TYPE('a)" and "canon_ok cfg" and "ff_ok FF" and "big_is x m" and "length x < 2 * num_nonnative_limbs FF"
    and "sat (reduce cfg FF x) adv pos r pos'"
  shows "big_is r (m mod ff_order FF)"
  using rem_biguint_sound(1) [OF assms(1,2,4) big_is_constant _ assms(6) [unfolded reduce_def Let_def]]
    limbs_product [OF assms(3) modulus_length [OF assms(3), where 'a = 'a], of "length x + 1"] assms(5)
  by (simp add: mult.commute)

section \<open>The bits of a number\<close>

lemma bits_value:
  assumes "list_all (\<lambda>b. tval b = 0 \<or> tval b = (1::'a::field)) bits"
  shows "\<exists>bs. map tval bits = map of_bool bs \<and> reduce_with_powers (map tval bits) 2 = (of_nat (of_limbs 2 (map of_bool bs)) :: 'a)"
  using assms
proof (induction bits)
  case Nil
  show ?case by (auto simp: reduce_with_powers_def intro: exI [of _ "[]"])
next
  case (Cons b bits)
  then obtain bs where bs: "map tval bits = map of_bool bs"
    "reduce_with_powers (map tval bits) 2 = (of_nat (of_limbs 2 (map of_bool bs)) :: 'a)" by auto
  have "tval b = of_bool (tval b = 1)" using Cons.prems by auto
  then obtain c where "tval b = of_bool c" ..
  with bs show ?case by (auto simp: reduce_with_powers_def intro!: exI [of _ "c # bs"])
qed

lemma bits_less: "of_limbs 2 (map of_bool bs) < 2 ^ length bs"
  by (induction bs) (auto simp: of_bool_def)

lemma split_le_base_sound:
  fixes x :: "'a::field target"
  assumes "order_ok TYPE('a)" and "sat (split_le_base_2 x 32) adv pos bits pos'"
  shows "\<exists>bs. map tval bits = map of_bool bs \<and> length bs = 32 \<and> u32_is x (of_limbs 2 (map of_bool bs))"
proof -
  from assms(2) obtain p where parts: "sat (add_virtual_targets 32) adv pos bits p"
    "list_all (\<lambda>b. tval b = 0 \<or> tval b = 1) bits" "reduce_with_powers (map tval bits) 2 = tval x"
    by (auto simp: split_le_base_2_def)
  from bits_value [OF parts(2)] obtain bs where bs: "map tval bits = map of_bool bs"
    "tval x = of_nat (of_limbs 2 (map of_bool bs))" using parts(3) by auto
  have "length bs = 32" using sat_virtual_length [OF parts(1)] bs(1) by (metis length_map)
  with bs bits_less [of bs] show ?thesis by (auto simp: u32_is_def)
qed

lemma split_bits_sound:
  fixes x :: "'a::field nonnative_target"
  assumes "order_ok TYPE('a)" and "sat (split_nonnative_to_bits x) adv pos bits pos'"
  shows "\<exists>bs. map tval bits = map of_bool bs \<and> length bs = 32 * length x \<and> big_is x (of_limbs 2 (map of_bool bs))"
proof -
  let ?step = "\<lambda>result limb. circuit_bind (split_le_base_2 limb 32) (\<lambda>bits. circuit_return (result @ bits))"
  have "\<exists>bs. bits = acc @ drop (length acc) bits \<and> map tval (drop (length acc) bits) = map of_bool bs
      \<and> length bs = 32 * length x \<and> big_is x (of_limbs 2 (map of_bool bs))"
    if "sat (circuit_fold ?step acc x) adv pos bits pos'" for acc pos
    using that
  proof (induction x arbitrary: acc pos)
    case Nil
    then show ?case by (auto simp: big_is_def u32s_are_def)
  next
    case (Cons t x)
    from Cons.prems obtain bt p where t: "sat (split_le_base_2 t 32) adv pos bt p"
      "sat (circuit_fold ?step (acc @ bt) x) adv p bits pos'" by auto
    from split_le_base_sound [OF assms(1) t(1)] obtain b1 where
      b1: "map tval bt = map of_bool b1" "length b1 = 32" "u32_is t (of_limbs 2 (map of_bool b1))" by blast
    from Cons.IH [OF t(2)] obtain b2 where b2: "bits = (acc @ bt) @ drop (length (acc @ bt)) bits"
      "map tval (drop (length (acc @ bt)) bits) = map of_bool b2" "length b2 = 32 * length x"
      "big_is x (of_limbs 2 (map of_bool b2))" by blast
    have "drop (length acc) bits = bt @ drop (length (acc @ bt)) bits" by (subst b2(1)) simp
    then have "map tval (drop (length acc) bits) = map of_bool (b1 @ b2)" "bits = acc @ drop (length acc) bits"
      using b1(1) b2(1,2) by simp_all
    moreover have "big_is (t # x) (of_limbs 2 (map of_bool (b1 @ b2)))"
      using b1(2,3) b2(4) by (auto simp: big_is_def u32s_are_def of_limbs_append)
    ultimately show ?case using b1(2) b2(3) by (intro exI [of _ "b1 @ b2"]) simp
  qed
  from this [of "[]" pos] assms(2) show ?thesis by (simp add: split_nonnative_to_bits_def)
qed

section \<open>What the generators leave\<close>

lemma addition_generate_exact:
  assumes "a < ff_order FF" and "b < ff_order FF"
  shows "fst (addition_generate FF a b) + of_bool (snd (addition_generate FF a b)) * ff_order FF = a + b"
    and "fst (addition_generate FF a b) \<le> ff_order FF"
  using assms by (auto simp: addition_generate_def Let_def)

text \<open>The sum of a number and its negative is left at the order instead of zero.\<close>

lemma addition_generate_opposite:
  "0 < a \<Longrightarrow> a < ff_order FF \<Longrightarrow> addition_generate FF a (ff_order FF - a) = (ff_order FF, False)"
  by (simp add: addition_generate_def Let_def)

lemma subtraction_generate_exact:
  assumes "a < ff_order FF" and "b < ff_order FF"
  shows "fst (subtraction_generate_nonnative FF a b) + b = a + of_bool (snd (subtraction_generate_nonnative FF a b)) * ff_order FF"
    and "fst (subtraction_generate_nonnative FF a b) < ff_order FF"
  using assms by (auto simp: subtraction_generate_nonnative_def Let_def)

text \<open>
  The values for a product satisfy the equation of the circuit exactly when the inputs are
  reduced, or their product is not changed by reducing them.
\<close>

lemma multiplication_generate_exact_iff:
  "fst (multiplication_generate FF a b) + ff_order FF * snd (multiplication_generate FF a b) = a * b
    \<longleftrightarrow> (a mod ff_order FF) * (b mod ff_order FF) = a * b"
  by (simp add: multiplication_generate_def Let_def)

lemma foldl_plus: "foldl (\<lambda>a b. a + b) n xs = n + (sum_list xs :: nat)"
  by (induction xs arbitrary: n) simp_all

lemma multiple_adds_generate_panics:
  "sum_list (map (\<lambda>s. s mod ff_order FF) summands) < ff_order FF \<Longrightarrow> multiple_adds_generate FF summands = None"
  by (simp add: multiple_adds_generate_def Let_def foldl_plus)

text \<open>
  Property C21. The generators do not complete every sum: after adding a number to its negative,
  the value left is the order of the field, and the values then generated for a product of that
  sum with any other number do not satisfy the equation the product circuit checks.
\<close>

theorem opposite_sum_breaks_product:
  assumes "0 < a" and "a < ff_order FF" and "0 < b" and "addition_generate FF a (ff_order FF - a) = (s, ov)"
    and "multiplication_generate FF s b = (m, k)"
  shows "m + ff_order FF * k \<noteq> s * b"
proof -
  have "s = ff_order FF" using addition_generate_opposite [OF assms(1,2)] assms(4) by simp
  with multiplication_generate_exact_iff [of FF s b] assms show ?thesis by simp
qed

theorem opposite_sum_breaks_product_witness:
  "addition_generate \<lparr>ff_order = 13, ff_bits = 32\<rparr> 5 8 = (13, False) \<and> (0::nat) + 13 * 0 \<noteq> 13 * 2"
proof -
  have "addition_generate \<lparr>ff_order = 13, ff_bits = 32\<rparr> 5 (13 - 5) = (13, False)"
    "multiplication_generate \<lparr>ff_order = 13, ff_bits = 32\<rparr> 13 2 = (0, 0)"
    by (simp_all add: addition_generate_def multiplication_generate_def)
  with opposite_sum_breaks_product [of 5 "\<lparr>ff_order = 13, ff_bits = 32\<rparr>" 2 13 False 0 0] show ?thesis by simp
qed

end
