(* ===== verification/Ed_Field.thy ===== *)
theory Ed_Field
  imports Nonnative "HOL-Library.Word"
begin

text \<open>
  The two fields of the Ed25519 curve (\<open>circuits/plonky2_ed25519/src/field/ed25519_base.rs\<close> and
  \<open>ed25519_scalar.rs\<close>): numbers kept as four 64 bit words, with arithmetic through big integers.
  The two files differ in the order only, so the operations take it as an argument. On reduced
  arrays each operation is the arithmetic of integers modulo the order.
\<close>

unbundle bit_operations_syntax

section \<open>Arrays of words\<close>

type_synonym fe = "64 word list"

text \<open>\<open>BigUint::from_slice\<close> takes the 32 bit halves of the words, least significant first.\<close>

definition biguint_from_array :: "fe \<Rightarrow> nat" where
  "biguint_from_array arr =
     of_limbs (2 ^ 32) (concat (map (\<lambda>w. [unat (take_bit 32 w), unat (take_bit 32 (drop_bit 32 w))]) arr))"

fun to_u64_digits :: "nat \<Rightarrow> nat list" where
  "to_u64_digits n = (if n = 0 then [] else n mod 2 ^ 64 # to_u64_digits (n div 2 ^ 64))"

declare to_u64_digits.simps [simp del]

definition fe_ZERO :: fe where "fe_ZERO = replicate 4 0"

definition fe_ONE :: fe where "fe_ONE = [1, 0, 0, 0]"

definition fe_TWO :: fe where "fe_TWO = [2, 0, 0, 0]"

definition base_order :: nat where
  "base_order = of_limbs (2 ^ 32)
     [0xFFFFFFED, 0xFFFFFFFF, 0xFFFFFFFF, 0xFFFFFFFF, 0xFFFFFFFF, 0xFFFFFFFF, 0xFFFFFFFF, 0x7FFFFFFF]"

definition base_NEG_ONE :: fe where
  "base_NEG_ONE = [0xFFFFFFFFFFFFFFEC, 0xFFFFFFFFFFFFFFFF, 0xFFFFFFFFFFFFFFFF, 0x7FFFFFFFFFFFFFFF]"

definition scalar_order :: nat where
  "scalar_order = of_limbs (2 ^ 32)
     [0x5cf5d3ed, 0x5812631a, 0xa2f79cd6, 0x14def9de, 0x00000000, 0x00000000, 0x00000000, 0x10000000]"

definition scalar_NEG_ONE :: fe where
  "scalar_NEG_ONE = [0x5812631a5cf5d3ec, 0x14def9dea2f79cd6, 0x0000000000000000, 0x1000000000000000]"

section \<open>Operations\<close>

text \<open>
  The digits of the reduced number are padded to four words; the conversion of the vector to an array
  panics on any other length, which \<open>from_noncanonical_shape\<close> below excludes.
\<close>

definition from_noncanonical_biguint :: "nat \<Rightarrow> nat \<Rightarrow> fe" where
  "from_noncanonical_biguint order val =
     (let val = val mod order; digits = to_u64_digits val
      in map of_nat (digits @ replicate (4 - length digits) 0))"

definition from_canonical_u64 :: "64 word \<Rightarrow> fe" where
  "from_canonical_u64 n = [n, 0, 0, 0]"

definition from_noncanonical_u128 :: "128 word \<Rightarrow> fe" where
  "from_noncanonical_u128 n = [ucast n, ucast (drop_bit 64 n), 0, 0]"

definition from_noncanonical_u96 :: "64 word \<times> 32 word \<Rightarrow> fe" where
  "from_noncanonical_u96 n = [fst n, ucast (snd n), 0, 0]"

definition to_canonical_biguint :: "nat \<Rightarrow> fe \<Rightarrow> nat" where
  "to_canonical_biguint order x =
     (let result = biguint_from_array x in if order \<le> result then result - order else result)"

definition fe_eq :: "nat \<Rightarrow> fe \<Rightarrow> fe \<Rightarrow> bool" where
  "fe_eq order x y \<longleftrightarrow> to_canonical_biguint order x = to_canonical_biguint order y"

definition fe_is_zero :: "nat \<Rightarrow> fe \<Rightarrow> bool" where
  "fe_is_zero order x \<longleftrightarrow> fe_eq order x fe_ZERO"

definition fe_neg :: "nat \<Rightarrow> fe \<Rightarrow> fe" where
  "fe_neg order x = (if fe_is_zero order x then fe_ZERO
     else from_noncanonical_biguint order (order - to_canonical_biguint order x))"

definition fe_add :: "nat \<Rightarrow> fe \<Rightarrow> fe \<Rightarrow> fe" where
  "fe_add order x rhs =
     (let result = to_canonical_biguint order x + to_canonical_biguint order rhs;
          result = (if order \<le> result then result - order else result)
      in from_noncanonical_biguint order result)"

definition fe_sum :: "nat \<Rightarrow> fe list \<Rightarrow> fe" where
  "fe_sum order iter = foldl (\<lambda>acc x. fe_add order acc x) fe_ZERO iter"

definition fe_sub :: "nat \<Rightarrow> fe \<Rightarrow> fe \<Rightarrow> fe" where
  "fe_sub order x rhs = fe_add order x (fe_neg order rhs)"

definition fe_mul :: "nat \<Rightarrow> fe \<Rightarrow> fe \<Rightarrow> fe" where
  "fe_mul order x rhs = from_noncanonical_biguint order
     ((to_canonical_biguint order x * to_canonical_biguint order rhs) mod order)"

fun fe_product :: "nat \<Rightarrow> fe list \<Rightarrow> fe" where
  "fe_product order [] = fe_ONE"
| "fe_product order (x # xs) = foldl (\<lambda>acc x. fe_mul order acc x) x xs"

text \<open>\<open>exp_biguint\<close> of the field library: repeated squaring over the bits of the exponent.\<close>

fun fe_exp :: "nat \<Rightarrow> fe \<Rightarrow> nat \<Rightarrow> fe" where
  "fe_exp order x n = (if n = 0 then fe_ONE
     else let r = fe_exp order (fe_mul order x x) (n div 2) in if odd n then fe_mul order x r else r)"

declare fe_exp.simps [simp del]

definition try_inverse :: "nat \<Rightarrow> fe \<Rightarrow> fe option" where
  "try_inverse order x = (if fe_is_zero order x then None else Some (fe_exp order x (order - 1 - 1)))"

text \<open>\<open>inverse\<close> panics on zero, and so does the division.\<close>

definition fe_div :: "nat \<Rightarrow> fe \<Rightarrow> fe \<Rightarrow> fe option" where
  "fe_div order x rhs = (case try_inverse order rhs of None \<Rightarrow> None | Some i \<Rightarrow> Some (fe_mul order x i))"

section \<open>The value of an array\<close>

lemma word_halves: "unat (take_bit 32 w) + 2 ^ 32 * unat (take_bit 32 (drop_bit 32 w)) = unat (w :: 64 word)"
proof -
  have div: "unat (drop_bit 32 w) = unat w div 2 ^ 32" by (simp only: unat_drop_bit_eq, simp add: drop_bit_eq_div)
  have "unat w < 2 ^ 32 * 2 ^ 32" using unsigned_less [of w, where 'a = nat] by simp
  then have "unat w div 2 ^ 32 < 2 ^ 32" by (simp only: less_mult_imp_div_less)
  with div have "unat (take_bit 32 (drop_bit 32 w)) = unat w div 2 ^ 32"
    by (simp only: unsigned_take_bit_eq, simp add: take_bit_eq_mod)
  moreover have "unat (take_bit 32 w) = unat w mod 2 ^ 32" by (simp only: unsigned_take_bit_eq, simp add: take_bit_eq_mod)
  ultimately show ?thesis by simp
qed

lemma biguint_from_array_words: "biguint_from_array arr = of_limbs (2 ^ 64) (map unat arr)"
proof (induction arr)
  case (Cons w arr)
  have "biguint_from_array (w # arr) = unat (take_bit 32 w) + 2 ^ 32 * (unat (take_bit 32 (drop_bit 32 w)) + 2 ^ 32 * biguint_from_array arr)"
    by (simp add: biguint_from_array_def)
  also have "\<dots> = unat w + 2 ^ 64 * biguint_from_array arr" using word_halves [of w] by (simp add: algebra_simps)
  finally show ?case using Cons by simp
qed (simp add: biguint_from_array_def)

lemma to_u64_digits_value: "of_limbs (2 ^ 64) (to_u64_digits n) = n"
proof (induction n rule: to_u64_digits.induct)
  case (1 n)
  then show ?case by (subst to_u64_digits.simps) (auto simp del: power_numeral simp: mult.commute [of "2 ^ 64"] mod_div_mult_eq)
qed

lemma to_u64_digits_less: "d \<in> set (to_u64_digits n) \<Longrightarrow> d < 2 ^ 64"
proof (induction n rule: to_u64_digits.induct)
  case (1 n)
  then show ?case using to_u64_digits.simps [of n] by (auto split: if_splits)
qed

lemma to_u64_digits_length: "n < (2 ^ 64) ^ k \<Longrightarrow> length (to_u64_digits n) \<le> k"
proof (induction n arbitrary: k rule: to_u64_digits.induct)
  case (1 n)
  show ?case
  proof (cases k)
    case 0
    with 1 show ?thesis by (simp add: to_u64_digits.simps)
  next
    case (Suc k')
    have "n div 2 ^ 64 < (2 ^ 64) ^ k'" using 1(2) Suc by (simp add: less_mult_imp_div_less mult.commute)
    with 1(1) Suc show ?thesis by (subst to_u64_digits.simps) auto
  qed
qed

text \<open>The orders fit four words.\<close>

definition order_fits :: "nat \<Rightarrow> bool" where
  "order_fits order \<longleftrightarrow> 1 < order \<and> order < (2 ^ 64) ^ 4"

lemma orders_fit: "order_fits base_order" "order_fits scalar_order"
  by (simp_all add: order_fits_def base_order_def scalar_order_def)

text \<open>A reduced array, and its value.\<close>

definition fe_reduced :: "nat \<Rightarrow> fe \<Rightarrow> bool" where
  "fe_reduced order x \<longleftrightarrow> length x = 4 \<and> biguint_from_array x < order"

definition fe_is :: "nat \<Rightarrow> fe \<Rightarrow> nat \<Rightarrow> bool" where
  "fe_is order x v \<longleftrightarrow> fe_reduced order x \<and> biguint_from_array x = v"

lemma to_canonical_reduced [simp]: "fe_is order x v \<Longrightarrow> to_canonical_biguint order x = v"
  by (simp add: fe_is_def fe_reduced_def to_canonical_biguint_def)

lemma fe_is_less: "fe_is order x v \<Longrightarrow> v < order"
  by (auto simp: fe_is_def fe_reduced_def)

lemma from_noncanonical_shape:
  assumes "order_fits order"
  shows "length (to_u64_digits (v mod order)) \<le> 4" and "fe_is order (from_noncanonical_biguint order v) (v mod order)"
proof -
  have less: "v mod order < order" using assms by (simp add: order_fits_def)
  then have "v mod order < (2 ^ 64) ^ 4" using assms unfolding order_fits_def by (meson less_trans)
  then show len: "length (to_u64_digits (v mod order)) \<le> 4" by (rule to_u64_digits_length)
  have "map (unat \<circ> (of_nat :: nat \<Rightarrow> 64 word)) (to_u64_digits (v mod order)) = to_u64_digits (v mod order)"
    by (rule map_idI) (auto simp: unat_of_nat dest: to_u64_digits_less)
  then have "biguint_from_array (from_noncanonical_biguint order v) = v mod order"
    by (simp add: biguint_from_array_words from_noncanonical_biguint_def Let_def of_limbs_append to_u64_digits_value del: power_numeral)
  with len less show "fe_is order (from_noncanonical_biguint order v) (v mod order)"
    by (simp add: fe_is_def fe_reduced_def from_noncanonical_biguint_def Let_def)
qed

section \<open>Arithmetic modulo the order\<close>

lemma fe_consts:
  assumes "order_fits order"
  shows "fe_is order fe_ZERO 0" "fe_is order fe_ONE 1"
  using assms by (simp_all add: fe_is_def fe_reduced_def fe_ZERO_def fe_ONE_def biguint_from_array_words order_fits_def)

lemma fe_zero_iff: "order_fits order \<Longrightarrow> fe_is order x v \<Longrightarrow> fe_is_zero order x \<longleftrightarrow> v = 0"
  using to_canonical_reduced [OF fe_consts(1)] by (simp add: fe_is_zero_def fe_eq_def)

lemma fe_neg_is: "order_fits order \<Longrightarrow> fe_is order x v \<Longrightarrow> fe_is order (fe_neg order x) ((order - v) mod order)"
  using from_noncanonical_shape(2) fe_consts(1) by (auto simp: fe_neg_def fe_zero_iff)

lemma fe_add_is: "order_fits order \<Longrightarrow> fe_is order x v \<Longrightarrow> fe_is order y w \<Longrightarrow> fe_is order (fe_add order x y) ((v + w) mod order)"
  using from_noncanonical_shape(2) [of order "v + w"] from_noncanonical_shape(2) [of order "v + w - order"]
  by (auto simp: fe_add_def Let_def le_mod_geq)

lemma fe_sub_is:
  assumes "order_fits order" and "fe_is order x v" and "fe_is order y w"
  shows "fe_is order (fe_sub order x y) (nat ((int v - int w) mod int order))"
proof -
  have "w \<le> order" using fe_is_less [OF assms(3)] by simp
  then have "int ((v + (order - w) mod order) mod order) = (int v - int w) mod int order"
    by (simp add: zmod_int of_nat_diff mod_simps) (metis add_diff_eq add.commute mod_add_self2 diff_add_eq)
  then have "(v + (order - w) mod order) mod order = nat ((int v - int w) mod int order)" by linarith
  with fe_add_is [OF assms(1,2) fe_neg_is [OF assms(1,3)]] show ?thesis by (simp add: fe_sub_def)
qed

lemma fe_mul_is: "order_fits order \<Longrightarrow> fe_is order x v \<Longrightarrow> fe_is order y w \<Longrightarrow> fe_is order (fe_mul order x y) (v * w mod order)"
  using from_noncanonical_shape(2) [of order "v * w mod order"] by (simp add: fe_mul_def)

lemma fe_sum_is:
  assumes "order_fits order" and "list_all2 (fe_is order) xs vs"
  shows "fe_is order (fe_sum order xs) (sum_list vs mod order)"
proof -
  have "fe_is order (foldl (\<lambda>acc x. fe_add order acc x) a xs) ((v + sum_list vs) mod order)" if "fe_is order a v" for a v
    using assms(2) that
  proof (induction xs vs arbitrary: a v rule: list_all2_induct)
    case Nil
    then show ?case using fe_is_less by simp
  next
    case (Cons x xs w ws)
    from Cons.IH [OF fe_add_is [OF assms(1) Cons.prems Cons.hyps(1)]] show ?case by (simp add: mod_simps add.assoc)
  qed
  from this [OF fe_consts(1) [OF assms(1)]] show ?thesis by (simp add: fe_sum_def)
qed

lemma fe_product_is:
  assumes "order_fits order" and "list_all2 (fe_is order) xs vs"
  shows "fe_is order (fe_product order xs) (prod_list vs mod order)"
proof -
  have fold: "fe_is order (foldl (\<lambda>acc x. fe_mul order acc x) a xs) (v * prod_list vs mod order)"
    if "fe_is order a v" and "list_all2 (fe_is order) xs vs" for a v xs vs
    using that(2,1)
  proof (induction xs vs arbitrary: a v rule: list_all2_induct)
    case Nil
    then show ?case using fe_is_less by simp
  next
    case (Cons x xs w ws)
    from Cons.IH [OF fe_mul_is [OF assms(1) Cons.prems Cons.hyps(1)]] show ?case by (simp add: mod_simps mult.assoc)
  qed
  show ?thesis
  proof (cases xs)
    case Nil
    with assms fe_consts(2) [OF assms(1)] show ?thesis by (simp add: order_fits_def)
  next
    case (Cons x xs')
    with assms(2) fold show ?thesis by (auto simp: list_all2_Cons1)
  qed
qed

lemma fe_exp_is: "order_fits order \<Longrightarrow> fe_is order x v \<Longrightarrow> fe_is order (fe_exp order x n) (v ^ n mod order)"
proof (induction n arbitrary: x v rule: less_induct)
  case (less n)
  show ?case
  proof (cases "n = 0")
    case True
    with less.prems fe_consts(2) show ?thesis by (simp add: fe_exp.simps order_fits_def)
  next
    case False
    then have "fe_is order (fe_exp order (fe_mul order x x) (n div 2)) ((v * v mod order) ^ (n div 2) mod order)"
      using less.prems by (intro less.IH fe_mul_is) simp_all
    then have half: "fe_is order (fe_exp order (fe_mul order x x) (n div 2)) (v ^ (2 * (n div 2)) mod order)"
      by (simp only: power_mod power_mult power2_eq_square)
    show ?thesis
    proof (cases "odd n")
      case True
      then have "v ^ n = v * v ^ (2 * (n div 2))" by (auto elim!: oddE)
      then have "v ^ n mod order = v * (v ^ (2 * (n div 2)) mod order) mod order" by (simp only: mod_mult_right_eq)
      with True False fe_mul_is [OF less.prems half] show ?thesis by (subst fe_exp.simps) (simp only: Let_def if_True if_False not_False_eq_True)
    next
      case False
      with half \<open>n \<noteq> 0\<close> show ?thesis by (subst fe_exp.simps) (simp add: Let_def)
    qed
  qed
qed

text \<open>
  The inverse by Fermat's theorem. That the order is prime enters as the statement of the theorem.
\<close>

definition fermat_order :: "nat \<Rightarrow> bool" where
  "fermat_order order \<longleftrightarrow> order_fits order \<and> (\<forall>v \<in> {1..<order}. v ^ (order - 1) mod order = 1)"

lemma try_inverse_is:
  assumes "fermat_order order" and "fe_is order x v" and "0 < v"
  shows "\<exists>i u. try_inverse order x = Some i \<and> fe_is order i u \<and> v * u mod order = 1"
proof -
  have fits: "order_fits order" and "v < order" using assms fe_is_less by (auto simp: fermat_order_def)
  let ?u = "v ^ (order - 1 - 1) mod order"
  have "v * ?u mod order = v ^ Suc (order - 1 - 1) mod order" by (simp add: mod_simps)
  moreover have "Suc (order - 1 - 1) = order - 1" using fits by (auto simp: order_fits_def)
  moreover have "v ^ (order - 1) mod order = 1" using assms(1,3) \<open>v < order\<close> by (simp add: fermat_order_def)
  ultimately have "v * ?u mod order = 1" by (simp only:)
  then show ?thesis using fe_exp_is [OF fits assms(2)] fe_zero_iff [OF fits assms(2)] assms(3) by (auto simp: try_inverse_def)
qed

lemma fe_div_is:
  assumes "fermat_order order" and "fe_is order x v" and "fe_is order y w"
  shows "w = 0 \<Longrightarrow> fe_div order x y = None"
    and "0 < w \<Longrightarrow> \<exists>q u. fe_div order x y = Some q \<and> fe_is order q u \<and> u * w mod order = v"
proof -
  have fits: "order_fits order" using assms(1) by (simp add: fermat_order_def)
  show "w = 0 \<Longrightarrow> fe_div order x y = None" using fe_zero_iff [OF fits assms(3)] by (simp add: fe_div_def try_inverse_def)
  assume "0 < w"
  with try_inverse_is [OF assms(1,3)] obtain i u where i: "try_inverse order y = Some i" "fe_is order i u" "w * u mod order = 1" by blast
  have "v * u mod order * w mod order = v * (w * u mod order) mod order" by (simp add: mod_simps ac_simps)
  also have "\<dots> = v" using i(3) fe_is_less [OF assms(2)] by simp
  finally show "\<exists>q u. fe_div order x y = Some q \<and> fe_is order q u \<and> u * w mod order = v"
    using i(1) fe_mul_is [OF fits assms(2) i(2)] by (auto simp: fe_div_def)
qed

text \<open>The constants of the files are the negatives of one.\<close>

lemma neg_one_constants:
  "fe_is base_order base_NEG_ONE (base_order - 1)" "fe_is scalar_order scalar_NEG_ONE (scalar_order - 1)"
  by (simp_all add: fe_is_def fe_reduced_def biguint_from_array_words base_NEG_ONE_def base_order_def
      scalar_NEG_ONE_def scalar_order_def)

text \<open>
  An array of at least twice the order is reduced only once, so the number called canonical is not:
  equal field elements then compare as different.
\<close>

lemma to_canonical_once:
  "length x = 4 \<Longrightarrow> 2 * order \<le> biguint_from_array x \<Longrightarrow> order \<le> to_canonical_biguint order x"
  by (simp add: to_canonical_biguint_def Let_def)

end
