(* ===== verification/Ed_Curve.thy ===== *)
theory Ed_Curve
  imports Ed_Field
begin

text \<open>
  Twisted Edwards curves outside of circuits (\<open>circuits/plonky2_ed25519/src/curve\<close>): affine and
  projective points, their addition and doubling, and the parameters of Ed25519. A field element is its
  canonical number. The code divides with an inverse that panics on zero, so the operations that divide
  return an option. The sum of two points of the curve is on the curve, and the projective formulas
  compute the affine ones.
\<close>

section \<open>Field elements\<close>

record curve =
  cv_base :: ff
  cv_scalar :: ff
  cv_A :: int
  cv_D :: int

abbreviation prime_of :: "curve \<Rightarrow> int" where
  "prime_of C \<equiv> int (ff_order (cv_base C))"

text \<open>The power modulo the order by repeated squaring, and the inverse.\<close>

fun pow_mod :: "int \<Rightarrow> int \<Rightarrow> nat \<Rightarrow> int" where
  "pow_mod p x n = (if n = 0 then 1 mod p else let r = pow_mod p (x * x mod p) (n div 2) in if odd n then x * r mod p else r)"

declare pow_mod.simps [simp del]

definition field_inverse :: "int \<Rightarrow> int \<Rightarrow> int option" where
  "field_inverse p x = (if x mod p = 0 then None else Some (pow_mod p x (nat p - 1 - 1)))"

definition field_div :: "int \<Rightarrow> int \<Rightarrow> int \<Rightarrow> int option" where
  "field_div p x y = (case field_inverse p y of None \<Rightarrow> None | Some i \<Rightarrow> Some (x * i mod p))"

section \<open>Points\<close>

record affine_point =
  ap_x :: int
  ap_y :: int

record projective_point =
  pp_x :: int
  pp_y :: int
  pp_z :: int

definition affine_ZERO :: affine_point where
  "affine_ZERO = \<lparr>ap_x = 0, ap_y = 1\<rparr>"

definition affine_is_valid :: "curve \<Rightarrow> affine_point \<Rightarrow> bool" where
  "affine_is_valid C P \<longleftrightarrow> (let p = prime_of C; x = ap_x P; y = ap_y P in
     (cv_A C * (x * x) + y * y) mod p = (1 + cv_D C * (x * x) * (y * y)) mod p)"

definition to_projective :: "affine_point \<Rightarrow> projective_point" where
  "to_projective P = \<lparr>pp_x = ap_x P, pp_y = ap_y P, pp_z = 1\<rparr>"

definition batch_to_projective :: "affine_point list \<Rightarrow> projective_point list" where
  "batch_to_projective affine_points = map to_projective affine_points"

definition affine_double :: "curve \<Rightarrow> affine_point \<Rightarrow> affine_point option" where
  "affine_double C P =
     (let p = prime_of C; x = ap_x P; y = ap_y P; x_sq = x * x mod p; y_sq = y * y mod p;
          d_x_sq_y_sq = cv_D C * x_sq * y_sq mod p; xy = x * y mod p
      in case field_div p (xy + xy) (1 + d_x_sq_y_sq) of None \<Rightarrow> None | Some x1 \<Rightarrow>
         (case field_div p (y_sq - cv_A C * x_sq) (1 - d_x_sq_y_sq) of None \<Rightarrow> None | Some y1 \<Rightarrow>
            Some \<lparr>ap_x = x1, ap_y = y1\<rparr>))"

definition affine_neg :: "curve \<Rightarrow> affine_point \<Rightarrow> affine_point" where
  "affine_neg C P = P\<lparr>ap_x := - ap_x P mod prime_of C\<rparr>"

definition affine_add :: "curve \<Rightarrow> affine_point \<Rightarrow> affine_point \<Rightarrow> affine_point option" where
  "affine_add C P Q =
     (let p = prime_of C; x1 = ap_x P; y1 = ap_y P; x2 = ap_x Q; y2 = ap_y Q;
          x1x2 = x1 * x2 mod p; y1y2 = y1 * y2 mod p; x1y2 = x1 * y2 mod p; y1x2 = y1 * x2 mod p;
          dx1x2y1y2 = cv_D C * x1x2 * y1y2 mod p
      in case field_div p (x1y2 + y1x2) (1 + dx1x2y1y2) of None \<Rightarrow> None | Some x3 \<Rightarrow>
         (case field_div p (y1y2 - cv_A C * x1x2) (1 - dx1x2y1y2) of None \<Rightarrow> None | Some y3 \<Rightarrow>
            Some \<lparr>ap_x = x3, ap_y = y3\<rparr>))"

definition projective_ZERO :: projective_point where
  "projective_ZERO = \<lparr>pp_x = 0, pp_y = 1, pp_z = 1\<rparr>"

definition projective_is_valid :: "curve \<Rightarrow> projective_point \<Rightarrow> bool" where
  "projective_is_valid C P \<longleftrightarrow>
     (let p = prime_of C; x_sq = pp_x P * pp_x P mod p; y_sq = pp_y P * pp_y P mod p; z_sq = pp_z P * pp_z P mod p
      in pp_z P mod p \<noteq> 0 \<and>
         z_sq * (cv_A C * x_sq + y_sq) mod p = (z_sq * z_sq + cv_D C * x_sq * y_sq) mod p)"

definition to_affine :: "curve \<Rightarrow> projective_point \<Rightarrow> affine_point option" where
  "to_affine C P =
     (let p = prime_of C in case field_inverse p (pp_z P) of None \<Rightarrow> None | Some z_inv \<Rightarrow>
        Some \<lparr>ap_x = pp_x P * z_inv mod p, ap_y = pp_y P * z_inv mod p\<rparr>)"

definition projective_double :: "curve \<Rightarrow> projective_point \<Rightarrow> projective_point" where
  "projective_double C P =
     (let p = prime_of C; x = pp_x P; y = pp_y P; z = pp_z P;
          b = (x + y) * (x + y) mod p; c = x * x mod p; d = y * y mod p; e = c * cv_A C mod p; f = (e + d) mod p;
          h = z * z mod p; j = (f - 2 * h) mod p
      in \<lparr>pp_x = (b - c - d) * j mod p, pp_y = f * (e - d) mod p, pp_z = f * j mod p\<rparr>)"

definition projective_add :: "curve \<Rightarrow> projective_point \<Rightarrow> projective_point \<Rightarrow> projective_point" where
  "projective_add C P Q =
     (let p = prime_of C; x1 = pp_x P; y1 = pp_y P; z1 = pp_z P; x2 = pp_x Q; y2 = pp_y Q; z2 = pp_z Q;
          a = z1 * z2 mod p; b = a * a mod p; c = x1 * x2 mod p; d = y1 * y2 mod p; e = cv_D C * (c * d) mod p;
          f = (b - e) mod p; g = (b + e) mod p
      in \<lparr>pp_x = a * f * ((x1 + y1) * (x2 + y2) - c - d) mod p, pp_y = a * g * (d - cv_A C * c) mod p, pp_z = f * g mod p\<rparr>)"

definition projective_add_affine :: "curve \<Rightarrow> projective_point \<Rightarrow> affine_point \<Rightarrow> projective_point" where
  "projective_add_affine C P rhs = projective_add C P (to_projective rhs)"

definition add_slices :: "curve \<Rightarrow> projective_point list \<Rightarrow> projective_point list \<Rightarrow> projective_point list option" where
  "add_slices C a b = (if length a = length b then Some (map2 (projective_add C) a b) else None)"

definition projective_neg :: "curve \<Rightarrow> projective_point \<Rightarrow> projective_point" where
  "projective_neg C P = P\<lparr>pp_x := - pp_x P mod prime_of C\<rparr>"

definition projective_eq :: "curve \<Rightarrow> projective_point \<Rightarrow> projective_point \<Rightarrow> bool" where
  "projective_eq C P Q \<longleftrightarrow> (let p = prime_of C in
     pp_x P * pp_z Q mod p = pp_x Q * pp_z P mod p \<and> pp_y P * pp_z Q mod p = pp_y Q * pp_z P mod p)"

definition assert_curve_valid :: "curve \<Rightarrow> bool" where
  "assert_curve_valid C \<longleftrightarrow> cv_A C mod prime_of C \<noteq> 0 \<and> cv_D C mod prime_of C \<noteq> 0 \<and> cv_A C mod prime_of C \<noteq> cv_D C mod prime_of C"

text \<open>The parameters of Ed25519.\<close>

definition ed25519_base :: ff where
  "ed25519_base = \<lparr>ff_order = base_order, ff_bits = 256\<rparr>"

definition ed25519_scalar :: ff where
  "ed25519_scalar = \<lparr>ff_order = scalar_order, ff_bits = 256\<rparr>"

definition ed25519 :: curve where
  "ed25519 = \<lparr>cv_base = ed25519_base, cv_scalar = ed25519_scalar,
     cv_A = int (to_canonical_biguint base_order base_NEG_ONE),
     cv_D = int (to_canonical_biguint base_order [0x75eb4dca135978a3, 0x00700a4d4141d8ab, 0x8cc740797779e898, 0x52036cee2b6ffe73])\<rparr>"

definition ED25519_GENERATOR_X :: fe where
  "ED25519_GENERATOR_X = [0xc9562d608f25d51a, 0x692cc7609525a7b2, 0xc0a4e231fdd6dc5c, 0x216936d3cd6e53fe]"

definition ED25519_GENERATOR_Y :: fe where
  "ED25519_GENERATOR_Y = [0x6666666666666658, 0x6666666666666666, 0x6666666666666666, 0x6666666666666666]"

definition GENERATOR_AFFINE :: affine_point where
  "GENERATOR_AFFINE = \<lparr>ap_x = int (to_canonical_biguint base_order ED25519_GENERATOR_X),
     ap_y = int (to_canonical_biguint base_order ED25519_GENERATOR_Y)\<rparr>"

definition GENERATOR_PROJECTIVE :: projective_point where
  "GENERATOR_PROJECTIVE = \<lparr>pp_x = ap_x GENERATOR_AFFINE, pp_y = ap_y GENERATOR_AFFINE, pp_z = 1\<rparr>"

section \<open>The parameters are those of Ed25519\<close>

lemma base_order_value: "base_order = 2 ^ 255 - 19"
  by (simp add: base_order_def)

lemma canonical_value: "biguint_from_array x = v \<Longrightarrow> v < base_order \<Longrightarrow> int (to_canonical_biguint base_order x) = int v"
  by (simp add: to_canonical_biguint_def)

lemma ed25519_prime: "prime_of ed25519 = 2 ^ 255 - 19"
  by (simp add: ed25519_def ed25519_base_def base_order_value)

lemma ed25519_A: "cv_A ed25519 = 2 ^ 255 - 20"
  using neg_one_constants(1) by (simp add: ed25519_def base_order_value)

lemma ed25519_D: "cv_D ed25519 = 37095705934669439343138083508754565189542113879843219016388785533085940283555"
proof -
  have "biguint_from_array [0x75eb4dca135978a3, 0x00700a4d4141d8ab, 0x8cc740797779e898, 0x52036cee2b6ffe73]
      = 37095705934669439343138083508754565189542113879843219016388785533085940283555"
    by (simp add: biguint_from_array_words)
  from canonical_value [OF this] show ?thesis by (simp add: ed25519_def base_order_def)
qed

lemmas ed25519_values = ed25519_prime ed25519_A ed25519_D

lemma generator_values:
  "ap_x GENERATOR_AFFINE = 15112221349535400772501151409588531511454012693041857206046113283949847762202"
  "ap_y GENERATOR_AFFINE = 46316835694926478169428394003475163141307993866256225615783033603165251855960"
proof -
  have x: "biguint_from_array ED25519_GENERATOR_X = 15112221349535400772501151409588531511454012693041857206046113283949847762202"
    by (simp add: ED25519_GENERATOR_X_def biguint_from_array_words)
  have y: "biguint_from_array ED25519_GENERATOR_Y = 46316835694926478169428394003475163141307993866256225615783033603165251855960"
    by (simp add: ED25519_GENERATOR_Y_def biguint_from_array_words)
  show "ap_x GENERATOR_AFFINE = 15112221349535400772501151409588531511454012693041857206046113283949847762202"
    using canonical_value [OF x] by (simp add: GENERATOR_AFFINE_def base_order_def)
  show "ap_y GENERATOR_AFFINE = 46316835694926478169428394003475163141307993866256225615783033603165251855960"
    using canonical_value [OF y] by (simp add: GENERATOR_AFFINE_def base_order_def)
qed

lemma ed25519_curve_valid: "assert_curve_valid ed25519"
  by (simp add: assert_curve_valid_def ed25519_values)

section \<open>Inverses\<close>

definition cong_mod :: "int \<Rightarrow> int \<Rightarrow> int \<Rightarrow> bool" where
  "cong_mod p x y \<longleftrightarrow> p dvd x - y"

lemma cong_mod_iff: "cong_mod p x y \<longleftrightarrow> x mod p = y mod p"
  by (simp add: cong_mod_def mod_eq_dvd_iff)

lemma cong_mod_refl [simp]: "cong_mod p x x" "cong_mod p (x mod p) x" "cong_mod p x (x mod p)"
  by (simp_all add: cong_mod_iff)

lemma cong_mod_sym: "cong_mod p x y \<Longrightarrow> cong_mod p y x"
  by (simp add: cong_mod_iff)

lemma cong_mod_trans [trans]: "cong_mod p x y \<Longrightarrow> cong_mod p y z \<Longrightarrow> cong_mod p x z"
  by (simp add: cong_mod_iff)

lemma cong_mod_ring:
  assumes "cong_mod p x x'" and "cong_mod p y y'"
  shows "cong_mod p (x + y) (x' + y')" "cong_mod p (x - y) (x' - y')" "cong_mod p (x * y) (x' * y')"
  using assms unfolding cong_mod_iff by (metis mod_add_cong, metis mod_diff_cong, metis mod_mult_cong)

definition unit_mod :: "int \<Rightarrow> int \<Rightarrow> bool" where
  "unit_mod p u \<longleftrightarrow> (\<exists>w. cong_mod p (u * w) 1)"

lemma unit_mod_cong: "unit_mod p u \<Longrightarrow> cong_mod p u v \<Longrightarrow> unit_mod p v"
  unfolding unit_mod_def using cong_mod_ring(3) cong_mod_refl(1) cong_mod_sym cong_mod_trans by meson

lemma unit_mod_mult: "unit_mod p u \<Longrightarrow> unit_mod p v \<Longrightarrow> unit_mod p (u * v)"
proof -
  assume "unit_mod p u" "unit_mod p v"
  then obtain w z where "cong_mod p (u * w) 1" "cong_mod p (v * z) 1" by (auto simp: unit_mod_def)
  from cong_mod_ring(3) [OF this] have "cong_mod p (u * v * (w * z)) 1" by (simp add: ac_simps)
  then show ?thesis by (auto simp: unit_mod_def)
qed

lemma unit_mod_cancel:
  assumes "unit_mod p u" and "cong_mod p (u * x) (u * y)"
  shows "cong_mod p x y"
proof -
  from assms(1) obtain w where w: "cong_mod p (u * w) 1" by (auto simp: unit_mod_def)
  have "cong_mod p (1 * x) (u * w * x)" using cong_mod_ring(3) [OF cong_mod_sym [OF w] cong_mod_refl(1)] .
  moreover have "cong_mod p (u * x * w) (u * y * w)" using cong_mod_ring(3) [OF assms(2) cong_mod_refl(1)] .
  moreover have "cong_mod p (u * w * y) (1 * y)" using cong_mod_ring(3) [OF w cong_mod_refl(1)] .
  ultimately show ?thesis by (metis cong_mod_trans mult.assoc mult.commute mult_1)
qed

lemma unit_mod_nonzero: "1 < p \<Longrightarrow> unit_mod p u \<Longrightarrow> u mod p \<noteq> 0"
  unfolding unit_mod_def cong_mod_iff by (metis mod_mult_left_eq mod_pos_pos_trivial mult_zero_left zero_le_one zero_neq_one mod_0)

lemma pow_mod_value: "0 < p \<Longrightarrow> pow_mod p x n = x ^ n mod p"
proof (induction p x n rule: pow_mod.induct)
  case (1 p x n)
  show ?case
  proof (cases "n = 0")
    case False
    then have half: "pow_mod p (x * x mod p) (n div 2) = x ^ (2 * (n div 2)) mod p"
      using 1(1) [OF False 1(2)] by (simp only: power_mod power_mult power2_eq_square)
    show ?thesis
    proof (cases "odd n")
      case True
      then have "x ^ n = x * x ^ (2 * (n div 2))" by (auto elim!: oddE)
      then have "x ^ n mod p = x * (x ^ (2 * (n div 2)) mod p) mod p" by (simp only: mod_mult_right_eq)
      with True False half show ?thesis by (subst pow_mod.simps) (simp only: Let_def if_True if_False not_False_eq_True)
    qed (use False half in \<open>subst pow_mod.simps, simp add: Let_def\<close>)
  qed (simp add: pow_mod.simps)
qed

text \<open>Fermat's theorem for the order, the one consequence of its being prime that is used.\<close>

definition fermat :: "int \<Rightarrow> bool" where
  "fermat p \<longleftrightarrow> 1 < p \<and> (\<forall>x \<in> {1..<p}. x ^ (nat p - 1) mod p = 1)"

lemma field_inverse_some:
  assumes "fermat p" and "x mod p \<noteq> 0"
  shows "\<exists>i. field_inverse p x = Some i \<and> cong_mod p (x * i) 1"
proof -
  have p: "1 < p" using assms(1) by (simp add: fermat_def)
  let ?i = "x ^ (nat p - 1 - 1) mod p"
  have "Suc (nat p - 1 - 1) = nat p - 1" using p by simp
  then have "x * x ^ (nat p - 1 - 1) = x ^ (nat p - 1)" by (metis power_Suc)
  then have "x * ?i mod p = x ^ (nat p - 1) mod p" by (simp only: mod_mult_right_eq)
  also have "\<dots> = (x mod p) ^ (nat p - 1) mod p" by (simp only: power_mod)
  also have "0 < p" using p by simp
  then have "x mod p \<in> {1..<p}" using assms(2) pos_mod_bound [OF \<open>0 < p\<close>, of x] pos_mod_sign [OF \<open>0 < p\<close>, of x] unfolding atLeastLessThan_iff by linarith
  then have "(x mod p) ^ (nat p - 1) mod p = 1" using assms(1) by (auto simp: fermat_def)
  finally have "x * ?i mod p = 1 mod p" using p by simp
  then have "cong_mod p (x * ?i) 1" unfolding cong_mod_iff .
  moreover have "field_inverse p x = Some ?i" using assms(2) p by (simp add: field_inverse_def pow_mod_value)
  ultimately show ?thesis by blast
qed

lemma unit_mod_iff:
  assumes "fermat p"
  shows "unit_mod p x \<longleftrightarrow> x mod p \<noteq> 0"
proof
  show "unit_mod p x \<Longrightarrow> x mod p \<noteq> 0" using assms by (simp add: fermat_def unit_mod_nonzero del: mod_eq_0_iff_dvd)
  show "x mod p \<noteq> 0 \<Longrightarrow> unit_mod p x" using field_inverse_some [OF assms] unfolding unit_mod_def by blast
qed

text \<open>A quotient is the residue whose product with the divisor is the dividend.\<close>

lemma field_div_iff:
  assumes "fermat p"
  shows "field_div p x y = Some q \<longleftrightarrow> unit_mod p y \<and> cong_mod p (q * y) x \<and> 0 \<le> q \<and> q < p"
proof (cases "y mod p = 0")
  case True
  with unit_mod_iff [OF assms] show ?thesis by (simp add: field_div_def field_inverse_def)
next
  case False
  have p: "1 < p" using assms by (simp add: fermat_def)
  from field_inverse_some [OF assms False] obtain i where i: "field_inverse p y = Some i" "cong_mod p (y * i) 1" by blast
  have unit: "unit_mod p y" using i(2) by (auto simp: unit_mod_def)
  have xi: "cong_mod p (x * i mod p * y) x"
    using cong_mod_ring(3) [OF cong_mod_refl(1) i(2), of x] cong_mod_ring(3) [OF cong_mod_refl(2) cong_mod_refl(1), of p "x * i" y]
    by (metis cong_mod_trans mult.commute mult.left_commute mult_1)
  have "field_div p x y = Some q \<longleftrightarrow> q = x * i mod p" using i(1) by (auto simp: field_div_def)
  also have "\<dots> \<longleftrightarrow> cong_mod p (q * y) x \<and> 0 \<le> q \<and> q < p"
  proof
    assume "cong_mod p (q * y) x \<and> 0 \<le> q \<and> q < p"
    moreover from this have "cong_mod p q (x * i mod p)"
      using unit_mod_cancel [OF unit] cong_mod_trans [OF _ cong_mod_sym [OF xi]] by (metis mult.commute)
    ultimately show "q = x * i mod p" by (simp add: cong_mod_iff)
  qed (use xi p in auto)
  finally show ?thesis using unit by simp
qed

section \<open>The Edwards addition law\<close>

text \<open>
  The law on coordinates modulo the order: both denominators are invertible and the quotients
  are the coordinates of the sum. The sum is unique modulo the order.
\<close>

definition on_curve :: "curve \<Rightarrow> int \<times> int \<Rightarrow> bool" where
  "on_curve C P \<longleftrightarrow> (case P of (x, y) \<Rightarrow>
     cong_mod (prime_of C) (cv_A C * (x * x) + y * y) (1 + cv_D C * (x * x) * (y * y)))"

definition curve_sum :: "curve \<Rightarrow> int \<times> int \<Rightarrow> int \<times> int \<Rightarrow> int \<times> int \<Rightarrow> bool" where
  "curve_sum C P Q R \<longleftrightarrow> (case P of (x1, y1) \<Rightarrow> case Q of (x2, y2) \<Rightarrow> case R of (x3, y3) \<Rightarrow>
     let p = prime_of C; t = cv_D C * (x1 * x2) * (y1 * y2)
     in unit_mod p (1 + t) \<and> unit_mod p (1 - t) \<and> cong_mod p (x3 * (1 + t)) (x1 * y2 + y1 * x2)
        \<and> cong_mod p (y3 * (1 - t)) (y1 * y2 - cv_A C * (x1 * x2)))"

abbreviation coords :: "affine_point \<Rightarrow> int \<times> int" where
  "coords P \<equiv> (ap_x P, ap_y P)"

definition canonical_point :: "curve \<Rightarrow> affine_point \<Rightarrow> bool" where
  "canonical_point C P \<longleftrightarrow> ap_x P \<in> {0..<prime_of C} \<and> ap_y P \<in> {0..<prime_of C}"

lemma affine_is_valid_iff: "affine_is_valid C P \<longleftrightarrow> on_curve C (coords P)"
  by (simp add: affine_is_valid_def on_curve_def cong_mod_iff Let_def)

lemma cong_mod_swap: "cong_mod p x x' \<Longrightarrow> cong_mod p y y' \<Longrightarrow> cong_mod p x y \<longleftrightarrow> cong_mod p x' y'"
  by (simp add: cong_mod_iff)

lemma cong_mod_reduce:
  "cong_mod p (d * (a mod p) * (b mod p) mod p) (d * a * b)" "cong_mod p (a mod p + b mod p) (a + b)"
  "cong_mod p (a mod p - d * (b mod p)) (a - d * b)"
  by (rule cong_mod_trans [OF cong_mod_refl(2)], (intro cong_mod_ring cong_mod_refl)+)

lemma unit_mod_swap: "cong_mod p u v \<Longrightarrow> unit_mod p u \<longleftrightarrow> unit_mod p v"
  using unit_mod_cong cong_mod_sym by blast

lemma affine_add_iff:
  assumes "fermat (prime_of C)"
  shows "affine_add C P Q = Some R \<longleftrightarrow> curve_sum C (coords P) (coords Q) (coords R) \<and> canonical_point C R"
proof -
  let ?p = "prime_of C"
  let ?t' = "cv_D C * (ap_x P * ap_x Q mod ?p) * (ap_y P * ap_y Q mod ?p) mod ?p" and ?t = "cv_D C * (ap_x P * ap_x Q) * (ap_y P * ap_y Q)"
  let ?X' = "ap_x P * ap_y Q mod ?p + ap_y P * ap_x Q mod ?p" and ?Y' = "ap_y P * ap_y Q mod ?p - cv_A C * (ap_x P * ap_x Q mod ?p)"
  have t: "cong_mod ?p (1 + ?t') (1 + ?t)" "cong_mod ?p (1 - ?t') (1 - ?t)"
    using cong_mod_ring(1,2) [OF cong_mod_refl(1) cong_mod_reduce(1)] by blast+
  have "affine_add C P Q = Some R \<longleftrightarrow> field_div ?p ?X' (1 + ?t') = Some (ap_x R) \<and> field_div ?p ?Y' (1 - ?t') = Some (ap_y R)"
    by (cases R) (auto simp: affine_add_def Let_def split: option.splits)
  also have "\<dots> \<longleftrightarrow> curve_sum C (coords P) (coords Q) (coords R) \<and> canonical_point C R"
    unfolding field_div_iff [OF assms] unit_mod_swap [OF t(1)] unit_mod_swap [OF t(2)]
      cong_mod_swap [OF cong_mod_ring(3) [OF cong_mod_refl(1) t(1)] cong_mod_reduce(2)]
      cong_mod_swap [OF cong_mod_ring(3) [OF cong_mod_refl(1) t(2)] cong_mod_reduce(3)]
    by (auto simp: curve_sum_def canonical_point_def Let_def)
  finally show ?thesis .
qed

lemma curve_sum_unique:
  assumes "curve_sum C P Q (x, y)" and "curve_sum C P Q (x', y')"
  shows "cong_mod (prime_of C) x x'" "cong_mod (prime_of C) y y'"
proof -
  obtain x1 y1 x2 y2 where PQ: "P = (x1, y1)" "Q = (x2, y2)" by (cases P, cases Q)
  let ?p = "prime_of C" and ?t = "cv_D C * (x1 * x2) * (y1 * y2)"
  from assms have "unit_mod ?p (1 + ?t)" "cong_mod ?p ((1 + ?t) * x) ((1 + ?t) * x')"
    and y: "unit_mod ?p (1 - ?t)" "cong_mod ?p ((1 - ?t) * y) ((1 - ?t) * y')"
    unfolding curve_sum_def PQ Let_def by (auto simp: mult.commute cong_mod_iff)
  from unit_mod_cancel [OF this(1,2)] unit_mod_cancel [OF y] show "cong_mod ?p x x'" "cong_mod ?p y y'" .
qed

text \<open>The polynomial identity behind the closure of the law, in the sums of squares of the two points.\<close>

lemma edwards_identity:
  fixes a d x1 y1 x2 y2 :: int
  defines "t \<equiv> d * (x1 * x2) * (y1 * y2)" and "X \<equiv> x1 * y2 + y1 * x2" and "Y \<equiv> y1 * y2 - a * (x1 * x2)"
  defines "s1 \<equiv> a * (x1 * x1) + y1 * y1" and "s2 \<equiv> a * (x2 * x2) + y2 * y2"
  defines "u1 \<equiv> d * (x1 * x1) * (y1 * y1)" and "u2 \<equiv> d * (x2 * x2) * (y2 * y2)"
  shows "a * ((1 - t) * (1 - t)) * (X * X) + (1 + t) * (1 + t) * (Y * Y) - ((1 + t) * (1 + t) * ((1 - t) * (1 - t)) + d * (X * X) * (Y * Y))
    = s1 * s2 * (1 + u1 * u2) - (1 - u1 * u2) * (1 - u1 * u2) - u1 * (s2 * s2) - u2 * (s1 * s1)"
  unfolding assms by algebra

lemma curve_identity: "(1 + u) * (1 + v) * (1 + u * v) - (1 - u * v) * (1 - u * v) - u * ((1 + v) * (1 + v)) - v * ((1 + u) * (1 + u)) = (0::int)"
  by algebra

lemma curve_sum_closed:
  assumes "on_curve C P" and "on_curve C Q" and "curve_sum C P Q R"
  shows "on_curve C R"
proof -
  obtain x1 y1 x2 y2 x3 y3 where PQR: "P = (x1, y1)" "Q = (x2, y2)" "R = (x3, y3)" by (cases P, cases Q, cases R)
  let ?p = "prime_of C" and ?a = "cv_A C" and ?d = "cv_D C"
  define t where "t = ?d * (x1 * x2) * (y1 * y2)"
  define X where "X = x1 * y2 + y1 * x2"
  define Y where "Y = y1 * y2 - ?a * (x1 * x2)"
  define u1 where "u1 = ?d * (x1 * x1) * (y1 * y1)"
  define u2 where "u2 = ?d * (x2 * x2) * (y2 * y2)"
  define s1 where "s1 = ?a * (x1 * x1) + y1 * y1"
  define s2 where "s2 = ?a * (x2 * x2) + y2 * y2"
  have s: "cong_mod ?p s1 (1 + u1)" "cong_mod ?p s2 (1 + u2)"
    using assms(1,2) by (simp_all add: on_curve_def PQR s1_def s2_def u1_def u2_def)
  have q: "unit_mod ?p (1 + t)" "unit_mod ?p (1 - t)" "cong_mod ?p (x3 * (1 + t)) X" "cong_mod ?p (y3 * (1 - t)) Y"
    using assms(3) by (simp_all add: curve_sum_def PQR Let_def t_def X_def Y_def)
  let ?F = "\<lambda>v w. v * w * (1 + u1 * u2) - (1 - u1 * u2) * (1 - u1 * u2) - u1 * (w * w) - u2 * (v * v)"
  have "cong_mod ?p (?F s1 s2) (?F (1 + u1) (1 + u2))"
    by (intro cong_mod_ring cong_mod_refl s)
  then have zero: "cong_mod ?p (?F s1 s2) 0" using curve_identity [of u1 u2] by simp
  let ?M = "(1 + t) * (1 + t) * ((1 - t) * (1 - t))"
  let ?L = "?a * ((1 - t) * (1 - t)) * (X * X) + (1 + t) * (1 + t) * (Y * Y)" and ?R = "?M + ?d * (X * X) * (Y * Y)"
  have "?L - ?R = ?F s1 s2" using edwards_identity [of ?a ?d x1 x2 y1 y2]
    by (simp only: t_def X_def Y_def u1_def u2_def s1_def s2_def)
  with zero have LR: "cong_mod ?p ?L ?R" by (simp add: cong_mod_def)
  have "cong_mod ?p (?a * ((1 - t) * (1 - t)) * ((x3 * (1 + t)) * (x3 * (1 + t))) + (1 + t) * (1 + t) * ((y3 * (1 - t)) * (y3 * (1 - t)))) ?L"
    by (intro cong_mod_ring cong_mod_refl q)
  moreover have "cong_mod ?p (?M + ?d * ((x3 * (1 + t)) * (x3 * (1 + t))) * ((y3 * (1 - t)) * (y3 * (1 - t)))) ?R"
    by (intro cong_mod_ring cong_mod_refl q)
  ultimately have "cong_mod ?p (?M * (?a * (x3 * x3) + y3 * y3)) (?M * (1 + ?d * (x3 * x3) * (y3 * y3)))"
    using LR by (simp add: cong_mod_iff algebra_simps)
  moreover have "unit_mod ?p ?M" by (intro unit_mod_mult q)
  ultimately show ?thesis using unit_mod_cancel by (simp add: on_curve_def PQR)
qed

section \<open>Projective points\<close>

text \<open>A projective point stands for an affine one.\<close>

definition proj_is :: "curve \<Rightarrow> projective_point \<Rightarrow> int \<times> int \<Rightarrow> bool" where
  "proj_is C P q \<longleftrightarrow> (case q of (x, y) \<Rightarrow>
     unit_mod (prime_of C) (pp_z P) \<and> cong_mod (prime_of C) (x * pp_z P) (pp_x P) \<and> cong_mod (prime_of C) (y * pp_z P) (pp_y P))"

lemma field_div_inverse: "field_div p x y = Some q \<longleftrightarrow> (\<exists>i. field_inverse p y = Some i \<and> q = x * i mod p)"
  by (auto simp: field_div_def split: option.splits)

lemma to_affine_iff:
  assumes "fermat (prime_of C)"
  shows "to_affine C P = Some q \<longleftrightarrow> proj_is C P (coords q) \<and> canonical_point C q"
proof -
  have "to_affine C P = Some q \<longleftrightarrow> field_div (prime_of C) (pp_x P) (pp_z P) = Some (ap_x q) \<and> field_div (prime_of C) (pp_y P) (pp_z P) = Some (ap_y q)"
    by (cases q) (auto simp: to_affine_def field_div_inverse Let_def split: option.splits)
  then show ?thesis unfolding field_div_iff [OF assms] by (auto simp: proj_is_def canonical_point_def)
qed

lemma to_projective_is [simp]: "proj_is C (to_projective P) (coords P)"
  by (auto simp: proj_is_def to_projective_def unit_mod_def intro: exI [of _ 1])

text \<open>The coordinates of a projective sum, with the reductions of the code removed.\<close>

lemma projective_add_coords:
  assumes "cong_mod p (pp_x P) (x1 * z1)" "cong_mod p (pp_y P) (y1 * z1)" "pp_z P = z1"
    and "cong_mod p (pp_x Q) (x2 * z2)" "cong_mod p (pp_y Q) (y2 * z2)" "pp_z Q = z2"
    and "p = prime_of C" and "t = cv_D C * (x1 * x2) * (y1 * y2)" and "W = z1 * z2 * (z1 * z2)"
  shows "cong_mod p (pp_z (projective_add C P Q)) (W * (1 - t) * (W * (1 + t)))"
    and "cong_mod p (pp_x (projective_add C P Q)) (W * (1 - t) * W * (x1 * y2 + y1 * x2))"
    and "cong_mod p (pp_y (projective_add C P Q)) (W * (1 + t) * W * (y1 * y2 - cv_A C * (x1 * x2)))"
proof -
  let ?a = "cv_A C" and ?d = "cv_D C"
  define Z where "Z = z1 * z2"
  let ?c = "x1 * z1 * (x2 * z2)" and ?e = "y1 * z1 * (y2 * z2)"
  let ?c' = "pp_x P * pp_x Q mod p" and ?e' = "pp_y P * pp_y Q mod p" and ?z' = "Z mod p"
  let ?b' = "?z' * ?z' mod p" and ?de' = "?d * (?c' * ?e') mod p"
  note red = cong_mod_trans [OF cong_mod_refl(2)]
  have c: "cong_mod p ?c' ?c" and e: "cong_mod p ?e' ?e" and z: "cong_mod p ?z' Z"
    by (rule red, intro cong_mod_ring assms)+ simp
  have "?d * (?c * ?e) = t * W" by (simp add: assms(8,9) algebra_simps)
  then have E: "cong_mod p ?de' (t * W)"
    using red [OF cong_mod_ring(3) [OF cong_mod_refl(1) cong_mod_ring(3) [OF c e]]] by metis
  have B: "cong_mod p ?b' W" unfolding assms(9) Z_def [symmetric] by (rule red, intro cong_mod_ring z)
  have f: "cong_mod p ((?b' - ?de') mod p) (W * (1 - t))" and g: "cong_mod p ((?b' + ?de') mod p) (W * (1 + t))"
    using red [OF cong_mod_ring(2) [OF B E]] red [OF cong_mod_ring(1) [OF B E]] by (simp_all add: algebra_simps)
  have sum: "projective_add C P Q = \<lparr>pp_x = ?z' * ((?b' - ?de') mod p) * ((pp_x P + pp_y P) * (pp_x Q + pp_y Q) - ?c' - ?e') mod p,
      pp_y = ?z' * ((?b' + ?de') mod p) * (?e' - ?a * ?c') mod p, pp_z = (?b' - ?de') mod p * ((?b' + ?de') mod p) mod p\<rparr>"
    by (simp only: projective_add_def Let_def Z_def assms)
  show "cong_mod p (pp_z (projective_add C P Q)) (W * (1 - t) * (W * (1 + t)))"
    unfolding sum by (simp only: projective_point.simps, rule red, intro cong_mod_ring f g)
  have "cong_mod p (pp_x (projective_add C P Q)) (Z * (W * (1 - t)) * ((x1 * z1 + y1 * z1) * (x2 * z2 + y2 * z2) - ?c - ?e))"
    unfolding sum by (simp only: projective_point.simps, rule red, intro cong_mod_ring f z c e assms)
  also have "Z * (W * (1 - t)) * ((x1 * z1 + y1 * z1) * (x2 * z2 + y2 * z2) - ?c - ?e) = W * (1 - t) * W * (x1 * y2 + y1 * x2)"
    unfolding Z_def assms(9) by algebra
  finally show "cong_mod p (pp_x (projective_add C P Q)) (W * (1 - t) * W * (x1 * y2 + y1 * x2))" .
  have "cong_mod p (pp_y (projective_add C P Q)) (Z * (W * (1 + t)) * (?e - ?a * ?c))"
    unfolding sum by (simp only: projective_point.simps, rule red, intro cong_mod_ring cong_mod_refl g z c e)
  also have "Z * (W * (1 + t)) * (?e - ?a * ?c) = W * (1 + t) * W * (y1 * y2 - ?a * (x1 * x2))"
    unfolding Z_def assms(9) by algebra
  finally show "cong_mod p (pp_y (projective_add C P Q)) (W * (1 + t) * W * (y1 * y2 - ?a * (x1 * x2)))" .
qed

text \<open>A projective point stands for the quotients of its coordinates by an invertible \<open>z\<close>.\<close>

lemma proj_isI:
  assumes "unit_mod (prime_of C) w" and "cong_mod (prime_of C) (pp_z P) w"
    and "cong_mod (prime_of C) (pp_x P) (x * w)" and "cong_mod (prime_of C) (pp_y P) (y * w)"
  shows "proj_is C P (x, y)"
  using unit_mod_cong [OF assms(1) cong_mod_sym [OF assms(2)]] assms(3,4)
    cong_mod_trans [OF cong_mod_ring(3) [OF cong_mod_refl(1) assms(2)] cong_mod_sym] by (simp add: proj_is_def)

text \<open>The sum of projective points stands for the sum of the points.\<close>

lemma projective_add_is:
  assumes "proj_is C P (x1, y1)" and "proj_is C Q (x2, y2)" and "curve_sum C (x1, y1) (x2, y2) (x3, y3)"
  shows "proj_is C (projective_add C P Q) (x3, y3)"
proof -
  let ?p = "prime_of C" and ?W = "pp_z P * pp_z Q * (pp_z P * pp_z Q)"
  define t where "t = cv_D C * (x1 * x2) * (y1 * y2)"
  have P: "unit_mod ?p (pp_z P)" "cong_mod ?p (pp_x P) (x1 * pp_z P)" "cong_mod ?p (pp_y P) (y1 * pp_z P)"
    and Q: "unit_mod ?p (pp_z Q)" "cong_mod ?p (pp_x Q) (x2 * pp_z Q)" "cong_mod ?p (pp_y Q) (y2 * pp_z Q)"
    using assms(1,2) by (auto simp: proj_is_def intro: cong_mod_sym)
  have S: "unit_mod ?p (1 + t)" "unit_mod ?p (1 - t)" "cong_mod ?p (x1 * y2 + y1 * x2) (x3 * (1 + t))"
    "cong_mod ?p (y1 * y2 - cv_A C * (x1 * x2)) (y3 * (1 - t))"
    using assms(3) by (auto simp: curve_sum_def Let_def t_def intro: cong_mod_sym)
  note coords = projective_add_coords [OF P(2,3) refl Q(2,3) refl refl t_def refl]
  show ?thesis
  proof (rule proj_isI [OF _ coords(1)])
    show "unit_mod ?p (?W * (1 - t) * (?W * (1 + t)))" by (intro unit_mod_mult P Q S)
    have "cong_mod ?p (?W * (1 - t) * ?W * (x1 * y2 + y1 * x2)) (?W * (1 - t) * ?W * (x3 * (1 + t)))"
      by (intro cong_mod_ring cong_mod_refl S)
    from cong_mod_trans [OF coords(2) this] show "cong_mod ?p (pp_x (projective_add C P Q)) (x3 * (?W * (1 - t) * (?W * (1 + t))))"
      by (simp only: ac_simps)
    have "cong_mod ?p (?W * (1 + t) * ?W * (y1 * y2 - cv_A C * (x1 * x2))) (?W * (1 + t) * ?W * (y3 * (1 - t)))"
      by (intro cong_mod_ring cong_mod_refl S)
    from cong_mod_trans [OF coords(3) this] show "cong_mod ?p (pp_y (projective_add C P Q)) (y3 * (?W * (1 - t) * (?W * (1 + t))))"
      by (simp only: ac_simps)
  qed
qed

text \<open>Doubling uses the equation of the curve: its common denominator is the sum of squares.\<close>

lemma projective_double_is:
  assumes "proj_is C P (x, y)" and "on_curve C (x, y)" and "curve_sum C (x, y) (x, y) (x3, y3)"
  shows "proj_is C (projective_double C P) (x3, y3)"
proof -
  let ?p = "prime_of C" and ?a = "cv_A C" and ?d = "cv_D C"
  define z where "z = pp_z P"
  define t where "t = ?d * (x * x) * (y * y)"
  have P: "unit_mod ?p z" "cong_mod ?p (pp_x P) (x * z)" "cong_mod ?p (pp_y P) (y * z)"
    using assms(1) by (auto simp: proj_is_def z_def intro: cong_mod_sym)
  have S: "unit_mod ?p (1 + t)" "unit_mod ?p (1 - t)" "cong_mod ?p (x * y + y * x) (x3 * (1 + t))"
    "cong_mod ?p (y * y - ?a * (x * x)) (y3 * (1 - t))" and cv: "cong_mod ?p (?a * (x * x) + y * y) (1 + t)"
    using assms(2,3) by (auto simp: curve_sum_def on_curve_def Let_def t_def intro: cong_mod_sym)
  let ?b = "(pp_x P + pp_y P) * (pp_x P + pp_y P) mod ?p" and ?c = "pp_x P * pp_x P mod ?p" and ?e = "pp_y P * pp_y P mod ?p"
  let ?f = "(?c * ?a mod ?p + ?e) mod ?p" and ?h = "z * z mod ?p"
  note red = cong_mod_trans [OF cong_mod_refl(2)]
  have b: "cong_mod ?p ?b ((x * z + y * z) * (x * z + y * z))" and c: "cong_mod ?p ?c (x * z * (x * z))" and e: "cong_mod ?p ?e (y * z * (y * z))"
    by (rule red, intro cong_mod_ring P)+
  have ca: "cong_mod ?p (?c * ?a mod ?p) (x * z * (x * z) * ?a)" by (rule red, intro cong_mod_ring cong_mod_refl c)
  have "cong_mod ?p ?f (x * z * (x * z) * ?a + y * z * (y * z))" by (rule red, intro cong_mod_ring ca e)
  also have "x * z * (x * z) * ?a + y * z * (y * z) = z * z * (?a * (x * x) + y * y)" by (simp add: algebra_simps)
  also have "cong_mod ?p \<dots> (z * z * (1 + t))" by (intro cong_mod_ring cong_mod_refl cv)
  finally have f: "cong_mod ?p ?f (z * z * (1 + t))" .
  have "cong_mod ?p ((?f - 2 * ?h) mod ?p) (z * z * (1 + t) - 2 * (z * z))"
    by (rule red, intro cong_mod_ring cong_mod_refl f)
  then have j: "cong_mod ?p ((?f - 2 * ?h) mod ?p) (- (z * z * (1 - t)))" by (simp add: algebra_simps)
  have dbl: "projective_double C P = \<lparr>pp_x = (?b - ?c - ?e) * ((?f - 2 * ?h) mod ?p) mod ?p,
      pp_y = ?f * (?c * ?a mod ?p - ?e) mod ?p, pp_z = ?f * ((?f - 2 * ?h) mod ?p) mod ?p\<rparr>"
    by (simp only: projective_double_def Let_def z_def)
  let ?w = "z * z * (1 + t) * - (z * z * (1 - t))"
  show ?thesis
  proof (rule proj_isI)
    have "unit_mod ?p (-1)" by (auto simp: unit_mod_def intro: exI [of _ "-1"])
    then have "unit_mod ?p (z * z * (1 + t) * (-1 * (z * z * (1 - t))))" by (intro unit_mod_mult P S)
    then show "unit_mod ?p ?w" by simp
    show "cong_mod ?p (pp_z (projective_double C P)) ?w"
      unfolding dbl by (simp only: projective_point.simps, rule red, intro cong_mod_ring f j)
    have "cong_mod ?p (pp_x (projective_double C P))
        (((x * z + y * z) * (x * z + y * z) - x * z * (x * z) - y * z * (y * z)) * - (z * z * (1 - t)))"
      unfolding dbl by (simp only: projective_point.simps, rule red, intro cong_mod_ring b c e j)
    also have "\<dots> = (x * y + y * x) * (z * z * - (z * z * (1 - t)))" by (simp add: algebra_simps)
    also have "cong_mod ?p \<dots> (x3 * (1 + t) * (z * z * - (z * z * (1 - t))))" by (intro cong_mod_ring cong_mod_refl S)
    finally show "cong_mod ?p (pp_x (projective_double C P)) (x3 * ?w)" by (simp only: ac_simps)
    have "cong_mod ?p (pp_y (projective_double C P)) (z * z * (1 + t) * (x * z * (x * z) * ?a - y * z * (y * z)))"
      unfolding dbl by (simp only: projective_point.simps, rule red, intro cong_mod_ring f ca e)
    also have "\<dots> = (y * y - ?a * (x * x)) * (z * z * (1 + t) * - (z * z))" by (simp add: algebra_simps)
    also have "cong_mod ?p \<dots> (y3 * (1 - t) * (z * z * (1 + t) * - (z * z)))" by (intro cong_mod_ring cong_mod_refl S)
    finally show "cong_mod ?p (pp_y (projective_double C P)) (y3 * ?w)" by (simp add: algebra_simps)
  qed
qed

lemma affine_double_iff:
  assumes "fermat (prime_of C)"
  shows "affine_double C P = Some R \<longleftrightarrow> curve_sum C (coords P) (coords P) (coords R) \<and> canonical_point C R"
proof -
  have "affine_double C P = affine_add C P P" by (simp add: affine_double_def affine_add_def Let_def mult.commute)
  with affine_add_iff [OF assms] show ?thesis by simp
qed

section \<open>Properties\<close>

text \<open>
  Property C22. Adding two valid points of a twisted Edwards curve gives a valid point, whenever the
  addition does not panic on a division by zero. The order of the base field is prime, which
  enters as Fermat's theorem for it.
\<close>

theorem affine_add_valid:
  assumes "fermat (prime_of C)" and "affine_is_valid C P" and "affine_is_valid C Q" and "affine_add C P Q = Some R"
  shows "affine_is_valid C R"
  using assms(2-4) curve_sum_closed unfolding affine_is_valid_iff affine_add_iff [OF assms(1)] by blast

text \<open>The curve with \<open>a = - 1\<close> and \<open>d = 2\<close> over the field of thirteen elements.\<close>

definition small_field :: ff where
  "small_field = \<lparr>ff_order = 13, ff_bits = 32\<rparr>"

definition small_curve :: curve where
  "small_curve = \<lparr>cv_base = small_field, cv_scalar = \<lparr>ff_order = 2, ff_bits = 256\<rparr>, cv_A = 12, cv_D = 2\<rparr>"

lemma fermat_13: "fermat 13"
  by code_simp

lemma small_prime [simp]: "prime_of small_curve = 13"
  by (simp add: small_curve_def small_field_def)

theorem affine_add_valid_witness:
  "affine_add small_curve \<lparr>ap_x = 2, ap_y = 4\<rparr> \<lparr>ap_x = 10, ap_y = 11\<rparr> = Some \<lparr>ap_x = 6, ap_y = 10\<rparr>
    \<and> affine_is_valid small_curve \<lparr>ap_x = 6, ap_y = 10\<rparr>"
proof -
  have "affine_add small_curve \<lparr>ap_x = 2, ap_y = 4\<rparr> \<lparr>ap_x = 10, ap_y = 11\<rparr> = Some \<lparr>ap_x = 6, ap_y = 10\<rparr>"
    "affine_is_valid small_curve \<lparr>ap_x = 2, ap_y = 4\<rparr>" "affine_is_valid small_curve \<lparr>ap_x = 10, ap_y = 11\<rparr>"
    by code_simp+
  with affine_add_valid [of small_curve "\<lparr>ap_x = 2, ap_y = 4\<rparr>" "\<lparr>ap_x = 10, ap_y = 11\<rparr>"] fermat_13 show ?thesis by simp
qed

text \<open>
  Property C23. The projective formulas implement the affine ones: where the affine sum of two points is
  defined, the projective sum of any of their representations converts to that sum.
\<close>

theorem projective_add_refines:
  assumes "fermat (prime_of C)" and "to_affine C P = Some p" and "to_affine C Q = Some q" and "affine_add C p q = Some r"
  shows "to_affine C (projective_add C P Q) = Some r"
  using assms(2-4) projective_add_is unfolding to_affine_iff [OF assms(1)] affine_add_iff [OF assms(1)] by blast

theorem projective_add_refines_witness:
  "to_affine small_curve (projective_add small_curve \<lparr>pp_x = 4, pp_y = 8, pp_z = 2\<rparr> \<lparr>pp_x = 4, pp_y = 7, pp_z = 3\<rparr>)
    = Some \<lparr>ap_x = 6, ap_y = 10\<rparr>"
proof -
  have "to_affine small_curve \<lparr>pp_x = 4, pp_y = 8, pp_z = 2\<rparr> = Some \<lparr>ap_x = 2, ap_y = 4\<rparr>"
    "to_affine small_curve \<lparr>pp_x = 4, pp_y = 7, pp_z = 3\<rparr> = Some \<lparr>ap_x = 10, ap_y = 11\<rparr>"
    "affine_add small_curve \<lparr>ap_x = 2, ap_y = 4\<rparr> \<lparr>ap_x = 10, ap_y = 11\<rparr> = Some \<lparr>ap_x = 6, ap_y = 10\<rparr>"
    by code_simp+
  from projective_add_refines [OF _ this] fermat_13 show ?thesis by simp
qed

end
