(* ===== verification/Ed_Mul.thy ===== *)
theory Ed_Mul
  imports Ed_Curve
begin

text \<open>
  Multiplication of a point by a scalar: the reference by doubling (\<open>mul_naive\<close> of \<open>curve/ed25519.rs\<close>)
  and the windowed method with precomputed powers (\<open>curve/curve_multiplication.rs\<close>). Both compute the
  multiple, and so agree, on the points of a cyclic group.
\<close>

section \<open>The two methods\<close>

definition mul_naive :: "curve \<Rightarrow> nat \<Rightarrow> projective_point \<Rightarrow> projective_point option" where
  "mul_naive C lhs rhs =
     (let (sum, g) = foldl (\<lambda>st limb. foldl (\<lambda>(sum, g) j.
            ((if (limb div 2 ^ j) mod 2 \<noteq> 0 then projective_add C sum g else sum), projective_double C g)) st [0..<64])
          (projective_ZERO, rhs) (to_u64_digits lhs)
      in case to_affine C sum of None \<Rightarrow> None | Some q \<Rightarrow>
           if affine_is_valid C q \<and> projective_is_valid C sum then Some sum else None)"

definition WINDOW_BITS :: nat where "WINDOW_BITS = 4"

definition BASE :: nat where "BASE = 2 ^ WINDOW_BITS"

definition digits_per_scalar :: "curve \<Rightarrow> nat" where
  "digits_per_scalar C = ceil_div_usize (ff_bits (cv_scalar C)) WINDOW_BITS"

definition mul_precompute :: "curve \<Rightarrow> projective_point \<Rightarrow> projective_point list" where
  "mul_precompute C P =
     foldl (\<lambda>powers i. powers @ [(projective_double C ^^ WINDOW_BITS) (powers ! (i - 1))]) [P] [1..<digits_per_scalar C]"

definition to_digits :: "nat \<Rightarrow> nat list" where
  "to_digits x = concat (map (\<lambda>limb. map (\<lambda>j. (limb div 2 ^ (j * WINDOW_BITS)) mod BASE) [0..<64 div WINDOW_BITS]) (to_u64_digits x))"

text \<open>The powers selected by a digit; an index beyond the precomputed powers panics.\<close>

definition u_summands :: "projective_point list \<Rightarrow> nat list \<Rightarrow> nat \<Rightarrow> projective_point list option" where
  "u_summands powers digits j =
     those (map (\<lambda>i. if i < length powers then Some (powers ! i) else None) (filter (\<lambda>i. digits ! i = j) [0..<length digits]))"

definition mul_with_precomputation :: "curve \<Rightarrow> nat \<Rightarrow> projective_point list \<Rightarrow> projective_point option" where
  "mul_with_precomputation C scalar powers =
     (let digits = to_digits scalar in
      case those (map (u_summands powers digits) (rev [1..<BASE])) of None \<Rightarrow> None | Some all_summands \<Rightarrow>
        let all_sums = map (\<lambda>vec. foldl (projective_add C) projective_ZERO vec) all_summands;
            (u, y) = foldl (\<lambda>(u, y) s. let u = projective_add C u s in (u, projective_add C y u)) (projective_ZERO, projective_ZERO) all_sums
        in Some y)"

definition curve_scalar_mul_native :: "curve \<Rightarrow> nat \<Rightarrow> projective_point \<Rightarrow> projective_point option" where
  "curve_scalar_mul_native C n rhs = mul_with_precomputation C n (mul_precompute C rhs)"

section \<open>Points of a cyclic group\<close>

text \<open>
  The points reached from a generator: \<open>h i\<close> is its \<open>i\<close>-th multiple. The group law of the curve
  says that these sums exist and add up.
\<close>

definition cyclic_points :: "curve \<Rightarrow> (int \<Rightarrow> int \<times> int) \<Rightarrow> bool" where
  "cyclic_points C h \<longleftrightarrow> h 0 = (0, 1) \<and> (\<forall>i. on_curve C (h i)) \<and> (\<forall>i j. curve_sum C (h i) (h j) (h (i + j)))"

lemma cyclic_sum:
  assumes "cyclic_points C h" and "proj_is C P (h i)" and "proj_is C Q (h j)"
  shows "proj_is C (projective_add C P Q) (h (i + j))"
  using assms projective_add_is unfolding cyclic_points_def by (metis surj_pair)

lemma cyclic_double:
  assumes "cyclic_points C h" and "proj_is C P (h i)"
  shows "proj_is C (projective_double C P) (h (2 * i))"
  using assms projective_double_is unfolding cyclic_points_def by (metis surj_pair mult_2)

lemma cyclic_zero: "cyclic_points C h \<Longrightarrow> proj_is C projective_ZERO (h 0)"
  by (auto simp: cyclic_points_def proj_is_def projective_ZERO_def unit_mod_def intro: exI [of _ 1])

lemma cyclic_doubles:
  assumes "cyclic_points C h" and "proj_is C P (h i)"
  shows "proj_is C ((projective_double C ^^ k) P) (h (2 ^ k * i))"
proof (induction k)
  case (Suc k)
  with cyclic_double [OF assms(1) Suc] show ?case by (simp add: mult.assoc)
qed (simp add: assms)

lemma cyclic_sum_list:
  assumes "cyclic_points C h" and "list_all2 (\<lambda>P i. proj_is C P (h i)) Ps is"
  shows "proj_is C (foldl (projective_add C) projective_ZERO Ps) (h (sum_list is))"
proof -
  have "proj_is C (foldl (projective_add C) Q Ps) (h (k + sum_list is))" if "proj_is C Q (h k)" for Q k
    using assms(2) that
  proof (induction arbitrary: Q k rule: list_all2_induct)
    case (Cons P Ps i "is")
    from Cons.IH [OF cyclic_sum [OF assms(1) Cons.prems Cons.hyps(1)]] show ?case by (simp add: add.assoc)
  qed simp
  from this [OF cyclic_zero [OF assms(1)]] show ?thesis by simp
qed

section \<open>Digits\<close>

lemma of_limbs_concat:
  assumes "\<forall>xs \<in> set xss. length xs = k"
  shows "of_limbs B (concat xss) = of_limbs (B ^ k) (map (of_limbs B) xss)"
  using assms by (induction xss) (simp_all add: of_limbs_append)

text \<open>The first \<open>n\<close> digits of a number below the power are the number.\<close>

lemma of_limbs_digits: "of_limbs B (map (\<lambda>j. (x div B ^ j) mod B) [0..<n]) = x mod B ^ n"
proof (induction n)
  case (Suc n)
  then show ?case by (simp add: of_limbs_append mod_mult2_eq mult.commute [of B])
qed simp

lemma to_digits_value: "of_limbs BASE (to_digits x) = x"
proof -
  have pw: "(2::nat) ^ (j * 4) = 16 ^ j" for j by (simp add: mult.commute [of _ 4] power_mult)
  have "of_limbs BASE (map (\<lambda>j. (limb div 2 ^ (j * WINDOW_BITS)) mod BASE) [0..<64 div WINDOW_BITS]) = limb" if "limb < 2 ^ 64" for limb
    using of_limbs_digits [of 16 limb 16] that by (simp add: WINDOW_BITS_def BASE_def pw)
  then have "map (of_limbs BASE) (map (\<lambda>limb. map (\<lambda>j. (limb div 2 ^ (j * WINDOW_BITS)) mod BASE) [0..<64 div WINDOW_BITS]) (to_u64_digits x))
      = to_u64_digits x"
    by (auto simp: comp_def intro!: map_idI dest: to_u64_digits_less)
  then show ?thesis unfolding to_digits_def
    by (subst of_limbs_concat [where k = 16]) (auto simp: WINDOW_BITS_def BASE_def to_u64_digits_value [simplified])
qed

lemma bits_of_limbs: "of_limbs 2 (concat (map (\<lambda>limb. map (\<lambda>j. (limb div 2 ^ j) mod 2) [0..<64]) (to_u64_digits x))) = x"
proof -
  have "map (of_limbs 2) (map (\<lambda>limb. map (\<lambda>j. (limb div 2 ^ j) mod 2) [0..<64]) (to_u64_digits x)) = to_u64_digits x"
    unfolding map_map comp_def of_limbs_digits by (auto intro!: map_idI dest: to_u64_digits_less)
  then show ?thesis by (subst of_limbs_concat [where k = 64]) (auto simp: to_u64_digits_value [simplified])
qed

section \<open>The reference computes the multiple\<close>

definition naive_step :: "curve \<Rightarrow> projective_point \<times> projective_point \<Rightarrow> nat \<Rightarrow> projective_point \<times> projective_point" where
  "naive_step C st b = (case st of (acc, g) \<Rightarrow> ((if b \<noteq> 0 then projective_add C acc g else acc), projective_double C g))"

lemma foldl_map: "foldl f s (map g xs) = foldl (\<lambda>s x. f s (g x)) s xs"
  by (induction xs arbitrary: s) simp_all

lemma foldl_concat: "foldl (\<lambda>s x. foldl f s (g x)) s xs = foldl f s (concat (map g xs))"
  by (induction xs arbitrary: s) simp_all

lemma naive_bits:
  assumes "cyclic_points C h" and "proj_is C acc (h s)" and "proj_is C g (h k)" and "\<forall>b \<in> set bits. b < 2"
  shows "proj_is C (fst (foldl (naive_step C) (acc, g) bits)) (h (s + int (of_limbs 2 bits) * k))"
  using assms(2-4)
proof (induction bits arbitrary: acc g s k)
  case (Cons b bits)
  from Cons.prems(3) have "b = 0 \<or> b = 1" by auto
  with Cons.prems(1) cyclic_sum [OF assms(1) Cons.prems(1,2)]
  have "proj_is C (if b \<noteq> 0 then projective_add C acc g else acc) (h (s + int b * k))" by auto
  from Cons.IH [OF this cyclic_double [OF assms(1) Cons.prems(2)]] Cons.prems(3) show ?case
    by (simp add: naive_step_def algebra_simps)
qed simp

lemma projective_valid:
  assumes "1 < prime_of C" and "proj_is C P (x, y)" and "on_curve C (x, y)"
  shows "projective_is_valid C P"
proof -
  let ?p = "prime_of C" and ?z = "pp_z P"
  have P: "cong_mod ?p (pp_x P) (x * ?z)" "cong_mod ?p (pp_y P) (y * ?z)" "unit_mod ?p ?z"
    using assms(2) by (auto simp: proj_is_def intro: cong_mod_sym)
  note red = cong_mod_trans [OF cong_mod_refl(2)]
  have sq: "cong_mod ?p (pp_x P * pp_x P mod ?p) (x * ?z * (x * ?z))" "cong_mod ?p (pp_y P * pp_y P mod ?p) (y * ?z * (y * ?z))"
    "cong_mod ?p (?z * ?z mod ?p) (?z * ?z)"
    by (rule red, intro cong_mod_ring P cong_mod_refl)+
  have "cong_mod ?p (?z * ?z mod ?p * (cv_A C * (pp_x P * pp_x P mod ?p) + pp_y P * pp_y P mod ?p))
      (?z * ?z * (cv_A C * (x * ?z * (x * ?z)) + y * ?z * (y * ?z)))"
    by (intro cong_mod_ring cong_mod_refl sq)
  also have "\<dots> = ?z * ?z * (?z * ?z) * (cv_A C * (x * x) + y * y)" by (simp add: algebra_simps)
  also have "cong_mod ?p \<dots> (?z * ?z * (?z * ?z) * (1 + cv_D C * (x * x) * (y * y)))"
    using assms(3) cong_mod_ring(3) [OF cong_mod_refl(1)] by (simp add: on_curve_def)
  also have "\<dots> = ?z * ?z * (?z * ?z) + cv_D C * (x * ?z * (x * ?z)) * (y * ?z * (y * ?z))" by (simp add: algebra_simps)
  also have "cong_mod ?p \<dots> (?z * ?z mod ?p * (?z * ?z mod ?p) + cv_D C * (pp_x P * pp_x P mod ?p) * (pp_y P * pp_y P mod ?p))"
    by (intro cong_mod_ring cong_mod_refl cong_mod_sym [OF sq(1)] cong_mod_sym [OF sq(2)] cong_mod_sym [OF sq(3)])
  finally show ?thesis using unit_mod_nonzero [OF assms(1) P(3)] by (simp add: projective_is_valid_def Let_def cong_mod_iff)
qed

text \<open>A projective point converts to the affine point it stands for.\<close>

lemma proj_is_to_affine:
  assumes "fermat (prime_of C)" and "proj_is C P (x, y)"
  shows "to_affine C P = Some \<lparr>ap_x = x mod prime_of C, ap_y = y mod prime_of C\<rparr>"
proof -
  let ?p = "prime_of C"
  have "0 < ?p" using assms(1) by (simp add: fermat_def)
  moreover have "proj_is C P (x mod ?p, y mod ?p)"
    using assms(2) cong_mod_trans [OF cong_mod_ring(3) [OF cong_mod_refl(2) cong_mod_refl(1)]] by (simp add: proj_is_def)
  ultimately show ?thesis unfolding to_affine_iff [OF assms(1)] by (simp add: canonical_point_def)
qed

lemma on_curve_mod: "on_curve C (x mod prime_of C, y mod prime_of C) \<longleftrightarrow> on_curve C (x, y)"
  unfolding on_curve_def prod.case by (intro cong_mod_swap cong_mod_ring cong_mod_refl)

lemma mul_naive_multiple:
  assumes "fermat (prime_of C)" and "cyclic_points C h" and "proj_is C P (h k)"
  shows "\<exists>Q. mul_naive C n P = Some Q \<and> proj_is C Q (h (int n * k))"
proof -
  let ?bits = "concat (map (\<lambda>limb. map (\<lambda>j. (limb div 2 ^ j) mod 2) [0..<64]) (to_u64_digits n))"
  let ?step = "\<lambda>limb (sum, g) j. ((if (limb div 2 ^ j) mod 2 \<noteq> 0 then projective_add C sum g else sum), projective_double C g)"
  have "(\<lambda>st limb. foldl (?step limb) st [0..<64]) = (\<lambda>st limb. foldl (naive_step C) st (map (\<lambda>j. (limb div 2 ^ j) mod 2) [0..<64]))"
    unfolding foldl_map by (intro ext arg_cong2 [where f = "\<lambda>f s. foldl f s [0..<64]"]) (auto simp: naive_step_def split: prod.splits)
  then have run: "foldl (\<lambda>st limb. foldl (?step limb) st [0..<64]) (projective_ZERO, P) (to_u64_digits n)
      = foldl (naive_step C) (projective_ZERO, P) ?bits"
    by (simp only: foldl_concat)
  let ?r = "foldl (naive_step C) (projective_ZERO, P) ?bits"
  have "proj_is C (fst ?r) (h (0 + int (of_limbs 2 ?bits) * k))"
    by (rule naive_bits [OF assms(2) cyclic_zero [OF assms(2)] assms(3)]) auto
  then have Q: "proj_is C (fst ?r) (h (int n * k))" by (simp only: bits_of_limbs add_0)
  obtain x y where xy: "h (int n * k) = (x, y)" by (cases "h (int n * k)")
  have on: "on_curve C (x, y)" using assms(2) xy unfolding cyclic_points_def by metis
  have "1 < prime_of C" using assms(1) by (simp add: fermat_def)
  from projective_valid [OF this Q [unfolded xy] on] proj_is_to_affine [OF assms(1) Q [unfolded xy]] on
  have "mul_naive C n P = Some (fst ?r)"
    unfolding mul_naive_def run by (simp add: case_prod_beta affine_is_valid_iff on_curve_mod)
  with Q show ?thesis by blast
qed

section \<open>The windowed method computes the multiple\<close>

lemma mul_precompute_powers:
  "mul_precompute C P = map (\<lambda>i. (projective_double C ^^ (4 * i)) P) [0..<max 1 (digits_per_scalar C)]"
proof -
  have "foldl (\<lambda>powers i. powers @ [(projective_double C ^^ 4) (powers ! (i - 1))]) [P] [1..<Suc n]
      = map (\<lambda>i. (projective_double C ^^ (4 * i)) P) [0..<Suc n]" for n
  proof (induction n)
    case (Suc n)
    have "(projective_double C ^^ 4) ((projective_double C ^^ (4 * n)) P) = (projective_double C ^^ (4 * Suc n)) P"
      by (simp only: funpow_add mult_Suc_right comp_apply)
    with Suc show ?case by (simp del: upt_Suc add: upt_Suc_append nth_append)
  qed simp
  from this [of "digits_per_scalar C - 1"] show ?thesis
    by (cases "digits_per_scalar C") (simp_all add: mul_precompute_def WINDOW_BITS_def)
qed

lemma those_map: "(\<And>x. x \<in> set xs \<Longrightarrow> f x = Some (g x)) \<Longrightarrow> those (map f xs) = Some (map g xs)"
  by (induction xs) simp_all

lemma of_limbs_sum_list: "of_limbs B ds = (\<Sum>i \<leftarrow> [0..<length ds]. ds ! i * B ^ i)"
proof (induction ds rule: rev_induct)
  case (snoc d ds)
  have "(\<Sum>i \<leftarrow> [0..<length ds]. (ds @ [d]) ! i * B ^ i) = (\<Sum>i \<leftarrow> [0..<length ds]. ds ! i * B ^ i)"
    by (intro arg_cong [where f = sum_list] map_cong) (auto simp: nth_append)
  with snoc show ?case by (simp add: of_limbs_append)
qed simp

text \<open>The weights at which the positions with digit \<open>j\<close> are added.\<close>

definition digit_weight :: "nat list \<Rightarrow> nat \<Rightarrow> nat" where
  "digit_weight ds j = (\<Sum>i \<leftarrow> filter (\<lambda>i. ds ! i = j) [0..<length ds]. 16 ^ i)"

lemma digit_weight_if: "digit_weight ds j = (\<Sum>i \<leftarrow> [0..<length ds]. if ds ! i = j then 16 ^ i else 0)"
  unfolding digit_weight_def by (rule sum_list_map_filter') 

lemma digit_pick: "d < n \<Longrightarrow> (\<Sum>j \<leftarrow> [1..<n]. j * (if d = j then w else 0)) = d * (w::nat)"
  by (induction n) (auto simp: less_Suc_eq sum_list_0 intro!: sum_list_0)

lemma sum_list_swap: "(\<Sum>x \<leftarrow> xs. \<Sum>y \<leftarrow> ys. f x y) = (\<Sum>y \<leftarrow> ys. \<Sum>x \<leftarrow> xs. f x y :: nat)"
  by (induction xs) (simp_all add: sum_list_addf)

lemma digit_weights:
  assumes "\<forall>d \<in> set ds. d < 16"
  shows "(\<Sum>j \<leftarrow> [1..<16]. j * digit_weight ds j) = of_limbs 16 ds"
proof -
  have "(\<Sum>j \<leftarrow> [1..<16]. j * digit_weight ds j) = (\<Sum>j \<leftarrow> [1..<16]. \<Sum>i \<leftarrow> [0..<length ds]. j * (if ds ! i = j then 16 ^ i else 0))"
    by (simp only: digit_weight_if sum_list_const_mult)
  also have "\<dots> = (\<Sum>i \<leftarrow> [0..<length ds]. \<Sum>j \<leftarrow> [1..<16]. j * (if ds ! i = j then 16 ^ i else 0))"
    by (rule sum_list_swap)
  also have "\<dots> = (\<Sum>i \<leftarrow> [0..<length ds]. ds ! i * 16 ^ i)"
    using assms by (intro arg_cong [where f = sum_list] map_cong refl digit_pick) auto
  finally show ?thesis by (simp only: of_limbs_sum_list)
qed

text \<open>The double sum: the k-th sum from the end is counted k times.\<close>

fun weighted :: "int list \<Rightarrow> int" where
  "weighted [] = 0"
| "weighted (v # vs) = (int (length vs) + 1) * v + weighted vs"

lemma weighted_rev: "weighted (map f (rev [1..<Suc m])) = (\<Sum>j \<leftarrow> [1..<Suc m]. int j * f j)"
  by (induction m) (simp_all add: algebra_simps)

lemma double_sum:
  assumes "cyclic_points C h" and "list_all2 (\<lambda>s v. proj_is C s (h v)) ss vs" and "proj_is C u (h a)" and "proj_is C y (h b)"
  shows "proj_is C (snd (foldl (\<lambda>(u, y) s. let u = projective_add C u s in (u, projective_add C y u)) (u, y) ss))
    (h (b + int (length vs) * a + weighted vs))"
  using assms(2-4)
proof (induction arbitrary: u y a b rule: list_all2_induct)
  case (Cons s ss v vs)
  note u = cyclic_sum [OF assms(1) Cons.prems(1) Cons.hyps(1)]
  from Cons.IH [OF u cyclic_sum [OF assms(1) Cons.prems(2) u]] show ?case by (simp add: Let_def algebra_simps)
qed simp

lemma u_summands_sound:
  assumes "cyclic_points C h" and "proj_is C P (h k)" and "length ds \<le> max 1 (digits_per_scalar C)"
  shows "\<exists>Ps. u_summands (mul_precompute C P) ds j = Some Ps
    \<and> proj_is C (foldl (projective_add C) projective_ZERO Ps) (h (int (digit_weight ds j) * k))"
proof -
  let ?is = "filter (\<lambda>i. ds ! i = j) [0..<length ds]" and ?pw = "\<lambda>i. (projective_double C ^^ (4 * i)) P"
  have "u_summands (mul_precompute C P) ds j = Some (map ?pw ?is)"
    unfolding u_summands_def using assms(3) by (intro those_map) (auto simp: mul_precompute_powers)
  moreover have "list_all2 (\<lambda>Q i. proj_is C Q (h i)) (map ?pw ?is) (map (\<lambda>i. 16 ^ i * k) ?is)"
    using cyclic_doubles [OF assms(1,2), of "4 * i" for i] by (simp add: list_all2_map1 list_all2_map2 list_all2_same power_mult)
  from cyclic_sum_list [OF assms(1) this] have "proj_is C (foldl (projective_add C) projective_ZERO (map ?pw ?is)) (h (int (digit_weight ds j) * k))"
    by (simp add: digit_weight_def sum_list_mult_const comp_def flip: sum_list_of_nat)
  ultimately show ?thesis by blast
qed

lemma to_digits_length: "n < (2 ^ 64) ^ 4 \<Longrightarrow> length (to_digits n) \<le> 64"
  using to_u64_digits_length [of n 4] by (simp add: to_digits_def length_concat comp_def WINDOW_BITS_def sum_list_triv)

lemma scalar_mul_multiple:
  assumes "cyclic_points C h" and "proj_is C P (h k)" and "length (to_digits n) \<le> max 1 (digits_per_scalar C)"
  shows "\<exists>Q. curve_scalar_mul_native C n P = Some Q \<and> proj_is C Q (h (int n * k))"
proof -
  let ?ds = "to_digits n" and ?js = "rev [1..<Suc 15]"
  from u_summands_sound [OF assms] obtain g where g: "\<And>j. u_summands (mul_precompute C P) ?ds j = Some (g j)"
    "\<And>j. proj_is C (foldl (projective_add C) projective_ZERO (g j)) (h (int (digit_weight ?ds j) * k))" by metis
  let ?ss = "map (\<lambda>vec. foldl (projective_add C) projective_ZERO vec) (map g ?js)" and ?vs = "map (\<lambda>j. int (digit_weight ?ds j) * k) ?js"
  let ?r = "foldl (\<lambda>(u, y) s. let u = projective_add C u s in (u, projective_add C y u)) (projective_ZERO, projective_ZERO) ?ss"
  have run: "curve_scalar_mul_native C n P = Some (snd ?r)"
    using those_map [of ?js "u_summands (mul_precompute C P) ?ds" g] g(1)
    by (simp add: curve_scalar_mul_native_def mul_with_precomputation_def BASE_def WINDOW_BITS_def Let_def case_prod_beta del: upt_Suc upt_rec_numeral)
  have "list_all2 (\<lambda>s v. proj_is C s (h v)) ?ss ?vs"
    using g(2) by (simp add: list_all2_map1 list_all2_map2 list_all2_same del: upt_Suc)
  from double_sum [OF assms(1) this cyclic_zero [OF assms(1)] cyclic_zero [OF assms(1)]]
  have Q: "proj_is C (snd ?r) (h (weighted ?vs))" by (simp del: upt_Suc)
  have weighted: "weighted ?vs = int (\<Sum>j \<leftarrow> [1..<16]. j * digit_weight ?ds j) * k"
    unfolding weighted_rev by (simp add: sum_list_const_mult comp_def ac_simps flip: sum_list_of_nat del: upt_Suc upt_rec_numeral)
  have "\<forall>d \<in> set ?ds. d < 16" by (auto simp: to_digits_def BASE_def WINDOW_BITS_def)
  from digit_weights [OF this] have "(\<Sum>j \<leftarrow> [1..<16]. j * digit_weight ?ds j) = n"
    using to_digits_value [of n] by (simp add: BASE_def WINDOW_BITS_def del: upt_rec_numeral)
  with Q weighted have "proj_is C (snd ?r) (h (int n * k))" by (simp only:)
  with run show ?thesis by blast
qed

text \<open>
  Property C24. The windowed multiplication agrees with the simple one: on the points of a cyclic group,
  both return, and their results convert to the same affine point, for every scalar of 256 bits.
\<close>

theorem windowed_equals_naive:
  assumes "fermat (prime_of C)" and "cyclic_points C h" and "proj_is C P (h k)" and "ff_bits (cv_scalar C) = 256" and "n < (2 ^ 64) ^ 4"
  shows "\<exists>Q R q. curve_scalar_mul_native C n P = Some Q \<and> mul_naive C n P = Some R \<and> to_affine C Q = Some q \<and> to_affine C R = Some q"
proof -
  have "length (to_digits n) \<le> max 1 (digits_per_scalar C)"
    using to_digits_length [OF assms(5)] assms(4) by (simp add: digits_per_scalar_def ceil_div_usize_def WINDOW_BITS_def)
  from scalar_mul_multiple [OF assms(2,3) this] mul_naive_multiple [OF assms(1-3)] obtain Q R where
    "curve_scalar_mul_native C n P = Some Q" "mul_naive C n P = Some R"
    "proj_is C Q (h (int n * k))" "proj_is C R (h (int n * k))" by blast
  then show ?thesis using proj_is_to_affine [OF assms(1)] by (cases "h (int n * k)") auto
qed

text \<open>The multiples of the point of order four of the small curve.\<close>

definition small_group :: "int \<Rightarrow> int \<times> int" where
  "small_group i = [(0, 1), (5, 0), (0, 12), (8, 0)] ! nat (i mod 4)"

lemma small_group_cyclic: "cyclic_points small_curve small_group"
proof -
  have m4: "i mod 4 \<in> {0, 1, 2, 3}" for i :: int using pos_mod_bound [of 4 i] pos_mod_sign [of 4 i] by auto
  have unit: "unit_mod 13 1" by (auto simp: unit_mod_def intro: exI [of _ 1])
  have "curve_sum small_curve (small_group i) (small_group j) (small_group (i + j))" for i j
  proof -
    have "(i + j) mod 4 = (i mod 4 + j mod 4) mod 4" by (simp add: mod_simps)
    with m4 [of i] m4 [of j] unit show ?thesis
      by (auto simp: small_group_def curve_sum_def Let_def cong_mod_def small_curve_def small_field_def)
  qed
  moreover have "on_curve small_curve (small_group i)" for i
    using m4 [of i] by (auto simp: small_group_def on_curve_def cong_mod_def small_curve_def small_field_def)
  ultimately show ?thesis by (simp add: cyclic_points_def small_group_def)
qed

theorem windowed_equals_naive_witness:
  "\<exists>Q R q. curve_scalar_mul_native small_curve 7 \<lparr>pp_x = 5, pp_y = 0, pp_z = 1\<rparr> = Some Q
    \<and> mul_naive small_curve 7 \<lparr>pp_x = 5, pp_y = 0, pp_z = 1\<rparr> = Some R \<and> to_affine small_curve Q = Some q \<and> to_affine small_curve R = Some q"
proof (rule windowed_equals_naive)
  show "proj_is small_curve \<lparr>pp_x = 5, pp_y = 0, pp_z = 1\<rparr> (small_group 1)"
    by (auto simp: proj_is_def small_group_def unit_mod_def intro: exI [of _ 1])
qed (use small_group_cyclic fermat_13 in \<open>simp_all add: small_curve_def small_field_def\<close>)

end
