(* ===== verification/Curve_Circuit.thy ===== *)
theory Curve_Circuit
  imports Ed_Mul
begin

text \<open>
  Circuits for points of a twisted Edwards curve (\<open>circuits/plonky2_ed25519/src/gadgets/curve.rs\<close>). A
  satisfied circuit for a sum fixes the Edwards sum of its inputs. The circuit that decompresses a
  public key or a signature checks the encoding only.
\<close>

section \<open>The gadgets\<close>

record 'a affine_point_target =
  at_x :: "'a nonnative_target"
  at_y :: "'a nonnative_target"

definition constant_affine_point :: "affine_point \<Rightarrow> 'a::field affine_point_target" where
  "constant_affine_point point = \<lparr>at_x = constant_nonnative (nat (ap_x point)), at_y = constant_nonnative (nat (ap_y point))\<rparr>"

definition connect_affine_point :: "'a::field affine_point_target \<Rightarrow> 'a affine_point_target \<Rightarrow> ('a, unit) circuit" where
  "connect_affine_point lhs rhs =
     circuit_bind (connect_nonnative (at_x lhs) (at_x rhs)) (\<lambda>_. connect_nonnative (at_y lhs) (at_y rhs))"

definition add_virtual_affine_point_target :: "curve \<Rightarrow> ('a, 'a affine_point_target) circuit" where
  "add_virtual_affine_point_target C =
     circuit_bind (add_virtual_nonnative_target (cv_base C)) (\<lambda>x.
     circuit_bind (add_virtual_nonnative_target (cv_base C)) (\<lambda>y. circuit_return \<lparr>at_x = x, at_y = y\<rparr>))"

definition curve_assert_valid :: "('a::field) config \<Rightarrow> curve \<Rightarrow> 'a affine_point_target \<Rightarrow> ('a, unit) circuit" where
  "curve_assert_valid cfg C p =
     (let FF = cv_base C; a = constant_nonnative (nat (cv_A C)); d = constant_nonnative (nat (cv_D C)); one = constant_nonnative 1
      in circuit_bind (mul_nonnative cfg FF (at_y p) (at_y p)) (\<lambda>y_squared.
         circuit_bind (mul_nonnative cfg FF (at_x p) (at_x p)) (\<lambda>x_squared.
         circuit_bind (mul_nonnative cfg FF x_squared y_squared) (\<lambda>x_squared_y_squared.
         circuit_bind (mul_nonnative cfg FF d x_squared_y_squared) (\<lambda>d_x_squared_y_squared.
         circuit_bind (mul_nonnative cfg FF a x_squared) (\<lambda>a_x_squared.
         circuit_bind (add_nonnative cfg FF a_x_squared y_squared) (\<lambda>lhs.
         circuit_bind (add_nonnative cfg FF one d_x_squared_y_squared) (\<lambda>rhs.
           connect_nonnative lhs rhs))))))))"

definition curve_neg :: "('a::field) config \<Rightarrow> curve \<Rightarrow> 'a affine_point_target \<Rightarrow> ('a, 'a affine_point_target) circuit" where
  "curve_neg cfg C p = circuit_bind (neg_nonnative cfg (cv_base C) (at_x p)) (\<lambda>neg_x.
     circuit_return \<lparr>at_x = neg_x, at_y = at_y p\<rparr>)"

definition curve_conditional_neg :: "('a::field) config \<Rightarrow> curve \<Rightarrow> 'a affine_point_target \<Rightarrow> 'a target
    \<Rightarrow> ('a, 'a affine_point_target) circuit" where
  "curve_conditional_neg cfg C p b = circuit_bind (nonnative_conditional_neg cfg (cv_base C) (at_x p) b) (\<lambda>x.
     circuit_return \<lparr>at_x = x, at_y = at_y p\<rparr>)"

definition curve_double :: "('a::field) config \<Rightarrow> curve \<Rightarrow> 'a affine_point_target \<Rightarrow> ('a, 'a affine_point_target) circuit" where
  "curve_double cfg C p =
     (let FF = cv_base C; x = at_x p; y = at_y p;
          one = constant_nonnative 1; a = constant_nonnative (nat (cv_A C)); d = constant_nonnative (nat (cv_D C))
      in circuit_bind (mul_nonnative cfg FF x x) (\<lambda>xx.
         circuit_bind (mul_nonnative cfg FF y y) (\<lambda>yy.
         circuit_bind (mul_nonnative cfg FF x y) (\<lambda>xy.
         circuit_bind (mul_nonnative cfg FF a xx) (\<lambda>a_xx.
         circuit_bind (add_nonnative cfg FF xy xy) (\<lambda>x_nom.
         circuit_bind (sub_nonnative cfg FF yy a_xx) (\<lambda>y_nom.
         circuit_bind (mul_nonnative cfg FF xx yy) (\<lambda>xxyy.
         circuit_bind (mul_nonnative cfg FF d xxyy) (\<lambda>dxxyy.
         circuit_bind (neg_nonnative cfg FF dxxyy) (\<lambda>neg_dxxyy.
         circuit_bind (add_nonnative cfg FF one dxxyy) (\<lambda>one_plus_dxxyy.
         circuit_bind (add_nonnative cfg FF one neg_dxxyy) (\<lambda>one_minus_dxxyy.
         circuit_bind (inv_nonnative cfg FF one_plus_dxxyy) (\<lambda>inv_one_plus_dxxyy.
         circuit_bind (inv_nonnative cfg FF one_minus_dxxyy) (\<lambda>inv_one_minus_dxxyy.
         circuit_bind (mul_nonnative cfg FF x_nom inv_one_plus_dxxyy) (\<lambda>x3.
         circuit_bind (mul_nonnative cfg FF y_nom inv_one_minus_dxxyy) (\<lambda>y3.
           circuit_return \<lparr>at_x = x3, at_y = y3\<rparr>))))))))))))))))"

definition curve_repeated_double :: "('a::field) config \<Rightarrow> curve \<Rightarrow> 'a affine_point_target \<Rightarrow> nat
    \<Rightarrow> ('a, 'a affine_point_target) circuit" where
  "curve_repeated_double cfg C p n = circuit_fold (\<lambda>result _. curve_double cfg C result) p [0..<n]"

definition curve_add :: "('a::field) config \<Rightarrow> curve \<Rightarrow> 'a affine_point_target \<Rightarrow> 'a affine_point_target
    \<Rightarrow> ('a, 'a affine_point_target) circuit" where
  "curve_add cfg C p1 p2 =
     (let FF = cv_base C; x1 = at_x p1; y1 = at_y p1; x2 = at_x p2; y2 = at_y p2;
          one = constant_nonnative 1; a = constant_nonnative (nat (cv_A C)); d = constant_nonnative (nat (cv_D C))
      in circuit_bind (mul_nonnative cfg FF x1 y2) (\<lambda>x1y2.
         circuit_bind (mul_nonnative cfg FF y1 x2) (\<lambda>y1x2.
         circuit_bind (mul_nonnative cfg FF y1 y2) (\<lambda>y1y2.
         circuit_bind (mul_nonnative cfg FF x1 x2) (\<lambda>x1x2.
         circuit_bind (mul_nonnative cfg FF a x1x2) (\<lambda>ax1x2.
         circuit_bind (add_nonnative cfg FF x1y2 y1x2) (\<lambda>x_nom.
         circuit_bind (sub_nonnative cfg FF y1y2 ax1x2) (\<lambda>y_nom.
         circuit_bind (mul_nonnative cfg FF x1y2 y1x2) (\<lambda>x1x2y1y2.
         circuit_bind (mul_nonnative cfg FF d x1x2y1y2) (\<lambda>dx1x2y1y2.
         circuit_bind (add_nonnative cfg FF one dx1x2y1y2) (\<lambda>one_add_dx1x2y1y2.
         circuit_bind (sub_nonnative cfg FF one dx1x2y1y2) (\<lambda>one_sub_dx1x2y1y2.
         circuit_bind (inv_nonnative cfg FF one_add_dx1x2y1y2) (\<lambda>inv_one_add_dx1x2y1y2.
         circuit_bind (inv_nonnative cfg FF one_sub_dx1x2y1y2) (\<lambda>inv_one_sub_dx1x2y1y2.
         circuit_bind (mul_nonnative cfg FF x_nom inv_one_add_dx1x2y1y2) (\<lambda>x3.
         circuit_bind (mul_nonnative cfg FF y_nom inv_one_sub_dx1x2y1y2) (\<lambda>y3.
           circuit_return \<lparr>at_x = x3, at_y = y3\<rparr>))))))))))))))))"

text \<open>The choice between two points by a bit, as the conditional addition and the scalar product write it.\<close>

definition curve_conditional_add :: "('a::field) config \<Rightarrow> curve \<Rightarrow> 'a affine_point_target \<Rightarrow> 'a affine_point_target \<Rightarrow> 'a target
    \<Rightarrow> ('a, 'a affine_point_target) circuit" where
  "curve_conditional_add cfg C p1 p2 b =
     (let FF = cv_base C; not_b = not_target b in
      circuit_bind (curve_add cfg C p1 p2) (\<lambda>sum_pt.
      let x_if_true = mul_nonnative_by_bool (at_x sum_pt) b; y_if_true = mul_nonnative_by_bool (at_y sum_pt) b;
          x_if_false = mul_nonnative_by_bool (at_x p1) not_b; y_if_false = mul_nonnative_by_bool (at_y p1) not_b
      in circuit_bind (add_nonnative cfg FF x_if_true x_if_false) (\<lambda>x.
         circuit_bind (add_nonnative cfg FF y_if_true y_if_false) (\<lambda>y.
           circuit_return \<lparr>at_x = x, at_y = y\<rparr>))))"

text \<open>\<open>rando\<close> is the random multiple of the generator that the builder draws.\<close>

definition curve_scalar_mul :: "('a::field) config \<Rightarrow> curve \<Rightarrow> affine_point \<Rightarrow> 'a affine_point_target \<Rightarrow> 'a nonnative_target
    \<Rightarrow> ('a, 'a affine_point_target) circuit" where
  "curve_scalar_mul cfg C rando p n =
     circuit_bind (split_nonnative_to_bits n) (\<lambda>bits.
     let randot = constant_affine_point rando in
     circuit_bind (add_virtual_affine_point_target C) (\<lambda>result.
     circuit_bind (connect_affine_point randot result) (\<lambda>_.
     circuit_bind (add_virtual_affine_point_target C) (\<lambda>two_i_times_p.
     circuit_bind (connect_affine_point p two_i_times_p) (\<lambda>_.
     circuit_bind (circuit_fold (\<lambda>(result, two_i_times_p) bit.
         circuit_bind (curve_conditional_add cfg C result two_i_times_p bit) (\<lambda>result.
         circuit_bind (curve_double cfg C two_i_times_p) (\<lambda>two_i_times_p.
           circuit_return (result, two_i_times_p)))) (result, two_i_times_p) bits) (\<lambda>(result, _).
     circuit_bind (curve_neg cfg C randot) (\<lambda>neg_r.
       curve_add cfg C result neg_r)))))))"

section \<open>The gadgets are sound\<close>

definition pt_is :: "curve \<Rightarrow> 'a::field affine_point_target \<Rightarrow> int \<times> int \<Rightarrow> bool" where
  "pt_is C t q \<longleftrightarrow> nn_is (cv_base C) (at_x t) (fst q) \<and> nn_is (cv_base C) (at_y t) (snd q)"

definition curve_ok :: "curve \<Rightarrow> bool" where
  "curve_ok C \<longleftrightarrow> ff_ok (cv_base C) \<and> 1 < prime_of C \<and> cv_A C \<in> {0..<prime_of C} \<and> cv_D C \<in> {0..<prime_of C}"

lemma curve_ok_ff: "curve_ok C \<Longrightarrow> ff_ok (cv_base C)"
  by (simp add: curve_ok_def)

lemma same_mod_cong: "same_mod (cv_base C) x y \<longleftrightarrow> cong_mod (prime_of C) x y"
  by (simp add: same_mod_def cong_mod_iff)

lemma curve_constants:
  assumes "curve_ok C"
  shows "nn_is (cv_base C) (constant_nonnative 1 :: 'a::field nonnative_target) 1"
    and "nn_is (cv_base C) (constant_nonnative (nat (cv_A C)) :: 'a nonnative_target) (cv_A C)"
    and "nn_is (cv_base C) (constant_nonnative (nat (cv_D C)) :: 'a nonnative_target) (cv_D C)"
  using assms nn_is_constant [of "cv_base C" 1] nn_is_constant [of "cv_base C" "nat (cv_A C)"] nn_is_constant [of "cv_base C" "nat (cv_D C)"]
  by (auto simp: curve_ok_def nat_less_iff)

lemma constant_point_is:
  "curve_ok C \<Longrightarrow> canonical_point C P \<Longrightarrow> pt_is C (constant_affine_point P) (coords P)"
  using nn_is_constant [of "cv_base C" "nat (ap_x P)"] nn_is_constant [of "cv_base C" "nat (ap_y P)"]
  by (auto simp: pt_is_def constant_affine_point_def canonical_point_def curve_ok_def nat_less_iff)

text \<open>A coordinate is a numerator times the inverse of its denominator.\<close>

lemma quotient_is:
  assumes "nn_is (cv_base C) r (v * u)" and "same_mod (cv_base C) (d * u) 1"
  shows "unit_mod (prime_of C) d" and "cong_mod (prime_of C) (v * u * d) v"
proof -
  have d: "cong_mod (prime_of C) (d * u) 1" using assms(2) by (simp add: same_mod_cong)
  then show "unit_mod (prime_of C) d" by (auto simp: unit_mod_def)
  show "cong_mod (prime_of C) (v * u * d) v" using cong_mod_ring(3) [OF cong_mod_refl(1) d, of v] by (simp add: ac_simps)
qed

lemma curve_add_sound:
  fixes P Q :: "'a::field affine_point_target"
  assumes "order_ok TYPE('a)" and "canon_ok cfg" and "curve_ok C" and "pt_is C P (x1, y1)" and "pt_is C Q (x2, y2)"
    and "sat (curve_add cfg C P Q) adv pos r pos'"
  shows "\<exists>x3 y3. pt_is C r (x3, y3) \<and> curve_sum C (x1, y1) (x2, y2) (x3, y3)"
proof -
  let ?F = "cv_base C" and ?p = "prime_of C"
  let ?one = "constant_nonnative 1 :: 'a nonnative_target" and ?a = "constant_nonnative (nat (cv_A C)) :: 'a nonnative_target"
    and ?d = "constant_nonnative (nat (cv_D C)) :: 'a nonnative_target"
  note ok = assms(1,2) curve_ok_ff [OF assms(3)]
  note M = mul_nonnative_sound [OF ok] and A = add_nonnative_sound [OF ok(1)] and S = sub_nonnative_sound [OF ok(1,3)]
    and I = inv_nonnative_sound [OF ok] and K = curve_constants [OF assms(3)]
  have P: "nn_is ?F (at_x P) x1" "nn_is ?F (at_y P) y1" and Q: "nn_is ?F (at_x Q) x2" "nn_is ?F (at_y Q) y2"
    using assms(4,5) by (auto simp: pt_is_def)
  obtain rx ry where r: "r = \<lparr>at_x = rx, at_y = ry\<rparr>" by (cases r)
  from assms(6) obtain e1 e2 e3 e4 e5 xn yn e6 t pl mi ip im p1 p2 p3 p4 p5 p6 p7 p8 p9 q1 q2 q3 q4 q5 where parts:
    "sat (mul_nonnative cfg ?F (at_x P) (at_y Q)) adv pos e1 p1" "sat (mul_nonnative cfg ?F (at_y P) (at_x Q)) adv p1 e2 p2"
    "sat (mul_nonnative cfg ?F (at_y P) (at_y Q)) adv p2 e3 p3" "sat (mul_nonnative cfg ?F (at_x P) (at_x Q)) adv p3 e4 p4"
    "sat (mul_nonnative cfg ?F ?a e4) adv p4 e5 p5" "sat (add_nonnative cfg ?F e1 e2) adv p5 xn p6"
    "sat (sub_nonnative cfg ?F e3 e5) adv p6 yn p7" "sat (mul_nonnative cfg ?F e1 e2) adv p7 e6 p8"
    "sat (mul_nonnative cfg ?F ?d e6) adv p8 t p9" "sat (add_nonnative cfg ?F ?one t) adv p9 pl q1"
    "sat (sub_nonnative cfg ?F ?one t) adv q1 mi q2" "sat (inv_nonnative cfg ?F pl) adv q2 ip q3"
    "sat (inv_nonnative cfg ?F mi) adv q3 im q4" "sat (mul_nonnative cfg ?F xn ip) adv q4 rx q5"
    "sat (mul_nonnative cfg ?F yn im) adv q5 ry pos'"
    by (simp add: curve_add_def Let_def r del: One_nat_def) (elim exE conjE, rule that, assumption+)
  note e = M [OF P(1) Q(2) parts(1)] M [OF P(2) Q(1) parts(2)] M [OF P(2) Q(2) parts(3)] M [OF P(1) Q(1) parts(4)]
  note xn = A [OF e(1,2) parts(6)] and yn = S [OF e(3) M [OF K(2) e(4) parts(5)] parts(7)]
  note t = M [OF K(3) M [OF e(1,2) parts(8)] parts(9)]
  from I [OF A [OF K(1) t parts(10)] parts(12)] I [OF S [OF K(1) t parts(11)] parts(13)] obtain u w where
    u: "nn_is ?F ip u" "same_mod ?F ((1 + cv_D C * (x1 * y2 * (y1 * x2))) * u) 1"
    and w: "nn_is ?F im w" "same_mod ?F ((1 - cv_D C * (x1 * y2 * (y1 * x2))) * w) 1" by blast
  note x3 = M [OF xn u(1) parts(14)] and y3 = M [OF yn w(1) parts(15)]
  have "cv_D C * (x1 * y2 * (y1 * x2)) = cv_D C * (x1 * x2) * (y1 * y2)" by (simp add: ac_simps)
  with quotient_is [OF x3 u(2)] quotient_is [OF y3 w(2)] have
    "curve_sum C (x1, y1) (x2, y2) ((x1 * y2 + y1 * x2) * u, (y1 * y2 - cv_A C * (x1 * x2)) * w)"
    by (simp add: curve_sum_def Let_def)
  with x3 y3 show ?thesis by (auto simp: pt_is_def r)
qed

lemma curve_double_sound:
  fixes P :: "'a::field affine_point_target"
  assumes "order_ok TYPE('a)" and "canon_ok cfg" and "curve_ok C" and "pt_is C P (x, y)" and "sat (curve_double cfg C P) adv pos r pos'"
  shows "\<exists>x3 y3. pt_is C r (x3, y3) \<and> curve_sum C (x, y) (x, y) (x3, y3)"
proof -
  let ?F = "cv_base C"
  let ?one = "constant_nonnative 1 :: 'a nonnative_target" and ?a = "constant_nonnative (nat (cv_A C)) :: 'a nonnative_target"
    and ?d = "constant_nonnative (nat (cv_D C)) :: 'a nonnative_target"
  note ok = assms(1,2) curve_ok_ff [OF assms(3)]
  note M = mul_nonnative_sound [OF ok] and A = add_nonnative_sound [OF ok(1)] and S = sub_nonnative_sound [OF ok(1,3)]
    and I = inv_nonnative_sound [OF ok] and K = curve_constants [OF assms(3)] and N = neg_nonnative_sound [OF ok(1,3)]
  have P: "nn_is ?F (at_x P) x" "nn_is ?F (at_y P) y" using assms(4) by (auto simp: pt_is_def)
  obtain rx ry where r: "r = \<lparr>at_x = rx, at_y = ry\<rparr>" by (cases r)
  from assms(5) obtain xx yy xy axx xn yn e6 t nt pl mi ip im p1 p2 p3 p4 p5 p6 p7 p8 p9 q1 q2 q3 q4 q5 where parts:
    "sat (mul_nonnative cfg ?F (at_x P) (at_x P)) adv pos xx p1" "sat (mul_nonnative cfg ?F (at_y P) (at_y P)) adv p1 yy p2"
    "sat (mul_nonnative cfg ?F (at_x P) (at_y P)) adv p2 xy p3" "sat (mul_nonnative cfg ?F ?a xx) adv p3 axx p4"
    "sat (add_nonnative cfg ?F xy xy) adv p4 xn p5" "sat (sub_nonnative cfg ?F yy axx) adv p5 yn p6"
    "sat (mul_nonnative cfg ?F xx yy) adv p6 e6 p7" "sat (mul_nonnative cfg ?F ?d e6) adv p7 t p8" "sat (neg_nonnative cfg ?F t) adv p8 nt p9"
    "sat (add_nonnative cfg ?F ?one t) adv p9 pl q1" "sat (add_nonnative cfg ?F ?one nt) adv q1 mi q2"
    "sat (inv_nonnative cfg ?F pl) adv q2 ip q3" "sat (inv_nonnative cfg ?F mi) adv q3 im q4"
    "sat (mul_nonnative cfg ?F xn ip) adv q4 rx q5" "sat (mul_nonnative cfg ?F yn im) adv q5 ry pos'"
    by (simp add: curve_double_def Let_def r del: One_nat_def) (elim exE conjE, rule that, assumption+)
  note xx = M [OF P(1,1) parts(1)] and yy = M [OF P(2,2) parts(2)] and xy = M [OF P parts(3)]
  note xn = A [OF xy xy parts(5)] and yn = S [OF yy M [OF K(2) xx parts(4)] parts(6)]
  note t = M [OF K(3) M [OF xx yy parts(7)] parts(8)]
  from I [OF A [OF K(1) t parts(10)] parts(12)] I [OF A [OF K(1) N [OF t parts(9)] parts(11)] parts(13)] obtain u w where
    u: "nn_is ?F ip u" "same_mod ?F ((1 + cv_D C * (x * x * (y * y))) * u) 1"
    and w: "nn_is ?F im w" "same_mod ?F ((1 + - (cv_D C * (x * x * (y * y)))) * w) 1" by blast
  note x3 = M [OF xn u(1) parts(14)] and y3 = M [OF yn w(1) parts(15)]
  have "cv_D C * (x * x * (y * y)) = cv_D C * (x * x) * (y * y)" by (simp add: ac_simps)
  with quotient_is [OF x3 u(2)] quotient_is [OF y3 w(2)] have
    "curve_sum C (x, y) (x, y) ((x * y + x * y) * u, (y * y - cv_A C * (x * x)) * w)"
    by (simp add: curve_sum_def Let_def mult.commute [of y x])
  with x3 y3 show ?thesis by (auto simp: pt_is_def r)
qed

lemma curve_assert_valid_sound:
  fixes P :: "'a::field affine_point_target"
  assumes "order_ok TYPE('a)" and "canon_ok cfg" and "curve_ok C" and "pt_is C P (x, y)" and "sat (curve_assert_valid cfg C P) adv pos u pos'"
  shows "on_curve C (x, y)"
proof -
  let ?F = "cv_base C"
  let ?one = "constant_nonnative 1 :: 'a nonnative_target" and ?a = "constant_nonnative (nat (cv_A C)) :: 'a nonnative_target"
    and ?d = "constant_nonnative (nat (cv_D C)) :: 'a nonnative_target"
  note ok = assms(1,2) curve_ok_ff [OF assms(3)]
  note M = mul_nonnative_sound [OF ok] and A = add_nonnative_sound [OF ok(1)] and K = curve_constants [OF assms(3)]
  have P: "nn_is ?F (at_x P) x" "nn_is ?F (at_y P) y" using assms(4) by (auto simp: pt_is_def)
  from assms(5) obtain yy xx e d ax l r p1 p2 p3 p4 p5 p6 p7 where parts:
    "sat (mul_nonnative cfg ?F (at_y P) (at_y P)) adv pos yy p1" "sat (mul_nonnative cfg ?F (at_x P) (at_x P)) adv p1 xx p2"
    "sat (mul_nonnative cfg ?F xx yy) adv p2 e p3" "sat (mul_nonnative cfg ?F ?d e) adv p3 d p4" "sat (mul_nonnative cfg ?F ?a xx) adv p4 ax p5"
    "sat (add_nonnative cfg ?F ax yy) adv p5 l p6" "sat (add_nonnative cfg ?F ?one d) adv p6 r p7" "sat (connect_nonnative l r) adv p7 () pos'"
    by (simp add: curve_assert_valid_def Let_def del: One_nat_def) (elim exE conjE, rule that, assumption+)
  note yy = M [OF P(2,2) parts(1)] and xx = M [OF P(1,1) parts(2)]
  note l = A [OF M [OF K(2) xx parts(5)] yy parts(6)] and r = A [OF K(1) M [OF K(3) M [OF xx yy parts(3)] parts(4)] parts(7)]
  from l r obtain m n where mn: "big_is l m" "big_is r n" "same_mod ?F (int m) (cv_A C * (x * x) + y * y)"
    "same_mod ?F (int n) (1 + cv_D C * (x * x * (y * y)))" by (auto simp: nn_is_def)
  have "m = n" using connect_biguint_sound [OF assms(1) mn(1,2)] parts(8) by (simp add: connect_nonnative_def)
  with mn(3,4) show ?thesis by (simp add: on_curve_def same_mod_def cong_mod_iff mult.assoc)
qed

section \<open>Multiples in circuits\<close>

lemma pt_is_cong:
  "pt_is C t (x, y) \<Longrightarrow> cong_mod (prime_of C) x x' \<Longrightarrow> cong_mod (prime_of C) y y' \<Longrightarrow> pt_is C t (x', y')"
  unfolding pt_is_def fst_conv snd_conv same_mod_cong [symmetric] using nn_is_same by blast

lemma circuit_add_cyclic:
  fixes P Q :: "'a::field affine_point_target"
  assumes "order_ok TYPE('a)" and "canon_ok cfg" and "curve_ok C" and "cyclic_points C h" and "pt_is C P (h i)" and "pt_is C Q (h j)"
    and "sat (curve_add cfg C P Q) adv pos r pos'"
  shows "pt_is C r (h (i + j))"
proof -
  obtain x1 y1 x2 y2 x y where hs: "h i = (x1, y1)" "h j = (x2, y2)" "h (i + j) = (x, y)" by (metis surj_pair)
  from curve_add_sound [OF assms(1-3) assms(5) [unfolded hs] assms(6) [unfolded hs] assms(7)] obtain x3 y3 where
    r: "pt_is C r (x3, y3)" "curve_sum C (x1, y1) (x2, y2) (x3, y3)" by blast
  moreover have "curve_sum C (x1, y1) (x2, y2) (x, y)" using assms(4) hs unfolding cyclic_points_def by metis
  ultimately show ?thesis using curve_sum_unique pt_is_cong unfolding hs by blast
qed

lemma circuit_double_cyclic:
  fixes P :: "'a::field affine_point_target"
  assumes "order_ok TYPE('a)" and "canon_ok cfg" and "curve_ok C" and "cyclic_points C h" and "pt_is C P (h i)"
    and "sat (curve_double cfg C P) adv pos r pos'"
  shows "pt_is C r (h (2 * i))"
proof -
  obtain x1 y1 x y where hs: "h i = (x1, y1)" "h (2 * i) = (x, y)" by (metis surj_pair)
  from curve_double_sound [OF assms(1-3) assms(5) [unfolded hs] assms(6)] obtain x3 y3 where
    r: "pt_is C r (x3, y3)" "curve_sum C (x1, y1) (x1, y1) (x3, y3)" by blast
  moreover have "curve_sum C (x1, y1) (x1, y1) (x, y)" using assms(4) hs unfolding cyclic_points_def by (metis mult_2)
  ultimately show ?thesis using curve_sum_unique pt_is_cong unfolding hs by blast
qed

lemma repeated_double_cyclic:
  fixes P :: "'a::field affine_point_target"
  assumes "order_ok TYPE('a)" and "canon_ok cfg" and "curve_ok C" and "cyclic_points C h" and "pt_is C P (h i)"
    and "sat (curve_repeated_double cfg C P n) adv pos r pos'"
  shows "pt_is C r (h (2 ^ n * i))"
proof -
  have "pt_is C r (h (2 ^ n * i))"
    by (rule circuit_fold_invariant [OF assms(6) [unfolded curve_repeated_double_def], where I = "\<lambda>j t. pt_is C t (h (2 ^ j * i))"])
      (use assms(5) circuit_double_cyclic [OF assms(1-4)] in \<open>auto simp: mult.assoc\<close>)
  then show ?thesis .
qed

lemma conditional_add_cyclic:
  fixes P Q :: "'a::field affine_point_target"
  assumes "order_ok TYPE('a)" and "canon_ok cfg" and "curve_ok C" and "cyclic_points C h" and "pt_is C P (h i)" and "pt_is C Q (h j)"
    and "tval b = of_bool c" and "sat (curve_conditional_add cfg C P Q b) adv pos r pos'"
  shows "pt_is C r (h (i + of_bool c * j))"
proof -
  let ?F = "cv_base C"
  obtain rx ry where r: "r = \<lparr>at_x = rx, at_y = ry\<rparr>" by (cases r)
  from assms(8) obtain s p1 p2 where parts: "sat (curve_add cfg C P Q) adv pos s p1"
    "sat (add_nonnative cfg ?F (mul_nonnative_by_bool (at_x s) b) (mul_nonnative_by_bool (at_x P) (not_target b))) adv p1 rx p2"
    "sat (add_nonnative cfg ?F (mul_nonnative_by_bool (at_y s) b) (mul_nonnative_by_bool (at_y P) (not_target b))) adv p2 ry pos'"
    by (auto simp: curve_conditional_add_def Let_def r)
  note s = circuit_add_cyclic [OF assms(1-6) parts(1)]
  note sel = add_nonnative_sound [OF assms(1) by_bool_sound [OF _ assms(7)] by_bool_sound [OF _ not_target_bool [OF assms(7)]]]
  have "nn_is ?F rx (of_bool c * fst (h (i + j)) + of_bool (\<not> c) * fst (h i))"
    "nn_is ?F ry (of_bool c * snd (h (i + j)) + of_bool (\<not> c) * snd (h i))"
    using s assms(5) sel parts(2,3) unfolding pt_is_def by blast+
  then show ?thesis by (cases c) (simp_all add: pt_is_def r)
qed

text \<open>Connecting a virtual point copies the limbs, so it stands for the same point.\<close>

lemma connect_copies:
  fixes a b :: "'a::field biguint_target"
  assumes "order_ok TYPE('a)" and "big_is a m" and "sat (connect_biguint a b) adv pos u pos'"
  shows "big_is b m"
proof -
  let ?k = "min (length a) (length b)"
  from assms(2) obtain ds where ds: "u32s_are a ds" "m = of_limbs base32 ds" by (auto simp: big_is_def)
  have len: "length ds = length a" using u32s_are_length [OF ds(1)] by simp
  from assms(3) have same: "\<forall>i < ?k. tval (a ! i) = tval (b ! i)"
    and za: "\<forall>i. ?k \<le> i \<and> i < length a \<longrightarrow> tval (a ! i) = 0" and zb: "\<forall>i. ?k \<le> i \<and> i < length b \<longrightarrow> tval (b ! i) = 0"
    by (auto simp: connect_biguint_def Let_def connect_u32_def sat_connects sat_zeros)
  let ?es = "take ?k ds @ replicate (length b - ?k) 0"
  have "u32_is (b ! i) (?es ! i)" if i: "i < length b" for i
  proof (cases "i < ?k")
    case True
    then show ?thesis using same u32s_are_nth [OF ds(1), of i] len by (simp add: u32_is_def nth_append)
  next
    case False
    then show ?thesis using zb i len by (simp add: u32_is_def nth_append)
  qed
  then have "u32s_are b ?es" using len by (simp add: u32s_are_def list_all2_conv_all_nth)
  moreover have "\<forall>i. ?k \<le> i \<and> i < length ds \<longrightarrow> ds ! i = 0"
    using za u32s_are_nth [OF ds(1)] u32_is_zero [OF assms(1)] unfolding len by blast
  then have "of_limbs base32 ?es = m" using len ds(2) by (simp add: of_limbs_append zero_tail [of ?k ds])
  ultimately show ?thesis unfolding big_is_def by blast
qed

lemma connect_point_copies:
  fixes P Q :: "'a::field affine_point_target"
  assumes "order_ok TYPE('a)" and "pt_is C P q" and "sat (add_virtual_affine_point_target C) adv pos0 Q pos1"
    and "sat (connect_affine_point P Q) adv pos u pos'"
  shows "pt_is C Q q"
proof -
  let ?F = "cv_base C"
  have len: "length (at_x Q) = num_nonnative_limbs ?F" "length (at_y Q) = num_nonnative_limbs ?F"
    using assms(3) by (auto simp: add_virtual_affine_point_target_def dest: sat_virtual_nonnative)
  from assms(4) obtain p1 p2 where "sat (connect_biguint (at_x P) (at_x Q)) adv pos () p1" "sat (connect_biguint (at_y P) (at_y Q)) adv p1 () p2"
    by (auto simp: connect_affine_point_def connect_nonnative_def)
  with assms(2) len show ?thesis using connect_copies [OF assms(1)] unfolding pt_is_def nn_is_def by (metis order_refl)
qed

lemma curve_neg_cyclic:
  fixes P :: "'a::field affine_point_target"
  assumes "order_ok TYPE('a)" and "curve_ok C" and "pt_is C P (x, y)" and "sat (curve_neg cfg C P) adv pos r pos'"
  shows "pt_is C r (- x, y)"
  using assms(3,4) neg_nonnative_sound [OF assms(1) curve_ok_ff [OF assms(2)]] by (auto simp: curve_neg_def pt_is_def)

text \<open>The negatives in a cyclic group.\<close>

definition cyclic_group :: "curve \<Rightarrow> (int \<Rightarrow> int \<times> int) \<Rightarrow> bool" where
  "cyclic_group C h \<longleftrightarrow> cyclic_points C h \<and> (\<forall>i. cong_mod (prime_of C) (- fst (h i)) (fst (h (- i))) \<and> cong_mod (prime_of C) (snd (h i)) (snd (h (- i))))"

lemma curve_neg_group:
  fixes P :: "'a::field affine_point_target"
  assumes "order_ok TYPE('a)" and "curve_ok C" and "cyclic_group C h" and "pt_is C P (h i)" and "sat (curve_neg cfg C P) adv pos r pos'"
  shows "pt_is C r (h (- i))"
proof -
  obtain x y x' y' where h: "h i = (x, y)" "h (- i) = (x', y')" by (metis surj_pair)
  have "cong_mod (prime_of C) (- x) x'" "cong_mod (prime_of C) y y'" using assms(3) h unfolding cyclic_group_def by (metis fst_conv snd_conv)+
  with curve_neg_cyclic [OF assms(1,2) assms(4) [unfolded h] assms(5)] show ?thesis unfolding h by (rule pt_is_cong)
qed

text \<open>The double-and-add loop over the bits of the scalar.\<close>

lemma scalar_loop:
  fixes acc dbl :: "'a::field affine_point_target"
  assumes "order_ok TYPE('a)" and "canon_ok cfg" and "curve_ok C" and "cyclic_points C h"
    and "map tval bits = map of_bool bs" and "pt_is C acc (h i)" and "pt_is C dbl (h k)"
    and "sat (circuit_fold (\<lambda>(result, two_i_times_p) bit.
         circuit_bind (curve_conditional_add cfg C result two_i_times_p bit) (\<lambda>result.
         circuit_bind (curve_double cfg C two_i_times_p) (\<lambda>two_i_times_p.
           circuit_return (result, two_i_times_p)))) (acc, dbl) bits) adv pos (r, d) pos'"
  shows "pt_is C r (h (i + int (of_limbs 2 (map of_bool bs)) * k))"
  using assms(5-8)
proof (induction bits arbitrary: bs acc dbl i k pos)
  case (Cons b bits)
  from Cons.prems(1) obtain c bs' where bs: "bs = c # bs'" "tval b = of_bool c" "map tval bits = map of_bool bs'" by (cases bs) auto
  from Cons.prems(4) obtain acc' dbl' p1 p2 where parts: "sat (curve_conditional_add cfg C acc dbl b) adv pos acc' p1"
    "sat (curve_double cfg C dbl) adv p1 dbl' p2" and rest: "sat (circuit_fold (\<lambda>(result, two_i_times_p) bit.
         circuit_bind (curve_conditional_add cfg C result two_i_times_p bit) (\<lambda>result.
         circuit_bind (curve_double cfg C two_i_times_p) (\<lambda>two_i_times_p.
           circuit_return (result, two_i_times_p)))) (acc', dbl') bits) adv p2 (r, d) pos'" by auto
  from Cons.IH [OF bs(3) conditional_add_cyclic [OF assms(1-4) Cons.prems(2,3) bs(2) parts(1)]
      circuit_double_cyclic [OF assms(1-4) Cons.prems(3) parts(2)] rest]
  show ?case using bs(1) by (cases c) (simp_all add: algebra_simps)
qed (use assms in auto)

lemma big_is_unique: "order_ok TYPE('a::field) \<Longrightarrow> big_is (t :: 'a biguint_target) m \<Longrightarrow> big_is t n \<Longrightarrow> m = n"
proof -
  assume "order_ok TYPE('a)" "big_is t m" "big_is t n"
  then obtain ds es where "u32s_are t ds" "u32s_are t es" "m = of_limbs base32 ds" "n = of_limbs base32 es" by (auto simp: big_is_def)
  moreover from this have "ds = es" using u32_is_unique [OF \<open>order_ok TYPE('a)\<close>]
    by (intro nth_equalityI) (auto simp: u32s_are_def list_all2_conv_all_nth)
  ultimately show ?thesis by simp
qed

text \<open>The scalar product: the offset drawn by the builder cancels.\<close>

lemma curve_scalar_mul_sound:
  fixes P :: "'a::field affine_point_target"
  assumes "order_ok TYPE('a)" and "canon_ok cfg" and "curve_ok C" and "cyclic_group C h"
    and "canonical_point C rando" and "coords rando = h s" and "pt_is C P (h k)" and "big_is n m"
    and "sat (curve_scalar_mul cfg C rando P n) adv pos r pos'"
  shows "pt_is C r (h (int m * k))"
proof -
  let ?R = "constant_affine_point rando :: 'a affine_point_target"
  have cyc: "cyclic_points C h" using assms(4) by (simp add: cyclic_group_def)
  from assms(9) obtain bits acc dbl acc' dbl' neg p1 p2 p3 p4 p5 p6 p7 where parts:
    "sat (split_nonnative_to_bits n) adv pos bits p1" "sat (add_virtual_affine_point_target C) adv p1 acc p2"
    "sat (connect_affine_point ?R acc) adv p2 () p3" "sat (add_virtual_affine_point_target C) adv p3 dbl p4"
    "sat (connect_affine_point P dbl) adv p4 () p5"
    "sat (circuit_fold (\<lambda>(result, two_i_times_p) bit.
         circuit_bind (curve_conditional_add cfg C result two_i_times_p bit) (\<lambda>result.
         circuit_bind (curve_double cfg C two_i_times_p) (\<lambda>two_i_times_p.
           circuit_return (result, two_i_times_p)))) (acc, dbl) bits) adv p5 (acc', dbl') p6"
    "sat (curve_neg cfg C ?R) adv p6 neg p7" "sat (curve_add cfg C acc' neg) adv p7 r pos'"
    by (auto simp: curve_scalar_mul_def Let_def simp del: circuit_fold.simps split_paired_Ex)
  from split_bits_sound [OF assms(1) parts(1)] obtain bs where
    bs: "map tval bits = map of_bool bs" "big_is n (of_limbs 2 (map of_bool bs))" by blast
  have m: "m = of_limbs 2 (map of_bool bs)" using big_is_unique [OF assms(1) assms(8) bs(2)] .
  have R: "pt_is C ?R (h s)" using constant_point_is [OF assms(3,5), where 'a = 'a] assms(6) by simp
  note acc = connect_point_copies [OF assms(1) R parts(2,3)] and dbl = connect_point_copies [OF assms(1,7) parts(4,5)]
  from circuit_add_cyclic [OF assms(1-3) cyc scalar_loop [OF assms(1-3) cyc bs(1) acc dbl parts(6)]
      curve_neg_group [OF assms(1,3,4) R parts(7)] parts(8)]
  show ?thesis by (simp add: m)
qed

section \<open>Compressed points\<close>

definition biguint_to_bits_target :: "'a::field biguint_target \<Rightarrow> ('a, 'a target list) circuit" where
  "biguint_to_bits_target a =
     circuit_fold (\<lambda>res i. circuit_bind (split_le_base_2 (a ! i) 32) (\<lambda>bit_targets. circuit_return (res @ rev bit_targets)))
       [] (rev [0..<length a])"

definition point_compress :: "'a::field affine_point_target \<Rightarrow> ('a, 'a target list) circuit" where
  "point_compress p =
     circuit_bind (biguint_to_bits_target (at_y p)) (\<lambda>bits.
     circuit_bind (split_le_base_2 (at_x p ! 0) 32) (\<lambda>x_bits_low_32.
     let a = tval (bits ! 0); b = tval (x_bits_low_32 ! 0)
     in circuit_return (bits[0 := Wire (a + b - a * b)])))"

definition point_decompress :: "curve \<Rightarrow> 'a::field target list \<Rightarrow> ('a, 'a affine_point_target) circuit" where
  "point_decompress C pv =
     circuit_bind (require (length pv = 256)) (\<lambda>_.
     circuit_bind (add_virtual_affine_point_target C) (\<lambda>p.
     circuit_bind (point_compress p) (\<lambda>pv2.
     circuit_bind (circuit_fold (\<lambda>_ i. connect (pv ! i) (pv2 ! i)) () [0..<256]) (\<lambda>_.
       circuit_return p))))"

text \<open>The bytes the generator hands to the library that decompresses points, most significant bit first.\<close>

definition decompress_bytes :: "bool list \<Rightarrow> nat list" where
  "decompress_bytes bits = rev (map (\<lambda>i. \<Sum>j \<leftarrow> [0..<8]. if bits ! (i * 8 + j) then 2 ^ (7 - j) else 0) [0..<32])"

definition decompress_generate :: "(nat list \<Rightarrow> affine_point option) \<Rightarrow> curve \<Rightarrow> bool list \<Rightarrow> (nat list \<times> nat list) option" where
  "decompress_generate dalek_decompress C bits =
     (case dalek_decompress (decompress_bytes bits) of None \<Rightarrow> None | Some point \<Rightarrow>
        (case (set_biguint_target (num_nonnative_limbs (cv_base C)) (nat (ap_x point)),
               set_biguint_target (num_nonnative_limbs (cv_base C)) (nat (ap_y point))) of
           (Some xs, Some ys) \<Rightarrow> Some (xs, ys)
         | _ \<Rightarrow> None))"

text \<open>The bits of a limb, least significant first, and the encoding of a point by its coordinates.\<close>

definition bits_of_limb :: "nat \<Rightarrow> bool list" where
  "bits_of_limb d = map (\<lambda>j. odd (d div 2 ^ j)) [0..<32]"

definition encode_point :: "bool \<Rightarrow> nat list \<Rightarrow> bool list" where
  "encode_point sign ys = (let bits = concat (map (\<lambda>d. rev (bits_of_limb d)) (rev ys)) in bits[0 := hd bits \<or> sign])"

lemma length_bits_of_limb [simp]: "length (bits_of_limb d) = 32"
  by (simp add: bits_of_limb_def)

lemma bits_of_limb_value: "d < 2 ^ 32 \<Longrightarrow> of_limbs 2 (map of_bool (bits_of_limb d)) = d"
  unfolding bits_of_limb_def map_map comp_def of_bool_odd_eq_mod_2 of_limbs_digits by simp

text \<open>An advice that holds the bits of a limb satisfies its split.\<close>

definition advice_at :: "'a advice \<Rightarrow> nat \<Rightarrow> 'a list \<Rightarrow> bool" where
  "advice_at adv pos vs \<longleftrightarrow> (\<forall>i < length vs. adv (pos + i) = vs ! i)"

lemma advice_at_append: "advice_at adv pos (us @ vs) \<longleftrightarrow> advice_at adv pos us \<and> advice_at adv (pos + length us) vs"
proof
  assume "advice_at adv pos (us @ vs)"
  then have all: "\<And>i. i < length us + length vs \<Longrightarrow> adv (pos + i) = (us @ vs) ! i" by (simp add: advice_at_def)
  have "adv (pos + i) = us ! i" if "i < length us" for i using all [of i] that by (simp add: nth_append)
  moreover have "adv (pos + length us + i) = vs ! i" if "i < length vs" for i using all [of "length us + i"] that by (simp add: add.assoc)
  ultimately show "advice_at adv pos us \<and> advice_at adv (pos + length us) vs" by (simp add: advice_at_def)
next
  assume parts: "advice_at adv pos us \<and> advice_at adv (pos + length us) vs"
  show "advice_at adv pos (us @ vs)"
    unfolding advice_at_def
  proof (intro allI impI)
    fix i assume "i < length (us @ vs)"
    with parts show "adv (pos + i) = (us @ vs) ! i"
      by (cases "i < length us") (auto simp: advice_at_def nth_append dest: spec [of _ "i - length us"])
  qed
qed

lemma virtual_at: "advice_at adv pos vs \<Longrightarrow> add_virtual_targets (length vs) adv pos = (map Wire vs, True, pos + length vs)"
  by (auto simp: add_virtual_targets_def advice_at_def intro!: nth_equalityI)

lemma split_complete:
  assumes "advice_at adv pos (map of_bool (bits_of_limb d))" and "tval x = of_nat d" and "d < 2 ^ 32"
  shows "sat (split_le_base_2 x 32) adv pos (map (\<lambda>b. Wire (of_bool b)) (bits_of_limb d)) (pos + 32)"
proof -
  have "reduce_with_powers (map of_bool (bits_of_limb d)) 2 = (of_nat d :: 'a)"
    using reduce_of_nat [of "map of_bool (bits_of_limb d)" 2, where 'a = 'a] bits_of_limb_value [OF assms(3)] by (simp add: comp_def)
  moreover have "sat (add_virtual_targets 32) adv pos (map (\<lambda>b. Wire (of_bool b)) (bits_of_limb d)) (pos + 32)"
    using virtual_at [OF assms(1)] by (simp add: sat_def comp_def)
  ultimately show ?thesis using assms(2) by (auto simp: split_le_base_2_def list_all_iff comp_def intro!: exI)
qed

abbreviation wires :: "bool list \<Rightarrow> 'a::field target list" where
  "wires bs \<equiv> map (\<lambda>b. Wire (of_bool b)) bs"

lemma bits_complete:
  assumes "advice_at adv pos (concat (map (\<lambda>i. map of_bool (bits_of_limb (ys ! i))) is))"
    and "\<forall>i \<in> set is. tval (a ! i) = of_nat (ys ! i) \<and> ys ! i < 2 ^ 32"
  shows "sat (circuit_fold (\<lambda>res i. circuit_bind (split_le_base_2 (a ! i) 32) (\<lambda>bit_targets. circuit_return (res @ rev bit_targets)))
      res is) adv pos (res @ wires (concat (map (\<lambda>i. rev (bits_of_limb (ys ! i))) is))) (pos + 32 * length is)"
  using assms
proof (induction "is" arbitrary: res pos)
  case (Cons i "is")
  from Cons.prems have "sat (split_le_base_2 (a ! i) 32) adv pos (wires (bits_of_limb (ys ! i))) (pos + 32)"
    by (intro split_complete) (auto simp: advice_at_append)
  moreover have "sat (circuit_fold (\<lambda>res i. circuit_bind (split_le_base_2 (a ! i) 32) (\<lambda>bit_targets. circuit_return (res @ rev bit_targets)))
      (res @ rev (wires (bits_of_limb (ys ! i)))) is) adv (pos + 32)
      ((res @ rev (wires (bits_of_limb (ys ! i)))) @ wires (concat (map (\<lambda>i. rev (bits_of_limb (ys ! i))) is))) (pos + 32 + 32 * length is)"
    using Cons.prems by (intro Cons.IH) (auto simp: advice_at_append)
  ultimately show ?case by (auto simp: rev_map add.assoc intro!: exI)
qed simp

text \<open>
  Property C5. Decompressing a point in a circuit does not fix the point: for any coordinate \<open>y\<close> and any
  coordinate \<open>x\<close>, of which only the lowest limb is a 32 bit number with the encoded parity, there is
  an advice that satisfies the circuit with this point. The point need not be on the curve, and the
  other limbs of \<open>x\<close> need not even be in range.
\<close>

theorem decompress_accepts_any_x:
  fixes xs :: "'a::field list"
  assumes "num_nonnative_limbs (cv_base C) = 8" and "length xs = 8" and "length ys = 8" and "\<forall>d \<in> set ys. d < 2 ^ 32"
    and "xs ! 0 = of_nat d" and "d < 2 ^ 32"
  shows "\<exists>adv p pos'. sat (point_decompress C (map (\<lambda>b. Wire (of_bool b)) (encode_point (odd d) ys))) adv 0 p pos'
    \<and> map tval (at_x p) = xs \<and> map tval (at_y p) = map of_nat ys"
proof -
  let ?is = "rev [0..<8]" and ?pv = "wires (encode_point (odd d) ys) :: 'a target list"
  let ?ybits = "concat (map (\<lambda>i. map of_bool (bits_of_limb (ys ! i))) ?is)" and ?xbits = "map of_bool (bits_of_limb d)"
  let ?bits = "concat (map (\<lambda>i. rev (bits_of_limb (ys ! i))) ?is)"
  define vs where "vs = xs @ map of_nat ys @ ?ybits @ ?xbits"
  define adv where "adv i = vs ! i" for i
  let ?p = "\<lparr>at_x = map Wire xs, at_y = map (\<lambda>d. Wire (of_nat d)) ys\<rparr> :: 'a affine_point_target"
  have "advice_at adv 0 vs" by (simp add: advice_at_def adv_def)
  then have at: "advice_at adv 0 xs" "advice_at adv 8 (map of_nat ys)" "advice_at adv 16 ?ybits" "advice_at adv 272 ?xbits"
    unfolding vs_def advice_at_append using assms(2,3) by (simp_all add: length_concat comp_def sum_list_triv)
  have virt: "sat (add_virtual_affine_point_target C) adv 0 ?p 16"
    using virtual_at [OF at(1)] virtual_at [OF at(2)] assms(1-3)
    by (simp add: add_virtual_affine_point_target_def add_virtual_nonnative_target_def add_virtual_biguint_target_def
        add_virtual_u32_targets_def sat_def circuit_bind_def circuit_return_def comp_def)
  have bits: "sat (biguint_to_bits_target (at_y ?p)) adv 16 (wires ?bits) 272"
    using bits_complete [OF at(3), of "at_y ?p" "[]"] assms(3,4) by (simp add: biguint_to_bits_target_def)
  have low: "sat (split_le_base_2 (at_x ?p ! 0) 32) adv 272 (wires (bits_of_limb d)) (272 + 32)"
    using assms(2,5) by (intro split_complete [OF at(4) _ assms(6)]) simp
  have len: "length ?bits = 256" by (simp add: length_concat comp_def sum_list_triv)
  have first: "bits_of_limb d ! 0 = odd d" by (simp add: bits_of_limb_def)
  have "rev ys = map (\<lambda>i. ys ! i) ?is" using assms(3) by (metis map_nth rev_map)
  then have cat: "concat (map (\<lambda>d. rev (bits_of_limb d)) (rev ys)) = ?bits" by (simp only: map_map comp_def)
  have "hd ?bits = ?bits ! 0" by (rule hd_conv_nth) (use len in fastforce)
  then have enc: "encode_point (odd d) ys = ?bits[0 := ?bits ! 0 \<or> odd d]"
    by (simp only: encode_point_def Let_def cat)
  let ?pv2 = "(wires ?bits)[0 := Wire (of_bool (?bits ! 0) + of_bool (odd d) - of_bool (?bits ! 0) * of_bool (odd d))] :: 'a target list"
  have "sat (point_compress ?p) adv 16 ?pv2 304"
    unfolding point_compress_def sat_bind Let_def sat_return using bits low len first
    by (intro exI conjI) (assumption, simp, simp_all)
  moreover have "?pv2 = ?pv" unfolding enc map_update by (auto simp: of_bool_def)
  ultimately have comp: "sat (point_compress ?p) adv 16 ?pv 304" by simp
  have "sat (point_decompress C ?pv) adv 0 ?p 304"
    unfolding point_decompress_def sat_bind using virt comp len
    by (auto simp: enc sat_connects intro!: exI)
  then show ?thesis by (intro exI conjI) (assumption, simp_all add: comp_def)
qed

lemma ed25519_limbs: "num_nonnative_limbs (cv_base ed25519) = 8"
  by (simp add: num_nonnative_limbs_def ed25519_def ed25519_base_def ceil_div_usize_def)

theorem decompress_accepts_any_x_witness:
  "\<not> on_curve ed25519 (0, 0) \<and> (\<exists>adv p pos'.
    sat (point_decompress ed25519 (map (\<lambda>b. Wire (of_bool b)) (encode_point False (replicate 8 0)))) adv 0 p pos'
    \<and> map tval (at_x p) = replicate 8 (0::rat) \<and> map tval (at_y p) = replicate 8 0)"
proof -
  have "\<not> on_curve ed25519 (0, 0)" by (simp add: on_curve_def cong_mod_iff ed25519_values)
  with decompress_accepts_any_x [OF ed25519_limbs, of "replicate 8 (0::rat)" "replicate 8 0" 0] show ?thesis by simp
qed

end
