(* ===== verification/Windowed_Mul.thy ===== *)
theory Windowed_Mul
  imports Curve_Circuit
begin

text \<open>
  Scalar multiplication in circuits by windows of four bits
  (\<open>circuits/plonky2_ed25519/src/gadgets/split_nonnative.rs\<close> and \<open>curve_windowed_mul.rs\<close>). The
  satisfied circuit fixes the multiple of the point; a starting value is multiplied as well.
\<close>

section \<open>The gadgets\<close>

text \<open>\<open>split_le_base::<4>\<close> of the builder and the four bit limbs made of it (\<open>gadgets/split_nonnative.rs\<close>).\<close>

definition split_le_base_4 :: "'a::field target \<Rightarrow> nat \<Rightarrow> ('a, 'a target list) circuit" where
  "split_le_base_4 x num_limbs =
     circuit_bind (add_virtual_targets num_limbs) (\<lambda>limbs.
     circuit_bind (require (list_all (\<lambda>b. tval b \<in> {0, 1, 2, 3}) limbs)) (\<lambda>_.
     circuit_bind (require (reduce_with_powers (map tval limbs) 4 = tval x)) (\<lambda>_.
       circuit_return limbs)))"

fun pair_up :: "'a::field target list \<Rightarrow> 'a target list" where
  "pair_up (a # b # rest) = Wire (tval b * 4 + tval a) # pair_up rest"
| "pair_up [] = []"
| "pair_up [a] = []"

definition split_u32_to_4_bit_limbs :: "'a::field target \<Rightarrow> ('a, 'a target list) circuit" where
  "split_u32_to_4_bit_limbs val =
     circuit_bind (split_le_base_4 val 16) (\<lambda>two_bit_limbs. circuit_return (pair_up two_bit_limbs))"

definition split_nonnative_to_4_bit_limbs :: "'a::field nonnative_target \<Rightarrow> ('a, 'a target list) circuit" where
  "split_nonnative_to_4_bit_limbs val =
     circuit_fold (\<lambda>res l. circuit_bind (split_u32_to_4_bit_limbs l) (\<lambda>ls. circuit_return (res @ ls))) [] val"

definition split_nonnative_to_2_bit_limbs :: "'a::field nonnative_target \<Rightarrow> ('a, 'a target list) circuit" where
  "split_nonnative_to_2_bit_limbs val =
     circuit_fold (\<lambda>res l. circuit_bind (split_le_base_4 l 16) (\<lambda>ls. circuit_return (res @ ls))) [] val"

fun chunks_of :: "nat \<Rightarrow> 'x list \<Rightarrow> 'x list list" where
  "chunks_of n xs = (if xs = [] \<or> n = 0 then [] else take n xs # chunks_of n (drop n xs))"

declare chunks_of.simps [simp del]

text \<open>A last chunk of fewer than eight digits is indexed out of its range, where the builder panics.\<close>

definition recombine_chunk :: "('a::field) config \<Rightarrow> 'a target list \<Rightarrow> ('a, 'a target) circuit" where
  "recombine_chunk cfg chunk =
     circuit_bind (require (length chunk = 8)) (\<lambda>_.
     circuit_fold (\<lambda>combined_chunk i. circuit_bind (mul_add_u32 cfg combined_chunk (constant_u32 16) (chunk ! i)) (\<lambda>(low, _).
       circuit_return low)) zero_u32 (rev [0..<8]))"

definition recombine_nonnative_4_bit_limbs :: "('a::field) config \<Rightarrow> 'a target list \<Rightarrow> ('a, 'a nonnative_target) circuit" where
  "recombine_nonnative_4_bit_limbs cfg limbs =
     circuit_fold (\<lambda>u32_limbs chunk. circuit_bind (recombine_chunk cfg chunk) (\<lambda>t. circuit_return (u32_limbs @ [t]))) [] (chunks_of 8 limbs)"

text \<open>\<open>gadgets/curve_windowed_mul.rs\<close>. \<open>random_access\<close> of the builder selects by a target that must be an index.\<close>

definition WINDOW_SIZE :: nat where "WINDOW_SIZE = 4"

definition random_access :: "'a::field target \<Rightarrow> 'a target list \<Rightarrow> ('a, 'a target) circuit" where
  "random_access access_index v =
     (case find (\<lambda>i. tval access_index = of_nat i) [0..<length v] of
        None \<Rightarrow> circuit_bind (require False) (\<lambda>_. circuit_return access_index)
      | Some i \<Rightarrow> circuit_return (Wire (tval (v ! i))))"

definition random_access_limbs :: "'a::field target \<Rightarrow> nat \<Rightarrow> 'a nonnative_target list \<Rightarrow> ('a, 'a nonnative_target) circuit" where
  "random_access_limbs access_index num_limbs vs =
     circuit_fold (\<lambda>res i. circuit_bind (random_access access_index (map (\<lambda>l. if i < length l then l ! i else zero_u32) vs))
       (\<lambda>t. circuit_return (res @ [t]))) [] [0..<num_limbs]"

definition random_access_curve_points :: "curve \<Rightarrow> 'a::field target \<Rightarrow> 'a affine_point_target list
    \<Rightarrow> ('a, 'a affine_point_target) circuit" where
  "random_access_curve_points C access_index v =
     (let num_limbs = ff_bits (cv_base C) div 32
      in circuit_bind (random_access_limbs access_index num_limbs (map at_x v)) (\<lambda>x.
         circuit_bind (random_access_limbs access_index num_limbs (map at_y v)) (\<lambda>y.
           circuit_return \<lparr>at_x = x, at_y = y\<rparr>)))"

definition is_equal :: "'a::field target \<Rightarrow> 'a target \<Rightarrow> 'a target" where
  "is_equal x y = Wire (of_bool (tval x = tval y))"

text \<open>
  The multiples of a point for one window; \<open>g\<close> is the multiple of the generator by the hash of zero. The
  first entry stays the offset, since a zero window is not added.
\<close>

definition precompute_window :: "('a::field) config \<Rightarrow> curve \<Rightarrow> affine_point \<Rightarrow> 'a affine_point_target
    \<Rightarrow> ('a, 'a affine_point_target list) circuit" where
  "precompute_window cfg C g p =
     (let neg = constant_affine_point (affine_neg C g)
      in circuit_bind (circuit_fold (\<lambda>multiples i. circuit_bind (curve_add cfg C p (multiples ! (i - 1))) (\<lambda>m.
           circuit_return (multiples @ [m]))) [constant_affine_point g] [1..<2 ^ WINDOW_SIZE]) (\<lambda>multiples.
         circuit_fold (\<lambda>multiples i. circuit_bind (curve_add cfg C neg (multiples ! i)) (\<lambda>m.
           circuit_return (multiples[i := m]))) multiples [1..<2 ^ WINDOW_SIZE]))"

text \<open>The starting point and its multiple are computed when the circuit is built; the builder panics without them.\<close>

definition curve_scalar_mul_windowed_part :: "('a::field) config \<Rightarrow> curve \<Rightarrow> projective_point \<Rightarrow> nat
    \<Rightarrow> nat \<Rightarrow> 'a affine_point_target \<Rightarrow> 'a affine_point_target \<Rightarrow> 'a nonnative_target \<Rightarrow> ('a, 'a affine_point_target) circuit" where
  "curve_scalar_mul_windowed_part cfg C generator hash_0_scalar num_limbs p q_init n =
     (case curve_scalar_mul_native C hash_0_scalar generator of None \<Rightarrow> circuit_bind (require False) (\<lambda>_. circuit_return p)
      | Some starting_point \<Rightarrow>
        (let starting_point_multiplied = (projective_double C ^^ (num_limbs * WINDOW_SIZE)) starting_point in
         case (to_affine C starting_point, to_affine C starting_point_multiplied) of
           (Some start, Some multiplied) \<Rightarrow>
             circuit_bind (curve_add cfg C (constant_affine_point start) q_init) (\<lambda>result.
             circuit_bind (precompute_window cfg C start p) (\<lambda>precomputation.
             circuit_bind (split_nonnative_to_4_bit_limbs n) (\<lambda>limbs.
             circuit_bind (require (num_limbs \<le> length limbs)) (\<lambda>_.
             circuit_bind (circuit_fold (\<lambda>result window.
                 circuit_bind (curve_repeated_double cfg C result WINDOW_SIZE) (\<lambda>result.
                 circuit_bind (random_access_curve_points C window precomputation) (\<lambda>to_add.
                 let should_add = not_target (is_equal window (Constant 0))
                 in curve_conditional_add cfg C result to_add should_add))) result (rev (take num_limbs limbs))) (\<lambda>result.
             circuit_bind (curve_neg cfg C (constant_affine_point multiplied)) (\<lambda>to_add.
               curve_add cfg C result to_add))))))
         | _ \<Rightarrow> circuit_bind (require False) (\<lambda>_. circuit_return p)))"

definition curve_scalar_mul_windowed :: "('a::field) config \<Rightarrow> curve \<Rightarrow> projective_point \<Rightarrow> nat
    \<Rightarrow> 'a affine_point_target \<Rightarrow> 'a nonnative_target \<Rightarrow> ('a, 'a affine_point_target) circuit" where
  "curve_scalar_mul_windowed cfg C generator hash_0_scalar p n =
     (let num_limbs = ff_bits (cv_scalar C) div WINDOW_SIZE
      in circuit_bind (require (num_limbs * WINDOW_SIZE = ff_bits (cv_scalar C))) (\<lambda>_.
         let q_init = constant_affine_point \<lparr>ap_x = 0, ap_y = 1\<rparr>
         in curve_scalar_mul_windowed_part cfg C generator hash_0_scalar num_limbs p q_init n))"

section \<open>The digits of the scalar\<close>

lemma split_4_sound:
  fixes x :: "'a::field target"
  assumes "sat (split_le_base_4 x 16) adv pos ls pos'"
  shows "\<exists>ds. map tval ls = map of_nat ds \<and> length ds = 16 \<and> (\<forall>d \<in> set ds. d < 4) \<and> tval x = of_nat (of_limbs 4 ds)"
proof -
  from assms obtain p where parts: "sat (add_virtual_targets 16) adv pos ls p" "list_all (\<lambda>b. tval b \<in> {0, 1, 2, 3}) ls"
    "reduce_with_powers (map tval ls) 4 = tval x" by (auto simp: split_le_base_4_def)
  have "\<exists>ds. map tval ls = map of_nat ds \<and> (\<forall>d \<in> set ds. d < 4)"
    using parts(2)
  proof (induction ls)
    case (Cons l ls)
    then obtain ds where ds: "map tval ls = map of_nat ds" "\<forall>d \<in> set ds. d < 4" by auto
    define d :: nat where "d = (if tval l = 0 then 0 else if tval l = 1 then 1 else if tval l = 2 then 2 else 3)"
    have "tval l = of_nat d" "d < 4" using Cons.prems by (auto simp: d_def)
    with ds show ?case by (intro exI [of _ "d # ds"]) simp
  qed simp
  then obtain ds where ds: "map tval ls = map of_nat ds" "\<forall>d \<in> set ds. d < 4" by blast
  moreover have "length ds = 16" using sat_virtual_length [OF parts(1)] ds(1) by (metis length_map)
  moreover have "tval x = of_nat (of_limbs 4 ds)" using parts(3) reduce_of_nat [of ds 4, where 'a = 'a] ds(1) by simp
  ultimately show ?thesis by blast
qed

lemma pair_up_value:
  assumes "map tval ls = map of_nat ds" and "even (length ds)" and "\<forall>d \<in> set ds. d < 4"
  shows "\<exists>ws. map tval (pair_up ls) = map of_nat ws \<and> 2 * length ws = length ds \<and> (\<forall>w \<in> set ws. w < 16) \<and> of_limbs 16 ws = of_limbs 4 ds"
  using assms
proof (induction ls arbitrary: ds rule: pair_up.induct)
  case (1 a b rest)
  then obtain d e ds' where ds: "ds = d # e # ds'" "tval a = of_nat d" "tval b = of_nat e" "map tval rest = map of_nat ds'"
    by (auto simp: Cons_eq_map_conv)
  from 1(1) [OF ds(4)] 1(3,4) ds(1) obtain ws where ws: "map tval (pair_up rest) = map of_nat ws" "2 * length ws = length ds'" "\<forall>w \<in> set ws. w < 16"
    "of_limbs 16 ws = of_limbs 4 ds'" by auto
  have "d < 4" "e < 4" using 1(4) ds(1) by simp_all
  with ds ws show ?case by (intro exI [of _ "(e * 4 + d) # ws"]) simp
next
  case (3 a)
  then show ?case by (auto simp: Cons_eq_map_conv)
qed simp

lemma split_windows_sound:
  fixes n :: "'a::field nonnative_target"
  assumes "sat (split_nonnative_to_4_bit_limbs n) adv pos ls pos'"
  shows "\<exists>ws. map tval ls = map of_nat ws \<and> length ws = 8 * length n \<and> (\<forall>w \<in> set ws. w < 16) \<and> big_is n (of_limbs 16 ws)"
proof -
  let ?step = "\<lambda>res l. circuit_bind (split_u32_to_4_bit_limbs l) (\<lambda>ls. circuit_return (res @ ls))"
  have "\<exists>ls' ws. ls = acc @ ls' \<and> map tval ls' = map of_nat ws \<and> length ws = 8 * length n \<and> (\<forall>w \<in> set ws. w < 16)
      \<and> big_is n (of_limbs 16 ws)" if "sat (circuit_fold ?step acc n) adv pos ls pos'" for acc pos
    using that
  proof (induction n arbitrary: acc pos)
    case Nil
    then show ?case by (auto simp: big_is_def u32s_are_def)
  next
    case (Cons t n)
    from Cons.prems obtain two q q' where t: "sat (split_le_base_4 t 16) adv pos two q"
      "sat (circuit_fold ?step (acc @ pair_up two) n) adv q' ls pos'" by (auto simp: split_u32_to_4_bit_limbs_def)
    from split_4_sound [OF t(1)] obtain ds where ds: "map tval two = map of_nat ds" "length ds = 16" "\<forall>d \<in> set ds. d < 4"
      "tval t = of_nat (of_limbs 4 ds)" by blast
    from pair_up_value [OF ds(1) _ ds(3)] ds(2) obtain ws1 where ws1: "map tval (pair_up two) = map of_nat ws1" "length ws1 = 8"
      "\<forall>w \<in> set ws1. w < 16" "of_limbs 16 ws1 = of_limbs 4 ds" by auto
    from Cons.IH [OF t(2)] obtain ls' ws2 where ws2: "ls = (acc @ pair_up two) @ ls'" "map tval ls' = map of_nat ws2"
      "length ws2 = 8 * length n" "\<forall>w \<in> set ws2. w < 16" "big_is n (of_limbs 16 ws2)" by blast
    have "u32_is t (of_limbs 16 ws1)" using ds(4) ws1(4) of_limbs_less [OF ws1(3)] ws1(2) by (simp add: u32_is_def)
    with ws2(5) ws1(2) have "big_is (t # n) (of_limbs 16 (ws1 @ ws2))"
      by (auto simp: big_is_def u32s_are_def of_limbs_append)
    with ws1 ws2 show ?case by (intro exI [of _ "pair_up two @ ls'"] exI [of _ "ws1 @ ws2"]) auto
  qed
  from this [of "[]" pos] assms show ?thesis by (auto simp: split_nonnative_to_4_bit_limbs_def)
qed

section \<open>Choosing from a table\<close>

lemma random_access_sound:
  fixes v :: "'a::field target list"
  assumes "order_ok TYPE('a)" and "tval x = of_nat w" and "w < length v" and "length v \<le> 2 ^ 32"
    and "sat (random_access x v) adv pos r pos'"
  shows "tval r = tval (v ! w)"
proof -
  have "i = w" if "find (\<lambda>i. tval x = of_nat i) [0..<length v] = Some i" for i
  proof -
    from that have "tval x = of_nat i" "i < length v" by (auto simp: find_Some_iff)
    with assms have "u32_is x i" "u32_is x w" by (simp_all add: u32_is_def)
    then show ?thesis by (rule u32_is_unique [OF assms(1)])
  qed
  with assms(5) show ?thesis by (auto simp: random_access_def split: option.splits)
qed

lemma random_access_limbs_sound:
  fixes vs :: "'a::field nonnative_target list"
  assumes "order_ok TYPE('a)" and "tval x = of_nat w" and "w < length vs" and "length vs \<le> 2 ^ 32"
    and "sat (random_access_limbs x n vs) adv pos r pos'"
  shows "length r = n" and "\<forall>i < n. tval (r ! i) = tval (if i < length (vs ! w) then vs ! w ! i else zero_u32)"
proof -
  let ?t = "\<lambda>i. if i < length (vs ! w) then vs ! w ! i else zero_u32"
  have "length r = n \<and> (\<forall>i < n. tval (r ! i) = tval (?t i))"
  proof (rule circuit_fold_invariant [OF assms(5) [unfolded random_access_limbs_def], where I = "\<lambda>k r. length r = k \<and> (\<forall>i < k. tval (r ! i) = tval (?t i))"])
    fix j s p s' p'
    assume I: "length s = j \<and> (\<forall>i < j. tval (s ! i) = tval (?t i))"
      and "sat (circuit_bind (random_access x (map (\<lambda>l. if j < length l then l ! j else zero_u32) vs)) (\<lambda>t. circuit_return (s @ [t]))) adv p s' p'"
    then obtain t q where t: "sat (random_access x (map (\<lambda>l. if j < length l then l ! j else zero_u32) vs)) adv p t q" "s' = s @ [t]" by auto
    have "tval t = tval (?t j)" using random_access_sound [OF assms(1,2) _ _ t(1)] assms(3,4) by simp
    with I t(2) show "length s' = Suc j \<and> (\<forall>i < Suc j. tval (s' ! i) = tval (?t i))" by (auto simp: nth_append less_Suc_eq)
  qed simp_all
  then show "length r = n" and "\<forall>i < n. tval (r ! i) = tval (?t i)" by blast+
qed

lemma random_access_nn:
  fixes vs :: "'a::field nonnative_target list"
  assumes "order_ok TYPE('a)" and "tval x = of_nat w" and "w < length vs" and "length vs \<le> 2 ^ 32" and "nn_is FF (vs ! w) v"
    and "sat (random_access_limbs x (num_nonnative_limbs FF) vs) adv pos r pos'"
  shows "nn_is FF r v"
proof -
  let ?n = "num_nonnative_limbs FF" and ?l = "vs ! w"
  from assms(5) obtain m ds where m: "u32s_are ?l ds" "m = of_limbs base32 ds" "length ?l \<le> ?n" "same_mod FF (int m) v"
    by (auto simp: nn_is_def big_is_def)
  note sel = random_access_limbs_sound [OF assms(1-4,6)]
  have len: "length ds = length ?l" using u32s_are_length [OF m(1)] by simp
  have "u32_is (r ! i) ((ds @ replicate (?n - length ?l) 0) ! i)" if "i < ?n" for i
  proof (cases "i < length ?l")
    case True
    then show ?thesis using sel(2) that u32s_are_nth [OF m(1) True] len by (simp add: u32_is_def nth_append)
  next
    case False
    then show ?thesis using sel(2) that len by (simp add: u32_is_def nth_append zero_u32_def constant_u32_def)
  qed
  then have "u32s_are r (ds @ replicate (?n - length ?l) 0)" using sel(1) m(3) len by (simp add: u32s_are_def list_all2_conv_all_nth)
  then have "big_is r m" using m(2) by (auto simp: big_is_def of_limbs_append intro!: exI)
  with m(4) sel(1) show ?thesis by (auto simp: nn_is_def)
qed

lemma random_access_point:
  fixes vs :: "'a::field affine_point_target list"
  assumes "order_ok TYPE('a)" and "tval x = of_nat w" and "w < length vs" and "length vs \<le> 2 ^ 32" and "pt_is C (vs ! w) q"
    and "ff_bits (cv_base C) div 32 = num_nonnative_limbs (cv_base C)"
    and "sat (random_access_curve_points C x vs) adv pos r pos'"
  shows "pt_is C r q"
proof -
  from assms(7) obtain a b p where r: "r = \<lparr>at_x = a, at_y = b\<rparr>"
    "sat (random_access_limbs x (num_nonnative_limbs (cv_base C)) (map at_x vs)) adv pos a p"
    "sat (random_access_limbs x (num_nonnative_limbs (cv_base C)) (map at_y vs)) adv p b pos'"
    by (auto simp: random_access_curve_points_def Let_def assms(6))
  have "nn_is (cv_base C) a (fst q)" "nn_is (cv_base C) b (snd q)"
    using random_access_nn [OF assms(1,2) _ _ _ r(2)] random_access_nn [OF assms(1,2) _ _ _ r(3)] assms(3-5) by (simp_all add: pt_is_def)
  then show ?thesis by (simp add: pt_is_def r(1))
qed

section \<open>The window table\<close>

lemma precompute_window_sound:
  fixes P :: "'a::field affine_point_target"
  assumes "order_ok TYPE('a)" and "canon_ok cfg" and "curve_ok C" and "cyclic_points C h" and "pt_is C P (h k)"
    and "pt_is C (constant_affine_point g :: 'a affine_point_target) (h s)"
    and "pt_is C (constant_affine_point (affine_neg C g) :: 'a affine_point_target) (h (- s))"
    and "sat (precompute_window cfg C g P) adv pos ms pos'"
  shows "length ms = 16 \<and> (\<forall>i \<in> {1..<16}. pt_is C (ms ! i) (h (int i * k))) \<and> pt_is C (ms ! 0) (h s)"
proof -
  let ?G = "constant_affine_point g :: 'a affine_point_target" and ?N = "constant_affine_point (affine_neg C g) :: 'a affine_point_target"
  from assms(8) obtain ms0 q where
    first: "sat (circuit_fold (\<lambda>multiples i. circuit_bind (curve_add cfg C P (multiples ! (i - 1))) (\<lambda>m.
           circuit_return (multiples @ [m]))) [?G] [1..<16]) adv pos ms0 q" and
    second: "sat (circuit_fold (\<lambda>multiples i. circuit_bind (curve_add cfg C ?N (multiples ! i)) (\<lambda>m.
           circuit_return (multiples[i := m]))) ms0 [1..<16]) adv q ms pos'"
    by (auto simp: precompute_window_def Let_def WINDOW_SIZE_def simp del: upt_rec_numeral circuit_fold.simps)
  have ms0: "length ms0 = 16 \<and> (\<forall>i < 16. pt_is C (ms0 ! i) (h (int i * k + s)))"
  proof (rule circuit_fold_invariant [OF first, where I = "\<lambda>j ms. length ms = j \<and> (\<forall>i < j. pt_is C (ms ! i) (h (int i * k + s)))"])
    fix j ms p ms' p'
    assume "(1::nat) \<le> j" and I: "length ms = j \<and> (\<forall>i < j. pt_is C (ms ! i) (h (int i * k + s)))"
      and "sat (circuit_bind (curve_add cfg C P (ms ! (j - 1))) (\<lambda>m. circuit_return (ms @ [m]))) adv p ms' p'"
    then obtain m q where m: "sat (curve_add cfg C P (ms ! (j - 1))) adv p m q" "ms' = ms @ [m]" by auto
    have "j - 1 < j" using \<open>1 \<le> j\<close> by simp
    with I have "pt_is C (ms ! (j - 1)) (h (int (j - 1) * k + s))" by blast
    from circuit_add_cyclic [OF assms(1-5) this m(1)] have "pt_is C m (h (int j * k + s))"
      using \<open>1 \<le> j\<close> by (simp add: of_nat_diff algebra_simps)
    with I m(2) show "length ms' = Suc j \<and> (\<forall>i < Suc j. pt_is C (ms' ! i) (h (int i * k + s)))" by (auto simp: nth_append less_Suc_eq)
  qed (use assms(6) in simp_all)
  let ?I = "\<lambda>j ms. length ms = 16 \<and> pt_is C (ms ! 0) (h s) \<and> (\<forall>i \<in> {1..<j}. pt_is C (ms ! i) (h (int i * k)))
      \<and> (\<forall>i \<in> {j..<16}. pt_is C (ms ! i) (h (int i * k + s)))"
  have "?I 16 ms"
  proof (rule circuit_fold_invariant [OF second, where I = ?I])
    show "?I 1 ms0" using ms0 by (auto dest: spec [of _ 0])
    fix j ms p ms' p'
    assume j: "1 \<le> j" "j < 16" and I: "?I j ms"
      and "sat (circuit_bind (curve_add cfg C ?N (ms ! j)) (\<lambda>m. circuit_return (ms[j := m]))) adv p ms' p'"
    then obtain m q where m: "sat (curve_add cfg C ?N (ms ! j)) adv p m q" "ms' = ms[j := m]" by auto
    have "pt_is C (ms ! j) (h (int j * k + s))" using I j by simp
    from circuit_add_cyclic [OF assms(1-4,7) this m(1)] have "pt_is C m (h (int j * k))" by simp
    with I m(2) j show "?I (Suc j) ms'" by (auto simp: nth_list_update)
  qed simp
  then show ?thesis by blast
qed

section \<open>The product\<close>

abbreviation window_step :: "('a::field) config \<Rightarrow> curve \<Rightarrow> 'a affine_point_target list \<Rightarrow> 'a affine_point_target \<Rightarrow> 'a target
    \<Rightarrow> ('a, 'a affine_point_target) circuit" where
  "window_step cfg C precomputation result window \<equiv>
     circuit_bind (curve_repeated_double cfg C result WINDOW_SIZE) (\<lambda>result.
     circuit_bind (random_access_curve_points C window precomputation) (\<lambda>to_add.
     let should_add = not_target (is_equal window (Constant 0))
     in curve_conditional_add cfg C result to_add should_add))"

lemma window_step_sound:
  fixes R :: "'a::field affine_point_target"
  assumes "order_ok TYPE('a)" and "canon_ok cfg" and "curve_ok C" and "cyclic_points C h"
    and "ff_bits (cv_base C) div 32 = num_nonnative_limbs (cv_base C)"
    and "length ms = 16 \<and> (\<forall>i \<in> {1..<16}. pt_is C (ms ! i) (h (int i * k))) \<and> pt_is C (ms ! 0) (h s)"
    and "pt_is C R (h i)" and "tval x = of_nat w" and "w < 16" and "sat (window_step cfg C ms R x) adv pos r pos'"
  shows "pt_is C r (h (16 * i + int w * k))"
proof -
  from assms(10) obtain R' A p1 p2 where parts: "sat (curve_repeated_double cfg C R 4) adv pos R' p1"
    "sat (random_access_curve_points C x ms) adv p1 A p2"
    "sat (curve_conditional_add cfg C R' A (not_target (is_equal x (Constant 0)))) adv p2 r pos'"
    by (auto simp: WINDOW_SIZE_def Let_def)
  have R': "pt_is C R' (h (16 * i))" using repeated_double_cyclic [OF assms(1-4,7) parts(1)] by simp
  have A: "pt_is C A (h (if w = 0 then s else int w * k))"
  proof (rule random_access_point [OF assms(1,8) _ _ _ assms(5) parts(2)])
    show "pt_is C (ms ! w) (h (if w = 0 then s else int w * k))" using assms(6,9) by auto
  qed (use assms(6,9) in simp_all)
  have "tval x = 0 \<longleftrightarrow> w = 0" using u32_is_zero [OF assms(1), of x w] assms(8,9) by (auto simp: u32_is_def)
  then have "tval (not_target (is_equal x (Constant 0))) = of_bool (w \<noteq> 0)" by (simp add: is_equal_def not_target_def)
  from conditional_add_cyclic [OF assms(1-4) R' A this parts(3)] show ?thesis by (cases "w = 0") simp_all
qed

lemma sat_fold_Cons:
  "sat (circuit_fold f s (x # xs)) adv pos r pos' \<longleftrightarrow> (\<exists>s' q. sat (f s x) adv pos s' q \<and> sat (circuit_fold f s' xs) adv q r pos')"
  by simp

lemma window_loop:
  fixes R :: "'a::field affine_point_target"
  assumes "order_ok TYPE('a)" and "canon_ok cfg" and "curve_ok C" and "cyclic_points C h"
    and "ff_bits (cv_base C) div 32 = num_nonnative_limbs (cv_base C)"
    and "length ms = 16 \<and> (\<forall>i \<in> {1..<16}. pt_is C (ms ! i) (h (int i * k))) \<and> pt_is C (ms ! 0) (h s)"
    and "map tval ls = map of_nat ws" and "\<forall>w \<in> set ws. w < 16"
    and "pt_is C R (h i)" and "sat (circuit_fold (window_step cfg C ms) R ls) adv pos r pos'"
  shows "pt_is C r (h (16 ^ length ws * i + int (of_limbs 16 (rev ws)) * k))"
  using assms(7-10)
proof (induction ls arbitrary: ws R i pos)
  case (Cons l ls)
  from Cons.prems(1) obtain w ws' where ws: "ws = w # ws'" "tval l = of_nat w" "map tval ls = map of_nat ws'" by (cases ws) auto
  from Cons.prems(4) obtain R' q where step: "sat (window_step cfg C ms R l) adv pos R' q" "sat (circuit_fold (window_step cfg C ms) R' ls) adv q r pos'"
    unfolding sat_fold_Cons by blast
  have "w < 16" "\<forall>w \<in> set ws'. w < 16" using Cons.prems(2) ws(1) by simp_all
  from Cons.IH [OF ws(3) this(2) window_step_sound [OF assms(1-6) Cons.prems(3) ws(2) this(1) step(1)] step(2)]
  show ?case using ws(1) by (simp add: of_limbs_append algebra_simps)
qed simp

lemma nn_is_fun: "order_ok TYPE('a::field) \<Longrightarrow> nn_is FF (t :: 'a nonnative_target) v \<Longrightarrow> nn_is FF t w \<Longrightarrow> same_mod FF v w"
  unfolding nn_is_def using big_is_unique same_mod_sym same_mod_trans by metis

text \<open>The constants of the builder stand for the multiples of the generator.\<close>

lemma native_point_is:
  assumes "fermat (prime_of C)" and "curve_ok C" and "proj_is C P q" and "to_affine C P = Some g"
  shows "pt_is C (constant_affine_point g) q" and "canonical_point C g"
proof -
  obtain x y where h: "q = (x, y)" by (cases q)
  show g: "canonical_point C g" using assms(4) unfolding to_affine_iff [OF assms(1)] by blast
  have "g = \<lparr>ap_x = x mod prime_of C, ap_y = y mod prime_of C\<rparr>" using proj_is_to_affine [OF assms(1), of P x y] assms(3,4) h by simp
  with constant_point_is [OF assms(2) g] show "pt_is C (constant_affine_point g) q"
    unfolding h by (auto intro: pt_is_cong)
qed

lemma native_neg_is:
  assumes "curve_ok C" and "cyclic_group C h" and "canonical_point C g" and "pt_is C (constant_affine_point g :: 'a::field affine_point_target) (h s)"
    and "order_ok TYPE('a)"
  shows "pt_is C (constant_affine_point (affine_neg C g) :: 'a affine_point_target) (h (- s))"
proof -
  obtain x y x' y' where h: "h s = (x, y)" "h (- s) = (x', y')" by (metis surj_pair)
  let ?p = "prime_of C"
  have "0 < ?p" using assms(1) by (simp add: curve_ok_def)
  with assms(3) have "canonical_point C (affine_neg C g)" by (simp add: canonical_point_def affine_neg_def)
  from constant_point_is [OF assms(1) this, where 'a = 'a]
  have neg: "pt_is C (constant_affine_point (affine_neg C g) :: 'a affine_point_target) (- ap_x g mod ?p, ap_y g)" by (simp add: affine_neg_def)
  have "cong_mod ?p (ap_x g) x" "cong_mod ?p (ap_y g) y"
    using assms(4) constant_point_is [OF assms(1,3), where 'a = 'a] nn_is_fun [OF assms(5)] unfolding pt_is_def h same_mod_cong [symmetric] by auto
  moreover have "cong_mod ?p (- x) x'" "cong_mod ?p y y'" using assms(2) h unfolding cyclic_group_def by (metis fst_conv snd_conv)+
  ultimately have "cong_mod ?p (- ap_x g mod ?p) x'" "cong_mod ?p (ap_y g) y'"
    using cong_mod_ring(2) [OF cong_mod_refl(1), of ?p "ap_x g" x 0] cong_mod_trans cong_mod_refl(2) by (metis diff_0)+
  with neg show ?thesis unfolding h by (rule pt_is_cong)
qed

lemma of_limbs_take:
  assumes "\<forall>d \<in> set ds. d < B" and "k \<le> length ds"
  shows "of_limbs B (take k ds) = of_limbs B ds mod B ^ k"
proof -
  have "of_limbs B ds = of_limbs B (take k ds) + B ^ k * of_limbs B (drop k ds)"
    using of_limbs_append [of B "take k ds" "drop k ds"] assms(2) by simp
  moreover have "of_limbs B (take k ds) < B ^ k" using of_limbs_less [of "take k ds" B] assms by (auto dest: in_set_takeD)
  ultimately show ?thesis by simp
qed

text \<open>
  The windowed product: the multiple of the point by the selected digits, plus the starting value times
  the power of sixteen that was shifted over it.
\<close>

lemma windowed_part_sound:
  fixes P :: "'a::field affine_point_target"
  assumes "order_ok TYPE('a)" and "canon_ok cfg" and "curve_ok C" and "fermat (prime_of C)" and "cyclic_group C h"
    and bits: "ff_bits (cv_base C) div 32 = num_nonnative_limbs (cv_base C)" and "proj_is C G (h g)"
    and "length (to_digits hash) \<le> max 1 (digits_per_scalar C)"
    and "pt_is C P (h k)" and "pt_is C Q (h q)" and "big_is n m" and "num_limbs \<le> 8 * length n"
    and "sat (curve_scalar_mul_windowed_part cfg C G hash num_limbs P Q n) adv pos r pos'"
  shows "pt_is C r (h (16 ^ num_limbs * q + int (m mod 16 ^ num_limbs) * k))"
proof -
  have cyc: "cyclic_points C h" using assms(5) by (simp add: cyclic_group_def)
  from scalar_mul_multiple [OF cyc assms(7,8)] obtain S where S: "curve_scalar_mul_native C hash G = Some S" "proj_is C S (h (int hash * g))" by blast
  define s where "s = int hash * g"
  let ?T = "(projective_double C ^^ (num_limbs * WINDOW_SIZE)) S"
  have T: "proj_is C ?T (h (16 ^ num_limbs * s))"
    using cyclic_doubles [OF cyc S(2), of "num_limbs * WINDOW_SIZE"] by (simp add: s_def WINDOW_SIZE_def mult.commute [of num_limbs] power_mult)
  obtain start mult where aff: "to_affine C S = Some start" "to_affine C ?T = Some mult"
    using proj_is_to_affine [OF assms(4)] S(2) T by (metis surj_pair)
  note start = native_point_is [OF assms(4,3) S(2) [folded s_def] aff(1)] and mult = native_point_is [OF assms(4,3) T aff(2)]
  from assms(13) obtain R0 ms ls R1 N p1 p2 p3 p4 p5 where parts:
    "sat (curve_add cfg C (constant_affine_point start) Q) adv pos R0 p1" "sat (precompute_window cfg C start P) adv p1 ms p2"
    "sat (split_nonnative_to_4_bit_limbs n) adv p2 ls p3" "sat (circuit_fold (window_step cfg C ms) R0 (rev (take num_limbs ls))) adv p3 R1 p4"
    "sat (curve_neg cfg C (constant_affine_point mult)) adv p4 N p5" "sat (curve_add cfg C R1 N) adv p5 r pos'"
    unfolding curve_scalar_mul_windowed_part_def S(1) option.case Let_def aff prod.case sat_bind by auto
  from split_windows_sound [OF parts(3)] obtain ws where ws: "map tval ls = map of_nat ws" "length ws = 8 * length n"
    "\<forall>w \<in> set ws. w < 16" "big_is n (of_limbs 16 ws)" by blast
  have m: "m = of_limbs 16 ws" by (rule big_is_unique [OF assms(1,11) ws(4)])
  have low: "of_limbs 16 (take num_limbs ws) = m mod 16 ^ num_limbs"
    unfolding m using of_limbs_take [OF ws(3), of num_limbs] assms(12) ws(2) by simp
  note ms = precompute_window_sound [OF assms(1-3) cyc assms(9) start(1) native_neg_is [OF assms(3,5) start(2,1) assms(1)] parts(2)]
  have "map tval (rev (take num_limbs ls)) = map of_nat (rev (take num_limbs ws))" using ws(1) by (simp add: rev_map [symmetric] take_map [symmetric])
  note loop = window_loop [OF assms(1-3) cyc bits ms this _ circuit_add_cyclic [OF assms(1-3) cyc start(1) assms(10) parts(1)] parts(4)]
  have "pt_is C R1 (h (16 ^ num_limbs * (s + q) + int (m mod 16 ^ num_limbs) * k))"
    using loop ws(2,3) assms(12) low by (auto dest: in_set_takeD)
  from circuit_add_cyclic [OF assms(1-3) cyc this curve_neg_group [OF assms(1,3,5) mult(1) parts(5)] parts(6)]
  show ?thesis by (simp add: algebra_simps)
qed

end
