(* ===== verification/Fixed_Base.thy ===== *)
theory Fixed_Base
  imports Windowed_Mul
begin

text \<open>
  Multiplication of a fixed point in a circuit (\<open>circuits/plonky2_ed25519/src/gadgets/curve_fixed_base.rs\<close>):
  the multiples of the point are constants, chosen by the four bit digits of the scalar.
\<close>

section \<open>The gadget\<close>

fun affine_doubles :: "curve \<Rightarrow> nat \<Rightarrow> affine_point \<Rightarrow> affine_point option" where
  "affine_doubles C 0 P = Some P"
| "affine_doubles C (Suc n) P = (case affine_double C P of None \<Rightarrow> None | Some Q \<Rightarrow> affine_doubles C n Q)"

text \<open>\<open>16 ^ i\<close> times the base for the digits of the scalar, and the multiples of one of them.\<close>

fun scaled_base :: "curve \<Rightarrow> nat \<Rightarrow> affine_point \<Rightarrow> affine_point list option" where
  "scaled_base C 0 acc = Some []"
| "scaled_base C (Suc n) acc = (case affine_doubles C 4 acc of None \<Rightarrow> None | Some next \<Rightarrow>
     map_option ((#) acc) (scaled_base C n next))"

fun point_multiples :: "curve \<Rightarrow> affine_point \<Rightarrow> nat \<Rightarrow> affine_point \<Rightarrow> affine_point list option" where
  "point_multiples C point 0 acc = Some []"
| "point_multiples C point (Suc n) acc = (case affine_add C point acc of None \<Rightarrow> None | Some next \<Rightarrow>
     map_option ((#) acc) (point_multiples C point n next))"

definition fixed_base_step :: "('a::field) config \<Rightarrow> curve \<Rightarrow> 'a affine_point_target \<Rightarrow> 'a target \<times> affine_point
    \<Rightarrow> ('a, 'a affine_point_target) circuit" where
  "fixed_base_step cfg C result lp = (case lp of (limb, point) \<Rightarrow>
     case point_multiples C point 16 affine_ZERO of None \<Rightarrow> circuit_bind (require False) (\<lambda>_. circuit_return result)
     | Some muls \<Rightarrow>
       let muls_point = map constant_affine_point (tl muls);
           muls_point = hd muls_point # muls_point;
           should_add = not_target (is_equal limb (Constant 0))
       in circuit_bind (random_access_curve_points C limb muls_point) (\<lambda>r.
            curve_conditional_add cfg C result r should_add))"

definition fixed_base_curve_mul_circuit :: "('a::field) config \<Rightarrow> curve \<Rightarrow> projective_point \<Rightarrow> nat \<Rightarrow> affine_point \<Rightarrow> 'a nonnative_target
    \<Rightarrow> ('a, 'a affine_point_target) circuit" where
  "fixed_base_curve_mul_circuit cfg C generator hash_0_scalar base scalar =
     (let panic = circuit_bind (require False) (\<lambda>_. circuit_return (constant_affine_point base)) in
      circuit_bind (split_nonnative_to_4_bit_limbs scalar) (\<lambda>limbs.
      case curve_scalar_mul_native C hash_0_scalar generator of None \<Rightarrow> panic | Some s \<Rightarrow>
      case (to_affine C s, scaled_base C (length scalar * 8) base) of
        (Some rando, Some bases) \<Rightarrow>
          circuit_bind (circuit_fold (fixed_base_step cfg C) (constant_affine_point rando) (zip limbs bases)) (\<lambda>result.
            curve_add cfg C result (constant_affine_point (affine_neg C rando)))
      | _ \<Rightarrow> panic))"

section \<open>Affine points of a cyclic group\<close>

definition ap_is :: "curve \<Rightarrow> affine_point \<Rightarrow> int \<times> int \<Rightarrow> bool" where
  "ap_is C P q \<longleftrightarrow> canonical_point C P \<and> ap_x P = fst q mod prime_of C \<and> ap_y P = snd q mod prime_of C"

lemma curve_sum_mod:
  assumes "p = prime_of C"
  shows "curve_sum C (x1 mod p, y1 mod p) (x2 mod p, y2 mod p) (x3 mod p, y3 mod p) \<longleftrightarrow> curve_sum C (x1, y1) (x2, y2) (x3, y3)"
proof -
  let ?t' = "cv_D C * (x1 mod p * (x2 mod p)) * (y1 mod p * (y2 mod p))" and ?t = "cv_D C * (x1 * x2) * (y1 * y2)"
  have t: "cong_mod p (1 + ?t') (1 + ?t)" "cong_mod p (1 - ?t') (1 - ?t)" by (intro cong_mod_ring cong_mod_refl)+
  have "cong_mod p (x3 mod p * (1 + ?t')) (x1 mod p * (y2 mod p) + y1 mod p * (x2 mod p)) \<longleftrightarrow> cong_mod p (x3 * (1 + ?t)) (x1 * y2 + y1 * x2)"
    by (intro cong_mod_swap cong_mod_ring cong_mod_refl)
  moreover have "cong_mod p (y3 mod p * (1 - ?t')) (y1 mod p * (y2 mod p) - cv_A C * (x1 mod p * (x2 mod p)))
      \<longleftrightarrow> cong_mod p (y3 * (1 - ?t)) (y1 * y2 - cv_A C * (x1 * x2))"
    by (intro cong_mod_swap cong_mod_ring cong_mod_refl)
  ultimately show ?thesis using unit_mod_swap [OF t(1)] unit_mod_swap [OF t(2)] assms by (simp add: curve_sum_def Let_def)
qed

lemma affine_add_cyclic:
  assumes "fermat (prime_of C)" and "cyclic_points C h" and "ap_is C P (h i)" and "ap_is C Q (h j)"
  shows "\<exists>R. affine_add C P Q = Some R \<and> ap_is C R (h (i + j))"
proof -
  let ?p = "prime_of C" and ?R = "\<lparr>ap_x = fst (h (i + j)) mod prime_of C, ap_y = snd (h (i + j)) mod prime_of C\<rparr>"
  have "0 < ?p" using assms(1) by (simp add: fermat_def)
  then have R: "canonical_point C ?R" by (simp add: canonical_point_def)
  have "curve_sum C (h i) (h j) (h (i + j))" using assms(2) by (simp add: cyclic_points_def)
  then have "curve_sum C (coords P) (coords Q) (coords ?R)"
    using assms(3,4) curve_sum_mod [OF refl, of C "fst (h i)" "snd (h i)" "fst (h j)" "snd (h j)" "fst (h (i + j))" "snd (h (i + j))"]
    by (simp add: ap_is_def)
  with R show ?thesis unfolding affine_add_iff [OF assms(1)] ap_is_def by (intro exI [of _ ?R]) simp
qed

lemma affine_double_cyclic:
  assumes "fermat (prime_of C)" and "cyclic_points C h" and "ap_is C P (h i)"
  shows "\<exists>R. affine_double C P = Some R \<and> ap_is C R (h (2 * i))"
  using affine_add_cyclic [OF assms(1,2,3,3)] unfolding affine_add_iff [OF assms(1)] affine_double_iff [OF assms(1)] by simp

lemma affine_doubles_cyclic:
  assumes "fermat (prime_of C)" and "cyclic_points C h" and "ap_is C P (h i)"
  shows "\<exists>R. affine_doubles C n P = Some R \<and> ap_is C R (h (2 ^ n * i))"
  using assms(3)
proof (induction n arbitrary: P i)
  case (Suc n)
  from affine_double_cyclic [OF assms(1,2) Suc.prems] obtain Q where "affine_double C P = Some Q" "ap_is C Q (h (2 * i))" by blast
  with Suc.IH [of Q "2 * i"] show ?case by (simp add: mult.assoc mult.left_commute)
qed simp

lemma scaled_base_cyclic:
  assumes "fermat (prime_of C)" and "cyclic_points C h" and "ap_is C P (h b)"
  shows "\<exists>Ps. scaled_base C n P = Some Ps \<and> length Ps = n \<and> (\<forall>i < n. ap_is C (Ps ! i) (h (16 ^ i * b)))"
  using assms(3)
proof (induction n arbitrary: P b)
  case (Suc n)
  from affine_doubles_cyclic [OF assms(1,2) Suc.prems, of 4] obtain Q where Q: "affine_doubles C 4 P = Some Q" "ap_is C Q (h (16 * b))" by auto
  from Suc.IH [OF Q(2)] obtain Ps where "scaled_base C n Q = Some Ps" "length Ps = n" "\<forall>i < n. ap_is C (Ps ! i) (h (16 ^ i * (16 * b)))" by blast
  with Q(1) Suc.prems show ?case by (auto simp: nth_Cons' less_Suc_eq_0_disj algebra_simps)
qed simp

lemma point_multiples_cyclic:
  assumes "fermat (prime_of C)" and "cyclic_points C h" and "ap_is C P (h k)" and "ap_is C Q (h i)"
  shows "\<exists>Ps. point_multiples C P n Q = Some Ps \<and> length Ps = n \<and> (\<forall>j < n. ap_is C (Ps ! j) (h (i + int j * k)))"
  using assms(4)
proof (induction n arbitrary: Q i)
  case (Suc n)
  from affine_add_cyclic [OF assms(1-3) Suc.prems] obtain R where R: "affine_add C P Q = Some R" "ap_is C R (h (k + i))" by blast
  from Suc.IH [OF R(2)] obtain Ps where "point_multiples C P n R = Some Ps" "length Ps = n" "\<forall>j < n. ap_is C (Ps ! j) (h (k + i + int j * k))" by blast
  with R(1) Suc.prems show ?case by (auto simp: nth_Cons' less_Suc_eq_0_disj algebra_simps)
qed simp

section \<open>The gadget is sound\<close>

lemma ap_is_pt:
  assumes "curve_ok C" and "ap_is C P q"
  shows "pt_is C (constant_affine_point P) q"
proof -
  have "canonical_point C P" using assms(2) by (simp add: ap_is_def)
  from constant_point_is [OF assms(1) this] assms(2) show ?thesis using pt_is_cong [of C _ "ap_x P" "ap_y P" "fst q" "snd q"] by (simp add: ap_is_def)
qed

lemma ap_is_zero: "fermat (prime_of C) \<Longrightarrow> cyclic_points C h \<Longrightarrow> ap_is C affine_ZERO (h 0)"
  by (auto simp: ap_is_def affine_ZERO_def cyclic_points_def canonical_point_def fermat_def)

lemma fixed_base_step_sound:
  fixes R :: "'a::field affine_point_target"
  assumes "order_ok TYPE('a)" and "canon_ok cfg" and "curve_ok C" and "fermat (prime_of C)" and "cyclic_points C h"
    and "ff_bits (cv_base C) div 32 = num_nonnative_limbs (cv_base C)"
    and "pt_is C R (h i)" and "tval l = of_nat w" and "w < 16" and "ap_is C P (h k)" and "sat (fixed_base_step cfg C R (l, P)) adv pos r pos'"
  shows "pt_is C r (h (i + int w * k))"
proof -
  from point_multiples_cyclic [OF assms(4,5,10) ap_is_zero [OF assms(4,5)], of 16] obtain Ps where
    Ps: "point_multiples C P 16 affine_ZERO = Some Ps" "length Ps = 16" "\<And>j. j < 16 \<Longrightarrow> ap_is C (Ps ! j) (h (int j * k))" by auto
  let ?ms = "map constant_affine_point (tl Ps) :: 'a affine_point_target list"
  from assms(11) obtain A q where parts: "sat (random_access_curve_points C l (hd ?ms # ?ms)) adv pos A q"
    "sat (curve_conditional_add cfg C R A (not_target (is_equal l (Constant 0)))) adv q r pos'"
    by (auto simp: fixed_base_step_def Ps(1) Let_def)
  let ?v = "if w = 0 then k else int w * k"
  have sel: "pt_is C ((hd ?ms # ?ms) ! w) (h ?v)"
  proof (cases w)
    case 0
    have "hd ?ms = constant_affine_point (Ps ! 1)" using Ps(2) by (simp add: hd_conv_nth nth_tl flip: length_greater_0_conv)
    with 0 show ?thesis using ap_is_pt [OF assms(3) Ps(3) [of 1]] by simp
  next
    case (Suc j)
    then show ?thesis using ap_is_pt [OF assms(3) Ps(3) [of w]] Ps(2) assms(9) by (simp add: nth_tl)
  qed
  have A: "pt_is C A (h ?v)"
    by (rule random_access_point [OF assms(1,8) _ _ sel assms(6) parts(1)]) (use Ps(2) assms(9) in simp_all)
  have "tval l = 0 \<longleftrightarrow> w = 0" using u32_is_zero [OF assms(1), of l w] assms(8,9) by (auto simp: u32_is_def)
  then have "tval (not_target (is_equal l (Constant 0))) = of_bool (w \<noteq> 0)" by (simp add: is_equal_def not_target_def)
  from conditional_add_cyclic [OF assms(1-3,5,7) A this parts(2)] show ?thesis by (cases "w = 0") simp_all
qed

lemma fixed_base_loop:
  fixes R :: "'a::field affine_point_target"
  assumes "order_ok TYPE('a)" and "canon_ok cfg" and "curve_ok C" and "fermat (prime_of C)" and "cyclic_points C h"
    and "ff_bits (cv_base C) div 32 = num_nonnative_limbs (cv_base C)"
    and "map tval ls = map of_nat ws" and "\<forall>w \<in> set ws. w < 16" and "length Ps = length ws" and "\<forall>j < length Ps. ap_is C (Ps ! j) (h (16 ^ j * k))"
    and "pt_is C R (h i)" and "sat (circuit_fold (fixed_base_step cfg C) R (zip ls Ps)) adv pos r pos'"
  shows "pt_is C r (h (i + int (of_limbs 16 ws) * k))"
  using assms(7-12)
proof (induction ls arbitrary: ws Ps R i k pos)
  case (Cons l ls)
  from Cons.prems(1) obtain w ws' where ws: "ws = w # ws'" "tval l = of_nat w" "map tval ls = map of_nat ws'" by (cases ws) auto
  with Cons.prems(3) obtain P Ps' where Ps: "Ps = P # Ps'" "length Ps' = length ws'" by (cases Ps) auto
  from Cons.prems(6) obtain R' q where step: "sat (fixed_base_step cfg C R (l, P)) adv pos R' q"
    "sat (circuit_fold (fixed_base_step cfg C) R' (zip ls Ps')) adv q r pos'" unfolding Ps(1) zip_Cons_Cons sat_fold_Cons by blast
  have P: "ap_is C P (h k)" using Cons.prems(4) Ps(1) by (auto dest: spec [of _ 0])
  have rest: "\<forall>j < length Ps'. ap_is C (Ps' ! j) (h (16 ^ j * (16 * k)))"
    using Cons.prems(4) Ps(1) by (auto simp: mult.assoc mult.left_commute dest: spec [of _ "Suc j" for j])
  have "w < 16" "\<forall>w \<in> set ws'. w < 16" using Cons.prems(2) ws(1) by simp_all
  from Cons.IH [OF ws(3) this(2) Ps(2) rest fixed_base_step_sound [OF assms(1-6) Cons.prems(5) ws(2) this(1) P step(1)] step(2)]
  show ?case using ws(1) by (simp add: algebra_simps)
qed simp

lemma fixed_base_sound:
  fixes n :: "'a::field nonnative_target"
  assumes "order_ok TYPE('a)" and "canon_ok cfg" and "curve_ok C" and "fermat (prime_of C)" and "cyclic_group C h"
    and bits: "ff_bits (cv_base C) div 32 = num_nonnative_limbs (cv_base C)" and "proj_is C G (h g)"
    and "length (to_digits hash) \<le> max 1 (digits_per_scalar C)"
    and "ap_is C B (h b)" and "big_is n m" and "sat (fixed_base_curve_mul_circuit cfg C G hash B n) adv pos r pos'"
  shows "pt_is C r (h (int m * b))"
proof -
  have cyc: "cyclic_points C h" using assms(5) by (simp add: cyclic_group_def)
  from scalar_mul_multiple [OF cyc assms(7,8)] obtain S where S: "curve_scalar_mul_native C hash G = Some S" "proj_is C S (h (int hash * g))" by blast
  obtain start where aff: "to_affine C S = Some start" using proj_is_to_affine [OF assms(4)] S(2) by (metis surj_pair)
  from scaled_base_cyclic [OF assms(4) cyc assms(9), of "length n * 8"] obtain Ps where
    Ps: "scaled_base C (length n * 8) B = Some Ps" "length Ps = length n * 8" "\<forall>i < length Ps. ap_is C (Ps ! i) (h (16 ^ i * b))" by auto
  note start = native_point_is [OF assms(4,3) S(2) aff]
  from assms(11) obtain ls R p1 p2 where parts: "sat (split_nonnative_to_4_bit_limbs n) adv pos ls p1"
    "sat (circuit_fold (fixed_base_step cfg C) (constant_affine_point start) (zip ls Ps)) adv p1 R p2"
    "sat (curve_add cfg C R (constant_affine_point (affine_neg C start))) adv p2 r pos'"
    unfolding fixed_base_curve_mul_circuit_def S(1) option.case Let_def aff Ps(1) prod.case sat_bind by blast
  from split_windows_sound [OF parts(1)] obtain ws where ws: "map tval ls = map of_nat ws" "length ws = 8 * length n"
    "\<forall>w \<in> set ws. w < 16" "big_is n (of_limbs 16 ws)" by blast
  have m: "m = of_limbs 16 ws" by (rule big_is_unique [OF assms(1,10) ws(4)])
  have "length Ps = length ws" using Ps(2) ws(2) by simp
  from circuit_add_cyclic [OF assms(1-3) cyc fixed_base_loop [OF assms(1-4) cyc bits ws(1,3) this Ps(3) start(1) parts(2)]
      native_neg_is [OF assms(3,5) start(2,1) assms(1)] parts(3)]
  show ?thesis by (simp add: m)
qed

end
