(* ===== verification/Ed_Generator.thy ===== *)
theory Ed_Generator
  imports Ed_Curve
begin

text \<open>
  The generator of \<open>curve/ed25519.rs\<close> is a point of the curve, by evaluation of its coordinates.
\<close>

text \<open>The products are reduced with given quotients, so that no long division is evaluated.\<close>

lemma mod_by_quotient: "a * b = q * 2 ^ 255 - 19 * q + r \<Longrightarrow> a * b mod (2 ^ 255 - 19) = r mod (2 ^ 255 - 19 :: int)"
proof -
  assume "a * b = q * 2 ^ 255 - 19 * q + r"
  then have "a * b = r + q * (2 ^ 255 - 19)" by (simp add: algebra_simps)
  then show ?thesis by (simp only: mod_mult_self1)
qed

lemma generator_on_curve: "affine_is_valid ed25519 GENERATOR_AFFINE"
proof -
  define p x y d xx yy u v :: int where "p = 2 ^ 255 - 19"
    and "x = 15112221349535400772501151409588531511454012693041857206046113283949847762202"
    and "y = 46316835694926478169428394003475163141307993866256225615783033603165251855960"
    and "d = 37095705934669439343138083508754565189542113879843219016388785533085940283555"
    and "xx = 26187595835145689230469591415084376402084551887632582719101735842039498021991"
    and "yy = 37053468555941182535542715202780130513046395093004980492626426882532201484768"
    and "u = 30655112042971184558329056706696549839726511367961720624960021019854854290862"
    and "v = 10865872720795493305073123787695754110961843205372397773524691040492703462776"
  have "x * x mod p = xx mod p" unfolding p_def
    by (rule mod_by_quotient [where q = 3944643120641682540557488748386534817562863454810087094083181913524639656337]) (simp add: x_def xx_def)
  moreover have "y * y mod p = yy mod p" unfolding p_def
    by (rule mod_by_quotient [where q = 37053468555941182535542715202780130513046395093004980492626426882532201484768]) (simp add: y_def yy_def)
  moreover have "xx * yy mod p = u mod p" unfolding p_def
    by (rule mod_by_quotient [where q = 16760061334493241107500538505654000897334113208084852940225110938905278734074]) (simp add: xx_def yy_def u_def)
  moreover have "d * u mod p = v mod p" unfolding p_def
    by (rule mod_by_quotient [where q = 19641635784112395346641967481223427603076292420967697888635760513231183455066]) (simp add: d_def u_def v_def)
  ultimately have parts: "(1 + d * (x * x) * (y * y)) mod p = (1 + v) mod p" "((p - 1) * (x * x) + y * y) mod p = (yy - xx) mod p"
    by (metis (no_types) mod_add_cong mod_mult_cong mult.assoc,
        metis (no_types, opaque_lifting) add.commute diff_conv_add_uminus left_diff_distrib mod_add_cong mod_diff_cong mod_mult_self3 mult_1 mult.commute uminus_add_conv_diff)
  have "1 + v = yy - xx + (0) * p" by (simp add: p_def v_def xx_def yy_def)
  with parts have "((p - 1) * (x * x) + y * y) mod p = (1 + d * (x * x) * (y * y)) mod p" by (simp only: mod_mult_self1)
  moreover have "prime_of ed25519 = p" "cv_A ed25519 = p - 1" by (simp_all add: p_def ed25519_values)
  ultimately show ?thesis
    unfolding affine_is_valid_def Let_def generator_values ed25519_D by (simp only: x_def y_def d_def)
qed

end
