(* ===== verification/Goldilocks.thy ===== *)
theory Goldilocks
  imports U32_Gadgets
begin

text \<open>
  The field of the circuits. Every circuit of the prover works over the integers modulo
  \<open>2 ^ 64 - 2 ^ 32 + 1\<close> (\<open>prover/src/lib.rs\<close>, \<open>prelude::F\<close>). The order is shown to be prime, the field is built as a
  type, and the hypotheses that the gates and gadgets make of a field hold for it.
\<close>

section \<open>The order is prime\<close>

text \<open>
  A power of seven is minus one modulo the order and its exponent is a multiple of \<open>2 ^ 31\<close>, so
  modulo every divisor it generates a group of \<open>2 ^ 32\<close> elements. A divisor is therefore larger
  than the square root of the order.
\<close>

fun gl_pow_mod :: "int \<Rightarrow> int \<Rightarrow> nat \<Rightarrow> int" where
  "gl_pow_mod m b 0 = b mod m"
| "gl_pow_mod m b (Suc k) = gl_pow_mod m (b * b mod m) k"

lemma pow_mod_power: "gl_pow_mod m b k = b ^ (2 ^ k) mod m"
proof (induction k arbitrary: b)
  case (Suc k)
  have "(b * b mod m) ^ 2 ^ k mod m = (b * b) ^ 2 ^ k mod m" by (rule power_mod)
  also have "(b * b) ^ 2 ^ k = b ^ 2 ^ Suc k" by (simp only: power_mult_distrib power_add [symmetric]) (simp add: mult_2)
  finally show ?case using Suc by simp
qed simp

abbreviation gl :: int where
  "gl \<equiv> int goldilocks_order"

lemma gl_value: "gl = 18446744069414584321"
  by (simp add: goldilocks_order_def)

text \<open>The power of seven with exponent \<open>2 ^ 32 - 1\<close> modulo the order; its power \<open>2 ^ 31\<close> is minus one.\<close>

definition gl_root :: int where
  "gl_root = 1753635133440165772"

definition half_order :: nat where
  "half_order = 2 ^ 31"

lemma gl_root_power: "gl_root ^ half_order mod gl = gl - 1"
proof -
  have "gl_pow_mod 18446744069414584321 1753635133440165772 31 = 18446744069414584320" by code_simp
  then have "gl_pow_mod gl gl_root 31 = gl - 1" unfolding gl_value gl_root_def by (rule trans) simp
  then show ?thesis by (simp only: pow_mod_power half_order_def)
qed

lemma root_minus_one:
  assumes "r dvd gl"
  shows "r dvd gl_root ^ half_order + 1"
proof -
  have "gl_root ^ half_order mod gl = (- 1) mod gl"
    unfolding gl_root_power by (simp add: gl_value)
  then have "gl dvd gl_root ^ half_order - (- 1)" by (simp only: mod_eq_dvd_iff)
  with assms show ?thesis by (metis diff_minus_eq_add dvd_trans)
qed

lemma odd_power_minus_one:
  fixes x :: int
  assumes "r dvd x + 1" and "odd n"
  shows "r dvd x ^ n + 1"
proof -
  have "x mod r = (- 1) mod r" using assms(1) by (simp add: mod_eq_dvd_iff)
  then have "x ^ n mod r = (- 1) ^ n mod r" by (metis power_mod)
  also have "(- 1 :: int) ^ n = - 1" using assms(2) by simp
  finally show ?thesis by (simp add: mod_eq_dvd_iff)
qed

lemma odd_part: "0 < d \<Longrightarrow> \<exists>k m. d = 2 ^ k * m \<and> odd (m :: nat)"
proof (induction d rule: less_induct)
  case (less d)
  show ?case
  proof (cases "even d")
    case True
    then obtain e where e: "d = 2 * e" by (rule evenE)
    with less.prems less.IH [of e] obtain k m where "e = 2 ^ k * m" "odd m" by auto
    with e have "d = 2 ^ Suc k * m \<and> odd m" by simp
    then show ?thesis by blast
  next
    case False
    then show ?thesis by (metis mult_1 power_0)
  qed
qed

lemma no_small_period:
  assumes r: "r dvd gl" "2 < r" and d: "0 < d" "d < 2 ^ 32"
  shows "\<not> r dvd gl_root ^ d - 1"
proof
  assume one: "r dvd gl_root ^ d - 1"
  obtain k m where km: "d = 2 ^ k * m" "odd m" using odd_part [OF d(1)] by blast
  then have "2 ^ k < (2 :: nat) ^ 32" using d by (cases m) auto
  then have k: "k < 32" by (rule power_less_imp_less_exp [rotated]) simp
  then have "k + (31 - k) = 31" by simp
  then have "2 ^ k * 2 ^ (31 - k) = half_order" by (metis power_add half_order_def)
  then have "d * 2 ^ (31 - k) = half_order * m" by (metis km(1) mult.assoc mult.commute)
  then have pow: "(gl_root ^ d) ^ (2 ^ (31 - k)) = (gl_root ^ half_order) ^ m" by (metis power_mult)
  have "gl_root ^ d mod r = 1 mod r" using one by (simp only: mod_eq_dvd_iff)
  then have "(gl_root ^ d) ^ (2 ^ (31 - k)) mod r = 1 mod r" by (metis power_mod power_one)
  with pow have "r dvd (gl_root ^ half_order) ^ m - 1" by (metis mod_eq_dvd_iff)
  moreover have "r dvd (gl_root ^ half_order) ^ m + 1" by (rule odd_power_minus_one [OF root_minus_one [OF r(1)] km(2)])
  ultimately have "r dvd ((gl_root ^ half_order) ^ m + 1) - ((gl_root ^ half_order) ^ m - 1)" by (rule dvd_diff [rotated])
  then have "r dvd 2" by simp
  then show False using r(2) by (auto dest: zdvd_imp_le)
qed

lemma root_coprime:
  assumes "r dvd gl"
  shows "coprime gl_root r"
proof (rule coprimeI)
  fix c assume c: "c dvd gl_root" "c dvd r"
  have "half_order \<noteq> 0" by (simp add: half_order_def)
  then have "c dvd gl_root ^ half_order" using c(1) by (metis dvd_power_same dvd_trans dvd_power gr0I)
  moreover have "c dvd gl_root ^ half_order + 1" using c(2) root_minus_one [OF assms] by (rule dvd_trans)
  ultimately show "is_unit c" by (metis dvd_add_right_iff)
qed

lemma divisor_large:
  assumes r: "r dvd gl" "2 < r"
  shows "2 ^ 32 < r"
proof -
  let ?f = "\<lambda>i. gl_root ^ i mod r"
  have "inj_on ?f {..<2 ^ 32}"
  proof (rule linorder_inj_onI)
    fix i j :: nat assume ij: "i < j" "i \<in> {..<2 ^ 32}" "j \<in> {..<2 ^ 32}"
    show "?f i \<noteq> ?f j"
    proof
      assume "?f i = ?f j"
      then have "r dvd gl_root ^ j - gl_root ^ i" by (metis mod_eq_dvd_iff)
      also have "gl_root ^ j - gl_root ^ i = gl_root ^ i * (gl_root ^ (j - i) - 1)"
        using ij(1) by (simp add: right_diff_distrib power_add [symmetric])
      finally have "r dvd gl_root ^ (j - i) - 1"
        using root_coprime [OF r(1)] by (metis coprime_commute coprime_dvd_mult_right_iff coprime_power_left_iff)
      moreover have "j - i < 2 ^ 32" using ij(3) by simp
      ultimately show False using no_small_period [OF r, of "j - i"] ij(1) by simp
    qed
  qed auto
  moreover have "?f ` {..<2 ^ 32} \<subseteq> {0<..<r}"
  proof
    fix y assume "y \<in> ?f ` {..<2 ^ 32}"
    then obtain i where y: "y = ?f i" by blast
    have "\<not> r dvd gl_root ^ i"
      using root_coprime [OF r(1)] r(2)
      by (metis coprime_power_left_iff coprime_absorb_right not_numeral_less_one zdvd1_eq abs_of_nonneg order.strict_implies_order order.strict_trans zero_less_numeral)
    then show "y \<in> {0<..<r}" using r(2) y by (auto simp: dvd_eq_mod_eq_0 intro: order.not_eq_order_implies_strict)
  qed
  ultimately have "card {..<2 ^ 32 :: nat} \<le> card {0<..<r}" by (rule card_inj_on_le) simp
  then show ?thesis using r(2) by simp
qed

theorem gl_prime:
  assumes "a * b = gl" and "0 < a" and "0 < b"
  shows "a = 1 \<or> b = 1"
proof (rule ccontr)
  assume not: "\<not> ?thesis"
  have "a \<noteq> 2" "b \<noteq> 2" using assms(1) unfolding gl_value by (auto dest: arg_cong [of _ _ even])
  with not assms have "2 < a" "2 < b" by auto
  moreover have "a dvd gl" "b dvd gl" using assms(1) by (metis dvd_triv_left, metis dvd_triv_right)
  ultimately have "2 ^ 32 < a" "2 ^ 32 < b" by (metis divisor_large)+
  then have "2 ^ 32 * 2 ^ 32 < a * b" by (intro mult_strict_mono) auto
  with assms(1) show False by (simp add: gl_value)
qed

section \<open>The field\<close>

typedef goldilocks = "{0..<gl}"
  by (rule exI [of _ 0]) (simp add: gl_value)

setup_lifting type_definition_goldilocks

instantiation goldilocks :: comm_ring_1
begin

lift_definition zero_goldilocks :: goldilocks is 0 by (simp add: gl_value)

lift_definition one_goldilocks :: goldilocks is 1 by (simp add: gl_value)

lift_definition plus_goldilocks :: "goldilocks \<Rightarrow> goldilocks \<Rightarrow> goldilocks" is "\<lambda>x y. (x + y) mod gl"
  by (simp add: gl_value)

lift_definition minus_goldilocks :: "goldilocks \<Rightarrow> goldilocks \<Rightarrow> goldilocks" is "\<lambda>x y. (x - y) mod gl"
  by (simp add: gl_value)

lift_definition uminus_goldilocks :: "goldilocks \<Rightarrow> goldilocks" is "\<lambda>x. (- x) mod gl"
  by (simp add: gl_value)

lift_definition times_goldilocks :: "goldilocks \<Rightarrow> goldilocks \<Rightarrow> goldilocks" is "\<lambda>x y. (x * y) mod gl"
  by (simp add: gl_value)

instance
  by standard (transfer; simp add: gl_value mod_simps algebra_simps)+

end

lemma rep_of_nat: "Rep_goldilocks (of_nat n) = int n mod gl"
proof (induction n)
  case 0
  then show ?case by (simp add: zero_goldilocks.rep_eq)
next
  case (Suc n)
  then show ?case by (simp add: plus_goldilocks.rep_eq one_goldilocks.rep_eq mod_simps)
qed

lemma gl_of_nat: "\<exists>n < goldilocks_order. x = of_nat n" for x :: goldilocks
proof -
  have "Rep_goldilocks x \<in> {0..<gl}" by (rule Rep_goldilocks)
  then have "Rep_goldilocks (of_nat (nat (Rep_goldilocks x))) = Rep_goldilocks x" "nat (Rep_goldilocks x) < goldilocks_order"
    by (auto simp: rep_of_nat simp del: of_nat_nat)
  then show ?thesis by (metis Rep_goldilocks_inject)
qed

lemma gl_invertible:
  assumes "x \<noteq> 0"
  shows "\<exists>y :: goldilocks. y * x = 1"
proof -
  let ?x = "Rep_goldilocks x"
  have x: "0 < ?x" "?x < gl"
    using Rep_goldilocks [of x] assms by (auto simp: order.order_iff_strict zero_goldilocks.rep_eq Rep_goldilocks_inject [symmetric])
  have "gcd ?x gl dvd gl" by simp
  then obtain b where b: "gl = gcd ?x gl * b" by (rule dvdE)
  have g: "0 < gcd ?x gl" "gcd ?x gl \<le> ?x" using x by (auto intro: zdvd_imp_le)
  have "0 < b" using b g x by (metis order.strict_trans zero_less_mult_pos)
  with gl_prime [of "gcd ?x gl" b] b g(1) have "gcd ?x gl = 1 \<or> b = 1" by simp
  moreover have "b \<noteq> 1" using b g(2) x(2) by auto
  ultimately have "gcd ?x gl = 1" by simp
  then obtain u v where "u * ?x + v * gl = 1" using bezout_int by metis
  then have "u * ?x mod gl = (1 - v * gl) mod gl" by (metis add_diff_cancel_right')
  also have "\<dots> = 1 mod gl" by (simp only: mod_eq_dvd_iff) simp
  also have "1 mod gl = 1" by (simp add: gl_value)
  finally have "(u mod gl) * ?x mod gl = 1" by (simp only: mod_mult_left_eq)
  then have "Abs_goldilocks (u mod gl) * x = 1"
    by (simp add: Rep_goldilocks_inject [symmetric] times_goldilocks.rep_eq one_goldilocks.rep_eq Abs_goldilocks_inverse gl_value)
  then show ?thesis ..
qed

instantiation goldilocks :: field
begin

definition inverse_goldilocks :: "goldilocks \<Rightarrow> goldilocks" where
  "inverse_goldilocks x = (if x = 0 then 0 else SOME y. y * x = 1)"

definition divide_goldilocks :: "goldilocks \<Rightarrow> goldilocks \<Rightarrow> goldilocks" where
  "divide_goldilocks x y = x * inverse y"

instance
proof
  fix x :: goldilocks assume "x \<noteq> 0"
  then show "inverse x * x = 1"
    unfolding inverse_goldilocks_def using someI_ex [OF gl_invertible, of x] by simp
qed (simp_all add: divide_goldilocks_def inverse_goldilocks_def)

end

section \<open>The hypotheses of the circuits hold\<close>

lemma gl_order_ok: "order_ok TYPE(goldilocks)"
  unfolding order_ok_def
proof (rule inj_onI)
  fix m n assume "m \<in> {..<goldilocks_order}" "n \<in> {..<goldilocks_order}" "(of_nat m :: goldilocks) = of_nat n"
  then have "int m mod gl = int n mod gl" "m < goldilocks_order" "n < goldilocks_order" by (auto simp flip: rep_of_nat)
  then show "m = n" by simp
qed

lemma gl_order_zero: "(of_nat goldilocks_order :: goldilocks) = 0"
  by (simp add: Rep_goldilocks_inject [symmetric] rep_of_nat zero_goldilocks.rep_eq)

definition to_canonical_u64 :: "goldilocks \<Rightarrow> nat" where
  "to_canonical_u64 x = nat (Rep_goldilocks x)"

lemma to_canonical_of_nat: "n < goldilocks_order \<Longrightarrow> to_canonical_u64 (of_nat n) = n"
  by (simp add: to_canonical_u64_def rep_of_nat)

lemma of_nat_to_canonical: "of_nat (to_canonical_u64 x) = x" "to_canonical_u64 x < goldilocks_order"
  using gl_of_nat [of x] by (auto simp: to_canonical_of_nat)

lemma gl_canon_ok: "canon_ok (cfg\<lparr>cf_canon := to_canonical_u64\<rparr>)"
  by (simp add: canon_ok_def to_canonical_of_nat)

end
