(* ===== verification/Prover_Targets.thy ===== *)
theory Prover_Targets
  imports Bridge_Prelude Windowed_Mul Goldilocks
begin

text \<open>
  The typed targets of the prover's circuits (\<open>prover/src/common/targets\<close>) and its extensions of the circuit
  builder (\<open>prover/src/common/mod.rs\<close>): bytes, half bytes, bits, arrays that are read at a variable index and digests,
  with what a satisfied circuit says about their values.
\<close>

section \<open>Operations of the builder\<close>

text \<open>
  The builder's arithmetic on targets, as the \<open>plonky2\<close> crate documents it: a product and two sums per gate, so \<open>and\<close>,
  \<open>or\<close> and \<open>select\<close> are polynomials in their inputs.
\<close>

definition add_target :: "'a::field target \<Rightarrow> 'a target \<Rightarrow> 'a target" where
  "add_target x y = Wire (tval x + tval y)"

definition sub_target :: "'a::field target \<Rightarrow> 'a target \<Rightarrow> 'a target" where
  "sub_target x y = Wire (tval x - tval y)"

definition mul_target :: "'a::field target \<Rightarrow> 'a target \<Rightarrow> 'a target" where
  "mul_target x y = Wire (tval x * tval y)"

definition and_target :: "'a::field target \<Rightarrow> 'a target \<Rightarrow> 'a target" where
  "and_target x y = Wire (tval x * tval y)"

definition or_target :: "'a::field target \<Rightarrow> 'a target \<Rightarrow> 'a target" where
  "or_target x y = Wire ((tval x - tval x * tval y) + tval y)"

definition select_target :: "'a::field target \<Rightarrow> 'a target \<Rightarrow> 'a target \<Rightarrow> 'a target" where
  "select_target b x y = Wire (tval b * tval x - (tval b * tval y - tval y))"

definition constant_target :: "nat \<Rightarrow> 'a::field target" where
  "constant_target n = Constant (of_nat n)"

definition constant_bool :: "bool \<Rightarrow> 'a::field target" where
  "constant_bool b = Constant (of_bool b)"

definition assert_zero :: "'a::field target \<Rightarrow> ('a, unit) circuit" where
  "assert_zero x = require (tval x = 0)"

definition assert_one :: "'a::field target \<Rightarrow> ('a, unit) circuit" where
  "assert_one x = require (tval x = 1)"

definition le_sum :: "'a::field target list \<Rightarrow> 'a target" where
  "le_sum bits = Wire (reduce_with_powers (map tval bits) 2)"

definition split_le :: "'a::field target \<Rightarrow> nat \<Rightarrow> ('a, 'a target list) circuit" where
  "split_le x num_bits = split_le_base_2 x num_bits"

definition low_bits :: "'a::field target \<Rightarrow> nat \<Rightarrow> nat \<Rightarrow> ('a, 'a target list) circuit" where
  "low_bits x num_low_bits num_bits =
     circuit_bind (split_le x num_bits) (\<lambda>bits. circuit_return (take num_low_bits bits))"

definition range_check :: "'a::field target \<Rightarrow> nat \<Rightarrow> ('a, unit) circuit" where
  "range_check x n_log = circuit_bind (split_le x n_log) (\<lambda>_. circuit_return ())"

definition add_virtual_target :: "('a, 'a target) circuit" where
  "add_virtual_target = circuit_bind (add_virtual_targets 1) (\<lambda>ts. circuit_return (hd ts))"

definition add_virtual_bool_target_safe :: "('a::field, 'a target) circuit" where
  "add_virtual_bool_target_safe =
     circuit_bind add_virtual_target (\<lambda>b. circuit_bind (assert_bool b) (\<lambda>_. circuit_return b))"

fun circuit_map :: "('x \<Rightarrow> ('a, 'r) circuit) \<Rightarrow> 'x list \<Rightarrow> ('a, 'r list) circuit" where
  "circuit_map f [] = circuit_return []"
| "circuit_map f (x # xs) = circuit_bind (f x) (\<lambda>r. circuit_bind (circuit_map f xs) (\<lambda>rs. circuit_return (r # rs)))"

section \<open>Extensions of the builder and bytes (\<open>common/mod.rs\<close>)\<close>

definition xor_target :: "'a::field target \<Rightarrow> 'a target \<Rightarrow> 'a target" where
  "xor_target a b =
     (let not_a = not_target a; not_b = not_target b;
          c = and_target not_a not_b; c = not_target c;
          d = and_target a b; d = not_target d
      in and_target c d)"

text \<open>The targets of both sets are paired; sets of different sizes panic.\<close>

definition select_target_set :: "'a::field target \<Rightarrow> 'a target list \<Rightarrow> 'a target list \<Rightarrow> ('a, 'a target list) circuit" where
  "select_target_set condition a b =
     circuit_bind (require (length a = length b)) (\<lambda>_. circuit_return (map2 (select_target condition) a b))"

definition byte_to_bits :: "u8 \<Rightarrow> bool list" where
  "byte_to_bits byte = fold (\<lambda>bit_idx bits. bits[7 - bit_idx := drop_bit bit_idx byte mod 2 = 1]) [0..<8] (replicate 8 False)"

definition array_to_bits :: "bytes \<Rightarrow> bool list" where
  "array_to_bits data = concat (map byte_to_bits data)"

definition pad_byte_vec :: "nat \<Rightarrow> bytes \<Rightarrow> bytes exec" where
  "pad_byte_vec l data = (if length data \<le> l then Ret (data @ replicate (l - length data) 0) else Panic ''assertion failed'')"

section \<open>Bytes and half bytes (\<open>targets/byte.rs\<close>, \<open>targets/half_byte.rs\<close>)\<close>

definition byte_from_target_safe :: "'a::field target \<Rightarrow> ('a, 'a target) circuit" where
  "byte_from_target_safe t = circuit_bind (range_check t 8) (\<lambda>_. circuit_return t)"

definition as_bit_targets :: "'a::field target \<Rightarrow> ('a, 'a target list) circuit" where
  "as_bit_targets byte = low_bits byte 8 8"

definition as_half_byte_targets :: "'a::field target \<Rightarrow> ('a, 'a target \<times> 'a target) circuit" where
  "as_half_byte_targets byte =
     circuit_bind (as_bit_targets byte) (\<lambda>bits.
     let l_bits = take 4 bits; h_bits = drop 4 bits
     in circuit_return (le_sum l_bits, le_sum h_bits))"

definition byte_public_input :: "goldilocks \<Rightarrow> u8" where
  "byte_public_input x = of_nat (to_canonical_u64 x)"

definition half_byte_constant :: "nat \<Rightarrow> ('a::field, 'a target) circuit" where
  "half_byte_constant value = circuit_bind (require (value < 16)) (\<lambda>_. circuit_return (constant_target value))"

definition half_byte_from_target_safe :: "'a::field target \<Rightarrow> ('a, 'a target) circuit" where
  "half_byte_from_target_safe t = circuit_bind (range_check t 4) (\<lambda>_. circuit_return t)"

definition half_byte_public_input :: "goldilocks \<Rightarrow> u8 exec" where
  "half_byte_public_input x =
     (let value = to_canonical_u64 x in if value < 16 then Ret (of_nat value) else Panic ''assertion failed'')"

definition bool_public_input :: "goldilocks \<Rightarrow> bool exec" where
  "bool_public_input x =
     (let data = to_canonical_u64 x in if data = 0 \<or> data = 1 then Ret (data = 1) else Panic ''assertion failed'')"

section \<open>Arrays (\<open>targets/array.rs\<close>) and sums of bits (\<open>targets/target.rs\<close>)\<close>

definition constant_read_array :: "'x list \<Rightarrow> nat \<Rightarrow> nat \<Rightarrow> 'x list" where
  "constant_read_array arr idx r = map (\<lambda>offset. arr ! (idx + offset)) [0..<r]"

fun next_power_of_two :: "nat \<Rightarrow> nat" where
  "next_power_of_two n = (if n \<le> 1 then 1 else 2 * next_power_of_two ((n + 1) div 2))"

declare next_power_of_two.simps [simp del]

text \<open>Elements of one target each, which all arrays that are read at a variable index have.\<close>

definition random_read :: "'a::field target list \<Rightarrow> 'a target \<Rightarrow> ('a, 'a target) circuit" where
  "random_read arr idx =
     (let max_idx_sub_at = sub_target (constant_target (length arr - 1)) idx;
          selector_targets_padded_len = next_power_of_two (length arr);
          selector_targets = take selector_targets_padded_len (arr @ replicate selector_targets_padded_len (constant_target 0))
      in circuit_bind (range_check max_idx_sub_at 32) (\<lambda>_. random_access idx selector_targets))"

definition random_read_array :: "'a::field target list \<Rightarrow> 'a target \<Rightarrow> nat \<Rightarrow> ('a, 'a target list) circuit" where
  "random_read_array arr idx r = circuit_map (\<lambda>offset. random_read arr (add_target idx (constant_target offset))) [0..<r]"

text \<open>
  \<open>bits_to_target\<close>: a sum of 64 bits takes the most significant bit apart. The value may exceed the order of
  the field, which the code leaves to its callers.
\<close>

definition bits_to_target :: "'a::field target list \<Rightarrow> bool \<Rightarrow> ('a, 'a target) circuit" where
  "bits_to_target bits little_endian =
     circuit_bind (require (length bits \<le> 64)) (\<lambda>_.
     circuit_bind (require (length bits mod 8 = 0)) (\<lambda>_.
     let chunks = chunks_of 8 bits;
         ordered = (if little_endian then rev (concat (rev chunks)) else rev (concat chunks))
     in circuit_return (if length bits = 64
          then (let most_significant_bit = last ordered; partial_sum = le_sum (butlast ordered)
                in Wire (2 ^ (length bits - 1) * tval most_significant_bit + tval partial_sum))
          else le_sum ordered)))"

definition compress_to_goldilocks :: "nat \<Rightarrow> nat \<Rightarrow> 'a::field target list \<Rightarrow> ('a, 'a target list) circuit" where
  "compress_to_goldilocks pack_by packed_size arr =
     circuit_bind (require (pack_by \<le> 64)) (\<lambda>_.
     circuit_bind (require (pack_by * packed_size = length arr)) (\<lambda>_.
       circuit_map (\<lambda>bits. bits_to_target bits False) (chunks_of pack_by arr)))"

section \<open>Digests (\<open>targets/mod.rs\<close>)\<close>

definition blake2_add_virtual_unsafe :: "('a, 'a target list) circuit" where
  "blake2_add_virtual_unsafe = add_virtual_targets 256"

definition blake2_add_virtual_safe :: "('a::field, 'a target list) circuit" where
  "blake2_add_virtual_safe = circuit_map (\<lambda>_. add_virtual_bool_target_safe) [0..<256]"

definition check_equal :: "'a::field target list \<Rightarrow> 'a target list \<Rightarrow> ('a, 'a target) circuit" where
  "check_equal self other =
     circuit_bind (require (length self = length other)) (\<lambda>_.
     circuit_fold (\<lambda>equal (self_bit, other_bit).
       let bits_equal = is_equal self_bit other_bit in circuit_return (and_target equal bits_equal))
       (constant_bool True) (zip self other))"

definition connect_set :: "'a target list \<Rightarrow> 'a target list \<Rightarrow> ('a, unit) circuit" where
  "connect_set self other = circuit_fold (\<lambda>_ (t_0, t_1). connect t_0 t_1) () (zip self other)"

definition from_blake2_target :: "'a::field target list \<Rightarrow> ('a, 'a target list) circuit" where
  "from_blake2_target digest = compress_to_goldilocks 32 8 digest"

definition message_from_bit_array :: "'a::field target list \<Rightarrow> ('a, 'a target list) circuit" where
  "message_from_bit_array bits = compress_to_goldilocks (256 div 8) 8 bits"

text \<open>\<open>Blake2TargetGoldilocks::parse_public_inputs\<close>: four bytes per element, least significant first.\<close>

definition u32_to_le_bytes :: "nat \<Rightarrow> bytes" where
  "u32_to_le_bytes n = map (\<lambda>i. of_nat (n div 2 ^ (8 * i))) [0..<4]"

definition blake2_public_input :: "goldilocks list \<Rightarrow> bytes exec" where
  "blake2_public_input pis =
     (let data = concat (map (\<lambda>f. u32_to_le_bytes (to_canonical_u64 f mod 2 ^ 32)) (take 8 pis))
      in if length data = 32 then Ret data else Panic ''Insufficient public input count'')"

section \<open>Values of the operations\<close>

named_theorems target_vals \<open>values of the builder's operations\<close>

lemma tval_ops [simp, target_vals]:
  "tval (add_target x y) = tval x + tval y" "tval (sub_target x y) = tval x - tval y" "tval (mul_target x y) = tval x * tval y"
  "tval (constant_target n) = of_nat n" "tval (constant_bool b) = of_bool b" "tval (not_target x) = 1 - tval x"
  "tval (is_equal x y) = of_bool (tval x = tval y)"
  by (simp_all add: add_target_def sub_target_def mul_target_def constant_target_def constant_bool_def not_target_def is_equal_def)

text \<open>On bits the polynomials are the connectives.\<close>

lemma tval_and: "tval x = of_bool a \<Longrightarrow> tval y = of_bool b \<Longrightarrow> tval (and_target x y) = of_bool (a \<and> b)"
  and tval_or: "tval x = of_bool a \<Longrightarrow> tval y = of_bool b \<Longrightarrow> tval (or_target x y) = of_bool (a \<or> b)"
  and tval_not: "tval x = of_bool a \<Longrightarrow> tval (not_target x) = of_bool (\<not> a)"
  and tval_xor: "tval x = of_bool a \<Longrightarrow> tval y = of_bool b \<Longrightarrow> tval (xor_target x y) = of_bool (a \<noteq> b)"
  and tval_select: "tval c = of_bool a \<Longrightarrow> tval (select_target c x y) = (if a then tval x else tval y)"
  by (simp_all add: and_target_def or_target_def xor_target_def select_target_def not_target_def)

lemma tval_select_equal [simp]: "tval (select_target (is_equal a b) x y) = (if tval a = tval b then tval x else tval y)"
  by (simp add: select_target_def)

lemmas tval_bits = tval_and tval_or tval_not tval_xor tval_select

lemma sat_assert [simp]:
  "sat (assert_zero x) adv pos u pos' \<longleftrightarrow> tval x = 0 \<and> pos' = pos"
  "sat (assert_one x) adv pos u pos' \<longleftrightarrow> tval x = 1 \<and> pos' = pos"
  by (simp_all add: assert_zero_def assert_one_def)

lemma sat_map:
  "sat (circuit_map f xs) adv pos rs pos' \<Longrightarrow> list_all2 (\<lambda>x r. \<exists>p p'. sat (f x) adv p r p') xs rs"
  by (induction xs arbitrary: pos rs) auto

lemma sat_map_length: "sat (circuit_map f xs) adv pos rs pos' \<Longrightarrow> length rs = length xs"
  by (drule sat_map) (simp add: list_all2_lengthD)

lemma sat_map_nth:
  assumes "sat (circuit_map f xs) adv pos rs pos'" and "i < length xs"
  obtains p p' where "sat (f (xs ! i)) adv p (rs ! i) p'"
  using sat_map [OF assms(1)] assms(2) by (auto simp: list_all2_conv_all_nth)

lemma sat_virtual_target [simp]: "sat add_virtual_target adv pos t pos' \<longleftrightarrow> t = Wire (adv pos) \<and> pos' = pos + 1"
  by (auto simp: sat_def add_virtual_target_def add_virtual_targets_def circuit_bind_def circuit_return_def)

lemma sat_virtual_bool [simp]:
  "sat add_virtual_bool_target_safe adv pos t pos' \<longleftrightarrow> t = Wire (adv pos) \<and> (adv pos = 0 \<or> adv pos = 1) \<and> pos' = pos + 1"
  by (auto simp: add_virtual_bool_target_safe_def assert_bool_def)

section \<open>Bits of numbers\<close>

definition bits_le :: "nat \<Rightarrow> nat \<Rightarrow> bool list" where
  "bits_le k n = map (\<lambda>j. odd (n div 2 ^ j)) [0..<k]"

lemma length_bits_le [simp]: "length (bits_le k n) = k"
  by (simp add: bits_le_def)

lemma bits_le_Suc: "bits_le (Suc k) n = odd n # bits_le k (n div 2)"
  unfolding bits_le_def upt_conv_Cons [OF zero_less_Suc] map_Suc_upt [symmetric] by (simp add: comp_def div_mult2_eq del: upt_Suc)

lemma bits_le_of_limbs: "bits_le (length bs) (of_limbs 2 (map of_bool bs)) = bs"
proof (induction bs)
  case (Cons b bs)
  have "(of_bool b + 2 * of_limbs 2 (map of_bool bs)) div 2 = of_limbs 2 (map of_bool bs)" by simp
  with Cons show ?case by (simp add: bits_le_Suc)
qed (simp add: bits_le_def)

lemma of_limbs_bits_le: "of_limbs 2 (map of_bool (bits_le k n)) = n mod 2 ^ k"
  unfolding bits_le_def map_map comp_def of_bool_odd_eq_mod_2 of_limbs_digits by simp

lemma le_sum_bits: "map tval bits = map of_bool bs \<Longrightarrow> tval (le_sum bits) = of_nat (of_limbs 2 (map of_bool bs))"
  using reduce_of_nat [of "map of_bool bs" 2] by (simp add: le_sum_def comp_def)

lemma split_le_sound:
  fixes x :: "'a::field target"
  assumes "sat (split_le x k) adv pos bits pos'"
  obtains n where "n < 2 ^ k" "tval x = of_nat n" "map tval bits = map of_bool (bits_le k n)"
proof -
  from assms obtain p where parts: "sat (add_virtual_targets k) adv pos bits p"
    "list_all (\<lambda>b. tval b = 0 \<or> tval b = 1) bits" "reduce_with_powers (map tval bits) 2 = tval x"
    by (auto simp: split_le_def split_le_base_2_def)
  from bits_value [OF parts(2)] obtain bs where bs: "map tval bits = map of_bool bs"
    "tval x = of_nat (of_limbs 2 (map of_bool bs))" using parts(3) by auto
  have "length bs = k" using sat_virtual_length [OF parts(1)] bs(1) by (metis length_map)
  with that [of "of_limbs 2 (map of_bool bs)"] bs bits_less [of bs] bits_le_of_limbs [of bs] show thesis by auto
qed

lemma split_le_value:
  fixes x :: "'a::field target"
  assumes "order_ok TYPE('a)" and "2 ^ k \<le> goldilocks_order" and "tval x = of_nat n" and "n < goldilocks_order"
    and "sat (split_le x k) adv pos bits pos'"
  shows "n < 2 ^ k" and "map tval bits = map of_bool (bits_le k n)"
proof -
  obtain m where m: "m < 2 ^ k" "tval x = of_nat m" "map tval bits = map of_bool (bits_le k m)"
    using split_le_sound [OF assms(5)] .
  with assms have "m = n" by (intro of_nat_eqD [OF assms(1)]) auto
  with m show "n < 2 ^ k" "map tval bits = map of_bool (bits_le k n)" by simp_all
qed

lemma range_check_bits:
  "sat (range_check x k) adv pos u pos' \<Longrightarrow> \<exists>n < 2 ^ k. tval x = of_nat n"
  unfolding range_check_def by (auto elim: split_le_sound)

lemma low_bits_value:
  fixes x :: "'a::field target"
  assumes "order_ok TYPE('a)" and "2 ^ k \<le> goldilocks_order" and "tval x = of_nat n" and "n < goldilocks_order"
    and "sat (low_bits x l k) adv pos bits pos'" and "l \<le> k"
  shows "n < 2 ^ k" and "map tval bits = map of_bool (bits_le l n)"
proof -
  from assms(5) obtain bs where bs: "sat (split_le x k) adv pos bs pos'" "bits = take l bs" by (auto simp: low_bits_def)
  note split = split_le_value [OF assms(1-4) bs(1)]
  then show "n < 2 ^ k" by simp
  have "take l (bits_le k n) = bits_le l n" using assms(6) by (simp add: bits_le_def take_map)
  with split(2) bs(2) show "map tval bits = map of_bool (bits_le l n)" by (metis take_map)
qed

section \<open>Bytes\<close>

definition byte_is :: "'a::field target \<Rightarrow> nat \<Rightarrow> bool" where
  "byte_is t n \<longleftrightarrow> tval t = of_nat n \<and> n < 256"

definition nibble_is :: "'a::field target \<Rightarrow> nat \<Rightarrow> bool" where
  "nibble_is t n \<longleftrightarrow> tval t = of_nat n \<and> n < 16"

definition bytes_are :: "'a::field target list \<Rightarrow> nat list \<Rightarrow> bool" where
  "bytes_are ts ns = list_all2 byte_is ts ns"

lemma bytes_are_length: "bytes_are ts ns \<Longrightarrow> length ts = length ns"
  by (simp add: bytes_are_def list_all2_lengthD)

lemma bytes_are_nth: "bytes_are ts ns \<Longrightarrow> i < length ns \<Longrightarrow> byte_is (ts ! i) (ns ! i)"
  by (simp add: bytes_are_def list_all2_conv_all_nth)

lemma bytes_areI: "length ts = length ns \<Longrightarrow> (\<And>i. i < length ns \<Longrightarrow> byte_is (ts ! i) (ns ! i)) \<Longrightarrow> bytes_are ts ns"
  by (simp add: bytes_are_def list_all2_conv_all_nth)

lemma byte_checked: "sat (byte_from_target_safe t) adv pos r pos' \<Longrightarrow> r = t \<and> (\<exists>n. byte_is t n)"
  unfolding byte_from_target_safe_def byte_is_def by (auto dest!: range_check_bits)

lemma nibble_checked: "sat (half_byte_from_target_safe t) adv pos r pos' \<Longrightarrow> r = t \<and> (\<exists>n. nibble_is t n)"
  unfolding half_byte_from_target_safe_def nibble_is_def by (auto dest!: range_check_bits)

lemma byte_bits_any:
  assumes "sat (as_bit_targets b) adv pos bits pos'"
  obtains n where "byte_is b n" "map tval bits = map of_bool (bits_le 8 n)"
proof -
  from assms obtain bs where bs: "sat (split_le b 8) adv pos bs pos'" "bits = take 8 bs" by (auto simp: as_bit_targets_def low_bits_def)
  obtain n where n: "n < 2 ^ 8" "tval b = of_nat n" "map tval bs = map of_bool (bits_le 8 n)"
    using split_le_sound [OF bs(1)] .
  moreover have "length bs = 8" using n(3) by (metis length_map length_bits_le)
  ultimately show thesis using that [of n] bs(2) by (simp add: byte_is_def)
qed

lemma byte_unique: "order_ok TYPE('a::field) \<Longrightarrow> byte_is (t :: 'a target) m \<Longrightarrow> byte_is t n \<Longrightarrow> m = n"
  unfolding byte_is_def by (rule of_nat_eqD) (auto simp: goldilocks_order_def)

lemma byte_bits:
  fixes b :: "'a::field target"
  assumes "order_ok TYPE('a)" and "byte_is b n" and "sat (as_bit_targets b) adv pos bits pos'"
  shows "map tval bits = map of_bool (bits_le 8 n)"
  using byte_bits_any [OF assms(3)] byte_unique [OF assms(1,2)] by metis

lemma byte_halves:
  fixes b :: "'a::field target"
  assumes "order_ok TYPE('a)" and "byte_is b n" and "sat (as_half_byte_targets b) adv pos (l, h) pos'"
  shows "nibble_is l (n mod 16)" and "nibble_is h (n div 16)"
proof -
  from assms(3) obtain bits where bits: "sat (as_bit_targets b) adv pos bits pos'" and lh: "l = le_sum (take 4 bits)" "h = le_sum (drop 4 bits)"
    by (auto simp: as_half_byte_targets_def Let_def)
  note vals = byte_bits [OF assms(1,2) bits]
  have n: "n < 256" using assms(2) by (simp add: byte_is_def)
  have t: "take 4 (bits_le 8 n) = bits_le 4 n" by (simp add: bits_le_def take_map)
  have d: "drop 4 (bits_le 8 n) = bits_le 4 (n div 16)"
    by (rule nth_equalityI) (simp_all add: bits_le_def power_add div_mult2_eq)
  have "map tval (take 4 bits) = map of_bool (bits_le 4 n)" using vals t by (metis take_map)
  moreover have "map tval (drop 4 bits) = map of_bool (bits_le 4 (n div 16))" using vals d by (metis drop_map)
  ultimately have "tval l = of_nat (n mod 2 ^ 4)" "tval h = of_nat (n div 16 mod 2 ^ 4)"
    unfolding lh by (simp_all only: le_sum_bits of_limbs_bits_le)
  with n show "nibble_is l (n mod 16)" "nibble_is h (n div 16)" by (simp_all add: nibble_is_def)
qed

section \<open>Reads at a variable index\<close>

lemma random_access_index:
  assumes "sat (random_access x v) adv pos r pos'"
  obtains i where "i < length v" "tval x = of_nat i" "tval r = tval (v ! i)"
proof (cases "find (\<lambda>i. tval x = of_nat i) [0..<length v]")
  case (Some i)
  then have "i < length v" "tval x = of_nat i" by (auto simp: find_Some_iff)
  with that [of i] Some assms show thesis by (auto simp: random_access_def)
qed (use assms in \<open>simp add: random_access_def\<close>)

lemma next_power_ge: "n \<le> next_power_of_two n"
proof (induction n rule: next_power_of_two.induct)
  case (1 n)
  then show ?case by (subst next_power_of_two.simps) auto
qed

lemma next_power_le: "2 \<le> n \<Longrightarrow> next_power_of_two n \<le> 2 * (n - 1)"
proof (induction n rule: next_power_of_two.induct)
  case (1 n)
  have unfold: "next_power_of_two n = 2 * next_power_of_two ((n + 1) div 2)" using 1(2) by (subst next_power_of_two.simps) simp
  show ?case
  proof (cases "n = 2")
    case True
    then show ?thesis by (simp add: unfold next_power_of_two.simps)
  next
    case False
    with 1(2) have "2 \<le> (n + 1) div 2" by simp
    with 1 have "next_power_of_two ((n + 1) div 2) \<le> 2 * ((n + 1) div 2 - 1)" by simp
    then show ?thesis unfolding unfold using 1(2) by linarith
  qed
qed

lemma next_power_bound: "0 < n \<Longrightarrow> next_power_of_two n < 2 * n"
  using next_power_le [of n] by (cases "n = 1") (auto simp: next_power_of_two.simps)

lemma of_nat_diff_small:
  fixes x :: "'a::field"
  assumes "order_ok TYPE('a)" and "of_nat m - of_nat i = (of_nat d :: 'a)" and "m < 2 ^ 32" and "i < 2 ^ 32" and "d < 2 ^ 32"
  shows "i + d = m"
proof -
  have "of_nat m = (of_nat (i + d) :: 'a)" using assms(2) by (simp add: algebra_simps)
  then have "m = i + d" by (rule of_nat_eqD [OF assms(1)]) (use assms(3-5) in \<open>simp_all add: goldilocks_order_def\<close>)
  then show ?thesis ..
qed

lemma padded_access_sound:
  fixes arr :: "'a::field target list"
  assumes "order_ok TYPE('a)" and "length arr < 2 ^ 31" and "arr \<noteq> []"
    and "sat (range_check (sub_target (constant_target (length arr - 1)) idx) 32) adv p u p'"
    and "sat (random_access idx (take (next_power_of_two (length arr)) (arr @ replicate (next_power_of_two (length arr)) (constant_target 0)))) adv q r q'"
  obtains i where "i < length arr" "tval idx = of_nat i" "tval r = tval (arr ! i)"
proof -
  let ?n = "length arr" let ?p = "next_power_of_two ?n"
  let ?sel = "take ?p (arr @ replicate ?p (constant_target 0))"
  obtain i where i: "i < length ?sel" "tval idx = of_nat i" "tval r = tval (?sel ! i)" by (rule random_access_index [OF assms(5)])
  obtain d where d: "d < 2 ^ 32" "of_nat (?n - 1) - tval idx = of_nat d" using range_check_bits [OF assms(4)] by auto
  have "i < 2 ^ 32" using i(1) next_power_bound [of ?n] assms(2,3) by auto
  with of_nat_diff_small [OF assms(1) d(2) [unfolded i(2)]] d(1) assms(2) have "i + d = ?n - 1" by simp
  moreover have "0 < ?n" using assms(3) by simp
  ultimately have "i < ?n" by linarith
  moreover have "?sel ! i = arr ! i" using next_power_ge [of ?n] \<open>i < ?n\<close> by (simp add: nth_append)
  ultimately show thesis using that i by simp
qed

lemma random_read_sound:
  fixes arr :: "'a::field target list"
  assumes "order_ok TYPE('a)" and "length arr < 2 ^ 31" and "arr \<noteq> []" and "sat (random_read arr idx) adv pos r pos'"
  obtains i where "i < length arr" "tval idx = of_nat i" "tval r = tval (arr ! i)"
proof -
  from assms(4) obtain p where "sat (range_check (sub_target (constant_target (length arr - 1)) idx) 32) adv pos () p"
    "sat (random_access idx (take (next_power_of_two (length arr)) (arr @ replicate (next_power_of_two (length arr)) (constant_target 0)))) adv p r pos'"
    by (auto simp: random_read_def Let_def)
  then show thesis by (rule padded_access_sound [OF assms(1-3)]) (rule that)
qed

lemma random_read_value:
  fixes arr :: "'a::field target list"
  assumes "order_ok TYPE('a)" and "length arr < 2 ^ 31" and "arr \<noteq> []" and "tval idx = of_nat m" and "m < 2 ^ 32"
    and "sat (random_read arr idx) adv pos r pos'"
  shows "m < length arr" and "tval r = tval (arr ! m)"
proof -
  obtain i where i: "i < length arr" "tval idx = of_nat i" "tval r = tval (arr ! i)" by (rule random_read_sound [OF assms(1-3,6)])
  have "i = m" by (rule of_nat_eqD [OF assms(1)]) (use i assms in \<open>simp_all add: goldilocks_order_def\<close>)
  with i show "m < length arr" "tval r = tval (arr ! m)" by simp_all
qed

lemma random_read_array_value:
  fixes arr :: "'a::field target list"
  assumes "order_ok TYPE('a)" and "length arr < 2 ^ 31" and "arr \<noteq> []" and "tval idx = of_nat m" and "m < 2 ^ 31" and "0 < r" and "r < 2 ^ 31"
    and "sat (random_read_array arr idx r) adv pos rs pos'"
  shows "m + r \<le> length arr" and "map tval rs = map tval (take r (drop m arr))"
proof -
  have read: "m + i < length arr \<and> tval (rs ! i) = tval (arr ! (m + i))" if "i < r" for i
  proof -
    have "i < length [0..<r]" "[0..<r] ! i = i" using that by simp_all
    with sat_map_nth [OF assms(8) [unfolded random_read_array_def]] obtain p p'
      where "sat (random_read arr (add_target idx (constant_target i))) adv p (rs ! i) p'" by metis
    from random_read_value [OF assms(1-3) _ _ this, of "m + i"] assms(4,5,7) that show ?thesis by simp
  qed
  have "r - 1 < r" using assms(6) by simp
  then have "m + (r - 1) < length arr" using read by blast
  then show le: "m + r \<le> length arr" using assms(6) by linarith
  have "length rs = r" using sat_map_length [OF assms(8) [unfolded random_read_array_def]] by simp
  with read le show "map tval rs = map tval (take r (drop m arr))" by (intro nth_equalityI) simp_all
qed

lemma bytes_are_values: "bytes_are ts ns \<Longrightarrow> map tval us = map tval ts \<Longrightarrow> bytes_are us ns"
  unfolding bytes_are_def list_all2_conv_all_nth byte_is_def by (metis length_map nth_map)

lemma bytes_are_slice: "bytes_are ts ns \<Longrightarrow> bytes_are (take r (drop m ts)) (take r (drop m ns))"
  unfolding bytes_are_def by (simp add: list_all2_takeI list_all2_dropI)

section \<open>Equality of digests and connections\<close>

lemma check_equal_value:
  assumes "sat (check_equal self other) adv pos r pos'"
  shows "length self = length other" and "tval r = of_bool (map tval self = map tval other)"
proof -
  from assms obtain p where len: "length self = length other" and fold: "sat (circuit_fold (\<lambda>equal (self_bit, other_bit).
       circuit_return (and_target equal (is_equal self_bit other_bit))) (constant_bool True) (zip self other)) adv p r pos'"
    by (auto simp: check_equal_def Let_def)
  have "tval r = of_bool (b \<and> map tval self = map tval other)"
    if "sat (circuit_fold (\<lambda>equal (self_bit, other_bit). circuit_return (and_target equal (is_equal self_bit other_bit))) e (zip self other)) adv p r pos'"
      "tval e = of_bool b" for e p b
    using len that
  proof (induction self other arbitrary: e p b rule: list_induct2)
    case (Cons x xs y ys)
    have "tval (and_target e (is_equal x y)) = of_bool (b \<and> tval x = tval y)" by (rule tval_and) (use Cons.prems in simp_all)
    from Cons.IH [OF _ this] Cons.prems(1) show ?case by auto
  qed simp
  from this [OF fold, of True] show "tval r = of_bool (map tval self = map tval other)" by simp
  show "length self = length other" by (rule len)
qed

lemma sat_connect_set:
  "length a = length b \<Longrightarrow> sat (connect_set a b) adv pos u pos' \<longleftrightarrow> map tval a = map tval b \<and> pos' = pos"
  unfolding connect_set_def by (induction a b arbitrary: pos rule: list_induct2) auto

end
