(* ===== verification/Storage_Address.thy ===== *)
theory Storage_Address
  imports Prover_Targets
begin

text \<open>
  Addresses in the storage trie as targets (\<open>prover/src/storage_inclusion/storage_trie_proof/storage_address.rs\<close>):
  64 half bytes and a length, with zeros after the length. Joining two addresses in a circuit is
  joining the lists of their nibbles, and the circuit cannot be satisfied when the result is too long.
\<close>

section \<open>The operations\<close>

definition MAX_STORAGE_ADDRESS_LENGTH_IN_NIBBLES :: nat where
  "MAX_STORAGE_ADDRESS_LENGTH_IN_NIBBLES = 64"

definition MAX_STORAGE_ADDRESS_LENGTH_IN_BYTES :: nat where
  "MAX_STORAGE_ADDRESS_LENGTH_IN_BYTES = MAX_STORAGE_ADDRESS_LENGTH_IN_NIBBLES div 2"

record 'a storage_address_target =
  sa_padded_address :: "'a target list"
  sa_length :: "'a target"

definition sa_empty :: "'a::field storage_address_target" where
  "sa_empty = \<lparr>sa_padded_address = replicate MAX_STORAGE_ADDRESS_LENGTH_IN_NIBBLES (constant_target 0), sa_length = constant_target 0\<rparr>"

definition sa_constant :: "nat list \<Rightarrow> ('a::field, 'a storage_address_target) circuit" where
  "sa_constant nibbles =
     circuit_bind (require (length nibbles \<le> MAX_STORAGE_ADDRESS_LENGTH_IN_NIBBLES)) (\<lambda>_.
     let padded_address = nibbles @ replicate (MAX_STORAGE_ADDRESS_LENGTH_IN_NIBBLES - length nibbles) 0
     in circuit_bind (circuit_map half_byte_constant padded_address) (\<lambda>address.
        circuit_return \<lparr>sa_padded_address = address, sa_length = constant_target (length nibbles)\<rparr>))"

definition sa_add_virtual_unsafe :: "('a, 'a storage_address_target) circuit" where
  "sa_add_virtual_unsafe =
     circuit_bind (add_virtual_targets MAX_STORAGE_ADDRESS_LENGTH_IN_NIBBLES) (\<lambda>padded_address.
     circuit_bind add_virtual_target (\<lambda>len.
       circuit_return \<lparr>sa_padded_address = padded_address, sa_length = len\<rparr>))"

text \<open>The values that \<open>set_witness\<close> writes; too many nibbles or one above 15 panic.\<close>

definition sa_set_witness :: "nat list \<Rightarrow> (nat list \<times> nat) exec" where
  "sa_set_witness nibbles =
     (if MAX_STORAGE_ADDRESS_LENGTH_IN_NIBBLES < length nibbles then Panic ''assertion failed''
      else if list_ex (\<lambda>v. \<not> v < 2 ^ 4) nibbles then Panic ''assertion failed''
      else Ret (nibbles @ replicate (MAX_STORAGE_ADDRESS_LENGTH_IN_NIBBLES - length nibbles) 0, length nibbles))"

definition from_half_byte_targets_safe :: "'a::field target list \<Rightarrow> 'a target \<Rightarrow> ('a, 'a storage_address_target) circuit" where
  "from_half_byte_targets_safe targets len =
     circuit_bind (half_byte_constant 0) (\<lambda>zero.
     circuit_bind (circuit_map (\<lambda>(idx, unchecked_target).
         circuit_bind (list_le_circuit [constant_target (idx + 1)] [len] 32) (\<lambda>valid_half_byte.
           circuit_return (select_target valid_half_byte unchecked_target zero)))
         (enumerate 0 targets)) (\<lambda>targets.
       circuit_return \<lparr>sa_padded_address = targets, sa_length = len\<rparr>))"

definition from_single_nibble_target :: "'a::field target \<Rightarrow> ('a, 'a storage_address_target) circuit" where
  "from_single_nibble_target nibble =
     circuit_bind (half_byte_constant 0) (\<lambda>zero.
     circuit_return \<lparr>sa_padded_address = (replicate MAX_STORAGE_ADDRESS_LENGTH_IN_NIBBLES zero)[0 := nibble], sa_length = constant_target 1\<rparr>)"

definition sa_append :: "'a::field storage_address_target \<Rightarrow> 'a storage_address_target \<Rightarrow> ('a, 'a storage_address_target) circuit" where
  "sa_append self appended =
     (let final_length = add_target (sa_length self) (sa_length appended);
          max_len_sub_final = sub_target (constant_target MAX_STORAGE_ADDRESS_LENGTH_IN_NIBBLES) final_length
      in circuit_bind (range_check max_len_sub_final 32) (\<lambda>_.
         circuit_bind (circuit_map (\<lambda>i.
             let self_read_idx = constant_target i;
                 appended_read_idx = sub_target self_read_idx (sa_length self)
             in circuit_bind (list_le_circuit [sa_length self] [self_read_idx] 32) (\<lambda>appended_read_idx_valid.
                let appended_read_idx = select_target appended_read_idx_valid appended_read_idx (constant_target 0);
                    self_nibble = sa_padded_address self ! i
                in circuit_bind (random_read (sa_padded_address appended) appended_read_idx) (\<lambda>appended_nibble.
                   circuit_bind (list_le_circuit [sa_length self] [self_read_idx] 32) (\<lambda>select_nibble_from_appended.
                     circuit_return (select_target select_nibble_from_appended appended_nibble self_nibble)))))
             [0..<MAX_STORAGE_ADDRESS_LENGTH_IN_NIBBLES]) (\<lambda>padded_address.
           circuit_return \<lparr>sa_padded_address = padded_address, sa_length = final_length\<rparr>)))"

definition sa_targets :: "'a storage_address_target \<Rightarrow> 'a target list" where
  "sa_targets a = sa_padded_address a @ [sa_length a]"

definition sa_connect :: "'a storage_address_target \<Rightarrow> 'a storage_address_target \<Rightarrow> ('a, unit) circuit" where
  "sa_connect a b = connect_set (sa_targets a) (sa_targets b)"

section \<open>Comparisons of 32 bit numbers\<close>

text \<open>A satisfied comparison has 32 bit inputs.\<close>

lemma compare_call_inputs:
  fixes a b :: "'a::field target"
  assumes "order_ok TYPE('a)" and "sat (compare_call u32_gate a b) adv pos r pos'"
  obtains m n where "u32_is a m" "u32_is b n" "tval r = of_bool (m \<le> n)"
proof -
  from assms(2) obtain w where w: "\<forall>c \<in> set (comparison_eval u32_gate w). c = 0"
    "w wire_first_input = tval a" "w wire_second_input = tval b" "r = Wire (w wire_result_bool)"
    by (auto simp: compare_call_def)
  from comparison_sound [OF assms(1) u32_gate_facts(3) w(1)] obtain m n where
    "m < 2 ^ 32" "n < 2 ^ 32" "tval a = of_nat m" "tval b = of_nat n" "w wire_result_bool = of_bool (m \<le> n)"
    unfolding w(2,3) u32_gate_facts(1,2) by auto
  with w(4) show thesis using that [of m n] by (simp add: u32_is_def)
qed

lemma le_circuit_sound:
  fixes a b :: "'a::field target"
  assumes "order_ok TYPE('a)" and "sat (list_le_circuit [a] [b] 32) adv pos r pos'"
  obtains m n where "u32_is a m" "u32_is b n" "tval r = of_bool (m \<le> n)"
proof -
  have gate: "\<lparr>cg_num_bits = 32, cg_num_chunks = ceil_div_usize 32 2\<rparr> = u32_gate" by (simp add: u32_gate_def ceil_div_usize_def)
  from assms(2) obtain r1 r2 p1 p2 p3 p4 where parts: "sat (compare_call u32_gate a b) adv p1 r1 p2"
    "sat (compare_call u32_gate b a) adv p3 r2 p4" "r = Wire (tval r1 * tval r2 * 1 + (1 - tval r2))"
    unfolding list_le_circuit_def Let_def gate by auto
  obtain m n where mn: "u32_is a m" "u32_is b n" "tval r1 = of_bool (m \<le> n)" using compare_call_inputs [OF assms(1) parts(1)] .
  then have "tval r2 = of_bool (n \<le> m)" using compare_call_sound [OF assms(1) _ _ parts(2)] by blast
  with mn parts(3) have "tval r = of_bool (m \<le> n)" by auto
  with mn(1,2) show thesis by (rule that)
qed

lemma le_circuit_value:
  fixes a b :: "'a::field target"
  assumes "order_ok TYPE('a)" and "tval a = of_nat m" "m < 2 ^ 32" and "tval b = of_nat n" "n < 2 ^ 32"
    and "sat (list_le_circuit [a] [b] 32) adv pos r pos'"
  shows "tval r = of_bool (m \<le> n)"
proof -
  obtain m' n' where mn: "u32_is a m'" "u32_is b n'" "tval r = of_bool (m' \<le> n')" by (rule le_circuit_sound [OF assms(1,6)])
  moreover have "u32_is a m" "u32_is b n" using assms(2-5) by (simp_all add: u32_is_def)
  ultimately show ?thesis using u32_is_unique [OF assms(1)] by metis
qed

section \<open>Addresses are lists of nibbles\<close>

definition pad_nibbles :: "nat list \<Rightarrow> nat list" where
  "pad_nibbles ns = ns @ replicate (64 - length ns) 0"

definition address_is :: "'a::field storage_address_target \<Rightarrow> nat list \<Rightarrow> bool" where
  "address_is a ns \<longleftrightarrow> length ns \<le> 64 \<and> (\<forall>n \<in> set ns. n < 16)
     \<and> map tval (sa_padded_address a) = map of_nat (pad_nibbles ns) \<and> tval (sa_length a) = of_nat (length ns)"

lemma pad_nibbles_nth: "i < 64 \<Longrightarrow> length ns \<le> 64 \<Longrightarrow> pad_nibbles ns ! i = (if i < length ns then ns ! i else 0)"
  by (simp add: pad_nibbles_def nth_append)

lemma length_pad_nibbles [simp]: "length ns \<le> 64 \<Longrightarrow> length (pad_nibbles ns) = 64"
  by (simp add: pad_nibbles_def)

lemma address_is_length: "address_is a ns \<Longrightarrow> length (sa_padded_address a) = 64"
  unfolding address_is_def by (metis length_map length_pad_nibbles)

lemma address_is_nth: "address_is a ns \<Longrightarrow> i < 64 \<Longrightarrow> tval (sa_padded_address a ! i) = of_nat (pad_nibbles ns ! i)"
  using address_is_length [of a ns] unfolding address_is_def by (metis length_pad_nibbles nth_map)

lemma address_isI:
  assumes "length ns \<le> 64" and "\<forall>n \<in> set ns. n < 16" and "length (sa_padded_address a) = 64"
    and "\<And>i. i < 64 \<Longrightarrow> tval (sa_padded_address a ! i) = of_nat (pad_nibbles ns ! i)" and "tval (sa_length a) = of_nat (length ns)"
  shows "address_is a ns"
  unfolding address_is_def using assms by (auto intro!: nth_equalityI)

lemma address_unique:
  fixes a :: "'a::field storage_address_target"
  assumes "order_ok TYPE('a)" and "address_is a ms" and "address_is a ns"
  shows "ms = ns"
proof -
  have len: "length ms = length ns"
    by (rule of_nat_eqD [OF assms(1)]) (use assms(2,3) in \<open>auto simp: address_is_def goldilocks_order_def\<close>)
  show ?thesis
  proof (rule nth_equalityI [OF len])
    fix i assume i: "i < length ms"
    have bounds: "length ms \<le> 64" "\<forall>n \<in> set ms. n < 16" "\<forall>n \<in> set ns. n < 16" using assms(2,3) by (auto simp: address_is_def)
    have "(of_nat (pad_nibbles ms ! i) :: 'a) = of_nat (pad_nibbles ns ! i)"
      using address_is_nth [OF assms(2), of i] address_is_nth [OF assms(3), of i] i bounds(1) by simp
    then have "(of_nat (ms ! i) :: 'a) = of_nat (ns ! i)" using i len bounds(1) by (simp add: pad_nibbles_nth)
    moreover have "ms ! i < goldilocks_order" "ns ! i < goldilocks_order"
      using bounds i len nth_mem [of i ms] nth_mem [of i ns] by (fastforce simp: goldilocks_order_def)+
    ultimately show "ms ! i = ns ! i" by (rule of_nat_eqD [OF assms(1)])
  qed
qed

lemma address_values:
  "address_is a ns \<Longrightarrow> map tval (sa_padded_address b) = map tval (sa_padded_address a) \<Longrightarrow> tval (sa_length b) = tval (sa_length a)
    \<Longrightarrow> address_is b ns"
  by (simp add: address_is_def)

lemma sat_sa_connect:
  "length (sa_padded_address a) = length (sa_padded_address b) \<Longrightarrow> sat (sa_connect a b) adv pos u pos'
    \<longleftrightarrow> map tval (sa_padded_address a) = map tval (sa_padded_address b) \<and> tval (sa_length a) = tval (sa_length b) \<and> pos' = pos"
  by (auto simp: sa_connect_def sat_connect_set sa_targets_def)

lemma empty_address: "address_is sa_empty []"
  by (simp add: address_is_def sa_empty_def pad_nibbles_def MAX_STORAGE_ADDRESS_LENGTH_IN_NIBBLES_def)

lemma sat_half_byte_constant [simp]:
  "sat (half_byte_constant v) adv pos t pos' \<longleftrightarrow> v < 16 \<and> t = constant_target v \<and> pos' = pos"
  by (auto simp: half_byte_constant_def)

lemma constant_address: "sat (sa_constant nibbles) adv pos a pos' \<Longrightarrow> address_is a nibbles"
proof -
  assume sat: "sat (sa_constant nibbles) adv pos a pos'"
  let ?p = "nibbles @ replicate (64 - length nibbles) 0"
  from sat obtain ts p where parts: "length nibbles \<le> 64" "sat (circuit_map half_byte_constant ?p) adv p ts pos'"
    "a = \<lparr>sa_padded_address = ts, sa_length = constant_target (length nibbles)\<rparr>"
    by (auto simp: sa_constant_def Let_def MAX_STORAGE_ADDRESS_LENGTH_IN_NIBBLES_def)
  have all: "list_all2 (\<lambda>v t. v < 16 \<and> t = constant_target v) ?p ts" using sat_map [OF parts(2)] by simp
  then have "list_all (\<lambda>v. v < 16) ?p" by (auto simp: list_all2_conv_all_nth list_all_length)
  moreover have "map tval ts = map of_nat ?p"
    using all by (auto simp: list_all2_conv_all_nth simp del: map_append intro!: nth_equalityI)
  ultimately show ?thesis using parts(1,3) by (simp add: address_is_def pad_nibbles_def list_all_iff)
qed

text \<open>The nibbles beyond the length are cleared.\<close>

lemma half_byte_targets_address:
  fixes ts :: "'a::field target list"
  assumes "order_ok TYPE('a)" and "length ts = 64" and "length ns = 64" and "\<And>i. i < 64 \<Longrightarrow> nibble_is (ts ! i) (ns ! i)"
    and "tval len = of_nat l" and "l \<le> 64" and "sat (from_half_byte_targets_safe ts len) adv pos a pos'"
  shows "address_is a (take l ns)"
proof -
  let ?f = "\<lambda>(idx, unchecked_target). circuit_bind (list_le_circuit [constant_target (idx + 1)] [len] 32) (\<lambda>valid_half_byte.
           circuit_return (select_target valid_half_byte unchecked_target (constant_target 0)))"
  from assms(7) obtain us where parts: "sat (circuit_map ?f (enumerate 0 ts)) adv pos us pos'"
    "a = \<lparr>sa_padded_address = us, sa_length = len\<rparr>" by (auto simp: from_half_byte_targets_safe_def)
  have len: "length us = 64" using sat_map_length [OF parts(1)] assms(2) by simp
  show ?thesis
  proof (rule address_isI)
    fix i :: nat assume i: "i < 64"
    then have "i < length (enumerate 0 ts)" "enumerate 0 ts ! i = (i, ts ! i)" using assms(2) by (simp_all add: nth_enumerate_eq)
    with sat_map_nth [OF parts(1)] obtain v p p' q where v: "sat (list_le_circuit [constant_target (i + 1)] [len] 32) adv p v p'"
      "us ! i = select_target v (ts ! i) (constant_target 0)" by (metis (no_types, lifting) case_prod_conv sat_bind sat_return)
    have "tval v = of_bool (i + 1 \<le> l)"
      by (rule le_circuit_value [OF assms(1) _ _ assms(5) _ v(1)]) (use i assms(6) in simp_all)
    then have "tval (us ! i) = (if i < l then tval (ts ! i) else 0)" unfolding v(2) by (subst tval_select) auto
    then show "tval (sa_padded_address a ! i) = of_nat (pad_nibbles (take l ns) ! i)"
      using assms(3,4,6) i parts(2) by (simp add: pad_nibbles_nth nibble_is_def)
  next
    show "\<forall>n \<in> set (take l ns). n < 16"
      using assms(3,4) by (auto dest!: in_set_takeD simp: in_set_conv_nth nibble_is_def)
  qed (use assms(3,5,6) parts(2) len in simp_all)
qed

lemma single_nibble_address:
  assumes "nibble_is t n" and "sat (from_single_nibble_target t) adv pos a pos'"
  shows "address_is a [n]"
  using assms unfolding from_single_nibble_target_def
  by (intro address_isI) (auto simp: nibble_is_def pad_nibbles_nth nth_list_update MAX_STORAGE_ADDRESS_LENGTH_IN_NIBBLES_def)

lemma append_address:
  fixes a b :: "'a::field storage_address_target"
  assumes order: "order_ok TYPE('a)" and a: "address_is a ms" and b: "address_is b ns" and sat: "sat (sa_append a b) adv pos c pos'"
  shows "address_is c (ms @ ns)"
proof -
  let ?f = "\<lambda>i. circuit_bind (list_le_circuit [sa_length a] [constant_target i] 32) (\<lambda>v.
      circuit_bind (random_read (sa_padded_address b) (select_target v (sub_target (constant_target i) (sa_length a)) (constant_target 0))) (\<lambda>t.
      circuit_bind (list_le_circuit [sa_length a] [constant_target i] 32) (\<lambda>s.
        circuit_return (select_target s t (sa_padded_address a ! i)))))"
  have lens: "length ms \<le> 64" "length ns \<le> 64" "tval (sa_length a) = of_nat (length ms)" "tval (sa_length b) = of_nat (length ns)"
    using a b by (simp_all add: address_is_def)
  from sat obtain us p where parts: "sat (range_check (sub_target (constant_target 64) (add_target (sa_length a) (sa_length b))) 32) adv pos () p"
    "sat (circuit_map ?f [0..<64]) adv p us pos'"
    "c = \<lparr>sa_padded_address = us, sa_length = add_target (sa_length a) (sa_length b)\<rparr>"
    by (auto simp: sa_append_def Let_def MAX_STORAGE_ADDRESS_LENGTH_IN_NIBBLES_def simp del: upt_rec_numeral)
  obtain d where d: "d < 2 ^ 32" "of_nat 64 - of_nat (length ms + length ns) = (of_nat d :: 'a)"
    using range_check_bits [OF parts(1)] lens by auto
  have total: "length ms + length ns \<le> 64" using of_nat_diff_small [OF order d(2)] d(1) lens by simp
  have us: "length us = 64" using sat_map_length [OF parts(2)] by simp
  show ?thesis
  proof (rule address_isI)
    fix i :: nat assume i: "i < 64"
    then have "i < length [0..<64]" "[0..<64] ! i = i" by simp_all
    with sat_map_nth [OF parts(2)] obtain q q' where "sat (?f i) adv q (us ! i) q'" by metis
    then obtain v t s p1 p2 p3 p4 p5 p6 where step: "sat (list_le_circuit [sa_length a] [constant_target i] 32) adv p1 v p2"
      "sat (random_read (sa_padded_address b) (select_target v (sub_target (constant_target i) (sa_length a)) (constant_target 0))) adv p3 t p4"
      "sat (list_le_circuit [sa_length a] [constant_target i] 32) adv p5 s p6" "us ! i = select_target s t (sa_padded_address a ! i)"
      by auto
    have v: "tval v = of_bool (length ms \<le> i)" and s: "tval s = of_bool (length ms \<le> i)"
      using le_circuit_value [OF order lens(3) _ _ _ step(1), of i] le_circuit_value [OF order lens(3) _ _ _ step(3), of i] lens(1) i by simp_all
    let ?j = "if length ms \<le> i then i - length ms else 0"
    have "tval (select_target v (sub_target (constant_target i) (sa_length a)) (constant_target 0)) = of_nat ?j"
      unfolding tval_select [OF v] using lens(3) by (simp add: of_nat_diff)
    from random_read_value [OF order _ _ this _ step(2)] address_is_length [OF b] i
    have t: "tval t = tval (sa_padded_address b ! ?j)" by (cases "sa_padded_address b = []") auto
    have "tval (us ! i) = (if length ms \<le> i then tval t else tval (sa_padded_address a ! i))"
      unfolding step(4) using tval_select [OF s] .
    then have "tval (us ! i) = of_nat (if length ms \<le> i then pad_nibbles ns ! (i - length ms) else pad_nibbles ms ! i)"
      unfolding t using address_is_nth [OF a i] address_is_nth [OF b, of "i - length ms"] i by simp
    then show "tval (sa_padded_address c ! i) = of_nat (pad_nibbles (ms @ ns) ! i)"
      using parts(3) i lens total by (auto simp: pad_nibbles_nth nth_append)
  qed (use a b total us parts(3) lens in \<open>auto simp: address_is_def\<close>)
qed

end
