(* ===== verification/Node_Parser.thy ===== *)
theory Node_Parser
  imports Storage_Address
begin

text \<open>
  Circuits that parse the parts of an encoded trie node (\<open>prover/src/storage_inclusion/scale_compact_integer_parser.rs\<close>
  and \<open>storage_trie_proof/node_parser\<close>): compact integers, padded node data read at a variable offset, the header, the
  nibbles of the partial address and the bitmap of a branch. Each is sound for a parser on bytes.
\<close>

section \<open>Compact integers\<close>

definition single_byte_define :: "'a::field target \<Rightarrow> ('a, 'a target) circuit" where
  "single_byte_define first_byte =
     circuit_bind (as_bit_targets first_byte) (\<lambda>bits.
     circuit_bind (assert_zero (bits ! 0)) (\<lambda>_.
     circuit_bind (assert_zero (bits ! 1)) (\<lambda>_.
       circuit_return (le_sum (drop 2 bits)))))"

definition try_parse_single_byte :: "'a::field target \<Rightarrow> 'a target list" where
  "try_parse_single_byte refined_byte = [refined_byte, constant_target 1]"

definition try_parse_two_byte :: "'a::field target list \<Rightarrow> 'a target list" where
  "try_parse_two_byte refined_bytes =
     (let decoded = mul_target (constant_target (2 ^ 6)) (refined_bytes ! 1);
          decoded = add_target decoded (refined_bytes ! 0)
      in [decoded, constant_target 2])"

definition try_parse_four_byte :: "'a::field target list \<Rightarrow> 'a target list" where
  "try_parse_four_byte refined_bytes =
     (let decoded = refined_bytes ! 0;
          decoded = add_target decoded (mul_target (constant_target (2 ^ 6)) (refined_bytes ! 1));
          decoded = add_target decoded (mul_target (constant_target (2 ^ 14)) (refined_bytes ! 2));
          decoded = add_target decoded (mul_target (constant_target (2 ^ 22)) (refined_bytes ! 3))
      in [decoded, constant_target 4])"

text \<open>The output targets are the decoded integer and the length of its encoding.\<close>

definition full_define :: "'a::field target list \<Rightarrow> ('a, 'a target list) circuit" where
  "full_define padded_bytes =
     circuit_bind (as_bit_targets (padded_bytes ! 0)) (\<lambda>first_byte_bits.
     let mode = mul_target (constant_target 2) (first_byte_bits ! 1);
         mode = add_target mode (first_byte_bits ! 0);
         refined_first_byte = le_sum (drop 2 first_byte_bits);
         big_int_mode = is_equal mode (constant_target 4)
     in circuit_bind (assert_zero big_int_mode) (\<lambda>_.
        let is_single_byte_mode = is_equal mode (constant_target 0);
            single_byte_out = try_parse_single_byte refined_first_byte;
            is_two_byte_mode = is_equal mode (constant_target 1);
            two_byte_out = try_parse_two_byte [refined_first_byte, padded_bytes ! 1];
            four_byte_out = try_parse_four_byte [refined_first_byte, padded_bytes ! 1, padded_bytes ! 2, padded_bytes ! 3]
        in circuit_bind (select_target_set is_single_byte_mode single_byte_out four_byte_out) (\<lambda>out.
           select_target_set is_two_byte_mode two_byte_out out)))"

section \<open>Padded node data\<close>

definition NODE_DATA_BLOCK_BYTES :: nat where
  "NODE_DATA_BLOCK_BYTES = 128"

definition MAX_BRANCH_NODE_DATA_LENGTH_IN_BLOCKS :: nat where
  "MAX_BRANCH_NODE_DATA_LENGTH_IN_BLOCKS = 5"

definition MAX_LEAF_NODE_DATA_LENGTH_IN_BLOCKS :: nat where
  "MAX_LEAF_NODE_DATA_LENGTH_IN_BLOCKS = 1"

definition block_add_virtual_unsafe :: "('a, 'a target list) circuit" where
  "block_add_virtual_unsafe = add_virtual_targets NODE_DATA_BLOCK_BYTES"

definition block_add_virtual_safe :: "('a::field, 'a target list) circuit" where
  "block_add_virtual_safe =
     circuit_map (\<lambda>_. circuit_bind add_virtual_target byte_from_target_safe) [0..<NODE_DATA_BLOCK_BYTES]"

definition branch_data_add_virtual :: "('a, 'a target list) circuit \<Rightarrow> ('a, 'a target list list) circuit" where
  "branch_data_add_virtual create_block = circuit_map (\<lambda>_. create_block) [0..<MAX_BRANCH_NODE_DATA_LENGTH_IN_BLOCKS]"

definition branch_data_random_read :: "'a::field target list list \<Rightarrow> 'a target \<Rightarrow> ('a, 'a target) circuit" where
  "branch_data_random_read blocks idx =
     (let block_size = constant_target NODE_DATA_BLOCK_BYTES;
          max_data_size = constant_target (NODE_DATA_BLOCK_BYTES * MAX_BRANCH_NODE_DATA_LENGTH_IN_BLOCKS);
          shifted_block_size = add_target block_size max_data_size
      in circuit_bind (circuit_fold (\<lambda>(current_offset, block_already_selected, final_data) block.
           let shifted_current_offset = add_target (add_target current_offset max_data_size) (constant_target 1)
           in circuit_bind (list_le_circuit [shifted_current_offset] [shifted_block_size] 32) (\<lambda>current_offset_eligible.
              let block_not_yet_selected = not_target block_already_selected;
                  read_from_current_block = and_target current_offset_eligible block_not_yet_selected;
                  block_already_selected = or_target read_from_current_block block_already_selected;
                  read_from = select_target read_from_current_block current_offset (constant_target 0)
              in circuit_bind (random_read block read_from) (\<lambda>read_data.
                 let masked_read_data = mul_target read_data read_from_current_block;
                     final_data = add_target final_data masked_read_data;
                     current_offset = sub_target current_offset block_size
                 in circuit_return (current_offset, block_already_selected, final_data))))
           (idx, constant_bool False, constant_target 0) blocks) (\<lambda>(_, _, final_data).
         circuit_return final_data))"

definition branch_data_random_read_array :: "'a::field target list list \<Rightarrow> 'a target \<Rightarrow> nat \<Rightarrow> ('a, 'a target list) circuit" where
  "branch_data_random_read_array blocks idx l =
     circuit_map (\<lambda>offset. branch_data_random_read blocks (add_target idx (constant_target offset))) [0..<l]"

definition compose_padded_node_data :: "bytes \<Rightarrow> bytes list exec" where
  "compose_padded_node_data node_data =
     (let size = NODE_DATA_BLOCK_BYTES * MAX_BRANCH_NODE_DATA_LENGTH_IN_BLOCKS
      in if length node_data \<le> size
         then exec_bind (pad_byte_vec size node_data) (\<lambda>padded. Ret (chunks_of NODE_DATA_BLOCK_BYTES padded))
         else Panic ''assertion failed'')"

section \<open>The header of a node\<close>

record header_descriptor =
  hd_masked_prefix :: nat
  hd_prefix_length :: nat

definition branch_without_value :: header_descriptor where
  "branch_without_value = \<lparr>hd_masked_prefix = 128, hd_prefix_length = 2\<rparr>"

definition hashed_value_leaf :: header_descriptor where
  "hashed_value_leaf = \<lparr>hd_masked_prefix = 32, hd_prefix_length = 3\<rparr>"

definition leaf_descriptor :: header_descriptor where
  "leaf_descriptor = \<lparr>hd_masked_prefix = 64, hd_prefix_length = 2\<rparr>"

definition prefix_matches :: "header_descriptor \<Rightarrow> bytes \<Rightarrow> bool" where
  "prefix_matches d node_data =
     (take (hd_prefix_length d) (byte_to_bits (node_data ! 0))
      = take (hd_prefix_length d) (byte_to_bits (of_nat (hd_masked_prefix d))))"

definition header_define :: "'a::field target list \<Rightarrow> header_descriptor \<Rightarrow> ('a, 'a target \<times> 'a target) circuit" where
  "header_define first_bytes descriptor =
     (let first_byte = first_bytes ! 0; second_byte = first_bytes ! 1
      in circuit_bind (as_bit_targets first_byte) (\<lambda>first_byte_bits.
         circuit_bind (circuit_fold (\<lambda>_ bit_idx.
             connect (first_byte_bits ! bit_idx) (constant_bool (hd_masked_prefix descriptor div 2 ^ bit_idx mod 2 = 1)))
             () [8 - hd_prefix_length descriptor..<8]) (\<lambda>_.
         let first_byte_value = sub_target first_byte (constant_target (hd_masked_prefix descriptor));
             second_byte_value = second_byte;
             max_first_byte_value = constant_target (255 div 2 ^ hd_prefix_length descriptor);
             max_second_byte_value = constant_target 255;
             first_val_is_max = is_equal first_byte_value max_first_byte_value;
             second_val_is_max = is_equal second_byte_value max_second_byte_value;
             first_case_appliable = not_target first_val_is_max;
             second_case_appliable = and_target first_val_is_max (not_target second_val_is_max);
             any_case_appliable = or_target first_case_appliable second_case_appliable
         in circuit_bind (assert_one any_case_appliable) (\<lambda>_.
            let first_case_value = first_byte_value;
                second_case_value = add_target second_byte_value max_first_byte_value;
                nibble_count = select_target first_case_appliable first_case_value second_case_value;
                resulting_offset = select_target first_case_appliable (constant_target 1) (constant_target 2)
            in circuit_return (nibble_count, resulting_offset)))))"

section \<open>The nibbles of a node\<close>

definition div_target :: "'a::field target \<Rightarrow> 'a target \<Rightarrow> ('a, 'a target) circuit" where
  "div_target x y = circuit_bind (require (tval y \<noteq> 0)) (\<lambda>_. circuit_return (Wire (tval x / tval y)))"

definition nibble_define :: "'a::field target list \<Rightarrow> 'a target \<Rightarrow> 'a target \<Rightarrow> 'a storage_address_target
    \<Rightarrow> ('a, 'a target \<times> 'a storage_address_target) circuit" where
  "nibble_define first_node_data_block read_offset nibble_count partial_address =
     circuit_bind (range_check (sub_target (constant_target MAX_STORAGE_ADDRESS_LENGTH_IN_NIBBLES) nibble_count) 32) (\<lambda>_.
     circuit_bind (random_read_array first_node_data_block read_offset MAX_STORAGE_ADDRESS_LENGTH_IN_BYTES) (\<lambda>potential_address_bytes.
     circuit_bind (half_byte_constant 0) (\<lambda>zero.
     circuit_bind (circuit_map (\<lambda>byte. circuit_bind (as_half_byte_targets byte) (\<lambda>(l, m). circuit_return [m, l])) potential_address_bytes) (\<lambda>halves.
     let potential_address_nibbles = concat halves @ [zero];
         first_nibble = hd potential_address_nibbles;
         remaining_nibbles = tl potential_address_nibbles
     in circuit_bind (require (length remaining_nibbles = MAX_STORAGE_ADDRESS_LENGTH_IN_NIBBLES)) (\<lambda>_.
        circuit_bind (low_bits nibble_count 1 32) (\<lambda>count_bits.
        let nibble_count_odd = count_bits ! 0;
            first_nibble_is_nonzero = not_target (is_equal first_nibble (constant_target 0));
            invalid_padding = and_target nibble_count_odd first_nibble_is_nonzero
        in circuit_bind (assert_zero invalid_padding) (\<lambda>_.
           let nibble_count_is_zero = is_equal nibble_count (constant_target 0);
               dont_take_first_nibble = or_target nibble_count_odd nibble_count_is_zero;
               take_first_nibble = not_target dont_take_first_nibble
           in circuit_bind (half_byte_constant 0) (\<lambda>zero.
              let first_nibble_padded = take MAX_STORAGE_ADDRESS_LENGTH_IN_NIBBLES
                    (first_nibble # replicate MAX_STORAGE_ADDRESS_LENGTH_IN_NIBBLES zero)
              in circuit_bind (from_half_byte_targets_safe first_nibble_padded take_first_nibble) (\<lambda>first_nibble_address_part.
                 let take_from_remaining = sub_target nibble_count take_first_nibble
                 in circuit_bind (from_half_byte_targets_safe remaining_nibbles take_from_remaining) (\<lambda>remaining_nibbles_address_part.
                    circuit_bind (sa_append partial_address first_nibble_address_part) (\<lambda>partial_address.
                    circuit_bind (sa_append partial_address remaining_nibbles_address_part) (\<lambda>partial_address.
                    circuit_bind (div_target (sub_target nibble_count nibble_count_odd) (constant_target 2)) (\<lambda>read_bytes.
                    let read_bytes = add_target read_bytes nibble_count_odd;
                        resulting_offset = add_target read_offset read_bytes
                    in circuit_return (resulting_offset, partial_address))))))))))))))"

section \<open>The bitmap of a branch\<close>

definition bitmap_define :: "'a::field target list \<Rightarrow> 'a target \<Rightarrow> 'a target \<Rightarrow> ('a, 'a target \<times> 'a target \<times> 'a target) circuit" where
  "bitmap_define first_node_data_block read_offset claimed_child_node_nibble =
     circuit_bind (random_read first_node_data_block read_offset) (\<lambda>first_byte.
     circuit_bind (random_read first_node_data_block (add_target read_offset (constant_target 1))) (\<lambda>second_byte.
     circuit_bind (as_bit_targets first_byte) (\<lambda>first_bits.
     circuit_bind (as_bit_targets second_byte) (\<lambda>second_bits.
     circuit_bind (circuit_fold (\<lambda>(child_amount_before_claimed_child, before_claimed_child, overall_child_amount) (bit_no, bit).
         let overall_child_amount = add_target overall_child_amount bit;
             child_is_claimed = is_equal (constant_target bit_no) claimed_child_node_nibble;
             inv_bit = not_target bit;
             incorrect_state = and_target child_is_claimed inv_bit
         in circuit_bind (assert_zero incorrect_state) (\<lambda>_.
            let before_claimed_child = xor_target before_claimed_child child_is_claimed;
                masked_bit_value = and_target before_claimed_child bit;
                child_amount_before_claimed_child = add_target child_amount_before_claimed_child masked_bit_value
            in circuit_return (child_amount_before_claimed_child, before_claimed_child, overall_child_amount)))
         (constant_target 0, constant_bool True, constant_target 0) (enumerate 0 (first_bits @ second_bits)))
       (\<lambda>(child_amount_before_claimed_child, _, overall_child_amount).
         circuit_return (add_target read_offset (constant_target 2), overall_child_amount, child_amount_before_claimed_child))))))"

section \<open>Parsers on bytes\<close>

text \<open>What the circuits compute, on the bytes themselves.\<close>

definition parse_single_byte :: "nat \<Rightarrow> nat option" where
  "parse_single_byte b = (if b mod 4 = 0 then Some (b div 4) else None)"

definition parse_compact :: "nat list \<Rightarrow> nat \<times> nat" where
  "parse_compact bs =
     (if bs ! 0 mod 4 = 0 then (bs ! 0 div 4, 1)
      else if bs ! 0 mod 4 = 1 then (bs ! 0 div 4 + 2 ^ 6 * bs ! 1, 2)
      else (bs ! 0 div 4 + 2 ^ 6 * bs ! 1 + 2 ^ 14 * bs ! 2 + 2 ^ 22 * bs ! 3, 4))"

definition parse_header :: "header_descriptor \<Rightarrow> nat \<Rightarrow> nat \<Rightarrow> (nat \<times> nat) option" where
  "parse_header d b0 b1 =
     (let k = 2 ^ (8 - hd_prefix_length d); v = b0 mod k in
      if b0 div k \<noteq> hd_masked_prefix d div k then None
      else if v \<noteq> k - 1 then Some (v, 1)
      else if b1 \<noteq> 255 then Some (b1 + (k - 1), 2)
      else None)"

definition nibbles_of :: "nat list \<Rightarrow> nat list" where
  "nibbles_of bs = concat (map (\<lambda>b. [b div 16, b mod 16]) bs)"

definition parse_nibbles :: "nat list \<Rightarrow> nat \<Rightarrow> nat \<Rightarrow> (nat \<times> nat list) option" where
  "parse_nibbles data offset cnt =
     (let nibbles = nibbles_of (take ((cnt + 1) div 2) (drop offset data)) in
      if odd cnt \<and> hd nibbles \<noteq> 0 then None
      else Some (offset + (cnt + 1) div 2, if odd cnt then tl nibbles else nibbles))"

definition parse_bitmap :: "nat list \<Rightarrow> nat \<Rightarrow> bool list" where
  "parse_bitmap data offset = bits_le 8 (data ! offset) @ bits_le 8 (data ! (offset + 1))"

definition child_count :: "bool list \<Rightarrow> nat" where
  "child_count bs = length (filter id bs)"

section \<open>The circuits are sound\<close>

lemma circuit_fold_map: "circuit_fold f s (map g xs) = circuit_fold (\<lambda>s x. f s (g x)) s xs"
  by (induction xs arbitrary: s) simp_all

lemma circuit_fold_list:
  assumes "sat (circuit_fold f s xs) adv pos r pos'" and "I 0 s"
    and "\<And>j s p s' p'. j < length xs \<Longrightarrow> I j s \<Longrightarrow> sat (f s (xs ! j)) adv p s' p' \<Longrightarrow> I (Suc j) s'"
  shows "I (length xs) r"
proof -
  have "sat (circuit_fold (\<lambda>s j. f s (xs ! j)) s [0..<length xs]) adv pos r pos'"
    using assms(1) circuit_fold_map [of f s "\<lambda>j. xs ! j" "[0..<length xs]"] by (simp add: map_nth)
  then show ?thesis by (rule circuit_fold_invariant) (use assms(2,3) in auto)
qed

lemma bits_value_drop: "map tval bits = map of_bool (bits_le 8 n) \<Longrightarrow> n < 256 \<Longrightarrow> tval (le_sum (drop 2 bits)) = of_nat (n div 4)"
proof -
  assume bits: "map tval bits = map of_bool (bits_le 8 n)" and n: "n < 256"
  have "drop 2 (bits_le 8 n) = bits_le 6 (n div 4)"
    by (rule nth_equalityI) (simp_all add: bits_le_def power_add div_mult2_eq)
  with bits have "map tval (drop 2 bits) = map of_bool (bits_le 6 (n div 4))" by (metis drop_map)
  then have "tval (le_sum (drop 2 bits)) = of_nat (n div 4 mod 2 ^ 6)" by (simp only: le_sum_bits of_limbs_bits_le)
  with n show ?thesis by simp
qed

lemma bits_value_nth: "map tval bits = map of_bool (bits_le k n) \<Longrightarrow> i < k \<Longrightarrow> tval (bits ! i) = of_bool (odd (n div 2 ^ i))"
  by (metis (no_types, lifting) add_0 bits_le_def diff_zero length_bits_le length_map length_upt nth_map nth_upt)

lemma single_byte_sound:
  fixes b :: "'a::field target"
  assumes "order_ok TYPE('a)" and "byte_is b n" and "sat (single_byte_define b) adv pos r pos'"
  shows "parse_single_byte n = Some (n div 4)" and "tval r = of_nat (n div 4)"
proof -
  from assms(3) obtain bits where parts: "sat (as_bit_targets b) adv pos bits pos'" "tval (bits ! 0) = 0" "tval (bits ! 1) = 0"
    "r = le_sum (drop 2 bits)" by (auto simp: single_byte_define_def)
  note bits = byte_bits [OF assms(1,2) parts(1)]
  have "even n" "even (n div 2)" using bits_value_nth [OF bits, of 0] bits_value_nth [OF bits, of 1] parts(2,3) by auto
  then show "parse_single_byte n = Some (n div 4)" unfolding parse_single_byte_def by presburger
  show "tval r = of_nat (n div 4)" unfolding parts(4) using bits_value_drop [OF bits] assms(2) by (simp add: byte_is_def)
qed

text \<open>
  The parser of any compact integer never rejects: its mode is at most three, but the assertion
  compares it with four. An integer in the mode for big integers is decoded as one of four bytes.
\<close>

lemma of_nat_u32_eq: "order_ok TYPE('a::field) \<Longrightarrow> m < 2 ^ 32 \<Longrightarrow> n < 2 ^ 32 \<Longrightarrow> (of_nat m :: 'a) = of_nat n \<longleftrightarrow> m = n"
  using of_nat_eqD [of m n] by (auto simp: goldilocks_order_def)

lemma full_sound:
  fixes ts :: "'a::field target list"
  assumes "order_ok TYPE('a)" and "bytes_are ts bs" and "length bs = 4" and "sat (full_define ts) adv pos r pos'"
  shows "map tval r = [of_nat (fst (parse_compact bs)), of_nat (snd (parse_compact bs))]"
proof -
  let ?n = "bs ! 0"
  have byte: "byte_is (ts ! i) (bs ! i)" if "i < 4" for i using bytes_are_nth [OF assms(2)] that assms(3) by simp
  then have vals: "tval (ts ! 1) = of_nat (bs ! 1)" "tval (ts ! 2) = of_nat (bs ! 2)" "tval (ts ! 3) = of_nat (bs ! 3)" "?n < 256"
    by (simp_all add: byte_is_def)
  from assms(4) obtain bits p where parts: "sat (as_bit_targets (ts ! 0)) adv pos bits p"
    and r: "r = (let mode = add_target (mul_target (constant_target 2) (bits ! 1)) (bits ! 0); first = le_sum (drop 2 bits)
        in map2 (select_target (is_equal mode (constant_target 1))) (try_parse_two_byte [first, ts ! 1])
          (map2 (select_target (is_equal mode (constant_target 0))) (try_parse_single_byte first)
            (try_parse_four_byte [first, ts ! 1, ts ! 2, ts ! 3])))"
    by (auto simp: full_define_def Let_def select_target_set_def)
  note bits = byte_bits [OF assms(1) byte [of 0] parts(1), simplified]
  define mode where "mode = add_target (mul_target (constant_target 2) (bits ! 1)) (bits ! 0)"
  have "2 * of_bool (odd (?n div 2)) + of_bool (odd ?n) = ?n mod 4" by (auto simp: of_bool_def) presburger+
  then have "(of_nat (2 * of_bool (odd (?n div 2)) + of_bool (odd ?n)) :: 'a) = of_nat (?n mod 4)" by (rule arg_cong)
  then have mode: "tval mode = of_nat (?n mod 4)"
    unfolding mode_def using bits_value_nth [OF bits, of 0] bits_value_nth [OF bits, of 1] by simp
  have first: "tval (le_sum (drop 2 bits)) = of_nat (?n div 4)" by (rule bits_value_drop [OF bits vals(4)])
  let ?four = "try_parse_four_byte [le_sum (drop 2 bits), ts ! 1, ts ! 2, ts ! 3]"
  let ?two = "try_parse_two_byte [le_sum (drop 2 bits), ts ! 1]" let ?one = "try_parse_single_byte (le_sum (drop 2 bits))"
  have "r = map2 (select_target (is_equal mode (constant_target 1))) ?two (map2 (select_target (is_equal mode (constant_target 0))) ?one ?four)"
    by (simp add: r Let_def mode_def)
  moreover have "tval mode = 0 \<longleftrightarrow> ?n mod 4 = 0" "tval mode = 1 \<longleftrightarrow> ?n mod 4 = 1"
    using of_nat_u32_eq [OF assms(1), of "?n mod 4" 0] of_nat_u32_eq [OF assms(1), of "?n mod 4" 1] by (simp_all add: mode)
  ultimately show ?thesis
    by (simp add: try_parse_four_byte_def try_parse_two_byte_def try_parse_single_byte_def parse_compact_def Let_def first vals vals(1) [unfolded One_nat_def])
qed

text \<open>A read beyond the padded data is not refused: it yields zero.\<close>

lemma of_nat_add_eq: "of_nat m = (of_nat n :: 'a::field) + of_nat k \<longleftrightarrow> of_nat m = (of_nat (n + k) :: 'a)"
  by simp

lemma concat_blocks_nth:
  assumes "\<forall>b \<in> set bs. length b = n" and "j < length bs" and "i < n"
  shows "concat bs ! (j * n + i) = bs ! j ! i"
  using assms
proof (induction bs arbitrary: j)
  case (Cons b bs)
  then show ?case
  proof (cases j)
    case (Suc k)
    have "concat bs ! (k * n + i) = bs ! k ! i" using Cons Suc by simp
    then show ?thesis using Cons.prems Suc by (simp add: nth_append add.assoc)
  qed (simp add: nth_append)
qed simp

definition read_zero :: "'a::field target list list \<Rightarrow> nat \<Rightarrow> 'a" where
  "read_zero blocks m = (if m < 640 then tval (concat blocks ! m) else 0)"

definition blocks_ok :: "'a list list \<Rightarrow> bool" where
  "blocks_ok blocks \<longleftrightarrow> length blocks = 5 \<and> (\<forall>b \<in> set blocks. length b = 128)"

lemma branch_step_offset:
  fixes idx :: "'a::field target"
  assumes "order_ok TYPE('a)" and "length block = 128"
    and "sat (list_le_circuit [add_target (add_target idx (constant_target 640)) (constant_target 1)]
      [add_target (constant_target 128) (constant_target 640)] 32) adv p e p'"
    and "sat (random_read block (select_target (and_target e (not_target (constant_bool False))) idx (constant_target 0))) adv q r q'"
  obtains m where "tval idx = of_nat m" "m + 641 < 2 ^ 32"
proof -
  obtain m n where mn: "u32_is (add_target (add_target idx (constant_target 640)) (constant_target 1)) m"
    "u32_is (add_target (constant_target 128) (constant_target 640) :: 'a target) n" "tval e = of_bool (m \<le> n)"
    by (rule le_circuit_sound [OF assms(1,3)])
  have "u32_is (add_target (constant_target 128) (constant_target 640) :: 'a target) 768" by (simp add: u32_is_def)
  then have n: "n = 768" using u32_is_unique [OF assms(1) mn(2)] by simp
  have m: "tval idx + of_nat 641 = of_nat m" "m < 2 ^ 32" using mn(1) by (simp_all add: u32_is_def add.assoc)
  show thesis
  proof (cases "641 \<le> m")
    case True
    then have "tval idx = of_nat (m - 641)" using m(1) by (simp add: of_nat_diff algebra_simps)
    with True m(2) show thesis by (intro that [of "m - 641"]) simp_all
  next
    case False
    then have "tval (select_target (and_target e (not_target (constant_bool False))) idx (constant_target 0)) = tval idx"
      using mn(3) n by (simp add: and_target_def select_target_def)
    moreover obtain i where "i < length block" "tval (select_target (and_target e (not_target (constant_bool False))) idx (constant_target 0)) = of_nat i"
      by (rule random_read_sound [OF assms(1) _ _ assms(4)]) (use assms(2) in auto)
    ultimately show thesis using assms(2) by (intro that [of i]) auto
  qed
qed

lemma branch_data_read_sound:
  fixes blocks :: "'a::field target list list"
  assumes order: "order_ok TYPE('a)" and blocks: "blocks_ok blocks" and sat: "sat (branch_data_random_read blocks idx) adv pos r pos'"
  obtains m where "tval idx = of_nat m" "m + 641 < 2 ^ 32" "tval r = read_zero blocks m"
proof -
  let ?sz = "constant_target 640 :: 'a target"
  let ?step = "\<lambda>(current_offset, block_already_selected, final_data) block.
      circuit_bind (list_le_circuit [add_target (add_target current_offset ?sz) (constant_target 1)] [add_target (constant_target 128) ?sz] 32) (\<lambda>e.
      circuit_bind (random_read block (select_target (and_target e (not_target block_already_selected)) current_offset (constant_target 0))) (\<lambda>d.
      circuit_return (sub_target current_offset (constant_target 128),
        or_target (and_target e (not_target block_already_selected)) block_already_selected,
        add_target final_data (mul_target d (and_target e (not_target block_already_selected))))))"
  from sat obtain o' s' where fold: "sat (circuit_fold ?step (idx, constant_bool False, constant_target 0) blocks) adv pos (o', s', r) pos'"
    by (auto simp: branch_data_random_read_def Let_def NODE_DATA_BLOCK_BYTES_def MAX_BRANCH_NODE_DATA_LENGTH_IN_BLOCKS_def split: prod.splits)
  have lens: "length blocks = 5" "\<And>j. j < 5 \<Longrightarrow> length (blocks ! j) = 128" "\<forall>b \<in> set blocks. length b = 128" using blocks by (simp_all add: blocks_ok_def)
  then obtain b0 bs where b0: "blocks = b0 # bs" by (cases blocks) auto
  obtain m where m: "tval idx = of_nat m" "m + 641 < 2 ^ 32"
  proof -
    from fold obtain e d p1 p2 p3 p4 where "sat (list_le_circuit [add_target (add_target idx ?sz) (constant_target 1)] [add_target (constant_target 128) ?sz] 32) adv p1 e p2"
      "sat (random_read b0 (select_target (and_target e (not_target (constant_bool False))) idx (constant_target 0))) adv p3 d p4"
      unfolding b0 by auto
    with branch_step_offset [OF order _ this] lens(2) [of 0] b0 that show thesis by auto
  qed
  let ?I = "\<lambda>j (off, sel, fin). tval off = of_nat m - of_nat (128 * j) \<and> tval sel = of_bool (m < 128 * j)
    \<and> tval fin = (if m < 128 * j then tval (concat blocks ! m) else 0)"
  have "?I (length blocks) (o', s', r)"
  proof (rule circuit_fold_list [where I = ?I, OF fold])
    fix j s p s' p' assume j: "j < length blocks" and I: "?I j s" and step: "sat (?step s (blocks ! j)) adv p s' p'"
    obtain off sel fin where s: "s = (off, sel, fin)" by (cases s)
    from step obtain e d p1 p2 p3 p4 where parts:
      "sat (list_le_circuit [add_target (add_target off ?sz) (constant_target 1)] [add_target (constant_target 128) ?sz] 32) adv p1 e p2"
      "sat (random_read (blocks ! j) (select_target (and_target e (not_target sel)) off (constant_target 0))) adv p3 d p4"
      and s': "s' = (sub_target off (constant_target 128), or_target (and_target e (not_target sel)) sel,
        add_target fin (mul_target d (and_target e (not_target sel))))" unfolding s by auto
    have I': "tval off = of_nat m - of_nat (128 * j)" "tval sel = of_bool (m < 128 * j)"
      "tval fin = (if m < 128 * j then tval (concat blocks ! m) else 0)" using I by (simp_all add: s)
    have jle: "128 * j \<le> m + 641" using j lens(1) by simp
    have "tval (add_target (add_target off ?sz) (constant_target 1)) = of_nat (m + 641 - 128 * j)"
      unfolding of_nat_diff [OF jle] using I'(1) by simp
    then have e: "tval e = of_bool (m + 641 - 128 * j \<le> 768)"
      by (rule le_circuit_value [OF order _ _ _ _ parts(1)]) (use m(2) in simp_all)
    let ?here = "128 * j \<le> m \<and> m < 128 * Suc j"
    have sel: "tval (and_target e (not_target sel)) = of_bool ?here"
      using tval_and [OF e tval_not [OF I'(2)]] by (auto simp: of_bool_def)
    have "tval d = tval (concat blocks ! m)" if ?here
    proof -
      have "tval (select_target (and_target e (not_target sel)) off (constant_target 0)) = of_nat (m - 128 * j)"
        unfolding tval_select [OF sel] using that I'(1) by (simp add: of_nat_diff)
      from random_read_value [OF order _ _ this _ parts(2)] lens(2) [of j] j lens(1) m(2)
      have "tval d = tval (blocks ! j ! (m - 128 * j))" by (cases "blocks ! j = []") auto
      moreover have "concat blocks ! (j * 128 + (m - 128 * j)) = blocks ! j ! (m - 128 * j)"
        by (rule concat_blocks_nth [OF lens(3) j]) (use that in auto)
      ultimately show ?thesis using that by (simp add: mult.commute)
    qed
    then show "?I (Suc j) s'" unfolding s' using I' tval_or [OF sel I'(2)] sel by (auto simp: of_bool_def algebra_simps)
  qed (use m in simp)
  then have "tval r = read_zero blocks m" using lens(1) by (simp add: read_zero_def)
  with m show thesis by (rule that)
qed

lemma branch_data_read_value:
  fixes blocks :: "'a::field target list list"
  assumes "order_ok TYPE('a)" and "blocks_ok blocks" and "tval idx = of_nat m" and "m < 2 ^ 32"
    and "sat (branch_data_random_read blocks idx) adv pos r pos'"
  shows "tval r = read_zero blocks m"
proof -
  obtain n where n: "tval idx = of_nat n" "n + 641 < 2 ^ 32" "tval r = read_zero blocks n" by (rule branch_data_read_sound [OF assms(1,2,5)])
  then have "n = m" using of_nat_u32_eq [OF assms(1), of n m] assms(3,4) by simp
  with n show ?thesis by simp
qed

section \<open>Headers, nibbles and bitmaps\<close>

definition descriptor_ok :: "header_descriptor \<Rightarrow> bool" where
  "descriptor_ok d \<longleftrightarrow> hd_prefix_length d \<le> 8 \<and> hd_masked_prefix d < 256 \<and> 2 ^ (8 - hd_prefix_length d) dvd hd_masked_prefix d"

lemma descriptors_ok: "descriptor_ok branch_without_value" "descriptor_ok hashed_value_leaf" "descriptor_ok leaf_descriptor"
  by (simp_all add: descriptor_ok_def branch_without_value_def hashed_value_leaf_def leaf_descriptor_def)

lemma div_from_bits:
  fixes m n :: nat
  assumes "\<forall>i \<in> {k..<8}. odd (m div 2 ^ i) = odd (n div 2 ^ i)" and "m < 256" and "n < 256" and "k \<le> 8"
  shows "m div 2 ^ k = n div 2 ^ k"
proof -
  have "bits_le (8 - k) (m div 2 ^ k) = bits_le (8 - k) (n div 2 ^ k)"
    unfolding bits_le_def map_eq_conv
  proof
    fix j assume "j \<in> set [0..<8 - k]"
    then have "k + j \<in> {k..<8}" by auto
    with assms(1) have "odd (m div 2 ^ (k + j)) = odd (n div 2 ^ (k + j))" by blast
    then show "odd (m div 2 ^ k div 2 ^ j) = odd (n div 2 ^ k div 2 ^ j)" by (simp add: power_add div_mult2_eq)
  qed
  then have "m div 2 ^ k mod 2 ^ (8 - k) = n div 2 ^ k mod 2 ^ (8 - k)" by (metis of_limbs_bits_le)
  moreover have "x div 2 ^ k < 2 ^ (8 - k)" if "x < 256" for x :: nat
    using that assms(4) less_mult_imp_div_less [of x "2 ^ (8 - k)" "2 ^ k"] by (simp add: power_add [symmetric])
  ultimately show ?thesis using assms(2,3) by simp
qed

lemma header_sound:
  fixes t0 t1 :: "'a::field target"
  assumes order: "order_ok TYPE('a)" and d: "descriptor_ok d" and b: "byte_is t0 b0" "byte_is t1 b1"
    and sat: "sat (header_define [t0, t1] d) adv pos (c, off) pos'"
  obtains n l where "parse_header d b0 b1 = Some (n, l)" "tval c = of_nat n" "tval off = of_nat l"
proof -
  let ?pl = "hd_prefix_length d" let ?m = "hd_masked_prefix d" let ?k = "2 ^ (8 - hd_prefix_length d) :: nat"
  let ?v = "sub_target t0 (constant_target ?m)" let ?max = "constant_target (255 div 2 ^ ?pl) :: 'a target"
  let ?f = "not_target (is_equal ?v ?max)" let ?s = "and_target (is_equal ?v ?max) (not_target (is_equal t1 (constant_target 255)))"
  from sat obtain bits p where parts: "sat (as_bit_targets t0) adv pos bits p"
    "\<forall>i \<in> {8 - ?pl..<8}. tval (bits ! i) = of_bool (?m div 2 ^ i mod 2 = 1)"
    "tval (or_target ?f ?s) = 1" "c = select_target ?f ?v (add_target t1 ?max)" "off = select_target ?f (constant_target 1) (constant_target 2)"
    by (auto simp: header_define_def Let_def sat_connects)
  have small: "b0 < 256" "b1 < 256" "?m < 256" "?pl \<le> 8" "?k dvd ?m" using b d by (simp_all add: byte_is_def descriptor_ok_def)
  note bits = byte_bits [OF order b(1) parts(1)]
  have "odd (b0 div 2 ^ i) = odd (?m div 2 ^ i)" if "i \<in> {8 - ?pl..<8}" for i
    using parts(2) that bits_value_nth [OF bits, of i] by (auto simp: odd_iff_mod_2_eq_one of_bool_def split: if_splits)
  then have pre: "b0 div ?k = ?m div ?k" by (intro div_from_bits) (use small in auto)
  have "b0 = ?m + b0 mod ?k" using pre small(5) by (metis div_mult_mod_eq dvd_div_mult_self)
  then have v: "tval ?v = of_nat (b0 mod ?k)" using b(1) by (simp add: byte_is_def) (metis add_diff_cancel_left' of_nat_add)
  have pw: "2 ^ (8 - ?pl) * 2 ^ ?pl = (256 :: nat)" using small(4) by (simp add: power_add [symmetric])
  have "255 div 2 ^ ?pl = ?k - 1"
  proof (rule div_nat_eqI)
    have "2 ^ ?pl * (?k - 1) = 256 - 2 ^ ?pl" using pw by (simp add: diff_mult_distrib2 mult.commute)
    moreover have "(0 :: nat) < 2 ^ ?pl" by simp
    ultimately show "2 ^ ?pl * (?k - 1) \<le> 255" by linarith
    show "255 < 2 ^ ?pl * Suc (?k - 1)" using pw by (simp add: mult.commute)
  qed
  then have max: "tval ?max = of_nat (?k - 1)" by simp
  have kle: "?k \<le> 256" using pw by (metis One_nat_def Suc_leI mult_le_mono2 nat_mult_1_right zero_less_numeral zero_less_power)
  have lt: "b0 mod ?k < ?k" by simp
  have c1: "tval (is_equal ?v ?max) = of_bool (b0 mod ?k = ?k - 1)"
    using of_nat_u32_eq [OF order, of "b0 mod ?k" "?k - 1"] kle lt unfolding tval_ops(7) v max by simp
  have c2: "tval (is_equal t1 (constant_target 255)) = of_bool (b1 = 255)"
    using of_nat_u32_eq [OF order, of b1 255] small(2) b(2) by (simp add: byte_is_def)
  note f = tval_not [OF c1] and s = tval_and [OF c1 tval_not [OF c2]]
  have ok: "b0 mod ?k \<noteq> ?k - 1 \<or> b1 \<noteq> 255" using parts(3) tval_or [OF f s] by (auto split: if_splits)
  have c: "tval c = (if b0 mod ?k \<noteq> ?k - 1 then of_nat (b0 mod ?k) else of_nat (b1 + (?k - 1)))"
    unfolding parts(4) tval_select [OF f] tval_ops(1) v max of_nat_add using b(2) by (simp only: byte_is_def)
  have off: "tval off = (if b0 mod ?k \<noteq> ?k - 1 then of_nat 1 else of_nat 2)" unfolding parts(5) tval_select [OF f] by auto
  show thesis
  proof (cases "b0 mod ?k = ?k - 1")
    case True
    with ok c off pre show thesis by (intro that [of "b1 + (?k - 1)" 2]) (simp_all add: parse_header_def Let_def)
  next
    case False
    with c off pre show thesis by (intro that [of "b0 mod ?k" 1]) (simp_all add: parse_header_def Let_def)
  qed
qed

lemma parse_header_bounds: "parse_header d b0 b1 = Some (n, l) \<Longrightarrow> b1 < 256 \<Longrightarrow> hd_prefix_length d \<le> 8 \<Longrightarrow> n < 512 \<and> 1 \<le> l \<and> l \<le> 2"
proof -
  assume *: "parse_header d b0 b1 = Some (n, l)" "b1 < 256" "hd_prefix_length d \<le> 8"
  have "(2 :: nat) ^ (8 - hd_prefix_length d) \<le> 2 ^ 8" by (rule power_increasing) simp_all
  moreover have "b0 mod 2 ^ (8 - hd_prefix_length d) < 2 ^ (8 - hd_prefix_length d)" by simp
  ultimately have "b0 mod 2 ^ (8 - hd_prefix_length d) < 2 ^ 8 \<and> (2 :: nat) ^ (8 - hd_prefix_length d) \<le> 2 ^ 8"
    by (meson order.strict_trans2)
  then have "b0 mod 2 ^ (8 - hd_prefix_length d) < 256" "(2 :: nat) ^ (8 - hd_prefix_length d) \<le> 256" by simp_all
  moreover define k where "k = (2 :: nat) ^ (8 - hd_prefix_length d)"
  ultimately have "b0 mod k < 256" "k \<le> 256" by simp_all
  with * show ?thesis unfolding parse_header_def Let_def k_def [symmetric] by (simp split: if_splits)
qed

lemma nibbles_of_take: "nibbles_of (take k bs) = take (2 * k) (nibbles_of bs)"
proof (induction bs arbitrary: k)
  case (Cons b bs)
  then show ?case by (cases k) (simp_all add: nibbles_of_def)
qed (simp add: nibbles_of_def)

lemma length_nibbles_of [simp]: "length (nibbles_of bs) = 2 * length bs"
  by (induction bs) (simp_all add: nibbles_of_def)

lemma nibbles_of_less: "\<forall>b \<in> set bs. b < 256 \<Longrightarrow> \<forall>n \<in> set (nibbles_of bs). n < 16"
  by (auto simp: nibbles_of_def)

lemma halves_sound:
  fixes ts :: "'a::field target list"
  assumes "order_ok TYPE('a)" and "bytes_are ts bs"
    and "sat (circuit_map (\<lambda>byte. circuit_bind (as_half_byte_targets byte) (\<lambda>(l, m). circuit_return [m, l])) ts) adv pos hs pos'"
  shows "list_all2 nibble_is (concat hs) (nibbles_of bs)"
  using assms(2,3)
proof (induction ts arbitrary: bs pos hs)
  case Nil
  then show ?case by (simp add: bytes_are_def nibbles_of_def)
next
  case (Cons t ts)
  from Cons.prems(1) obtain b bs' where bs: "bs = b # bs'" "byte_is t b" "bytes_are ts bs'" by (auto simp: bytes_are_def list_all2_Cons1)
  from Cons.prems(2) obtain l m hs' p p' where h: "sat (as_half_byte_targets t) adv pos (l, m) p" "hs = [m, l] # hs'"
    "sat (circuit_map (\<lambda>byte. circuit_bind (as_half_byte_targets byte) (\<lambda>(l, m). circuit_return [m, l])) ts) adv p' hs' pos'"
    by (auto split: prod.splits)
  from Cons.IH [OF bs(3) h(3)] byte_halves [OF assms(1) bs(2) h(1)] show ?case by (simp add: bs(1) h(2) nibbles_of_def)
qed

lemma nibble_parts:
  assumes "length nn = (64 :: nat)" and "n \<le> 64"
  shows "(if odd n \<or> n = 0 then [] else [hd nn]) @ take (n - of_bool (\<not> (odd n \<or> n = 0))) (tl nn @ [0 :: nat])
    = (if odd n then tl (take (n + 1) nn) else take n nn)"
proof (cases "odd n")
  case True
  then have "n \<noteq> 64" by auto
  with True assms show ?thesis by (cases nn) auto
next
  case False
  with assms show ?thesis by (cases n; cases nn) auto
qed

text \<open>A satisfied nibble parser has read the nibbles and appended them; the padding nibble of an odd count is zero.\<close>

lemma nibble_sound:
  fixes block :: "'a::field target list"
  assumes order: "order_ok TYPE('a)" and data: "bytes_are block data" "length data = 128"
    and off: "tval off = of_nat k" "k < 2 ^ 31" and count: "tval cnt = of_nat n" "n < 2 ^ 32" and addr: "address_is a ms"
    and sat: "sat (nibble_define block off cnt a) adv pos (off', a') pos'"
  obtains k' ns where "parse_nibbles data k n = Some (k', ns)" "k' = k + (n + 1) div 2" "k' \<le> 128" "n \<le> 64" "tval off' = of_nat k'" "address_is a' (ms @ ns)"
proof -
  let ?zero = "constant_target 0 :: 'a target"
  from sat obtain bs hs bits p1 p2 p3 p4 p5 p6 p7 p8 p9 p10 p11 first rest a1 q where
    checks: "sat (range_check (sub_target (constant_target 64) cnt) 32) adv pos () p1"
      "sat (random_read_array block off 32) adv p1 bs p2"
      "sat (circuit_map (\<lambda>byte. circuit_bind (as_half_byte_targets byte) (\<lambda>(l, m). circuit_return [m, l])) bs) adv p3 hs p4"
      "sat (low_bits cnt 1 32) adv p5 bits p6"
    and padding: "tval (and_target (bits ! 0) (not_target (is_equal (hd (concat hs @ [?zero])) ?zero))) = 0"
    and parts: "sat (from_half_byte_targets_safe (take 64 (hd (concat hs @ [?zero]) # replicate 64 ?zero))
        (not_target (or_target (bits ! 0) (is_equal cnt ?zero)))) adv p7 first p8"
      "sat (from_half_byte_targets_safe (tl (concat hs @ [?zero]))
        (sub_target cnt (not_target (or_target (bits ! 0) (is_equal cnt ?zero))))) adv p8 rest p9"
      "sat (sa_append a first) adv p9 a1 p10" "sat (sa_append a1 rest) adv p10 a' p11"
    and off': "tval (constant_target 2 :: 'a target) \<noteq> 0" "q = Wire (tval (sub_target cnt (bits ! 0)) / tval (constant_target 2))"
      "off' = add_target off (add_target q (bits ! 0))"
    unfolding nibble_define_def Let_def MAX_STORAGE_ADDRESS_LENGTH_IN_NIBBLES_def MAX_STORAGE_ADDRESS_LENGTH_IN_BYTES_def
    by (auto simp: div_target_def simp del: take_Cons_numeral take_replicate)
  obtain d where d: "d < 2 ^ 32" "of_nat 64 - of_nat n = (of_nat d :: 'a)" using range_check_bits [OF checks(1)] count by auto
  have n: "n \<le> 64" using of_nat_diff_small [OF order d(2)] d(1) count(2) by simp
  have blk: "length block = 128" using bytes_are_length [OF data(1)] data(2) by simp
  note read = random_read_array_value [OF order _ _ off _ _ checks(2)]
  have k: "k + 32 \<le> 128" using read(1) blk by (cases "block = []") auto
  have vals: "map tval bs = map tval (take 32 (drop k block))" using read(2) blk by (cases "block = []") auto
  let ?bs = "take 32 (drop k data)" let ?nn = "nibbles_of ?bs"
  have bytes: "bytes_are bs ?bs" by (rule bytes_are_values [OF bytes_are_slice [OF data(1)] vals])
  have nib: "list_all2 nibble_is (concat hs) ?nn" by (rule halves_sound [OF order bytes checks(3)])
  have len: "length ?nn = 64" "length (concat hs) = 64" using k data(2) list_all2_lengthD [OF nib] by simp_all
  have nth: "nibble_is (concat hs ! i) (?nn ! i)" if "i < 64" for i using nib that len by (simp add: list_all2_conv_all_nth)
  have hd_eq: "hd (concat hs @ [?zero]) = concat hs ! 0" "tl (concat hs @ [?zero]) = tl (concat hs) @ [?zero]" "hd ?nn = ?nn ! 0"
    using len by (cases "concat hs"; auto; cases ?nn; auto)+
  have odd: "tval (bits ! 0) = of_bool (odd n)"
    using bits_value_nth [OF low_bits_value(2) [OF order _ count(1) _ checks(4)], of 0] count(2) by (simp add: goldilocks_order_def)
  have zero: "tval (is_equal cnt ?zero) = of_bool (n = 0)" using of_nat_u32_eq [OF order, of n 0] count by simp
  let ?tf = "\<not> (odd n \<or> n = 0)"
  note tf = tval_not [OF tval_or [OF odd zero]]
  have one: "address_is first (take (of_bool ?tf) (?nn ! 0 # replicate 63 0))"
  proof (rule half_byte_targets_address [OF order _ _ _ _ _ parts(1)])
    show "nibble_is (take 64 (hd (concat hs @ [?zero]) # replicate 64 ?zero) ! i) ((?nn ! 0 # replicate 63 0) ! i)" if "i < 64" for i
      using that nth [of 0] hd_eq by (cases i) (simp_all add: nibble_is_def)
  qed (use tf in simp_all)
  let ?m = "n - of_bool ?tf"
  have cnt: "tval (sub_target cnt (not_target (or_target (bits ! 0) (is_equal cnt ?zero)))) = of_nat ?m"
    using tf count(1) by (auto simp: of_nat_diff of_bool_def)
  have two: "address_is rest (take ?m (tl ?nn @ [0]))"
  proof (rule half_byte_targets_address [OF order _ _ _ cnt _ parts(2)])
    show "nibble_is (tl (concat hs @ [?zero]) ! i) ((tl ?nn @ [0]) ! i)" if "i < 64" for i
      unfolding hd_eq using that nth [of "Suc i"] len by (auto simp: nth_append nth_tl nibble_is_def)
  qed (use len n hd_eq in simp_all)
  have fst: "take (of_bool ?tf) (?nn ! 0 # replicate 63 0) = (if odd n \<or> n = 0 then [] else [hd ?nn])" by (simp add: hd_eq)
  let ?ns = "if odd n then tl (take (n + 1) ?nn) else take n ?nn"
  have addr': "address_is a' (ms @ ?ns)"
    using append_address [OF order append_address [OF order addr one parts(3)] two parts(4)] nibble_parts [OF len(1) n]
    unfolding fst by simp
  have pad: "\<not> (odd n \<and> hd ?nn \<noteq> 0)"
  proof
    assume *: "odd n \<and> hd ?nn \<noteq> 0"
    have "tval (is_equal (hd (concat hs @ [?zero])) ?zero) = of_bool (?nn ! 0 = 0)"
      using nth [of 0] hd_eq(1) of_nat_u32_eq [OF order, of "?nn ! 0" 0] by (simp add: nibble_is_def)
    from padding [unfolded tval_and [OF odd tval_not [OF this]]] * hd_eq(3) show False by simp
  qed
  let ?h = "(n + 1) div 2"
  have h32: "?h \<le> 32" using n by simp
  then have tk: "take ?h (drop k data) = take ?h ?bs" by simp
  have th: "take (2 * ?h) ?nn = (if odd n then take (n + 1) ?nn else take n ?nn)" by (auto elim: evenE oddE)
  have spec: "parse_nibbles data k n = Some (k + ?h, ?ns)"
  proof -
    have "hd (take (n + 1) ?nn) = hd ?nn" using len by (cases ?nn) auto
    with pad show ?thesis unfolding parse_nibbles_def Let_def tk nibbles_of_take th by (cases "odd n") simp_all
  qed
  have "n = n div 2 * 2 + of_bool (odd n)" by (simp add: of_bool_odd_eq_mod_2)
  then have "of_nat n = (of_nat (n div 2 * 2 + of_bool (odd n)) :: 'a)" by (rule arg_cong)
  then have "tval (sub_target cnt (bits ! 0)) = of_nat (n div 2) * 2" unfolding tval_ops count(1) odd by simp
  then have "tval q = of_nat (n div 2)" unfolding off'(2) using off'(1) by simp
  moreover have "?h = n div 2 + of_bool (odd n)" by (simp add: of_bool_odd_eq_mod_2) presburger
  ultimately have "tval off' = of_nat (k + ?h)" unfolding off'(3) tval_ops off(1) odd by simp
  with spec addr' show thesis using k n h32 by (intro that) auto
qed

lemma child_count_snoc: "child_count (bs @ [b]) = child_count bs + of_bool b"
  by (simp add: child_count_def)

lemma bitmap_sound:
  fixes block :: "'a::field target list"
  assumes order: "order_ok TYPE('a)" and data: "bytes_are block data" "length data = 128"
    and off: "tval off = of_nat k" "k < 2 ^ 31" and c: "nibble_is t c"
    and sat: "sat (bitmap_define block off t) adv pos (off', amount, idx) pos'"
  shows "k + 2 \<le> 128" and "parse_bitmap data k ! c" and "tval off' = of_nat (k + 2)"
    and "tval amount = of_nat (child_count (parse_bitmap data k))" and "tval idx = of_nat (child_count (take c (parse_bitmap data k)))"
proof -
  let ?bs = "parse_bitmap data k"
  let ?step = "\<lambda>(child_amount_before_claimed_child, before_claimed_child, overall_child_amount) (bit_no, bit).
      circuit_bind (assert_zero (and_target (is_equal (constant_target bit_no) t) (not_target bit))) (\<lambda>_.
      circuit_return (add_target child_amount_before_claimed_child
          (and_target (xor_target before_claimed_child (is_equal (constant_target bit_no) t)) bit),
        xor_target before_claimed_child (is_equal (constant_target bit_no) t), add_target overall_child_amount bit))"
  from sat obtain b0 b1 fs ss p1 p2 p3 p4 before where reads: "sat (random_read block off) adv pos b0 p1"
    "sat (random_read block (add_target off (constant_target 1))) adv p1 b1 p2" "sat (as_bit_targets b0) adv p2 fs p3" "sat (as_bit_targets b1) adv p3 ss p4"
    and fold: "sat (circuit_fold ?step (constant_target 0, constant_bool True, constant_target 0) (enumerate 0 (fs @ ss))) adv p4 (idx, before, amount) pos'"
    and off': "off' = add_target off (constant_target 2)"
    by (auto simp: bitmap_define_def Let_def split: prod.splits)
  have blk: "length block = 128" "block \<noteq> []" using bytes_are_length [OF data(1)] data(2) by auto
  have r0: "k < 128" "tval b0 = tval (block ! k)" using random_read_value [OF order _ blk(2) off(1) _ reads(1)] blk(1) off(2) by simp_all
  have r1: "k + 1 < 128" "tval b1 = tval (block ! (k + 1))"
    using random_read_value [OF order _ blk(2) _ _ reads(2), of "k + 1"] blk(1) off by simp_all
  then show "k + 2 \<le> 128" by simp
  show "tval off' = of_nat (k + 2)" using off' off(1) by simp
  have "byte_is b0 (data ! k)" "byte_is b1 (data ! (k + 1))"
    using bytes_are_nth [OF data(1), of k] bytes_are_nth [OF data(1), of "k + 1"] r0 r1 data(2) by (simp_all add: byte_is_def)
  note fs = byte_bits [OF order this(1) reads(3)] and ss = byte_bits [OF order this(2) reads(4)]
  have bits: "map tval (fs @ ss) = map of_bool ?bs" using fs ss by (simp add: parse_bitmap_def)
  have len: "length ?bs = 16" "length (fs @ ss) = 16" using arg_cong [OF bits, of length] by (simp_all add: parse_bitmap_def)
  have cc: "tval t = of_nat c" "c < 16" using c by (simp_all add: nibble_is_def)
  let ?I = "\<lambda>j (before_amount, before, all). tval before_amount = of_nat (child_count (take (min j c) ?bs)) \<and> tval before = of_bool (j \<le> c)
    \<and> tval all = of_nat (child_count (take j ?bs)) \<and> (c < j \<longrightarrow> ?bs ! c)"
  have "?I (length (enumerate 0 (fs @ ss))) (idx, before, amount)"
  proof (rule circuit_fold_list [where I = ?I, OF fold])
    fix j s p s' p' assume j: "j < length (enumerate 0 (fs @ ss))" and I: "?I j s" and step: "sat (?step s (enumerate 0 (fs @ ss) ! j)) adv p s' p'"
    obtain am be al where s: "s = (am, be, al)" by (cases s)
    have j16: "j < 16" using j len by simp
    let ?bit = "(fs @ ss) ! j"
    have "enumerate 0 (fs @ ss) ! j = (j, ?bit)" using j by (simp add: nth_enumerate_eq)
    with step have parts: "tval (and_target (is_equal (constant_target j) t) (not_target ?bit)) = 0"
      "s' = (add_target am (and_target (xor_target be (is_equal (constant_target j) t)) ?bit), xor_target be (is_equal (constant_target j) t), add_target al ?bit)"
      unfolding s by auto
    have bit: "tval ?bit = of_bool (?bs ! j)" using arg_cong [OF bits, of "\<lambda>xs. xs ! j"] j16 len by (simp only: nth_map)
    have claimed: "tval (is_equal (constant_target j) t) = of_bool (j = c)" using of_nat_u32_eq [OF order, of j c] cc j16 by auto
    have ok: "j = c \<longrightarrow> ?bs ! c" using parts(1) tval_and [OF claimed tval_not [OF bit]] by (auto split: if_splits)
    have I': "tval am = of_nat (child_count (take (min j c) ?bs))" "tval be = of_bool (j \<le> c)" "tval al = of_nat (child_count (take j ?bs))"
      "c < j \<longrightarrow> ?bs ! c" using I by (auto simp: s)
    have xor: "tval (xor_target be (is_equal (constant_target j) t)) = of_bool (Suc j \<le> c)"
      using tval_xor [OF I'(2) claimed] by (auto simp: of_bool_def)
    have snoc: "take (Suc j) ?bs = take j ?bs @ [?bs ! j]" using j16 len by (simp add: take_Suc_conv_app_nth)
    have "take (min (Suc j) c) ?bs = (if Suc j \<le> c then take (min j c) ?bs @ [?bs ! j] else take (min j c) ?bs)"
      using snoc by (auto simp: min_def dest: le_antisym)
    then have am: "tval (add_target am (and_target (xor_target be (is_equal (constant_target j) t)) ?bit)) = of_nat (child_count (take (min (Suc j) c) ?bs))"
      using tval_and [OF xor bit] I'(1) by (auto simp: child_count_snoc)
    show "?I (Suc j) s'" unfolding parts(2) using am xor I' ok bit by (auto simp: snoc child_count_snoc less_Suc_eq)
  qed (simp add: child_count_def)
  with len cc show "?bs ! c" "tval amount = of_nat (child_count ?bs)" "tval idx = of_nat (child_count (take c ?bs))" by (simp_all add: min_def)
qed

end
