(* ===== verification/Proof_System.thy ===== *)
theory Proof_System
  imports Prover_Targets
begin

text \<open>
  Proofs inside circuits (\<open>prover/src/common/mod.rs\<close>). Whether a proof with given public inputs is
  accepted under given verifier data is a parameter, as the verifier is plonky2's. A circuit is a
  function of that parameter and returns the targets it registers as public inputs. The hypothesis
  \<open>proof_sound\<close> is plonky2's knowledge soundness for one circuit: an accepted proof comes from a
  satisfying assignment whose inner proofs are accepted with a smaller depth.
\<close>

type_synonym 'a verifier = "'a list \<Rightarrow> 'a list \<Rightarrow> bool"

definition verify_proof :: "'a verifier \<Rightarrow> 'a target list \<Rightarrow> 'a target list \<Rightarrow> ('a, unit) circuit" where
  "verify_proof verify verifier_data public_inputs = require (verify (map tval verifier_data) (map tval public_inputs))"

definition recursively_verify_constant_proof :: "'a verifier \<Rightarrow> 'a list \<Rightarrow> nat \<Rightarrow> ('a, 'a target list) circuit" where
  "recursively_verify_constant_proof verify verifier_only num_public_inputs =
     circuit_bind (add_virtual_targets num_public_inputs) (\<lambda>proof_with_pis_target.
     circuit_bind (verify_proof verify (map Constant verifier_only) proof_with_pis_target) (\<lambda>_.
       circuit_return proof_with_pis_target))"

text \<open>The verifier data of a circuit: its digest and the sixteen hashes of its Merkle cap, four elements each (\<open>targets/verifier_data.rs\<close>).\<close>

definition verifier_data_size :: nat where
  "verifier_data_size = 4 + 16 * 4"

definition add_verifier_data_public_inputs :: "('a, 'a target list) circuit" where
  "add_verifier_data_public_inputs = add_virtual_targets verifier_data_size"

text \<open>
  plonky2's cyclic verification: the verifier data at the end of the inner public inputs is connected
  to that of the outer circuit, and the inner proof is accepted under it if the condition holds.
\<close>

definition conditionally_verify_cyclic_proof_or_dummy :: "'a::field verifier \<Rightarrow> 'a target \<Rightarrow> 'a target list \<Rightarrow> 'a target list
    \<Rightarrow> ('a, unit) circuit" where
  "conditionally_verify_cyclic_proof_or_dummy verify condition verifier_data public_inputs =
     circuit_bind (connect_set (drop (length public_inputs - verifier_data_size) public_inputs) verifier_data) (\<lambda>_.
       require (tval condition = 0 \<or> verify (map tval verifier_data) (map tval public_inputs)))"

text \<open>Reading a target set from consecutive targets; \<open>parse_exact\<close> refuses surplus targets.\<close>

fun parse_fields :: "nat list \<Rightarrow> 'x list \<Rightarrow> 'x list list" where
  "parse_fields [] raw = []"
| "parse_fields (n # ns) raw = take n raw # parse_fields ns (drop n raw)"

definition parse_exact :: "nat list \<Rightarrow> 'x list \<Rightarrow> ('a, 'x list list) circuit" where
  "parse_exact ns raw = circuit_bind (require (length raw = sum_list ns)) (\<lambda>_. circuit_return (parse_fields ns raw))"

definition proof_sound :: "(nat \<Rightarrow> 'a verifier) \<Rightarrow> 'a list \<Rightarrow> ('a verifier \<Rightarrow> ('a, 'a target list) circuit) \<Rightarrow> bool" where
  "proof_sound verify vd circ \<longleftrightarrow>
     (\<forall>n pis. verify n vd pis \<longrightarrow> (\<exists>m < n. \<exists>adv r pos'. sat (circ (verify m)) adv 0 r pos' \<and> map tval r = pis))"

definition proof_means :: "(nat \<Rightarrow> 'a verifier) \<Rightarrow> 'a list \<Rightarrow> ('a list \<Rightarrow> bool) \<Rightarrow> bool" where
  "proof_means verify vd P \<longleftrightarrow> (\<forall>n pis. verify n vd pis \<longrightarrow> P pis)"

section \<open>Accepted proofs\<close>

lemma sat_verify_proof [simp]:
  "sat (verify_proof verify vd pis) adv pos u pos' \<longleftrightarrow> verify (map tval vd) (map tval pis) \<and> pos' = pos"
  by (simp add: verify_proof_def)

lemma sat_constant_proof:
  "sat (recursively_verify_constant_proof verify vd n) adv pos r pos' \<Longrightarrow> verify vd (map tval r) \<and> length r = n"
  by (auto simp: recursively_verify_constant_proof_def comp_def dest: sat_virtual_length)

lemma sat_cyclic:
  assumes "sat (conditionally_verify_cyclic_proof_or_dummy verify condition vd pis) adv pos u pos'"
    and "length vd = verifier_data_size" and "verifier_data_size \<le> length pis"
  shows "map tval (drop (length pis - verifier_data_size) pis) = map tval vd"
    and "tval condition = 0 \<or> verify (map tval vd) (map tval pis)"
  using assms by (auto simp: conditionally_verify_cyclic_proof_or_dummy_def sat_connect_set)

lemma proof_meansD: "proof_means verify vd P \<Longrightarrow> verify n vd pis \<Longrightarrow> P pis"
  by (auto simp: proof_means_def)

lemma proof_soundE:
  assumes "proof_sound verify vd circ" and "verify n vd pis"
  obtains m adv r pos' where "m < n" "sat (circ (verify m)) adv 0 r pos'" "map tval r = pis"
  using assms unfolding proof_sound_def by blast

text \<open>A property of accepted proofs follows from the circuit, the property being known of proofs of smaller depth.\<close>

lemma proof_means_induct:
  assumes sound: "proof_sound verify vd circ"
    and step: "\<And>n adv r pos'. (\<And>m pis. m \<le> n \<Longrightarrow> verify m vd pis \<Longrightarrow> P pis) \<Longrightarrow> sat (circ (verify n)) adv 0 r pos' \<Longrightarrow> P (map tval r)"
  shows "proof_means verify vd P"
proof -
  have "\<forall>pis. verify n vd pis \<longrightarrow> P pis" for n
  proof (induction n rule: less_induct)
    case (less n)
    show ?case
    proof (intro allI impI)
      fix pis assume "verify n vd pis"
      then obtain m adv r pos' where m: "m < n" "sat (circ (verify m)) adv 0 r pos'" "map tval r = pis"
        by (rule proof_soundE [OF sound])
      have "P (map tval r)"
      proof (rule step [OF _ m(2)])
        fix k pis assume "k \<le> m" "verify k vd pis"
        then show "P pis" using less.IH m(1) by (meson le_less_trans)
      qed
      with m(3) show "P pis" by simp
    qed
  qed
  then show ?thesis by (simp add: proof_means_def)
qed

lemma proof_means_step:
  assumes "proof_sound verify vd circ" and "\<And>n adv r pos'. sat (circ (verify n)) adv 0 r pos' \<Longrightarrow> P (map tval r)"
  shows "proof_means verify vd P"
  using assms(1) by (rule proof_means_induct) (rule assms(2))

lemma sum_parse_fields: "length raw = sum_list ns \<Longrightarrow> concat (parse_fields ns raw) = raw"
  by (induction ns arbitrary: raw) auto

lemma length_parse_fields [simp]: "length (parse_fields ns raw) = length ns"
  by (induction ns arbitrary: raw) auto

lemma parse_fields_map: "parse_fields ns (map f raw) = map (map f) (parse_fields ns raw)"
  by (induction ns arbitrary: raw) (auto simp: take_map drop_map)

section \<open>Circuits that accept given advice\<close>

text \<open>
  A circuit accepts the advice \<open>xs\<close> with the result \<open>r\<close> when it is satisfied wherever \<open>xs\<close> is found in
  the advice; these facts compose and show that the circuit can be satisfied.
\<close>

definition accepts :: "('a, 'r) circuit \<Rightarrow> 'a list \<Rightarrow> 'r \<Rightarrow> bool" where
  "accepts m xs r \<longleftrightarrow> (\<forall>adv pos. (\<forall>i < length xs. adv (pos + i) = xs ! i) \<longrightarrow> sat m adv pos r (pos + length xs))"

lemma accepts_return: "accepts (circuit_return r) [] r"
  by (simp add: accepts_def)

lemma accepts_bind:
  assumes "accepts m xs r" and "accepts (f r) ys s"
  shows "accepts (circuit_bind m f) (xs @ ys) s"
  unfolding accepts_def
proof (intro allI impI)
  fix adv :: "'a advice" and pos assume all: "\<forall>i < length (xs @ ys). adv (pos + i) = (xs @ ys) ! i"
  have "adv (pos + i) = xs ! i" if "i < length xs" for i using all [rule_format, of i] that by (simp add: nth_append)
  moreover have "adv (pos + length xs + i) = ys ! i" if "i < length ys" for i
    using all [rule_format, of "length xs + i"] that by (simp add: nth_append add.assoc)
  ultimately have "sat m adv pos r (pos + length xs)" "sat (f r) adv (pos + length xs) s (pos + length xs + length ys)"
    using assms by (auto simp: accepts_def)
  then show "sat (circuit_bind m f) adv pos s (pos + length (xs @ ys))" by (auto simp: add.assoc)
qed

lemma accepts_bindI: "accepts m xs r \<Longrightarrow> accepts (f r) ys s \<Longrightarrow> zs = xs @ ys \<Longrightarrow> accepts (circuit_bind m f) zs s"
  by (simp add: accepts_bind)

lemma accepts_require: "b \<Longrightarrow> accepts (require b) [] ()"
  by (simp add: accepts_def)

lemma accepts_virtual: "length xs = n \<Longrightarrow> accepts (add_virtual_targets n) xs (map Wire xs)"
  by (auto simp: accepts_def sat_def add_virtual_targets_def intro: nth_equalityI)

lemma accepts_virtual_target: "accepts add_virtual_target [x] (Wire x)"
  by (simp add: accepts_def)

lemma accepts_virtual_bool: "accepts add_virtual_bool_target_safe [of_bool b] (Wire (of_bool b))"
  by (simp add: accepts_def)

lemma accepts_connect: "tval x = tval y \<Longrightarrow> accepts (connect x y) [] ()"
  by (simp add: accepts_def)

lemma accepts_connect_set: "map tval a = map tval b \<Longrightarrow> accepts (connect_set a b) [] ()"
proof -
  assume eq: "map tval a = map tval b"
  then have "length a = length b" by (metis length_map)
  with eq show ?thesis by (simp add: accepts_def sat_connect_set)
qed

lemma accepts_map:
  assumes "length xss = length xs" and "length rs = length xs" and "\<And>i. i < length xs \<Longrightarrow> accepts (f (xs ! i)) (xss ! i) (rs ! i)"
  shows "accepts (circuit_map f xs) (concat xss) rs"
  using assms
proof (induction xs arbitrary: xss rs)
  case (Cons x xs)
  obtain ys yss r rs' where eqs: "xss = ys # yss" "rs = r # rs'" using Cons.prems(1,2) by (metis Suc_length_conv)
  have "accepts (circuit_map f xs) (concat yss) rs'"
    by (rule Cons.IH) (use Cons.prems(1,2) Cons.prems(3) [of "Suc i" for i] in \<open>auto simp: eqs\<close>)
  moreover have "accepts (f x) ys r" using Cons.prems(3) [of 0] by (simp add: eqs)
  ultimately show ?case
    unfolding eqs circuit_map.simps by (auto intro!: accepts_bindI accepts_return)
qed (simp add: accepts_return)

lemma accepts_split_le:
  fixes x :: "'a::field target"
  assumes "tval x = of_nat n" and "n < 2 ^ k"
  shows "accepts (split_le x k) (map of_bool (bits_le k n)) (map Wire (map of_bool (bits_le k n)))"
proof -
  let ?bs = "map of_bool (bits_le k n) :: 'a list"
  have "tval (le_sum (map Wire ?bs)) = of_nat (of_limbs 2 (map of_bool (bits_le k n)))"
    by (rule le_sum_bits) (simp add: comp_def)
  then have "reduce_with_powers (map tval (map Wire ?bs)) 2 = tval x"
    using assms by (simp add: le_sum_def of_limbs_bits_le)
  moreover have "list_all (\<lambda>b. tval b = 0 \<or> tval b = 1) (map Wire ?bs)" by (auto simp: list_all_iff)
  moreover have "sat (add_virtual_targets k) adv pos (map Wire ?bs) (pos + k)"
    if "\<forall>i < length ?bs. adv (pos + i) = ?bs ! i" for adv pos
    using that accepts_virtual [of ?bs k] by (simp add: accepts_def)
  ultimately show ?thesis by (auto simp: accepts_def split_le_def split_le_base_2_def)
qed

lemma accepts_range_check:
  fixes x :: "'a::field target"
  assumes "tval x = of_nat n" and "n < 2 ^ k"
  shows "accepts (range_check x k) (map of_bool (bits_le k n)) ()"
  unfolding range_check_def by (rule accepts_bindI [OF accepts_split_le [OF assms] accepts_return]) simp

lemma accepts_constant_proof:
  "verify vd pis \<Longrightarrow> length pis = n \<Longrightarrow> accepts (recursively_verify_constant_proof verify vd n) pis (map Wire pis)"
  unfolding recursively_verify_constant_proof_def verify_proof_def
  by (rule accepts_bindI [OF accepts_virtual], assumption, rule accepts_bindI [OF accepts_require accepts_return]) (simp_all add: comp_def)

lemma accepts_cyclic:
  assumes "length pis = n + verifier_data_size" and "map tval (drop n pis) = map tval vd"
    and "tval condition = 0 \<or> verify (map tval vd) (map tval pis)"
  shows "accepts (conditionally_verify_cyclic_proof_or_dummy verify condition vd pis) [] ()"
  unfolding conditionally_verify_cyclic_proof_or_dummy_def
  by (rule accepts_bindI [OF accepts_connect_set accepts_require]) (use assms in simp_all)

lemma accepts_sat:
  assumes "accepts m xs r"
  obtains adv pos' where "sat m adv 0 r pos'"
  using assms [unfolded accepts_def, rule_format, of "\<lambda>i. xs ! i" 0] by (auto intro: that)

end
