(* ===== verification/Blake2_Circuit.thy ===== *)
theory Blake2_Circuit
  imports Prover_Targets
begin

unbundle bit_operations_syntax

text \<open>
  The circuit for Blake2b with digests of 32 bytes (\<open>circuits/plonky2_blake2b256/src\<close>) and the hash
  function of RFC 7693 on 64 bit words. Words are 64 bits, byte by byte, each with its most
  significant bit first. A satisfied circuit computes the hash, for byte counters that agree with the
  true ones modulo the order of the field.
\<close>

section \<open>Words as bits (\<open>utils.rs\<close>)\<close>

definition not_word :: "'a::field target list \<Rightarrow> 'a target list" where
  "not_word w = map not_target w"

definition xor_words :: "'a::field target list \<Rightarrow> 'a target list \<Rightarrow> 'a target list" where
  "xor_words a b = map2 xor_target a b"

definition triple_xor_words :: "'a::field target list \<Rightarrow> 'a target list \<Rightarrow> 'a target list \<Rightarrow> 'a target list" where
  "triple_xor_words a b c = (let a_b = xor_words a b in xor_words a_b c)"

definition split_word :: "'x list \<Rightarrow> 'x list \<times> 'x list" where
  "split_word w = (let w_bits = concat (map rev (chunks_of 8 w)) in (take 32 w_bits, drop 32 w_bits))"

definition collect_word :: "'x list \<Rightarrow> 'x list \<Rightarrow> 'x list" where
  "collect_word l h = concat (map rev (chunks_of 8 (l @ h)))"

definition add_words_wrapping :: "('a::field) config \<Rightarrow> 'a target list \<Rightarrow> 'a target list \<Rightarrow> ('a, 'a target list) circuit" where
  "add_words_wrapping cfg a b =
     (let (a_l, a_h) = split_word a; a_l = le_sum a_l; a_h = le_sum a_h;
          (b_l, b_h) = split_word b; b_l = le_sum b_l; b_h = le_sum b_h
      in circuit_bind (add_u32 cfg a_l b_l) (\<lambda>(res_l, carry).
         circuit_bind (add_u32s_with_carry cfg [a_h, b_h] carry) (\<lambda>(res_h, _).
         circuit_bind (split_le res_l 32) (\<lambda>res_l.
         circuit_bind (split_le res_h 32) (\<lambda>res_h.
           circuit_return (collect_word res_l res_h))))))"

definition triple_add_words_wrapping :: "('a::field) config \<Rightarrow> 'a target list \<Rightarrow> 'a target list \<Rightarrow> 'a target list
    \<Rightarrow> ('a, 'a target list) circuit" where
  "triple_add_words_wrapping cfg a b c = circuit_bind (add_words_wrapping cfg a b) (\<lambda>a_b. add_words_wrapping cfg a_b c)"

definition split_target_to_word_targets :: "'a::field target \<Rightarrow> ('a, 'a target list) circuit" where
  "split_target_to_word_targets t =
     circuit_bind (split_le t 64) (\<lambda>bits. circuit_return (concat (map rev (chunks_of 8 bits))))"

definition rright_word :: "'x list \<Rightarrow> nat \<Rightarrow> 'x list" where
  "rright_word inp amount =
     (let inp = concat (rev (chunks_of 8 inp));
          inp = drop (length inp - amount) inp @ take (length inp - amount) inp
      in concat (rev (chunks_of 8 inp)))"

definition word_to_bits_le :: "u64 \<Rightarrow> bool list" where
  "word_to_bits_le w = concat (map (\<lambda>i. let byte = drop_bit (8 * i) w AND 255 in
     map (\<lambda>bit_idx. drop_bit bit_idx byte AND 1 = 1) (rev [0..<8])) [0..<8])"

definition word_to_word_targets :: "u64 \<Rightarrow> 'a::field target list" where
  "word_to_word_targets w = map constant_bool (word_to_bits_le w)"

section \<open>The compression function (\<open>circuit.rs\<close>)\<close>

definition blake2_IV :: "u64 list" where
  "blake2_IV = [0x6A09E667F3BCC908, 0xBB67AE8584CAA73B, 0x3C6EF372FE94F82B, 0xA54FF53A5F1D36F1,
     0x510E527FADE682D1, 0x9B05688C2B3E6C1F, 0x1F83D9ABFB41BD6B, 0x5BE0CD19137E2179]"

definition blake2_SIGMA :: "nat list list" where
  "blake2_SIGMA = [
     [0, 1, 2, 3, 4, 5, 6, 7, 8, 9, 10, 11, 12, 13, 14, 15],
     [14, 10, 4, 8, 9, 15, 13, 6, 1, 12, 0, 2, 11, 7, 5, 3],
     [11, 8, 12, 0, 5, 2, 15, 13, 10, 14, 3, 6, 7, 1, 9, 4],
     [7, 9, 3, 1, 13, 12, 11, 14, 2, 6, 5, 10, 4, 0, 15, 8],
     [9, 0, 5, 7, 2, 4, 10, 15, 14, 1, 11, 12, 6, 8, 3, 13],
     [2, 12, 6, 10, 0, 11, 8, 3, 4, 13, 7, 5, 15, 14, 1, 9],
     [12, 5, 1, 15, 14, 13, 4, 10, 0, 7, 6, 3, 9, 2, 8, 11],
     [13, 11, 7, 14, 12, 1, 3, 9, 5, 0, 15, 4, 8, 6, 2, 10],
     [6, 15, 14, 9, 11, 3, 0, 8, 12, 2, 13, 7, 1, 4, 10, 5],
     [10, 2, 8, 4, 7, 6, 1, 5, 15, 11, 9, 14, 3, 12, 13, 0],
     [0, 1, 2, 3, 4, 5, 6, 7, 8, 9, 10, 11, 12, 13, 14, 15],
     [14, 10, 4, 8, 9, 15, 13, 6, 1, 12, 0, 2, 11, 7, 5, 3]]"

definition blake2_G :: "('a::field) config \<Rightarrow> 'a target list list \<Rightarrow> nat \<Rightarrow> nat \<Rightarrow> nat \<Rightarrow> nat \<Rightarrow> 'a target list \<Rightarrow> 'a target list
    \<Rightarrow> ('a, 'a target list list) circuit" where
  "blake2_G cfg v a b c d x y =
     circuit_bind (triple_add_words_wrapping cfg (v ! a) (v ! b) x) (\<lambda>t. let v = v[a := t] in
     let v = v[d := rright_word (xor_words (v ! d) (v ! a)) 32] in
     circuit_bind (add_words_wrapping cfg (v ! c) (v ! d)) (\<lambda>t. let v = v[c := t] in
     let v = v[b := rright_word (xor_words (v ! b) (v ! c)) 24] in
     circuit_bind (triple_add_words_wrapping cfg (v ! a) (v ! b) y) (\<lambda>t. let v = v[a := t] in
     let v = v[d := rright_word (xor_words (v ! d) (v ! a)) 16] in
     circuit_bind (add_words_wrapping cfg (v ! c) (v ! d)) (\<lambda>t. let v = v[c := t] in
     let v = v[b := rright_word (xor_words (v ! b) (v ! c)) 63] in
       circuit_return v))))"

definition blake2_lanes :: "(nat \<times> nat \<times> nat \<times> nat \<times> nat \<times> nat) list" where
  "blake2_lanes = [(0, 4, 8, 12, 0, 1), (1, 5, 9, 13, 2, 3), (2, 6, 10, 14, 4, 5), (3, 7, 11, 15, 6, 7),
     (0, 5, 10, 15, 8, 9), (1, 6, 11, 12, 10, 11), (2, 7, 8, 13, 12, 13), (3, 4, 9, 14, 14, 15)]"

definition blake2_round :: "('a::field) config \<Rightarrow> 'a target list list \<Rightarrow> 'a target list list \<Rightarrow> nat list \<Rightarrow> ('a, 'a target list list) circuit" where
  "blake2_round cfg m v s =
     circuit_fold (\<lambda>v (a, b, c, d, i, j). blake2_G cfg v a b c d (m ! (s ! i)) (m ! (s ! j))) v blake2_lanes"

definition blake2_F :: "('a::field) config \<Rightarrow> 'a target list list \<Rightarrow> 'a target list list \<Rightarrow> 'a target \<Rightarrow> bool
    \<Rightarrow> ('a, 'a target list list) circuit" where
  "blake2_F cfg h m t f =
     (let v = h @ map word_to_word_targets blake2_IV
      in circuit_bind (split_target_to_word_targets t) (\<lambda>offset_low_word.
         let offset_high_word = word_to_word_targets 0;
             v = v[12 := xor_words (v ! 12) offset_low_word];
             v = v[13 := xor_words (v ! 13) offset_high_word];
             v = (if f then v[14 := not_word (v ! 14)] else v)
         in circuit_bind (circuit_fold (blake2_round cfg m) v blake2_SIGMA) (\<lambda>v.
            circuit_return (map (\<lambda>i. triple_xor_words (h ! i) (v ! i) (v ! (i + 8))) [0..<8]))))"

definition blake2_initial :: "u64 list" where
  "blake2_initial = blake2_IV[0 := (blake2_IV ! 0) XOR 0x01010000 XOR push_bit 8 0 XOR 32]"

definition blake2_from_message_and_length :: "('a::field) config \<Rightarrow> 'a target list \<Rightarrow> 'a target \<Rightarrow> ('a, 'a target list) circuit" where
  "blake2_from_message_and_length cfg message len =
     circuit_bind (require (length message mod 8 = 0)) (\<lambda>_.
     let msg_len_in_bits = length message;
         dd = max (msg_len_in_bits div 1024 + of_bool (msg_len_in_bits mod 1024 \<noteq> 0)) 1;
         msg_len_rem = dd * 1024 - msg_len_in_bits;
         message = message @ replicate msg_len_rem (constant_bool False);
         message_blocks = map (chunks_of 64) (chunks_of 1024 message)
     in circuit_bind (require (length message_blocks = dd)) (\<lambda>_.
        let h = map word_to_word_targets blake2_initial
        in circuit_bind (circuit_fold (\<lambda>h i. blake2_F cfg h (message_blocks ! i) (constant_target ((i + 1) * 128)) False) h [0..<dd - 1]) (\<lambda>h.
           circuit_bind (blake2_F cfg h (message_blocks ! (dd - 1)) len True) (\<lambda>h.
             circuit_return (take 256 (concat h))))))"

definition blake2_from_targets :: "('a::field) config \<Rightarrow> 'a target list \<Rightarrow> ('a, 'a target list) circuit" where
  "blake2_from_targets cfg message =
     circuit_bind (require (length message mod 8 = 0)) (\<lambda>_.
       blake2_from_message_and_length cfg message (constant_target (length message div 8)))"

definition blake2_circuit :: "('a::field) config \<Rightarrow> nat \<Rightarrow> ('a, 'a target list \<times> 'a target list) circuit" where
  "blake2_circuit cfg msg_len =
     circuit_bind (circuit_map (\<lambda>_. add_virtual_bool_target_safe) [0..<msg_len * 8]) (\<lambda>message.
     circuit_bind (blake2_from_targets cfg message) (\<lambda>digest. circuit_return (message, digest)))"

section \<open>Blake2b on words (RFC 7693)\<close>

definition b2_G :: "u64 list \<Rightarrow> nat \<Rightarrow> nat \<Rightarrow> nat \<Rightarrow> nat \<Rightarrow> u64 \<Rightarrow> u64 \<Rightarrow> u64 list" where
  "b2_G v a b c d x y =
     (let v = v[a := v ! a + v ! b + x]; v = v[d := word_rotr 32 (v ! d XOR v ! a)];
          v = v[c := v ! c + v ! d]; v = v[b := word_rotr 24 (v ! b XOR v ! c)];
          v = v[a := v ! a + v ! b + y]; v = v[d := word_rotr 16 (v ! d XOR v ! a)];
          v = v[c := v ! c + v ! d]; v = v[b := word_rotr 63 (v ! b XOR v ! c)]
      in v)"

definition b2_round :: "u64 list \<Rightarrow> u64 list \<Rightarrow> nat list \<Rightarrow> u64 list" where
  "b2_round m v s = foldl (\<lambda>v (a, b, c, d, i, j). b2_G v a b c d (m ! (s ! i)) (m ! (s ! j))) v blake2_lanes"

definition b2_F :: "u64 list \<Rightarrow> u64 list \<Rightarrow> u64 \<Rightarrow> bool \<Rightarrow> u64 list" where
  "b2_F h m t f =
     (let v = h @ blake2_IV; v = v[12 := v ! 12 XOR t]; v = (if f then v[14 := NOT (v ! 14)] else v);
          v = foldl (b2_round m) v blake2_SIGMA
      in map (\<lambda>i. h ! i XOR v ! i XOR v ! (i + 8)) [0..<8])"

text \<open>The hash of blocks of 16 words with one counter per block; the last block is final.\<close>

fun b2_blocks :: "u64 list \<Rightarrow> u64 list list \<Rightarrow> u64 list \<Rightarrow> u64 list" where
  "b2_blocks h [m] [t] = b2_F h m t True"
| "b2_blocks h (m # ms) (t # ts) = b2_blocks (b2_F h m t False) ms ts"
| "b2_blocks h _ _ = h"

definition u64_from_le_bytes :: "nat list \<Rightarrow> u64" where
  "u64_from_le_bytes bs = of_nat (of_limbs 256 bs)"

definition b2_message :: "nat list \<Rightarrow> u64 list list" where
  "b2_message data =
     (let dd = max ((length data + 127) div 128) 1
      in map (\<lambda>block. map u64_from_le_bytes (chunks_of 8 block)) (chunks_of 128 (data @ replicate (dd * 128 - length data) 0)))"

definition u64_to_le_bytes :: "u64 \<Rightarrow> nat list" where
  "u64_to_le_bytes w = map (\<lambda>i. unat (drop_bit (8 * i) w AND 255)) [0..<8]"

definition b2_digest :: "u64 list \<Rightarrow> nat list" where
  "b2_digest h = concat (map u64_to_le_bytes (take 4 h))"

definition blake2b_256 :: "nat list \<Rightarrow> nat list" where
  "blake2b_256 data =
     (let ms = b2_message data; n = length ms
      in b2_digest (b2_blocks blake2_initial ms (map (\<lambda>i. of_nat ((i + 1) * 128)) [0..<n - 1] @ [of_nat (length data)])))"

section \<open>Words and their bits\<close>

text \<open>The list functions only reorder, so it is enough to run them on positions.\<close>

definition bit_positions :: "nat list" where
  "bit_positions = map (\<lambda>k. 8 * (k div 8) + (7 - k mod 8)) [0..<64]"

definition word_bits :: "u64 \<Rightarrow> bool list" where
  "word_bits x = map (bit x) bit_positions"

lemma chunks_of_map: "chunks_of n (map f xs) = map (map f) (chunks_of n xs)"
proof (induction n xs rule: chunks_of.induct)
  case (1 n xs)
  then show ?case
    by (subst (1 2) chunks_of.simps) (auto simp: take_map drop_map)
qed

lemma reorder_map: "concat (map rev (chunks_of 8 (map f xs))) = map f (concat (map rev (chunks_of 8 xs)))"
  by (simp add: chunks_of_map map_concat rev_map comp_def)

lemma split_word_map: "split_word (map f xs) = (map f (fst (split_word xs)), map f (snd (split_word xs)))"
  by (simp add: split_word_def Let_def reorder_map take_map drop_map)

lemma collect_word_map: "collect_word (map f xs) (map f ys) = map f (collect_word xs ys)"
  unfolding collect_word_def map_append [symmetric] by (rule reorder_map)

lemma rright_word_map: "rright_word (map f xs) n = map f (rright_word xs n)"
proof -
  have "concat (rev (chunks_of 8 (map f ys))) = map f (concat (rev (chunks_of 8 ys)))" for ys
    by (simp add: chunks_of_map map_concat rev_map)
  then show ?thesis unfolding rright_word_def Let_def by (simp add: drop_map take_map flip: map_append)
qed

lemma position_facts:
  "split_word bit_positions = ([0..<32], [32..<64])" "collect_word [0..<32] [32..<64] = bit_positions"
  "rright_word bit_positions 32 = map (\<lambda>p. (p + 32) mod 64) bit_positions" "rright_word bit_positions 24 = map (\<lambda>p. (p + 24) mod 64) bit_positions"
  "rright_word bit_positions 16 = map (\<lambda>p. (p + 16) mod 64) bit_positions" "rright_word bit_positions 63 = map (\<lambda>p. (p + 63) mod 64) bit_positions"
  "concat (map rev (chunks_of 8 [0..<64])) = bit_positions"
  by code_simp+

lemma bit_position_less: "p \<in> set bit_positions \<Longrightarrow> p < 64"
proof -
  have "\<forall>p \<in> set bit_positions. p < 64" by code_simp
  then show "p \<in> set bit_positions \<Longrightarrow> p < 64" by blast
qed

lemma length_word_bits [simp]: "length (word_bits x) = 64"
  by (simp add: word_bits_def bit_positions_def)

lemma word_to_bits_le_eq: "word_to_bits_le x = word_bits x"
proof -
  have "word_to_bits_le x = concat (map (\<lambda>i. map (\<lambda>j. bit x (8 * i + j)) (rev [0..<8])) [0..<8])"
    unfolding word_to_bits_le_def Let_def
  proof (rule arg_cong [of _ _ concat], rule map_cong [OF refl], rule map_cong [OF refl])
    fix i j :: nat assume "j \<in> set (rev [0..<8])"
    then have j: "j < 8" by simp
    have "(drop_bit j (drop_bit (8 * i) x AND 255) AND 1 = 1) = bit (drop_bit (8 * i) x AND mask 8) j"
      by (simp add: bit_iff_odd_drop_bit and_one_eq odd_iff_mod_2_eq_one mask_eq_exp_minus_1)
    then show "(drop_bit j (drop_bit (8 * i) x AND 255) AND 1 = 1) = bit x (8 * i + j)" using j by (simp add: bit_simps)
  qed
  also have "\<dots> = map (bit x) (concat (map (\<lambda>i. map (\<lambda>j. 8 * i + j) (rev [0..<8])) [0..<8]))"
    by (simp add: map_concat comp_def)
  also have "concat (map (\<lambda>i. map (\<lambda>j. 8 * i + j) (rev [0..<8])) [0..<8]) = bit_positions" by code_simp
  finally show ?thesis by (simp add: word_bits_def)
qed

lemma bit_word_odd: "bit x n \<longleftrightarrow> odd (unat x div 2 ^ n)" for x :: u64
proof -
  have "bit (unat x) n \<longleftrightarrow> bit x n" by (simp add: bit_unsigned_iff)
  then show ?thesis by (simp add: bit_iff_odd)
qed

lemma bits_le_word: "map (bit x) [k..<k + n] = bits_le n (unat x div 2 ^ k)" for x :: u64
  by (rule nth_equalityI) (simp_all add: bits_le_def bit_word_odd power_add div_mult2_eq)

definition word_is :: "'a::field target list \<Rightarrow> u64 \<Rightarrow> bool" where
  "word_is w x \<longleftrightarrow> map tval w = map of_bool (word_bits x)"

lemma word_is_constant: "word_is (word_to_word_targets x) x"
  by (simp add: word_is_def word_to_word_targets_def word_to_bits_le_eq comp_def)

lemma word_is_length: "word_is w x \<Longrightarrow> length w = 64"
  unfolding word_is_def by (metis length_map length_word_bits)

lemma word_is_nth: "word_is w x \<Longrightarrow> k < 64 \<Longrightarrow> tval (w ! k) = of_bool (word_bits x ! k)"
  unfolding word_is_def by (metis length_map length_word_bits nth_map)

lemma word_isI: "length w = 64 \<Longrightarrow> (\<And>k. k < 64 \<Longrightarrow> tval (w ! k) = of_bool (word_bits x ! k)) \<Longrightarrow> word_is w x"
  unfolding word_is_def by (rule nth_equalityI) simp_all

lemma word_bits_nth: "k < 64 \<Longrightarrow> word_bits x ! k = bit x (bit_positions ! k)"
  by (simp add: word_bits_def bit_positions_def)

lemma bit_positions_nth: "k < 64 \<Longrightarrow> bit_positions ! k < 64"
  by (rule bit_position_less [OF nth_mem]) (simp add: bit_positions_def)

lemma xor_words_is: "word_is a x \<Longrightarrow> word_is b y \<Longrightarrow> word_is (xor_words a b) (x XOR y)"
proof (rule word_isI)
  fix k :: nat assume *: "word_is a x" "word_is b y" "k < 64"
  then have "tval (xor_target (a ! k) (b ! k)) = of_bool (word_bits x ! k \<noteq> word_bits y ! k)"
    by (intro tval_xor word_is_nth)
  with * show "tval (xor_words a b ! k) = of_bool (word_bits (x XOR y) ! k)"
    by (simp add: xor_words_def word_is_length word_bits_nth bit_xor_iff)
qed (simp add: xor_words_def word_is_length)

lemma not_word_is: "word_is a x \<Longrightarrow> word_is (not_word a) (NOT x)"
proof (rule word_isI)
  fix k :: nat assume *: "word_is a x" "k < 64"
  then have "tval (not_target (a ! k)) = of_bool (\<not> word_bits x ! k)" by (intro tval_not word_is_nth)
  with * show "tval (not_word a ! k) = of_bool (word_bits (NOT x) ! k)"
    using bit_positions_nth [OF *(2)] by (simp add: not_word_def word_is_length word_bits_nth bit_not_iff)
qed (simp add: not_word_def word_is_length)

lemma triple_xor_words_is: "word_is a x \<Longrightarrow> word_is b y \<Longrightarrow> word_is c z \<Longrightarrow> word_is (triple_xor_words a b c) (x XOR y XOR z)"
  unfolding triple_xor_words_def Let_def by (metis xor_words_is xor.assoc)

lemma rright_word_is:
  assumes "word_is w x" and "n \<in> {16, 24, 32, 63}"
  shows "word_is (rright_word w n) (word_rotr n x)"
proof -
  have "rright_word bit_positions n = map (\<lambda>p. (p + n) mod 64) bit_positions" using assms(2) position_facts(3-6) by auto
  then have "rright_word (word_bits x) n = map (\<lambda>p. bit x ((p + n) mod 64)) bit_positions"
    by (simp add: word_bits_def rright_word_map comp_def)
  also have "\<dots> = word_bits (word_rotr n x)"
    by (simp add: word_bits_def bit_word_rotr_iff bit_position_less)
  finally show ?thesis
    using assms(1) unfolding word_is_def by (metis rright_word_map)
qed

section \<open>Addition of words\<close>

lemma split_word_bits:
  "split_word (word_bits x) = (bits_le 32 (unat x), bits_le 32 (unat x div 2 ^ 32))"
  unfolding word_bits_def split_word_map position_facts using bits_le_word [of x 0 32] bits_le_word [of x 32 32] by simp

lemma collect_word_bits: "collect_word (bits_le 32 (unat x)) (bits_le 32 (unat x div 2 ^ 32)) = word_bits x"
proof -
  have "bits_le 32 (unat x) = map (bit x) [0..<32]" "bits_le 32 (unat x div 2 ^ 32) = map (bit x) [32..<64]"
    using bits_le_word [of x 0 32] bits_le_word [of x 32 32] by simp_all
  then show ?thesis by (simp only: collect_word_map position_facts word_bits_def)
qed

lemma word_bit_halves:
  fixes w :: "'a::field target list"
  assumes "word_is w x"
  shows "u32_is (le_sum (fst (split_word w))) (unat x mod 2 ^ 32)" "u32_is (le_sum (snd (split_word w))) (unat x div 2 ^ 32)"
proof -
  have "split_word (map tval w) = split_word (map of_bool (word_bits x))" using assms by (simp only: word_is_def)
  then have halves: "map tval (fst (split_word w)) = map of_bool (bits_le 32 (unat x))"
    "map tval (snd (split_word w)) = map of_bool (bits_le 32 (unat x div 2 ^ 32))"
    unfolding split_word_map split_word_bits by simp_all
  have "unat x < 2 ^ 64" using unsigned_less [of x] by simp
  then have "unat x div 2 ^ 32 < 2 ^ 32" by (simp add: less_mult_imp_div_less)
  with halves show "u32_is (le_sum (fst (split_word w))) (unat x mod 2 ^ 32)" "u32_is (le_sum (snd (split_word w))) (unat x div 2 ^ 32)"
    by (simp_all add: u32_is_def le_sum_bits of_limbs_bits_le)
qed

lemma bits_le_mod: "k \<le> m \<Longrightarrow> bits_le k (n mod 2 ^ m) = bits_le k n"
proof -
  assume "k \<le> m"
  then have "of_limbs 2 (map of_bool (bits_le k (n mod 2 ^ m))) = of_limbs 2 (map of_bool (bits_le k n))"
    unfolding of_limbs_bits_le by (simp add: mod_mod_cancel le_imp_power_dvd)
  then show ?thesis by (metis bits_le_of_limbs length_bits_le)
qed

lemma sum_halves:
  fixes m n :: nat
  shows "(m mod 2 ^ 32 + n mod 2 ^ 32) mod 2 ^ 32 = (m + n) mod 2 ^ 32"
    and "(m div 2 ^ 32 + n div 2 ^ 32 + (m mod 2 ^ 32 + n mod 2 ^ 32) div 2 ^ 32) mod 2 ^ 32 = (m + n) div 2 ^ 32 mod 2 ^ 32"
  by (simp_all add: mod_add_eq div_add1_eq [of m n] add.assoc)

lemma add_words_is:
  fixes a b :: "'a::field target list"
  assumes order: "order_ok TYPE('a)" and canon: "canon_ok cfg" and ab: "word_is a x" "word_is b y"
    and sat: "sat (add_words_wrapping cfg a b) adv pos r pos'"
  shows "word_is r (x + y)"
proof -
  let ?al = "le_sum (fst (split_word a))" let ?ah = "le_sum (snd (split_word a))" let ?bl = "le_sum (fst (split_word b))" let ?bh = "le_sum (snd (split_word b))"
  from sat obtain rl c rh c' ls hs p1 p2 p3 where parts: "sat (add_u32 cfg ?al ?bl) adv pos (rl, c) p1"
    "sat (add_u32s_with_carry cfg [?ah, ?bh] c) adv p1 (rh, c') p2" "sat (split_le rl 32) adv p2 ls p3" "sat (split_le rh 32) adv p3 hs pos'"
    "r = collect_word ls hs" by (auto simp: add_words_wrapping_def Let_def split: prod.splits)
  let ?m = "unat x" let ?n = "unat y"
  note A = word_bit_halves [OF ab(1)] and B = word_bit_halves [OF ab(2)]
  note low = add_u32_sound [OF order canon A(1) B(1) parts(1)]
  let ?c = "(?m mod 2 ^ 32 + ?n mod 2 ^ 32) div 2 ^ 32"
  have "u32s_are [?ah, ?bh] [?m div 2 ^ 32, ?n div 2 ^ 32]" using A B by (simp add: u32s_are_def)
  moreover have "sum_list [?m div 2 ^ 32, ?n div 2 ^ 32] + ?c < goldilocks_order"
    using A B low by (simp add: u32_is_def goldilocks_order_def)
  ultimately have high: "u32_is rh ((?m + ?n) div 2 ^ 32 mod 2 ^ 32)"
    using add_u32s_with_carry_sound(1) [OF order canon _ low(2) _ parts(2)] sum_halves(2) [of ?m ?n] by fastforce
  have sum: "unat (x + y) = (?m + ?n) mod 2 ^ 64" by (simp add: unat_word_ariths)
  have "bits_le 32 ((?m + ?n) mod 2 ^ 32) = bits_le 32 (unat (x + y))" unfolding sum by (simp only: bits_le_mod order.refl numeral_le_iff semiring_norm)
  then have l: "map tval ls = map of_bool (bits_le 32 (unat (x + y)))"
    using split_le_value(2) [OF order _ _ _ parts(3), of "(?m + ?n) mod 2 ^ 32"] low(1) sum_halves(1) [of ?m ?n]
    by (simp add: u32_is_def goldilocks_order_def)
  have "(?m + ?n) mod 2 ^ 64 div 2 ^ 32 = (?m + ?n) div 2 ^ 32 mod 2 ^ 32"
    using mod_mult2_eq [of "?m + ?n" "2 ^ 32" "2 ^ 32"] by simp
  then have h: "map tval hs = map of_bool (bits_le 32 (unat (x + y) div 2 ^ 32))"
    using split_le_value(2) [OF order _ _ _ parts(4), of "(?m + ?n) div 2 ^ 32 mod 2 ^ 32"] high unfolding sum
    by (simp add: u32_is_def goldilocks_order_def)
  have "map tval r = map of_bool (collect_word (bits_le 32 (unat (x + y))) (bits_le 32 (unat (x + y) div 2 ^ 32)))"
    unfolding parts(5) collect_word_map [symmetric] l h ..
  then show ?thesis by (simp only: word_is_def collect_word_bits)
qed

lemma triple_add_words_is:
  fixes a b :: "'a::field target list"
  assumes "order_ok TYPE('a)" and "canon_ok cfg" and "word_is a x" "word_is b y" "word_is c z"
    and "sat (triple_add_words_wrapping cfg a b c) adv pos r pos'"
  shows "word_is r (x + y + z)"
proof -
  from assms(6) obtain d p where "sat (add_words_wrapping cfg a b) adv pos d p" "sat (add_words_wrapping cfg d c) adv p r pos'"
    by (auto simp: triple_add_words_wrapping_def)
  then show ?thesis using add_words_is [OF assms(1,2)] assms(3-5) by blast
qed

text \<open>
  A target is split into 64 bits, more than the field has elements for: the word is any number
  below \<open>2 ^ 64\<close> that the target equals modulo the order.
\<close>

lemma split_target_is:
  fixes t :: "'a::field target"
  assumes "sat (split_target_to_word_targets t) adv pos w pos'"
  obtains n where "n < 2 ^ 64" "tval t = of_nat n" "word_is w (of_nat n)"
proof -
  from assms obtain bits where bits: "sat (split_le t 64) adv pos bits pos'" "w = concat (map rev (chunks_of 8 bits))"
    by (auto simp: split_target_to_word_targets_def)
  obtain n where n: "n < 2 ^ 64" "tval t = of_nat n" "map tval bits = map of_bool (bits_le 64 n)" by (rule split_le_sound [OF bits(1)])
  have "unat (of_nat n :: u64) = n" using n(1) by (simp add: unat_of_nat take_bit_eq_mod)
  then have "bits_le 64 n = map (bit (of_nat n :: u64)) [0..<64]" using bits_le_word [of "of_nat n" 0 64] by simp
  then have "map tval bits = map of_bool (map (bit (of_nat n :: u64)) [0..<64])" using n(3) by (simp only:)
  then have "map tval w = map of_bool (word_bits (of_nat n))"
    unfolding bits(2) reorder_map [symmetric, of tval] by (simp only: reorder_map position_facts(7) word_bits_def)
  with n show thesis by (intro that) (simp_all add: word_is_def)
qed

section \<open>The compression function is right\<close>

definition words_are :: "'a::field target list list \<Rightarrow> u64 list \<Rightarrow> bool" where
  "words_are ws xs = list_all2 word_is ws xs"

lemma words_are_length: "words_are ws xs \<Longrightarrow> length ws = length xs"
  by (simp add: words_are_def list_all2_lengthD)

lemma words_are_nth: "words_are ws xs \<Longrightarrow> i < length xs \<Longrightarrow> word_is (ws ! i) (xs ! i)"
  by (simp add: words_are_def list_all2_conv_all_nth)

lemma words_are_update: "words_are ws xs \<Longrightarrow> word_is w x \<Longrightarrow> words_are (ws[i := w]) (xs[i := x])"
  by (simp add: words_are_def list_all2_update_cong)

lemma words_are_constants: "words_are (map word_to_word_targets xs) xs"
  by (simp add: words_are_def list_all2_conv_all_nth word_is_constant)

text \<open>Both halves of the mixing function are one step with different words and rotations.\<close>

definition blake2_half :: "('a::field) config \<Rightarrow> nat \<Rightarrow> nat \<Rightarrow> nat \<Rightarrow> nat \<Rightarrow> 'a target list \<Rightarrow> nat \<Rightarrow> nat \<Rightarrow> 'a target list list
    \<Rightarrow> ('a, 'a target list list) circuit" where
  "blake2_half cfg a b c d x r s v =
     circuit_bind (triple_add_words_wrapping cfg (v ! a) (v ! b) x) (\<lambda>t. let v = v[a := t] in
     let v = v[d := rright_word (xor_words (v ! d) (v ! a)) r] in
     circuit_bind (add_words_wrapping cfg (v ! c) (v ! d)) (\<lambda>t. let v = v[c := t] in
     let v = v[b := rright_word (xor_words (v ! b) (v ! c)) s] in
       circuit_return v))"

definition b2_half :: "nat \<Rightarrow> nat \<Rightarrow> nat \<Rightarrow> nat \<Rightarrow> u64 \<Rightarrow> nat \<Rightarrow> nat \<Rightarrow> u64 list \<Rightarrow> u64 list" where
  "b2_half a b c d x r s v =
     (let v = v[a := v ! a + v ! b + x]; v = v[d := word_rotr r (v ! d XOR v ! a)];
          v = v[c := v ! c + v ! d]; v = v[b := word_rotr s (v ! b XOR v ! c)]
      in v)"

lemma circuit_bind_assoc: "circuit_bind (circuit_bind m f) g = circuit_bind m (\<lambda>x. circuit_bind (f x) g)"
  by (intro ext) (auto simp: circuit_bind_def split: prod.splits)

lemma circuit_bind_return: "circuit_bind (circuit_return r) f = f r"
  by (intro ext) (auto simp: circuit_bind_def circuit_return_def split: prod.splits)

lemma blake2_G_halves: "blake2_G cfg v a b c d x y = circuit_bind (blake2_half cfg a b c d x 32 24 v) (blake2_half cfg a b c d y 16 63)"
  unfolding blake2_half_def blake2_G_def Let_def circuit_bind_assoc circuit_bind_return ..

lemma b2_G_halves: "b2_G v a b c d x y = b2_half a b c d y 16 63 (b2_half a b c d x 32 24 v)"
  unfolding b2_half_def b2_G_def Let_def ..

lemma length_b2_half [simp]: "length (b2_half a b c d x r s v) = length v"
  by (simp add: b2_half_def Let_def)

lemma blake2_half_sound:
  fixes v :: "'a::field target list list"
  assumes order: "order_ok TYPE('a)" and canon: "canon_ok cfg" and v: "words_are v xs"
    and lens: "a < length xs" "b < length xs" "c < length xs" "d < length xs" and m: "word_is x mx" and rs: "r \<in> {16, 24, 32, 63}" "s \<in> {16, 24, 32, 63}"
    and sat: "sat (blake2_half cfg a b c d x r s v) adv pos w pos'"
  shows "words_are w (b2_half a b c d mx r s xs)"
proof -
  let ?rot = "\<lambda>v i j n. v[i := rright_word (xor_words (v ! i) (v ! j)) n]"
  let ?rotx = "\<lambda>v i j n. v[i := word_rotr n (v ! i XOR v ! j)]"
  have rot: "words_are (?rot w i j n) (?rotx ys i j n)"
    if "words_are w ys" "i < length ys" "j < length ys" "n \<in> {16, 24, 32, 63}" for w :: "'a target list list" and ys i j n
    by (rule words_are_update [OF that(1) rright_word_is [OF xor_words_is [OF words_are_nth [OF that(1,2)] words_are_nth [OF that(1,3)]] that(4)]])
  from sat obtain t1 t2 p1 where
    s: "sat (triple_add_words_wrapping cfg (v ! a) (v ! b) x) adv pos t1 p1"
      "sat (add_words_wrapping cfg (?rot (v[a := t1]) d a r ! c) (?rot (v[a := t1]) d a r ! d)) adv p1 t2 pos'"
      "w = ?rot ((?rot (v[a := t1]) d a r)[c := t2]) b c s"
    unfolding blake2_half_def Let_def sat_bind sat_return by blast
  let ?x1 = "?rotx (xs[a := xs ! a + xs ! b + mx]) d a r" let ?x2 = "?x1[c := ?x1 ! c + ?x1 ! d]"
  have len: "length ?x1 = length xs" "length ?x2 = length xs" by simp_all
  have "words_are (v[a := t1]) (xs[a := xs ! a + xs ! b + mx])"
    by (rule words_are_update [OF v triple_add_words_is [OF order canon words_are_nth [OF v lens(1)] words_are_nth [OF v lens(2)] m s(1)]])
  then have 1: "words_are (?rot (v[a := t1]) d a r) ?x1" by (rule rot) (use lens rs in simp_all)
  then have "words_are ((?rot (v[a := t1]) d a r)[c := t2]) ?x2"
    by (rule words_are_update [OF _ add_words_is [OF order canon words_are_nth [OF 1] words_are_nth [OF 1] s(2)]]) (use lens len in simp_all)
  then have "words_are w (?rotx ?x2 b c s)" unfolding s(3) by (rule rot) (use lens len rs in simp_all)
  then show ?thesis by (simp only: b2_half_def Let_def)
qed

lemma blake2_G_sound:
  fixes v :: "'a::field target list list"
  assumes "order_ok TYPE('a)" and "canon_ok cfg" and "words_are v xs"
    and "a < length xs" "b < length xs" "c < length xs" "d < length xs" and "word_is x mx" "word_is y my"
    and "sat (blake2_G cfg v a b c d x y) adv pos r pos'"
  shows "words_are r (b2_G xs a b c d mx my)"
proof -
  from assms(10) obtain w p where "sat (blake2_half cfg a b c d x 32 24 v) adv pos w p" "sat (blake2_half cfg a b c d y 16 63 w) adv p r pos'"
    by (auto simp: blake2_G_halves)
  then show ?thesis unfolding b2_G_halves
    by (intro blake2_half_sound [OF assms(1,2)] assms) (use assms in auto)
qed

lemma length_b2_G [simp]: "length (b2_G v a b c d x y) = length v"
  by (simp add: b2_G_def Let_def)

lemma fold_words:
  assumes "sat (circuit_fold f v xs) adv pos r pos'" and "words_are v ys" and "length ys = 16"
    and "\<And>v ys x p r p'. x \<in> set xs \<Longrightarrow> words_are v ys \<Longrightarrow> length ys = 16 \<Longrightarrow> sat (f v x) adv p r p' \<Longrightarrow> words_are r (g ys x) \<and> length (g ys x) = 16"
  shows "words_are r (foldl g ys xs) \<and> length (foldl g ys xs) = 16"
  using assms
proof (induction xs arbitrary: v ys pos)
  case (Cons x xs)
  from Cons.prems(1) obtain w p where "sat (f v x) adv pos w p" "sat (circuit_fold f w xs) adv p r pos'" by auto
  with Cons.IH [of w p "g ys x"] Cons.prems(2-4) show ?case by auto
qed simp

lemma blake2_round_sound:
  fixes v :: "'a::field target list list"
  assumes "order_ok TYPE('a)" and "canon_ok cfg" and "words_are v xs" and "length xs = 16" and "words_are m ms" and "length ms = 16"
    and "s \<in> set blake2_SIGMA" and "sat (blake2_round cfg m v s) adv pos r pos'"
  shows "words_are r (b2_round ms xs s) \<and> length (b2_round ms xs s) = 16"
proof -
  have sig: "\<forall>s \<in> set blake2_SIGMA. length s = 16 \<and> (\<forall>i \<in> set s. i < 16)" by code_simp
  have lanes: "\<forall>(a, b, c, d, i, j) \<in> set blake2_lanes. a < 16 \<and> b < 16 \<and> c < 16 \<and> d < 16 \<and> i < 16 \<and> j < 16" by code_simp
  show ?thesis
    unfolding b2_round_def
  proof (rule fold_words [OF assms(8) [unfolded blake2_round_def] assms(3,4)])
    fix v :: "'a target list list" and ys l p r p'
    assume l: "l \<in> set blake2_lanes" and v: "words_are v ys" "length ys = 16"
      and step: "sat (case l of (a, b, c, d, i, j) \<Rightarrow> blake2_G cfg v a b c d (m ! (s ! i)) (m ! (s ! j))) adv p r p'"
    obtain a b c d i j where lane: "l = (a, b, c, d, i, j)" by (cases l)
    then have bounds: "a < 16" "b < 16" "c < 16" "d < 16" "i < 16" "j < 16" using lanes l by auto
    then have "s ! i < 16" "s ! j < 16" using sig assms(7) by (metis nth_mem)+
    then have "word_is (m ! (s ! i)) (ms ! (s ! i))" "word_is (m ! (s ! j)) (ms ! (s ! j))"
      using words_are_nth [OF assms(5)] assms(6) by simp_all
    from blake2_G_sound [OF assms(1,2) v(1) _ _ _ _ this] bounds v(2) step lane
    show "words_are r ((\<lambda>v (a, b, c, d, i, j). b2_G v a b c d (ms ! (s ! i)) (ms ! (s ! j))) ys l)
        \<and> length ((\<lambda>v (a, b, c, d, i, j). b2_G v a b c d (ms ! (s ! i)) (ms ! (s ! j))) ys l) = 16" by simp
  qed
qed

lemma blake2_F_sound:
  fixes h :: "'a::field target list list"
  assumes order: "order_ok TYPE('a)" and canon: "canon_ok cfg" and h: "words_are h hs" "length hs = 8" and m: "words_are m ms" "length ms = 16"
    and sat: "sat (blake2_F cfg h m t f) adv pos r pos'"
  obtains n where "n < 2 ^ 64" "tval t = of_nat n" "words_are r (b2_F hs ms (of_nat n) f)"
proof -
  let ?set = "\<lambda>v off. (let v = v[12 := xor_words (v ! 12) off]; v = v[13 := xor_words (v ! 13) (word_to_word_targets 0)]
    in if f then v[14 := not_word (v ! 14)] else v)"
  let ?v = "h @ map word_to_word_targets blake2_IV"
  from sat obtain off v p where parts: "sat (split_target_to_word_targets t) adv pos off p"
    "sat (circuit_fold (blake2_round cfg m) (?set ?v off) blake2_SIGMA) adv p v pos'"
    "r = map (\<lambda>i. triple_xor_words (h ! i) (v ! i) (v ! (i + 8))) [0..<8]"
    by (auto simp: blake2_F_def Let_def)
  obtain n where n: "n < 2 ^ 64" "tval t = of_nat n" "word_is off (of_nat n)" by (rule split_target_is [OF parts(1)])
  let ?x = "hs @ blake2_IV" let ?x1 = "?x[12 := ?x ! 12 XOR of_nat n]" let ?x2 = "?x1[13 := ?x1 ! 13 XOR 0]"
  let ?x3 = "if f then ?x2[14 := NOT (?x2 ! 14)] else ?x2"
  have len: "length ?x = 16" using h(2) by (simp add: blake2_IV_def)
  have v0: "words_are ?v ?x" using h(1) words_are_constants [of blake2_IV] unfolding words_are_def by (rule list_all2_appendI)
  have v1: "words_are (?v[12 := xor_words (?v ! 12) off]) ?x1"
    by (intro words_are_update v0 xor_words_is n(3) words_are_nth) (use len in simp_all)
  have v2: "words_are (?v[12 := xor_words (?v ! 12) off, 13 := xor_words (?v[12 := xor_words (?v ! 12) off] ! 13) (word_to_word_targets 0)]) ?x2"
    by (intro words_are_update v1 xor_words_is word_is_constant words_are_nth) (use len in simp_all)
  have v3: "words_are (?set ?v off) ?x3"
    using v2 words_are_update [OF v2 not_word_is [OF words_are_nth [OF v2, of 14]], of 14] len by (simp add: Let_def)
  have x2: "?x2 = ?x1" by (simp only: xor.right_neutral list_update_id)
  have final: "words_are v (foldl (b2_round ms) ?x3 blake2_SIGMA) \<and> length (foldl (b2_round ms) ?x3 blake2_SIGMA) = 16"
    by (rule fold_words [OF parts(2) v3]) (use len blake2_round_sound [OF order canon _ _ m] in auto)
  let ?f = "foldl (b2_round ms) ?x3 blake2_SIGMA"
  have "words_are r (map (\<lambda>i. hs ! i XOR ?f ! i XOR ?f ! (i + 8)) [0..<8])"
    unfolding parts(3) words_are_def list_all2_map1 list_all2_map2
    by (rule list_all2_same [THEN iffD2]) (use h final in \<open>auto intro!: triple_xor_words_is words_are_nth\<close>)
  then have "words_are r (b2_F hs ms (of_nat n) f)" unfolding b2_F_def Let_def x2 .
  with n show thesis by (intro that)
qed

section \<open>Messages as bytes\<close>

definition byte_msb :: "nat \<Rightarrow> bool list" where
  "byte_msb b = rev (bits_le 8 b)"

definition data_bits :: "nat list \<Rightarrow> bool list" where
  "data_bits data = concat (map byte_msb data)"

lemma length_byte_msb [simp]: "length (byte_msb b) = 8"
  by (simp add: byte_msb_def)

lemma length_data_bits [simp]: "length (data_bits data) = 8 * length data"
  by (induction data) (simp_all add: data_bits_def)

lemma data_bits_append: "data_bits (xs @ ys) = data_bits xs @ data_bits ys"
  by (simp add: data_bits_def)

lemma take_data_bits: "take (8 * n) (data_bits xs) = data_bits (take n xs)" and drop_data_bits: "drop (8 * n) (data_bits xs) = data_bits (drop n xs)"
  by (induction xs arbitrary: n) (case_tac n; simp add: data_bits_def)+

lemma chunks_of_empty [simp]: "chunks_of n [] = []"
  by (simp add: chunks_of.simps)

lemma chunks_of_step: "xs \<noteq> [] \<Longrightarrow> 0 < n \<Longrightarrow> chunks_of n xs = take n xs # chunks_of n (drop n xs)"
  by (subst chunks_of.simps) simp

lemma chunks_data_bits: "0 < n \<Longrightarrow> chunks_of (8 * n) (data_bits xs) = map data_bits (chunks_of n xs)"
proof (induction n xs rule: chunks_of.induct)
  case (1 n xs)
  show ?case
  proof (cases "xs = []")
    case False
    then have "data_bits xs \<noteq> []" by (metis length_0_conv length_data_bits mult_eq_0_iff zero_neq_numeral)
    then have "chunks_of (8 * n) (data_bits xs) = data_bits (take n xs) # chunks_of (8 * n) (data_bits (drop n xs))"
      using 1(2) by (subst chunks_of_step) (simp_all add: take_data_bits drop_data_bits)
    moreover have "chunks_of n xs = take n xs # chunks_of n (drop n xs)" using False 1(2) by (rule chunks_of_step)
    ultimately show ?thesis using False 1 by simp
  qed (simp add: data_bits_def)
qed

lemma chunks_of_concat: "0 < n \<Longrightarrow> \<forall>c \<in> set cs. length c = n \<Longrightarrow> chunks_of n (concat cs) = cs"
proof (induction cs)
  case (Cons c cs)
  then have "c \<noteq> []" by auto
  with Cons.prems have "chunks_of n (c @ concat cs) = take n (c @ concat cs) # chunks_of n (drop n (c @ concat cs))" by (intro chunks_of_step) auto
  with Cons show ?case by simp
qed simp

lemma chunks_lengths:
  "0 < n \<Longrightarrow> length xs = n * k \<Longrightarrow> length (chunks_of n xs) = k \<and> (\<forall>c \<in> set (chunks_of n xs). length c = n)"
proof (induction k arbitrary: xs)
  case (Suc k)
  then have "xs \<noteq> []" by auto
  then have "chunks_of n xs = take n xs # chunks_of n (drop n xs)" using Suc.prems(1) by (rule chunks_of_step)
  with Suc.IH [of "drop n xs"] Suc.prems show ?case by simp
qed simp

lemma set_chunks: "c \<in> set (chunks_of n xs) \<Longrightarrow> set c \<subseteq> set xs"
proof (induction n xs rule: chunks_of.induct)
  case (1 n xs)
  show ?case
  proof (cases "xs = [] \<or> n = 0")
    case True
    then have "chunks_of n xs = []" by (subst chunks_of.simps) simp
    with 1 show ?thesis by simp
  next
    case False
    then have "chunks_of n xs = take n xs # chunks_of n (drop n xs)" by (intro chunks_of_step) auto
    with 1 False show ?thesis by (auto dest: in_set_takeD in_set_dropD)
  qed
qed

lemma bits_le_append: "d < 2 ^ k \<Longrightarrow> bits_le (k + n) (d + 2 ^ k * m) = bits_le k d @ bits_le n m"
proof -
  assume d: "d < 2 ^ k"
  have "of_limbs 2 (map of_bool (bits_le k d @ bits_le n m)) = (d + 2 ^ k * m) mod 2 ^ (k + n)"
    using d by (simp add: of_limbs_append of_limbs_bits_le power_add mod_mult2_eq)
  then show ?thesis using bits_le_of_limbs [of "bits_le k d @ bits_le n m"] bits_le_mod [of "k + n" "k + n"] by simp
qed

lemma bits_le_bytes: "\<forall>b \<in> set bs. b < 256 \<Longrightarrow> bits_le (8 * length bs) (of_limbs 256 bs) = concat (map (bits_le 8) bs)"
proof (induction bs)
  case (Cons b bs)
  then show ?case using bits_le_append [of b 8 "8 * length bs" "of_limbs 256 bs"] by simp
qed (simp add: bits_le_def)

lemma word_bits_reorder: "word_bits x = concat (map rev (chunks_of 8 (bits_le 64 (unat x))))"
proof -
  have "bits_le 64 (unat x) = map (bit x) [0..<64]" using bits_le_word [of x 0 64] by simp
  then show ?thesis by (simp only: reorder_map position_facts(7) word_bits_def)
qed

lemma word_from_bytes:
  assumes "length bs = 8" and "\<forall>b \<in> set bs. b < 256"
  shows "word_bits (u64_from_le_bytes bs) = data_bits bs"
proof -
  have "of_limbs 256 bs < 256 ^ 8" using of_limbs_less [of bs 256] assms by simp
  then have "unat (u64_from_le_bytes bs) = of_limbs 256 bs" by (simp add: u64_from_le_bytes_def unat_of_nat)
  then have "bits_le 64 (unat (u64_from_le_bytes bs)) = concat (map (bits_le 8) bs)" using bits_le_bytes [OF assms(2)] assms(1) by simp
  then show ?thesis
    unfolding word_bits_reorder data_bits_def by (simp add: chunks_of_concat byte_msb_def [abs_def] comp_def)
qed

lemma le_bytes_roundtrip: "u64_from_le_bytes (u64_to_le_bytes w) = w" "length (u64_to_le_bytes w) = 8" "\<forall>b \<in> set (u64_to_le_bytes w). b < 256"
proof -
  have "u64_to_le_bytes w = map (\<lambda>i. (unat w div 256 ^ i) mod 256) [0..<8]"
    unfolding u64_to_le_bytes_def
  proof (rule map_cong [OF refl])
    fix i :: nat
    have "drop_bit (8 * i) w AND 255 = take_bit 8 (drop_bit (8 * i) w)" by (simp add: take_bit_eq_mask mask_eq_exp_minus_1)
    then have "unat (drop_bit (8 * i) w AND 255) = take_bit 8 (drop_bit (8 * i) (unat w))"
      by (simp only: unsigned_take_bit_eq unat_drop_bit_eq)
    then show "unat (drop_bit (8 * i) w AND 255) = unat w div 256 ^ i mod 256"
      by (simp only: take_bit_eq_mod drop_bit_eq_div power_mult) simp
  qed
  then have "of_limbs 256 (u64_to_le_bytes w) = unat w mod 256 ^ 8" "\<forall>b \<in> set (u64_to_le_bytes w). b < 256" using of_limbs_digits [of 256 "unat w" 8] by auto
  moreover have "unat w < 256 ^ 8" using unsigned_less [of w] by simp
  ultimately show "u64_from_le_bytes (u64_to_le_bytes w) = w" "\<forall>b \<in> set (u64_to_le_bytes w). b < 256"
    by (simp_all add: u64_from_le_bytes_def)
qed (simp add: u64_to_le_bytes_def)

end
