(* ===== verification/Blake2_Digest.thy ===== *)
theory Blake2_Digest
  imports Blake2_Circuit
begin

text \<open>
  The Blake2b circuit as a whole (\<open>circuits/plonky2_blake2b256/src/circuit.rs\<close>): the digest bits of a
  satisfied circuit are those of the hash of the message's bytes, up to the byte counters, which the
  circuit fixes in the field only.
\<close>

section \<open>The digest of a message\<close>

text \<open>
  The digests that the circuit admits for bytes \<open>data\<close> and a target of value \<open>len\<close>: the hash with
  counters that equal the true ones in the field.
\<close>

definition counters :: "nat \<Rightarrow> 'a::field \<Rightarrow> 'a list" where
  "counters blocks len = map (\<lambda>i. of_nat ((i + 1) * 128)) [0..<blocks - 1] @ [len]"

definition b2_hash :: "nat list \<Rightarrow> nat list \<Rightarrow> nat list" where
  "b2_hash data ns = b2_digest (b2_blocks blake2_initial (b2_message data) (map of_nat ns))"

definition admits_digest :: "nat list \<Rightarrow> 'a::field \<Rightarrow> nat list \<Rightarrow> bool" where
  "admits_digest data len digest \<longleftrightarrow>
     (\<exists>ns. list_all2 (\<lambda>n e. n < 2 ^ 64 \<and> of_nat n = e) ns (counters (length (b2_message data)) len) \<and> digest = b2_hash data ns)"

lemma b2_blocks_snoc:
  "length ms = length ts \<Longrightarrow> b2_blocks h (ms @ [m]) (ts @ [t]) = b2_F (foldl (\<lambda>h (m, t). b2_F h m t False) h (zip ms ts)) m t True"
proof (induction ms ts arbitrary: h rule: list_induct2)
  case (Cons m' ms t' ts)
  then show ?case by (cases ms; cases ts) simp_all
qed simp

lemma length_b2_F [simp]: "length (b2_F h m t f) = 8"
  by (simp add: b2_F_def Let_def)

definition block_number :: "nat \<Rightarrow> nat" where
  "block_number n = max ((n + 127) div 128) 1"

lemma padded_le: "(n :: nat) \<le> block_number n * 128"
proof -
  have "n + 127 = (n + 127) div 128 * 128 + (n + 127) mod 128" "(n + 127) mod 128 < 128" by (simp_all only: div_mult_mod_eq mod_less_divisor zero_less_numeral)
  then have "n \<le> (n + 127) div 128 * 128" by linarith
  also have "\<dots> \<le> block_number n * 128" unfolding block_number_def by (intro mult_le_mono1) simp
  finally show ?thesis .
qed

lemma block_number_pos: "0 < block_number n"
  by (simp add: block_number_def)

definition padded_data :: "nat list \<Rightarrow> nat list" where
  "padded_data data = data @ replicate (block_number (length data) * 128 - length data) 0"

lemma b2_message_padded: "b2_message data = map (\<lambda>block. map u64_from_le_bytes (chunks_of 8 block)) (chunks_of 128 (padded_data data))"
  by (simp only: b2_message_def Let_def padded_data_def block_number_def)

lemma length_padded: "length (padded_data data) = 128 * block_number (length data)"
  using padded_le [of "length data"] by (simp add: padded_data_def)

lemma padded_blocks:
  "length (chunks_of 128 (padded_data data)) = block_number (length data)"
  "blk \<in> set (chunks_of 128 (padded_data data)) \<Longrightarrow> length blk = 128"
  "blk \<in> set (chunks_of 128 (padded_data data)) \<Longrightarrow> length (chunks_of 8 blk) = 16"
  "blk \<in> set (chunks_of 128 (padded_data data)) \<Longrightarrow> c \<in> set (chunks_of 8 blk) \<Longrightarrow> length c = 8"
proof -
  have p: "length (chunks_of 128 (padded_data data)) = block_number (length data) \<and> (\<forall>c \<in> set (chunks_of 128 (padded_data data)). length c = 128)"
    by (rule chunks_lengths [OF _ length_padded]) simp
  then show "length (chunks_of 128 (padded_data data)) = block_number (length data)" by (rule conjunct1)
  assume "blk \<in> set (chunks_of 128 (padded_data data))"
  with p show "length blk = 128" by blast
  then have "length blk = 8 * 16" by simp
  then have "length (chunks_of 8 blk) = 16 \<and> (\<forall>c \<in> set (chunks_of 8 blk). length c = 8)" by (rule chunks_lengths [rotated]) simp
  then show "length (chunks_of 8 blk) = 16" "c \<in> set (chunks_of 8 blk) \<Longrightarrow> length c = 8" by blast+
qed

lemma b2_message_facts:
  "length (b2_message data) = block_number (length data)" "m \<in> set (b2_message data) \<Longrightarrow> length m = 16"
  unfolding b2_message_padded using padded_blocks by auto

lemma data_bits_zeros: "data_bits (replicate k 0) = replicate (8 * k) False"
  by (induction k) (simp_all add: data_bits_def byte_msb_def bits_le_def replicate_add [symmetric] numeral_eq_Suc)

lemma words_are_of_bits:
  "map (map tval) ws = map (\<lambda>x. map of_bool (word_bits x)) xs \<Longrightarrow> words_are (ws :: 'a::field target list list) xs"
  unfolding words_are_def word_is_def list_all2_conv_all_nth by (auto simp: list_eq_iff_nth_eq)

lemma map_pointwise: "map f xs = map g ys \<Longrightarrow> list_all2 (\<lambda>x y. f x = g y) xs ys"
  by (simp add: list_all2_conv_all_nth list_eq_iff_nth_eq)

lemma message_words:
  fixes message :: "'a::field target list"
  assumes "map tval message = map of_bool (data_bits data)" and "\<forall>b \<in> set data. b < 256"
  shows "list_all2 words_are (map (chunks_of 64) (chunks_of 1024 (message @ replicate (block_number (length data) * 1024 - length message) (constant_bool False))))
    (b2_message data)" (is "list_all2 _ (map _ (chunks_of _ ?bits)) _")
proof -
  let ?p = "padded_data data"
  have len: "length message = 8 * length data" using arg_cong [OF assms(1), of length] by simp
  have "block_number (length data) * 1024 - length message = 8 * (block_number (length data) * 128 - length data)" using len by simp
  then have bits: "map tval ?bits = map of_bool (data_bits ?p)"
    using assms(1) by (simp add: data_bits_append padded_data_def data_bits_zeros)
  have bytes: "\<forall>b \<in> set ?p. b < 256" using assms(2) by (auto simp: padded_data_def)
  have words: "data_bits c = word_bits (u64_from_le_bytes c)" if "blk \<in> set (chunks_of 128 ?p)" "c \<in> set (chunks_of 8 blk)" for blk c
    using word_from_bytes [OF padded_blocks(4) [OF that]] bytes set_chunks [OF that(1)] set_chunks [OF that(2)] by (metis subset_iff)
  have block: "words_are (chunks_of 64 ws) (map u64_from_le_bytes (chunks_of 8 blk))"
    if "map tval ws = map of_bool (data_bits blk)" "blk \<in> set (chunks_of 128 ?p)" for ws :: "'a target list" and blk
  proof (rule words_are_of_bits)
    have "map (map tval) (chunks_of 64 ws) = map (map of_bool) (chunks_of 64 (data_bits blk))"
      by (simp only: chunks_of_map [symmetric] that(1))
    also have "\<dots> = map (map of_bool) (map data_bits (chunks_of 8 blk))" using chunks_data_bits [of 8 blk] by simp
    also have "\<dots> = map (\<lambda>x. map of_bool (word_bits x)) (map u64_from_le_bytes (chunks_of 8 blk))"
      using words [OF that(2)] by simp
    finally show "map (map tval) (chunks_of 64 ws) = map (\<lambda>x. map of_bool (word_bits x)) (map u64_from_le_bytes (chunks_of 8 blk))" .
  qed
  have "map (map tval) (chunks_of 1024 ?bits) = map (\<lambda>blk. map of_bool (data_bits blk)) (chunks_of 128 ?p)"
    using chunks_data_bits [of 128 ?p] by (simp add: chunks_of_map [symmetric] bits del: map_append) (simp add: chunks_of_map comp_def)
  then have "list_all2 (\<lambda>ws blk. map tval ws = map of_bool (data_bits blk)) (chunks_of 1024 ?bits) (chunks_of 128 ?p)"
    by (rule map_pointwise)
  then have "list_all2 (\<lambda>ws blk. words_are (chunks_of 64 ws) (map u64_from_le_bytes (chunks_of 8 blk))) (chunks_of 1024 ?bits) (chunks_of 128 ?p)"
    unfolding list_all2_conv_all_nth using block nth_mem by metis
  then show ?thesis by (simp only: b2_message_padded list_all2_map1 list_all2_map2)
qed

lemma block_count: "max (8 * n div 1024 + of_bool (8 * n mod 1024 \<noteq> 0)) 1 = block_number n"
proof -
  have q: "8 * n div 1024 = n div 128" "8 * n mod 1024 = 8 * (n mod 128)"
    using div_mult_mult1 [of 8 n 128] mult_mod_right [of 8 n 128] by simp_all
  have n: "n = 128 * (n div 128) + n mod 128" "n mod 128 < 128" by simp_all
  have "n div 128 = (n + 127) div 128" if "n mod 128 = 0"
    using n that by (intro div_nat_eqI [symmetric]; simp only: add_mult_distrib2 mult_Suc_right Suc_eq_plus1 mult_1_right; linarith)
  moreover have "n div 128 + 1 = (n + 127) div 128" if "n mod 128 \<noteq> 0"
    using n that by (intro div_nat_eqI [symmetric]; simp only: add_mult_distrib2 mult_Suc_right Suc_eq_plus1 mult_1_right; linarith)
  ultimately have "8 * n div 1024 + of_bool (8 * n mod 1024 \<noteq> 0) = (n + 127) div 128"
    unfolding q by (cases "n mod 128 = 0") simp_all
  then show ?thesis by (simp only: block_number_def)
qed

lemma blocks_fold:
  fixes h :: "'a::field target list list"
  assumes "order_ok TYPE('a)" and "canon_ok cfg" and "words_are h hs" and "length hs = 8"
    and "list_all2 words_are blocks ms" and "\<forall>m \<in> set ms. length m = 16" and "k \<le> length ms"
    and "sat (circuit_fold (\<lambda>h i. blake2_F cfg h (blocks ! i) (constant_target ((i + 1) * 128)) False) h [0..<k]) adv pos r pos'"
  obtains ns where "list_all2 (\<lambda>n e. n < 2 ^ 64 \<and> of_nat n = e) ns (map (\<lambda>i. of_nat ((i + 1) * 128) :: 'a) [0..<k])"
    "words_are r (foldl (\<lambda>h (m, t). b2_F h m t False) hs (zip (take k ms) (map of_nat ns)))"
proof -
  let ?I = "\<lambda>j r. \<exists>ns. list_all2 (\<lambda>n e. n < 2 ^ 64 \<and> of_nat n = e) ns (map (\<lambda>i. of_nat ((i + 1) * 128) :: 'a) [0..<j])
    \<and> words_are r (foldl (\<lambda>h (m, t). b2_F h m t False) hs (zip (take j ms) (map of_nat ns)))
    \<and> length (foldl (\<lambda>h (m, t). b2_F h m t False) hs (zip (take j ms) (map of_nat ns))) = 8"
  have "?I k r"
  proof (rule circuit_fold_invariant [where I = ?I, OF assms(8)])
    show "?I 0 h" using assms(3,4) by simp
    fix j s p s' p' assume j: "j < k" and I: "?I j s" and step: "sat (blake2_F cfg s (blocks ! j) (constant_target ((j + 1) * 128)) False) adv p s' p'"
    from I obtain ns where ns: "list_all2 (\<lambda>n e. n < 2 ^ 64 \<and> of_nat n = e) ns (map (\<lambda>i. of_nat ((i + 1) * 128) :: 'a) [0..<j])"
      "words_are s (foldl (\<lambda>h (m, t). b2_F h m t False) hs (zip (take j ms) (map of_nat ns)))"
      "length (foldl (\<lambda>h (m, t). b2_F h m t False) hs (zip (take j ms) (map of_nat ns))) = 8" by blast
    have jm: "j < length ms" using j assms(7) by simp
    have blk: "words_are (blocks ! j) (ms ! j)" "length (ms ! j) = 16" using assms(5,6) jm by (simp_all add: list_all2_conv_all_nth)
    obtain n where n: "n < 2 ^ 64" "tval (constant_target ((j + 1) * 128) :: 'a target) = of_nat n"
      "words_are s' (b2_F (foldl (\<lambda>h (m, t). b2_F h m t False) hs (zip (take j ms) (map of_nat ns))) (ms ! j) (of_nat n) False)"
      by (rule blake2_F_sound [OF assms(1,2) ns(2,3) blk step])
    have len: "length ns = j" using list_all2_lengthD [OF ns(1)] by simp
    have zip: "zip (take (Suc j) ms) (map of_nat (ns @ [n])) = zip (take j ms) (map of_nat ns) @ [(ms ! j, of_nat n :: u64)]"
      using jm len by (simp add: take_Suc_conv_app_nth)
    have "list_all2 (\<lambda>n e. n < 2 ^ 64 \<and> of_nat n = e) (ns @ [n]) (map (\<lambda>i. of_nat ((i + 1) * 128) :: 'a) [0..<Suc j])"
      using ns(1) n(1,2) by (simp add: list_all2_appendI)
    then show "?I (Suc j) s'" using n(3) by (intro exI [of _ "ns @ [n]"]) (simp only: zip foldl_append foldl_Cons foldl_Nil prod.case length_b2_F simp_thms)
  qed simp
  then show thesis using that by blast
qed

lemma digest_bits:
  assumes "words_are h hs" and "length hs = 8"
  shows "map tval (take 256 (concat h)) = map of_bool (data_bits (b2_digest hs))"
proof -
  have "map (map tval) h = map (\<lambda>x. map of_bool (word_bits x)) hs"
    using assms(1) by (auto simp: words_are_def word_is_def list_all2_conv_all_nth intro!: nth_equalityI)
  then have "map tval (concat h) = map of_bool (concat (map word_bits hs))" by (simp add: map_concat comp_def)
  also have "map word_bits hs = map (\<lambda>w. data_bits (u64_to_le_bytes w)) hs"
    by (rule map_cong [OF refl]) (use word_from_bytes [OF le_bytes_roundtrip(2,3)] in \<open>simp only: le_bytes_roundtrip(1)\<close>)
  also have "concat (map (\<lambda>w. data_bits (u64_to_le_bytes w)) hs) = data_bits (concat (map u64_to_le_bytes hs))"
    by (induction hs) (simp_all add: data_bits_append data_bits_def)
  finally have all: "map tval (concat h) = map of_bool (data_bits (concat (map u64_to_le_bytes hs)))" .
  have "take 32 (concat (map u64_to_le_bytes hs)) = b2_digest hs"
  proof -
    have hs: "hs = take 4 hs @ drop 4 hs" by simp
    have l: "length (concat (map u64_to_le_bytes (take 4 hs))) = 32"
      using assms(2) by (simp add: length_concat comp_def le_bytes_roundtrip(2) sum_list_triv)
    have "concat (map u64_to_le_bytes hs) = concat (map u64_to_le_bytes (take 4 hs)) @ concat (map u64_to_le_bytes (drop 4 hs))"
      by (subst hs) (simp only: map_append concat_append)
    with l show ?thesis by (simp add: b2_digest_def)
  qed
  with all take_data_bits [of 32 "concat (map u64_to_le_bytes hs)"] show ?thesis by (metis (no_types, lifting) mult.commute numeral_times_numeral take_map semiring_norm(11) semiring_norm(12) semiring_norm(13))
qed

theorem blake2_sound:
  fixes message :: "'a::field target list"
  assumes order: "order_ok TYPE('a)" and canon: "canon_ok cfg" and bits: "map tval message = map of_bool (data_bits data)"
    and bytes: "\<forall>b \<in> set data. b < 256" and sat: "sat (blake2_from_message_and_length cfg message len) adv pos r pos'"
  obtains digest where "admits_digest data (tval len) digest" "map tval r = map of_bool (data_bits digest)"
proof -
  let ?dd = "block_number (length data)"
  let ?blocks = "map (chunks_of 64) (chunks_of 1024 (message @ replicate (?dd * 1024 - length message) (constant_bool False)))"
  let ?ms = "b2_message data"
  have len: "length message = 8 * length data" using arg_cong [OF bits, of length] by simp
  from sat obtain h h' p q where parts:
    "sat (circuit_fold (\<lambda>h i. blake2_F cfg h (?blocks ! i) (constant_target ((i + 1) * 128)) False) (map word_to_word_targets blake2_initial) [0..<?dd - 1]) adv q h p"
    "sat (blake2_F cfg h (?blocks ! (?dd - 1)) len True) adv p h' pos'" "r = take 256 (concat h')"
    unfolding blake2_from_message_and_length_def Let_def len block_count by (auto simp: len)
  note words = message_words [OF bits bytes] and msg = b2_message_facts [where data = data]
  have d: "?dd - 1 < length ?ms" "?dd - 1 \<le> length ?ms" using msg(1) block_number_pos [of "length data"] by simp_all
  have init: "words_are (map word_to_word_targets blake2_initial) blake2_initial" "length blake2_initial = 8"
    by (rule words_are_constants) (simp add: blake2_initial_def blake2_IV_def)
  obtain ns where ns: "list_all2 (\<lambda>n e. n < 2 ^ 64 \<and> of_nat n = e) ns (map (\<lambda>i. of_nat ((i + 1) * 128) :: 'a) [0..<?dd - 1])"
    "words_are h (foldl (\<lambda>h (m, t). b2_F h m t False) blake2_initial (zip (take (?dd - 1) ?ms) (map of_nat ns)))"
    by (rule blocks_fold [OF order canon init words _ d(2) parts(1)]) (use msg(2) in blast)
  have l8: "length (foldl (\<lambda>h (m, t). b2_F h m t False) hs (zs :: (u64 list \<times> u64) list)) = 8" if "length hs = 8" for hs zs
    using that by (induction zs arbitrary: hs) auto
  have blk: "words_are (?blocks ! (?dd - 1)) (?ms ! (?dd - 1))" "length (?ms ! (?dd - 1)) = 16"
    using words msg d(1) by (auto simp: list_all2_conv_all_nth)
  obtain n where n: "n < 2 ^ 64" "tval len = of_nat n"
    "words_are h' (b2_F (foldl (\<lambda>h (m, t). b2_F h m t False) blake2_initial (zip (take (?dd - 1) ?ms) (map of_nat ns))) (?ms ! (?dd - 1)) (of_nat n) True)"
    by (rule blake2_F_sound [OF order canon ns(2) l8 [OF init(2)] blk parts(2)])
  have "?ms = take (?dd - 1) ?ms @ [?ms ! (?dd - 1)]" using d(1) msg(1) block_number_pos [of "length data"] by (metis Suc_diff_1 take_Suc_conv_app_nth take_all order.refl)
  moreover have "length (take (?dd - 1) ?ms) = length (map of_nat ns :: u64 list)" using list_all2_lengthD [OF ns(1)] d(2) by simp
  ultimately have "b2_blocks blake2_initial ?ms (map of_nat (ns @ [n])) =
      b2_F (foldl (\<lambda>h (m, t). b2_F h m t False) blake2_initial (zip (take (?dd - 1) ?ms) (map of_nat ns))) (?ms ! (?dd - 1)) (of_nat n) True"
    using b2_blocks_snoc [of "take (?dd - 1) ?ms" "map of_nat ns" blake2_initial "?ms ! (?dd - 1)" "of_nat n"] by simp
  with n(3) have "map tval r = map of_bool (data_bits (b2_hash data (ns @ [n])))"
    unfolding parts(3) b2_hash_def by (simp add: digest_bits)
  moreover have "admits_digest data (tval len) (b2_hash data (ns @ [n]))"
    unfolding admits_digest_def counters_def using ns(1) n(1,2) msg(1) by (intro exI [of _ "ns @ [n]"]) (simp add: list_all2_appendI)
  ultimately show thesis using that by blast
qed

text \<open>The hash itself is one of the digests that the circuit admits.\<close>

lemma blake2b_256_b2_hash:
  "blake2b_256 data = b2_hash data (map (\<lambda>i. (i + 1) * 128) [0..<length (b2_message data) - 1] @ [length data])"
  by (simp add: blake2b_256_def b2_hash_def Let_def comp_def)

lemma admits_blake2b_256:
  assumes "length data < 2 ^ 64"
  shows "admits_digest data (of_nat (length data) :: 'a::field) (blake2b_256 data)"
proof -
  have "(i + 1) * 128 < 2 ^ 64" if "i < length (b2_message data) - 1" for i
  proof -
    show ?thesis
    proof (rule ccontr)
      assume "\<not> (i + 1) * 128 < 2 ^ 64"
      then have "128 * 2 ^ 57 \<le> 128 * (i + 1)" by simp
      then have "2 ^ 57 \<le> i + 1" by (simp only: nat_mult_le_cancel1)
      moreover have "i + 1 < block_number (length data)" using that by (simp add: b2_message_facts(1))
      ultimately have "2 ^ 57 < (length data + 127) div 128" by (simp add: block_number_def split: if_splits)
      then have "(2 ^ 57 + 1) * 128 \<le> (length data + 127) div 128 * 128" by (intro mult_le_mono1) simp
      also have "\<dots> \<le> length data + 127" by (rule div_times_less_eq_dividend)
      finally show False using assms by simp
    qed
  qed
  then show ?thesis unfolding admits_digest_def blake2b_256_b2_hash counters_def
    using assms by (intro exI conjI refl list_all2_appendI) (auto simp: list_all2_conv_all_nth nth_append less_Suc_eq)
qed

end
