(* ===== verification/Generic_Blake2.thy ===== *)
theory Generic_Blake2
  imports Proof_System Blake2_Digest
begin

text \<open>
  Hashes of data of variable length (\<open>prover/src/common/generic_blake2.rs\<close>): one circuit per number
  of blocks, and a circuit that verifies a proof of any of them. An accepted proof fixes the bytes up
  to the last block, a length that ends in the last block or at its start, zeros between them, and a
  digest of the blocks.
\<close>

definition variative_blake2 :: "('a::field) config \<Rightarrow> nat \<Rightarrow> ('a, 'a target list) circuit" where
  "variative_blake2 cfg block_count =
     circuit_bind add_virtual_target (\<lambda>length_target.
     circuit_bind (circuit_map (\<lambda>_. circuit_bind add_virtual_target byte_from_target_safe) [0..<1024]) (\<lambda>data_target.
     circuit_bind (circuit_fold (\<lambda>(data_end, current_idx) byte.
         let len_exceeded = is_equal current_idx length_target; data_end = or_target len_exceeded data_end;
             byte_is_zero = is_equal byte (constant_target 0); byte_is_not_zero = not_target byte_is_zero;
             byte_invalid = and_target data_end byte_is_not_zero
         in circuit_bind (assert_zero byte_invalid) (\<lambda>_. circuit_return (data_end, add_target current_idx (constant_target 1))))
       (constant_bool False, constant_target 0) (take (block_count * 128) data_target)) (\<lambda>(data_end, current_idx).
     let length_is_max = is_equal current_idx length_target; length_valid = or_target length_is_max data_end
     in circuit_bind (assert_one length_valid) (\<lambda>_.
        let max_length = constant_target (block_count * 128); padded_length = sub_target max_length length_target;
            compare_with_zero = sub_target (constant_target 128) padded_length
        in circuit_bind (range_check compare_with_zero 32) (\<lambda>_.
           circuit_bind (circuit_map (\<lambda>t. circuit_bind (as_bit_targets t) (\<lambda>bits. circuit_return (rev bits)))
             (take (block_count * 128) data_target)) (\<lambda>data_target_bits.
           circuit_bind (blake2_from_message_and_length cfg (concat data_target_bits) length_target) (\<lambda>hash.
             circuit_return (data_target @ [length_target] @ hash))))))))"

definition random_access_verifier_data :: "'a::field target \<Rightarrow> 'a list list \<Rightarrow> ('a, 'a target list) circuit" where
  "random_access_verifier_data idx vds =
     circuit_map (\<lambda>k. random_access idx (map (\<lambda>vd. Constant (vd ! k)) vds)) [0..<verifier_data_size]"

definition generic_blake2 :: "'a::field list list \<Rightarrow> 'a verifier \<Rightarrow> ('a, 'a target list) circuit" where
  "generic_blake2 verifier_data_by_block_count verify =
     circuit_bind add_virtual_target (\<lambda>block_count_target.
     circuit_bind (add_virtual_targets (1024 + 1 + 256)) (\<lambda>proof_with_pis_target.
     let verifier_data_targets = verifier_data_by_block_count @
           replicate (next_power_of_two (length verifier_data_by_block_count) - length verifier_data_by_block_count) (last verifier_data_by_block_count);
         verifier_data_idx = sub_target block_count_target (constant_target 1)
     in circuit_bind (random_access_verifier_data verifier_data_idx verifier_data_targets) (\<lambda>verifier_data_target.
        circuit_bind (verify_proof verify verifier_data_target proof_with_pis_target) (\<lambda>_.
          circuit_return proof_with_pis_target))))"

text \<open>The preconditions of the prover's side.\<close>

definition generic_blake2_new :: "nat \<Rightarrow> bytes \<Rightarrow> bytes exec" where
  "generic_blake2_new max_data_length_estimation data =
     (if 1024 < max_data_length_estimation then Panic ''assertion failed''
      else if max_data_length_estimation < length data then Panic ''assertion failed'' else Ret data)"

section \<open>What an accepted hash means\<close>

definition generic_digest :: "'a::field itself \<Rightarrow> nat \<Rightarrow> nat list \<Rightarrow> nat \<Rightarrow> nat list \<Rightarrow> bool" where
  "generic_digest _ block_count data len digest \<longleftrightarrow>
     (block_count - 1) * 128 \<le> len \<and> len \<le> block_count * 128 \<and> length data = 1024 \<and> list_all (\<lambda>b. b < 256) data
     \<and> (\<forall>i. len \<le> i \<longrightarrow> i < block_count * 128 \<longrightarrow> data ! i = 0)
     \<and> admits_digest (take (block_count * 128) data) (of_nat len :: 'a) digest"

definition hash_pis :: "'a::field list \<Rightarrow> nat list \<Rightarrow> nat \<Rightarrow> nat list \<Rightarrow> bool" where
  "hash_pis pis data len digest \<longleftrightarrow> pis = map of_nat data @ [of_nat len] @ map of_bool (data_bits digest)"

definition variative_means :: "nat \<Rightarrow> 'a::field list \<Rightarrow> bool" where
  "variative_means block_count pis \<longleftrightarrow>
     (\<exists>data len digest. hash_pis pis data len digest \<and> generic_digest TYPE('a) block_count data len digest)"

definition generic_means :: "'a::field list \<Rightarrow> bool" where
  "generic_means pis \<longleftrightarrow> (\<exists>block_count \<in> {1..8}. variative_means block_count pis)"

lemma sat_fold_prefix:
  assumes "sat (circuit_fold f s (xs :: 'x list)) adv pos r pos'" and "I 0 s"
    and "\<And>j s p s' p'. j < length xs \<Longrightarrow> I j s \<Longrightarrow> sat (f s (xs ! j)) adv p s' p' \<Longrightarrow> I (Suc j) s'"
  shows "I (length xs) r"
  using assms
proof (induction xs arbitrary: s pos I)
  case (Cons x xs)
  from Cons.prems(1) obtain s' p where step: "sat (f s x) adv pos s' p" "sat (circuit_fold f s' xs) adv p r pos'" by auto
  have "(\<lambda>j. I (Suc j)) (length xs) r"
  proof (rule Cons.IH [OF step(2), of "\<lambda>j. I (Suc j)"])
    show "I (Suc 0) s'" using Cons.prems(3) [of 0 s] Cons.prems(2) step(1) by simp
  qed (use Cons.prems(3) [of "Suc j" for j] in auto)
  then show ?case by simp
qed auto

text \<open>The loop over the bytes: whether the length was met, and the zeros after it.\<close>

definition scanned :: "nat list \<Rightarrow> 'a::field \<Rightarrow> nat \<Rightarrow> 'a target \<times> 'a target \<Rightarrow> bool" where
  "scanned data len j st \<longleftrightarrow>
     tval (fst st) = of_bool (\<exists>i < j. of_nat i = len) \<and> tval (snd st) = of_nat j
     \<and> (\<forall>i k. of_nat i = len \<longrightarrow> i \<le> k \<longrightarrow> k < j \<longrightarrow> (of_nat (data ! k) :: 'a) = 0)"

lemma scan_step:
  assumes "scanned data (tval length_target) j (data_end, current_idx)" and "tval byte = of_nat (data ! j)"
    and "sat (let len_exceeded = is_equal current_idx length_target; data_end = or_target len_exceeded data_end;
             byte_is_zero = is_equal byte (constant_target 0); byte_is_not_zero = not_target byte_is_zero;
             byte_invalid = and_target data_end byte_is_not_zero
         in circuit_bind (assert_zero byte_invalid) (\<lambda>_. circuit_return (data_end, add_target current_idx (constant_target 1)))) adv p st p'"
  shows "scanned data (tval length_target) (Suc j) st"
proof -
  let ?met = "\<exists>i < j. of_nat i = tval length_target" let ?now = "of_nat j = tval length_target"
  have vals: "tval data_end = of_bool ?met" "tval current_idx = of_nat j"
    and zeros: "\<forall>i k. of_nat i = tval length_target \<longrightarrow> i \<le> k \<longrightarrow> k < j \<longrightarrow> of_nat (data ! k) = (0 :: 'a)"
    using assms(1) by (auto simp: scanned_def)
  have e: "tval (or_target (is_equal current_idx length_target) data_end) = of_bool (?now \<or> ?met)"
    by (rule tval_or) (simp_all add: vals)
  have z: "tval (not_target (is_equal byte (constant_target 0))) = of_bool (of_nat (data ! j) \<noteq> (0 :: 'a))"
    by (rule tval_not) (simp add: assms(2))
  from assms(3) have st: "st = (or_target (is_equal current_idx length_target) data_end, add_target current_idx (constant_target 1))"
    and "tval (and_target (or_target (is_equal current_idx length_target) data_end) (not_target (is_equal byte (constant_target 0)))) = 0"
    by (auto simp: Let_def)
  with tval_and [OF e z] have now: "of_nat (data ! j) = (0 :: 'a)" if "?now \<or> ?met" using that by (simp split: if_splits)
  have "of_nat (data ! k) = (0 :: 'a)" if "of_nat i = tval length_target" "i \<le> k" "k < Suc j" for i k
  proof (cases "k = j")
    case True
    with that have "?now \<or> ?met" by (cases "i = j") auto
    with now True show ?thesis by simp
  qed (use zeros that in auto)
  moreover have "(\<exists>i < Suc j. of_nat i = tval length_target) \<longleftrightarrow> ?now \<or> ?met" by (auto simp: less_Suc_eq)
  ultimately show ?thesis using e vals(2) by (simp add: scanned_def st)
qed

lemma byte_small: "order_ok TYPE('a::field) \<Longrightarrow> n < 256 \<Longrightarrow> (of_nat n :: 'a) = 0 \<Longrightarrow> n = 0"
  using of_nat_eqD [of n 0] by (simp add: goldilocks_order_def)

lemma byte_msb_rev: "byte_msb n = rev (bits_le 8 n)"
  by (simp add: byte_msb_def)

lemma data_bits_concat: "data_bits ns = concat (map byte_msb ns)"
  by (simp add: data_bits_def)

lemma variative_sound:
  fixes cfg :: "('a::field) config"
  assumes order: "order_ok TYPE('a)" and canon: "canon_ok cfg" and bc: "1 \<le> block_count" "block_count \<le> 8"
    and sat: "sat (variative_blake2 cfg block_count) adv pos r pos'"
  shows "variative_means block_count (map tval r)"
proof -
  obtain len data p1 p2 p3 p4 p5 p6 data_end current_idx bitss hash where parts:
    "sat (circuit_map (\<lambda>_. circuit_bind add_virtual_target byte_from_target_safe) [0..<1024]) adv p1 data p2"
    "sat (circuit_fold (\<lambda>(data_end, current_idx) byte.
         let len_exceeded = is_equal current_idx len; data_end = or_target len_exceeded data_end;
             byte_is_zero = is_equal byte (constant_target 0); byte_is_not_zero = not_target byte_is_zero;
             byte_invalid = and_target data_end byte_is_not_zero
         in circuit_bind (assert_zero byte_invalid) (\<lambda>_. circuit_return (data_end, add_target current_idx (constant_target 1))))
       (constant_bool False, constant_target 0) (take (block_count * 128) data)) adv p2 (data_end, current_idx) p3"
    "tval (or_target (is_equal current_idx len) data_end) = 1"
    "sat (range_check (sub_target (constant_target 128) (sub_target (constant_target (block_count * 128)) len)) 32) adv p3 () p4"
    "sat (circuit_map (\<lambda>t. circuit_bind (as_bit_targets t) (\<lambda>bits. circuit_return (rev bits))) (take (block_count * 128) data)) adv p4 bitss p5"
    "sat (blake2_from_message_and_length cfg (concat bitss) len) adv p5 hash p6" "r = data @ [len] @ hash"
    using sat unfolding variative_blake2_def sat_bind Let_def sat_return split_beta by (auto simp: Let_def split_beta)
  have l: "length data = 1024" using sat_map_length [OF parts(1)] by simp
  have "\<exists>n. byte_is (data ! i) n" if "i < 1024" for i
    by (rule sat_map_nth [OF parts(1), of i]) (use that in \<open>auto dest!: byte_checked\<close>)
  then obtain f where f: "\<And>i. i < 1024 \<Longrightarrow> byte_is (data ! i) (f i)" by metis
  define ds where "ds = map f [0..<1024]"
  have ds: "length ds = 1024" "\<And>i. i < 1024 \<Longrightarrow> byte_is (data ! i) (ds ! i)" using f by (simp_all add: ds_def)
  have small: "list_all (\<lambda>b. b < 256) ds" using ds f by (auto simp: ds_def byte_is_def list_all_iff)
  have vals: "map tval data = map of_nat ds" by (rule nth_equalityI) (use l ds in \<open>auto simp: byte_is_def\<close>)
  let ?n = "block_count * 128"
  have n: "?n \<le> 1024" using bc by simp
  have "scanned ds (tval len) (length (take ?n data)) (data_end, current_idx)"
  proof (rule sat_fold_prefix [OF parts(2)])
    show "scanned ds (tval len) 0 (constant_bool False, constant_target 0)" by (simp add: scanned_def)
    fix j st p st' p' assume "j < length (take ?n data)" "scanned ds (tval len) j st"
      and step: "sat ((\<lambda>(data_end, current_idx) byte.
         let len_exceeded = is_equal current_idx len; data_end = or_target len_exceeded data_end;
             byte_is_zero = is_equal byte (constant_target 0); byte_is_not_zero = not_target byte_is_zero;
             byte_invalid = and_target data_end byte_is_not_zero
         in circuit_bind (assert_zero byte_invalid) (\<lambda>_. circuit_return (data_end, add_target current_idx (constant_target 1)))) st (take ?n data ! j)) adv p st' p'"
    moreover obtain e c where "st = (e, c)" by (cases st)
    moreover have "tval (take ?n data ! j) = of_nat (ds ! j)" using calculation(1) ds(2) l by (simp add: byte_is_def)
    ultimately show "scanned ds (tval len) (Suc j) st'" by (intro scan_step [of ds len j e c]) simp_all
  qed
  then have end_is: "tval data_end = of_bool (\<exists>i < ?n. of_nat i = tval len)" and idx: "tval current_idx = of_nat ?n"
    and zeros: "\<forall>i k. of_nat i = tval len \<longrightarrow> i \<le> k \<longrightarrow> k < ?n \<longrightarrow> of_nat (ds ! k) = (0 :: 'a)"
    using l n by (auto simp: scanned_def min_def)
  have "tval (or_target (is_equal current_idx len) data_end) = of_bool (of_nat ?n = tval len \<or> (\<exists>i < ?n. of_nat i = tval len))"
    by (rule tval_or) (simp_all add: idx end_is)
  then have "of_nat ?n = tval len \<or> (\<exists>i < ?n. of_nat i = tval len)" unfolding parts(3) by (simp only: of_bool_eq_1_iff eq_commute [of 1])
  then have "\<exists>i \<le> ?n. of_nat i = tval len" by (auto intro: less_imp_le)
  then obtain m where m: "m \<le> ?n" "tval len = of_nat m" by metis
  obtain d where d: "d < 2 ^ 32" "of_nat 128 - (of_nat ?n - of_nat m) = (of_nat d :: 'a)"
    using range_check_bits [OF parts(4)] m(2) by auto
  have "of_nat (128 + m) = (of_nat (?n + d) :: 'a)" using d(2) by (simp add: algebra_simps)
  then have "128 + m = ?n + d" by (rule of_nat_eqD [OF order]) (use m(1) n d(1) in \<open>simp_all add: goldilocks_order_def\<close>)
  then have low: "(block_count - 1) * 128 \<le> m" by (simp add: diff_mult_distrib)
  have "map tval (bitss ! i) = map of_bool (byte_msb (ds ! i))" if i: "i < ?n" for i
  proof -
    have "i < length (take ?n data)" using i l n by simp
    then obtain q q' where "sat (circuit_bind (as_bit_targets (take ?n data ! i)) (\<lambda>bits. circuit_return (rev bits))) adv q (bitss ! i) q'"
      by (rule sat_map_nth [OF parts(5)])
    then obtain bits where "sat (as_bit_targets (data ! i)) adv q bits q'" "bitss ! i = rev bits" using i by auto
    with byte_bits [OF order ds(2)] i n show ?thesis by (simp add: byte_msb_rev rev_map [symmetric])
  qed
  moreover have "length bitss = ?n" using sat_map_length [OF parts(5)] l n by simp
  ultimately have "map (map tval) bitss = map (\<lambda>b. map of_bool (byte_msb b)) (take ?n ds)"
    by (intro nth_equalityI) (use ds(1) n in auto)
  then have bits: "map tval (concat bitss) = map of_bool (data_bits (take ?n ds))" by (simp add: map_concat data_bits_concat comp_def)
  have "\<forall>b \<in> set (take ?n ds). b < 256" using small by (auto simp: list_all_iff dest: in_set_takeD)
  from blake2_sound [OF order canon bits this parts(6)] obtain digest where
    digest: "admits_digest (take ?n ds) (tval len) digest" "map tval hash = map of_bool (data_bits digest)" .
  have "ds ! i = 0" if "m \<le> i" "i < ?n" for i
    by (rule byte_small [OF order]) (use zeros m(2) that small ds(1) n in \<open>auto simp: list_all_length\<close>)
  with low m ds(1) small digest(1) have "generic_digest TYPE('a) block_count ds m digest" by (simp add: generic_digest_def)
  moreover have "hash_pis (map tval r) ds m digest" using parts(7) vals m(2) digest(2) by (simp add: hash_pis_def)
  ultimately show ?thesis unfolding variative_means_def by blast
qed

section \<open>Any number of blocks\<close>

lemma random_access_verifier_data_sound:
  fixes idx :: "'a::field target"
  assumes "order_ok TYPE('a)" and "sat (random_access_verifier_data idx vds) adv pos r pos'" and "length vds < 2 ^ 32"
    and "\<forall>vd \<in> set vds. length vd = verifier_data_size"
  obtains vd where "vd \<in> set vds" "map tval r = vd"
proof -
  have read: "\<exists>i < length vds. tval idx = of_nat i \<and> tval (r ! k) = vds ! i ! k" if "k < verifier_data_size" for k
  proof (rule sat_map_nth [OF assms(2) [unfolded random_access_verifier_data_def], of k])
    fix p p' assume "sat (random_access idx (map (\<lambda>vd. Constant (vd ! ([0..<verifier_data_size] ! k))) vds)) adv p (r ! k) p'"
    then show ?thesis using that by (elim random_access_index) auto
  qed (use that in simp)
  then obtain i where i: "i < length vds" "tval idx = of_nat i" by (metis verifier_data_size_def add_gr_0 zero_less_numeral)
  have "tval (r ! k) = vds ! i ! k" if k: "k < verifier_data_size" for k
  proof -
    obtain j where "j < length vds" "tval idx = of_nat j" "tval (r ! k) = vds ! j ! k" using read [OF k] by blast
    moreover from this i assms(3) have "j = i" by (intro of_nat_eqD [OF assms(1)]) (auto simp: goldilocks_order_def)
    ultimately show ?thesis by simp
  qed
  moreover have "length r = verifier_data_size"
    using sat_map_length [OF assms(2) [unfolded random_access_verifier_data_def]] by simp
  moreover have "length (vds ! i) = verifier_data_size" using assms(4) i(1) by simp
  ultimately have "map tval r = vds ! i" by (intro nth_equalityI) auto
  then show thesis by (rule that [OF nth_mem [OF i(1)]])
qed

theorem generic_blake2_means:
  fixes vds :: "'a::field list list"
  assumes order: "order_ok TYPE('a)" and canon: "canon_ok cfg" and len: "length vds = 8" and size: "\<forall>vd \<in> set vds. length vd = verifier_data_size"
    and inner: "\<And>i. i < 8 \<Longrightarrow> proof_sound verify (vds ! i) (\<lambda>_. variative_blake2 cfg (i + 1))"
    and outer: "proof_sound verify vd (generic_blake2 vds)"
  shows "proof_means verify vd generic_means"
proof (rule proof_means_step [OF outer])
  fix n adv r pos' assume sat: "sat (generic_blake2 vds (verify n)) adv 0 r pos'"
  have pow: "next_power_of_two 8 = 8" by (simp add: next_power_of_two.simps)
  from sat obtain idx t p q where t: "sat (random_access_verifier_data idx vds) adv p t q" "verify n (map tval t) (map tval r)"
    unfolding generic_blake2_def Let_def by (auto simp: len pow)
  obtain d where d: "d \<in> set vds" "map tval t = d"
    by (rule random_access_verifier_data_sound [OF order t(1) _ size]) (simp_all add: len)
  then obtain i where i: "i < 8" "d = vds ! i" using len by (metis in_set_conv_nth)
  have "proof_means verify (vds ! i) (variative_means (i + 1))"
    by (rule proof_means_step [OF inner [OF i(1)]]) (rule variative_sound [OF order canon], use i(1) in auto)
  then have "variative_means (i + 1) (map tval r)" using t(2) d(2) i(2) proof_meansD by metis
  then show "generic_means (map tval r)" unfolding generic_means_def using i(1) by (intro bexI [of _ "i + 1"]) auto
qed

text \<open>A length that does not end at the start of the last block gives the digests of the data itself.\<close>

lemma generic_digest_exact:
  assumes "generic_digest TYPE('a::field) block_count data len digest" and "(block_count - 1) * 128 < len \<or> block_count = 1"
    and "1 \<le> block_count" and "block_count \<le> 8"
  shows "admits_digest (take len data) (of_nat len :: 'a) digest"
proof -
  have f: "(block_count - 1) * 128 \<le> len" "len \<le> block_count * 128" "length data = 1024"
    "\<And>i. len \<le> i \<Longrightarrow> i < block_count * 128 \<Longrightarrow> data ! i = 0" "admits_digest (take (block_count * 128) data) (of_nat len :: 'a) digest"
    using assms(1) by (auto simp: generic_digest_def)
  have n: "block_count * 128 \<le> 1024" using assms(4) by simp
  have l: "length (take len data) = len" "length (take (block_count * 128) data) = block_count * 128" using f(2,3) n by simp_all
  have "block_number len = block_count"
  proof -
    have "(len + 127) div 128 = block_count" if "0 < len" using that assms(2,3) f(1,2)
      by (intro div_nat_eqI) (auto simp: diff_mult_distrib)
    then show ?thesis using assms(2,3) by (cases "len = 0") (auto simp: block_number_def)
  qed
  moreover have "block_number (block_count * 128) = block_count"
  proof -
    have "(block_count * 128 + 127) div 128 = block_count" by (intro div_nat_eqI) auto
    then show ?thesis using assms(3) by (simp add: block_number_def)
  qed
  moreover have "take (block_count * 128) data = take len data @ replicate (block_count * 128 - len) 0"
    by (rule nth_equalityI) (use f n in \<open>auto simp: nth_append\<close>)
  ultimately have "padded_data (take len data) = padded_data (take (block_count * 128) data)"
    unfolding padded_data_def l by (simp only: diff_self_eq_0 replicate_0 append_Nil2)
  then have "b2_message (take len data) = b2_message (take (block_count * 128) data)" by (simp only: b2_message_padded)
  with f(5) show ?thesis by (simp add: admits_digest_def b2_hash_def)
qed

end
