(* ===== verification/Spec2Isabelle.thy ===== *)
theory Spec2Isabelle
  imports Light_Client_Proofs Bridging_Traces Submit_Receipt Bridge_Flow Bridging_Payment
    Proof_Program Gear_Proofs Fixed_Base Ed_Generator Node_Parser Generic_Blake2
begin

text \<open>
  A verification development of the bridge between the Vara (Gear) network and Ethereum.

  \<^bold>\<open>The program.\<close> Two directions, each with programs on the Gear network and a relayer outside it.

  \<^item> From Ethereum to Gear: a beacon chain light client (\<open>gear-programs/checkpoint-light-client\<close>) accepts
    updates signed by the sync committee and stores checkpoints of finalized headers; event programs
    (\<open>gear-programs/eth-events-*\<close>) check that a receipt is in a block linked to a checkpoint; a proxy
    (\<open>gear-programs/historical-proxy\<close>) picks the event program for a slot; the VFT manager
    (\<open>gear-programs/vft-manager\<close>) pays the deposit that the receipt logs.
  \<^item> From Gear to Ethereum: the VFT manager takes the tokens and queues a message at the bridge
    built-in; the relayer (\<open>relayer\<close>) proves the merkle root of the queue, with a chain of proofs over
    the authority sets, and submits it; the accumulator of the relayer pairs messages with roots.
    The circuits of the prover (\<open>prover\<close>, \<open>circuits\<close>) rest on gates for 32 bit numbers, on Ed25519
    and on Blake2b.

  \<^bold>\<open>The theories.\<close>

  \<^item> \<open>Bridge_Prelude\<close>, \<open>Rust_Slice\<close>, \<open>Rust_BTree\<close>: machine integers, one slice of a program's execution
    (\<open>exec\<close>: a value or a panic that reverts the slice), results as sums, and what the sources use of
    the Rust library: \<open>binary_search_by\<close> on ordered slices and \<open>BTreeMap\<close>.
  \<^item> \<open>Eth_Consensus\<close>, \<open>Ssz_Types\<close>, \<open>Beacon_Types\<close>, \<open>Beacon_Blocks\<close> (\<open>ethereum-common\<close>): slots and
    periods, merkle branches (complete, and binding up to a collision of the hash), SSZ bit
    vectors, bit lists and lists with their encodings and tree hashes, the containers of the
    beacon chain; a light block has the root of its full block. SHA-256 and Keccak are parameters, as
    is the hasher that builds a tree and refuses more leaves than its limit.
  \<^item> \<open>Checkpoints\<close>, \<open>Light_Client\<close>, \<open>Light_Client_Proofs\<close> (\<open>state.rs\<close>, \<open>services/sync_update\<close>,
    \<open>services/replay_back\<close>, \<open>services/checkpoint_for.rs\<close>): the ring of checkpoints and its lookup, the
    verification of an update, the handlers with their two slices around the BLS call; soundness of
    an accepted update, the ordering of checkpoints, the links of a replay, and what overlapping
    calls do. BLS aggregation and pairings are parameters.
  \<^item> \<open>Token_Map\<close>, \<open>Msg_Tracker\<close>, \<open>Vft_Manager\<close>, \<open>Request_Bridging\<close>, \<open>Submit_Receipt\<close>
    (\<open>vft-manager/app/src/services\<close>): the token map and its bijection, the message tracker, guarded
    administration and upgrade, the request handler and the receipt handler. A send has two
    outcomes: refused, or sent; after a message was sent the configuration may still refuse the
    deadline or the hook of its reply, which leaves a message that nobody awaits (\<open>Orphaned\<close>).
    \<open>Bridging_Protocol\<close> puts the request handler beside the VFT program and the bridge built-in as
    a step relation, with its invariant by rule induction; \<open>Bridging_Traces\<close> holds concrete runs.
  \<^item> \<open>Rlp_Node_Codec\<close>, \<open>Rlp_Encoding\<close> (\<open>ethereum-common/src/rlp_node_codec.rs\<close>): the codec of the nodes
    of a Patricia trie over the RLP format, whose laws are a locale interpreted on an encoder and a
    decoder of the format; every node that the codec writes is read back.
  \<^item> \<open>Eth_Events\<close>, \<open>Historical_Proxy\<close>, \<open>Bridge_Flow\<close>: the check of receipts against checkpoints, the
    endpoints of the proxy and the composition: a payment rests on a finalized block. The trie
    library is a parameter with the laws it documents for a lawful codec. The manager reads the
    payload at its own route, whatever route the caller of the proxy asked for.
  \<^item> \<open>Accumulator\<close>, \<open>Bridging_Payment\<close>: messages wait for a root of their authority set, paid messages
    pass the filter.
  \<^item> \<open>Proof_Storage\<close>, \<open>Proof_Files\<close>, \<open>Proof_Program\<close>, \<open>Authority_Sync\<close>, \<open>Merkle_Relayer\<close>,
    \<open>Prover_Interface\<close> (\<open>relayer/src\<close>): the storages of authority set proofs, in memory, on disk and
    on the Gear network, as implementations of one log; the loop that follows authority sets; the
    sealing of eras; the conversions around the prover. Any file of the disk may be refused at any
    call, and the search for the first block of an era is the one of \<open>Gear_Search\<close>.
  \<^item> \<open>Gear_Search\<close>, \<open>Gear_Proofs\<close> (\<open>gear-rpc-client/src\<close>): searches for blocks by era and authority set,
    finality proofs and proofs of storage inclusion.
  \<^item> \<open>U32_Gates\<close>, \<open>U32_Compare\<close>, \<open>U32_Gadgets\<close>, \<open>Big_Uint\<close>, \<open>Nonnative\<close> (\<open>circuits/plonky2_u32\<close>,
    \<open>plonky2_ecdsa\<close>, \<open>plonky2_ed25519\<close>): constraints and generators of the gates; on inputs in range the
    constraints admit the right outputs and no others. Gadgets, big integers and arithmetic modulo
    another prime over them.
  \<^item> \<open>Ed_Field\<close>, \<open>Ed_Curve\<close>, \<open>Ed_Mul\<close>, \<open>Ed_Generator\<close>, \<open>Curve_Circuit\<close>, \<open>Windowed_Mul\<close>, \<open>Fixed_Base\<close>
    (\<open>circuits/plonky2_ed25519\<close>): the curve on field elements and in circuits, and multiplication.
  \<^item> \<open>Goldilocks\<close>, \<open>Prover_Targets\<close>, \<open>Proof_System\<close>, \<open>Storage_Address\<close>, \<open>Node_Parser\<close> (\<open>prover/src\<close>): the
    field of the circuits, which is shown to be one, typed targets, verification of proofs inside
    circuits, and the parsers of trie nodes, each sound for a parser on bytes.
  \<^item> \<open>Blake2_Circuit\<close>, \<open>Blake2_Digest\<close>, \<open>Generic_Blake2\<close> (\<open>circuits/plonky2_blake2b256\<close>,
    \<open>prover/src/common/generic_blake2.rs\<close>): the Blake2b circuit against the function of RFC 7693, and
    what an accepted hash of data of variable length fixes.

  \<^bold>\<open>Conventions.\<close> Rust integers are words of their width and arithmetic that the release build wraps is
  word arithmetic; where the sources rely on checked or saturating operations those are written
  out. A handler that awaits a reply is split into one definition per slice, and the state between
  two slices is what the runtime keeps. \<open>anyhow::Result\<close> and the error enums are sums. Answers of
  other systems (nodes, the prover, hash functions, signature checks) are arguments.

  \<^bold>\<open>Loops and fuel.\<close> Loops over data are structural. Loops that poll or search are
  \<open>partial_function (option)\<close>, in which \<open>None\<close> means that the loop does not end, and that they end is
  proved as such. Only the decoder of RLP that shows the format to be lawful takes fuel: one more
  than the bytes of the list it reads, as every item has at least one byte.

  \<^bold>\<open>Not modelled.\<close> The Solidity contracts, the Go wrapper of the last proof and the front end are
  written in other languages; the circuits that join the parsers, hashes and curve gadgets to the
  proof of finality and to the final proof, and the SHA-512 circuit, are left out;
  command line, metrics and deployment are glue. The manifest lists every part.
\<close>

end
